(* ===== verification/Prelude.thy ===== *)
theory Prelude
  imports Main "HOL-Library.Word"
begin

text \<open>
  The shared vocabulary of the development: machine integers, byte buffers, the
  \<open>anyhow\<close>-style result type, little- and big-endian conversions, slices, UTF-8 validity,
  and the lemmas about them that every component uses.

  A Rust \<open>Vec<u8>\<close> or \<open>&[u8]\<close> is a list of 8-bit words. A Rust \<open>String\<close> is a
  byte list as well (\<open>rstring\<close>); that its bytes are valid UTF-8, which the type
  \<open>String\<close> guarantees, is the predicate \<open>utf8_valid\<close> wherever it matters.
  \<open>usize\<close> offsets and lengths of buffers are natural numbers: a buffer has at most
  \<open>isize::MAX\<close> bytes, so no sum of an offset and a 32-bit length overflows.
\<close>

named_theorems enc_intros \<open>introduction rules: a reader accepts the bytes its writer produced\<close>
named_theorems dec_intros \<open>introduction rules: what a reader accepts, its writer produced\<close>
named_theorems wf_simps \<open>well-formedness of wire values, unfolded\<close>

section \<open>Machine integers and results\<close>

type_synonym u8 = "8 word"
type_synonym u16 = "16 word"
type_synonym u32 = "32 word"
type_synonym u64 = "64 word"
type_synonym i64 = "64 word"
type_synonym bytes = "8 word list"
type_synonym rstring = "8 word list"

text \<open>
  \<open>bail!("text {a} {b}")\<close> is \<open>Bail\<close> of the format string and the numbers it prints; where a panic
  and an error have to be told apart, a panic is \<open>Panic\<close> of its message;
  a \<open>Result<T>\<close> is a sum whose left summand is the error.
\<close>

datatype bail = Bail string "nat list" | Panic string "nat list"

type_synonym 'a result = "bail + 'a"

definition bindE :: "'e + 'a \<Rightarrow> ('a \<Rightarrow> 'e + 'b) \<Rightarrow> 'e + 'b" where
  "bindE m f = (case m of Inl e \<Rightarrow> Inl e | Inr x \<Rightarrow> f x)"

lemma bindE_simps [simp]:
  "bindE (Inl e) f = Inl e"
  "bindE (Inr x) f = f x"
  by (simp_all add: bindE_def)

lemma bindE_eq_Inr [simp]: "bindE m f = Inr y \<longleftrightarrow> (\<exists>x. m = Inr x \<and> f x = Inr y)"
  by (cases m) auto

lemma bindE_assoc: "bindE (bindE m f) g = bindE m (\<lambda>x. bindE (f x) g)"
  by (cases m) auto

section \<open>Little- and big-endian integers\<close>

fun le_bytes :: "nat \<Rightarrow> nat \<Rightarrow> bytes" where
  "le_bytes 0 n = []"
| "le_bytes (Suc k) n = word_of_nat (n mod 256) # le_bytes k (n div 256)"

fun le_nat :: "bytes \<Rightarrow> nat" where
  "le_nat [] = 0"
| "le_nat (b # bs) = unat b + 256 * le_nat bs"

lemma length_le_bytes [simp]: "length (le_bytes k n) = k"
  by (induction k arbitrary: n) auto

lemma unat_byte [simp]: "unat (word_of_nat (n mod 256) :: u8) = n mod 256"
  by (simp add: unat_of_nat)

lemma le_nat_le_bytes: "le_nat (le_bytes k n) = n mod 256 ^ k"
proof (induction k arbitrary: n)
  case 0
  then show ?case by simp
next
  case (Suc k)
  then show ?case by (simp add: mod_mult2_eq)
qed

lemma unat_byte_less [simp]: "unat (b :: u8) < 256"
  using unsigned_less [of b, where ?'a = nat] by simp

lemma le_nat_less: "le_nat bs < 256 ^ length bs"
proof (induction bs)
  case Nil
  then show ?case by simp
next
  case (Cons b bs)
  have "unat b + 256 * le_nat bs < 256 + 256 * le_nat bs"
    by simp
  also have "\<dots> = 256 * Suc (le_nat bs)" by simp
  also have "\<dots> \<le> 256 * 256 ^ length bs"
    using Cons by (intro mult_le_mono2) simp
  finally show ?case by simp
qed

lemma le_bytes_le_nat: "le_bytes (length bs) (le_nat bs) = bs"
proof (induction bs)
  case Nil
  then show ?case by simp
next
  case (Cons b bs)
  have "(unat b + 256 * le_nat bs) mod 256 = unat b"
    and "(unat b + 256 * le_nat bs) div 256 = le_nat bs"
    by simp_all
  with Cons show ?case by simp
qed

definition u16_to_le :: "u16 \<Rightarrow> bytes" where "u16_to_le w = le_bytes 2 (unat w)"
definition u16_from_le :: "bytes \<Rightarrow> u16" where "u16_from_le bs = word_of_nat (le_nat bs)"
definition u32_to_le :: "u32 \<Rightarrow> bytes" where "u32_to_le w = le_bytes 4 (unat w)"
definition u32_from_le :: "bytes \<Rightarrow> u32" where "u32_from_le bs = word_of_nat (le_nat bs)"
definition u64_to_le :: "u64 \<Rightarrow> bytes" where "u64_to_le w = le_bytes 8 (unat w)"
definition u64_from_le :: "bytes \<Rightarrow> u64" where "u64_from_le bs = word_of_nat (le_nat bs)"
definition u128_to_be :: "128 word \<Rightarrow> bytes" where "u128_to_be w = rev (le_bytes 16 (unat w))"
definition u128_from_be :: "bytes \<Rightarrow> 128 word" where
  "u128_from_be bs = word_of_nat (le_nat (rev bs))"

lemma length_to_bytes [simp]:
  "length (u16_to_le a) = 2" "length (u32_to_le b) = 4" "length (u64_to_le c) = 8"
  "length (u128_to_be d) = 16"
  by (simp_all add: u16_to_le_def u32_to_le_def u64_to_le_def u128_to_be_def)

lemma word_le_roundtrip:
  fixes w :: "'a::len word"
  assumes "2 ^ LENGTH('a) = (256 :: nat) ^ k"
  shows "word_of_nat (le_nat (le_bytes k (unat w))) = w"
  using assms unsigned_less [of w, where ?'a = nat] by (simp add: le_nat_le_bytes)

lemma le_word_roundtrip:
  assumes "2 ^ LENGTH('a::len) = (256 :: nat) ^ k" and "length bs = k"
  shows "le_bytes k (unat (word_of_nat (le_nat bs) :: 'a word)) = bs"
proof -
  have "le_nat bs < 2 ^ LENGTH('a)"
    using le_nat_less [of bs] assms by simp
  then have "unat (word_of_nat (le_nat bs) :: 'a word) = le_nat bs"
    by (simp add: unat_of_nat)
  with assms(2) le_bytes_le_nat [of bs] show ?thesis by simp
qed

lemma from_to_bytes [simp]:
  "u16_from_le (u16_to_le a) = a"
  "u32_from_le (u32_to_le b) = b"
  "u64_from_le (u64_to_le c) = c"
  "u128_from_be (u128_to_be d) = d"
  by (simp_all add: u16_from_le_def u16_to_le_def u32_from_le_def u32_to_le_def
      u64_from_le_def u64_to_le_def u128_from_be_def u128_to_be_def word_le_roundtrip)

lemma to_from_bytes [simp]:
  "length bs = 2 \<Longrightarrow> u16_to_le (u16_from_le bs) = bs"
  "length bs = 4 \<Longrightarrow> u32_to_le (u32_from_le bs) = bs"
  "length bs = 8 \<Longrightarrow> u64_to_le (u64_from_le bs) = bs"
  "length bs = 16 \<Longrightarrow> u128_to_be (u128_from_be bs) = bs"
  by (simp_all add: u16_from_le_def u16_to_le_def u32_from_le_def u32_to_le_def
      u64_from_le_def u64_to_le_def u128_from_be_def u128_to_be_def le_word_roundtrip)

text \<open>\<open>n as u32\<close> keeps the low 32 bits.\<close>

definition as_u32 :: "nat \<Rightarrow> u32" where "as_u32 n = word_of_nat n"

lemma unat_as_u32: "unat (as_u32 n) = n mod 2 ^ 32"
  by (simp add: as_u32_def unat_of_nat)

lemma unat_as_u32_small [simp]: "n < 2 ^ 32 \<Longrightarrow> unat (as_u32 n) = n"
  by (simp add: unat_as_u32)

lemma as_u32_unat [simp]: "as_u32 (unat w) = w"
  by (simp add: as_u32_def)

section \<open>Slices\<close>

text \<open>\<open>buf[a..b]\<close>, used by the code only where a length check came first.\<close>

definition slice :: "'a list \<Rightarrow> nat \<Rightarrow> nat \<Rightarrow> 'a list" where
  "slice xs a b = take (b - a) (drop a xs)"

lemma length_slice [simp]: "length (slice xs a b) = min (b - a) (length xs - a)"
  by (simp add: slice_def)

lemma slice_drop: "a \<le> b \<Longrightarrow> slice xs a b @ drop b xs = drop a xs"
  by (metis add.commute append_take_drop_id drop_drop le_add_diff_inverse2 slice_def)

text \<open>\<open>iter().position(p)\<close> and \<open>Vec::insert\<close>.\<close>

fun position :: "('a \<Rightarrow> bool) \<Rightarrow> 'a list \<Rightarrow> nat option" where
  "position p [] = None"
| "position p (x # xs) = (if p x then Some 0 else map_option Suc (position p xs))"

definition vec_insert :: "'a list \<Rightarrow> nat \<Rightarrow> 'a \<Rightarrow> 'a list" where
  "vec_insert xs i x = take i xs @ x # drop i xs"

section \<open>UTF-8 validity\<close>

text \<open>
  \<open>String::from_utf8\<close> accepts exactly the well-formed UTF-8 sequences: no overlong forms,
  no surrogates, nothing above U+10FFFF.
\<close>

definition in_range :: "nat \<Rightarrow> nat \<Rightarrow> u8 \<Rightarrow> bool" where
  "in_range lo hi b \<longleftrightarrow> lo \<le> unat b \<and> unat b \<le> hi"

definition utf8_cont :: "u8 \<Rightarrow> bool" where
  "utf8_cont = in_range 0x80 0xBF"

definition utf8_second3 :: "u8 \<Rightarrow> u8 \<Rightarrow> bool" where
  "utf8_second3 a b \<longleftrightarrow>
     (if unat a = 0xE0 then in_range 0xA0 0xBF b
      else if unat a = 0xED then in_range 0x80 0x9F b
      else in_range 0xE1 0xEF a \<and> utf8_cont b)"

definition utf8_second4 :: "u8 \<Rightarrow> u8 \<Rightarrow> bool" where
  "utf8_second4 a b \<longleftrightarrow>
     (if unat a = 0xF0 then in_range 0x90 0xBF b
      else if unat a = 0xF4 then in_range 0x80 0x8F b
      else in_range 0xF1 0xF3 a \<and> utf8_cont b)"

fun utf8_valid :: "bytes \<Rightarrow> bool" where
  "utf8_valid [] = True"
| "utf8_valid (a # bs) =
     (if unat a < 0x80 then utf8_valid bs
      else if unat a < 0xE0 then
        (case bs of b # rest \<Rightarrow> in_range 0xC2 0xDF a \<and> utf8_cont b \<and> utf8_valid rest
                  | [] \<Rightarrow> False)
      else if unat a < 0xF0 then
        (case bs of b # c # rest \<Rightarrow> utf8_second3 a b \<and> utf8_cont c \<and> utf8_valid rest
                  | _ \<Rightarrow> False)
      else
        (case bs of b # c # d # rest \<Rightarrow>
            utf8_second4 a b \<and> utf8_cont c \<and> utf8_cont d \<and> utf8_valid rest
                  | _ \<Rightarrow> False))"

definition from_utf8 :: "string \<Rightarrow> bytes \<Rightarrow> rstring result" where
  "from_utf8 context bs = (if utf8_valid bs then Inr bs else Inl (Bail context []))"

lemma from_utf8_Inr [simp]: "from_utf8 ctxt bs = Inr s \<longleftrightarrow> utf8_valid bs \<and> s = bs"
  by (auto simp: from_utf8_def)

lemma from_utf8_valid [simp]: "utf8_valid bs \<Longrightarrow> from_utf8 ctxt bs = Inr bs"
  by (simp add: from_utf8_def)

text \<open>A string literal of the source: its ASCII characters as bytes.\<close>

definition lit :: "string \<Rightarrow> rstring" where
  "lit s = map of_char s"

text \<open>\<open>r.context(msg)?\<close>: \<open>anyhow\<close> shows the outermost message.\<close>

definition with_context :: "string \<Rightarrow> 'a result \<Rightarrow> 'a result" where
  "with_context msg r = (case r of Inl e \<Rightarrow> Inl (Bail msg []) | Inr x \<Rightarrow> Inr x)"

lemma with_context_Inr [simp]: "with_context msg r = Inr x \<longleftrightarrow> r = Inr x"
  by (cases r) (simp_all add: with_context_def)

end
