(* ===== verification/Cursor.thy ===== *)
theory Cursor
  imports Prelude
begin

text \<open>
  The cursor style of the three wire modules: a reader is a function of the buffer and of
  the offset \<open>&mut offset\<close>, and returns an error or a value and the advanced offset.
  \<open>bindP\<close> is the sequencing that \<open>?\<close> and the shared \<open>offset\<close> variable give.

  Two judgements relate readers to writers. \<open>encodes t bs x\<close> says that \<open>t\<close>, started where
  the bytes \<open>bs\<close> begin, reads exactly them and returns \<open>x\<close>, whatever follows;
  \<open>consumes t P\<close> says that whenever \<open>t\<close> succeeds, the bytes between the two offsets and
  the value satisfy \<open>P\<close>. \<open>encodes_all\<close> and \<open>consumes_all\<close> are the same for
  readers that are given the rest of the buffer. The locale \<open>wire_pair\<close> is the contract a
  writer/reader pair promises, \<open>codec\<close> adds that the reader is canonical; the codecs of
  the components interpret them and compose by their list lemmas.
\<close>

type_synonym 'a taker = "bytes \<Rightarrow> nat \<Rightarrow> ('a \<times> nat) result"

definition returnP :: "'a \<Rightarrow> 'a taker" where
  "returnP x = (\<lambda>buf off. Inr (x, off))"

definition failP :: "bail \<Rightarrow> 'a taker" where
  "failP e = (\<lambda>buf off. Inl e)"

definition bindP :: "'a taker \<Rightarrow> ('a \<Rightarrow> 'b taker) \<Rightarrow> 'b taker" where
  "bindP t k = (\<lambda>buf off. bindE (t buf off) (\<lambda>(x, off'). k x buf off'))"

text \<open>\<open>for _ in 0..count { out.push(take(buf, offset)?) }\<close>\<close>

fun take_n :: "'a taker \<Rightarrow> nat \<Rightarrow> 'a list taker" where
  "take_n t 0 = returnP []"
| "take_n t (Suc n) = bindP t (\<lambda>x. bindP (take_n t n) (\<lambda>xs. returnP (x # xs)))"

text \<open>\<open>buf[offset..].to_vec()\<close>\<close>

definition take_rest :: "bytes taker" where
  "take_rest = (\<lambda>buf off. Inr (drop off buf, length buf))"

text \<open>A pure check in the middle of a reader, \<open>let x = r?; ..\<close>.\<close>

definition checkP :: "'a result \<Rightarrow> ('a \<Rightarrow> 'b taker) \<Rightarrow> 'b taker" where
  "checkP r k = (case r of Inl e \<Rightarrow> failP e | Inr x \<Rightarrow> k x)"

lemma checkP_simps [simp]:
  "checkP (Inr x) k = k x"
  "checkP (Inl e) k = failP e"
  by (simp_all add: checkP_def)

section \<open>Readers accept what writers produce\<close>

definition encodes :: "'a taker \<Rightarrow> bytes \<Rightarrow> 'a \<Rightarrow> bool" where
  "encodes t bs x \<longleftrightarrow>
     (\<forall>buf off post. off \<le> length buf \<longrightarrow> drop off buf = bs @ post \<longrightarrow>
        t buf off = Inr (x, off + length bs))"

definition encodes_all :: "'a taker \<Rightarrow> bytes \<Rightarrow> 'a \<Rightarrow> bool" where
  "encodes_all t bs x \<longleftrightarrow>
     (\<forall>buf off. off \<le> length buf \<longrightarrow> drop off buf = bs \<longrightarrow>
        t buf off = Inr (x, length buf))"

lemma drop_prefix_le:
  assumes "drop off buf = bs @ post" and "off \<le> length buf"
  shows "off + length bs \<le> length buf" and "drop (off + length bs) buf = post"
    and "slice buf off (off + length bs) = bs"
proof -
  have "length (drop off buf) = length bs + length post"
    using assms(1) by simp
  then show "off + length bs \<le> length buf"
    using assms(2) by simp
  show "drop (off + length bs) buf = post"
    by (metis add.commute append_eq_conv_conj assms(1) drop_drop)
  show "slice buf off (off + length bs) = bs"
    using assms(1) by (simp add: slice_def)
qed

lemma encodes_return [enc_intros]: "encodes (returnP x) [] x"
  by (simp add: encodes_def returnP_def)

lemma encodes_bind [enc_intros]:
  assumes "encodes t a x" and "encodes (k x) b y"
  shows "encodes (bindP t k) (a @ b) y"
  unfolding encodes_def
proof (intro allI impI)
  fix buf off post
  assume off: "off \<le> length buf" and d: "drop off buf = (a @ b) @ post"
  then have d1: "drop off buf = a @ (b @ post)" by simp
  note p = drop_prefix_le [OF d1 off]
  have "t buf off = Inr (x, off + length a)"
    using assms(1) off d1 unfolding encodes_def by blast
  moreover have "k x buf (off + length a) = Inr (y, off + length a + length b)"
    using assms(2) p(1,2) unfolding encodes_def by blast
  ultimately show "bindP t k buf off = Inr (y, off + length (a @ b))"
    by (simp add: bindP_def add.assoc)
qed

lemma encodes_bind_return [enc_intros]:
  assumes "encodes t a x" and "y = f x"
  shows "encodes (bindP t (\<lambda>x. returnP (f x))) a y"
  using encodes_bind [of t a x "\<lambda>x. returnP (f x)" "[]" y, OF assms(1)] encodes_return [of "f x"]
  by (simp add: assms(2))

lemma encodes_check [enc_intros]:
  "r = Inr x \<Longrightarrow> encodes (k x) a y \<Longrightarrow> encodes (checkP r k) a y"
  by simp

lemma encodes_all_bind:
  assumes "encodes t a x" and "encodes_all (k x) b y"
  shows "encodes_all (bindP t k) (a @ b) y"
  unfolding encodes_all_def
proof (intro allI impI)
  fix buf off
  assume off: "off \<le> length buf" and d: "drop off buf = a @ b"
  note p = drop_prefix_le [OF d off]
  have "t buf off = Inr (x, off + length a)"
    using assms(1) off d unfolding encodes_def by blast
  moreover have "k x buf (off + length a) = Inr (y, length buf)"
    using assms(2) p(1,2) unfolding encodes_all_def by blast
  ultimately show "bindP t k buf off = Inr (y, length buf)"
    by (simp add: bindP_def)
qed

lemma encodes_all_weaken:
  assumes "encodes t a x"
  shows "encodes_all t a x"
  unfolding encodes_all_def
proof (intro allI impI)
  fix buf off
  assume off: "off \<le> length buf" and d: "drop off buf = a"
  then have "length a = length buf - off" by auto
  with off d assms show "t buf off = Inr (x, length buf)"
    unfolding encodes_def by (metis append_Nil2 le_add_diff_inverse)
qed

lemma encodes_all_rest: "encodes_all take_rest bs bs"
  by (simp add: encodes_all_def take_rest_def)

lemma encodes_all_check:
  "r = Inr x \<Longrightarrow> encodes_all (k x) a y \<Longrightarrow> encodes_all (checkP r k) a y"
  by simp

lemma encodes_all_bind_all:
  assumes "encodes_all t a x" and "encodes_all (k x) [] y"
  shows "encodes_all (bindP t k) a y"
  using assms by (auto simp: encodes_all_def bindP_def)

lemma encodes_all_return: "encodes_all (returnP y) [] y"
  by (rule encodes_all_weaken [OF encodes_return])

lemma encodes_allD: "encodes_all t bs x \<Longrightarrow> t (pre @ bs) (length pre) = Inr (x, length pre + length bs)"
  by (simp add: encodes_all_def)

section \<open>What a reader accepts\<close>

definition consumes :: "'a taker \<Rightarrow> ('a \<Rightarrow> bytes \<Rightarrow> bool) \<Rightarrow> bool" where
  "consumes t P \<longleftrightarrow>
     (\<forall>buf off x off'. off \<le> length buf \<longrightarrow> t buf off = Inr (x, off') \<longrightarrow>
        off \<le> off' \<and> off' \<le> length buf \<and> P x (slice buf off off'))"

definition consumes_all :: "'a taker \<Rightarrow> ('a \<Rightarrow> bytes \<Rightarrow> bool) \<Rightarrow> bool" where
  "consumes_all t P \<longleftrightarrow>
     (\<forall>buf off x off'. off \<le> length buf \<longrightarrow> t buf off = Inr (x, off') \<longrightarrow>
        P x (drop off buf))"

lemma slice_append: "a \<le> b \<Longrightarrow> b \<le> c \<Longrightarrow> slice xs a c = slice xs a b @ slice xs b c"
  using take_add [of "b - a" "c - b" "drop a xs"] by (simp add: slice_def)

lemma slice_self [simp]: "slice xs a a = []"
  by (simp add: slice_def)

lemma consumes_return [dec_intros]: "P x [] \<Longrightarrow> consumes (returnP x) P"
  by (simp add: consumes_def returnP_def)

lemma consumes_fail [dec_intros]: "consumes (failP e) P"
  by (simp add: consumes_def failP_def)

lemma consumes_bind [dec_intros]:
  assumes "consumes t P" and "\<And>x a. P x a \<Longrightarrow> consumes (k x) (\<lambda>y b. Q y (a @ b))"
  shows "consumes (bindP t k) Q"
  unfolding consumes_def
proof (intro allI impI)
  fix buf off y off'
  assume off: "off \<le> length buf" and r: "bindP t k buf off = Inr (y, off')"
  then obtain x o1 where t: "t buf off = Inr (x, o1)" and k: "k x buf o1 = Inr (y, off')"
    by (auto simp: bindP_def)
  have 1: "off \<le> o1 \<and> o1 \<le> length buf \<and> P x (slice buf off o1)"
    using assms(1) off t unfolding consumes_def by blast
  then have "o1 \<le> off' \<and> off' \<le> length buf \<and> Q y (slice buf off o1 @ slice buf o1 off')"
    using assms(2) [of x "slice buf off o1"] k unfolding consumes_def by blast
  with 1 show "off \<le> off' \<and> off' \<le> length buf \<and> Q y (slice buf off off')"
    by (auto simp: slice_append [of off o1 off'])
qed

lemma consumes_mono: "consumes t P \<Longrightarrow> (\<And>x b. P x b \<Longrightarrow> Q x b) \<Longrightarrow> consumes t Q"
  unfolding consumes_def by blast

lemma consumes_check [dec_intros]:
  "(\<And>x. r = Inr x \<Longrightarrow> consumes (k x) Q) \<Longrightarrow> consumes (checkP r k) Q"
  by (cases r) (simp_all add: consumes_fail)

lemma consumes_all_bind:
  assumes "consumes t P" and "\<And>x a. P x a \<Longrightarrow> consumes_all (k x) (\<lambda>y b. Q y (a @ b))"
  shows "consumes_all (bindP t k) Q"
  unfolding consumes_all_def
proof (intro allI impI)
  fix buf off y off'
  assume off: "off \<le> length buf" and r: "bindP t k buf off = Inr (y, off')"
  then obtain x o1 where t: "t buf off = Inr (x, o1)" and k: "k x buf o1 = Inr (y, off')"
    by (auto simp: bindP_def)
  have 1: "off \<le> o1 \<and> o1 \<le> length buf \<and> P x (slice buf off o1)"
    using assms(1) off t unfolding consumes_def by blast
  then have "Q y (slice buf off o1 @ drop o1 buf)"
    using assms(2) [of x "slice buf off o1"] k unfolding consumes_all_def by blast
  with 1 show "Q y (drop off buf)"
    by (simp add: slice_drop)
qed

lemma consumes_all_rest: "(\<And>bs. Q (f bs) bs) \<Longrightarrow> consumes_all (bindP take_rest (\<lambda>bs. returnP (f bs))) Q"
  by (auto simp: consumes_all_def bindP_def take_rest_def returnP_def)

lemma consumes_all_rest_check:
  assumes "\<And>bs x. g bs = Inr x \<Longrightarrow> Q (f x) bs"
  shows "consumes_all (bindP take_rest (\<lambda>bs. checkP (g bs) (\<lambda>x. returnP (f x)))) Q"
  using assms by (auto simp: consumes_all_def bindP_def take_rest_def returnP_def checkP_def failP_def split: sum.splits)

lemma consumes_all_fail: "consumes_all (failP e) P"
  by (simp add: consumes_all_def failP_def)

lemma consumes_all_check:
  "(\<And>x. r = Inr x \<Longrightarrow> consumes_all (k x) Q) \<Longrightarrow> consumes_all (checkP r k) Q"
  by (cases r) (simp_all add: consumes_all_fail)

lemma consumes_allD:
  "consumes_all t P \<Longrightarrow> t buf off = Inr (x, off') \<Longrightarrow> off \<le> length buf \<Longrightarrow> P x (drop off buf)"
  unfolding consumes_all_def by blast

section \<open>Fixed-width fields and whole buffers\<close>

text \<open>
  \<open>if buf.len() < offset + n { bail!(..) } let v = f(buf[offset..offset + n]); offset += n\<close>
\<close>

definition take_fixed :: "nat \<Rightarrow> (nat \<Rightarrow> bail) \<Rightarrow> (bytes \<Rightarrow> 'a) \<Rightarrow> 'a taker" where
  "take_fixed n err f = (\<lambda>buf off.
     if length buf < off + n then Inl (err off) else Inr (f (slice buf off (off + n)), off + n))"

lemma encodes_fixed:
  assumes "length bs = n" and "f bs = x"
  shows "encodes (take_fixed n err f) bs x"
  unfolding encodes_def
proof (intro allI impI)
  fix buf off post
  assume "off \<le> length buf" and "drop off buf = bs @ post"
  from drop_prefix_le [OF this(2,1)] assms show "take_fixed n err f buf off = Inr (x, off + length bs)"
    by (auto simp: take_fixed_def)
qed

lemma consumes_fixed:
  assumes "\<And>bs. length bs = n \<Longrightarrow> P (f bs) bs"
  shows "consumes (take_fixed n err f) P"
  using assms by (auto simp: consumes_def take_fixed_def split: if_splits)

text \<open>A decoder that runs a reader from an offset and refuses trailing bytes.\<close>

definition decode_all :: "string \<Rightarrow> 'a taker \<Rightarrow> nat \<Rightarrow> bytes \<Rightarrow> 'a result" where
  "decode_all trailing t off buf =
     bindE (t buf off) (\<lambda>(x, off').
       if off' \<noteq> length buf then Inl (Bail trailing [length buf - off']) else Inr x)"

lemma decode_all_put:
  assumes "encodes t bs x"
  shows "decode_all msg t 0 bs = Inr x" and "decode_all msg t (Suc 0) (tag # bs) = Inr x"
proof -
  have "t bs 0 = Inr (x, length bs)" and "t (tag # bs) (Suc 0) = Inr (x, Suc (length bs))"
    using encodes_allD [OF encodes_all_weaken [OF assms], of "[]"]
      encodes_allD [OF encodes_all_weaken [OF assms], of "[tag]"] by simp_all
  then show "decode_all msg t 0 bs = Inr x" and "decode_all msg t (Suc 0) (tag # bs) = Inr x"
    by (simp_all add: decode_all_def)
qed

lemma decode_all_get:
  assumes "consumes t P" and "decode_all msg t off buf = Inr x" and "off \<le> length buf"
  shows "P x (drop off buf)"
proof -
  obtain off' where t: "t buf off = Inr (x, off')" and "off' = length buf"
    using assms(2) by (auto simp: decode_all_def split: if_splits)
  with assms(1,3) have "P x (slice buf off (length buf))"
    unfolding consumes_def by blast
  then show ?thesis by (simp add: slice_def)
qed

lemma take_n_encodes:
  "list_all (\<lambda>x. encodes t (put x) x) xs \<Longrightarrow> encodes (take_n t (length xs)) (concat (map put xs)) xs"
proof (induction xs)
  case Nil
  then show ?case by (simp add: encodes_return)
next
  case (Cons x xs)
  then have "encodes t (put x) x" and "encodes (take_n t (length xs)) (concat (map put xs)) xs"
    by simp_all
  then show ?case
    by (auto intro: encodes_bind encodes_bind_return)
qed

section \<open>The contract of a writer/reader pair\<close>

locale wire_pair =
  fixes put :: "'a \<Rightarrow> bytes"
    and tak :: "'a taker"
    and wf :: "'a \<Rightarrow> bool"
  assumes put_tak: "wf x \<Longrightarrow> encodes tak (put x) x"
begin

lemma take_n_put: "list_all wf xs \<Longrightarrow> encodes (take_n tak (length xs)) (concat (map put xs)) xs"
  by (rule take_n_encodes) (simp add: list_all_iff put_tak)

lemma put_inj: "wf x \<Longrightarrow> wf y \<Longrightarrow> put x = put y \<Longrightarrow> x = y"
  using put_tak [of x] put_tak [of y] unfolding encodes_def
  by (metis append_Nil2 drop0 le0 prod.inject sum.inject(2))

end

text \<open>A canonical pair: the reader accepts nothing but what the writer produces.\<close>

locale codec = wire_pair put tak wf
  for put :: "'a \<Rightarrow> bytes" and tak :: "'a taker" and wf :: "'a \<Rightarrow> bool" +
  assumes tak_put: "consumes tak (\<lambda>x bs. wf x \<and> bs = put x)"
begin

lemma put_take_n:
  "consumes (take_n tak n) (\<lambda>xs bs. length xs = n \<and> list_all wf xs \<and> bs = concat (map put xs))"
proof (induction n)
  case 0
  then show ?case by (simp add: consumes_return)
next
  case (Suc n)
  show ?case
    unfolding take_n.simps
    by (rule consumes_bind [OF tak_put], rule consumes_bind [OF Suc], rule consumes_return) auto
qed

end

section \<open>Decoders of whole buffers\<close>

text \<open>
  A decoder of a whole buffer that is exact: it accepts the encodings of the well-formed
  values and nothing else.
\<close>

locale buffer_codec =
  fixes put :: "'a \<Rightarrow> bytes"
    and dec :: "bytes \<Rightarrow> 'a result"
    and wf :: "'a \<Rightarrow> bool"
  assumes exact: "dec b = Inr x \<longleftrightarrow> wf x \<and> b = put x"
begin

lemma dec_put: "wf x \<Longrightarrow> dec (put x) = Inr x"
  by (simp add: exact)

lemma put_inj: "wf x \<Longrightarrow> wf y \<Longrightarrow> put x = put y \<Longrightarrow> x = y"
  by (metis dec_put sum.inject(2))

lemma refuses: "(\<exists>e. dec b = Inl e) \<longleftrightarrow> (\<forall>x. wf x \<longrightarrow> b \<noteq> put x)"
  by (metis exact obj_sumE sum.simps(4))

text \<open>The rest of a buffer handed to the decoder: \<open>decode(&buf[offset..])?\<close>.\<close>

lemma rest_put:
  assumes "wf x" and "y = f x"
  shows "encodes_all (bindP take_rest (\<lambda>bs. checkP (dec bs) (\<lambda>x. returnP (f x)))) (put x) y"
  using assms by (simp add: encodes_all_def bindP_def take_rest_def returnP_def dec_put)

lemma rest_dec:
  assumes "\<And>x. wf x \<Longrightarrow> Q (f x) (put x)"
  shows "consumes_all (bindP take_rest (\<lambda>bs. checkP (dec bs) (\<lambda>x. returnP (f x)))) Q"
  using assms exact by (intro consumes_all_rest_check) simp

end

text \<open>A canonical reader followed by a check for trailing bytes is an exact decoder.\<close>

lemma decode_all_exact:
  assumes "\<And>x. ok x \<Longrightarrow> encodes t (put x) x" and "consumes t (\<lambda>x bs. ok x \<and> bs = put x)"
  shows "decode_all msg t 0 b = Inr x \<longleftrightarrow> ok x \<and> b = put x"
  using decode_all_put(1) [OF assms(1)] decode_all_get [OF assms(2), of msg 0 b x] by auto

text \<open>
  \<open>if buf.is_empty() { bail!(..) } let mut offset = 1; match buf[0] { .. }\<close>, with the check
  for trailing bytes at the end.
\<close>

definition decode_tagged :: "string \<Rightarrow> string \<Rightarrow> (u8 \<Rightarrow> 'a taker) \<Rightarrow> bytes \<Rightarrow> 'a result" where
  "decode_tagged missing trailing body buf =
     (if buf = [] then Inl (Bail missing []) else decode_all trailing (body (buf ! 0)) 1 buf)"

lemma decode_tagged_exact:
  assumes put: "\<And>tag x bs. ok x \<Longrightarrow> put x = tag # bs \<Longrightarrow> encodes (body tag) bs x"
    and ne: "\<And>x. put x \<noteq> []"
    and get: "\<And>tag. consumes (body tag) (\<lambda>x bs. ok x \<and> tag # bs = put x)"
  shows "decode_tagged e msg body b = Inr x \<longleftrightarrow> ok x \<and> b = put x"
proof (cases b)
  case Nil
  then show ?thesis using ne by (simp add: decode_tagged_def) (metis ne)
next
  case (Cons tag bs)
  show ?thesis
  proof
    assume "decode_tagged e msg body b = Inr x"
    with Cons have "decode_all msg (body tag) (Suc 0) b = Inr x"
      by (simp add: decode_tagged_def)
    from decode_all_get [OF get this] Cons show "ok x \<and> b = put x" by simp
  next
    assume "ok x \<and> b = put x"
    with Cons put [of x tag bs] have "encodes (body tag) bs x" by simp
    from decode_all_put(2) [OF this] Cons show "decode_tagged e msg body b = Inr x"
      by (simp add: decode_tagged_def)
  qed
qed

text \<open>A reader started at an offset whose final offset is not inspected.\<close>

definition run_from :: "'a taker \<Rightarrow> nat \<Rightarrow> bytes \<Rightarrow> 'a result" where
  "run_from t off buf = bindE (t buf off) (\<lambda>(x, _). Inr x)"

lemma run_from_exact:
  assumes "\<And>r bs. P r bs \<Longrightarrow> encodes_all t bs r" and "consumes_all t P"
  shows "run_from t (Suc 0) (tag # rest) = Inr r \<longleftrightarrow> P r rest"
proof
  assume "run_from t (Suc 0) (tag # rest) = Inr r"
  then obtain off' where "t (tag # rest) (Suc 0) = Inr (r, off')"
    by (auto simp: run_from_def)
  from consumes_allD [OF assms(2) this] show "P r rest" by simp
next
  assume "P r rest"
  from encodes_allD [OF assms(1) [OF this], of "[tag]"]
  show "run_from t (Suc 0) (tag # rest) = Inr r" by (simp add: run_from_def)
qed

text \<open>Without a check for trailing bytes a reader accepts every extension of an encoding.\<close>

lemma run_from_lenient_at:
  assumes "\<And>r bs. P r bs \<Longrightarrow> encodes t bs r" and "consumes t P"
  shows "run_from t (length pre) (pre @ rest) = Inr r \<longleftrightarrow> (\<exists>bs tl. rest = bs @ tl \<and> P r bs)"
proof
  assume "run_from t (length pre) (pre @ rest) = Inr r"
  then obtain off' where "t (pre @ rest) (length pre) = Inr (r, off')"
    by (auto simp: run_from_def)
  then have "P r (slice (pre @ rest) (length pre) off')"
    using assms(2) [unfolded consumes_def, rule_format, of "length pre" "pre @ rest"] by auto
  moreover have "slice (pre @ rest) (length pre) off' = take (off' - length pre) rest"
    by (simp add: slice_def)
  ultimately show "\<exists>bs tl. rest = bs @ tl \<and> P r bs"
    by (metis append_take_drop_id)
next
  assume "\<exists>bs tl. rest = bs @ tl \<and> P r bs"
  then obtain bs tl where "rest = bs @ tl" and "P r bs" by blast
  then show "run_from t (length pre) (pre @ rest) = Inr r"
    using assms(1) [of r bs, unfolded encodes_def, rule_format, of "length pre" "pre @ rest" tl]
    by (simp add: run_from_def)
qed

lemma run_from_lenient:
  assumes "\<And>r bs. P r bs \<Longrightarrow> encodes t bs r" and "consumes t P"
  shows "run_from t (Suc 0) (tag # rest) = Inr r \<longleftrightarrow> (\<exists>bs tl. rest = bs @ tl \<and> P r bs)"
  using run_from_lenient_at [of P t "[tag]" rest r] assms by simp

lemma run_from_prefix:
  assumes "\<And>x. ok x \<Longrightarrow> encodes t (put x) x" and "consumes t (\<lambda>x bs. ok x \<and> bs = put x)"
  shows "run_from t (Suc 0) (tag # rest) = Inr x \<longleftrightarrow> ok x \<and> (\<exists>tl. rest = put x @ tl)"
  using run_from_lenient [of "\<lambda>x bs. ok x \<and> bs = put x" t tag rest x] assms by auto

text \<open>A reader whose errors are given a context.\<close>

definition contextP :: "string \<Rightarrow> 'a taker \<Rightarrow> 'a taker" where
  "contextP msg t = (\<lambda>buf off. with_context msg (t buf off))"

lemma contextP_encodes [simp]: "encodes (contextP msg t) bs x \<longleftrightarrow> encodes t bs x"
  by (simp add: encodes_def contextP_def)

lemma contextP_consumes [simp]: "consumes (contextP msg t) P \<longleftrightarrow> consumes t P"
  by (simp add: consumes_def contextP_def)

end
