(* ===== verification/Ids.thy ===== *)
theory Ids
  imports Cursor
begin

text \<open>
  Identities and authority (\<open>seisin-core/src/datum.rs\<close>, \<open>authority.rs\<close>, \<open>sk.rs\<close>):
  \<open>DatumId\<close>, \<open>NodeId\<close>, \<open>ThreadId\<close> and \<open>AuthorityIdx\<close> as datatypes with the
  order the derived \<open>Ord\<close> gives, their wire forms, and the entry list a secondary-key datum
  stores. A \<open>Uuid\<close> compares by its 16 bytes, that is as a big-endian 128-bit number.
  \<open>DatumId::new\<close> and \<open>from_name\<close> call the \<open>uuid\<close> crate; ids are values here.
\<close>

section \<open>Identifiers\<close>

datatype datum_id = DatumId (uuid: "128 word")
datatype node_id = NodeId (node_raw: u64)
datatype thread_id = ThreadId (thread_raw: u32)

instantiation datum_id :: linorder
begin
definition less_eq_datum_id :: "datum_id \<Rightarrow> datum_id \<Rightarrow> bool" where
  "less_eq_datum_id a b \<longleftrightarrow> uuid a \<le> uuid b"
definition less_datum_id :: "datum_id \<Rightarrow> datum_id \<Rightarrow> bool" where
  "less_datum_id a b \<longleftrightarrow> uuid a < uuid b"
instance
  by standard (auto simp: less_eq_datum_id_def less_datum_id_def datum_id.expand)
end

instantiation node_id :: linorder
begin
definition less_eq_node_id :: "node_id \<Rightarrow> node_id \<Rightarrow> bool" where
  "less_eq_node_id a b \<longleftrightarrow> node_raw a \<le> node_raw b"
definition less_node_id :: "node_id \<Rightarrow> node_id \<Rightarrow> bool" where
  "less_node_id a b \<longleftrightarrow> node_raw a < node_raw b"
instance
  by standard (auto simp: less_eq_node_id_def less_node_id_def node_id.expand)
end

lemma id_order_simps [simp]:
  "DatumId a < DatumId b \<longleftrightarrow> a < b" "DatumId a \<le> DatumId b \<longleftrightarrow> a \<le> b"
  "NodeId c < NodeId d \<longleftrightarrow> c < d" "NodeId c \<le> NodeId d \<longleftrightarrow> c \<le> d"
  by (simp_all add: less_datum_id_def less_eq_datum_id_def less_node_id_def less_eq_node_id_def)

definition from_bytes :: "bytes \<Rightarrow> datum_id" where
  "from_bytes bs = DatumId (u128_from_be bs)"

definition as_bytes :: "datum_id \<Rightarrow> bytes" where
  "as_bytes i = u128_to_be (uuid i)"

lemma length_as_bytes [simp]: "length (as_bytes i) = 16"
  by (simp add: as_bytes_def)

lemma from_bytes_as_bytes [simp]: "from_bytes (as_bytes i) = i"
  by (simp add: from_bytes_def as_bytes_def)

lemma as_bytes_from_bytes [simp]: "length bs = 16 \<Longrightarrow> as_bytes (from_bytes bs) = bs"
  by (simp add: from_bytes_def as_bytes_def)

section \<open>Authority\<close>

datatype authority_idx = Native | Foreign (auth_node: node_id) (auth_thread: thread_id)

definition TAG_NATIVE :: u8 where "TAG_NATIVE = 0"
definition TAG_FOREIGN :: u8 where "TAG_FOREIGN = 1"
definition ENCODED_LEN :: nat where "ENCODED_LEN = 13"

definition encode_authority :: "authority_idx \<Rightarrow> bytes" where
  "encode_authority a =
     (case a of
        Native \<Rightarrow> TAG_NATIVE # replicate (ENCODED_LEN - 1) 0
      | Foreign n t \<Rightarrow> TAG_FOREIGN # u64_to_le (node_raw n) @ u32_to_le (thread_raw t))"

definition decode_authority :: "bytes \<Rightarrow> authority_idx result" where
  "decode_authority buf =
     (if buf ! 0 = TAG_NATIVE then Inr Native
      else if buf ! 0 = TAG_FOREIGN then
        Inr (Foreign (NodeId (u64_from_le (slice buf 1 9)))
                     (ThreadId (u32_from_le (slice buf 9 13))))
      else Inl (Bail ''invalid authority_idx tag byte: {}'' [unat (buf ! 0)]))"

lemmas authority_defs =
  encode_authority_def decode_authority_def TAG_NATIVE_def TAG_FOREIGN_def ENCODED_LEN_def

lemma length_encode_authority [simp]: "length (encode_authority a) = 13"
  by (cases a) (simp_all add: authority_defs)

lemma decode_encode_authority [simp]: "decode_authority (encode_authority a) = Inr a"
  by (cases a) (simp_all add: authority_defs slice_def)

lemma decode_authority_error:
  "(\<exists>e. decode_authority buf = Inl e) \<longleftrightarrow> buf ! 0 \<noteq> 0 \<and> buf ! 0 \<noteq> 1"
  by (simp add: authority_defs)

section \<open>Secondary-key entry lists\<close>

definition ENTRY_LEN :: nat where "ENTRY_LEN = 16 + ENCODED_LEN"

definition sk_entry_bytes :: "datum_id \<times> authority_idx \<Rightarrow> bytes" where
  "sk_entry_bytes e = as_bytes (fst e) @ encode_authority (snd e)"

definition encode_sk_entries :: "(datum_id \<times> authority_idx) list \<Rightarrow> bytes" where
  "encode_sk_entries entries =
     u32_to_le (as_u32 (length entries)) @ concat (map sk_entry_bytes entries)"

text \<open>One turn of the loop: the total length has been checked before the loop starts.\<close>

definition take_sk_entry :: "(datum_id \<times> authority_idx) taker" where
  "take_sk_entry = (\<lambda>buf off.
     bindE (decode_authority (slice buf (off + 16) (off + ENTRY_LEN)))
       (\<lambda>a. Inr ((from_bytes (slice buf off (off + 16)), a), off + ENTRY_LEN)))"

definition decode_sk_entries :: "bytes \<Rightarrow> (datum_id \<times> authority_idx) list result" where
  "decode_sk_entries buf =
     (if length buf < 4 then Inl (Bail ''sk entry list truncated: missing count prefix'' [])
      else
        let count = unat (u32_from_le (slice buf 0 4));
            expected_len = 4 + count * ENTRY_LEN
        in if length buf \<noteq> expected_len
           then Inl (Bail ''sk entry list length mismatch: expected {} bytes for {} entries, got {}''
                       [expected_len, count, length buf])
           else bindE (take_n take_sk_entry count buf 4) (\<lambda>(entries, _). Inr entries))"

lemma length_sk_entry_bytes [simp]: "length (sk_entry_bytes e) = 29"
  by (simp add: sk_entry_bytes_def)

lemma length_sk_entries: "length (concat (map sk_entry_bytes es)) = 29 * length es"
  by (induction es) simp_all

interpretation sk_entry: wire_pair sk_entry_bytes take_sk_entry "\<lambda>_. True"
proof
  fix e :: "datum_id \<times> authority_idx"
  show "encodes take_sk_entry (sk_entry_bytes e) e"
    unfolding encodes_def
  proof (intro allI impI)
    fix buf off post
    assume off: "off \<le> length buf" and d: "drop off buf = sk_entry_bytes e @ post"
    have d1: "drop off buf = as_bytes (fst e) @ (encode_authority (snd e) @ post)"
      using d by (simp add: sk_entry_bytes_def)
    note p = drop_prefix_le [OF d1 off]
    note q = drop_prefix_le [OF p(2) p(1)]
    have "slice buf (off + 16) (off + 29) = encode_authority (snd e)"
      using q(3) by (simp add: add.assoc)
    with p(3) show "take_sk_entry buf off = Inr (e, off + length (sk_entry_bytes e))"
      by (simp add: take_sk_entry_def ENTRY_LEN_def ENCODED_LEN_def)
  qed
qed

lemma decode_encode_sk_entries:
  assumes "length es < 2 ^ 32"
  shows "decode_sk_entries (encode_sk_entries es) = Inr es"
proof -
  let ?buf = "encode_sk_entries es"
  have "slice ?buf 0 4 = u32_to_le (as_u32 (length es))"
    by (simp add: encode_sk_entries_def slice_def)
  then have count: "unat (u32_from_le (slice ?buf 0 4)) = length es"
    using assms by simp
  have len: "length ?buf = 4 + length es * 29"
    by (simp add: encode_sk_entries_def length_sk_entries)
  have "encodes (take_n take_sk_entry (length es)) (concat (map sk_entry_bytes es)) es"
    by (rule sk_entry.take_n_put) (simp add: list_all_iff)
  then have "take_n take_sk_entry (length es) ?buf 4 =
      Inr (es, 4 + length (concat (map sk_entry_bytes es)))"
    unfolding encodes_def
    by (metis append_Nil2 append_eq_conv_conj encode_sk_entries_def le_add1 len
        length_to_bytes(2))
  with count len show ?thesis
    by (simp add: decode_sk_entries_def ENTRY_LEN_def ENCODED_LEN_def)
qed

section \<open>Properties\<close>

text \<open>A routing authority and a secondary-key entry list survive storage: both decode to what was
  encoded.\<close>

theorem authority_and_sk_entries_round_trip:
  assumes "length es < 2 ^ 32"
  shows "decode_authority (encode_authority a) = Inr a \<and> decode_sk_entries (encode_sk_entries es) = Inr es"
  by (simp only: decode_encode_authority decode_encode_sk_entries [OF assms] simp_thms)

theorem authority_and_sk_entries_round_trip_witness:
  "decode_authority (encode_authority (Foreign (NodeId 7) (ThreadId 2))) = Inr (Foreign (NodeId 7) (ThreadId 2)) \<and>
   decode_sk_entries (encode_sk_entries [(DatumId 5, Native)]) = Inr [(DatumId 5, Native)]"
  by (rule authority_and_sk_entries_round_trip) simp

end
