(* ===== verification/Store_Cache.thy ===== *)
theory Store_Cache
  imports Ids
begin

text \<open>
  The durable store and the owning thread's write-through cache
  (\<open>seisin-core/src/store.rs\<close>, \<open>cache.rs\<close>). The trait \<open>Store\<close> is a record of its
  required operations over a store state; \<open>Cache\<close> is written against that record, as the
  code is written against \<open>Arc<dyn Store>\<close>. A step of the cache returns the new store too:
  the store is shared, so between two steps of one cache other threads may have changed it.
  The locale \<open>kv_store\<close> is the contract of the trait; the cache's laws are proved once in
  it and reach the code through its interpretation on \<open>InMemoryStore\<close>.
\<close>

section \<open>The trait Store\<close>

record 's store_ops =
  op_get_replicated :: "'s \<Rightarrow> datum_id \<Rightarrow> u16 \<Rightarrow> bytes option"
  op_put_replicated :: "'s \<Rightarrow> datum_id \<Rightarrow> bytes \<Rightarrow> u16 \<Rightarrow> 's"
  op_delete_replicated :: "'s \<Rightarrow> datum_id \<Rightarrow> u16 \<Rightarrow> 's"
  op_put_with_previous_replicated :: "'s \<Rightarrow> datum_id \<Rightarrow> bytes \<Rightarrow> bytes option \<Rightarrow> u16 \<Rightarrow> 's"

text \<open>The trait's default body of \<open>put_with_previous_replicated\<close> and its \<open>N=1\<close> wrappers.\<close>

definition default_put_with_previous ::
    "('s \<Rightarrow> datum_id \<Rightarrow> bytes \<Rightarrow> u16 \<Rightarrow> 's) \<Rightarrow> 's \<Rightarrow> datum_id \<Rightarrow> bytes \<Rightarrow> bytes option \<Rightarrow> u16 \<Rightarrow> 's" where
  "default_put_with_previous put s i content previous n = put s i content n"

definition store_get :: "'s store_ops \<Rightarrow> 's \<Rightarrow> datum_id \<Rightarrow> bytes option" where
  "store_get ops s i = op_get_replicated ops s i 1"

definition store_put :: "'s store_ops \<Rightarrow> 's \<Rightarrow> datum_id \<Rightarrow> bytes \<Rightarrow> 's" where
  "store_put ops s i content = op_put_replicated ops s i content 1"

definition store_delete :: "'s store_ops \<Rightarrow> 's \<Rightarrow> datum_id \<Rightarrow> 's" where
  "store_delete ops s i = op_delete_replicated ops s i 1"

definition store_put_with_previous ::
    "'s store_ops \<Rightarrow> 's \<Rightarrow> datum_id \<Rightarrow> bytes \<Rightarrow> bytes option \<Rightarrow> 's" where
  "store_put_with_previous ops s i content previous =
     op_put_with_previous_replicated ops s i content previous 1"

section \<open>InMemoryStore\<close>

record in_memory_store = mem_data :: "datum_id \<rightharpoonup> bytes"

definition in_memory_new :: in_memory_store where
  "in_memory_new = \<lparr>mem_data = Map.empty\<rparr>"

definition in_memory_get :: "in_memory_store \<Rightarrow> datum_id \<Rightarrow> u16 \<Rightarrow> bytes option" where
  "in_memory_get s i n = mem_data s i"

definition in_memory_put :: "in_memory_store \<Rightarrow> datum_id \<Rightarrow> bytes \<Rightarrow> u16 \<Rightarrow> in_memory_store" where
  "in_memory_put s i content n = s\<lparr>mem_data := (mem_data s)(i \<mapsto> content)\<rparr>"

definition in_memory_delete :: "in_memory_store \<Rightarrow> datum_id \<Rightarrow> u16 \<Rightarrow> in_memory_store" where
  "in_memory_delete s i n = s\<lparr>mem_data := (mem_data s)(i := None)\<rparr>"

definition in_memory_ops :: "in_memory_store store_ops" where
  "in_memory_ops =
     \<lparr>op_get_replicated = in_memory_get,
      op_put_replicated = in_memory_put,
      op_delete_replicated = in_memory_delete,
      op_put_with_previous_replicated = default_put_with_previous in_memory_put\<rparr>"

section \<open>The cache\<close>

record cache = entries :: "datum_id \<rightharpoonup> bytes"

definition cache_new :: cache where
  "cache_new = \<lparr>entries = Map.empty\<rparr>"

definition cache_get_replicated ::
    "'s store_ops \<Rightarrow> cache \<Rightarrow> 's \<Rightarrow> datum_id \<Rightarrow> u16 \<Rightarrow> bytes option \<times> cache" where
  "cache_get_replicated ops c s i n =
     (case entries c i of
        Some content \<Rightarrow> (Some content, c)
      | None \<Rightarrow>
          (case op_get_replicated ops s i n of
             None \<Rightarrow> (None, c)
           | Some loaded \<Rightarrow> (Some loaded, c\<lparr>entries := (entries c)(i \<mapsto> loaded)\<rparr>)))"

definition cache_put_replicated ::
    "'s store_ops \<Rightarrow> cache \<Rightarrow> 's \<Rightarrow> datum_id \<Rightarrow> bytes \<Rightarrow> u16 \<Rightarrow> cache \<times> 's" where
  "cache_put_replicated ops c s i content n =
     (let previous = entries c i;
          s' = op_put_with_previous_replicated ops s i content previous n
      in (c\<lparr>entries := (entries c)(i \<mapsto> content)\<rparr>, s'))"

definition cache_delete_replicated ::
    "'s store_ops \<Rightarrow> cache \<Rightarrow> 's \<Rightarrow> datum_id \<Rightarrow> u16 \<Rightarrow> cache \<times> 's" where
  "cache_delete_replicated ops c s i n =
     (let s' = op_delete_replicated ops s i n
      in (c\<lparr>entries := (entries c)(i := None)\<rparr>, s'))"

definition cache_get :: "'s store_ops \<Rightarrow> cache \<Rightarrow> 's \<Rightarrow> datum_id \<Rightarrow> bytes option \<times> cache" where
  "cache_get ops c s i = cache_get_replicated ops c s i 1"

definition cache_put :: "'s store_ops \<Rightarrow> cache \<Rightarrow> 's \<Rightarrow> datum_id \<Rightarrow> bytes \<Rightarrow> cache \<times> 's" where
  "cache_put ops c s i content = cache_put_replicated ops c s i content 1"

definition cache_delete :: "'s store_ops \<Rightarrow> cache \<Rightarrow> 's \<Rightarrow> datum_id \<Rightarrow> cache \<times> 's" where
  "cache_delete ops c s i = cache_delete_replicated ops c s i 1"

definition cache_invalidate :: "cache \<Rightarrow> datum_id \<Rightarrow> cache" where
  "cache_invalidate c i = c\<lparr>entries := (entries c)(i := None)\<rparr>"

definition cache_evict_non_native :: "cache \<Rightarrow> (datum_id \<Rightarrow> bool) \<Rightarrow> cache" where
  "cache_evict_non_native c is_native =
     c\<lparr>entries := (\<lambda>i. if is_native i then entries c i else None)\<rparr>"

lemmas cache_defs =
  cache_new_def cache_get_replicated_def cache_put_replicated_def cache_delete_replicated_def
  cache_get_def cache_put_def cache_delete_def cache_invalidate_def cache_evict_non_native_def

section \<open>The contract of a store and what a cache makes of it\<close>

text \<open>
  \<open>contents\<close> is what a reader of the store would see. A cache is coherent on a set of ids
  when each cached value there is the store's current value; the ids are those the thread
  owns, the only ones no other thread writes.
\<close>

definition coherent_on :: "datum_id set \<Rightarrow> (datum_id \<rightharpoonup> bytes) \<Rightarrow> cache \<Rightarrow> bool" where
  "coherent_on A m c \<longleftrightarrow> (\<forall>i\<in>A. \<forall>v. entries c i = Some v \<longrightarrow> m i = Some v)"

locale kv_store =
  fixes ops :: "'s store_ops"
    and contents :: "'s \<Rightarrow> datum_id \<rightharpoonup> bytes"
  assumes get_contents: "op_get_replicated ops s i n = contents s i"
    and put_prev_contents:
      "contents (op_put_with_previous_replicated ops s i v p n) = (contents s)(i \<mapsto> v)"
    and delete_contents: "contents (op_delete_replicated ops s i n) = (contents s)(i := None)"
begin

lemma get_coherent:
  assumes "coherent_on A (contents s) c" and "i \<in> A"
  shows "fst (cache_get_replicated ops c s i n) = contents s i"
    and "coherent_on A (contents s) (snd (cache_get_replicated ops c s i n))"
  using assms by (auto simp: cache_get_replicated_def coherent_on_def get_contents
      split: option.splits)

lemma put_coherent:
  assumes "coherent_on A (contents s) c" and "cache_put_replicated ops c s i v n = (c', s')"
  shows "coherent_on A (contents s') c'" and "contents s' = (contents s)(i \<mapsto> v)"
  using assms by (auto simp: cache_put_replicated_def coherent_on_def put_prev_contents Let_def)

lemma delete_coherent:
  assumes "coherent_on A (contents s) c" and "cache_delete_replicated ops c s i n = (c', s')"
  shows "coherent_on A (contents s') c'" and "contents s' = (contents s)(i := None)"
  using assms by (auto simp: cache_delete_replicated_def coherent_on_def delete_contents Let_def)

lemma get_after_put:
  assumes "cache_put_replicated ops c s i v n = (c', s')"
  shows "fst (cache_get_replicated ops c' s' i m) = Some v"
  using assms by (auto simp: cache_put_replicated_def cache_get_replicated_def Let_def)

lemma get_after_invalidate:
  "fst (cache_get_replicated ops (cache_invalidate c i) s i n) = contents s i"
  by (simp add: cache_get_replicated_def cache_invalidate_def get_contents split: option.splits)

lemma get_after_evict:
  "\<not> is_native i \<Longrightarrow>
   fst (cache_get_replicated ops (cache_evict_non_native c is_native) s i n) = contents s i"
  by (simp add: cache_get_replicated_def cache_evict_non_native_def get_contents
      split: option.splits)

end

lemma coherent_on_empty [simp]: "coherent_on A m cache_new"
  by (simp add: coherent_on_def cache_new_def)

lemma invalidate_coherent:
  "coherent_on A m c \<Longrightarrow> coherent_on (insert i A) m (cache_invalidate c i)"
  by (auto simp: coherent_on_def cache_invalidate_def)

lemma evict_coherent:
  "coherent_on A m c \<Longrightarrow> coherent_on (A \<union> {i. \<not> P i}) m (cache_evict_non_native c P)"
  by (auto simp: coherent_on_def cache_evict_non_native_def)

interpretation mem: kv_store in_memory_ops mem_data
  by unfold_locales
    (simp_all add: in_memory_ops_def in_memory_get_def in_memory_put_def in_memory_delete_def
      default_put_with_previous_def)

section \<open>Runs of a cache against a shared store\<close>

text \<open>
  One owning thread's cache while other threads write through the same store: the thread's
  own steps are the cache's operations, a foreign write replaces the store's value of an id,
  and the protocol's rule is that the thread drops an id from its cache whenever it is handed
  the id again (\<open>Recv\<close>), which is where the code calls \<open>invalidate\<close>. \<open>owned\<close> is the set
  of ids the thread holds at the moment.
\<close>

datatype cache_event =
    EGet datum_id u16
  | EPut datum_id bytes u16
  | EDelete datum_id u16
  | EHandAway datum_id
  | ERecv datum_id
  | EForeign datum_id "bytes option"

record cache_sys =
  sys_cache :: cache
  sys_store :: in_memory_store
  owned :: "datum_id set"

definition foreign_write :: "in_memory_store \<Rightarrow> datum_id \<Rightarrow> bytes option \<Rightarrow> in_memory_store" where
  "foreign_write s i v =
     (case v of Some b \<Rightarrow> in_memory_put s i b 1 | None \<Rightarrow> in_memory_delete s i 1)"

inductive cache_step :: "cache_sys \<Rightarrow> cache_event \<Rightarrow> cache_sys \<Rightarrow> bool" where
  step_get: "i \<in> owned y \<Longrightarrow>
     cache_get_replicated in_memory_ops (sys_cache y) (sys_store y) i n = (r, c') \<Longrightarrow>
     cache_step y (EGet i n) (y\<lparr>sys_cache := c'\<rparr>)"
| step_put: "i \<in> owned y \<Longrightarrow>
     cache_put_replicated in_memory_ops (sys_cache y) (sys_store y) i v n = (c', s') \<Longrightarrow>
     cache_step y (EPut i v n) (y\<lparr>sys_cache := c', sys_store := s'\<rparr>)"
| step_delete: "i \<in> owned y \<Longrightarrow>
     cache_delete_replicated in_memory_ops (sys_cache y) (sys_store y) i n = (c', s') \<Longrightarrow>
     cache_step y (EDelete i n) (y\<lparr>sys_cache := c', sys_store := s'\<rparr>)"
| step_hand_away: "cache_step y (EHandAway i) (y\<lparr>owned := owned y - {i}\<rparr>)"
| step_recv: "cache_step y (ERecv i)
     (y\<lparr>sys_cache := cache_invalidate (sys_cache y) i, owned := insert i (owned y)\<rparr>)"
| step_foreign: "i \<notin> owned y \<Longrightarrow>
     cache_step y (EForeign i v) (y\<lparr>sys_store := foreign_write (sys_store y) i v\<rparr>)"

inductive cache_reachable :: "cache_sys \<Rightarrow> bool" where
  cache_start: "cache_reachable \<lparr>sys_cache = cache_new, sys_store = s, owned = {}\<rparr>"
| cache_next: "cache_reachable y \<Longrightarrow> cache_step y e y' \<Longrightarrow> cache_reachable y'"

definition cache_inv :: "cache_sys \<Rightarrow> bool" where
  "cache_inv y \<longleftrightarrow> coherent_on (owned y) (mem_data (sys_store y)) (sys_cache y)"

lemma coherent_on_subset: "coherent_on A m c \<Longrightarrow> B \<subseteq> A \<Longrightarrow> coherent_on B m c"
  by (auto simp: coherent_on_def)

lemma coherent_on_cong: "(\<And>i. i \<in> A \<Longrightarrow> m i = m' i) \<Longrightarrow> coherent_on A m c \<longleftrightarrow> coherent_on A m' c"
  by (auto simp: coherent_on_def)

lemma foreign_write_other: "i \<noteq> j \<Longrightarrow> mem_data (foreign_write s i v) j = mem_data s j"
  by (simp add: foreign_write_def in_memory_put_def in_memory_delete_def split: option.splits)

lemma cache_step_inv: "cache_step y e y' \<Longrightarrow> cache_inv y \<Longrightarrow> cache_inv y'"
proof (induction rule: cache_step.induct)
  case (step_get i y n r c')
  then show ?case
    using mem.get_coherent(2) [of "owned y" "sys_store y" "sys_cache y" i n]
    by (simp add: cache_inv_def)
next
  case (step_put i y v n c' s')
  then show ?case
    using mem.put_coherent(1) by (simp add: cache_inv_def)
next
  case (step_delete i y n c' s')
  then show ?case
    using mem.delete_coherent(1) by (simp add: cache_inv_def)
next
  case (step_hand_away y i)
  then show ?case by (auto simp: cache_inv_def intro: coherent_on_subset)
next
  case (step_recv y i)
  then show ?case by (simp add: cache_inv_def invalidate_coherent)
next
  case (step_foreign i y v)
  then have "coherent_on (owned y) (mem_data (foreign_write (sys_store y) i v)) (sys_cache y)"
    using coherent_on_cong [of "owned y" "mem_data (sys_store y)"
        "mem_data (foreign_write (sys_store y) i v)"]
    by (metis cache_inv_def foreign_write_other)
  then show ?case by (simp add: cache_inv_def)
qed

lemma cache_reachable_inv: "cache_reachable y \<Longrightarrow> cache_inv y"
  by (induction rule: cache_reachable.induct)
    (simp add: cache_inv_def, blast intro: cache_step_inv)

section \<open>Properties\<close>



text \<open>Write-before-ack: when a cached put returns, the store already holds the new content, no
  other datum of the store has changed, and the next read through the cache sees it.\<close>

theorem put_is_durable_and_visible:
  assumes "cache_put_replicated in_memory_ops c s i v n = (c', s')"
  shows "mem_data s' = (mem_data s)(i \<mapsto> v) \<and> fst (cache_get_replicated in_memory_ops c' s' i m) = Some v"
  using mem.get_after_put [OF assms] mem.put_coherent(2) [OF _ assms, of "{}"]
  by (simp add: coherent_on_def)

theorem put_is_durable_and_visible_witness:
  "\<exists>c s. cache_put_replicated in_memory_ops cache_new in_memory_new (DatumId 1) [7] 1 = (c, s) \<and>
     mem_data s = (mem_data in_memory_new)(DatumId 1 \<mapsto> [7]) \<and>
     fst (cache_get_replicated in_memory_ops c s (DatumId 1) 1) = Some [7]"
  using put_is_durable_and_visible [of cache_new in_memory_new "DatumId 1" "[7]" 1 _ _ 1]
  by (metis surj_pair)

end
