(* ===== verification/Failure_Detector.thy ===== *)
theory Failure_Detector
  imports Ids "HOL-Library.AList"
begin

text \<open>
  The direct-probe, indirect-probe, suspect, dead state machine
  (\<open>seisin-gossip/src/failure_detector.rs\<close>). The injected clock (\<open>ClockSource::now\<close>) is
  the argument \<open>now\<close>; the two hash maps are association lists.
\<close>

section \<open>The detector\<close>

definition PROBE_TIMEOUT_MILLIS :: u64 where "PROBE_TIMEOUT_MILLIS = 1000"
definition SUSPICION_TIMEOUT_MILLIS :: u64 where "SUSPICION_TIMEOUT_MILLIS = 5000"

datatype probe_state = AwaitingDirectAck (started_at: u64) | AwaitingIndirectAck (started_at: u64)

datatype timeout_action =
    EscalateToIndirect node_id
  | MarkSuspect node_id
  | MarkDead node_id

record failure_detector =
  probe_timeout_millis :: u64
  suspicion_timeout_millis :: u64
  probes :: "(node_id \<times> probe_state) list"
  suspected_since :: "(node_id \<times> u64) list"

definition fd_new :: "u64 \<Rightarrow> u64 \<Rightarrow> failure_detector" where
  "fd_new p s =
     \<lparr>probe_timeout_millis = p, suspicion_timeout_millis = s, probes = [], suspected_since = []\<rparr>"

definition begin_direct_probe :: "u64 \<Rightarrow> failure_detector \<Rightarrow> node_id \<Rightarrow> failure_detector" where
  "begin_direct_probe now fd target =
     fd\<lparr>probes := AList.update target (AwaitingDirectAck now) (probes fd)\<rparr>"

definition on_ack :: "failure_detector \<Rightarrow> node_id \<Rightarrow> failure_detector" where
  "on_ack fd target =
     fd\<lparr>probes := AList.delete target (probes fd),
        suspected_since := AList.delete target (suspected_since fd)\<rparr>"

definition saturating_sub :: "u64 \<Rightarrow> u64 \<Rightarrow> u64" where
  "saturating_sub a b = (if a < b then 0 else a - b)"

definition escalations :: "u64 \<Rightarrow> failure_detector \<Rightarrow> node_id list" where
  "escalations now fd =
     concat (map (\<lambda>(target, st). case st of
         AwaitingDirectAck t0 \<Rightarrow>
           (if saturating_sub now t0 \<ge> probe_timeout_millis fd then [target] else [])
       | AwaitingIndirectAck t0 \<Rightarrow> []) (probes fd))"

definition suspicions :: "u64 \<Rightarrow> failure_detector \<Rightarrow> node_id list" where
  "suspicions now fd =
     concat (map (\<lambda>(target, st). case st of
         AwaitingDirectAck t0 \<Rightarrow> []
       | AwaitingIndirectAck t0 \<Rightarrow>
           (if saturating_sub now t0 \<ge> probe_timeout_millis fd then [target] else [])) (probes fd))"

definition deaths :: "u64 \<Rightarrow> failure_detector \<Rightarrow> node_id list" where
  "deaths now fd =
     concat (map (\<lambda>(target, since).
         if saturating_sub now since \<ge> suspicion_timeout_millis fd then [target] else [])
       (suspected_since fd))"

definition escalate_one :: "u64 \<Rightarrow> node_id \<Rightarrow> failure_detector \<Rightarrow> failure_detector" where
  "escalate_one now target fd =
     fd\<lparr>probes := AList.update target (AwaitingIndirectAck now) (probes fd)\<rparr>"

definition suspect_one :: "u64 \<Rightarrow> node_id \<Rightarrow> failure_detector \<Rightarrow> failure_detector" where
  "suspect_one now target fd =
     fd\<lparr>probes := AList.delete target (probes fd),
        suspected_since := AList.update target now (suspected_since fd)\<rparr>"

definition bury_one :: "node_id \<Rightarrow> failure_detector \<Rightarrow> failure_detector" where
  "bury_one target fd = fd\<lparr>suspected_since := AList.delete target (suspected_since fd)\<rparr>"

definition check_timeouts :: "u64 \<Rightarrow> failure_detector \<Rightarrow> timeout_action list \<times> failure_detector" where
  "check_timeouts now fd =
     (let escalate = escalations now fd;
          suspect = suspicions now fd;
          fd1 = fold (escalate_one now) escalate fd;
          fd2 = fold (suspect_one now) suspect fd1;
          dead = deaths now fd2;
          fd3 = fold bury_one dead fd2
      in (map EscalateToIndirect escalate @ map MarkSuspect suspect @ map MarkDead dead, fd3))"

section \<open>Lookups\<close>

abbreviation probe_of :: "failure_detector \<Rightarrow> node_id \<Rightarrow> probe_state option" where
  "probe_of fd \<equiv> map_of (probes fd)"

abbreviation suspect_of :: "failure_detector \<Rightarrow> node_id \<Rightarrow> u64 option" where
  "suspect_of fd \<equiv> map_of (suspected_since fd)"

definition fd_wf :: "failure_detector \<Rightarrow> bool" where
  "fd_wf fd \<longleftrightarrow> distinct (map fst (probes fd)) \<and> distinct (map fst (suspected_since fd))"

lemma fold_escalate:
  "probe_of (fold (escalate_one now) ts fd) n =
     (if n \<in> set ts then Some (AwaitingIndirectAck now) else probe_of fd n)"
  "suspected_since (fold (escalate_one now) ts fd) = suspected_since fd"
  "suspicion_timeout_millis (fold (escalate_one now) ts fd) = suspicion_timeout_millis fd"
  "probe_timeout_millis (fold (escalate_one now) ts fd) = probe_timeout_millis fd"
  "fd_wf fd \<Longrightarrow> fd_wf (fold (escalate_one now) ts fd)"
  by (induction ts arbitrary: fd)
    (auto simp: escalate_one_def update_conv' fd_wf_def distinct_update)

lemma fold_suspect:
  "probe_of (fold (suspect_one now) ts fd) n = (if n \<in> set ts then None else probe_of fd n)"
  "suspect_of (fold (suspect_one now) ts fd) n = (if n \<in> set ts then Some now else suspect_of fd n)"
  "suspicion_timeout_millis (fold (suspect_one now) ts fd) = suspicion_timeout_millis fd"
  "probe_timeout_millis (fold (suspect_one now) ts fd) = probe_timeout_millis fd"
  "fd_wf fd \<Longrightarrow> fd_wf (fold (suspect_one now) ts fd)"
  by (induction ts arbitrary: fd)
    (auto simp: suspect_one_def update_conv' delete_conv' fd_wf_def distinct_update distinct_delete)

lemma fold_bury:
  "probes (fold bury_one ts fd) = probes fd"
  "suspect_of (fold bury_one ts fd) n = (if n \<in> set ts then None else suspect_of fd n)"
  "suspicion_timeout_millis (fold bury_one ts fd) = suspicion_timeout_millis fd"
  "probe_timeout_millis (fold bury_one ts fd) = probe_timeout_millis fd"
  "fd_wf fd \<Longrightarrow> fd_wf (fold bury_one ts fd)"
  by (induction ts arbitrary: fd)
    (auto simp: bury_one_def delete_conv' fd_wf_def distinct_delete)

lemma saturating_sub_ge:
  "0 < d \<Longrightarrow> saturating_sub now t0 \<ge> d \<longleftrightarrow> unat t0 + unat d \<le> unat now"
  "saturating_sub now t0 \<ge> 0"
  by (auto simp: saturating_sub_def word_le_nat_alt word_less_nat_alt unat_sub_if')

lemma mem_escalations:
  "fd_wf fd \<Longrightarrow> n \<in> set (escalations now fd) \<longleftrightarrow>
     (\<exists>t0. probe_of fd n = Some (AwaitingDirectAck t0) \<and> saturating_sub now t0 \<ge> probe_timeout_millis fd)"
  by (force simp: escalations_def fd_wf_def split: probe_state.splits if_splits)

lemma mem_suspicions:
  "fd_wf fd \<Longrightarrow> n \<in> set (suspicions now fd) \<longleftrightarrow>
     (\<exists>t0. probe_of fd n = Some (AwaitingIndirectAck t0) \<and> saturating_sub now t0 \<ge> probe_timeout_millis fd)"
  by (force simp: suspicions_def fd_wf_def split: probe_state.splits if_splits)

lemma mem_deaths:
  "fd_wf fd \<Longrightarrow> n \<in> set (deaths now fd) \<longleftrightarrow>
     (\<exists>t0. suspect_of fd n = Some t0 \<and> saturating_sub now t0 \<ge> suspicion_timeout_millis fd)"
  by (force simp: deaths_def fd_wf_def split: if_splits)

section \<open>What one check does to one node\<close>

lemma check_timeouts_node:
  assumes "fd_wf fd" and "check_timeouts now fd = (acts, fd')"
  shows "EscalateToIndirect n \<in> set acts \<longleftrightarrow>
           (\<exists>t0. probe_of fd n = Some (AwaitingDirectAck t0) \<and> saturating_sub now t0 \<ge> probe_timeout_millis fd)"
    and "MarkSuspect n \<in> set acts \<longleftrightarrow>
           (\<exists>t0. probe_of fd n = Some (AwaitingIndirectAck t0) \<and> saturating_sub now t0 \<ge> probe_timeout_millis fd)"
    and "MarkDead n \<in> set acts \<longleftrightarrow>
           (\<exists>t0. (if MarkSuspect n \<in> set acts then Some now else suspect_of fd n) = Some t0 \<and>
                 saturating_sub now t0 \<ge> suspicion_timeout_millis fd)"
    and "probe_of fd' n =
           (if MarkSuspect n \<in> set acts then None
            else if EscalateToIndirect n \<in> set acts then Some (AwaitingIndirectAck now)
            else probe_of fd n)"
    and "suspect_of fd' n =
           (if MarkDead n \<in> set acts then None
            else if MarkSuspect n \<in> set acts then Some now else suspect_of fd n)"
    and "fd_wf fd'" and "probe_timeout_millis fd' = probe_timeout_millis fd"
    and "suspicion_timeout_millis fd' = suspicion_timeout_millis fd"
proof -
  define fd1 where "fd1 = fold (escalate_one now) (escalations now fd) fd"
  define fd2 where "fd2 = fold (suspect_one now) (suspicions now fd) fd1"
  have acts: "acts = map EscalateToIndirect (escalations now fd) @ map MarkSuspect (suspicions now fd)
        @ map MarkDead (deaths now fd2)" and fd': "fd' = fold bury_one (deaths now fd2) fd2"
    using assms(2) by (auto simp: check_timeouts_def Let_def fd1_def fd2_def)
  have wf: "fd_wf fd1" "fd_wf fd2"
    using assms(1) by (simp_all add: fd1_def fd2_def fold_escalate(5) fold_suspect(5))
  have mem: "EscalateToIndirect n \<in> set acts \<longleftrightarrow> n \<in> set (escalations now fd)"
    "MarkSuspect n \<in> set acts \<longleftrightarrow> n \<in> set (suspicions now fd)"
    "MarkDead n \<in> set acts \<longleftrightarrow> n \<in> set (deaths now fd2)"
    by (auto simp: acts)
  have s2: "suspect_of fd2 n = (if n \<in> set (suspicions now fd) then Some now else suspect_of fd n)"
    "suspicion_timeout_millis fd2 = suspicion_timeout_millis fd"
    "probe_timeout_millis fd2 = probe_timeout_millis fd"
    by (simp_all add: fd2_def fd1_def fold_suspect(2-4) fold_escalate(2-4))
  show "EscalateToIndirect n \<in> set acts \<longleftrightarrow>
      (\<exists>t0. probe_of fd n = Some (AwaitingDirectAck t0) \<and> saturating_sub now t0 \<ge> probe_timeout_millis fd)"
    by (simp only: mem mem_escalations [OF assms(1)])
  show "MarkSuspect n \<in> set acts \<longleftrightarrow>
      (\<exists>t0. probe_of fd n = Some (AwaitingIndirectAck t0) \<and> saturating_sub now t0 \<ge> probe_timeout_millis fd)"
    by (simp only: mem mem_suspicions [OF assms(1)])
  show "MarkDead n \<in> set acts \<longleftrightarrow>
      (\<exists>t0. (if MarkSuspect n \<in> set acts then Some now else suspect_of fd n) = Some t0 \<and>
            saturating_sub now t0 \<ge> suspicion_timeout_millis fd)"
    by (simp only: mem mem_deaths [OF wf(2)] s2)
  show "probe_of fd' n =
      (if MarkSuspect n \<in> set acts then None
       else if EscalateToIndirect n \<in> set acts then Some (AwaitingIndirectAck now)
       else probe_of fd n)"
    by (simp only: mem fd' fold_bury(1) fd2_def fold_suspect(1) fd1_def fold_escalate(1))
  show "suspect_of fd' n =
      (if MarkDead n \<in> set acts then None
       else if MarkSuspect n \<in> set acts then Some now else suspect_of fd n)"
    by (simp only: mem fd' fold_bury(2) s2)
  show "fd_wf fd'" "probe_timeout_millis fd' = probe_timeout_millis fd"
    "suspicion_timeout_millis fd' = suspicion_timeout_millis fd"
    using wf s2 by (simp_all add: fd' fold_bury)
qed

section \<open>Runs\<close>

text \<open>
  A detector driven by its caller: probes, acks and periodic checks at times that do not go
  back. \<open>first_probe\<close> remembers when the oldest probe of a node since its last ack was sent.
\<close>

record fd_sys =
  det :: failure_detector
  first_probe :: "node_id \<rightharpoonup> nat"
  clock :: nat

inductive fd_step :: "fd_sys \<Rightarrow> timeout_action list \<Rightarrow> fd_sys \<Rightarrow> bool" where
  fd_probe: "clock y \<le> unat now \<Longrightarrow>
     fd_step y [] (y\<lparr>det := begin_direct_probe now (det y) n,
       first_probe := (if first_probe y n = None then (first_probe y)(n \<mapsto> unat now) else first_probe y),
       clock := unat now\<rparr>)"
| fd_ack: "fd_step y [] (y\<lparr>det := on_ack (det y) n, first_probe := (first_probe y)(n := None)\<rparr>)"
| fd_check: "clock y \<le> unat now \<Longrightarrow> check_timeouts now (det y) = (acts, fd') \<Longrightarrow>
     fd_step y acts (y\<lparr>det := fd', clock := unat now\<rparr>)"

inductive fd_reachable :: "u64 \<Rightarrow> u64 \<Rightarrow> fd_sys \<Rightarrow> bool" for p s where
  fd_start: "fd_reachable p s \<lparr>det = fd_new p s, first_probe = Map.empty, clock = 0\<rparr>"
| fd_next: "fd_reachable p s y \<Longrightarrow> fd_step y acts y' \<Longrightarrow> fd_reachable p s y'"

inductive_cases fd_stepE: "fd_step y acts y'"

text \<open>How long ago the first unanswered probe must have been, by the node's phase.\<close>

definition aged :: "(node_id \<rightharpoonup> nat) \<Rightarrow> node_id \<Rightarrow> nat \<Rightarrow> u64 \<Rightarrow> bool" where
  "aged f n d t \<longleftrightarrow> (\<exists>s. f n = Some s \<and> s + d \<le> unat t)"

definition fd_inv :: "u64 \<Rightarrow> u64 \<Rightarrow> fd_sys \<Rightarrow> bool" where
  "fd_inv p s y \<longleftrightarrow>
     fd_wf (det y) \<and> probe_timeout_millis (det y) = p \<and> suspicion_timeout_millis (det y) = s \<and>
     (\<forall>n t. first_probe y n = Some t \<longrightarrow> t \<le> clock y) \<and>
     (\<forall>n t. probe_of (det y) n = Some (AwaitingDirectAck t) \<longrightarrow> aged (first_probe y) n 0 t) \<and>
     (\<forall>n t. probe_of (det y) n = Some (AwaitingIndirectAck t) \<longrightarrow> aged (first_probe y) n (unat p) t) \<and>
     (\<forall>n t. suspect_of (det y) n = Some t \<longrightarrow> aged (first_probe y) n (2 * unat p) t)"

lemma fd_inv_start: "fd_inv p s \<lparr>det = fd_new p s, first_probe = Map.empty, clock = 0\<rparr>"
  by (simp add: fd_inv_def fd_new_def fd_wf_def)

lemma fd_inv_probe:
  assumes "fd_inv p s y" and "clock y \<le> unat now"
  shows "fd_inv p s (y\<lparr>det := begin_direct_probe now (det y) n,
       first_probe := (if first_probe y n = None then (first_probe y)(n \<mapsto> unat now) else first_probe y),
       clock := unat now\<rparr>)"
proof -
  have clk: "\<And>n t. first_probe y n = Some t \<Longrightarrow> t \<le> unat now"
    using assms unfolding fd_inv_def by (meson order_trans)
  with assms show ?thesis
    by (auto simp: fd_inv_def begin_direct_probe_def fd_wf_def distinct_update update_conv' aged_def
        split: if_splits) (metis option.distinct(1))
qed

lemma fd_inv_ack:
  "fd_inv p s y \<Longrightarrow> fd_inv p s (y\<lparr>det := on_ack (det y) n, first_probe := (first_probe y)(n := None)\<rparr>)"
  by (auto simp: fd_inv_def on_ack_def fd_wf_def distinct_delete delete_conv' aged_def
      split: if_splits)

lemma aged_later:
  "aged f n d t \<Longrightarrow> 0 < p \<Longrightarrow> saturating_sub now t \<ge> p \<Longrightarrow> aged f n (d + unat p) now"
  by (fastforce simp: aged_def saturating_sub_ge)

lemma fd_inv_check:
  assumes "fd_inv p s y" and "0 < p" and "clock y \<le> unat now"
    and c: "check_timeouts now (det y) = (acts, fd')"
  shows "fd_inv p s (y\<lparr>det := fd', clock := unat now\<rparr>)"
proof -
  have wf: "fd_wf (det y)" using assms(1) by (simp add: fd_inv_def)
  note node = check_timeouts_node [OF wf c]
  have p: "probe_timeout_millis (det y) = p"
    and direct: "\<And>n t. probe_of (det y) n = Some (AwaitingDirectAck t) \<Longrightarrow> aged (first_probe y) n 0 t"
    and indirect: "\<And>n t. probe_of (det y) n = Some (AwaitingIndirectAck t) \<Longrightarrow>
          aged (first_probe y) n (unat p) t"
    using assms(1) unfolding fd_inv_def by blast+
  have clk: "\<And>n t. first_probe y n = Some t \<Longrightarrow> t \<le> unat now"
    using assms(1,3) unfolding fd_inv_def by (meson order_trans)
  have esc: "EscalateToIndirect n \<in> set acts \<Longrightarrow> aged (first_probe y) n (unat p) now" for n
    using direct aged_later [OF _ assms(2)] unfolding node(1) p by fastforce
  have sus: "MarkSuspect n \<in> set acts \<Longrightarrow> aged (first_probe y) n (2 * unat p) now" for n
    using indirect aged_later [OF _ assms(2)] unfolding node(2) p mult_2 by blast
  show ?thesis
    using assms(1) esc sus clk
    by (auto simp: fd_inv_def node(4-8) split: if_splits)
qed

lemma fd_step_inv: "fd_step y acts y' \<Longrightarrow> fd_inv p s y \<Longrightarrow> 0 < p \<Longrightarrow> fd_inv p s y'"
  by (induction rule: fd_step.induct) (rule fd_inv_probe fd_inv_ack fd_inv_check; assumption)+

lemma fd_reachable_inv: "fd_reachable p s y \<Longrightarrow> 0 < p \<Longrightarrow> fd_inv p s y"
  by (induction rule: fd_reachable.induct) (blast intro: fd_inv_start fd_step_inv)+

section \<open>Properties\<close>

text \<open>C29: The detector is never early: a check that declares a node dead comes at least two probe
  timeouts and one suspicion timeout after the first probe the node has left unanswered.\<close>

theorem never_dead_early:
  assumes "fd_reachable p s y" and "0 < p" and "0 < s" and "clock y \<le> unat now"
    and "check_timeouts now (det y) = (acts, fd')" and "MarkDead n \<in> set acts"
  shows "\<exists>t. first_probe y n = Some t \<and> t + 2 * unat p + unat s \<le> unat now"
proof -
  have inv: "fd_inv p s y" by (rule fd_reachable_inv [OF assms(1,2)])
  then have wf: "fd_wf (det y)" and par: "probe_timeout_millis (det y) = p" "suspicion_timeout_millis (det y) = s"
    by (simp_all add: fd_inv_def)
  note node = check_timeouts_node(1-5) [OF wf assms(5), of n]
  obtain t0 where t0: "(if MarkSuspect n \<in> set acts then Some now else suspect_of (det y) n) = Some t0"
    and due: "saturating_sub now t0 \<ge> s"
    using assms(6) node(3) par by auto
  have "t0 \<noteq> now"
    using due assms(3) by (auto simp: saturating_sub_def)
  with t0 have "suspect_of (det y) n = Some t0" by (auto split: if_splits)
  with inv have "aged (first_probe y) n (2 * unat p) t0" by (simp add: fd_inv_def)
  from aged_later [OF this assms(3) due] show ?thesis
    by (auto simp: aged_def)
qed

definition sample_run :: fd_sys where
  "sample_run =
     \<lparr>det = \<lparr>probe_timeout_millis = 10, suspicion_timeout_millis = 50, probes = [],
             suspected_since = [(NodeId 1, 20)]\<rparr>,
      first_probe = [NodeId 1 \<mapsto> 0], clock = 20\<rparr>"

lemma sample_run_reachable: "fd_reachable 10 50 sample_run"
proof -
  let ?y0 = "\<lparr>det = fd_new 10 50, first_probe = Map.empty, clock = 0\<rparr>"
  let ?y1 = "\<lparr>det = \<lparr>probe_timeout_millis = 10, suspicion_timeout_millis = 50,
      probes = [(NodeId 1, AwaitingDirectAck 0)], suspected_since = []\<rparr>,
      first_probe = [NodeId 1 \<mapsto> 0], clock = 0\<rparr>"
  let ?y2 = "\<lparr>det = \<lparr>probe_timeout_millis = 10, suspicion_timeout_millis = 50,
      probes = [(NodeId 1, AwaitingIndirectAck 10)], suspected_since = []\<rparr>,
      first_probe = [NodeId 1 \<mapsto> 0], clock = 10\<rparr>"
  have "fd_step ?y0 [] ?y1"
    using fd_probe [of ?y0 0 "NodeId 1"] by (simp add: begin_direct_probe_def fd_new_def)
  moreover have "fd_step ?y1 [EscalateToIndirect (NodeId 1)] ?y2"
    using fd_check [of ?y1 10]
    by (simp add: check_timeouts_def escalations_def suspicions_def deaths_def escalate_one_def
        saturating_sub_def)
  moreover have "fd_step ?y2 [MarkSuspect (NodeId 1)] sample_run"
    using fd_check [of ?y2 20]
    by (simp add: check_timeouts_def escalations_def suspicions_def deaths_def suspect_one_def
        saturating_sub_def sample_run_def)
  ultimately show ?thesis by (rule fd_next [OF fd_next [OF fd_next [OF fd_start]]])
qed

theorem never_dead_early_witness:
  "\<exists>t. first_probe sample_run (NodeId 1) = Some t \<and> t + 2 * unat (10 :: u64) + unat (50 :: u64) \<le> unat (70 :: u64)"
proof -
  have "check_timeouts 70 (det sample_run) = ([MarkDead (NodeId 1)],
      \<lparr>probe_timeout_millis = 10, suspicion_timeout_millis = 50, probes = [], suspected_since = []\<rparr>)"
    by (simp add: sample_run_def check_timeouts_def escalations_def suspicions_def deaths_def
        bury_one_def saturating_sub_def)
  from never_dead_early [OF sample_run_reachable _ _ _ this, of "NodeId 1"] show ?thesis
    by (simp add: sample_run_def)
qed



end
