(* ===== verification/Wire_Prims.thy ===== *)
theory Wire_Prims
  imports Ids
begin

text \<open>
  The shared codec building blocks of \<open>seisin-protocol/src/lib.rs\<close> (\<open>put_bytes\<close> to
  \<open>take_storage_members\<close>, \<open>put_opt_i64\<close>, \<open>take_opt_i64\<close>). Each writer/reader pair
  interprets the locale \<open>codec\<close>; the resulting facts are collected in \<open>enc_intros\<close> and
  \<open>dec_intros\<close>, and the message codecs follow from them by introduction.
\<close>

definition ID_LEN :: nat where "ID_LEN = 16"

definition put_bytes :: "bytes \<Rightarrow> bytes" where
  "put_bytes bs = u32_to_le (as_u32 (length bs)) @ bs"

definition take_bytes :: "bytes taker" where
  "take_bytes =
     bindP (take_fixed 4 (\<lambda>off. Bail ''truncated length prefix at offset {}'' [off]) u32_from_le)
       (\<lambda>len. take_fixed (unat len)
          (\<lambda>off. Bail ''truncated byte field at offset {}: expected {} bytes'' [off, unat len])
          (\<lambda>bs. bs))"

definition put_id :: "datum_id \<Rightarrow> bytes" where
  "put_id i = as_bytes i"

definition take_id :: "datum_id taker" where
  "take_id = take_fixed ID_LEN (\<lambda>off. Bail ''truncated datum id at offset {}'' [off]) from_bytes"

definition take_u32 :: "u32 taker" where
  "take_u32 = take_fixed 4 (\<lambda>off. Bail ''truncated u32 at offset {}'' [off]) u32_from_le"

definition take_u64 :: "u64 taker" where
  "take_u64 = take_fixed 8 (\<lambda>off. Bail ''truncated u64 at offset {}'' [off]) u64_from_le"

definition take_rank_key :: "bytes taker" where
  "take_rank_key = take_fixed 8 (\<lambda>off. Bail ''truncated rank key at offset {}'' [off]) (\<lambda>bs. bs)"

definition put_id_list :: "datum_id list \<Rightarrow> bytes" where
  "put_id_list ids = u32_to_le (as_u32 (length ids)) @ concat (map put_id ids)"

definition take_id_list :: "datum_id list taker" where
  "take_id_list = bindP take_u32 (\<lambda>count. take_n take_id (unat count))"

text \<open>\<open>String::from_utf8(take_bytes(buf, offset)?).context(..)?\<close>\<close>

definition take_string :: "string \<Rightarrow> rstring taker" where
  "take_string ctxt = bindP take_bytes (\<lambda>bs. checkP (from_utf8 ctxt bs) returnP)"

record storage_member =
  sm_node_id :: node_id
  sm_weight :: u32
  sm_store_address :: rstring
  sm_log_id :: datum_id

definition put_storage_member :: "storage_member \<Rightarrow> bytes" where
  "put_storage_member m =
     u64_to_le (node_raw (sm_node_id m)) @ u32_to_le (sm_weight m) @
     put_bytes (sm_store_address m) @ put_id (sm_log_id m)"

definition take_storage_member :: "storage_member taker" where
  "take_storage_member =
     bindP take_u64 (\<lambda>node.
     bindP take_u32 (\<lambda>weight.
     bindP (take_string ''store_address was not valid utf8'') (\<lambda>addr.
     bindP take_id (\<lambda>log.
       returnP \<lparr>sm_node_id = NodeId node, sm_weight = weight, sm_store_address = addr,
                sm_log_id = log\<rparr>))))"

definition put_storage_members :: "storage_member list \<Rightarrow> bytes" where
  "put_storage_members ms = u32_to_le (as_u32 (length ms)) @ concat (map put_storage_member ms)"

definition take_storage_members :: "storage_member list taker" where
  "take_storage_members = bindP take_u32 (\<lambda>count. take_n take_storage_member (unat count))"

definition put_opt_i64 :: "i64 option \<Rightarrow> bytes" where
  "put_opt_i64 v = (case v of None \<Rightarrow> [0] | Some v \<Rightarrow> 1 # u64_to_le v)"

definition take_byte :: "(nat \<Rightarrow> bail) \<Rightarrow> u8 taker" where
  "take_byte err = take_fixed 1 err (\<lambda>bs. bs ! 0)"

definition take_opt_i64 :: "i64 option taker" where
  "take_opt_i64 =
     bindP (take_byte (\<lambda>off. Bail ''truncated option flag at offset {}'' [off])) (\<lambda>flag.
       if flag = 0 then returnP None
       else if flag = 1 then bindP take_u64 (\<lambda>v. returnP (Some v))
       else failP (Bail ''unknown option flag: {}'' [unat flag]))"

text \<open>The same flag byte in front of an optional id or rank (\<open>decode_lb_query_req\<close>,
  \<open>decode_lb_result\<close>).\<close>

definition put_opt :: "('a \<Rightarrow> bytes) \<Rightarrow> 'a option \<Rightarrow> bytes" where
  "put_opt put v = (case v of None \<Rightarrow> [0] | Some v \<Rightarrow> 1 # put v)"

definition take_opt :: "(nat \<Rightarrow> bail) \<Rightarrow> (u8 \<Rightarrow> bail) \<Rightarrow> 'a taker \<Rightarrow> 'a option taker" where
  "take_opt err bad tak = bindP (take_byte err) (\<lambda>flag.
     if flag = 0 then returnP None
     else if flag = 1 then bindP tak (\<lambda>x. returnP (Some x))
     else failP (bad flag))"

section \<open>Well-formed values\<close>

text \<open>What the Rust types and the 32-bit length prefixes guarantee or require.\<close>

definition short :: "'a list \<Rightarrow> bool" where
  "short xs \<longleftrightarrow> length xs < 2 ^ 32"

lemma unat_as_u32_length [simp]: "short xs \<Longrightarrow> unat (as_u32 (length xs)) = length xs"
  by (simp add: short_def)

definition wf_string :: "rstring \<Rightarrow> bool" where
  "wf_string s \<longleftrightarrow> utf8_valid s \<and> short s"

definition wf_rank_key :: "bytes \<Rightarrow> bool" where
  "wf_rank_key k \<longleftrightarrow> length k = 8"

definition wf_storage_member :: "storage_member \<Rightarrow> bool" where
  "wf_storage_member m \<longleftrightarrow> wf_string (sm_store_address m)"

section \<open>The contracts\<close>

interpretation id_codec: codec put_id take_id "\<lambda>_. True"
  by unfold_locales
    (auto simp: take_id_def put_id_def ID_LEN_def intro!: encodes_fixed consumes_fixed)

interpretation u32_codec: codec u32_to_le take_u32 "\<lambda>_. True"
  by unfold_locales (auto simp: take_u32_def intro!: encodes_fixed consumes_fixed)

interpretation u64_codec: codec u64_to_le take_u64 "\<lambda>_. True"
  by unfold_locales (auto simp: take_u64_def intro!: encodes_fixed consumes_fixed)

interpretation rank_codec: codec "\<lambda>k. k" take_rank_key wf_rank_key
  by unfold_locales
    (auto simp: take_rank_key_def wf_rank_key_def intro!: encodes_fixed consumes_fixed)

interpretation bytes_codec: codec put_bytes take_bytes short
proof
  fix bs :: bytes
  assume "short bs"
  then show "encodes take_bytes (put_bytes bs) bs"
    unfolding take_bytes_def put_bytes_def short_def
    by (intro encodes_bind [where x = "as_u32 (length bs)"] encodes_fixed) simp_all
next
  show "consumes take_bytes (\<lambda>bs b. short bs \<and> b = put_bytes bs)"
    unfolding take_bytes_def
  proof (rule consumes_bind)
    show "consumes (take_fixed 4 (\<lambda>off. Bail ''truncated length prefix at offset {}'' [off]) u32_from_le)
            (\<lambda>n b. b = u32_to_le n)"
      by (rule consumes_fixed) simp
  next
    fix n :: u32 and a
    assume "a = u32_to_le n"
    then show "consumes (take_fixed (unat n)
        (\<lambda>off. Bail ''truncated byte field at offset {}: expected {} bytes'' [off, unat n]) (\<lambda>bs. bs))
        (\<lambda>bs b. short bs \<and> a @ b = put_bytes bs)"
      using unsigned_less [of n, where ?'a = nat]
      by (intro consumes_fixed) (auto simp: put_bytes_def short_def)
  qed
qed

lemmas [enc_intros] =
  id_codec.put_tak [OF TrueI] u32_codec.put_tak [OF TrueI] u64_codec.put_tak [OF TrueI]
  rank_codec.put_tak bytes_codec.put_tak

lemmas [dec_intros] =
  id_codec.tak_put u32_codec.tak_put u64_codec.tak_put rank_codec.tak_put bytes_codec.tak_put

text \<open>A \<open>u32\<close> count followed by that many items, for any item codec.\<close>

context wire_pair
begin

lemma counted_put:
  assumes "list_all wf xs" and "short xs"
  shows "encodes (bindP take_u32 (\<lambda>n. take_n tak (unat n)))
           (u32_to_le (as_u32 (length xs)) @ concat (map put xs)) xs"
proof (rule encodes_bind [OF u32_codec.put_tak [OF TrueI]])
  show "encodes (take_n tak (unat (as_u32 (length xs)))) (concat (map put xs)) xs"
    using take_n_put [OF assms(1)] assms(2) by (simp add: short_def)
qed

end

context codec
begin

lemma counted_tak:
  "consumes (bindP take_u32 (\<lambda>n. take_n tak (unat n)))
     (\<lambda>xs b. list_all wf xs \<and> short xs \<and> b = u32_to_le (as_u32 (length xs)) @ concat (map put xs))"
proof (rule consumes_bind [OF u32_codec.tak_put])
  fix n :: u32 and a
  assume "True \<and> a = u32_to_le n"
  then show "consumes (take_n tak (unat n)) (\<lambda>xs b. list_all wf xs \<and> short xs \<and>
      a @ b = u32_to_le (as_u32 (length xs)) @ concat (map put xs))"
    using unsigned_less [of n, where ?'a = nat]
    by (intro consumes_mono [OF put_take_n]) (auto simp: short_def)
qed

lemma counted_exact:
  "decode_all msg (bindP take_u32 (\<lambda>n. take_n tak (unat n))) 0 b = Inr xs \<longleftrightarrow>
     (list_all wf xs \<and> short xs) \<and> b = u32_to_le (as_u32 (length xs)) @ concat (map put xs)"
proof (rule decode_all_exact [where ok = "\<lambda>xs. list_all wf xs \<and> short xs"])
  show "list_all wf xs \<and> short xs \<Longrightarrow> encodes (bindP take_u32 (\<lambda>n. take_n tak (unat n)))
      (u32_to_le (as_u32 (length xs)) @ concat (map put xs)) xs" for xs
    by (rule counted_put) simp_all
next
  show "consumes (bindP take_u32 (\<lambda>n. take_n tak (unat n)))
      (\<lambda>xs b. (list_all wf xs \<and> short xs) \<and>
         b = u32_to_le (as_u32 (length xs)) @ concat (map put xs))"
    by (rule consumes_mono [OF counted_tak]) simp
qed

end

interpretation id_list_codec: codec put_id_list take_id_list short
proof
  fix ids :: "datum_id list"
  assume "short ids"
  then show "encodes take_id_list (put_id_list ids) ids"
    unfolding take_id_list_def put_id_list_def
    by (intro id_codec.counted_put) (simp_all add: list_all_iff)
next
  show "consumes take_id_list (\<lambda>ids b. short ids \<and> b = put_id_list ids)"
    unfolding take_id_list_def put_id_list_def
    by (rule consumes_mono [OF id_codec.counted_tak]) simp
qed

interpretation string_codec: codec put_bytes "take_string ctxt" wf_string
proof
  fix s
  assume "wf_string s"
  then show "encodes (take_string ctxt) (put_bytes s) s"
    using encodes_bind [of take_bytes "put_bytes s" s
        "\<lambda>bs. checkP (from_utf8 ctxt bs) returnP" "[]" s]
    by (simp add: take_string_def wf_string_def bytes_codec.put_tak encodes_return)
next
  show "consumes (take_string ctxt) (\<lambda>s b. wf_string s \<and> b = put_bytes s)"
    unfolding take_string_def by (rule dec_intros | auto simp: wf_string_def)+
qed

lemmas [enc_intros] = id_list_codec.put_tak string_codec.put_tak
lemmas [dec_intros] = id_list_codec.tak_put string_codec.tak_put

interpretation storage_member_codec: codec put_storage_member take_storage_member wf_storage_member
proof
  fix m
  assume "wf_storage_member m"
  then show "encodes take_storage_member (put_storage_member m) m"
    unfolding take_storage_member_def put_storage_member_def wf_storage_member_def
    by - (rule enc_intros | simp)+
next
  show "consumes take_storage_member (\<lambda>m b. wf_storage_member m \<and> b = put_storage_member m)"
    unfolding take_storage_member_def put_storage_member_def wf_storage_member_def
    by (rule dec_intros | auto)+
qed

lemmas [enc_intros] = storage_member_codec.put_tak
lemmas [dec_intros] = storage_member_codec.tak_put

definition wf_storage_members :: "storage_member list \<Rightarrow> bool" where
  "wf_storage_members ms \<longleftrightarrow> list_all wf_storage_member ms \<and> short ms"

interpretation storage_members_codec: codec put_storage_members take_storage_members wf_storage_members
  by unfold_locales
    (auto simp: take_storage_members_def put_storage_members_def wf_storage_members_def
      intro!: storage_member_codec.counted_put consumes_mono [OF storage_member_codec.counted_tak])

lemma take_byte_codec:
  "encodes (take_byte err) [b] b" "consumes (take_byte err) (\<lambda>b bs. bs = [b])"
  by (auto simp: take_byte_def length_Suc_conv intro!: encodes_fixed consumes_fixed)

lemma encodes_byte: "encodes (k b) a y \<Longrightarrow> encodes (bindP (take_byte err) k) (b # a) y"
  using encodes_bind [OF take_byte_codec(1), of k b a y] by simp

lemma pred_option_True [simp]: "pred_option (\<lambda>_. True) v"
  by (cases v) simp_all

context codec
begin

lemma opt_put: "pred_option wf v \<Longrightarrow> encodes (take_opt err bad tak) (put_opt put v) v"
  unfolding take_opt_def put_opt_def
  by (cases v) (auto intro!: encodes_byte encodes_return encodes_bind_return put_tak)

lemma opt_tak: "consumes (take_opt err bad tak) (\<lambda>v b. pred_option wf v \<and> b = put_opt put v)"
  unfolding take_opt_def
  by (rule consumes_bind [OF take_byte_codec(2)])
    (auto simp: put_opt_def intro!: consumes_return consumes_fail consumes_bind [OF tak_put])

end

lemma opt_i64_is_opt:
  "put_opt_i64 = put_opt u64_to_le"
  "take_opt_i64 = take_opt (\<lambda>off. Bail ''truncated option flag at offset {}'' [off])
     (\<lambda>f. Bail ''unknown option flag: {}'' [unat f]) take_u64"
  by (auto simp: put_opt_i64_def put_opt_def take_opt_i64_def take_opt_def fun_eq_iff split: option.splits)

interpretation opt_i64_codec: codec put_opt_i64 take_opt_i64 "\<lambda>_. True"
  unfolding opt_i64_is_opt
  using u64_codec.opt_put u64_codec.opt_tak by unfold_locales simp_all

lemmas [enc_intros] = id_codec.opt_put u64_codec.opt_put opt_i64_codec.put_tak [OF TrueI]
  storage_members_codec.put_tak
lemmas [dec_intros] = id_codec.opt_tak u64_codec.opt_tak opt_i64_codec.tak_put
  storage_members_codec.tak_put

text \<open>Fields that decoders read with error messages of their own.\<close>

interpretation raw_id: codec as_bytes "take_fixed ID_LEN err from_bytes" "\<lambda>_. True"
  by unfold_locales (auto simp: ID_LEN_def intro!: encodes_fixed consumes_fixed)

interpretation raw_u32: codec u32_to_le "take_fixed 4 err u32_from_le" "\<lambda>_. True"
  by unfold_locales (auto intro!: encodes_fixed consumes_fixed)

lemma raw_bytes_put: "length bs = n \<Longrightarrow> encodes (take_fixed n err (\<lambda>bs. bs)) bs bs"
  by (rule encodes_fixed) simp_all

lemma raw_bytes_tak: "consumes (take_fixed n err (\<lambda>bs. bs)) (\<lambda>x b. length x = n \<and> b = x)"
  by (rule consumes_fixed) simp

lemma short_u32: "length xs = unat (n :: u32) \<Longrightarrow> short xs"
  using unsigned_less [of n, where ?'a = nat] by (simp add: short_def)

end
