(* ===== verification/Wire_Queries.thy ===== *)
theory Wire_Queries
  imports Wire_Prims
begin

text \<open>
  The standalone payload codecs of \<open>seisin-protocol/src/lib.rs\<close>: the rk, lb, tk, fk and
  extent operations, queries and results. The worker treats these bytes as opaque, so the
  requests and responses embed them and the index kinds decode them again. Every one of them
  interprets \<open>buffer_codec\<close>: the decoder accepts exactly the encodings of well-formed
  values.
\<close>

section \<open>Index (rk) queries\<close>

datatype rk_query_kind = TopN u32 | BottomN u32 | PercentileSample u32

definition RK_QUERY_TOP_N :: u8 where "RK_QUERY_TOP_N = 0"
definition RK_QUERY_BOTTOM_N :: u8 where "RK_QUERY_BOTTOM_N = 1"
definition RK_QUERY_PERCENTILE_SAMPLE :: u8 where "RK_QUERY_PERCENTILE_SAMPLE = 2"
definition RK_RANK_KEY_LEN :: nat where "RK_RANK_KEY_LEN = 8"

lemmas rk_consts = RK_QUERY_TOP_N_def RK_QUERY_BOTTOM_N_def RK_QUERY_PERCENTILE_SAMPLE_def

definition encode_rk_query_kind :: "rk_query_kind \<Rightarrow> bytes" where
  "encode_rk_query_kind q =
     (let (tag, n) = (case q of
          TopN n \<Rightarrow> (RK_QUERY_TOP_N, n)
        | BottomN n \<Rightarrow> (RK_QUERY_BOTTOM_N, n)
        | PercentileSample n \<Rightarrow> (RK_QUERY_PERCENTILE_SAMPLE, n))
      in tag # u32_to_le n)"

definition decode_rk_query_kind :: "bytes \<Rightarrow> rk_query_kind result" where
  "decode_rk_query_kind buf =
     (if length buf \<noteq> 5 then Inl (Bail ''rk query kind must be exactly 5 bytes, got {}'' [length buf])
      else
        let n = u32_from_le (slice buf 1 5); tag = buf ! 0 in
        if tag = RK_QUERY_TOP_N then Inr (TopN n)
        else if tag = RK_QUERY_BOTTOM_N then Inr (BottomN n)
        else if tag = RK_QUERY_PERCENTILE_SAMPLE then Inr (PercentileSample n)
        else Inl (Bail ''unknown rk query kind tag: {}'' [unat tag]))"

type_synonym rk_entry = "bytes \<times> datum_id"

definition put_rk_entry :: "rk_entry \<Rightarrow> bytes" where
  "put_rk_entry = (\<lambda>(rank_key, pk_id). rank_key @ as_bytes pk_id)"

definition encode_rk_entries :: "rk_entry list \<Rightarrow> bytes" where
  "encode_rk_entries entries =
     u32_to_le (as_u32 (length entries)) @ concat (map put_rk_entry entries)"

definition rk_entry_at :: "bytes \<Rightarrow> nat \<Rightarrow> rk_entry" where
  "rk_entry_at buf start =
     (slice buf start (start + RK_RANK_KEY_LEN),
      from_bytes (slice buf (start + RK_RANK_KEY_LEN) (start + (RK_RANK_KEY_LEN + ID_LEN))))"

definition decode_rk_entries :: "bytes \<Rightarrow> rk_entry list result" where
  "decode_rk_entries buf =
     (if length buf < 4 then Inl (Bail ''rk entries buffer too short for a count'' [])
      else
        let count = unat (u32_from_le (slice buf 0 4)); entry_len = RK_RANK_KEY_LEN + ID_LEN in
        if length buf \<noteq> 4 + count * entry_len
        then Inl (Bail ''rk entries length mismatch: {} entries need {} bytes, got {}''
                    [count, 4 + count * entry_len, length buf])
        else Inr (map (\<lambda>i. rk_entry_at buf (4 + i * entry_len)) [0..<count]))"

definition wf_rk_entries :: "rk_entry list \<Rightarrow> bool" where
  "wf_rk_entries es \<longleftrightarrow> short es \<and> list_all (\<lambda>e. wf_rank_key (fst e)) es"

interpretation rk_query_kind: buffer_codec encode_rk_query_kind decode_rk_query_kind "\<lambda>_. True"
proof
  fix b q
  show "decode_rk_query_kind b = Inr q \<longleftrightarrow> True \<and> b = encode_rk_query_kind q"
  proof (cases "length b = 5")
    case False
    then show ?thesis
      by (auto simp: decode_rk_query_kind_def encode_rk_query_kind_def split: rk_query_kind.splits)
  next
    case True
    then obtain tag bs where b: "b = tag # bs" and n: "length bs = 4"
      by (cases b) auto
    then have "slice b 1 5 = bs" by (simp add: slice_def)
    with b n show ?thesis
      by (auto simp: decode_rk_query_kind_def encode_rk_query_kind_def rk_consts Let_def
          split: rk_query_kind.splits if_splits)
  qed
qed

text \<open>Random access into a sequence of blocks of one width, and back.\<close>

lemma slice_block:
  assumes "list_all (\<lambda>x. length (f x) = w) xs" and "i < length xs"
  shows "slice (concat (map f xs)) (i * w) (i * w + w) = f (xs ! i)"
  using assms
proof (induction xs arbitrary: i)
  case (Cons x xs)
  then show ?case
    by (cases i) (simp_all add: slice_def)
qed simp

lemma concat_blocks:
  assumes "length bs = n * w"
  shows "concat (map (\<lambda>i. slice bs (i * w) (i * w + w)) [0..<n]) = bs"
  using assms
proof (induction n arbitrary: bs)
  case (Suc n)
  have "map (\<lambda>i. slice bs (i * w) (i * w + w)) [0..<Suc n] =
      slice bs 0 w # map (\<lambda>i. slice (drop w bs) (i * w) (i * w + w)) [0..<n]"
    by (simp add: upt_conv_Cons map_Suc_upt [symmetric] slice_def add.commute del: upt_Suc)
  moreover have "concat (map (\<lambda>i. slice (drop w bs) (i * w) (i * w + w)) [0..<n]) = drop w bs"
    using Suc.prems by (intro Suc.IH) simp
  ultimately show ?case by (simp add: slice_def)
qed simp

lemma rk_entry_at_shift:
  "rk_entry_at (pre @ buf) (length pre + k) = rk_entry_at buf k"
  by (simp add: rk_entry_at_def slice_def)

lemma rk_entry_at_block:
  "rk_entry_at buf k =
     (take 8 (slice buf k (k + 24)), from_bytes (drop 8 (slice buf k (k + 24))))"
  by (simp add: rk_entry_at_def slice_def RK_RANK_KEY_LEN_def ID_LEN_def take_drop add.commute)

interpretation rk_entries: buffer_codec encode_rk_entries decode_rk_entries wf_rk_entries
proof
  fix b es
  have entry_len: "RK_RANK_KEY_LEN + ID_LEN = 24"
    by (simp add: RK_RANK_KEY_LEN_def ID_LEN_def)
  show "decode_rk_entries b = Inr es \<longleftrightarrow> wf_rk_entries es \<and> b = encode_rk_entries es"
  proof
    assume d: "decode_rk_entries b = Inr es"
    define n where "n = u32_from_le (slice b 0 4)"
    define bs where "bs = drop 4 b"
    have len: "length b = 4 + unat n * 24"
      and es: "es = map (\<lambda>i. rk_entry_at b (4 + i * 24)) [0..<unat n]"
      using d by (auto simp: decode_rk_entries_def Let_def entry_len n_def split: if_splits)
    have b: "b = u32_to_le n @ bs" and lbs: "length bs = unat n * 24"
      using len by (simp_all add: n_def bs_def slice_def)
    have at: "rk_entry_at b (4 + i * 24) = rk_entry_at bs (i * 24)" for i
      using rk_entry_at_shift [of "u32_to_le n" bs "i * 24"] b by simp
    have blk: "put_rk_entry (rk_entry_at bs (i * 24)) = slice bs (i * 24) (i * 24 + 24)"
      and wfk: "length (fst (rk_entry_at bs (i * 24))) = 8" if "i < unat n" for i
    proof -
      have "i * 24 + 24 \<le> length bs" using that lbs by simp
      then have "length (slice bs (i * 24) (i * 24 + 24)) = 24" by simp
      then show "put_rk_entry (rk_entry_at bs (i * 24)) = slice bs (i * 24) (i * 24 + 24)"
        and "length (fst (rk_entry_at bs (i * 24))) = 8"
        by (simp_all add: rk_entry_at_block put_rk_entry_def)
    qed
    have "map put_rk_entry es = map (\<lambda>i. slice bs (i * 24) (i * 24 + 24)) [0..<unat n]"
      using blk by (simp add: es at)
    then have "concat (map put_rk_entry es) = bs"
      using concat_blocks [OF lbs] by simp
    moreover have "length es = unat n" by (simp add: es)
    moreover have "wf_rk_entries es"
      using unsigned_less [of n, where ?'a = nat] wfk
      by (auto simp: wf_rk_entries_def short_def wf_rank_key_def list_all_iff es at)
    ultimately show "wf_rk_entries es \<and> b = encode_rk_entries es"
      using b by (simp add: encode_rk_entries_def)
  next
    assume "wf_rk_entries es \<and> b = encode_rk_entries es"
    then have len: "length es < 2 ^ 32" and k: "list_all (\<lambda>e. length (fst e) = 8) es"
      and b: "b = u32_to_le (as_u32 (length es)) @ concat (map put_rk_entry es)"
      by (simp_all add: wf_rk_entries_def short_def wf_rank_key_def encode_rk_entries_def)
    have w: "list_all (\<lambda>e. length (put_rk_entry e) = 24) es"
      using k by (auto simp: list_all_iff put_rk_entry_def)
    then have lc: "length (concat (map put_rk_entry es)) = length es * 24"
      by (induction es) simp_all
    have n: "unat (u32_from_le (slice b 0 4)) = length es"
      using len by (simp add: b slice_def)
    have "rk_entry_at b (4 + i * 24) = es ! i" if "i < length es" for i
    proof -
      have "rk_entry_at b (4 + i * 24) = rk_entry_at (concat (map put_rk_entry es)) (i * 24)"
        using rk_entry_at_shift [of "u32_to_le (as_u32 (length es))" _ "i * 24"] by (simp add: b)
      moreover have "length (fst (es ! i)) = 8" using k that by (simp add: list_all_length)
      ultimately show ?thesis
        using slice_block [OF w that]
        by (cases "es ! i") (simp add: rk_entry_at_block put_rk_entry_def)
    qed
    then have "map (\<lambda>i. rk_entry_at b (4 + i * 24)) [0..<length es] = es"
      by (intro nth_equalityI) simp_all
    then show "decode_rk_entries b = Inr es"
      using lc by (simp add: decode_rk_entries_def Let_def entry_len n) (simp add: b)
  qed
qed

section \<open>Leaderboards (lb)\<close>

datatype lb_execute_op =
  LbUpdate (lbu_player_id: datum_id) (lbu_display: bytes) (lbu_rank_key: bytes)
    (lbu_friend_ids: "datum_id list") (lbu_top: u32) (lbu_window: u32)
| LbRemove (lbr_player_id: datum_id)

record lb_query_req =
  lbq_top :: u32
  lbq_bottom :: u32
  lbq_around_player :: "datum_id option"
  lbq_window :: u32
  lbq_friend_ids :: "datum_id list"

record lb_entry =
  lbe_rank_key :: bytes
  lbe_player_id :: datum_id
  lbe_display :: bytes

record lb_friend_rank =
  lbf_player_id :: datum_id
  lbf_rank :: u64
  lbf_rank_key :: bytes
  lbf_display :: bytes

record lb_result =
  lb_total :: u64
  lb_player_rank :: "u64 option"
  lb_top :: "lb_entry list"
  lb_bottom :: "lb_entry list"
  lb_around :: "lb_entry list"
  lb_friends :: "lb_friend_rank list"

definition LB_OP_UPDATE :: u8 where "LB_OP_UPDATE = 0"
definition LB_OP_REMOVE :: u8 where "LB_OP_REMOVE = 1"

definition encode_lb_execute_op :: "lb_execute_op \<Rightarrow> bytes" where
  "encode_lb_execute_op op = (case op of
     LbUpdate player_id display rank_key friend_ids top_n window \<Rightarrow>
       LB_OP_UPDATE # put_id player_id @ rank_key @ put_bytes display @ put_id_list friend_ids @
       u32_to_le top_n @ u32_to_le window
   | LbRemove player_id \<Rightarrow> LB_OP_REMOVE # put_id player_id)"

definition lb_execute_op_body :: "u8 \<Rightarrow> lb_execute_op taker" where
  "lb_execute_op_body tag =
     (if tag = LB_OP_UPDATE then
        bindP take_id (\<lambda>player_id. bindP take_rank_key (\<lambda>rank_key. bindP take_bytes (\<lambda>display.
        bindP take_id_list (\<lambda>friend_ids. bindP take_u32 (\<lambda>top_n. bindP take_u32 (\<lambda>window.
          returnP (LbUpdate player_id display rank_key friend_ids top_n window)))))))
      else if tag = LB_OP_REMOVE then bindP take_id (\<lambda>player_id. returnP (LbRemove player_id))
      else failP (Bail ''unknown lb execute op tag: {}'' [unat tag]))"

definition decode_lb_execute_op :: "bytes \<Rightarrow> lb_execute_op result" where
  "decode_lb_execute_op =
     decode_tagged ''empty lb execute op'' ''lb execute op has {} trailing bytes'' lb_execute_op_body"

definition encode_lb_query_req :: "lb_query_req \<Rightarrow> bytes" where
  "encode_lb_query_req q =
     u32_to_le (lbq_top q) @ u32_to_le (lbq_bottom q) @ put_opt put_id (lbq_around_player q) @
     u32_to_le (lbq_window q) @ put_id_list (lbq_friend_ids q)"

definition take_lb_query_req :: "lb_query_req taker" where
  "take_lb_query_req =
     bindP take_u32 (\<lambda>top. bindP take_u32 (\<lambda>bottom.
     bindP (take_opt (\<lambda>_. Bail ''lb query truncated at around_player flag'' [])
              (\<lambda>f. Bail ''unknown around_player flag: {}'' [unat f]) take_id) (\<lambda>around_player.
     bindP take_u32 (\<lambda>window. bindP take_id_list (\<lambda>friend_ids.
       returnP \<lparr>lbq_top = top, lbq_bottom = bottom, lbq_around_player = around_player,
                lbq_window = window, lbq_friend_ids = friend_ids\<rparr>)))))"

definition decode_lb_query_req :: "bytes \<Rightarrow> lb_query_req result" where
  "decode_lb_query_req = decode_all ''lb query has {} trailing bytes'' take_lb_query_req 0"

definition put_lb_entry :: "lb_entry \<Rightarrow> bytes" where
  "put_lb_entry e = lbe_rank_key e @ put_id (lbe_player_id e) @ put_bytes (lbe_display e)"

definition put_lb_entries :: "lb_entry list \<Rightarrow> bytes" where
  "put_lb_entries es = u32_to_le (as_u32 (length es)) @ concat (map put_lb_entry es)"

definition take_lb_entry :: "lb_entry taker" where
  "take_lb_entry =
     bindP take_rank_key (\<lambda>rank_key. bindP take_id (\<lambda>player_id. bindP take_bytes (\<lambda>display.
       returnP \<lparr>lbe_rank_key = rank_key, lbe_player_id = player_id, lbe_display = display\<rparr>)))"

definition take_lb_entries :: "lb_entry list taker" where
  "take_lb_entries = bindP take_u32 (\<lambda>count. take_n take_lb_entry (unat count))"

definition put_lb_friend :: "lb_friend_rank \<Rightarrow> bytes" where
  "put_lb_friend f =
     put_id (lbf_player_id f) @ u64_to_le (lbf_rank f) @ lbf_rank_key f @ put_bytes (lbf_display f)"

definition take_lb_friend :: "lb_friend_rank taker" where
  "take_lb_friend =
     bindP take_id (\<lambda>player_id. bindP take_u64 (\<lambda>rank. bindP take_rank_key (\<lambda>rank_key.
     bindP take_bytes (\<lambda>display.
       returnP \<lparr>lbf_player_id = player_id, lbf_rank = rank, lbf_rank_key = rank_key,
                lbf_display = display\<rparr>))))"

definition encode_lb_result :: "lb_result \<Rightarrow> bytes" where
  "encode_lb_result r =
     u64_to_le (lb_total r) @ put_opt u64_to_le (lb_player_rank r) @
     put_lb_entries (lb_top r) @ put_lb_entries (lb_bottom r) @ put_lb_entries (lb_around r) @
     u32_to_le (as_u32 (length (lb_friends r))) @ concat (map put_lb_friend (lb_friends r))"

definition take_lb_result :: "lb_result taker" where
  "take_lb_result =
     bindP take_u64 (\<lambda>total.
     bindP (take_opt (\<lambda>_. Bail ''lb result truncated at player_rank flag'' [])
              (\<lambda>f. Bail ''unknown player_rank flag: {}'' [unat f]) take_u64) (\<lambda>player_rank.
     bindP take_lb_entries (\<lambda>top. bindP take_lb_entries (\<lambda>bottom. bindP take_lb_entries (\<lambda>around.
     bindP (bindP take_u32 (\<lambda>count. take_n take_lb_friend (unat count))) (\<lambda>friends.
       returnP \<lparr>lb_total = total, lb_player_rank = player_rank, lb_top = top, lb_bottom = bottom,
                lb_around = around, lb_friends = friends\<rparr>))))))"

definition decode_lb_result :: "bytes \<Rightarrow> lb_result result" where
  "decode_lb_result = decode_all ''lb result has {} trailing bytes'' take_lb_result 0"

fun wf_lb_execute_op :: "lb_execute_op \<Rightarrow> bool" where
  "wf_lb_execute_op (LbUpdate _ display rank_key friend_ids _ _) \<longleftrightarrow>
     short display \<and> wf_rank_key rank_key \<and> short friend_ids"
| "wf_lb_execute_op (LbRemove _) \<longleftrightarrow> True"

definition wf_lb_query_req :: "lb_query_req \<Rightarrow> bool" where
  "wf_lb_query_req q \<longleftrightarrow> short (lbq_friend_ids q)"

definition wf_lb_entry :: "lb_entry \<Rightarrow> bool" where
  "wf_lb_entry e \<longleftrightarrow> wf_rank_key (lbe_rank_key e) \<and> short (lbe_display e)"

definition wf_lb_entries :: "lb_entry list \<Rightarrow> bool" where
  "wf_lb_entries es \<longleftrightarrow> short es \<and> list_all wf_lb_entry es"

definition wf_lb_friend :: "lb_friend_rank \<Rightarrow> bool" where
  "wf_lb_friend f \<longleftrightarrow> wf_rank_key (lbf_rank_key f) \<and> short (lbf_display f)"

definition wf_lb_result :: "lb_result \<Rightarrow> bool" where
  "wf_lb_result r \<longleftrightarrow> wf_lb_entries (lb_top r) \<and> wf_lb_entries (lb_bottom r) \<and>
     wf_lb_entries (lb_around r) \<and> short (lb_friends r) \<and> list_all wf_lb_friend (lb_friends r)"

interpretation lb_execute_op: buffer_codec encode_lb_execute_op decode_lb_execute_op wf_lb_execute_op
proof
  fix b op
  show "decode_lb_execute_op b = Inr op \<longleftrightarrow> wf_lb_execute_op op \<and> b = encode_lb_execute_op op"
    unfolding decode_lb_execute_op_def
  proof (rule decode_tagged_exact)
    fix tag op bs
    assume "wf_lb_execute_op op" and "encode_lb_execute_op op = tag # bs"
    then show "encodes (lb_execute_op_body tag) bs op"
      by (cases op) (auto simp: encode_lb_execute_op_def lb_execute_op_body_def
          LB_OP_UPDATE_def LB_OP_REMOVE_def, (rule enc_intros | simp)+)
  next
    show "encode_lb_execute_op op \<noteq> []" for op
      by (cases op) (simp_all add: encode_lb_execute_op_def)
  next
    show "consumes (lb_execute_op_body tag)
        (\<lambda>op bs. wf_lb_execute_op op \<and> tag # bs = encode_lb_execute_op op)" for tag
      unfolding lb_execute_op_body_def
      by (auto simp: encode_lb_execute_op_def intro!: dec_intros)
  qed
qed

interpretation lb_query_req: buffer_codec encode_lb_query_req decode_lb_query_req wf_lb_query_req
proof
  fix b q
  show "decode_lb_query_req b = Inr q \<longleftrightarrow> wf_lb_query_req q \<and> b = encode_lb_query_req q"
    unfolding decode_lb_query_req_def
  proof (rule decode_all_exact)
    fix q
    assume "wf_lb_query_req q"
    then show "encodes take_lb_query_req (encode_lb_query_req q) q"
      unfolding take_lb_query_req_def encode_lb_query_req_def wf_lb_query_req_def
      by - (rule enc_intros | simp)+
  next
    show "consumes take_lb_query_req (\<lambda>q bs. wf_lb_query_req q \<and> bs = encode_lb_query_req q)"
      unfolding take_lb_query_req_def encode_lb_query_req_def wf_lb_query_req_def
      by (rule dec_intros | auto)+
  qed
qed

interpretation lb_entry_codec: codec put_lb_entry take_lb_entry wf_lb_entry
proof
  fix e
  assume "wf_lb_entry e"
  then show "encodes take_lb_entry (put_lb_entry e) e"
    unfolding take_lb_entry_def put_lb_entry_def wf_lb_entry_def
    by - (rule enc_intros | simp)+
next
  show "consumes take_lb_entry (\<lambda>e bs. wf_lb_entry e \<and> bs = put_lb_entry e)"
    unfolding take_lb_entry_def put_lb_entry_def wf_lb_entry_def
    by (rule dec_intros | auto)+
qed

interpretation lb_entries_codec: codec put_lb_entries take_lb_entries wf_lb_entries
  by unfold_locales
    (auto simp: take_lb_entries_def put_lb_entries_def wf_lb_entries_def
      intro!: lb_entry_codec.counted_put consumes_mono [OF lb_entry_codec.counted_tak])

interpretation lb_friend_codec: codec put_lb_friend take_lb_friend wf_lb_friend
proof
  fix f
  assume "wf_lb_friend f"
  then show "encodes take_lb_friend (put_lb_friend f) f"
    unfolding take_lb_friend_def put_lb_friend_def wf_lb_friend_def
    by - (rule enc_intros | simp)+
next
  show "consumes take_lb_friend (\<lambda>f bs. wf_lb_friend f \<and> bs = put_lb_friend f)"
    unfolding take_lb_friend_def put_lb_friend_def wf_lb_friend_def
    by (rule dec_intros | auto)+
qed

lemma lb_result_put:
  assumes "wf_lb_result r"
  shows "encodes take_lb_result (encode_lb_result r) r"
  unfolding take_lb_result_def encode_lb_result_def
  using assms unfolding wf_lb_result_def
  by - (rule u64_codec.put_tak u64_codec.opt_put lb_entries_codec.put_tak encodes_bind_return
      lb_friend_codec.counted_put encodes_bind | simp)+

lemma lb_result_tak:
  "consumes take_lb_result (\<lambda>r bs. wf_lb_result r \<and> bs = encode_lb_result r)"
  unfolding take_lb_result_def encode_lb_result_def wf_lb_result_def
  by (rule consumes_bind [OF u64_codec.tak_put] consumes_bind [OF u64_codec.opt_tak]
      consumes_bind [OF lb_entries_codec.tak_put] consumes_bind [OF lb_friend_codec.counted_tak]
      consumes_return | auto)+

interpretation lb_result: buffer_codec encode_lb_result decode_lb_result wf_lb_result
  unfolding decode_lb_result_def
  by unfold_locales (rule decode_all_exact [OF lb_result_put lb_result_tak])

section \<open>Valid-time history (tk)\<close>

datatype tk_op =
  TkSet (tks_sub_key: bytes) (tks_as_of: "i64 option") (tks_value: bytes)
| TkClear (tkc_sub_key: bytes) (tkc_as_of: "i64 option")

datatype tk_query_req =
  AsOf bytes i64
| Current bytes
| History bytes
| Range bytes i64 i64
| SnapshotAt i64

record tk_span =
  span_sub_key :: bytes
  span_lower :: i64
  span_upper :: "i64 option"
  span_value :: bytes

type_synonym tk_result = "tk_span list"

definition TK_OP_SET :: u8 where "TK_OP_SET = 0"
definition TK_OP_CLEAR :: u8 where "TK_OP_CLEAR = 1"

definition TK_Q_AS_OF :: u8 where "TK_Q_AS_OF = 0"
definition TK_Q_CURRENT :: u8 where "TK_Q_CURRENT = 1"
definition TK_Q_HISTORY :: u8 where "TK_Q_HISTORY = 2"
definition TK_Q_RANGE :: u8 where "TK_Q_RANGE = 3"
definition TK_Q_SNAPSHOT_AT :: u8 where "TK_Q_SNAPSHOT_AT = 4"

lemmas tk_consts = TK_OP_SET_def TK_OP_CLEAR_def TK_Q_AS_OF_def TK_Q_CURRENT_def
  TK_Q_HISTORY_def TK_Q_RANGE_def TK_Q_SNAPSHOT_AT_def

definition encode_tk_op :: "tk_op \<Rightarrow> bytes" where
  "encode_tk_op op = (case op of
     TkSet sub_key as_of val \<Rightarrow>
       TK_OP_SET # put_bytes sub_key @ put_opt_i64 as_of @ put_bytes val
   | TkClear sub_key as_of \<Rightarrow> TK_OP_CLEAR # put_bytes sub_key @ put_opt_i64 as_of)"

definition tk_op_body :: "u8 \<Rightarrow> tk_op taker" where
  "tk_op_body tag =
     (if tag = TK_OP_SET then
        bindP take_bytes (\<lambda>sub_key. bindP take_opt_i64 (\<lambda>as_of. bindP take_bytes (\<lambda>val.
          returnP (TkSet sub_key as_of val))))
      else if tag = TK_OP_CLEAR then
        bindP take_bytes (\<lambda>sub_key. bindP take_opt_i64 (\<lambda>as_of. returnP (TkClear sub_key as_of)))
      else failP (Bail ''unknown tk op tag: {}'' [unat tag]))"

definition decode_tk_op :: "bytes \<Rightarrow> tk_op result" where
  "decode_tk_op = decode_tagged ''empty tk op'' ''tk op has {} trailing bytes'' tk_op_body"

definition encode_tk_query_req :: "tk_query_req \<Rightarrow> bytes" where
  "encode_tk_query_req q = (case q of
     AsOf sub_key t \<Rightarrow> TK_Q_AS_OF # put_bytes sub_key @ u64_to_le t
   | Current sub_key \<Rightarrow> TK_Q_CURRENT # put_bytes sub_key
   | History sub_key \<Rightarrow> TK_Q_HISTORY # put_bytes sub_key
   | Range sub_key from to \<Rightarrow> TK_Q_RANGE # put_bytes sub_key @ u64_to_le from @ u64_to_le to
   | SnapshotAt t \<Rightarrow> TK_Q_SNAPSHOT_AT # u64_to_le t)"

definition tk_query_req_body :: "u8 \<Rightarrow> tk_query_req taker" where
  "tk_query_req_body tag =
     (if tag = TK_Q_AS_OF then
        bindP take_bytes (\<lambda>sub_key. bindP take_u64 (\<lambda>t. returnP (AsOf sub_key t)))
      else if tag = TK_Q_CURRENT then bindP take_bytes (\<lambda>sub_key. returnP (Current sub_key))
      else if tag = TK_Q_HISTORY then bindP take_bytes (\<lambda>sub_key. returnP (History sub_key))
      else if tag = TK_Q_RANGE then
        bindP take_bytes (\<lambda>sub_key. bindP take_u64 (\<lambda>from. bindP take_u64 (\<lambda>to.
          returnP (Range sub_key from to))))
      else if tag = TK_Q_SNAPSHOT_AT then bindP take_u64 (\<lambda>t. returnP (SnapshotAt t))
      else failP (Bail ''unknown tk query tag: {}'' [unat tag]))"

definition decode_tk_query_req :: "bytes \<Rightarrow> tk_query_req result" where
  "decode_tk_query_req =
     decode_tagged ''empty tk query'' ''tk query has {} trailing bytes'' tk_query_req_body"

definition put_tk_span :: "tk_span \<Rightarrow> bytes" where
  "put_tk_span s = put_bytes (span_sub_key s) @ u64_to_le (span_lower s) @
     put_opt_i64 (span_upper s) @ put_bytes (span_value s)"

definition take_tk_span :: "tk_span taker" where
  "take_tk_span =
     bindP take_bytes (\<lambda>sub_key. bindP take_u64 (\<lambda>low. bindP take_opt_i64 (\<lambda>up.
     bindP take_bytes (\<lambda>val.
       returnP \<lparr>span_sub_key = sub_key, span_lower = low, span_upper = up, span_value = val\<rparr>))))"

definition encode_tk_result :: "tk_result \<Rightarrow> bytes" where
  "encode_tk_result spans = u32_to_le (as_u32 (length spans)) @ concat (map put_tk_span spans)"

definition decode_tk_result :: "bytes \<Rightarrow> tk_result result" where
  "decode_tk_result = decode_all ''tk result has {} trailing bytes''
     (bindP take_u32 (\<lambda>count. take_n take_tk_span (unat count))) 0"

fun wf_tk_op :: "tk_op \<Rightarrow> bool" where
  "wf_tk_op (TkSet sub_key _ val) \<longleftrightarrow> short sub_key \<and> short val"
| "wf_tk_op (TkClear sub_key _) \<longleftrightarrow> short sub_key"

fun wf_tk_query_req :: "tk_query_req \<Rightarrow> bool" where
  "wf_tk_query_req (AsOf sub_key _) \<longleftrightarrow> short sub_key"
| "wf_tk_query_req (Current sub_key) \<longleftrightarrow> short sub_key"
| "wf_tk_query_req (History sub_key) \<longleftrightarrow> short sub_key"
| "wf_tk_query_req (Range sub_key _ _) \<longleftrightarrow> short sub_key"
| "wf_tk_query_req (SnapshotAt _) \<longleftrightarrow> True"

definition wf_tk_span :: "tk_span \<Rightarrow> bool" where
  "wf_tk_span s \<longleftrightarrow> short (span_sub_key s) \<and> short (span_value s)"

definition wf_tk_result :: "tk_result \<Rightarrow> bool" where
  "wf_tk_result spans \<longleftrightarrow> list_all wf_tk_span spans \<and> short spans"

interpretation tk_op: buffer_codec encode_tk_op decode_tk_op wf_tk_op
proof
  fix b op
  show "decode_tk_op b = Inr op \<longleftrightarrow> wf_tk_op op \<and> b = encode_tk_op op"
    unfolding decode_tk_op_def
  proof (rule decode_tagged_exact)
    fix tag op bs
    assume "wf_tk_op op" and "encode_tk_op op = tag # bs"
    then show "encodes (tk_op_body tag) bs op"
      by (cases op) (auto simp: encode_tk_op_def tk_op_body_def tk_consts, (rule enc_intros | simp)+)
  next
    show "encode_tk_op op \<noteq> []" for op
      by (cases op) (simp_all add: encode_tk_op_def)
  next
    show "consumes (tk_op_body tag) (\<lambda>op bs. wf_tk_op op \<and> tag # bs = encode_tk_op op)" for tag
      unfolding tk_op_body_def by (auto simp: encode_tk_op_def intro!: dec_intros)
  qed
qed

interpretation tk_query_req: buffer_codec encode_tk_query_req decode_tk_query_req wf_tk_query_req
proof
  fix b q
  show "decode_tk_query_req b = Inr q \<longleftrightarrow> wf_tk_query_req q \<and> b = encode_tk_query_req q"
    unfolding decode_tk_query_req_def
  proof (rule decode_tagged_exact)
    fix tag q bs
    assume "wf_tk_query_req q" and "encode_tk_query_req q = tag # bs"
    then show "encodes (tk_query_req_body tag) bs q"
      by (cases q)
        (auto simp: encode_tk_query_req_def tk_query_req_body_def tk_consts, (rule enc_intros | simp)+)
  next
    show "encode_tk_query_req q \<noteq> []" for q
      by (cases q) (simp_all add: encode_tk_query_req_def)
  next
    show "consumes (tk_query_req_body tag)
        (\<lambda>q bs. wf_tk_query_req q \<and> tag # bs = encode_tk_query_req q)" for tag
      unfolding tk_query_req_body_def by (auto simp: encode_tk_query_req_def intro!: dec_intros)
  qed
qed

interpretation tk_span_codec: codec put_tk_span take_tk_span wf_tk_span
proof
  fix s
  assume "wf_tk_span s"
  then show "encodes take_tk_span (put_tk_span s) s"
    unfolding take_tk_span_def put_tk_span_def wf_tk_span_def
    by - (rule enc_intros | simp)+
next
  show "consumes take_tk_span (\<lambda>s bs. wf_tk_span s \<and> bs = put_tk_span s)"
    unfolding take_tk_span_def put_tk_span_def wf_tk_span_def
    by (rule dec_intros | auto)+
qed

interpretation tk_result: buffer_codec encode_tk_result decode_tk_result wf_tk_result
  unfolding decode_tk_result_def
  by unfold_locales (simp add: encode_tk_result_def wf_tk_result_def tk_span_codec.counted_exact)

section \<open>Pending references (fk)\<close>

datatype fk_pending_op =
  FkList
| FkRemove (fkr_referencing_pk: datum_id) (fkr_target: datum_id)
| FkInsert (fki_referencing_pk: datum_id) (fki_target: datum_id)

definition FK_PENDING_LIST :: u8 where "FK_PENDING_LIST = 0"
definition FK_PENDING_REMOVE :: u8 where "FK_PENDING_REMOVE = 1"
definition FK_PENDING_INSERT :: u8 where "FK_PENDING_INSERT = 2"

definition encode_fk_pending_op :: "fk_pending_op \<Rightarrow> bytes" where
  "encode_fk_pending_op op = (case op of
     FkList \<Rightarrow> [FK_PENDING_LIST]
   | FkRemove referencing_pk target \<Rightarrow> FK_PENDING_REMOVE # put_id referencing_pk @ put_id target
   | FkInsert referencing_pk target \<Rightarrow> FK_PENDING_INSERT # put_id referencing_pk @ put_id target)"

definition fk_pending_op_body :: "u8 \<Rightarrow> fk_pending_op taker" where
  "fk_pending_op_body tag =
     (if tag = FK_PENDING_LIST then returnP FkList
      else if tag = FK_PENDING_REMOVE then
        bindP take_id (\<lambda>referencing_pk. bindP take_id (\<lambda>target. returnP (FkRemove referencing_pk target)))
      else if tag = FK_PENDING_INSERT then
        bindP take_id (\<lambda>referencing_pk. bindP take_id (\<lambda>target. returnP (FkInsert referencing_pk target)))
      else failP (Bail ''unknown fk pending op tag: {}'' [unat tag]))"

definition decode_fk_pending_op :: "bytes \<Rightarrow> fk_pending_op result" where
  "decode_fk_pending_op =
     decode_tagged ''empty fk pending op'' ''fk pending op has {} trailing bytes'' fk_pending_op_body"

type_synonym fk_entry = "datum_id \<times> datum_id"

definition put_fk_entry :: "fk_entry \<Rightarrow> bytes" where
  "put_fk_entry = (\<lambda>(referencing_pk, target). put_id referencing_pk @ put_id target)"

definition take_fk_entry :: "fk_entry taker" where
  "take_fk_entry =
     bindP take_id (\<lambda>referencing_pk. bindP take_id (\<lambda>target. returnP (referencing_pk, target)))"

definition encode_fk_entries :: "fk_entry list \<Rightarrow> bytes" where
  "encode_fk_entries es = u32_to_le (as_u32 (length es)) @ concat (map put_fk_entry es)"

definition decode_fk_entries :: "bytes \<Rightarrow> fk_entry list result" where
  "decode_fk_entries = decode_all ''fk entries have {} trailing bytes''
     (bindP take_u32 (\<lambda>count. take_n take_fk_entry (unat count))) 0"

interpretation fk_pending_op: buffer_codec encode_fk_pending_op decode_fk_pending_op "\<lambda>_. True"
proof
  fix b op
  show "decode_fk_pending_op b = Inr op \<longleftrightarrow> True \<and> b = encode_fk_pending_op op"
    unfolding decode_fk_pending_op_def
  proof (rule decode_tagged_exact)
    fix tag op bs
    assume "encode_fk_pending_op op = tag # bs"
    then show "encodes (fk_pending_op_body tag) bs op"
      by (cases op)
        (auto simp: encode_fk_pending_op_def fk_pending_op_body_def FK_PENDING_LIST_def
          FK_PENDING_REMOVE_def FK_PENDING_INSERT_def, (rule enc_intros | simp)+)
  next
    show "encode_fk_pending_op op \<noteq> []" for op
      by (cases op) (simp_all add: encode_fk_pending_op_def)
  next
    show "consumes (fk_pending_op_body tag) (\<lambda>op bs. True \<and> tag # bs = encode_fk_pending_op op)" for tag
      unfolding fk_pending_op_body_def by (auto simp: encode_fk_pending_op_def intro!: dec_intros)
  qed
qed

interpretation fk_entry_codec: codec put_fk_entry take_fk_entry "\<lambda>_. True"
  by unfold_locales
    (auto simp: take_fk_entry_def put_fk_entry_def split: prod.splits intro!: enc_intros dec_intros)

interpretation fk_entries: buffer_codec encode_fk_entries decode_fk_entries short
  unfolding decode_fk_entries_def
  by unfold_locales (simp add: encode_fk_entries_def fk_entry_codec.counted_exact list_all_iff)

section \<open>Extents and partitions\<close>

datatype extent_op = ExtentInsert (ei_pk: datum_id) | ExtentRemove (er_pk: datum_id)

definition EXTENT_OP_INSERT :: u8 where "EXTENT_OP_INSERT = 0"
definition EXTENT_OP_REMOVE :: u8 where "EXTENT_OP_REMOVE = 1"

definition encode_extent_op :: "extent_op \<Rightarrow> bytes" where
  "encode_extent_op op = (case op of
     ExtentInsert pk \<Rightarrow> EXTENT_OP_INSERT # put_id pk
   | ExtentRemove pk \<Rightarrow> EXTENT_OP_REMOVE # put_id pk)"

definition extent_op_body :: "u8 \<Rightarrow> extent_op taker" where
  "extent_op_body tag =
     (if tag = EXTENT_OP_INSERT then bindP take_id (\<lambda>pk. returnP (ExtentInsert pk))
      else if tag = EXTENT_OP_REMOVE then bindP take_id (\<lambda>pk. returnP (ExtentRemove pk))
      else failP (Bail ''unknown extent op tag: {}'' [unat tag]))"

definition decode_extent_op :: "bytes \<Rightarrow> extent_op result" where
  "decode_extent_op =
     decode_tagged ''empty extent op'' ''extent op has {} trailing bytes'' extent_op_body"

definition encode_extent_page :: "u64 \<Rightarrow> u32 \<Rightarrow> bytes" where
  "encode_extent_page offset limit = u64_to_le offset @ u32_to_le limit"

definition decode_extent_page :: "bytes \<Rightarrow> (u64 \<times> u32) result" where
  "decode_extent_page buf =
     (if length buf \<noteq> 12 then Inl (Bail ''extent page query must be 12 bytes, got {}'' [length buf])
      else Inr (u64_from_le (slice buf 0 8), u32_from_le (slice buf 8 12)))"

definition encode_extent_result :: "u64 \<Rightarrow> datum_id list \<Rightarrow> bytes" where
  "encode_extent_result tot pks =
     u64_to_le tot @ u32_to_le (as_u32 (length pks)) @ concat (map put_id pks)"

definition take_extent_result :: "(u64 \<times> datum_id list) taker" where
  "take_extent_result =
     bindP take_u64 (\<lambda>tot.
     bindP (bindP take_u32 (\<lambda>count. take_n take_id (unat count))) (\<lambda>pks. returnP (tot, pks)))"

definition decode_extent_result :: "bytes \<Rightarrow> (u64 \<times> datum_id list) result" where
  "decode_extent_result = decode_all ''extent result has {} trailing bytes'' take_extent_result 0"

interpretation extent_op: buffer_codec encode_extent_op decode_extent_op "\<lambda>_. True"
proof
  fix b op
  show "decode_extent_op b = Inr op \<longleftrightarrow> True \<and> b = encode_extent_op op"
    unfolding decode_extent_op_def
  proof (rule decode_tagged_exact)
    fix tag op bs
    assume "encode_extent_op op = tag # bs"
    then show "encodes (extent_op_body tag) bs op"
      by (cases op)
        (auto simp: encode_extent_op_def extent_op_body_def EXTENT_OP_INSERT_def
          EXTENT_OP_REMOVE_def, (rule enc_intros | simp)+)
  next
    show "encode_extent_op op \<noteq> []" for op
      by (cases op) (simp_all add: encode_extent_op_def)
  next
    show "consumes (extent_op_body tag) (\<lambda>op bs. True \<and> tag # bs = encode_extent_op op)" for tag
      unfolding extent_op_body_def by (auto simp: encode_extent_op_def intro!: dec_intros)
  qed
qed

interpretation extent_page:
  buffer_codec "\<lambda>(offset, limit). encode_extent_page offset limit" decode_extent_page "\<lambda>_. True"
proof
  fix b :: bytes and x :: "u64 \<times> u32"
  obtain off lim where x: "x = (off, lim)" by fastforce
  have "slice b 0 8 @ slice b 8 12 = b" if "length b = 12"
    using that slice_append [of 0 8 12 b] by (simp add: slice_def)
  moreover have "decode_extent_page (encode_extent_page off lim) = Inr (off, lim)"
    by (simp add: decode_extent_page_def encode_extent_page_def slice_def)
  ultimately show "decode_extent_page b = Inr x \<longleftrightarrow>
      True \<and> b = (case x of (offset, limit) \<Rightarrow> encode_extent_page offset limit)"
    by (auto simp: x decode_extent_page_def encode_extent_page_def split: if_splits)
qed

interpretation extent_result:
  buffer_codec "\<lambda>(tot, pks). encode_extent_result tot pks" decode_extent_result
    "\<lambda>(tot, pks). short pks"
proof
  fix b :: bytes and x :: "u64 \<times> datum_id list"
  have ids: "encodes (bindP take_u32 (\<lambda>count. take_n take_id (unat count)))
      (u32_to_le (as_u32 (length pks)) @ concat (map put_id pks)) pks" if "short pks" for pks
    using that by (intro id_codec.counted_put) (simp_all add: list_all_iff)
  show "decode_extent_result b = Inr x \<longleftrightarrow>
      (case x of (tot, pks) \<Rightarrow> short pks) \<and> b = (case x of (tot, pks) \<Rightarrow> encode_extent_result tot pks)"
    unfolding decode_extent_result_def
  proof (rule decode_all_exact)
    fix x :: "u64 \<times> datum_id list"
    assume "case x of (tot, pks) \<Rightarrow> short pks"
    then show "encodes take_extent_result (case x of (tot, pks) \<Rightarrow> encode_extent_result tot pks) x"
      unfolding take_extent_result_def encode_extent_result_def
      by (auto split: prod.splits intro!: encodes_bind [OF u64_codec.put_tak] encodes_bind_return ids)
  next
    show "consumes take_extent_result (\<lambda>x bs. (case x of (tot, pks) \<Rightarrow> short pks) \<and>
        bs = (case x of (tot, pks) \<Rightarrow> encode_extent_result tot pks))"
      unfolding take_extent_result_def encode_extent_result_def
      by (rule consumes_bind [OF u64_codec.tak_put] consumes_bind [OF id_codec.counted_tak]
          consumes_return | auto)+
  qed
qed

end
