(* ===== verification/Wire_Request.thy ===== *)
theory Wire_Request
  imports Wire_Queries
begin

text \<open>
  Requests on the client and peer wire, \<open>Request\<close>, \<open>encode_request\<close> and
  \<open>decode_request\<close> with its per-opcode decoders in \<open>seisin-protocol/src/lib.rs\<close>. The
  lemmas \<open>*_exact\<close> say of each decoder which buffers it accepts; together they make
  \<open>decode_request\<close> exact except for \<open>InstallStorageRing\<close>, whose decoder ignores
  trailing bytes.
\<close>

datatype request =
  Op (op_op_id: datum_id) (op_op_name: rstring) (op_datum_ids: "datum_id list") (op_payload: bytes)
| Acquire (acq_op_id: datum_id) (acq_datum_id: datum_id) (acq_requester_node: node_id)
    (acq_requester_thread: thread_id)
| Recall (recall_datum_id: datum_id)
| Release (release_datum_id: datum_id)
| IndexUpdate (iu_target: datum_id) (iu_op_id: datum_id) (iu_index_kind: rstring) (iu_payload: bytes)
| RkQuery (rkq_index_datum_id: datum_id) (rkq_query: rk_query_kind)
| LbExecute (lbx_board_id: datum_id) (lbx_class: rstring) (lbx_op: lb_execute_op)
| LbQuery (lbq_board_id: datum_id) (lbq_class: rstring) (lbq_query: lb_query_req)
| TkExecute (tkx_entity_datum_id: datum_id) (tkx_class: rstring) (tkx_op: tk_op)
| TkQuery (tkq_entity_datum_id: datum_id) (tkq_class: rstring) (tkq_query: tk_query_req)
| ExistsCheck (ec_datum_id: datum_id)
| FkPending (fkp_pending_datum_id: datum_id) (fkp_op: fk_pending_op)
| ExtentQuery (eq_extent_datum_id: datum_id) (eq_offset: u64) (eq_limit: u32)
| PartitionUpdate (pu_partition_datum_id: datum_id) (pu_op: extent_op)
| GetClusterConfig
| Pause (pause_reason: rstring)
| Resume
| ClearHalt
| InstallStorageRing (isr_members: "storage_member list")

definition PROTOCOL_VERSION :: u8 where "PROTOCOL_VERSION = 2"

definition check_version :: "bytes \<Rightarrow> string \<Rightarrow> bytes result" where
  "check_version buf what = (case buf of
     [] \<Rightarrow> Inl (Bail (''empty '' @ what @ '' payload'') [])
   | v # rest \<Rightarrow>
       if v = PROTOCOL_VERSION then Inr rest
       else Inl (Bail (''unsupported '' @ what @ '' protocol version {}; this node speaks version {}'')
                   [unat v, unat PROTOCOL_VERSION]))"

definition OP_OP :: u8 where "OP_OP = 1"
definition OP_ACQUIRE :: u8 where "OP_ACQUIRE = 2"
definition OP_RECALL :: u8 where "OP_RECALL = 3"
definition OP_RELEASE :: u8 where "OP_RELEASE = 4"
definition OP_INDEX_UPDATE :: u8 where "OP_INDEX_UPDATE = 5"
definition OP_RK_QUERY :: u8 where "OP_RK_QUERY = 6"
definition OP_LB_EXECUTE :: u8 where "OP_LB_EXECUTE = 7"
definition OP_LB_QUERY :: u8 where "OP_LB_QUERY = 8"
definition OP_TK_EXECUTE :: u8 where "OP_TK_EXECUTE = 9"
definition OP_TK_QUERY :: u8 where "OP_TK_QUERY = 10"
definition OP_EXISTS_CHECK :: u8 where "OP_EXISTS_CHECK = 11"
definition OP_FK_PENDING :: u8 where "OP_FK_PENDING = 12"
definition OP_EXTENT_QUERY :: u8 where "OP_EXTENT_QUERY = 13"
definition OP_PARTITION_UPDATE :: u8 where "OP_PARTITION_UPDATE = 14"
definition OP_GET_CLUSTER_CONFIG :: u8 where "OP_GET_CLUSTER_CONFIG = 15"
definition OP_PAUSE :: u8 where "OP_PAUSE = 16"
definition OP_RESUME :: u8 where "OP_RESUME = 17"
definition OP_CLEAR_HALT :: u8 where "OP_CLEAR_HALT = 18"
definition OP_INSTALL_STORAGE_RING :: u8 where "OP_INSTALL_STORAGE_RING = 19"

lemmas opcodes =
  OP_OP_def OP_ACQUIRE_def OP_RECALL_def OP_RELEASE_def OP_INDEX_UPDATE_def OP_RK_QUERY_def
  OP_LB_EXECUTE_def OP_LB_QUERY_def OP_TK_EXECUTE_def OP_TK_QUERY_def OP_EXISTS_CHECK_def
  OP_FK_PENDING_def OP_EXTENT_QUERY_def OP_PARTITION_UPDATE_def OP_GET_CLUSTER_CONFIG_def
  OP_PAUSE_def OP_RESUME_def OP_CLEAR_HALT_def OP_INSTALL_STORAGE_RING_def

text \<open>What \<open>encode_request\<close> writes after the version byte.\<close>

fun request_body :: "request \<Rightarrow> bytes" where
  "request_body (Op op_id op_name datum_ids payload) =
     OP_OP # as_bytes op_id @ u32_to_le (as_u32 (length op_name)) @ op_name @
     u32_to_le (as_u32 (length datum_ids)) @ concat (map as_bytes datum_ids) @ payload"
| "request_body (Acquire op_id datum_id requester_node requester_thread) =
     OP_ACQUIRE # as_bytes op_id @ as_bytes datum_id @ u64_to_le (node_raw requester_node) @
     u32_to_le (thread_raw requester_thread)"
| "request_body (Recall datum_id) = OP_RECALL # as_bytes datum_id"
| "request_body (Release datum_id) = OP_RELEASE # as_bytes datum_id"
| "request_body (IndexUpdate target op_id index_kind payload) =
     OP_INDEX_UPDATE # as_bytes target @ as_bytes op_id @
     u32_to_le (as_u32 (length index_kind)) @ index_kind @ payload"
| "request_body (RkQuery index_datum_id query) =
     OP_RK_QUERY # as_bytes index_datum_id @ encode_rk_query_kind query"
| "request_body (LbExecute board_id cls op) =
     OP_LB_EXECUTE # as_bytes board_id @ put_bytes cls @ encode_lb_execute_op op"
| "request_body (LbQuery board_id cls query) =
     OP_LB_QUERY # as_bytes board_id @ put_bytes cls @ encode_lb_query_req query"
| "request_body (TkExecute entity_datum_id cls op) =
     OP_TK_EXECUTE # as_bytes entity_datum_id @ put_bytes cls @ encode_tk_op op"
| "request_body (TkQuery entity_datum_id cls query) =
     OP_TK_QUERY # as_bytes entity_datum_id @ put_bytes cls @ encode_tk_query_req query"
| "request_body (ExistsCheck datum_id) = OP_EXISTS_CHECK # as_bytes datum_id"
| "request_body (FkPending pending_datum_id op) =
     OP_FK_PENDING # as_bytes pending_datum_id @ encode_fk_pending_op op"
| "request_body (ExtentQuery extent_datum_id offset limit) =
     OP_EXTENT_QUERY # as_bytes extent_datum_id @ encode_extent_page offset limit"
| "request_body (PartitionUpdate partition_datum_id op) =
     OP_PARTITION_UPDATE # as_bytes partition_datum_id @ encode_extent_op op"
| "request_body GetClusterConfig = [OP_GET_CLUSTER_CONFIG]"
| "request_body (Pause reason) = OP_PAUSE # reason"
| "request_body Resume = [OP_RESUME]"
| "request_body ClearHalt = [OP_CLEAR_HALT]"
| "request_body (InstallStorageRing members) = OP_INSTALL_STORAGE_RING # put_storage_members members"

definition encode_request :: "request \<Rightarrow> bytes" where
  "encode_request req = PROTOCOL_VERSION # request_body req"

section \<open>Decoders, one per opcode\<close>

definition take_op_request :: "nat \<Rightarrow> request taker" where
  "take_op_request buf_len =
     bindP (take_fixed ID_LEN
         (\<lambda>_. Bail ''op request too short for an op_id: {} bytes'' [buf_len]) from_bytes) (\<lambda>op_id.
     bindP (take_fixed 4 (\<lambda>_. Bail ''op request too short for a name length'' []) u32_from_le) (\<lambda>name_len.
     bindP (take_fixed (unat name_len)
         (\<lambda>_. Bail ''op request too short for its name: expected {} bytes'' [unat name_len]) (\<lambda>bs. bs)) (\<lambda>name.
     checkP (from_utf8 ''op name was not valid utf8'' name) (\<lambda>op_name.
     bindP (take_fixed 4 (\<lambda>_. Bail ''op request too short for a datum_ids count'' []) u32_from_le) (\<lambda>id_count.
     bindP (take_n (take_fixed ID_LEN (\<lambda>_. Bail ''op request truncated in datum_ids list'' []) from_bytes)
              (unat id_count)) (\<lambda>datum_ids.
     bindP take_rest (\<lambda>payload. returnP (Op op_id op_name datum_ids payload))))))))"

definition decode_op_request :: "bytes \<Rightarrow> request result" where
  "decode_op_request buf = run_from (take_op_request (length buf)) 1 buf"

definition decode_acquire_request :: "bytes \<Rightarrow> request result" where
  "decode_acquire_request buf =
     (if length buf \<noteq> 1 + ID_LEN + ID_LEN + 8 + 4
      then Inl (Bail ''acquire request has the wrong length: expected {} bytes, got {}''
                  [1 + ID_LEN + ID_LEN + 8 + 4, length buf])
      else
        let op_id = from_bytes (slice buf 1 (1 + ID_LEN));
            datum_id = from_bytes (slice buf (1 + ID_LEN) (1 + 2 * ID_LEN));
            node_offset = 1 + 2 * ID_LEN;
            requester_node = NodeId (u64_from_le (slice buf node_offset (node_offset + 8)));
            thread_offset = node_offset + 8;
            requester_thread = ThreadId (u32_from_le (slice buf thread_offset (thread_offset + 4)))
        in Inr (Acquire op_id datum_id requester_node requester_thread))"

text \<open>The three one-id requests, which check the length and read the id.\<close>

definition decode_id_request :: "string \<Rightarrow> (datum_id \<Rightarrow> request) \<Rightarrow> bytes \<Rightarrow> request result" where
  "decode_id_request msg mk buf =
     (if length buf \<noteq> 1 + ID_LEN then Inl (Bail msg [1 + ID_LEN, length buf])
      else Inr (mk (from_bytes (slice buf 1 (1 + ID_LEN)))))"

definition decode_recall_request :: "bytes \<Rightarrow> request result" where
  "decode_recall_request =
     decode_id_request ''recall request has the wrong length: expected {} bytes, got {}'' Recall"

definition decode_release_request :: "bytes \<Rightarrow> request result" where
  "decode_release_request =
     decode_id_request ''release request has the wrong length: expected {} bytes, got {}'' Release"

definition decode_index_update_request :: "bytes \<Rightarrow> request result" where
  "decode_index_update_request buf =
     (if length buf < 1 + ID_LEN + ID_LEN + 4
      then Inl (Bail ''index update request too short for its fixed fields'' [])
      else
        let target = from_bytes (slice buf 1 (1 + ID_LEN));
            op_id_offset = 1 + ID_LEN;
            op_id = from_bytes (slice buf op_id_offset (op_id_offset + ID_LEN));
            kind_len_offset = op_id_offset + ID_LEN;
            kind_len = unat (u32_from_le (slice buf kind_len_offset (kind_len_offset + 4)));
            kind_offset = kind_len_offset + 4
        in
        if length buf < kind_offset + kind_len
        then Inl (Bail ''index update request too short for its index_kind'' [])
        else
          bindE (from_utf8 ''index_kind was not valid utf8'' (slice buf kind_offset (kind_offset + kind_len)))
            (\<lambda>index_kind. Inr (IndexUpdate target op_id index_kind (drop (kind_offset + kind_len) buf))))"

definition decode_rk_query_request :: "bytes \<Rightarrow> request result" where
  "decode_rk_query_request buf =
     (if length buf \<noteq> 1 + ID_LEN + 5
      then Inl (Bail ''rk query request has the wrong length: expected {} bytes, got {}''
                  [1 + ID_LEN + 5, length buf])
      else bindE (decode_rk_query_kind (drop (1 + ID_LEN) buf)) (\<lambda>query.
        Inr (RkQuery (from_bytes (slice buf 1 (1 + ID_LEN))) query)))"

definition decode_lb_execute_request :: "bytes \<Rightarrow> request result" where
  "decode_lb_execute_request = run_from
     (bindP take_id (\<lambda>board_id. bindP (take_string ''lb class was not valid utf8'') (\<lambda>cls.
      bindP take_rest (\<lambda>rest. checkP (decode_lb_execute_op rest) (\<lambda>op.
        returnP (LbExecute board_id cls op)))))) 1"

definition decode_lb_query_request :: "bytes \<Rightarrow> request result" where
  "decode_lb_query_request = run_from
     (bindP take_id (\<lambda>board_id. bindP (take_string ''lb class was not valid utf8'') (\<lambda>cls.
      bindP take_rest (\<lambda>rest. checkP (decode_lb_query_req rest) (\<lambda>query.
        returnP (LbQuery board_id cls query)))))) 1"

definition decode_tk_execute_request :: "bytes \<Rightarrow> request result" where
  "decode_tk_execute_request = run_from
     (bindP take_id (\<lambda>entity_datum_id. bindP (take_string ''tk class was not valid utf8'') (\<lambda>cls.
      bindP take_rest (\<lambda>rest. checkP (decode_tk_op rest) (\<lambda>op.
        returnP (TkExecute entity_datum_id cls op)))))) 1"

definition decode_tk_query_request :: "bytes \<Rightarrow> request result" where
  "decode_tk_query_request = run_from
     (bindP take_id (\<lambda>entity_datum_id. bindP (take_string ''tk class was not valid utf8'') (\<lambda>cls.
      bindP take_rest (\<lambda>rest. checkP (decode_tk_query_req rest) (\<lambda>query.
        returnP (TkQuery entity_datum_id cls query)))))) 1"

text \<open>The arms that \<open>decode_request\<close> has inline.\<close>

definition decode_fk_pending_request :: "bytes \<Rightarrow> request result" where
  "decode_fk_pending_request = run_from
     (bindP take_id (\<lambda>pending_datum_id. bindP take_rest (\<lambda>rest. checkP (decode_fk_pending_op rest) (\<lambda>op.
        returnP (FkPending pending_datum_id op))))) 1"

definition decode_extent_query_request :: "bytes \<Rightarrow> request result" where
  "decode_extent_query_request = run_from
     (bindP take_id (\<lambda>extent_datum_id. bindP take_rest (\<lambda>rest. checkP (decode_extent_page rest) (\<lambda>page.
        returnP (ExtentQuery extent_datum_id (fst page) (snd page)))))) 1"

definition decode_partition_update_request :: "bytes \<Rightarrow> request result" where
  "decode_partition_update_request = run_from
     (bindP take_id (\<lambda>partition_datum_id. bindP take_rest (\<lambda>rest. checkP (decode_extent_op rest) (\<lambda>op.
        returnP (PartitionUpdate partition_datum_id op))))) 1"

definition decode_bare_request :: "string \<Rightarrow> request \<Rightarrow> bytes \<Rightarrow> request result" where
  "decode_bare_request msg req buf =
     (if length buf \<noteq> 1 then Inl (Bail msg [length buf - 1]) else Inr req)"

definition decode_pause_request :: "bytes \<Rightarrow> request result" where
  "decode_pause_request buf =
     bindE (from_utf8 ''pause reason was not valid utf8'' (drop 1 buf)) (\<lambda>reason. Inr (Pause reason))"

definition decode_install_request :: "bytes \<Rightarrow> request result" where
  "decode_install_request buf =
     bindE (run_from take_storage_members 1 buf) (\<lambda>members. Inr (InstallStorageRing members))"

definition decode_request_body :: "bytes \<Rightarrow> request result" where
  "decode_request_body buf =
     (if buf = [] then Inl (Bail ''empty request payload'' [])
      else
        let op = buf ! 0 in
        if op = OP_OP then decode_op_request buf
        else if op = OP_ACQUIRE then decode_acquire_request buf
        else if op = OP_RECALL then decode_recall_request buf
        else if op = OP_RELEASE then decode_release_request buf
        else if op = OP_INDEX_UPDATE then decode_index_update_request buf
        else if op = OP_RK_QUERY then decode_rk_query_request buf
        else if op = OP_LB_EXECUTE then decode_lb_execute_request buf
        else if op = OP_LB_QUERY then decode_lb_query_request buf
        else if op = OP_TK_EXECUTE then decode_tk_execute_request buf
        else if op = OP_TK_QUERY then decode_tk_query_request buf
        else if op = OP_EXISTS_CHECK then
          decode_id_request ''exists check request has the wrong length: expected {} bytes, got {}'' ExistsCheck buf
        else if op = OP_FK_PENDING then decode_fk_pending_request buf
        else if op = OP_EXTENT_QUERY then decode_extent_query_request buf
        else if op = OP_PARTITION_UPDATE then decode_partition_update_request buf
        else if op = OP_GET_CLUSTER_CONFIG then
          decode_bare_request ''get cluster config has {} trailing bytes'' GetClusterConfig buf
        else if op = OP_PAUSE then decode_pause_request buf
        else if op = OP_RESUME then decode_bare_request ''resume has {} trailing bytes'' Resume buf
        else if op = OP_CLEAR_HALT then decode_bare_request ''clear halt has {} trailing bytes'' ClearHalt buf
        else if op = OP_INSTALL_STORAGE_RING then decode_install_request buf
        else Inl (Bail ''unknown request opcode: {}'' [unat op]))"

definition decode_request :: "bytes \<Rightarrow> request result" where
  "decode_request buf = bindE (check_version buf ''request'') decode_request_body"

section \<open>Which buffers each decoder accepts\<close>

fun wf_request :: "request \<Rightarrow> bool" where
  "wf_request (Op _ op_name datum_ids _) \<longleftrightarrow> wf_string op_name \<and> short datum_ids"
| "wf_request (IndexUpdate _ _ index_kind _) \<longleftrightarrow> wf_string index_kind"
| "wf_request (LbExecute _ cls op) \<longleftrightarrow> wf_string cls \<and> wf_lb_execute_op op"
| "wf_request (LbQuery _ cls query) \<longleftrightarrow> wf_string cls \<and> wf_lb_query_req query"
| "wf_request (TkExecute _ cls op) \<longleftrightarrow> wf_string cls \<and> wf_tk_op op"
| "wf_request (TkQuery _ cls query) \<longleftrightarrow> wf_string cls \<and> wf_tk_query_req query"
| "wf_request (Pause reason) \<longleftrightarrow> utf8_valid reason"
| "wf_request (InstallStorageRing members) \<longleftrightarrow> wf_storage_members members"
| "wf_request _ \<longleftrightarrow> True"

lemma op_exact:
  "decode_op_request (OP_OP # rest) = Inr r \<longleftrightarrow> wf_request r \<and> OP_OP # rest = request_body r"
  unfolding decode_op_request_def One_nat_def
proof (rule run_from_exact [where P = "\<lambda>r bs. wf_request r \<and> OP_OP # bs = request_body r"])
  fix r bs
  assume "wf_request r \<and> OP_OP # bs = request_body r"
  then obtain op_id name ids payload where r: "r = Op op_id name ids payload"
    and wf: "utf8_valid name" "short name" "short ids"
    and bs: "bs = as_bytes op_id @ u32_to_le (as_u32 (length name)) @ name @
      u32_to_le (as_u32 (length ids)) @ concat (map as_bytes ids) @ payload"
    by (cases r) (auto simp: opcodes wf_string_def)
  have ids: "encodes (take_n (take_fixed ID_LEN err from_bytes) (length ids)) (concat (map as_bytes ids)) ids"
    for err by (rule raw_id.take_n_put) (simp add: list_all_iff)
  show "encodes_all (take_op_request n) bs r" for n
    unfolding bs r take_op_request_def
    by (rule encodes_all_bind [OF raw_id.put_tak [OF TrueI]]
        encodes_all_bind [OF raw_u32.put_tak [OF TrueI]] encodes_all_bind [OF raw_bytes_put]
        encodes_all_bind [OF ids] encodes_all_check encodes_all_bind_all [OF encodes_all_rest]
        encodes_all_return | simp add: wf)+
next
  show "consumes_all (take_op_request n) (\<lambda>r bs. wf_request r \<and> OP_OP # bs = request_body r)" for n
    unfolding take_op_request_def
    by (rule consumes_all_bind [OF raw_id.tak_put] consumes_all_bind [OF raw_u32.tak_put]
        consumes_all_bind [OF raw_bytes_tak] consumes_all_bind [OF raw_id.put_take_n]
        consumes_all_check consumes_all_rest | auto simp: wf_string_def dest: short_u32)+
qed

lemma slice_Cons_Suc [simp]: "slice (x # xs) (Suc a) (Suc b) = slice xs a b"
  by (simp add: slice_def)

lemma drop_slice: "a \<le> b \<Longrightarrow> drop a xs = slice xs a b @ drop b xs"
  by (simp add: slice_drop)

lemma id_request_exact:
  assumes "\<And>i. request_body (mk i) = tag # as_bytes i" and "\<And>i. wf_request (mk i)"
    and "\<And>r. tag # rest = request_body r \<Longrightarrow> \<exists>i. r = mk i"
  shows "decode_id_request msg mk (tag # rest) = Inr r \<longleftrightarrow> wf_request r \<and> tag # rest = request_body r"
proof
  assume "decode_id_request msg mk (tag # rest) = Inr r"
  then have "length rest = 16" and "r = mk (from_bytes rest)"
    by (auto simp: decode_id_request_def ID_LEN_def slice_def split: if_splits)
  then show "wf_request r \<and> tag # rest = request_body r"
    by (simp add: assms(1,2))
next
  assume "wf_request r \<and> tag # rest = request_body r"
  moreover then obtain i where "r = mk i" using assms(3) by blast
  ultimately show "decode_id_request msg mk (tag # rest) = Inr r"
    by (simp add: assms(1) decode_id_request_def ID_LEN_def slice_def)
qed

lemma recall_exact:
  "decode_recall_request (OP_RECALL # rest) = Inr r \<longleftrightarrow> wf_request r \<and> OP_RECALL # rest = request_body r"
  unfolding decode_recall_request_def
proof (rule id_request_exact)
  show "\<exists>i. r = Recall i" if "OP_RECALL # rest = request_body r" for r
    using that by (cases r) (simp_all add: opcodes)
qed simp_all

lemma release_exact:
  "decode_release_request (OP_RELEASE # rest) = Inr r \<longleftrightarrow> wf_request r \<and> OP_RELEASE # rest = request_body r"
  unfolding decode_release_request_def
proof (rule id_request_exact)
  show "\<exists>i. r = Release i" if "OP_RELEASE # rest = request_body r" for r
    using that by (cases r) (simp_all add: opcodes)
qed simp_all

lemma exists_check_exact:
  "decode_id_request msg ExistsCheck (OP_EXISTS_CHECK # rest) = Inr r \<longleftrightarrow>
     wf_request r \<and> OP_EXISTS_CHECK # rest = request_body r"
proof (rule id_request_exact)
  show "\<exists>i. r = ExistsCheck i" if "OP_EXISTS_CHECK # rest = request_body r" for r
    using that by (cases r) (simp_all add: opcodes)
qed simp_all

lemma acquire_exact:
  "decode_acquire_request (OP_ACQUIRE # rest) = Inr r \<longleftrightarrow>
     wf_request r \<and> OP_ACQUIRE # rest = request_body r"
proof
  assume "decode_acquire_request (OP_ACQUIRE # rest) = Inr r"
  then have len: "length rest = 44"
    and r: "r = Acquire (from_bytes (slice rest 0 16)) (from_bytes (slice rest 16 32))
      (NodeId (u64_from_le (slice rest 32 40))) (ThreadId (u32_from_le (slice rest 40 44)))"
    by (auto simp: decode_acquire_request_def ID_LEN_def Let_def slice_def split: if_splits)
  have "rest = slice rest 0 16 @ slice rest 16 32 @ slice rest 32 40 @ slice rest 40 44"
    using len drop_slice [of 0 16 rest] drop_slice [of 16 32 rest] drop_slice [of 32 40 rest]
      drop_slice [of 40 44 rest] by simp
  with len r show "wf_request r \<and> OP_ACQUIRE # rest = request_body r" by simp
next
  assume "wf_request r \<and> OP_ACQUIRE # rest = request_body r"
  then show "decode_acquire_request (OP_ACQUIRE # rest) = Inr r"
    by (cases r) (auto simp: opcodes decode_acquire_request_def ID_LEN_def Let_def slice_def)
qed

lemma drop_37_Cons [simp]: "drop (37 + n) (x # xs) = drop (36 + n) xs"
  by (simp add: drop_Cons')

lemma index_update_exact:
  "decode_index_update_request (OP_INDEX_UPDATE # rest) = Inr r \<longleftrightarrow>
     wf_request r \<and> OP_INDEX_UPDATE # rest = request_body r"
proof
  assume d: "decode_index_update_request (OP_INDEX_UPDATE # rest) = Inr r"
  define n where "n = u32_from_le (slice rest 32 36)"
  define kind where "kind = slice rest 36 (36 + unat n)"
  have len: "36 + unat n \<le> length rest" and utf: "utf8_valid kind"
    and r: "r = IndexUpdate (from_bytes (slice rest 0 16)) (from_bytes (slice rest 16 32)) kind
      (drop (36 + unat n) rest)"
    using d by (auto simp: decode_index_update_request_def ID_LEN_def Let_def n_def kind_def
        slice_def from_utf8_def split: if_splits)
  have lk: "length kind = unat n" using len by (simp add: kind_def)
  have "rest = slice rest 0 16 @ slice rest 16 32 @ slice rest 32 36 @ kind @ drop (36 + unat n) rest"
    using drop_slice [of 0 16 rest] drop_slice [of 16 32 rest] drop_slice [of 32 36 rest]
      drop_slice [of 36 "36 + unat n" rest] by (simp add: kind_def)
  moreover have "slice rest 32 36 = u32_to_le (as_u32 (length kind))"
    using len by (simp add: lk n_def)
  ultimately show "wf_request r \<and> OP_INDEX_UPDATE # rest = request_body r"
    using len utf short_u32 [OF lk] by (simp add: r wf_string_def)
next
  assume "wf_request r \<and> OP_INDEX_UPDATE # rest = request_body r"
  then obtain target op_id kind payload where r: "r = IndexUpdate target op_id kind payload"
    and wf: "utf8_valid kind" "short kind"
    and rest: "rest = as_bytes target @ as_bytes op_id @ u32_to_le (as_u32 (length kind)) @ kind @ payload"
    by (cases r) (auto simp: opcodes wf_string_def)
  then show "decode_index_update_request (OP_INDEX_UPDATE # rest) = Inr r"
    by (simp add: decode_index_update_request_def ID_LEN_def Let_def slice_def from_utf8_def)
qed

lemma rk_query_exact:
  "decode_rk_query_request (OP_RK_QUERY # rest) = Inr r \<longleftrightarrow>
     wf_request r \<and> OP_RK_QUERY # rest = request_body r"
proof
  assume "decode_rk_query_request (OP_RK_QUERY # rest) = Inr r"
  then obtain q where len: "length rest = 21" and q: "decode_rk_query_kind (drop 16 rest) = Inr q"
    and r: "r = RkQuery (from_bytes (slice rest 0 16)) q"
    by (auto simp: decode_rk_query_request_def ID_LEN_def slice_def split: if_splits)
  from q have "drop 16 rest = encode_rk_query_kind q" by (simp add: rk_query_kind.exact)
  with len r show "wf_request r \<and> OP_RK_QUERY # rest = request_body r"
    using drop_slice [of 0 16 rest] by simp
next
  assume "wf_request r \<and> OP_RK_QUERY # rest = request_body r"
  then obtain i q where r: "r = RkQuery i q" and rest: "rest = as_bytes i @ encode_rk_query_kind q"
    by (cases r) (auto simp: opcodes)
  have "length (encode_rk_query_kind q) = 5"
    by (cases q) (simp_all add: encode_rk_query_kind_def)
  then show "decode_rk_query_request (OP_RK_QUERY # rest) = Inr r"
    by (simp add: decode_rk_query_request_def ID_LEN_def r rest slice_def rk_query_kind.dec_put)
qed

text \<open>The decoders that hand the rest of the buffer to a payload decoder.\<close>

lemmas rest_put_intros =
  encodes_all_bind [OF id_codec.put_tak [OF TrueI]] encodes_all_bind [OF string_codec.put_tak]
  lb_execute_op.rest_put lb_query_req.rest_put tk_op.rest_put tk_query_req.rest_put
  fk_pending_op.rest_put extent_op.rest_put
  extent_page.rest_put [where x = "(offset, limit)" for offset limit, simplified]

lemmas rest_dec_intros =
  consumes_all_bind [OF id_codec.tak_put] consumes_all_bind [OF string_codec.tak_put]
  lb_execute_op.rest_dec lb_query_req.rest_dec tk_op.rest_dec tk_query_req.rest_dec
  fk_pending_op.rest_dec extent_op.rest_dec extent_page.rest_dec

lemma rest_request_exact:
  "decode_lb_execute_request (OP_LB_EXECUTE # rest) = Inr r \<longleftrightarrow>
     wf_request r \<and> OP_LB_EXECUTE # rest = request_body r"
  "decode_lb_query_request (OP_LB_QUERY # rest) = Inr r \<longleftrightarrow>
     wf_request r \<and> OP_LB_QUERY # rest = request_body r"
  "decode_tk_execute_request (OP_TK_EXECUTE # rest) = Inr r \<longleftrightarrow>
     wf_request r \<and> OP_TK_EXECUTE # rest = request_body r"
  "decode_tk_query_request (OP_TK_QUERY # rest) = Inr r \<longleftrightarrow>
     wf_request r \<and> OP_TK_QUERY # rest = request_body r"
  "decode_fk_pending_request (OP_FK_PENDING # rest) = Inr r \<longleftrightarrow>
     wf_request r \<and> OP_FK_PENDING # rest = request_body r"
  "decode_extent_query_request (OP_EXTENT_QUERY # rest) = Inr r \<longleftrightarrow>
     wf_request r \<and> OP_EXTENT_QUERY # rest = request_body r"
  "decode_partition_update_request (OP_PARTITION_UPDATE # rest) = Inr r \<longleftrightarrow>
     wf_request r \<and> OP_PARTITION_UPDATE # rest = request_body r"
  unfolding decode_lb_execute_request_def decode_lb_query_request_def decode_tk_execute_request_def
    decode_tk_query_request_def decode_fk_pending_request_def decode_extent_query_request_def
    decode_partition_update_request_def One_nat_def
  by (rule run_from_exact;
      auto simp: opcodes put_id_def [symmetric] elim!: request_body.elims [OF sym]
        intro!: rest_put_intros rest_dec_intros)+

lemma bare_exact:
  "decode_bare_request msg GetClusterConfig (OP_GET_CLUSTER_CONFIG # rest) = Inr r \<longleftrightarrow>
     wf_request r \<and> OP_GET_CLUSTER_CONFIG # rest = request_body r"
  "decode_bare_request msg Resume (OP_RESUME # rest) = Inr r \<longleftrightarrow>
     wf_request r \<and> OP_RESUME # rest = request_body r"
  "decode_bare_request msg ClearHalt (OP_CLEAR_HALT # rest) = Inr r \<longleftrightarrow>
     wf_request r \<and> OP_CLEAR_HALT # rest = request_body r"
  by (cases r; auto simp: decode_bare_request_def opcodes)+

lemma pause_exact:
  "decode_pause_request (OP_PAUSE # rest) = Inr r \<longleftrightarrow> wf_request r \<and> OP_PAUSE # rest = request_body r"
  by (cases r) (auto simp: decode_pause_request_def from_utf8_def opcodes)

lemma install_exact:
  "decode_install_request (OP_INSTALL_STORAGE_RING # rest) = Inr r \<longleftrightarrow>
     (\<exists>ms tl. r = InstallStorageRing ms \<and> wf_storage_members ms \<and> rest = put_storage_members ms @ tl)"
  by (auto simp: decode_install_request_def
      run_from_prefix [OF storage_members_codec.put_tak storage_members_codec.tak_put])

section \<open>The whole decoder\<close>

definition request_opcodes :: "u8 list" where
  "request_opcodes =
     [OP_INSTALL_STORAGE_RING, OP_CLEAR_HALT, OP_RESUME, OP_PAUSE, OP_GET_CLUSTER_CONFIG,
      OP_PARTITION_UPDATE, OP_EXTENT_QUERY, OP_FK_PENDING, OP_EXISTS_CHECK, OP_TK_QUERY,
      OP_TK_EXECUTE, OP_LB_QUERY, OP_LB_EXECUTE, OP_RK_QUERY, OP_INDEX_UPDATE, OP_RELEASE,
      OP_RECALL, OP_ACQUIRE, OP_OP]"

lemma request_opcodes_distinct: "distinct request_opcodes"
  by (simp add: request_opcodes_def opcodes)

lemmas opcode_neq = request_opcodes_distinct [unfolded request_opcodes_def, simplified]

lemma request_body_opcode: "op # rest = request_body r @ post \<Longrightarrow> op \<in> set request_opcodes"
  by (cases r) (simp_all add: request_opcodes_def)

definition accepted_request :: "request \<Rightarrow> bytes \<Rightarrow> bool" where
  "accepted_request r b \<longleftrightarrow>
     (case r of InstallStorageRing ms \<Rightarrow> \<exists>tl. b = request_body r @ tl | _ \<Rightarrow> b = request_body r)"

lemma accepted_request_strict:
  assumes "OP_INSTALL_STORAGE_RING \<noteq> op"
  shows "accepted_request r (op # rest) \<longleftrightarrow> op # rest = request_body r"
  using assms by (auto simp: accepted_request_def split: request.splits)

lemma accepted_request_install:
  "accepted_request r (OP_INSTALL_STORAGE_RING # rest) \<longleftrightarrow>
     (\<exists>ms tl. r = InstallStorageRing ms \<and> rest = put_storage_members ms @ tl)"
  by (cases r) (simp_all add: accepted_request_def opcodes)

lemmas request_arms_exact =
  op_exact acquire_exact recall_exact release_exact index_update_exact rk_query_exact
  rest_request_exact exists_check_exact bare_exact pause_exact install_exact

lemma decode_request_body_exact:
  "decode_request_body (op # rest) = Inr r \<longleftrightarrow> wf_request r \<and> accepted_request r (op # rest)"
proof (cases "op \<in> set request_opcodes")
  case True
  from True show ?thesis
    unfolding request_opcodes_def
    by (elim set_ConsD [elim_format] disjE)
      (auto simp: decode_request_body_def request_arms_exact opcode_neq accepted_request_strict
        accepted_request_install)
next
  case False
  then have "\<not> accepted_request r (op # rest)"
    using request_body_opcode [of op rest r "[]"] request_body_opcode [of op rest r]
    by (auto simp: accepted_request_def split: request.splits)
  then show ?thesis
    using False by (simp add: decode_request_body_def request_opcodes_def)
qed

lemma decode_request_exact:
  "decode_request b = Inr r \<longleftrightarrow>
     wf_request r \<and> (\<exists>body. b = PROTOCOL_VERSION # body \<and> accepted_request r body)"
proof (cases b)
  case Nil
  then show ?thesis by (simp add: decode_request_def check_version_def)
next
  case (Cons v body)
  have "\<not> accepted_request r []"
    by (cases r) (simp_all add: accepted_request_def)
  with Cons show ?thesis
    using decode_request_body_exact [of _ _ r]
    by (cases body) (auto simp: decode_request_def check_version_def decode_request_body_def)
qed

section \<open>Properties\<close>

text \<open>C30: The request wire format is a bijection: \<open>decode_request\<close> accepts a buffer exactly when it
  is the encoding of a well-formed request, and returns that request. The one exception is
  \<open>InstallStorageRing\<close>, whose decoder also accepts trailing bytes.\<close>

theorem request_decoding_exact:
  "decode_request b = Inr r \<longleftrightarrow>
     wf_request r \<and>
     (b = encode_request r \<or> (\<exists>ms tl. r = InstallStorageRing ms \<and> b = encode_request r @ tl))"
  unfolding decode_request_exact accepted_request_def encode_request_def
  by (cases r) auto

end
