(* ===== verification/Wire_Response.thy ===== *)
theory Wire_Response
  imports Wire_Request
begin

text \<open>
  Responses, peer-link envelopes and length-prefixed frames of \<open>seisin-protocol/src/lib.rs\<close>.
  The response decoder is exact for the variants whose decoder inspects the whole payload;
  \<open>lenient_response\<close> names the others, which ignore trailing bytes. A frame stream is a
  byte list: \<open>write_frame\<close> appends, \<open>read_frame\<close> returns the payload and the bytes left.
\<close>

datatype response =
  Redirect (rd_address: rstring)
| OpResult (or_payload: bytes)
| OpError (oe_message: rstring)
| Granted
| Released
| IndexUpdateResult (iur_violation: "rstring option")
| RkQueryResult (rkr_entries: "rk_entry list")
| LbResultR (lbr_result: lb_result)
| TkResultR (tkr_result: tk_result)
| Exists (ex_exists: bool)
| FkPendingResult (fkp_entries: "fk_entry list")
| ExtentResult (xr_total: u64) (xr_pks: "datum_id list")
| ClusterConfig (cc_members: "storage_member list")
| Ack

definition RESP_REDIRECT :: u8 where "RESP_REDIRECT = 1"
definition RESP_OP_RESULT :: u8 where "RESP_OP_RESULT = 2"
definition RESP_OP_ERROR :: u8 where "RESP_OP_ERROR = 3"
definition RESP_GRANTED :: u8 where "RESP_GRANTED = 4"
definition RESP_RELEASED :: u8 where "RESP_RELEASED = 5"
definition RESP_INDEX_UPDATE_RESULT :: u8 where "RESP_INDEX_UPDATE_RESULT = 6"
definition RESP_RK_QUERY_RESULT :: u8 where "RESP_RK_QUERY_RESULT = 7"
definition RESP_LB_RESULT :: u8 where "RESP_LB_RESULT = 8"
definition RESP_TK_RESULT :: u8 where "RESP_TK_RESULT = 9"
definition RESP_EXISTS :: u8 where "RESP_EXISTS = 10"
definition RESP_FK_PENDING_RESULT :: u8 where "RESP_FK_PENDING_RESULT = 11"
definition RESP_EXTENT_RESULT :: u8 where "RESP_EXTENT_RESULT = 12"
definition RESP_CLUSTER_CONFIG :: u8 where "RESP_CLUSTER_CONFIG = 13"
definition RESP_ACK :: u8 where "RESP_ACK = 14"

lemmas resp_codes =
  RESP_REDIRECT_def RESP_OP_RESULT_def RESP_OP_ERROR_def RESP_GRANTED_def RESP_RELEASED_def
  RESP_INDEX_UPDATE_RESULT_def RESP_RK_QUERY_RESULT_def RESP_LB_RESULT_def RESP_TK_RESULT_def
  RESP_EXISTS_def RESP_FK_PENDING_RESULT_def RESP_EXTENT_RESULT_def RESP_CLUSTER_CONFIG_def
  RESP_ACK_def

fun response_body :: "response \<Rightarrow> bytes" where
  "response_body (Redirect address) =
     RESP_REDIRECT # u32_to_le (as_u32 (length address)) @ address"
| "response_body (OpResult payload) = RESP_OP_RESULT # payload"
| "response_body (OpError message) = RESP_OP_ERROR # message"
| "response_body Granted = [RESP_GRANTED]"
| "response_body Released = [RESP_RELEASED]"
| "response_body (IndexUpdateResult violation) =
     RESP_INDEX_UPDATE_RESULT # (case violation of None \<Rightarrow> [0] | Some message \<Rightarrow> 1 # message)"
| "response_body (RkQueryResult entries) = RESP_RK_QUERY_RESULT # encode_rk_entries entries"
| "response_body (LbResultR res) = RESP_LB_RESULT # encode_lb_result res"
| "response_body (TkResultR res) = RESP_TK_RESULT # encode_tk_result res"
| "response_body (Exists exists) = [RESP_EXISTS, of_bool exists]"
| "response_body (FkPendingResult entries) = RESP_FK_PENDING_RESULT # encode_fk_entries entries"
| "response_body (ExtentResult tot pks) = RESP_EXTENT_RESULT # encode_extent_result tot pks"
| "response_body (ClusterConfig members) = RESP_CLUSTER_CONFIG # put_storage_members members"
| "response_body Ack = [RESP_ACK]"

definition encode_response :: "response \<Rightarrow> bytes" where
  "encode_response resp = PROTOCOL_VERSION # response_body resp"

definition decode_redirect :: "bytes \<Rightarrow> response result" where
  "decode_redirect buf =
     (if length buf < 5
      then Inl (Bail ''redirect response too short for an address length: {} bytes'' [length buf])
      else
        let addr_len = unat (u32_from_le (slice buf 1 5)) in
        if length buf \<noteq> 5 + addr_len
        then Inl (Bail ''redirect response length mismatch: expected {} bytes, got {}''
                    [5 + addr_len, length buf])
        else bindE (from_utf8 ''redirect address was not valid utf8'' (drop 5 buf)) (\<lambda>address.
          Inr (Redirect address)))"

definition decode_index_update_result :: "bytes \<Rightarrow> response result" where
  "decode_index_update_result buf =
     (if length buf < 2 then Inl (Bail ''index update result too short for its flag byte'' [])
      else if buf ! 1 = 0 then Inr (IndexUpdateResult None)
      else if buf ! 1 = 1 then
        bindE (from_utf8 ''index update violation message was not valid utf8'' (drop 2 buf)) (\<lambda>m.
          Inr (IndexUpdateResult (Some m)))
      else Inl (Bail ''unknown index update result flag: {}'' [unat (buf ! 1)]))"

definition decode_exists :: "bytes \<Rightarrow> response result" where
  "decode_exists buf =
     (if length buf \<noteq> 2 then Inl (Bail ''exists response has the wrong length: {} bytes'' [length buf])
      else if buf ! 1 = 0 then Inr (Exists False)
      else if buf ! 1 = 1 then Inr (Exists True)
      else Inl (Bail ''unknown exists flag: {}'' [unat (buf ! 1)]))"

definition decode_response_body :: "bytes \<Rightarrow> response result" where
  "decode_response_body buf =
     (if buf = [] then Inl (Bail ''empty response payload'' [])
      else
        let op = buf ! 0 in
        if op = RESP_REDIRECT then decode_redirect buf
        else if op = RESP_OP_RESULT then Inr (OpResult (drop 1 buf))
        else if op = RESP_OP_ERROR then
          bindE (from_utf8 ''op error message was not valid utf8'' (drop 1 buf)) (\<lambda>m. Inr (OpError m))
        else if op = RESP_GRANTED then Inr Granted
        else if op = RESP_RELEASED then Inr Released
        else if op = RESP_INDEX_UPDATE_RESULT then decode_index_update_result buf
        else if op = RESP_RK_QUERY_RESULT then
          bindE (decode_rk_entries (drop 1 buf)) (\<lambda>es. Inr (RkQueryResult es))
        else if op = RESP_LB_RESULT then bindE (decode_lb_result (drop 1 buf)) (\<lambda>r. Inr (LbResultR r))
        else if op = RESP_TK_RESULT then bindE (decode_tk_result (drop 1 buf)) (\<lambda>r. Inr (TkResultR r))
        else if op = RESP_EXISTS then decode_exists buf
        else if op = RESP_FK_PENDING_RESULT then
          bindE (decode_fk_entries (drop 1 buf)) (\<lambda>es. Inr (FkPendingResult es))
        else if op = RESP_EXTENT_RESULT then
          bindE (decode_extent_result (drop 1 buf)) (\<lambda>(tot, pks). Inr (ExtentResult tot pks))
        else if op = RESP_CLUSTER_CONFIG then
          bindE (run_from take_storage_members 1 buf) (\<lambda>ms. Inr (ClusterConfig ms))
        else if op = RESP_ACK then Inr Ack
        else Inl (Bail ''unknown response opcode: {}'' [unat op]))"

definition decode_response :: "bytes \<Rightarrow> response result" where
  "decode_response buf = bindE (check_version buf ''response'') decode_response_body"

section \<open>Which buffers are accepted\<close>

fun wf_response :: "response \<Rightarrow> bool" where
  "wf_response (Redirect address) \<longleftrightarrow> wf_string address"
| "wf_response (OpError message) \<longleftrightarrow> utf8_valid message"
| "wf_response (IndexUpdateResult v) \<longleftrightarrow> pred_option utf8_valid v"
| "wf_response (RkQueryResult es) \<longleftrightarrow> wf_rk_entries es"
| "wf_response (LbResultR r) \<longleftrightarrow> wf_lb_result r"
| "wf_response (TkResultR r) \<longleftrightarrow> wf_tk_result r"
| "wf_response (FkPendingResult es) \<longleftrightarrow> short es"
| "wf_response (ExtentResult _ pks) \<longleftrightarrow> short pks"
| "wf_response (ClusterConfig ms) \<longleftrightarrow> wf_storage_members ms"
| "wf_response _ \<longleftrightarrow> True"

definition lenient_response :: "response \<Rightarrow> bool" where
  "lenient_response r \<longleftrightarrow>
     (case r of Granted \<Rightarrow> True | Released \<Rightarrow> True | Ack \<Rightarrow> True | ClusterConfig _ \<Rightarrow> True
      | IndexUpdateResult v \<Rightarrow> v = None | _ \<Rightarrow> False)"

definition accepted_response :: "response \<Rightarrow> bytes \<Rightarrow> bool" where
  "accepted_response r b \<longleftrightarrow>
     (if lenient_response r then \<exists>tl. b = response_body r @ tl else b = response_body r)"

lemma redirect_exact:
  "decode_redirect (op # rest) = Inr r \<longleftrightarrow>
     (\<exists>a. r = Redirect a \<and> wf_string a \<and> rest = u32_to_le (as_u32 (length a)) @ a)"
proof
  assume d: "decode_redirect (op # rest) = Inr r"
  define n where "n = u32_from_le (slice rest 0 4)"
  have len: "length rest = 4 + unat n" and u: "utf8_valid (drop 4 rest)" and r: "r = Redirect (drop 4 rest)"
    using d by (auto simp: decode_redirect_def Let_def n_def slice_def from_utf8_def split: if_splits)
  then have "short (drop 4 rest)" using short_u32 [of "drop 4 rest" n] by simp
  moreover have "u32_to_le n = take 4 rest" using len by (simp add: n_def slice_def)
  moreover have "as_u32 (length rest - 4) = n" using len by simp
  ultimately show "\<exists>a. r = Redirect a \<and> wf_string a \<and> rest = u32_to_le (as_u32 (length a)) @ a"
    using u r by (intro exI [of _ "drop 4 rest"]) (simp add: wf_string_def)
next
  assume "\<exists>a. r = Redirect a \<and> wf_string a \<and> rest = u32_to_le (as_u32 (length a)) @ a"
  then show "decode_redirect (op # rest) = Inr r"
    by (auto simp: decode_redirect_def wf_string_def slice_def from_utf8_def Let_def)
qed

lemma index_update_result_exact:
  "decode_index_update_result (op # rest) = Inr r \<longleftrightarrow>
     (r = IndexUpdateResult None \<and> (\<exists>tl. rest = 0 # tl)) \<or>
     (\<exists>m. r = IndexUpdateResult (Some m) \<and> utf8_valid m \<and> rest = 1 # m)"
  by (cases rest) (auto simp: decode_index_update_result_def from_utf8_def)

lemma exists_exact:
  "decode_exists (op # rest) = Inr r \<longleftrightarrow> (\<exists>e. r = Exists e \<and> rest = [of_bool e])"
  by (cases rest) (auto simp: decode_exists_def split: if_splits)

lemma cluster_config_exact:
  "run_from take_storage_members (Suc 0) (op # rest) = Inr ms \<longleftrightarrow>
     wf_storage_members ms \<and> (\<exists>tl. rest = put_storage_members ms @ tl)"
  by (rule run_from_prefix [OF storage_members_codec.put_tak storage_members_codec.tak_put])

lemma from_utf8_iff: "from_utf8 c bs = Inr s \<longleftrightarrow> utf8_valid bs \<and> s = bs"
  by (auto simp: from_utf8_def)

lemma bindE_Inr_iff: "bindE m f = Inr y \<longleftrightarrow> (\<exists>x. m = Inr x \<and> f x = Inr y)"
  by (cases m) simp_all

lemmas response_arms_exact =
  redirect_exact index_update_result_exact exists_exact cluster_config_exact from_utf8_iff
  rk_entries.exact lb_result.exact tk_result.exact fk_entries.exact extent_result.exact

lemma decode_response_body_exact:
  "decode_response_body (op # rest) = Inr r \<longleftrightarrow> wf_response r \<and> accepted_response r (op # rest)"
  by (cases r)
    (auto simp: decode_response_body_def accepted_response_def lenient_response_def Let_def resp_codes
      bindE_Inr_iff response_arms_exact split: if_splits option.splits)

lemma decode_response_exact:
  "decode_response b = Inr r \<longleftrightarrow>
     wf_response r \<and> (\<exists>body. b = PROTOCOL_VERSION # body \<and> accepted_response r body)"
proof (cases b)
  case Nil
  then show ?thesis by (simp add: decode_response_def check_version_def)
next
  case (Cons v body)
  have "\<not> accepted_response r []"
    by (cases r) (simp_all add: accepted_response_def)
  with Cons show ?thesis
    using decode_response_body_exact [of _ _ r]
    by (cases body) (auto simp: decode_response_def check_version_def decode_response_body_def)
qed

section \<open>Envelopes\<close>

datatype envelope_kind = RequestKind | ResponseKind

record envelope =
  correlation_id :: u64
  env_kind :: envelope_kind
  target_thread :: thread_id
  env_body :: bytes

definition ENVELOPE_KIND_REQUEST :: u8 where "ENVELOPE_KIND_REQUEST = 0"
definition ENVELOPE_KIND_RESPONSE :: u8 where "ENVELOPE_KIND_RESPONSE = 1"

definition encode_envelope :: "envelope \<Rightarrow> bytes" where
  "encode_envelope env =
     u64_to_le (correlation_id env) @
     [case env_kind env of RequestKind \<Rightarrow> ENVELOPE_KIND_REQUEST | ResponseKind \<Rightarrow> ENVELOPE_KIND_RESPONSE] @
     u32_to_le (thread_raw (target_thread env)) @ env_body env"

definition decode_envelope :: "bytes \<Rightarrow> envelope result" where
  "decode_envelope buf =
     (if length buf < 13 then Inl (Bail ''envelope too short for its header: {} bytes'' [length buf])
      else
        let cid = u64_from_le (slice buf 0 8);
            tag = buf ! 8;
            thread = ThreadId (u32_from_le (slice buf 9 13));
            mk = (\<lambda>kind. \<lparr>correlation_id = cid, env_kind = kind, target_thread = thread,
                          env_body = drop 13 buf\<rparr>)
        in
        if tag = ENVELOPE_KIND_REQUEST then Inr (mk RequestKind)
        else if tag = ENVELOPE_KIND_RESPONSE then Inr (mk ResponseKind)
        else Inl (Bail ''invalid envelope kind tag: {}'' [unat tag]))"

interpretation envelope: buffer_codec encode_envelope decode_envelope "\<lambda>_. True"
proof
  fix b env
  show "decode_envelope b = Inr env \<longleftrightarrow> True \<and> b = encode_envelope env"
  proof
    assume d: "decode_envelope b = Inr env"
    then have len: "13 \<le> length b" by (auto simp: decode_envelope_def split: if_splits)
    have "slice b 8 9 = [b ! 8]"
      using len by (simp add: slice_def take_Suc_conv_app_nth [of 0, simplified] hd_drop_conv_nth)
    then have "b = slice b 0 8 @ [b ! 8] @ slice b 9 13 @ drop 13 b"
      using drop_slice [of 0 8 b] drop_slice [of 8 9 b] drop_slice [of 9 13 b] by simp
    with d len show "True \<and> b = encode_envelope env"
      by (auto simp: decode_envelope_def encode_envelope_def Let_def split: if_splits)
  next
    assume "True \<and> b = encode_envelope env"
    then show "decode_envelope b = Inr env"
      by (auto simp: decode_envelope_def encode_envelope_def Let_def slice_def nth_append
          ENVELOPE_KIND_REQUEST_def ENVELOPE_KIND_RESPONSE_def split: envelope_kind.splits)
  qed
qed

section \<open>Frames\<close>

definition MAX_FRAME_LEN :: nat where "MAX_FRAME_LEN = 64 * 1024 * 1024"

definition write_frame :: "bytes \<Rightarrow> bytes \<Rightarrow> bytes result" where
  "write_frame w payload =
     (if length payload \<ge> 2 ^ 32 then Inl (Bail ''payload too large for a u32 frame length'' [])
      else Inr (w @ u32_to_le (as_u32 (length payload)) @ payload))"

definition read_exact :: "nat \<Rightarrow> bytes \<Rightarrow> (bytes \<times> bytes) result" where
  "read_exact n r =
     (if length r < n then Inl (Bail ''failed to fill whole buffer'' []) else Inr (take n r, drop n r))"

definition read_frame :: "bytes \<Rightarrow> (bytes \<times> bytes) result" where
  "read_frame r =
     bindE (read_exact 4 r) (\<lambda>(len_buf, r1).
       let len = unat (u32_from_le len_buf) in
       if len > MAX_FRAME_LEN
       then Inl (Bail ''frame length {} exceeds MAX_FRAME_LEN ({})'' [len, MAX_FRAME_LEN])
       else read_exact len r1)"

lemma read_frame_written:
  assumes "length payload \<le> MAX_FRAME_LEN"
  shows "read_frame (u32_to_le (as_u32 (length payload)) @ payload @ left) = Inr (payload, left)"
proof -
  have "length payload < 2 ^ 32" using assms by (simp add: MAX_FRAME_LEN_def)
  then show ?thesis using assms by (simp add: read_frame_def read_exact_def Let_def)
qed

lemma read_frame_oversized:
  assumes "MAX_FRAME_LEN < length payload" and "length payload < 2 ^ 32"
  shows "read_frame (u32_to_le (as_u32 (length payload)) @ payload @ left) =
    Inl (Bail ''frame length {} exceeds MAX_FRAME_LEN ({})'' [length payload, MAX_FRAME_LEN])"
  using assms by (simp add: read_frame_def read_exact_def Let_def)

lemma read_frame_inv:
  assumes "read_frame r = Inr (payload, left)"
  shows "length payload \<le> MAX_FRAME_LEN"
    and "r = u32_to_le (as_u32 (length payload)) @ payload @ left"
proof -
  define n where "n = u32_from_le (take 4 r)"
  have "4 \<le> length r" and "unat n \<le> MAX_FRAME_LEN" and "unat n \<le> length r - 4"
    and "payload = take (unat n) (drop 4 r)" and "left = drop (unat n) (drop 4 r)"
    using assms by (auto simp: read_frame_def read_exact_def Let_def n_def not_less split: if_splits)
  moreover from this have "length payload = unat n" by simp
  ultimately show "length payload \<le> MAX_FRAME_LEN"
    and "r = u32_to_le (as_u32 (length payload)) @ payload @ left"
    by (simp_all only: as_u32_unat append_take_drop_id) (simp add: n_def)
qed

section \<open>Properties\<close>

text \<open>The response wire format: \<open>decode_response\<close> accepts a buffer exactly when it is the
  encoding of a well-formed response, or, for the five variants whose decoder does not look at the
  end of the payload, an extension of it.\<close>

theorem response_decoding_exact:
  "decode_response b = Inr r \<longleftrightarrow>
     wf_response r \<and>
     (b = encode_response r \<or> (lenient_response r \<and> (\<exists>tl. b = encode_response r @ tl)))"
  unfolding decode_response_exact accepted_response_def encode_response_def
  by (cases "lenient_response r") (auto intro: exI [of _ "[]"])

text \<open>Envelope framing is a bijection between envelopes and the buffers \<open>decode_envelope\<close>
  accepts: correlation id, kind, target thread and body all survive, and nothing else decodes.\<close>

theorem envelope_decoding_exact: "decode_envelope b = Inr env \<longleftrightarrow> b = encode_envelope env"
  using envelope.exact [of b env] by simp

fun write_frames :: "bytes list \<Rightarrow> bytes \<Rightarrow> bytes result" where
  "write_frames [] w = Inr w"
| "write_frames (p # ps) w = bindE (write_frame w p) (write_frames ps)"

fun read_frames :: "nat \<Rightarrow> bytes \<Rightarrow> (bytes list \<times> bytes) result" where
  "read_frames 0 r = Inr ([], r)"
| "read_frames (Suc n) r =
     bindE (read_frame r) (\<lambda>(p, r'). bindE (read_frames n r') (\<lambda>(ps, r''). Inr (p # ps, r'')))"

definition frame :: "bytes \<Rightarrow> bytes" where
  "frame p = u32_to_le (as_u32 (length p)) @ p"

lemma write_frames_concat:
  assumes "list_all (\<lambda>p. length p \<le> MAX_FRAME_LEN) ps"
  shows "write_frames ps w = Inr (w @ concat (map frame ps))"
  using assms
  by (induction ps arbitrary: w) (auto simp: write_frame_def frame_def MAX_FRAME_LEN_def)

lemma read_frames_concat:
  assumes "list_all (\<lambda>p. length p \<le> MAX_FRAME_LEN) ps"
  shows "read_frames (length ps) (concat (map frame ps) @ left) = Inr (ps, left)"
  using assms
  by (induction ps) (auto simp: frame_def read_frame_written)

text \<open>A connection's byte stream keeps message boundaries: payloads of at most \<open>MAX_FRAME_LEN\<close>
  bytes, written one after the other with \<open>write_frame\<close>, are read back by \<open>read_frame\<close> as the
  same payloads in the same order, with nothing left over.\<close>

theorem frames_round_trip:
  assumes "list_all (\<lambda>p. length p \<le> MAX_FRAME_LEN) ps"
  shows "\<exists>w. write_frames ps [] = Inr w \<and> read_frames (length ps) w = Inr (ps, [])"
  using write_frames_concat [OF assms, of "[]"] read_frames_concat [OF assms, of "[]"] by simp

theorem frames_round_trip_witness:
  "\<exists>w. write_frames [[1, 2], [], [3]] [] = Inr w \<and>
     read_frames (length [[1, 2], [], [3 :: u8]]) w = Inr ([[1, 2], [], [3]], [])"
  by (rule frames_round_trip) (simp add: MAX_FRAME_LEN_def)

text \<open>The two ends disagree about the largest frame: a payload longer than \<open>MAX_FRAME_LEN\<close> that
  fits a 32-bit length is written without complaint, and every reader refuses it.\<close>

theorem oversized_frame_written_but_unreadable:
  assumes "MAX_FRAME_LEN < length payload" and "length payload < 2 ^ 32"
  shows "write_frame [] payload = Inr (frame payload) \<and> (\<exists>e. read_frame (frame payload @ left) = Inl e)"
  using assms read_frame_oversized [OF assms, of left] by (simp add: write_frame_def frame_def)

theorem oversized_frame_written_but_unreadable_witness:
  "write_frame [] (replicate (MAX_FRAME_LEN + 1) 0) = Inr (frame (replicate (MAX_FRAME_LEN + 1) 0)) \<and>
   (\<exists>e. read_frame (frame (replicate (MAX_FRAME_LEN + 1) 0) @ []) = Inl e)"
proof (rule oversized_frame_written_but_unreadable)
  show "length (replicate (MAX_FRAME_LEN + 1) (0 :: u8)) < 2 ^ 32"
    unfolding length_replicate by (simp add: MAX_FRAME_LEN_def)
next
  show "MAX_FRAME_LEN < length (replicate (MAX_FRAME_LEN + 1) (0 :: u8))"
    by (simp only: length_replicate)
qed

end
