(* ===== verification/Membership.thy ===== *)
theory Membership
  imports Ids "HOL-Library.AList"
begin

text \<open>
  The SWIM membership table (\<open>seisin-gossip/src/membership.rs\<close>). A \<open>HashMap\<close> is an
  association list updated by \<open>AList.update\<close>: lookups are \<open>map_of\<close>, and iteration, whose
  order the code never relies on, is the list's. The merge rule is the lexicographic order of
  incarnation and severity; the lemmas make it a join and derive convergence from it.
\<close>

section \<open>Members\<close>

datatype incarnation = Incarnation (inc_raw: u64)

datatype member_status = Alive | Suspect | Dead

definition severity :: "member_status \<Rightarrow> u8" where
  "severity s = (case s of Alive \<Rightarrow> 0 | Suspect \<Rightarrow> 1 | Dead \<Rightarrow> 2)"

datatype member_role = Compute | Storage

record member_update =
  mu_node_id :: node_id
  mu_incarnation :: incarnation
  mu_status :: member_status
  mu_client_address :: rstring
  mu_gossip_address :: rstring
  mu_thread_count :: u32
  mu_role :: member_role
  mu_capacity_weight :: u32
  mu_store_address :: rstring
  mu_log_id :: bytes

record member_record =
  mr_incarnation :: incarnation
  mr_status :: member_status
  mr_role :: member_role
  mr_capacity_weight :: u32
  mr_store_address :: rstring
  mr_client_address :: rstring
  mr_gossip_address :: rstring
  mr_thread_count :: u32
  mr_log_id :: bytes

definition to_update :: "member_record \<Rightarrow> node_id \<Rightarrow> member_update" where
  "to_update r n =
     \<lparr>mu_node_id = n, mu_incarnation = mr_incarnation r, mu_status = mr_status r,
      mu_client_address = mr_client_address r, mu_gossip_address = mr_gossip_address r,
      mu_thread_count = mr_thread_count r, mu_role = mr_role r,
      mu_capacity_weight = mr_capacity_weight r, mu_store_address = mr_store_address r,
      mu_log_id = mr_log_id r\<rparr>"

definition record_of :: "member_update \<Rightarrow> member_record" where
  "record_of u =
     \<lparr>mr_incarnation = mu_incarnation u, mr_status = mu_status u, mr_role = mu_role u,
      mr_capacity_weight = mu_capacity_weight u, mr_store_address = mu_store_address u,
      mr_client_address = mu_client_address u, mr_gossip_address = mu_gossip_address u,
      mr_thread_count = mu_thread_count u, mr_log_id = mu_log_id u\<rparr>"

section \<open>The table\<close>

record member_table = members :: "(node_id \<times> member_record) list"

definition table_new :: member_table where
  "table_new = \<lparr>members = []\<rparr>"

definition lookup_member :: "member_table \<Rightarrow> node_id \<Rightarrow> member_record option" where
  "lookup_member t = map_of (members t)"

definition set_member :: "member_table \<Rightarrow> node_id \<Rightarrow> member_record \<Rightarrow> member_table" where
  "set_member t n r = t\<lparr>members := AList.update n r (members t)\<rparr>"

definition supersedes :: "member_update \<Rightarrow> member_record \<Rightarrow> bool" where
  "supersedes u r \<longleftrightarrow>
     inc_raw (mu_incarnation u) > inc_raw (mr_incarnation r) \<or>
     (mu_incarnation u = mr_incarnation r \<and> severity (mu_status u) > severity (mr_status r))"

definition merge_update :: "member_table \<Rightarrow> member_update \<Rightarrow> bool \<times> member_table" where
  "merge_update t u =
     (case lookup_member t (mu_node_id u) of
        None \<Rightarrow> (True, set_member t (mu_node_id u) (record_of u))
      | Some current \<Rightarrow>
          (if supersedes u current
           then (True, set_member t (mu_node_id u) (record_of u))
           else (False, t)))"

definition table_get :: "member_table \<Rightarrow> node_id \<Rightarrow> member_update option" where
  "table_get t n = map_option (\<lambda>r. to_update r n) (lookup_member t n)"

definition mark_suspect :: "member_table \<Rightarrow> node_id \<Rightarrow> member_update option \<times> member_table" where
  "mark_suspect t n =
     (case lookup_member t n of
        None \<Rightarrow> (None, t)
      | Some r \<Rightarrow>
          (if mr_status r \<noteq> Alive then (None, t)
           else let r' = r\<lparr>mr_status := Suspect\<rparr> in (Some (to_update r' n), set_member t n r')))"

definition mark_dead :: "member_table \<Rightarrow> node_id \<Rightarrow> member_update option \<times> member_table" where
  "mark_dead t n =
     (case lookup_member t n of
        None \<Rightarrow> (None, t)
      | Some r \<Rightarrow>
          (if mr_status r = Dead then (None, t)
           else let r' = r\<lparr>mr_status := Dead\<rparr> in (Some (to_update r' n), set_member t n r')))"

text \<open>\<open>None\<close> is the panic of an unregistered node; \<open>+ 1\<close> wraps as a release build does.\<close>

definition confirm_alive_self :: "member_table \<Rightarrow> node_id \<Rightarrow> (member_update \<times> member_table) option" where
  "confirm_alive_self t n =
     (case lookup_member t n of
        None \<Rightarrow> None
      | Some r \<Rightarrow>
          let r' = r\<lparr>mr_incarnation := Incarnation (inc_raw (mr_incarnation r) + 1),
                     mr_status := Alive\<rparr>
          in Some (to_update r' n, set_member t n r'))"

definition all_members :: "member_table \<Rightarrow> member_update list" where
  "all_members t = map (\<lambda>(n, r). to_update r n) (members t)"

definition alive_members :: "member_table \<Rightarrow> node_id list" where
  "alive_members t = sort (map fst (filter (\<lambda>(_, r). mr_status r = Alive) (members t)))"

lemmas membership_defs =
  merge_update_def table_get_def mark_suspect_def mark_dead_def confirm_alive_self_def

section \<open>Lookups\<close>

lemma lookup_new [simp]: "lookup_member table_new n = None"
  by (simp add: lookup_member_def table_new_def)

lemma lookup_set [simp]: "lookup_member (set_member t n r) = (lookup_member t)(n \<mapsto> r)"
  by (simp add: lookup_member_def set_member_def update_conv')

lemma record_of_to_update [simp]: "record_of (to_update r n) = r"
  by (simp add: record_of_def to_update_def)

lemma to_update_record_of [simp]: "to_update (record_of u) (mu_node_id u) = u"
  by (simp add: record_of_def to_update_def)

definition keys_distinct :: "member_table \<Rightarrow> bool" where
  "keys_distinct t \<longleftrightarrow> distinct (map fst (members t))"

lemma keys_distinct_set [simp]: "keys_distinct t \<Longrightarrow> keys_distinct (set_member t n r)"
  by (simp add: keys_distinct_def set_member_def distinct_update)

section \<open>The precedence order\<close>

definition rank :: "member_record \<Rightarrow> nat \<times> nat" where
  "rank r = (unat (inc_raw (mr_incarnation r)), unat (severity (mr_status r)))"

definition rank_less :: "nat \<times> nat \<Rightarrow> nat \<times> nat \<Rightarrow> bool" where
  "rank_less a b \<longleftrightarrow> fst a < fst b \<or> (fst a = fst b \<and> snd a < snd b)"

lemma rank_less_trans: "rank_less a b \<Longrightarrow> rank_less b c \<Longrightarrow> rank_less a c"
  by (auto simp: rank_less_def)

lemma rank_less_total: "a \<noteq> b \<Longrightarrow> rank_less a b \<or> rank_less b a"
  by (auto simp: rank_less_def prod_eq_iff)

lemma rank_less_irrefl [simp]: "\<not> rank_less a a"
  by (simp add: rank_less_def)

lemma supersedes_rank: "supersedes u r \<longleftrightarrow> rank_less (rank r) (rank (record_of u))"
  by (cases "mu_incarnation u"; cases "mr_incarnation r")
    (auto simp: supersedes_def rank_less_def rank_def record_of_def word_less_nat_alt
      word_unat_eq_iff)

definition merge_record :: "member_record option \<Rightarrow> member_record \<Rightarrow> member_record" where
  "merge_record cur new =
     (case cur of None \<Rightarrow> new | Some r \<Rightarrow> if rank_less (rank r) (rank new) then new else r)"

lemma merge_update_lookup:
  "lookup_member (snd (merge_update t u)) =
     (lookup_member t)(mu_node_id u \<mapsto> merge_record (lookup_member t (mu_node_id u)) (record_of u))"
  by (auto simp: merge_update_def merge_record_def supersedes_rank fun_upd_idem split: option.splits)

lemma merge_update_keys: "keys_distinct t \<Longrightarrow> keys_distinct (snd (merge_update t u))"
  by (simp add: merge_update_def split: option.splits)

section \<open>Merging a batch of facts\<close>

text \<open>The loop of \<open>GossipState::merge_incoming\<close> over a message's updates.\<close>

definition merge_all :: "member_update list \<Rightarrow> member_table \<Rightarrow> member_table" where
  "merge_all us t = fold (\<lambda>u t. snd (merge_update t u)) us t"

lemma merge_all_simps [simp]:
  "merge_all [] t = t"
  "merge_all (u # us) t = merge_all us (snd (merge_update t u))"
  by (simp_all add: merge_all_def)

definition facts_for :: "member_update list \<Rightarrow> node_id \<Rightarrow> member_record set" where
  "facts_for us n = {record_of u | u. u \<in> set us \<and> mu_node_id u = n}"

lemma facts_for_simps [simp]:
  "facts_for [] n = {}"
  "facts_for (u # us) n =
     (if mu_node_id u = n then insert (record_of u) (facts_for us n) else facts_for us n)"
  by (auto simp: facts_for_def)

text \<open>A record is the winner of a set when it is in it and none of the set outranks it.\<close>

definition winner :: "member_record set \<Rightarrow> member_record \<Rightarrow> bool" where
  "winner A r \<longleftrightarrow> r \<in> A \<and> (\<forall>r' \<in> A. \<not> rank_less (rank r) (rank r'))"

lemma winner_merge:
  assumes "winner (insert (merge_record cur new) A) r"
  shows "winner (insert new A \<union> set_option cur) r"
proof (cases cur)
  case None
  with assms show ?thesis by (simp add: merge_record_def)
next
  case (Some c)
  show ?thesis
  proof (cases "rank_less (rank c) (rank new)")
    case True
    with assms Some show ?thesis
      by (auto simp: winner_def merge_record_def intro: rank_less_trans)
  next
    case False
    then have "rank_less (rank new) (rank c) \<or> rank new = rank c"
      using rank_less_total by metis
    with False assms Some show ?thesis
      by (auto simp: winner_def merge_record_def intro: rank_less_trans)
  qed
qed

lemma merge_all_winner:
  "case lookup_member (merge_all us t) n of
     None \<Rightarrow> facts_for us n = {} \<and> lookup_member t n = None
   | Some r \<Rightarrow> winner (facts_for us n \<union> set_option (lookup_member t n)) r"
proof (induction us arbitrary: t)
  case Nil
  then show ?case by (simp add: winner_def split: option.splits)
next
  case (Cons u us)
  let ?t = "snd (merge_update t u)"
  note IH = Cons.IH [of ?t]
  show ?case
  proof (cases "mu_node_id u = n")
    case False
    then have "lookup_member ?t n = lookup_member t n"
      by (simp add: merge_update_lookup)
    with IH False show ?thesis by (simp split: option.splits)
  next
    case True
    then have l: "lookup_member ?t n = Some (merge_record (lookup_member t n) (record_of u))"
      by (auto simp: merge_update_lookup)
    with IH obtain r where r: "lookup_member (merge_all us ?t) n = Some r"
        and w: "winner (insert (merge_record (lookup_member t n) (record_of u)) (facts_for us n)) r"
      by (auto split: option.splits)
    from winner_merge [OF w] r True show ?thesis by simp
  qed
qed

definition consistent_facts :: "member_update set \<Rightarrow> bool" where
  "consistent_facts U \<longleftrightarrow>
     (\<forall>u \<in> U. \<forall>v \<in> U. mu_node_id u = mu_node_id v \<longrightarrow>
        rank (record_of u) = rank (record_of v) \<longrightarrow> u = v)"

lemma winner_unique:
  assumes "winner (facts_for us n) r" and "winner (facts_for us n) r'" and "consistent_facts (set us)"
  shows "r = r'"
proof -
  obtain u v where u: "u \<in> set us" "mu_node_id u = n" "r = record_of u"
      and v: "v \<in> set us" "mu_node_id v = n" "r' = record_of v"
    using assms(1,2) by (auto simp: winner_def facts_for_def)
  have "rank r = rank r'"
    using assms(1,2) rank_less_total by (metis winner_def)
  then have "u = v"
    using assms(3) u v by (simp add: consistent_facts_def)
  with u v show ?thesis by simp
qed

lemma merge_all_converges:
  assumes "set us = set vs" and "consistent_facts (set us)"
  shows "lookup_member (merge_all us table_new) = lookup_member (merge_all vs table_new)"
proof
  fix n
  have f: "facts_for us n = facts_for vs n" using assms(1) by (simp add: facts_for_def)
  show "lookup_member (merge_all us table_new) n = lookup_member (merge_all vs table_new) n"
    using merge_all_winner [where us = us and t = table_new and n = n]
      merge_all_winner [where us = vs and t = table_new and n = n]
      winner_unique [OF _ _ assms(2), of n] f
    by (auto simp: winner_def split: option.splits)
qed

lemma set_alive_members:
  "keys_distinct t \<Longrightarrow>
   set (alive_members t) = {n. \<exists>r. lookup_member t n = Some r \<and> mr_status r = Alive}"
  by (force simp: alive_members_def keys_distinct_def lookup_member_def map_of_eq_Some_iff)

lemma sorted_alive_members: "keys_distinct t \<Longrightarrow> sorted (alive_members t) \<and> distinct (alive_members t)"
  by (simp add: alive_members_def keys_distinct_def distinct_map_filter)

section \<open>Properties\<close>

text \<open>C28: Gossip converges: two nodes that have merged the same set of facts, in any order and with
  any repetition, hold the same record of every member, provided no two different facts about one
  member carry the same incarnation and status severity.\<close>

theorem gossip_converges:
  assumes "set us = set vs" and "consistent_facts (set us)"
  shows "lookup_member (merge_all us table_new) = lookup_member (merge_all vs table_new)"
  by (rule merge_all_converges [OF assms])

definition sample_fact :: "member_status \<Rightarrow> u64 \<Rightarrow> member_update" where
  "sample_fact st inc =
     \<lparr>mu_node_id = NodeId 1, mu_incarnation = Incarnation inc, mu_status = st, mu_client_address = [],
      mu_gossip_address = [], mu_thread_count = 1, mu_role = Compute, mu_capacity_weight = 1,
      mu_store_address = [], mu_log_id = []\<rparr>"

theorem gossip_converges_witness:
  "lookup_member (merge_all [sample_fact Suspect 1, sample_fact Alive 2] table_new) =
   lookup_member (merge_all [sample_fact Alive 2, sample_fact Suspect 1, sample_fact Alive 2] table_new)"
  by (rule gossip_converges)
    (auto simp: consistent_facts_def sample_fact_def rank_def record_of_def)

text \<open>A node refutes its own suspicion: the fact \<open>confirm_alive_self\<close> publishes is alive, at
  the next incarnation, and supersedes at every peer any fact about the node up to its old
  incarnation, whatever status that fact claims.\<close>

theorem refutation_wins:
  assumes "confirm_alive_self t n = Some (u, t')" and "lookup_member t n = Some r"
    and "inc_raw (mr_incarnation r) < inc_raw (mr_incarnation r) + 1"
    and "inc_raw (mr_incarnation old) \<le> inc_raw (mr_incarnation r)"
    and "lookup_member peer n = Some old"
  shows "lookup_member (snd (merge_update peer u)) n = Some (record_of u) \<and> mu_status u = Alive"
proof -
  have u: "mu_node_id u = n" "mu_incarnation u = Incarnation (inc_raw (mr_incarnation r) + 1)"
      "mu_status u = Alive"
    using assms(1,2) by (auto simp: confirm_alive_self_def to_update_def Let_def)
  then have "supersedes u old"
    using assms(3,4) by (auto simp: supersedes_def)
  with u assms(5) show ?thesis by (simp add: merge_update_def)
qed

theorem refutation_wins_witness:
  "\<exists>u t'. confirm_alive_self (merge_all [sample_fact Suspect 3] table_new) (NodeId 1) = Some (u, t') \<and>
     lookup_member (snd (merge_update (merge_all [sample_fact Dead 3] table_new) u)) (NodeId 1) =
       Some (record_of u) \<and> mu_status u = Alive"
proof -
  let ?t = "merge_all [sample_fact Suspect 3] table_new"
  let ?p = "merge_all [sample_fact Dead 3] table_new"
  have t: "lookup_member ?t (NodeId 1) = Some (record_of (sample_fact Suspect 3))"
    and p: "lookup_member ?p (NodeId 1) = Some (record_of (sample_fact Dead 3))"
    by (simp_all add: merge_update_lookup merge_record_def) (simp_all add: sample_fact_def)
  then obtain u t' where c: "confirm_alive_self ?t (NodeId 1) = Some (u, t')"
    by (simp add: confirm_alive_self_def Let_def)
  from refutation_wins [OF c t _ _ p] c show ?thesis
    by (auto simp: record_of_def sample_fact_def)
qed

text \<open>\<open>alive_members\<close> lists exactly the members whose record is alive, in ascending order and
  without repetition, whatever the iteration order of the table.\<close>

theorem alive_members_exact:
  assumes "keys_distinct t"
  shows "sorted (alive_members t) \<and> distinct (alive_members t) \<and>
    set (alive_members t) = {n. \<exists>r. lookup_member t n = Some r \<and> mr_status r = Alive}"
  using sorted_alive_members [OF assms] set_alive_members [OF assms] by simp

theorem alive_members_exact_witness:
  "sorted (alive_members (merge_all [sample_fact Alive 1] table_new)) \<and>
   distinct (alive_members (merge_all [sample_fact Alive 1] table_new)) \<and>
   set (alive_members (merge_all [sample_fact Alive 1] table_new)) =
     {n. \<exists>r. lookup_member (merge_all [sample_fact Alive 1] table_new) n = Some r \<and> mr_status r = Alive}"
  proof (rule alive_members_exact)
  have "keys_distinct table_new" by (simp add: keys_distinct_def table_new_def)
  then show "keys_distinct (merge_all [sample_fact Alive 1] table_new)" by (simp add: merge_update_keys)
qed

end
