(* ===== verification/Jump_Hash.thy ===== *)
theory Jump_Hash
  imports Prelude
begin

unbundle bit_operations_syntax

text \<open>
  The jump-back consistent hash (\<open>seisin-ring/src/jump_hash.rs\<close>): the SplitMix64 generator
  and \<open>JumpBackHasher::hash\<close>, on 32- and 64-bit words. The generator is reset with the key
  at the start of every call, so \<open>hash\<close> is a function of the key and the bucket count.
  The rejection loop inside it draws random numbers until one is accepted and has no bound in
  the code: it is a \<open>partial_function\<close> here, and that it always returns is proved from the
  generator's full period.
\<close>

section \<open>SplitMix64\<close>

record split_mix64 = sm_state :: u64

definition GAMMA :: u64 where "GAMMA = 0x9E3779B97F4A7C15"

definition reset_with_seed :: "split_mix64 \<Rightarrow> u64 \<Rightarrow> split_mix64" where
  "reset_with_seed r seed = r\<lparr>sm_state := seed\<rparr>"

definition next_long :: "split_mix64 \<Rightarrow> u64 \<times> split_mix64" where
  "next_long r =
     (let st = sm_state r + GAMMA;
          z = st;
          z = (z XOR drop_bit 30 z) * 0xBF58476D1CE4E5B9;
          z = (z XOR drop_bit 27 z) * 0x94D049BB133111EB
      in (z XOR drop_bit 31 z, r\<lparr>sm_state := st\<rparr>))"

section \<open>Bit counting of the standard library\<close>

fun bit_length :: "nat \<Rightarrow> nat" where
  "bit_length n = (if n = 0 then 0 else Suc (bit_length (n div 2)))"

fun ones :: "nat \<Rightarrow> nat" where
  "ones n = (if n = 0 then 0 else n mod 2 + ones (n div 2))"

declare bit_length.simps [simp del] ones.simps [simp del]

definition leading_zeros :: "u32 \<Rightarrow> nat" where
  "leading_zeros w = 32 - bit_length (unat w)"

definition count_ones :: "u32 \<Rightarrow> u32" where
  "count_ones w = word_of_nat (ones (unat w))"

section \<open>JumpBackHasher\<close>

definition top_bit :: "u32 \<Rightarrow> u32" where
  "top_bit u = push_bit (31 - leading_zeros u) 1"

definition first_candidate :: "u64 \<Rightarrow> u32 \<Rightarrow> u32" where
  "first_candidate v u =
     (let q = top_bit u;
          shift = push_bit 5 (count_ones u) AND 63;
          b0 = ucast (drop_bit (unat shift) v) AND (q - 1)
      in q + b0)"

definition mask2 :: "u32 \<Rightarrow> u32" where
  "mask2 q = (if q = 0x80000000 then 0xFFFFFFFF else push_bit 1 q - 1)"

text \<open>
  The inner \<open>loop\<close>. \<open>Some b\<close> is the early return of the bucket \<open>b\<close>, \<open>None\<close> the
  \<open>break\<close> to the next lower bit; the outer option is the loop's own termination.
\<close>

partial_function (option) probe ::
    "u32 \<Rightarrow> u32 \<Rightarrow> u32 \<Rightarrow> split_mix64 \<Rightarrow> (u32 option \<times> split_mix64) option" where
  "probe n q b rng =
     (if b < n then Some (Some b, rng)
      else
        let w = fst (next_long rng);
            rng' = snd (next_long rng);
            b1 = ucast w AND mask2 q;
            b2 = ucast (drop_bit 32 w) AND mask2 q
        in if b1 < q then Some (None, rng')
           else if b1 < n then Some (Some b1, rng')
           else if b2 < q then Some (None, rng')
           else if b2 < n then Some (Some b2, rng')
           else probe n q b2 rng')"

text \<open>The outer \<open>while u_work != 0\<close>.\<close>

partial_function (option) descend ::
    "u64 \<Rightarrow> u32 \<Rightarrow> u32 \<Rightarrow> split_mix64 \<Rightarrow> u32 option" where
  "descend v n u_work rng =
     (if u_work = 0 then Some 0
      else
        Option.bind (probe n (top_bit u_work) (first_candidate v u_work) rng)
          (\<lambda>(r, rng'). case r of
             Some b \<Rightarrow> Some b
           | None \<Rightarrow> descend v n (u_work XOR top_bit u_work) rng'))"

definition hash :: "u64 \<Rightarrow> u32 \<Rightarrow> u32 option" where
  "hash k n =
     (if n \<le> 1 then Some 0
      else
        let (v, rng) = next_long (reset_with_seed \<lparr>sm_state = 0\<rparr> k);
            n_minus_1 = n - 1;
            mask = drop_bit (leading_zeros n_minus_1) (NOT 0) :: u32;
            u = ucast (v XOR drop_bit 32 v) AND mask
        in descend v n u rng)"

declare probe.simps [code] descend.simps [code]

section \<open>Bit lengths\<close>

lemma bit_length_0 [simp]: "bit_length 0 = 0"
  by (simp add: bit_length.simps)

lemma bit_length_le_iff: "bit_length n \<le> k \<longleftrightarrow> n < 2 ^ k"
proof (induction n arbitrary: k rule: bit_length.induct)
  case (1 n)
  show ?case
  proof (cases "n = 0 \<or> k = 0")
    case True
    then show ?thesis by (auto simp: bit_length.simps [of n])
  next
    case False
    then obtain j where k: "k = Suc j" by (cases k) auto
    have "bit_length n \<le> k \<longleftrightarrow> bit_length (n div 2) \<le> j"
      using False k by (simp add: bit_length.simps [of n])
    also have "\<dots> \<longleftrightarrow> n div 2 < 2 ^ j"
      using "1.IH" False by blast
    also have "\<dots> \<longleftrightarrow> n < 2 ^ k"
      using k by (simp add: less_mult_imp_div_less) arith
    finally show ?thesis .
  qed
qed

lemma less_bit_length: "n < 2 ^ bit_length n"
  using bit_length_le_iff [of n "bit_length n"] by simp

lemma bit_length_pos [simp]: "0 < bit_length n \<longleftrightarrow> n \<noteq> 0"
  by (simp add: bit_length.simps [of n])

lemma bit_length_ge: "n \<noteq> 0 \<Longrightarrow> 2 ^ (bit_length n - 1) \<le> n"
  using bit_length_le_iff [of n "bit_length n - 1"] by (cases "bit_length n") auto

lemma bit_length_u32: "bit_length (unat (w :: u32)) \<le> 32"
  using bit_length_le_iff unsigned_less [of w, where ?'a = nat] by simp

section \<open>The generator has full period, so the rejection loop ends\<close>

definition GAMMA_INV :: u64 where "GAMMA_INV = 0xF1DE83E19937733D"

text \<open>The number of draws before the generator's state is zero.\<close>

definition draws_left :: "split_mix64 \<Rightarrow> nat" where
  "draws_left r = unat (- (sm_state r * GAMMA_INV) - 1)"

lemma gamma_inverse: "GAMMA * GAMMA_INV = 1" "GAMMA_INV * GAMMA = 1"
  by (simp_all add: GAMMA_def GAMMA_INV_def)

lemma next_long_state [simp]: "sm_state (snd (next_long r)) = sm_state r + GAMMA"
  by (simp add: next_long_def Let_def)

lemma next_long_zero: "sm_state r + GAMMA = 0 \<Longrightarrow> fst (next_long r) = 0"
  by (simp add: next_long_def Let_def)

lemma draws_left_0: "draws_left r = 0 \<Longrightarrow> sm_state r + GAMMA = 0"
proof -
  assume "draws_left r = 0"
  then have "- (sm_state r * GAMMA_INV) = 1"
    by (simp add: draws_left_def unat_eq_zero)
  then have "- (sm_state r * GAMMA_INV) * GAMMA = GAMMA" by simp
  then have "- sm_state r = GAMMA"
    by (simp add: mult.assoc gamma_inverse)
  then show ?thesis by (metis add.right_inverse)
qed

lemma draws_left_next:
  assumes "draws_left r \<noteq> 0"
  shows "draws_left (snd (next_long r)) = draws_left r - 1"
proof -
  let ?x = "- (sm_state r * GAMMA_INV) - 1"
  have nz: "?x \<noteq> 0"
    using assms by (auto simp: draws_left_def)
  have "- ((sm_state r + GAMMA) * GAMMA_INV) - 1 = ?x - 1"
    by (simp add: distrib_right gamma_inverse)
  then have "draws_left (snd (next_long r)) = unat (?x - 1)"
    by (simp only: draws_left_def next_long_state)
  also have "\<dots> = unat ?x - 1"
    using nz by (rule unat_minus_one)
  finally show ?thesis by (simp only: draws_left_def)
qed

lemma probe_returns:
  assumes "q \<noteq> 0"
  shows "\<exists>r rng'. probe n q b rng = Some (r, rng')"
proof (induction "draws_left rng" arbitrary: b rng)
  case 0
  then have "fst (next_long rng) = 0"
    by (intro next_long_zero draws_left_0) simp
  moreover have "0 < q"
    using assms by (simp add: word_gt_0)
  ultimately show ?case
    by (subst probe.simps) (simp add: Let_def)
next
  case (Suc d)
  have "d = draws_left (snd (next_long rng))"
    using Suc.hyps(2) draws_left_next [of rng] by simp
  then show ?case
    using Suc.hyps(1) by (subst probe.simps) (auto simp: Let_def)
qed

section \<open>What a probe returns\<close>

lemma probe_at_once: "b < n \<Longrightarrow> probe n q b rng = Some (Some b, rng)"
  by (subst probe.simps) simp

lemma probe_bounds:
  assumes "q \<noteq> 0" and "q \<le> b" and "probe n q b rng = Some (Some r, rng')"
  shows "q \<le> r \<and> r < n"
  using assms(2,3)
proof (induction "draws_left rng" arbitrary: b rng)
  case 0
  then have "fst (next_long rng) = 0"
    by (intro next_long_zero draws_left_0) simp
  with 0 assms(1) show ?case
    by (subst (asm) probe.simps) (auto simp: Let_def word_gt_0 split: if_splits)
next
  case (Suc d)
  have d: "d = draws_left (snd (next_long rng))"
    using Suc.hyps(2) draws_left_next [of rng] by simp
  from Suc.prems show ?case
    by (subst (asm) probe.simps) (auto simp: Let_def not_less split: if_splits
        dest: Suc.hyps(1) [OF d])
qed

lemma less_inc_iff: "n < n + 1 \<Longrightarrow> x < n + 1 \<longleftrightarrow> x < n \<or> x = n" for n x :: "'a::len word"
  by (meson less_inc_imp_less_eq order.strict_trans order_le_neq_trans)

text \<open>One bucket more: the same result, or the new bucket.\<close>

lemma probe_grow:
  assumes "q \<noteq> 0" and "n < n'" and "n' = n + 1"
    and "probe n q b rng = Some (r, rng1)" and "probe n' q b rng = Some (r', rng2)"
  shows "r' = r \<or> r' = Some n"
  using assms(4,5)
proof (induction "draws_left rng" arbitrary: b rng)
  have step: "x < n' \<longleftrightarrow> x < n \<or> x = n" for x
    using assms(2,3) less_inc_iff by blast
{
  case 0
  then have "fst (next_long rng) = 0"
    by (intro next_long_zero draws_left_0) simp
  with 0 assms(1) show ?case
    by (subst (asm) (1 2) probe.simps) (auto simp: Let_def step word_gt_0 split: if_splits)
next
  case (Suc d)
  have d: "d = draws_left (snd (next_long rng))"
    using Suc.hyps(2) draws_left_next [of rng] by simp
  from Suc.prems show ?case
    by (subst (asm) (1 2) probe.simps)
      (auto simp: Let_def step not_less split: if_splits dest: Suc.hyps(1) [OF d])
}
qed

section \<open>Words of the hash as numbers\<close>

lemma unat_exp: "t < 32 \<Longrightarrow> unat (2 ^ t :: u32) = 2 ^ t"
proof -
  assume "t < 32"
  then have "(2 :: nat) ^ t < 2 ^ 32" by (intro power_strict_increasing) simp_all
  moreover have "(2 ^ t :: u32) = word_of_nat (2 ^ t)" by simp
  ultimately show ?thesis by (simp only: unat_of_nat) simp
qed

lemma bit_length_Suc: "u \<noteq> 0 \<Longrightarrow> \<exists>t. bit_length (unat u) = Suc t \<and> t < 32" for u :: u32
  using bit_length_u32 [of u] by (cases "bit_length (unat u)") (auto simp: unat_eq_zero bit_length.simps [of "unat u"])

lemma top_bit_exp: "bit_length (unat u) = Suc t \<Longrightarrow> t < 32 \<Longrightarrow> top_bit u = 2 ^ t"
  by (simp add: top_bit_def leading_zeros_def push_bit_eq_mult)

lemma candidate_range:
  assumes t: "bit_length (unat u) = Suc t" "t < 32"
  shows "top_bit u \<le> first_candidate v u"
    and "unat (first_candidate v u) < 2 ^ Suc t"
proof -
  define b0 :: u32 where
    "b0 = ucast (drop_bit (unat (push_bit 5 (count_ones u) AND 63)) v) AND (2 ^ t - 1)"
  have b0: "unat b0 < 2 ^ t"
    by (simp add: b0_def unsigned_take_bit_eq flip: mask_eq_exp_minus_1 take_bit_eq_mask)
  have "(2 :: nat) ^ Suc t \<le> 2 ^ 32" using t(2) by (intro power_increasing) simp_all
  with b0 have "unat (2 ^ t :: u32) + unat b0 < 2 ^ 32"
    by (simp add: unat_exp [OF t(2)])
  then have fc: "unat (first_candidate v u) = 2 ^ t + unat b0"
    by (simp add: first_candidate_def Let_def top_bit_exp [OF t] unat_word_ariths(1)
        unat_exp [OF t(2)] flip: b0_def)
  then show "top_bit u \<le> first_candidate v u"
    by (simp add: word_le_nat_alt top_bit_exp [OF t] unat_exp [OF t(2)])
  show "unat (first_candidate v u) < 2 ^ Suc t"
    using fc b0 by simp
qed

lemma clear_top_bit:
  assumes t: "bit_length (unat u) = Suc t" "t < 32"
  shows "u XOR top_bit u = take_bit t u"
proof -
  have hi: "unat u < 2 ^ Suc t"
    using less_bit_length [of "unat u"] t by simp
  have lo: "2 ^ t \<le> unat u"
    using bit_length_ge [of "unat u"] t by (metis Zero_not_Suc bit_length_0 diff_Suc_1)
  have "unat (take_bit (Suc t) u) = unat u"
    using hi by (simp only: unsigned_take_bit_eq take_bit_nat_eq_self)
  then have u: "take_bit (Suc t) u = u"
    by (simp only: word_unat_eq_iff)
  have above: "bit u n \<Longrightarrow> n \<le> t" for n
    using arg_cong [OF u, of "\<lambda>w. bit w n"] by (auto simp: bit_take_bit_iff)
  have "unat u div 2 ^ t = 1"
    using lo hi by (intro div_nat_eqI) simp_all
  then have at: "bit u t"
    by (metis bit_iff_odd bit_unsigned_iff odd_one)
  show ?thesis
    using above at t(2)
    by (intro bit_word_eqI) (auto simp: bit_xor_iff bit_take_bit_iff bit_exp_iff top_bit_exp [OF t]
        le_less)
qed

lemma bit_length_take_bit: "bit_length (unat (take_bit t (u :: u32))) \<le> t"
  by (simp add: bit_length_le_iff unsigned_take_bit_eq)

lemma top_bit_nz: "u \<noteq> 0 \<Longrightarrow> top_bit u \<noteq> 0"
  using bit_length_Suc [of u] unat_exp by (metis power_not_zero top_bit_exp unat_0 zero_neq_numeral)

section \<open>Totality, range and minimal remapping\<close>

lemma descend_total: "n \<noteq> 0 \<Longrightarrow> \<exists>b. descend v n u rng = Some b \<and> b < n"
proof (induction "bit_length (unat u)" arbitrary: u rng rule: less_induct)
  case less
  show ?case
  proof (cases "u = 0")
    case True
    with less.prems show ?thesis by (subst descend.simps) (simp add: word_gt_0)
  next
    case False
    then obtain t where t: "bit_length (unat u) = Suc t" "t < 32"
      using bit_length_Suc by blast
    obtain r rng' where r: "probe n (top_bit u) (first_candidate v u) rng = Some (r, rng')"
      using probe_returns top_bit_nz [OF False] by blast
    show ?thesis
    proof (cases r)
      case (Some b)
      with r probe_bounds [OF top_bit_nz [OF False] candidate_range(1) [OF t]] have "b < n" by blast
      with False r Some show ?thesis by (subst descend.simps) simp
    next
      case None
      have "bit_length (unat (u XOR top_bit u)) < bit_length (unat u)"
        using bit_length_take_bit [of t u] t by (simp add: clear_top_bit)
      then obtain b where "descend v n (u XOR top_bit u) rng' = Some b" "b < n"
        using less by blast
      with False r None show ?thesis by (subst descend.simps) simp
    qed
  qed
qed

text \<open>Below the top octave of \<open>n\<close> the first candidate is always in range.\<close>

definition low_bucket :: "u64 \<Rightarrow> u32 \<Rightarrow> u32" where
  "low_bucket v u = (if u = 0 then 0 else first_candidate v u)"

lemma descend_low:
  assumes "2 ^ bit_length (unat u) \<le> unat n"
  shows "descend v n u rng = Some (low_bucket v u)"
proof (cases "u = 0")
  case True
  then show ?thesis by (subst descend.simps) (simp add: low_bucket_def)
next
  case False
  then obtain t where t: "bit_length (unat u) = Suc t" "t < 32"
    using bit_length_Suc by blast
  have "first_candidate v u < n"
    using candidate_range(2) [OF t, of v] assms t by (simp add: word_less_nat_alt)
  with False show ?thesis
    by (subst descend.simps) (simp add: probe_at_once low_bucket_def)
qed

definition draw :: "u64 \<Rightarrow> u64" where
  "draw k = fst (next_long \<lparr>sm_state = k\<rparr>)"

definition folded :: "u64 \<Rightarrow> u32" where
  "folded v = ucast (v XOR drop_bit 32 v)"

lemma mask_word: "L \<le> 32 \<Longrightarrow> drop_bit (32 - L) (NOT 0) = (mask L :: u32)"
  by (rule bit_word_eqI) (auto simp: bit_drop_bit_eq bit_not_iff bit_mask_iff)

lemma hash_descend:
  assumes "1 < n"
  shows "hash k n = descend (draw k) n (take_bit (bit_length (unat (n - 1))) (folded (draw k)))
           (snd (next_long \<lparr>sm_state = k\<rparr>))"
proof -
  have "drop_bit (leading_zeros (n - 1)) (NOT 0) = (mask (bit_length (unat (n - 1))) :: u32)"
    unfolding leading_zeros_def by (rule mask_word [OF bit_length_u32])
  with assms show ?thesis
    by (simp add: hash_def reset_with_seed_def case_prod_beta draw_def folded_def take_bit_eq_mask
        Let_def flip: not_less)
qed

lemma hash_total: "\<exists>b. hash k n = Some b"
proof (cases "1 < n")
  case True
  then have "n \<noteq> 0" by auto
  with True show ?thesis using descend_total hash_descend by metis
next
  case False
  then show ?thesis by (simp add: hash_def not_less)
qed

lemma hash_range:
  assumes "hash k n = Some b" and "n \<noteq> 0"
  shows "b < n"
proof (cases "1 < n")
  case True
  with assms show ?thesis using descend_total hash_descend by (metis option.inject)
next
  case False
  with assms show ?thesis by (auto simp: hash_def not_less word_gt_0)
qed

text \<open>In the top octave: the probe's bucket, or the bucket of the remaining bits.\<close>

lemma descend_top:
  assumes t: "bit_length (unat u) = Suc t" "t < 32" and n: "2 ^ t \<le> unat n"
    and r: "probe n (top_bit u) (first_candidate v u) rng = Some (r, rng')"
  shows "descend v n u rng = Some (case r of Some b \<Rightarrow> b | None \<Rightarrow> low_bucket v (take_bit t u))"
proof -
  have "u \<noteq> 0" using t by auto
  moreover have "2 ^ bit_length (unat (take_bit t u)) \<le> unat n"
    using n by (meson bit_length_take_bit one_le_numeral order_trans power_increasing)
  ultimately show ?thesis
    using r by (subst descend.simps)
      (simp add: clear_top_bit [OF t] descend_low split: option.splits)
qed

lemma descend_grow:
  assumes n: "n < n + 1" and le: "2 ^ (bit_length (unat u) - 1) \<le> unat n"
  shows "descend v (n + 1) u rng = descend v n u rng \<or> descend v (n + 1) u rng = Some n"
proof (cases "u = 0")
  case True
  then show ?thesis by (simp add: descend.simps [of v _ 0])
next
  case False
  then obtain t where t: "bit_length (unat u) = Suc t" "t < 32"
    using bit_length_Suc by blast
  have n1: "2 ^ t \<le> unat n" "2 ^ t \<le> unat (n + 1)"
    using le t n by (auto simp: word_less_nat_alt)
  obtain r rng1 where r: "probe n (top_bit u) (first_candidate v u) rng = Some (r, rng1)"
    using probe_returns top_bit_nz [OF False] by blast
  obtain r' rng2 where r': "probe (n + 1) (top_bit u) (first_candidate v u) rng = Some (r', rng2)"
    using probe_returns top_bit_nz [OF False] by blast
  have "r' = r \<or> r' = Some n"
    by (rule probe_grow [OF top_bit_nz [OF False] n refl r r'])
  then show ?thesis
    by (auto simp: descend_top [OF t n1(1) r] descend_top [OF t n1(2) r'])
qed

text \<open>When \<open>n\<close> is a power of two, one more bucket opens a new octave.\<close>

lemma descend_new_octave:
  assumes n: "unat n = 2 ^ L" "L < 32" "n < n + 1"
  shows "descend v (n + 1) (take_bit (Suc L) w) rng = descend v n (take_bit L w) rng' \<or>
         descend v (n + 1) (take_bit (Suc L) w) rng = Some n"
proof -
  let ?u = "take_bit (Suc L) w"
  have tk: "take_bit L ?u = take_bit L w" by simp
  have low: "descend v n (take_bit L w) rng' = Some (low_bucket v (take_bit L w))"
    using n(1) by (intro descend_low) (simp add: bit_length_take_bit)
  have n1: "2 ^ L \<le> unat (n + 1)"
    using n by (simp add: word_less_nat_alt)
  show ?thesis
  proof (cases "bit_length (unat ?u) \<le> L")
    case True
    then have "unat ?u < 2 ^ L" by (simp add: bit_length_le_iff)
    then have "unat (take_bit L ?u) = unat ?u"
      by (simp only: unsigned_take_bit_eq take_bit_nat_eq_self)
    then have u: "?u = take_bit L w"
      by (simp only: word_unat_eq_iff tk)
    have "2 ^ bit_length (unat (take_bit L w)) \<le> unat (n + 1)"
      using n1 by (meson bit_length_take_bit one_le_numeral order_trans power_increasing)
    with u low show ?thesis by (simp add: descend_low)
  next
    case False
    then have t: "bit_length (unat ?u) = Suc L"
      using bit_length_take_bit [of "Suc L" w] by simp
    then have nz: "?u \<noteq> 0" by auto
    have top: "top_bit ?u = n"
      using top_bit_exp [OF t n(2)] unat_exp [OF n(2)] n(1) by (simp add: word_unat_eq_iff)
    obtain r rng1 where r: "probe (n + 1) (top_bit ?u) (first_candidate v ?u) rng = Some (r, rng1)"
      using probe_returns top_bit_nz [OF nz] by blast
    have "b = n" if "r = Some b" for b
      using probe_bounds [OF top_bit_nz [OF nz] candidate_range(1) [OF t n(2)]] r that top
        less_inc_iff [OF n(3)] by fastforce
    then show ?thesis
      using descend_top [OF t n(2) n1 r] low tk by (cases r) auto
  qed
qed

lemma hash_grow:
  assumes "n \<noteq> 0" and "n < n + 1"
  shows "hash k (n + 1) = hash k n \<or> hash k (n + 1) = Some n"
proof (cases "1 < n")
  case False
  then have n: "n = 1"
    using assms(1) by (metis linorder_neqE_linordered_idom less_one word_le_less_eq word_less_1 not_less)
  obtain b where b: "hash k (n + 1) = Some b" using hash_total by blast
  with hash_range [OF b] n have "b < 2" by simp
  then have "b = 0 \<or> b = 1"
    using less_inc_iff [of 1 b] by auto
  with b n show ?thesis by (auto simp: hash_def)
next
  case True
  let ?L = "bit_length (unat (n - 1))"
  have n1: "1 < n + 1" and un: "unat (n - 1) = unat n - 1" "0 < unat n"
    using True assms by (auto simp: unat_minus_one word_gt_0 unat_gt_0)
  have Lpos: "unat (n - 1) \<noteq> 0"
    using True by (simp add: un(1) word_less_nat_alt)
  have lo: "2 ^ (?L - 1) \<le> unat n"
    using bit_length_ge [OF Lpos] un by linarith
  show ?thesis
  proof (cases "bit_length (unat n) = ?L")
    case same: True
    let ?u = "take_bit ?L (folded (draw k))"
    have "(2 :: nat) ^ (bit_length (unat ?u) - 1) \<le> 2 ^ (?L - 1)"
      by (intro power_increasing diff_le_mono bit_length_take_bit) simp
    with lo have le: "2 ^ (bit_length (unat ?u) - 1) \<le> unat n" by linarith
    from descend_grow [OF assms(2) le] show ?thesis
      by (simp add: hash_descend True n1 same)
  next
    case False
    have "unat n < 2 ^ Suc ?L"
      using less_bit_length [of "unat (n - 1)"] un by simp
    then have "bit_length (unat n) \<le> Suc ?L" by (simp only: bit_length_le_iff)
    moreover have "\<not> bit_length (unat n) \<le> ?L - 1"
      using bit_length_ge [OF Lpos] un by (simp only: bit_length_le_iff)
    ultimately have L': "bit_length (unat n) = Suc ?L"
      using False by linarith
    then have un2: "unat n = 2 ^ ?L"
      using bit_length_le_iff [of "unat n" ?L] less_bit_length [of "unat (n - 1)"] un by simp
    have "?L < 32"
      using L' bit_length_u32 [of n] by simp
    from descend_new_octave [OF un2 this assms(2)] show ?thesis
      by (simp only: hash_descend [OF True] hash_descend [OF n1] add_diff_cancel_right' L')
  qed
qed

section \<open>The contract the ring relies on\<close>

text \<open>
  A consistent bucket hash: total, in range, and minimal in what it moves when one bucket is
  added. The ring's lemmas are proved from this contract.
\<close>

locale bucket_hash =
  fixes h :: "u64 \<Rightarrow> u32 \<Rightarrow> u32 option"
  assumes h_total: "\<exists>b. h k n = Some b"
    and h_range: "h k n = Some b \<Longrightarrow> n \<noteq> 0 \<Longrightarrow> b < n"
    and h_grow: "n \<noteq> 0 \<Longrightarrow> n < n + 1 \<Longrightarrow> h k (n + 1) = h k n \<or> h k (n + 1) = Some n"

interpretation jump_back: bucket_hash hash
  by unfold_locales (rule hash_total, erule (1) hash_range, erule (1) hash_grow)

section \<open>Properties\<close>

text \<open>C33: \<open>JumpBackHasher::hash\<close> returns for every key and every positive bucket count, and
  what it returns is one of the buckets. In particular the rejection loop, which has no bound in
  the code, always ends.\<close>

theorem hash_returns_a_bucket:
  assumes "0 < n"
  shows "\<exists>b. hash k n = Some b \<and> b < n"
  using hash_total [of k n] hash_range [of k n] assms by fastforce

theorem hash_returns_a_bucket_witness: "\<exists>b. hash 0xDEADBEEF 10 = Some b \<and> b < 10"
  using hash_returns_a_bucket [of 10 "0xDEADBEEF"] by simp

text \<open>Growing the bucket count by one either leaves a key where it was or moves it to the new
  bucket: no key ever moves between two old buckets.\<close>

theorem hash_moves_only_to_the_new_bucket:
  assumes "0 < n" and "n < n + 1"
  shows "hash k (n + 1) = hash k n \<or> hash k (n + 1) = Some n"
  using assms by (intro hash_grow) auto

theorem hash_moves_only_to_the_new_bucket_witness:
  "hash 42 (7 + 1) = hash 42 7 \<or> hash 42 (7 + 1) = Some 7"
  by (rule hash_moves_only_to_the_new_bucket) simp_all

end
