(* ===== verification/Ring.thy ===== *)
theory Ring
  imports Ids Jump_Hash "HOL-Library.Multiset"
begin

text \<open>
  The compute and storage ring (\<open>seisin-ring/src/ring.rs\<close>): an ordered list of
  (node, thread) slots, the mutations \<open>apply_join\<close> and \<open>apply_leave\<close> (swap with last), the
  native owner of a datum and its replica set. A panic (indexing an empty ring) and a hash that
  would not return are \<open>None\<close>; the lemmas show that neither happens on a non-empty ring.
\<close>

section \<open>Slots and mutations\<close>

type_synonym slot = "node_id \<times> thread_id"

record ring = slots :: "slot list"

definition ring_empty :: ring where
  "ring_empty = \<lparr>slots = []\<rparr>"

definition apply_join :: "ring \<Rightarrow> node_id \<Rightarrow> u32 \<Rightarrow> ring" where
  "apply_join r node_id thread_count =
     r\<lparr>slots := slots r @ map (\<lambda>t. (node_id, ThreadId (word_of_nat t))) [0..<unat thread_count]\<rparr>"

definition from_members :: "(node_id \<times> u32) list \<Rightarrow> ring" where
  "from_members members = fold (\<lambda>(n, c) r. apply_join r n c) members ring_empty"

definition swap_remove :: "'a list \<Rightarrow> nat \<Rightarrow> 'a list" where
  "swap_remove xs i =
     (let l = length xs - 1 in butlast (xs[i := xs ! l, l := xs ! i]))"

function leave_loop :: "node_id \<Rightarrow> slot list \<Rightarrow> nat \<Rightarrow> slot list" where
  "leave_loop node_id xs i =
     (if i < length xs then
        (if fst (xs ! i) = node_id then leave_loop node_id (swap_remove xs i) i
         else leave_loop node_id xs (i + 1))
      else xs)"
  by pat_completeness auto
termination
  by (relation "measure (\<lambda>(n, xs, i). length xs - i)") (auto simp: swap_remove_def Let_def)

declare leave_loop.simps [simp del]

definition apply_leave :: "ring \<Rightarrow> node_id \<Rightarrow> ring" where
  "apply_leave r node_id = r\<lparr>slots := leave_loop node_id (slots r) 0\<rparr>"

definition contains :: "ring \<Rightarrow> node_id \<Rightarrow> bool" where
  "contains r node_id \<longleftrightarrow> list_ex (\<lambda>(n, _). n = node_id) (slots r)"

text \<open>
  \<open>weights\<close> keeps the order of first appearance and a count per node; \<open>counts\<close> is a
  \<open>u32\<close> per node.
\<close>

fun weights_loop :: "slot list \<Rightarrow> node_id list \<Rightarrow> (node_id \<rightharpoonup> u32) \<Rightarrow> node_id list \<times> (node_id \<rightharpoonup> u32)" where
  "weights_loop [] order counts = (order, counts)"
| "weights_loop ((node, _) # rest) order counts =
     (case counts node of
        None \<Rightarrow> weights_loop rest (order @ [node]) (counts(node \<mapsto> 1))
      | Some c \<Rightarrow> weights_loop rest order (counts(node \<mapsto> c + 1)))"

definition weights :: "ring \<Rightarrow> (node_id \<times> u32) list" where
  "weights r =
     (let (order, counts) = weights_loop (slots r) [] Map.empty
      in map (\<lambda>n. (n, the (counts n))) order)"

definition node_ids :: "ring \<Rightarrow> node_id list" where
  "node_ids r = map fst (weights r)"

section \<open>Owners and replicas\<close>

definition hash_key :: "datum_id \<Rightarrow> u64" where
  "hash_key i = u64_from_le (slice (as_bytes i) 8 16)"

definition pick :: "(u64 \<Rightarrow> u32 \<Rightarrow> u32 option) \<Rightarrow> 'a list \<Rightarrow> u64 \<Rightarrow> 'a option" where
  "pick h xs key =
     Option.bind (h key (as_u32 (length xs)))
       (\<lambda>index. if unat index < length xs then Some (xs ! unat index) else None)"

definition slot_at :: "slot list \<Rightarrow> u64 \<Rightarrow> slot option" where
  "slot_at = pick hash"

definition native :: "ring \<Rightarrow> datum_id \<Rightarrow> slot option" where
  "native r i = slot_at (slots r) (hash_key i)"

function salted :: "slot list \<Rightarrow> u64 \<Rightarrow> nat \<Rightarrow> nat \<Rightarrow> nat \<Rightarrow> u64 \<Rightarrow> node_id list \<Rightarrow> node_id list option" where
  "salted xs base target cap attempts salt chosen =
     (if length chosen < target \<and> attempts < cap then
        (case slot_at xs (base + salt * 0x9E3779B97F4A7C15) of
           None \<Rightarrow> None
         | Some (node, _) \<Rightarrow>
             salted xs base target cap (attempts + 1) (salt + 1)
               (if node \<in> set chosen then chosen else chosen @ [node]))
      else Some chosen)"
  by pat_completeness auto
termination
  by (relation "measure (\<lambda>(xs, base, target, cap, attempts, salt, chosen). cap - attempts)") auto

declare salted.simps [simp del]

fun sweep :: "nat \<Rightarrow> node_id list \<Rightarrow> node_id list \<Rightarrow> node_id list" where
  "sweep target [] chosen = chosen"
| "sweep target (node # rest) chosen =
     (if length chosen = target then chosen
      else sweep target rest (if node \<in> set chosen then chosen else chosen @ [node]))"

definition replicas :: "ring \<Rightarrow> datum_id \<Rightarrow> nat \<Rightarrow> node_id list option" where
  "replicas r i n =
     (if slots r = [] \<or> n = 0 then Some []
      else
        let dist = node_ids r;
            target = min n (length dist);
            base = hash_key i;
            cap = length (slots r) * 3 + 32
        in Option.bind (slot_at (slots r) base) (\<lambda>(node0, _).
             Option.bind (salted (slots r) base target cap 0 1 [node0]) (\<lambda>chosen.
               Some (if length chosen < target then sweep target dist chosen else chosen))))"

section \<open>Swap-with-last removes exactly the leaving node's slots\<close>

lemma length_swap_remove [simp]: "length (swap_remove xs i) = length xs - 1"
  by (simp add: swap_remove_def Let_def)

lemma swap_remove_nth:
  assumes "i < length xs" and "j < length xs - 1"
  shows "swap_remove xs i ! j = (if j = i then last xs else xs ! j)"
  using assms by (cases xs rule: rev_cases)
    (auto simp: swap_remove_def Let_def nth_butlast nth_list_update last_conv_nth)

lemma mset_swap_remove:
  assumes "i < length xs"
  shows "mset (swap_remove xs i) = mset xs - {#xs ! i#}"
proof -
  let ?l = "length xs - 1"
  let ?ys = "xs[i := xs ! ?l, ?l := xs ! i]"
  have ne: "?ys \<noteq> []" using assms by auto
  have "mset ?ys = mset xs"
    using assms by (intro mset_swap) auto
  moreover have "last ?ys = xs ! i"
    using ne assms by (simp add: last_conv_nth)
  moreover have "mset ?ys = add_mset (last ?ys) (mset (butlast ?ys))"
    using ne by (metis append_butlast_last_id mset.simps(1,2) mset_append union_mset_add_mset_right
        add.right_neutral)
  ultimately show ?thesis by (simp add: swap_remove_def Let_def)
qed

lemma mset_leave_loop:
  assumes "\<forall>j < i. j < length xs \<longrightarrow> fst (xs ! j) \<noteq> node"
  shows "mset (leave_loop node xs i) = filter_mset (\<lambda>s. fst s \<noteq> node) (mset xs)"
  using assms
proof (induction node xs i rule: leave_loop.induct)
  case (1 node xs i)
  show ?case
  proof (cases "i < length xs")
    case False
    with "1.prems" have "filter (\<lambda>s. fst s \<noteq> node) xs = xs"
      by (auto simp: filter_id_conv in_set_conv_nth) (metis fst_conv less_le_trans not_less)
    with False show ?thesis by (simp add: leave_loop.simps [of node xs i] flip: mset_filter)
  next
    case True
    show ?thesis
    proof (cases "fst (xs ! i) = node")
      case hit: True
      have "\<forall>j < i. j < length (swap_remove xs i) \<longrightarrow> fst (swap_remove xs i ! j) \<noteq> node"
        using "1.prems" True by (auto simp: swap_remove_nth)
      from "1.IH"(1) [OF True hit this] True hit show ?thesis
        by (simp add: leave_loop.simps [of node xs i] mset_swap_remove)
    next
      case miss: False
      have "\<forall>j < i + 1. j < length xs \<longrightarrow> fst (xs ! j) \<noteq> node"
        using "1.prems" miss by (auto simp: less_Suc_eq)
      from "1.IH"(2) [OF True miss this] True miss show ?thesis
        by (simp add: leave_loop.simps [of node xs i])
    qed
  qed
qed

lemma mset_apply_leave:
  "mset (slots (apply_leave r node)) = filter_mset (\<lambda>s. fst s \<noteq> node) (mset (slots r))"
  by (simp add: apply_leave_def mset_leave_loop)

section \<open>Owners\<close>

lemma as_u32_nz: "0 < n \<Longrightarrow> n < 2 ^ 32 \<Longrightarrow> as_u32 n \<noteq> 0"
  by (metis less_irrefl unat_0 unat_as_u32_small)

lemma as_u32_inc:
  assumes "Suc n < 2 ^ 32"
  shows "as_u32 (Suc n) = as_u32 n + 1" and "as_u32 n < as_u32 n + 1"
    and "0 < n \<Longrightarrow> as_u32 n \<noteq> 0"
proof -
  show e: "as_u32 (Suc n) = as_u32 n + 1" by (simp add: as_u32_def)
  show "as_u32 n < as_u32 n + 1"
    using assms unat_as_u32_small [of n] unat_as_u32_small [of "Suc n"]
    by (simp add: word_less_nat_alt flip: e)
  show "0 < n \<Longrightarrow> as_u32 n \<noteq> 0"
    using assms by (simp add: as_u32_nz)
qed

context bucket_hash
begin

lemma h_index:
  assumes "0 < n" and "n < 2 ^ 32"
  shows "\<exists>b. h key (as_u32 n) = Some b \<and> unat b < n"
proof -
  obtain b where b: "h key (as_u32 n) = Some b" using h_total by blast
  have "as_u32 n \<noteq> 0" using assms by (rule as_u32_nz)
  with b have "b < as_u32 n" by (rule h_range)
  with b assms show ?thesis by (simp add: word_less_nat_alt)
qed

lemma pick_total:
  assumes "xs \<noteq> []" and "length xs < 2 ^ 32"
  shows "\<exists>s \<in> set xs. pick h xs key = Some s"
  using h_index [of "length xs" key] assms by (auto simp: pick_def)

lemma pick_empty [simp]: "pick h [] key = None"
  by (cases "h key (as_u32 0)") (simp_all add: pick_def)

lemma pick_snoc:
  assumes "xs \<noteq> []" and "Suc (length xs) < 2 ^ 32"
  shows "pick h (xs @ [s]) key = pick h xs key \<or> pick h (xs @ [s]) key = Some s"
proof -
  obtain b where b: "h key (as_u32 (length xs)) = Some b" "unat b < length xs"
    using h_index [of "length xs" key] assms by auto
  have "h key (as_u32 (length xs) + 1) = Some b \<or>
        h key (as_u32 (length xs) + 1) = Some (as_u32 (length xs))"
    using h_grow [of "as_u32 (length xs)" key] as_u32_inc [OF assms(2)] assms(1) b(1) by auto
  then show ?thesis
    using b assms by (auto simp: pick_def as_u32_inc(1) nth_append)
qed

lemma pick_append:
  assumes "xs \<noteq> []" and "length (xs @ ys) < 2 ^ 32"
  shows "pick h (xs @ ys) key = pick h xs key \<or> (\<exists>s \<in> set ys. pick h (xs @ ys) key = Some s)"
  using assms(2)
proof (induction ys rule: rev_induct)
  case Nil
  then show ?case by simp
next
  case (snoc y ys)
  have "pick h ((xs @ ys) @ [y]) key = pick h (xs @ ys) key \<or>
        pick h ((xs @ ys) @ [y]) key = Some y"
    using assms(1) snoc.prems by (intro pick_snoc) simp_all
  with snoc show ?case by auto
qed

text \<open>Removing one slot moves only the data of the removed slot and of the last one.\<close>

lemma pick_swap_remove:
  assumes "Suc (length xs) < 2 ^ 32" and "2 \<le> length xs" and "i < length xs"
    and "h key (as_u32 (length xs)) = Some j"
    and "unat j \<noteq> i" and "unat j \<noteq> length xs - 1"
  shows "pick h (swap_remove xs i) key = pick h xs key"
proof -
  obtain m where m: "length xs = Suc m" "0 < m" using assms(2) by (cases "length xs") auto
  have "unat j < length xs"
    using h_index [of "length xs" key] assms(1,3,4) m(1) by auto
  then have jm: "unat j < m" using m assms(6) by simp
  have "Suc m < 2 ^ 32" using assms(1) m by simp
  note inc = as_u32_inc [OF this]
  have "h key (as_u32 m) = Some j"
    using h_grow [OF inc(3) [OF m(2)] inc(2), of key] assms(4) m jm inc(1)
      unat_as_u32_small [of m] assms(1) by auto
  then show ?thesis
    using assms(3-5) m jm by (simp add: pick_def swap_remove_nth)
qed

end

lemmas slot_at_total = jump_back.pick_total [where ?'a = slot, folded slot_at_def]
lemmas slot_at_append = jump_back.pick_append [where ?'a = slot, folded slot_at_def]
lemmas slot_at_swap_remove = jump_back.pick_swap_remove [where ?'a = slot, folded slot_at_def]

lemma slot_at_empty [simp]: "slot_at [] key = None"
  by (simp add: slot_at_def jump_back.pick_empty)

lemma native_join:
  assumes "slots r \<noteq> []" and "length (slots r) + unat c < 2 ^ 32"
  shows "native (apply_join r n c) i = native r i \<or>
         (\<exists>t. native (apply_join r n c) i = Some (n, t))"
  using slot_at_append [of "slots r" "map (\<lambda>t. (n, ThreadId (word_of_nat t))) [0..<unat c]"] assms
  by (auto simp: native_def apply_join_def)

section \<open>Weights and node ids\<close>

lemma weights_loop_inv:
  assumes "distinct order" and "dom counts = set order"
  shows "case weights_loop xs order counts of (order', counts') \<Rightarrow>
           distinct order' \<and> set order' = set order \<union> fst ` set xs \<and> dom counts' = set order'"
  using assms
proof (induction xs order counts rule: weights_loop.induct)
  case (1 order counts)
  then show ?case by simp
next
  case (2 node t rest order counts)
  show ?case
  proof (cases "counts node")
    case None
    then have "node \<notin> set order" using "2.prems" by auto
    then have "distinct (order @ [node])" and "dom (counts(node \<mapsto> 1)) = set (order @ [node])"
      using "2.prems" by simp_all
    from "2.IH"(1) [OF None this] None show ?thesis
      by (simp add: fun_upd_def split: prod.splits)
  next
    case (Some c)
    then have node: "node \<in> set order" using "2.prems" by auto
    then have "dom (counts(node \<mapsto> c + 1)) = set order"
      using "2.prems" by auto
    from "2.IH"(2) [OF Some "2.prems"(1) this] Some node show ?thesis
      by (simp add: insert_absorb fun_upd_def split: prod.splits)
  qed
qed

lemma node_ids_order: "node_ids r = fst (weights_loop (slots r) [] Map.empty)"
  by (simp add: node_ids_def weights_def case_prod_beta o_def)

lemma node_ids_props: "distinct (node_ids r)" "set (node_ids r) = fst ` set (slots r)"
  using weights_loop_inv [of "[]" Map.empty "slots r"] by (auto simp: node_ids_order split: prod.splits)

lemma contains_iff: "contains r n \<longleftrightarrow> n \<in> fst ` set (slots r)"
  by (force simp: contains_def list_ex_iff)

section \<open>Replica sets\<close>

text \<open>What the loops keep: distinct nodes of the ring, at most \<open>target\<close>, the first one fixed.\<close>

definition chosen_ok :: "node_id set \<Rightarrow> nat \<Rightarrow> node_id \<Rightarrow> node_id list \<Rightarrow> bool" where
  "chosen_ok nodes target first cs \<longleftrightarrow>
     cs \<noteq> [] \<and> hd cs = first \<and> distinct cs \<and> set cs \<subseteq> nodes \<and> length cs \<le> target"

lemma chosen_ok_push:
  "chosen_ok N t f cs \<Longrightarrow> n \<in> N \<Longrightarrow> length cs < t \<Longrightarrow>
   chosen_ok N t f (if n \<in> set cs then cs else cs @ [n])"
  by (auto simp: chosen_ok_def)

lemma salted_ok:
  assumes "xs \<noteq> []" and "length xs < 2 ^ 32" and "chosen_ok (fst ` set xs) target f cs"
  shows "\<exists>cs'. salted xs base target cap a salt cs = Some cs' \<and> chosen_ok (fst ` set xs) target f cs'"
  using assms
proof (induction xs base target cap a salt cs rule: salted.induct)
  case (1 xs base target cap a salt cs)
  show ?case
  proof (cases "length cs < target \<and> a < cap")
    case False
    with "1.prems" show ?thesis by (subst salted.simps) auto
  next
    case True
    obtain node t where s: "slot_at xs (base + salt * 0x9E3779B97F4A7C15) = Some (node, t)"
        and "(node, t) \<in> set xs"
      using slot_at_total [OF "1.prems"(1,2)] by (metis surj_pair)
    then have "node \<in> fst ` set xs" by force
    then have "chosen_ok (fst ` set xs) target f (if node \<in> set cs then cs else cs @ [node])"
      using "1.prems"(3) True by (intro chosen_ok_push) simp_all
    from "1.IH" [OF True s refl "1.prems"(1,2) this] s True show ?thesis
      by (subst salted.simps) simp
  qed
qed

lemma sweep_ok:
  assumes "chosen_ok N t f cs" and "set ns \<subseteq> N"
  shows "chosen_ok N t f (sweep t ns cs)"
  using assms
proof (induction t ns cs rule: sweep.induct)
  case (1 t cs)
  then show ?case by simp
next
  case (2 t n ns cs)
  then show ?case
    using chosen_ok_push [OF "2.prems"(1), of n] by (auto simp: chosen_ok_def)
qed

lemma sweep_complete:
  "length (sweep t ns cs) = t \<or> set cs \<union> set ns \<subseteq> set (sweep t ns cs)"
proof (induction t ns cs rule: sweep.induct)
  case (1 t cs)
  then show ?case by simp
next
  case (2 t n ns cs)
  then show ?case by (auto split: if_splits)
qed

lemma replicas_ok:
  assumes ne: "slots r \<noteq> []" and len: "length (slots r) < 2 ^ 32" and n: "n \<noteq> 0"
  shows "\<exists>cs. replicas r i n = Some cs \<and> distinct cs \<and> set cs \<subseteq> set (node_ids r) \<and>
           length cs = min n (length (node_ids r)) \<and> map_option fst (native r i) = Some (hd cs)"
proof -
  let ?N = "fst ` set (slots r)" and ?t = "min n (length (node_ids r))"
  note ids = node_ids_props [of r]
  obtain node th where s: "slot_at (slots r) (hash_key i) = Some (node, th)"
      and mem: "(node, th) \<in> set (slots r)"
    using slot_at_total [OF ne len] by (metis surj_pair)
  have nid: "node_ids r \<noteq> []" using ids(2) ne by (metis image_is_empty set_empty)
  have "node \<in> ?N" using mem by force
  then have start: "chosen_ok ?N ?t node [node]"
    using nid n by (cases "node_ids r") (auto simp: chosen_ok_def)
  then obtain cs where cs: "salted (slots r) (hash_key i) ?t (length (slots r) * 3 + 32) 0 1 [node] = Some cs"
      and ok: "chosen_ok ?N ?t node cs"
    using salted_ok [OF ne len start] by blast
  define out where "out = (if length cs < ?t then sweep ?t (node_ids r) cs else cs)"
  have ok': "chosen_ok ?N ?t node out"
    using ok sweep_ok [OF ok, of "node_ids r"] ids(2) by (simp add: out_def)
  have "length out = ?t"
  proof (cases "length cs < ?t")
    case False
    with ok have "length cs = ?t" unfolding chosen_ok_def by linarith
    then show ?thesis by (simp add: out_def)
  next
    case True
    have "?t \<le> length out" if "set (node_ids r) \<subseteq> set out"
      using that ids(1) by (metis card_length card_mono distinct_card finite_set min.coboundedI2 order_trans)
    with True sweep_complete [of ?t "node_ids r" cs] ok' show ?thesis
      by (auto simp: out_def chosen_ok_def)
  qed
  moreover have "replicas r i n = Some out"
    using ne n s cs by (simp add: replicas_def Let_def out_def)
  ultimately show ?thesis
    using ok' ids s by (auto simp: chosen_ok_def native_def)
qed

section \<open>Rebuilding a ring from its weights\<close>

lemma slots_from_members:
  "slots (from_members ms) =
     concat (map (\<lambda>(n, c). map (\<lambda>t. (n, ThreadId (word_of_nat t))) [0..<unat c]) ms)"
proof -
  have "slots (fold (\<lambda>(n, c) r. apply_join r n c) ms r) = slots r @
     concat (map (\<lambda>(n, c). map (\<lambda>t. (n, ThreadId (word_of_nat t))) [0..<unat c]) ms)" for r
    by (induction ms arbitrary: r) (auto simp: apply_join_def)
  then show ?thesis by (simp add: from_members_def ring_empty_def)
qed

lemma weights_loop_append:
  "weights_loop (xs @ ys) order counts =
     (case weights_loop xs order counts of (order', counts') \<Rightarrow> weights_loop ys order' counts')"
  by (induction xs order counts rule: weights_loop.induct) (auto simp: fun_upd_def split: option.splits)

lemma weights_loop_known:
  assumes "counts n = Some c"
  shows "weights_loop (map (\<lambda>t. (n, f t)) ts) order counts =
           (order, counts(n \<mapsto> c + word_of_nat (length ts)))"
  using assms
proof (induction ts arbitrary: counts c)
  case Nil
  then show ?case by (auto simp: fun_upd_idem)
next
  case (Cons t ts)
  from Cons.IH [of "counts(n \<mapsto> c + 1)" "c + 1"] Cons.prems show ?case
    by (simp add: add.assoc fun_upd_def if_distrib cong: if_cong)
qed

lemma weights_loop_new:
  assumes "counts n = None" and "0 < c"
  shows "weights_loop (map (\<lambda>t. (n, f t)) [0..<unat (c :: u32)]) order counts =
           (order @ [n], counts(n \<mapsto> c))"
proof -
  have pos: "0 < unat c" using assms(2) by (simp add: word_less_nat_alt)
  then have e: "[0..<unat c] = 0 # [1..<unat c]" by (simp add: upt_rec)
  have "1 + word_of_nat (unat c - 1) = c"
    using pos by (metis Suc_diff_1 of_nat_Suc of_nat_unat ucast_id)
  with e assms(1) show ?thesis
    using weights_loop_known [of "counts(n \<mapsto> 1)" n 1 f "[1..<unat c]" "order @ [n]"] by simp
qed

lemma weights_loop_members:
  assumes "distinct (map fst ms)" and "\<forall>(n, c) \<in> set ms. 0 < c \<and> counts n = None"
  shows "\<exists>counts'.
    weights_loop (concat (map (\<lambda>(n, c). map (\<lambda>t. (n, ThreadId (word_of_nat t))) [0..<unat c]) ms))
       order counts = (order @ map fst ms, counts') \<and>
    (\<forall>(n, c) \<in> set ms. counts' n = Some c) \<and>
    (\<forall>n. n \<notin> fst ` set ms \<longrightarrow> counts' n = counts n)"
  using assms
proof (induction ms arbitrary: order counts)
  case Nil
  then show ?case by simp
next
  case (Cons m ms)
  obtain n c where m: "m = (n, c)" by (cases m)
  have "\<forall>(n', c') \<in> set ms. 0 < c' \<and> (counts(n \<mapsto> c)) n' = None"
    using Cons.prems m by force
  with Cons.IH [of "counts(n \<mapsto> c)" "order @ [n]"] Cons.prems m obtain counts' where
    w: "weights_loop (concat (map (\<lambda>(n, c). map (\<lambda>t. (n, ThreadId (word_of_nat t))) [0..<unat c]) ms))
         (order @ [n]) (counts(n \<mapsto> c)) = ((order @ [n]) @ map fst ms, counts')"
    and c1: "\<forall>(n, c) \<in> set ms. counts' n = Some c"
    and c2: "\<forall>k. k \<notin> fst ` set ms \<longrightarrow> counts' k = (counts(n \<mapsto> c)) k"
    by (auto simp: fun_upd_def)
  have "counts' n = Some c" using c2 Cons.prems m by force
  with w c1 c2 Cons.prems m show ?case
    by (auto simp: weights_loop_append weights_loop_new)
qed

lemma weights_from_members:
  assumes "distinct (map fst ms)" and "\<forall>(n, c) \<in> set ms. 0 < c"
  shows "weights (from_members ms) = ms"
proof -
  obtain counts where
    "weights_loop (slots (from_members ms)) [] Map.empty = (map fst ms, counts)"
    and c: "\<forall>(n, c) \<in> set ms. counts n = Some c"
    using weights_loop_members [OF assms(1), of Map.empty "[]"] assms(2)
    by (auto simp: slots_from_members)
  then show ?thesis
    by (auto simp: weights_def o_def intro!: map_idI)
qed

section \<open>Properties\<close>

text \<open>On a non-empty ring \<open>native\<close> never panics: every datum has an owner, and the owner is one
  of the ring's (node, thread) slots.\<close>

theorem native_is_a_slot:
  assumes "slots r \<noteq> []" and "length (slots r) < 2 ^ 32"
  shows "\<exists>s \<in> set (slots r). native r i = Some s"
  unfolding native_def by (rule slot_at_total [OF assms])

theorem native_is_a_slot_witness:
  "\<exists>s \<in> set (slots (from_members [(NodeId 1, 2)])). native (from_members [(NodeId 1, 2)]) (DatumId 7) = Some s"
  by (rule native_is_a_slot) (simp_all add: slots_from_members upt_rec)

text \<open>C23: A join re-homes data only onto the joining node: after \<open>apply_join\<close> a datum's owner is
  the old one or a thread of the joiner.\<close>

theorem join_moves_only_to_joiner:
  assumes "slots r \<noteq> []" and "length (slots r) + unat c < 2 ^ 32"
  shows "native (apply_join r n c) i = native r i \<or> (\<exists>t. native (apply_join r n c) i = Some (n, t))"
  by (rule native_join [OF assms])

theorem join_moves_only_to_joiner_witness:
  "native (apply_join (from_members [(NodeId 1, 2)]) (NodeId 2) 1) (DatumId 7) =
     native (from_members [(NodeId 1, 2)]) (DatumId 7) \<or>
   (\<exists>t. native (apply_join (from_members [(NodeId 1, 2)]) (NodeId 2) 1) (DatumId 7) = Some (NodeId 2, t))"
  by (rule join_moves_only_to_joiner) (simp_all add: slots_from_members upt_rec)

text \<open>\<open>apply_leave\<close>, which swaps slots with the last one while it walks the list, removes
  exactly the leaving node's slots, and keeps every other slot as often as it was there.\<close>

theorem leave_removes_exactly_the_node:
  "mset (slots (apply_leave r n)) = filter_mset (\<lambda>s. fst s \<noteq> n) (mset (slots r)) \<and>
   \<not> contains (apply_leave r n) n \<and>
   (\<forall>m. m \<noteq> n \<longrightarrow> contains (apply_leave r n) m = contains r m)"
proof -
  have "set (slots (apply_leave r n)) = {s \<in> set (slots r). fst s \<noteq> n}"
    using arg_cong [OF mset_apply_leave [of r n], of set_mset] by simp
  then show ?thesis by (force simp: mset_apply_leave contains_iff)
qed

theorem leave_removes_exactly_the_node_witness:
  "contains (apply_leave (from_members [(NodeId 1, 2), (NodeId 2, 1)]) (NodeId 1)) (NodeId 2)"
proof -
  have "contains (from_members [(NodeId 1, 2), (NodeId 2, 1)]) (NodeId 2)"
    by (simp add: contains_def slots_from_members upt_rec)
  then show ?thesis
    using leave_removes_exactly_the_node [of "from_members [(NodeId 1, 2), (NodeId 2, 1)]" "NodeId 1"]
    by simp
qed

text \<open>Removing one slot by swap-with-last re-homes only data of the removed slot and of the last
  slot: any other datum keeps its owner.\<close>

theorem leave_of_one_slot_moves_little:
  assumes "Suc (length xs) < 2 ^ 32" and "2 \<le> length xs" and "i < length xs"
    and "hash key (as_u32 (length xs)) = Some j" and "unat j \<noteq> i" and "unat j \<noteq> length xs - 1"
  shows "slot_at (swap_remove xs i) key = slot_at xs key"
  by (rule slot_at_swap_remove [OF assms])

theorem leave_of_one_slot_moves_little_witness:
  "slot_at (swap_remove [(NodeId 1, ThreadId 0), (NodeId 2, ThreadId 0), (NodeId 3, ThreadId 0)] 1) 0 =
   slot_at [(NodeId 1, ThreadId 0), (NodeId 2, ThreadId 0), (NodeId 3, ThreadId 0)] 0"
  (is "slot_at (swap_remove ?xs 1) 0 = _")
proof (rule leave_of_one_slot_moves_little)
  show "hash 0 (as_u32 (length ?xs)) = Some 0" by code_simp
qed simp_all

text \<open>C24: The replica set of a datum: \<open>replicas\<close> always returns, its nodes are distinct members of
  the ring, there are as many as asked for or as the ring has, and the first is the owner's node.\<close>

theorem replicas_are_distinct_members:
  assumes "slots r \<noteq> []" and "length (slots r) < 2 ^ 32" and "n \<noteq> 0"
  shows "\<exists>cs. replicas r i n = Some cs \<and> distinct cs \<and> set cs \<subseteq> set (node_ids r) \<and>
           length cs = min n (length (node_ids r)) \<and> map_option fst (native r i) = Some (hd cs)"
  by (rule replicas_ok [OF assms])

theorem replicas_are_distinct_members_witness:
  "\<exists>cs. replicas (from_members [(NodeId 1, 2), (NodeId 2, 1)]) (DatumId 9) 2 = Some cs \<and> distinct cs \<and>
     set cs \<subseteq> set (node_ids (from_members [(NodeId 1, 2), (NodeId 2, 1)])) \<and>
     length cs = min 2 (length (node_ids (from_members [(NodeId 1, 2), (NodeId 2, 1)]))) \<and>
     map_option fst (native (from_members [(NodeId 1, 2), (NodeId 2, 1)]) (DatumId 9)) = Some (hd cs)"
  by (rule replicas_are_distinct_members) (simp_all add: slots_from_members upt_rec)

text \<open>A ring built from a member list reports exactly that list as its weights.\<close>

theorem weights_of_members:
  assumes "distinct (map fst ms)" and "\<forall>(n, c) \<in> set ms. 0 < c"
  shows "weights (from_members ms) = ms"
  by (rule weights_from_members [OF assms])

theorem weights_of_members_witness:
  "weights (from_members [(NodeId 1, 2), (NodeId 2, 1)]) = [(NodeId 1, 2), (NodeId 2, 1)]"
  by (rule weights_of_members) simp_all

text \<open>After a leave the weights no longer determine the placement: rebuilding the ring from its
  own weights, as a node that installs them does, gives a different slot list.\<close>

theorem weights_forget_placement:
  "from_members (weights (apply_leave (from_members [(NodeId 1, 1), (NodeId 2, 1), (NodeId 3, 2)]) (NodeId 1)))
     \<noteq> apply_leave (from_members [(NodeId 1, 1), (NodeId 2, 1), (NodeId 3, 2)]) (NodeId 1)"
  by code_simp

end
