(* ===== verification/Sequencer.thy ===== *)
theory Sequencer
  imports Ids Ring "HOL-Library.AList"
begin

text \<open>
  The epoch sequencer (\<open>seisin-gossip/src/sequencer.rs\<close>): who may number ring mutations, and
  \<open>MutationLog\<close>, which buffers numbered mutations and releases them without gaps. The
  \<open>BTreeMap\<close> of pending mutations is an association list; only keyed access is used.
\<close>

definition is_sequencer :: "node_id \<Rightarrow> node_id list \<Rightarrow> bool" where
  "is_sequencer self_id alive \<longleftrightarrow>
     (case alive of [] \<Rightarrow> False | a # rest \<Rightarrow> fold min rest a = self_id)"

datatype ring_mutation = Join (rm_node: node_id) (rm_threads: u32) | Leave (rm_node: node_id)

record mutation_log =
  applied_epoch :: u64
  pending :: "(u64 \<times> ring_mutation) list"

definition log_new :: mutation_log where
  "log_new = \<lparr>applied_epoch = 0, pending = []\<rparr>"

definition log_record :: "mutation_log \<Rightarrow> u64 \<Rightarrow> ring_mutation \<Rightarrow> mutation_log" where
  "log_record l epoch m =
     (if epoch > applied_epoch l then l\<lparr>pending := AList.update epoch m (pending l)\<rparr> else l)"

lemma delete_shorter: "map_of al k = Some v \<Longrightarrow> length (AList.delete k al) < length al"
proof -
  assume "map_of al k = Some v"
  then have "(k, v) \<in> set al" by (rule map_of_SomeD)
  then show ?thesis
    unfolding AList.delete_eq by (rule length_filter_less) simp
qed

function drain_loop ::
    "u64 \<Rightarrow> (u64 \<times> ring_mutation) list \<Rightarrow> ring_mutation list \<Rightarrow>
     ring_mutation list \<times> u64 \<times> (u64 \<times> ring_mutation) list" where
  "drain_loop applied pend ready =
     (let next_epoch = applied + 1
      in case map_of pend next_epoch of
           Some m \<Rightarrow> drain_loop next_epoch (AList.delete next_epoch pend) (ready @ [m])
         | None \<Rightarrow> (ready, applied, pend))"
  by pat_completeness auto

termination
  by (relation "measure (\<lambda>(applied, pend, ready). length pend)") (auto simp: delete_shorter)

declare drain_loop.simps [simp del]

definition drain_applicable :: "mutation_log \<Rightarrow> ring_mutation list \<times> mutation_log" where
  "drain_applicable l =
     (let (ready, applied, pend) = drain_loop (applied_epoch l) (pending l) []
      in (ready, \<lparr>applied_epoch = applied, pending = pend\<rparr>))"

section \<open>The sequencer is the lowest live node\<close>

lemma fold_min_Min: "fold min xs a = Min (set (a # xs))" for a :: "'a::linorder"
  using Min.set_eq_fold [of a xs] by simp

lemma is_sequencer_iff: "is_sequencer n alive \<longleftrightarrow> alive \<noteq> [] \<and> Min (set alive) = n"
  by (simp add: is_sequencer_def fold_min_Min split: list.splits)

section \<open>Draining\<close>

text \<open>
  The history of a log: records and drains in any order. The mutation of an epoch is fixed by
  whoever sequenced it, \<open>m e\<close>; gossip may deliver it late, early or several times.
\<close>

datatype log_event = Rec u64 | Drain

fun log_run :: "(u64 \<Rightarrow> ring_mutation) \<Rightarrow> log_event list \<Rightarrow> mutation_log \<Rightarrow> ring_mutation list
                \<Rightarrow> mutation_log \<times> ring_mutation list" where
  "log_run m [] l out = (l, out)"
| "log_run m (Rec e # es) l out = log_run m es (log_record l e (m e)) out"
| "log_run m (Drain # es) l out =
     (let (ready, l') = drain_applicable l in log_run m es l' (out @ ready))"

definition epochs_upto :: "u64 \<Rightarrow> u64 list" where
  "epochs_upto a = map word_of_nat [1..<Suc (unat a)]"

definition log_inv ::
    "(u64 \<Rightarrow> ring_mutation) \<Rightarrow> u64 set \<Rightarrow> mutation_log \<Rightarrow> ring_mutation list \<Rightarrow> bool" where
  "log_inv m seen l out \<longleftrightarrow>
     out = map m (epochs_upto (applied_epoch l)) \<and>
     set (epochs_upto (applied_epoch l)) \<subseteq> seen \<and>
     map_of (pending l) = (\<lambda>e. if e \<in> seen \<and> applied_epoch l < e then Some (m e) else None)"

lemma log_inv_new: "log_inv m {} log_new []"
  by (simp add: log_inv_def log_new_def epochs_upto_def)

lemma log_inv_record:
  assumes "log_inv m seen l out"
  shows "log_inv m (insert e seen) (log_record l e (m e)) out"
  using assms by (auto simp: log_inv_def log_record_def update_conv' fun_eq_iff)

lemma epochs_upto_Suc: "a < a + 1 \<Longrightarrow> epochs_upto (a + 1) = epochs_upto a @ [a + 1]"
proof -
  assume "a < a + 1"
  then have "unat (a + 1) = Suc (unat a)"
    by (metis add.commute unatSuc word_not_simps(1))
  then show ?thesis by (simp add: epochs_upto_def add.commute)
qed

lemma log_inv_step:
  assumes "log_inv m seen l out" and "map_of (pending l) (applied_epoch l + 1) = Some x"
  shows "log_inv m seen \<lparr>applied_epoch = applied_epoch l + 1,
           pending = AList.delete (applied_epoch l + 1) (pending l)\<rparr> (out @ [x])"
proof -
  let ?a = "applied_epoch l"
  from assms have seen: "?a + 1 \<in> seen" and less: "?a < ?a + 1" and x: "x = m (?a + 1)"
    by (auto simp: log_inv_def split: if_splits)
  have "?a + 1 < e \<longleftrightarrow> ?a < e \<and> e \<noteq> ?a + 1" for e
    using less less_inc_imp_less_eq by (metis less_inc_iff linorder_neqE not_less_iff_gr_or_eq)
  with assms(1) seen x show ?thesis
    by (auto simp: log_inv_def epochs_upto_Suc [OF less] delete_conv' fun_eq_iff)
qed

lemma drain_loop_inv:
  assumes "log_inv m seen \<lparr>applied_epoch = a, pending = p\<rparr> (out @ ready)"
    and "drain_loop a p ready = (ready', a', p')"
  shows "log_inv m seen \<lparr>applied_epoch = a', pending = p'\<rparr> (out @ ready') \<and>
         map_of p' (a' + 1) = None"
  using assms
proof (induction a p ready rule: drain_loop.induct)
  case (1 a p ready)
  show ?case
  proof (cases "map_of p (a + 1)")
    case None
    with "1.prems" show ?thesis by (simp add: drain_loop.simps [of a p ready] Let_def)
  next
    case (Some x)
    have "log_inv m seen \<lparr>applied_epoch = a + 1, pending = AList.delete (a + 1) p\<rparr> (out @ ready @ [x])"
      using log_inv_step [OF "1.prems"(1), of x] Some by simp
    with "1.IH" [OF refl Some] "1.prems"(2) Some show ?thesis
      by (simp add: drain_loop.simps [of a p ready] Let_def)
  qed
qed

lemma log_inv_drain:
  assumes "log_inv m seen l out" and "drain_applicable l = (ready, l')"
  shows "log_inv m seen l' (out @ ready) \<and> map_of (pending l') (applied_epoch l' + 1) = None"
proof -
  obtain r a p where d: "drain_loop (applied_epoch l) (pending l) [] = (r, a, p)"
    by (metis prod_cases3)
  have "log_inv m seen \<lparr>applied_epoch = applied_epoch l, pending = pending l\<rparr> (out @ [])"
    using assms(1) by (cases l) simp
  from drain_loop_inv [OF this d] d assms(2) show ?thesis
    by (auto simp: drain_applicable_def)
qed

fun seen_in :: "log_event list \<Rightarrow> u64 set" where
  "seen_in [] = {}"
| "seen_in (Rec e # es) = insert e (seen_in es)"
| "seen_in (Drain # es) = seen_in es"

lemma log_run_inv:
  assumes "log_inv m seen l out" and "log_run m es l out = (l', out')"
  shows "log_inv m (seen \<union> seen_in es) l' out'"
  using assms
proof (induction es arbitrary: seen l out rule: seen_in.induct)
  case 1
  then show ?case by simp
next
  case (2 e es)
  from "2.IH" [OF log_inv_record [OF "2.prems"(1), of e]] "2.prems"(2) show ?case by simp
next
  case (3 es)
  obtain ready l1 where d: "drain_applicable l = (ready, l1)" by (cases "drain_applicable l")
  from "3.IH" [of seen l1 "out @ ready"] log_inv_drain [OF "3.prems"(1) d] "3.prems"(2) d
  show ?case by simp
qed

lemma log_run_append:
  "log_run m (es @ fs) l out = (let (l', out') = log_run m es l out in log_run m fs l' out')"
  by (induction m es l out rule: log_run.induct) (auto split: prod.splits)

text \<open>The number of gapless epochs a set of deliveries makes applicable.\<close>

lemma gapless_unique:
  assumes "set (epochs_upto a) \<subseteq> S" and "a < a + 1 \<longrightarrow> a + 1 \<notin> S"
    and "set (epochs_upto b) \<subseteq> S" and "b < b + 1 \<longrightarrow> b + 1 \<notin> S"
  shows "a = b"
proof -
  have mem: "e \<in> set (epochs_upto x) \<longleftrightarrow> 0 < e \<and> e \<le> x" for e x
  proof -
    have "e \<in> set (epochs_upto x) \<longleftrightarrow> (\<exists>k. 1 \<le> k \<and> k \<le> unat x \<and> e = word_of_nat k)"
      by (auto simp: epochs_upto_def)
    also have "\<dots> \<longleftrightarrow> 1 \<le> unat e \<and> unat e \<le> unat x"
    proof
      assume "\<exists>k. 1 \<le> k \<and> k \<le> unat x \<and> e = word_of_nat k"
      then obtain k where k: "1 \<le> k" "k \<le> unat x" "e = word_of_nat k" by blast
      have "k < 2 ^ 64" using k(2) unsigned_less [of x, where ?'a = nat] by simp
      with k show "1 \<le> unat e \<and> unat e \<le> unat x" by (simp add: unat_of_nat)
    next
      assume "1 \<le> unat e \<and> unat e \<le> unat x"
      then show "\<exists>k. 1 \<le> k \<and> k \<le> unat x \<and> e = word_of_nat k"
        by (intro exI [of _ "unat e"]) simp
    qed
    finally show ?thesis by (simp add: word_less_nat_alt word_le_nat_alt Suc_le_eq)
  qed
  have "\<not> x < y" if "x < x + 1 \<longrightarrow> x + 1 \<notin> S" "set (epochs_upto y) \<subseteq> S" for x y
  proof
    assume "x < y"
    then have "x + 1 \<le> y" by (rule inc_le)
    moreover from \<open>x < y\<close> have "x < x + 1"
      by (metis (no_types, lifting) add_cancel_left_right inc_i leI nless_le olen_add_eqv
          word_less_1)
    ultimately have "x + 1 \<in> set (epochs_upto y)" using word_gt_0 by (fastforce simp: mem)
    with that \<open>x < x + 1\<close> show False by blast
  qed
  from this [OF assms(2,3)] this [OF assms(4,1)] show ?thesis by simp
qed

lemma drained_agree:
  assumes "log_run m (es @ [Drain]) log_new [] = (l, out)"
    and "log_run m (fs @ [Drain]) log_new [] = (l', out')"
    and "seen_in es = seen_in fs"
  shows "out = out' \<and> applied_epoch l = applied_epoch l'"
proof -
  have drained: "\<exists>a. out = map m (epochs_upto a) \<and> a = applied_epoch l \<and>
      set (epochs_upto a) \<subseteq> seen_in es \<and> (a < a + 1 \<longrightarrow> a + 1 \<notin> seen_in es)"
    if run: "log_run m (es @ [Drain]) log_new [] = (l, out)" for es l out
  proof -
    obtain l1 out1 where r1: "log_run m es log_new [] = (l1, out1)" by fastforce
    obtain ready where d: "drain_applicable l1 = (ready, l)" and out: "out = out1 @ ready"
      using run r1 by (auto simp: log_run_append split: prod.splits)
    have "log_inv m (seen_in es) l1 out1"
      using log_run_inv [OF log_inv_new r1] by simp
    from log_inv_drain [OF this d] out show ?thesis
      by (auto simp: log_inv_def split: if_splits)
  qed
  from drained [OF assms(1)] drained [OF assms(2)] assms(3) show ?thesis
    using gapless_unique by metis
qed

section \<open>Properties\<close>

text \<open>Of the nodes of one view exactly one may number ring mutations: a non-empty list of live
  members has one sequencer, and it is one of them.\<close>

theorem one_sequencer_per_view:
  assumes "alive \<noteq> []"
  shows "\<exists>!n. is_sequencer n alive \<and> n \<in> set alive"
  using assms by (auto simp: is_sequencer_iff intro!: Min_in)

theorem one_sequencer_per_view_witness:
  "\<exists>!n. is_sequencer n [NodeId 3, NodeId 1] \<and> n \<in> set [NodeId 3, NodeId 1]"
  by (rule one_sequencer_per_view) simp

text \<open>Whatever order, delay or repetition gossip delivers numbered mutations in, the log releases
  them in epoch order without gaps: what has been applied is the list of mutations 1 to the applied
  epoch, each once, all of them delivered.\<close>

theorem mutations_apply_in_epoch_order:
  assumes "log_run m es log_new [] = (l, out)"
  shows "out = map m (epochs_upto (applied_epoch l)) \<and> set (epochs_upto (applied_epoch l)) \<subseteq> seen_in es"
  using log_run_inv [OF log_inv_new assms] by (simp add: log_inv_def)

theorem mutations_apply_in_epoch_order_witness:
  "\<exists>l out. log_run (\<lambda>e. Join (NodeId e) 1) [Rec 2, Drain, Rec 1, Drain] log_new [] = (l, out) \<and>
     out = map (\<lambda>e. Join (NodeId e) 1) (epochs_upto (applied_epoch l)) \<and>
     set (epochs_upto (applied_epoch l)) \<subseteq> seen_in [Rec 2, Drain, Rec 1, Drain]"
proof -
  obtain l out where r: "log_run (\<lambda>e. Join (NodeId e) 1) [Rec 2, Drain, Rec 1, Drain] log_new [] = (l, out)"
    by fastforce
  from mutations_apply_in_epoch_order [OF this] r show ?thesis by blast
qed

text \<open>Two nodes that have been delivered the same mutations and have drained have applied the same
  sequence of ring mutations, so their rings agree.\<close>

theorem drained_logs_agree:
  assumes "log_run m (es @ [Drain]) log_new [] = (l, out)"
    and "log_run m (fs @ [Drain]) log_new [] = (l', out')"
    and "seen_in es = seen_in fs"
  shows "out = out' \<and> applied_epoch l = applied_epoch l'"
  by (rule drained_agree [OF assms])

theorem drained_logs_agree_witness:
  "snd (log_run (\<lambda>e. Leave (NodeId e)) ([Rec 2, Rec 1] @ [Drain]) log_new []) =
   snd (log_run (\<lambda>e. Leave (NodeId e)) ([Rec 1, Drain, Rec 2, Rec 2] @ [Drain]) log_new [])"
proof -
  obtain l out l' out' where r: "log_run (\<lambda>e. Leave (NodeId e)) ([Rec 2, Rec 1] @ [Drain]) log_new [] = (l, out)"
    "log_run (\<lambda>e. Leave (NodeId e)) ([Rec 1, Drain, Rec 2, Rec 2] @ [Drain]) log_new [] = (l', out')"
    by fastforce
  from drained_logs_agree [OF r] r show ?thesis by (simp add: insert_commute)
qed

end
