(* ===== verification/Gossip_Wire.thy ===== *)
theory Gossip_Wire
  imports Wire_Prims Membership Sequencer
begin

text \<open>
  The gossip wire, \<open>seisin-gossip/src/wire.rs\<close>: member updates, epoch-tagged ring mutations
  and the three gossip messages. A list item is length-prefixed and decoded on its own slice, so
  trailing bytes inside an item (a newer member update, say) or after a message are ignored.
\<close>

definition STATUS_ALIVE :: u8 where "STATUS_ALIVE = 0"
definition STATUS_SUSPECT :: u8 where "STATUS_SUSPECT = 1"
definition STATUS_DEAD :: u8 where "STATUS_DEAD = 2"

lemmas status_tags = STATUS_ALIVE_def STATUS_SUSPECT_def STATUS_DEAD_def

definition encode_string :: "rstring \<Rightarrow> bytes" where
  "encode_string s = u32_to_le (as_u32 (length s)) @ s"

definition decode_string :: "rstring taker" where
  "decode_string =
     bindP (take_fixed 4 (\<lambda>off. Bail ''truncated string length prefix at offset {}'' [off]) u32_from_le) (\<lambda>len.
     bindP (take_fixed (unat len)
              (\<lambda>off. Bail ''truncated string body at offset {}: expected {} bytes'' [off, unat len])
              (\<lambda>bs. bs)) (\<lambda>bs.
     checkP (from_utf8 ''string was not valid utf8'' bs) returnP))"

definition status_tag :: "member_status \<Rightarrow> u8" where
  "status_tag s = (case s of Alive \<Rightarrow> STATUS_ALIVE | Suspect \<Rightarrow> STATUS_SUSPECT | Dead \<Rightarrow> STATUS_DEAD)"

definition role_tag :: "member_role \<Rightarrow> u8" where
  "role_tag r = (case r of Compute \<Rightarrow> 0 | Storage \<Rightarrow> 1)"

definition status_of_tag :: "u8 \<Rightarrow> member_status result" where
  "status_of_tag tag =
     (if tag = STATUS_ALIVE then Inr Alive else if tag = STATUS_SUSPECT then Inr Suspect
      else if tag = STATUS_DEAD then Inr Dead
      else Inl (Bail ''invalid member status tag byte: {}'' [unat tag]))"

definition role_of_tag :: "u8 \<Rightarrow> member_role result" where
  "role_of_tag tag =
     (if tag = 0 then Inr Compute else if tag = 1 then Inr Storage
      else Inl (Bail ''invalid member role tag byte: {}'' [unat tag]))"

definition encode_member_update :: "member_update \<Rightarrow> bytes" where
  "encode_member_update u =
     u64_to_le (node_raw (mu_node_id u)) @ u64_to_le (inc_raw (mu_incarnation u)) @
     [status_tag (mu_status u)] @ u32_to_le (mu_thread_count u) @ [role_tag (mu_role u)] @
     u32_to_le (mu_capacity_weight u) @ encode_string (mu_client_address u) @
     encode_string (mu_gossip_address u) @ encode_string (mu_store_address u) @ mu_log_id u"

text \<open>The three addresses and the log id, read from offset 26.\<close>

definition take_member_tail :: "(rstring \<times> rstring \<times> rstring \<times> bytes) taker" where
  "take_member_tail =
     bindP (contextP ''decoding client_address'' decode_string) (\<lambda>client.
     bindP (contextP ''decoding gossip_address'' decode_string) (\<lambda>gossip.
     bindP (contextP ''decoding store_address'' decode_string) (\<lambda>store.
     bindP (take_fixed 16 (\<lambda>_. Bail ''member update payload too short for a log id'' []) (\<lambda>bs. bs)) (\<lambda>log.
       returnP (client, gossip, store, log)))))"

definition decode_member_update :: "bytes \<Rightarrow> member_update result" where
  "decode_member_update buf =
     (if length buf < 21 then Inl (Bail ''member update payload too short: {} bytes'' [length buf])
      else
        let node = NodeId (u64_from_le (slice buf 0 8));
            inc = Incarnation (u64_from_le (slice buf 8 16))
        in bindE (status_of_tag (buf ! 16)) (\<lambda>status.
        let thread_count = u32_from_le (slice buf 17 21) in
        if length buf < 26 then Inl (Bail ''member update payload too short for role/weight'' [])
        else bindE (role_of_tag (buf ! 21)) (\<lambda>role.
        let weight = u32_from_le (slice buf 22 26)
        in bindE (run_from take_member_tail 26 buf) (\<lambda>(client, gossip, store, log).
          Inr \<lparr>mu_node_id = node, mu_incarnation = inc, mu_status = status,
               mu_client_address = client, mu_gossip_address = gossip, mu_thread_count = thread_count,
               mu_role = role, mu_capacity_weight = weight, mu_store_address = store,
               mu_log_id = log\<rparr>))))"

definition MUTATION_JOIN :: u8 where "MUTATION_JOIN = 0"
definition MUTATION_LEAVE :: u8 where "MUTATION_LEAVE = 1"

definition encode_ring_mutation_record :: "u64 \<Rightarrow> ring_mutation \<Rightarrow> bytes" where
  "encode_ring_mutation_record epoch m =
     u64_to_le epoch @ (case m of
         Join n tc \<Rightarrow> MUTATION_JOIN # u64_to_le (node_raw n) @ u32_to_le tc
       | Leave n \<Rightarrow> MUTATION_LEAVE # u64_to_le (node_raw n))"

definition decode_ring_mutation_record :: "bytes \<Rightarrow> (u64 \<times> ring_mutation) result" where
  "decode_ring_mutation_record buf =
     (if length buf < 17 then Inl (Bail ''ring mutation record too short: {} bytes'' [length buf])
      else
        let epoch = u64_from_le (slice buf 0 8); node = NodeId (u64_from_le (slice buf 9 17)) in
        if buf ! 8 = MUTATION_JOIN then
          (if length buf \<noteq> 21
           then Inl (Bail ''join mutation record length mismatch: expected 21 bytes, got {}'' [length buf])
           else Inr (epoch, Join node (u32_from_le (slice buf 17 21))))
        else if buf ! 8 = MUTATION_LEAVE then
          (if length buf \<noteq> 17
           then Inl (Bail ''leave mutation record length mismatch: expected 17 bytes, got {}'' [length buf])
           else Inr (epoch, Leave node))
        else Inl (Bail ''invalid ring mutation tag byte: {}'' [unat (buf ! 8)]))"

definition GOSSIP_PROTOCOL_VERSION :: u8 where "GOSSIP_PROTOCOL_VERSION = 3"
definition MSG_PING :: u8 where "MSG_PING = 0"
definition MSG_PING_REQ :: u8 where "MSG_PING_REQ = 1"
definition MSG_ACK :: u8 where "MSG_ACK = 2"

datatype gossip_message =
  Ping "member_update list" "(u64 \<times> ring_mutation) list"
| PingReq node_id "member_update list" "(u64 \<times> ring_mutation) list"
| GAck "member_update list" "(u64 \<times> ring_mutation) list"

definition encode_item :: "('a \<Rightarrow> bytes) \<Rightarrow> 'a \<Rightarrow> bytes" where
  "encode_item encode_one x = u32_to_le (as_u32 (length (encode_one x))) @ encode_one x"

definition encode_list :: "('a \<Rightarrow> bytes) \<Rightarrow> 'a list \<Rightarrow> bytes" where
  "encode_list encode_one items =
     u32_to_le (as_u32 (length items)) @ concat (map (encode_item encode_one) items)"

definition decode_item :: "(bytes \<Rightarrow> 'a result) \<Rightarrow> 'a taker" where
  "decode_item decode_one =
     bindP (take_fixed 4 (\<lambda>off. Bail ''truncated list item length at offset {}'' [off]) u32_from_le) (\<lambda>len.
     bindP (take_fixed (unat len)
              (\<lambda>off. Bail ''truncated list item body at offset {}: expected {} bytes'' [off, unat len])
              (\<lambda>bs. bs)) (\<lambda>bs.
     checkP (decode_one bs) returnP))"

definition decode_list :: "(bytes \<Rightarrow> 'a result) \<Rightarrow> 'a list taker" where
  "decode_list decode_one =
     bindP (take_fixed 4 (\<lambda>off. Bail ''truncated list count at offset {}'' [off]) u32_from_le) (\<lambda>count.
       take_n (decode_item decode_one) (unat count))"

definition encode_mutation_pair :: "u64 \<times> ring_mutation \<Rightarrow> bytes" where
  "encode_mutation_pair = (\<lambda>(epoch, m). encode_ring_mutation_record epoch m)"

fun gossip_body :: "gossip_message \<Rightarrow> bytes" where
  "gossip_body (Ping us ms) =
     MSG_PING # encode_list encode_member_update us @ encode_list encode_mutation_pair ms"
| "gossip_body (PingReq target us ms) =
     MSG_PING_REQ # u64_to_le (node_raw target) @
     encode_list encode_member_update us @ encode_list encode_mutation_pair ms"
| "gossip_body (GAck us ms) =
     MSG_ACK # encode_list encode_member_update us @ encode_list encode_mutation_pair ms"

definition encode_gossip_message :: "gossip_message \<Rightarrow> bytes" where
  "encode_gossip_message msg = GOSSIP_PROTOCOL_VERSION # gossip_body msg"

definition take_gossip_lists :: "(member_update list \<times> (u64 \<times> ring_mutation) list) taker" where
  "take_gossip_lists =
     bindP (decode_list decode_member_update) (\<lambda>us.
     bindP (decode_list decode_ring_mutation_record) (\<lambda>ms. returnP (us, ms)))"

definition decode_gossip_message :: "bytes \<Rightarrow> gossip_message result" where
  "decode_gossip_message buf = (case buf of
     [] \<Rightarrow> Inl (Bail ''empty gossip message payload'' [])
   | v # buf \<Rightarrow>
       if v \<noteq> GOSSIP_PROTOCOL_VERSION
       then Inl (Bail ''unsupported gossip protocol version {}; this node speaks version {}''
                   [unat v, unat GOSSIP_PROTOCOL_VERSION])
       else if buf = [] then Inl (Bail ''empty gossip message payload'' [])
       else if buf ! 0 = MSG_PING then
         bindE (run_from take_gossip_lists 1 buf) (\<lambda>(us, ms). Inr (Ping us ms))
       else if buf ! 0 = MSG_PING_REQ then
         (if length buf < 9
          then Inl (Bail ''ping_req payload too short for a target node_id: {} bytes'' [length buf])
          else bindE (run_from take_gossip_lists 9 buf) (\<lambda>(us, ms).
            Inr (PingReq (NodeId (u64_from_le (slice buf 1 9))) us ms)))
       else if buf ! 0 = MSG_ACK then
         bindE (run_from take_gossip_lists 1 buf) (\<lambda>(us, ms). Inr (GAck us ms))
       else Inl (Bail ''unknown gossip message tag: {}'' [unat (buf ! 0)]))"

section \<open>Round trips\<close>

definition wf_member_update :: "member_update \<Rightarrow> bool" where
  "wf_member_update u \<longleftrightarrow>
     wf_string (mu_client_address u) \<and> wf_string (mu_gossip_address u) \<and>
     wf_string (mu_store_address u) \<and> length (mu_log_id u) = 16 \<and>
     short (encode_member_update u)"

fun wf_gossip_lists :: "member_update list \<Rightarrow> (u64 \<times> ring_mutation) list \<Rightarrow> bool" where
  "wf_gossip_lists us ms \<longleftrightarrow> short us \<and> short ms \<and> list_all wf_member_update us"

fun wf_gossip_message :: "gossip_message \<Rightarrow> bool" where
  "wf_gossip_message (Ping us ms) = wf_gossip_lists us ms"
| "wf_gossip_message (PingReq _ us ms) = wf_gossip_lists us ms"
| "wf_gossip_message (GAck us ms) = wf_gossip_lists us ms"

lemma encodes_prefixed:
  assumes "short bs" and "g bs = Inr x"
  shows "encodes (bindP (take_fixed 4 e1 u32_from_le) (\<lambda>len.
      bindP (take_fixed (unat len) (e2 len) (\<lambda>bs. bs)) (\<lambda>bs'. checkP (g bs') returnP)))
      (u32_to_le (as_u32 (length bs)) @ bs) x"
proof (rule encodes_bind)
  let ?n = "as_u32 (length bs)"
  show "encodes (take_fixed 4 e1 u32_from_le) (u32_to_le ?n) ?n"
    by (rule encodes_fixed) simp_all
  have "encodes (take_fixed (unat ?n) (e2 ?n) (\<lambda>bs. bs)) bs bs"
    using assms(1) by (intro encodes_fixed) simp_all
  from encodes_bind [OF this, of "\<lambda>bs'. checkP (g bs') returnP" "[]" x]
  show "encodes (bindP (take_fixed (unat ?n) (e2 ?n) (\<lambda>bs. bs)) (\<lambda>bs'. checkP (g bs') returnP)) bs x"
    using assms(2) by (simp add: encodes_return)
qed

interpretation gossip_string: codec encode_string decode_string wf_string
proof
  fix s
  assume "wf_string s"
  then show "encodes decode_string (encode_string s) s"
    unfolding decode_string_def encode_string_def
    by (intro encodes_prefixed) (simp_all add: wf_string_def)
next
  show "consumes decode_string (\<lambda>s b. wf_string s \<and> b = encode_string s)"
    unfolding decode_string_def encode_string_def
    by (rule consumes_bind [OF raw_u32.tak_put] consumes_bind [OF raw_bytes_tak] consumes_check
        consumes_return | auto simp: wf_string_def from_utf8_def dest: short_u32 split: if_splits)+
qed

lemma member_tail:
  defines "P \<equiv> (\<lambda>(c, g, s, l) bs. wf_string c \<and> wf_string g \<and> wf_string s \<and> length l = 16 \<and>
      bs = encode_string c @ encode_string g @ encode_string s @ l)"
  shows "P x bs \<Longrightarrow> encodes take_member_tail bs x" and "consumes take_member_tail P"
proof -
  show "encodes take_member_tail bs x" if "P x bs" for x bs
    using that unfolding take_member_tail_def P_def
    by (auto intro!: encodes_bind encodes_bind_return gossip_string.put_tak raw_bytes_put)
  have "consumes (contextP m decode_string) (\<lambda>s b. wf_string s \<and> b = encode_string s)" for m
    by (simp add: gossip_string.tak_put)
  note str = consumes_bind [OF this]
  show "consumes take_member_tail P"
    unfolding take_member_tail_def P_def
    by (rule str consumes_bind [OF raw_bytes_tak] consumes_return | auto)+
qed

lemma status_tag_iff: "status_of_tag t = Inr s \<longleftrightarrow> t = status_tag s"
  by (cases s) (auto simp: status_of_tag_def status_tag_def status_tags split: if_splits)

lemma role_tag_iff: "role_of_tag t = Inr r \<longleftrightarrow> t = role_tag r"
  by (cases r) (auto simp: role_of_tag_def role_tag_def split: if_splits)

definition member_head :: "member_update \<Rightarrow> bytes" where
  "member_head u =
     u64_to_le (node_raw (mu_node_id u)) @ u64_to_le (inc_raw (mu_incarnation u)) @
     [status_tag (mu_status u)] @ u32_to_le (mu_thread_count u) @ [role_tag (mu_role u)] @
     u32_to_le (mu_capacity_weight u)"

lemma member_head_slices:
  "slice (member_head u @ rest) 0 8 = u64_to_le (node_raw (mu_node_id u))"
  "slice (member_head u @ rest) 8 16 = u64_to_le (inc_raw (mu_incarnation u))"
  "(member_head u @ rest) ! 16 = status_tag (mu_status u)"
  "slice (member_head u @ rest) 17 21 = u32_to_le (mu_thread_count u)"
  "(member_head u @ rest) ! 21 = role_tag (mu_role u)"
  "slice (member_head u @ rest) 22 26 = u32_to_le (mu_capacity_weight u)"
  by (simp_all add: member_head_def slice_def nth_append)

lemma length_member_head [simp]: "length (member_head u) = 26"
  by (simp add: member_head_def)

lemma decode_encode_member_update:
  assumes "wf_member_update u"
  shows "decode_member_update (encode_member_update u @ post) = Inr u"
proof -
  have e: "encode_member_update u @ post = member_head u @
      (encode_string (mu_client_address u) @ encode_string (mu_gossip_address u) @
       encode_string (mu_store_address u) @ mu_log_id u) @ post"
    by (simp add: encode_member_update_def member_head_def)
  have "run_from take_member_tail (length (member_head u)) (encode_member_update u @ post) =
      Inr (mu_client_address u, mu_gossip_address u, mu_store_address u, mu_log_id u)"
    unfolding e using assms
    by (subst run_from_lenient_at [OF member_tail]) (auto simp: wf_member_update_def)
  moreover have "status_of_tag (status_tag s) = Inr s" "role_of_tag (role_tag r) = Inr r" for s r
    by (simp_all add: status_tag_iff role_tag_iff)
  ultimately show ?thesis
    by (simp add: decode_member_update_def e member_head_slices Let_def)
qed

interpretation mutation_record:
  buffer_codec encode_mutation_pair decode_ring_mutation_record "\<lambda>_. True"
proof
  fix b and x :: "u64 \<times> ring_mutation"
  obtain epoch m where x: "x = (epoch, m)" by fastforce
  have "decode_ring_mutation_record b = Inr (epoch, m) \<longleftrightarrow> b = encode_ring_mutation_record epoch m"
  proof
    assume d: "decode_ring_mutation_record b = Inr (epoch, m)"
    then have len: "17 \<le> length b"
      by (auto simp: decode_ring_mutation_record_def split: if_splits)
    have "slice b 8 9 = [b ! 8]"
      using len by (simp add: slice_def take_Suc_conv_app_nth [of 0, simplified] hd_drop_conv_nth)
    then have "b = slice b 0 8 @ [b ! 8] @ slice b 9 17 @ drop 17 b"
      using slice_drop [of 0 8 b] slice_drop [of 8 9 b] slice_drop [of 9 17 b] by simp
    moreover have "slice b 17 21 = drop 17 b" if "length b = 21"
      using that by (simp add: slice_def)
    ultimately show "b = encode_ring_mutation_record epoch m"
      using d len
      by (auto simp: decode_ring_mutation_record_def encode_ring_mutation_record_def Let_def
          split: if_splits)
  next
    assume "b = encode_ring_mutation_record epoch m"
    then show "decode_ring_mutation_record b = Inr (epoch, m)"
      by (cases m) (auto simp: decode_ring_mutation_record_def encode_ring_mutation_record_def
          Let_def slice_def nth_append MUTATION_JOIN_def MUTATION_LEAVE_def)
  qed
  then show "decode_ring_mutation_record b = Inr x \<longleftrightarrow> True \<and> b = encode_mutation_pair x"
    by (simp add: x encode_mutation_pair_def)
qed

text \<open>Length-prefixed lists of any item the single decoder round-trips.\<close>

lemma decode_list_put:
  assumes "list_all (\<lambda>x. short (enc x) \<and> dec (enc x) = Inr x) xs" and "short xs"
  shows "encodes (decode_list dec) (encode_list enc xs) xs"
proof -
  have "encodes (decode_item dec) (encode_item enc x) x"
    if "short (enc x) \<and> dec (enc x) = Inr x" for x
    using that unfolding decode_item_def encode_item_def by (intro encodes_prefixed) simp_all
  with assms(1) have "encodes (take_n (decode_item dec) (length xs)) (concat (map (encode_item enc) xs)) xs"
    by (intro take_n_encodes) (simp add: list_all_iff)
  then show ?thesis
    unfolding decode_list_def encode_list_def
    by (intro encodes_bind [OF raw_u32.put_tak [OF TrueI]]) (simp add: assms(2))
qed

lemma gossip_lists_put:
  assumes "wf_gossip_lists us ms"
  shows "encodes take_gossip_lists (encode_list encode_member_update us @ encode_list encode_mutation_pair ms)
    (us, ms)"
proof -
  have "short (encode_mutation_pair x)" for x
    by (cases x; cases "snd x") (simp_all add: encode_mutation_pair_def encode_ring_mutation_record_def short_def)
  then have "list_all (\<lambda>x. short (encode_mutation_pair x) \<and>
      decode_ring_mutation_record (encode_mutation_pair x) = Inr x) ms"
    by (simp add: list_all_iff mutation_record.dec_put)
  moreover have "list_all (\<lambda>u. short (encode_member_update u) \<and>
      decode_member_update (encode_member_update u) = Inr u) us"
    using assms decode_encode_member_update [where post = "[]"]
    by (auto simp: list_all_iff wf_member_update_def)
  ultimately show ?thesis
    unfolding take_gossip_lists_def using assms
    by (intro encodes_bind [OF decode_list_put] encodes_bind_return [OF decode_list_put]) simp_all
qed

lemma run_gossip_lists:
  assumes "wf_gossip_lists us ms"
  shows "run_from take_gossip_lists (length pre)
      (pre @ encode_list encode_member_update us @ encode_list encode_mutation_pair ms @ post) = Inr (us, ms)"
  using gossip_lists_put [OF assms, unfolded encodes_def, rule_format, of "length pre"
      "pre @ encode_list encode_member_update us @ encode_list encode_mutation_pair ms @ post" post]
  by (simp add: run_from_def)

lemma decode_encode_gossip_message:
  assumes "wf_gossip_message msg"
  shows "decode_gossip_message (encode_gossip_message msg @ post) = Inr msg"
proof (cases msg)
  case (Ping us ms)
  with assms run_gossip_lists [of us ms "[MSG_PING]" post] show ?thesis
    by (simp add: decode_gossip_message_def encode_gossip_message_def)
next
  case (PingReq target us ms)
  with assms run_gossip_lists [of us ms "MSG_PING_REQ # u64_to_le (node_raw target)" post] show ?thesis
    by (simp add: decode_gossip_message_def encode_gossip_message_def slice_def
        MSG_PING_def MSG_PING_REQ_def)
next
  case (GAck us ms)
  with assms run_gossip_lists [of us ms "[MSG_ACK]" post] show ?thesis
    by (simp add: decode_gossip_message_def encode_gossip_message_def
        MSG_PING_def MSG_PING_REQ_def MSG_ACK_def)
qed

section \<open>Properties\<close>

text \<open>Gossip messages survive the wire: a well-formed ping, ping-req or ack decodes to itself,
  also when bytes follow it.\<close>

theorem gossip_message_round_trip:
  assumes "wf_gossip_message msg"
  shows "decode_gossip_message (encode_gossip_message msg @ post) = Inr msg"
  by (rule decode_encode_gossip_message [OF assms])

theorem gossip_message_round_trip_witness:
  "decode_gossip_message (encode_gossip_message
      (PingReq (NodeId 7) [(sample_fact Suspect 3)\<lparr>mu_log_id := replicate 16 7\<rparr>] [(5, Leave (NodeId 2))]) @ [9]) =
   Inr (PingReq (NodeId 7) [(sample_fact Suspect 3)\<lparr>mu_log_id := replicate 16 7\<rparr>] [(5, Leave (NodeId 2))])"
  by (rule gossip_message_round_trip)
    (simp add: short_def wf_member_update_def wf_string_def sample_fact_def encode_member_update_def
      encode_string_def)

end
