(* ===== verification/Native_Lock.thy ===== *)
theory Native_Lock
  imports Ids "HOL-Library.Multiset"
begin

text \<open>
  The lock a datum's native home keeps, \<open>seisin-node/src/collation.rs\<close>. A waiter's
  \<open>on_granted\<close> callback is a value that says what it does: an operation returns, beside the new lock,
  the waiters whose callback it called. \<open>DatumId\<close> is ordered as \<open>u128\<close>, and a smaller op id is
  an older op.
\<close>

record holder =
  h_node_id :: node_id
  h_thread_id :: thread_id
  h_op_id :: datum_id

record 'g waiter =
  w_op_id :: datum_id
  w_node_id :: node_id
  w_thread_id :: thread_id
  w_on_granted :: 'g

datatype acquire_outcome = GrantedImmediately | RecallNeeded holder | Queued

record 'g native_lock =
  current_holder :: "holder option"
  waiters :: "'g waiter list"

definition lock_new :: "'g native_lock" where
  "lock_new = \<lparr>current_holder = None, waiters = []\<rparr>"

definition holder_of :: "'g waiter \<Rightarrow> holder" where
  "holder_of w = \<lparr>h_node_id = w_node_id w, h_thread_id = w_thread_id w, h_op_id = w_op_id w\<rparr>"

definition grant_front :: "'g native_lock \<Rightarrow> 'g waiter list \<times> 'g native_lock" where
  "grant_front l = (case waiters l of
     [] \<Rightarrow> ([], l)
   | w # ws \<Rightarrow> ([w], l\<lparr>current_holder := Some (holder_of w), waiters := ws\<rparr>))"

definition request ::
    "'g native_lock \<Rightarrow> datum_id \<Rightarrow> node_id \<Rightarrow> thread_id \<Rightarrow> 'g \<Rightarrow> acquire_outcome \<times> 'g waiter list \<times> 'g native_lock" where
  "request l op_id node_id thread_id on_granted =
     (let needs_recall = (case current_holder l of None \<Rightarrow> False | Some h \<Rightarrow> op_id < h_op_id h);
          insert_at = (case position (\<lambda>w. op_id < w_op_id w) (waiters l) of
                         Some i \<Rightarrow> i | None \<Rightarrow> length (waiters l));
          l1 = l\<lparr>waiters := vec_insert (waiters l) insert_at
                   \<lparr>w_op_id = op_id, w_node_id = node_id, w_thread_id = thread_id, w_on_granted = on_granted\<rparr>\<rparr>
      in case current_holder l1 of
           None \<Rightarrow> (let (fired, l2) = grant_front l1 in (GrantedImmediately, fired, l2))
         | Some h \<Rightarrow> (if needs_recall then RecallNeeded h else Queued, [], l1))"

definition release :: "'g native_lock \<Rightarrow> 'g waiter list \<times> 'g native_lock" where
  "release l = grant_front (l\<lparr>current_holder := None\<rparr>)"

definition handle_node_death :: "'g native_lock \<Rightarrow> node_id \<Rightarrow> 'g waiter list \<times> 'g native_lock" where
  "handle_node_death l node_id =
     (let l1 = l\<lparr>waiters := filter (\<lambda>w. w_node_id w \<noteq> node_id) (waiters l)\<rparr>
      in case current_holder l1 of
           None \<Rightarrow> ([], l1)
         | Some h \<Rightarrow> (if h_node_id h = node_id then release l1 else ([], l1)))"

section \<open>Insertion in age order\<close>

lemma position_insert:
  "vec_insert ws (case position (\<lambda>w. op < w_op_id w) ws of Some i \<Rightarrow> i | None \<Rightarrow> length ws) x =
     takeWhile (\<lambda>w. w_op_id w \<le> op) ws @ x # dropWhile (\<lambda>w. w_op_id w \<le> op) ws"
proof (induction ws)
  case Nil
  then show ?case by (simp add: vec_insert_def)
next
  case (Cons w ws)
  then show ?case
    by (cases "op < w_op_id w") (auto simp: vec_insert_def not_less split: option.splits)
qed

lemma mset_split_insert: "mset (takeWhile P ws @ x # dropWhile P ws) = add_mset x (mset ws)"
  by (metis mset.simps(2) mset_append takeWhile_dropWhile_id union_mset_add_mset_right)

lemma set_split_insert: "set (takeWhile P ws @ x # dropWhile P ws) = insert x (set ws)"
  using arg_cong [OF mset_split_insert, of set_mset P ws x] by simp

lemma sorted_insert_age:
  assumes "sorted (map w_op_id ws)" and "w_op_id x = op"
  shows "sorted (map w_op_id (takeWhile (\<lambda>w. w_op_id w \<le> op) ws @ x # dropWhile (\<lambda>w. w_op_id w \<le> op) ws))"
  using assms(1)
proof (induction ws)
  case (Cons w ws)
  let ?P = "\<lambda>w. w_op_id w \<le> op"
  show ?case
  proof (cases "?P w")
    case True
    have "w_op_id w \<le> w_op_id v" if "v \<in> insert x (set ws)" for v
      using that True Cons.prems assms(2) by auto
    then have "\<forall>v \<in> set (takeWhile ?P ws @ x # dropWhile ?P ws). w_op_id w \<le> w_op_id v"
      unfolding set_split_insert by blast
    moreover have "sorted (map w_op_id (takeWhile ?P ws @ x # dropWhile ?P ws))"
      using Cons by simp
    ultimately show ?thesis using True by auto
  next
    case False
    with Cons.prems assms(2) show ?thesis by auto
  qed
qed simp

section \<open>The invariant and the operations\<close>

text \<open>Waiters are in age order, and nobody waits for a lock nobody holds.\<close>

definition lock_inv :: "'g native_lock \<Rightarrow> bool" where
  "lock_inv l \<longleftrightarrow> sorted (map w_op_id (waiters l)) \<and> (waiters l \<noteq> [] \<longrightarrow> current_holder l \<noteq> None)"

lemma request_simps:
  assumes "lock_inv l" and "w = \<lparr>w_op_id = op, w_node_id = n, w_thread_id = t, w_on_granted = g\<rparr>"
  shows "request l op n t g = (case current_holder l of
      None \<Rightarrow> (GrantedImmediately, [w], \<lparr>current_holder = Some (holder_of w), waiters = []\<rparr>)
    | Some h \<Rightarrow> (if op < h_op_id h then RecallNeeded h else Queued, [],
        l\<lparr>waiters := takeWhile (\<lambda>v. w_op_id v \<le> op) (waiters l) @ w #
                     dropWhile (\<lambda>v. w_op_id v \<le> op) (waiters l)\<rparr>))"
proof (cases "current_holder l")
  case None
  with assms have "waiters l = []" by (simp add: lock_inv_def)
  with None assms(2) show ?thesis
    by (simp add: request_def Let_def grant_front_def vec_insert_def)
next
  case (Some h)
  with assms(2) show ?thesis
    by (simp add: request_def Let_def position_insert)
qed

lemma lock_inv_new: "lock_inv lock_new"
  by (simp add: lock_inv_def lock_new_def)

lemma lock_inv_request: "lock_inv l \<Longrightarrow> lock_inv (snd (snd (request l op n t g)))"
  by (cases "current_holder l")
    (auto simp: request_simps [OF _ refl] lock_inv_def sorted_insert_age simp del: map_append list.map)

lemma lock_inv_grant: "sorted (map w_op_id (waiters l)) \<Longrightarrow> lock_inv (snd (grant_front l))"
  by (auto simp: lock_inv_def grant_front_def split: list.splits)

lemma lock_inv_release: "lock_inv l \<Longrightarrow> lock_inv (snd (release l))"
  unfolding release_def by (rule lock_inv_grant) (simp add: lock_inv_def)

lemma lock_inv_death: "lock_inv l \<Longrightarrow> lock_inv (snd (handle_node_death l n))"
proof -
  assume inv: "lock_inv l"
  then have "sorted (map w_op_id (filter (\<lambda>w. w_node_id w \<noteq> n) (waiters l)))"
    by (simp add: lock_inv_def sorted_filter)
  note granted = lock_inv_grant [of "l\<lparr>waiters := filter (\<lambda>w. w_node_id w \<noteq> n) (waiters l), current_holder := None\<rparr>"]
  show ?thesis
  proof (cases "current_holder l")
    case None
    with inv show ?thesis by (simp add: handle_node_death_def lock_inv_def)
  next
    case (Some h)
    then show ?thesis
      using inv granted \<open>sorted _\<close>
      by (cases "h_node_id h = n") (simp_all add: handle_node_death_def release_def Let_def, simp add: lock_inv_def)
  qed
qed

section \<open>Runs\<close>

datatype 'g lock_event = LRequest datum_id node_id thread_id 'g | LRelease | LDeath node_id

fun lock_step :: "'g native_lock \<Rightarrow> 'g lock_event \<Rightarrow> 'g waiter list \<times> 'g native_lock" where
  "lock_step l (LRequest op n t g) = snd (request l op n t g)"
| "lock_step l LRelease = release l"
| "lock_step l (LDeath n) = handle_node_death l n"

fun lock_run :: "'g lock_event list \<Rightarrow> 'g native_lock \<Rightarrow> 'g waiter list \<times> 'g native_lock" where
  "lock_run [] l = ([], l)"
| "lock_run (e # es) l =
     (let (fired, l1) = lock_step l e; (fired', l2) = lock_run es l1 in (fired @ fired', l2))"

fun requested :: "'g lock_event list \<Rightarrow> 'g waiter multiset" where
  "requested [] = {#}"
| "requested (LRequest op n t g # es) =
     add_mset \<lparr>w_op_id = op, w_node_id = n, w_thread_id = t, w_on_granted = g\<rparr> (requested es)"
| "requested (_ # es) = requested es"

lemma lock_step_inv: "lock_inv l \<Longrightarrow> lock_inv (snd (lock_step l e))"
  by (cases e) (simp_all add: lock_inv_request lock_inv_release lock_inv_death)

lemma lock_run_inv: "lock_inv l \<Longrightarrow> lock_inv (snd (lock_run es l))"
proof (induction es arbitrary: l)
  case (Cons e es)
  have "lock_inv (snd (lock_run es (snd (lock_step l e))))"
    by (rule Cons.IH [OF lock_step_inv [OF Cons.prems]])
  then show ?case by (simp add: case_prod_beta Let_def)
qed simp

lemma grant_front_mset: "mset (fst (grant_front l)) + mset (waiters (snd (grant_front l))) = mset (waiters l)"
  by (simp add: grant_front_def split: list.splits)

lemma lock_step_mset:
  assumes "lock_inv l"
  shows "mset (fst (lock_step l e)) + mset (waiters (snd (lock_step l e))) \<subseteq># mset (waiters l) + requested [e]"
proof (cases e)
  case (LRequest op n t g)
  with assms show ?thesis
    by (cases "current_holder l")
      (auto simp: request_simps [OF _ refl] mset_split_insert lock_inv_def simp del: mset_append)
next
  case LRelease
  then show ?thesis using grant_front_mset [of "l\<lparr>current_holder := None\<rparr>"] by (simp add: release_def)
next
  case (LDeath n)
  let ?l = "l\<lparr>waiters := filter (\<lambda>w. w_node_id w \<noteq> n) (waiters l)\<rparr>"
  have "mset (waiters ?l) \<subseteq># mset (waiters l)" by simp
  with LDeath grant_front_mset [of "?l\<lparr>current_holder := None\<rparr>"] show ?thesis
    by (auto simp: handle_node_death_def release_def Let_def split: option.splits)
qed

lemma requested_Cons: "requested (e # es) = requested [e] + requested es"
  by (cases e) simp_all

lemma lock_run_mset:
  assumes "lock_inv l"
  shows "mset (fst (lock_run es l)) + mset (waiters (snd (lock_run es l))) \<subseteq># mset (waiters l) + requested es"
  using assms
proof (induction es arbitrary: l)
  case (Cons e es)
  obtain f1 l1 where s: "lock_step l e = (f1, l1)" by fastforce
  obtain f2 l2 where r: "lock_run es l1 = (f2, l2)" by fastforce
  have "lock_inv l1" using lock_step_inv [OF Cons.prems, of e] s by simp
  from Cons.IH [OF this] r have "mset f2 + mset (waiters l2) \<subseteq># mset (waiters l1) + requested es" by simp
  moreover have "mset f1 + mset (waiters l1) \<subseteq># mset (waiters l) + requested [e]"
    using lock_step_mset [OF Cons.prems, of e] s by simp
  ultimately have "mset f1 + (mset f2 + mset (waiters l2)) \<subseteq># mset f1 + (mset (waiters l1) + requested es)"
    and "mset f1 + mset (waiters l1) + requested es \<subseteq># mset (waiters l) + requested [e] + requested es"
    by simp_all
  then have "mset f1 + (mset f2 + mset (waiters l2)) \<subseteq># mset (waiters l) + requested [e] + requested es"
    unfolding add.assoc by (rule subset_mset.order_trans)
  then show ?case using s r by (simp add: requested_Cons [of e es] add.assoc)
qed simp

text \<open>\<open>k\<close> releases in a row, with nothing in between.\<close>

lemma release_Cons:
  "waiters l = w # ws \<Longrightarrow> release l = ([w], l\<lparr>current_holder := Some (holder_of w), waiters := ws\<rparr>)"
  by (cases l) (simp add: release_def grant_front_def)

lemma releases_run:
  assumes "waiters l = ws @ w # rest"
  shows "lock_run (replicate (Suc (length ws)) LRelease) l =
    (ws @ [w], l\<lparr>current_holder := Some (holder_of w), waiters := rest\<rparr>)"
  using assms
proof (induction ws arbitrary: l)
  case Nil
  then show ?case by (simp add: release_Cons)
next
  case (Cons v ws)
  from Cons.IH [of "l\<lparr>current_holder := Some (holder_of v), waiters := ws @ w # rest\<rparr>"] Cons.prems show ?case
    by (cases l) (simp add: release_Cons)
qed

section \<open>Properties\<close>

text \<open>C25: In every run of requests, releases and node deaths the waiters stay in age order and no
  waiter is left behind on a free lock (no lost wake-up).\<close>

theorem no_waiter_on_a_free_lock:
  assumes "lock_run es lock_new = (fired, l)"
  shows "sorted (map w_op_id (waiters l)) \<and> (current_holder l = None \<longrightarrow> waiters l = [])"
  using lock_run_inv [OF lock_inv_new, of es] assms by (auto simp: lock_inv_def)

theorem no_waiter_on_a_free_lock_witness:
  "\<exists>fired l. lock_run [LRequest (DatumId 1) (NodeId 1) (ThreadId 0) (), LRelease] lock_new = (fired, l) \<and>
     current_holder l = None \<and> waiters l = []"
proof -
  let ?es = "[LRequest (DatumId 1) (NodeId 1) (ThreadId 0) (), LRelease]"
  obtain fired l where r: "lock_run ?es lock_new = (fired, l)" by fastforce
  then have "current_holder l = None"
    by (auto simp: request_def lock_new_def Let_def grant_front_def vec_insert_def release_def)
  with no_waiter_on_a_free_lock [OF r] r show ?thesis by blast
qed

text \<open>What a request does on each branch: it is granted at once when nobody holds the lock,
  answered with a recall of the holder exactly when the requester is older, queued otherwise; a
  queued or recalling requester goes in after every older or equally old waiter, and only an
  immediate grant calls a callback.\<close>

theorem request_outcome:
  assumes "lock_inv l" and "w = \<lparr>w_op_id = op, w_node_id = n, w_thread_id = t, w_on_granted = g\<rparr>"
  shows "request l op n t g = (case current_holder l of
      None \<Rightarrow> (GrantedImmediately, [w], \<lparr>current_holder = Some (holder_of w), waiters = []\<rparr>)
    | Some h \<Rightarrow> (if op < h_op_id h then RecallNeeded h else Queued, [],
        l\<lparr>waiters := takeWhile (\<lambda>v. w_op_id v \<le> op) (waiters l) @ w #
                     dropWhile (\<lambda>v. w_op_id v \<le> op) (waiters l)\<rparr>))"
  by (rule request_simps [OF assms])

theorem request_outcome_witness:
  "request lock_new (DatumId 5) (NodeId 1) (ThreadId 0) () =
     (GrantedImmediately, [\<lparr>w_op_id = DatumId 5, w_node_id = NodeId 1, w_thread_id = ThreadId 0, w_on_granted = ()\<rparr>],
      \<lparr>current_holder = Some \<lparr>h_node_id = NodeId 1, h_thread_id = ThreadId 0, h_op_id = DatumId 5\<rparr>,
       waiters = []\<rparr>)"
  using request_outcome [OF lock_inv_new refl, of "DatumId 5" "NodeId 1" "ThreadId 0" "()"]
  by (simp add: lock_new_def holder_of_def)

text \<open>Every waiter is served: if nothing else happens, the waiter with \<open>k\<close> waiters before it
  becomes the holder at the release number \<open>k + 1\<close>, and the callbacks run in queue order.\<close>

theorem waiters_are_served_in_order:
  assumes "waiters l = ws @ w # rest"
  shows "lock_run (replicate (Suc (length ws)) LRelease) l =
    (ws @ [w], l\<lparr>current_holder := Some (holder_of w), waiters := rest\<rparr>)"
  by (rule releases_run [OF assms])

theorem waiters_are_served_in_order_witness:
  "\<exists>l. fst (lock_run (replicate (Suc (length [\<lparr>w_op_id = DatumId 1, w_node_id = NodeId 1, w_thread_id = ThreadId 0, w_on_granted = ()\<rparr>])) LRelease)
      \<lparr>current_holder = None,
       waiters = [\<lparr>w_op_id = DatumId 1, w_node_id = NodeId 1, w_thread_id = ThreadId 0, w_on_granted = ()\<rparr>] @
                 \<lparr>w_op_id = DatumId 2, w_node_id = NodeId 2, w_thread_id = ThreadId 0, w_on_granted = ()\<rparr> # []\<rparr>) = l \<and> length l = 2"
  by (subst waiters_are_served_in_order) simp_all

text \<open>A callback runs at most once per request, and never for a request that is still waiting: in
  every run the callbacks called and the waiters left are among the requests made.\<close>

theorem grants_come_from_requests:
  "mset (fst (lock_run es lock_new)) + mset (waiters (snd (lock_run es lock_new))) \<subseteq># requested es"
  using lock_run_mset [OF lock_inv_new, of es] by (simp add: lock_new_def)

text \<open>A dead node loses everything it had in the lock: afterwards it neither holds nor waits, the
  other waiters keep their order, and the lock changes hands only if the dead node held it, to the
  oldest survivor.\<close>

theorem dead_node_is_purged:
  assumes "handle_node_death l n = (fired, l')"
  shows "pred_option (\<lambda>h. h_node_id h \<noteq> n) (current_holder l') \<and>
    fired @ waiters l' = filter (\<lambda>w. w_node_id w \<noteq> n) (waiters l) \<and> length fired \<le> 1 \<and>
    current_holder l' =
      (case current_holder l of
         Some h \<Rightarrow> if h_node_id h = n then map_option holder_of (if fired = [] then None else Some (hd fired))
                 else Some h
       | None \<Rightarrow> None)"
proof (cases "\<exists>h. current_holder l = Some h \<and> h_node_id h = n")
  case True
  let ?s = "filter (\<lambda>w. w_node_id w \<noteq> n) (waiters l)"
  have "w_node_id (hd ?s) \<noteq> n" if "?s \<noteq> []"
    using hd_in_set [OF that] by simp
  with True assms show ?thesis
    by (cases ?s) (auto simp: handle_node_death_def release_def grant_front_def Let_def holder_of_def)
next
  case False
  with assms show ?thesis
    by (cases "current_holder l") (auto simp: handle_node_death_def Let_def)
qed

theorem dead_node_is_purged_witness:
  "\<exists>fired l'. handle_node_death \<lparr>current_holder = None, waiters = []\<rparr> (NodeId 1) = (fired, l') \<and>
     current_holder l' = None \<and> fired @ waiters l' = []"
  using dead_node_is_purged [of "\<lparr>current_holder = None, waiters = []\<rparr>" "NodeId 1"]
  by (metis filter.simps(1) native_lock.select_convs(1,2) option.case(1) surj_pair)

text \<open>The lock cannot tell two releases of one grant apart. Two requests older than the holder
  are both told to recall it; when both recalls are acknowledged, each acknowledgement releases the
  lock, and the second one grants the datum to a new op while the op granted by the first still
  holds it.\<close>

theorem two_recalls_grant_twice:
  assumes "lock_inv l" and "current_holder l = Some h" and "waiters l = []"
    and "a < b" and "b < h_op_id h"
  shows "fst (request l b n t g) = RecallNeeded h \<and>
    (let l1 = snd (snd (request l b n t g)) in
     fst (request l1 a n' t' g') = RecallNeeded h \<and>
     (let l2 = snd (snd (request l1 a n' t' g')) in
      fst (lock_run [LRelease, LRelease] l2) =
        [\<lparr>w_op_id = a, w_node_id = n', w_thread_id = t', w_on_granted = g'\<rparr>, \<lparr>w_op_id = b, w_node_id = n, w_thread_id = t, w_on_granted = g\<rparr>]))"
proof -
  let ?wb = "\<lparr>w_op_id = b, w_node_id = n, w_thread_id = t, w_on_granted = g\<rparr>"
  let ?wa = "\<lparr>w_op_id = a, w_node_id = n', w_thread_id = t', w_on_granted = g'\<rparr>"
  let ?l1 = "l\<lparr>waiters := [?wb]\<rparr>"
  have r1: "request l b n t g = (RecallNeeded h, [], ?l1)"
    using request_simps [OF assms(1) refl, of b n t g] assms(2,3,5) by simp
  have "lock_inv ?l1" using assms(2) by (simp add: lock_inv_def)
  then have r2: "request ?l1 a n' t' g' = (RecallNeeded h, [], ?l1\<lparr>waiters := [?wa, ?wb]\<rparr>)"
    using request_simps [OF _ refl, of ?l1 a n' t' g'] assms(2,4,5) by (simp add: not_le less_trans [OF assms(4,5)])
  show ?thesis by (simp add: r1 r2 release_Cons)
qed

definition held_by_three :: "unit native_lock" where
  "held_by_three =
     \<lparr>current_holder = Some \<lparr>h_node_id = NodeId 3, h_thread_id = ThreadId 0, h_op_id = DatumId 3\<rparr>, waiters = []\<rparr>"

theorem two_recalls_grant_twice_witness:
  "let l1 = snd (snd (request held_by_three (DatumId 2) (NodeId 2) (ThreadId 0) ()));
       l2 = snd (snd (request l1 (DatumId 1) (NodeId 1) (ThreadId 0) ()))
   in fst (lock_run [LRelease, LRelease] l2) =
     [\<lparr>w_op_id = DatumId 1, w_node_id = NodeId 1, w_thread_id = ThreadId 0, w_on_granted = ()\<rparr>,
      \<lparr>w_op_id = DatumId 2, w_node_id = NodeId 2, w_thread_id = ThreadId 0, w_on_granted = ()\<rparr>]"
proof -
  have "lock_inv held_by_three" and "waiters held_by_three = []"
    and "current_holder held_by_three =
      Some \<lparr>h_node_id = NodeId 3, h_thread_id = ThreadId 0, h_op_id = DatumId 3\<rparr>"
    by (simp_all add: lock_inv_def held_by_three_def)
  from two_recalls_grant_twice [OF this(1,3,2), of "DatumId 1" "DatumId 2" "NodeId 2" "ThreadId 0" "()"
      "NodeId 1" "ThreadId 0" "()"]
  show ?thesis unfolding Let_def by simp
qed

end
