(* ===== verification/Delta.thy ===== *)
theory Delta
  imports Wire_Prims
begin

text \<open>
  Structure-blind byte deltas, \<open>seisin-storage/src/delta.rs\<close>: \<open>diff\<close> trims the longest
  common prefix and suffix, \<open>apply\<close> splices the middle back, \<open>encode_delta\<close> and
  \<open>decode_delta\<close> are the log and wire form.
\<close>

record delta =
  prefix_len :: u32
  suffix_len :: u32
  middle :: bytes
  new_total_len :: u32

definition encoded_len :: "delta \<Rightarrow> nat" where
  "encoded_len d = 16 + length (middle d)"

text \<open>\<open>while prefix < max_prefix && old[prefix] == new[prefix] { prefix += 1 }\<close>\<close>

function prefix_loop :: "bytes \<Rightarrow> bytes \<Rightarrow> nat \<Rightarrow> nat \<Rightarrow> nat" where
  "prefix_loop old new max_prefix p =
     (if p < max_prefix \<and> old ! p = new ! p then prefix_loop old new max_prefix (Suc p) else p)"
  by pat_completeness auto
termination by (relation "measure (\<lambda>(_, _, m, p). m - p)") auto

text \<open>\<open>while suffix < max_suffix && old[old.len() - 1 - suffix] == new[new.len() - 1 - suffix]\<close>\<close>

function suffix_loop :: "bytes \<Rightarrow> bytes \<Rightarrow> nat \<Rightarrow> nat \<Rightarrow> nat" where
  "suffix_loop old new max_suffix s =
     (if s < max_suffix \<and> old ! (length old - 1 - s) = new ! (length new - 1 - s)
      then suffix_loop old new max_suffix (Suc s) else s)"
  by pat_completeness auto
termination by (relation "measure (\<lambda>(_, _, m, s). m - s)") auto

declare prefix_loop.simps [simp del] suffix_loop.simps [simp del]

definition diff :: "bytes \<Rightarrow> bytes \<Rightarrow> delta" where
  "diff old new =
     (let max_prefix = min (length old) (length new);
          prefix = prefix_loop old new max_prefix 0;
          max_suffix = max_prefix - prefix;
          suffix = suffix_loop old new max_suffix 0
      in \<lparr>prefix_len = as_u32 prefix, suffix_len = as_u32 suffix,
          middle = slice new prefix (length new - suffix), new_total_len = as_u32 (length new)\<rparr>)"

definition apply_delta :: "bytes \<Rightarrow> delta \<Rightarrow> bytes result" where
  "apply_delta old d =
     (let prefix = unat (prefix_len d); suffix = unat (suffix_len d) in
      if prefix + suffix > length old
      then Inl (Bail ''delta prefix {} + suffix {} exceed the base's {} bytes''
                  [prefix, suffix, length old])
      else if prefix + length (middle d) + suffix \<noteq> unat (new_total_len d)
      then Inl (Bail ''delta reassembles to {} bytes but declares {}''
                  [prefix + length (middle d) + suffix, unat (new_total_len d)])
      else Inr (take prefix old @ middle d @ drop (length old - suffix) old))"

definition encode_delta :: "delta \<Rightarrow> bytes" where
  "encode_delta d =
     u32_to_le (prefix_len d) @ u32_to_le (suffix_len d) @ u32_to_le (new_total_len d) @
     u32_to_le (as_u32 (length (middle d))) @ middle d"

definition decode_delta :: "bytes \<Rightarrow> delta result" where
  "decode_delta buf =
     (if length buf < 16
      then Inl (Bail ''delta too short for its fixed fields: {} bytes'' [length buf])
      else
        let pre = u32_from_le (slice buf 0 4);
            suf = u32_from_le (slice buf 4 8);
            tot = u32_from_le (slice buf 8 12);
            middle_len = unat (u32_from_le (slice buf 12 16))
        in
        if length buf \<noteq> 16 + middle_len
        then Inl (Bail ''delta declares a {}-byte middle but carries {}''
                    [middle_len, length buf - 16])
        else Inr \<lparr>prefix_len = pre, suffix_len = suf, middle = drop 16 buf, new_total_len = tot\<rparr>)"

section \<open>The two loops\<close>

lemma prefix_loop_bounds:
  "p \<le> m \<Longrightarrow> p \<le> prefix_loop old new m p \<and> prefix_loop old new m p \<le> m"
proof (induction old new m p rule: prefix_loop.induct)
  case (1 old new m p)
  then show ?case by (subst (1 2) prefix_loop.simps) auto
qed

lemma prefix_loop_agree:
  assumes "p \<le> i" and "i < prefix_loop old new m p"
  shows "old ! i = new ! i"
  using assms
proof (induction old new m p rule: prefix_loop.induct)
  case (1 old new m p)
  show ?case
  proof (cases "p < m \<and> old ! p = new ! p")
    case True
    with 1 show ?thesis
      by (cases "i = p") (auto simp: prefix_loop.simps [of old new m p])
  next
    case False
    with 1 show ?thesis by (auto simp: prefix_loop.simps [of old new m p])
  qed
qed

lemma prefix_loop_stop:
  "prefix_loop old new m p < m \<Longrightarrow>
   old ! prefix_loop old new m p \<noteq> new ! prefix_loop old new m p"
proof (induction old new m p rule: prefix_loop.induct)
  case (1 old new m p)
  then show ?case by (cases "p < m \<and> old ! p = new ! p") (auto simp: prefix_loop.simps [of old new m p])
qed

lemma suffix_loop_bounds:
  "s \<le> m \<Longrightarrow> s \<le> suffix_loop old new m s \<and> suffix_loop old new m s \<le> m"
proof (induction old new m s rule: suffix_loop.induct)
  case (1 old new m s)
  then show ?case by (subst (1 2) suffix_loop.simps) auto
qed

lemma suffix_loop_agree:
  assumes "s \<le> i" and "i < suffix_loop old new m s"
  shows "old ! (length old - 1 - i) = new ! (length new - 1 - i)"
  using assms
proof (induction old new m s rule: suffix_loop.induct)
  case (1 old new m s)
  show ?case
  proof (cases "s < m \<and> old ! (length old - 1 - s) = new ! (length new - 1 - s)")
    case True
    with 1 show ?thesis
      by (cases "i = s") (auto simp: suffix_loop.simps [of old new m s])
  next
    case False
    with 1 show ?thesis by (auto simp: suffix_loop.simps [of old new m s])
  qed
qed

lemma suffix_loop_stop:
  "suffix_loop old new m s < m \<Longrightarrow>
   old ! (length old - 1 - suffix_loop old new m s) \<noteq> new ! (length new - 1 - suffix_loop old new m s)"
proof (induction old new m s rule: suffix_loop.induct)
  case (1 old new m s)
  then show ?case
    by (cases "s < m \<and> old ! (length old - 1 - s) = new ! (length new - 1 - s)")
      (auto simp: suffix_loop.simps [of old new m s])
qed

lemma diff_lengths:
  assumes "prefix = prefix_loop old new (min (length old) (length new)) 0"
    and "suffix = suffix_loop old new (min (length old) (length new) - prefix) 0"
  shows "prefix + suffix \<le> length old" and "prefix + suffix \<le> length new"
    and "take prefix old = take prefix new"
    and "drop (length old - suffix) old = drop (length new - suffix) new"
proof -
  let ?m = "min (length old) (length new)"
  have p: "prefix \<le> ?m" using prefix_loop_bounds [of 0 ?m old new] assms(1) by simp
  have s: "suffix \<le> ?m - prefix"
    using suffix_loop_bounds [of 0 "?m - prefix" old new] assms(2) by simp
  show le: "prefix + suffix \<le> length old" "prefix + suffix \<le> length new" using p s by arith+
  show "take prefix old = take prefix new"
    using p prefix_loop_agree [of 0 _ old new ?m] assms(1) by (intro nth_equalityI) auto
  show "drop (length old - suffix) old = drop (length new - suffix) new"
  proof (rule nth_equalityI)
    show "length (drop (length old - suffix) old) = length (drop (length new - suffix) new)"
      using le by simp
  next
    fix i
    assume "i < length (drop (length old - suffix) old)"
    then have i: "i < suffix" using le by simp
    then have "old ! (length old - 1 - (suffix - 1 - i)) = new ! (length new - 1 - (suffix - 1 - i))"
      using suffix_loop_agree [of 0 "suffix - 1 - i" old new "?m - prefix"] assms(2) by simp
    then show "drop (length old - suffix) old ! i = drop (length new - suffix) new ! i"
      using i le by (simp add: add.commute Suc_diff_Suc)
  qed
qed

lemma apply_diff:
  assumes "length new < 2 ^ 32"
  shows "apply_delta old (diff old new) = Inr new"
proof -
  define p where "p = prefix_loop old new (min (length old) (length new)) 0"
  define s where "s = suffix_loop old new (min (length old) (length new) - p) 0"
  note d = diff_lengths [OF p_def s_def]
  have small: "unat (as_u32 p) = p" "unat (as_u32 s) = s" "unat (as_u32 (length new)) = length new"
    using d(2) assms by simp_all
  have "take p new @ slice new p (length new - s) @ drop (length new - s) new = new"
    using d(2) slice_drop [of p "length new - s" new] by simp
  with d small show ?thesis
    by (simp add: apply_delta_def diff_def Let_def p_def [symmetric] s_def [symmetric])
qed

text \<open>The trimmed ends are maximal: what is left of either value starts and ends differently.\<close>

lemma diff_maximal:
  assumes "length old < 2 ^ 32" and "length new < 2 ^ 32"
    and "unat (prefix_len (diff old new)) + unat (suffix_len (diff old new)) < min (length old) (length new)"
  shows "old ! unat (prefix_len (diff old new)) \<noteq> new ! unat (prefix_len (diff old new))"
    and "old ! (length old - 1 - unat (suffix_len (diff old new))) \<noteq>
         new ! (length new - 1 - unat (suffix_len (diff old new)))"
proof -
  let ?m = "min (length old) (length new)"
  define p where "p = prefix_loop old new ?m 0"
  define s where "s = suffix_loop old new (?m - p) 0"
  note d = diff_lengths [OF p_def s_def]
  have small: "unat (as_u32 p) = p" "unat (as_u32 s) = s"
    using d(2) assms(2) by simp_all
  have e: "unat (prefix_len (diff old new)) = p" "unat (suffix_len (diff old new)) = s"
    using small by (simp_all add: diff_def Let_def p_def [symmetric] s_def [symmetric])
  show "old ! unat (prefix_len (diff old new)) \<noteq> new ! unat (prefix_len (diff old new))"
    using prefix_loop_stop [of old new ?m 0] assms(3) unfolding e p_def by linarith
  have "s < ?m - p" using assms(3) unfolding e by linarith
  then show "old ! (length old - 1 - unat (suffix_len (diff old new))) \<noteq>
      new ! (length new - 1 - unat (suffix_len (diff old new)))"
    using suffix_loop_stop [of old new "?m - p" 0] unfolding e s_def by blast
qed

lemma apply_delta_Inr:
  "apply_delta old d = Inr out \<Longrightarrow>
     length out = unat (new_total_len d) \<and>
     take (unat (prefix_len d)) out = take (unat (prefix_len d)) old \<and>
     drop (length out - unat (suffix_len d)) out = drop (length old - unat (suffix_len d)) old"
  by (auto simp: apply_delta_def Let_def split: if_splits)

interpretation delta: buffer_codec encode_delta decode_delta "\<lambda>d. short (middle d)"
proof
  fix b d
  show "decode_delta b = Inr d \<longleftrightarrow> short (middle d) \<and> b = encode_delta d"
  proof
    assume dec: "decode_delta b = Inr d"
    define n where "n = u32_from_le (slice b 12 16)"
    have len: "length b = 16 + unat n"
      and d: "d = \<lparr>prefix_len = u32_from_le (slice b 0 4), suffix_len = u32_from_le (slice b 4 8),
        middle = drop 16 b, new_total_len = u32_from_le (slice b 8 12)\<rparr>"
      using dec by (auto simp: decode_delta_def Let_def n_def split: if_splits)
    have "b = slice b 0 4 @ slice b 4 8 @ slice b 8 12 @ slice b 12 16 @ drop 16 b"
      using slice_drop [of 0 4 b] slice_drop [of 4 8 b] slice_drop [of 8 12 b]
        slice_drop [of 12 16 b] by simp
    moreover have "slice b 12 16 = u32_to_le (as_u32 (length (drop 16 b)))"
      using len by (simp add: n_def)
    moreover have "length (drop 16 b) = unat n" using len by simp
    moreover have "short (drop 16 b)"
      using unsigned_less [of n, where ?'a = nat] len by (simp add: short_def)
    ultimately show "short (middle d) \<and> b = encode_delta d"
      using len by (simp add: d encode_delta_def)
  next
    assume "short (middle d) \<and> b = encode_delta d"
    then show "decode_delta b = Inr d"
      by (simp add: decode_delta_def encode_delta_def Let_def slice_def)
  qed
qed

text \<open>A delta names what it replaces by position from both ends, so applying it again changes nothing.\<close>

lemma apply_delta_idem:
  assumes "apply_delta old d = Inr v"
  shows "apply_delta v d = Inr v"
proof -
  define p s where ps: "p = unat (prefix_len d)" "s = unat (suffix_len d)"
  have le: "p + s \<le> length old" and len: "p + length (middle d) + s = unat (new_total_len d)"
    and v: "v = take p old @ middle d @ drop (length old - s) old"
    using assms by (auto simp: apply_delta_def Let_def ps split: if_splits)
  have "length v = p + length (middle d) + s" using le by (simp add: v)
  then show ?thesis
    using le len by (auto simp: apply_delta_def Let_def ps [symmetric] v)
qed

section \<open>Properties\<close>

text \<open>A delta computed by \<open>diff\<close> and applied to the value it was computed against gives the new
  value back, for all values whose length fits the 32-bit fields.\<close>

theorem apply_of_diff:
  assumes "length new < 2 ^ 32"
  shows "apply_delta old (diff old new) = Inr new"
  by (rule apply_diff [OF assms])

theorem apply_of_diff_witness: "apply_delta [1, 2, 3, 4] (diff [1, 2, 3, 4] [1, 9, 4]) = Inr [1, 9, 4]"
  by (rule apply_of_diff) simp

text \<open>A delta that applies gives a value of the declared length that keeps the base's ends; a
  delta that does not fit the base or its own lengths is an error.\<close>

theorem apply_is_checked:
  "case apply_delta old d of
     Inr out \<Rightarrow> length out = unat (new_total_len d) \<and>
       take (unat (prefix_len d)) out = take (unat (prefix_len d)) old \<and>
       drop (length out - unat (suffix_len d)) out = drop (length old - unat (suffix_len d)) old
   | Inl _ \<Rightarrow> length old < unat (prefix_len d) + unat (suffix_len d) \<or>
       unat (prefix_len d) + length (middle d) + unat (suffix_len d) \<noteq> unat (new_total_len d)"
proof (cases "apply_delta old d")
  case (Inr out)
  show ?thesis unfolding Inr sum.case by (rule apply_delta_Inr [OF Inr])
next
  case (Inl e)
  then show ?thesis by (auto simp: apply_delta_def Let_def split: if_splits)
qed

end
