(* ===== verification/Store_Wire.thy ===== *)
theory Store_Wire
  imports Delta
begin

text \<open>
  The compute-to-storage protocol, \<open>seisin-protocol/src/store_wire.rs\<close>. Its cursor helpers
  mirror those of \<open>Wire_Prims\<close>; \<open>take_bytes\<close> and the version check differ and are
  modelled again. A decoder is a table of readers, one per tag, run from offset 1.
\<close>

definition STORE_PROTOCOL_VERSION :: u8 where "STORE_PROTOCOL_VERSION = 4"

datatype store_request =
  SPut (sput_id: datum_id) (sput_bytes: bytes) (sput_n: u16)
| SPatch (spatch_id: datum_id) (spatch_delta: delta) (spatch_n: u16)
| SGet datum_id
| SDelete datum_id
| SListIds (sl_after: "datum_id option") (sl_limit: u32)
| STransfer (st_transfer_id: datum_id) (st_ids: "datum_id list") (st_dest_address: rstring)
| STransferStatus datum_id
| SFinishTransfer datum_id
| SRetire datum_id
| SIdentify
| SCollectionCreate (cc_collection_id: datum_id) (cc_key_size: u32) (cc_value_size: u32)
| SCollectionInsert (ci_collection_id: datum_id) (ci_key: bytes) (ci_value: bytes)
| SCollectionRemove datum_id bytes
| SCollectionGet datum_id bytes
| SCollectionScanForward datum_id u32
| SCollectionScanBackward datum_id u32
| SCollectionSample datum_id u32
| SCollectionRankOfKey datum_id bytes
| SCollectionScanFromRank datum_id u64 u32
| SCollectionCount datum_id

datatype store_response =
  SAck
| SNeedFull
| SValue "bytes option"
| SIdList "(datum_id \<times> u16) list" bool
| STransferProgress u64 u64 bool
| SIdentity node_id datum_id
| SError rstring
| SCollectionEntry "bytes option"
| SCollectionEntries "(bytes \<times> bytes) list"
| SCollectionRank "u64 option"
| SCollectionTotal u64

definition REQ_PUT :: u8 where "REQ_PUT = 1"
definition REQ_PATCH :: u8 where "REQ_PATCH = 2"
definition REQ_GET :: u8 where "REQ_GET = 3"
definition REQ_DELETE :: u8 where "REQ_DELETE = 4"
definition REQ_LIST_IDS :: u8 where "REQ_LIST_IDS = 5"
definition REQ_TRANSFER :: u8 where "REQ_TRANSFER = 6"
definition REQ_TRANSFER_STATUS :: u8 where "REQ_TRANSFER_STATUS = 7"
definition REQ_FINISH_TRANSFER :: u8 where "REQ_FINISH_TRANSFER = 8"
definition REQ_RETIRE :: u8 where "REQ_RETIRE = 9"
definition REQ_IDENTIFY :: u8 where "REQ_IDENTIFY = 10"
definition REQ_COLLECTION_CREATE :: u8 where "REQ_COLLECTION_CREATE = 11"
definition REQ_COLLECTION_INSERT :: u8 where "REQ_COLLECTION_INSERT = 12"
definition REQ_COLLECTION_REMOVE :: u8 where "REQ_COLLECTION_REMOVE = 13"
definition REQ_COLLECTION_GET :: u8 where "REQ_COLLECTION_GET = 14"
definition REQ_COLLECTION_SCAN_FORWARD :: u8 where "REQ_COLLECTION_SCAN_FORWARD = 15"
definition REQ_COLLECTION_SCAN_BACKWARD :: u8 where "REQ_COLLECTION_SCAN_BACKWARD = 16"
definition REQ_COLLECTION_SAMPLE :: u8 where "REQ_COLLECTION_SAMPLE = 17"
definition REQ_COLLECTION_RANK_OF_KEY :: u8 where "REQ_COLLECTION_RANK_OF_KEY = 18"
definition REQ_COLLECTION_SCAN_FROM_RANK :: u8 where "REQ_COLLECTION_SCAN_FROM_RANK = 19"
definition REQ_COLLECTION_COUNT :: u8 where "REQ_COLLECTION_COUNT = 20"

lemmas req_tags =
  REQ_PUT_def REQ_PATCH_def REQ_GET_def REQ_DELETE_def REQ_LIST_IDS_def REQ_TRANSFER_def
  REQ_TRANSFER_STATUS_def REQ_FINISH_TRANSFER_def REQ_RETIRE_def REQ_IDENTIFY_def
  REQ_COLLECTION_CREATE_def REQ_COLLECTION_INSERT_def REQ_COLLECTION_REMOVE_def
  REQ_COLLECTION_GET_def REQ_COLLECTION_SCAN_FORWARD_def REQ_COLLECTION_SCAN_BACKWARD_def
  REQ_COLLECTION_SAMPLE_def REQ_COLLECTION_RANK_OF_KEY_def REQ_COLLECTION_SCAN_FROM_RANK_def
  REQ_COLLECTION_COUNT_def

definition SRESP_ACK :: u8 where "SRESP_ACK = 1"
definition SRESP_NEED_FULL :: u8 where "SRESP_NEED_FULL = 2"
definition SRESP_VALUE :: u8 where "SRESP_VALUE = 3"
definition SRESP_ID_LIST :: u8 where "SRESP_ID_LIST = 4"
definition SRESP_TRANSFER_PROGRESS :: u8 where "SRESP_TRANSFER_PROGRESS = 5"
definition SRESP_IDENTITY :: u8 where "SRESP_IDENTITY = 6"
definition SRESP_ERROR :: u8 where "SRESP_ERROR = 7"
definition SRESP_COLLECTION_ENTRY :: u8 where "SRESP_COLLECTION_ENTRY = 8"
definition SRESP_COLLECTION_ENTRIES :: u8 where "SRESP_COLLECTION_ENTRIES = 9"
definition SRESP_COLLECTION_RANK :: u8 where "SRESP_COLLECTION_RANK = 10"
definition SRESP_COLLECTION_COUNT :: u8 where "SRESP_COLLECTION_COUNT = 11"

lemmas sresp_tags =
  SRESP_ACK_def SRESP_NEED_FULL_def SRESP_VALUE_def SRESP_ID_LIST_def SRESP_TRANSFER_PROGRESS_def
  SRESP_IDENTITY_def SRESP_ERROR_def SRESP_COLLECTION_ENTRY_def SRESP_COLLECTION_ENTRIES_def
  SRESP_COLLECTION_RANK_def SRESP_COLLECTION_COUNT_def

section \<open>Helpers\<close>

definition store_take_bytes :: "bytes taker" where
  "store_take_bytes = bindP take_u32 (\<lambda>len. take_fixed (unat len)
     (\<lambda>off. Bail ''truncated byte field at offset {}: expected {} bytes'' [off, unat len]) (\<lambda>bs. bs))"

definition take_u16 :: "u16 taker" where
  "take_u16 = take_fixed 2 (\<lambda>off. Bail ''truncated u16 at offset {}'' [off]) u16_from_le"

definition store_take_string :: "string \<Rightarrow> rstring taker" where
  "store_take_string ctxt = bindP store_take_bytes (\<lambda>bs. checkP (from_utf8 ctxt bs) returnP)"

definition expect_end :: "string \<Rightarrow> unit taker" where
  "expect_end what = (\<lambda>buf off.
     if off \<noteq> length buf
     then Inl (Bail (''store '' @ what @ '' has {} trailing bytes'') [length buf - off])
     else Inr ((), off))"

definition store_check_version :: "bytes \<Rightarrow> string \<Rightarrow> bytes result" where
  "store_check_version buf what = (case buf of
     [] \<Rightarrow> Inl (Bail (''empty store '' @ what @ '' payload'') [])
   | v # rest \<Rightarrow>
       if v = STORE_PROTOCOL_VERSION then Inr rest
       else Inl (Bail (''unsupported store '' @ what @ '' protocol version {}; this node speaks {}'')
                   [unat v, unat STORE_PROTOCOL_VERSION]))"

section \<open>Requests\<close>

fun store_request_body :: "store_request \<Rightarrow> bytes" where
  "store_request_body (SPut i bs n) = REQ_PUT # put_id i @ u16_to_le n @ bs"
| "store_request_body (SPatch i d n) = REQ_PATCH # put_id i @ u16_to_le n @ encode_delta d"
| "store_request_body (SGet i) = REQ_GET # put_id i"
| "store_request_body (SDelete i) = REQ_DELETE # put_id i"
| "store_request_body (SListIds after limit) = REQ_LIST_IDS # put_opt put_id after @ u32_to_le limit"
| "store_request_body (STransfer t ids dest) = REQ_TRANSFER # put_id t @ put_id_list ids @ put_bytes dest"
| "store_request_body (STransferStatus t) = REQ_TRANSFER_STATUS # put_id t"
| "store_request_body (SFinishTransfer t) = REQ_FINISH_TRANSFER # put_id t"
| "store_request_body (SRetire t) = REQ_RETIRE # put_id t"
| "store_request_body SIdentify = [REQ_IDENTIFY]"
| "store_request_body (SCollectionCreate c ks vs) =
     REQ_COLLECTION_CREATE # put_id c @ u32_to_le ks @ u32_to_le vs"
| "store_request_body (SCollectionInsert c k v) =
     REQ_COLLECTION_INSERT # put_id c @ put_bytes k @ put_bytes v"
| "store_request_body (SCollectionRemove c k) = REQ_COLLECTION_REMOVE # put_id c @ put_bytes k"
| "store_request_body (SCollectionGet c k) = REQ_COLLECTION_GET # put_id c @ put_bytes k"
| "store_request_body (SCollectionScanForward c l) = REQ_COLLECTION_SCAN_FORWARD # put_id c @ u32_to_le l"
| "store_request_body (SCollectionScanBackward c l) = REQ_COLLECTION_SCAN_BACKWARD # put_id c @ u32_to_le l"
| "store_request_body (SCollectionSample c k) = REQ_COLLECTION_SAMPLE # put_id c @ u32_to_le k"
| "store_request_body (SCollectionRankOfKey c k) = REQ_COLLECTION_RANK_OF_KEY # put_id c @ put_bytes k"
| "store_request_body (SCollectionScanFromRank c r l) =
     REQ_COLLECTION_SCAN_FROM_RANK # put_id c @ u64_to_le r @ u32_to_le l"
| "store_request_body (SCollectionCount c) = REQ_COLLECTION_COUNT # put_id c"

definition encode_store_request :: "store_request \<Rightarrow> bytes" where
  "encode_store_request req = STORE_PROTOCOL_VERSION # store_request_body req"

text \<open>Three shapes of arm: an id; an id and a bounded field; an id and a key.\<close>

definition id_arm :: "string \<Rightarrow> (datum_id \<Rightarrow> store_request) \<Rightarrow> store_request taker" where
  "id_arm what mk = bindP take_id (\<lambda>i. bindP (expect_end what) (\<lambda>_. returnP (mk i)))"

definition id_u32_arm :: "string \<Rightarrow> (datum_id \<Rightarrow> u32 \<Rightarrow> store_request) \<Rightarrow> store_request taker" where
  "id_u32_arm what mk =
     bindP take_id (\<lambda>i. bindP take_u32 (\<lambda>n. bindP (expect_end what) (\<lambda>_. returnP (mk i n))))"

definition id_key_arm :: "string \<Rightarrow> (datum_id \<Rightarrow> bytes \<Rightarrow> store_request) \<Rightarrow> store_request taker" where
  "id_key_arm what mk =
     bindP take_id (\<lambda>i. bindP store_take_bytes (\<lambda>k. bindP (expect_end what) (\<lambda>_. returnP (mk i k))))"

definition store_request_arm :: "u8 \<Rightarrow> store_request taker" where
  "store_request_arm tag =
     (if tag = REQ_PUT then
        bindP take_id (\<lambda>i. bindP take_u16 (\<lambda>n. bindP take_rest (\<lambda>bs. returnP (SPut i bs n))))
      else if tag = REQ_PATCH then
        bindP take_id (\<lambda>i. bindP take_u16 (\<lambda>n. bindP take_rest (\<lambda>rest.
          checkP (with_context ''store patch carried a malformed delta'' (decode_delta rest)) (\<lambda>d.
            returnP (SPatch i d n)))))
      else if tag = REQ_GET then id_arm ''get'' SGet
      else if tag = REQ_DELETE then id_arm ''delete'' SDelete
      else if tag = REQ_LIST_IDS then
        bindP (take_opt (\<lambda>_. Bail ''list ids request truncated at the after flag'' [])
                 (\<lambda>f. Bail ''unknown list ids after flag: {}'' [unat f]) take_id) (\<lambda>after.
        bindP take_u32 (\<lambda>limit. bindP (expect_end ''list ids'') (\<lambda>_. returnP (SListIds after limit))))
      else if tag = REQ_TRANSFER then
        bindP take_id (\<lambda>t. bindP take_id_list (\<lambda>ids.
        bindP (store_take_string ''transfer dest_address was not valid utf8'') (\<lambda>dest.
          returnP (STransfer t ids dest))))
      else if tag = REQ_TRANSFER_STATUS then id_arm ''transfer status'' STransferStatus
      else if tag = REQ_FINISH_TRANSFER then id_arm ''finish transfer'' SFinishTransfer
      else if tag = REQ_RETIRE then id_arm ''retire'' SRetire
      else if tag = REQ_IDENTIFY then bindP (expect_end ''identify'') (\<lambda>_. returnP SIdentify)
      else if tag = REQ_COLLECTION_CREATE then
        bindP take_id (\<lambda>c. bindP take_u32 (\<lambda>ks. bindP take_u32 (\<lambda>vs.
        bindP (expect_end ''collection create'') (\<lambda>_. returnP (SCollectionCreate c ks vs)))))
      else if tag = REQ_COLLECTION_INSERT then
        bindP take_id (\<lambda>c. bindP store_take_bytes (\<lambda>k. bindP store_take_bytes (\<lambda>v.
        bindP (expect_end ''collection insert'') (\<lambda>_. returnP (SCollectionInsert c k v)))))
      else if tag = REQ_COLLECTION_REMOVE then id_key_arm ''collection remove'' SCollectionRemove
      else if tag = REQ_COLLECTION_GET then id_key_arm ''collection get'' SCollectionGet
      else if tag = REQ_COLLECTION_SCAN_FORWARD then
        id_u32_arm ''collection scan forward'' SCollectionScanForward
      else if tag = REQ_COLLECTION_SCAN_BACKWARD then
        id_u32_arm ''collection scan backward'' SCollectionScanBackward
      else if tag = REQ_COLLECTION_SAMPLE then id_u32_arm ''collection sample'' SCollectionSample
      else if tag = REQ_COLLECTION_RANK_OF_KEY then
        id_key_arm ''collection rank of key'' SCollectionRankOfKey
      else if tag = REQ_COLLECTION_SCAN_FROM_RANK then
        bindP take_id (\<lambda>c. bindP take_u64 (\<lambda>r. bindP take_u32 (\<lambda>l.
        bindP (expect_end ''collection scan from rank'') (\<lambda>_. returnP (SCollectionScanFromRank c r l)))))
      else if tag = REQ_COLLECTION_COUNT then id_arm ''collection count'' SCollectionCount
      else failP (Bail ''unknown store request tag: {}'' [unat tag]))"

definition decode_store_request :: "bytes \<Rightarrow> store_request result" where
  "decode_store_request buf =
     bindE (store_check_version buf ''request'') (\<lambda>buf.
       if buf = [] then Inl (Bail ''empty store request payload'' [])
       else run_from (store_request_arm (buf ! 0)) 1 buf)"

fun wf_store_request :: "store_request \<Rightarrow> bool" where
  "wf_store_request (SPatch _ d _) \<longleftrightarrow> short (middle d)"
| "wf_store_request (STransfer _ ids dest) \<longleftrightarrow> short ids \<and> wf_string dest"
| "wf_store_request (SCollectionInsert _ k v) \<longleftrightarrow> short k \<and> short v"
| "wf_store_request (SCollectionRemove _ k) \<longleftrightarrow> short k"
| "wf_store_request (SCollectionGet _ k) \<longleftrightarrow> short k"
| "wf_store_request (SCollectionRankOfKey _ k) \<longleftrightarrow> short k"
| "wf_store_request _ \<longleftrightarrow> True"

interpretation u16_codec: codec u16_to_le take_u16 "\<lambda>_. True"
  by unfold_locales (auto simp: take_u16_def intro!: encodes_fixed consumes_fixed)

interpretation store_bytes_codec: codec put_bytes store_take_bytes short
proof
  fix bs :: bytes
  assume "short bs"
  then show "encodes store_take_bytes (put_bytes bs) bs"
    unfolding store_take_bytes_def put_bytes_def
    by (intro encodes_bind [where x = "as_u32 (length bs)"] u32_codec.put_tak encodes_fixed) simp_all
next
  have "consumes (take_fixed (unat n) err (\<lambda>bs. bs)) (\<lambda>bs b. short bs \<and> u32_to_le n @ b = put_bytes bs)"
    for n :: u32 and err
    using unsigned_less [of n, where ?'a = nat]
    by (intro consumes_fixed) (auto simp: put_bytes_def short_def)
  then show "consumes store_take_bytes (\<lambda>bs b. short bs \<and> b = put_bytes bs)"
    unfolding store_take_bytes_def by (intro consumes_bind [OF u32_codec.tak_put]) simp
qed

interpretation store_string_codec: codec put_bytes "store_take_string ctxt" wf_string
proof
  fix s
  assume "wf_string s"
  then show "encodes (store_take_string ctxt) (put_bytes s) s"
    using encodes_bind [of store_take_bytes "put_bytes s" s
        "\<lambda>bs. checkP (from_utf8 ctxt bs) returnP" "[]" s]
    by (simp add: store_take_string_def wf_string_def store_bytes_codec.put_tak encodes_return)
next
  show "consumes (store_take_string ctxt) (\<lambda>s b. wf_string s \<and> b = put_bytes s)"
    unfolding store_take_string_def
    by (rule consumes_bind [OF store_bytes_codec.tak_put] consumes_check consumes_return
        | auto simp: wf_string_def)+
qed

interpretation patch_delta:
  buffer_codec encode_delta "\<lambda>b. with_context msg (decode_delta b)" "\<lambda>d. short (middle d)"
  by unfold_locales (simp add: delta.exact)

lemma end_put: "encodes_all (bindP (expect_end what) (\<lambda>_. returnP x)) [] x"
  by (simp add: encodes_all_def bindP_def expect_end_def returnP_def)

lemma end_put_last:
  "encodes t a x \<Longrightarrow> k x = bindP (expect_end what) (\<lambda>_. returnP y) \<Longrightarrow> encodes_all (bindP t k) a y"
  using encodes_all_bind [of t a x k "[]" y] by (simp add: end_put)

lemma rest_arm_put: "y = f bs \<Longrightarrow> encodes_all (bindP take_rest (\<lambda>bs. returnP (f bs))) bs y"
  by (simp add: encodes_all_def bindP_def take_rest_def returnP_def)

lemma if_tak:
  "(c \<Longrightarrow> consumes_all a P) \<Longrightarrow> (\<not> c \<Longrightarrow> consumes_all b P) \<Longrightarrow> consumes_all (if c then a else b) P"
  by simp

lemma end_tak: "Q x [] \<Longrightarrow> consumes_all (bindP (expect_end what) (\<lambda>_. returnP x)) Q"
  by (auto simp: consumes_all_def bindP_def expect_end_def returnP_def split: if_splits)

lemmas store_put =
  id_codec.put_tak [OF TrueI] u16_codec.put_tak [OF TrueI] u32_codec.put_tak [OF TrueI]
  u64_codec.put_tak [OF TrueI] store_bytes_codec.put_tak store_string_codec.put_tak
  id_list_codec.put_tak id_codec.opt_put [OF pred_option_True]

lemmas store_tak =
  id_codec.tak_put u16_codec.tak_put u32_codec.tak_put u64_codec.tak_put
  store_bytes_codec.tak_put store_string_codec.tak_put id_list_codec.tak_put id_codec.opt_tak

lemmas store_all_put =
  store_put [THEN end_put_last] store_put [THEN encodes_all_bind] end_put patch_delta.rest_put
  rest_arm_put

lemmas store_all_tak = store_tak [THEN consumes_all_bind] end_tak patch_delta.rest_dec consumes_all_rest

lemmas store_arm_defs = store_request_arm_def id_arm_def id_u32_arm_def id_key_arm_def

lemma store_request_arm_put:
  assumes "wf_store_request r" and "tag # bs = store_request_body r" and "tag \<noteq> REQ_TRANSFER"
  shows "encodes_all (store_request_arm tag) bs r"
  using assms
  by (cases r) (auto simp: store_arm_defs req_tags encodes_all_return intro!: store_all_put)

lemma store_request_arm_tak:
  assumes "tag \<noteq> REQ_TRANSFER"
  shows "consumes_all (store_request_arm tag) (\<lambda>r bs. wf_store_request r \<and> tag # bs = store_request_body r)"
  using assms unfolding store_arm_defs
  by (intro if_tak store_all_tak consumes_all_fail) auto

lemma store_transfer_arm:
  "run_from (store_request_arm REQ_TRANSFER) (Suc 0) (REQ_TRANSFER # rest) = Inr r \<longleftrightarrow>
     wf_store_request r \<and> (\<exists>tl. REQ_TRANSFER # rest = store_request_body r @ tl)"
proof -
  let ?t = "store_request_arm REQ_TRANSFER"
  let ?P = "\<lambda>r bs. wf_store_request r \<and> REQ_TRANSFER # bs = store_request_body r"
  have "encodes ?t bs r" if "?P r bs" for r bs
    using that
    by (cases r) (auto simp: store_request_arm_def req_tags intro!: encodes_bind encodes_bind_return store_put)
  moreover have "consumes ?t ?P"
    unfolding store_request_arm_def
    by (simp add: req_tags)
      (rule consumes_bind [OF id_codec.tak_put] consumes_bind [OF id_list_codec.tak_put]
        consumes_bind [OF store_string_codec.tak_put] consumes_return | auto simp: req_tags)+
  ultimately have "run_from ?t (Suc 0) (REQ_TRANSFER # rest) = Inr r \<longleftrightarrow>
      (\<exists>bs tl. rest = bs @ tl \<and> ?P r bs)"
    by (rule run_from_lenient)
  also have "\<dots> \<longleftrightarrow> wf_store_request r \<and> (\<exists>tl. REQ_TRANSFER # rest = store_request_body r @ tl)"
    by (cases r) (auto simp: req_tags)
  finally show ?thesis .
qed

text \<open>Exactly which payloads decode: \<open>Transfer\<close> tolerates trailing bytes, the rest do not.\<close>

definition accepted_store_request :: "store_request \<Rightarrow> bytes \<Rightarrow> bool" where
  "accepted_store_request r b \<longleftrightarrow>
     (case r of STransfer _ _ _ \<Rightarrow> \<exists>tl. b = store_request_body r @ tl | _ \<Rightarrow> b = store_request_body r)"

lemma decode_store_request_exact:
  "decode_store_request b = Inr r \<longleftrightarrow>
     wf_store_request r \<and> (\<exists>body. b = STORE_PROTOCOL_VERSION # body \<and> accepted_store_request r body)"
proof -
  have ne: "\<not> accepted_store_request r []"
    by (cases r) (simp_all add: accepted_store_request_def)
  have "run_from (store_request_arm tag) (Suc 0) (tag # rest) = Inr r \<longleftrightarrow>
      wf_store_request r \<and> accepted_store_request r (tag # rest)" for tag rest
  proof (cases "tag = REQ_TRANSFER")
    case True
    then show ?thesis
      unfolding True store_transfer_arm by (cases r) (auto simp: accepted_store_request_def req_tags)
  next
    case False
    have "run_from (store_request_arm tag) (Suc 0) (tag # rest) = Inr r \<longleftrightarrow>
        wf_store_request r \<and> tag # rest = store_request_body r"
      using store_request_arm_put [OF _ _ False] store_request_arm_tak [OF False]
      by (intro run_from_exact) auto
    with False show ?thesis
      by (cases r) (auto simp: accepted_store_request_def)
  qed
  then show ?thesis
    using ne by (cases b; cases "tl b") (auto simp: decode_store_request_def store_check_version_def)
qed

section \<open>Responses\<close>

definition put_id_n :: "datum_id \<times> u16 \<Rightarrow> bytes" where
  "put_id_n = (\<lambda>(i, n). put_id i @ u16_to_le n)"

definition put_kv :: "bytes \<times> bytes \<Rightarrow> bytes" where
  "put_kv = (\<lambda>(k, v). put_bytes k @ put_bytes v)"

fun store_response_body :: "store_response \<Rightarrow> bytes" where
  "store_response_body SAck = [SRESP_ACK]"
| "store_response_body SNeedFull = [SRESP_NEED_FULL]"
| "store_response_body (SValue v) = SRESP_VALUE # put_opt (\<lambda>bs. bs) v"
| "store_response_body (SIdList ids done) =
     SRESP_ID_LIST # of_bool done # u32_to_le (as_u32 (length ids)) @ concat (map put_id_n ids)"
| "store_response_body (STransferProgress copied dirty done) =
     SRESP_TRANSFER_PROGRESS # u64_to_le copied @ u64_to_le dirty @ [of_bool done]"
| "store_response_body (SIdentity node log) = SRESP_IDENTITY # u64_to_le (node_raw node) @ put_id log"
| "store_response_body (SError message) = SRESP_ERROR # message"
| "store_response_body (SCollectionEntry v) = SRESP_COLLECTION_ENTRY # put_opt put_bytes v"
| "store_response_body (SCollectionEntries es) =
     SRESP_COLLECTION_ENTRIES # u32_to_le (as_u32 (length es)) @ concat (map put_kv es)"
| "store_response_body (SCollectionRank r) = SRESP_COLLECTION_RANK # put_opt u64_to_le r"
| "store_response_body (SCollectionTotal n) = SRESP_COLLECTION_COUNT # u64_to_le n"

definition encode_store_response :: "store_response \<Rightarrow> bytes" where
  "encode_store_response resp = STORE_PROTOCOL_VERSION # store_response_body resp"

definition take_id_n :: "(datum_id \<times> u16) taker" where
  "take_id_n = bindP take_id (\<lambda>i. bindP take_u16 (\<lambda>n. returnP (i, n)))"

definition take_kv :: "(bytes \<times> bytes) taker" where
  "take_kv = bindP store_take_bytes (\<lambda>k. bindP store_take_bytes (\<lambda>v. returnP (k, v)))"

definition store_response_arm :: "u8 \<Rightarrow> store_response taker" where
  "store_response_arm tag =
     (if tag = SRESP_ACK then returnP SAck
      else if tag = SRESP_NEED_FULL then returnP SNeedFull
      else if tag = SRESP_VALUE then
        bindP (take_byte (\<lambda>_. Bail ''store value response missing its presence flag'' [])) (\<lambda>flag.
          if flag = 0 then returnP (SValue None)
          else if flag = 1 then bindP take_rest (\<lambda>bs. returnP (SValue (Some bs)))
          else failP (Bail ''unknown store value flag: {}'' [unat flag]))
      else if tag = SRESP_ID_LIST then
        bindP (take_byte (\<lambda>_. Bail ''id list response truncated at the done flag'' [])) (\<lambda>done.
        bindP (bindP take_u32 (\<lambda>count. take_n take_id_n (unat count))) (\<lambda>ids.
          returnP (SIdList ids (done \<noteq> 0))))
      else if tag = SRESP_TRANSFER_PROGRESS then
        bindP take_u64 (\<lambda>copied. bindP take_u64 (\<lambda>dirty.
        bindP (take_byte (\<lambda>_. Bail ''transfer progress truncated at the done flag'' [])) (\<lambda>done.
          returnP (STransferProgress copied dirty (done \<noteq> 0)))))
      else if tag = SRESP_IDENTITY then
        bindP take_u64 (\<lambda>node. bindP take_id (\<lambda>log. returnP (SIdentity (NodeId node) log)))
      else if tag = SRESP_ERROR then
        bindP take_rest (\<lambda>bs. checkP (from_utf8 ''store error message not utf8'' bs) (\<lambda>m.
          returnP (SError m)))
      else if tag = SRESP_COLLECTION_ENTRY then
        bindP (take_opt (\<lambda>_. Bail ''collection entry response missing its presence flag'' [])
                 (\<lambda>f. Bail ''unknown collection entry flag: {}'' [unat f]) store_take_bytes) (\<lambda>v.
        bindP (expect_end ''collection entry'') (\<lambda>_. returnP (SCollectionEntry v)))
      else if tag = SRESP_COLLECTION_ENTRIES then
        bindP (bindP take_u32 (\<lambda>count. take_n take_kv (unat count))) (\<lambda>es.
        bindP (expect_end ''collection entries'') (\<lambda>_. returnP (SCollectionEntries es)))
      else if tag = SRESP_COLLECTION_RANK then
        bindP (take_opt (\<lambda>_. Bail ''collection rank response missing its presence flag'' [])
                 (\<lambda>f. Bail ''unknown collection rank flag: {}'' [unat f]) take_u64) (\<lambda>r.
        bindP (expect_end ''collection rank'') (\<lambda>_. returnP (SCollectionRank r)))
      else if tag = SRESP_COLLECTION_COUNT then
        bindP take_u64 (\<lambda>n. bindP (expect_end ''collection count'') (\<lambda>_. returnP (SCollectionTotal n)))
      else failP (Bail ''unknown store response tag: {}'' [unat tag]))"

definition decode_store_response :: "bytes \<Rightarrow> store_response result" where
  "decode_store_response buf =
     bindE (store_check_version buf ''response'') (\<lambda>buf.
       if buf = [] then Inl (Bail ''empty store response payload'' [])
       else run_from (store_response_arm (buf ! 0)) 1 buf)"

fun wf_store_response :: "store_response \<Rightarrow> bool" where
  "wf_store_response (SIdList ids _) \<longleftrightarrow> short ids"
| "wf_store_response (SError m) \<longleftrightarrow> utf8_valid m"
| "wf_store_response (SCollectionEntry v) \<longleftrightarrow> pred_option short v"
| "wf_store_response (SCollectionEntries es) \<longleftrightarrow> short es \<and> list_all (\<lambda>(k, v). short k \<and> short v) es"
| "wf_store_response _ \<longleftrightarrow> True"

text \<open>
  What decodes to a given response. Acknowledgements, absent values, id lists, progress reports
  and identities tolerate trailing bytes, and a \<open>done\<close> flag may be any non-zero byte.
\<close>

fun accepted_store_response :: "store_response \<Rightarrow> bytes \<Rightarrow> bool" where
  "accepted_store_response (SIdList ids done) b \<longleftrightarrow>
     (\<exists>f tl. b = SRESP_ID_LIST # f # u32_to_le (as_u32 (length ids)) @ concat (map put_id_n ids) @ tl \<and>
        done = (f \<noteq> 0))"
| "accepted_store_response (STransferProgress copied dirty done) b \<longleftrightarrow>
     (\<exists>f tl. b = SRESP_TRANSFER_PROGRESS # u64_to_le copied @ u64_to_le dirty @ f # tl \<and> done = (f \<noteq> 0))"
| "accepted_store_response r b \<longleftrightarrow>
     (if r \<in> {SAck, SNeedFull, SValue None} \<or> (\<exists>n l. r = SIdentity n l)
      then \<exists>tl. b = store_response_body r @ tl else b = store_response_body r)"

interpretation id_n_codec: codec put_id_n take_id_n "\<lambda>_. True"
  by unfold_locales
    (auto simp: put_id_n_def take_id_n_def split: prod.splits
      intro!: encodes_bind encodes_bind_return store_put store_tak [THEN consumes_bind] consumes_return)

interpretation kv_codec: codec put_kv take_kv "\<lambda>(k, v). short k \<and> short v"
  by unfold_locales
    (auto simp: put_kv_def take_kv_def split: prod.splits
      intro!: encodes_bind encodes_bind_return store_put store_tak [THEN consumes_bind] consumes_return)

lemma lenient_store_arm:
  assumes "\<And>r bs. P r bs \<Longrightarrow> encodes (store_response_arm tag) bs r"
    and "consumes (store_response_arm tag) P"
    and "(\<exists>bs tl. rest = bs @ tl \<and> P r bs) \<longleftrightarrow> wf_store_response r \<and> accepted_store_response r (tag # rest)"
  shows "run_from (store_response_arm tag) (Suc 0) (tag # rest) = Inr r \<longleftrightarrow>
    wf_store_response r \<and> accepted_store_response r (tag # rest)"
  using run_from_lenient [OF assms(1,2), of tag rest r] assms(3) by simp

lemma id_list_arm:
  "run_from (store_response_arm SRESP_ID_LIST) (Suc 0) (SRESP_ID_LIST # rest) = Inr r \<longleftrightarrow>
     wf_store_response r \<and> accepted_store_response r (SRESP_ID_LIST # rest)"
proof (rule lenient_store_arm)
  let ?P = "\<lambda>r bs. \<exists>ids f. r = SIdList ids (f \<noteq> 0) \<and> short ids \<and>
    bs = f # u32_to_le (as_u32 (length ids)) @ concat (map put_id_n ids)"
  have ids: "encodes (bindP take_u32 (\<lambda>count. take_n take_id_n (unat count)))
      (u32_to_le (as_u32 (length ids)) @ concat (map put_id_n ids)) ids" if "short ids" for ids
    using that by (intro id_n_codec.counted_put) (simp_all add: list_all_iff)
  show "encodes (store_response_arm SRESP_ID_LIST) bs r" if "?P r bs" for r bs
    using that ids
    by (auto simp: store_response_arm_def sresp_tags intro!: encodes_byte encodes_bind_return)
  show "consumes (store_response_arm SRESP_ID_LIST) ?P"
    by (simp add: store_response_arm_def sresp_tags)
      (rule consumes_bind [OF take_byte_codec(2)] consumes_bind [OF id_n_codec.counted_tak]
        consumes_return | auto)+
  show "(\<exists>bs tl. rest = bs @ tl \<and> ?P r bs) \<longleftrightarrow>
      wf_store_response r \<and> accepted_store_response r (SRESP_ID_LIST # rest)"
    by (cases r) (auto simp: sresp_tags, metis append.assoc append_Cons)
qed

lemma transfer_progress_arm:
  "run_from (store_response_arm SRESP_TRANSFER_PROGRESS) (Suc 0) (SRESP_TRANSFER_PROGRESS # rest) = Inr r \<longleftrightarrow>
     wf_store_response r \<and> accepted_store_response r (SRESP_TRANSFER_PROGRESS # rest)"
proof (rule lenient_store_arm)
  let ?P = "\<lambda>r bs. \<exists>c d f. r = STransferProgress c d (f \<noteq> 0) \<and> bs = u64_to_le c @ u64_to_le d @ [f]"
  show "encodes (store_response_arm SRESP_TRANSFER_PROGRESS) bs r" if "?P r bs" for r bs
    using that
    by (auto simp: store_response_arm_def sresp_tags
        intro!: encodes_bind encodes_bind_return store_put take_byte_codec(1))
  show "consumes (store_response_arm SRESP_TRANSFER_PROGRESS) ?P"
    by (simp add: store_response_arm_def sresp_tags)
      (rule consumes_bind [OF take_byte_codec(2)] store_tak [THEN consumes_bind] consumes_return | auto)+
  show "(\<exists>bs tl. rest = bs @ tl \<and> ?P r bs) \<longleftrightarrow>
      wf_store_response r \<and> accepted_store_response r (SRESP_TRANSFER_PROGRESS # rest)"
    by (cases r) (auto simp: sresp_tags, metis append.assoc append_Cons append_Nil)
qed

lemma identity_arm:
  "run_from (store_response_arm SRESP_IDENTITY) (Suc 0) (SRESP_IDENTITY # rest) = Inr r \<longleftrightarrow>
     wf_store_response r \<and> accepted_store_response r (SRESP_IDENTITY # rest)"
proof (rule lenient_store_arm)
  let ?P = "\<lambda>r bs. \<exists>n l. r = SIdentity n l \<and> bs = u64_to_le (node_raw n) @ put_id l"
  show "encodes (store_response_arm SRESP_IDENTITY) bs r" if "?P r bs" for r bs
    using that
    by (auto simp: store_response_arm_def sresp_tags intro!: encodes_bind encodes_bind_return store_put)
  show "consumes (store_response_arm SRESP_IDENTITY) ?P"
    by (simp add: store_response_arm_def sresp_tags)
      (rule store_tak [THEN consumes_bind] consumes_return | auto)+
  show "(\<exists>bs tl. rest = bs @ tl \<and> ?P r bs) \<longleftrightarrow>
      wf_store_response r \<and> accepted_store_response r (SRESP_IDENTITY # rest)"
    by (cases r) (auto simp: sresp_tags)
qed

lemma bare_store_arms:
  "run_from (store_response_arm SRESP_ACK) (Suc 0) (SRESP_ACK # rest) = Inr r \<longleftrightarrow>
     wf_store_response r \<and> accepted_store_response r (SRESP_ACK # rest)"
  "run_from (store_response_arm SRESP_NEED_FULL) (Suc 0) (SRESP_NEED_FULL # rest) = Inr r \<longleftrightarrow>
     wf_store_response r \<and> accepted_store_response r (SRESP_NEED_FULL # rest)"
  "run_from (store_response_arm SRESP_VALUE) (Suc 0) (SRESP_VALUE # rest) = Inr r \<longleftrightarrow>
     wf_store_response r \<and> accepted_store_response r (SRESP_VALUE # rest)"
  "run_from (store_response_arm SRESP_ERROR) (Suc 0) (SRESP_ERROR # rest) = Inr r \<longleftrightarrow>
     wf_store_response r \<and> accepted_store_response r (SRESP_ERROR # rest)"
  by (cases rest; cases r; auto simp: run_from_def store_response_arm_def sresp_tags returnP_def bindP_def
      take_byte_def take_fixed_def take_rest_def failP_def put_opt_def slice_def checkP_def from_utf8_def
      split: if_splits option.splits)+

lemma strict_store_arm:
  assumes "\<And>r bs. wf_store_response r \<Longrightarrow> tag # bs = store_response_body r \<Longrightarrow>
      encodes_all (store_response_arm tag) bs r"
    and "consumes_all (store_response_arm tag)
      (\<lambda>r bs. wf_store_response r \<and> tag # bs = store_response_body r)"
    and "accepted_store_response r (tag # rest) \<longleftrightarrow> tag # rest = store_response_body r"
  shows "run_from (store_response_arm tag) (Suc 0) (tag # rest) = Inr r \<longleftrightarrow>
    wf_store_response r \<and> accepted_store_response r (tag # rest)"
  unfolding assms(3) using assms(1,2) by (intro run_from_exact) auto

lemmas response_all_put = store_all_put
  store_bytes_codec.opt_put [THEN end_put_last] u64_codec.opt_put [OF pred_option_True, THEN end_put_last]
  kv_codec.counted_put [THEN end_put_last]

lemmas response_all_tak = store_all_tak
  store_bytes_codec.opt_tak [THEN consumes_all_bind] u64_codec.opt_tak [THEN consumes_all_bind]
  kv_codec.counted_tak [THEN consumes_all_bind]

lemma collection_arms:
  "run_from (store_response_arm SRESP_COLLECTION_ENTRY) (Suc 0) (SRESP_COLLECTION_ENTRY # rest) = Inr r \<longleftrightarrow>
     wf_store_response r \<and> accepted_store_response r (SRESP_COLLECTION_ENTRY # rest)"
  "run_from (store_response_arm SRESP_COLLECTION_ENTRIES) (Suc 0) (SRESP_COLLECTION_ENTRIES # rest) = Inr r \<longleftrightarrow>
     wf_store_response r \<and> accepted_store_response r (SRESP_COLLECTION_ENTRIES # rest)"
  "run_from (store_response_arm SRESP_COLLECTION_RANK) (Suc 0) (SRESP_COLLECTION_RANK # rest) = Inr r \<longleftrightarrow>
     wf_store_response r \<and> accepted_store_response r (SRESP_COLLECTION_RANK # rest)"
  "run_from (store_response_arm SRESP_COLLECTION_COUNT) (Suc 0) (SRESP_COLLECTION_COUNT # rest) = Inr r \<longleftrightarrow>
     wf_store_response r \<and> accepted_store_response r (SRESP_COLLECTION_COUNT # rest)"
  by (rule strict_store_arm;
      (auto simp: store_response_arm_def sresp_tags elim!: store_response_body.elims [OF sym]
        intro!: response_all_put response_all_tak; fail)?;
      cases r; auto simp: sresp_tags)+

lemmas store_response_arms =
  bare_store_arms id_list_arm transfer_progress_arm identity_arm collection_arms

definition store_response_tags :: "u8 list" where
  "store_response_tags =
     [SRESP_ACK, SRESP_NEED_FULL, SRESP_VALUE, SRESP_ID_LIST, SRESP_TRANSFER_PROGRESS, SRESP_IDENTITY,
      SRESP_ERROR, SRESP_COLLECTION_ENTRY, SRESP_COLLECTION_ENTRIES, SRESP_COLLECTION_RANK,
      SRESP_COLLECTION_COUNT]"

lemma decode_store_response_exact:
  "decode_store_response b = Inr r \<longleftrightarrow>
     wf_store_response r \<and> (\<exists>body. b = STORE_PROTOCOL_VERSION # body \<and> accepted_store_response r body)"
proof -
  have ne: "\<not> accepted_store_response r []"
    by (cases r) simp_all
  have "run_from (store_response_arm tag) (Suc 0) (tag # rest) = Inr r \<longleftrightarrow>
      wf_store_response r \<and> accepted_store_response r (tag # rest)" for tag rest
  proof (cases "tag \<in> set store_response_tags")
    case True
    then show ?thesis
      unfolding store_response_tags_def by (auto simp only: list.set insert_iff empty_iff store_response_arms)
  next
    case False
    then have "\<not> accepted_store_response r (tag # rest)"
      by (cases r) (auto simp: store_response_tags_def split: if_splits)
    with False show ?thesis
      by (simp add: store_response_tags_def store_response_arm_def run_from_def failP_def)
  qed
  then show ?thesis
    using ne by (cases b; cases "tl b") (auto simp: decode_store_response_def store_check_version_def)
qed

section \<open>Properties\<close>

text \<open>The compute-to-storage request format: \<open>decode_store_request\<close> accepts exactly the encodings
  of well-formed requests (and extensions of a \<open>Transfer\<close>).\<close>

theorem store_request_decoding_exact:
  "decode_store_request b = Inr r \<longleftrightarrow>
     wf_store_request r \<and>
     (b = encode_store_request r \<or>
      (\<exists>t ids dest tl. r = STransfer t ids dest \<and> b = encode_store_request r @ tl))"
  unfolding decode_store_request_exact accepted_store_request_def encode_store_request_def
  by (cases r) auto

text \<open>The storage node's answers arrive as they were sent: every well-formed response decodes to
  itself, and a buffer that decodes was built for a well-formed response.\<close>

theorem store_response_round_trip:
  "(decode_store_response (encode_store_response r) = Inr r) = wf_store_response r \<and>
   (decode_store_response b = Inr r) =
     (wf_store_response r \<and>
      (\<exists>body. b = STORE_PROTOCOL_VERSION # body \<and> accepted_store_response r body))"
proof -
  have "accepted_store_response r (store_response_body r)"
    by (cases r) (auto intro: exI [of _ "of_bool d" for d] exI [of _ "[]"])
  then show ?thesis
    by (simp add: decode_store_response_exact encode_store_response_def)
qed

end
