(* ===== verification/Btree_Page.thy ===== *)
theory Btree_Page
  imports Prelude "HOL-Library.List_Lexorder"
begin

text \<open>
  The pages of the B+tree file: \<open>superblock.rs\<close>, \<open>page_store.rs\<close> and \<open>node.rs\<close> of
  \<open>seisin-storage\<close>. A file is the list of its bytes; a write past its end fills the gap with
  zeros. The product of a page id and the page size is the \<open>u64\<close> product, which wraps; offsets
  inside a page are naturals. A slice out of range, a \<open>copy_from_slice\<close> of the wrong length and
  a division by zero are panics, which are errors here. Failures of the disk are left out.
\<close>

section \<open>Slices that panic\<close>

definition get_slice :: "bytes \<Rightarrow> nat \<Rightarrow> nat \<Rightarrow> bytes result" where
  "get_slice buf a b =
     (if a \<le> b \<and> b \<le> length buf then Inr (slice buf a b)
      else Inl (Panic ''range end index {} out of range for slice of length {}'' [b, length buf]))"

definition copy_slice :: "nat \<Rightarrow> nat \<Rightarrow> bytes \<Rightarrow> bytes \<Rightarrow> bytes result" where
  "copy_slice a b src buf =
     (if \<not> (a \<le> b \<and> b \<le> length buf)
      then Inl (Panic ''range end index {} out of range for slice of length {}'' [b, length buf])
      else if length src \<noteq> b - a
      then Inl (Panic ''source slice length ({}) does not match destination slice length ({})'' [length src, b - a])
      else Inr (take a buf @ src @ drop b buf))"

lemma get_slice_at: "length A = a \<Longrightarrow> length B = b - a \<Longrightarrow> a \<le> b \<Longrightarrow> get_slice (A @ B @ C) a b = Inr B"
  by (simp add: get_slice_def slice_def)

lemma copy_slice_at:
  "length A = a \<Longrightarrow> length B = b - a \<Longrightarrow> length src = b - a \<Longrightarrow> a \<le> b \<Longrightarrow>
     copy_slice a b src (A @ B @ C) = Inr (A @ src @ C)"
  by (simp add: copy_slice_def)

section \<open>Superblock\<close>

definition SB_MAGIC :: bytes where "SB_MAGIC = [0x53, 0x45, 0x49, 0x53, 0x4E, 0x42, 0x54, 0x31]"
definition SB_HEADER_LEN :: nat where "SB_HEADER_LEN = 44"

record superblock =
  sb_page_size :: u32
  sb_key_size :: u32
  sb_value_size :: u32
  sb_root_page_id :: u64
  sb_total_count :: u64
  sb_next_page_id :: u64

definition is_power_of_two :: "u32 \<Rightarrow> bool" where
  "is_power_of_two w \<longleftrightarrow> (\<exists>k\<in>set [0..<32]. w = 2 ^ k)"

definition validate_page_size :: "u32 \<Rightarrow> unit result" where
  "validate_page_size page_size =
     (if page_size < 4096 then Inl (Bail ''page_size must be at least 4096, got {page_size}'' [unat page_size])
      else if \<not> is_power_of_two page_size then Inl (Bail ''page_size must be a power of 2, got {page_size}'' [unat page_size])
      else Inr ())"

definition sb_encode :: "superblock \<Rightarrow> u32 \<Rightarrow> bytes result" where
  "sb_encode sb page_size =
     bindE (copy_slice 0 8 SB_MAGIC (replicate (unat page_size) 0)) (\<lambda>buf.
     bindE (copy_slice 8 12 (u32_to_le (sb_page_size sb)) buf) (\<lambda>buf.
     bindE (copy_slice 12 16 (u32_to_le (sb_key_size sb)) buf) (\<lambda>buf.
     bindE (copy_slice 16 20 (u32_to_le (sb_value_size sb)) buf) (\<lambda>buf.
     bindE (copy_slice 20 28 (u64_to_le (sb_root_page_id sb)) buf) (\<lambda>buf.
     bindE (copy_slice 28 36 (u64_to_le (sb_total_count sb)) buf) (\<lambda>buf.
     copy_slice 36 44 (u64_to_le (sb_next_page_id sb)) buf))))))"

definition sb_decode :: "bytes \<Rightarrow> superblock result" where
  "sb_decode bs =
     (if length bs < SB_HEADER_LEN then Inl (Bail ''superblock page is too short to contain a header'' [])
      else if slice bs 0 8 \<noteq> SB_MAGIC then Inl (Bail ''not a seisin-storage B+Tree file (magic mismatch)'' [])
      else
        let page_size = u32_from_le (slice bs 8 12);
            key_size = u32_from_le (slice bs 12 16);
            value_size = u32_from_le (slice bs 16 20);
            root_page_id = u64_from_le (slice bs 20 28);
            total_count = u64_from_le (slice bs 28 36);
            next_page_id = u64_from_le (slice bs 36 44)
        in bindE (validate_page_size page_size) (\<lambda>_. Inr
             \<lparr>sb_page_size = page_size, sb_key_size = key_size, sb_value_size = value_size,
              sb_root_page_id = root_page_id, sb_total_count = total_count, sb_next_page_id = next_page_id\<rparr>))"

section \<open>Page store\<close>

record page_store =
  ps_file :: bytes
  ps_page_size :: u32

definition ps_create :: "u32 \<Rightarrow> page_store" where
  "ps_create page_size = \<lparr>ps_file = [], ps_page_size = page_size\<rparr>"

definition ps_open :: "bytes \<Rightarrow> u32 \<Rightarrow> page_store" where
  "ps_open f page_size = \<lparr>ps_file = f, ps_page_size = page_size\<rparr>"

definition page_offset :: "page_store \<Rightarrow> u64 \<Rightarrow> nat" where
  "page_offset s i = unat (i * ucast (ps_page_size s))"

definition read_page :: "page_store \<Rightarrow> u64 \<Rightarrow> bytes" where
  "read_page s i =
     (let offset = page_offset s i;
          buf = replicate (unat (ps_page_size s)) 0;
          file_len = length (ps_file s);
          to_read = unat (ps_page_size s)
      in if offset \<ge> file_len then buf
         else if offset + to_read > file_len
         then let available = file_len - offset
              in slice (ps_file s) offset (offset + available) @ drop available buf
         else slice (ps_file s) offset (offset + to_read))"

definition write_page :: "page_store \<Rightarrow> u64 \<Rightarrow> bytes \<Rightarrow> page_store result" where
  "write_page s i bs =
     (if length bs \<noteq> unat (ps_page_size s)
      then Inl (Bail ''write_page expected exactly {} bytes, got {}'' [unat (ps_page_size s), length bs])
      else
        let offset = page_offset s i;
            padded = ps_file s @ replicate (offset - length (ps_file s)) 0
        in Inr (s\<lparr>ps_file := take offset padded @ bs @ drop (offset + length bs) padded\<rparr>))"

definition ps_truncate :: "page_store \<Rightarrow> page_store" where
  "ps_truncate s = s\<lparr>ps_file := []\<rparr>"

section \<open>Leaves\<close>

definition NODE_HEADER_LEN :: nat where "NODE_HEADER_LEN = 32"
definition LEAF_PAGE_TYPE :: u8 where "LEAF_PAGE_TYPE = 0"
definition INTERNAL_PAGE_TYPE :: u8 where "INTERNAL_PAGE_TYPE = 1"

definition capacity :: "u32 \<Rightarrow> nat \<Rightarrow> nat result" where
  "capacity page_size record_len =
     (if record_len = 0 then Inl (Panic ''attempt to divide by zero'' [])
      else Inr ((unat page_size - NODE_HEADER_LEN) div record_len))"

definition max_leaf_entries :: "u32 \<Rightarrow> u32 \<Rightarrow> u32 \<Rightarrow> nat result" where
  "max_leaf_entries page_size key_size value_size = capacity page_size (unat key_size + unat value_size)"

record leaf_node =
  ln_prev :: u64
  ln_next :: u64
  ln_entries :: "(bytes \<times> bytes) list"

definition page_header :: "u32 \<Rightarrow> u8 \<Rightarrow> u64 \<Rightarrow> u64 \<Rightarrow> nat \<Rightarrow> bytes result" where
  "page_header page_size kind a b count =
     bindE (copy_slice 0 1 [kind] (replicate (unat page_size) 0)) (\<lambda>buf.
     bindE (copy_slice 8 16 (u64_to_le a) buf) (\<lambda>buf.
     bindE (copy_slice 16 24 (u64_to_le b) buf) (\<lambda>buf.
     copy_slice 24 28 (u32_to_le (as_u32 count)) buf)))"

fun encode_leaf_entries :: "nat \<Rightarrow> nat \<Rightarrow> (bytes \<times> bytes) list \<Rightarrow> nat \<Rightarrow> bytes \<Rightarrow> bytes result" where
  "encode_leaf_entries ks vs [] offset buf = Inr buf"
| "encode_leaf_entries ks vs ((key, v) # es) offset buf =
     bindE (copy_slice offset (offset + ks) key buf) (\<lambda>buf.
     bindE (copy_slice (offset + ks) (offset + (ks + vs)) v buf) (\<lambda>buf.
     encode_leaf_entries ks vs es (offset + (ks + vs)) buf))"

definition encode_leaf :: "leaf_node \<Rightarrow> u32 \<Rightarrow> u32 \<Rightarrow> u32 \<Rightarrow> bytes result" where
  "encode_leaf node page_size key_size value_size =
     bindE (page_header page_size LEAF_PAGE_TYPE (ln_prev node) (ln_next node) (length (ln_entries node)))
       (encode_leaf_entries (unat key_size) (unat value_size) (ln_entries node) NODE_HEADER_LEN)"

fun decode_leaf_entries :: "nat \<Rightarrow> nat \<Rightarrow> nat \<Rightarrow> nat \<Rightarrow> bytes \<Rightarrow> (bytes \<times> bytes) list result" where
  "decode_leaf_entries ks vs 0 offset bs = Inr []"
| "decode_leaf_entries ks vs (Suc n) offset bs =
     bindE (get_slice bs offset (offset + ks)) (\<lambda>key.
     bindE (get_slice bs (offset + ks) (offset + (ks + vs))) (\<lambda>v.
     bindE (decode_leaf_entries ks vs n (offset + (ks + vs)) bs) (\<lambda>es. Inr ((key, v) # es))))"

definition first_byte :: "bytes \<Rightarrow> u8 option" where
  "first_byte bs = (case bs of [] \<Rightarrow> None | b # _ \<Rightarrow> Some b)"

definition decode_leaf :: "bytes \<Rightarrow> u32 \<Rightarrow> u32 \<Rightarrow> leaf_node result" where
  "decode_leaf bs key_size value_size =
     (if first_byte bs \<noteq> Some LEAF_PAGE_TYPE then Inl (Bail ''page is not a leaf page (wrong page_type byte)'' [])
      else
        bindE (get_slice bs 8 16) (\<lambda>prev.
        bindE (get_slice bs 16 24) (\<lambda>next.
        bindE (get_slice bs 24 28) (\<lambda>count.
        bindE (decode_leaf_entries (unat key_size) (unat value_size) (unat (u32_from_le count)) NODE_HEADER_LEN bs) (\<lambda>es.
        Inr \<lparr>ln_prev = u64_from_le prev, ln_next = u64_from_le next, ln_entries = es\<rparr>)))))"

section \<open>Internal nodes\<close>

definition max_internal_entries :: "u32 \<Rightarrow> u32 \<Rightarrow> nat result" where
  "max_internal_entries page_size key_size = capacity page_size (unat key_size + 16)"

record internal_node =
  in_entries :: "(bytes \<times> u64 \<times> u64) list"
  rightmost_child :: u64
  rightmost_count :: u64

fun encode_internal_entries :: "nat \<Rightarrow> (bytes \<times> u64 \<times> u64) list \<Rightarrow> nat \<Rightarrow> bytes \<Rightarrow> bytes result" where
  "encode_internal_entries ks [] offset buf = Inr buf"
| "encode_internal_entries ks ((key, child, count) # es) offset buf =
     (let child_offset = offset + ks in
      bindE (copy_slice offset (offset + ks) key buf) (\<lambda>buf.
      bindE (copy_slice child_offset (child_offset + 8) (u64_to_le child) buf) (\<lambda>buf.
      bindE (copy_slice (child_offset + 8) (child_offset + 16) (u64_to_le count) buf) (\<lambda>buf.
      encode_internal_entries ks es (offset + (ks + 16)) buf))))"

definition encode_internal :: "internal_node \<Rightarrow> u32 \<Rightarrow> u32 \<Rightarrow> bytes result" where
  "encode_internal node page_size key_size =
     bindE (page_header page_size INTERNAL_PAGE_TYPE (rightmost_child node) (rightmost_count node) (length (in_entries node)))
       (encode_internal_entries (unat key_size) (in_entries node) NODE_HEADER_LEN)"

fun decode_internal_entries :: "nat \<Rightarrow> nat \<Rightarrow> nat \<Rightarrow> bytes \<Rightarrow> (bytes \<times> u64 \<times> u64) list result" where
  "decode_internal_entries ks 0 offset bs = Inr []"
| "decode_internal_entries ks (Suc n) offset bs =
     (let child_offset = offset + ks in
      bindE (get_slice bs offset (offset + ks)) (\<lambda>key.
      bindE (get_slice bs child_offset (child_offset + 8)) (\<lambda>child.
      bindE (get_slice bs (child_offset + 8) (child_offset + 16)) (\<lambda>count.
      bindE (decode_internal_entries ks n (offset + (ks + 16)) bs) (\<lambda>es.
      Inr ((key, u64_from_le child, u64_from_le count) # es))))))"

definition decode_internal :: "bytes \<Rightarrow> u32 \<Rightarrow> internal_node result" where
  "decode_internal bs key_size =
     (if first_byte bs \<noteq> Some INTERNAL_PAGE_TYPE then Inl (Bail ''page is not an internal page (wrong page_type byte)'' [])
      else
        bindE (get_slice bs 8 16) (\<lambda>child.
        bindE (get_slice bs 16 24) (\<lambda>cnt.
        bindE (get_slice bs 24 28) (\<lambda>count.
        bindE (decode_internal_entries (unat key_size) (unat (u32_from_le count)) NODE_HEADER_LEN bs) (\<lambda>es.
        Inr \<lparr>in_entries = es, rightmost_child = u64_from_le child, rightmost_count = u64_from_le cnt\<rparr>)))))"

datatype page_kind = LeafKind | InternalKind

definition page_type :: "bytes \<Rightarrow> page_kind result" where
  "page_type bs =
     (if first_byte bs = Some LEAF_PAGE_TYPE then Inr LeafKind
      else if first_byte bs = Some INTERNAL_PAGE_TYPE then Inr InternalKind
      else Inl (Bail ''unrecognized page type byte'' []))"

section \<open>A page store is an array of pages\<close>

text \<open>The byte at a position of the file, zero past its end.\<close>

definition byte_at :: "bytes \<Rightarrow> nat \<Rightarrow> u8" where
  "byte_at f j = (if j < length f then f ! j else 0)"

lemma read_page_bytes:
  "read_page s i = map (\<lambda>j. byte_at (ps_file s) (page_offset s i + j)) [0..<unat (ps_page_size s)]"
  by (rule nth_equalityI) (auto simp: read_page_def Let_def byte_at_def slice_def nth_append)

lemma length_read_page [simp]: "length (read_page s i) = unat (ps_page_size s)"
  by (simp add: read_page_bytes)

lemma write_page_bytes:
  assumes "write_page s i bs = Inr s'"
  shows "byte_at (ps_file s') j =
    (if page_offset s i \<le> j \<and> j < page_offset s i + length bs then bs ! (j - page_offset s i) else byte_at (ps_file s) j)"
  using assms by (auto simp: write_page_def Let_def byte_at_def nth_append min_def split: if_splits)

lemma write_page_ok:
  "length bs = unat (ps_page_size s) \<Longrightarrow> \<exists>s'. write_page s i bs = Inr s' \<and> ps_page_size s' = ps_page_size s"
  by (simp add: write_page_def Let_def)

text \<open>A page id is addressable when its page ends below \<open>2 ^ 64\<close>: its offset does not wrap.\<close>

definition addressable :: "u32 \<Rightarrow> nat \<Rightarrow> bool" where
  "addressable page_size i \<longleftrightarrow> Suc i * unat page_size \<le> 2 ^ 64"

lemma page_offset_addressable:
  assumes "addressable (ps_page_size s) i" and pos: "0 < unat (ps_page_size s)"
  shows "page_offset s (word_of_nat i) = i * unat (ps_page_size s)"
proof -
  have "i * unat (ps_page_size s) < Suc i * unat (ps_page_size s)" using pos by simp
  then have "i * unat (ps_page_size s) < 2 ^ 64" using assms(1) unfolding addressable_def by linarith
  moreover have e: "word_of_nat i * ucast (ps_page_size s) = (word_of_nat (i * unat (ps_page_size s)) :: u64)"
    by (simp add: of_nat_unat)
  ultimately show ?thesis unfolding page_offset_def e by (simp add: unat_of_nat del: of_nat_mult)
qed

lemma read_write_page:
  assumes w: "write_page s (word_of_nat i) bs = Inr s'"
    and i: "addressable (ps_page_size s) i" and j: "addressable (ps_page_size s) j" and pos: "0 < unat (ps_page_size s)"
  shows "read_page s' (word_of_nat j) = (if j = i then bs else read_page s (word_of_nat j))"
proof -
  let ?p = "unat (ps_page_size s)"
  have len: "length bs = ?p" and sz: "ps_page_size s' = ps_page_size s"
    using w by (auto simp: write_page_def Let_def split: if_splits)
  have oi: "page_offset s (word_of_nat i) = i * ?p" and oj: "page_offset s' (word_of_nat j) = j * ?p"
    "page_offset s (word_of_nat j) = j * ?p"
    using page_offset_addressable i j pos sz by simp_all
  have apart: "\<not> (i * ?p \<le> j * ?p + k \<and> j * ?p + k < i * ?p + ?p)" if "j \<noteq> i" "k < ?p" for k
  proof (cases "j < i")
    case True
    then have "Suc j * ?p \<le> i * ?p" by (intro mult_le_mono1) simp
    with that show ?thesis by simp
  next
    case False
    then have "Suc i * ?p \<le> j * ?p" using that by (intro mult_le_mono1) simp
    then show ?thesis by simp
  qed
  show ?thesis
    by (rule nth_equalityI)
      (use apart in \<open>auto simp: read_page_bytes sz len write_page_bytes [OF w] oi oj\<close>)
qed

section \<open>Decoding what was encoded\<close>

lemma copy_slice_zeros:
  assumes "length A = a" "length src = b - a" "a \<le> b" "b - a \<le> m"
  shows "copy_slice a b src (A @ replicate m 0) = Inr (A @ src @ replicate (m - (b - a)) 0)"
proof -
  have "replicate m (0 :: u8) = replicate (b - a) 0 @ replicate (m - (b - a)) 0"
    using assms(4) by (simp add: replicate_add [symmetric])
  then show ?thesis using assms copy_slice_at [of A a "replicate (b - a) 0" b src] by simp
qed

lemma encode_leaf_entries_eq:
  assumes "\<forall>(key, v)\<in>set es. length key = ks \<and> length v = vs" "length A = off" "length es * (ks + vs) \<le> m"
  shows "encode_leaf_entries ks vs es off (A @ replicate m 0) =
    Inr (A @ concat (map (\<lambda>(key, v). key @ v) es) @ replicate (m - length es * (ks + vs)) 0)"
  using assms
proof (induction es arbitrary: A off m)
  case (Cons e es)
  obtain key v where e: "e = (key, v)" by force
  from Cons.prems have l: "length key = ks" "length v = vs" "ks + vs + length es * (ks + vs) \<le> m" by (auto simp: e)
  have "copy_slice (off + ks) (off + (ks + vs)) v ((A @ key) @ replicate (m - ks) 0) =
      Inr ((A @ key) @ v @ replicate (m - ks - vs) 0)"
    using copy_slice_zeros [of "A @ key" "off + ks" v "off + (ks + vs)" "m - ks"] l Cons.prems(2) by simp
  with Cons.IH [of "A @ key @ v" "off + (ks + vs)" "m - ks - vs"] Cons.prems l show ?case
    by (simp add: e copy_slice_zeros algebra_simps)
qed simp

lemma decode_leaf_entries_eq:
  assumes "\<forall>(key, v)\<in>set es. length key = ks \<and> length v = vs" "length A = off"
  shows "decode_leaf_entries ks vs (length es) off (A @ concat (map (\<lambda>(key, v). key @ v) es) @ C) = Inr es"
  using assms
proof (induction es arbitrary: A off)
  case (Cons e es)
  obtain key v where e: "e = (key, v)" by force
  from Cons.prems have l: "length key = ks" "length v = vs" by (auto simp: e)
  have "get_slice (A @ key @ v @ rest) off (off + ks) = Inr key"
    "get_slice (A @ key @ v @ rest) (off + ks) (off + (ks + vs)) = Inr v" for rest
    using get_slice_at [of A off key "off + ks"] get_slice_at [of "A @ key" "off + ks" v "off + (ks + vs)"] l Cons.prems(2)
    by simp_all
  with Cons.IH [of "A @ key @ v" "off + (ks + vs)"] Cons.prems l show ?case by (simp add: e)
qed simp

abbreviation internal_bytes :: "bytes \<times> u64 \<times> u64 \<Rightarrow> bytes" where
  "internal_bytes \<equiv> \<lambda>(key, child, count). key @ u64_to_le child @ u64_to_le count"

lemma encode_internal_entries_eq:
  assumes "\<forall>(key, _)\<in>set es. length key = ks" "length A = off" "length es * (ks + 16) \<le> m"
  shows "encode_internal_entries ks es off (A @ replicate m 0) =
    Inr (A @ concat (map internal_bytes es) @ replicate (m - length es * (ks + 16)) 0)"
  using assms
proof (induction es arbitrary: A off m)
  case (Cons e es)
  obtain key child cnt where e: "e = (key, child, cnt)" using prod_cases3 by blast
  from Cons.prems have l: "length key = ks" "ks + 16 + length es * (ks + 16) \<le> m" by (auto simp: e)
  have "copy_slice (off + ks) (off + ks + 8) (u64_to_le child) ((A @ key) @ replicate (m - ks) 0) =
      Inr ((A @ key @ u64_to_le child) @ replicate (m - ks - 8) 0)"
    "copy_slice (off + ks + 8) (off + ks + 16) (u64_to_le cnt) ((A @ key @ u64_to_le child) @ replicate (m - ks - 8) 0) =
      Inr ((A @ key @ u64_to_le child) @ u64_to_le cnt @ replicate (m - ks - 16) 0)"
    using copy_slice_zeros [of "A @ key" "off + ks" "u64_to_le child" "off + ks + 8" "m - ks"]
      copy_slice_zeros [of "A @ key @ u64_to_le child" "off + ks + 8" "u64_to_le cnt" "off + ks + 16" "m - ks - 8"] l Cons.prems(2)
    by simp_all
  with Cons.IH [of "A @ key @ u64_to_le child @ u64_to_le cnt" "off + (ks + 16)" "m - ks - 16"] Cons.prems l show ?case
    by (simp add: e copy_slice_zeros Let_def algebra_simps)
qed simp

lemma decode_internal_entries_eq:
  assumes "\<forall>(key, _)\<in>set es. length key = ks" "length A = off"
  shows "decode_internal_entries ks (length es) off (A @ concat (map internal_bytes es) @ C) = Inr es"
  using assms
proof (induction es arbitrary: A off)
  case (Cons e es)
  obtain key child cnt where e: "e = (key, child, cnt)" using prod_cases3 by blast
  from Cons.prems have l: "length key = ks" by (auto simp: e)
  have "get_slice (A @ key @ u64_to_le child @ u64_to_le cnt @ rest) off (off + ks) = Inr key"
    "get_slice (A @ key @ u64_to_le child @ u64_to_le cnt @ rest) (off + ks) (off + ks + 8) = Inr (u64_to_le child)"
    "get_slice (A @ key @ u64_to_le child @ u64_to_le cnt @ rest) (off + ks + 8) (off + ks + 16) = Inr (u64_to_le cnt)" for rest
    using get_slice_at [of A off key "off + ks"] get_slice_at [of "A @ key" "off + ks" "u64_to_le child" "off + ks + 8"]
      get_slice_at [of "A @ key @ u64_to_le child" "off + ks + 8" "u64_to_le cnt" "off + ks + 16"] l Cons.prems(2)
    by simp_all
  with Cons.IH [of "A @ key @ u64_to_le child @ u64_to_le cnt" "off + (ks + 16)"] Cons.prems l show ?case
    by (simp add: e Let_def)
qed simp

text \<open>The 32 bytes of a page's header, and what the decoders read of them.\<close>

definition header_bytes :: "u8 \<Rightarrow> u64 \<Rightarrow> u64 \<Rightarrow> nat \<Rightarrow> bytes" where
  "header_bytes kind a b count =
     kind # replicate 7 0 @ u64_to_le a @ u64_to_le b @ u32_to_le (as_u32 count) @ replicate 4 0"

lemma length_header_bytes [simp]: "length (header_bytes kind a b count) = NODE_HEADER_LEN"
  by (simp add: header_bytes_def NODE_HEADER_LEN_def)

lemma page_header_eq:
  assumes "NODE_HEADER_LEN \<le> unat page_size"
  shows "page_header page_size kind a b count =
    Inr (header_bytes kind a b count @ replicate (unat page_size - NODE_HEADER_LEN) 0)"
proof -
  obtain m where m: "unat page_size = 32 + m" using assms by (metis NODE_HEADER_LEN_def le_iff_add)
  let ?z = "\<lambda>n. replicate n (0 :: u8)"
  have "?z (unat page_size) = [] @ ?z 1 @ ?z 7 @ ?z 8 @ ?z 8 @ ?z 4 @ ?z 4 @ ?z m"
    by (simp add: m replicate_add [symmetric] del: replicate_Suc append_Nil)
  then have "page_header page_size kind a b count =
      bindE (copy_slice 8 16 (u64_to_le a) (([kind] @ ?z 7) @ ?z 8 @ ?z 8 @ ?z 4 @ ?z 4 @ ?z m)) (\<lambda>buf.
      bindE (copy_slice 16 24 (u64_to_le b) buf) (copy_slice 24 28 (u32_to_le (as_u32 count))))"
    unfolding page_header_def by (simp only:) (subst copy_slice_at, simp_all)
  also have "\<dots> = bindE (copy_slice 16 24 (u64_to_le b) (([kind] @ ?z 7 @ u64_to_le a) @ ?z 8 @ ?z 4 @ ?z 4 @ ?z m))
      (copy_slice 24 28 (u32_to_le (as_u32 count)))"
    by (subst copy_slice_at) simp_all
  also have "\<dots> = copy_slice 24 28 (u32_to_le (as_u32 count)) (([kind] @ ?z 7 @ u64_to_le a @ u64_to_le b) @ ?z 4 @ ?z 4 @ ?z m)"
    by (subst copy_slice_at) simp_all
  also have "\<dots> = Inr (header_bytes kind a b count @ ?z (unat page_size - NODE_HEADER_LEN))"
    by (subst copy_slice_at) (simp_all add: header_bytes_def m NODE_HEADER_LEN_def)
  finally show ?thesis .
qed

lemma header_slices:
  "get_slice (header_bytes kind a b count @ rest) 8 16 = Inr (u64_to_le a)"
  "get_slice (header_bytes kind a b count @ rest) 16 24 = Inr (u64_to_le b)"
  "get_slice (header_bytes kind a b count @ rest) 24 28 = Inr (u32_to_le (as_u32 count))"
  "first_byte (header_bytes kind a b count @ rest) = Some kind"
  using get_slice_at [of "kind # replicate 7 0" 8 "u64_to_le a" 16 "u64_to_le b @ u32_to_le (as_u32 count) @ replicate 4 0 @ rest"]
    get_slice_at [of "kind # replicate 7 0 @ u64_to_le a" 16 "u64_to_le b" 24 "u32_to_le (as_u32 count) @ replicate 4 0 @ rest"]
    get_slice_at [of "kind # replicate 7 0 @ u64_to_le a @ u64_to_le b" 24 "u32_to_le (as_u32 count)" 28 "replicate 4 0 @ rest"]
  by (simp_all add: header_bytes_def first_byte_def del: replicate_Suc)

text \<open>Nodes that fit a page of the given sizes.\<close>

definition leaf_fits :: "u32 \<Rightarrow> u32 \<Rightarrow> u32 \<Rightarrow> leaf_node \<Rightarrow> bool" where
  "leaf_fits page_size key_size value_size node \<longleftrightarrow>
     (\<forall>(key, v)\<in>set (ln_entries node). length key = unat key_size \<and> length v = unat value_size) \<and>
     NODE_HEADER_LEN + length (ln_entries node) * (unat key_size + unat value_size) \<le> unat page_size \<and>
     length (ln_entries node) < 2 ^ 32"

definition internal_fits :: "u32 \<Rightarrow> u32 \<Rightarrow> internal_node \<Rightarrow> bool" where
  "internal_fits page_size key_size node \<longleftrightarrow>
     (\<forall>(key, _)\<in>set (in_entries node). length key = unat key_size) \<and>
     NODE_HEADER_LEN + length (in_entries node) * (unat key_size + 16) \<le> unat page_size"

lemma length_concat_const: "\<forall>x\<in>set xs. length (f x) = n \<Longrightarrow> length (concat (map f xs)) = length xs * n"
  by (induction xs) auto

lemma encode_leaf_fits:
  assumes "leaf_fits ps ks vs node"
  shows "\<exists>bs. encode_leaf node ps ks vs = Inr bs \<and> length bs = unat ps \<and> page_type bs = Inr LeafKind \<and>
    decode_leaf bs ks vs = Inr node"
proof -
  let ?es = "ln_entries node"
  let ?h = "header_bytes LEAF_PAGE_TYPE (ln_prev node) (ln_next node) (length ?es)"
  let ?r = "length ?es * (unat ks + unat vs)"
  let ?c = "concat (map (\<lambda>(key, v). key @ v) ?es)"
  have sizes: "\<forall>(key, v)\<in>set ?es. length key = unat ks \<and> length v = unat vs"
    and room: "NODE_HEADER_LEN + ?r \<le> unat ps" and cnt: "length ?es < 2 ^ 32"
    using assms by (auto simp: leaf_fits_def)
  let ?z = "replicate (unat ps - NODE_HEADER_LEN - ?r) (0 :: u8)"
  have enc: "encode_leaf node ps ks vs = Inr (?h @ ?c @ ?z)"
    unfolding encode_leaf_def using room sizes
    by (simp add: page_header_eq encode_leaf_entries_eq)
  have "length ?c = ?r" using sizes by (intro length_concat_const) auto
  then have "length (?h @ ?c @ ?z) = unat ps" using room by simp
  moreover have "decode_leaf (?h @ ?c @ ?z) ks vs = Inr node"
    unfolding decode_leaf_def using decode_leaf_entries_eq [OF sizes, of ?h NODE_HEADER_LEN ?z] cnt
    by (simp add: header_slices)
  ultimately show ?thesis using enc by (simp add: page_type_def header_slices)
qed


lemma encode_internal_fits:
  assumes "internal_fits ps ks node"
  shows "\<exists>bs. encode_internal node ps ks = Inr bs \<and> length bs = unat ps \<and> page_type bs = Inr InternalKind \<and>
    decode_internal bs ks = Inr node"
proof -
  let ?es = "in_entries node"
  let ?h = "header_bytes INTERNAL_PAGE_TYPE (rightmost_child node) (rightmost_count node) (length ?es)"
  let ?r = "length ?es * (unat ks + 16)"
  let ?c = "concat (map internal_bytes ?es)"
  have sizes: "\<forall>(key, _)\<in>set ?es. length key = unat ks" and room: "NODE_HEADER_LEN + ?r \<le> unat ps"
    using assms by (auto simp: internal_fits_def)
  have "length ?es \<le> ?r" using mult_le_mono2 [of 1 "unat ks + 16" "length ?es"] by simp
  moreover have "unat ps < 2 ^ 32" using unsigned_less [of ps, where ?'a = nat] by simp
  ultimately have cnt: "length ?es < 2 ^ 32" using room by linarith
  let ?z = "replicate (unat ps - NODE_HEADER_LEN - ?r) (0 :: u8)"
  have enc: "encode_internal node ps ks = Inr (?h @ ?c @ ?z)"
    unfolding encode_internal_def using room sizes
    by (simp add: page_header_eq encode_internal_entries_eq)
  have "length ?c = ?r" using sizes by (intro length_concat_const) auto
  then have "length (?h @ ?c @ ?z) = unat ps" using room by simp
  moreover have "decode_internal (?h @ ?c @ ?z) ks = Inr node"
    unfolding decode_internal_def using decode_internal_entries_eq [OF sizes, of ?h NODE_HEADER_LEN ?z] cnt
    by (simp add: header_slices)
  ultimately show ?thesis using enc
    by (simp add: page_type_def header_slices LEAF_PAGE_TYPE_def INTERNAL_PAGE_TYPE_def)
qed

lemma sb_encode_eq:
  assumes "SB_HEADER_LEN \<le> unat ps"
  shows "sb_encode sb ps = Inr (SB_MAGIC @ u32_to_le (sb_page_size sb) @ u32_to_le (sb_key_size sb) @ u32_to_le (sb_value_size sb) @
    u64_to_le (sb_root_page_id sb) @ u64_to_le (sb_total_count sb) @ u64_to_le (sb_next_page_id sb) @
    replicate (unat ps - SB_HEADER_LEN) 0)"
proof -
  have zeros: "copy_slice a b src (A @ replicate m 0) = Inr ((A @ src) @ replicate (m - (b - a)) 0)"
    if "length A = a" "length src = b - a" "a \<le> b" "b - a \<le> m" for A a b src m
    using copy_slice_zeros that by simp
  have m: "SB_HEADER_LEN \<le> unat ps" "length SB_MAGIC = 8" using assms by (simp_all add: SB_MAGIC_def)
  then show ?thesis
    unfolding sb_encode_def SB_HEADER_LEN_def
    using zeros [of "[]" 0 SB_MAGIC 8 "unat ps"]
    by (simp del: append_assoc add: zeros)
qed

lemma sb_decode_encode:
  assumes "validate_page_size (sb_page_size sb) = Inr ()" "SB_HEADER_LEN \<le> unat ps"
  shows "\<exists>bs. sb_encode sb ps = Inr bs \<and> length bs = unat ps \<and> page_type bs = Inl (Bail ''unrecognized page type byte'' []) \<and>
    sb_decode (take SB_HEADER_LEN bs) = Inr sb"
  unfolding sb_encode_eq [OF assms(2)] using assms
  by (simp add: sb_decode_def slice_def SB_HEADER_LEN_def SB_MAGIC_def page_type_def first_byte_def
      LEAF_PAGE_TYPE_def INTERNAL_PAGE_TYPE_def)

end
