(* ===== verification/Btree.thy ===== *)
theory Btree
  imports Btree_Page
begin

text \<open>
  The counted B+tree, \<open>seisin-storage/src/btree.rs\<close>, over the pages of \<open>Btree_Page\<close>. The tree is
  the record of its fields; a method that changes it returns the changed record. A descent
  follows page ids read from the file and need not end on a damaged one, so the loops are partial
  functions whose value \<open>None\<close> is not returning; that they return on every tree the operations
  build is proved. Counts and page ids are 64-bit words, ranks inside a page are naturals. What a
  method leaves behind when it fails half way is not described: on the trees the operations build
  only the size checks at the start of a method fail.
\<close>

record btree =
  bt_store :: page_store
  bt_page_size :: u32
  bt_key_size :: u32
  bt_value_size :: u32
  root_page_id :: u64
  total_count :: u64
  next_page_id :: u64
  bt_max_leaf :: nat
  bt_max_internal :: nat

definition NULL_PAGE :: u64 where "NULL_PAGE = 0"

section \<open>Reading and writing nodes\<close>

definition on_store :: "btree \<Rightarrow> page_store result \<Rightarrow> btree result" where
  "on_store b r = bindE r (\<lambda>s. Inr (b\<lparr>bt_store := s\<rparr>))"

definition write_superblock :: "btree \<Rightarrow> btree result" where
  "write_superblock b =
     (let sb = \<lparr>sb_page_size = bt_page_size b, sb_key_size = bt_key_size b, sb_value_size = bt_value_size b,
                sb_root_page_id = root_page_id b, sb_total_count = total_count b, sb_next_page_id = next_page_id b\<rparr>
      in bindE (sb_encode sb (bt_page_size b)) (\<lambda>bs. on_store b (write_page (bt_store b) 0 bs)))"

definition allocate_page :: "btree \<Rightarrow> u64 \<times> btree" where
  "allocate_page b = (next_page_id b, b\<lparr>next_page_id := next_page_id b + 1\<rparr>)"

definition read_leaf :: "btree \<Rightarrow> u64 \<Rightarrow> leaf_node result" where
  "read_leaf b i = decode_leaf (read_page (bt_store b) i) (bt_key_size b) (bt_value_size b)"

definition write_leaf :: "btree \<Rightarrow> u64 \<Rightarrow> leaf_node \<Rightarrow> btree result" where
  "write_leaf b i node =
     bindE (encode_leaf node (bt_page_size b) (bt_key_size b) (bt_value_size b))
       (\<lambda>bs. on_store b (write_page (bt_store b) i bs))"

definition read_internal :: "btree \<Rightarrow> u64 \<Rightarrow> internal_node result" where
  "read_internal b i = decode_internal (read_page (bt_store b) i) (bt_key_size b)"

definition write_internal :: "btree \<Rightarrow> u64 \<Rightarrow> internal_node \<Rightarrow> btree result" where
  "write_internal b i node =
     bindE (encode_internal node (bt_page_size b) (bt_key_size b))
       (\<lambda>bs. on_store b (write_page (bt_store b) i bs))"

text \<open>
  Every descent starts a round with \<open>read_page\<close>, \<open>page_type\<close> and the decoder of that type.
\<close>

datatype page = LeafPage leaf_node | InternalPage internal_node

definition read_node :: "btree \<Rightarrow> u64 \<Rightarrow> page result" where
  "read_node b i =
     (let bs = read_page (bt_store b) i in
      bindE (page_type bs) (\<lambda>kind. case kind of
        LeafKind \<Rightarrow> bindE (decode_leaf bs (bt_key_size b) (bt_value_size b)) (\<lambda>n. Inr (LeafPage n))
      | InternalKind \<Rightarrow> bindE (decode_internal bs (bt_key_size b)) (\<lambda>n. Inr (InternalPage n))))"

section \<open>Creating and opening\<close>

definition empty_leaf :: leaf_node where
  "empty_leaf = \<lparr>ln_prev = NULL_PAGE, ln_next = NULL_PAGE, ln_entries = []\<rparr>"

definition btree_create :: "u32 \<Rightarrow> u32 \<Rightarrow> u32 \<Rightarrow> btree result" where
  "btree_create key_size value_size page_size =
     bindE (validate_page_size page_size) (\<lambda>_.
     bindE (max_leaf_entries page_size key_size value_size) (\<lambda>max_leaf.
     bindE (max_internal_entries page_size key_size) (\<lambda>max_internal.
     if max_leaf = 0 then Inl (Bail ''key_size + value_size too large for page_size {page_size}'' [unat page_size])
     else if max_internal = 0
     then Inl (Bail ''key_size too large for page_size {page_size} (internal node capacity)'' [unat page_size])
     else
       bindE (encode_leaf empty_leaf page_size key_size value_size) (\<lambda>bs.
       bindE (write_page (ps_create page_size) 1 bs) (\<lambda>store.
       write_superblock
         \<lparr>bt_store = store, bt_page_size = page_size, bt_key_size = key_size, bt_value_size = value_size,
          root_page_id = 1, total_count = 0, next_page_id = 2,
          bt_max_leaf = max_leaf, bt_max_internal = max_internal\<rparr>)))))"

definition btree_open :: "bytes \<Rightarrow> btree result" where
  "btree_open f =
     (if length f < 44 then Inl (Bail ''failed to fill whole buffer'' [])
      else
        bindE (sb_decode (take 44 f)) (\<lambda>sb.
        bindE (max_leaf_entries (sb_page_size sb) (sb_key_size sb) (sb_value_size sb)) (\<lambda>max_leaf.
        bindE (max_internal_entries (sb_page_size sb) (sb_key_size sb)) (\<lambda>max_internal.
        Inr \<lparr>bt_store = ps_open f (sb_page_size sb), bt_page_size = sb_page_size sb,
             bt_key_size = sb_key_size sb, bt_value_size = sb_value_size sb,
             root_page_id = sb_root_page_id sb, total_count = sb_total_count sb,
             next_page_id = sb_next_page_id sb, bt_max_leaf = max_leaf, bt_max_internal = max_internal\<rparr>))))"

definition btree_len :: "btree \<Rightarrow> nat" where
  "btree_len b = unat (total_count b)"

definition btree_is_empty :: "btree \<Rightarrow> bool" where
  "btree_is_empty b \<longleftrightarrow> total_count b = 0"

section \<open>Binary search\<close>

text \<open>The loop of \<open>slice::binary_search_by\<close> of the standard library.\<close>

datatype search = OkAt nat | ErrAt nat

function search_loop :: "(bytes \<times> 'v) list \<Rightarrow> bytes \<Rightarrow> nat \<Rightarrow> nat \<Rightarrow> nat" where
  "search_loop es key base sz =
     (if sz > 1 then
        let half = sz div 2; mid = base + half
        in search_loop es key (if fst (es ! mid) > key then base else mid) (sz - half)
      else base)"
  by pat_completeness auto
termination
  by (relation "measure (\<lambda>(es, key, base, sz). sz)") auto

declare search_loop.simps [simp del]

definition binary_search :: "(bytes \<times> 'v) list \<Rightarrow> bytes \<Rightarrow> search" where
  "binary_search es key =
     (if es = [] then ErrAt 0
      else
        let base = search_loop es key 0 (length es) in
        if fst (es ! base) = key then OkAt base
        else ErrAt (base + (if fst (es ! base) < key then 1 else 0)))"

section \<open>Scans\<close>

fun push_upto :: "nat \<Rightarrow> 'a list \<Rightarrow> 'a list \<Rightarrow> 'a list" where
  "push_upto n results [] = results"
| "push_upto n results (e # es) = (if length results \<ge> n then results else push_upto n (results @ [e]) es)"

type_synonym entries = "(bytes \<times> bytes) list"

partial_function (option) leftmost_leaf_loop :: "btree \<Rightarrow> u64 \<Rightarrow> u64 result option" where
  "leftmost_leaf_loop b page_id =
     (case read_node b page_id of
        Inl e \<Rightarrow> Some (Inl e)
      | Inr (LeafPage _) \<Rightarrow> Some (Inr page_id)
      | Inr (InternalPage node) \<Rightarrow>
          leftmost_leaf_loop b
            (case in_entries node of (_, child, _) # _ \<Rightarrow> child | [] \<Rightarrow> rightmost_child node))"

definition leftmost_leaf_id :: "btree \<Rightarrow> u64 result option" where
  "leftmost_leaf_id b = leftmost_leaf_loop b (root_page_id b)"

partial_function (option) rightmost_leaf_loop :: "btree \<Rightarrow> u64 \<Rightarrow> u64 result option" where
  "rightmost_leaf_loop b page_id =
     (case read_node b page_id of
        Inl e \<Rightarrow> Some (Inl e)
      | Inr (LeafPage _) \<Rightarrow> Some (Inr page_id)
      | Inr (InternalPage node) \<Rightarrow> rightmost_leaf_loop b (rightmost_child node))"

definition rightmost_leaf_id :: "btree \<Rightarrow> u64 result option" where
  "rightmost_leaf_id b = rightmost_leaf_loop b (root_page_id b)"

partial_function (option) forward_loop :: "btree \<Rightarrow> nat \<Rightarrow> u64 \<Rightarrow> entries \<Rightarrow> entries result option" where
  "forward_loop b n page_id results =
     (if page_id \<noteq> NULL_PAGE \<and> length results < n then
        (case read_leaf b page_id of
           Inl e \<Rightarrow> Some (Inl e)
         | Inr node \<Rightarrow> forward_loop b n (ln_next node) (push_upto n results (ln_entries node)))
      else Some (Inr results))"

definition scan_forward_bounded :: "btree \<Rightarrow> nat \<Rightarrow> entries result option" where
  "scan_forward_bounded b n =
     (if n = 0 then Some (Inr [])
      else Option.bind (leftmost_leaf_id b) (\<lambda>r. case r of
             Inl e \<Rightarrow> Some (Inl e)
           | Inr page_id \<Rightarrow> forward_loop b n page_id []))"

partial_function (option) backward_loop :: "btree \<Rightarrow> nat \<Rightarrow> u64 \<Rightarrow> entries \<Rightarrow> entries result option" where
  "backward_loop b n page_id results =
     (if page_id \<noteq> NULL_PAGE \<and> length results < n then
        (case read_leaf b page_id of
           Inl e \<Rightarrow> Some (Inl e)
         | Inr node \<Rightarrow> backward_loop b n (ln_prev node) (push_upto n results (rev (ln_entries node))))
      else Some (Inr results))"

definition scan_backward_bounded :: "btree \<Rightarrow> nat \<Rightarrow> entries result option" where
  "scan_backward_bounded b n =
     (if n = 0 then Some (Inr [])
      else Option.bind (rightmost_leaf_id b) (\<lambda>r. case r of
             Inl e \<Rightarrow> Some (Inl e)
           | Inr page_id \<Rightarrow> backward_loop b n page_id []))"

section \<open>Ranks\<close>

text \<open>The inner loop of a descent by rank: the child that holds it and the rank inside that child.\<close>

fun rank_child :: "nat \<Rightarrow> (bytes \<times> u64 \<times> u64) list \<Rightarrow> u64 \<Rightarrow> u64 \<times> nat" where
  "rank_child rank [] rightmost = (rightmost, rank)"
| "rank_child rank ((_, child, count) # es) rightmost =
     (if rank < unat count then (child, rank) else rank_child (rank - unat count) es rightmost)"

partial_function (option) entry_at_rank_loop :: "btree \<Rightarrow> u64 \<Rightarrow> nat \<Rightarrow> (bytes \<times> bytes) result option" where
  "entry_at_rank_loop b page_id rank =
     (case read_node b page_id of
        Inl e \<Rightarrow> Some (Inl e)
      | Inr (LeafPage node) \<Rightarrow>
          Some (if rank \<ge> length (ln_entries node)
                then Inl (Bail ''rank {rank} out of bounds for a leaf with {} entries'' [rank, length (ln_entries node)])
                else Inr (ln_entries node ! rank))
      | Inr (InternalPage node) \<Rightarrow>
          (case rank_child rank (in_entries node) (rightmost_child node) of
             (child, rank') \<Rightarrow> entry_at_rank_loop b child rank'))"

definition entry_at_rank :: "btree \<Rightarrow> nat \<Rightarrow> (bytes \<times> bytes) result option" where
  "entry_at_rank b rank = entry_at_rank_loop b (root_page_id b) rank"

fun sample_loop :: "btree \<Rightarrow> nat list \<Rightarrow> entries \<Rightarrow> entries result option" where
  "sample_loop b [] results = Some (Inr results)"
| "sample_loop b (rank # ranks) results =
     Option.bind (entry_at_rank b rank) (\<lambda>r. case r of
       Inl e \<Rightarrow> Some (Inl e)
     | Inr entry \<Rightarrow> sample_loop b ranks (results @ [entry]))"

definition sample_by_rank :: "btree \<Rightarrow> nat \<Rightarrow> entries result option" where
  "sample_by_rank b k =
     (if total_count b = 0 \<or> k = 0 then Some (Inr [])
      else sample_loop b (map (\<lambda>i. unat (word_of_nat i * total_count b) div k) [0..<k]) [])"

fun key_child :: "bytes \<Rightarrow> (bytes \<times> u64 \<times> u64) list \<Rightarrow> u64 \<Rightarrow> u64 \<Rightarrow> u64 \<times> u64" where
  "key_child key [] rightmost passed = (rightmost, passed)"
| "key_child key ((separator, child, count) # es) rightmost passed =
     (if key < separator then (child, passed) else key_child key es rightmost (passed + count))"

definition check_key :: "btree \<Rightarrow> bytes \<Rightarrow> unit result" where
  "check_key b key =
     (if length key \<noteq> unat (bt_key_size b)
      then Inl (Bail ''key must be exactly {} bytes, got {}'' [unat (bt_key_size b), length key]) else Inr ())"

partial_function (option) rank_of_key_loop :: "btree \<Rightarrow> bytes \<Rightarrow> u64 \<Rightarrow> u64 \<Rightarrow> u64 option result option" where
  "rank_of_key_loop b key page_id passed =
     (case read_node b page_id of
        Inl e \<Rightarrow> Some (Inl e)
      | Inr (LeafPage node) \<Rightarrow>
          Some (Inr (case binary_search (ln_entries node) key of
                       OkAt i \<Rightarrow> Some (passed + word_of_nat i) | ErrAt _ \<Rightarrow> None))
      | Inr (InternalPage node) \<Rightarrow>
          (case key_child key (in_entries node) (rightmost_child node) passed of
             (child, passed') \<Rightarrow> rank_of_key_loop b key child passed'))"

definition rank_of_key :: "btree \<Rightarrow> bytes \<Rightarrow> u64 option result option" where
  "rank_of_key b key = (case check_key b key of Inl e \<Rightarrow> Some (Inl e) | Inr _ \<Rightarrow> rank_of_key_loop b key (root_page_id b) 0)"

partial_function (option) rank_of_floor_loop :: "btree \<Rightarrow> bytes \<Rightarrow> u64 \<Rightarrow> u64 \<Rightarrow> u64 option result option" where
  "rank_of_floor_loop b key page_id passed =
     (case read_node b page_id of
        Inl e \<Rightarrow> Some (Inl e)
      | Inr (LeafPage node) \<Rightarrow>
          Some (Inr (case binary_search (ln_entries node) key of
                       OkAt i \<Rightarrow> Some (passed + word_of_nat i)
                     | ErrAt 0 \<Rightarrow> (if passed = 0 then None else Some (passed - 1))
                     | ErrAt i \<Rightarrow> Some (passed + word_of_nat i - 1)))
      | Inr (InternalPage node) \<Rightarrow>
          (case key_child key (in_entries node) (rightmost_child node) passed of
             (child, passed') \<Rightarrow> rank_of_floor_loop b key child passed'))"

definition rank_of_floor :: "btree \<Rightarrow> bytes \<Rightarrow> u64 option result option" where
  "rank_of_floor b key = (case check_key b key of Inl e \<Rightarrow> Some (Inl e) | Inr _ \<Rightarrow> rank_of_floor_loop b key (root_page_id b) 0)"

partial_function (option) rank_leaf_loop :: "btree \<Rightarrow> u64 \<Rightarrow> nat \<Rightarrow> (u64 \<times> nat) result option" where
  "rank_leaf_loop b page_id rank =
     (case read_node b page_id of
        Inl e \<Rightarrow> Some (Inl e)
      | Inr (LeafPage _) \<Rightarrow> Some (Inr (page_id, rank))
      | Inr (InternalPage node) \<Rightarrow>
          (case rank_child rank (in_entries node) (rightmost_child node) of
             (child, rank') \<Rightarrow> rank_leaf_loop b child rank'))"

definition scan_from_rank :: "btree \<Rightarrow> u64 \<Rightarrow> nat \<Rightarrow> entries result option" where
  "scan_from_rank b rank n =
     (if n = 0 \<or> rank \<ge> total_count b then Some (Inr [])
      else Option.bind (rank_leaf_loop b (root_page_id b) (unat rank)) (\<lambda>r. case r of
             Inl e \<Rightarrow> Some (Inl e)
           | Inr (page_id, remaining_rank) \<Rightarrow>
               if page_id \<noteq> NULL_PAGE then
                 (case read_leaf b page_id of
                    Inl e \<Rightarrow> Some (Inl e)
                  | Inr node \<Rightarrow> forward_loop b n (ln_next node) (push_upto n [] (drop remaining_rank (ln_entries node))))
               else Some (Inr [])))"

section \<open>Insertion\<close>

datatype insert_outcome =
    NoSplit (is_new: bool)
  | Split (is_new: bool) (separator_key: bytes) (new_page_id: u64) (new_page_count: u64)

definition upsert_at :: "entries \<Rightarrow> bytes \<Rightarrow> bytes \<Rightarrow> bool \<times> entries" where
  "upsert_at es key v =
     (case binary_search es key of
        OkAt i \<Rightarrow> (False, es[i := (fst (es ! i), v)])
      | ErrAt i \<Rightarrow> (True, vec_insert es i (key, v)))"

definition insert_into_leaf :: "btree \<Rightarrow> u64 \<Rightarrow> bytes \<Rightarrow> bytes \<Rightarrow> (insert_outcome \<times> btree) result" where
  "insert_into_leaf b page_id key v =
     bindE (read_leaf b page_id) (\<lambda>node.
       let (new, es) = upsert_at (ln_entries node) key v in
       if length es \<le> bt_max_leaf b
       then bindE (write_leaf b page_id (node\<lparr>ln_entries := es\<rparr>)) (\<lambda>b. Inr (NoSplit new, b))
       else
         let mid = length es div 2;
             right_entries = drop mid es;
             (new_page, b) = allocate_page b;
             separator = fst (right_entries ! 0);
             count = word_of_nat (length right_entries);
             old_next = ln_next node;
             node' = node\<lparr>ln_entries := take mid es, ln_next := new_page\<rparr>;
             new_node = \<lparr>ln_prev = page_id, ln_next = old_next, ln_entries = right_entries\<rparr>
         in bindE (if old_next \<noteq> NULL_PAGE
                   then bindE (read_leaf b old_next) (\<lambda>next_node. write_leaf b old_next (next_node\<lparr>ln_prev := new_page\<rparr>))
                   else Inr b) (\<lambda>b.
            bindE (write_leaf b page_id node') (\<lambda>b.
            bindE (write_leaf b new_page new_node) (\<lambda>b.
            Inr (Split new separator new_page count, b)))))"

definition bump :: "bool \<Rightarrow> u64" where
  "bump new = (if new then 1 else 0)"

definition add_to_child :: "internal_node \<Rightarrow> nat option \<Rightarrow> internal_node" where
  "add_to_child node child_idx =
     (case child_idx of
        Some i \<Rightarrow> (case in_entries node ! i of (s, c, n) \<Rightarrow> node\<lparr>in_entries := (in_entries node)[i := (s, c, n + 1)]\<rparr>)
      | None \<Rightarrow> node\<lparr>rightmost_count := rightmost_count node + 1\<rparr>)"

definition add_split_child :: "internal_node \<Rightarrow> nat option \<Rightarrow> bool \<Rightarrow> bytes \<Rightarrow> u64 \<Rightarrow> u64 \<Rightarrow> internal_node" where
  "add_split_child node child_idx new separator new_page count =
     (case child_idx of
        Some i \<Rightarrow>
          (case in_entries node ! i of (old_separator, child, n) \<Rightarrow>
             node\<lparr>in_entries :=
               vec_insert ((in_entries node)[i := (separator, child, n + bump new - count)])
                 (i + 1) (old_separator, new_page, count)\<rparr>)
      | None \<Rightarrow>
          node\<lparr>in_entries := in_entries node @ [(separator, rightmost_child node, rightmost_count node + bump new - count)],
               rightmost_child := new_page, rightmost_count := count\<rparr>)"

definition split_internal :: "btree \<Rightarrow> u64 \<Rightarrow> internal_node \<Rightarrow> bool \<Rightarrow> (insert_outcome \<times> btree) result" where
  "split_internal b page_id node new =
     (let mid = length (in_entries node) div 2;
          (promoted_key, promoted_child, promoted_count) = in_entries node ! mid;
          right_entries = drop (mid + 1) (in_entries node);
          (new_page, b) = allocate_page b;
          count = sum_list (map (\<lambda>(_, _, c). c) right_entries) + rightmost_count node;
          new_node = \<lparr>in_entries = right_entries, rightmost_child = rightmost_child node, rightmost_count = rightmost_count node\<rparr>;
          node' = \<lparr>in_entries = take mid (in_entries node), rightmost_child = promoted_child, rightmost_count = promoted_count\<rparr>
      in bindE (write_internal b page_id node') (\<lambda>b.
         bindE (write_internal b new_page new_node) (\<lambda>b.
         Inr (Split new promoted_key new_page count, b))))"

definition after_child ::
    "btree \<Rightarrow> u64 \<Rightarrow> internal_node \<Rightarrow> nat option \<Rightarrow> insert_outcome \<Rightarrow> (insert_outcome \<times> btree) result" where
  "after_child b page_id node child_idx outcome =
     (case outcome of
        NoSplit new \<Rightarrow>
          if new then bindE (write_internal b page_id (add_to_child node child_idx)) (\<lambda>b. Inr (NoSplit new, b))
          else Inr (NoSplit new, b)
      | Split new separator new_page count \<Rightarrow>
          let node' = add_split_child node child_idx new separator new_page count in
          if length (in_entries node') \<le> bt_max_internal b
          then bindE (write_internal b page_id node') (\<lambda>b. Inr (NoSplit new, b))
          else split_internal b page_id node' new)"

definition child_index :: "bytes \<Rightarrow> internal_node \<Rightarrow> nat option" where
  "child_index key node = position (\<lambda>(k, _). key < k) (in_entries node)"

definition child_at :: "internal_node \<Rightarrow> nat option \<Rightarrow> u64" where
  "child_at node child_idx =
     (case child_idx of Some i \<Rightarrow> fst (snd (in_entries node ! i)) | None \<Rightarrow> rightmost_child node)"

partial_function (option) insert_into :: "btree \<Rightarrow> u64 \<Rightarrow> bytes \<Rightarrow> bytes \<Rightarrow> (insert_outcome \<times> btree) result option" where
  "insert_into b page_id key v =
     (case page_type (read_page (bt_store b) page_id) of
        Inl e \<Rightarrow> Some (Inl e)
      | Inr LeafKind \<Rightarrow> Some (insert_into_leaf b page_id key v)
      | Inr InternalKind \<Rightarrow>
          (case read_internal b page_id of
             Inl e \<Rightarrow> Some (Inl e)
           | Inr node \<Rightarrow>
               Option.bind (insert_into b (child_at node (child_index key node)) key v) (\<lambda>r.
                 Some (bindE r (\<lambda>(outcome, b). after_child b page_id node (child_index key node) outcome)))))"

definition grow_root :: "btree \<Rightarrow> u64 \<Rightarrow> insert_outcome \<Rightarrow> btree result" where
  "grow_root b root outcome =
     (case outcome of
        NoSplit new \<Rightarrow> Inr (b\<lparr>total_count := total_count b + bump new\<rparr>)
      | Split new separator new_page count \<Rightarrow>
          let old_root_count = total_count b + bump new - count;
              (new_root_id, b) = allocate_page b;
              new_root = \<lparr>in_entries = [(separator, root, old_root_count)], rightmost_child = new_page, rightmost_count = count\<rparr>
          in bindE (write_internal b new_root_id new_root) (\<lambda>b.
             Inr (b\<lparr>root_page_id := new_root_id, total_count := total_count b + bump new\<rparr>)))"

definition btree_insert :: "btree \<Rightarrow> bytes \<Rightarrow> bytes \<Rightarrow> btree result option" where
  "btree_insert b key v =
     (case check_key b key of
        Inl e \<Rightarrow> Some (Inl e)
      | Inr _ \<Rightarrow>
          if length v \<noteq> unat (bt_value_size b)
          then Some (Inl (Bail ''value must be exactly {} bytes, got {}'' [unat (bt_value_size b), length v]))
          else Option.bind (insert_into b (root_page_id b) key v) (\<lambda>r.
                 Some (bindE r (\<lambda>(outcome, b'). bindE (grow_root b' (root_page_id b) outcome) write_superblock))))"

section \<open>Removal\<close>

partial_function (option) contains_loop :: "btree \<Rightarrow> bytes \<Rightarrow> u64 \<Rightarrow> bool result option" where
  "contains_loop b key page_id =
     (case read_node b page_id of
        Inl e \<Rightarrow> Some (Inl e)
      | Inr (LeafPage node) \<Rightarrow>
          Some (Inr (case binary_search (ln_entries node) key of OkAt _ \<Rightarrow> True | ErrAt _ \<Rightarrow> False))
      | Inr (InternalPage node) \<Rightarrow>
          contains_loop b key
            (case find (\<lambda>(k, _). key < k) (in_entries node) of
               Some (_, child, _) \<Rightarrow> child | None \<Rightarrow> rightmost_child node))"

definition btree_contains :: "btree \<Rightarrow> bytes \<Rightarrow> bool result option" where
  "btree_contains b key = contains_loop b key (root_page_id b)"

definition take_from_child :: "internal_node \<Rightarrow> nat option \<Rightarrow> internal_node" where
  "take_from_child node child_idx =
     (case child_idx of
        Some i \<Rightarrow> (case in_entries node ! i of (s, c, n) \<Rightarrow> node\<lparr>in_entries := (in_entries node)[i := (s, c, n - 1)]\<rparr>)
      | None \<Rightarrow> node\<lparr>rightmost_count := rightmost_count node - 1\<rparr>)"

definition remove_from_leaf :: "btree \<Rightarrow> u64 \<Rightarrow> bytes \<Rightarrow> leaf_node \<Rightarrow> btree result" where
  "remove_from_leaf b page_id key node =
     (case binary_search (ln_entries node) key of
        OkAt i \<Rightarrow> write_leaf b page_id (node\<lparr>ln_entries := take i (ln_entries node) @ drop (i + 1) (ln_entries node)\<rparr>)
      | ErrAt _ \<Rightarrow> Inr b)"

partial_function (option) remove_loop :: "btree \<Rightarrow> bytes \<Rightarrow> u64 \<Rightarrow> btree result option" where
  "remove_loop b key page_id =
     (case read_node b page_id of
        Inl e \<Rightarrow> Some (Inl e)
      | Inr (LeafPage node) \<Rightarrow> Some (remove_from_leaf b page_id key node)
      | Inr (InternalPage node) \<Rightarrow>
          (case write_internal b page_id (take_from_child node (child_index key node)) of
             Inl e \<Rightarrow> Some (Inl e)
           | Inr b' \<Rightarrow> remove_loop b' key (child_at node (child_index key node))))"

definition btree_remove :: "btree \<Rightarrow> bytes \<Rightarrow> (bool \<times> btree) result option" where
  "btree_remove b key =
     (case check_key b key of
        Inl e \<Rightarrow> Some (Inl e)
      | Inr _ \<Rightarrow>
          Option.bind (btree_contains b key) (\<lambda>r. case r of
            Inl e \<Rightarrow> Some (Inl e)
          | Inr False \<Rightarrow> Some (Inr (False, b))
          | Inr True \<Rightarrow>
              Option.bind (remove_loop b key (root_page_id b)) (\<lambda>r.
                Some (bindE r (\<lambda>b. bindE (write_superblock (b\<lparr>total_count := total_count b - 1\<rparr>)) (\<lambda>b. Inr (True, b)))))))"

section \<open>Rebuilding\<close>

text \<open>
  \<open>slice::chunks\<close>, and the same cut made by the index loop of \<open>build_internal_levels\<close>; both
  chunk sizes are positive.
\<close>

function chunks :: "nat \<Rightarrow> 'a list \<Rightarrow> 'a list list" where
  "chunks n xs = (if xs = [] \<or> n = 0 then [] else take n xs # chunks n (drop n xs))"
  by pat_completeness auto
termination
  by (relation "measure (\<lambda>(n, xs). length xs)") auto

declare chunks.simps [simp del]

type_synonym level = "(bytes \<times> u64 \<times> u64) list"

fun alloc_leaves :: "btree \<Rightarrow> entries list \<Rightarrow> level \<times> btree" where
  "alloc_leaves b [] = ([], b)"
| "alloc_leaves b (chunk # cs) =
     (let (i, b) = allocate_page b; (level, b) = alloc_leaves b cs
      in ((fst (chunk ! 0), i, word_of_nat (length chunk)) # level, b))"

fun write_leaves :: "btree \<Rightarrow> u64 list \<Rightarrow> nat \<Rightarrow> entries list \<Rightarrow> btree result" where
  "write_leaves b leaf_ids i [] = Inr b"
| "write_leaves b leaf_ids i (chunk # cs) =
     (let prev = (if i = 0 then NULL_PAGE else leaf_ids ! (i - 1));
          next = (if i + 1 < length leaf_ids then leaf_ids ! (i + 1) else NULL_PAGE)
      in bindE (write_leaf b (leaf_ids ! i) \<lparr>ln_prev = prev, ln_next = next, ln_entries = chunk\<rparr>)
           (\<lambda>b. write_leaves b leaf_ids (i + 1) cs))"

definition group_entries :: "level \<Rightarrow> level" where
  "group_entries grp =
     map (\<lambda>j. (fst (grp ! (j + 1)), snd (grp ! j))) [0..<length grp - 1]"

definition build_group :: "btree \<Rightarrow> level \<Rightarrow> ((bytes \<times> u64 \<times> u64) \<times> btree) result" where
  "build_group b grp =
     (let es = group_entries grp;
          (_, child, count) = last grp;
          total = sum_list (map (\<lambda>(_, _, c). c) es) + count;
          (page_id, b) = allocate_page b
      in bindE (write_internal b page_id \<lparr>in_entries = es, rightmost_child = child, rightmost_count = count\<rparr>)
           (\<lambda>b. Inr ((fst (grp ! 0), page_id, total), b)))"

fun build_groups :: "btree \<Rightarrow> level list \<Rightarrow> (level \<times> btree) result" where
  "build_groups b [] = Inr ([], b)"
| "build_groups b (grp # groups) =
     bindE (build_group b grp) (\<lambda>(e, b).
     bindE (build_groups b groups) (\<lambda>(es, b). Inr (e # es, b)))"

partial_function (option) build_internal_levels :: "btree \<Rightarrow> level \<Rightarrow> (u64 \<times> btree) result option" where
  "build_internal_levels b level =
     (if length level > 1 then
        (case build_groups b (chunks (bt_max_internal b + 1) level) of
           Inl e \<Rightarrow> Some (Inl e)
         | Inr (next_level, b') \<Rightarrow> build_internal_levels b' next_level)
      else Some (Inr (fst (snd (level ! 0)), b)))"

definition rebuild_from :: "btree \<Rightarrow> entries \<Rightarrow> btree result option" where
  "rebuild_from b es =
     (let sorted_es = sort_key fst es;
          b = b\<lparr>bt_store := ps_truncate (bt_store b), next_page_id := 1, total_count := 0\<rparr>
      in if sorted_es = [] then
           (let (root, b) = allocate_page b
            in Some (bindE (write_leaf b root empty_leaf) (\<lambda>b. write_superblock (b\<lparr>root_page_id := root\<rparr>))))
         else
           let leaf_chunks = chunks (max (bt_max_leaf b) 1) sorted_es;
               (level, b) = alloc_leaves b leaf_chunks
           in case write_leaves b (map (\<lambda>(_, i, _). i) level) 0 leaf_chunks of
                Inl e \<Rightarrow> Some (Inl e)
              | Inr b \<Rightarrow>
                  let b = b\<lparr>total_count := word_of_nat (length sorted_es)\<rparr> in
                  Option.bind
                    (if length level = 1 then Some (Inr (fst (snd (level ! 0)), b)) else build_internal_levels b level)
                    (\<lambda>r. Some (bindE r (\<lambda>(root, b). write_superblock (b\<lparr>root_page_id := root\<rparr>)))))"

end
