(* ===== verification/Messages.thy ===== *)
theory Messages
  imports Ids
begin

text \<open>
  The texts the nodes print into their messages: numbers, hexadecimal bytes, the \<open>Debug\<close> form of
  the identifiers, and an error's \<open>to_string\<close>, which puts the numbers into its format string.
\<close>

fun dec :: "nat \<Rightarrow> rstring" where
  "dec n = (if n < 10 then [of_nat (48 + n)] else dec (n div 10) @ [of_nat (48 + n mod 10)])"

declare dec.simps [simp del]

definition hex_digit :: "nat \<Rightarrow> u8" where
  "hex_digit n = of_nat (if n < 10 then 48 + n else 87 + n)"

definition hex :: "bytes \<Rightarrow> rstring" where
  "hex bs = concat (map (\<lambda>b. [hex_digit (unat b div 16), hex_digit (unat b mod 16)]) bs)"

definition debug_node_id :: "node_id \<Rightarrow> rstring" where
  "debug_node_id n = lit ''NodeId('' @ dec (unat (node_raw n)) @ lit '')''"

definition debug_datum_id :: "datum_id \<Rightarrow> rstring" where
  "debug_datum_id i = (let b = as_bytes i; dash = lit ''-'' in
     lit ''DatumId('' @ hex (slice b 0 4) @ dash @ hex (slice b 4 6) @ dash @ hex (slice b 6 8) @ dash @
     hex (slice b 8 10) @ dash @ hex (slice b 10 16) @ lit '')'')"

function fill :: "string \<Rightarrow> nat list \<Rightarrow> rstring" where
  "fill [] ns = []"
| "fill (ch # s) ns =
     (if ch = CHR ''{'' then dec (hd ns) @ fill (drop 1 (dropWhile (\<lambda>x. x \<noteq> CHR ''}'') s)) (drop 1 ns)
      else of_char ch # fill s ns)"
  by pat_completeness auto
termination
  by (relation "measure (\<lambda>(s, ns). length s)") (auto intro: le_imp_less_Suc le_trans [OF diff_le_self length_dropWhile_le])

declare fill.simps(2) [simp del]

fun to_string :: "bail \<Rightarrow> rstring" where
  "to_string (Bail s ns) = fill s ns"
| "to_string (Panic s ns) = fill s ns"

fun is_panic :: "bail \<Rightarrow> bool" where
  "is_panic (Bail _ _) = False"
| "is_panic (Panic _ _) = True"

lemma hex_digit_inj: "a < 16 \<Longrightarrow> b < 16 \<Longrightarrow> hex_digit a = hex_digit b \<longleftrightarrow> a = b"
proof -
  assume ab: "a < 16" "b < 16"
  let ?f = "\<lambda>n :: nat. if n < 10 then 48 + n else 87 + n"
  have "?f a < 2 ^ LENGTH(8)" "?f b < 2 ^ LENGTH(8)" using ab by simp_all
  then have "hex_digit a = hex_digit b \<longleftrightarrow> ?f a = ?f b" unfolding hex_digit_def word_of_nat_eq_iff by (simp only: take_bit_nat_eq_self)
  then show ?thesis by (auto split: if_splits)
qed

lemma hex_inj: "hex a = hex b \<longleftrightarrow> a = b"
proof (induction a arbitrary: b)
  case Nil
  show ?case by (cases b) (simp_all add: hex_def)
next
  case (Cons x xs)
  have lt: "unat (y :: u8) < 256" for y using unsigned_less [of y, where ?'a = nat] by simp
  have byte: "unat x div 16 = unat y div 16 \<and> unat x mod 16 = unat y mod 16 \<longleftrightarrow> x = y" for y :: u8
    by (metis div_mult_mod_eq word_unat_eq_iff)
  show ?case
  proof (cases b)
    case (Cons y ys)
    have "hex (x # xs) = hex (y # ys) \<longleftrightarrow> hex_digit (unat x div 16) = hex_digit (unat y div 16) \<and>
        hex_digit (unat x mod 16) = hex_digit (unat y mod 16) \<and> hex xs = hex ys"
      by (simp add: hex_def)
    also have "\<dots> \<longleftrightarrow> x = y \<and> xs = ys"
      using byte [of y] lt [of x] lt [of y] by (auto simp: hex_digit_inj less_mult_imp_div_less Cons.IH)
    finally show ?thesis using Cons by simp
  qed (simp add: hex_def)
qed

text \<open>Texts of ASCII characters are valid strings.\<close>

abbreviation ascii :: "rstring \<Rightarrow> bool" where
  "ascii \<equiv> list_all (\<lambda>b. unat b < 128)"

lemma ascii_utf8: "ascii bs \<Longrightarrow> utf8_valid bs"
  by (induction bs) auto

lemma ascii_dec: "ascii (dec n)"
proof (induction n rule: dec.induct)
  case (1 n)
  have "unat (of_nat (48 + m) :: u8) < 128" if "m < 10" for m :: nat
    using that by (simp add: unat_of_nat del: of_nat_add)
  with 1 show ?case by (subst dec.simps) simp
qed

end
