(* ===== verification/Collections.thy ===== *)
theory Collections
  imports Store_Wire Btree Messages
begin

text \<open>
  The ordered collections of a storage node, the collection arms of \<open>seisin-node/src/store_server.rs\<close>:
  one B+tree file per collection, opened on the first request and kept open. The files are a map
  from file names to their bytes; a change to an open tree goes to its file. A panic while the map
  of open trees is locked poisons the lock, and a call that does not return keeps it: from then on
  no collection request is answered (\<open>lock_lost\<close>). Failures of the disk are left out, and the
  \<open>Debug\<close> form of a path is that of a directory name without characters that need escaping.
\<close>

definition COLLECTION_PAGE_SIZE :: u32 where "COLLECTION_PAGE_SIZE = 4096"

record collections =
  data_dir :: rstring
  coll_files :: "rstring \<rightharpoonup> bytes"
  open_trees :: "datum_id \<rightharpoonup> btree"
  lock_lost :: bool

definition collection_file_name :: "datum_id \<Rightarrow> rstring" where
  "collection_file_name i = lit ''collection_'' @ hex (as_bytes i) @ lit ''.btree''"

definition debug_path :: "rstring \<Rightarrow> rstring \<Rightarrow> rstring" where
  "debug_path dir name = [34] @ dir @ [47] @ name @ [34]"

text \<open>The entry of the map of open trees: found, or opened, or created when the request may.\<close>

datatype 'a opened = Opened 'a | Refused rstring | Panicked

definition open_collection :: "collections \<Rightarrow> datum_id \<Rightarrow> (u32 \<times> u32) option \<Rightarrow> btree opened" where
  "open_collection cs i create =
     (case open_trees cs i of
        Some tree \<Rightarrow> Opened tree
      | None \<Rightarrow>
          let name = collection_file_name i;
              checked = (\<lambda>r. case r of
                  Inr tree \<Rightarrow> Opened tree
                | Inl e \<Rightarrow>
                    if is_panic e then Panicked
                    else Refused (lit ''failed to open collection file '' @ debug_path (data_dir cs) name @ lit '': '' @ to_string e))
          in (case coll_files cs name of
                Some file \<Rightarrow> checked (btree_open file)
              | None \<Rightarrow>
                  (case create of
                     Some (key_size, value_size) \<Rightarrow> checked (btree_create key_size value_size COLLECTION_PAGE_SIZE)
                   | None \<Rightarrow> Refused (lit ''collection '' @ debug_datum_id i @ lit '' does not exist''))))"

definition keep_tree :: "collections \<Rightarrow> datum_id \<Rightarrow> btree \<Rightarrow> collections" where
  "keep_tree cs i tree =
     cs\<lparr>open_trees := (open_trees cs)(i \<mapsto> tree),
        coll_files := (coll_files cs)(collection_file_name i \<mapsto> ps_file (bt_store tree))\<rparr>"

definition with_collection ::
    "collections \<Rightarrow> datum_id \<Rightarrow> (u32 \<times> u32) option \<Rightarrow> (btree \<Rightarrow> ('a \<times> btree) result option) \<Rightarrow>
     (rstring + 'a) option \<times> collections" where
  "with_collection cs i create f =
     (if lock_lost cs then (None, cs)
      else case open_collection cs i create of
        Panicked \<Rightarrow> (None, cs\<lparr>lock_lost := True\<rparr>)
      | Refused message \<Rightarrow> (Some (Inl message), cs)
      | Opened tree \<Rightarrow>
          (case f tree of
             None \<Rightarrow> (None, (keep_tree cs i tree)\<lparr>lock_lost := True\<rparr>)
           | Some (Inr (x, tree')) \<Rightarrow> (Some (Inr x), keep_tree cs i tree')
           | Some (Inl e) \<Rightarrow>
               if is_panic e then (None, (keep_tree cs i tree)\<lparr>lock_lost := True\<rparr>)
               else (Some (Inl (to_string e)), keep_tree cs i tree)))"

definition reading :: "(btree \<Rightarrow> 'a result option) \<Rightarrow> btree \<Rightarrow> ('a \<times> btree) result option" where
  "reading q tree = map_option (\<lambda>r. bindE r (\<lambda>x. Inr (x, tree))) (q tree)"

definition answer :: "('a \<Rightarrow> store_response) \<Rightarrow> (rstring + 'a) option \<times> collections \<Rightarrow> store_response option \<times> collections" where
  "answer ok = (\<lambda>(r, cs). (map_option (case_sum SError ok) r, cs))"

definition collection_get :: "bytes \<Rightarrow> btree \<Rightarrow> bytes option result option" where
  "collection_get key tree =
     map_option (\<lambda>r. bindE r (\<lambda>es. Inr (map_option snd (find (\<lambda>e. fst e = key) es)))) (scan_from_rank tree 0 (btree_len tree))"

fun serve_collection :: "collections \<Rightarrow> store_request \<Rightarrow> store_response option \<times> collections" where
  "serve_collection cs (SCollectionCreate i key_size value_size) =
     answer (\<lambda>_. SAck) (with_collection cs i (Some (key_size, value_size)) (\<lambda>tree. Some (Inr ((), tree))))"
| "serve_collection cs (SCollectionInsert i key v) =
     answer (\<lambda>_. SAck) (with_collection cs i None
       (\<lambda>tree. map_option (\<lambda>r. bindE r (\<lambda>tree'. Inr ((), tree'))) (btree_insert tree key v)))"
| "serve_collection cs (SCollectionRemove i key) =
     answer (\<lambda>_. SAck) (with_collection cs i None (\<lambda>tree. btree_remove tree key))"
| "serve_collection cs (SCollectionGet i key) =
     answer SCollectionEntry (with_collection cs i None (reading (collection_get key)))"
| "serve_collection cs (SCollectionScanForward i limit) =
     answer SCollectionEntries (with_collection cs i None (reading (\<lambda>tree. scan_backward_bounded tree (unat limit))))"
| "serve_collection cs (SCollectionScanBackward i limit) =
     answer SCollectionEntries (with_collection cs i None (reading (\<lambda>tree. scan_forward_bounded tree (unat limit))))"
| "serve_collection cs (SCollectionSample i k) =
     answer SCollectionEntries (with_collection cs i None (reading (\<lambda>tree. sample_by_rank tree (unat k))))"
| "serve_collection cs (SCollectionRankOfKey i key) =
     answer SCollectionRank (with_collection cs i None (reading (\<lambda>tree. rank_of_key tree key)))"
| "serve_collection cs (SCollectionScanFromRank i rank limit) =
     answer SCollectionEntries (with_collection cs i None (reading (\<lambda>tree. scan_from_rank tree rank (unat limit))))"
| "serve_collection cs (SCollectionCount i) =
     answer SCollectionTotal (with_collection cs i None (reading (\<lambda>tree. Some (Inr (total_count tree)))))"
| "serve_collection cs req = (None, cs)"

definition no_collections :: "rstring \<Rightarrow> collections" where
  "no_collections dir = \<lparr>data_dir = dir, coll_files = Map.empty, open_trees = Map.empty, lock_lost = False\<rparr>"

lemma collection_file_name_inj [simp]: "collection_file_name i = collection_file_name j \<longleftrightarrow> i = j"
  by (simp add: collection_file_name_def hex_inj) (metis from_bytes_as_bytes)

end
