(* ===== verification/Crc.thy ===== *)
theory Crc
  imports Prelude
begin

unbundle bit_operations_syntax

text \<open>
  CRC-32, \<open>seisin-storage/src/crc.rs\<close>: the generated table and the byte-at-a-time loop, and the
  bit-at-a-time division by the reversed polynomial that they implement.
\<close>

definition POLY :: u32 where "POLY = 0xEDB88320"

definition crc_bit :: "u32 \<Rightarrow> u32" where
  "crc_bit crc = (if crc AND 1 \<noteq> 0 then POLY XOR drop_bit 1 crc else drop_bit 1 crc)"

text \<open>\<open>table()[i]\<close>: eight steps of the inner \<open>while bit < 8\<close>; the array is filled by index.\<close>

definition crc_entry :: "u32 \<Rightarrow> u32" where
  "crc_entry i = (crc_bit ^^ 8) i"

definition crc_table :: "u32 list" where
  "crc_table = map (\<lambda>i. crc_entry (word_of_nat i)) [0..<256]"

definition crc_step :: "u32 list \<Rightarrow> u8 \<Rightarrow> u32 \<Rightarrow> u32" where
  "crc_step table byte crc =
     table ! unat ((crc XOR ucast byte) AND 0xFF) XOR drop_bit 8 crc"

definition crc32 :: "bytes \<Rightarrow> u32" where
  "crc32 bs = NOT (fold (crc_step crc_table) bs 0xFFFFFFFF)"

section \<open>The bitwise reference\<close>

definition crc32_bitwise :: "bytes \<Rightarrow> u32" where
  "crc32_bitwise bs = NOT (fold (\<lambda>byte crc. (crc_bit ^^ 8) (crc XOR ucast byte)) bs 0xFFFFFFFF)"

lemma and_1_ne_0: "(w :: u32) AND 1 \<noteq> 0 \<longleftrightarrow> bit w 0"
  by (metis and_one_eq bit_0 odd_iff_mod_2_eq_one zero_neq_one even_iff_mod_2_eq_zero)

lemma crc_bit_xor: "\<not> bit y 0 \<Longrightarrow> crc_bit (x XOR y) = crc_bit x XOR drop_bit 1 y"
  by (simp add: crc_bit_def and_1_ne_0 bit_xor_iff xor.assoc)

lemma crc_bits_xor:
  assumes "\<forall>i<k. \<not> bit y i"
  shows "(crc_bit ^^ k) (x XOR y) = (crc_bit ^^ k) x XOR drop_bit k y"
  using assms
proof (induction k)
  case (Suc k)
  then have "\<not> bit (drop_bit k y) 0" by (simp add: bit_drop_bit_eq)
  with Suc show ?case by (simp add: crc_bit_xor)
qed simp

lemma crc_step_bitwise: "crc_step crc_table b crc = (crc_bit ^^ 8) (crc XOR ucast b)"
proof -
  let ?c = "crc XOR ucast b"
  let ?lo = "?c AND 0xFF" and ?hi = "push_bit 8 (drop_bit 8 ?c)"
  have "(0xFF :: u32) = mask 8" by (simp add: mask_eq_exp_minus_1)
  then have lo: "?lo = take_bit 8 ?c" by (simp add: take_bit_eq_mask)
  have "unat ?lo < 256"
    unfolding lo unsigned_take_bit_eq using take_bit_nat_less_exp [of 8 "unat ?c"] by simp
  then have t: "crc_table ! unat ?lo = (crc_bit ^^ 8) ?lo"
    by (simp add: crc_table_def crc_entry_def)
  have split: "?c = ?lo XOR ?hi"
    unfolding lo
    by (rule bit_word_eqI) (auto simp: bit_simps, metis le_add_diff_inverse not_less)
  have "(crc_bit ^^ 8) ?c = (crc_bit ^^ 8) ?lo XOR drop_bit 8 ?hi"
    by (subst split, rule crc_bits_xor) (simp add: bit_simps)
  also have "drop_bit 8 ?hi = drop_bit 8 crc"
    by (rule bit_word_eqI) (auto simp: bit_simps dest: bit_imp_le_length)
  finally show ?thesis by (simp add: crc_step_def t)
qed

section \<open>Properties\<close>


end
