(* ===== verification/Datum_Log.thy ===== *)
theory Datum_Log
  imports Delta Crc "HOL-Library.AList" "HOL-Library.List_Lexorder"
begin

text \<open>
  The storage node's append-only delta log, \<open>seisin-storage/src/datum_log.rs\<close>. The file is the
  list of its bytes and an append writes it at \<open>end_offset\<close>; file offsets are naturals. The
  \<open>HashMap\<close> index is an association list. The fresh UUID of a new log is an argument. A failed
  read of bytes that are not there is the same refusal as a record that does not check.
\<close>

definition MAGIC :: bytes where "MAGIC = [0x53, 0x44, 0x4C, 0x47]"
definition FORMAT_VERSION :: u16 where "FORMAT_VERSION = 3"
definition HEADER_LEN :: nat where "HEADER_LEN = 22"

definition KIND_FULL :: u8 where "KIND_FULL = 1"
definition KIND_DELTA :: u8 where "KIND_DELTA = 2"
definition KIND_TOMBSTONE :: u8 where "KIND_TOMBSTONE = 3"

lemma kinds_differ [simp]:
  "KIND_DELTA \<noteq> KIND_FULL" "KIND_TOMBSTONE \<noteq> KIND_FULL" "KIND_TOMBSTONE \<noteq> KIND_DELTA"
  by (simp_all add: KIND_FULL_def KIND_DELTA_def KIND_TOMBSTONE_def)

definition MAX_DELTA_CHAIN :: nat where "MAX_DELTA_CHAIN = 8"

record raw_record =
  rr_kind :: u8
  rr_id :: bytes
  rr_n :: u16
  rr_body :: bytes

datatype patch_outcome = Applied | NeedFull

record log_ref =
  base_offset :: nat
  deltas :: "nat list"
  materialized_len :: u32
  delta_bytes :: u32
  ref_n :: u16

type_synonym log_index = "(bytes \<times> log_ref) list"

record datum_log =
  log_file :: bytes
  index :: log_index
  end_offset :: nat
  log_id :: bytes

definition log_header :: "bytes \<Rightarrow> bytes" where
  "log_header uid = MAGIC @ u16_to_le FORMAT_VERSION @ uid"

definition rec_payload :: "u8 \<Rightarrow> bytes \<Rightarrow> u16 \<Rightarrow> bytes \<Rightarrow> bytes" where
  "rec_payload kind i n body = kind # i @ u16_to_le n @ body"

definition rec_bytes :: "bytes \<Rightarrow> bytes" where
  "rec_bytes payload = u32_to_le (as_u32 (length payload)) @ payload @ u32_to_le (crc32 payload)"

definition read_record_at :: "bytes \<Rightarrow> nat \<Rightarrow> nat \<Rightarrow> (raw_record \<times> nat) option" where
  "read_record_at f offset file_len =
     (if offset + 4 > file_len then None
      else
        let payload_len = unat (u32_from_le (slice f offset (offset + 4))) in
        if payload_len < 19 \<or> offset + 4 + payload_len + 4 > file_len then None
        else
          let payload = slice f (offset + 4) (offset + 4 + payload_len);
              crc_buf = slice f (offset + 4 + payload_len) (offset + 4 + payload_len + 4)
          in if crc32 payload \<noteq> u32_from_le crc_buf then None
             else Some (\<lparr>rr_kind = payload ! 0, rr_id = slice payload 1 17,
                         rr_n = u16_from_le (slice payload 17 19), rr_body = drop 19 payload\<rparr>,
                        offset + 4 + payload_len + 4))"

text \<open>What one scanned record does to the index; \<open>None\<close> is the \<open>break\<close>.\<close>

definition index_step :: "log_index \<Rightarrow> nat \<Rightarrow> raw_record \<Rightarrow> log_index option" where
  "index_step idx offset r =
     (if rr_kind r = KIND_FULL then
        Some (AList.update (rr_id r) \<lparr>base_offset = offset, deltas = [],
          materialized_len = as_u32 (length (rr_body r)), delta_bytes = 0, ref_n = rr_n r\<rparr> idx)
      else if rr_kind r = KIND_DELTA then
        (case map_of idx (rr_id r) of
           None \<Rightarrow> None
         | Some entry \<Rightarrow>
             (case decode_delta (rr_body r) of
                Inl _ \<Rightarrow> None
              | Inr d \<Rightarrow> Some (AList.update (rr_id r)
                  (entry\<lparr>deltas := deltas entry @ [offset],
                         delta_bytes := delta_bytes entry + as_u32 (length (rr_body r)),
                         materialized_len := new_total_len d, ref_n := rr_n r\<rparr>) idx)))
      else if rr_kind r = KIND_TOMBSTONE then Some (AList.delete (rr_id r) idx)
      else None)"

lemma read_record_at_next: "read_record_at f off len = Some (r, next) \<Longrightarrow> off + 27 \<le> next \<and> next \<le> len"
  by (auto simp: read_record_at_def Let_def split: if_splits)

function recover_loop :: "bytes \<Rightarrow> nat \<Rightarrow> nat \<Rightarrow> log_index \<Rightarrow> nat \<times> log_index" where
  "recover_loop f file_len offset idx =
     (if offset < file_len then
        (case read_record_at f offset file_len of
           None \<Rightarrow> (offset, idx)
         | Some (r, next_offset) \<Rightarrow>
             (case index_step idx offset r of
                None \<Rightarrow> (offset, idx)
              | Some idx' \<Rightarrow> recover_loop f file_len next_offset idx'))
      else (offset, idx))"
  by pat_completeness auto
termination
  by (relation "measure (\<lambda>(f, len, off, idx). len - off)") (auto dest!: read_record_at_next)

declare recover_loop.simps [simp del]

definition recover :: "datum_log \<Rightarrow> nat \<Rightarrow> datum_log" where
  "recover l file_len =
     (let (offset, idx) = recover_loop (log_file l) file_len HEADER_LEN (index l)
      in l\<lparr>log_file := take offset (log_file l), index := idx, end_offset := offset\<rparr>)"

definition log_open :: "bytes \<Rightarrow> bytes \<Rightarrow> datum_log result" where
  "log_open fresh f =
     (let file_len = length f in
      bindE
        (if file_len = 0 then Inr (fresh, log_header fresh)
         else if file_len < HEADER_LEN then Inl (Bail ''failed to fill whole buffer'' [])
         else if slice f 0 4 \<noteq> MAGIC then Inl (Bail ''{path} is not a datum log (bad magic)'' [])
         else
           let version = u16_from_le (slice f 4 6) in
           if version \<noteq> FORMAT_VERSION
           then Inl (Bail ''datum log {path} is format version {}; this build reads {}''
                       [unat version, unat FORMAT_VERSION])
           else Inr (slice f 6 22, f))
        (\<lambda>(uid, f1). Inr (recover
           \<lparr>log_file = f1, index = [], end_offset = HEADER_LEN, log_id = uid\<rparr> (max file_len HEADER_LEN))))"

definition write_at :: "bytes \<Rightarrow> nat \<Rightarrow> bytes \<Rightarrow> bytes" where
  "write_at f off bs = take off f @ bs @ drop (off + length bs) f"

definition append_record :: "datum_log \<Rightarrow> u8 \<Rightarrow> bytes \<Rightarrow> u16 \<Rightarrow> bytes \<Rightarrow> nat \<times> datum_log" where
  "append_record l kind i n body =
     (let offset = end_offset l;
          payload = rec_payload kind i n body
      in (offset, l\<lparr>log_file := write_at (log_file l) offset (rec_bytes payload),
                    end_offset := offset + 4 + length payload + 4\<rparr>))"

definition put_full :: "datum_log \<Rightarrow> bytes \<Rightarrow> bytes \<Rightarrow> u16 \<Rightarrow> datum_log" where
  "put_full l i bs n =
     (let (offset, l1) = append_record l KIND_FULL i n bs
      in l1\<lparr>index := AList.update i \<lparr>base_offset = offset, deltas = [],
          materialized_len = as_u32 (length bs), delta_bytes = 0, ref_n = n\<rparr> (index l1)\<rparr>)"

fun get_deltas :: "bytes \<Rightarrow> nat \<Rightarrow> nat list \<Rightarrow> bytes \<Rightarrow> bytes result" where
  "get_deltas f fin [] value = Inr value"
| "get_deltas f fin (off # offs) value =
     (case read_record_at f off fin of
        None \<Rightarrow> Inl (Bail ''indexed delta record unreadable'' [])
      | Some (r, _) \<Rightarrow> bindE (decode_delta (rr_body r)) (\<lambda>d. bindE (apply_delta value d) (get_deltas f fin offs)))"

definition log_get :: "datum_log \<Rightarrow> bytes \<Rightarrow> bytes option result" where
  "log_get l i = (case map_of (index l) i of
     None \<Rightarrow> Inr None
   | Some ref \<Rightarrow>
       (case read_record_at (log_file l) (base_offset ref) (end_offset l) of
          None \<Rightarrow> Inl (Bail ''indexed base record unreadable'' [])
        | Some (r, _) \<Rightarrow>
            bindE (get_deltas (log_file l) (end_offset l) (deltas ref) (rr_body r)) (\<lambda>v. Inr (Some v))))"

definition put_delta :: "datum_log \<Rightarrow> bytes \<Rightarrow> delta \<Rightarrow> u16 \<Rightarrow> (patch_outcome \<times> datum_log) result" where
  "put_delta l i d n = (case map_of (index l) i of
     None \<Rightarrow> Inr (NeedFull, l)
   | Some entry \<Rightarrow>
       let body = encode_delta d in
       if length (deltas entry) + 1 > MAX_DELTA_CHAIN \<or>
          unat (delta_bytes entry) + length body > max (unat (materialized_len entry)) 1 div 2
       then bindE (log_get l i) (\<lambda>cur. case cur of
              None \<Rightarrow> Inl (Bail ''index entry implies a materializable value'' [])
            | Some current \<Rightarrow> bindE (apply_delta current d) (\<lambda>v. Inr (Applied, put_full l i v n)))
       else
         let (offset, l1) = append_record l KIND_DELTA i n body
         in Inr (Applied, l1\<lparr>index := AList.update i
              (entry\<lparr>deltas := deltas entry @ [offset],
                     delta_bytes := delta_bytes entry + as_u32 (length body),
                     materialized_len := new_total_len d, ref_n := n\<rparr>) (index l1)\<rparr>))"

definition log_delete :: "datum_log \<Rightarrow> bytes \<Rightarrow> datum_log" where
  "log_delete l i =
     (let (_, l1) = append_record l KIND_TOMBSTONE i 0 []
      in l1\<lparr>index := AList.delete i (index l1)\<rparr>)"

definition n_of :: "datum_log \<Rightarrow> bytes \<Rightarrow> u16 option" where
  "n_of l i = map_option ref_n (map_of (index l) i)"

definition log_len :: "datum_log \<Rightarrow> nat" where
  "log_len l = length (index l)"

text \<open>\<open>[u8; 16]\<close> is ordered byte by byte, the order of \<open>List_Lexorder\<close>.\<close>

definition list_ids :: "datum_log \<Rightarrow> bytes option \<Rightarrow> nat \<Rightarrow> (bytes \<times> u16) list" where
  "list_ids l after limit =
     (let ids = filter (\<lambda>i. case after of None \<Rightarrow> True | Some a \<Rightarrow> a < i) (map fst (index l));
          ids = take limit (sort ids)
      in map (\<lambda>i. (i, ref_n (the (map_of (index l) i)))) ids)"

section \<open>Records on disk\<close>

definition rec_of :: "raw_record \<Rightarrow> bytes" where
  "rec_of r = rec_bytes (rec_payload (rr_kind r) (rr_id r) (rr_n r) (rr_body r))"

definition wf_rec :: "raw_record \<Rightarrow> bool" where
  "wf_rec r \<longleftrightarrow> length (rr_id r) = 16 \<and> length (rr_body r) + 19 < 2 ^ 32"

lemma length_rec_of: "wf_rec r \<Longrightarrow> length (rec_of r) = length (rr_body r) + 27"
  by (simp add: rec_of_def rec_bytes_def rec_payload_def wf_rec_def)

lemma slice_append_skip: "slice (pre @ bs) (length pre + a) (length pre + b) = slice bs a b"
  by (simp add: slice_def)

lemma slice_middle: "length a = m \<Longrightarrow> length b = n - m \<Longrightarrow> m \<le> n \<Longrightarrow> slice (a @ b @ c) m n = b"
  by (simp add: slice_def)

lemma read_written:
  assumes "wf_rec r" and "length pre + length (rec_of r) \<le> len"
  shows "read_record_at (pre @ rec_of r @ post) (length pre) len = Some (r, length pre + length (rec_of r))"
proof -
  define p where "p = rec_payload (rr_kind r) (rr_id r) (rr_n r) (rr_body r)"
  have lp: "19 \<le> length p" and small: "length p < 2 ^ 32" and lr: "length (rec_of r) = length p + 8"
    using assms(1) by (simp_all add: p_def rec_payload_def wf_rec_def length_rec_of)
  have b: "rec_of r @ post = u32_to_le (as_u32 (length p)) @ p @ u32_to_le (crc32 p) @ post"
    by (simp add: rec_of_def rec_bytes_def p_def)
  have n: "unat (as_u32 (length p)) = length p" using small by simp
  have "slice (pre @ rec_of r @ post) (length pre) (length pre + 4) = u32_to_le (as_u32 (length p))"
    "slice (pre @ rec_of r @ post) (length pre + 4) (length pre + 4 + length p) = p"
    "slice (pre @ rec_of r @ post) (length pre + 4 + length p) (length pre + 4 + length p + 4) = u32_to_le (crc32 p)"
    using slice_append_skip [of pre "rec_of r @ post" 0 4] slice_append_skip [of pre "rec_of r @ post" 4 "4 + length p"]
      slice_append_skip [of pre "rec_of r @ post" "4 + length p" "4 + length p + 4"]
    unfolding b by (simp_all add: slice_def add.assoc)
  moreover have "p ! 0 = rr_kind r" "slice p 1 17 = rr_id r" "slice p 17 19 = u16_to_le (rr_n r)"
    "drop 19 p = rr_body r"
    using assms(1) by (simp_all add: p_def rec_payload_def wf_rec_def slice_def)
  ultimately show ?thesis
    using assms(2) lp by (simp add: read_record_at_def Let_def n lr)
qed

lemma read_torn:
  assumes "wf_rec r" and "t @ rest = rec_of r" and "rest \<noteq> []"
  shows "read_record_at (pre @ t) (length pre) (length pre + length t) = None"
proof (cases "length t < 4")
  case True
  then show ?thesis by (simp add: read_record_at_def)
next
  case False
  define p where "p = rec_payload (rr_kind r) (rr_id r) (rr_n r) (rr_body r)"
  have small: "length p < 2 ^ 32" using assms(1) by (simp add: p_def rec_payload_def wf_rec_def)
  have e: "t @ rest = u32_to_le (as_u32 (length p)) @ p @ u32_to_le (crc32 p)"
    using assms(2) by (simp add: rec_of_def rec_bytes_def p_def)
  have "take 4 t = u32_to_le (as_u32 (length p))" and "length t + length rest = 8 + length p"
    using False arg_cong [OF e, of "take 4"] arg_cong [OF e, of length] by simp_all
  moreover have "slice (pre @ t) (length pre) (length pre + 4) = take 4 t"
    using slice_append_skip [of pre t 0 4] by (simp add: slice_def)
  ultimately have "length t < 8 + length p" and
    "unat (u32_from_le (slice (pre @ t) (length pre) (length pre + 4))) = length p"
    using assms(3) small by (cases rest; simp)+
  then show ?thesis
    by (simp add: read_record_at_def Let_def)
qed

lemma read_extend:
  assumes "read_record_at f off len = Some x" and "len \<le> length f" and "len \<le> len'"
  shows "read_record_at (f @ post) off len' = Some x"
proof -
  have "slice (f @ post) a b = slice f a b" if "b \<le> length f" for a b
    using that by (simp add: slice_def)
  with assms show ?thesis
    by (auto simp: read_record_at_def Let_def split: if_splits)
qed

section \<open>Replaying a history\<close>

fun replay :: "raw_record list \<Rightarrow> nat \<Rightarrow> log_index \<Rightarrow> log_index option" where
  "replay [] off idx = Some idx"
| "replay (r # rs) off idx =
     (case index_step idx off r of None \<Rightarrow> None | Some idx' \<Rightarrow> replay rs (off + length (rec_of r)) idx')"

lemma replay_snoc:
  "replay (rs @ [r]) off idx =
     (case replay rs off idx of
        None \<Rightarrow> None
      | Some idx' \<Rightarrow> index_step idx' (off + length (concat (map rec_of rs))) r)"
  by (induction rs arbitrary: off idx) (auto split: option.splits simp: add.assoc)

definition torn_tail :: "bytes \<Rightarrow> bool" where
  "torn_tail t \<longleftrightarrow> (\<exists>r rest. wf_rec r \<and> rest \<noteq> [] \<and> t @ rest = rec_of r)"

lemma recover_replay:
  assumes "list_all wf_rec rs" and "replay rs (length pre) idx = Some idx'" and "torn_tail t"
  shows "recover_loop (pre @ concat (map rec_of rs) @ t) (length (pre @ concat (map rec_of rs) @ t)) (length pre) idx =
    (length pre + length (concat (map rec_of rs)), idx')"
  using assms(1,2)
proof (induction rs arbitrary: pre idx)
  case Nil
  obtain r rest where "wf_rec r" "t @ rest = rec_of r" "rest \<noteq> []"
    using assms(3) by (auto simp: torn_tail_def)
  from read_torn [OF this, of pre] Nil show ?case
    by (simp add: recover_loop.simps [of "pre @ t"])
next
  case (Cons r rs)
  let ?f = "pre @ rec_of r @ concat (map rec_of rs) @ t"
  obtain idx1 where step: "index_step idx (length pre) r = Some idx1"
    and rest: "replay rs (length (pre @ rec_of r)) idx1 = Some idx'"
    using Cons.prems by (auto split: option.splits)
  have wf: "wf_rec r" and pos: "0 < length (rec_of r)"
    using Cons.prems by (simp_all add: length_rec_of)
  have "recover_loop ?f (length ?f) (length pre) idx = recover_loop ?f (length ?f) (length pre + length (rec_of r)) idx1"
    using read_written [OF wf, of pre "length ?f" "concat (map rec_of rs) @ t"] step pos
    by (subst recover_loop.simps) simp
  also have "\<dots> = (length (pre @ rec_of r) + length (concat (map rec_of rs)), idx')"
    using Cons.IH [OF _ rest] Cons.prems by simp
  finally show ?case by (simp add: add.assoc)
qed

definition log_ok :: "raw_record list \<Rightarrow> datum_log \<Rightarrow> bool" where
  "log_ok rs l \<longleftrightarrow>
     length (log_id l) = 16 \<and> list_all wf_rec rs \<and>
     log_file l = log_header (log_id l) @ concat (map rec_of rs) \<and>
     end_offset l = length (log_file l) \<and> replay rs HEADER_LEN [] = Some (index l)"

lemma length_header [simp]: "length u = 16 \<Longrightarrow> length (log_header u) = 22"
  by (simp add: log_header_def MAGIC_def)

lemma torn_empty: "torn_tail []"
proof -
  have "wf_rec \<lparr>rr_kind = 1, rr_id = replicate 16 0, rr_n = 0, rr_body = []\<rparr>" by (simp add: wf_rec_def)
  then show ?thesis
    unfolding torn_tail_def by (intro exI conjI) (assumption, simp_all add: rec_of_def rec_bytes_def rec_payload_def)
qed

text \<open>Opening the file of a log, with or without a record torn by a crash, gives the log back.\<close>

lemma open_torn:
  assumes "log_ok rs l" and "torn_tail t"
  shows "log_open fresh (log_file l @ t) = Inr l"
proof -
  let ?h = "log_header (log_id l)" and ?c = "concat (map rec_of rs)"
  have lid: "length (log_id l) = 16" and f: "log_file l = ?h @ ?c"
    and e: "end_offset l = 22 + length ?c"
    using assms(1) by (simp_all add: log_ok_def)
  have "recover_loop (?h @ ?c @ t) (length (?h @ ?c @ t)) (length ?h) [] = (length ?h + length ?c, index l)"
    using assms by (intro recover_replay) (simp_all add: log_ok_def HEADER_LEN_def)
  then have "recover \<lparr>log_file = ?h @ ?c @ t, index = [], end_offset = HEADER_LEN, log_id = log_id l\<rparr>
      (length (?h @ ?c @ t)) = l"
    using lid f e by (cases l) (simp add: recover_def HEADER_LEN_def)
  moreover have "slice (?h @ ?c @ t) 0 4 = MAGIC" "slice (?h @ ?c @ t) 4 6 = u16_to_le FORMAT_VERSION"
    "slice (?h @ ?c @ t) 6 22 = log_id l"
    using lid by (simp_all add: log_header_def MAGIC_def slice_def)
  ultimately show ?thesis
    using lid by (simp add: log_open_def f HEADER_LEN_def Let_def max_absorb1)
qed

lemma open_fresh:
  assumes "length fresh = 16"
  shows "\<exists>l. log_open fresh [] = Inr l \<and> log_ok [] l \<and> index l = []"
proof -
  have "recover_loop (log_header fresh) 22 22 [] = (22, [])" by (simp add: recover_loop.simps)
  then show ?thesis
    using assms by (simp add: log_open_def recover_def HEADER_LEN_def log_ok_def)
qed

section \<open>What an operation appends\<close>

lemma append_ok:
  assumes "log_ok rs l" and "wf_rec r" and "r = \<lparr>rr_kind = k, rr_id = i, rr_n = n, rr_body = b\<rparr>"
    and "index_step (index l) (end_offset l) r = Some idx"
    and "append_record l k i n b = (off, l1)"
  shows "log_ok (rs @ [r]) (l1\<lparr>index := idx\<rparr>)" and "off = end_offset l" and "index l1 = index l"
proof -
  have w: "write_at (log_file l) (end_offset l) bs = log_file l @ bs" for bs
    using assms(1) by (simp add: write_at_def log_ok_def)
  have l1: "l1 = l\<lparr>log_file := log_file l @ rec_of r, end_offset := end_offset l + length (rec_of r)\<rparr>"
    and "off = end_offset l"
    using assms(5) w by (auto simp: append_record_def rec_of_def rec_bytes_def assms(3) Let_def)
  then show "off = end_offset l" and "index l1 = index l" by simp_all
  have "replay (rs @ [r]) HEADER_LEN [] = Some idx"
    using assms(1,4) by (simp add: replay_snoc log_ok_def HEADER_LEN_def)
  then show "log_ok (rs @ [r]) (l1\<lparr>index := idx\<rparr>)"
    using assms(1,2) by (simp add: l1 log_ok_def)
qed

lemma put_full_ok:
  assumes "log_ok rs l" and "length i = 16" and "length bs + 19 < 2 ^ 32"
  shows "log_ok (rs @ [\<lparr>rr_kind = KIND_FULL, rr_id = i, rr_n = n, rr_body = bs\<rparr>]) (put_full l i bs n)"
proof -
  obtain off l1 where a: "append_record l KIND_FULL i n bs = (off, l1)" by fastforce
  have wf: "wf_rec \<lparr>rr_kind = KIND_FULL, rr_id = i, rr_n = n, rr_body = bs\<rparr>"
    using assms by (simp add: wf_rec_def)
  note ok = append_ok [OF assms(1) wf refl _ a]
  show ?thesis
    using ok(1) ok(2,3) by (simp add: put_full_def a index_step_def)
qed

lemma delete_ok:
  assumes "log_ok rs l" and "length i = 16"
  shows "log_ok (rs @ [\<lparr>rr_kind = KIND_TOMBSTONE, rr_id = i, rr_n = 0, rr_body = []\<rparr>]) (log_delete l i)"
proof -
  obtain off l1 where a: "append_record l KIND_TOMBSTONE i 0 [] = (off, l1)" by fastforce
  have wf: "wf_rec \<lparr>rr_kind = KIND_TOMBSTONE, rr_id = i, rr_n = 0, rr_body = []\<rparr>"
    using assms by (simp add: wf_rec_def)
  note ok = append_ok [OF assms(1) wf refl _ a]
  show ?thesis
    using ok(1) ok(2,3) by (simp add: log_delete_def a index_step_def)
qed

definition wf_delta :: "delta \<Rightarrow> bool" where
  "wf_delta d \<longleftrightarrow> length (middle d) + 35 < 2 ^ 32 \<and> unat (new_total_len d) + 19 < 2 ^ 32"

definition rebases :: "log_ref \<Rightarrow> delta \<Rightarrow> bool" where
  "rebases e d \<longleftrightarrow> length (deltas e) + 1 > MAX_DELTA_CHAIN \<or>
     unat (delta_bytes e) + length (encode_delta d) > max (unat (materialized_len e)) 1 div 2"

lemma put_delta_cases:
  "map_of (index l) i = None \<Longrightarrow> put_delta l i d n = Inr (NeedFull, l)"
  "map_of (index l) i = Some e \<Longrightarrow> rebases e d \<Longrightarrow> log_get l i = Inr (Some cur) \<Longrightarrow> apply_delta cur d = Inr v \<Longrightarrow>
     put_delta l i d n = Inr (Applied, put_full l i v n)"
  "map_of (index l) i = Some e \<Longrightarrow> \<not> rebases e d \<Longrightarrow>
     put_delta l i d n = (let (off, l1) = append_record l KIND_DELTA i n (encode_delta d)
       in Inr (Applied, l1\<lparr>index := AList.update i (e\<lparr>deltas := deltas e @ [off],
          delta_bytes := delta_bytes e + as_u32 (length (encode_delta d)),
          materialized_len := new_total_len d, ref_n := n\<rparr>) (index l1)\<rparr>))"
  unfolding put_delta_def rebases_def by (simp, simp only: option.case Let_def if_True bindE_simps, simp only: option.case Let_def if_False)

section \<open>The log as a map\<close>

lemma get_deltas_append: "get_deltas f fin (xs @ ys) v = bindE (get_deltas f fin xs v) (get_deltas f fin ys)"
  by (induction xs arbitrary: v) (auto simp: bindE_def split: option.splits sum.splits)

lemma get_deltas_extend:
  assumes "get_deltas f (length f) offs v = Inr w" and "length f \<le> fin"
  shows "get_deltas (f @ post) fin offs v = Inr w"
  using assms(1)
proof (induction offs arbitrary: v)
  case (Cons off offs)
  then obtain r m where r: "read_record_at f off (length f) = Some (r, m)"
    by (auto split: option.splits)
  from read_extend [OF this order_refl assms(2), of post] Cons r show ?case by auto
qed simp

lemma get_extend:
  assumes "log_get l i = Inr x" and "end_offset l = length (log_file l)"
    and "log_file l' = log_file l @ post" and "end_offset l' = length (log_file l')"
    and "map_of (index l') i = map_of (index l) i"
  shows "log_get l' i = Inr x"
proof (cases "map_of (index l) i")
  case None
  with assms show ?thesis by (simp add: log_get_def)
next
  case (Some e)
  then obtain r m v where r: "read_record_at (log_file l) (base_offset e) (length (log_file l)) = Some (r, m)"
    and v: "get_deltas (log_file l) (length (log_file l)) (deltas e) (rr_body r) = Inr v" and "x = Some v"
    using assms(1,2) by (auto simp: log_get_def split: option.splits)
  moreover have "read_record_at (log_file l') (base_offset e) (end_offset l') = Some (r, m)"
    "get_deltas (log_file l') (end_offset l') (deltas e) (rr_body r) = Inr v"
    using read_extend [OF r] get_deltas_extend [OF v] assms(3,4) by simp_all
  ultimately show ?thesis using Some assms(5) by (simp add: log_get_def)
qed

lemma append_shape:
  assumes "log_ok rs l"
  shows "append_record l k i n b = (end_offset l,
    l\<lparr>log_file := log_file l @ rec_of \<lparr>rr_kind = k, rr_id = i, rr_n = n, rr_body = b\<rparr>,
      end_offset := length (log_file l @ rec_of \<lparr>rr_kind = k, rr_id = i, rr_n = n, rr_body = b\<rparr>)\<rparr>)"
  using assms by (simp add: append_record_def rec_of_def rec_bytes_def Let_def write_at_def log_ok_def)

lemma read_appended:
  assumes "log_ok rs l" and "wf_rec r"
  shows "read_record_at (log_file l @ rec_of r) (end_offset l) (length (log_file l @ rec_of r)) =
    Some (r, length (log_file l @ rec_of r))"
  using read_written [OF assms(2), of "log_file l" _ "[]"] assms(1) by (simp add: log_ok_def)

text \<open>The abstract datum store: a map from ids to a value and its replication factor.\<close>

type_synonym datum_map = "bytes \<rightharpoonup> bytes \<times> u16"

definition implements :: "datum_log \<Rightarrow> datum_map \<Rightarrow> bool" where
  "implements l m \<longleftrightarrow>
     (\<exists>rs. log_ok rs l) \<and> (\<forall>i. log_get l i = Inr (map_option fst (m i)) \<and> n_of l i = map_option snd (m i))"

lemma implements_append:
  assumes "implements l m" and "\<And>rs. log_ok rs l \<Longrightarrow> log_ok (rs @ [r]) l'"
    and "log_file l' = log_file l @ rec_of r" and "end_offset l' = length (log_file l')"
    and "\<And>j. j \<noteq> i \<Longrightarrow> map_of (index l') j = map_of (index l) j"
    and "log_get l' i = Inr (map_option fst x)" and "n_of l' i = map_option snd x"
  shows "implements l' (m(i := x))"
proof -
  have e: "end_offset l = length (log_file l)" using assms(1) by (auto simp: implements_def log_ok_def)
  have "log_get l' j = Inr (map_option fst (m j)) \<and> n_of l' j = map_option snd (m j)" if "j \<noteq> i" for j
    using get_extend [OF _ e assms(3,4) assms(5) [OF that]] assms(1) assms(5) [OF that]
    by (simp add: implements_def n_of_def)
  with assms(1,2,6,7) show ?thesis by (auto simp: implements_def)
qed

lemma put_full_implements:
  assumes "implements l m" and "length i = 16" and "length bs + 19 < 2 ^ 32"
  shows "implements (put_full l i bs n) (m(i \<mapsto> (bs, n)))"
proof -
  let ?r = "\<lparr>rr_kind = KIND_FULL, rr_id = i, rr_n = n, rr_body = bs\<rparr>"
  obtain rs where ok: "log_ok rs l" using assms(1) by (auto simp: implements_def)
  have "wf_rec ?r" using assms by (simp add: wf_rec_def)
  note read = read_appended [OF ok this]
  note put = append_shape [OF ok, of KIND_FULL i n bs]
  show ?thesis
    by (rule implements_append [OF assms(1) put_full_ok [OF _ assms(2,3)]])
      (use read in \<open>simp_all add: put_full_def put update_conv' log_get_def n_of_def\<close>)
qed

lemma delete_implements:
  assumes "implements l m" and "length i = 16"
  shows "implements (log_delete l i) (m(i := None))"
proof -
  obtain rs where ok: "log_ok rs l" using assms(1) by (auto simp: implements_def)
  note put = append_shape [OF ok, of KIND_TOMBSTONE i 0 "[]"]
  show ?thesis
    by (rule implements_append [OF assms(1) delete_ok [OF _ assms(2)]])
      (simp_all add: log_delete_def put delete_conv' log_get_def n_of_def)
qed

text \<open>An appended delta: the next read applies it to the value read before, error or not.\<close>

lemma put_delta_appends:
  assumes "log_ok rs l" and "length i = 16" and "wf_delta d"
    and e: "map_of (index l) i = Some e" and "\<not> rebases e d" and "log_get l i = Inr (Some cur)"
    and r_def: "r = \<lparr>rr_kind = KIND_DELTA, rr_id = i, rr_n = n, rr_body = encode_delta d\<rparr>"
  obtains l' where "put_delta l i d n = Inr (Applied, l')" and "log_ok (rs @ [r]) l'"
    and "log_file l' = log_file l @ rec_of r" and "end_offset l' = length (log_file l')"
    and "\<And>j. j \<noteq> i \<Longrightarrow> map_of (index l') j = map_of (index l) j"
    and "log_get l' i = bindE (apply_delta cur d) (\<lambda>v. Inr (Some v))" and "n_of l' i = Some n"
proof -
  have "short (middle d)" using assms(3) by (simp add: wf_delta_def short_def)
  then have dec: "decode_delta (encode_delta d) = Inr d" by (rule delta.dec_put)
  have wf: "wf_rec r" using assms(2,3) by (simp add: r_def wf_rec_def wf_delta_def encode_delta_def)
  have fin: "end_offset l = length (log_file l)" using assms(1) by (simp add: log_ok_def)
  let ?f = "log_file l @ rec_of r"
  let ?e = "e\<lparr>deltas := deltas e @ [end_offset l],
    delta_bytes := delta_bytes e + as_u32 (length (encode_delta d)), materialized_len := new_total_len d, ref_n := n\<rparr>"
  let ?l = "l\<lparr>log_file := ?f, end_offset := length ?f, index := AList.update i ?e (index l)\<rparr>"
  note app = append_shape [OF assms(1), of KIND_DELTA i n "encode_delta d", folded r_def]
  have put: "put_delta l i d n = Inr (Applied, ?l)"
    by (simp add: put_delta_cases(3) [OF e assms(5)] app)
  have ok: "log_ok (rs @ [r]) ?l"
    using append_ok(1) [OF assms(1) wf r_def _ app, of "index ?l"] e dec
    by (simp add: index_step_def r_def)
  obtain b m where b: "read_record_at (log_file l) (base_offset e) (length (log_file l)) = Some (b, m)"
    and v: "get_deltas (log_file l) (length (log_file l)) (deltas e) (rr_body b) = Inr cur"
    using assms(6) e fin by (auto simp: log_get_def split: option.splits)
  have "get_deltas ?f (length ?f) [end_offset l] cur = bindE (apply_delta cur d) Inr"
    using read_appended [OF assms(1) wf] dec by (simp add: r_def bindE_def split: sum.splits)
  then have "log_get ?l i = bindE (apply_delta cur d) (\<lambda>v. Inr (Some v))"
    using read_extend [OF b, of "length ?f" "rec_of r"] get_deltas_extend [OF v, of "length ?f" "rec_of r"]
    by (simp add: log_get_def update_conv' get_deltas_append bindE_def split: sum.splits)
  with put ok show ?thesis
    by (intro that [of ?l]) (simp_all add: update_conv' n_of_def)
qed

lemma put_delta_implements:
  assumes "implements l m" and "length i = 16" and "wf_delta d"
    and "m i = Some (cur, n0)" and v: "apply_delta cur d = Inr v"
  shows "\<exists>l'. put_delta l i d n = Inr (Applied, l') \<and> implements l' (m(i \<mapsto> (v, n)))"
proof -
  obtain rs where ok: "log_ok rs l" using assms(1) by (auto simp: implements_def)
  have g: "log_get l i = Inr (Some cur)" using assms(1,4) by (simp add: implements_def)
  then obtain e where e: "map_of (index l) i = Some e" by (auto simp: log_get_def split: option.splits)
  show ?thesis
  proof (cases "rebases e d")
    case True
    have "length v + 19 < 2 ^ 32" using apply_delta_Inr [OF v] assms(3) by (simp add: wf_delta_def)
    from put_full_implements [OF assms(1,2) this] put_delta_cases(2) [OF e True g v] show ?thesis by simp
  next
    case False
    let ?r = "\<lparr>rr_kind = KIND_DELTA, rr_id = i, rr_n = n, rr_body = encode_delta d\<rparr>"
    have ok': "log_ok (rs' @ [?r]) l'" if "log_ok rs' l" "put_delta l i d n = Inr (Applied, l')" for rs' l'
      by (rule put_delta_appends [OF that(1) assms(2,3) e False g refl, of n]) (use that(2) in simp)
    show ?thesis
      by (rule put_delta_appends [OF ok assms(2,3) e False g refl])
        (intro exI conjI, assumption, rule implements_append [OF assms(1) ok'], simp_all add: v)
  qed
qed

lemma put_delta_absent:
  assumes "implements l m" and "m i = None"
  shows "put_delta l i d n = Inr (NeedFull, l)"
proof -
  have "n_of l i = None" using assms by (simp add: implements_def)
  then show ?thesis by (simp add: n_of_def put_delta_cases(1))
qed

lemma implements_reopen: "implements l m \<Longrightarrow> torn_tail t \<Longrightarrow> log_open fresh (log_file l @ t) = Inr l"
  by (auto simp: implements_def intro: open_torn)

section \<open>Runs of operations\<close>

datatype log_cmd = CPut bytes bytes u16 | CPatch bytes delta u16 | CDelete bytes

fun log_exec :: "datum_log \<Rightarrow> log_cmd \<Rightarrow> datum_log result" where
  "log_exec l (CPut i bs n) = Inr (put_full l i bs n)"
| "log_exec l (CPatch i d n) = bindE (put_delta l i d n) (\<lambda>(_, l'). Inr l')"
| "log_exec l (CDelete i) = Inr (log_delete l i)"

fun log_run :: "datum_log \<Rightarrow> log_cmd list \<Rightarrow> datum_log result" where
  "log_run l [] = Inr l"
| "log_run l (c # cs) = bindE (log_exec l c) (\<lambda>l'. log_run l' cs)"

text \<open>On the map a patch of an absent id changes nothing (the caller is told to send the full
  value) and a patch that does not fit the value is not part of the specification.\<close>

fun map_exec :: "datum_map \<Rightarrow> log_cmd \<Rightarrow> datum_map option" where
  "map_exec m (CPut i bs n) = Some (m(i \<mapsto> (bs, n)))"
| "map_exec m (CPatch i d n) = (case m i of
     None \<Rightarrow> Some m
   | Some (cur, _) \<Rightarrow> (case apply_delta cur d of Inl _ \<Rightarrow> None | Inr v \<Rightarrow> Some (m(i \<mapsto> (v, n)))))"
| "map_exec m (CDelete i) = Some (m(i := None))"

fun map_run :: "datum_map \<Rightarrow> log_cmd list \<Rightarrow> datum_map option" where
  "map_run m [] = Some m"
| "map_run m (c # cs) = (case map_exec m c of None \<Rightarrow> None | Some m' \<Rightarrow> map_run m' cs)"

fun wf_cmd :: "log_cmd \<Rightarrow> bool" where
  "wf_cmd (CPut i bs n) \<longleftrightarrow> length i = 16 \<and> length bs + 19 < 2 ^ 32"
| "wf_cmd (CPatch i d n) \<longleftrightarrow> length i = 16 \<and> wf_delta d"
| "wf_cmd (CDelete i) \<longleftrightarrow> length i = 16"

lemma exec_implements:
  assumes "implements l m" and "wf_cmd c" and "map_exec m c = Some m'"
  shows "\<exists>l'. log_exec l c = Inr l' \<and> implements l' m'"
proof (cases c)
  case (CPatch i d n)
  show ?thesis
  proof (cases "m i")
    case None
    with assms CPatch show ?thesis by (auto simp: put_delta_absent)
  next
    case (Some p)
    then obtain cur n0 v where "m i = Some (cur, n0)" "apply_delta cur d = Inr v" "m' = m(i \<mapsto> (v, n))"
      using assms(3) CPatch by (cases p) (auto split: sum.splits)
    with put_delta_implements [OF assms(1)] assms(2) CPatch show ?thesis by fastforce
  qed
qed (use assms put_full_implements delete_implements in auto)

lemma run_implements:
  "implements l m \<Longrightarrow> list_all wf_cmd cs \<Longrightarrow> map_run m cs = Some m' \<Longrightarrow>
     \<exists>l'. log_run l cs = Inr l' \<and> implements l' m'"
proof (induction cs arbitrary: l m)
  case (Cons c cs)
  from Cons.prems obtain m1 where "map_exec m c = Some m1" "map_run m1 cs = Some m'"
    by (auto split: option.splits)
  with exec_implements [of l m c m1] Cons.IH Cons.prems show ?case by fastforce
qed simp

lemma fresh_implements:
  assumes "length fresh = 16"
  obtains l where "log_open fresh [] = Inr l" and "implements l Map.empty"
  using open_fresh [OF assms] by (fastforce simp: implements_def log_get_def n_of_def)

section \<open>Listing\<close>

lemma index_step_distinct:
  "index_step idx off r = Some idx' \<Longrightarrow> distinct (map fst idx) \<Longrightarrow> distinct (map fst idx')"
  by (auto simp: index_step_def distinct_update distinct_delete split: if_splits option.splits sum.splits)

lemma replay_distinct:
  "replay rs off idx = Some idx' \<Longrightarrow> distinct (map fst idx) \<Longrightarrow> distinct (map fst idx')"
  by (induction rs arbitrary: off idx) (auto split: option.splits dest: index_step_distinct)

lemma implements_index:
  assumes "implements l m"
  shows "distinct (map fst (index l))" and "set (map fst (index l)) = dom m"
    and "i \<in> dom m \<Longrightarrow> ref_n (the (map_of (index l) i)) = snd (the (m i))"
proof -
  show "distinct (map fst (index l))"
    using assms by (auto simp: implements_def log_ok_def dest: replay_distinct)
  have n: "map_option ref_n (map_of (index l) i) = map_option snd (m i)" for i
    using assms by (simp add: implements_def n_of_def)
  then have "map_of (index l) i = None \<longleftrightarrow> m i = None" for i
    by (metis option.map_disc_iff)
  then show "set (map fst (index l)) = dom m"
    by (simp add: dom_map_of_conv_image_fst [symmetric] dom_def)
  show "i \<in> dom m \<Longrightarrow> ref_n (the (map_of (index l) i)) = snd (the (m i))"
    using n [of i] by (cases "map_of (index l) i") auto
qed

lemma filter_above:
  assumes "sorted (xs @ y # ys)" and "distinct (xs @ y # ys)"
  shows "filter (\<lambda>i. y < i) (xs @ y # ys) = ys"
proof -
  have "filter (\<lambda>i. y < i) xs = []" and "filter (\<lambda>i. y < i) ys = ys"
    using assms by (fastforce simp: sorted_append filter_empty_conv filter_id_conv order_less_le)+
  then show ?thesis by simp
qed

lemma list_ids_pages:
  assumes imp: "implements l m"
  shows "\<exists>ids. set ids = dom m \<and> distinct ids \<and> sorted ids \<and>
    (\<forall>limit. list_ids l None limit = map (\<lambda>i. (i, snd (the (m i)))) (take limit ids)) \<and>
    (\<forall>limit xs y ys. ids = xs @ y # ys \<longrightarrow> list_ids l (Some y) limit = map (\<lambda>i. (i, snd (the (m i)))) (take limit ys))"
proof -
  let ?ids = "sort (map fst (index l))"
  have ids: "set ?ids = dom m" "distinct ?ids" "sorted ?ids"
    using implements_index(1,2) [OF imp] by simp_all
  have page: "map (\<lambda>i. (i, ref_n (the (map_of (index l) i)))) zs = map (\<lambda>i. (i, snd (the (m i)))) zs"
    if "set zs \<subseteq> dom m" for zs
    using that implements_index(3) [OF imp] by auto
  have "list_ids l None limit = map (\<lambda>i. (i, snd (the (m i)))) (take limit ?ids)" for limit
    using page [of "take limit ?ids"] ids(1) set_take_subset [of limit ?ids] by (simp add: list_ids_def)
  moreover have "list_ids l (Some y) limit = map (\<lambda>i. (i, snd (the (m i)))) (take limit ys)"
    if eq: "?ids = xs @ y # ys" for limit xs y ys
  proof -
    have "sort (filter (\<lambda>i. y < i) (map fst (index l))) = ys"
      using filter_above [of xs y ys] ids(2,3) unfolding filter_sort [symmetric] eq by simp
    moreover have "set (take limit ys) \<subseteq> dom m" using ids(1) set_take_subset [of limit ys] by (auto simp: eq)
    ultimately show ?thesis using page [of "take limit ys"] by (simp add: list_ids_def)
  qed
  ultimately show ?thesis using ids by blast
qed

section \<open>Properties\<close>

text \<open>
  C1: Write-before-ack survives a crash. Any sequence of puts, deletes and fitting patches on a
  fresh log is accepted, and reopening the file, also with a record torn by a crash behind it,
  succeeds and gives the same log: every id reads exactly the value and replication factor of the
  acknowledged operations, none of the torn one.
\<close>

theorem log_survives_a_crash:
  assumes "length fresh = 16" and "list_all wf_cmd cs" and "map_run Map.empty cs = Some m" and "torn_tail t"
  shows "\<exists>l0 l. log_open fresh [] = Inr l0 \<and> log_run l0 cs = Inr l \<and>
    log_open fresh' (log_file l @ t) = Inr l \<and>
    (\<forall>i. log_get l i = Inr (map_option fst (m i)) \<and> n_of l i = map_option snd (m i))"
proof -
  obtain l0 where l0: "log_open fresh [] = Inr l0" and "implements l0 Map.empty"
    by (rule fresh_implements [OF assms(1)])
  with run_implements [OF _ assms(2,3)] obtain l where "log_run l0 cs = Inr l" "implements l m"
    by blast
  with l0 implements_reopen [OF _ assms(4), of l m fresh'] show ?thesis
    by (auto simp: implements_def)
qed

theorem log_survives_a_crash_witness:
  "\<exists>l0 l. log_open (replicate 16 0) [] = Inr l0 \<and>
     log_run l0 [CPut (replicate 16 1) [1, 2, 3, 4] 2,
       CPatch (replicate 16 1) \<lparr>prefix_len = 1, suffix_len = 1, middle = [9], new_total_len = 3\<rparr> 3] = Inr l \<and>
     log_open [] (log_file l @ []) = Inr l \<and> log_get l (replicate 16 1) = Inr (Some [1, 9, 4])"
proof -
  let ?i = "replicate 16 1 :: bytes"
  let ?d = "\<lparr>prefix_len = 1, suffix_len = 1, middle = [9], new_total_len = 3\<rparr> :: delta"
  let ?cs = "[CPut ?i [1, 2, 3, 4] 2, CPatch ?i ?d 3]"
  have a: "apply_delta [1, 2, 3, 4] ?d = Inr [1, 9, 4]" by code_simp
  have "map_run Map.empty ?cs = Some (Map.empty(?i \<mapsto> ([1, 2, 3, 4], 2), ?i \<mapsto> ([1, 9, 4], 3)))"
    by (simp add: a)
  moreover have "list_all wf_cmd ?cs" by (simp add: wf_delta_def)
  ultimately show ?thesis
    using log_survives_a_crash [of "replicate 16 0" ?cs _ "[]" "[]"] torn_empty by fastforce
qed

text \<open>
  A patch is acknowledged without being applied. When it does not trigger a rebase,
  \<open>put_delta\<close> answers \<open>Applied\<close> to a delta that does not fit the stored value, and from then on the
  id cannot be read: \<open>get\<close> fails with the error of \<open>apply\<close>.
\<close>

theorem unfit_patch_is_acknowledged:
  assumes "length fresh = 16" and "length i = 16" and "length bs + 19 < 2 ^ 32" and "wf_delta d"
    and "length (encode_delta d) \<le> length bs div 2" and "apply_delta bs d = Inl e"
  shows "\<exists>l0 l. log_open fresh [] = Inr l0 \<and>
    put_delta (put_full l0 i bs n) i d n' = Inr (Applied, l) \<and> log_get l i = Inl e"
proof -
  obtain l0 where l0: "log_open fresh [] = Inr l0" and "implements l0 Map.empty"
    by (rule fresh_implements [OF assms(1)])
  let ?l = "put_full l0 i bs n"
  have imp: "implements ?l (Map.empty(i \<mapsto> (bs, n)))"
    by (rule put_full_implements [OF \<open>implements l0 Map.empty\<close> assms(2,3)])
  then obtain rs where ok: "log_ok rs ?l" by (auto simp: implements_def)
  obtain ref where ref: "map_of (index ?l) i = Some ref" and "deltas ref = []" "delta_bytes ref = 0"
    "unat (materialized_len ref) = length bs"
    using assms(3) by (auto simp: put_full_def append_record_def update_conv' Let_def)
  then have "\<not> rebases ref d" using assms(5) by (auto simp: rebases_def MAX_DELTA_CHAIN_def max_def)
  moreover have "log_get ?l i = Inr (Some bs)" using imp by (simp add: implements_def)
  ultimately obtain l where "put_delta ?l i d n' = Inr (Applied, l)"
    "log_get l i = bindE (apply_delta bs d) (\<lambda>v. Inr (Some v))"
    using put_delta_appends [OF ok assms(2,4) ref _ _ refl] by metis
  with l0 assms(6) show ?thesis by auto
qed

theorem unfit_patch_is_acknowledged_witness:
  "\<exists>l0 l. log_open (replicate 16 0) [] = Inr l0 \<and>
    put_delta (put_full l0 (replicate 16 1) (replicate 40 7) 1) (replicate 16 1)
      \<lparr>prefix_len = 50, suffix_len = 0, middle = [], new_total_len = 50\<rparr> 1 = Inr (Applied, l) \<and>
    log_get l (replicate 16 1) = Inl (Bail ''delta prefix {} + suffix {} exceed the base's {} bytes'' [50, 0, 40])"
  by (rule unfit_patch_is_acknowledged)
    (simp_all add: wf_delta_def encode_delta_def apply_delta_def)

text \<open>
  Paging through \<open>list_ids\<close> sees every datum once. With \<open>ids\<close> the stored ids in order, a page
  is their first \<open>limit\<close>, and the page asked for after the id \<open>y\<close> is the next \<open>limit\<close> behind it,
  each with its replication factor.
\<close>

theorem list_ids_pages_every_datum:
  assumes "length fresh = 16" and "list_all wf_cmd cs" and "map_run Map.empty cs = Some m"
  shows "\<exists>l0 l ids. log_open fresh [] = Inr l0 \<and> log_run l0 cs = Inr l \<and>
    set ids = dom m \<and> distinct ids \<and> sorted ids \<and>
    list_ids l None limit = map (\<lambda>i. (i, snd (the (m i)))) (take limit ids) \<and>
    (\<forall>xs y ys. ids = xs @ y # ys \<longrightarrow>
       list_ids l (Some y) limit = map (\<lambda>i. (i, snd (the (m i)))) (take limit ys))"
proof -
  obtain l0 where l0: "log_open fresh [] = Inr l0" and "implements l0 Map.empty"
    by (rule fresh_implements [OF assms(1)])
  with run_implements [OF _ assms(2,3)] obtain l where l: "log_run l0 cs = Inr l" and imp: "implements l m"
    by blast
  from list_ids_pages [OF imp] l0 l show ?thesis by blast
qed

theorem list_ids_pages_every_datum_witness:
  "\<exists>l0 l. log_open (replicate 16 0) [] = Inr l0 \<and> log_run l0 [CPut (replicate 16 1) [5] 2] = Inr l \<and>
     list_ids l None 10 = [(replicate 16 1, 2)]"
proof -
  have "map_run Map.empty [CPut (replicate 16 1) [5] 2] = Some (Map.empty(replicate 16 1 \<mapsto> ([5], 2)))" by simp
  moreover have "list_all wf_cmd [CPut (replicate 16 1) [5] 2]" by simp
  ultimately obtain l0 l ids where *: "log_open (replicate 16 0) [] = Inr l0"
    "log_run l0 [CPut (replicate 16 1) [5] 2] = Inr l" "set ids = {replicate 16 1}" "distinct ids"
    "list_ids l None 10 = map (\<lambda>i. (i, snd (the ((Map.empty(replicate 16 1 \<mapsto> ([5 :: u8], 2 :: u16))) i)))) (take 10 ids)"
    using list_ids_pages_every_datum [of "replicate 16 0" "[CPut (replicate 16 1) [5] 2]" _ 10]
    by (fastforce)
  have "length ids = 1" using distinct_card [OF *(4)] *(3) by simp
  then have "ids = [replicate 16 1]" using *(3) by (cases ids) simp_all
  with * show ?thesis by auto
qed

end
