(* ===== verification/Transfer_Table.thy ===== *)
theory Transfer_Table
  imports Ids "HOL-Library.AList"
begin

text \<open>
  The bookkeeping of a storage node's live transfers, \<open>seisin-node/src/transfer.rs\<close>. Each method
  runs under the manager's mutex and is one function on the table. A \<open>HashMap\<close> is an association
  list and a \<open>HashSet\<close> a list without duplicates; the order in which they are walked is the
  order of insertion.
\<close>

record transfer_state =
  tr_ids :: "datum_id list"
  tr_dest :: rstring
  tr_copied :: u64
  tr_dirty :: "datum_id list"
  tr_done :: bool

type_synonym transfers = "(datum_id \<times> transfer_state) list"

definition transfer_start :: "transfers \<Rightarrow> datum_id \<Rightarrow> datum_id list \<Rightarrow> rstring \<Rightarrow> transfers" where
  "transfer_start ts tid ids dest =
     AList.update tid \<lparr>tr_ids = remdups ids, tr_dest = dest, tr_copied = 0, tr_dirty = [], tr_done = False\<rparr> ts"

definition mark_dirty :: "datum_id \<Rightarrow> transfer_state \<Rightarrow> transfer_state" where
  "mark_dirty i t = (if i \<in> set (tr_ids t) then t\<lparr>tr_dirty := List.insert i (tr_dirty t)\<rparr> else t)"

definition note_write :: "transfers \<Rightarrow> datum_id \<Rightarrow> transfers" where
  "note_write ts i = map (\<lambda>(tid, t). (tid, mark_dirty i t)) ts"

definition transfer_dest :: "transfers \<Rightarrow> datum_id \<Rightarrow> rstring option" where
  "transfer_dest ts tid = map_option tr_dest (map_of ts tid)"

definition transfer_ids :: "transfers \<Rightarrow> datum_id \<Rightarrow> datum_id list" where
  "transfer_ids ts tid = (case map_of ts tid of None \<Rightarrow> [] | Some t \<Rightarrow> tr_ids t)"

definition bump_copied :: "transfers \<Rightarrow> datum_id \<Rightarrow> u64 \<Rightarrow> transfers" where
  "bump_copied ts tid n = (case map_of ts tid of
     None \<Rightarrow> ts | Some t \<Rightarrow> AList.update tid (t\<lparr>tr_copied := tr_copied t + n\<rparr>) ts)"

definition mark_done :: "transfers \<Rightarrow> datum_id \<Rightarrow> transfers" where
  "mark_done ts tid = (case map_of ts tid of
     None \<Rightarrow> ts | Some t \<Rightarrow> AList.update tid (t\<lparr>tr_done := True\<rparr>) ts)"

definition transfer_status :: "transfers \<Rightarrow> datum_id \<Rightarrow> (u64 \<times> u64 \<times> bool) option" where
  "transfer_status ts tid =
     map_option (\<lambda>t. (tr_copied t, of_nat (length (tr_dirty t)), tr_done t)) (map_of ts tid)"

definition take_dirty :: "transfers \<Rightarrow> datum_id \<Rightarrow> datum_id list \<times> transfers" where
  "take_dirty ts tid = (case map_of ts tid of
     None \<Rightarrow> ([], ts)
   | Some t \<Rightarrow> (tr_dirty t, AList.update tid (t\<lparr>tr_dirty := []\<rparr>) ts))"

definition transfer_retire :: "transfers \<Rightarrow> datum_id \<Rightarrow> datum_id list \<times> transfers" where
  "transfer_retire ts tid = (case map_of ts tid of
     None \<Rightarrow> ([], ts)
   | Some t \<Rightarrow> (tr_ids t, AList.delete tid ts))"

lemmas transfer_ops = transfer_start_def note_write_def transfer_dest_def transfer_ids_def
  bump_copied_def mark_done_def take_dirty_def transfer_retire_def

section \<open>What each operation does to one transfer\<close>

lemma map_of_transfer_start:
  "map_of (transfer_start ts tid ids dest) = (map_of ts)(tid \<mapsto>
     \<lparr>tr_ids = remdups ids, tr_dest = dest, tr_copied = 0, tr_dirty = [], tr_done = False\<rparr>)"
  by (simp add: transfer_start_def update_conv')

lemma map_of_note_write: "map_of (note_write ts i) tid = map_option (mark_dirty i) (map_of ts tid)"
  by (induction ts) (auto simp: note_write_def)

lemma map_of_bump_copied:
  "map_of (bump_copied ts tid n) u =
     (if u = tid then map_option (\<lambda>t. t\<lparr>tr_copied := tr_copied t + n\<rparr>) (map_of ts tid) else map_of ts u)"
  by (simp add: bump_copied_def update_conv' split: option.splits)

lemma map_of_mark_done:
  "map_of (mark_done ts tid) u =
     (if u = tid then map_option (tr_done_update (\<lambda>_. True)) (map_of ts tid) else map_of ts u)"
  by (simp add: mark_done_def update_conv' split: option.splits)

lemma map_of_take_dirty:
  "map_of (snd (take_dirty ts tid)) u =
     (if u = tid then map_option (tr_dirty_update (\<lambda>_. [])) (map_of ts tid) else map_of ts u)"
  by (simp add: take_dirty_def update_conv' split: option.splits)

lemma mark_dirty_simps [simp]:
  "tr_ids (mark_dirty i t) = tr_ids t" "tr_dest (mark_dirty i t) = tr_dest t"
  "set (tr_dirty (mark_dirty i t)) = (if i \<in> set (tr_ids t) then insert i (set (tr_dirty t)) else set (tr_dirty t))"
  by (auto simp: mark_dirty_def)

text \<open>The dirty set only ever holds ids of the transfer, each once.\<close>

definition transfer_wf :: "transfer_state \<Rightarrow> bool" where
  "transfer_wf t \<longleftrightarrow> distinct (tr_ids t) \<and> distinct (tr_dirty t) \<and> set (tr_dirty t) \<subseteq> set (tr_ids t)"

lemma mark_dirty_wf: "transfer_wf t \<Longrightarrow> transfer_wf (mark_dirty i t)"
  by (auto simp: transfer_wf_def mark_dirty_def)

end
