(* ===== verification/Store_Server.thy ===== *)
theory Store_Server
  imports Collections Datum_Log Transfer_Table
begin

text \<open>
  The storage node, \<open>seisin-node/src/store_server.rs\<close> with \<open>heartbeat.rs\<close>: the request handler
  over the datum log and the transfer table, and the two halves of a live transfer. A node is the
  record of its shared state; a call to another storage node goes through the argument \<open>call\<close>,
  which reads and changes the rest of the network, a value of any type. The collection requests go
  to the B+tree files of \<open>Collections\<close>. Instants and durations are nanoseconds. \<open>None\<close> as a reply is
  the connection being dropped or never answered. Disk failures are left out.
\<close>

section \<open>The node\<close>

definition stale :: "nat \<Rightarrow> nat \<Rightarrow> nat \<Rightarrow> bool" where
  "stale heard now threshold \<longleftrightarrow> now - heard > threshold"

record store_node =
  sn_log :: datum_log
  sn_node_id :: node_id
  heartbeat :: nat
  self_halt_threshold :: nat
  sn_transfers :: transfers
  sn_collections :: collections

type_synonym 'w store_net = "rstring \<Rightarrow> store_request \<Rightarrow> 'w \<Rightarrow> store_response result \<times> 'w"

definition heartbeat_record :: "nat \<Rightarrow> store_node \<Rightarrow> store_node" where
  "heartbeat_record now node = node\<lparr>heartbeat := now\<rparr>"

definition is_stale :: "nat \<Rightarrow> store_node \<Rightarrow> bool" where
  "is_stale now node = stale (heartbeat node) now (self_halt_threshold node)"

definition read_value :: "store_node \<Rightarrow> datum_id \<Rightarrow> (bytes \<times> u16) option" where
  "read_value node i =
     (case log_get (sn_log node) (as_bytes i) of
        Inr (Some bs) \<Rightarrow> Some (bs, (case n_of (sn_log node) (as_bytes i) of Some n \<Rightarrow> n | None \<Rightarrow> 1))
      | _ \<Rightarrow> None)"

text \<open>One round of the copy loop and one of the tail; the network's answer is ignored.\<close>

definition copy_one :: "'w store_net \<Rightarrow> datum_id \<Rightarrow> rstring \<Rightarrow> datum_id \<Rightarrow> store_node \<times> 'w \<Rightarrow> store_node \<times> 'w" where
  "copy_one call tid dest i = (\<lambda>(node, w).
     let w' = (case read_value node i of Some (bs, n) \<Rightarrow> snd (call dest (SPut i bs n) w) | None \<Rightarrow> w)
     in (node\<lparr>sn_transfers := bump_copied (sn_transfers node) tid 1\<rparr>, w'))"

definition run_transfer_copy :: "'w store_net \<Rightarrow> datum_id \<Rightarrow> store_node \<times> 'w \<Rightarrow> store_node \<times> 'w" where
  "run_transfer_copy call tid = (\<lambda>(node, w).
     case transfer_dest (sn_transfers node) tid of
       None \<Rightarrow> (node, w)
     | Some dest \<Rightarrow>
         let (node', w') = fold (copy_one call tid dest) (transfer_ids (sn_transfers node) tid) (node, w)
         in (node'\<lparr>sn_transfers := mark_done (sn_transfers node') tid\<rparr>, w'))"

definition resend_one :: "'w store_net \<Rightarrow> store_node \<Rightarrow> rstring \<Rightarrow> datum_id \<Rightarrow> 'w \<Rightarrow> 'w" where
  "resend_one call node dest i w =
     snd (call dest (case read_value node i of Some (bs, n) \<Rightarrow> SPut i bs n | None \<Rightarrow> SDelete i) w)"

definition finish_transfer :: "'w store_net \<Rightarrow> store_node \<Rightarrow> datum_id \<Rightarrow> 'w \<Rightarrow> store_response \<times> store_node \<times> 'w" where
  "finish_transfer call node tid w =
     (case transfer_dest (sn_transfers node) tid of
        None \<Rightarrow> (SError (lit ''unknown transfer '' @ debug_datum_id tid), node, w)
      | Some dest \<Rightarrow>
          let (dirty, ts) = take_dirty (sn_transfers node) tid;
              node' = node\<lparr>sn_transfers := ts\<rparr>
          in (SAck, node', fold (resend_one call node' dest) dirty w))"

definition written :: "store_node \<Rightarrow> datum_id \<Rightarrow> datum_log \<Rightarrow> store_node" where
  "written node i l = node\<lparr>sn_log := l, sn_transfers := note_write (sn_transfers node) i\<rparr>"

fun serve :: "'w store_net \<Rightarrow> store_node \<Rightarrow> store_request \<Rightarrow> 'w \<Rightarrow> store_response option \<times> store_node \<times> 'w" where
  "serve call node (SPut i bs n) w = (Some SAck, written node i (put_full (sn_log node) (as_bytes i) bs n), w)"
| "serve call node (SPatch i d n) w =
     (case put_delta (sn_log node) (as_bytes i) d n of
        Inr (Applied, l) \<Rightarrow> (Some SAck, written node i l, w)
      | Inr (NeedFull, l) \<Rightarrow> (Some SNeedFull, node\<lparr>sn_log := l\<rparr>, w)
      | Inl _ \<Rightarrow> (None, node, w))"
| "serve call node (SGet i) w =
     (case log_get (sn_log node) (as_bytes i) of
        Inr v \<Rightarrow> (Some (SValue v), node, w)
      | Inl _ \<Rightarrow> (None, node, w))"
| "serve call node (SDelete i) w = (Some SAck, written node i (log_delete (sn_log node) (as_bytes i)), w)"
| "serve call node SIdentify w = (Some (SIdentity (sn_node_id node) (from_bytes (log_id (sn_log node)))), node, w)"
| "serve call node (SListIds after limit) w =
     (let ids = list_ids (sn_log node) (map_option as_bytes after) (unat limit)
      in (Some (SIdList (map (\<lambda>(i, n). (from_bytes i, n)) ids) (length ids < unat limit)), node, w))"
| "serve call node (STransfer tid ids dest) w =
     (Some SAck, node\<lparr>sn_transfers := transfer_start (sn_transfers node) tid ids dest\<rparr>, w)"
| "serve call node (STransferStatus tid) w =
     (case transfer_status (sn_transfers node) tid of
        Some (copied, dirty, done) \<Rightarrow> (Some (STransferProgress copied dirty done), node, w)
      | None \<Rightarrow> (Some (SError (lit ''unknown transfer '' @ debug_datum_id tid)), node, w))"
| "serve call node (SFinishTransfer tid) w =
     (let (r, node', w') = finish_transfer call node tid w in (Some r, node', w'))"
| "serve call node (SRetire tid) w =
     (let (ids, ts) = transfer_retire (sn_transfers node) tid
      in (Some SAck, node\<lparr>sn_log := fold (\<lambda>i l. log_delete l (as_bytes i)) ids (sn_log node), sn_transfers := ts\<rparr>, w))"
| "serve call node req w =
     (let (r, cs) = serve_collection (sn_collections node) req in (r, node\<lparr>sn_collections := cs\<rparr>, w))"

definition handle_request where
  "handle_request call now node req w =
     (if is_stale now node
      then (Some (SError (lit ''storage node '' @ debug_node_id (sn_node_id node) @
              lit '' self-halted: no gossip contact within '' @ dec (self_halt_threshold node div 1000000) @ lit ''ms'')),
            node, w)
      else serve call node req w)"

text \<open>One round of the connection's loop on the bytes of a frame.\<close>

definition handle_payload where
  "handle_payload call now node payload w =
     (case decode_store_request payload of
        Inl _ \<Rightarrow> (None, node, w)
      | Inr req \<Rightarrow> (case handle_request call now node req w of
          (r, node', w') \<Rightarrow> (map_option encode_store_response r, node', w')))"

section \<open>A node as a map of data\<close>

definition holds :: "store_node \<Rightarrow> datum_map \<Rightarrow> bool" where
  "holds node m \<longleftrightarrow> implements (sn_log node) m"

definition sized :: "datum_map \<Rightarrow> bool" where
  "sized m \<longleftrightarrow> (\<forall>v \<in> ran m. length (fst v) + 19 < 2 ^ 32)"

lemma sized_upd: "sized m \<Longrightarrow> length bs + 19 < 2 ^ 32 \<Longrightarrow> sized (m(k \<mapsto> (bs, n)))"
  unfolding sized_def by (auto simp: ran_def split: if_splits)

lemma sized_del: "sized m \<Longrightarrow> sized (m(k := None))"
  unfolding sized_def by (auto simp: ran_def split: if_splits)

lemma sizedD: "sized m \<Longrightarrow> m k = Some (bs, n) \<Longrightarrow> length bs + 19 < 2 ^ 32"
  unfolding sized_def by (force simp: ran_def)

lemma read_value_holds: "holds node m \<Longrightarrow> read_value node i = m (as_bytes i)"
  by (cases "m (as_bytes i)") (auto simp: holds_def implements_def read_value_def)

text \<open>The writes a client sends, as commands on the log.\<close>

fun write_cmd :: "store_request \<Rightarrow> log_cmd option" where
  "write_cmd (SPut i bs n) = Some (CPut (as_bytes i) bs n)"
| "write_cmd (SPatch i d n) = Some (CPatch (as_bytes i) d n)"
| "write_cmd (SDelete i) = Some (CDelete (as_bytes i))"
| "write_cmd _ = None"

fun write_id :: "store_request \<Rightarrow> datum_id" where
  "write_id (SPut i bs n) = i"
| "write_id (SPatch i d n) = i"
| "write_id (SDelete i) = i"
| "write_id _ = DatumId 0"

lemma as_bytes_inj: "as_bytes i = as_bytes j \<longleftrightarrow> i = j"
  by (metis from_bytes_as_bytes)

lemma map_exec_sized: "sized m \<Longrightarrow> wf_cmd c \<Longrightarrow> map_exec m c = Some m' \<Longrightarrow> sized m'"
  by (cases c) (auto simp: sized_upd sized_del wf_delta_def dest!: apply_delta_Inr intro!: sized_upd
      split: option.splits sum.splits)

lemma serve_write:
  assumes "holds node m" and "write_cmd req = Some c" and "wf_cmd c" and "map_exec m c = Some m'"
  obtains r node' where "serve call node req w = (Some r, node', w)" and "holds node' m'"
    and "sn_transfers node' = note_write (sn_transfers node) (write_id req) \<or>
      (sn_transfers node' = sn_transfers node \<and> m' = m)"
    and "\<And>k. k \<noteq> as_bytes (write_id req) \<Longrightarrow> m' k = m k"
    and "self_halt_threshold node' = self_halt_threshold node" and "heartbeat node' = heartbeat node"
proof -
  obtain l' where l': "log_exec (sn_log node) c = Inr l'" "implements l' m'"
    using exec_implements [OF _ assms(3,4)] assms(1) by (auto simp: holds_def)
  have other: "m' k = m k" if "k \<noteq> as_bytes (write_id req)" for k
    using that assms(2,4) by (cases req) (auto split: option.splits sum.splits)
  show ?thesis
  proof (cases "\<exists>i d n. req = SPatch i d n")
    case False
    then obtain i where "serve call node req w = (Some SAck, written node i l', w)" "write_id req = i"
      using assms(2) l'(1) by (cases req) auto
    then show ?thesis using l'(2) other by (intro that [of SAck "written node i l'"]) (simp_all add: holds_def written_def)
  next
    case True
    then obtain i d n where req: "req = SPatch i d n" by blast
    then obtain out where out: "put_delta (sn_log node) (as_bytes i) d n = Inr (out, l')"
      using l'(1) assms(2) by auto
    show ?thesis
    proof (cases out)
      case Applied
      with out req l'(2) other show ?thesis
        by (intro that [of SAck "written node i l'"]) (simp_all add: holds_def written_def)
    next
      case NeedFull
      then have "map_of (index (sn_log node)) (as_bytes i) = None"
        using out by (auto simp: put_delta_def Let_def split: option.splits if_splits prod.splits)
      then have "map_option snd (m (as_bytes i)) = None"
        using assms(1) by (simp add: holds_def implements_def n_of_def) (metis option.map_disc_iff)
      then have "m (as_bytes i) = None" by simp
      then have "m' = m" using assms(2,4) req by auto
      with NeedFull out req l'(2) show ?thesis
        by (intro that [of SNeedFull "node\<lparr>sn_log := l'\<rparr>"]) (simp_all add: holds_def)
    qed
  qed
qed

section \<open>A live transfer between two nodes\<close>

text \<open>The network of a transfer is its destination, which answers with the same handler.\<close>

definition deliver :: "nat \<Rightarrow> store_node store_net" where
  "deliver now addr req dst =
     (case handle_request (\<lambda>_ _ u. (Inl (Bail ''unreachable'' []), u)) now dst req () of
        (Some r, dst', _) \<Rightarrow> (Inr r, dst')
      | (None, dst', _) \<Rightarrow> (Inl (Bail ''failed to fill whole buffer'' []), dst'))"

lemma deliver_put:
  assumes "holds dst md" and "\<not> is_stale now dst" and "length bs + 19 < 2 ^ 32"
  shows "holds (snd (deliver now addr (SPut i bs n) dst)) (md(as_bytes i \<mapsto> (bs, n))) \<and>
    \<not> is_stale now (snd (deliver now addr (SPut i bs n) dst))"
  using assms put_full_implements [of "sn_log dst" md "as_bytes i" bs n]
  by (simp add: deliver_def handle_request_def holds_def written_def is_stale_def)

lemma deliver_delete:
  assumes "holds dst md" and "\<not> is_stale now dst"
  shows "holds (snd (deliver now addr (SDelete i) dst)) (md(as_bytes i := None)) \<and>
    \<not> is_stale now (snd (deliver now addr (SDelete i) dst))"
  using assms delete_implements [of "sn_log dst" md "as_bytes i"]
  by (simp add: deliver_def handle_request_def holds_def written_def is_stale_def)

lemma resend_one_holds:
  assumes "holds node m" and "sized m" and "holds dst md" and "\<not> is_stale now dst"
  shows "holds (resend_one (deliver now) node addr i dst) (md(as_bytes i := m (as_bytes i))) \<and>
    \<not> is_stale now (resend_one (deliver now) node addr i dst)"
proof (cases "m (as_bytes i)")
  case None
  with deliver_delete [OF assms(3,4)] show ?thesis
    by (simp add: resend_one_def read_value_holds [OF assms(1)])
next
  case (Some v)
  obtain bs n where v: "v = (bs, n)" by (cases v)
  with deliver_put [OF assms(3,4) sizedD [OF assms(2)]] Some show ?thesis
    by (simp add: resend_one_def read_value_holds [OF assms(1)])
qed

lemma resend_all_holds:
  assumes "holds node m" and "sized m"
  shows "holds dst md \<Longrightarrow> \<not> is_stale now dst \<Longrightarrow>
    holds (fold (resend_one (deliver now) node addr) is dst)
      (\<lambda>k. if k \<in> as_bytes ` set is then m k else md k)"
proof (induction "is" arbitrary: dst md)
  case (Cons i "is")
  have "(\<lambda>k. if k \<in> as_bytes ` set is then m k else (md(as_bytes i := m (as_bytes i))) k) =
    (\<lambda>k. if k \<in> as_bytes ` set (i # is) then m k else md k)"
    by auto
  with Cons.IH [OF conjunct1 conjunct2, OF resend_one_holds resend_one_holds,
      OF assms Cons.prems assms Cons.prems, of addr i]
  show ?case by simp
qed simp

text \<open>The state while the copy runs: the two nodes and the ids the copy loop has yet to read.\<close>

record migration =
  mig_src :: store_node
  mig_dst :: store_node
  todo :: "datum_id list"

datatype mig_step = Client store_request | Copy

fun mig_exec where
  "mig_exec now tid addr y (Client req) =
     (let (_, src, dst) = serve (deliver now) (mig_src y) req (mig_dst y)
      in y\<lparr>mig_src := src, mig_dst := dst\<rparr>)"
| "mig_exec now tid addr y Copy =
     (case todo y of
        [] \<Rightarrow> y
      | i # rest \<Rightarrow>
          let (src, dst) = copy_one (deliver now) tid addr i (mig_src y, mig_dst y)
          in \<lparr>mig_src = src, mig_dst = dst, todo = rest\<rparr>)"

text \<open>What has been settled for an id of the transfer: it is dirty, or already equal, or still to copy.\<close>

definition mig_inv :: "datum_map \<Rightarrow> nat \<Rightarrow> datum_id \<Rightarrow> rstring \<Rightarrow> datum_id list \<Rightarrow> datum_map \<Rightarrow> migration \<Rightarrow> bool" where
  "mig_inv md0 now tid addr ids m y \<longleftrightarrow>
     holds (mig_src y) m \<and> sized m \<and> \<not> is_stale now (mig_dst y) \<and> set (todo y) \<subseteq> set ids \<and>
     (\<exists>md t. holds (mig_dst y) md \<and> map_of (sn_transfers (mig_src y)) tid = Some t \<and>
        set (tr_ids t) = set ids \<and> tr_dest t = addr \<and> set (tr_dirty t) \<subseteq> set ids \<and>
        (\<forall>k. k \<notin> as_bytes ` set ids \<longrightarrow> md k = md0 k) \<and>
        (\<forall>i \<in> set ids. i \<in> set (tr_dirty t) \<or> md (as_bytes i) = m (as_bytes i) \<or>
           (i \<in> set (todo y) \<and> m (as_bytes i) \<noteq> None)))"

lemma mig_invI:
  assumes "holds (mig_src y) m" and "sized m" and "\<not> is_stale now (mig_dst y)" and "holds (mig_dst y) md"
    and "map_of (sn_transfers (mig_src y)) tid = Some t" and "set (tr_ids t) = set ids" and "tr_dest t = addr"
    and "set (todo y) \<subseteq> set ids" and "set (tr_dirty t) \<subseteq> set ids"
    and "\<And>k. k \<notin> as_bytes ` set ids \<Longrightarrow> md k = md0 k"
    and "\<And>i. i \<in> set ids \<Longrightarrow> i \<in> set (tr_dirty t) \<or> md (as_bytes i) = m (as_bytes i) \<or>
      (i \<in> set (todo y) \<and> m (as_bytes i) \<noteq> None)"
  shows "mig_inv md0 now tid addr ids m y"
  unfolding mig_inv_def using assms by blast

lemma mig_client:
  assumes inv: "mig_inv md0 now tid addr ids m y" and "write_cmd req = Some c" and "wf_cmd c" and "map_exec m c = Some m'"
  shows "mig_inv md0 now tid addr ids m' (mig_exec now tid addr y (Client req))"
proof -
  have src: "holds (mig_src y) m" and sized: "sized m'"
    using inv map_exec_sized [OF _ assms(3,4)] by (auto simp: mig_inv_def)
  obtain md t where md: "holds (mig_dst y) md" and t: "map_of (sn_transfers (mig_src y)) tid = Some t"
    and ids: "set (tr_ids t) = set ids" "tr_dest t = addr" "set (tr_dirty t) \<subseteq> set ids" "set (todo y) \<subseteq> set ids"
    and out: "\<And>k. k \<notin> as_bytes ` set ids \<Longrightarrow> md k = md0 k"
    and each: "\<And>i. i \<in> set ids \<Longrightarrow> i \<in> set (tr_dirty t) \<or> md (as_bytes i) = m (as_bytes i) \<or>
      (i \<in> set (todo y) \<and> m (as_bytes i) \<noteq> None)"
    using inv by (auto simp: mig_inv_def)
  obtain r src' where s: "serve (deliver now) (mig_src y) req (mig_dst y) = (Some r, src', mig_dst y)"
    and h: "holds src' m'"
    and tr: "sn_transfers src' = note_write (sn_transfers (mig_src y)) (write_id req) \<or>
      (sn_transfers src' = sn_transfers (mig_src y) \<and> m' = m)"
    and other: "\<And>k. k \<noteq> as_bytes (write_id req) \<Longrightarrow> m' k = m k"
    by (rule serve_write [OF src assms(2-4), of "deliver now" "mig_dst y"]) blast
  define t' where "t' = (if sn_transfers src' = sn_transfers (mig_src y) \<and> m' = m then t else mark_dirty (write_id req) t)"
  have t': "map_of (sn_transfers src') tid = Some t'" "set (tr_ids t') = set ids" "tr_dest t' = addr"
    "set (tr_dirty t') \<subseteq> set ids"
    using tr t ids by (auto simp: t'_def map_of_note_write)
  have "i \<in> set (tr_dirty t') \<or> md (as_bytes i) = m' (as_bytes i) \<or> (i \<in> set (todo y) \<and> m' (as_bytes i) \<noteq> None)"
    if "i \<in> set ids" for i
    using each [OF that] other [of "as_bytes i"] that ids(1)
    by (cases "i = write_id req") (auto simp: t'_def as_bytes_inj)
  moreover have "\<not> is_stale now (mig_dst y)" using inv by (simp add: mig_inv_def)
  ultimately show ?thesis
    by (intro mig_invI [where md = md and t = t']) (use h sized md t' s ids out in simp_all)
qed

lemma mig_copy:
  assumes inv: "mig_inv md0 now tid addr ids m y"
  shows "mig_inv md0 now tid addr ids m (mig_exec now tid addr y Copy)"
proof (cases "todo y")
  case Nil
  with inv show ?thesis by simp
next
  case (Cons i rest)
  have src: "holds (mig_src y) m" and sized: "sized m" and st: "\<not> is_stale now (mig_dst y)"
    using inv by (simp_all add: mig_inv_def)
  obtain md t where md: "holds (mig_dst y) md" and t: "map_of (sn_transfers (mig_src y)) tid = Some t"
    and ids: "set (tr_ids t) = set ids" "tr_dest t = addr" "set (tr_dirty t) \<subseteq> set ids" "set (todo y) \<subseteq> set ids"
    and out: "\<And>k. k \<notin> as_bytes ` set ids \<Longrightarrow> md k = md0 k"
    and each: "\<And>j. j \<in> set ids \<Longrightarrow> j \<in> set (tr_dirty t) \<or> md (as_bytes j) = m (as_bytes j) \<or>
      (j \<in> set (i # rest) \<and> m (as_bytes j) \<noteq> None)"
    using inv Cons by (auto simp: mig_inv_def)
  let ?src = "(mig_src y)\<lparr>sn_transfers := bump_copied (sn_transfers (mig_src y)) tid 1\<rparr>"
  have h: "holds ?src m" and t': "map_of (sn_transfers ?src) tid = Some (t\<lparr>tr_copied := tr_copied t + 1\<rparr>)"
    using src t by (simp_all add: holds_def map_of_bump_copied)
  define dst where "dst = snd (copy_one (deliver now) tid addr i (mig_src y, mig_dst y))"
  have y': "mig_exec now tid addr y Copy = \<lparr>mig_src = ?src, mig_dst = dst, todo = rest\<rparr>"
    using Cons by (simp add: dst_def copy_one_def Let_def)
  define md' where "md' = (if m (as_bytes i) = None then md else md(as_bytes i := m (as_bytes i)))"
  have "holds dst md' \<and> \<not> is_stale now dst"
    using md st deliver_put [OF md st sizedD [OF sized]]
    by (auto simp: dst_def copy_one_def read_value_holds [OF src] md'_def split: option.splits)
  moreover have "j \<in> set (tr_dirty t) \<or> md' (as_bytes j) = m (as_bytes j) \<or> (j \<in> set rest \<and> m (as_bytes j) \<noteq> None)"
    if "j \<in> set ids" for j
    using each [OF that] by (auto simp: md'_def)
  moreover have "md' k = md0 k" if "k \<notin> as_bytes ` set ids" for k
    using out [OF that] that ids(4) Cons by (auto simp: md'_def)
  ultimately show ?thesis
    unfolding y' by (intro mig_invI [where md = md' and t = "t\<lparr>tr_copied := tr_copied t + 1\<rparr>"])
      (use h ids sized t' Cons in simp_all)
qed

definition client_cmds :: "mig_step list \<Rightarrow> log_cmd list" where
  "client_cmds steps = List.map_filter (\<lambda>s. case s of Client req \<Rightarrow> write_cmd req | Copy \<Rightarrow> None) steps"

definition only_writes :: "mig_step list \<Rightarrow> bool" where
  "only_writes steps \<longleftrightarrow> list_all (\<lambda>s. case s of Client req \<Rightarrow> write_cmd req \<noteq> None | Copy \<Rightarrow> True) steps"

lemma mig_run:
  "mig_inv md0 now tid addr ids m y \<Longrightarrow> only_writes steps \<Longrightarrow> list_all wf_cmd (client_cmds steps) \<Longrightarrow>
     map_run m (client_cmds steps) = Some m' \<Longrightarrow>
     mig_inv md0 now tid addr ids m' (foldl (mig_exec now tid addr) y steps)"
proof (induction steps arbitrary: m y)
  case (Cons s steps)
  show ?case
  proof (cases s)
    case (Client req)
    then obtain c where c: "write_cmd req = Some c" using Cons.prems by (auto simp: only_writes_def)
    then have "client_cmds (s # steps) = c # client_cmds steps"
      by (simp add: client_cmds_def Client List.map_filter_simps)
    with Cons.prems obtain m1 where "map_exec m c = Some m1" "map_run m1 (client_cmds steps) = Some m'" "wf_cmd c"
      by (auto split: option.splits)
    with Cons.IH [OF mig_client [OF Cons.prems(1) c]] Cons.prems Client show ?thesis
      by (simp add: only_writes_def client_cmds_def c List.map_filter_simps)
  next
    case Copy
    with Cons.IH [OF mig_copy [OF Cons.prems(1)]] Cons.prems show ?thesis
      by (simp add: only_writes_def client_cmds_def List.map_filter_simps)
  qed
qed (simp add: client_cmds_def List.map_filter_simps)

lemma mig_finish:
  assumes inv: "mig_inv md0 now tid addr ids m y" and "todo y = []"
  shows "\<exists>src dst md. finish_transfer (deliver now) (mig_src y) tid (mig_dst y) = (SAck, src, dst) \<and>
    holds src m \<and> holds dst md \<and> (\<forall>i \<in> set ids. md (as_bytes i) = m (as_bytes i)) \<and>
    (\<forall>k. k \<notin> as_bytes ` set ids \<longrightarrow> md k = md0 k)"
proof -
  obtain md t where md: "holds (mig_dst y) md" and t: "map_of (sn_transfers (mig_src y)) tid = Some t"
    and each: "\<And>i. i \<in> set ids \<Longrightarrow> i \<in> set (tr_dirty t) \<or> md (as_bytes i) = m (as_bytes i)"
    and dest: "tr_dest t = addr" and out: "\<And>k. k \<notin> as_bytes ` set ids \<Longrightarrow> md k = md0 k"
    and dirty: "set (tr_dirty t) \<subseteq> set ids"
    using assms by (auto simp: mig_inv_def)
  let ?src = "(mig_src y)\<lparr>sn_transfers := snd (take_dirty (sn_transfers (mig_src y)) tid)\<rparr>"
  let ?dst = "fold (resend_one (deliver now) ?src addr) (tr_dirty t) (mig_dst y)"
  have h: "holds ?src m" and "sized m" and "\<not> is_stale now (mig_dst y)"
    using inv by (simp_all add: mig_inv_def holds_def)
  from resend_all_holds [OF this(1,2) md this(3)]
  have "holds ?dst (\<lambda>k. if k \<in> as_bytes ` set (tr_dirty t) then m k else md k)" .
  moreover have "finish_transfer (deliver now) (mig_src y) tid (mig_dst y) = (SAck, ?src, ?dst)"
    by (simp add: finish_transfer_def transfer_dest_def t dest take_dirty_def Let_def)
  moreover have "(if k \<in> as_bytes ` set (tr_dirty t) then m k else md k) = md0 k" if "k \<notin> as_bytes ` set ids" for k
    using out [OF that] that dirty by auto
  moreover have "(if as_bytes i \<in> as_bytes ` set (tr_dirty t) then m (as_bytes i) else md (as_bytes i)) = m (as_bytes i)"
    if "i \<in> set ids" for i
    using each [OF that] by auto
  ultimately show ?thesis using h by blast
qed

section \<open>Properties\<close>



text \<open>
  C34: A transfer acknowledges what it never delivered. When no call to the destination succeeds,
  the copy still reports every id as copied and done and the tail is still acknowledged, while
  the destination's state is what it was.
\<close>

theorem undelivered_transfer_is_acknowledged:
  assumes "\<And>a q w. call a q w = (Inl (Bail ''connection refused'' []), w)"
    and "run_transfer_copy call tid
      (node\<lparr>sn_transfers := transfer_start (sn_transfers node) tid ids addr\<rparr>, w) = (node1, w1)"
  shows "w1 = w \<and> transfer_status (sn_transfers node1) tid = Some (of_nat (length (remdups ids)), 0, True) \<and>
    (\<exists>node2. finish_transfer call node1 tid w1 = (SAck, node2, w))"
proof -
  have copy: "snd (fold (copy_one call tid addr) is (n, w)) = w \<and>
      map_of (sn_transfers (fst (fold (copy_one call tid addr) is (n, w)))) tid =
        map_option (\<lambda>t. t\<lparr>tr_copied := tr_copied t + of_nat (length is)\<rparr>) (map_of (sn_transfers n) tid)" for "is" n
    by (induction "is" arbitrary: n)
      (auto simp: copy_one_def assms(1) map_of_bump_copied option.map_comp o_def algebra_simps option.map_ident
        split: option.splits)
  let ?t = "\<lparr>tr_ids = remdups ids, tr_dest = addr, tr_copied = of_nat (length (remdups ids)), tr_dirty = [], tr_done = True\<rparr>"
  have "w1 = w" and t: "map_of (sn_transfers node1) tid = Some ?t"
    using assms(2) copy [of "remdups ids" "node\<lparr>sn_transfers := transfer_start (sn_transfers node) tid ids addr\<rparr>"]
    by (auto simp: run_transfer_copy_def transfer_dest_def transfer_ids_def map_of_transfer_start map_of_mark_done
        case_prod_beta Let_def)
  then show ?thesis
    by (simp add: transfer_status_def finish_transfer_def transfer_dest_def take_dirty_def Let_def)
qed

theorem undelivered_transfer_is_acknowledged_witness:
  "\<exists>node1. run_transfer_copy (\<lambda>a q w. (Inl (Bail ''connection refused'' []), w)) (DatumId 9)
      (\<lparr>sn_log = \<lparr>log_file = [], index = [], end_offset = 0, log_id = []\<rparr>, sn_node_id = NodeId 1, heartbeat = 0, self_halt_threshold = 5,
        sn_transfers = transfer_start [] (DatumId 9) [DatumId 1, DatumId 2] [], sn_collections = no_collections []\<rparr>, ()) = (node1, ()) \<and>
     transfer_status (sn_transfers node1) (DatumId 9) = Some (2, 0, True)"
proof -
  let ?call = "\<lambda>a q w. (Inl (Bail ''connection refused'' []), w)"
  let ?n = "\<lparr>sn_log = \<lparr>log_file = [], index = [], end_offset = 0, log_id = []\<rparr>, sn_node_id = NodeId 1, heartbeat = 0, self_halt_threshold = 5, sn_transfers = [], sn_collections = no_collections []\<rparr>"
  obtain node1 where "run_transfer_copy ?call (DatumId 9)
      (?n\<lparr>sn_transfers := transfer_start (sn_transfers ?n) (DatumId 9) [DatumId 1, DatumId 2] []\<rparr>, ()) = (node1, ())"
    by (cases "run_transfer_copy ?call (DatumId 9)
      (?n\<lparr>sn_transfers := transfer_start (sn_transfers ?n) (DatumId 9) [DatumId 1, DatumId 2] []\<rparr>, ())") simp
  from undelivered_transfer_is_acknowledged [OF refl this] this show ?thesis by auto
qed

end
