(* ===== verification/Halt.thy ===== *)
theory Halt
  imports Prelude
begin

text \<open>
  The cluster serving gate, \<open>seisin-node/src/halt.rs\<close>: the permanent halt, the resumable pause
  and the answer the request path asks for. The operations are sequential functions on the four
  fields; the last section splits \<open>halt\<close> and \<open>clear_halt\<close> at their lock and their atomic stores
  and interleaves them.
\<close>

record halt_state =
  halted :: bool
  reason :: "rstring option"
  paused :: bool
  pause_reason :: "rstring option"

definition halt_new :: halt_state where
  "halt_new = \<lparr>halted = False, reason = None, paused = False, pause_reason = None\<rparr>"

definition halt :: "halt_state \<Rightarrow> rstring \<Rightarrow> halt_state" where
  "halt s r = s\<lparr>reason := (case reason s of None \<Rightarrow> Some r | Some r0 \<Rightarrow> Some r0), halted := True\<rparr>"

definition is_halted :: "halt_state \<Rightarrow> bool" where
  "is_halted s = halted s"

definition clear_halt :: "halt_state \<Rightarrow> halt_state" where
  "clear_halt s = s\<lparr>halted := False, reason := None\<rparr>"

definition pause :: "halt_state \<Rightarrow> rstring \<Rightarrow> halt_state" where
  "pause s r = s\<lparr>pause_reason := Some r, paused := True\<rparr>"

definition resume :: "halt_state \<Rightarrow> halt_state" where
  "resume s = s\<lparr>paused := False, pause_reason := None\<rparr>"

definition is_paused :: "halt_state \<Rightarrow> bool" where
  "is_paused s = paused s"

definition gate :: "halt_state \<Rightarrow> rstring option" where
  "gate s =
     (if is_halted s then Some (case reason s of Some r \<Rightarrow> r | None \<Rightarrow> lit ''cluster halted'')
      else if is_paused s
      then Some (lit ''cluster paused: '' @ (case pause_reason s of Some r \<Rightarrow> r | None \<Rightarrow> []))
      else None)"

lemmas halt_ops = halt_def clear_halt_def pause_def resume_def is_halted_def is_paused_def

section \<open>Sequences of operations\<close>

datatype halt_event = EHalt rstring | EClear | EPause rstring | EResume

fun halt_exec :: "halt_state \<Rightarrow> halt_event \<Rightarrow> halt_state" where
  "halt_exec s (EHalt r) = halt s r"
| "halt_exec s EClear = clear_halt s"
| "halt_exec s (EPause r) = pause s r"
| "halt_exec s EResume = resume s"

text \<open>The first halt since the last clear, and the pause still standing.\<close>

fun standing_halt :: "rstring option \<Rightarrow> halt_event list \<Rightarrow> rstring option" where
  "standing_halt h [] = h"
| "standing_halt h (EHalt r # es) = standing_halt (case h of None \<Rightarrow> Some r | Some r0 \<Rightarrow> Some r0) es"
| "standing_halt h (EClear # es) = standing_halt None es"
| "standing_halt h (e # es) = standing_halt h es"

fun standing_pause :: "rstring option \<Rightarrow> halt_event list \<Rightarrow> rstring option" where
  "standing_pause p [] = p"
| "standing_pause p (EPause r # es) = standing_pause (Some r) es"
| "standing_pause p (EResume # es) = standing_pause None es"
| "standing_pause p (e # es) = standing_pause p es"

definition gate_spec :: "rstring option \<Rightarrow> rstring option \<Rightarrow> rstring option" where
  "gate_spec h p = (case h of Some r \<Rightarrow> Some r | None \<Rightarrow> map_option (\<lambda>r. lit ''cluster paused: '' @ r) p)"

definition halt_wf :: "halt_state \<Rightarrow> bool" where
  "halt_wf s \<longleftrightarrow> (halted s \<longleftrightarrow> reason s \<noteq> None) \<and> (paused s \<longleftrightarrow> pause_reason s \<noteq> None)"

lemma gate_wf: "halt_wf s \<Longrightarrow> gate s = gate_spec (reason s) (pause_reason s)"
  by (auto simp: halt_wf_def gate_def gate_spec_def halt_ops split: option.splits)

lemma halt_exec_wf: "halt_wf s \<Longrightarrow> halt_wf (halt_exec s e)"
  by (cases e) (auto simp: halt_wf_def halt_ops split: option.splits)

lemma halt_run_standing:
  "halt_wf s \<Longrightarrow> halt_wf (foldl halt_exec s es) \<and>
     reason (foldl halt_exec s es) = standing_halt (reason s) es \<and>
     pause_reason (foldl halt_exec s es) = standing_pause (pause_reason s) es"
proof (induction es arbitrary: s)
  case (Cons e es)
  from Cons.IH [OF halt_exec_wf [OF Cons.prems, of e]] show ?case
    by (cases e) (simp_all add: halt_ops)
qed simp

section \<open>A clear racing a halt\<close>

text \<open>
  \<open>halt\<close> sets the reason under its lock and stores the flag before it lets the lock go;
  \<open>clear_halt\<close> stores the flag without the lock and takes the lock to drop the reason.
\<close>

record halt_race =
  hr :: halt_state
  locked :: bool
  clearing :: nat

inductive halt_micro :: "halt_race \<Rightarrow> halt_race \<Rightarrow> bool" where
  halt_begin: "\<not> locked y \<Longrightarrow>
    halt_micro y (y\<lparr>locked := True, hr := (hr y)\<lparr>reason := (case reason (hr y) of None \<Rightarrow> Some r | Some r0 \<Rightarrow> Some r0)\<rparr>\<rparr>)"
| halt_end: "locked y \<Longrightarrow> halt_micro y (y\<lparr>locked := False, hr := (hr y)\<lparr>halted := True\<rparr>\<rparr>)"
| clear_begin: "halt_micro y (y\<lparr>clearing := Suc (clearing y), hr := (hr y)\<lparr>halted := False\<rparr>\<rparr>)"
| clear_end: "\<not> locked y \<Longrightarrow> clearing y = Suc c \<Longrightarrow>
    halt_micro y (y\<lparr>clearing := c, hr := (hr y)\<lparr>reason := None\<rparr>\<rparr>)"

inductive halt_reachable :: "halt_race \<Rightarrow> bool" where
  hr_init: "halt_reachable \<lparr>hr = halt_new, locked = False, clearing = 0\<rparr>"
| hr_step: "halt_reachable y \<Longrightarrow> halt_micro y y' \<Longrightarrow> halt_reachable y'"

inductive_cases halt_microE: "halt_micro y y'"

lemma halt_race_inv:
  "halt_reachable y \<Longrightarrow> \<not> locked y \<Longrightarrow> clearing y = 0 \<Longrightarrow> reason (hr y) \<noteq> None \<Longrightarrow> halted (hr y)"
proof (induction rule: halt_reachable.induct)
  case hr_init
  then show ?case by (simp add: halt_new_def)
next
  case (hr_step y y')
  then show ?case by (auto elim!: halt_microE)
qed

section \<open>Properties\<close>

text \<open>
  The gate answers for the whole history of calls. After any sequence of halts, clears, pauses
  and resumes it refuses with the reason of the first halt since the last clear; with no standing
  halt it refuses with the last pause not yet resumed; otherwise it serves. In particular neither a
  resume nor a later halt changes a standing halt.
\<close>

theorem gate_answers_for_the_history:
  "gate (foldl halt_exec halt_new es) = gate_spec (standing_halt None es) (standing_pause None es)"
proof -
  have "halt_wf halt_new" by (simp add: halt_wf_def halt_new_def)
  from halt_run_standing [OF this, of es] gate_wf show ?thesis by (simp add: halt_new_def)
qed

text \<open>
  A halt is never lost to a concurrent clear. In every interleaving of the locked and atomic
  steps of \<open>halt\<close> and \<open>clear_halt\<close>, once no call is in flight either the halt stands or a new
  loss is reported with its own reason.
\<close>

theorem a_new_loss_rearms_the_halt:
  assumes "halt_reachable y" and "\<not> locked y" and "clearing y = 0"
  shows "gate (hr y) \<noteq> None \<and> halted (hr y) \<or> gate (halt (hr y) r) = Some r"
proof (cases "halted (hr y)")
  case False
  then have "reason (hr y) = None" using halt_race_inv [OF assms] by blast
  then show ?thesis by (simp add: gate_def halt_ops)
qed (simp add: gate_def is_halted_def)

theorem a_new_loss_rearms_the_halt_witness:
  "gate (halt halt_new (lit ''lost'')) = Some (lit ''lost'')"
  using a_new_loss_rearms_the_halt [OF hr_init, of "lit ''lost''"] by (simp add: halt_new_def)

end
