(* ===== verification/Cluster_State.thy ===== *)
theory Cluster_State
  imports Ring Membership Sequencer Halt
begin

text \<open>
  A compute node's view of the cluster, \<open>seisin-node/src/gossip_state.rs\<close> and
  \<open>replica_resolver.rs\<close>: the gossiped facts and mutations, and the rings, address and identity
  books, serving sets and halt that ready mutations change. Each lock holds one field; a function
  here runs with the locks the code takes. The calls into the worker pool are returned as a list,
  in order.
\<close>

definition RECENT_MUTATIONS_CAP :: nat where "RECENT_MUTATIONS_CAP = 16"

record gossip_state =
  gs_members :: member_table
  gs_log :: mutation_log
  recent_mutations :: "(u64 \<times> ring_mutation) list"

definition gossip_new :: gossip_state where
  "gossip_new = \<lparr>gs_members = table_new, gs_log = log_new, recent_mutations = []\<rparr>"

function pop_to_cap :: "'a list \<Rightarrow> 'a list" where
  "pop_to_cap recent = (if length recent > RECENT_MUTATIONS_CAP then pop_to_cap (tl recent) else recent)"
  by pat_completeness auto
termination by (relation "measure length") auto

declare pop_to_cap.simps [simp del]

definition record_mutation :: "gossip_state \<Rightarrow> u64 \<Rightarrow> ring_mutation \<Rightarrow> gossip_state" where
  "record_mutation g epoch m =
     g\<lparr>gs_log := log_record (gs_log g) epoch m,
       recent_mutations := pop_to_cap (recent_mutations g @ [(epoch, m)])\<rparr>"

definition piggyback :: "gossip_state \<Rightarrow> member_update list \<times> (u64 \<times> ring_mutation) list" where
  "piggyback g = (all_members (gs_members g), recent_mutations g)"

definition merge_incoming :: "gossip_state \<Rightarrow> member_update list \<Rightarrow> (u64 \<times> ring_mutation) list \<Rightarrow> gossip_state" where
  "merge_incoming g updates mutations =
     fold (\<lambda>(epoch, m) g. record_mutation g epoch m) mutations
       (g\<lparr>gs_members := fold (\<lambda>u t. snd (merge_update t u)) updates (gs_members g)\<rparr>)"

record cluster_state =
  compute_ring :: ring
  storage_ring :: ring
  store_addresses :: "node_id \<rightharpoonup> rstring"
  identity_book :: "node_id \<rightharpoonup> datum_id"
  storage_alive :: "node_id set"
  storage_stale :: "node_id set"
  cluster_halt :: halt_state

definition compute_only :: "ring \<Rightarrow> cluster_state" where
  "compute_only r =
     \<lparr>compute_ring = r, storage_ring = from_members [], store_addresses = Map.empty,
      identity_book = Map.empty, storage_alive = {}, storage_stale = {}, cluster_halt = halt_new\<rparr>"

definition no_log_id :: bytes where
  "no_log_id = replicate 16 0"

definition reconcile_one :: "member_update \<Rightarrow> (node_id \<rightharpoonup> datum_id) \<Rightarrow> (node_id \<rightharpoonup> datum_id)" where
  "reconcile_one u book =
     (if mu_role u = Storage \<and> mu_log_id u \<noteq> no_log_id
      then (case book (mu_node_id u) of
              None \<Rightarrow> book(mu_node_id u \<mapsto> from_bytes (mu_log_id u))
            | Some _ \<Rightarrow> book)
      else book)"

definition reconcile_identity_book :: "gossip_state \<Rightarrow> cluster_state \<Rightarrow> cluster_state" where
  "reconcile_identity_book g c =
     c\<lparr>identity_book := fold reconcile_one (all_members (gs_members g)) (identity_book c)\<rparr>"

datatype pool_call = EvictNonNative | ReleaseLocksHeldBy node_id

definition role_of :: "member_table \<Rightarrow> node_id \<Rightarrow> member_role" where
  "role_of t n = (case table_get t n of Some u \<Rightarrow> mu_role u | None \<Rightarrow> Compute)"

fun apply_mutation :: "member_table \<Rightarrow> ring_mutation \<Rightarrow> cluster_state \<times> bool \<Rightarrow> cluster_state \<times> bool" where
  "apply_mutation t (Join n threads) (c, changed) =
     (case role_of t n of
        Compute \<Rightarrow> (c\<lparr>compute_ring := apply_join (compute_ring c) n threads\<rparr>, True)
      | Storage \<Rightarrow>
          let c = c\<lparr>storage_alive := insert n (storage_alive c)\<rparr> in
          (case table_get t n of
             None \<Rightarrow> (c, changed)
           | Some u \<Rightarrow>
               let c = (if mu_store_address u \<noteq> [] then c\<lparr>store_addresses := (store_addresses c)(n \<mapsto> mu_store_address u)\<rparr> else c);
                   c = (if mu_log_id u \<noteq> no_log_id then c\<lparr>identity_book := (identity_book c)(n \<mapsto> from_bytes (mu_log_id u))\<rparr> else c)
               in (c, changed)))"
| "apply_mutation t (Leave n) (c, changed) =
     (case role_of t n of
        Compute \<Rightarrow> (c\<lparr>compute_ring := apply_leave (compute_ring c) n\<rparr>, True)
      | Storage \<Rightarrow>
          (c\<lparr>storage_alive := storage_alive c - {n}, storage_stale := insert n (storage_stale c)\<rparr>, changed))"

definition released :: "ring_mutation list \<Rightarrow> pool_call list" where
  "released ready = concat (map (\<lambda>m. case m of Leave n \<Rightarrow> [ReleaseLocksHeldBy n] | Join _ _ \<Rightarrow> []) ready)"

definition apply_ready_mutations :: "gossip_state \<Rightarrow> cluster_state \<Rightarrow> gossip_state \<times> cluster_state \<times> pool_call list" where
  "apply_ready_mutations g c =
     (let (ready, l) = drain_applicable (gs_log g);
          g' = g\<lparr>gs_log := l\<rparr>
      in if ready = [] then (g', c, [])
         else
           let (c', changed) = fold (apply_mutation (gs_members g)) ready (c, False)
           in (g', c', if changed then EvictNonNative # released ready else []))"

section \<open>Replica resolution\<close>

definition serving_replicas :: "cluster_state \<Rightarrow> datum_id \<Rightarrow> u16 \<Rightarrow> node_id list option" where
  "serving_replicas c i n =
     map_option (filter (\<lambda>node. node \<in> storage_alive c \<and> node \<notin> storage_stale c))
       (replicas (storage_ring c) i (unat n))"

definition mark_stale :: "cluster_state \<Rightarrow> node_id \<Rightarrow> cluster_state" where
  "mark_stale c node = c\<lparr>storage_stale := insert node (storage_stale c)\<rparr>"

section \<open>The recent mutations\<close>

lemma pop_to_cap_drop: "pop_to_cap xs = drop (length xs - RECENT_MUTATIONS_CAP) xs"
proof (induction xs rule: pop_to_cap.induct)
  case (1 xs)
  show ?case
  proof (cases "length xs > RECENT_MUTATIONS_CAP")
    case True
    then have "length xs - RECENT_MUTATIONS_CAP = Suc (length (tl xs) - RECENT_MUTATIONS_CAP)" by simp
    with True 1 show ?thesis by (simp add: pop_to_cap.simps [of xs] drop_Suc)
  next
    case False
    then show ?thesis by (simp add: pop_to_cap.simps [of xs])
  qed
qed

lemma pop_drop_snoc:
  "pop_to_cap (drop (length xs - RECENT_MUTATIONS_CAP) xs @ [x]) =
     drop (length (xs @ [x]) - RECENT_MUTATIONS_CAP) (xs @ [x])"
proof (cases "length xs \<ge> RECENT_MUTATIONS_CAP")
  case True
  define ys where "ys = take (length xs - RECENT_MUTATIONS_CAP) xs"
  define zs where "zs = drop (length xs - RECENT_MUTATIONS_CAP) xs"
  have xs: "xs = ys @ zs" and len: "length zs = RECENT_MUTATIONS_CAP" "length xs - RECENT_MUTATIONS_CAP = length ys"
    using True by (simp_all add: ys_def zs_def)
  then have "length (xs @ [x]) - RECENT_MUTATIONS_CAP = Suc (length ys)" by simp
  then show ?thesis unfolding len(2) using len(1) by (simp add: pop_to_cap_drop xs)
qed (simp add: pop_to_cap_drop)

lemma record_all_recent:
  "length (recent_mutations g) \<le> RECENT_MUTATIONS_CAP \<Longrightarrow>
     recent_mutations (fold (\<lambda>(e, m) g. record_mutation g e m) ms g) =
       drop (length (recent_mutations g @ ms) - RECENT_MUTATIONS_CAP) (recent_mutations g @ ms)"
proof (induction ms rule: rev_induct)
  case (snoc p ms)
  let ?xs = "recent_mutations g @ ms"
  have "recent_mutations (fold (\<lambda>(e, m) g. record_mutation g e m) (ms @ [p]) g) =
      pop_to_cap (drop (length ?xs - RECENT_MUTATIONS_CAP) ?xs @ [p])"
    using snoc by (cases p) (simp add: record_mutation_def)
  also have "\<dots> = drop (length (?xs @ [p]) - RECENT_MUTATIONS_CAP) (?xs @ [p])"
    by (rule pop_drop_snoc)
  finally show ?case by simp
qed simp

section \<open>Runs of gossip\<close>

datatype gossip_event =
    GMerge "member_update list" "(u64 \<times> ring_mutation) list"
  | GApply
  | GReconcile

fun gossip_step :: "gossip_event \<Rightarrow> gossip_state \<times> cluster_state \<Rightarrow> gossip_state \<times> cluster_state" where
  "gossip_step (GMerge us ms) (g, c) = (merge_incoming g us ms, c)"
| "gossip_step GApply (g, c) = (let (g', c', _) = apply_ready_mutations g c in (g', c'))"
| "gossip_step GReconcile (g, c) = (g, reconcile_identity_book g c)"

definition gossip_run :: "gossip_event list \<Rightarrow> gossip_state \<times> cluster_state \<Rightarrow> gossip_state \<times> cluster_state" where
  "gossip_run es = fold gossip_step es"

definition kept :: "cluster_state \<Rightarrow> cluster_state \<Rightarrow> bool" where
  "kept c c' \<longleftrightarrow> storage_ring c' = storage_ring c \<and> cluster_halt c' = cluster_halt c \<and> storage_stale c \<subseteq> storage_stale c'"

lemma kept_refl [simp]: "kept c c"
  by (simp add: kept_def)

lemma kept_trans: "kept c c' \<Longrightarrow> kept c' c'' \<Longrightarrow> kept c c''"
  by (auto simp: kept_def)

lemma apply_mutation_kept: "kept c (fst (apply_mutation t m (c, b)))"
  by (cases m) (auto simp: kept_def Let_def split: member_role.splits option.splits)

lemma apply_mutations_kept: "kept c (fst (fold (apply_mutation t) ms (c, b)))"
proof (induction ms arbitrary: c b)
  case (Cons m ms)
  obtain c1 b1 where 1: "apply_mutation t m (c, b) = (c1, b1)" by fastforce
  with apply_mutation_kept [of c t m b] Cons [of c1 b1] show ?case by (simp add: kept_trans)
qed simp

lemma apply_ready_kept: "apply_ready_mutations g c = (g', c', calls) \<Longrightarrow> kept c c'"
  using apply_mutations_kept [of c "gs_members g" "fst (drain_applicable (gs_log g))" False]
  by (auto simp: apply_ready_mutations_def Let_def split: prod.splits if_splits)

lemma gossip_step_kept: "kept (snd y) (snd (gossip_step e y))"
proof (cases y; cases e)
  fix g c assume y: "y = (g, c)" and "e = GApply"
  then show ?thesis using apply_ready_kept by (fastforce split: prod.splits)
qed (auto simp: reconcile_identity_book_def kept_def)

lemma gossip_run_kept: "kept (snd y) (snd (gossip_run es y))"
proof (induction es arbitrary: y)
  case (Cons e es)
  from kept_trans [OF gossip_step_kept Cons] show ?case by (simp add: gossip_run_def)
qed (simp add: gossip_run_def)

section \<open>The compute ring of a run\<close>

fun ring_step :: "(node_id \<Rightarrow> member_role) \<Rightarrow> ring_mutation \<Rightarrow> ring \<Rightarrow> ring" where
  "ring_step roles (Join n threads) r = (case roles n of Compute \<Rightarrow> apply_join r n threads | Storage \<Rightarrow> r)"
| "ring_step roles (Leave n) r = (case roles n of Compute \<Rightarrow> apply_leave r n | Storage \<Rightarrow> r)"

lemma apply_mutation_ring:
  "compute_ring (fst (apply_mutation t m (c, b))) = ring_step (role_of t) m (compute_ring c)"
  by (cases m) (simp_all add: Let_def split: member_role.splits option.splits)

lemma apply_mutations_ring:
  "compute_ring (fst (fold (apply_mutation t) ms (c, b))) = fold (ring_step (role_of t)) ms (compute_ring c)"
proof (induction ms arbitrary: c b)
  case (Cons m ms)
  obtain c1 b1 where 1: "apply_mutation t m (c, b) = (c1, b1)" by fastforce
  with apply_mutation_ring [of t m c b] Cons [of c1 b1] show ?case by simp
qed simp

fun epoch_event :: "(u64 \<Rightarrow> ring_mutation) \<Rightarrow> log_event \<Rightarrow> gossip_event" where
  "epoch_event m (Rec e) = GMerge [] [(e, m e)]"
| "epoch_event m Drain = GApply"

lemma apply_ready_ring:
  assumes "drain_applicable (gs_log g) = (ready, l)" and "apply_ready_mutations g c = (g', c', calls)"
  shows "g' = g\<lparr>gs_log := l\<rparr> \<and> compute_ring c' = fold (ring_step (role_of (gs_members g))) ready (compute_ring c)"
proof (cases "ready = []")
  case False
  then show ?thesis
    using assms apply_mutations_ring [of "gs_members g" ready c False]
    by (auto simp: apply_ready_mutations_def Let_def split: prod.splits)
qed (use assms in \<open>simp add: apply_ready_mutations_def\<close>)

lemma gossip_run_log:
  assumes "gossip_run (map (epoch_event m) es) (g, c) = (g1, c1)" and "log_run m es (gs_log g) out = (l, out1)"
  shows "\<exists>ready. out1 = out @ ready \<and> compute_ring c1 = fold (ring_step (role_of (gs_members g))) ready (compute_ring c)"
  using assms
proof (induction es arbitrary: g c out)
  case Nil
  then show ?case by (simp add: gossip_run_def)
next
  case (Cons e es)
  show ?case
  proof (cases e)
    case (Rec ep)
    let ?g = "merge_incoming g [] [(ep, m ep)]"
    have "gs_members ?g = gs_members g" "gs_log ?g = log_record (gs_log g) ep (m ep)"
      by (simp_all add: merge_incoming_def record_mutation_def)
    with Cons.IH [of ?g c out] Cons.prems Rec show ?thesis by (simp add: gossip_run_def)
  next
    case Drain
    obtain ready l1 where d: "drain_applicable (gs_log g) = (ready, l1)" by fastforce
    obtain g2 c2 calls where a: "apply_ready_mutations g c = (g2, c2, calls)" by (metis prod_cases3)
    from apply_ready_ring [OF d a] have 2: "g2 = g\<lparr>gs_log := l1\<rparr>"
      "compute_ring c2 = fold (ring_step (role_of (gs_members g))) ready (compute_ring c)" by simp_all
    have "gossip_run (map (epoch_event m) es) (g2, c2) = (g1, c1)" "log_run m es (gs_log g2) (out @ ready) = (l, out1)"
      using Cons.prems Drain a d 2 by (simp_all add: gossip_run_def)
    from Cons.IH [OF this] 2 show ?thesis by force
  qed
qed

lemma gossip_run_ring:
  assumes "gossip_run (map (epoch_event m) es) (g\<lparr>gs_log := log_new\<rparr>, c) = (g1, c1)"
  shows "compute_ring c1 = fold (ring_step (role_of (gs_members g))) (snd (log_run m es log_new [])) (compute_ring c)"
proof -
  obtain l out where r: "log_run m es log_new [] = (l, out)" by fastforce
  then have "log_run m es (gs_log (g\<lparr>gs_log := log_new\<rparr>)) [] = (l, out)" by simp
  from gossip_run_log [OF assms this] r show ?thesis by auto
qed

lemma reconcile_keeps: "book n = Some old \<Longrightarrow> fold reconcile_one us book n = Some old"
proof (induction us arbitrary: book)
  case (Cons u us)
  have "reconcile_one u book n = Some old" using Cons.prems by (auto simp: reconcile_one_def split: option.splits)
  from Cons.IH [where book = "reconcile_one u book", OF this] show ?case by simp
qed simp

section \<open>Properties\<close>

text \<open>
  Gossip neither places storage data nor re-admits a lost replica. Whatever messages a compute
  node merges and whatever mutations it applies, the storage ring and the halt stay as they were
  and no node leaves the stale set, so a replica marked stale serves no datum afterwards.
\<close>

theorem gossip_never_readmits:
  assumes "gossip_run es (g, c) = (g', c')"
  shows "storage_ring c' = storage_ring c \<and> cluster_halt c' = cluster_halt c \<and>
    storage_stale c \<subseteq> storage_stale c' \<and>
    (\<forall>i n ns. serving_replicas c' i n = Some ns \<longrightarrow> storage_stale c \<inter> set ns = {})"
proof -
  have "kept c c'" using gossip_run_kept [of "(g, c)" es] assms by simp
  then show ?thesis by (auto simp: kept_def serving_replicas_def)
qed

theorem gossip_never_readmits_witness:
  "\<exists>g' c'. gossip_run [GMerge [] [(1, Leave (NodeId 7))], GApply] (gossip_new, compute_only ring_empty) = (g', c') \<and>
     storage_ring c' = storage_ring (compute_only ring_empty)"
proof -
  obtain g' c' where r: "gossip_run [GMerge [] [(1, Leave (NodeId 7))], GApply] (gossip_new, compute_only ring_empty) = (g', c')"
    by (cases "gossip_run [GMerge [] [(1, Leave (NodeId 7))], GApply] (gossip_new, compute_only ring_empty)")
  from gossip_never_readmits [OF this] r show ?thesis by blast
qed

text \<open>
  C31: Compute rings agree. Two nodes that start from the same ring, know the same role of every
  member and have been delivered the same epochs, in any order, with any repetition and with
  applications at any moments in between, have the same compute ring once both have applied what
  is ready: every datum has the same owner on both.
\<close>

theorem compute_rings_agree:
  assumes "gossip_run (map (epoch_event m) (es @ [Drain])) (g\<lparr>gs_log := log_new\<rparr>, c) = (g1, c1)"
    and "gossip_run (map (epoch_event m) (fs @ [Drain])) (h\<lparr>gs_log := log_new\<rparr>, d) = (h1, d1)"
    and "seen_in es = seen_in fs" and "role_of (gs_members g) = role_of (gs_members h)"
    and "compute_ring c = compute_ring d"
  shows "compute_ring c1 = compute_ring d1 \<and> native (compute_ring c1) i = native (compute_ring d1) i"
proof -
  obtain l out where r: "log_run m (es @ [Drain]) log_new [] = (l, out)"
    by (cases "log_run m (es @ [Drain]) log_new []")
  obtain l' out' where r': "log_run m (fs @ [Drain]) log_new [] = (l', out')"
    by (cases "log_run m (fs @ [Drain]) log_new []")
  have "out = out'" using drained_agree [OF r r' assms(3)] by simp
  then show ?thesis
    using gossip_run_ring [OF assms(1)] gossip_run_ring [OF assms(2)] r r' assms(4,5) by simp
qed

theorem compute_rings_agree_witness:
  "compute_ring (snd (gossip_run (map (epoch_event (\<lambda>e. Join (NodeId e) 2)) ([Rec 2, Rec 1] @ [Drain]))
       (gossip_new\<lparr>gs_log := log_new\<rparr>, compute_only ring_empty))) =
   compute_ring (snd (gossip_run (map (epoch_event (\<lambda>e. Join (NodeId e) 2)) ([Rec 1, Drain, Rec 2, Rec 2] @ [Drain]))
       (gossip_new\<lparr>gs_log := log_new\<rparr>, compute_only ring_empty)))"
proof -
  let ?m = "\<lambda>e. Join (NodeId e) 2"
  let ?s = "(gossip_new\<lparr>gs_log := log_new\<rparr>, compute_only ring_empty)"
  obtain g1 c1 where 1: "gossip_run (map (epoch_event ?m) ([Rec 2, Rec 1] @ [Drain])) ?s = (g1, c1)"
    by (cases "gossip_run (map (epoch_event ?m) ([Rec 2, Rec 1] @ [Drain])) ?s")
  obtain h1 d1 where 2: "gossip_run (map (epoch_event ?m) ([Rec 1, Drain, Rec 2, Rec 2] @ [Drain])) ?s = (h1, d1)"
    by (cases "gossip_run (map (epoch_event ?m) ([Rec 1, Drain, Rec 2, Rec 2] @ [Drain])) ?s")
  have "seen_in [Rec 2, Rec 1] = seen_in [Rec 1, Drain, Rec 2, Rec 2]" by (simp add: insert_commute)
  from compute_rings_agree [OF 1 2 this refl refl] show ?thesis unfolding 1 2 by simp
qed

text \<open>
  The identity of a storage node is not first-writer-wins. A Join of a storage node whose
  member record carries another log id replaces the identity the book holds, which is the one the
  resume after a halt compares the node with.
\<close>

theorem join_overwrites_identity:
  assumes "lookup_member (gs_members g) n = Some r" and "mr_role r = Storage"
    and "mr_log_id r \<noteq> no_log_id" and "gs_log g = \<lparr>applied_epoch = 0, pending = [(1, Join n threads)]\<rparr>"
    and "identity_book c n = Some old"
  shows "\<exists>g' c'. apply_ready_mutations g c = (g', c', []) \<and> identity_book c' n = Some (from_bytes (mr_log_id r)) \<and>
    identity_book (reconcile_identity_book g c) n = Some old"
proof -
  have "drain_applicable (gs_log g) = ([Join n threads], \<lparr>applied_epoch = 1, pending = []\<rparr>)"
    by (simp add: assms(4) drain_applicable_def drain_loop.simps)
  moreover have "table_get (gs_members g) n = Some (to_update r n)" using assms(1) by (simp add: table_get_def)
  moreover have "role_of (gs_members g) n = Storage"
    using assms(1,2) by (simp add: role_of_def table_get_def to_update_def)
  moreover have "fold reconcile_one us (identity_book c) n = Some old" for us
    using assms(5) by (rule reconcile_keeps)
  ultimately show ?thesis
    using assms(3) by (simp add: apply_ready_mutations_def reconcile_identity_book_def to_update_def Let_def)
qed

theorem join_overwrites_identity_witness:
  "\<exists>g' c'. apply_ready_mutations
      \<lparr>gs_members = set_member table_new (NodeId 7) (record_of ((sample_fact Alive 1)\<lparr>mu_role := Storage, mu_log_id := replicate 16 5\<rparr>)),
       gs_log = \<lparr>applied_epoch = 0, pending = [(1, Join (NodeId 7) 1)]\<rparr>, recent_mutations = []\<rparr>
      ((compute_only ring_empty)\<lparr>identity_book := [NodeId 7 \<mapsto> DatumId 1]\<rparr>) = (g', c', []) \<and>
     identity_book c' (NodeId 7) = Some (from_bytes (replicate 16 5))"
proof -
  let ?r = "record_of ((sample_fact Alive 1)\<lparr>mu_role := Storage, mu_log_id := replicate 16 5\<rparr>)"
  let ?g = "\<lparr>gs_members = set_member table_new (NodeId 7) ?r,
       gs_log = \<lparr>applied_epoch = 0, pending = [(1, Join (NodeId 7) 1)]\<rparr>, recent_mutations = []\<rparr>"
  let ?c = "(compute_only ring_empty)\<lparr>identity_book := [NodeId 7 \<mapsto> DatumId 1]\<rparr>"
  have "lookup_member (gs_members ?g) (NodeId 7) = Some ?r" by simp
  moreover have "mr_role ?r = Storage" "mr_log_id ?r = replicate 16 5" by (simp_all add: record_of_def)
  moreover have "replicate 16 (5 :: u8) \<noteq> no_log_id" by (simp add: no_log_id_def)
  ultimately show ?thesis
    using join_overwrites_identity [of ?g "NodeId 7" ?r 1 ?c "DatumId 1"] by auto
qed

end
