(* ===== verification/Storage_Net.thy ===== *)
theory Storage_Net
  imports Store_Server Cluster_State
begin

text \<open>
  A compute node's calls to its storage nodes, the part that \<open>seisin-node/src/remote_store.rs\<close> and
  \<open>collection_store.rs\<close> share: one round trip with its retry (\<open>try_call\<close>) and the halt on the loss of
  every replica (\<open>replica_resolver.rs\<close>). One attempt on a thread's connection, \<open>write_frame\<close> then
  \<open>read_frame\<close>, is the argument \<open>attempt\<close> over a state of the network; here it is a network of
  storage nodes that loses requests and replies and delivers frames of every length. The lemmas say what a loop over the replicas does
  to nodes that agree on an object.
\<close>

type_synonym 'w attempt = "node_id \<Rightarrow> rstring \<Rightarrow> bytes \<Rightarrow> 'w \<Rightarrow> bytes result \<times> 'w"

definition halt_total_loss :: "cluster_state \<Rightarrow> datum_id \<Rightarrow> rstring \<times> cluster_state" where
  "halt_total_loss c i =
     (let r = lit ''cluster halted: every replica of '' @ debug_datum_id i @ lit '' is unreachable '' @
              [0xE2, 0x80, 0x94] @ lit '' total shard loss''
      in (r, c\<lparr>cluster_halt := halt (cluster_halt c) r\<rparr>))"

definition try_call :: "'w attempt \<Rightarrow> cluster_state \<Rightarrow> node_id \<Rightarrow> store_request \<Rightarrow> 'w \<Rightarrow> store_response result \<times> 'w" where
  "try_call attempt c node req w =
     (case store_addresses c node of
        None \<Rightarrow> (Inl (Bail ''no store address configured for storage node {node:?}'' []), w)
      | Some address \<Rightarrow>
          let encoded = encode_store_request req in
          (case attempt node address encoded w of
             (Inr payload, w1) \<Rightarrow> (decode_store_response payload, w1)
           | (Inl _, w1) \<Rightarrow>
               (case attempt node address encoded w1 of
                  (Inr payload, w2) \<Rightarrow> (decode_store_response payload, w2)
                | (Inl e, w2) \<Rightarrow> (Inl e, w2))))"

type_synonym 'a stored = "(rstring + 'a) \<times> cluster_state"

definition panicked :: "cluster_state \<Rightarrow> datum_id \<Rightarrow> 'a stored" where
  "panicked c i = (let (r, c') = halt_total_loss c i in (Inl r, c'))"

section \<open>A network of storage nodes that loses messages\<close>

text \<open>A request can be lost before the node sees it, and a reply after the node has acted on it.\<close>

datatype fault = Delivered | LostRequest | LostReply

record storage_net =
  net_nodes :: "rstring \<rightharpoonup> store_node"
  net_faults :: "fault list"

definition serve_frame where
  "serve_frame now node payload =
     (case handle_payload (\<lambda>_ _ u. (Inl (Bail ''unreachable'' []), u)) now node payload () of
        (r, node', _) \<Rightarrow> (r, node'))"

definition faulty :: "nat \<Rightarrow> storage_net attempt" where
  "faulty now nid addr payload w =
     (let f = (case net_faults w of [] \<Rightarrow> Delivered | f # _ \<Rightarrow> f);
          w1 = w\<lparr>net_faults := tl (net_faults w)\<rparr>
      in case (f, net_nodes w addr) of
           (_, None) \<Rightarrow> (Inl (Bail ''connection refused'' []), w1)
         | (LostRequest, _) \<Rightarrow> (Inl (Bail ''connection reset'' []), w1)
         | (_, Some node) \<Rightarrow>
             let (r, node') = serve_frame now node payload;
                 w2 = w1\<lparr>net_nodes := (net_nodes w)(addr \<mapsto> node')\<rparr>
             in (case (f, r) of
                   (Delivered, Some b) \<Rightarrow> (Inr b, w2)
                 | _ \<Rightarrow> (Inl (Bail ''failed to fill whole buffer'' []), w2)))"

section \<open>Views of a node\<close>

text \<open>
  A view says of a storage node which value it holds of one object: a datum, or a collection. What a
  node does with a request about the object is stated for a set \<open>P\<close> of values before and a larger
  set \<open>Q\<close> after: a reply other than an error stands in relation \<open>R\<close> to the value the node then holds.
\<close>

type_synonym 'x view = "store_node \<Rightarrow> 'x \<Rightarrow> bool"

definition view_at :: "'x view \<Rightarrow> storage_net \<Rightarrow> rstring \<Rightarrow> 'x \<Rightarrow> bool" where
  "view_at V w addr x \<longleftrightarrow> (\<exists>node. net_nodes w addr = Some node \<and> V node x)"

definition obeys :: "'x view \<Rightarrow> nat \<Rightarrow> store_request \<Rightarrow> 'x set \<Rightarrow> 'x set \<Rightarrow> (store_response \<Rightarrow> 'x \<Rightarrow> bool) \<Rightarrow> bool" where
  "obeys V now req P Q R \<longleftrightarrow>
     (\<forall>node x. V node x \<longrightarrow> x \<in> P \<longrightarrow>
        (\<exists>r node' x'. handle_request (\<lambda>_ _ u. (Inl (Bail ''unreachable'' []), u)) now node req () = (r, node', ()) \<and>
           V node' x' \<and> x' \<in> Q \<and>
           (\<forall>resp. r = Some resp \<longrightarrow> (\<exists>msg. resp = SError msg) \<or> (wf_store_response resp \<and> R resp x'))))"

lemma obeysI:
  assumes "P \<subseteq> Q" and "\<And>node x. V node x \<Longrightarrow> x \<in> P \<Longrightarrow>
    \<exists>resp node' x'. serve (\<lambda>_ _ u. (Inl (Bail ''unreachable'' []), u)) node req () = (Some resp, node', ()) \<and>
      V node' x' \<and> x' \<in> Q \<and> ((\<exists>msg. resp = SError msg) \<or> wf_store_response resp \<and> R resp x')"
  shows "obeys V now req P Q R"
  unfolding obeys_def
proof (intro allI impI)
  fix node x assume nx: "V node x" "x \<in> P"
  let ?q = "handle_request (\<lambda>_ _ u. (Inl (Bail ''unreachable'' []), u)) now node req ()"
  show "\<exists>r node' x'. ?q = (r, node', ()) \<and> V node' x' \<and> x' \<in> Q \<and>
      (\<forall>resp. r = Some resp \<longrightarrow> (\<exists>msg. resp = SError msg) \<or> (wf_store_response resp \<and> R resp x'))"
  proof (cases "is_stale now node")
    case True
    then obtain msg where "?q = (Some (SError msg), node, ())" by (simp add: handle_request_def)
    with nx assms(1) show ?thesis by blast
  next
    case False
    from assms(2) [OF nx] obtain resp node' x' where "?q = (Some resp, node', ())"
      "V node' x'" "x' \<in> Q" "(\<exists>msg. resp = SError msg) \<or> wf_store_response resp \<and> R resp x'"
      using False by (auto simp: handle_request_def)
    then show ?thesis by blast
  qed
qed

lemma obeys_Un: "obeys V now req P Q R \<Longrightarrow> obeys V now req P' Q' R \<Longrightarrow> obeys V now req (P \<union> P') (Q \<union> Q') R"
  unfolding obeys_def by (metis Un_iff)

section \<open>Calls\<close>

lemma decode_encode_request: "wf_store_request r \<Longrightarrow> decode_store_request (encode_store_request r) = Inr r"
  by (cases r) (simp_all add: decode_store_request_exact encode_store_request_def accepted_store_request_def)

lemma decode_encode_response: "wf_store_response r \<Longrightarrow> decode_store_response (encode_store_response r) = Inr r"
  by (cases r) (auto simp: decode_store_response_exact encode_store_response_def intro: exI [of _ "of_bool d" for d] exI [of _ "[]"])

lemma error_decodes_to_error:
  "decode_store_response (encode_store_response (SError msg)) = Inr r \<Longrightarrow> \<exists>m. r = SError m"
  by (cases r) (auto simp: decode_store_response_exact encode_store_response_def sresp_tags split: if_splits)

lemma attempt_obeys:
  assumes "obeys V now req P Q R" and "P \<subseteq> Q" and "wf_store_request req" and "view_at V w addr x" and "x \<in> P"
    and "faulty now nid addr (encode_store_request req) w = (res, w')"
  shows "(\<exists>x' \<in> Q. view_at V w' addr x' \<and> (\<forall>b resp. res = Inr b \<longrightarrow> decode_store_response b = Inr resp \<longrightarrow>
      (\<exists>msg. resp = SError msg) \<or> R resp x')) \<and> (\<forall>a. a \<noteq> addr \<longrightarrow> net_nodes w' a = net_nodes w a)"
proof -
  obtain node where node: "net_nodes w addr = Some node" "V node x" using assms(4) by (auto simp: view_at_def)
  then obtain r node' x' where r: "handle_request (\<lambda>_ _ u. (Inl (Bail ''unreachable'' []), u)) now node req () = (r, node', ())"
    and x': "V node' x'" "x' \<in> Q"
    and R: "\<And>resp. r = Some resp \<Longrightarrow> (\<exists>msg. resp = SError msg) \<or> (wf_store_response resp \<and> R resp x')"
    using assms(1,5) unfolding obeys_def by blast
  have sf: "serve_frame now node (encode_store_request req) = (map_option encode_store_response r, node')"
    by (simp add: serve_frame_def handle_payload_def decode_encode_request [OF assms(3)] r)
  have good: "(\<exists>msg. resp = SError msg) \<or> R resp x'"
    if "r = Some q" "decode_store_response (encode_store_response q) = Inr resp" for q resp
    using R [OF that(1)] that(2) by (auto simp: decode_encode_response dest: error_decodes_to_error)
  define f where "f = (case net_faults w of [] \<Rightarrow> Delivered | f # _ \<Rightarrow> f)"
  show ?thesis
  proof (cases "f = LostRequest")
    case True
    then have "res = Inl (Bail ''connection reset'' [])" "w' = w\<lparr>net_faults := tl (net_faults w)\<rparr>"
      using assms(6) node by (auto simp: faulty_def f_def Let_def split: list.splits)
    with node assms(2,5) show ?thesis by (auto simp: view_at_def)
  next
    case False
    then have w': "w' = w\<lparr>net_faults := tl (net_faults w), net_nodes := (net_nodes w)(addr \<mapsto> node')\<rparr>"
      and res: "\<And>b. res = Inr b \<Longrightarrow> \<exists>q. r = Some q \<and> b = encode_store_response q"
      using assms(6) node sf by (cases f; cases r; auto simp: faulty_def f_def [symmetric] Let_def)+
    have "view_at V w' addr x'" using x' by (auto simp: w' view_at_def)
    moreover have "\<forall>b resp. res = Inr b \<longrightarrow> decode_store_response b = Inr resp \<longrightarrow>
        (\<exists>msg. resp = SError msg) \<or> R resp x'"
      using res good by blast
    ultimately show ?thesis using x'(2) by (auto simp: w')
  qed
qed

text \<open>The request may arrive twice, the second time at a node that acted on it already.\<close>

lemma try_call_obeys:
  assumes "obeys V now req P Q R" and "P \<subseteq> Q" and "obeys V now req Q Q' R" and "Q \<subseteq> Q'"
    and "wf_store_request req" and "store_addresses c node = Some addr"
    and "view_at V w addr x" and "x \<in> P" and "try_call (faulty now) c node req w = (res, w')"
  shows "(\<exists>x' \<in> Q'. view_at V w' addr x' \<and> (\<forall>resp. res = Inr resp \<longrightarrow> (\<exists>msg. resp = SError msg) \<or> R resp x')) \<and>
    (\<forall>a. a \<noteq> addr \<longrightarrow> net_nodes w' a = net_nodes w a)"
proof -
  obtain res1 w1 where 1: "faulty now node addr (encode_store_request req) w = (res1, w1)" by fastforce
  note first = attempt_obeys [OF assms(1,2,5,7,8) 1]
  show ?thesis
  proof (cases res1)
    case (Inr b)
    with assms(6,9) 1 have "res = decode_store_response b" "w' = w1" by (simp_all add: try_call_def)
    with first Inr assms(4) show ?thesis by auto
  next
    case (Inl e)
    obtain x1 where x1: "x1 \<in> Q" "view_at V w1 addr x1" using first by blast
    obtain res2 w2 where 2: "faulty now node addr (encode_store_request req) w1 = (res2, w2)" by fastforce
    note second = attempt_obeys [OF assms(3,4,5) x1(2,1) 2]
    have "w' = w2" "res = (case res2 of Inr b \<Rightarrow> decode_store_response b | Inl e \<Rightarrow> Inl e)"
      using assms(6,9) 1 2 Inl by (auto simp: try_call_def split: sum.splits)
    with second first show ?thesis by (cases res2) auto
  qed
qed

lemmas try_call_same = try_call_obeys [OF _ subset_refl _ subset_refl]

lemma try_call_no_address: "store_addresses c node = None \<Longrightarrow> \<exists>e. try_call at c node req w = (Inl e, w)"
  by (simp add: try_call_def)

section \<open>Agreement of the serving replicas\<close>

text \<open>Both write loops have one shape: a step per replica, which acknowledges it or marks it stale.\<close>

fun replica_loop where
  "replica_loop step [] y = y"
| "replica_loop step (node # targets) (acked, c, w) =
     (case step c node w of
        (Inr _, w') \<Rightarrow> replica_loop step targets (acked + 1, c, w')
      | (Inl _, w') \<Rightarrow> replica_loop step targets (acked, mark_stale c node, w'))"

definition distinct_addresses :: "cluster_state \<Rightarrow> node_id list \<Rightarrow> bool" where
  "distinct_addresses c ts \<longleftrightarrow> distinct ts \<and>
     (\<forall>a \<in> set ts. \<forall>b \<in> set ts. \<forall>addr. store_addresses c a = Some addr \<longrightarrow> store_addresses c b = Some addr \<longrightarrow> a = b)"

definition all_at :: "'x view \<Rightarrow> cluster_state \<Rightarrow> storage_net \<Rightarrow> node_id set \<Rightarrow> 'x \<Rightarrow> bool" where
  "all_at V c w ns x \<longleftrightarrow> (\<forall>node \<in> ns. \<forall>addr. store_addresses c node = Some addr \<longrightarrow> view_at V w addr x)"

definition agree :: "'x view \<Rightarrow> cluster_state \<Rightarrow> storage_net \<Rightarrow> datum_id \<Rightarrow> u16 \<Rightarrow> 'x \<Rightarrow> bool" where
  "agree V c w i n x \<longleftrightarrow> (\<exists>ts. serving_replicas c i n = Some ts \<and> distinct_addresses c ts \<and> all_at V c w (set ts) x)"

text \<open>A step that reaches only the node it names and turns \<open>x\<close> into \<open>y\<close> when it is acknowledged.\<close>

definition writes where
  "writes V step x y \<longleftrightarrow> (\<forall>c node w res w'. step c node w = (res, w') \<longrightarrow>
     (case store_addresses c node of
        None \<Rightarrow> w' = w \<and> res \<noteq> Inr ()
      | Some addr \<Rightarrow> view_at V w addr x \<longrightarrow>
          (res = Inr () \<longrightarrow> view_at V w' addr y) \<and> (\<forall>a. a \<noteq> addr \<longrightarrow> net_nodes w' a = net_nodes w a)))"

lemma mark_stale_simps [simp]:
  "store_addresses (mark_stale c node) = store_addresses c" "storage_ring (mark_stale c node) = storage_ring c"
  "storage_alive (mark_stale c node) = storage_alive c" "cluster_halt (mark_stale c node) = cluster_halt c"
  "storage_stale (mark_stale c node) = insert node (storage_stale c)"
  "distinct_addresses (mark_stale c node) = distinct_addresses c" "all_at V (mark_stale c node) = all_at V c"
  by (simp_all add: mark_stale_def fun_eq_iff distinct_addresses_def all_at_def)

lemma distinct_addressesD:
  "distinct_addresses c (node # ts) \<Longrightarrow> store_addresses c node = Some addr \<Longrightarrow> b \<in> set ts \<Longrightarrow> store_addresses c b \<noteq> Some addr"
  by (force simp: distinct_addresses_def)

lemma writes_others:
  assumes "writes V step x y" "distinct_addresses c (node # ts)" "all_at V c w (set (node # ts)) x" "step c node w = (res, w1)"
  shows "all_at V c w1 (set ts) x"
  unfolding all_at_def
proof (intro ballI allI impI)
  fix b a assume b: "b \<in> set ts" "store_addresses c b = Some a"
  note effect = assms(1) [unfolded writes_def, rule_format, OF assms(4)]
  have "store_addresses c node \<noteq> Some a" using distinct_addressesD [OF assms(2), of a b] b by auto
  then have "net_nodes w1 a = net_nodes w a" using effect assms(3) by (auto simp: all_at_def split: option.splits)
  moreover have "view_at V w a x" using assms(3) b by (simp add: all_at_def)
  ultimately show "view_at V w1 a x" by (simp only: view_at_def)
qed

text \<open>When no replica acknowledges, every one of them is marked stale.\<close>

lemma replica_loop_refused:
  assumes w: "writes V step x y"
    and never: "\<And>c node w res w' addr. store_addresses c node = Some addr \<Longrightarrow> view_at V w addr x \<Longrightarrow> step c node w = (res, w') \<Longrightarrow> res \<noteq> Inr ()"
  shows "distinct_addresses c ts \<Longrightarrow> all_at V c w (set ts) x \<Longrightarrow>
    \<exists>w'. replica_loop step ts (acked, c, w) = (acked, c\<lparr>storage_stale := storage_stale c \<union> set ts\<rparr>, w')"
proof (induction ts arbitrary: c w)
  case (Cons node ts)
  obtain res w1 where step: "step c node w = (res, w1)" by fastforce
  have "res \<noteq> Inr ()"
    using w [unfolded writes_def, rule_format, OF step] never [OF _ _ step] Cons.prems(2) by (auto simp: all_at_def split: option.splits)
  then obtain e where e: "res = Inl e" by (cases res) auto
  have "distinct_addresses (mark_stale c node) ts" "all_at V (mark_stale c node) w1 (set ts) x"
    using Cons.prems(1) writes_others [OF w Cons.prems(1,2) step] by (simp_all add: distinct_addresses_def)
  from Cons.IH [OF this] show ?case using step by (auto simp: e mark_stale_def)
qed simp

lemma replica_loop_writes:
  assumes "writes V step x y"
  shows "distinct_addresses c ts \<Longrightarrow> all_at V c w (set ts) x \<Longrightarrow> replica_loop step ts (acked, c, w) = (acked', c', w') \<Longrightarrow>
    \<exists>F. c' = c\<lparr>storage_stale := storage_stale c \<union> F\<rparr> \<and> all_at V c w' (set ts - F) y \<and>
      (\<forall>a. (\<forall>node \<in> set ts. store_addresses c node \<noteq> Some a) \<longrightarrow> net_nodes w' a = net_nodes w a)"
proof (induction ts arbitrary: c w acked)
  case Nil
  then have "c' = c\<lparr>storage_stale := storage_stale c \<union> {}\<rparr>" by simp
  moreover have "w' = w" using Nil by simp
  ultimately show ?case by (intro exI [of _ "{}"]) (simp add: all_at_def)
next
  case (Cons node ts)
  obtain res w1 where step: "step c node w = (res, w1)" by fastforce
  note effect = assms [unfolded writes_def, rule_format, OF step]
  have far: "net_nodes w1 a = net_nodes w a" if "store_addresses c node \<noteq> Some a" for a
    using effect that Cons.prems(2) by (auto simp: all_at_def split: option.splits)
  have da: "distinct_addresses c ts" using Cons.prems(1) by (simp add: distinct_addresses_def)
  have pre: "all_at V c w1 (set ts) x" by (rule writes_others [OF assms Cons.prems(1,2) step])
  define c1 where "c1 = (if res = Inr () then c else mark_stale c node)"
  have run: "replica_loop step ts (if res = Inr () then acked + 1 else acked, c1, w1) = (acked', c', w')"
    using Cons.prems(3) step by (cases res) (simp_all add: c1_def)
  have c1: "store_addresses c1 = store_addresses c" "distinct_addresses c1 ts" "all_at V c1 w1 (set ts) x"
    using da pre by (simp_all add: c1_def)
  obtain F where F: "c' = c1\<lparr>storage_stale := storage_stale c1 \<union> F\<rparr>" "all_at V c1 w' (set ts - F) y"
    and keep: "\<And>a. (\<forall>b \<in> set ts. store_addresses c b \<noteq> Some a) \<Longrightarrow> net_nodes w' a = net_nodes w1 a"
    using Cons.IH [OF c1(2,3) run] c1(1) by auto
  show ?case
  proof (intro exI [of _ "if res = Inr () then F else insert node F"] conjI)
    show "c' = c\<lparr>storage_stale := storage_stale c \<union> (if res = Inr () then F else insert node F)\<rparr>"
      using F(1) by (simp add: c1_def mark_stale_def)
    have "view_at V w' addr y" if "res = Inr ()" "store_addresses c node = Some addr" for addr
    proof -
      have "view_at V w1 addr y" using effect that Cons.prems(2) by (simp add: all_at_def)
      moreover have "net_nodes w' addr = net_nodes w1 addr"
        using distinct_addressesD [OF Cons.prems(1) that(2)] by (intro keep) auto
      ultimately show ?thesis by (simp only: view_at_def)
    qed
    then show "all_at V c w' (set (node # ts) - (if res = Inr () then F else insert node F)) y"
      using F(2) c1(1) by (auto simp: all_at_def)
    show "\<forall>a. (\<forall>b \<in> set (node # ts). store_addresses c b \<noteq> Some a) \<longrightarrow> net_nodes w' a = net_nodes w a"
      using keep far by simp
  qed
qed

lemma serving_after_marks:
  assumes "serving_replicas c i n = Some ts"
  shows "serving_replicas (c\<lparr>storage_stale := storage_stale c \<union> F\<rparr>) i n = Some (filter (\<lambda>node. node \<notin> F) ts)"
  using assms by (auto simp: serving_replicas_def filter_filter intro!: filter_cong)

lemma agree_after_loop:
  assumes "writes V step x y" and "agree V c w i n x" and "serving_replicas c i n = Some ts"
    and "replica_loop step ts (0, c, w) = (acked, c', w')"
  shows "agree V c' w' i n y"
proof -
  have da: "distinct_addresses c ts" "all_at V c w (set ts) x" using assms(2,3) by (auto simp: agree_def)
  from replica_loop_writes [OF assms(1) this assms(4)]
  obtain F where c': "c' = c\<lparr>storage_stale := storage_stale c \<union> F\<rparr>" and "all_at V c w' (set ts - F) y" by blast
  then show ?thesis
    using serving_after_marks [OF assms(3)] da(1)
    by (auto simp: agree_def all_at_def distinct_addresses_def)
qed

lemma writesI:
  assumes "\<And>c node w res w'. store_addresses c node = None \<Longrightarrow> step c node w = (res, w') \<Longrightarrow> w' = w \<and> res \<noteq> Inr ()"
    and "\<And>c node w res w' addr. store_addresses c node = Some addr \<Longrightarrow> step c node w = (res, w') \<Longrightarrow> view_at V w addr x \<Longrightarrow>
      (res = Inr () \<longrightarrow> view_at V w' addr y) \<and> (\<forall>a. a \<noteq> addr \<longrightarrow> net_nodes w' a = net_nodes w a)"
  shows "writes V step x y"
  unfolding writes_def using assms by (auto split: option.splits)

text \<open>A request that changes nothing leaves the agreement of the nodes as it is.\<close>

lemma read_call_keeps:
  assumes "obeys V now req {x} {x} R" and "wf_store_request req" and "all_at V c w ns x" and "node \<in> ns"
    and "try_call (faulty now) c node req w = (res, w')"
  shows "all_at V c w' ns x" and "\<And>resp. res = Inr resp \<Longrightarrow> (\<exists>msg. resp = SError msg) \<or> R resp x"
proof -
  have "all_at V c w' ns x \<and> (\<forall>resp. res = Inr resp \<longrightarrow> (\<exists>msg. resp = SError msg) \<or> R resp x)"
  proof (cases "store_addresses c node")
    case None
    then show ?thesis using assms(3,5) by (auto simp: try_call_def)
  next
    case (Some addr)
    with assms(3,4) have "view_at V w addr x" by (simp add: all_at_def)
    note keep = try_call_same [OF assms(1,1,2) Some this singletonI assms(5)]
    have "all_at V c w' ns x"
      unfolding all_at_def
    proof (intro ballI allI impI)
      fix b a assume b: "b \<in> ns" "store_addresses c b = Some a"
      then have "view_at V w a x" using assms(3) by (simp add: all_at_def)
      with keep show "view_at V w' a x" by (cases "a = addr") (simp_all add: view_at_def)
    qed
    with keep show ?thesis by auto
  qed
  then show "all_at V c w' ns x" and "\<And>resp. res = Inr resp \<Longrightarrow> (\<exists>msg. resp = SError msg) \<or> R resp x" by blast+
qed

lemma agree_marked:
  assumes "serving_replicas c i n = Some ts" "distinct_addresses c ts" "all_at V c w' (set ts) x"
    "c' = c\<lparr>storage_stale := storage_stale c \<union> F\<rparr>"
  shows "agree V c' w' i n x"
  using assms serving_after_marks [OF assms(1), of F] by (auto simp: agree_def all_at_def distinct_addresses_def)

lemma panickedD: "panicked c i = (r, c') \<Longrightarrow> gate (cluster_halt c') \<noteq> None"
  by (auto simp: panicked_def halt_total_loss_def Let_def gate_def halt_ops)

lemma agree_serving: "agree V c w i n x \<Longrightarrow> \<exists>ts. serving_replicas c i n = Some ts"
  by (auto simp: agree_def)

section \<open>Calls that arrive\<close>

lemma try_call_delivered:
  assumes "net_faults w = []" and "store_addresses c node = Some addr" and "net_nodes w addr = Some nd"
    and "\<not> is_stale now nd" and "wf_store_request req"
    and "serve (\<lambda>_ _ u. (Inl (Bail ''unreachable'' []), u)) nd req () = (Some resp, nd', ())" and "wf_store_response resp"
  shows "try_call (faulty now) c node req w = (Inr resp, w\<lparr>net_nodes := (net_nodes w)(addr \<mapsto> nd')\<rparr>)"
  using assms
  by (simp add: try_call_def faulty_def serve_frame_def handle_payload_def handle_request_def
      decode_encode_request decode_encode_response Let_def)

lemma try_call_lost:
  assumes "net_faults w = LostRequest # LostRequest # fs" and "store_addresses c node = Some addr"
  shows "\<exists>e. try_call (faulty now) c node req w = (Inl e, w\<lparr>net_faults := fs\<rparr>)"
  using assms by (simp add: try_call_def faulty_def Let_def split: option.splits)

section \<open>A cluster of one storage node\<close>

definition one_replica :: cluster_state where
  "one_replica = (compute_only ring_empty)\<lparr>storage_ring := from_members [(NodeId 1, 1)],
     storage_alive := {NodeId 1}, store_addresses := [NodeId 1 \<mapsto> [9]]\<rparr>"

lemma one_replica_serves_any:
  assumes "n \<noteq> 0"
  shows "serving_replicas one_replica i n = Some [NodeId 1]"
proof -
  have "unat n \<noteq> 0" using assms by (simp add: unat_eq_0)
  then obtain cs where cs: "replicas (from_members [(NodeId 1, 1)]) i (unat n) = Some cs" "set cs \<subseteq> {NodeId 1}" "length cs = min (unat n) 1"
    using replicas_ok [of "from_members [(NodeId 1, 1)]" "unat n" i]
    by (auto simp: node_ids_def weights_from_members slots_from_members)
  then have "cs = [NodeId 1]" using \<open>unat n \<noteq> 0\<close> by (cases cs) auto
  with cs(1) show ?thesis by (simp add: serving_replicas_def one_replica_def compute_only_def)
qed

lemma one_replica_serves: "serving_replicas one_replica i 1 = Some [NodeId 1]"
  by (rule one_replica_serves_any) simp

lemma one_replica_agrees_any:
  assumes "n \<noteq> 0" "view_at V w [9] x"
  shows "agree V one_replica w i n x"
proof -
  have "store_addresses one_replica = [NodeId 1 \<mapsto> [9]]" by (simp add: one_replica_def)
  with assms show ?thesis by (simp add: agree_def one_replica_serves_any distinct_addresses_def all_at_def)
qed

lemma one_replica_agrees: "view_at V w [9] x \<Longrightarrow> agree V one_replica w i 1 x"
  by (rule one_replica_agrees_any) simp

lemma self_halted_call:
  assumes "net_faults w = []" and "store_addresses c node = Some addr" and "net_nodes w addr = Some nd"
    and "is_stale now nd" and "wf_store_request req"
  shows "\<exists>msg. try_call (faulty now) c node req w = (Inr (SError msg), w)"
proof -
  let ?m = "lit ''storage node '' @ debug_node_id (sn_node_id nd) @
    lit '' self-halted: no gossip contact within '' @ dec (self_halt_threshold nd div 1000000) @ lit ''ms''"
  have "ascii ?m" using ascii_dec by (simp add: lit_def debug_node_id_def)
  then have wf: "wf_store_response (SError ?m)" using ascii_utf8 by simp
  have "(net_nodes w)(addr \<mapsto> nd) = net_nodes w" using assms(3) by auto
  then have "try_call (faulty now) c node req w = (Inr (SError ?m), w)"
    using assms decode_encode_response [OF wf]
    by (simp add: try_call_def faulty_def serve_frame_def handle_payload_def handle_request_def decode_encode_request Let_def)
  then show ?thesis by blast
qed

end
