(* ===== verification/Remote_Store.thy ===== *)
theory Remote_Store
  imports Storage_Net
begin

text \<open>
  The replicated store of a compute node, \<open>seisin-node/src/remote_store.rs\<close>: writes go to every serving
  replica, reads to the first that answers, a replica that fails is marked stale, and the loss of
  every replica engages the halt. A panic is \<open>Inl\<close> with its message; \<open>None\<close> is a replica search that
  does not return, which never happens on a ring of less than \<open>2\<^sup>32\<close> slots.
\<close>

definition write_full :: "'w attempt \<Rightarrow> cluster_state \<Rightarrow> node_id \<Rightarrow> datum_id \<Rightarrow> bytes \<Rightarrow> u16 \<Rightarrow> 'w \<Rightarrow> unit result \<times> 'w" where
  "write_full attempt c node i content n w =
     (case try_call attempt c node (SPut i content n) w of
        (Inr SAck, w') \<Rightarrow> (Inr (), w')
      | (Inr _, w') \<Rightarrow> (Inl (Bail ''unexpected reply to Put: {other:?}'' []), w')
      | (Inl e, w') \<Rightarrow> (Inl e, w'))"

definition write_one ::
    "'w attempt \<Rightarrow> cluster_state \<Rightarrow> node_id \<Rightarrow> datum_id \<Rightarrow> bytes \<Rightarrow> delta option \<Rightarrow> u16 \<Rightarrow> 'w \<Rightarrow> unit result \<times> 'w" where
  "write_one attempt c node i content d n w =
     (case d of
        Some d \<Rightarrow>
          (case try_call attempt c node (SPatch i d n) w of
             (Inr SAck, w') \<Rightarrow> (Inr (), w')
           | (Inr SNeedFull, w') \<Rightarrow> write_full attempt c node i content n w'
           | (Inr _, w') \<Rightarrow> (Inl (Bail ''unexpected reply to Patch: {other:?}'' []), w')
           | (Inl e, w') \<Rightarrow> (Inl e, w'))
      | None \<Rightarrow> write_full attempt c node i content n w)"

fun write_loop ::
    "'w attempt \<Rightarrow> datum_id \<Rightarrow> bytes \<Rightarrow> delta option \<Rightarrow> u16 \<Rightarrow> node_id list \<Rightarrow> nat \<times> cluster_state \<times> 'w \<Rightarrow> nat \<times> cluster_state \<times> 'w" where
  "write_loop attempt i content d n [] y = y"
| "write_loop attempt i content d n (node # targets) (acked, c, w) =
     (case write_one attempt c node i content d n w of
        (Inr _, w') \<Rightarrow> write_loop attempt i content d n targets (acked + 1, c, w')
      | (Inl _, w') \<Rightarrow> write_loop attempt i content d n targets (acked, mark_stale c node, w'))"

definition write_delta :: "bytes option \<Rightarrow> bytes \<Rightarrow> delta option" where
  "write_delta previous content =
     Option.bind previous (\<lambda>prev. let d = diff prev content in if encoded_len d < length content div 2 then Some d else None)"

definition write_all ::
    "'w attempt \<Rightarrow> cluster_state \<Rightarrow> datum_id \<Rightarrow> bytes \<Rightarrow> bytes option \<Rightarrow> u16 \<Rightarrow> 'w \<Rightarrow> (unit stored \<times> 'w) option" where
  "write_all attempt c i content previous n w =
     (case serving_replicas c i n of
        None \<Rightarrow> None
      | Some targets \<Rightarrow>
          if targets = [] then Some (panicked c i, w)
          else
            let (acked, c', w') = write_loop attempt i content (write_delta previous content) n targets (0, c, w)
            in if acked = 0 then Some (panicked c' i, w') else Some ((Inr (), c'), w'))"

fun get_loop :: "'w attempt \<Rightarrow> datum_id \<Rightarrow> node_id list \<Rightarrow> bool \<Rightarrow> cluster_state \<Rightarrow> 'w \<Rightarrow> bytes option stored \<times> 'w" where
  "get_loop attempt i [] reached c w = (if reached then (Inr None, c) else panicked c i, w)"
| "get_loop attempt i (node # targets) reached c w =
     (case try_call attempt c node (SGet i) w of
        (Inr (SValue (Some v)), w') \<Rightarrow> ((Inr (Some v), c), w')
      | (Inr (SValue None), w') \<Rightarrow> get_loop attempt i targets True c w'
      | (_, w') \<Rightarrow> get_loop attempt i targets reached (mark_stale c node) w')"

definition remote_get :: "'w attempt \<Rightarrow> cluster_state \<Rightarrow> datum_id \<Rightarrow> u16 \<Rightarrow> 'w \<Rightarrow> (bytes option stored \<times> 'w) option" where
  "remote_get attempt c i n w =
     (case serving_replicas c i n of
        None \<Rightarrow> None
      | Some targets \<Rightarrow>
          if targets = [] then Some (panicked c i, w) else Some (get_loop attempt i targets False c w))"

definition remote_put :: "'w attempt \<Rightarrow> cluster_state \<Rightarrow> datum_id \<Rightarrow> bytes \<Rightarrow> u16 \<Rightarrow> 'w \<Rightarrow> (unit stored \<times> 'w) option" where
  "remote_put attempt c i content n w = write_all attempt c i content None n w"

fun delete_loop :: "'w attempt \<Rightarrow> datum_id \<Rightarrow> node_id list \<Rightarrow> nat \<times> cluster_state \<times> 'w \<Rightarrow> nat \<times> cluster_state \<times> 'w" where
  "delete_loop attempt i [] y = y"
| "delete_loop attempt i (node # targets) (acked, c, w) =
     (case try_call attempt c node (SDelete i) w of
        (Inr SAck, w') \<Rightarrow> delete_loop attempt i targets (acked + 1, c, w')
      | (_, w') \<Rightarrow> delete_loop attempt i targets (acked, mark_stale c node, w'))"

definition remote_delete :: "'w attempt \<Rightarrow> cluster_state \<Rightarrow> datum_id \<Rightarrow> u16 \<Rightarrow> 'w \<Rightarrow> (unit stored \<times> 'w) option" where
  "remote_delete attempt c i n w =
     (case serving_replicas c i n of
        None \<Rightarrow> None
      | Some targets \<Rightarrow>
          if targets = [] then Some (panicked c i, w)
          else
            let (acked, c', w') = delete_loop attempt i targets (0, c, w)
            in if acked = 0 then Some (panicked c' i, w') else Some ((Inr (), c'), w'))"

definition remote_put_with_previous ::
    "'w attempt \<Rightarrow> cluster_state \<Rightarrow> datum_id \<Rightarrow> bytes \<Rightarrow> bytes option \<Rightarrow> u16 \<Rightarrow> 'w \<Rightarrow> (unit stored \<times> 'w) option" where
  "remote_put_with_previous attempt c i content previous n w = write_all attempt c i content previous n w"

section \<open>A datum on its replicas\<close>

definition datum_view :: "datum_id \<Rightarrow> (bytes \<times> u16) option view" where
  "datum_view i node x \<longleftrightarrow> (\<exists>m. holds node m \<and> m (as_bytes i) = x)"

lemma datum_viewI: "holds node m \<Longrightarrow> m (as_bytes i) = x \<Longrightarrow> datum_view i node x"
  by (auto simp: datum_view_def)

lemma obeys_put:
  assumes "length bs + 19 < 2 ^ 32"
  shows "obeys (datum_view i) now (SPut i bs n) UNIV UNIV (\<lambda>resp x. resp = SAck \<and> x = Some (bs, n))"
proof (rule obeysI)
  fix node x assume "datum_view i node x"
  then obtain m where "holds node m" by (auto simp: datum_view_def)
  then have "holds (written node i (put_full (sn_log node) (as_bytes i) bs n)) (m(as_bytes i \<mapsto> (bs, n)))"
    using put_full_implements [of "sn_log node" m "as_bytes i" bs n] assms by (simp add: holds_def written_def)
  from datum_viewI [OF this, of i]
  show "\<exists>resp node' x'. serve (\<lambda>_ _ u. (Inl (Bail ''unreachable'' []), u)) node (SPut i bs n) () = (Some resp, node', ()) \<and>
      datum_view i node' x' \<and> x' \<in> UNIV \<and> ((\<exists>msg. resp = SError msg) \<or> wf_store_response resp \<and> resp = SAck \<and> x' = Some (bs, n))"
    by simp
qed simp

lemma obeys_delete: "obeys (datum_view i) now (SDelete i) UNIV UNIV (\<lambda>resp x. resp = SAck \<and> x = None)"
proof (rule obeysI)
  fix node x assume "datum_view i node x"
  then obtain m where "holds node m" by (auto simp: datum_view_def)
  then have "holds (written node i (log_delete (sn_log node) (as_bytes i))) (m(as_bytes i := None))"
    using delete_implements [of "sn_log node" m "as_bytes i"] by (simp add: holds_def written_def)
  from datum_viewI [OF this, of i]
  show "\<exists>resp node' x'. serve (\<lambda>_ _ u. (Inl (Bail ''unreachable'' []), u)) node (SDelete i) () = (Some resp, node', ()) \<and>
      datum_view i node' x' \<and> x' \<in> UNIV \<and> ((\<exists>msg. resp = SError msg) \<or> wf_store_response resp \<and> resp = SAck \<and> x' = None)"
    by simp
qed simp

lemma obeys_get: "obeys (datum_view i) now (SGet i) {x} {x} (\<lambda>resp y. resp = SValue (map_option fst y))"
proof (rule obeysI)
  fix node y assume v: "datum_view i node y" and y: "y \<in> {x}"
  then have "log_get (sn_log node) (as_bytes i) = Inr (map_option fst x)"
    by (auto simp: datum_view_def holds_def implements_def)
  then show "\<exists>resp node' x'. serve (\<lambda>_ _ u. (Inl (Bail ''unreachable'' []), u)) node (SGet i) () = (Some resp, node', ()) \<and>
      datum_view i node' x' \<and> x' \<in> {x} \<and> ((\<exists>msg. resp = SError msg) \<or> wf_store_response resp \<and> resp = SValue (map_option fst x'))"
    using v y by simp
qed simp

lemma wf_delta_diff: "length new + 35 < 2 ^ 32 \<Longrightarrow> wf_delta (diff old new)"
  by (simp add: wf_delta_def diff_def Let_def slice_def)

lemma obeys_patch:
  assumes "length content + 35 < 2 ^ 32" and PQ: "PQ = {Some (prev, n0), Some (content, n)}"
  shows "obeys (datum_view i) now (SPatch i (diff prev content) n) PQ PQ (\<lambda>resp x. resp = SAck \<and> x = Some (content, n))"
proof (rule obeysI)
  fix node x assume "datum_view i node x" and x: "x \<in> PQ"
  then obtain m where h: "holds node m" and m: "m (as_bytes i) \<in> PQ" by (auto simp: datum_view_def)
  let ?d = "diff prev content"
  have a: "apply_delta prev ?d = Inr content" using assms by (intro apply_diff) simp
  obtain cur k where cur: "m (as_bytes i) = Some (cur, k)" and "apply_delta cur ?d = Inr content"
    using m a apply_delta_idem [OF a] by (auto simp: PQ)
  from put_delta_implements [where l = "sn_log node" and m = m and i = "as_bytes i" and n = n,
      OF _ _ wf_delta_diff [OF assms(1)] this] h
  obtain l where l: "put_delta (sn_log node) (as_bytes i) ?d n = Inr (Applied, l)" "implements l (m(as_bytes i \<mapsto> (content, n)))"
    by (auto simp: holds_def)
  then have "holds (written node i l) (m(as_bytes i \<mapsto> (content, n)))" by (simp add: holds_def written_def)
  from datum_viewI [OF this, of i] l(1)
  show "\<exists>resp node' x'. serve (\<lambda>_ _ u. (Inl (Bail ''unreachable'' []), u)) node (SPatch i ?d n) () = (Some resp, node', ()) \<and>
      datum_view i node' x' \<and> x' \<in> PQ \<and> ((\<exists>msg. resp = SError msg) \<or> wf_store_response resp \<and> resp = SAck \<and> x' = Some (content, n))"
    by (simp add: PQ)
qed simp

definition delete_one :: "'w attempt \<Rightarrow> datum_id \<Rightarrow> cluster_state \<Rightarrow> node_id \<Rightarrow> 'w \<Rightarrow> unit result \<times> 'w" where
  "delete_one attempt i c node w =
     (case try_call attempt c node (SDelete i) w of
        (Inr SAck, w') \<Rightarrow> (Inr (), w')
      | (_, w') \<Rightarrow> (Inl (Bail ''unexpected reply to Delete'' []), w'))"

lemma write_loop_replicas:
  "write_loop attempt i content d n ts (acked, c, w) =
     replica_loop (\<lambda>c node. write_one attempt c node i content d n) ts (acked, c, w)"
  by (induction ts arbitrary: acked c w) (simp_all split: sum.splits prod.splits)

lemma delete_loop_replicas: "delete_loop attempt i ts (acked, c, w) = replica_loop (delete_one attempt i) ts (acked, c, w)"
proof (induction ts arbitrary: acked c w)
  case (Cons node ts)
  obtain res w' where r: "try_call attempt c node (SDelete i) w = (res, w')" by fastforce
  show ?case using Cons r by (cases res; cases "projr res") (auto simp: delete_one_def)
qed simp

lemma writes_full:
  assumes "length content + 19 < 2 ^ 32"
  shows "writes (datum_view i) (\<lambda>c node. write_full (faulty now) c node i content n) x (Some (content, n))"
proof (rule writesI)
  fix c node w res w' addr
  assume a: "store_addresses c node = Some addr" "write_full (faulty now) c node i content n w = (res, w')" "view_at (datum_view i) w addr x"
  obtain r w1 where r: "try_call (faulty now) c node (SPut i content n) w = (r, w1)" by fastforce
  from try_call_same [OF obeys_put [OF assms] obeys_put [OF assms] _ a(1,3) _ r] obtain x' where
    "view_at (datum_view i) w1 addr x'" "\<forall>resp. r = Inr resp \<longrightarrow> (\<exists>msg. resp = SError msg) \<or> (resp = SAck \<and> x' = Some (content, n))"
    "\<forall>a. a \<noteq> addr \<longrightarrow> net_nodes w1 a = net_nodes w a"
    by auto
  with a(2) r show "(res = Inr () \<longrightarrow> view_at (datum_view i) w' addr (Some (content, n))) \<and> (\<forall>a. a \<noteq> addr \<longrightarrow> net_nodes w' a = net_nodes w a)"
    by (auto simp: write_full_def split: sum.splits store_response.splits)
qed (auto simp: write_full_def try_call_def)

lemma writes_delete: "writes (datum_view i) (delete_one (faulty now) i) x None"
proof (rule writesI)
  fix c node w res w' addr
  assume a: "store_addresses c node = Some addr" "delete_one (faulty now) i c node w = (res, w')" "view_at (datum_view i) w addr x"
  obtain r w1 where r: "try_call (faulty now) c node (SDelete i) w = (r, w1)" by fastforce
  from try_call_same [OF obeys_delete obeys_delete _ a(1,3) _ r] obtain x' where
    "view_at (datum_view i) w1 addr x'" "\<forall>resp. r = Inr resp \<longrightarrow> (\<exists>msg. resp = SError msg) \<or> (resp = SAck \<and> x' = None)"
    "\<forall>a. a \<noteq> addr \<longrightarrow> net_nodes w1 a = net_nodes w a"
    by auto
  with a(2) r show "(res = Inr () \<longrightarrow> view_at (datum_view i) w' addr None) \<and> (\<forall>a. a \<noteq> addr \<longrightarrow> net_nodes w' a = net_nodes w a)"
    by (auto simp: delete_one_def split: sum.splits store_response.splits)
qed (auto simp: delete_one_def try_call_def)

lemma writes_one:
  assumes "length content + 35 < 2 ^ 32" and "previous = None \<or> (\<exists>prev n0. previous = Some prev \<and> x = Some (prev, n0))"
  shows "writes (datum_view i) (\<lambda>c node. write_one (faulty now) c node i content (write_delta previous content) n) x (Some (content, n))"
proof (cases "write_delta previous content")
  case None
  have "(\<lambda>c node. write_one (faulty now) c node i content None n) =
      (\<lambda>c node. write_full (faulty now) c node i content n)"
    by (simp add: write_one_def fun_eq_iff)
  with None show ?thesis using writes_full [of content i now n x] assms(1) by simp
next
  case (Some d)
  then obtain prev n0 where x: "x = Some (prev, n0)" and d: "d = diff prev content"
    using assms(2) by (auto simp: write_delta_def Let_def split: if_splits)
  show ?thesis
  proof (rule writesI)
    fix c node w res w' addr
    assume a: "store_addresses c node = Some addr"
      "write_one (faulty now) c node i content (write_delta previous content) n w = (res, w')" "view_at (datum_view i) w addr x"
    obtain r w1 where r: "try_call (faulty now) c node (SPatch i d n) w = (r, w1)" by fastforce
    have wf: "wf_store_request (SPatch i d n)"
      using wf_delta_diff [OF assms(1), of prev] by (simp add: d wf_delta_def short_def)
    have xin: "x \<in> {Some (prev, n0), Some (content, n)}" by (simp add: x)
    note patch = obeys_patch [OF assms(1) refl, of i now prev n n0]
    from try_call_same [OF patch patch wf [unfolded d] a(1,3) xin r [unfolded d]] obtain x' where
      "view_at (datum_view i) w1 addr x'" "\<forall>resp. r = Inr resp \<longrightarrow> (\<exists>msg. resp = SError msg) \<or> (resp = SAck \<and> x' = Some (content, n))"
      "\<forall>a. a \<noteq> addr \<longrightarrow> net_nodes w1 a = net_nodes w a"
      by blast
    with a(2) r Some show "(res = Inr () \<longrightarrow> view_at (datum_view i) w' addr (Some (content, n))) \<and> (\<forall>a. a \<noteq> addr \<longrightarrow> net_nodes w' a = net_nodes w a)"
      by (auto simp: write_one_def split: sum.splits store_response.splits)
  qed (auto simp: write_one_def Some try_call_def)
qed

lemma write_all_agree:
  assumes "agree (datum_view i) c w i n x" and "length content + 35 < 2 ^ 32"
    and "previous = None \<or> (\<exists>prev n0. previous = Some prev \<and> x = Some (prev, n0))"
    and "write_all (faulty now) c i content previous n w = Some ((Inr (), c'), w')"
  shows "agree (datum_view i) c' w' i n (Some (content, n))"
proof -
  obtain ts where ts: "serving_replicas c i n = Some ts" using assms(1) by (auto simp: agree_def)
  obtain acked c1 w1 where l: "write_loop (faulty now) i content (write_delta previous content) n ts (0, c, w) = (acked, c1, w1)"
    by (metis prod_cases3)
  have "c' = c1" "w' = w1"
    using assms(4) ts l by (auto simp: write_all_def panicked_def halt_total_loss_def Let_def split: if_splits)
  with agree_after_loop [OF writes_one [OF assms(2,3)] assms(1) ts] l show ?thesis
    by (simp add: write_loop_replicas)
qed

lemma delete_agree:
  assumes "agree (datum_view i) c w i n x" and "remote_delete (faulty now) c i n w = Some ((Inr (), c'), w')"
  shows "agree (datum_view i) c' w' i n None"
proof -
  obtain ts where ts: "serving_replicas c i n = Some ts" using assms(1) by (auto simp: agree_def)
  obtain acked c1 w1 where l: "delete_loop (faulty now) i ts (0, c, w) = (acked, c1, w1)"
    by (metis prod_cases3)
  have "c' = c1" "w' = w1"
    using assms(2) ts l by (auto simp: remote_delete_def panicked_def halt_total_loss_def Let_def split: if_splits)
  with agree_after_loop [OF writes_delete assms(1) ts] l show ?thesis
    by (simp add: delete_loop_replicas)
qed

text \<open>A read walks the replicas without changing what any of them holds.\<close>

lemma get_loop_agree:
  "all_at (datum_view i) c w ns x \<Longrightarrow> set ts \<subseteq> ns \<Longrightarrow> (reached \<longrightarrow> x = None) \<Longrightarrow>
     get_loop (faulty now) i ts reached c w = ((Inr v, c'), w') \<Longrightarrow>
     (\<exists>F. c' = c\<lparr>storage_stale := storage_stale c \<union> F\<rparr>) \<and> all_at (datum_view i) c w' ns x \<and> v = map_option fst x"
proof (induction ts arbitrary: reached c w)
  case Nil
  then show ?case
    by (auto simp: panicked_def halt_total_loss_def Let_def split: if_splits intro!: exI [of _ "{}"])
next
  case (Cons node ts)
  obtain res w1 where r: "try_call (faulty now) c node (SGet i) w = (res, w1)" by fastforce
  have node: "node \<in> ns" using Cons.prems(2) by simp
  note keep = read_call_keeps(1) [OF obeys_get _ Cons.prems(1) node r, simplified]
    and ans = read_call_keeps(2) [OF obeys_get _ Cons.prems(1) node r, simplified]
  consider (answer) "res = Inr (SValue (map_option fst x))" | (failed) "(\<exists>e. res = Inl e) \<or> (\<exists>msg. res = Inr (SError msg))"
    using ans by (cases res) auto
  then show ?case
  proof cases
    case answer
    show ?thesis
    proof (cases x)
      case None
      with answer r Cons.prems(4) have "get_loop (faulty now) i ts True c w1 = ((Inr v, c'), w')" by simp
      from Cons.IH [OF keep _ _ this] Cons.prems(2) None show ?thesis by simp
    next
      case (Some p)
      with answer r Cons.prems(4) have "v = Some (fst p)" "c' = c" "w' = w1" by simp_all
      with keep Some show ?thesis by (auto intro!: exI [of _ "{}"])
    qed
  next
    case failed
    then have g: "get_loop (faulty now) i ts reached (mark_stale c node) w1 = ((Inr v, c'), w')"
      using r Cons.prems(4) by auto
    have "all_at (datum_view i) (mark_stale c node) w1 ns x" "set ts \<subseteq> ns" using keep Cons.prems(2) by simp_all
    from Cons.IH [OF this Cons.prems(3) g] obtain F where
      "c' = (mark_stale c node)\<lparr>storage_stale := storage_stale (mark_stale c node) \<union> F\<rparr>"
      "all_at (datum_view i) c w' ns x" "v = map_option fst x" by auto
    moreover from this(1) have "c' = c\<lparr>storage_stale := storage_stale c \<union> insert node F\<rparr>" by (simp add: mark_stale_def)
    ultimately show ?thesis by blast
  qed
qed

lemma get_agree:
  assumes "agree (datum_view i) c w i n x" and "remote_get (faulty now) c i n w = Some ((Inr v, c'), w')"
  shows "agree (datum_view i) c' w' i n x" and "v = map_option fst x"
proof -
  obtain ts where ts: "serving_replicas c i n = Some ts" and da: "distinct_addresses c ts" and all: "all_at (datum_view i) c w (set ts) x"
    using assms(1) by (auto simp: agree_def)
  have g: "get_loop (faulty now) i ts False c w = ((Inr v, c'), w')"
    using assms(2) ts by (auto simp: remote_get_def panicked_def halt_total_loss_def Let_def split: if_splits)
  have "(\<exists>F. c' = c\<lparr>storage_stale := storage_stale c \<union> F\<rparr>) \<and> all_at (datum_view i) c w' (set ts) x \<and> v = map_option fst x"
    using get_loop_agree [OF all subset_refl _ g] by simp
  then obtain F where c': "c' = c\<lparr>storage_stale := storage_stale c \<union> F\<rparr>" and after: "all_at (datum_view i) c w' (set ts) x"
    and v: "v = map_option fst x"
    by blast
  show "agree (datum_view i) c' w' i n x" by (rule agree_marked [OF ts da after c'])
  show "v = map_option fst x" by (rule v)
qed

section \<open>Runs of one datum's operations\<close>

text \<open>
  \<open>RPut content known\<close> is a write by a caller that hands over the content it last wrote, or
  nothing. A run stops at a panic; it returns the reads so far, the cluster state and whether it
  panicked.
\<close>

datatype remote_op = RPut bytes bool | RDelete | RGet

fun remote_run where
  "remote_run attempt i n [] c w cur = ([], c, False)"
| "remote_run attempt i n (RPut content known # ops) c w cur =
     (case write_all attempt c i content (if known then cur else None) n w of
        Some ((Inr _, c'), w') \<Rightarrow> remote_run attempt i n ops c' w' (Some content)
      | Some ((Inl _, c'), _) \<Rightarrow> ([], c', True)
      | None \<Rightarrow> ([], c, True))"
| "remote_run attempt i n (RDelete # ops) c w cur =
     (case remote_delete attempt c i n w of
        Some ((Inr _, c'), w') \<Rightarrow> remote_run attempt i n ops c' w' None
      | Some ((Inl _, c'), _) \<Rightarrow> ([], c', True)
      | None \<Rightarrow> ([], c, True))"
| "remote_run attempt i n (RGet # ops) c w cur =
     (case remote_get attempt c i n w of
        Some ((Inr v, c'), w') \<Rightarrow> (let (vs, rest) = remote_run attempt i n ops c' w' cur in (v # vs, rest))
      | Some ((Inl _, c'), _) \<Rightarrow> ([], c', True)
      | None \<Rightarrow> ([], c, True))"

fun register_run :: "remote_op list \<Rightarrow> bytes option \<Rightarrow> bytes option list" where
  "register_run [] cur = []"
| "register_run (RPut content known # ops) cur = register_run ops (Some content)"
| "register_run (RDelete # ops) cur = register_run ops None"
| "register_run (RGet # ops) cur = cur # register_run ops cur"

fun small_op :: "remote_op \<Rightarrow> bool" where
  "small_op (RPut content known) \<longleftrightarrow> length content + 35 < 2 ^ 32"
| "small_op _ \<longleftrightarrow> True"

lemma write_all_panics:
  "write_all attempt c i content previous n w = Some ((Inl r, c'), w') \<Longrightarrow> gate (cluster_halt c') \<noteq> None"
  by (auto simp: write_all_def Let_def simp del: not_None_eq split: option.splits if_splits prod.splits dest: panickedD)

lemma delete_panics:
  "remote_delete attempt c i n w = Some ((Inl r, c'), w') \<Longrightarrow> gate (cluster_halt c') \<noteq> None"
  by (auto simp: remote_delete_def Let_def simp del: not_None_eq split: option.splits if_splits prod.splits dest: panickedD)

lemma get_loop_panics: "get_loop attempt i ts reached c w = ((Inl r, c'), w') \<Longrightarrow> gate (cluster_halt c') \<noteq> None"
proof (induction ts arbitrary: reached c w)
  case Nil
  then show ?case by (auto simp del: not_None_eq split: if_splits dest: panickedD)
next
  case (Cons node ts)
  from Cons.prems show ?case
    by (auto simp del: not_None_eq split: prod.splits sum.splits store_response.splits option.splits dest: Cons.IH)
qed

lemma get_panics: "remote_get attempt c i n w = Some ((Inl r, c'), w') \<Longrightarrow> gate (cluster_halt c') \<noteq> None"
  by (auto simp: remote_get_def simp del: not_None_eq split: option.splits if_splits dest: panickedD get_loop_panics)

lemma remote_returns:
  assumes "serving_replicas c i n = Some ts"
  shows "\<exists>r c' w'. write_all attempt c i content previous n w = Some ((r, c'), w')"
    and "\<exists>r c' w'. remote_delete attempt c i n w = Some ((r, c'), w')"
    and "\<exists>r c' w'. remote_get attempt c i n w = Some ((r, c'), w')"
proof -
  have "write_all attempt c i content previous n w \<noteq> None" "remote_delete attempt c i n w \<noteq> None"
    "remote_get attempt c i n w \<noteq> None"
    using assms
    by (simp_all add: write_all_def remote_delete_def remote_get_def Let_def del: not_None_eq split: prod.splits)
  then show "\<exists>r c' w'. write_all attempt c i content previous n w = Some ((r, c'), w')"
    and "\<exists>r c' w'. remote_delete attempt c i n w = Some ((r, c'), w')"
    and "\<exists>r c' w'. remote_get attempt c i n w = Some ((r, c'), w')"
    by (metis not_None_eq surj_pair)+
qed

lemma remote_run_register:
  assumes "agree (datum_view i) c w i n x" and "cur = map_option fst x" and "list_all small_op ops"
    and "remote_run (faulty now) i n ops c w cur = (vs, c', panic)"
  shows "\<exists>rest. register_run ops cur = vs @ rest \<and> (panic \<longrightarrow> gate (cluster_halt c') \<noteq> None) \<and> (\<not> panic \<longrightarrow> rest = [])"
  using assms
proof (induction ops arbitrary: c w x cur vs)
  case (Cons op ops)
  obtain ts where ts: "serving_replicas c i n = Some ts" using agree_serving [OF Cons.prems(1)] by blast
  show ?case
  proof (cases op)
    case (RPut content known)
    let ?p = "if known then cur else None"
    have prev: "?p = None \<or> (\<exists>prev n0. ?p = Some prev \<and> x = Some (prev, n0))" using Cons.prems(2) by (cases x) auto
    obtain res c1 w1 where wr: "write_all (faulty now) c i content ?p n w = Some ((res, c1), w1)"
      using remote_returns(1) [OF ts, of "faulty now" content ?p w] by blast
    show ?thesis
    proof (cases res)
      case (Inl r)
      with write_all_panics [of "faulty now" c i content ?p n w] wr Cons.prems(4) RPut show ?thesis by auto
    next
      case (Inr u)
      then have "agree (datum_view i) c1 w1 i n (Some (content, n))"
        using write_all_agree [OF Cons.prems(1) _ prev] wr Cons.prems(3) RPut by simp
      from Cons.IH [OF this] Cons.prems(3,4) RPut Inr wr show ?thesis by simp
    qed
  next
    case RDelete
    obtain res c1 w1 where wr: "remote_delete (faulty now) c i n w = Some ((res, c1), w1)"
      using remote_returns(2) [OF ts, of "faulty now" w] by blast
    show ?thesis
    proof (cases res)
      case (Inl r)
      with delete_panics [of "faulty now" c i n w] wr Cons.prems(4) RDelete show ?thesis by auto
    next
      case (Inr u)
      from Cons.IH [OF delete_agree [OF Cons.prems(1)]] Cons.prems(3,4) RDelete Inr wr show ?thesis by simp
    qed
  next
    case RGet
    obtain res c1 w1 where wr: "remote_get (faulty now) c i n w = Some ((res, c1), w1)"
      using remote_returns(3) [OF ts, of "faulty now" w] by blast
    show ?thesis
    proof (cases res)
      case (Inl r)
      with get_panics [of "faulty now" c i n w] wr Cons.prems(4) RGet show ?thesis by auto
    next
      case (Inr v)
      note g = get_agree [OF Cons.prems(1) wr [unfolded Inr]]
      obtain vs1 where vs: "vs = v # vs1" "remote_run (faulty now) i n ops c1 w1 cur = (vs1, c', panic)"
        using Cons.prems(4) RGet Inr wr by (auto split: prod.splits)
      from Cons.IH [OF g(1) Cons.prems(2) _ vs(2)] Cons.prems(2,3) RGet vs(1) g(2) show ?thesis by auto
    qed
  qed
qed simp

section \<open>Properties\<close>

text \<open>
  C9: Acknowledged writes are read back, whatever messages are lost. A compute node's puts, deletes
  and gets of one datum against its replicas, each of which may miss a request or act on it with
  the reply lost, read exactly what a single register would: the retry on a fresh connection and
  the delta patches never corrupt a value, and a replica that missed a write is not read again.
  The run ends early only by a panic, and then the halt is engaged.
\<close>

theorem acknowledged_writes_are_read:
  assumes "agree (datum_view i) c w i n x" and "list_all small_op ops"
    and "remote_run (faulty now) i n ops c w (map_option fst x) = (vs, c', panic)"
  shows "\<exists>rest. register_run ops (map_option fst x) = vs @ rest \<and>
    (panic \<longrightarrow> gate (cluster_halt c') \<noteq> None) \<and> (\<not> panic \<longrightarrow> rest = [])"
  by (rule remote_run_register [OF assms(1) refl assms(2,3)])

theorem acknowledged_writes_are_read_witness:
  "\<exists>w vs c' panic rest. agree (datum_view (DatumId 1)) one_replica w (DatumId 1) 1 None \<and> net_faults w = [LostReply] \<and>
     remote_run (faulty 0) (DatumId 1) 1 [RPut [7] False, RGet] one_replica w None = (vs, c', panic) \<and>
     [Some [7]] = vs @ rest \<and> (\<not> panic \<longrightarrow> rest = [])"
proof -
  obtain l where l: "implements l Map.empty" by (rule fresh_implements [of "replicate 16 0"]) simp
  let ?nd = "\<lparr>sn_log = l, sn_node_id = NodeId 1, heartbeat = 0, self_halt_threshold = 5, sn_transfers = [], sn_collections = no_collections []\<rparr>"
  let ?w = "\<lparr>net_nodes = [[9] \<mapsto> ?nd], net_faults = [LostReply]\<rparr>"
  have "holds ?nd Map.empty" using l by (simp add: holds_def)
  then have "view_at (datum_view (DatumId 1)) ?w [9] None" by (auto simp: view_at_def datum_view_def)
  then have a: "agree (datum_view (DatumId 1)) one_replica ?w (DatumId 1) 1 None" by (rule one_replica_agrees)
  obtain vs c' panic where r: "remote_run (faulty 0) (DatumId 1) 1 [RPut [7] False, RGet] one_replica ?w
      (map_option fst (None :: (bytes \<times> u16) option)) = (vs, c', panic)"
    by (metis prod_cases3)
  from acknowledged_writes_are_read [OF a _ r] a r show ?thesis by fastforce
qed


definition two_replicas :: cluster_state where
  "two_replicas = (compute_only ring_empty)\<lparr>storage_ring := from_members [(NodeId 1, 1), (NodeId 2, 1)],
     storage_alive := {NodeId 1, NodeId 2}, store_addresses := [NodeId 1 \<mapsto> [1], NodeId 2 \<mapsto> [2]]\<rparr>"


end
