(* ===== verification/Btree_Shape.thy ===== *)
theory Btree_Shape
  imports Btree
begin

text \<open>
  The shape a B+tree file has: an abstract tree whose nodes carry their page ids, the order and
  capacity conditions on it, and what it means that the pages of a file hold such a tree. A node
  is the list of its children with their upper separators; the last child has none, which stands
  for the rightmost child of the page.
\<close>

datatype tree = Lf nat entries | Nd nat "(tree \<times> bytes option) list"

fun page_of :: "tree \<Rightarrow> nat" where
  "page_of (Lf p es) = p"
| "page_of (Nd p cs) = p"

fun entries_of :: "tree \<Rightarrow> entries" where
  "entries_of (Lf p es) = es"
| "entries_of (Nd p cs) = concat (map (\<lambda>(c, u). entries_of c) cs)"

fun leaves :: "tree \<Rightarrow> (nat \<times> entries) list" where
  "leaves (Lf p es) = [(p, es)]"
| "leaves (Nd p cs) = concat (map (\<lambda>(c, u). leaves c) cs)"

fun inner_pages :: "tree \<Rightarrow> nat list" where
  "inner_pages (Lf p es) = []"
| "inner_pages (Nd p cs) = p # concat (map (\<lambda>(c, u). inner_pages c) cs)"

definition pages_of :: "tree \<Rightarrow> nat list" where
  "pages_of t = map fst (leaves t) @ inner_pages t"

text \<open>Every key and every separator of a tree.\<close>

fun marks :: "tree \<Rightarrow> bytes set" where
  "marks (Lf p es) = set (map fst es)"
| "marks (Nd p cs) = (\<Union>(c, u)\<in>set cs. marks c \<union> set_option u)"

definition below :: "bytes \<Rightarrow> bytes option \<Rightarrow> bool" where
  "below k u = (case u of None \<Rightarrow> True | Some s \<Rightarrow> k < s)"

definition above :: "bytes option \<Rightarrow> bytes \<Rightarrow> bool" where
  "above u k = (case u of None \<Rightarrow> False | Some s \<Rightarrow> s \<le> k)"

lemma below_simps [simp]: "below k None" "below k (Some s) \<longleftrightarrow> k < s"
  by (simp_all add: below_def)

lemma above_simps [simp]: "\<not> above None k" "above (Some s) k \<longleftrightarrow> s \<le> k"
  by (simp_all add: above_def)

lemma not_below [simp]: "\<not> below k u \<longleftrightarrow> above u k"
  by (cases u) auto

text \<open>
  A child and what is to the right of its separator: the separator is above everything in the
  child, and at most everything in the children after it.
\<close>

definition before :: "tree \<times> bytes option \<Rightarrow> tree \<times> bytes option \<Rightarrow> bool" where
  "before x y \<longleftrightarrow> (\<exists>r. snd x = Some r \<and> (\<forall>k\<in>marks (fst y). r \<le> k) \<and> (\<forall>s\<in>set_option (snd y). r < s))"

fun ordered :: "tree \<Rightarrow> bool" where
  "ordered (Lf p es) = sorted_wrt (<) (map fst es)"
| "ordered (Nd p cs) =
     ((\<forall>(c, u)\<in>set cs. ordered c \<and> (\<forall>k\<in>marks c. below k u)) \<and>
      sorted_wrt before cs \<and> cs \<noteq> [] \<and> snd (last cs) = None)"

text \<open>Sizes of keys and values, and the capacities of pages.\<close>

fun sized :: "nat \<Rightarrow> nat \<Rightarrow> nat \<Rightarrow> nat \<Rightarrow> tree \<Rightarrow> bool" where
  "sized ks vs ml mi (Lf p es) =
     ((\<forall>(k, v)\<in>set es. length k = ks \<and> length v = vs) \<and> length es \<le> ml)"
| "sized ks vs ml mi (Nd p cs) =
     ((\<forall>(c, u)\<in>set cs. sized ks vs ml mi c \<and> (\<forall>s\<in>set_option u. length s = ks)) \<and> length cs \<le> Suc mi)"

section \<open>Pages that hold a tree\<close>

type_synonym page_map = "nat \<Rightarrow> page option"

text \<open>The pages of a file by number, where the number is addressable.\<close>

definition pages :: "btree \<Rightarrow> page_map" where
  "pages b i =
     (if addressable (bt_page_size b) i
      then (case read_node b (word_of_nat i) of Inr pg \<Rightarrow> Some pg | Inl _ \<Rightarrow> None) else None)"

definition count_of :: "tree \<Rightarrow> u64" where
  "count_of t = word_of_nat (length (entries_of t))"

definition child_entry :: "tree \<times> bytes option \<Rightarrow> bytes \<times> u64 \<times> u64" where
  "child_entry x = (the (snd x), word_of_nat (page_of (fst x)), count_of (fst x))"

definition node_of :: "(tree \<times> bytes option) list \<Rightarrow> internal_node" where
  "node_of cs =
     \<lparr>in_entries = map child_entry (butlast cs),
      rightmost_child = word_of_nat (page_of (fst (last cs))),
      rightmost_count = count_of (fst (last cs))\<rparr>"

fun inner :: "page_map \<Rightarrow> tree \<Rightarrow> bool" where
  "inner V (Lf p es) = True"
| "inner V (Nd p cs) = (V p = Some (InternalPage (node_of cs)) \<and> (\<forall>(c, u)\<in>set cs. inner V c))"

text \<open>A segment of the doubly linked list of leaves, from the page before it to the page after.\<close>

fun first_page :: "(nat \<times> entries) list \<Rightarrow> nat \<Rightarrow> nat" where
  "first_page [] n = n"
| "first_page ((p, _) # _) n = p"

fun last_page :: "nat \<Rightarrow> (nat \<times> entries) list \<Rightarrow> nat" where
  "last_page m [] = m"
| "last_page m ((p, _) # ls) = last_page p ls"

fun linked :: "page_map \<Rightarrow> nat \<Rightarrow> (nat \<times> entries) list \<Rightarrow> nat \<Rightarrow> bool" where
  "linked V m [] n = True"
| "linked V m ((p, es) # ls) n =
     (V p = Some (LeafPage \<lparr>ln_prev = word_of_nat m, ln_next = word_of_nat (first_page ls n), ln_entries = es\<rparr>) \<and>
      linked V p ls n)"

text \<open>The fields of a tree record that insertion and removal do not change, and their relation.\<close>

definition fits :: "btree \<Rightarrow> bool" where
  "fits b \<longleftrightarrow>
     validate_page_size (bt_page_size b) = Inr () \<and> ps_page_size (bt_store b) = bt_page_size b \<and>
     max_leaf_entries (bt_page_size b) (bt_key_size b) (bt_value_size b) = Inr (bt_max_leaf b) \<and>
     max_internal_entries (bt_page_size b) (bt_key_size b) = Inr (bt_max_internal b) \<and>
     0 < bt_max_leaf b \<and> 0 < bt_max_internal b"

abbreviation tree_sized :: "btree \<Rightarrow> tree \<Rightarrow> bool" where
  "tree_sized b \<equiv> sized (unat (bt_key_size b)) (unat (bt_value_size b)) (bt_max_leaf b) (bt_max_internal b)"

section \<open>Order\<close>

lemma butlast_separators: "sorted_wrt before cs \<Longrightarrow> (c, u) \<in> set (butlast cs) \<Longrightarrow> u \<noteq> None"
proof (induction cs)
  case (Cons x cs)
  then show ?case by (auto simp: before_def split: if_splits) (metis last_in_set before_def option.distinct(1) snd_conv)
qed simp

lemma keys_in_marks: "fst ` set (entries_of t) \<subseteq> marks t"
proof (induction t)
  case (Nd p cs)
  then show ?case by (fastforce simp: image_UN split: prod.splits)
qed simp

lemma sorted_wrt_concat:
  assumes "\<forall>x\<in>set xs. sorted_wrt R (f x)" "sorted_wrt (\<lambda>x y. \<forall>a\<in>set (f x). \<forall>b\<in>set (f y). R a b) xs"
  shows "sorted_wrt R (concat (map f xs))"
  using assms by (induction xs) (auto simp: sorted_wrt_append)

lemma sorted_wrt_mono_on:
  "sorted_wrt P xs \<Longrightarrow> (\<And>x y. x \<in> set xs \<Longrightarrow> y \<in> set xs \<Longrightarrow> P x y \<Longrightarrow> Q x y) \<Longrightarrow> sorted_wrt Q xs"
  by (induction xs) auto

lemma ordered_entries: "ordered t \<Longrightarrow> sorted_wrt (<) (map fst (entries_of t))"
proof (induction t)
  case (Nd p cs)
  let ?f = "\<lambda>x. map fst (entries_of (fst x))"
  have "sorted_wrt (<) (concat (map ?f cs))"
  proof (rule sorted_wrt_concat)
    show "\<forall>x\<in>set cs. sorted_wrt (<) (?f x)" using Nd by auto
    show "sorted_wrt (\<lambda>x y. \<forall>a\<in>set (?f x). \<forall>b\<in>set (?f y). a < b) cs"
    proof (rule sorted_wrt_mono_on)
      show "sorted_wrt before cs" using Nd.prems by simp
      fix x y assume xy: "x \<in> set cs" "y \<in> set cs" "before x y"
      then obtain r where r: "snd x = Some r" "\<forall>k\<in>marks (fst y). r \<le> k" by (auto simp: before_def)
      moreover have "\<forall>k\<in>marks (fst x). below k (snd x)" using Nd.prems xy(1) by auto
      ultimately show "\<forall>a\<in>set (?f x). \<forall>b\<in>set (?f y). a < b"
        using keys_in_marks [of "fst x"] keys_in_marks [of "fst y"]
        by (metis (no_types, lifting) below_simps(2) image_set list.set_map order_less_le_trans subsetD)
    qed
  qed
  then show ?case by (simp add: map_concat o_def case_prod_beta)
qed simp

end
