(* ===== verification/Btree_Insert.thy ===== *)
theory Btree_Insert
  imports Btree_Shape "HOL-Library.Multiset"
begin

text \<open>
  Insertion on the abstract tree: what it does to the sorted entries, and that it keeps the order
  and the capacities. The binary search of a leaf finds the place where the key belongs.
\<close>

section \<open>Sorted entries\<close>

type_synonym 'v sorted_entries = "(bytes \<times> 'v) list"

abbreviation smaller :: "bytes \<Rightarrow> 'v sorted_entries \<Rightarrow> 'v sorted_entries" where
  "smaller k es \<equiv> takeWhile (\<lambda>e. fst e < k) es"

definition upsert :: "bytes \<Rightarrow> 'v \<Rightarrow> 'v sorted_entries \<Rightarrow> 'v sorted_entries" where
  "upsert k v es = smaller k es @ (k, v) # dropWhile (\<lambda>e. fst e \<le> k) es"

abbreviation ascending :: "'v sorted_entries \<Rightarrow> bool" where
  "ascending es \<equiv> sorted_wrt (<) (map fst es)"

lemma ascending_append:
  "ascending (A @ B) \<longleftrightarrow> ascending A \<and> ascending B \<and> (\<forall>a\<in>set A. \<forall>b\<in>set B. fst a < fst b)"
  by (auto simp: sorted_wrt_append)

lemma upsert_between:
  assumes "\<forall>e\<in>set A. fst e < k" "\<forall>e\<in>set C. k < fst e"
  shows "upsert k v (A @ B @ C) = A @ upsert k v B @ C"
proof -
  have le: "\<forall>e\<in>set A. fst e \<le> k" "takeWhile (\<lambda>e. fst e < k) C = []" "dropWhile (\<lambda>e. fst e \<le> k) C = C"
    using assms by (force, cases C, auto, cases C, auto)
  then have "takeWhile (\<lambda>e. fst e < k) (B @ C) = takeWhile (\<lambda>e. fst e < k) B"
    "dropWhile (\<lambda>e. fst e \<le> k) (B @ C) = dropWhile (\<lambda>e. fst e \<le> k) B @ C"
    by (induction B) auto
  with assms(1) le(1) show ?thesis by (simp add: upsert_def)
qed

text \<open>A sorted list around the place of a key.\<close>

lemma split_at_key:
  assumes "ascending es"
  obtains A C where "es = A @ C" "\<forall>e\<in>set A. fst e < k" "\<forall>e\<in>set C. k < fst e" "k \<notin> fst ` set es"
  | A x C where "es = A @ (k, x) # C" "\<forall>e\<in>set A. fst e < k" "\<forall>e\<in>set C. k < fst e" "k \<in> fst ` set es"
proof -
  define A where "A = smaller k es"
  define D where "D = dropWhile (\<lambda>e. fst e < k) es"
  have es: "es = A @ D" by (simp add: A_def D_def)
  have A: "\<forall>e\<in>set A. fst e < k" by (auto simp: A_def dest: set_takeWhileD)
  show ?thesis
  proof (cases D)
    case Nil
    then show ?thesis using that(1) [of A "[]"] A es by auto
  next
    case (Cons d C)
    have d: "\<not> fst d < k" using hd_dropWhile [of "\<lambda>e. fst e < k" es] Cons unfolding D_def by force
    have C: "\<forall>e\<in>set C. fst d < fst e" using assms unfolding es Cons ascending_append by auto
    show ?thesis
    proof (cases "fst d = k")
      case True
      then show ?thesis using that(2) [of A "snd d" C] es A C Cons by force
    next
      case False
      then have "\<forall>e\<in>set (d # C). k < fst e" using C d by force
      then show ?thesis using that(1) [of A "d # C"] es A Cons by fastforce
    qed
  qed
qed

lemma smaller_at: "\<forall>e\<in>set A. fst e < k \<Longrightarrow> \<forall>e\<in>set C. k \<le> fst e \<Longrightarrow> smaller k (A @ C) = A"
  by (cases C) auto

lemma map_of_other [simp]:
  fixes k :: bytes
  assumes "\<forall>e\<in>set A. fst e < k \<or> k < fst e"
  shows "map_of A k = None"
proof (cases "map_of A k")
  case (Some x)
  then have "(k, x) \<in> set A" by (rule map_of_SomeD)
  with assms show ?thesis by (metis fst_conv order_less_irrefl)
qed

lemma upsert_new: "\<forall>e\<in>set A. fst e < k \<Longrightarrow> \<forall>e\<in>set C. k < fst e \<Longrightarrow> upsert k v (A @ C) = A @ (k, v) # C"
  using upsert_between [of A k C v "[]"] by (simp add: upsert_def)

lemma upsert_old: "\<forall>e\<in>set A. fst e < k \<Longrightarrow> \<forall>e\<in>set C. k < fst e \<Longrightarrow> upsert k v (A @ (k, x) # C) = A @ (k, v) # C"
  using upsert_between [of A k C v "[(k, x)]"] by (simp add: upsert_def)

lemma upsert_facts:
  assumes "ascending es"
  shows ascending_upsert: "ascending (upsert k v es)"
    and keys_upsert: "fst ` set (upsert k v es) = insert k (fst ` set es)"
    and length_upsert: "length (upsert k v es) = length es + (if k \<in> fst ` set es then 0 else 1)"
    and map_of_upsert: "map_of (upsert k v es) = (map_of es)(k \<mapsto> v)"
proof -
  have "ascending (upsert k v es) \<and> fst ` set (upsert k v es) = insert k (fst ` set es) \<and>
      length (upsert k v es) = length es + (if k \<in> fst ` set es then 0 else 1) \<and>
      map_of (upsert k v es) = (map_of es)(k \<mapsto> v)"
    using assms
  proof (rule split_at_key [of es k])
    fix A C assume *: "es = A @ C" "\<forall>e\<in>set A. fst e < k" "\<forall>e\<in>set C. k < fst e" "k \<notin> fst ` set es"
    then have "map_of (A @ (k, v) # C) = (map_of (A @ C))(k \<mapsto> v)"
      by (auto simp: map_add_def fun_eq_iff split: option.splits)
    with * assms show ?thesis by (auto simp: upsert_new sorted_wrt_append)
  next
    fix A x C assume *: "es = A @ (k, x) # C" "\<forall>e\<in>set A. fst e < k" "\<forall>e\<in>set C. k < fst e" "k \<in> fst ` set es"
    then have "map_of (A @ (k, v) # C) = (map_of (A @ (k, x) # C))(k \<mapsto> v)"
      by (auto simp: map_add_def fun_eq_iff split: option.splits)
    with * assms show ?thesis by (auto simp: upsert_old sorted_wrt_append)
  qed
  then show "ascending (upsert k v es)" "fst ` set (upsert k v es) = insert k (fst ` set es)"
    "length (upsert k v es) = length es + (if k \<in> fst ` set es then 0 else 1)"
    "map_of (upsert k v es) = (map_of es)(k \<mapsto> v)"
    by blast+
qed

section \<open>Binary search\<close>

lemma ascending_nth: "ascending es \<Longrightarrow> i < j \<Longrightarrow> j < length es \<Longrightarrow> fst (es ! i) < fst (es ! j)"
  by (simp add: sorted_wrt_iff_nth_less)

lemma search_loop_spec:
  assumes "ascending es" "0 < sz" "base + sz \<le> length es" "base = 0 \<or> fst (es ! base) \<le> key"
    "\<forall>j. base + sz \<le> j \<and> j < length es \<longrightarrow> key < fst (es ! j)"
  shows "search_loop es key base sz < length es \<and>
    (search_loop es key base sz = 0 \<or> fst (es ! search_loop es key base sz) \<le> key) \<and>
    (\<forall>j. search_loop es key base sz < j \<and> j < length es \<longrightarrow> key < fst (es ! j))"
  using assms
proof (induction es key base sz rule: search_loop.induct)
  case (1 es key base sz)
  let ?half = "sz div 2" and ?mid = "base + sz div 2"
  show ?case
  proof (cases "sz > 1")
    case True
    then have half: "0 < ?half" "?half < sz" "?half \<le> sz - ?half" "?mid < length es" using 1(4) by auto
    have after_mid: "fst (es ! ?mid) \<le> fst (es ! j)" if "?mid \<le> j" "j < length es" for j
      using ascending_nth [OF "1.prems"(1), of ?mid j] that by (cases "j = ?mid") auto
    let ?base = "if key < fst (es ! ?mid) then base else ?mid"
    have eq: "search_loop es key base sz = search_loop es key (if key < fst (es ! ?mid) then base else ?mid) (sz - ?half)"
      using True by (subst search_loop.simps) (simp add: Let_def)
    moreover have "\<forall>j. (if key < fst (es ! ?mid) then base else ?mid) + (sz - ?half) \<le> j \<and> j < length es \<longrightarrow> key < fst (es ! j)"
    proof (cases "key < fst (es ! ?mid)")
      case gt: True
      then show ?thesis using after_mid half by (fastforce intro: order_less_le_trans)
    next
      case False
      then show ?thesis using "1.prems"(5) half by simp
    qed
    moreover have "0 < sz - ?half" "?base + (sz - ?half) \<le> length es" "?base = 0 \<or> fst (es ! ?base) \<le> key"
      using half "1.prems"(3,4) by auto
    ultimately show ?thesis
      unfolding eq using "1.IH" [OF True refl refl "1.prems"(1)] by blast
  next
    case False
    then have "sz = 1" using "1.prems"(2) by simp
    moreover have "search_loop es key base sz = base" using False by (subst search_loop.simps) simp
    ultimately show ?thesis using "1.prems" by simp
  qed
qed

lemma binary_search_spec:
  assumes "ascending es"
  shows "binary_search es key = (if key \<in> fst ` set es then OkAt (length (smaller key es)) else ErrAt (length (smaller key es)))"
proof (cases "es = []")
  case True
  then show ?thesis by (simp add: binary_search_def)
next
  case False
  define r where "r = search_loop es key 0 (length es)"
  have "r < length es \<and> (r = 0 \<or> fst (es ! r) \<le> key) \<and> (\<forall>j. r < j \<and> j < length es \<longrightarrow> key < fst (es ! j))"
    unfolding r_def by (rule search_loop_spec [OF assms]) (use False in auto)
  then have r: "r < length es" "r = 0 \<or> fst (es ! r) \<le> key" "\<forall>j. r < j \<and> j < length es \<longrightarrow> key < fst (es ! j)"
    by blast+
  have es: "es = take r es @ es ! r # drop (Suc r) es" using r(1) by (simp add: id_take_nth_drop)
  have low: "\<forall>e\<in>set (take r es). fst e < fst (es ! r)"
    using ascending_nth [OF assms _ r(1)] r(1) by (fastforce simp: in_set_conv_nth)
  have high: "\<forall>e\<in>set (drop (Suc r) es). key < fst e"
  proof
    fix e assume "e \<in> set (drop (Suc r) es)"
    then obtain i where "i < length es - Suc r" "e = es ! (Suc r + i)" by (auto simp: in_set_conv_nth)
    then show "key < fst e" using r(3) by simp
  qed
  have lt: "smaller key es = take r es @ [es ! r]" if "fst (es ! r) < key"
  proof -
    have "\<forall>e\<in>set (take r es @ [es ! r]). fst e < key" using low that by (auto intro: order_less_trans)
    moreover have "\<forall>e\<in>set (drop (Suc r) es). key \<le> fst e" using high by (auto simp: less_imp_le)
    ultimately have "smaller key ((take r es @ [es ! r]) @ drop (Suc r) es) = take r es @ [es ! r]" by (rule smaller_at)
    then show ?thesis unfolding append_assoc append_Cons append_Nil es [symmetric] .
  qed
  have ge: "smaller key es = take r es" if "\<not> fst (es ! r) < key"
  proof -
    from that r(2) have "r = 0 \<or> fst (es ! r) = key" by force
    then have "\<forall>e\<in>set (take r es). fst e < key" using low by auto
    moreover have "\<forall>e\<in>set (es ! r # drop (Suc r) es). key \<le> fst e" using that high by (auto simp: less_imp_le)
    ultimately have "smaller key (take r es @ es ! r # drop (Suc r) es) = take r es" by (rule smaller_at)
    then show ?thesis unfolding es [symmetric] .
  qed
  have mem: "key \<in> fst ` set es \<longleftrightarrow> fst (es ! r) = key"
  proof
    assume "key \<in> fst ` set es"
    then obtain e where e: "e \<in> set es" "fst e = key" by auto
    then have "e \<in> set (take r es) \<or> e = es ! r \<or> e \<in> set (drop (Suc r) es)" using es by (metis UnE set_append set_ConsD)
    then show "fst (es ! r) = key" using e low high r(2) by force
  next
    assume "fst (es ! r) = key"
    then show "key \<in> fst ` set es" using r(1) by force
  qed
  show ?thesis
    using False r(1) lt ge unfolding mem binary_search_def r_def [symmetric] Let_def
    by (cases "fst (es ! r) < key") auto
qed

lemma upsert_at_spec:
  assumes "ascending es"
  shows "upsert_at es key v = (key \<notin> fst ` set es, upsert key v es)"
  using assms
proof (rule split_at_key [of es key])
  fix A C assume *: "es = A @ C" "\<forall>e\<in>set A. fst e < key" "\<forall>e\<in>set C. key < fst e" "key \<notin> fst ` set es"
  then have "length (smaller key es) = length A" using smaller_at [of A key C] by (simp add: less_imp_le)
  then have "binary_search es key = ErrAt (length A)" using *(4) binary_search_spec [OF assms, of key] by simp
  with * show ?thesis by (simp add: upsert_at_def upsert_new vec_insert_def)
next
  fix A x C assume *: "es = A @ (key, x) # C" "\<forall>e\<in>set A. fst e < key" "\<forall>e\<in>set C. key < fst e" "key \<in> fst ` set es"
  then have "length (smaller key es) = length A" using smaller_at [of A key "(key, x) # C"] by (simp add: less_imp_le)
  then have "binary_search es key = OkAt (length A)" using *(4) binary_search_spec [OF assms, of key] by simp
  with * show ?thesis by (simp add: upsert_at_def upsert_old)
qed

section \<open>The way of a key through a node\<close>

definition children_ordered :: "(tree \<times> bytes option) list \<Rightarrow> bool" where
  "children_ordered cs \<longleftrightarrow>
     (\<forall>x\<in>set cs. ordered (fst x) \<and> (\<forall>k\<in>marks (fst x). below k (snd x))) \<and>
     sorted_wrt before cs \<and> cs \<noteq> [] \<and> snd (last cs) = None"

lemma ordered_Nd: "ordered (Nd p cs) \<longleftrightarrow> children_ordered cs"
  by (auto simp: children_ordered_def)

definition node_marks :: "(tree \<times> bytes option) list \<Rightarrow> bytes set" where
  "node_marks cs = (\<Union>x\<in>set cs. marks (fst x) \<union> set_option (snd x))"

lemma marks_Nd: "marks (Nd p cs) = node_marks cs"
  by (auto simp: node_marks_def)

text \<open>The child of a key: every separator before it is at most the key, its own is above.\<close>

definition routed :: "bytes \<Rightarrow> (tree \<times> bytes option) list \<Rightarrow> (tree \<times> bytes option) list \<Rightarrow> tree \<Rightarrow> bytes option \<Rightarrow>
    (tree \<times> bytes option) list \<Rightarrow> bool" where
  "routed k cs xs c u ys \<longleftrightarrow> cs = xs @ (c, u) # ys \<and> (\<forall>x\<in>set xs. above (snd x) k) \<and> below k u"

lemma routed_exists:
  assumes "cs \<noteq> []" "snd (last cs) = None"
  obtains c u ys where "routed k cs (takeWhile (\<lambda>x. above (snd x) k) cs) c u ys"
    "dropWhile (\<lambda>x. above (snd x) k) cs = (c, u) # ys"
proof -
  have "last cs \<in> set cs" "\<not> above (snd (last cs)) k" using assms by simp_all
  then have "dropWhile (\<lambda>x. above (snd x) k) cs \<noteq> []" by (metis dropWhile_eq_Nil_conv)
  then obtain x ys where d: "dropWhile (\<lambda>x. above (snd x) k) cs = x # ys" by (meson neq_Nil_conv)
  moreover have "\<not> above (snd x) k" using d hd_dropWhile [of "\<lambda>x. above (snd x) k" cs] by simp
  then have "below k (snd x)" using not_below by blast
  moreover have "cs = takeWhile (\<lambda>x. above (snd x) k) cs @ x # ys" using d by (metis takeWhile_dropWhile_id)
  ultimately show ?thesis
    using that [of "fst x" "snd x" ys] by (auto simp: routed_def dest: set_takeWhileD)
qed

lemma routed_keys:
  assumes "routed k cs xs c u ys" "children_ordered cs"
  shows "\<forall>e\<in>set (concat (map (\<lambda>x. entries_of (fst x)) xs)). fst e < k"
    and "\<forall>e\<in>set (concat (map (\<lambda>x. entries_of (fst x)) ys)). k < fst e"
proof -
  show "\<forall>e\<in>set (concat (map (\<lambda>x. entries_of (fst x)) xs)). fst e < k"
  proof
    fix e assume "e \<in> set (concat (map (\<lambda>x. entries_of (fst x)) xs))"
    then obtain x where x: "x \<in> set xs" "e \<in> set (entries_of (fst x))" by auto
    then have "fst e \<in> marks (fst x)" using keys_in_marks by blast
    then have "below (fst e) (snd x)" "above (snd x) k"
      using assms x(1) by (auto simp: children_ordered_def routed_def)
    then show "fst e < k" by (cases "snd x") auto
  qed
  show "\<forall>e\<in>set (concat (map (\<lambda>x. entries_of (fst x)) ys)). k < fst e"
  proof
    fix e assume "e \<in> set (concat (map (\<lambda>x. entries_of (fst x)) ys))"
    then obtain y where y: "y \<in> set ys" "e \<in> set (entries_of (fst y))" by auto
    then have "fst e \<in> marks (fst y)" using keys_in_marks by blast
    moreover have "before (c, u) y" using assms y(1) by (auto simp: children_ordered_def routed_def sorted_wrt_append)
    ultimately have "above u (fst e)" by (auto simp: before_def)
    moreover have "below k u" using assms(1) by (simp add: routed_def)
    ultimately show "k < fst e" by (cases u) auto
  qed
qed

lemma entries_Nd: "entries_of (Nd p cs) = concat (map (\<lambda>x. entries_of (fst x)) cs)"
  by (simp add: case_prod_unfold)

declare entries_of.simps(2) [simp del] ordered.simps(2) [simp del] marks.simps(2) [simp del]
declare entries_Nd [simp] ordered_Nd [simp] marks_Nd [simp]

lemma routed_upsert:
  assumes "routed k cs xs c u ys" "children_ordered cs"
  shows "upsert k v (entries_of (Nd p cs)) =
    concat (map (\<lambda>x. entries_of (fst x)) xs) @ upsert k v (entries_of c) @ concat (map (\<lambda>x. entries_of (fst x)) ys)"
proof -
  have "cs = xs @ (c, u) # ys" using assms(1) by (simp add: routed_def)
  then show ?thesis using upsert_between [OF routed_keys [OF assms]] by simp
qed

lemma routed_member:
  assumes "routed k cs xs c u ys" "children_ordered cs"
  shows "k \<in> fst ` set (entries_of (Nd p cs)) \<longleftrightarrow> k \<in> fst ` set (entries_of c)"
proof -
  have "cs = xs @ (c, u) # ys" using assms(1) by (simp add: routed_def)
  then show ?thesis using routed_keys [OF assms] by (auto simp: image_Un)
qed

section \<open>Insertion on the abstract tree\<close>

type_synonym split_result = "tree \<times> (bytes \<times> tree) option \<times> nat"

text \<open>A page that may have become too full, with the next free page number.\<close>

definition split_leaf :: "nat \<Rightarrow> nat \<Rightarrow> entries \<Rightarrow> nat \<Rightarrow> split_result" where
  "split_leaf ml p es nx =
     (if length es \<le> ml then (Lf p es, None, nx)
      else let mid = length es div 2
           in (Lf p (take mid es), Some (fst (es ! mid), Lf nx (drop mid es)), Suc nx))"

definition split_node :: "nat \<Rightarrow> nat \<Rightarrow> (tree \<times> bytes option) list \<Rightarrow> nat \<Rightarrow> split_result" where
  "split_node mi p cs nx =
     (if length cs \<le> Suc mi then (Nd p cs, None, nx)
      else let mid = (length cs - 1) div 2
           in (Nd p (take mid cs @ [(fst (cs ! mid), None)]),
               Some (the (snd (cs ! mid)), Nd nx (drop (Suc mid) cs)), Suc nx))"

definition join_child :: "nat \<Rightarrow> nat \<Rightarrow> (tree \<times> bytes option) list \<Rightarrow> bytes option \<Rightarrow> (tree \<times> bytes option) list \<Rightarrow> split_result \<Rightarrow> split_result" where
  "join_child mi p xs u ys r =
     (case r of
        (c, None, nx) \<Rightarrow> (Nd p (xs @ (c, u) # ys), None, nx)
      | (c, Some (s, d), nx) \<Rightarrow> split_node mi p (xs @ (c, Some s) # (d, u) # ys) nx)"

function tree_insert :: "nat \<Rightarrow> nat \<Rightarrow> bytes \<Rightarrow> bytes \<Rightarrow> nat \<Rightarrow> tree \<Rightarrow> split_result" where
  "tree_insert ml mi k v nx (Lf p es) = split_leaf ml p (upsert k v es) nx"
| "tree_insert ml mi k v nx (Nd p cs) =
     (case dropWhile (\<lambda>x. above (snd x) k) cs of
        [] \<Rightarrow> (Nd p cs, None, nx)
      | (c, u) # ys \<Rightarrow> join_child mi p (takeWhile (\<lambda>x. above (snd x) k) cs) u ys (tree_insert ml mi k v nx c))"
  by pat_completeness auto
termination
proof (relation "measure (\<lambda>(ml, mi, k, v, nx, t). size t)", simp, clarsimp)
  fix cs :: "(tree \<times> bytes option) list" and k c u ys
  assume "dropWhile (\<lambda>x. above (snd x) k) cs = (c, u) # ys"
  then have "(c, u) \<in> set cs" by (metis in_set_conv_decomp takeWhile_dropWhile_id)
  then have "size c \<le> size_list (size_prod size (\<lambda>_. 0)) cs" by (rule size_list_estimation') simp
  then show "size c < Suc (size_list (size_prod size (\<lambda>_. 0)) cs)" by simp
qed

section \<open>Order is kept\<close>

definition well_split :: "bytes set \<Rightarrow> split_result \<Rightarrow> bool" where
  "well_split M r =
     (case r of (t, sp, nx) \<Rightarrow>
        ordered t \<and> marks t \<subseteq> M \<and>
        (case sp of None \<Rightarrow> True
         | Some (s, d) \<Rightarrow> ordered d \<and> s \<in> M \<and> marks d \<subseteq> M \<and> (\<forall>m\<in>marks t. m < s) \<and> (\<forall>m\<in>marks d. s \<le> m) \<and> marks t \<noteq> {}))"

definition result_trees :: "split_result \<Rightarrow> tree list" where
  "result_trees r = fst r # (case fst (snd r) of None \<Rightarrow> [] | Some (s, d) \<Rightarrow> [d])"

definition result_entries :: "split_result \<Rightarrow> entries" where
  "result_entries r = concat (map entries_of (result_trees r))"

lemma result_simps [simp]:
  "result_trees (t, None, nx) = [t]" "result_trees (t, Some (s, d), nx) = [t, d]"
  by (simp_all add: result_trees_def)

lemma split_leaf_ok:
  assumes "ascending es" "0 < ml"
  shows "well_split (fst ` set es) (split_leaf ml p es nx)" "result_entries (split_leaf ml p es nx) = es"
proof -
  show "result_entries (split_leaf ml p es nx) = es" by (simp add: split_leaf_def result_entries_def Let_def)
  show "well_split (fst ` set es) (split_leaf ml p es nx)"
  proof (cases "length es \<le> ml")
    case True
    then show ?thesis using assms(1) by (auto simp: split_leaf_def well_split_def)
  next
    case False
    let ?mid = "length es div 2"
    have mid: "0 < ?mid" "?mid < length es" using False assms(2) by auto
    have es: "es = take ?mid es @ es ! ?mid # drop (Suc ?mid) es" using mid by (simp add: id_take_nth_drop)
    have d: "drop ?mid es = es ! ?mid # drop (Suc ?mid) es" using mid by (simp add: Cons_nth_drop_Suc)
    have "ascending (take ?mid es @ drop ?mid es)" using assms(1) by simp
    then have asc: "ascending (take ?mid es)" "ascending (drop ?mid es)"
      "\<forall>a\<in>set (take ?mid es). \<forall>b\<in>set (drop ?mid es). fst a < fst b"
      unfolding ascending_append by blast+
    have "\<forall>b\<in>set (drop ?mid es). fst (es ! ?mid) \<le> fst b" using asc(2) unfolding d by (auto simp: less_imp_le)
    moreover have "es ! ?mid \<in> set es" "es ! ?mid \<in> set (drop ?mid es)" using mid d by simp_all
    moreover have "take ?mid es \<noteq> []" using mid by auto
    ultimately show ?thesis using False asc
      by (auto simp: split_leaf_def well_split_def Let_def dest: in_set_takeD in_set_dropD)
  qed
qed

lemma split_at_nth: "i < length cs \<Longrightarrow> cs = take i cs @ (fst (cs ! i), snd (cs ! i)) # drop (Suc i) cs"
  by (simp add: id_take_nth_drop [symmetric])

lemma split_node_ok:
  assumes ord: "children_ordered cs" and mi: "0 < mi"
  shows "well_split (node_marks cs) (split_node mi p cs nx)"
    and "result_entries (split_node mi p cs nx) = entries_of (Nd p cs)"
proof -
  let ?mid = "(length cs - 1) div 2"
  define A where "A = take ?mid cs"
  define m where "m = fst (cs ! ?mid)"
  define u where "u = snd (cs ! ?mid)"
  define B where "B = drop (Suc ?mid) cs"
  have cs: "cs = A @ (m, u) # B" if "\<not> length cs \<le> Suc mi"
    using split_at_nth [of ?mid cs] that unfolding A_def m_def u_def B_def by simp
  show "result_entries (split_node mi p cs nx) = entries_of (Nd p cs)"
  proof (cases "length cs \<le> Suc mi")
    case False
    then have "result_entries (split_node mi p cs nx) = concat (map (\<lambda>x. entries_of (fst x)) (A @ (m, u) # B))"
      by (simp add: split_node_def result_entries_def Let_def entries_Nd A_def B_def m_def)
    then show ?thesis using cs [OF False] by (simp add: entries_Nd)
  qed (simp add: split_node_def result_entries_def)
  show "well_split (node_marks cs) (split_node mi p cs nx)"
  proof (cases "length cs \<le> Suc mi")
    case True
    then show ?thesis using ord by (simp add: split_node_def well_split_def ordered_Nd marks_Nd)
  next
    case False
    then have ne: "A \<noteq> []" "B \<noteq> []" using mi by (auto simp: A_def B_def)
    note o = ord [unfolded cs [OF False] children_ordered_def]
    have "before (m, u) (hd B)" using o ne by (simp add: sorted_wrt_append)
    then obtain s where u: "u = Some s" by (auto simp: before_def)
    have ordA: "children_ordered (A @ [(m, None)])"
      using o by (auto simp: children_ordered_def sorted_wrt_append before_def)
    have ordB: "children_ordered B" using o ne by (auto simp: children_ordered_def sorted_wrt_append)
    have left: "\<forall>k\<in>node_marks (A @ [(m, None)]). k < s"
    proof
      fix k assume "k \<in> node_marks (A @ [(m, None)])"
      then consider x where "x \<in> set A" "k \<in> marks (fst x) \<or> snd x = Some k" | "k \<in> marks m"
        by (auto simp: node_marks_def)
      then show "k < s"
      proof cases
        case 1
        then have "before x (m, Some s)" "\<forall>j\<in>marks (fst x). below j (snd x)" using o u by (auto simp: sorted_wrt_append)
        then show ?thesis using 1(2) by (auto simp: before_def intro: order_less_trans)
      next
        case 2
        then show ?thesis using o u by auto
      qed
    qed
    have right: "\<forall>k\<in>node_marks B. s \<le> k"
      using o u by (auto simp: node_marks_def sorted_wrt_append before_def less_imp_le)
    have sub: "node_marks (A @ [(m, None)]) \<subseteq> node_marks cs" "node_marks B \<subseteq> node_marks cs" "s \<in> node_marks cs"
      unfolding cs [OF False] u by (auto simp: node_marks_def)
    obtain a where a: "a \<in> set A" using ne(1) hd_in_set by blast
    then have "before a (m, u)" using o by (simp add: sorted_wrt_append)
    then have "node_marks (A @ [(m, None)]) \<noteq> {}" using a by (fastforce simp: node_marks_def before_def)
    moreover have "split_node mi p cs nx = (Nd p (A @ [(m, None)]), Some (s, Nd nx B), Suc nx)"
      using False u unfolding A_def B_def m_def u_def by (simp add: split_node_def Let_def)
    ultimately show ?thesis using ordA ordB left right sub by (simp add: well_split_def)
  qed
qed

lemma routed_children:
  assumes r: "routed k cs xs c u ys" and ord: "children_ordered cs"
    and c': "ordered c'" "marks c' \<subseteq> insert k (marks c)"
  shows "children_ordered (xs @ (c', u) # ys)"
proof -
  have cs: "cs = xs @ (c, u) # ys" and k: "\<forall>x\<in>set xs. above (snd x) k" "below k u" using r by (auto simp: routed_def)
  note o = ord [unfolded cs children_ordered_def]
  have "before x (c', u)" if "x \<in> set xs" for x
  proof -
    have "before x (c, u)" using o that by (simp add: sorted_wrt_append)
    then show ?thesis using c'(2) k(1) that by (fastforce simp: before_def)
  qed
  moreover have "\<forall>j\<in>marks c'. below j u" using o c'(2) k(2) by auto
  ultimately show ?thesis using o c'(1)
    by (auto simp: children_ordered_def sorted_wrt_append before_def split: if_splits)
qed

lemma routed_split_children:
  assumes r: "routed k cs xs c u ys" and ord: "children_ordered cs"
    and w: "well_split (insert k (marks c)) (c', Some (s, d), nx)"
  shows "children_ordered (xs @ (c', Some s) # (d, u) # ys)"
proof -
  have cs: "cs = xs @ (c, u) # ys" and k: "\<forall>x\<in>set xs. above (snd x) k" "below k u" using r by (auto simp: routed_def)
  have w': "ordered c'" "marks c' \<subseteq> insert k (marks c)" "ordered d" "s \<in> insert k (marks c)" "marks d \<subseteq> insert k (marks c)"
    "\<forall>m\<in>marks c'. m < s" "\<forall>m\<in>marks d. s \<le> m" "marks c' \<noteq> {}"
    using w by (auto simp: well_split_def)
  note o = ord [unfolded cs children_ordered_def]
  have whole: "children_ordered (xs @ (d, u) # ys)"
    using routed_children [OF r ord w'(3,5)] .
  have s_u: "below s u" using w'(4) k(2) o by auto
  have xs_s: "before x (c', Some s)" if x: "x \<in> set xs" for x
  proof -
    obtain r where xr: "snd x = Some r" "\<forall>j\<in>marks c. r \<le> j"
      using o x by (auto simp: sorted_wrt_append before_def)
    have "\<forall>j\<in>insert k (marks c). r \<le> j" using xr k(1) x by auto
    then have "\<forall>j\<in>marks c'. r \<le> j" using w'(2) by blast
    moreover obtain j where "j \<in> marks c'" using w'(8) by blast
    ultimately show ?thesis using xr(1) w'(6) by (auto simp: before_def intro: order_le_less_trans)
  qed
  have s_ys: "before (c', Some s) y" if y: "y \<in> set ys" for y
  proof -
    obtain r where "u = Some r" "\<forall>j\<in>marks (fst y). r \<le> j" "\<forall>j\<in>set_option (snd y). r < j"
      using o y by (auto simp: sorted_wrt_append before_def)
    then show ?thesis using s_u by (auto simp: before_def intro: order_less_le_trans order_less_trans less_imp_le)
  qed
  have "before (c', Some s) (d, u)" using w'(7) s_u by (cases u) (auto simp: before_def)
  with whole w'(1,6) xs_s s_ys show ?thesis
    by (auto simp: children_ordered_def sorted_wrt_append)
qed

lemma node_marks_append: "node_marks (xs @ ys) = node_marks xs \<union> node_marks ys"
  and node_marks_Cons: "node_marks ((c, u) # ys) = marks c \<union> set_option u \<union> node_marks ys"
  by (auto simp: node_marks_def)

lemma well_split_mono: "well_split M r \<Longrightarrow> M \<subseteq> N \<Longrightarrow> well_split N r"
  by (auto simp: well_split_def split: prod.splits option.splits)

lemma join_child_ok:
  assumes r: "routed k cs xs c u ys" and ord: "children_ordered cs" and mi: "0 < mi"
    and w: "well_split (insert k (marks c)) res" and e: "result_entries res = upsert k v (entries_of c)"
  shows "well_split (insert k (node_marks cs)) (join_child mi p xs u ys res) \<and>
    result_entries (join_child mi p xs u ys res) = upsert k v (entries_of (Nd p cs))"
proof -
  obtain c' sp nx where res: "res = (c', sp, nx)" using prod_cases3 by blast
  have cs: "cs = xs @ (c, u) # ys" using r by (simp add: routed_def)
  note up = routed_upsert [OF r ord, of v p]
  show ?thesis
  proof (cases sp)
    case None
    have c': "ordered c'" "marks c' \<subseteq> insert k (marks c)" using w by (auto simp: res None well_split_def)
    then have "children_ordered (xs @ (c', u) # ys)" by (rule routed_children [OF r ord])
    moreover have "node_marks (xs @ (c', u) # ys) \<subseteq> insert k (node_marks cs)"
      using c'(2) by (auto simp: cs node_marks_append node_marks_Cons)
    ultimately show ?thesis using e up
      by (simp add: join_child_def res None well_split_def result_entries_def)
  next
    case (Some sd)
    obtain s d where sd: "sd = (s, d)" by force
    let ?cs = "xs @ (c', Some s) # (d, u) # ys"
    have ord': "children_ordered ?cs" by (rule routed_split_children [OF r ord w [unfolded res Some sd]])
    have "node_marks ?cs \<subseteq> insert k (node_marks cs)"
      using w by (auto simp: res Some sd well_split_def cs node_marks_append node_marks_Cons)
    then have "well_split (insert k (node_marks cs)) (split_node mi p ?cs nx)"
      using split_node_ok(1) [OF ord' mi] well_split_mono by blast
    moreover have "result_entries (split_node mi p ?cs nx) = upsert k v (entries_of (Nd p cs))"
      using split_node_ok(2) [OF ord' mi, of p nx] up e by (simp add: res Some sd result_entries_def)
    ultimately show ?thesis by (simp add: join_child_def res Some sd)
  qed
qed

lemma tree_insert_ok:
  assumes "ordered t" "0 < ml" "0 < mi"
  shows "well_split (insert k (marks t)) (tree_insert ml mi k v nx t) \<and>
    result_entries (tree_insert ml mi k v nx t) = upsert k v (entries_of t)"
  using assms
proof (induction ml mi k v nx t rule: tree_insert.induct)
  case (1 ml mi k v nx p es)
  then have asc: "ascending es" by simp
  then show ?case
    using split_leaf_ok [OF ascending_upsert [OF asc, of k v] 1(2), of p nx] keys_upsert [OF asc, of k v] by simp
next
  case (2 ml mi k v nx p cs)
  have ord: "children_ordered cs" using 2(2) by simp
  then obtain c u ys where r: "routed k cs (takeWhile (\<lambda>x. above (snd x) k) cs) c u ys"
      and d: "dropWhile (\<lambda>x. above (snd x) k) cs = (c, u) # ys"
    using routed_exists [of cs k] unfolding children_ordered_def by blast
  have "(c, u) \<in> set cs" using r by (metis in_set_conv_decomp routed_def)
  then have "ordered c" using ord by (auto simp: children_ordered_def)
  with 2(1) [OF d refl] 2(3,4) show ?case using join_child_ok [OF r ord 2(4)] d by simp
qed

section \<open>Capacities are kept\<close>

lemma sized_Nd [simp]:
  "sized ks vs ml mi (Nd p cs) \<longleftrightarrow>
     (\<forall>x\<in>set cs. sized ks vs ml mi (fst x) \<and> (\<forall>s\<in>set_option (snd x). length s = ks)) \<and> length cs \<le> Suc mi"
  by (simp add: case_prod_unfold)

declare sized.simps(2) [simp del]

lemma sized_marks: "sized ks vs ml mi t \<Longrightarrow> m \<in> marks t \<Longrightarrow> length m = ks"
proof (induction t)
  case (Nd p cs)
  then show ?case by (fastforce simp: node_marks_def)
qed auto

lemma set_upsert: "set (upsert k v es) \<subseteq> insert (k, v) (set es)"
  by (auto simp: upsert_def dest: set_takeWhileD set_dropWhileD)

lemma split_leaf_sized:
  assumes "\<forall>(k, v)\<in>set es. length k = ks \<and> length v = vs" "length es \<le> Suc ml" "0 < ml"
  shows "\<forall>d\<in>set (result_trees (split_leaf ml p es nx)). sized ks vs ml mi d"
  using assms by (auto simp: split_leaf_def Let_def dest: in_set_takeD in_set_dropD)

lemma split_node_sized:
  assumes "\<forall>x\<in>set cs. sized ks vs ml mi (fst x) \<and> (\<forall>s\<in>set_option (snd x). length s = ks)" "length cs \<le> Suc (Suc mi)"
  shows "\<forall>d\<in>set (result_trees (split_node mi p cs nx)). sized ks vs ml mi d"
proof (cases "length cs \<le> Suc mi")
  case False
  let ?mid = "(length cs - 1) div 2"
  have "cs ! ?mid \<in> set cs" using False by (intro nth_mem) auto
  then have "sized ks vs ml mi (fst (cs ! ?mid))" using assms(1) by blast
  moreover have "Suc ?mid \<le> Suc mi" "length cs - Suc ?mid \<le> Suc mi" using assms(2) by auto
  ultimately show ?thesis using False assms(1)
    by (auto simp: split_node_def Let_def dest: in_set_takeD in_set_dropD)
qed (use assms in \<open>simp add: split_node_def\<close>)

lemma tree_insert_sized:
  assumes "ordered t" "0 < ml" "0 < mi" "length k = ks" "length v = vs" "sized ks vs ml mi t"
  shows "\<forall>d\<in>set (result_trees (tree_insert ml mi k v nx t)). sized ks vs ml mi d"
  using assms
proof (induction ml mi k v nx t rule: tree_insert.induct)
  case (1 ml mi k v nx p es)
  have "\<forall>(k', v')\<in>set (upsert k v es). length k' = ks \<and> length v' = vs" using 1 set_upsert [of k v es] by auto
  moreover have "length (upsert k v es) \<le> Suc ml" using 1 length_upsert [of es k v] by simp
  ultimately show ?case using 1(2) split_leaf_sized by simp
next
  case (2 ml mi k v nx p cs)
  have ord: "children_ordered cs" using 2(2) by simp
  then obtain c u ys where r: "routed k cs (takeWhile (\<lambda>x. above (snd x) k) cs) c u ys"
      and d: "dropWhile (\<lambda>x. above (snd x) k) cs = (c, u) # ys"
    using routed_exists [of cs k] unfolding children_ordered_def by blast
  define xs where "xs = takeWhile (\<lambda>x. above (snd x) k) cs"
  have cs: "cs = xs @ (c, u) # ys" using r by (simp add: routed_def xs_def)
  have c: "ordered c" "sized ks vs ml mi c" "\<forall>s\<in>set_option u. length s = ks"
    using ord 2(7) unfolding cs by (auto simp: children_ordered_def)
  obtain c' sp nx' where res: "tree_insert ml mi k v nx c = (c', sp, nx')" using prod_cases3 by blast
  have IH: "\<forall>d\<in>set (result_trees (c', sp, nx')). sized ks vs ml mi d" using 2(1) [OF d refl c(1)] 2(3-6) c(2) res by simp
  have step: "tree_insert ml mi k v nx (Nd p cs) = join_child mi p xs u ys (c', sp, nx')" using d res by (simp add: xs_def)
  show ?case
  proof (cases sp)
    case None
    then show ?thesis unfolding step using IH 2(7) c(3) by (auto simp: join_child_def cs)
  next
    case (Some sd)
    obtain s e where sd: "sd = (s, e)" by force
    have "s \<in> insert k (marks c)" using tree_insert_ok [OF c(1) 2(3,4), of k v nx] by (simp add: res Some sd well_split_def)
    then have s: "length s = ks" using sized_marks [OF c(2)] 2(5) by auto
    let ?cs = "xs @ (c', Some s) # (e, u) # ys"
    have "\<forall>x\<in>set ?cs. sized ks vs ml mi (fst x) \<and> (\<forall>s\<in>set_option (snd x). length s = ks)"
      using IH 2(7) c(3) s by (simp add: cs Some sd)
    moreover have "length ?cs \<le> Suc (Suc mi)" using 2(7) by (simp add: cs)
    ultimately have "\<forall>d\<in>set (result_trees (split_node mi p ?cs nx')). sized ks vs ml mi d" by (rule split_node_sized)
    then show ?thesis unfolding step by (simp add: join_child_def Some sd)
  qed
qed

section \<open>Pages are not shared\<close>

definition tree_pages :: "tree \<Rightarrow> nat multiset" where
  "tree_pages t = mset (pages_of t)"

abbreviation pages_in :: "tree list \<Rightarrow> nat multiset" where
  "pages_in ts \<equiv> sum_list (map tree_pages ts)"

lemma leaves_Nd [simp]: "leaves (Nd p cs) = concat (map (\<lambda>x. leaves (fst x)) cs)"
  and inner_pages_Nd [simp]: "inner_pages (Nd p cs) = p # concat (map (\<lambda>x. inner_pages (fst x)) cs)"
  by (simp_all add: case_prod_unfold)

declare leaves.simps(2) [simp del] inner_pages.simps(2) [simp del]

lemma tree_pages_Lf [simp]: "tree_pages (Lf p es) = {#p#}"
  by (simp add: tree_pages_def pages_of_def)

lemma tree_pages_Nd [simp]: "tree_pages (Nd p cs) = add_mset p (pages_in (map fst cs))"
proof -
  have "mset (map fst (concat (map (\<lambda>x. leaves (fst x)) cs))) + mset (concat (map (\<lambda>x. inner_pages (fst x)) cs)) =
      pages_in (map fst cs)"
    by (induction cs) (simp_all add: tree_pages_def pages_of_def)
  then show ?thesis by (simp add: tree_pages_def pages_of_def)
qed

text \<open>The result of an insertion has the pages of the tree and those numbered from \<open>nx\<close>.\<close>

definition takes_pages :: "nat multiset \<Rightarrow> nat \<Rightarrow> split_result \<Rightarrow> bool" where
  "takes_pages P nx r \<longleftrightarrow>
     nx \<le> snd (snd r) \<and> pages_in (result_trees r) = P + mset [nx..<snd (snd r)]"

lemma split_leaf_pages: "takes_pages {#p#} nx (split_leaf ml p es nx)"
  by (simp add: takes_pages_def split_leaf_def Let_def)

lemma split_node_pages: "takes_pages (tree_pages (Nd p cs)) nx (split_node mi p cs nx)"
proof (cases "length cs \<le> Suc mi")
  case False
  let ?mid = "(length cs - 1) div 2"
  have "cs = take ?mid cs @ (fst (cs ! ?mid), snd (cs ! ?mid)) # drop (Suc ?mid) cs"
    using False by (intro split_at_nth) auto
  then have "pages_in (map fst cs) = pages_in (map fst (take ?mid cs @ (fst (cs ! ?mid), snd (cs ! ?mid)) # drop (Suc ?mid) cs))"
    by (rule arg_cong)
  with False show ?thesis by (simp add: takes_pages_def split_node_def Let_def)
qed (simp add: takes_pages_def split_node_def)

lemma tree_insert_pages: "takes_pages (tree_pages t) nx (tree_insert ml mi k v nx t)"
proof (induction ml mi k v nx t rule: tree_insert.induct)
  case (1 ml mi k v nx p es)
  then show ?case using split_leaf_pages by simp
next
  case (2 ml mi k v nx p cs)
  show ?case
  proof (cases "dropWhile (\<lambda>x. above (snd x) k) cs")
    case Nil
    show ?thesis unfolding tree_insert.simps Nil by (simp add: takes_pages_def)
  next
    case (Cons x ys)
    obtain c u where x: "x = (c, u)" by force
    define xs where "xs = takeWhile (\<lambda>x. above (snd x) k) cs"
    have cs: "cs = xs @ (c, u) # ys" using Cons x unfolding xs_def by (metis takeWhile_dropWhile_id)
    obtain c' sp nx' where res: "tree_insert ml mi k v nx c = (c', sp, nx')" using prod_cases3 by blast
    have step: "tree_insert ml mi k v nx (Nd p cs) = join_child mi p xs u ys (c', sp, nx')" using Cons x res by (simp add: xs_def)
    have IH: "takes_pages (tree_pages c) nx (c', sp, nx')" using 2 [OF Cons x [symmetric]] res by simp
    show ?thesis
    proof (cases sp)
      case None
      then show ?thesis unfolding step using IH by (simp add: join_child_def takes_pages_def cs)
    next
      case (Some sd)
      obtain s d where sd: "sd = (s, d)" by force
      let ?cs = "xs @ (c', Some s) # (d, u) # ys"
      let ?r = "split_node mi p ?cs nx'"
      let ?m = "snd (snd ?r)"
      have le: "nx' \<le> ?m" and r: "pages_in (result_trees ?r) = tree_pages (Nd p ?cs) + mset [nx'..<?m]"
        using split_node_pages [of p ?cs nx' mi] unfolding takes_pages_def by blast+
      have le': "nx \<le> nx'" and cd: "tree_pages c' + tree_pages d = tree_pages c + mset [nx..<nx']"
        using IH by (simp_all add: takes_pages_def Some sd)
      have "tree_pages (Nd p ?cs) = add_mset p (pages_in (map fst xs) + (tree_pages c' + tree_pages d) + pages_in (map fst ys))"
        by (simp add: add.assoc)
      also have "\<dots> = tree_pages (Nd p cs) + mset [nx..<nx']"
        unfolding cd by (simp add: cs ac_simps)
      finally have "pages_in (result_trees ?r) = tree_pages (Nd p cs) + (mset [nx..<nx'] + mset [nx'..<?m])"
        unfolding r by (simp only: add.assoc)
      also have "mset [nx..<nx'] + mset [nx'..<?m] = mset [nx..<?m]"
        using le le' by (metis le_add_diff_inverse mset_append upt_add_eq_append)
      finally have "takes_pages (tree_pages (Nd p cs)) nx ?r"
        using le le' unfolding takes_pages_def by simp
      then show ?thesis unfolding step by (simp add: join_child_def Some sd)
    qed
  qed
qed

end
