(* ===== verification/Btree_Write.thy ===== *)
theory Btree_Write
  imports Btree_Insert
begin

text \<open>
  Insertion on the pages of the file: what reading and writing nodes does to the map of pages,
  and that \<open>insert_into\<close> leaves on the pages what the insertion on the abstract tree gives.
\<close>

section \<open>Reading and writing through the page map\<close>

lemma pages_Leaf:
  "pages b i = Some (LeafPage n) \<Longrightarrow>
     read_node b (word_of_nat i) = Inr (LeafPage n) \<and> read_leaf b (word_of_nat i) = Inr n \<and>
     page_type (read_page (bt_store b) (word_of_nat i)) = Inr LeafKind"
  by (auto simp: pages_def read_node_def read_leaf_def Let_def split: if_splits sum.splits page_kind.splits)
    (metis page_kind.exhaust)+

lemma pages_Internal:
  "pages b i = Some (InternalPage n) \<Longrightarrow>
     read_node b (word_of_nat i) = Inr (InternalPage n) \<and> read_internal b (word_of_nat i) = Inr n \<and>
     page_type (read_page (bt_store b) (word_of_nat i)) = Inr InternalKind"
  by (auto simp: pages_def read_node_def read_internal_def Let_def split: if_splits sum.splits page_kind.splits)
    (metis page_kind.exhaust)+

lemma pages_cong:
  "bt_store b' = bt_store b \<Longrightarrow> bt_page_size b' = bt_page_size b \<Longrightarrow> bt_key_size b' = bt_key_size b \<Longrightarrow>
     bt_value_size b' = bt_value_size b \<Longrightarrow> pages b' = pages b"
  by (simp add: pages_def read_node_def fun_eq_iff)

lemma pages_upd [simp]:
  "pages (b\<lparr>next_page_id := x\<rparr>) = pages b" "pages (b\<lparr>total_count := x\<rparr>) = pages b" "pages (b\<lparr>root_page_id := x\<rparr>) = pages b"
  by (rule pages_cong; simp)+

text \<open>\<open>stored b s V\<close>: with the store \<open>s\<close> the tree has the pages \<open>V\<close>.\<close>

definition stored :: "btree \<Rightarrow> page_store \<Rightarrow> page_map \<Rightarrow> bool" where
  "stored b s V \<longleftrightarrow> ps_page_size s = bt_page_size b \<and> pages (b\<lparr>bt_store := s\<rparr>) = V"

lemma pages_store [simp]: "pages (b\<lparr>next_page_id := x, bt_store := s\<rparr>) = pages (b\<lparr>bt_store := s\<rparr>)"
  by (rule pages_cong) simp_all

lemma stored_upd [simp]:
  "stored (b\<lparr>next_page_id := x\<rparr>) s V = stored b s V" "stored (b\<lparr>bt_store := s'\<rparr>) s V = stored b s V"
  "stored (b\<lparr>next_page_id := x, bt_store := s'\<rparr>) s V = stored b s V"
  by (simp_all add: stored_def)

lemma stored_pages: "stored b s V \<Longrightarrow> pages (b\<lparr>bt_store := s\<rparr>) = V"
  by (simp add: stored_def)

lemma fits_page_size:
  assumes "fits b"
  shows "4096 \<le> unat (bt_page_size b)" and "ps_page_size (bt_store b) = bt_page_size b"
proof -
  have "\<not> bt_page_size b < 4096" using assms by (auto simp: fits_def validate_page_size_def split: if_splits)
  then have "(4096 :: u32) \<le> bt_page_size b" by simp
  then have "unat (4096 :: u32) \<le> unat (bt_page_size b)" unfolding word_le_nat_alt .
  then show "4096 \<le> unat (bt_page_size b)" by simp
  show "ps_page_size (bt_store b) = bt_page_size b" using assms by (simp add: fits_def)
qed

lemma fits_stored: "fits b \<Longrightarrow> stored b s V \<Longrightarrow> fits (b\<lparr>bt_store := s, next_page_id := x\<rparr>)"
  by (simp add: fits_def stored_def)

lemma write_page_pages:
  assumes "fits b" "addressable (bt_page_size b) i" "length bs = unat (bt_page_size b)"
    and node: "(case page_type bs of Inl _ \<Rightarrow> pg = None
        | Inr LeafKind \<Rightarrow> \<exists>n. decode_leaf bs (bt_key_size b) (bt_value_size b) = Inr n \<and> pg = Some (LeafPage n)
        | Inr InternalKind \<Rightarrow> \<exists>n. decode_internal bs (bt_key_size b) = Inr n \<and> pg = Some (InternalPage n))"
  shows "\<exists>s. on_store b (write_page (bt_store b) (word_of_nat i) bs) = Inr (b\<lparr>bt_store := s\<rparr>) \<and> stored b s ((pages b)(i := pg))"
proof -
  note sz = fits_page_size [OF assms(1)]
  obtain s where s: "write_page (bt_store b) (word_of_nat i) bs = Inr s" "ps_page_size s = bt_page_size b"
    using write_page_ok [of bs "bt_store b"] assms(3) sz(2) by auto
  have "pages (b\<lparr>bt_store := s\<rparr>) j = ((pages b)(i := pg)) j" for j
  proof (cases "addressable (bt_page_size b) j")
    case True
    then have "read_page s (word_of_nat j) = (if j = i then bs else read_page (bt_store b) (word_of_nat j))"
      using read_write_page [OF s(1)] assms(2) sz by simp
    then show ?thesis using True node
      by (auto simp: pages_def read_node_def Let_def split: sum.splits page_kind.splits)
  next
    case False
    then show ?thesis using assms(2) by (auto simp: pages_def)
  qed
  then have "pages (b\<lparr>bt_store := s\<rparr>) = (pages b)(i := pg)" by (rule ext)
  then show ?thesis using s by (intro exI [of _ s]) (simp add: on_store_def stored_def)
qed

lemma write_leaf_pages:
  assumes "fits b" "addressable (bt_page_size b) i" "leaf_fits (bt_page_size b) (bt_key_size b) (bt_value_size b) n"
  shows "\<exists>s. write_leaf b (word_of_nat i) n = Inr (b\<lparr>bt_store := s\<rparr>) \<and> stored b s ((pages b)(i \<mapsto> LeafPage n))"
  using encode_leaf_fits [OF assms(3)] write_page_pages [OF assms(1,2), of _ "Some (LeafPage n)"]
  by (auto simp: write_leaf_def)

lemma write_internal_pages:
  assumes "fits b" "addressable (bt_page_size b) i" "internal_fits (bt_page_size b) (bt_key_size b) n"
  shows "\<exists>s. write_internal b (word_of_nat i) n = Inr (b\<lparr>bt_store := s\<rparr>) \<and> stored b s ((pages b)(i \<mapsto> InternalPage n))"
  using encode_internal_fits [OF assms(3)] write_page_pages [OF assms(1,2), of _ "Some (InternalPage n)"]
  by (auto simp: write_internal_def)

text \<open>Within the capacities a node fits its page.\<close>

lemma capacity_room: "capacity ps r = Inr m \<Longrightarrow> n \<le> m \<Longrightarrow> n * r \<le> unat ps - NODE_HEADER_LEN \<and> 0 < r"
proof -
  assume "capacity ps r = Inr m" and n: "n \<le> m"
  then have r: "r \<noteq> 0" and m: "m = (unat ps - NODE_HEADER_LEN) div r" by (auto simp: capacity_def split: if_splits)
  have "n * r \<le> m * r" using n by simp
  also have "\<dots> \<le> unat ps - NODE_HEADER_LEN" unfolding m by (rule div_times_less_eq_dividend)
  finally show ?thesis using r by simp
qed

lemma leaf_fits_sized:
  assumes "fits b" "\<forall>(k, v)\<in>set es. length k = unat (bt_key_size b) \<and> length v = unat (bt_value_size b)" "length es \<le> bt_max_leaf b"
  shows "leaf_fits (bt_page_size b) (bt_key_size b) (bt_value_size b) \<lparr>ln_prev = p, ln_next = q, ln_entries = es\<rparr>"
proof -
  let ?r = "unat (bt_key_size b) + unat (bt_value_size b)"
  have r: "length es * ?r \<le> unat (bt_page_size b) - NODE_HEADER_LEN" "0 < ?r"
    using capacity_room [of "bt_page_size b" ?r "bt_max_leaf b" "length es"] assms(1,3)
    by (simp_all add: fits_def max_leaf_entries_def)
  have "Suc 0 \<le> ?r" using r(2) by linarith
  then have "length es * Suc 0 \<le> length es * ?r" by (rule mult_le_mono2)
  moreover have "unat (bt_page_size b) < 2 ^ 32" using unsigned_less [of "bt_page_size b", where ?'a = nat] by simp
  ultimately have "length es < 2 ^ 32" using r(1) unfolding mult_Suc_right mult_0_right by linarith
  then show ?thesis using assms(2) r(1) fits_page_size(1) [OF assms(1)]
    by (auto simp: leaf_fits_def NODE_HEADER_LEN_def)
qed

lemma internal_fits_sized:
  assumes "fits b" "\<forall>(k, _)\<in>set es. length k = unat (bt_key_size b)" "length es \<le> bt_max_internal b"
  shows "internal_fits (bt_page_size b) (bt_key_size b) \<lparr>in_entries = es, rightmost_child = c, rightmost_count = n\<rparr>"
  using assms fits_page_size(1) [OF assms(1)] capacity_room [of "bt_page_size b" "unat (bt_key_size b) + 16" "bt_max_internal b" "length es"]
  by (auto simp: internal_fits_def fits_def max_internal_entries_def NODE_HEADER_LEN_def)

lemma node_of_fits:
  assumes "fits b" "tree_sized b (Nd p cs)" "children_ordered cs"
  shows "internal_fits (bt_page_size b) (bt_key_size b) (node_of cs)"
proof -
  have "\<forall>(k, _)\<in>set (map child_entry (butlast cs)). length k = unat (bt_key_size b)"
  proof -
    have "length (the (snd x)) = unat (bt_key_size b)" if "x \<in> set (butlast cs)" for x
    proof -
      have "snd x \<noteq> None" using butlast_separators [of cs "fst x" "snd x"] assms(3) that by (simp add: children_ordered_def)
      moreover have "x \<in> set cs" using that by (rule in_set_butlastD)
      ultimately show ?thesis using assms(2) by fastforce
    qed
    then show ?thesis by (auto simp: child_entry_def)
  qed
  moreover have "length (map child_entry (butlast cs)) \<le> bt_max_internal b" using assms(2) by auto
  ultimately show ?thesis unfolding node_of_def by (rule internal_fits_sized [OF assms(1)])
qed

section \<open>Frames\<close>

lemma inner_Nd [simp]: "inner V (Nd p cs) \<longleftrightarrow> V p = Some (InternalPage (node_of cs)) \<and> (\<forall>x\<in>set cs. inner V (fst x))"
  by (auto simp: case_prod_unfold)

declare inner.simps(2) [simp del]

lemma inner_cong: "(\<And>p. p \<in> set (inner_pages t) \<Longrightarrow> W p = V p) \<Longrightarrow> inner V t \<Longrightarrow> inner W t"
proof (induction t)
  case (Nd p cs)
  then show ?case by (auto simp: image_iff) (metis Nd.IH fsts.intros fst_conv)
qed simp

lemma linked_cong: "(\<And>p. p \<in> fst ` set ls \<Longrightarrow> W p = V p) \<Longrightarrow> linked W m ls n \<longleftrightarrow> linked V m ls n"
  by (induction V m ls n rule: linked.induct) auto

lemma linked_upd [simp]: "i \<notin> fst ` set ls \<Longrightarrow> linked (V(i := x)) m ls n \<longleftrightarrow> linked V m ls n"
  by (rule linked_cong) auto

lemma inner_upd [simp]: "i \<notin> set (inner_pages t) \<Longrightarrow> inner (V(i := x)) t \<longleftrightarrow> inner V t"
  by (rule iffI; erule inner_cong [rotated]; auto)

lemma first_page_append: "first_page (xs @ ys) n = first_page xs (first_page ys n)"
  by (induction xs n rule: first_page.induct) auto

lemma linked_append:
  "linked V m (xs @ ys) n \<longleftrightarrow> linked V m xs (first_page ys n) \<and> linked V (last_page m xs) ys n"
  by (induction V m xs n rule: linked.induct) (auto simp: first_page_append)

section \<open>The node of a page and the children it stands for\<close>

lemma routed_last:
  assumes "routed k cs xs c u ys" "children_ordered cs"
  shows "ys = [] \<longleftrightarrow> u = None"
proof
  assume "ys = []"
  then show "u = None" using assms by (simp add: routed_def children_ordered_def)
next
  assume "u = None"
  then show "ys = []" using assms by (cases ys) (auto simp: routed_def children_ordered_def sorted_wrt_append before_def)
qed

lemma position_append:
  "\<forall>x\<in>set xs. \<not> P x \<Longrightarrow> position P (xs @ ys) = map_option (\<lambda>i. length xs + i) (position P ys)"
  by (induction xs; cases "position P ys"; auto)

definition idx_of :: "'a list \<Rightarrow> 'a list \<Rightarrow> nat option" where
  "idx_of xs ys = (if ys = [] then None else Some (length xs))"

lemma xs_not_below:
  assumes "routed k cs xs c u ys"
  shows "\<forall>e\<in>set (map child_entry xs). \<not> (case e of (s, _) \<Rightarrow> k < s)"
proof
  fix e assume "e \<in> set (map child_entry xs)"
  then obtain x where x: "x \<in> set xs" "e = child_entry x" by auto
  then have "above (snd x) k" using assms by (simp add: routed_def)
  then show "\<not> (case e of (s, _) \<Rightarrow> k < s)" using x(2) by (cases "snd x") (auto simp: child_entry_def)
qed

lemma node_of_children:
  assumes "routed k cs xs c u ys" "children_ordered cs"
  shows "child_index k (node_of cs) = idx_of xs ys"
    and "child_at (node_of cs) (idx_of xs ys) = word_of_nat (page_of c)"
proof -
  have cs: "cs = xs @ (c, u) # ys" and u: "below k u" using assms(1) by (auto simp: routed_def)
  note none = xs_not_below [OF assms(1)]
  note last = routed_last [OF assms]
  show "child_index k (node_of cs) = idx_of xs ys"
  proof (cases "ys = []")
    case True
    then show ?thesis using position_append [OF none, of "[]"] by (simp add: child_index_def node_of_def cs idx_of_def)
  next
    case False
    then obtain s where "u = Some s" using last by auto
    then show ?thesis using False u position_append [OF none, of "child_entry (c, u) # map child_entry (butlast ys)"]
      by (simp add: child_index_def node_of_def cs idx_of_def butlast_append child_entry_def)
  qed
  show "child_at (node_of cs) (idx_of xs ys) = word_of_nat (page_of c)"
    by (simp add: child_at_def node_of_def cs idx_of_def butlast_append nth_append child_entry_def)
qed

lemma add_to_child_node:
  assumes "ys = [] \<longleftrightarrow> u = None" "page_of c' = page_of c" "count_of c' = count_of c + 1"
  shows "add_to_child (node_of (xs @ (c, u) # ys)) (idx_of xs ys) = node_of (xs @ (c', u) # ys)"
  using assms by (simp add: add_to_child_def node_of_def idx_of_def butlast_append nth_append child_entry_def list_update_append)

lemma take_from_child_node:
  assumes "ys = [] \<longleftrightarrow> u = None" "page_of c' = page_of c" "count_of c' = count_of c - 1"
  shows "take_from_child (node_of (xs @ (c, u) # ys)) (idx_of xs ys) = node_of (xs @ (c', u) # ys)"
  using assms by (simp add: take_from_child_def node_of_def idx_of_def butlast_append nth_append child_entry_def list_update_append)

lemma add_split_child_node:
  assumes "ys = [] \<longleftrightarrow> u = None" "page_of c' = page_of c" "count_of c' = count_of c + bump new - count_of d"
  shows "add_split_child (node_of (xs @ (c, u) # ys)) (idx_of xs ys) new s (word_of_nat (page_of d)) (count_of d) =
    node_of (xs @ (c', Some s) # (d, u) # ys)"
  using assms
  by (simp add: add_split_child_def node_of_def idx_of_def butlast_append nth_append child_entry_def list_update_append vec_insert_def)

lemma count_of_Nd: "count_of (Nd p cs) = sum_list (map (\<lambda>x. count_of (fst x)) cs)"
proof -
  have "(word_of_nat (length (concat (map (\<lambda>x. entries_of (fst x)) cs))) :: u64) =
      sum_list (map (\<lambda>x. word_of_nat (length (entries_of (fst x)))) cs)"
    by (induction cs) simp_all
  then show ?thesis by (simp add: count_of_def)
qed

lemma count_of_split: "cs \<noteq> [] \<Longrightarrow> sum_list (map (\<lambda>(_, _, n). n) (map child_entry (butlast cs))) + count_of (fst (last cs)) = count_of (Nd p cs)"
proof -
  assume "cs \<noteq> []"
  then have "map (\<lambda>x. count_of (fst x)) cs = map (\<lambda>x. count_of (fst x)) (butlast cs @ [last cs])" by simp
  then show ?thesis unfolding count_of_Nd by (simp add: child_entry_def case_prod_unfold o_def)
qed

section \<open>Writing back the changed child\<close>

definition outcome_of :: "bool \<Rightarrow> (bytes \<times> tree) option \<Rightarrow> insert_outcome" where
  "outcome_of new sp =
     (case sp of None \<Rightarrow> NoSplit new | Some (s, d) \<Rightarrow> Split new s (word_of_nat (page_of d)) (count_of d))"

definition node_page :: "tree \<Rightarrow> page" where
  "node_page t = (case t of Nd p cs \<Rightarrow> InternalPage (node_of cs) | Lf p es \<Rightarrow> InternalPage (node_of []))"

definition put_nodes :: "page_map \<Rightarrow> tree list \<Rightarrow> page_map" where
  "put_nodes V ts = fold (\<lambda>t V. V(page_of t \<mapsto> node_page t)) ts V"

definition room :: "u32 \<Rightarrow> nat \<Rightarrow> bool" where
  "room page_size nx \<longleftrightarrow> nx * unat page_size \<le> 2 ^ 64"

lemma room_addressable: "room ps nx \<Longrightarrow> i < nx \<Longrightarrow> addressable ps i"
proof -
  assume r: "room ps nx" and "i < nx"
  then have "Suc i * unat ps \<le> nx * unat ps" by (intro mult_le_mono1) simp
  then show ?thesis using r unfolding room_def addressable_def by linarith
qed

lemma room_mono: "room ps nx \<Longrightarrow> m \<le> nx \<Longrightarrow> room ps m"
  unfolding room_def by (meson le_trans mult_le_mono1)

lemma next_same: "next_page_id b = x \<Longrightarrow> b\<lparr>bt_store := s, next_page_id := x\<rparr> = b\<lparr>bt_store := s\<rparr>"
  by (cases b) simp

text \<open>The node a page gets after its child was replaced, split when it is too full.\<close>

lemma write_split_node:
  assumes f: "fits b" and nx: "next_page_id b = word_of_nat nx" and p: "p < nx"
    and ord: "children_ordered cs"
    and sz: "\<forall>x\<in>set cs. tree_sized b (fst x) \<and> (\<forall>s\<in>set_option (snd x). length s = unat (bt_key_size b))"
      "length cs \<le> Suc (Suc (bt_max_internal b))"
    and room: "room (bt_page_size b) (snd (snd (split_node (bt_max_internal b) p cs nx)))"
  defines "r \<equiv> split_node (bt_max_internal b) p cs nx"
  shows "\<exists>s. (if length (in_entries (node_of cs)) \<le> bt_max_internal b
      then bindE (write_internal b (word_of_nat p) (node_of cs)) (\<lambda>b. Inr (NoSplit new, b))
      else split_internal b (word_of_nat p) (node_of cs) new) =
    Inr (outcome_of new (fst (snd r)), b\<lparr>bt_store := s, next_page_id := word_of_nat (snd (snd r))\<rparr>) \<and>
    stored b s (put_nodes (pages b) (result_trees r))"
proof -
  let ?mi = "bt_max_internal b"
  have mi: "0 < ?mi" using f by (simp add: fits_def)
  have ne: "cs \<noteq> []" using ord by (simp add: children_ordered_def)
  have trees: "\<forall>d\<in>set (result_trees r). tree_sized b d" unfolding r_def by (rule split_node_sized [OF sz])
  have len: "length (in_entries (node_of cs)) \<le> ?mi \<longleftrightarrow> length cs \<le> Suc ?mi" by (auto simp: node_of_def)
  have pad: "addressable (bt_page_size b) p"
    using room_addressable [OF room] p split_node_pages [of p cs nx ?mi] by (simp add: takes_pages_def)
  show ?thesis
  proof (cases "length cs \<le> Suc ?mi")
    case True
    then have r: "r = (Nd p cs, None, nx)" by (simp add: r_def split_node_def)
    have "internal_fits (bt_page_size b) (bt_key_size b) (node_of cs)"
      using node_of_fits [OF f _ ord] trees by (simp add: r)
    then obtain s where "write_internal b (word_of_nat p) (node_of cs) = Inr (b\<lparr>bt_store := s\<rparr>)"
        "stored b s ((pages b)(p \<mapsto> InternalPage (node_of cs)))"
      using write_internal_pages [OF f pad] by blast
    then show ?thesis using True len next_same [OF nx, of s]
      by (intro exI [of _ s]) (simp add: r outcome_of_def put_nodes_def node_page_def)
  next
    case False
    let ?mid = "(length cs - 1) div 2"
    define A where "A = take ?mid cs"
    define x where "x = cs ! ?mid"
    define B where "B = drop (Suc ?mid) cs"
    have r: "r = (Nd p (A @ [(fst x, None)]), Some (the (snd x), Nd nx B), Suc nx)"
      using False by (simp add: r_def split_node_def Let_def A_def x_def B_def)
    have mid: "?mid < length cs - 1" using False mi by auto
    have "well_split (node_marks cs) r" unfolding r_def by (rule split_node_ok(1) [OF ord mi])
    then have o: "children_ordered (A @ [(fst x, None)])" "children_ordered B" by (auto simp: r well_split_def)
    let ?n1 = "node_of (A @ [(fst x, None)])" and ?n2 = "node_of B"
    have fit: "internal_fits (bt_page_size b) (bt_key_size b) ?n1" "internal_fits (bt_page_size b) (bt_key_size b) ?n2"
      using node_of_fits [OF f _ o(1)] node_of_fits [OF f _ o(2)] trees by (simp_all add: r)
    have es: "in_entries (node_of cs) = map child_entry (butlast cs)" "length (in_entries (node_of cs)) div 2 = ?mid"
      by (simp_all add: node_of_def)
    have n1: "\<lparr>in_entries = take ?mid (in_entries (node_of cs)), rightmost_child = fst (snd (in_entries (node_of cs) ! ?mid)),
        rightmost_count = snd (snd (in_entries (node_of cs) ! ?mid))\<rparr> = ?n1"
      using mid by (simp add: es node_of_def A_def x_def take_map take_butlast nth_butlast child_entry_def)
    have Bne: "B \<noteq> []" using mid by (simp add: B_def)
    have n2: "\<lparr>in_entries = drop (Suc ?mid) (in_entries (node_of cs)), rightmost_child = rightmost_child (node_of cs),
        rightmost_count = rightmost_count (node_of cs)\<rparr> = ?n2"
      using mid by (simp add: node_of_def B_def drop_map butlast_drop last_drop)
    have cnt: "sum_list (map (\<lambda>(_, _, c). c) (drop (Suc ?mid) (in_entries (node_of cs)))) + rightmost_count (node_of cs) = count_of (Nd nx B)"
      using count_of_split [OF Bne, of nx] mid by (simp add: node_of_def B_def drop_map butlast_drop last_drop)
    have key: "fst (in_entries (node_of cs) ! ?mid) = the (snd x)"
      using mid by (simp add: es nth_butlast child_entry_def x_def)
    let ?b1 = "b\<lparr>next_page_id := word_of_nat (Suc nx)\<rparr>"
    have f1: "fits ?b1" using f by (simp add: fits_def)
    obtain s1 where s1: "write_internal ?b1 (word_of_nat p) ?n1 = Inr (?b1\<lparr>bt_store := s1\<rparr>)"
        "stored ?b1 s1 ((pages b)(p \<mapsto> InternalPage ?n1))"
      using write_internal_pages [OF f1, of p ?n1] pad fit by auto
    let ?b2 = "?b1\<lparr>bt_store := s1\<rparr>"
    have f2: "fits ?b2" using f1 s1(2) by (simp add: fits_def stored_def)
    have nad: "addressable (bt_page_size b) nx" using room_addressable [OF room] r by (simp add: r_def [symmetric])
    obtain s2 where s2: "write_internal ?b2 (word_of_nat nx) ?n2 = Inr (?b2\<lparr>bt_store := s2\<rparr>)"
        "stored ?b2 s2 ((pages ?b2)(nx \<mapsto> InternalPage ?n2))"
      using write_internal_pages [OF f2, of nx ?n2] nad fit by auto
    have "stored b s2 (put_nodes (pages b) (result_trees r))"
      using stored_pages [of b s1] s1(2) s2(2) by (simp add: r put_nodes_def node_page_def)
    moreover have "split_internal b (word_of_nat p) (node_of cs) new =
        Inr (outcome_of new (fst (snd r)), b\<lparr>bt_store := s2, next_page_id := word_of_nat (Suc nx)\<rparr>)"
      using s1(1) s2(1) n1 n2 cnt key nx es(2)
      by (simp add: split_internal_def allocate_page_def Let_def case_prod_unfold r outcome_of_def add.commute [of 1])
    ultimately show ?thesis using False len by (auto simp: r)
  qed
qed

section \<open>A subtree in its place among the leaves\<close>

definition in_place :: "page_map \<Rightarrow> tree \<Rightarrow> (nat \<times> entries) list \<Rightarrow> (nat \<times> entries) list \<Rightarrow> nat \<Rightarrow> bool" where
  "in_place V t A B nx \<longleftrightarrow>
     inner V t \<and> linked V 0 (A @ leaves t @ B) 0 \<and>
     distinct (map fst (A @ leaves t @ B) @ inner_pages t) \<and>
     (\<forall>i\<in>set (map fst (A @ leaves t @ B) @ inner_pages t). 0 < i \<and> i < nx)"

definition inserted :: "page_map \<Rightarrow> page_map \<Rightarrow> tree \<Rightarrow> (nat \<times> entries) list \<Rightarrow> (nat \<times> entries) list \<Rightarrow> nat \<Rightarrow> split_result \<Rightarrow> bool" where
  "inserted V W t A B nx r \<longleftrightarrow>
     (\<forall>d\<in>set (result_trees r). inner W d) \<and>
     linked W 0 (A @ concat (map leaves (result_trees r)) @ B) 0 \<and>
     (\<forall>i. i \<notin> set (pages_of t) \<and> i \<notin> fst ` set B \<and> i < nx \<longrightarrow> W i = V i)"

lemma linked_leaf:
  "linked V 0 (A @ (p, es) # B) 0 \<longleftrightarrow>
     linked V 0 A p \<and> V p = Some (LeafPage \<lparr>ln_prev = word_of_nat (last_page 0 A), ln_next = word_of_nat (first_page B 0), ln_entries = es\<rparr>) \<and>
     linked V p B 0"
  by (simp add: linked_append)

lemma word_of_nat_eq_0: "i < 2 ^ 64 \<Longrightarrow> (word_of_nat i :: u64) = 0 \<longleftrightarrow> i = 0"
  by (auto simp: word_of_nat_eq_0_iff dest: dvd_imp_le)

lemma fits_room: "fits b \<Longrightarrow> room (bt_page_size b) nx \<Longrightarrow> nx < 2 ^ 64"
proof -
  assume "fits b" and r: "room (bt_page_size b) nx"
  then have "nx * 4096 \<le> nx * unat (bt_page_size b)" using fits_page_size(1) by (intro mult_le_mono2)
  then have "nx * 4096 \<le> 2 ^ 64" using r unfolding room_def by linarith
  then show ?thesis by simp
qed

lemma linked_reprev:
  assumes "linked V p ((q, es) # B) 0" "q \<notin> fst ` set B"
  shows "linked (V(q \<mapsto> LeafPage \<lparr>ln_prev = word_of_nat m, ln_next = word_of_nat (first_page B 0), ln_entries = es\<rparr>)) m ((q, es) # B) 0"
  using assms by simp

lemma insert_leaf_pages:
  assumes f: "fits b" and nx: "next_page_id b = word_of_nat nx"
    and here: "in_place (pages b) (Lf p es) A B nx" and ord: "ordered (Lf p es)" and sz: "tree_sized b (Lf p es)"
    and B: "\<forall>(q, es)\<in>set B. tree_sized b (Lf q es)"
    and kv: "length k = unat (bt_key_size b)" "length v = unat (bt_value_size b)"
    and room: "room (bt_page_size b) (snd (snd r))"
    and r: "r = tree_insert (bt_max_leaf b) (bt_max_internal b) k v nx (Lf p es)"
  shows "\<exists>s. insert_into_leaf b (word_of_nat p) k v =
      Inr (outcome_of (k \<notin> fst ` set es) (fst (snd r)), b\<lparr>bt_store := s, next_page_id := word_of_nat (snd (snd r))\<rparr>) \<and>
    ps_page_size s = bt_page_size b \<and> inserted (pages b) (pages (b\<lparr>bt_store := s\<rparr>)) (Lf p es) A B nx r"
proof -
  let ?ml = "bt_max_leaf b"
  define up where "up = upsert k v es"
  have r': "r = split_leaf ?ml p up nx" by (simp add: r up_def)
  have trees: "\<forall>d\<in>set (result_trees r). tree_sized b d"
    unfolding r by (rule tree_insert_sized) (use f ord sz kv in \<open>simp_all add: fits_def\<close>)
  have ml: "0 < ?ml" using f by (simp add: fits_def)
  have dist: "p \<notin> fst ` set A" "p \<notin> fst ` set B" "fst ` set A \<inter> fst ` set B = {}" "distinct (map fst B)"
    and pos: "0 < p" "p < nx" "\<forall>i\<in>fst ` set A \<union> fst ` set B. 0 < i \<and> i < nx"
    using here by (auto simp: in_place_def)
  have lk: "linked (pages b) 0 A p" "linked (pages b) p B 0"
    "pages b p = Some (LeafPage \<lparr>ln_prev = word_of_nat (last_page 0 A), ln_next = word_of_nat (first_page B 0), ln_entries = es\<rparr>)"
    using here by (simp_all add: in_place_def linked_leaf)
  have asc: "ascending es" using ord by simp
  have read: "read_leaf b (word_of_nat p) =
      Inr \<lparr>ln_prev = word_of_nat (last_page 0 A), ln_next = word_of_nat (first_page B 0), ln_entries = es\<rparr>"
    using pages_Leaf [OF lk(3)] by simp
  have nx_le: "nx \<le> snd (snd r)" by (simp add: r' split_leaf_def Let_def)
  have pad: "addressable (bt_page_size b) p" using room_addressable [OF room] pos(2) nx_le by simp
  show ?thesis
  proof (cases "length up \<le> ?ml")
    case True
    have rr: "r = (Lf p up, None, nx)" using True by (simp add: r' split_leaf_def)
    let ?n = "\<lparr>ln_prev = word_of_nat (last_page 0 A), ln_next = word_of_nat (first_page B 0), ln_entries = up\<rparr>"
    have "leaf_fits (bt_page_size b) (bt_key_size b) (bt_value_size b) ?n"
      using leaf_fits_sized [OF f, of up] trees by (simp add: rr)
    then obtain s where s: "write_leaf b (word_of_nat p) ?n = Inr (b\<lparr>bt_store := s\<rparr>)" "stored b s ((pages b)(p \<mapsto> LeafPage ?n))"
      using write_leaf_pages [OF f pad] by blast
    have "inserted (pages b) ((pages b)(p \<mapsto> LeafPage ?n)) (Lf p es) A B nx r"
      using lk dist by (simp add: inserted_def rr linked_leaf pages_of_def)
    moreover have "insert_into_leaf b (word_of_nat p) k v = Inr (NoSplit (k \<notin> fst ` set es), b\<lparr>bt_store := s\<rparr>)"
      using True s(1) by (simp add: insert_into_leaf_def read upsert_at_spec [OF asc] up_def)
    ultimately show ?thesis using s(2) next_same [OF nx, of s] stored_pages [OF s(2)]
      by (intro exI [of _ s]) (simp add: rr outcome_of_def stored_def)
  next
    case False
    let ?mid = "length up div 2"
    have rr: "r = (Lf p (take ?mid up), Some (fst (up ! ?mid), Lf nx (drop ?mid up)), Suc nx)"
      using False by (simp add: r' split_leaf_def Let_def)
    have mid: "?mid < length up" using False ml by auto
    let ?b0 = "b\<lparr>next_page_id := word_of_nat (Suc nx)\<rparr>"
    have alloc: "allocate_page b = (word_of_nat nx, ?b0)" by (simp add: allocate_page_def nx add.commute)
    have f0: "fits ?b0" using f by (simp add: fits_def)
    define V1 where "V1 = (case B of [] \<Rightarrow> pages b | (q, eq) # B' \<Rightarrow>
      (pages b)(q \<mapsto> LeafPage \<lparr>ln_prev = word_of_nat nx, ln_next = word_of_nat (first_page B' 0), ln_entries = eq\<rparr>))"
    have step1: "\<exists>s1. (if word_of_nat (first_page B 0) \<noteq> NULL_PAGE
        then bindE (read_leaf ?b0 (word_of_nat (first_page B 0))) (\<lambda>n. write_leaf ?b0 (word_of_nat (first_page B 0)) (n\<lparr>ln_prev := word_of_nat nx\<rparr>))
        else Inr ?b0) = Inr (?b0\<lparr>bt_store := s1\<rparr>) \<and> stored b s1 V1"
    proof (cases B)
      case Nil
      have "stored b (bt_store b) (pages b)" using fits_page_size(2) [OF f] by (simp add: stored_def)
      moreover have "?b0\<lparr>bt_store := bt_store b\<rparr> = ?b0" by (cases b) simp
      ultimately show ?thesis using Nil by (intro exI [of _ "bt_store b"]) (simp add: V1_def NULL_PAGE_def)
    next
      case (Cons qe B')
      obtain q eq where qe: "qe = (q, eq)" by force
      have q: "0 < q" "q < nx" using pos(3) Cons qe by auto
      have "q < 2 ^ 64" using fits_room [OF f room_mono [OF room nx_le]] q by linarith
      then have q0: "word_of_nat q \<noteq> NULL_PAGE" using q(1) by (simp add: NULL_PAGE_def word_of_nat_eq_0)
      have "pages ?b0 q = Some (LeafPage \<lparr>ln_prev = word_of_nat p, ln_next = word_of_nat (first_page B' 0), ln_entries = eq\<rparr>)"
        using lk(2) by (simp add: Cons qe)
      from pages_Leaf [OF this] have rd: "read_leaf ?b0 (word_of_nat q) = Inr \<lparr>ln_prev = word_of_nat p, ln_next = word_of_nat (first_page B' 0), ln_entries = eq\<rparr>"
        by blast
      let ?n = "\<lparr>ln_prev = word_of_nat nx, ln_next = word_of_nat (first_page B' 0), ln_entries = eq\<rparr>"
      have "leaf_fits (bt_page_size b) (bt_key_size b) (bt_value_size b) ?n"
        using leaf_fits_sized [OF f, of eq] B by (simp add: Cons qe)
      moreover have "addressable (bt_page_size b) q" using room_addressable [OF room] q(2) nx_le by simp
      ultimately obtain s1 where "write_leaf ?b0 (word_of_nat q) ?n = Inr (?b0\<lparr>bt_store := s1\<rparr>)"
          "stored ?b0 s1 ((pages ?b0)(q \<mapsto> LeafPage ?n))"
        using write_leaf_pages [OF f0, of q ?n] by auto
      then show ?thesis using q0 rd by (intro exI [of _ s1]) (simp add: Cons qe V1_def)
    qed
    then obtain s1 where s1: "(if word_of_nat (first_page B 0) \<noteq> NULL_PAGE
        then bindE (read_leaf ?b0 (word_of_nat (first_page B 0))) (\<lambda>n. write_leaf ?b0 (word_of_nat (first_page B 0)) (n\<lparr>ln_prev := word_of_nat nx\<rparr>))
        else Inr ?b0) = Inr (?b0\<lparr>bt_store := s1\<rparr>)" "stored b s1 V1" by blast
    let ?b1 = "?b0\<lparr>bt_store := s1\<rparr>"
    have f1: "fits ?b1" "pages ?b1 = V1" using f s1(2) by (simp_all add: fits_def stored_def)
    let ?n1 = "\<lparr>ln_prev = word_of_nat (last_page 0 A), ln_next = word_of_nat nx, ln_entries = take ?mid up\<rparr>"
    let ?n2 = "\<lparr>ln_prev = word_of_nat p, ln_next = word_of_nat (first_page B 0), ln_entries = drop ?mid up\<rparr>"
    have fit: "leaf_fits (bt_page_size b) (bt_key_size b) (bt_value_size b) ?n1" "leaf_fits (bt_page_size b) (bt_key_size b) (bt_value_size b) ?n2"
      using leaf_fits_sized [OF f, of "take ?mid up"] leaf_fits_sized [OF f, of "drop ?mid up"] trees by (simp_all add: rr)
    obtain s2 where s2: "write_leaf ?b1 (word_of_nat p) ?n1 = Inr (?b1\<lparr>bt_store := s2\<rparr>)" "stored b s2 (V1(p \<mapsto> LeafPage ?n1))"
      using write_leaf_pages [OF f1(1), of p ?n1] pad fit(1) f1(2) by auto
    let ?b2 = "?b1\<lparr>bt_store := s2\<rparr>"
    have f2: "fits ?b2" "pages ?b2 = V1(p \<mapsto> LeafPage ?n1)" using f s2(2) by (simp_all add: fits_def stored_def)
    have "addressable (bt_page_size b) nx" using room_addressable [OF room] by (simp add: rr)
    then obtain s3 where s3: "write_leaf ?b2 (word_of_nat nx) ?n2 = Inr (?b2\<lparr>bt_store := s3\<rparr>)"
        "stored b s3 (V1(p \<mapsto> LeafPage ?n1, nx \<mapsto> LeafPage ?n2))"
      using write_leaf_pages [OF f2(1), of nx ?n2] fit(2) f2(2) by auto
    let ?W = "V1(p \<mapsto> LeafPage ?n1, nx \<mapsto> LeafPage ?n2)"
    have off: "V1 i = pages b i" if "i \<notin> fst ` set B" for i using that by (auto simp: V1_def split: list.splits)
    have nxAB: "nx \<notin> fst ` set A" "nx \<notin> fst ` set B" using pos(3) by blast+
    have "linked V1 0 A p" using lk(1) linked_cong [of A V1 "pages b" 0 p] off dist(3) by blast
    then have "linked ?W 0 A p" using dist(1) nxAB by simp
    moreover have "linked V1 nx B 0"
    proof (cases B)
      case (Cons qe B')
      obtain q eq where qe: "qe = (q, eq)" by force
      have "linked (pages b) p ((q, eq) # B') 0" "q \<notin> fst ` set B'" using lk(2) dist(4) by (auto simp: Cons qe)
      from linked_reprev [OF this, of nx] show ?thesis by (simp add: V1_def Cons qe)
    qed simp
    then have "linked ?W nx B 0" using dist(2) nxAB by simp
    moreover have "p \<noteq> nx" using pos(2) by simp
    ultimately have "inserted (pages b) ?W (Lf p es) A B nx r"
      using off by (simp add: inserted_def rr linked_leaf pages_of_def)
    moreover have "fst (drop ?mid up ! 0) = fst (up ! ?mid)" using mid by simp
    then have "insert_into_leaf b (word_of_nat p) k v =
        Inr (Split (k \<notin> fst ` set es) (fst (up ! ?mid)) (word_of_nat nx) (word_of_nat (length (drop ?mid up))), ?b2\<lparr>bt_store := s3\<rparr>)"
      using False s1(1) s2(1) s3(1)
      by (simp add: insert_into_leaf_def read upsert_at_spec [OF asc] up_def [symmetric] alloc Let_def del: of_nat_Suc)
    ultimately show ?thesis using s3(2) stored_pages [OF s3(2)]
      by (intro exI [of _ s3]) (simp add: rr outcome_of_def stored_def count_of_def)
  qed
qed

section \<open>Insertion into a subtree\<close>

abbreviation leaves_in :: "(tree \<times> bytes option) list \<Rightarrow> (nat \<times> entries) list" where
  "leaves_in cs \<equiv> concat (map (\<lambda>x. leaves (fst x)) cs)"

lemma split_node_inserted:
  fixes mi :: nat
  assumes "\<forall>x\<in>set cs. inner W (fst x) \<and> p \<notin> set (pages_of (fst x)) \<and> nx \<notin> set (pages_of (fst x))"
    and "linked W 0 (A @ leaves_in cs @ B) 0" "p \<notin> fst ` set (A @ B)" "nx \<notin> fst ` set (A @ B)" "p \<noteq> nx"
  defines "ts \<equiv> result_trees (split_node mi p cs nx)"
  shows "\<forall>d\<in>set ts. inner (put_nodes W ts) d"
    and "linked (put_nodes W ts) 0 (A @ concat (map leaves ts) @ B) 0"
    and "\<forall>i. i \<noteq> p \<and> i \<noteq> nx \<longrightarrow> put_nodes W ts i = W i"
proof -
  let ?mid = "(length cs - 1) div 2"
  define C where "C = take ?mid cs @ [(fst (cs ! ?mid), None)]"
  define D where "D = drop (Suc ?mid) cs"
  have ts: "ts = (if length cs \<le> Suc mi then [Nd p cs] else [Nd p C, Nd nx D])"
    by (simp add: ts_def split_node_def Let_def C_def D_def)
  have cut: "map fst cs = map fst C @ map fst D" if "\<not> length cs \<le> Suc mi"
  proof -
    have "cs = take ?mid cs @ (fst (cs ! ?mid), snd (cs ! ?mid)) # drop (Suc ?mid) cs"
      using that by (intro split_at_nth) auto
    then have "map fst cs = map fst (take ?mid cs @ (fst (cs ! ?mid), snd (cs ! ?mid)) # drop (Suc ?mid) cs)" by (rule arg_cong)
    then show ?thesis by (simp add: C_def D_def)
  qed
  have cutL: "leaves_in cs = leaves_in C @ leaves_in D" if "\<not> length cs \<le> Suc mi"
  proof -
    have "concat (map leaves (map fst cs)) = concat (map leaves (map fst C @ map fst D))" unfolding cut [OF that] ..
    then show ?thesis by (simp add: o_def)
  qed
  have child: "inner W t \<and> p \<notin> set (pages_of t) \<and> nx \<notin> set (pages_of t)" if "t \<in> fst ` set cs" for t
    using assms(1) that by auto
  have CD: "fst x \<in> fst ` set cs" if "\<not> length cs \<le> Suc mi" "x \<in> set C \<or> x \<in> set D" for x
  proof -
    have "set (map fst cs) = set (map fst C) \<union> set (map fst D)" unfolding cut [OF that(1)] by simp
    then show ?thesis using that(2) by auto
  qed
  have off: "p \<notin> set (inner_pages t)" "nx \<notin> set (inner_pages t)" if "t \<in> fst ` set cs" for t
    using child [OF that] by (auto simp: pages_of_def)
  show "\<forall>i. i \<noteq> p \<and> i \<noteq> nx \<longrightarrow> put_nodes W ts i = W i" by (simp add: ts put_nodes_def)
  show "\<forall>d\<in>set ts. inner (put_nodes W ts) d"
  proof (cases "length cs \<le> Suc mi")
    case True
    then show ?thesis using assms(1) off by (simp add: ts put_nodes_def node_page_def)
  next
    case False
    then show ?thesis using assms(5) child [OF CD [OF False]] off [OF CD [OF False]] by (simp add: ts put_nodes_def node_page_def)
  qed
  have "q \<notin> fst ` set (leaves_in cs)" if "\<forall>x\<in>set cs. q \<notin> set (pages_of (fst x))" for q
    using that by (auto simp: pages_of_def)
  then have "p \<notin> fst ` set (leaves_in cs)" "nx \<notin> fst ` set (leaves_in cs)"
    using assms(1) by blast+
  then have "linked (put_nodes W ts) 0 (A @ leaves_in cs @ B) 0"
    using assms(2-4) by (simp add: ts put_nodes_def image_Un)
  then show "linked (put_nodes W ts) 0 (A @ concat (map leaves ts) @ B) 0"
    using cutL by (cases "length cs \<le> Suc mi") (simp_all add: ts)
qed

abbreviation ids :: "(nat \<times> entries) list \<Rightarrow> nat list" where
  "ids ls \<equiv> map fst ls"

abbreviation inner_in :: "(tree \<times> bytes option) list \<Rightarrow> nat list" where
  "inner_in cs \<equiv> concat (map (\<lambda>x. inner_pages (fst x)) cs)"

lemma in_place_lists:
  assumes "in_place V (Nd p (xs @ (c, u) # ys)) A B nx"
  shows "distinct (ids A @ ids (leaves_in xs) @ ids (leaves c) @ ids (leaves_in ys) @ ids B @ p # inner_in xs @ inner_pages c @ inner_in ys)"
    and "\<forall>i\<in>set (ids A @ ids (leaves_in xs) @ ids (leaves c) @ ids (leaves_in ys) @ ids B @ p # inner_in xs @ inner_pages c @ inner_in ys). 0 < i \<and> i < nx"
proof -
  note e = leaves_Nd inner_pages_Nd map_append concat_append map_append list.map concat.simps fst_conv append_assoc append_Cons
  show "distinct (ids A @ ids (leaves_in xs) @ ids (leaves c) @ ids (leaves_in ys) @ ids B @ p # inner_in xs @ inner_pages c @ inner_in ys)"
    using assms unfolding in_place_def e by (elim conjE)
  show "\<forall>i\<in>set (ids A @ ids (leaves_in xs) @ ids (leaves c) @ ids (leaves_in ys) @ ids B @ p # inner_in xs @ inner_pages c @ inner_in ys). 0 < i \<and> i < nx"
    using assms unfolding in_place_def e by (elim conjE)
qed

lemma distinct_parts:
  assumes "distinct (a @ lx @ lc @ ly @ b @ p # ix @ ic @ iy)"
  shows "distinct (a @ lx @ lc @ ly @ b @ ic)"
    and "p \<notin> set (a @ lx @ lc @ ly @ b @ ix @ ic @ iy)"
    and "set ix \<inter> set (lc @ ic @ ly @ b) = {}" "set iy \<inter> set (lc @ ic @ ly @ b) = {}"
  using assms by auto

lemma in_place_child:
  assumes "in_place V (Nd p cs) A B nx" "cs = xs @ (c, u) # ys"
  shows "in_place V c (A @ leaves_in xs) (leaves_in ys @ B) nx"
proof -
  note l = in_place_lists [OF assms(1) [unfolded assms(2)]]
  have "distinct (ids ((A @ leaves_in xs) @ leaves c @ leaves_in ys @ B) @ inner_pages c)"
    using distinct_parts(1) [OF l(1)] by (simp only: map_append append_assoc)
  moreover have "\<forall>i\<in>set (ids ((A @ leaves_in xs) @ leaves c @ leaves_in ys @ B) @ inner_pages c). 0 < i \<and> i < nx"
    using l(2) by (simp only: map_append append_assoc set_append Un_iff list.set) blast
  ultimately show ?thesis using assms by (simp add: in_place_def)
qed

lemma in_place_sibling:
  assumes "in_place V (Nd p cs) A B nx" "cs = xs @ (c, u) # ys" "x \<in> set xs \<or> x \<in> set ys" "i \<in> set (inner_pages (fst x))"
  shows "i \<notin> set (pages_of c)" "i \<notin> fst ` set (leaves_in ys @ B)" "i < nx"
proof -
  note l = in_place_lists [OF assms(1) [unfolded assms(2)]]
  have i: "i \<in> set (inner_in xs) \<or> i \<in> set (inner_in ys)" using assms(3,4) by auto
  then have "i \<notin> set (ids (leaves c) @ inner_pages c @ ids (leaves_in ys) @ ids B)" using distinct_parts(3,4) [OF l(1)] by blast
  then show "i \<notin> set (pages_of c)" "i \<notin> fst ` set (leaves_in ys @ B)" by (auto simp: pages_of_def)
  show "i < nx" using l(2) i by (simp only: set_append Un_iff list.set) blast
qed

lemma in_place_page:
  assumes "in_place V (Nd p cs) A B nx" "x \<in> set cs"
  shows "p \<notin> set (pages_of (fst x))" "\<forall>i\<in>set (pages_of (fst x)). i < nx" "p < nx" "p \<notin> fst ` set (A @ B)"
    "\<forall>i\<in>fst ` set (A @ B). i < nx"
proof -
  obtain xs ys where "cs = xs @ x # ys" using split_list [OF assms(2)] by blast
  then have cs: "cs = xs @ (fst x, snd x) # ys" by simp
  note l = in_place_lists [OF assms(1) [unfolded cs]]
  note p = distinct_parts(2) [OF l(1)]
  show "p \<notin> set (pages_of (fst x))" using p by (simp only: pages_of_def set_append Un_iff) blast
  show "p \<notin> fst ` set (A @ B)" using p by (simp only: set_append Un_iff set_map image_Un) blast
  show "\<forall>i\<in>set (pages_of (fst x)). i < nx" using l(2) by (simp only: pages_of_def set_append Un_iff list.set) blast
  show "p < nx" using l(2) by simp
  show "\<forall>i\<in>fst ` set (A @ B). i < nx" using l(2) by (simp only: set_append Un_iff list.set set_map image_Un) blast
qed

lemma in_pages_in: "i \<in># pages_in ts \<longleftrightarrow> (\<exists>t\<in>set ts. i \<in># tree_pages t)"
  by (induction ts) auto

definition replace_child :: "(tree \<times> bytes option) list \<Rightarrow> bytes option \<Rightarrow> (tree \<times> bytes option) list \<Rightarrow> tree \<Rightarrow> (bytes \<times> tree) option \<Rightarrow>
    (tree \<times> bytes option) list" where
  "replace_child xs u ys c sp =
     (case sp of None \<Rightarrow> xs @ (c, u) # ys | Some (s, d) \<Rightarrow> xs @ (c, Some s) # (d, u) # ys)"

lemma join_child_replace:
  assumes "length (xs @ (c, u) # ys) \<le> Suc mi"
  shows "join_child mi p xs u ys (c', sp, nx) = split_node mi p (replace_child xs u ys c' sp) nx"
  using assms by (auto simp: join_child_def replace_child_def split_node_def split: option.splits)

lemma replace_child_trees:
  "map fst (replace_child xs u ys c sp) = map fst xs @ result_trees (c, sp, nx) @ map fst ys"
  by (auto simp: replace_child_def split: option.splits)

lemma mset_pages: "i \<in> set (pages_of t) \<longleftrightarrow> i \<in># tree_pages t"
  by (simp add: tree_pages_def)

lemma node_inserted:
  fixes mi :: nat
  assumes here: "in_place V (Nd p cs) A B nx" and cs: "cs = xs @ (c, u) # ys"
    and ins: "inserted V W c (A @ leaves_in xs) (leaves_in ys @ B) nx (c', sp, nx')"
    and tp: "takes_pages (tree_pages c) nx (c', sp, nx')"
  defines "r \<equiv> split_node mi p (replace_child xs u ys c' sp) nx'"
  shows "inserted V (put_nodes W (result_trees r)) (Nd p cs) A B nx r"
proof -
  let ?cs = "replace_child xs u ys c' sp" and ?ts = "result_trees (c', sp, nx')"
  have trees: "fst ` set ?cs = fst ` set xs \<union> set ?ts \<union> fst ` set ys"
    using arg_cong [OF replace_child_trees [of xs u ys c' sp nx'], of set] by (simp add: Un_assoc)
  have le: "nx \<le> nx'" using tp by (simp add: takes_pages_def)
  have old: "p \<notin> set (pages_of c)" "\<forall>i\<in>set (pages_of c). i < nx" using in_place_page(1,2) [OF here, of "(c, u)"] cs by auto
  have new: "i \<in> set (pages_of c) \<or> nx \<le> i \<and> i < nx'" if "t \<in> set ?ts" "i \<in> set (pages_of t)" for t i
  proof -
    have "i \<in># pages_in ?ts" using that by (auto simp: mset_pages in_pages_in)
    moreover have "pages_in ?ts = tree_pages c + mset [nx..<nx']" using tp by (simp only: takes_pages_def snd_conv)
    ultimately have "i \<in># tree_pages c + mset [nx..<nx']" by (simp only:)
    then show ?thesis by (auto simp: mset_pages)
  qed
  have pn: "p < nx" "p \<notin> fst ` set (A @ B)" "\<forall>i\<in>fst ` set (A @ B). i < nx" using in_place_page(3-5) [OF here, of "(c, u)"] cs by auto
  have fresh: "p \<notin> set (pages_of t) \<and> nx' \<notin> set (pages_of t)" if tin: "t \<in> fst ` set ?cs" for t
  proof (cases "t \<in> set ?ts")
    case True
    then show ?thesis using new [OF True] old pn(1) le by fastforce
  next
    case False
    with tin [unfolded trees] obtain x where "x \<in> set cs" "t = fst x" using cs by auto
    then show ?thesis using in_place_page(1,2) [OF here] le by fastforce
  qed
  have innerW: "inner W t" if tin: "t \<in> fst ` set ?cs" for t
  proof (cases "t \<in> set ?ts")
    case True
    then show ?thesis using ins by (simp add: inserted_def)
  next
    case False
    with tin [unfolded trees] obtain x where x: "x \<in> set xs \<or> x \<in> set ys" "t = fst x" by auto
    then have "inner V t" using here cs by (auto simp: in_place_def)
    moreover have "W i = V i" if "i \<in> set (inner_pages t)" for i
      using in_place_sibling [OF here cs x(1), of i] ins that x(2) by (simp add: inserted_def)
    ultimately show ?thesis by (rule inner_cong [rotated])
  qed
  have lk: "linked W 0 (A @ leaves_in ?cs @ B) 0"
  proof -
    have "leaves_in ?cs = concat (map leaves (map fst ?cs))" by (simp add: o_def)
    also have "\<dots> = leaves_in xs @ concat (map leaves ?ts) @ leaves_in ys"
      unfolding replace_child_trees [of xs u ys c' sp nx'] by (simp add: o_def)
    finally show ?thesis using ins by (simp add: inserted_def)
  qed
  have pre: "\<forall>x\<in>set ?cs. inner W (fst x) \<and> p \<notin> set (pages_of (fst x)) \<and> nx' \<notin> set (pages_of (fst x))"
    using fresh innerW by blast
  have nx': "nx' \<notin> fst ` set (A @ B)" "p \<noteq> nx'" using pn le by force+
  note fin = split_node_inserted [OF pre lk pn(2) nx', of mi, folded r_def]
  have "put_nodes W (result_trees r) i = V i" if i: "i \<notin> set (pages_of (Nd p cs))" "i \<notin> fst ` set B" "i < nx" for i
  proof -
    have "i \<noteq> p" "i \<notin> set (pages_of c)" "i \<notin> fst ` set (leaves_in ys @ B)" using i by (auto simp: cs pages_of_def)
    moreover have "i \<noteq> nx'" using i(3) le by simp
    ultimately show ?thesis using fin(3) ins i(3) by (simp add: inserted_def)
  qed
  then show ?thesis using fin(1,2) by (simp add: inserted_def)
qed

lemma tree_insert_page: "page_of (fst (tree_insert ml mi k v nx t)) = page_of t"
  by (cases t)
    (auto simp: split_leaf_def join_child_def split_node_def Let_def split: list.splits prod.splits option.splits)

lemma sized_leaves: "sized ks vs ml mi t \<Longrightarrow> \<forall>(q, es)\<in>set (leaves t). sized ks vs ml mi (Lf q es)"
proof (induction t)
  case (Nd p cs)
  then show ?case by fastforce
qed simp

definition child_counts :: "bool \<Rightarrow> tree \<Rightarrow> tree \<Rightarrow> (bytes \<times> tree) option \<Rightarrow> bool" where
  "child_counts new c c' sp \<longleftrightarrow>
     count_of c' = count_of c + bump new - (case sp of None \<Rightarrow> 0 | Some (s, d) \<Rightarrow> count_of d)"

lemma tree_insert_counts:
  assumes "ordered t" "0 < ml" "0 < mi" "tree_insert ml mi k v nx t = (t', sp, nx')"
  shows "child_counts (k \<notin> fst ` set (entries_of t)) t t' sp"
proof -
  have "concat (map entries_of (result_trees (t', sp, nx'))) = upsert k v (entries_of t)"
    using tree_insert_ok [OF assms(1-3), of k v nx] assms(4) by (simp add: result_entries_def)
  then have "length (concat (map entries_of (result_trees (t', sp, nx')))) = length (entries_of t) + (if k \<in> fst ` set (entries_of t) then 0 else 1)"
    using length_upsert [OF ordered_entries [OF assms(1)], of k v] by simp
  from arg_cong [OF this, of "word_of_nat :: nat \<Rightarrow> u64"] show ?thesis
  proof (cases sp)
    case (Some sd)
    then obtain s d where "sp = Some (s, d)" by force
    with \<open>word_of_nat _ = word_of_nat _\<close> show ?thesis
      by (cases "k \<in> fst ` set (entries_of t)") (simp_all add: child_counts_def count_of_def bump_def eq_diff_eq)
  qed (cases "k \<in> fst ` set (entries_of t)"; simp add: child_counts_def count_of_def bump_def)
qed

lemma after_child_pages:
  assumes f: "fits b" and nx: "next_page_id b = word_of_nat nx" and p: "p < nx"
    and page: "pages b p = Some (InternalPage (node_of (xs @ (c, u) # ys)))" and last: "ys = [] \<longleftrightarrow> u = None"
    and c': "page_of c' = page_of c" "child_counts new c c' sp"
    and ord: "children_ordered (replace_child xs u ys c' sp)"
    and sz: "\<forall>x\<in>set (replace_child xs u ys c' sp). tree_sized b (fst x) \<and> (\<forall>s\<in>set_option (snd x). length s = unat (bt_key_size b))"
    and len: "length (xs @ (c, u) # ys) \<le> Suc (bt_max_internal b)"
    and room: "room (bt_page_size b) (snd (snd r))"
    and r: "r = split_node (bt_max_internal b) p (replace_child xs u ys c' sp) nx"
  shows "\<exists>s. after_child b (word_of_nat p) (node_of (xs @ (c, u) # ys)) (idx_of xs ys) (outcome_of new sp) =
      Inr (outcome_of new (fst (snd r)), b\<lparr>bt_store := s, next_page_id := word_of_nat (snd (snd r))\<rparr>) \<and>
    stored b s (put_nodes (pages b) (result_trees r))"
proof -
  let ?cs = "replace_child xs u ys c' sp"
  have len': "length ?cs \<le> Suc (Suc (bt_max_internal b))" using len by (auto simp: replace_child_def split: option.splits)
  note wr = write_split_node [OF f nx p ord sz len' room [unfolded r], folded r, of new]
  show ?thesis
  proof (cases sp)
    case (Some sd)
    obtain s d where sd: "sd = (s, d)" by force
    have "add_split_child (node_of (xs @ (c, u) # ys)) (idx_of xs ys) new s (word_of_nat (page_of d)) (count_of d) = node_of ?cs"
      using add_split_child_node [OF last c'(1), of new d] c'(2) by (simp add: child_counts_def replace_child_def Some sd)
    then have "after_child b (word_of_nat p) (node_of (xs @ (c, u) # ys)) (idx_of xs ys) (outcome_of new sp) =
        (if length (in_entries (node_of ?cs)) \<le> bt_max_internal b
         then bindE (write_internal b (word_of_nat p) (node_of ?cs)) (\<lambda>b. Inr (NoSplit new, b))
         else split_internal b (word_of_nat p) (node_of ?cs) new)"
      unfolding outcome_of_def Some sd option.case prod.case after_child_def insert_outcome.case Let_def by (simp only:)
    then show ?thesis using wr by (simp only:)
  next
    case None
    have cs: "?cs = xs @ (c', u) # ys" by (simp add: replace_child_def None)
    have rr: "r = (Nd p (xs @ (c', u) # ys), None, nx)" using len by (simp add: r cs split_node_def)
    show ?thesis
    proof (cases new)
      case True
      have "add_to_child (node_of (xs @ (c, u) # ys)) (idx_of xs ys) = node_of ?cs"
        using add_to_child_node [OF last c'(1)] c'(2) True by (simp add: child_counts_def replace_child_def None bump_def)
      moreover have "length (in_entries (node_of ?cs)) \<le> bt_max_internal b" using len by (simp add: node_of_def cs)
      ultimately show ?thesis using wr True by (simp add: after_child_def outcome_of_def None)
    next
      case False
      have "count_of c' = count_of c" using c'(2) False by (simp add: child_counts_def None bump_def)
      then have "node_of (xs @ (c', u) # ys) = node_of (xs @ (c, u) # ys)"
        using c'(1) by (simp add: node_of_def butlast_append child_entry_def)
      then have "put_nodes (pages b) (result_trees r) = pages b"
        using page by (auto simp: rr put_nodes_def node_page_def)
      moreover have "stored b (bt_store b) (pages b)" using fits_page_size(2) [OF f] by (simp add: stored_def)
      moreover have "b\<lparr>bt_store := bt_store b, next_page_id := word_of_nat nx\<rparr> = b" using nx by (cases b) simp
      ultimately show ?thesis using False
        by (intro exI [of _ "bt_store b"]) (simp add: after_child_def outcome_of_def None rr)
    qed
  qed
qed

lemma insert_into_pages:
  assumes "ml = bt_max_leaf b" "mi = bt_max_internal b" and f: "fits b" and nx: "next_page_id b = word_of_nat nx"
    and kv: "length k = unat (bt_key_size b)" "length v = unat (bt_value_size b)"
    and "in_place (pages b) t A B nx" "ordered t" "tree_sized b t" "\<forall>(q, es)\<in>set B. tree_sized b (Lf q es)"
    and "room (bt_page_size b) (snd (snd r))" "r = tree_insert ml mi k v nx t"
  shows "\<exists>s. insert_into b (word_of_nat (page_of t)) k v =
      Some (Inr (outcome_of (k \<notin> fst ` set (entries_of t)) (fst (snd r)), b\<lparr>bt_store := s, next_page_id := word_of_nat (snd (snd r))\<rparr>)) \<and>
    ps_page_size s = bt_page_size b \<and> inserted (pages b) (pages (b\<lparr>bt_store := s\<rparr>)) t A B nx r"
  using assms
proof (induction ml mi k v nx t arbitrary: A B r rule: tree_insert.induct)
  case (1 ml mi k v nx p es)
  have "pages b p = Some (LeafPage \<lparr>ln_prev = word_of_nat (last_page 0 A), ln_next = word_of_nat (first_page B 0), ln_entries = es\<rparr>)"
    using 1(7) by (simp add: in_place_def linked_leaf)
  from pages_Leaf [OF this] have "insert_into b (word_of_nat p) k v = Some (insert_into_leaf b (word_of_nat p) k v)"
    by (subst insert_into.simps) simp
  moreover note insert_leaf_pages [OF 1(3,4,7-10,5,6,11) 1(12) [unfolded 1(1,2)]]
  ultimately show ?case by auto
next
  case (2 ml mi k v nx p cs)
  have ord: "children_ordered cs" using 2(9) by simp
  then obtain c u ys where r0: "routed k cs (takeWhile (\<lambda>x. above (snd x) k) cs) c u ys"
      and d: "dropWhile (\<lambda>x. above (snd x) k) cs = (c, u) # ys"
    using routed_exists [of cs k] unfolding children_ordered_def by blast
  define xs where "xs = takeWhile (\<lambda>x. above (snd x) k) cs"
  have rt: "routed k cs xs c u ys" using r0 by (simp add: xs_def)
  then have cs: "cs = xs @ (c, u) # ys" by (simp add: routed_def)
  obtain c' sp nx' where res: "tree_insert ml mi k v nx c = (c', sp, nx')" using prod_cases3 by blast
  have lencs: "length (xs @ (c, u) # ys) \<le> Suc mi" using 2(3,10) by (simp add: cs)
  have r: "r = split_node mi p (replace_child xs u ys c' sp) nx'"
    using 2(13) d res join_child_replace [OF lencs] by (simp add: xs_def)
  have pos: "0 < ml" "0 < mi" using 2(2,3,4) by (simp_all add: fits_def)
  have c: "ordered c" "tree_sized b c" "\<forall>s\<in>set_option u. length s = unat (bt_key_size b)"
    using ord 2(10) by (auto simp: cs children_ordered_def)
  have sib: "\<forall>(q, es)\<in>set (leaves_in ys @ B). tree_sized b (Lf q es)"
  proof -
    have "\<forall>(q, es)\<in>set (leaves (fst x)). tree_sized b (Lf q es)" if "x \<in> set ys" for x
      using 2(10) that by (intro sized_leaves) (simp add: cs)
    then show ?thesis using 2(11) by (simp del: sized.simps) blast
  qed
  have le: "nx' \<le> snd (snd r)" using split_node_pages [of p "replace_child xs u ys c' sp" nx' mi] by (simp add: r takes_pages_def)
  obtain s where s: "insert_into b (word_of_nat (page_of c)) k v =
      Some (Inr (outcome_of (k \<notin> fst ` set (entries_of c)) sp, b\<lparr>bt_store := s, next_page_id := word_of_nat nx'\<rparr>))"
      "ps_page_size s = bt_page_size b"
      "inserted (pages b) (pages (b\<lparr>bt_store := s\<rparr>)) c (A @ leaves_in xs) (leaves_in ys @ B) nx (c', sp, nx')"
    using 2(1) [OF d refl 2(2-7) in_place_child [OF 2(8) cs] c(1,2) sib _ res [symmetric]] room_mono [OF 2(12) le] by auto
  note ok = tree_insert_ok [OF c(1) pos, of k v nx, unfolded res] and szd = tree_insert_sized [OF c(1) pos 2(6,7) c(2) [folded 2(2,3)], of nx, unfolded res]
  have ord': "children_ordered (replace_child xs u ys c' sp)"
    using ok routed_children [OF rt ord, of c'] routed_split_children [OF rt ord, of c' _ _ nx']
    by (auto simp: replace_child_def well_split_def split: option.splits)
  have sz': "\<forall>x\<in>set (replace_child xs u ys c' sp). tree_sized b (fst x) \<and> (\<forall>s\<in>set_option (snd x). length s = unat (bt_key_size b))"
  proof -
    have "\<forall>(s, e)\<in>set_option sp. length s = unat (bt_key_size b)"
      using ok sized_marks [OF c(2)] 2(6) by (fastforce simp: well_split_def)
    with 2(2,3,10) szd c(3) show ?thesis
      by (cases sp; cases "the sp") (simp_all add: replace_child_def cs)
  qed
  let ?b = "b\<lparr>bt_store := s, next_page_id := word_of_nat nx'\<rparr>" and ?W = "pages (b\<lparr>bt_store := s\<rparr>)"
  have fb: "fits ?b" "pages ?b = ?W" using 2(4) s(2) by (simp_all add: fits_def)
  have tp: "takes_pages (tree_pages c) nx (c', sp, nx')" using tree_insert_pages [of c nx ml mi k v] res by simp
  have pp: "p \<notin> set (pages_of c)" "p \<notin> fst ` set (leaves_in ys @ B)" "p < nx"
    using distinct_parts(2) [OF in_place_lists(1) [OF 2(8) [unfolded cs]]] in_place_page(3) [OF 2(8), of "(c, u)"]
    by (auto simp: pages_of_def cs)
  have Vp: "pages b p = Some (InternalPage (node_of cs))" using 2(8) by (simp add: in_place_def)
  then have Wp: "pages ?b p = Some (InternalPage (node_of (xs @ (c, u) # ys)))"
    using s(3) pp fb(2) by (simp add: inserted_def cs)
  have pnx: "p < nx'" using pp(3) tp by (simp add: takes_pages_def)
  have cnt: "child_counts (k \<notin> fst ` set (entries_of c)) c c' sp" by (rule tree_insert_counts [OF c(1) pos res])
  have page: "page_of c' = page_of c" using tree_insert_page [of ml mi k v nx c] res by simp
  obtain s2 where s2: "after_child ?b (word_of_nat p) (node_of (xs @ (c, u) # ys)) (idx_of xs ys) (outcome_of (k \<notin> fst ` set (entries_of c)) sp) =
      Inr (outcome_of (k \<notin> fst ` set (entries_of c)) (fst (snd r)), ?b\<lparr>bt_store := s2, next_page_id := word_of_nat (snd (snd r))\<rparr>)"
      "stored ?b s2 (put_nodes ?W (result_trees r))"
    using after_child_pages [OF fb(1) _ pnx Wp routed_last [OF rt ord] page cnt ord', of r] sz' lencs 2(2,3,12) r fb(2) by auto
  have "insert_into b (word_of_nat p) k v =
      Some (Inr (outcome_of (k \<notin> fst ` set (entries_of c)) (fst (snd r)), b\<lparr>bt_store := s2, next_page_id := word_of_nat (snd (snd r))\<rparr>))"
    using pages_Internal [OF Vp] node_of_children [OF rt ord] s(1) s2(1) by (subst insert_into.simps) (simp add: cs)
  moreover have "inserted (pages b) (put_nodes ?W (result_trees r)) (Nd p cs) A B nx r"
    unfolding r by (rule node_inserted [OF 2(8) cs s(3) tp])
  moreover have "pages (b\<lparr>bt_store := s2\<rparr>) = put_nodes ?W (result_trees r)" "ps_page_size s2 = bt_page_size b"
    using s2(2) by (simp_all add: stored_def)
  moreover have "(k \<notin> fst ` set (entries_of (Nd p cs))) = (k \<notin> fst ` set (entries_of c))"
    using routed_member [OF rt ord, of p] by blast
  ultimately show ?case unfolding page_of.simps by (intro exI [of _ s2] conjI) (simp_all only:)
qed

end
