(* ===== verification/Btree_Store.thy ===== *)
theory Btree_Store
  imports Btree_Write
begin

text \<open>
  The operations of the B+tree as a whole: that \<open>create\<close>, \<open>insert\<close> and \<open>remove\<close> leave a file
  that holds an ordered tree and opens to the record in memory, and that every query answers
  from the sorted entries.
\<close>

section \<open>The superblock\<close>

definition synced :: "btree \<Rightarrow> bool" where
  "synced b \<longleftrightarrow> btree_open (ps_file (bt_store b)) = Inr b"

lemma write_superblock_ok:
  assumes f: "fits b"
  shows "\<exists>s. write_superblock b = Inr (b\<lparr>bt_store := s\<rparr>) \<and> stored b s ((pages b)(0 := None)) \<and> synced (b\<lparr>bt_store := s\<rparr>)"
proof -
  let ?sb = "\<lparr>sb_page_size = bt_page_size b, sb_key_size = bt_key_size b, sb_value_size = bt_value_size b,
    sb_root_page_id = root_page_id b, sb_total_count = total_count b, sb_next_page_id = next_page_id b\<rparr>"
  note sz = fits_page_size [OF f]
  have "validate_page_size (sb_page_size ?sb) = Inr ()" "SB_HEADER_LEN \<le> unat (bt_page_size b)"
    using f sz(1) by (simp_all add: fits_def SB_HEADER_LEN_def)
  from sb_decode_encode [OF this] obtain bs where bs: "sb_encode ?sb (bt_page_size b) = Inr bs" "length bs = unat (bt_page_size b)"
      "page_type bs = Inl (Bail ''unrecognized page type byte'' [])" "sb_decode (take SB_HEADER_LEN bs) = Inr ?sb"
    by blast
  have "addressable (bt_page_size b) 0"
    using unsigned_less [of "bt_page_size b", where ?'a = nat] by (simp add: addressable_def)
  with write_page_pages [OF f this bs(2), of None] bs(3)
  obtain s where s: "on_store b (write_page (bt_store b) 0 bs) = Inr (b\<lparr>bt_store := s\<rparr>)" "stored b s ((pages b)(0 := None))"
    by auto
  have fl: "take 44 (ps_file s) = take 44 bs" "44 \<le> length (ps_file s)" "ps_page_size s = bt_page_size b"
  proof -
    let ?s = "(bt_store b)\<lparr>ps_file := bs @ drop (length bs) (ps_file (bt_store b))\<rparr>"
    have "write_page (bt_store b) 0 bs = Inr ?s" using bs(2) sz by (simp add: write_page_def page_offset_def Let_def)
    then have "b\<lparr>bt_store := ?s\<rparr> = b\<lparr>bt_store := s\<rparr>" using s(1) by (simp add: on_store_def)
    then have "s = ?s" by (metis btree.select_convs(1) btree.surjective btree.update_convs(1))
    then show "take 44 (ps_file s) = take 44 bs" "44 \<le> length (ps_file s)" "ps_page_size s = bt_page_size b"
      using bs(2) sz by simp_all
  qed
  have "ps_open (ps_file s) (bt_page_size b) = s" using fl(3) by (simp add: ps_open_def)
  then have "synced (b\<lparr>bt_store := s\<rparr>)"
    using fl bs(4) f by (simp add: synced_def btree_open_def SB_HEADER_LEN_def fits_def)
  then show ?thesis using s bs(1) by (intro exI [of _ s]) (simp add: write_superblock_def)
qed

section \<open>The tree of a file\<close>

definition grow :: "split_result \<Rightarrow> tree \<times> nat" where
  "grow r =
     (case r of
        (t, None, nx) \<Rightarrow> (t, nx)
      | (t, Some (s, d), nx) \<Rightarrow> (Nd nx [(t, Some s), (d, None)], Suc nx))"

lemma grow_ok:
  assumes "well_split M r" "grow r = (t', nx')"
  shows "ordered t'" "entries_of t' = result_entries r"
proof -
  obtain t sp nx where r: "r = (t, sp, nx)" using prod_cases3 by blast
  have "ordered t' \<and> entries_of t' = result_entries r"
  proof (cases sp)
    case None
    then show ?thesis using assms by (simp add: r grow_def well_split_def result_entries_def)
  next
    case (Some sd)
    obtain s d where "sp = Some (s, d)" using Some by force
    then show ?thesis using assms by (auto simp: r grow_def well_split_def result_entries_def children_ordered_def before_def)
  qed
  then show "ordered t'" "entries_of t' = result_entries r" by blast+
qed

lemma grow_pages:
  assumes "takes_pages P nx r" "grow r = (t', nx')"
  shows "tree_pages t' = P + mset [nx..<nx']" "nx \<le> nx'" "snd (snd r) \<le> nx'"
proof -
  obtain t sp m where r: "r = (t, sp, m)" using prod_cases3 by blast
  have "tree_pages t' = P + mset [nx..<nx'] \<and> nx \<le> nx' \<and> m \<le> nx'"
  proof (cases sp)
    case None
    then show ?thesis using assms by (simp add: r grow_def takes_pages_def del: mset_upt)
  next
    case (Some sd)
    obtain s d where "sp = Some (s, d)" using Some by force
    then show ?thesis using assms by (auto simp: r grow_def takes_pages_def simp del: mset_upt)
  qed
  then show "tree_pages t' = P + mset [nx..<nx']" "nx \<le> nx'" "snd (snd r) \<le> nx'" by (simp_all add: r)
qed

definition next_page :: "tree \<Rightarrow> nat" where
  "next_page t = Suc (length (pages_of t))"

text \<open>
  The file of \<open>b\<close> holds the tree \<open>t\<close>: its pages are numbered from 1 without a gap and are those
  of \<open>t\<close>, each with its node; the leaves are linked in order; the counts are those of \<open>t\<close>.
\<close>

definition holds_tree :: "btree \<Rightarrow> tree \<Rightarrow> bool" where
  "holds_tree b t \<longleftrightarrow>
     fits b \<and> in_place (pages b) t [] [] (next_page t) \<and> ordered t \<and> tree_sized b t \<and>
     tree_pages t = mset [1..<next_page t] \<and> room (bt_page_size b) (next_page t) \<and>
     next_page_id b = word_of_nat (next_page t) \<and> root_page_id b = word_of_nat (page_of t) \<and> total_count b = count_of t"

lemma tree_pages_next: "tree_pages t = mset [1..<n] \<Longrightarrow> 0 < n \<Longrightarrow> next_page t = n"
proof -
  assume e: "tree_pages t = mset [1..<n]" and n: "0 < n"
  have "length (pages_of t) = length [1..<n]" by (rule mset_eq_length [OF e [unfolded tree_pages_def]])
  then show ?thesis using n by (simp add: next_page_def)
qed

lemma tree_pages_place:
  assumes "tree_pages t = mset [1..<n]"
  shows "distinct (pages_of t)" "\<forall>i\<in>set (pages_of t). 0 < i \<and> i < n"
proof -
  note e = assms [unfolded tree_pages_def]
  show "distinct (pages_of t)" using mset_eq_imp_distinct_iff [OF e] by simp
  show "\<forall>i\<in>set (pages_of t). 0 < i \<and> i < n" using mset_eq_setD [OF e] by auto
qed

section \<open>Insertion\<close>

text \<open>The root after \<open>insert_into\<close> returned: a new root above the two halves when it split.\<close>

lemma grow_root_ok:
  assumes f: "fits b" and nx: "next_page_id b = word_of_nat nx" and root: "root_page_id b = word_of_nat (page_of t)"
    and tot: "total_count b + bump new = word_of_nat (length (result_entries (t, sp, nx)))"
    and ins: "\<forall>d\<in>set (result_trees (t, sp, nx)). inner (pages b) d"
      "linked (pages b) 0 (concat (map leaves (result_trees (t, sp, nx)))) 0"
    and w: "well_split M (t, sp, nx)" "\<forall>d\<in>set (result_trees (t, sp, nx)). tree_sized b d" "\<forall>m\<in>M. length m = unat (bt_key_size b)"
    and g: "grow (t, sp, nx) = (t', nx')" and room: "room (bt_page_size b) nx'"
    and pg: "pages_in (result_trees (t, sp, nx)) = mset [1..<nx]" and pos: "0 < nx"
  shows "\<exists>b'. grow_root b (word_of_nat (page_of t)) (outcome_of new sp) = Inr b' \<and> holds_tree b' t'"
proof (cases sp)
  case None
  then have t': "t' = t" "nx' = nx" using g by (simp_all add: grow_def)
  have "tree_pages t = mset [1..<nx]" using pg None by (simp del: mset_upt)
  note tp = this tree_pages_next [OF this pos] tree_pages_place [OF this]
  have "fits (b\<lparr>total_count := total_count b + bump new\<rparr>)" using f by (simp add: fits_def)
  then have "holds_tree (b\<lparr>total_count := total_count b + bump new\<rparr>) t"
    using nx root tot ins w tp room t'
    by (simp add: holds_tree_def None in_place_def pages_of_def count_of_def well_split_def result_entries_def del: mset_upt)
  then show ?thesis by (simp add: grow_root_def outcome_of_def None t')
next
  case (Some sd)
  obtain s d where sp: "sp = Some (s, d)" using Some by force
  have t': "t' = Nd nx [(t, Some s), (d, None)]" "nx' = Suc nx" using g by (simp_all add: grow_def sp)
  let ?n = "\<lparr>in_entries = [(s, word_of_nat (page_of t), total_count b + bump new - count_of d)],
    rightmost_child = word_of_nat (page_of d), rightmost_count = count_of d\<rparr>"
  have cnt: "total_count b + bump new - count_of d = count_of t"
    using tot by (simp add: result_entries_def sp count_of_def)
  have n: "?n = node_of [(t, Some s), (d, None)]" unfolding cnt by (simp add: node_of_def child_entry_def)
  have s: "length s = unat (bt_key_size b)" using w(1,3) by (auto simp: well_split_def sp)
  let ?b = "b\<lparr>next_page_id := word_of_nat (Suc nx)\<rparr>"
  have fb: "fits ?b" using f by (simp add: fits_def)
  have "internal_fits (bt_page_size b) (bt_key_size b) ?n"
    using f s by (intro internal_fits_sized) (auto simp: fits_def)
  moreover have "addressable (bt_page_size b) nx" using room_addressable [OF room] t'(2) by simp
  ultimately obtain st where st: "write_internal ?b (word_of_nat nx) ?n = Inr (?b\<lparr>bt_store := st\<rparr>)"
      "stored b st ((pages b)(nx \<mapsto> InternalPage ?n))"
    using write_internal_pages [OF fb, of nx ?n] by auto
  let ?b' = "?b\<lparr>bt_store := st, root_page_id := word_of_nat nx, total_count := total_count b + bump new\<rparr>"
  have pages': "pages ?b' = (pages b)(nx \<mapsto> InternalPage ?n)" using st(2) by (simp add: stored_def)
  have "tree_pages t' = mset [1..<Suc nx]" using pg pos by (simp add: t' sp del: mset_upt)
  note tp = this tree_pages_next [OF this] tree_pages_place [OF this]
  have nxt: "nx \<notin> set (inner_pages t)" "nx \<notin> set (inner_pages d)" "nx \<notin> fst ` set (leaves t @ leaves d)"
  proof -
    have "tree_pages t + tree_pages d = mset [1..<nx]" using pg by (simp add: sp del: mset_upt)
    then have "i < nx" if "i \<in># tree_pages t + tree_pages d" for i using that by (simp only:) simp
    then show "nx \<notin> set (inner_pages t)" "nx \<notin> set (inner_pages d)" "nx \<notin> fst ` set (leaves t @ leaves d)"
      by (fastforce simp: tree_pages_def pages_of_def)+
  qed
  have "holds_tree ?b' t'"
    unfolding holds_tree_def
  proof (intro conjI)
    show "fits ?b'" using f st(2) by (simp add: fits_def stored_def)
    show "in_place (pages ?b') t' [] [] (next_page t')"
      unfolding pages' using ins nxt tp n by (simp add: in_place_def t' sp pages_of_def del: mset_upt)
    show "ordered t'" using grow_ok(1) [OF w(1) g] .
    show "tree_sized ?b' t'" using w(2) s f by (simp add: t' sp fits_def)
    show "tree_pages t' = mset [1..<next_page t']" using tp(1,2) by (simp del: mset_upt)
    show "room (bt_page_size ?b') (next_page t')" using room tp(2) t'(2) by simp
    show "total_count ?b' = count_of t'" using tot by (simp add: t' count_of_def result_entries_def sp)
  qed (use tp(2) in \<open>simp_all add: t'\<close>)
  moreover have "grow_root b (word_of_nat (page_of t)) (outcome_of new sp) = Inr ?b'"
    using st(1) nx by (simp add: grow_root_def outcome_of_def sp allocate_page_def Let_def add.commute)
  ultimately show ?thesis by blast
qed

lemma in_place_cong: "V 0 = None \<or> W = V(0 := None) \<Longrightarrow> in_place V t [] [] nx \<Longrightarrow> W = V(0 := None) \<Longrightarrow> in_place W t [] [] nx"
proof -
  assume p: "in_place V t [] [] nx" and W: "W = V(0 := None)"
  have "0 \<notin> set (map fst (leaves t) @ inner_pages t)" using p by (auto simp: in_place_def)
  then show ?thesis using p by (simp add: in_place_def W)
qed

lemma superblock_holds:
  assumes "holds_tree b t"
  shows "\<exists>b'. write_superblock b = Inr b' \<and> holds_tree b' t \<and> synced b' \<and>
    bt_key_size b' = bt_key_size b \<and> bt_value_size b' = bt_value_size b \<and> bt_page_size b' = bt_page_size b"
proof -
  have f: "fits b" using assms by (simp add: holds_tree_def)
  obtain s where s: "write_superblock b = Inr (b\<lparr>bt_store := s\<rparr>)" "stored b s ((pages b)(0 := None))" "synced (b\<lparr>bt_store := s\<rparr>)"
    using write_superblock_ok [OF f] by blast
  have "in_place (pages (b\<lparr>bt_store := s\<rparr>)) t [] [] (next_page t)"
    using in_place_cong [OF _ _ stored_pages [OF s(2)]] assms stored_pages [OF s(2)] by (simp add: holds_tree_def)
  moreover have "fits (b\<lparr>bt_store := s\<rparr>)" using f s(2) by (simp add: fits_def stored_def)
  ultimately have "holds_tree (b\<lparr>bt_store := s\<rparr>) t" using assms by (simp add: holds_tree_def)
  then show ?thesis using s by (intro exI [of _ "b\<lparr>bt_store := s\<rparr>"]) simp
qed

lemma mset_upt_join: "l \<le> m \<Longrightarrow> m \<le> n \<Longrightarrow> mset [l..<m] + mset [m..<n] = mset [l..<n]"
  by (metis le_add_diff_inverse mset_append upt_add_eq_append)

definition insert_tree :: "btree \<Rightarrow> bytes \<Rightarrow> bytes \<Rightarrow> tree \<Rightarrow> tree" where
  "insert_tree b k v t = fst (grow (tree_insert (bt_max_leaf b) (bt_max_internal b) k v (next_page t) t))"

lemma insert_tree_facts:
  assumes h: "holds_tree b t"
  shows "entries_of (insert_tree b k v t) = upsert k v (entries_of t)" and "ordered (insert_tree b k v t)"
    and "grow (tree_insert (bt_max_leaf b) (bt_max_internal b) k v (next_page t) t) = (insert_tree b k v t, next_page (insert_tree b k v t))"
proof -
  let ?r = "tree_insert (bt_max_leaf b) (bt_max_internal b) k v (next_page t) t"
  obtain t' nx' where g: "grow ?r = (t', nx')" by force
  then have t': "insert_tree b k v t = t'" by (simp add: insert_tree_def)
  have o: "ordered t" "0 < bt_max_leaf b" "0 < bt_max_internal b" using h by (auto simp: holds_tree_def fits_def)
  note ok = tree_insert_ok [OF o, of k v "next_page t"]
  show "entries_of (insert_tree b k v t) = upsert k v (entries_of t)" "ordered (insert_tree b k v t)"
    using grow_ok [OF conjunct1 [OF ok] g] ok t' by simp_all
  have "tree_pages t' = mset [1..<next_page t] + mset [next_page t..<nx']" "next_page t \<le> nx'"
    using grow_pages [OF tree_insert_pages g] h by (simp_all add: holds_tree_def del: mset_upt)
  then have "tree_pages t' = mset [1..<nx']" using mset_upt_join [of 1 "next_page t" nx'] by (simp add: next_page_def del: mset_upt)
  moreover have "0 < nx'" using \<open>next_page t \<le> nx'\<close> by (simp add: next_page_def)
  ultimately show "grow ?r = (insert_tree b k v t, next_page (insert_tree b k v t))"
    using tree_pages_next g t' by simp
qed

lemma btree_insert_holds:
  assumes h: "holds_tree b t" and kv: "length k = unat (bt_key_size b)" "length v = unat (bt_value_size b)"
    and room: "room (bt_page_size b) (next_page (insert_tree b k v t))"
  shows "\<exists>b'. btree_insert b k v = Some (Inr b') \<and> holds_tree b' (insert_tree b k v t) \<and> synced b' \<and>
    bt_key_size b' = bt_key_size b \<and> bt_value_size b' = bt_value_size b \<and> bt_page_size b' = bt_page_size b"
proof -
  let ?ml = "bt_max_leaf b" and ?mi = "bt_max_internal b" and ?nx = "next_page t"
  obtain t' sp nx' where r: "tree_insert ?ml ?mi k v ?nx t = (t', sp, nx')" using prod_cases3 by blast
  have f: "fits b" and place: "in_place (pages b) t [] [] ?nx" and ord: "ordered t" and sz: "tree_sized b t"
    and tp: "tree_pages t = mset [1..<?nx]" and nx: "next_page_id b = word_of_nat ?nx"
    and root: "root_page_id b = word_of_nat (page_of t)" and tot: "total_count b = count_of t"
    using h by (auto simp: holds_tree_def)
  have pos: "0 < ?ml" "0 < ?mi" using f by (simp_all add: fits_def)
  note g = insert_tree_facts(3) [OF h, of k v, unfolded r]
  note tak = tree_insert_pages [of t ?nx ?ml ?mi k v, unfolded r]
  have le: "nx' \<le> next_page (insert_tree b k v t)" using grow_pages(3) [OF tak g] by simp
  have none: "\<forall>(q, es)\<in>set []. tree_sized b (Lf q es)" by simp
  from insert_into_pages [OF refl refl f nx kv place ord sz none _ r [symmetric], unfolded fst_conv snd_conv, OF room_mono [OF room le]]
  obtain s where s: "insert_into b (word_of_nat (page_of t)) k v =
      Some (Inr (outcome_of (k \<notin> fst ` set (entries_of t)) sp, b\<lparr>bt_store := s, next_page_id := word_of_nat nx'\<rparr>))"
      "ps_page_size s = bt_page_size b" "inserted (pages b) (pages (b\<lparr>bt_store := s\<rparr>)) t [] [] ?nx (t', sp, nx')"
    by blast
  let ?b = "b\<lparr>bt_store := s, next_page_id := word_of_nat nx'\<rparr>"
  note ok = tree_insert_ok [OF ord pos, of k v ?nx, unfolded r]
  have len: "length (result_entries (t', sp, nx')) = length (entries_of t) + (if k \<in> fst ` set (entries_of t) then 0 else 1)"
    using ok length_upsert [OF ordered_entries [OF ord], of k v] by simp
  have "pages_in (result_trees (t', sp, nx')) = mset [1..<?nx] + mset [?nx..<nx']" "?nx \<le> nx'"
    using tak unfolding takes_pages_def tp snd_conv by blast+
  moreover have "1 \<le> ?nx" by (simp add: next_page_def)
  ultimately have pg: "pages_in (result_trees (t', sp, nx')) = mset [1..<nx']" using mset_upt_join [of 1 ?nx nx'] by metis
  have "\<exists>b'. grow_root ?b (word_of_nat (page_of t')) (outcome_of (k \<notin> fst ` set (entries_of t)) sp) = Inr b' \<and> holds_tree b' (insert_tree b k v t)"
  proof (rule grow_root_ok [OF _ _ _ _ _ _ conjunct1 [OF ok] _ _ g])
    show "fits ?b" using f s(2) by (simp add: fits_def)
    show "root_page_id ?b = word_of_nat (page_of t')" using root tree_insert_page [of ?ml ?mi k v ?nx t] r by simp
    show "total_count ?b + bump (k \<notin> fst ` set (entries_of t)) = word_of_nat (length (result_entries (t', sp, nx')))"
      using tot len by (simp add: count_of_def bump_def)
    show "\<forall>d\<in>set (result_trees (t', sp, nx')). inner (pages ?b) d" "linked (pages ?b) 0 (concat (map leaves (result_trees (t', sp, nx')))) 0"
      using s(3) by (simp_all add: inserted_def)
    show "\<forall>d\<in>set (result_trees (t', sp, nx')). tree_sized ?b d"
      using tree_insert_sized [OF ord pos kv sz, of ?nx, unfolded r] by simp
    show "\<forall>m\<in>insert k (marks t). length m = unat (bt_key_size ?b)" using sized_marks [OF sz] kv(1) by auto
    show "0 < nx'" using \<open>?nx \<le> nx'\<close> by (simp add: next_page_def)
  qed (use room pg in simp_all)
  then obtain b1 where b1: "grow_root ?b (word_of_nat (page_of t')) (outcome_of (k \<notin> fst ` set (entries_of t)) sp) = Inr b1"
    "holds_tree b1 (insert_tree b k v t)" by blast
  have same: "bt_key_size b1 = bt_key_size b" "bt_value_size b1 = bt_value_size b" "bt_page_size b1 = bt_page_size b"
    using b1(1) by (auto simp: grow_root_def outcome_of_def write_internal_def on_store_def allocate_page_def Let_def split: option.splits prod.splits)
  have "btree_insert b k v = Some (write_superblock b1)"
    using kv s(1) b1(1) root tree_insert_page [of ?ml ?mi k v ?nx t] r by (simp add: btree_insert_def check_key_def)
  then show ?thesis using superblock_holds [OF b1(2)] same by auto
qed

end
