(* ===== verification/Btree_Read.thy ===== *)
theory Btree_Read
  imports Btree_Store
begin

text \<open>
  The queries of the B+tree on a file that holds a tree: each descent and each walk along the
  leaves returns, and returns what the sorted entries say.
\<close>

section \<open>Leaves that can be read\<close>

lemma linked_pages: "linked V m ls n \<Longrightarrow> (p, es) \<in> set ls \<Longrightarrow> \<exists>a c. V p = Some (LeafPage \<lparr>ln_prev = a, ln_next = c, ln_entries = es\<rparr>)"
  by (induction V m ls n rule: linked.induct) auto

definition readable :: "page_map \<Rightarrow> tree \<Rightarrow> bool" where
  "readable V t \<longleftrightarrow> inner V t \<and> (\<forall>(p, es)\<in>set (leaves t). \<exists>a c. V p = Some (LeafPage \<lparr>ln_prev = a, ln_next = c, ln_entries = es\<rparr>))"

lemma in_place_readable: "in_place V t A B nx \<Longrightarrow> readable V t"
  using linked_pages [of V 0 "A @ leaves t @ B" 0] by (auto simp: in_place_def readable_def)

lemma readable_child: "readable V (Nd p cs) \<Longrightarrow> x \<in> set cs \<Longrightarrow> readable V (fst x)"
  by (fastforce simp: readable_def)

lemma readable_Lf: "readable (pages b) (Lf p es) \<Longrightarrow> \<exists>n. ln_entries n = es \<and> read_node b (word_of_nat p) = Inr (LeafPage n)"
  using pages_Leaf [of b p] by (fastforce simp: readable_def)

lemma readable_Nd: "readable (pages b) (Nd p cs) \<Longrightarrow> read_node b (word_of_nat p) = Inr (InternalPage (node_of cs))"
  using pages_Internal [of b p] by (simp add: readable_def)

lemma routed_in: "routed k cs xs c u ys \<Longrightarrow> (c, u) \<in> set cs"
  by (simp add: routed_def)

lemma routed_ex:
  assumes "children_ordered cs"
  shows "\<exists>xs c u ys. routed k cs xs c u ys"
  by (rule routed_exists [of cs k]) (use assms in \<open>auto simp: children_ordered_def\<close>)

text \<open>Induction along the way of a key.\<close>

lemma descent_induct [consumes 2, case_names leaf node]:
  assumes "ordered t" "readable V t"
    and leaf: "\<And>p es. ascending es \<Longrightarrow> readable V (Lf p es) \<Longrightarrow> P (Lf p es)"
    and node: "\<And>p cs xs c u ys. children_ordered cs \<Longrightarrow> readable V (Nd p cs) \<Longrightarrow> routed k cs xs c u ys \<Longrightarrow> P c \<Longrightarrow> P (Nd p cs)"
  shows "P t"
  using assms(1,2)
proof (induction t)
  case (Lf p es)
  then show ?case using leaf by simp
next
  case (Nd p cs)
  then have ord: "children_ordered cs" by simp
  then obtain xs c u ys where r: "routed k cs xs c u ys" using routed_ex by blast
  then have c: "(c, u) \<in> set cs" by (rule routed_in)
  then have "ordered c" "readable V c" using ord readable_child [OF Nd.prems(2) c] by (auto simp: children_ordered_def)
  then have "P c" using Nd.IH [OF c] by simp
  then show ?case using node [OF ord Nd.prems(2) r] by blast
qed

section \<open>Membership\<close>

lemma find_position:
  "(case find P xs of Some x \<Rightarrow> f x | None \<Rightarrow> z) = (case position P xs of Some i \<Rightarrow> f (xs ! i) | None \<Rightarrow> z)"
  by (induction xs) (auto split: option.splits)

lemma contains_loop_ok:
  assumes "ordered t" "readable (pages b) t"
  shows "contains_loop b k (word_of_nat (page_of t)) = Some (Inr (k \<in> fst ` set (entries_of t)))"
  using assms
proof (induction rule: descent_induct [where k = k])
  case (leaf p es)
  obtain n where "ln_entries n = es" "read_node b (word_of_nat p) = Inr (LeafPage n)" using readable_Lf [OF leaf(2)] by blast
  then show ?case using binary_search_spec [OF leaf(1), of k] by (subst contains_loop.simps) simp
next
  case (node p cs xs c u ys)
  have "(case find (\<lambda>(s, _). k < s) (in_entries (node_of cs)) of Some (_, child, _) \<Rightarrow> child | None \<Rightarrow> rightmost_child (node_of cs)) =
      word_of_nat (page_of c)"
    using node_of_children [OF node(3,1)] unfolding find_position child_index_def [symmetric] child_at_def
    by (auto split: option.splits prod.splits)
  then show ?case using node(4) routed_member [OF node(3,1), of p] readable_Nd [OF node(2)]
    by (subst contains_loop.simps) (simp del: entries_Nd)
qed

section \<open>Ranks of keys\<close>

abbreviation entries_in :: "(tree \<times> bytes option) list \<Rightarrow> entries" where
  "entries_in cs \<equiv> concat (map (\<lambda>x. entries_of (fst x)) cs)"

lemma key_child_routed:
  assumes "routed k cs xs c u ys" "children_ordered cs"
  shows "key_child k (in_entries (node_of cs)) (rightmost_child (node_of cs)) passed =
    (word_of_nat (page_of c), passed + word_of_nat (length (entries_in xs)))"
proof -
  have step: "key_child k (map child_entry xs @ es) rm passed = key_child k es rm (passed + word_of_nat (length (entries_in xs)))"
    if "\<forall>e\<in>set (map child_entry xs). \<not> (case e of (s, _) \<Rightarrow> k < s)" for es rm passed
    using that
  proof (induction xs arbitrary: passed)
    case (Cons x xs)
    then show ?case by (simp add: child_entry_def count_of_def add.assoc)
  qed simp
  have cs: "cs = xs @ (c, u) # ys" and u: "below k u" using assms(1) by (auto simp: routed_def)
  show ?thesis
  proof (cases "ys = []")
    case True
    then show ?thesis using step [OF xs_not_below [OF assms(1)], of "[]"] by (simp add: cs node_of_def)
  next
    case False
    then obtain s where "u = Some s" using routed_last [OF assms] by auto
    then show ?thesis using False u step [OF xs_not_below [OF assms(1)], of "child_entry (c, u) # map child_entry (butlast ys)"]
      by (simp add: cs node_of_def butlast_append child_entry_def)
  qed
qed

lemma smaller_none: "\<forall>e\<in>set es. k < fst e \<Longrightarrow> smaller k es = []"
  for k :: bytes
  by (cases es) auto

lemma smaller_routed:
  assumes "routed k cs xs c u ys" "children_ordered cs"
  shows "smaller k (entries_of (Nd p cs)) = entries_in xs @ smaller k (entries_of c)"
proof -
  have cs: "cs = xs @ (c, u) # ys" using assms(1) by (simp add: routed_def)
  have "smaller k (entries_in ys) = []" by (rule smaller_none [OF routed_keys(2) [OF assms]])
  then have right: "smaller k (es @ entries_in ys) = smaller k es" for es by (induction es) auto
  have left: "smaller k (entries_in xs @ es) = entries_in xs @ smaller k es" for es
    by (rule takeWhile_append2) (use routed_keys(1) [OF assms] in blast)
  have "entries_of (Nd p cs) = entries_in xs @ entries_of c @ entries_in ys" by (simp add: cs)
  then show ?thesis unfolding left right by (simp only: left right)
qed

lemma rank_of_key_loop_ok:
  assumes "ordered t" "readable (pages b) t"
  shows "rank_of_key_loop b k (word_of_nat (page_of t)) passed =
    Some (Inr (if k \<in> fst ` set (entries_of t) then Some (passed + word_of_nat (length (smaller k (entries_of t)))) else None))"
  using assms
proof (induction arbitrary: passed rule: descent_induct [where k = k])
  case (leaf p es)
  obtain n where "ln_entries n = es" "read_node b (word_of_nat p) = Inr (LeafPage n)" using readable_Lf [OF leaf(2)] by blast
  then show ?case using binary_search_spec [OF leaf(1), of k] by (subst rank_of_key_loop.simps) simp
next
  case (node p cs xs c u ys)
  show ?case
    using node(4) [of "passed + word_of_nat (length (entries_in xs))"] routed_member [OF node(3,1), of p] smaller_routed [OF node(3,1), of p]
      readable_Nd [OF node(2)] key_child_routed [OF node(3,1), of passed]
    by (subst rank_of_key_loop.simps) (simp add: add.assoc del: entries_Nd)
qed

text \<open>The entries up to a key, counted with those of the subtrees passed on the left.\<close>

abbreviation at_most :: "bytes \<Rightarrow> entries \<Rightarrow> entries" where
  "at_most k es \<equiv> takeWhile (\<lambda>e. fst e \<le> k) es"

lemma at_most_smaller:
  assumes "ascending es"
  shows "length (at_most k es) = length (smaller k es) + (if k \<in> fst ` set es then 1 else 0)"
  using assms
proof (rule split_at_key [of es k])
  fix A C assume *: "es = A @ C" "\<forall>e\<in>set A. fst e < k" "\<forall>e\<in>set C. k < fst e" "k \<notin> fst ` set es"
  have "at_most k (A @ C) = A" using *(2,3) by (cases C) (auto simp: takeWhile_eq_all_conv less_imp_le intro!: takeWhile_append2)
  moreover have "smaller k (A @ C) = A" using *(2,3) by (intro smaller_at) (auto simp: less_imp_le)
  ultimately show ?thesis using * by simp
next
  fix A x C assume *: "es = A @ (k, x) # C" "\<forall>e\<in>set A. fst e < k" "\<forall>e\<in>set C. k < fst e" "k \<in> fst ` set es"
  have "at_most k (A @ (k, x) # C) = A @ [(k, x)]" using *(2,3) by (cases C) (auto simp: less_imp_le)
  moreover have "smaller k (A @ (k, x) # C) = A" using *(2,3) by (intro smaller_at) (auto simp: less_imp_le)
  ultimately show ?thesis using * by simp
qed

lemma at_most_routed:
  assumes "routed k cs xs c u ys" "children_ordered cs" "ordered c"
  shows "length (at_most k (entries_of (Nd p cs))) = length (entries_in xs) + length (at_most k (entries_of c))"
proof -
  have "ascending (entries_of (Nd p cs))" using assms(2) by (intro ordered_entries) simp
  then show ?thesis
    using at_most_smaller [of "entries_of (Nd p cs)" k] at_most_smaller [OF ordered_entries [OF assms(3)], of k]
      smaller_routed [OF assms(1,2), of p] routed_member [OF assms(1,2), of p] by simp
qed

definition floor_rank :: "u64 \<Rightarrow> u64 option" where
  "floor_rank n = (if n = 0 then None else Some (n - 1))"

lemma rank_of_floor_loop_ok:
  assumes "ordered t" "readable (pages b) t" "unat passed + length (entries_of t) < 2 ^ 64"
  shows "rank_of_floor_loop b k (word_of_nat (page_of t)) passed =
    Some (Inr (floor_rank (passed + word_of_nat (length (at_most k (entries_of t))))))"
  using assms
proof (induction arbitrary: passed rule: descent_induct [where k = k])
  case (leaf p es)
  obtain n where n: "ln_entries n = es" "read_node b (word_of_nat p) = Inr (LeafPage n)" using readable_Lf [OF leaf(2)] by blast
  let ?i = "length (smaller k es)"
  have i: "?i \<le> length es" by (rule length_takeWhile_le)
  have nz: "passed + word_of_nat j \<noteq> 0" if "0 < j" "j \<le> length es" for j
  proof
    assume "passed + word_of_nat j = 0"
    moreover have "unat (passed + word_of_nat j) = unat passed + j"
      using leaf(3) that by (simp add: unat_word_ariths unat_of_nat)
    ultimately show False using that(1) by simp
  qed
  show ?case
  proof (cases "k \<in> fst ` set es")
    case True
    then have "?i < length es" using at_most_smaller [OF leaf(1), of k] length_takeWhile_le [of "\<lambda>e. fst e \<le> k" es] by simp
    then show ?thesis using True n binary_search_spec [OF leaf(1), of k] at_most_smaller [OF leaf(1), of k] nz [of "Suc ?i"]
      by (subst rank_of_floor_loop.simps) (simp add: floor_rank_def algebra_simps)
  next
    case False
    then have len: "length (at_most k es) = ?i" and bs: "binary_search es k = ErrAt ?i"
      using binary_search_spec [OF leaf(1), of k] at_most_smaller [OF leaf(1), of k] by simp_all
    show ?thesis
    proof (cases ?i)
      case 0
      then show ?thesis using n len bs by (subst rank_of_floor_loop.simps) (simp add: floor_rank_def)
    next
      case (Suc j)
      then show ?thesis using n len bs nz [of "Suc j"] i
        by (subst rank_of_floor_loop.simps) (simp add: floor_rank_def del: of_nat_Suc)
    qed
  qed
next
  case (node p cs xs c u ys)
  have c: "ordered c" using node(1) routed_in [OF node(3)] by (auto simp: children_ordered_def)
  have cs: "cs = xs @ (c, u) # ys" using node(3) by (simp add: routed_def)
  let ?n = "length (entries_in xs)"
  have "unat passed + ?n + length (entries_of c) < 2 ^ 64" using node(5) by (simp add: cs)
  then have "unat (passed + word_of_nat ?n) + length (entries_of c) < 2 ^ 64" by (simp add: unat_word_ariths unat_of_nat)
  from node(4) [OF this] show ?case
    using at_most_routed [OF node(3,1) c, of p] readable_Nd [OF node(2)] key_child_routed [OF node(3,1), of passed]
    by (subst rank_of_floor_loop.simps) (simp add: add.assoc del: entries_Nd)
qed

section \<open>Entries by rank\<close>

lemma rank_child_spec:
  assumes "cs \<noteq> []" "rank < length (entries_in cs)" "length (entries_in cs) < 2 ^ 64"
  shows "\<exists>xs c u ys. cs = xs @ (c, u) # ys \<and> length (entries_in xs) \<le> rank \<and> rank - length (entries_in xs) < length (entries_of c) \<and>
    rank_child rank (in_entries (node_of cs)) (rightmost_child (node_of cs)) = (word_of_nat (page_of c), rank - length (entries_in xs))"
  using assms
proof (induction cs arbitrary: rank)
  case (Cons x cs)
  obtain c u where x: "x = (c, u)" by force
  show ?case
  proof (cases "cs = []")
    case True
    then show ?thesis using Cons.prems by (intro exI [of _ "[]"]) (auto simp: x node_of_def)
  next
    case False
    have cnt: "unat (count_of c) = length (entries_of c)" using Cons.prems(3) by (simp add: x count_of_def unat_of_nat)
    have node: "in_entries (node_of (x # cs)) = child_entry x # in_entries (node_of cs)" "rightmost_child (node_of (x # cs)) = rightmost_child (node_of cs)"
      using False by (simp_all add: node_of_def)
    show ?thesis
    proof (cases "rank < length (entries_of c)")
      case True
      then show ?thesis using node cnt by (intro exI [of _ "[]"]) (simp add: x child_entry_def)
    next
      case less: False
      have "rank - length (entries_of c) < length (entries_in cs)" "length (entries_in cs) < 2 ^ 64"
        using less Cons.prems by (simp_all add: x)
      from Cons.IH [OF False this] obtain xs d w ys where IH: "cs = xs @ (d, w) # ys" "length (entries_in xs) \<le> rank - length (entries_of c)"
        "rank - length (entries_of c) - length (entries_in xs) < length (entries_of d)"
        "rank_child (rank - length (entries_of c)) (in_entries (node_of cs)) (rightmost_child (node_of cs)) =
          (word_of_nat (page_of d), rank - length (entries_of c) - length (entries_in xs))" by blast
      then show ?thesis using less node cnt
        by (intro exI [of _ "x # xs"] exI [of _ d] exI [of _ w] exI [of _ ys]) (auto simp: x child_entry_def)
    qed
  qed
qed simp

lemma entry_at_rank_loop_ok:
  assumes "ordered t" "readable (pages b) t" "rank < length (entries_of t)" "length (entries_of t) < 2 ^ 64"
  shows "entry_at_rank_loop b (word_of_nat (page_of t)) rank = Some (Inr (entries_of t ! rank))"
  using assms
proof (induction t arbitrary: rank)
  case (Lf p es)
  then obtain n where "ln_entries n = es" "read_node b (word_of_nat p) = Inr (LeafPage n)" using readable_Lf by blast
  with Lf show ?case by (subst entry_at_rank_loop.simps) simp
next
  case (Nd p cs)
  have ne: "cs \<noteq> []" using Nd.prems(1) by (simp add: children_ordered_def)
  obtain xs c u ys where r: "cs = xs @ (c, u) # ys" "length (entries_in xs) \<le> rank" "rank - length (entries_in xs) < length (entries_of c)"
      "rank_child rank (in_entries (node_of cs)) (rightmost_child (node_of cs)) = (word_of_nat (page_of c), rank - length (entries_in xs))"
    using rank_child_spec [OF ne] Nd.prems(3,4) by fastforce
  have c: "(c, u) \<in> set cs" using r(1) by simp
  have "ordered c" "readable (pages b) c" "length (entries_of c) < 2 ^ 64"
    using Nd.prems readable_child [OF Nd.prems(2) c] r(1) by (auto simp: children_ordered_def)
  then have "entry_at_rank_loop b (word_of_nat (page_of c)) (rank - length (entries_in xs)) = Some (Inr (entries_of c ! (rank - length (entries_in xs))))"
    using Nd.IH [OF c] r(3) by simp
  moreover have "entries_of (Nd p cs) ! rank = entries_of c ! (rank - length (entries_in xs))"
    using r(2,3) by (simp add: r(1) nth_append)
  ultimately show ?case using r(4) readable_Nd [OF Nd.prems(2)]
    by (subst entry_at_rank_loop.simps) (simp del: entries_Nd)
qed

section \<open>Walks along the leaves\<close>

lemma leaves_entries: "concat (map snd (leaves t)) = entries_of t"
proof (induction t)
  case (Nd p cs)
  have "concat (map snd (leaves_in cs)) = entries_in cs" if "\<forall>x\<in>set cs. concat (map snd (leaves (fst x))) = entries_of (fst x)"
    using that by (induction cs) auto
  moreover have "\<forall>x\<in>set cs. concat (map snd (leaves (fst x))) = entries_of (fst x)" using Nd by auto
  ultimately show ?case by simp
qed simp

lemma push_upto_take: "push_upto n res es = res @ take (n - length res) es"
proof (induction n res es rule: push_upto.induct)
  case (2 n res e es)
  then show ?case by (auto simp: not_le take_Cons')
qed simp

lemma min_cut: "n - (a + min c (n - a)) = n - (a + c)" for n a c :: nat
  by simp

lemma forward_loop_ok:
  assumes "linked (pages b) m ls 0" "\<forall>i\<in>fst ` set ls. 0 < i \<and> i < 2 ^ 64"
  shows "forward_loop b n (word_of_nat (first_page ls 0)) res = Some (Inr (res @ take (n - length res) (concat (map snd ls))))"
  using assms
proof (induction ls arbitrary: m res)
  case Nil
  then show ?case by (subst forward_loop.simps) (simp add: NULL_PAGE_def)
next
  case (Cons x ls)
  obtain p es where x: "x = (p, es)" by force
  have "pages b p = Some (LeafPage \<lparr>ln_prev = word_of_nat m, ln_next = word_of_nat (first_page ls 0), ln_entries = es\<rparr>)"
    using Cons.prems(1) by (simp add: x)
  from pages_Leaf [OF this] have rd: "read_leaf b (word_of_nat p) = Inr \<lparr>ln_prev = word_of_nat m, ln_next = word_of_nat (first_page ls 0), ln_entries = es\<rparr>"
    by blast
  have p: "word_of_nat p \<noteq> NULL_PAGE" using Cons.prems(2) by (simp add: x NULL_PAGE_def word_of_nat_eq_0)
  have IH: "forward_loop b n (word_of_nat (first_page ls 0)) res' = Some (Inr (res' @ take (n - length res') (concat (map snd ls))))" for res'
    using Cons.IH [of p res'] Cons.prems by (simp add: x)
  show ?case
    by (subst forward_loop.simps) (simp add: x p rd IH push_upto_take min_cut)
qed

lemma last_page_snoc [simp]: "last_page m (ls @ [(p, es)]) = p"
  by (induction m ls rule: last_page.induct) auto

lemma backward_loop_ok:
  assumes "linked (pages b) 0 ls n'" "\<forall>i\<in>fst ` set ls. 0 < i \<and> i < 2 ^ 64"
  shows "backward_loop b n (word_of_nat (last_page 0 ls)) res = Some (Inr (res @ take (n - length res) (rev (concat (map snd ls)))))"
  using assms
proof (induction ls arbitrary: n' res rule: rev_induct)
  case Nil
  then show ?case by (subst backward_loop.simps) (simp add: NULL_PAGE_def)
next
  case (snoc x ls)
  obtain p es where x: "x = (p, es)" by force
  have "pages b p = Some (LeafPage \<lparr>ln_prev = word_of_nat (last_page 0 ls), ln_next = word_of_nat n', ln_entries = es\<rparr>)"
    and lk: "linked (pages b) 0 ls p"
    using snoc.prems(1) by (simp_all add: x linked_append)
  from pages_Leaf [OF this(1)] have rd: "read_leaf b (word_of_nat p) = Inr \<lparr>ln_prev = word_of_nat (last_page 0 ls), ln_next = word_of_nat n', ln_entries = es\<rparr>"
    by blast
  have p: "word_of_nat p \<noteq> NULL_PAGE" using snoc.prems(2) by (simp add: x NULL_PAGE_def word_of_nat_eq_0)
  have IH: "backward_loop b n (word_of_nat (last_page 0 ls)) res' = Some (Inr (res' @ take (n - length res') (rev (concat (map snd ls)))))" for res'
    using snoc.IH [OF lk] snoc.prems(2) by simp
  show ?case
    by (subst backward_loop.simps) (simp add: x p rd IH push_upto_take min_cut)
qed

lemma leaves_ne: "ordered t \<Longrightarrow> leaves t \<noteq> []"
proof (induction t)
  case (Nd p cs)
  then obtain c u ys where cs: "cs = (c, u) # ys" by (auto simp: children_ordered_def neq_Nil_conv)
  then have "leaves c \<noteq> []" using Nd.IH [of "(c, u)" c] Nd.prems by (simp add: children_ordered_def)
  then show ?case by (simp add: cs)
qed simp

lemma leftmost_leaf_loop_ok:
  assumes "ordered t" "readable (pages b) t"
  shows "leftmost_leaf_loop b (word_of_nat (page_of t)) = Some (Inr (word_of_nat (first_page (leaves t) 0)))"
  using assms
proof (induction t)
  case (Lf p es)
  then obtain n where "read_node b (word_of_nat p) = Inr (LeafPage n)" using readable_Lf by blast
  then show ?case by (subst leftmost_leaf_loop.simps) simp
next
  case (Nd p cs)
  then obtain c u ys where cs: "cs = (c, u) # ys" by (auto simp: children_ordered_def neq_Nil_conv)
  have c: "(c, u) \<in> set cs" "ordered c" "readable (pages b) c"
    using Nd.prems readable_child [OF Nd.prems(2), of "(c, u)"] by (auto simp: cs children_ordered_def)
  have "(case in_entries (node_of cs) of (_, child, _) # _ \<Rightarrow> child | [] \<Rightarrow> rightmost_child (node_of cs)) = word_of_nat (page_of c)"
    by (simp add: node_of_def cs child_entry_def)
  moreover have "first_page (leaves (Nd p cs)) 0 = first_page (leaves c) 0"
    using leaves_ne [OF c(2)] by (auto simp: cs first_page_append neq_Nil_conv)
  ultimately show ?case using Nd.IH [OF c(1)] c(2,3) readable_Nd [OF Nd.prems(2)]
    by (subst leftmost_leaf_loop.simps) (simp del: leaves_Nd)
qed

lemma last_page_append: "last_page m (xs @ ys) = last_page (last_page m xs) ys"
  by (induction m xs rule: last_page.induct) auto

lemma last_page_ne: "ys \<noteq> [] \<Longrightarrow> last_page m ys = last_page m' ys"
  by (cases ys) auto

lemma rightmost_leaf_loop_ok:
  assumes "ordered t" "readable (pages b) t"
  shows "rightmost_leaf_loop b (word_of_nat (page_of t)) = Some (Inr (word_of_nat (last_page 0 (leaves t))))"
  using assms
proof (induction t)
  case (Lf p es)
  then obtain n where "read_node b (word_of_nat p) = Inr (LeafPage n)" using readable_Lf by blast
  then show ?case by (subst rightmost_leaf_loop.simps) simp
next
  case (Nd p cs)
  then have ne: "cs \<noteq> []" by (simp add: children_ordered_def)
  obtain c u where l: "last cs = (c, u)" by force
  have cs: "cs = butlast cs @ [(c, u)]" using ne l by (metis append_butlast_last_id)
  have c: "(c, u) \<in> set cs" using ne l by (metis last_in_set)
  have c': "ordered c" "readable (pages b) c"
    using Nd.prems readable_child [OF Nd.prems(2) c] c by (auto simp: children_ordered_def)
  have "rightmost_child (node_of cs) = word_of_nat (page_of c)" by (simp add: node_of_def l)
  moreover have "leaves (Nd p cs) = leaves_in (butlast cs) @ leaves c" by (subst cs) simp
  then have "last_page 0 (leaves (Nd p cs)) = last_page 0 (leaves c)"
    using last_page_ne [OF leaves_ne [OF c'(1)]] by (simp only: last_page_append)
  ultimately show ?case using Nd.IH [OF c] c' readable_Nd [OF Nd.prems(2)]
    by (subst rightmost_leaf_loop.simps) (simp del: leaves_Nd)
qed

text \<open>The leaf that holds a rank, with the leaves before and after it.\<close>

lemma rank_leaf_loop_ok:
  assumes "ordered t" "readable (pages b) t" "rank < length (entries_of t)" "length (entries_of t) < 2 ^ 64"
  shows "\<exists>A p es B. leaves t = A @ (p, es) # B \<and> length (concat (map snd A)) \<le> rank \<and> rank - length (concat (map snd A)) < length es \<and>
    rank_leaf_loop b (word_of_nat (page_of t)) rank = Some (Inr (word_of_nat p, rank - length (concat (map snd A))))"
  using assms
proof (induction t arbitrary: rank)
  case (Lf p es)
  then obtain n where "read_node b (word_of_nat p) = Inr (LeafPage n)" using readable_Lf by blast
  then have "rank_leaf_loop b (word_of_nat p) rank = Some (Inr (word_of_nat p, rank))" by (subst rank_leaf_loop.simps) simp
  then show ?case using Lf.prems(3) by (intro exI [of _ "[]"] exI [of _ p] exI [of _ es]) simp
next
  case (Nd p cs)
  have ne: "cs \<noteq> []" using Nd.prems(1) by (simp add: children_ordered_def)
  obtain xs c u ys where r: "cs = xs @ (c, u) # ys" "length (entries_in xs) \<le> rank" "rank - length (entries_in xs) < length (entries_of c)"
      "rank_child rank (in_entries (node_of cs)) (rightmost_child (node_of cs)) = (word_of_nat (page_of c), rank - length (entries_in xs))"
    using rank_child_spec [OF ne] Nd.prems(3,4) by fastforce
  have c: "(c, u) \<in> set cs" using r(1) by simp
  have "ordered c" "readable (pages b) c" "length (entries_of c) < 2 ^ 64"
    using Nd.prems readable_child [OF Nd.prems(2) c] r(1) by (auto simp: children_ordered_def)
  then obtain A q es B where IH: "leaves c = A @ (q, es) # B" "length (concat (map snd A)) \<le> rank - length (entries_in xs)"
      "rank - length (entries_in xs) - length (concat (map snd A)) < length es"
      "rank_leaf_loop b (word_of_nat (page_of c)) (rank - length (entries_in xs)) = Some (Inr (word_of_nat q, rank - length (entries_in xs) - length (concat (map snd A))))"
    using Nd.IH [OF c] r(3) by fastforce
  have "leaves (Nd p cs) = (leaves_in xs @ A) @ (q, es) # B @ leaves_in ys" by (simp add: r(1) IH(1))
  moreover have "concat (map snd (leaves_in zs)) = entries_in zs" for zs using leaves_entries by (induction zs) simp_all
  then have "length (concat (map snd (leaves_in xs @ A))) = length (entries_in xs) + length (concat (map snd A))" by simp
  moreover have "rank_leaf_loop b (word_of_nat p) rank = Some (Inr (word_of_nat q, rank - length (entries_in xs) - length (concat (map snd A))))"
    using r(4) readable_Nd [OF Nd.prems(2)] IH(4) by (subst rank_leaf_loop.simps) simp
  ultimately show ?case using IH(2,3) r(2)
    by (intro exI [of _ "leaves_in xs @ A"] exI [of _ q] exI [of _ es] exI [of _ "B @ leaves_in ys"]) auto
qed

end
