(* ===== verification/Btree_Remove.thy ===== *)
theory Btree_Remove
  imports Btree_Read
begin

text \<open>
  Removal: the descent that lowers the counts and the leaf that loses the key. Pages are neither
  freed nor merged, so the shape of the tree stays.
\<close>

section \<open>Removal on the abstract tree\<close>

definition without :: "bytes \<Rightarrow> entries \<Rightarrow> entries" where
  "without k es = filter (\<lambda>e. fst e \<noteq> k) es"

function tree_remove :: "bytes \<Rightarrow> tree \<Rightarrow> tree" where
  "tree_remove k (Lf p es) = Lf p (without k es)"
| "tree_remove k (Nd p cs) =
     (case dropWhile (\<lambda>x. above (snd x) k) cs of
        [] \<Rightarrow> Nd p cs
      | (c, u) # ys \<Rightarrow> Nd p (takeWhile (\<lambda>x. above (snd x) k) cs @ (tree_remove k c, u) # ys))"
  by pat_completeness auto
termination
proof (relation "measure (\<lambda>(k, t). size t)", simp, clarsimp)
  fix cs :: "(tree \<times> bytes option) list" and k c u ys
  assume "dropWhile (\<lambda>x. above (snd x) k) cs = (c, u) # ys"
  then have "(c, u) \<in> set cs" by (metis in_set_conv_decomp takeWhile_dropWhile_id)
  then have "size c \<le> size_list (size_prod size (\<lambda>_. 0)) cs" by (rule size_list_estimation') simp
  then show "size c < Suc (size_list (size_prod size (\<lambda>_. 0)) cs)" by simp
qed

lemma routed_unique:
  assumes "routed k cs xs c u ys"
  shows "dropWhile (\<lambda>x. above (snd x) k) cs = (c, u) # ys" "takeWhile (\<lambda>x. above (snd x) k) cs = xs"
proof -
  have "\<not> above u k" using assms not_below [of k u] by (auto simp: routed_def)
  then show "dropWhile (\<lambda>x. above (snd x) k) cs = (c, u) # ys" "takeWhile (\<lambda>x. above (snd x) k) cs = xs"
    using assms by (simp_all add: routed_def dropWhile_append2 takeWhile_append2)
qed

lemma tree_remove_routed:
  "routed k cs xs c u ys \<Longrightarrow> tree_remove k (Nd p cs) = Nd p (xs @ (tree_remove k c, u) # ys)"
  using routed_unique by simp

lemma without_between:
  assumes "\<forall>e\<in>set A. fst e < k" "\<forall>e\<in>set C. k < fst e"
  shows "without k (A @ B @ C) = A @ without k B @ C"
proof -
  have "\<forall>e\<in>set A. fst e \<noteq> k" "\<forall>e\<in>set C. fst e \<noteq> k" using assms by fastforce+
  then show ?thesis by (simp add: without_def)
qed

lemma length_without: "length (without k es) \<le> length es"
  by (simp add: without_def)

lemma routed_induct [consumes 1, case_names leaf node]:
  assumes "ordered t"
    and leaf: "\<And>p es. ascending es \<Longrightarrow> P (Lf p es)"
    and node: "\<And>p cs xs c u ys. children_ordered cs \<Longrightarrow> routed k cs xs c u ys \<Longrightarrow> ordered c \<Longrightarrow> P c \<Longrightarrow> P (Nd p cs)"
  shows "P t"
  using assms(1)
proof (induction t)
  case (Lf p es)
  then show ?case using leaf by simp
next
  case (Nd p cs)
  then have ord: "children_ordered cs" by simp
  then obtain xs c u ys where r: "routed k cs xs c u ys" using routed_ex by blast
  then have c: "(c, u) \<in> set cs" by (rule routed_in)
  then have "ordered c" using ord by (auto simp: children_ordered_def)
  then show ?case using node [OF ord r] Nd.IH [OF c] by simp
qed

lemma tree_remove_ok:
  assumes "ordered t"
  shows "ordered (tree_remove k t) \<and> marks (tree_remove k t) \<subseteq> marks t \<and>
    entries_of (tree_remove k t) = without k (entries_of t)"
  using assms
proof (induction rule: routed_induct [where k = k])
  case (leaf p es)
  then show ?case by (auto simp: without_def intro: sorted_wrt_filter [unfolded filter_map] simp: sorted_wrt_map sorted_wrt_filter)
next
  case (node p cs xs c u ys)
  have cs: "cs = xs @ (c, u) # ys" using node(2) by (simp add: routed_def)
  have "children_ordered (xs @ (tree_remove k c, u) # ys)" using node(4) by (intro routed_children [OF node(2,1)]) auto
  moreover have "node_marks (xs @ (tree_remove k c, u) # ys) \<subseteq> node_marks cs"
    using node(4) by (auto simp: cs node_marks_append node_marks_Cons)
  moreover have "without k (entries_in xs @ entries_of c @ entries_in ys) = entries_in xs @ without k (entries_of c) @ entries_in ys"
    by (rule without_between [OF routed_keys [OF node(2,1)]])
  ultimately show ?case using node(4) unfolding tree_remove_routed [OF node(2)] by (simp add: cs)
qed

lemma tree_remove_shape:
  assumes "ordered t"
  shows "page_of (tree_remove k t) = page_of t \<and> ids (leaves (tree_remove k t)) = ids (leaves t) \<and>
    inner_pages (tree_remove k t) = inner_pages t \<and> tree_pages (tree_remove k t) = tree_pages t"
  using assms
proof (induction rule: routed_induct [where k = k])
  case (node p cs xs c u ys)
  then show ?case unfolding tree_remove_routed [OF node(2)] by (simp add: routed_def)
qed simp

lemma tree_remove_sized: "ordered t \<Longrightarrow> sized ks vs ml mi t \<Longrightarrow> sized ks vs ml mi (tree_remove k t)"
proof (induction rule: routed_induct [where k = k])
  case (leaf p es)
  moreover have "length (without k es) \<le> ml" using leaf(2) length_without [of k es] by simp
  ultimately show ?case by (auto simp: without_def)
next
  case (node p cs xs c u ys)
  then show ?case unfolding tree_remove_routed [OF node(2)] by (simp add: routed_def)
qed

lemma tree_remove_absent: "ordered t \<Longrightarrow> k \<notin> fst ` set (entries_of t) \<Longrightarrow> tree_remove k t = t"
proof (induction rule: routed_induct [where k = k])
  case (leaf p es)
  then show ?case by (auto simp: without_def filter_id_conv)
next
  case (node p cs xs c u ys)
  then show ?case unfolding tree_remove_routed [OF node(2)] using routed_member [OF node(2,1), of p]
    by (simp add: routed_def)
qed

lemma count_without:
  assumes "ascending es" "k \<in> fst ` set es"
  shows "length (without k es) + 1 = length es"
  using assms(1)
proof (rule split_at_key [of es k])
  fix A x C assume *: "es = A @ (k, x) # C" "\<forall>e\<in>set A. fst e < k" "\<forall>e\<in>set C. k < fst e"
  have "without k (A @ [(k, x)] @ C) = A @ without k [(k, x)] @ C" using *(2,3) by (rule without_between)
  then show ?thesis by (simp add: *(1) without_def)
qed (use assms in auto)

lemma remove_at_search:
  assumes "ascending es" "k \<in> fst ` set es"
  shows "\<exists>i. binary_search es k = OkAt i \<and> take i es @ drop (i + 1) es = without k es"
  using assms(1)
proof (rule split_at_key [of es k])
  fix A x C assume *: "es = A @ (k, x) # C" "\<forall>e\<in>set A. fst e < k" "\<forall>e\<in>set C. k < fst e"
  have "smaller k (A @ (k, x) # C) = A" using *(2,3) by (intro smaller_at) (auto simp: less_imp_le)
  then have "binary_search es k = OkAt (length A)" using binary_search_spec [OF assms(1), of k] assms(2) *(1) by simp
  moreover have "without k (A @ [(k, x)] @ C) = A @ without k [(k, x)] @ C" using *(2,3) by (rule without_between)
  ultimately show ?thesis by (intro exI [of _ "length A"]) (simp add: *(1) without_def)
qed (use assms in auto)

section \<open>Removal on the pages\<close>

lemma in_place_upd: "p \<notin> set (ids (A @ leaves t @ B) @ inner_pages t) \<Longrightarrow> in_place (V(p := x)) t A B nx \<longleftrightarrow> in_place V t A B nx"
  by (simp add: in_place_def image_Un)

lemma remove_loop_pages:
  assumes "ordered t" "fits b" "in_place (pages b) t A B nx" "tree_sized b t" "room (bt_page_size b) nx" "k \<in> fst ` set (entries_of t)"
  shows "\<exists>s. remove_loop b k (word_of_nat (page_of t)) = Some (Inr (b\<lparr>bt_store := s\<rparr>)) \<and> ps_page_size s = bt_page_size b \<and>
    in_place (pages (b\<lparr>bt_store := s\<rparr>)) (tree_remove k t) A B nx \<and>
    (\<forall>i. i \<notin> set (pages_of t) \<longrightarrow> pages (b\<lparr>bt_store := s\<rparr>) i = pages b i)"
  using assms
proof (induction arbitrary: b A B rule: routed_induct [where k = k])
  case (leaf p es)
  have pg: "pages b p = Some (LeafPage \<lparr>ln_prev = word_of_nat (last_page 0 A), ln_next = word_of_nat (first_page B 0), ln_entries = es\<rparr>)"
    and lk: "linked (pages b) 0 A p" "linked (pages b) p B 0" and p: "p \<notin> fst ` set A" "p \<notin> fst ` set B" "p < nx"
    using leaf(3) by (auto simp: in_place_def linked_leaf)
  let ?n = "\<lparr>ln_prev = word_of_nat (last_page 0 A), ln_next = word_of_nat (first_page B 0), ln_entries = without k es\<rparr>"
  have "leaf_fits (bt_page_size b) (bt_key_size b) (bt_value_size b) ?n"
  proof (rule leaf_fits_sized [OF leaf(2)])
    show "\<forall>(k', v)\<in>set (without k es). length k' = unat (bt_key_size b) \<and> length v = unat (bt_value_size b)"
      using leaf(4) by (auto simp: without_def)
    show "length (without k es) \<le> bt_max_leaf b" using leaf(4) length_without [of k es] by simp
  qed
  then obtain s where s: "write_leaf b (word_of_nat p) ?n = Inr (b\<lparr>bt_store := s\<rparr>)" "stored b s ((pages b)(p \<mapsto> LeafPage ?n))"
    using write_leaf_pages [OF leaf(2)] room_addressable [OF leaf(5) p(3)] by blast
  obtain i where i: "binary_search es k = OkAt i" "take i es @ drop (i + 1) es = without k es"
    using remove_at_search [OF leaf(1)] leaf(6) by auto
  have "remove_loop b k (word_of_nat p) = Some (Inr (b\<lparr>bt_store := s\<rparr>))"
    using pages_Leaf [OF pg] i s(1) by (subst remove_loop.simps) (simp add: remove_from_leaf_def)
  moreover have "in_place ((pages b)(p \<mapsto> LeafPage ?n)) (Lf p (without k es)) A B nx"
    using leaf(3) lk p by (simp add: in_place_def linked_leaf)
  then have "in_place (pages (b\<lparr>bt_store := s\<rparr>)) (Lf p (without k es)) A B nx" by (simp only: stored_pages [OF s(2)])
  moreover have "\<forall>i. i \<notin> set (pages_of (Lf p es)) \<longrightarrow> pages (b\<lparr>bt_store := s\<rparr>) i = pages b i"
    by (simp add: stored_pages [OF s(2)] pages_of_def)
  moreover have "ps_page_size s = bt_page_size b" using s(2) by (simp add: stored_def)
  ultimately show ?case by (intro exI [of _ s]) simp
next
  case (node p cs xs c u ys)
  have cs: "cs = xs @ (c, u) # ys" using node(2) by (simp add: routed_def)
  let ?c = "tree_remove k c" and ?cs = "xs @ (tree_remove k c, u) # ys"
  note rm = tree_remove_ok [OF node(3), of k] and sh = tree_remove_shape [OF node(3), of k]
  have kc: "k \<in> fst ` set (entries_of c)" using node(9) routed_member [OF node(2,1), of p] by simp
  have "length (entries_of c) = Suc (length (entries_of ?c))" using count_without [OF ordered_entries [OF node(3)] kc] rm by simp
  then have cnt: "count_of ?c = count_of c - 1" by (simp add: count_of_def)
  have ord': "ordered (Nd p ?cs)" "tree_sized b (Nd p ?cs)"
  proof -
    have o: "ordered (Nd p cs)" using node(1) by simp
    show "ordered (Nd p ?cs)" "tree_sized b (Nd p ?cs)"
      using tree_remove_ok [OF o, of k] tree_remove_sized [OF o node(7), of k] unfolding tree_remove_routed [OF node(2)] by blast+
  qed
  have pg: "pages b p = Some (InternalPage (node_of cs))" using node(6) by (simp add: in_place_def)
  have idx: "take_from_child (node_of cs) (idx_of xs ys) = node_of ?cs"
    unfolding cs using sh cnt by (intro take_from_child_node [OF routed_last [OF node(2,1)]]) simp_all
  have "p < nx" using in_place_page(3) [OF node(6) routed_in [OF node(2)]] .
  moreover have "internal_fits (bt_page_size b) (bt_key_size b) (node_of ?cs)" using node_of_fits [OF node(5) ord'(2)] ord'(1) by simp
  ultimately obtain s1 where s1: "write_internal b (word_of_nat p) (node_of ?cs) = Inr (b\<lparr>bt_store := s1\<rparr>)"
      "stored b s1 ((pages b)(p \<mapsto> InternalPage (node_of ?cs)))"
    using write_internal_pages [OF node(5)] room_addressable [OF node(8)] by blast
  let ?b = "b\<lparr>bt_store := s1\<rparr>"
  have V1: "pages ?b = (pages b)(p \<mapsto> InternalPage (node_of ?cs))" by (rule stored_pages [OF s1(2)])
  note off = distinct_parts(2) [OF in_place_lists(1) [OF node(6) [unfolded cs]]]
  have place1: "in_place (pages ?b) c (A @ leaves_in xs) (leaves_in ys @ B) nx"
    unfolding V1 using in_place_child [OF node(6) cs] off by (subst in_place_upd) (simp_all only: set_append map_append Un_iff, blast)
  have pc: "p \<notin> set (pages_of c)" using in_place_page(1) [OF node(6) routed_in [OF node(2)]] by simp
  obtain s where s: "remove_loop ?b k (word_of_nat (page_of c)) = Some (Inr (?b\<lparr>bt_store := s\<rparr>))" "ps_page_size s = bt_page_size b"
      "in_place (pages (b\<lparr>bt_store := s\<rparr>)) ?c (A @ leaves_in xs) (leaves_in ys @ B) nx"
      "\<forall>i. i \<notin> set (pages_of c) \<longrightarrow> pages (b\<lparr>bt_store := s\<rparr>) i = pages ?b i"
    using node(4) [of ?b, OF _ place1] node(5,7,8) s1(2) kc by (auto simp: fits_def stored_def cs)
  let ?W = "pages (b\<lparr>bt_store := s\<rparr>)"
  have "remove_loop b k (word_of_nat p) = Some (Inr (b\<lparr>bt_store := s\<rparr>))"
    using pages_Internal [OF pg] node_of_children [OF node(2,1)] idx s1(1) s(1) by (subst remove_loop.simps) simp
  moreover have "in_place ?W (Nd p ?cs) A B nx"
  proof -
    have "?W p = Some (InternalPage (node_of ?cs))" using s(4) pc V1 by simp
    moreover have "inner ?W (fst x)" if "x \<in> set xs \<or> x \<in> set ys" for x
    proof (rule inner_cong)
      fix i assume i: "i \<in> set (inner_pages (fst x))"
      have "i \<noteq> p" using in_place_page(1) [OF node(6), of x] that cs i by (auto simp: pages_of_def)
      then show "?W i = pages b i" using s(4) V1 in_place_sibling(1) [OF node(6) cs that i] by simp
    next
      show "inner (pages b) (fst x)" using node(6) that by (auto simp: in_place_def cs)
    qed
    moreover have "ids (leaves (Nd p ?cs)) = ids (leaves (Nd p cs))" "inner_pages (Nd p ?cs) = inner_pages (Nd p cs)"
      using sh by (simp_all add: cs)
    ultimately show ?thesis using s(3) node(6) by (auto simp: in_place_def simp del: inner_pages_Nd leaves_Nd) (auto simp: cs)
  qed
  moreover have "\<forall>i. i \<notin> set (pages_of (Nd p cs)) \<longrightarrow> ?W i = pages b i"
    using s(4) V1 by (auto simp: pages_of_def cs)
  ultimately show ?case using s(2) unfolding tree_remove_routed [OF node(2)] by (intro exI [of _ s]) simp
qed

end
