(* ===== verification/Btree_Map.thy ===== *)
theory Btree_Map
  imports Btree_Remove
begin

text \<open>
  The B+tree as an ordered map. Every internal page has at least two children, so a tree of
  \<open>n\<close> leaves has fewer than \<open>2 n\<close> pages; that bounds the file by the number of insertions and
  makes every insertion of a bounded run succeed.
\<close>

section \<open>How many pages a tree has\<close>

fun bushy :: "tree \<Rightarrow> bool" where
  "bushy (Lf p es) = True"
| "bushy (Nd p cs) = (2 \<le> length cs \<and> (\<forall>(c, u)\<in>set cs. bushy c))"

lemma bushy_Nd [simp]: "bushy (Nd p cs) \<longleftrightarrow> 2 \<le> length cs \<and> (\<forall>x\<in>set cs. bushy (fst x))"
  by (auto simp: case_prod_unfold)

declare bushy.simps(2) [simp del]

lemma bushy_pages: "bushy t \<Longrightarrow> length (inner_pages t) < length (leaves t)"
proof (induction t)
  case (Nd p cs)
  have "\<forall>x\<in>set cs. length (inner_pages (fst x)) < length (leaves (fst x))" using Nd by auto
  then have "length (inner_in cs) + length cs \<le> length (leaves_in cs)" by (induction cs) auto
  then show ?case using Nd.prems by simp
qed simp

lemma bushy_next_page: "bushy t \<Longrightarrow> next_page t \<le> 2 * length (leaves t)"
  using bushy_pages [of t] by (simp add: next_page_def pages_of_def)

definition leaf_count :: "split_result \<Rightarrow> nat" where
  "leaf_count r = length (concat (map leaves (result_trees r)))"

lemma split_node_bushy:
  assumes "\<forall>x\<in>set cs. bushy (fst x)" "2 \<le> length cs" "2 \<le> mi"
  shows "\<forall>d\<in>set (result_trees (split_node mi p cs nx)). bushy d"
proof (cases "length cs \<le> Suc mi")
  case False
  let ?mid = "(length cs - 1) div 2"
  have "cs ! ?mid \<in> set cs" using False by (intro nth_mem) auto
  then have "bushy (fst (cs ! ?mid))" using assms(1) by blast
  moreover have "1 \<le> ?mid" "2 \<le> length cs - Suc ?mid" using False assms(3) by auto
  ultimately show ?thesis using False assms(1)
    by (auto simp: split_node_def Let_def dest: in_set_takeD in_set_dropD)
qed (use assms in \<open>simp add: split_node_def\<close>)

lemma split_node_leaves: "leaf_count (split_node mi p cs nx) = length (leaves_in cs)"
proof (cases "length cs \<le> Suc mi")
  case False
  let ?mid = "(length cs - 1) div 2"
  have "cs = take ?mid cs @ (fst (cs ! ?mid), snd (cs ! ?mid)) # drop (Suc ?mid) cs"
    using False by (intro split_at_nth) auto
  then have "leaves_in cs = leaves_in (take ?mid cs @ (fst (cs ! ?mid), snd (cs ! ?mid)) # drop (Suc ?mid) cs)" by (rule arg_cong)
  then show ?thesis using False by (simp add: leaf_count_def split_node_def Let_def)
qed (simp add: leaf_count_def split_node_def)

lemma tree_insert_bushy:
  assumes "ordered t" "bushy t" "2 \<le> mi"
  shows "(\<forall>d\<in>set (result_trees (tree_insert ml mi k v nx t)). bushy d) \<and>
    leaf_count (tree_insert ml mi k v nx t) \<le> Suc (length (leaves t))"
  using assms
proof (induction rule: routed_induct [where k = k])
  case (leaf p es)
  then show ?case by (simp add: split_leaf_def leaf_count_def Let_def)
next
  case (node p cs xs c u ys)
  have cs: "cs = xs @ (c, u) # ys" using node(2) by (simp add: routed_def)
  obtain c' sp nx' where res: "tree_insert ml mi k v nx c = (c', sp, nx')" using prod_cases3 by blast
  have IH: "\<forall>d\<in>set (result_trees (c', sp, nx')). bushy d" "leaf_count (c', sp, nx') \<le> Suc (length (leaves c))"
    using node(4-6) res by (auto simp: cs)
  have step: "tree_insert ml mi k v nx (Nd p cs) = join_child mi p xs u ys (c', sp, nx')"
    using routed_unique [OF node(2)] res by simp
  have ch: "\<forall>x\<in>set xs \<union> set ys. bushy (fst x)" "2 \<le> length cs" using node(5) by (auto simp: cs)
  show ?case
  proof (cases sp)
    case None
    then show ?thesis unfolding step using IH ch by (auto simp: join_child_def leaf_count_def cs)
  next
    case (Some sd)
    obtain s d where sp: "sp = Some (s, d)" using Some by force
    let ?cs = "xs @ (c', Some s) # (d, u) # ys"
    have "\<forall>x\<in>set ?cs. bushy (fst x)" using IH(1) ch(1) by (simp add: sp)
    moreover have "2 \<le> length ?cs" by simp
    ultimately have "\<forall>e\<in>set (result_trees (split_node mi p ?cs nx')). bushy e" using node(6) by (rule split_node_bushy)
    moreover have "leaf_count (split_node mi p ?cs nx') \<le> Suc (length (leaves_in cs))"
      unfolding split_node_leaves using IH(2) by (simp add: sp leaf_count_def cs)
    ultimately show ?thesis unfolding step join_child_def sp prod.case option.case leaves_Nd by blast
  qed
qed

lemma insert_tree_bushy:
  assumes "holds_tree b t" "bushy t" "2 \<le> bt_max_internal b"
  shows "bushy (insert_tree b k v t)" "length (leaves (insert_tree b k v t)) \<le> Suc (length (leaves t))"
proof -
  let ?r = "tree_insert (bt_max_leaf b) (bt_max_internal b) k v (next_page t) t"
  obtain t' sp nx where r: "?r = (t', sp, nx)" using prod_cases3 by blast
  have "ordered t" using assms(1) by (simp add: holds_tree_def)
  from tree_insert_bushy [OF this assms(2,3), of "bt_max_leaf b" k v "next_page t"]
  show "bushy (insert_tree b k v t)" "length (leaves (insert_tree b k v t)) \<le> Suc (length (leaves t))"
    by (auto simp: insert_tree_def r grow_def leaf_count_def split: option.splits prod.splits)
qed

lemma tree_remove_bushy: "ordered t \<Longrightarrow> bushy t \<Longrightarrow> bushy (tree_remove k t)"
proof (induction rule: routed_induct [where k = k])
  case (node p cs xs c u ys)
  then show ?case unfolding tree_remove_routed [OF node(2)] by (simp add: routed_def)
qed simp

section \<open>The entries fit the counters\<close>

lemma leaf_entries_bound: "sized ks vs ml mi t \<Longrightarrow> length (entries_of t) \<le> ml * length (leaves t)"
proof (induction t)
  case (Nd p cs)
  have "\<forall>x\<in>set cs. length (entries_of (fst x)) \<le> ml * length (leaves (fst x))" using Nd by auto
  then have "length (entries_in cs) \<le> ml * length (leaves_in cs)" by (induction cs) (auto simp: add_mult_distrib2)
  then show ?case by simp
qed simp

lemma entries_bound:
  assumes "holds_tree b t"
  shows "length (entries_of t) < 2 ^ 64" "unat (total_count b) = length (entries_of t)"
proof -
  have f: "fits b" and sz: "tree_sized b t" and rm: "room (bt_page_size b) (next_page t)" and tot: "total_count b = count_of t"
    using assms by (auto simp: holds_tree_def)
  have "bt_max_leaf b * 1 \<le> unat (bt_page_size b) - NODE_HEADER_LEN"
    using capacity_room [of "bt_page_size b" "unat (bt_key_size b) + unat (bt_value_size b)" "bt_max_leaf b" "bt_max_leaf b"] f
    by (auto simp: fits_def max_leaf_entries_def intro: le_trans [rotated])
  then have ml: "bt_max_leaf b \<le> unat (bt_page_size b)" by simp
  have "length (entries_of t) \<le> bt_max_leaf b * length (leaves t)" by (rule leaf_entries_bound [OF sz])
  also have "\<dots> \<le> unat (bt_page_size b) * length (pages_of t)" using ml by (intro mult_le_mono) (simp_all add: pages_of_def)
  also have "\<dots> < unat (bt_page_size b) * next_page t" using fits_page_size(1) [OF f] by (simp add: next_page_def)
  also have "\<dots> \<le> 2 ^ 64" using rm by (simp add: room_def mult.commute)
  finally show *: "length (entries_of t) < 2 ^ 64" .
  then show "unat (total_count b) = length (entries_of t)" unfolding tot count_of_def by (simp add: unat_of_nat)
qed

section \<open>Creating, removing, asking\<close>

lemma btree_create_holds:
  assumes "btree_create ks vs ps = Inr b"
  shows "holds_tree b (Lf 1 [])" "synced b" "bt_key_size b = ks" "bt_value_size b = vs" "bt_page_size b = ps"
proof -
  obtain ml mi bs st where v: "validate_page_size ps = Inr ()" and m: "max_leaf_entries ps ks vs = Inr ml" "max_internal_entries ps ks = Inr mi"
      "0 < ml" "0 < mi" and bs: "encode_leaf empty_leaf ps ks vs = Inr bs" and st: "write_page (ps_create ps) 1 bs = Inr st"
      and w: "write_superblock \<lparr>bt_store = st, bt_page_size = ps, bt_key_size = ks, bt_value_size = vs, root_page_id = 1, total_count = 0,
        next_page_id = 2, bt_max_leaf = ml, bt_max_internal = mi\<rparr> = Inr b"
    using assms by (auto simp: btree_create_def split: if_splits)
  let ?b0 = "\<lparr>bt_store = ps_create ps, bt_page_size = ps, bt_key_size = ks, bt_value_size = vs, root_page_id = 1, total_count = 0,
    next_page_id = 2, bt_max_leaf = ml, bt_max_internal = mi\<rparr>"
  have f: "fits ?b0" using v m by (simp add: fits_def ps_create_def)
  have sz: "4096 \<le> unat ps" using fits_page_size(1) [OF f] by simp
  have "unat ps < 2 ^ 32" using unsigned_less [of ps, where ?'a = nat] by simp
  then have ad: "addressable (bt_page_size ?b0) 1" "room ps 2" by (simp_all add: addressable_def room_def)
  have fit: "leaf_fits (bt_page_size ?b0) (bt_key_size ?b0) (bt_value_size ?b0) empty_leaf"
    using sz by (simp add: leaf_fits_def empty_leaf_def NODE_HEADER_LEN_def)
  from write_leaf_pages [OF f ad(1) fit] bs st
  have pg: "stored ?b0 st ((pages ?b0)(1 \<mapsto> LeafPage empty_leaf))" by (auto simp: write_leaf_def on_store_def)
  let ?b1 = "\<lparr>bt_store = st, bt_page_size = ps, bt_key_size = ks, bt_value_size = vs, root_page_id = 1, total_count = 0,
    next_page_id = 2, bt_max_leaf = ml, bt_max_internal = mi\<rparr>"
  have "pages ?b1 = (pages ?b0)(1 \<mapsto> LeafPage empty_leaf)" "ps_page_size st = ps" using pg by (simp_all add: stored_def)
  then have "holds_tree ?b1 (Lf 1 [])"
    using v m ad(2) by (simp add: holds_tree_def fits_def in_place_def next_page_def pages_of_def empty_leaf_def NULL_PAGE_def count_of_def numeral_2_eq_2)
  from superblock_holds [OF this] w
  show "holds_tree b (Lf 1 [])" "synced b" "bt_key_size b = ks" "bt_value_size b = vs" "bt_page_size b = ps" by auto
qed

lemma btree_remove_holds:
  assumes h: "holds_tree b t" and s: "synced b" and k: "length k = unat (bt_key_size b)"
  shows "\<exists>b'. btree_remove b k = Some (Inr (k \<in> fst ` set (entries_of t), b')) \<and> holds_tree b' (tree_remove k t) \<and> synced b' \<and>
    bt_key_size b' = bt_key_size b \<and> bt_value_size b' = bt_value_size b \<and> bt_page_size b' = bt_page_size b"
proof -
  have f: "fits b" and place: "in_place (pages b) t [] [] (next_page t)" and ord: "ordered t" and sz: "tree_sized b t"
    and rm: "room (bt_page_size b) (next_page t)" and root: "root_page_id b = word_of_nat (page_of t)" and tot: "total_count b = count_of t"
    using h by (auto simp: holds_tree_def)
  have con: "btree_contains b k = Some (Inr (k \<in> fst ` set (entries_of t)))"
    using contains_loop_ok [OF ord in_place_readable [OF place], of k] root by (simp add: btree_contains_def)
  note sh = tree_remove_shape [OF ord, of k] and ok = tree_remove_ok [OF ord, of k]
  show ?thesis
  proof (cases "k \<in> fst ` set (entries_of t)")
    case False
    have "tree_remove k t = t" by (rule tree_remove_absent [OF ord False])
    then show ?thesis using con False k h s by (intro exI [of _ b]) (simp add: btree_remove_def check_key_def)
  next
    case True
    obtain st where st: "remove_loop b k (word_of_nat (page_of t)) = Some (Inr (b\<lparr>bt_store := st\<rparr>))" "ps_page_size st = bt_page_size b"
        "in_place (pages (b\<lparr>bt_store := st\<rparr>)) (tree_remove k t) [] [] (next_page t)"
      using remove_loop_pages [OF ord f place sz rm True] by blast
    let ?b = "b\<lparr>bt_store := st, total_count := total_count b - 1\<rparr>"
    have "next_page (tree_remove k t) = next_page t" using sh by (metis next_page_def length_append length_map pages_of_def)
    moreover have "count_of (tree_remove k t) = count_of t - 1"
      using count_without [OF ordered_entries [OF ord] True] ok by (metis add_diff_cancel_right' count_of_def of_nat_1 of_nat_add)
    ultimately have "holds_tree ?b (tree_remove k t)"
      using h st sh ok tree_remove_sized [OF ord sz, of k] by (simp add: holds_tree_def fits_def del: mset_upt)
    from superblock_holds [OF this] obtain b' where b': "write_superblock ?b = Inr b'" "holds_tree b' (tree_remove k t)" "synced b'"
      "bt_key_size b' = bt_key_size b" "bt_value_size b' = bt_value_size b" "bt_page_size b' = bt_page_size b" by auto
    then show ?thesis using con st(1) True k root
      by (intro exI [of _ b']) (simp add: btree_remove_def check_key_def)
  qed
qed

section \<open>The answers of the queries\<close>

lemma leaf_pages_small:
  assumes "holds_tree b t"
  shows "\<forall>i\<in>fst ` set (leaves t). 0 < i \<and> i < 2 ^ 64"
proof -
  have "next_page t < 2 ^ 64" using assms fits_room by (auto simp: holds_tree_def)
  moreover have "\<forall>i\<in>fst ` set (leaves t). 0 < i \<and> i < next_page t" using assms by (auto simp: holds_tree_def in_place_def)
  ultimately show ?thesis by fastforce
qed

lemma holds_treeD:
  assumes "holds_tree b t"
  shows "linked (pages b) 0 (leaves t) 0" "ordered t" "readable (pages b) t" "root_page_id b = word_of_nat (page_of t)"
proof -
  have place: "in_place (pages b) t [] [] (next_page t)" using assms by (simp add: holds_tree_def)
  then show "linked (pages b) 0 (leaves t) 0" by (simp add: in_place_def)
  show "readable (pages b) t" by (rule in_place_readable [OF place])
qed (use assms in \<open>simp_all add: holds_tree_def\<close>)

lemma scans_ok:
  assumes h: "holds_tree b t"
  shows "scan_forward_bounded b n = Some (Inr (take n (entries_of t)))"
    and "scan_backward_bounded b n = Some (Inr (take n (rev (entries_of t))))"
proof -
  have lk: "linked (pages b) 0 (leaves t) 0" and ord: "ordered t" and rd: "readable (pages b) t" and root: "root_page_id b = word_of_nat (page_of t)"
    using holds_treeD [OF h] .
  note small = leaf_pages_small [OF h]
  show "scan_forward_bounded b n = Some (Inr (take n (entries_of t)))"
    using leftmost_leaf_loop_ok [OF ord rd] forward_loop_ok [OF lk small, of n "[]"] root leaves_entries [of t]
    by (simp add: scan_forward_bounded_def leftmost_leaf_id_def)
  show "scan_backward_bounded b n = Some (Inr (take n (rev (entries_of t))))"
    using rightmost_leaf_loop_ok [OF ord rd] backward_loop_ok [OF lk small, of n "[]"] root leaves_entries [of t]
    by (simp add: scan_backward_bounded_def rightmost_leaf_id_def)
qed

lemma key_ranks_ok:
  assumes h: "holds_tree b t" and k: "length k = unat (bt_key_size b)"
  shows "rank_of_key b k = Some (Inr (if k \<in> fst ` set (entries_of t) then Some (word_of_nat (length (smaller k (entries_of t)))) else None))"
    and "rank_of_floor b k = Some (Inr (floor_rank (word_of_nat (length (at_most k (entries_of t))))))"
proof -
  have ord: "ordered t" and rd: "readable (pages b) t" and root: "root_page_id b = word_of_nat (page_of t)"
    using holds_treeD(2-4) [OF h] .
  show "rank_of_key b k = Some (Inr (if k \<in> fst ` set (entries_of t) then Some (word_of_nat (length (smaller k (entries_of t)))) else None))"
    using rank_of_key_loop_ok [OF ord rd, of k 0] k root by (simp add: rank_of_key_def check_key_def)
  show "rank_of_floor b k = Some (Inr (floor_rank (word_of_nat (length (at_most k (entries_of t))))))"
    using rank_of_floor_loop_ok [OF ord rd, of 0 k] entries_bound [OF h] k root by (simp add: rank_of_floor_def check_key_def)
qed

lemma scan_from_rank_ok:
  assumes h: "holds_tree b t"
  shows "scan_from_rank b rank n = Some (Inr (take n (drop (unat rank) (entries_of t))))"
proof -
  have lk: "linked (pages b) 0 (leaves t) 0" and ord: "ordered t" and rd: "readable (pages b) t" and root: "root_page_id b = word_of_nat (page_of t)"
    using holds_treeD [OF h] .
  note bound = entries_bound [OF h]
  show ?thesis
  proof (cases "n = 0 \<or> rank \<ge> total_count b")
    case True
    then have "n = 0 \<or> length (entries_of t) \<le> unat rank" using bound(2) by (simp add: word_le_nat_alt)
    then show ?thesis using True by (auto simp: scan_from_rank_def)
  next
    case False
    then have "unat rank < length (entries_of t)" using bound(2) by (simp add: word_le_nat_alt)
    from rank_leaf_loop_ok [OF ord rd this bound(1)] obtain A p es B where r: "leaves t = A @ (p, es) # B"
        "length (concat (map snd A)) \<le> unat rank" "unat rank - length (concat (map snd A)) < length es"
        "rank_leaf_loop b (word_of_nat (page_of t)) (unat rank) = Some (Inr (word_of_nat p, unat rank - length (concat (map snd A))))"
      by blast
    let ?j = "unat rank - length (concat (map snd A))"
    have p: "0 < p" "p < 2 ^ 64" "\<forall>i\<in>fst ` set B. 0 < i \<and> i < 2 ^ 64" using leaf_pages_small [OF h] r(1) by auto
    have lkB: "linked (pages b) p B 0" using lk r(1) by (simp add: linked_append)
    have "pages b p = Some (LeafPage \<lparr>ln_prev = word_of_nat (last_page 0 A), ln_next = word_of_nat (first_page B 0), ln_entries = es\<rparr>)"
      using lk r(1) by (simp add: linked_append)
    from pages_Leaf [OF this] have rl: "read_leaf b (word_of_nat p) = Inr \<lparr>ln_prev = word_of_nat (last_page 0 A), ln_next = word_of_nat (first_page B 0), ln_entries = es\<rparr>"
      by blast
    have "scan_from_rank b rank n = Some (Inr (take n (drop ?j es) @ take (n - length (take n (drop ?j es))) (concat (map snd B))))"
      using False r(4) root rl p forward_loop_ok [OF lkB p(3), of n "take n (drop ?j es)"]
      by (simp add: scan_from_rank_def push_upto_take NULL_PAGE_def word_of_nat_eq_0)
    also have "take n (drop ?j es) @ take (n - length (take n (drop ?j es))) (concat (map snd B)) = take n (drop ?j es @ concat (map snd B))"
      using min_cut [of n 0 "length es - ?j"] by (simp add: min.commute)
    also have "drop ?j es @ concat (map snd B) = drop (unat rank) (entries_of t)"
      using r(2,3) by (simp add: leaves_entries [symmetric] r(1))
    finally show ?thesis .
  qed
qed

lemma sample_loop_ok:
  assumes "\<forall>r\<in>set rs. entry_at_rank b r = Some (Inr (f r))"
  shows "sample_loop b rs res = Some (Inr (res @ map f rs))"
  using assms by (induction rs arbitrary: res) simp_all

lemma sample_by_rank_ok:
  assumes h: "holds_tree b t" and k: "k * length (entries_of t) < 2 ^ 64"
  shows "sample_by_rank b k = Some (Inr (if entries_of t = [] then [] else map (\<lambda>i. entries_of t ! (i * length (entries_of t) div k)) [0..<k]))"
proof (cases "entries_of t = [] \<or> k = 0")
  case True
  then show ?thesis using entries_bound(2) [OF h] by (auto simp: sample_by_rank_def unat_eq_0)
next
  case False
  let ?n = "length (entries_of t)"
  have ord: "ordered t" and rd: "readable (pages b) t" and root: "root_page_id b = word_of_nat (page_of t)"
    using holds_treeD(2-4) [OF h] .
  note bound = entries_bound [OF h]
  have rank: "unat (word_of_nat i * total_count b) div k = i * ?n div k \<and> i * ?n div k < ?n" if "i < k" for i
  proof -
    have "i * ?n < k * ?n" using that False by simp
    then have lt: "i * ?n < 2 ^ 64" using k by linarith
    have "total_count b = word_of_nat ?n" using h by (simp add: holds_tree_def count_of_def)
    then have "word_of_nat i * total_count b = word_of_nat (i * ?n)" by simp
    then have "unat (word_of_nat i * total_count b) = i * ?n" using lt by (simp add: unat_of_nat del: of_nat_mult)
    moreover have "i * ?n div k < ?n" using \<open>i * ?n < k * ?n\<close> False by (simp add: less_mult_imp_div_less mult.commute)
    ultimately show ?thesis by simp
  qed
  have at: "entry_at_rank b r = Some (Inr (entries_of t ! r))" if "r < ?n" for r
    using entry_at_rank_loop_ok [OF ord rd that bound(1)] root by (simp add: entry_at_rank_def)
  let ?rs = "map (\<lambda>i. unat (word_of_nat i * total_count b) div k) [0..<k]"
  have "\<forall>r\<in>set ?rs. entry_at_rank b r = Some (Inr (entries_of t ! r))" using at rank by auto
  from sample_loop_ok [OF this, of "[]"] have "sample_loop b ?rs [] = Some (Inr (map (\<lambda>r. entries_of t ! r) ?rs))" by simp
  also have "map (\<lambda>r. entries_of t ! r) ?rs = map (\<lambda>i. entries_of t ! (i * ?n div k)) [0..<k]" using rank by simp
  finally show ?thesis using False bound(2) by (auto simp: sample_by_rank_def)
qed

end
