(* ===== verification/Btree_Collection.thy ===== *)
theory Btree_Collection
  imports Btree_Map
begin

text \<open>
  The contract of an ordered collection with fixed key and value sizes, and the B+tree as an
  implementation of it: whatever is inserted and removed, the file holds the sorted map of the
  commands, within a number of pages bounded by the number of insertions.
\<close>

section \<open>The contract\<close>

datatype map_cmd = Put bytes bytes | Del bytes

fun cmd_sized :: "nat \<Rightarrow> nat \<Rightarrow> map_cmd \<Rightarrow> bool" where
  "cmd_sized kl vl (Put k v) \<longleftrightarrow> length k = kl \<and> length v = vl"
| "cmd_sized kl vl (Del k) \<longleftrightarrow> length k = kl"

fun apply_cmd :: "map_cmd \<Rightarrow> entries \<Rightarrow> entries" where
  "apply_cmd (Put k v) es = upsert k v es"
| "apply_cmd (Del k) es = without k es"

fun update_cmd :: "map_cmd \<Rightarrow> (bytes \<rightharpoonup> bytes) \<Rightarrow> (bytes \<rightharpoonup> bytes)" where
  "update_cmd (Put k v) m = m(k \<mapsto> v)"
| "update_cmd (Del k) m = m(k := None)"

fun puts :: "map_cmd list \<Rightarrow> nat" where
  "puts [] = 0"
| "puts (Put k v # cs) = Suc (puts cs)"
| "puts (Del k # cs) = puts cs"

text \<open>A run of commands, each of which may fail or not return.\<close>

fun run_cmds ::
    "('s \<Rightarrow> bytes \<Rightarrow> bytes \<Rightarrow> 's result option) \<Rightarrow> ('s \<Rightarrow> bytes \<Rightarrow> (bool \<times> 's) result option) \<Rightarrow>
     's \<Rightarrow> map_cmd list \<Rightarrow> 's result option" where
  "run_cmds ins del s [] = Some (Inr s)"
| "run_cmds ins del s (Put k v # cs) =
     Option.bind (ins s k v) (\<lambda>r. case r of Inl e \<Rightarrow> Some (Inl e) | Inr s' \<Rightarrow> run_cmds ins del s' cs)"
| "run_cmds ins del s (Del k # cs) =
     Option.bind (del s k) (\<lambda>r. case r of Inl e \<Rightarrow> Some (Inl e) | Inr (_, s') \<Rightarrow> run_cmds ins del s' cs)"

lemma ascending_without: "ascending es \<Longrightarrow> ascending (without k es)"
  unfolding without_def by (simp add: sorted_wrt_map sorted_wrt_filter)

lemma map_of_without: "map_of (without k es) = (map_of es)(k := None)"
  unfolding without_def by (rule ext) (induction es, auto)

lemma apply_cmd_ascending: "ascending es \<Longrightarrow> ascending (apply_cmd c es)"
  by (cases c) (simp_all add: upsert_facts ascending_without)

lemma apply_cmd_map: "ascending es \<Longrightarrow> map_of (apply_cmd c es) = update_cmd c (map_of es)"
  by (cases c) (simp_all add: upsert_facts map_of_without)

lemma run_of_cmds:
  assumes "ascending es"
  shows "ascending (fold apply_cmd cs es) \<and> map_of (fold apply_cmd cs es) = fold update_cmd cs (map_of es)"
  using assms by (induction cs arbitrary: es) (simp_all add: apply_cmd_ascending apply_cmd_map)

locale ordered_collection =
  fixes represents :: "'s \<Rightarrow> entries \<Rightarrow> nat \<Rightarrow> bool"
    and key_len :: "'s \<Rightarrow> nat" and value_len :: "'s \<Rightarrow> nat"
    and ins :: "'s \<Rightarrow> bytes \<Rightarrow> bytes \<Rightarrow> 's result option"
    and del :: "'s \<Rightarrow> bytes \<Rightarrow> (bool \<times> 's) result option"
  assumes represents_ascending: "represents s es n \<Longrightarrow> ascending es"
    and ins_law: "represents s es (Suc n) \<Longrightarrow> length k = key_len s \<Longrightarrow> length v = value_len s \<Longrightarrow>
      \<exists>s'. ins s k v = Some (Inr s') \<and> represents s' (upsert k v es) n \<and> key_len s' = key_len s \<and> value_len s' = value_len s"
    and del_law: "represents s es n \<Longrightarrow> length k = key_len s \<Longrightarrow>
      \<exists>s'. del s k = Some (Inr (k \<in> fst ` set es, s')) \<and> represents s' (without k es) n \<and> key_len s' = key_len s \<and> value_len s' = value_len s"
begin

lemma run_represents:
  assumes "represents s es (puts cs + n)" "\<forall>c\<in>set cs. cmd_sized (key_len s) (value_len s) c"
  shows "\<exists>s'. run_cmds ins del s cs = Some (Inr s') \<and> represents s' (fold apply_cmd cs es) n \<and>
    key_len s' = key_len s \<and> value_len s' = value_len s"
  using assms
proof (induction cs arbitrary: s es)
  case (Cons c cs)
  show ?case
  proof (cases c)
    case (Put k v)
    then obtain s' where s': "ins s k v = Some (Inr s')" "represents s' (upsert k v es) (puts cs + n)"
        "key_len s' = key_len s" "value_len s' = value_len s"
      using ins_law [of s es "puts cs + n" k v] Cons.prems by auto
    with Cons.IH [OF s'(2)] Cons.prems(2) show ?thesis by (simp add: Put)
  next
    case (Del k)
    then obtain s' where s': "del s k = Some (Inr (k \<in> fst ` set es, s'))" "represents s' (without k es) (puts cs + n)"
        "key_len s' = key_len s" "value_len s' = value_len s"
      using del_law [of s es "puts cs + n" k] Cons.prems by auto
    with Cons.IH [OF s'(2)] Cons.prems(2) show ?thesis by (simp add: Del)
  qed
qed simp

end

section \<open>The B+tree keeps the contract\<close>

text \<open>
  \<open>b\<close> holds the entries \<open>es\<close> in a file that opens to \<open>b\<close>; with \<open>n\<close> more insertions it has at most
  \<open>N\<close> leaves, and a tree of \<open>N\<close> leaves does not exhaust the 64-bit file offsets.
\<close>

definition keeps :: "nat \<Rightarrow> btree \<Rightarrow> entries \<Rightarrow> nat \<Rightarrow> bool" where
  "keeps N b es n \<longleftrightarrow>
     (\<exists>t. holds_tree b t \<and> synced b \<and> entries_of t = es \<and> bushy t \<and> 2 \<le> bt_max_internal b \<and>
          length (leaves t) + n \<le> N \<and> room (bt_page_size b) (2 * N))"

lemma keepsI:
  assumes "holds_tree b t" "synced b" "bushy t" "2 \<le> bt_max_internal b" "length (leaves t) + n \<le> N" "room (bt_page_size b) (2 * N)"
  shows "keeps N b (entries_of t) n"
  using assms unfolding keeps_def by blast

lemma keepsE:
  assumes "keeps N b es n"
  obtains t where "holds_tree b t" "synced b" "entries_of t = es" "bushy t" "2 \<le> bt_max_internal b"
    "length (leaves t) + n \<le> N" "room (bt_page_size b) (2 * N)"
  using assms unfolding keeps_def by blast

lemma keeps_weaken: "keeps N b es n \<Longrightarrow> m \<le> n \<Longrightarrow> keeps N b es m"
  by (erule keepsE) (use keepsI in force)

lemma max_internal_same:
  assumes "holds_tree b t" "holds_tree b' t'" "bt_key_size b' = bt_key_size b" "bt_page_size b' = bt_page_size b"
  shows "bt_max_internal b' = bt_max_internal b"
proof -
  have "max_internal_entries (bt_page_size b) (bt_key_size b) = Inr (bt_max_internal b)"
    "max_internal_entries (bt_page_size b') (bt_key_size b') = Inr (bt_max_internal b')"
    using assms(1,2) by (simp_all add: holds_tree_def fits_def)
  then show ?thesis using assms(3,4) by simp
qed

lemma insert_keeps:
  assumes "keeps N b es (Suc n)" "length k = unat (bt_key_size b)" "length v = unat (bt_value_size b)"
  shows "\<exists>b'. btree_insert b k v = Some (Inr b') \<and> keeps N b' (upsert k v es) n \<and>
    bt_key_size b' = bt_key_size b \<and> bt_value_size b' = bt_value_size b"
proof -
  obtain t where t: "holds_tree b t" "entries_of t = es" "bushy t" "2 \<le> bt_max_internal b"
    and room: "length (leaves t) + Suc n \<le> N" "room (bt_page_size b) (2 * N)" using assms(1) by (rule keepsE)
  let ?t = "insert_tree b k v t"
  note more = insert_tree_bushy [OF t(1,3,4), of k v]
  have le: "length (leaves ?t) + n \<le> N" using more(2) room(1) by simp
  then have "next_page ?t \<le> 2 * N" using bushy_next_page [OF more(1)] by simp
  then obtain b' where b': "btree_insert b k v = Some (Inr b')" "holds_tree b' ?t" "synced b'"
      "bt_key_size b' = bt_key_size b" "bt_value_size b' = bt_value_size b" "bt_page_size b' = bt_page_size b"
    using btree_insert_holds [OF t(1) assms(2,3) room_mono [OF room(2)]] by blast
  have "keeps N b' (entries_of ?t) n"
    using b' more(1) le room(2) t(4) max_internal_same [OF t(1) b'(2,4,6)] by (intro keepsI) simp_all
  then show ?thesis using b' insert_tree_facts(1) [OF t(1), of k v] t(2) by auto
qed

lemma remove_keeps:
  assumes "keeps N b es n" "length k = unat (bt_key_size b)"
  shows "\<exists>b'. btree_remove b k = Some (Inr (k \<in> fst ` set es, b')) \<and> keeps N b' (without k es) n \<and>
    bt_key_size b' = bt_key_size b \<and> bt_value_size b' = bt_value_size b"
proof -
  obtain t where t: "holds_tree b t" "synced b" "entries_of t = es" "bushy t" "2 \<le> bt_max_internal b"
    and room: "length (leaves t) + n \<le> N" "room (bt_page_size b) (2 * N)" using assms(1) by (rule keepsE)
  let ?t = "tree_remove k t"
  have ord: "ordered t" using t(1) by (rule holds_treeD(2))
  obtain b' where b': "btree_remove b k = Some (Inr (k \<in> fst ` set es, b'))" "holds_tree b' ?t" "synced b'"
      "bt_key_size b' = bt_key_size b" "bt_value_size b' = bt_value_size b" "bt_page_size b' = bt_page_size b"
    using btree_remove_holds [OF t(1,2) assms(2)] t(3) by blast
  have "length (leaves ?t) = length (leaves t)" using tree_remove_shape [OF ord, of k] by (metis length_map)
  then have "keeps N b' (entries_of ?t) n"
    using b' tree_remove_bushy [OF ord t(4)] room t(5) max_internal_same [OF t(1) b'(2,4,6)] by (intro keepsI) simp_all
  then show ?thesis using b' tree_remove_ok [OF ord, of k] t(3) by auto
qed

lemma keeps_ascending: "keeps N b es n \<Longrightarrow> ascending es"
  by (erule keepsE) (use holds_treeD(2) ordered_entries in blast)

interpretation bt: ordered_collection "keeps N" "\<lambda>b. unat (bt_key_size b)" "\<lambda>b. unat (bt_value_size b)" btree_insert btree_remove for N
proof unfold_locales
  show "ascending es" if "keeps N s es n" for s es n using that by (rule keeps_ascending)
next
  show "\<exists>s'. btree_insert s k v = Some (Inr s') \<and> keeps N s' (upsert k v es) n \<and> unat (bt_key_size s') = unat (bt_key_size s) \<and>
      unat (bt_value_size s') = unat (bt_value_size s)"
    if "keeps N s es (Suc n)" "length k = unat (bt_key_size s)" "length v = unat (bt_value_size s)" for s es n k v
    using insert_keeps [OF that] by auto
next
  show "\<exists>s'. btree_remove s k = Some (Inr (k \<in> fst ` set es, s')) \<and> keeps N s' (without k es) n \<and> unat (bt_key_size s') = unat (bt_key_size s) \<and>
      unat (bt_value_size s') = unat (bt_value_size s)"
    if "keeps N s es n" "length k = unat (bt_key_size s)" for s es n k
    using remove_keeps [OF that] by auto
qed

section \<open>A fresh collection\<close>

definition sizes_fit :: "u32 \<Rightarrow> u32 \<Rightarrow> u32 \<Rightarrow> bool" where
  "sizes_fit ks vs ps \<longleftrightarrow>
     validate_page_size ps = Inr () \<and> 0 < unat ks + unat vs \<and> unat ks + unat vs \<le> unat ps - 32 \<and>
     2 * (unat ks + 16) \<le> unat ps - 32"

lemma create_keeps:
  assumes "sizes_fit ks vs ps" "room ps (2 * N)" "n < N"
  shows "\<exists>b. btree_create ks vs ps = Inr b \<and> keeps N b [] n \<and> bt_key_size b = ks \<and> bt_value_size b = vs"
proof -
  let ?ml = "(unat ps - 32) div (unat ks + unat vs)" and ?mi = "(unat ps - 32) div (unat ks + 16)"
  have m: "max_leaf_entries ps ks vs = Inr ?ml" "max_internal_entries ps ks = Inr ?mi"
    using assms(1) by (auto simp: sizes_fit_def max_leaf_entries_def max_internal_entries_def capacity_def NODE_HEADER_LEN_def)
  have pos: "0 < ?ml" "2 \<le> ?mi" using assms(1) by (auto simp: sizes_fit_def div_greater_zero_iff less_eq_div_iff_mult_less_eq)
  let ?b0 = "\<lparr>bt_store = ps_create ps, bt_page_size = ps, bt_key_size = ks, bt_value_size = vs, root_page_id = 1, total_count = 0,
    next_page_id = 2, bt_max_leaf = ?ml, bt_max_internal = ?mi\<rparr>"
  have f: "fits ?b0" using m pos assms(1) by (simp add: fits_def ps_create_def sizes_fit_def)
  have "addressable ps 1" by (rule room_addressable [OF assms(2)]) (use assms(3) in simp)
  moreover have "leaf_fits ps ks vs empty_leaf"
    using fits_page_size(1) [OF f] by (simp add: leaf_fits_def empty_leaf_def NODE_HEADER_LEN_def)
  ultimately obtain st where st: "write_leaf ?b0 1 empty_leaf = Inr (?b0\<lparr>bt_store := st\<rparr>)" "stored ?b0 st ((pages ?b0)(1 \<mapsto> LeafPage empty_leaf))"
    using write_leaf_pages [OF f, of 1 empty_leaf] by auto
  have "fits (?b0\<lparr>bt_store := st\<rparr>)" using fits_stored [OF f st(2), of 2] by simp
  from write_superblock_ok [OF this] obtain s where s: "write_superblock (?b0\<lparr>bt_store := st\<rparr>) = Inr (?b0\<lparr>bt_store := s\<rparr>)" by auto
  obtain bs where "encode_leaf empty_leaf ps ks vs = Inr bs" "write_page (ps_create ps) 1 bs = Inr st"
    using st(1) by (auto simp: write_leaf_def on_store_def bindE_def split: sum.splits)
  then have c: "btree_create ks vs ps = Inr (?b0\<lparr>bt_store := s\<rparr>)"
    using s m pos assms(1) by (simp add: btree_create_def sizes_fit_def)
  note h = btree_create_holds [OF c]
  have "keeps N (?b0\<lparr>bt_store := s\<rparr>) (entries_of (Lf 1 [])) n" by (rule keepsI [OF h(1,2)]) (use pos assms(2,3) in simp_all)
  then show ?thesis using c by simp
qed

lemma collection_run:
  assumes "sizes_fit ks vs ps" "\<forall>c\<in>set cs. cmd_sized (unat ks) (unat vs) c" "room ps (2 * Suc (puts cs))"
  shows "\<exists>b0 b. btree_create ks vs ps = Inr b0 \<and> run_cmds btree_insert btree_remove b0 cs = Some (Inr b) \<and>
    keeps (Suc (puts cs)) b (fold apply_cmd cs []) 0 \<and> bt_key_size b = ks \<and> bt_value_size b = vs"
proof -
  obtain b0 where b0: "btree_create ks vs ps = Inr b0" "keeps (Suc (puts cs)) b0 [] (puts cs + 0)" "bt_key_size b0 = ks" "bt_value_size b0 = vs"
    using create_keeps [OF assms(1,3), of "puts cs"] by auto
  with bt.run_represents [OF b0(2)] assms(2) show ?thesis by (auto dest!: word_unat_eq_iff [THEN iffD2])
qed

section \<open>What the queries say of the kept entries\<close>

lemma keeps_synced: "keeps N b es n \<Longrightarrow> btree_open (ps_file (bt_store b)) = Inr b"
  by (erule keepsE) (simp add: synced_def)

lemma keeps_len: "keeps N b es n \<Longrightarrow> btree_len b = length es"
  by (erule keepsE) (use entries_bound(2) in \<open>auto simp: btree_len_def\<close>)

lemma keeps_scans:
  assumes "keeps N b es n"
  shows "scan_forward_bounded b j = Some (Inr (take j es))" "scan_backward_bounded b j = Some (Inr (take j (rev es)))"
    "scan_from_rank b r j = Some (Inr (take j (drop (unat r) es)))"
  using assms by (auto elim!: keepsE simp: scans_ok scan_from_rank_ok)

lemma keeps_sample:
  assumes "keeps N b es n" "k * length es < 2 ^ 64"
  shows "sample_by_rank b k = Some (Inr (if es = [] then [] else map (\<lambda>i. es ! (i * length es div k)) [0..<k]))"
  using assms by (elim keepsE) (use sample_by_rank_ok in blast)

lemma keeps_pages: "keeps N b es n \<Longrightarrow> unat (next_page_id b) \<le> 2 * N"
proof (erule keepsE)
  fix t assume t: "holds_tree b t" "bushy t" "length (leaves t) + n \<le> N"
  have "unat (next_page_id b) \<le> next_page t" using t(1) by (simp add: holds_tree_def unat_of_nat)
  then show ?thesis using bushy_next_page [OF t(2)] t(3) by linarith
qed

lemma ascending_card:
  assumes "ascending es"
  shows "length es = card (dom (map_of es))"
proof -
  have "distinct (map fst es)" using assms by (simp add: strict_sorted_iff)
  then show ?thesis by (metis distinct_card dom_map_of_conv_image_fst length_map list.set_map)
qed

lemma ascending_prefix:
  assumes "ascending es" "\<And>j k. P k \<Longrightarrow> j < k \<Longrightarrow> P (j :: bytes)"
  shows "length (takeWhile (\<lambda>e. P (fst e)) es) = card {j \<in> dom (map_of es). P j}"
proof -
  have "filter (\<lambda>e. P (fst e)) es = takeWhile (\<lambda>e. P (fst e)) es"
    using assms(1)
  proof (induction es)
    case (Cons e es)
    show ?case
    proof (cases "P (fst e)")
      case False
      then have "\<forall>x\<in>set es. \<not> P (fst x)" using Cons.prems assms(2) by auto
      then show ?thesis using False by (simp add: filter_empty_conv)
    qed (use Cons in simp)
  qed simp
  moreover have "ascending (filter (\<lambda>e. P (fst e)) es)" using assms(1) by (simp add: sorted_wrt_map sorted_wrt_filter)
  moreover have "dom (map_of (filter (\<lambda>e. P (fst e)) es)) = {j \<in> dom (map_of es). P j}"
    by (auto simp: dom_map_of_conv_image_fst)
  ultimately show ?thesis using ascending_card by metis
qed

lemma keeps_ranks:
  assumes k: "keeps N b es n" and len: "length key = unat (bt_key_size b)" and m: "m = map_of es"
  shows "rank_of_key b key = Some (Inr (if m key = None then None else Some (word_of_nat (card {j \<in> dom m. j < key}))))"
    and "rank_of_floor b key = Some (Inr (if {j \<in> dom m. j \<le> key} = {} then None else Some (word_of_nat (card {j \<in> dom m. j \<le> key} - 1))))"
proof -
  obtain t where t: "holds_tree b t" "entries_of t = es" using k by (rule keepsE)
  note asc = keeps_ascending [OF k]
  have "m key = None \<longleftrightarrow> key \<notin> fst ` set es" by (simp add: m map_of_eq_None_iff)
  then show "rank_of_key b key = Some (Inr (if m key = None then None else Some (word_of_nat (card {j \<in> dom m. j < key}))))"
    using key_ranks_ok(1) [OF t(1) len] ascending_prefix [OF asc, of "\<lambda>j. j < key"] by (simp add: t(2) m)
  let ?n = "length (at_most key es)"
  have n: "?n = card {j \<in> dom m. j \<le> key}" unfolding m by (rule ascending_prefix [OF asc]) auto
  have "?n \<le> length es" by (rule length_takeWhile_le)
  then have "?n < 2 ^ 64" using entries_bound(1) [OF t(1)] by (simp only: t(2))
  then have z: "(word_of_nat ?n :: u64) = 0 \<longleftrightarrow> ?n = 0" by (simp add: word_of_nat_eq_0)
  have e: "{j \<in> dom m. j \<le> key} = {} \<longleftrightarrow> ?n = 0"
    unfolding n using finite_dom_map_of [of es] by (simp add: m)
  have "rank_of_floor b key = Some (Inr (floor_rank (word_of_nat ?n)))" using key_ranks_ok(2) [OF t(1) len] t(2) by simp
  also have "floor_rank (word_of_nat ?n) = (if ?n = 0 then None else Some (word_of_nat (?n - 1)))"
    unfolding floor_rank_def z by (cases ?n) simp_all
  finally show "rank_of_floor b key = Some (Inr (if {j \<in> dom m. j \<le> key} = {} then None else Some (word_of_nat (card {j \<in> dom m. j \<le> key} - 1))))"
    unfolding e n .
qed

lemma apply_length:
  assumes "ascending es"
  shows "length (fold apply_cmd cs es) \<le> length es + puts cs"
  using assms
proof (induction cs arbitrary: es)
  case (Cons c cs)
  have "length (apply_cmd c es) \<le> length es + puts [c]"
    using Cons.prems by (cases c) (simp_all add: length_upsert length_without)
  with Cons.IH [OF apply_cmd_ascending [OF Cons.prems], of c] show ?case by (cases c) simp_all
qed simp

section \<open>Properties\<close>

text \<open>
  C2: The B+tree file implements the ordered map. On a fresh file with sizes that fit the page, every
  run of inserts and removes with keys and values of the right sizes is accepted, as long as the
  64-bit file offsets can address two pages per insertion. Afterwards the file opens to the tree in
  memory, its length is the number of keys, and the scans from the left, from the right and from a
  rank return the entries of the map of the commands in key order.
\<close>

theorem btree_is_the_sorted_map:
  assumes "sizes_fit ks vs ps" and "\<forall>c\<in>set cs. cmd_sized (unat ks) (unat vs) c" and "2 * Suc (puts cs) * unat ps \<le> 2 ^ 64"
  shows "\<exists>b0 b es. btree_create ks vs ps = Inr b0 \<and> run_cmds btree_insert btree_remove b0 cs = Some (Inr b) \<and>
    btree_open (ps_file (bt_store b)) = Inr b \<and>
    sorted_wrt (<) (map fst es) \<and> map_of es = fold update_cmd cs Map.empty \<and> btree_len b = length es \<and>
    (\<forall>n. scan_forward_bounded b n = Some (Inr (take n es)) \<and> scan_backward_bounded b n = Some (Inr (take n (rev es)))) \<and>
    (\<forall>r n. scan_from_rank b r n = Some (Inr (take n (drop (unat r) es))))"
proof -
  have "room ps (2 * Suc (puts cs))" using assms(3) by (simp add: room_def)
  from collection_run [OF assms(1,2) this] obtain b0 b where b: "btree_create ks vs ps = Inr b0"
    "run_cmds btree_insert btree_remove b0 cs = Some (Inr b)" and k: "keeps (Suc (puts cs)) b (fold apply_cmd cs []) 0" by blast
  show ?thesis
    by (intro exI [of _ b0] exI [of _ b] exI [of _ "fold apply_cmd cs []"] conjI allI)
      (use b keeps_scans [OF k] keeps_synced [OF k] keeps_len [OF k] run_of_cmds [of "[]" cs] in simp_all)
qed

theorem btree_is_the_sorted_map_witness:
  "\<exists>b0 b es. btree_create 1 1 4096 = Inr b0 \<and>
    run_cmds btree_insert btree_remove b0 [Put [5] [1], Put [3] [2], Put [5] [4], Del [3]] = Some (Inr b) \<and>
    btree_open (ps_file (bt_store b)) = Inr b \<and> map_of es = [[5] \<mapsto> [4 :: u8]] \<and> btree_len b = length es \<and>
    scan_forward_bounded b 1 = Some (Inr (take 1 es))"
proof -
  let ?cs = "[Put [5] [1], Put [3] [2], Put [5] [4], Del [3]]"
  have "sizes_fit 1 1 4096" by (simp add: sizes_fit_def validate_page_size_def is_power_of_two_def upt_rec)
  moreover have "\<forall>c\<in>set ?cs. cmd_sized (unat (1 :: u32)) (unat (1 :: u32)) c" by simp
  moreover have "2 * Suc (puts ?cs) * unat (4096 :: u32) \<le> 2 ^ 64" by simp
  moreover have "fold update_cmd ?cs Map.empty = [[5] \<mapsto> [4]]" by auto
  ultimately show ?thesis using btree_is_the_sorted_map [of 1 1 4096 ?cs] by metis
qed

text \<open>
  C5: Ranks. After any such run the rank of a key is the number of smaller keys of the map, absent
  keys have none, and the floor of a probe is the last of the keys up to it; sampling \<open>k\<close> entries
  returns the entries at the \<open>k\<close> evenly spaced ranks.
\<close>

theorem btree_ranks:
  assumes "sizes_fit ks vs ps" and "\<forall>c\<in>set cs. cmd_sized (unat ks) (unat vs) c" and "2 * Suc (puts cs) * unat ps \<le> 2 ^ 64"
    and "length key = unat ks" and "k * puts cs < 2 ^ 64" and "m = fold update_cmd cs Map.empty"
  shows "\<exists>b0 b es. btree_create ks vs ps = Inr b0 \<and> run_cmds btree_insert btree_remove b0 cs = Some (Inr b) \<and>
    sorted_wrt (<) (map fst es) \<and> map_of es = m \<and>
    rank_of_key b key = Some (Inr (if m key = None then None else Some (word_of_nat (card {j \<in> dom m. j < key})))) \<and>
    rank_of_floor b key = Some (Inr (if {j \<in> dom m. j \<le> key} = {} then None else Some (word_of_nat (card {j \<in> dom m. j \<le> key} - 1)))) \<and>
    sample_by_rank b k = Some (Inr (if es = [] then [] else map (\<lambda>i. es ! (i * length es div k)) [0..<k]))"
proof -
  have "room ps (2 * Suc (puts cs))" using assms(3) by (simp add: room_def)
  from collection_run [OF assms(1,2) this] obtain b0 b where b: "btree_create ks vs ps = Inr b0"
    "run_cmds btree_insert btree_remove b0 cs = Some (Inr b)" "bt_key_size b = ks"
    and k: "keeps (Suc (puts cs)) b (fold apply_cmd cs []) 0" by blast
  have len: "length (fold apply_cmd cs []) \<le> puts cs" using apply_length [of "[]" cs] by simp
  then have "k * length (fold apply_cmd cs []) \<le> k * puts cs" by simp
  then have "k * length (fold apply_cmd cs []) < 2 ^ 64" using assms(5) by linarith
  from keeps_sample [OF k this] keeps_ranks [OF k, of key] b(3) assms(4,6) run_of_cmds [of "[]" cs]
  show ?thesis using b(1,2) by (intro exI [of _ b0] exI [of _ b] exI [of _ "fold apply_cmd cs []"]) simp
qed

theorem btree_ranks_witness:
  "\<exists>b0 b. btree_create 1 1 4096 = Inr b0 \<and>
    run_cmds btree_insert btree_remove b0 [Put [5] [1], Put [3] [2]] = Some (Inr b) \<and>
    rank_of_key b [5] = Some (Inr (Some (word_of_nat (card {j \<in> {[5 :: u8], [3]}. j < [5]}))))"
proof -
  let ?cs = "[Put [5] [1], Put [3] [2]]"
  have a: "sizes_fit 1 1 4096" by (simp add: sizes_fit_def validate_page_size_def is_power_of_two_def upt_rec)
  have b: "\<forall>c\<in>set ?cs. cmd_sized (unat (1 :: u32)) (unat (1 :: u32)) c" by simp
  have c: "2 * Suc (puts ?cs) * unat (4096 :: u32) \<le> 2 ^ 64" by simp
  have d: "length [5 :: u8] = unat (1 :: u32)" "(3 :: nat) * puts ?cs < 2 ^ 64" by simp_all
  have m: "dom (fold update_cmd ?cs Map.empty) = {[5], [3]}" "fold update_cmd ?cs Map.empty [5] \<noteq> None" by auto
  from btree_ranks [OF a b c d refl] obtain b0 b where "btree_create 1 1 4096 = Inr b0"
      "run_cmds btree_insert btree_remove b0 ?cs = Some (Inr b)"
      "rank_of_key b [5] = Some (Inr (if fold update_cmd ?cs Map.empty [5] = None then None
        else Some (word_of_nat (card {j \<in> dom (fold update_cmd ?cs Map.empty). j < [5]}))))" by blast
  then show ?thesis unfolding m(1) if_not_P [OF m(2)] by blast
qed

text \<open>
  C6: Bounds. A run of commands with \<open>p\<close> insertions uses at most \<open>2 p + 1\<close> pages beside the
  superblock, and the 64-bit counters are exact: the count of the superblock is the number of
  keys and never more than \<open>p\<close>.
\<close>

theorem btree_space_is_bounded:
  assumes "sizes_fit ks vs ps" and "\<forall>c\<in>set cs. cmd_sized (unat ks) (unat vs) c" and "2 * Suc (puts cs) * unat ps \<le> 2 ^ 64"
  shows "\<exists>b0 b. btree_create ks vs ps = Inr b0 \<and> run_cmds btree_insert btree_remove b0 cs = Some (Inr b) \<and>
    unat (next_page_id b) \<le> 2 * Suc (puts cs) \<and>
    unat (total_count b) = card (dom (fold update_cmd cs Map.empty)) \<and> unat (total_count b) \<le> puts cs"
proof -
  have "room ps (2 * Suc (puts cs))" using assms(3) by (simp add: room_def)
  from collection_run [OF assms(1,2) this] obtain b0 b where b: "btree_create ks vs ps = Inr b0"
    "run_cmds btree_insert btree_remove b0 cs = Some (Inr b)" and k: "keeps (Suc (puts cs)) b (fold apply_cmd cs []) 0" by blast
  have "unat (total_count b) = length (fold apply_cmd cs [])" using keeps_len [OF k] by (simp add: btree_len_def)
  moreover have "length (fold apply_cmd cs []) = card (dom (fold update_cmd cs Map.empty))"
    using ascending_card [of "fold apply_cmd cs []"] run_of_cmds [of "[]" cs] by simp
  ultimately show ?thesis using b keeps_pages [OF k] apply_length [of "[]" cs] by auto
qed

theorem btree_space_is_bounded_witness:
  "\<exists>b0 b. btree_create 1 1 4096 = Inr b0 \<and>
    run_cmds btree_insert btree_remove b0 [Put [5] [1], Del [5]] = Some (Inr b) \<and>
    unat (next_page_id b) \<le> 4 \<and> unat (total_count b) = 0"
proof -
  let ?cs = "[Put [5] [1], Del [5]]"
  have "sizes_fit 1 1 4096" by (simp add: sizes_fit_def validate_page_size_def is_power_of_two_def upt_rec)
  moreover have "\<forall>c\<in>set ?cs. cmd_sized (unat (1 :: u32)) (unat (1 :: u32)) c" by simp
  moreover have "2 * Suc (puts ?cs) * unat (4096 :: u32) \<le> 2 ^ 64" by simp
  moreover have "fold update_cmd ?cs Map.empty = Map.empty" by auto
  ultimately show ?thesis using btree_space_is_bounded [of 1 1 4096 ?cs] by auto
qed

text \<open>
  C7: Node pages round-trip: a leaf or internal node that fits its page is encoded to exactly one
  page, the page is recognised by its type byte, and decoding gives the node back; the superblock
  gives back its fields.
\<close>

theorem pages_round_trip:
  assumes "leaf_fits ps ks vs leaf" and "internal_fits ps ks node" and "validate_page_size (sb_page_size sb) = Inr ()" and "44 \<le> unat ps"
  shows "\<exists>lbs ibs sbs. encode_leaf leaf ps ks vs = Inr lbs \<and> encode_internal node ps ks = Inr ibs \<and> sb_encode sb ps = Inr sbs \<and>
    length lbs = unat ps \<and> length ibs = unat ps \<and> length sbs = unat ps \<and>
    page_type lbs = Inr LeafKind \<and> page_type ibs = Inr InternalKind \<and>
    decode_leaf lbs ks vs = Inr leaf \<and> decode_internal ibs ks = Inr node \<and> sb_decode (take 44 sbs) = Inr sb"
  using encode_leaf_fits [OF assms(1)] encode_internal_fits [OF assms(2)] sb_decode_encode [OF assms(3), of ps] assms(4)
  by (auto simp: SB_HEADER_LEN_def)

theorem pages_round_trip_witness:
  "\<exists>lbs. encode_leaf \<lparr>ln_prev = 3, ln_next = 0, ln_entries = [([1], [2 :: u8])]\<rparr> 4096 1 1 = Inr lbs \<and>
    decode_leaf lbs 1 1 = Inr \<lparr>ln_prev = 3, ln_next = 0, ln_entries = [([1], [2])]\<rparr>"
proof -
  let ?l = "\<lparr>ln_prev = 3, ln_next = 0, ln_entries = [([1], [2 :: u8])]\<rparr>"
  let ?n = "\<lparr>in_entries = [([1], 2, 3)], rightmost_child = 4, rightmost_count = 5\<rparr>"
  let ?s = "\<lparr>sb_page_size = 4096, sb_key_size = 1, sb_value_size = 1, sb_root_page_id = 1, sb_total_count = 0, sb_next_page_id = 2\<rparr>"
  have "leaf_fits 4096 1 1 ?l" "internal_fits 4096 1 ?n" "validate_page_size (sb_page_size ?s) = Inr ()"
    by (simp_all add: leaf_fits_def internal_fits_def NODE_HEADER_LEN_def validate_page_size_def is_power_of_two_def upt_rec)
  from pages_round_trip [OF this] show ?thesis by auto
qed
end
