(* ===== verification/Collection_Node.thy ===== *)
theory Collection_Node
  imports Store_Server Btree_Collection
begin

text \<open>
  The collections of a storage node against their abstract meaning: a map from collection ids to
  sorted entries. Every collection request, on every branch, answers as the map does, and the
  files keep the map across a restart of the node.
\<close>

section \<open>The abstract collections\<close>

type_synonym coll_map = "datum_id \<rightharpoonup> u32 \<times> u32 \<times> entries"

text \<open>The reply \<open>None\<close> of the specification stands for an error with some message.\<close>

definition spec_read :: "coll_map \<Rightarrow> datum_id \<Rightarrow> (u32 \<Rightarrow> entries \<Rightarrow> store_response option) \<Rightarrow> store_response option" where
  "spec_read M i f = Option.bind (M i) (\<lambda>(ks, vs, es). f ks es)"

fun spec_serve :: "coll_map \<Rightarrow> store_request \<Rightarrow> store_response option \<times> coll_map" where
  "spec_serve M (SCollectionCreate i ks vs) = (Some SAck, if M i = None then M(i \<mapsto> (ks, vs, [])) else M)"
| "spec_serve M (SCollectionInsert i k v) =
     (case M i of
        Some (ks, vs, es) \<Rightarrow>
          if length k = unat ks \<and> length v = unat vs then (Some SAck, M(i \<mapsto> (ks, vs, upsert k v es))) else (None, M)
      | None \<Rightarrow> (None, M))"
| "spec_serve M (SCollectionRemove i k) =
     (case M i of
        Some (ks, vs, es) \<Rightarrow> if length k = unat ks then (Some SAck, M(i \<mapsto> (ks, vs, without k es))) else (None, M)
      | None \<Rightarrow> (None, M))"
| "spec_serve M (SCollectionGet i k) = (spec_read M i (\<lambda>ks es. Some (SCollectionEntry (map_of es k))), M)"
| "spec_serve M (SCollectionScanForward i l) = (spec_read M i (\<lambda>ks es. Some (SCollectionEntries (take (unat l) (rev es)))), M)"
| "spec_serve M (SCollectionScanBackward i l) = (spec_read M i (\<lambda>ks es. Some (SCollectionEntries (take (unat l) es))), M)"
| "spec_serve M (SCollectionSample i k) =
     (spec_read M i (\<lambda>ks es. Some (SCollectionEntries (if es = [] then [] else map (\<lambda>j. es ! (j * length es div unat k)) [0..<unat k]))), M)"
| "spec_serve M (SCollectionRankOfKey i k) =
     (spec_read M i (\<lambda>ks es. if length k = unat ks then Some (SCollectionRank
        (if map_of es k = None then None else Some (word_of_nat (card {j \<in> dom (map_of es). j < k})))) else None), M)"
| "spec_serve M (SCollectionScanFromRank i r l) = (spec_read M i (\<lambda>ks es. Some (SCollectionEntries (take (unat l) (drop (unat r) es)))), M)"
| "spec_serve M (SCollectionCount i) = (spec_read M i (\<lambda>ks es. Some (SCollectionTotal (word_of_nat (length es)))), M)"
| "spec_serve M req = (None, M)"

definition meets :: "store_response option \<Rightarrow> store_response option \<Rightarrow> bool" where
  "meets s r \<longleftrightarrow> (case s of Some resp \<Rightarrow> r = Some resp | None \<Rightarrow> \<exists>msg. r = Some (SError msg))"

text \<open>The requests the theorems are about: collection requests, with creations of sizes that fit a page.\<close>

fun coll_request :: "store_request \<Rightarrow> bool" where
  "coll_request (SCollectionCreate i ks vs) \<longleftrightarrow> sizes_fit ks vs COLLECTION_PAGE_SIZE"
| "coll_request (SCollectionInsert i k v) \<longleftrightarrow> True"
| "coll_request (SCollectionRemove i k) \<longleftrightarrow> True"
| "coll_request (SCollectionGet i k) \<longleftrightarrow> True"
| "coll_request (SCollectionScanForward i l) \<longleftrightarrow> True"
| "coll_request (SCollectionScanBackward i l) \<longleftrightarrow> True"
| "coll_request (SCollectionSample i k) \<longleftrightarrow> True"
| "coll_request (SCollectionRankOfKey i k) \<longleftrightarrow> True"
| "coll_request (SCollectionScanFromRank i r l) \<longleftrightarrow> True"
| "coll_request (SCollectionCount i) \<longleftrightarrow> True"
| "coll_request req \<longleftrightarrow> False"

fun insertions :: "store_request \<Rightarrow> nat" where
  "insertions (SCollectionInsert i k v) = 1"
| "insertions req = 0"

section \<open>The files hold the map\<close>

definition file_holds :: "nat \<Rightarrow> collections \<Rightarrow> nat \<Rightarrow> datum_id \<Rightarrow> (u32 \<times> u32 \<times> entries) option \<Rightarrow> bool" where
  "file_holds N cs n i x \<longleftrightarrow>
     (case x of
        None \<Rightarrow> open_trees cs i = None \<and> coll_files cs (collection_file_name i) = None
      | Some (ks, vs, es) \<Rightarrow>
          \<exists>b. open_trees cs i \<in> {None, Some b} \<and> coll_files cs (collection_file_name i) = Some (ps_file (bt_store b)) \<and>
              keeps N b es n \<and> bt_key_size b = ks \<and> bt_value_size b = vs \<and> length es + n < N)"

definition colls_hold :: "nat \<Rightarrow> collections \<Rightarrow> coll_map \<Rightarrow> nat \<Rightarrow> bool" where
  "colls_hold N cs M n \<longleftrightarrow> \<not> lock_lost cs \<and> n < N \<and> N \<le> 2 ^ 32 \<and> (\<forall>i. file_holds N cs n i (M i))"

lemma file_holds_weaken: "file_holds N cs n i x \<Longrightarrow> m \<le> n \<Longrightarrow> file_holds N cs m i x"
  unfolding file_holds_def using keeps_weaken by (auto split: option.splits)

lemma colls_hold_weaken: "colls_hold N cs M n \<Longrightarrow> m \<le> n \<Longrightarrow> colls_hold N cs M m"
  unfolding colls_hold_def using file_holds_weaken by fastforce

lemma colls_hold_open:
  assumes "colls_hold N cs M n" "M i = Some (ks, vs, es)"
  obtains b where "open_collection cs i c = Opened b" "keeps N b es n" "bt_key_size b = ks" "bt_value_size b = vs" "length es + n < N"
proof -
  have "file_holds N cs n i (Some (ks, vs, es))" using assms unfolding colls_hold_def by metis
  then obtain b where b: "open_trees cs i \<in> {None, Some b}" "coll_files cs (collection_file_name i) = Some (ps_file (bt_store b))"
    "keeps N b es n" "bt_key_size b = ks" "bt_value_size b = vs" "length es + n < N" by (auto simp: file_holds_def)
  have "open_collection cs i c = Opened b" using b(1,2) keeps_synced [OF b(3)] by (auto simp: open_collection_def)
  with b that show ?thesis by blast
qed

lemma colls_hold_missing:
  assumes "colls_hold N cs M n" "M i = None"
  shows "open_collection cs i None = Refused (lit ''collection '' @ debug_datum_id i @ lit '' does not exist'')"
proof -
  have "file_holds N cs n i None" using assms unfolding colls_hold_def by metis
  then show ?thesis by (simp add: file_holds_def open_collection_def)
qed

lemma keep_tree_holds:
  assumes "colls_hold N cs M n" "keeps N b es m" "m \<le> n" "length es + m < N"
  shows "colls_hold N (keep_tree cs i b) (M(i \<mapsto> (bt_key_size b, bt_value_size b, es))) m"
  unfolding colls_hold_def
proof (intro conjI allI)
  fix j
  show "file_holds N (keep_tree cs i b) m j ((M(i \<mapsto> (bt_key_size b, bt_value_size b, es))) j)"
  proof (cases "j = i")
    case False
    have "file_holds N cs m j (M j)" using assms(1,3) file_holds_weaken unfolding colls_hold_def by blast
    then show ?thesis using False by (simp add: file_holds_def keep_tree_def split: option.splits prod.splits)
  qed (use assms(2,4) in \<open>simp add: file_holds_def keep_tree_def\<close>)
qed (use assms in \<open>simp_all add: colls_hold_def keep_tree_def\<close>)

text \<open>What a request does to a collection that exists, by what its closure does to the tree.\<close>

lemma with_collection_there:
  assumes h: "colls_hold N cs M n" and M: "M i = Some (ks, vs, es)"
    and f: "\<And>b. keeps N b es n \<Longrightarrow> bt_key_size b = ks \<Longrightarrow> bt_value_size b = vs \<Longrightarrow>
      \<exists>b'. f b = Some (Inr (x, b')) \<and> keeps N b' es' m \<and> bt_key_size b' = ks \<and> bt_value_size b' = vs" and "m \<le> n" and "length es' + m \<le> length es + n"
  shows "\<exists>cs'. with_collection cs i c f = (Some (Inr x), cs') \<and> colls_hold N cs' (M(i \<mapsto> (ks, vs, es'))) m"
proof -
  obtain b where b: "open_collection cs i c = Opened b" "keeps N b es n" "bt_key_size b = ks" "bt_value_size b = vs" "length es + n < N"
    using colls_hold_open [OF h M] .
  obtain b' where b': "f b = Some (Inr (x, b'))" "keeps N b' es' m" "bt_key_size b' = ks" "bt_value_size b' = vs"
    using f [OF b(2-4)] by blast
  have "\<not> lock_lost cs" using h by (simp add: colls_hold_def)
  then show ?thesis using b(1) b' keep_tree_holds [OF h b'(2) assms(4) le_less_trans [OF assms(5) b(5)], of i] by (simp add: with_collection_def)
qed

lemma with_collection_refused:
  assumes h: "colls_hold N cs M n" and M: "M i = Some (ks, vs, es)"
    and f: "\<And>b. keeps N b es n \<Longrightarrow> bt_key_size b = ks \<Longrightarrow> bt_value_size b = vs \<Longrightarrow> \<exists>s ns. f b = Some (Inl (Bail s ns))"
  shows "\<exists>msg cs'. with_collection cs i c f = (Some (Inl msg), cs') \<and> colls_hold N cs' M n"
proof -
  obtain b where b: "open_collection cs i c = Opened b" "keeps N b es n" "bt_key_size b = ks" "bt_value_size b = vs" "length es + n < N"
    using colls_hold_open [OF h M] .
  obtain s ns where fb: "f b = Some (Inl (Bail s ns))" using f [OF b(2-4)] by blast
  have "\<not> lock_lost cs" using h by (simp add: colls_hold_def)
  moreover have "M(i \<mapsto> (ks, vs, es)) = M" using M by auto
  ultimately show ?thesis using b fb keep_tree_holds [OF h b(2) le_refl b(5), of i] by (simp add: with_collection_def)
qed

lemma with_collection_missing:
  assumes "colls_hold N cs M n" "M i = None"
  shows "\<exists>msg. with_collection cs i None f = (Some (Inl msg), cs)"
  using colls_hold_missing [OF assms] assms(1) by (simp add: with_collection_def colls_hold_def)

lemma with_collection_created:
  assumes h: "colls_hold N cs M n" and M: "M i = None" and fit: "sizes_fit ks vs COLLECTION_PAGE_SIZE"
  shows "\<exists>cs'. with_collection cs i (Some (ks, vs)) (\<lambda>b. Some (Inr ((), b))) = (Some (Inr ()), cs') \<and>
    colls_hold N cs' (M(i \<mapsto> (ks, vs, []))) n"
proof -
  have rm: "room COLLECTION_PAGE_SIZE (2 * N)" "n < N" "\<not> lock_lost cs"
    using h by (simp_all add: colls_hold_def room_def COLLECTION_PAGE_SIZE_def)
  obtain b where b: "btree_create ks vs COLLECTION_PAGE_SIZE = Inr b" "keeps N b [] n" "bt_key_size b = ks" "bt_value_size b = vs"
    using create_keeps [OF fit rm(1)] rm(2) by auto
  have "file_holds N cs n i None" using h M unfolding colls_hold_def by metis
  then have "open_collection cs i (Some (ks, vs)) = Opened b" using b(1) by (simp add: file_holds_def open_collection_def)
  then show ?thesis using b rm keep_tree_holds [OF h b(2) le_refl, of i] by (simp add: with_collection_def)
qed

section \<open>Every request answers as the map does\<close>

lemma reading_there:
  assumes h: "colls_hold N cs M n" and M: "M i = Some (ks, vs, es)"
    and q: "\<And>b. keeps N b es n \<Longrightarrow> bt_key_size b = ks \<Longrightarrow> q b = Some (Inr x)"
  shows "\<exists>cs'. with_collection cs i c (reading q) = (Some (Inr x), cs') \<and> colls_hold N cs' M n"
proof -
  have "\<exists>cs'. with_collection cs i c (reading q) = (Some (Inr x), cs') \<and> colls_hold N cs' (M(i \<mapsto> (ks, vs, es))) n"
    by (rule with_collection_there [OF h M]) (simp_all add: reading_def q)
  moreover have "M(i \<mapsto> (ks, vs, es)) = M" using M by auto
  ultimately show ?thesis by simp
qed

lemma reading_serves:
  assumes h: "colls_hold N cs M n"
    and req: "serve_collection cs req = answer resp (with_collection cs i None (reading q))"
    and spec: "spec_serve M req = (spec_read M i (\<lambda>ks es. Some (resp (a es))), M)"
    and q: "\<And>b ks vs es. M i = Some (ks, vs, es) \<Longrightarrow> keeps N b es n \<Longrightarrow> bt_key_size b = ks \<Longrightarrow> q b = Some (Inr (a es))"
  shows "\<exists>r cs'. serve_collection cs req = (r, cs') \<and> meets (fst (spec_serve M req)) r \<and> colls_hold N cs' (snd (spec_serve M req)) n"
proof (cases "M i")
  case None
  with with_collection_missing [OF h None, of "reading q"] h show ?thesis
    by (auto simp: req spec spec_read_def answer_def meets_def)
next
  case (Some x)
  obtain ks vs es where x: "M i = Some (ks, vs, es)" using Some by (cases x) auto
  with reading_there [OF h x, of q "a es" None] q [OF x] show ?thesis
    by (auto simp: req spec spec_read_def answer_def meets_def)
qed

lemma find_entry: "map_option snd (find (\<lambda>e. fst e = k) es) = map_of es k"
  by (induction es) auto

lemma keeps_get: "keeps N b es n \<Longrightarrow> collection_get k b = Some (Inr (map_of es k))"
  using keeps_scans(3) [of N b es n 0 "btree_len b"] keeps_len [of N b es n]
  by (simp add: collection_get_def find_entry)

lemma keeps_total: "keeps N b es n \<Longrightarrow> total_count b = word_of_nat (length es)"
  by (erule keepsE) (auto simp: holds_tree_def count_of_def)

lemma length_small: "keeps N b es n \<Longrightarrow> length es < 2 ^ 64"
  by (erule keepsE) (use entries_bound(1) in auto)

lemma upsert_grows: "length (upsert k v es) \<le> Suc (length es)"
proof -
  have "length (dropWhile (\<lambda>e. fst e \<le> k) es) \<le> length (dropWhile (\<lambda>e. fst e < k) es)"
    by (induction es) (auto intro: le_SucI length_dropWhile_le)
  moreover have "length (smaller k es) + length (dropWhile (\<lambda>e. fst e < k) es) = length es"
    by (metis length_append takeWhile_dropWhile_id)
  ultimately show ?thesis by (simp add: upsert_def)
qed

lemma insert_serves:
  assumes h: "colls_hold N cs M (Suc n)"
  shows "\<exists>r cs'. serve_collection cs (SCollectionInsert i k v) = (r, cs') \<and> meets (fst (spec_serve M (SCollectionInsert i k v))) r \<and>
    colls_hold N cs' (snd (spec_serve M (SCollectionInsert i k v))) n"
proof (cases "M i")
  case None
  with with_collection_missing [OF h None, of "\<lambda>tree. map_option (\<lambda>r. bindE r (\<lambda>tree'. Inr ((), tree'))) (btree_insert tree k v)"]
    colls_hold_weaken [OF h] show ?thesis by (auto simp: answer_def meets_def)
next
  case (Some x)
  obtain ks vs es where M: "M i = Some (ks, vs, es)" using Some by (cases x) auto
  let ?f = "\<lambda>tree. map_option (\<lambda>r. bindE r (\<lambda>tree'. Inr ((), tree'))) (btree_insert tree k v)"
  show ?thesis
  proof (cases "length k = unat ks \<and> length v = unat vs")
    case True
    have "\<exists>cs'. with_collection cs i None ?f = (Some (Inr ()), cs') \<and> colls_hold N cs' (M(i \<mapsto> (ks, vs, upsert k v es))) n"
    proof (rule with_collection_there [OF h M])
      fix b assume b: "keeps N b es (Suc n)" "bt_key_size b = ks" "bt_value_size b = vs"
      then show "\<exists>b'. ?f b = Some (Inr ((), b')) \<and> keeps N b' (upsert k v es) n \<and> bt_key_size b' = ks \<and> bt_value_size b' = vs"
        using insert_keeps [OF b(1), of k v] True by auto
    qed (use True upsert_grows [of k v es] in simp_all)
    then show ?thesis using M True by (auto simp: answer_def meets_def)
  next
    case False
    have "\<exists>msg cs'. with_collection cs i None ?f = (Some (Inl msg), cs') \<and> colls_hold N cs' M (Suc n)"
      by (rule with_collection_refused [OF h M]) (use False in \<open>auto simp: btree_insert_def check_key_def\<close>)
    then obtain msg cs' where "with_collection cs i None ?f = (Some (Inl msg), cs')" "colls_hold N cs' M (Suc n)" by blast
    then show ?thesis using M False colls_hold_weaken [of N cs' M "Suc n" n] by (auto simp: answer_def meets_def)
  qed
qed

lemma remove_serves:
  assumes h: "colls_hold N cs M n"
  shows "\<exists>r cs'. serve_collection cs (SCollectionRemove i k) = (r, cs') \<and> meets (fst (spec_serve M (SCollectionRemove i k))) r \<and>
    colls_hold N cs' (snd (spec_serve M (SCollectionRemove i k))) n"
proof (cases "M i")
  case None
  with with_collection_missing [OF h None, of "\<lambda>tree. btree_remove tree k"] h show ?thesis by (auto simp: answer_def meets_def)
next
  case (Some x)
  obtain ks vs es where M: "M i = Some (ks, vs, es)" using Some by (cases x) auto
  let ?f = "\<lambda>tree. btree_remove tree k"
  show ?thesis
  proof (cases "length k = unat ks")
    case True
    have "\<exists>cs'. with_collection cs i None ?f = (Some (Inr (k \<in> fst ` set es)), cs') \<and> colls_hold N cs' (M(i \<mapsto> (ks, vs, without k es))) n"
    proof (rule with_collection_there [OF h M])
      fix b assume b: "keeps N b es n" "bt_key_size b = ks" "bt_value_size b = vs"
      then show "\<exists>b'. ?f b = Some (Inr (k \<in> fst ` set es, b')) \<and> keeps N b' (without k es) n \<and> bt_key_size b' = ks \<and> bt_value_size b' = vs"
        using remove_keeps [OF b(1), of k] True by auto
    qed (use length_without [of k es] in simp_all)
    then show ?thesis using M True by (auto simp: answer_def meets_def)
  next
    case False
    have "\<exists>msg cs'. with_collection cs i None ?f = (Some (Inl msg), cs') \<and> colls_hold N cs' M n"
      by (rule with_collection_refused [OF h M]) (use False in \<open>auto simp: btree_remove_def check_key_def\<close>)
    then show ?thesis using M False by (auto simp: answer_def meets_def)
  qed
qed

lemma create_serves:
  assumes h: "colls_hold N cs M n" and fit: "sizes_fit ks vs COLLECTION_PAGE_SIZE"
  shows "\<exists>r cs'. serve_collection cs (SCollectionCreate i ks vs) = (r, cs') \<and> meets (fst (spec_serve M (SCollectionCreate i ks vs))) r \<and>
    colls_hold N cs' (snd (spec_serve M (SCollectionCreate i ks vs))) n"
proof (cases "M i")
  case None
  with with_collection_created [OF h None fit] show ?thesis by (auto simp: answer_def meets_def)
next
  case (Some x)
  obtain ks' vs' es where M: "M i = Some (ks', vs', es)" using Some by (cases x) auto
  have "M(i \<mapsto> (ks', vs', es)) = M" using M by auto
  moreover have "\<exists>cs'. with_collection cs i (Some (ks, vs)) (\<lambda>b. Some (Inr ((), b))) = (Some (Inr ()), cs') \<and>
      colls_hold N cs' (M(i \<mapsto> (ks', vs', es))) n"
    by (rule with_collection_there [OF h M]) auto
  ultimately show ?thesis using M by (auto simp: answer_def meets_def)
qed

lemma rank_serves:
  assumes h: "colls_hold N cs M n"
  shows "\<exists>r cs'. serve_collection cs (SCollectionRankOfKey i k) = (r, cs') \<and> meets (fst (spec_serve M (SCollectionRankOfKey i k))) r \<and>
    colls_hold N cs' (snd (spec_serve M (SCollectionRankOfKey i k))) n"
proof (cases "M i")
  case None
  with with_collection_missing [OF h None, of "reading (\<lambda>tree. rank_of_key tree k)"] h show ?thesis
    by (auto simp: answer_def meets_def spec_read_def)
next
  case (Some x)
  obtain ks vs es where M: "M i = Some (ks, vs, es)" using Some by (cases x) auto
  show ?thesis
  proof (cases "length k = unat ks")
    case True
    have "\<exists>cs'. with_collection cs i None (reading (\<lambda>tree. rank_of_key tree k)) =
        (Some (Inr (if map_of es k = None then None else Some (word_of_nat (card {j \<in> dom (map_of es). j < k})))), cs') \<and> colls_hold N cs' M n"
      by (rule reading_there [OF h M]) (use keeps_ranks(1) [OF _ _ refl] True in blast)
    then show ?thesis using M True by (auto simp: answer_def meets_def spec_read_def)
  next
    case False
    have "\<exists>msg cs'. with_collection cs i None (reading (\<lambda>tree. rank_of_key tree k)) = (Some (Inl msg), cs') \<and> colls_hold N cs' M n"
      by (rule with_collection_refused [OF h M]) (use False in \<open>auto simp: reading_def rank_of_key_def check_key_def\<close>)
    then show ?thesis using M False by (auto simp: answer_def meets_def spec_read_def)
  qed
qed

lemma sample_serves:
  assumes h: "colls_hold N cs M n"
  shows "\<exists>r cs'. serve_collection cs (SCollectionSample i k) = (r, cs') \<and> meets (fst (spec_serve M (SCollectionSample i k))) r \<and>
    colls_hold N cs' (snd (spec_serve M (SCollectionSample i k))) n"
proof (rule reading_serves [OF h])
  show "serve_collection cs (SCollectionSample i k) = answer SCollectionEntries (with_collection cs i None (reading (\<lambda>tree. sample_by_rank tree (unat k))))"
    by simp
  show "spec_serve M (SCollectionSample i k) = (spec_read M i (\<lambda>ks es. Some (SCollectionEntries
      (if es = [] then [] else map (\<lambda>j. es ! (j * length es div unat k)) [0..<unat k]))), M)" by simp
  fix b ks vs es assume M: "M i = Some (ks, vs, es)" and b: "keeps N b es n"
  have "length es < 2 ^ 32" using colls_hold_open [OF h M] h unfolding colls_hold_def by (metis add_lessD1 less_le_trans)
  moreover have "unat k < 2 ^ 32" using unsigned_less [of k, where ?'a = nat] by simp
  ultimately have "unat k * length es < 2 ^ 32 * 2 ^ 32" by (intro mult_strict_mono) simp_all
  then have "unat k * length es < 2 ^ 64" by simp
  from keeps_sample [OF b this] show "sample_by_rank b (unat k) =
      Some (Inr (if es = [] then [] else map (\<lambda>j. es ! (j * length es div unat k)) [0..<unat k]))" .
qed

text \<open>One request: the reply is the specification's, and the files hold the map it leaves.\<close>

lemma coll_serves:
  assumes h: "colls_hold N cs M (insertions req + n)" and "coll_request req"
  shows "\<exists>r cs'. serve_collection cs req = (r, cs') \<and> meets (fst (spec_serve M req)) r \<and> colls_hold N cs' (snd (spec_serve M req)) n"
proof (cases req)
  case (SCollectionCreate i ks vs)
  with create_serves [of N cs M n ks vs i] assms show ?thesis by simp
next
  case (SCollectionInsert i k v)
  with insert_serves [of N cs M n i k v] h show ?thesis by simp
next
  case (SCollectionRemove i k)
  with remove_serves [of N cs M n i k] h show ?thesis by simp
next
  case (SCollectionGet i k)
  show ?thesis unfolding SCollectionGet
    by (rule reading_serves [where a = "\<lambda>es. map_of es k"]) (use h SCollectionGet keeps_get in auto)
next
  case (SCollectionScanForward i l)
  show ?thesis unfolding SCollectionScanForward
    by (rule reading_serves [where a = "\<lambda>es. take (unat l) (rev es)"]) (use h SCollectionScanForward keeps_scans(2) in auto)
next
  case (SCollectionScanBackward i l)
  show ?thesis unfolding SCollectionScanBackward
    by (rule reading_serves [where a = "\<lambda>es. take (unat l) es"]) (use h SCollectionScanBackward keeps_scans(1) in auto)
next
  case (SCollectionSample i k)
  with sample_serves [of N cs M n i k] h show ?thesis by simp
next
  case (SCollectionRankOfKey i k)
  with rank_serves [of N cs M n i k] h show ?thesis by simp
next
  case (SCollectionScanFromRank i r l)
  show ?thesis unfolding SCollectionScanFromRank
    by (rule reading_serves [where a = "\<lambda>es. take (unat l) (drop (unat r) es)"]) (use h SCollectionScanFromRank keeps_scans(3) in auto)
next
  case (SCollectionCount i)
  show ?thesis unfolding SCollectionCount
    by (rule reading_serves [where a = "\<lambda>es. word_of_nat (length es)"]) (use h SCollectionCount keeps_total in auto)
qed (use assms(2) in simp_all)

lemma file_restart: "file_holds N cs n i x \<Longrightarrow> file_holds N (cs\<lparr>open_trees := Map.empty, lock_lost := False\<rparr>) n i x"
  by (auto simp: file_holds_def split: option.splits)

lemma restart_holds: "colls_hold N cs M n \<Longrightarrow> colls_hold N (cs\<lparr>open_trees := Map.empty, lock_lost := False\<rparr>) M n"
  unfolding colls_hold_def using file_restart by auto

section \<open>Runs\<close>

text \<open>A storage node that serves collection requests and is restarted in between.\<close>

datatype coll_event = Request store_request | Restart

fun coll_run :: "collections \<Rightarrow> coll_event list \<Rightarrow> store_response option list" where
  "coll_run cs [] = []"
| "coll_run cs (Request req # es) = (case serve_collection cs req of (r, cs') \<Rightarrow> r # coll_run cs' es)"
| "coll_run cs (Restart # es) = coll_run (cs\<lparr>open_trees := Map.empty, lock_lost := False\<rparr>) es"

fun spec_run :: "coll_map \<Rightarrow> coll_event list \<Rightarrow> store_response option list" where
  "spec_run M [] = []"
| "spec_run M (Request req # es) = (case spec_serve M req of (r, M') \<Rightarrow> r # spec_run M' es)"
| "spec_run M (Restart # es) = spec_run M es"

fun requests :: "coll_event list \<Rightarrow> store_request list" where
  "requests [] = []"
| "requests (Request req # es) = req # requests es"
| "requests (Restart # es) = requests es"

lemma coll_run_meets:
  assumes "colls_hold N cs M (sum_list (map insertions (requests es)))" "\<forall>req\<in>set (requests es). coll_request req"
  shows "list_all2 meets (spec_run M es) (coll_run cs es)"
  using assms
proof (induction es arbitrary: cs M)
  case (Cons e es)
  show ?case
  proof (cases e)
    case (Request req)
    obtain r cs' where "serve_collection cs req = (r, cs')" "meets (fst (spec_serve M req)) r"
        "colls_hold N cs' (snd (spec_serve M req)) (sum_list (map insertions (requests es)))"
      using coll_serves [of N cs M req "sum_list (map insertions (requests es))"] Cons.prems Request by auto
    with Cons.IH [of cs' "snd (spec_serve M req)"] Cons.prems Request show ?thesis by (simp add: case_prod_unfold)
  next
    case Restart
    with Cons.IH [OF restart_holds] Cons.prems show ?thesis by simp
  qed
qed simp

section \<open>Properties\<close>

text \<open>
  C10: A storage node's collections are sorted maps and survive restarts. Whatever collection requests
  a node that starts with no files is sent, with creations of sizes that fit a page and fewer than
  \<open>2\<^sup>32 - 1\<close> insertions, and however often it is restarted in between, every reply is the one of the
  map from collection ids to sorted entries; an error is answered exactly for a collection that
  does not exist and for a key or value of the wrong size, and creating a collection again keeps
  its entries.
\<close>

theorem collections_answer_from_sorted_maps:
  assumes "\<forall>req\<in>set (requests es). coll_request req" and "sum_list (map insertions (requests es)) + 1 < 2 ^ 32"
  shows "list_all2 meets (spec_run Map.empty es) (coll_run (no_collections dir) es)"
proof -
  have "colls_hold (2 ^ 32) (no_collections dir) Map.empty (sum_list (map insertions (requests es)))"
    using assms(2) by (simp add: colls_hold_def no_collections_def file_holds_def)
  from coll_run_meets [OF this assms(1)] show ?thesis .
qed

theorem collections_answer_from_sorted_maps_witness:
  "\<exists>msg. coll_run (no_collections [47])
     [Request (SCollectionCreate (DatumId 7) 1 1), Request (SCollectionInsert (DatumId 7) [5] [1]),
      Request (SCollectionInsert (DatumId 7) [9] [2]), Restart, Request (SCollectionScanForward (DatumId 7) 2),
      Request (SCollectionGet (DatumId 7) [5]), Request (SCollectionCount (DatumId 8))] =
     [Some SAck, Some SAck, Some SAck, Some (SCollectionEntries [([9], [2]), ([5], [1])]),
      Some (SCollectionEntry (Some [1])), Some (SError msg)]"
proof -
  let ?es = "[Request (SCollectionCreate (DatumId 7) 1 1), Request (SCollectionInsert (DatumId 7) [5] [1]),
      Request (SCollectionInsert (DatumId 7) [9] [2]), Restart, Request (SCollectionScanForward (DatumId 7) 2),
      Request (SCollectionGet (DatumId 7) [5]), Request (SCollectionCount (DatumId 8))]"
  have "sizes_fit 1 1 COLLECTION_PAGE_SIZE"
    by (simp add: COLLECTION_PAGE_SIZE_def sizes_fit_def validate_page_size_def is_power_of_two_def upt_rec)
  then have "\<forall>req\<in>set (requests ?es). coll_request req" "sum_list (map insertions (requests ?es)) + 1 < 2 ^ 32" by simp_all
  from collections_answer_from_sorted_maps [OF this, of "[47]"]
  have "list_all2 meets (spec_run Map.empty ?es) (coll_run (no_collections [47]) ?es)" .
  moreover have "spec_run Map.empty ?es = [Some SAck, Some SAck, Some SAck, Some (SCollectionEntries [([9], [2]), ([5], [1])]),
      Some (SCollectionEntry (Some [1])), None]"
    by (simp add: upsert_def spec_read_def)
  ultimately show ?thesis
    by (simp add: list_all2_Cons1 meets_def del: coll_run.simps) fastforce
qed

text \<open>
  An empty record size takes the collections down. A \<open>CollectionCreate\<close> for a new collection with
  key size and value size 0 divides by zero while the map of open trees is locked: the request is
  not answered, and from then on no collection request of this node is, until it is restarted.
\<close>

theorem empty_records_poison_the_collections:
  assumes "open_trees cs i = None" and "coll_files cs (collection_file_name i) = None" and "\<not> lock_lost cs"
  shows "\<exists>cs'. serve_collection cs (SCollectionCreate i 0 0) = (None, cs') \<and>
    (\<forall>req. serve_collection cs' req = (None, cs'))"
proof -
  have "btree_create 0 0 COLLECTION_PAGE_SIZE = Inl (Panic ''attempt to divide by zero'' [])"
    by (simp add: btree_create_def COLLECTION_PAGE_SIZE_def validate_page_size_def is_power_of_two_def upt_rec
        max_leaf_entries_def capacity_def)
  then have "serve_collection cs (SCollectionCreate i 0 0) = (None, cs\<lparr>lock_lost := True\<rparr>)"
    using assms by (simp add: answer_def with_collection_def open_collection_def Let_def)
  moreover have "serve_collection (cs\<lparr>lock_lost := True\<rparr>) req = (None, cs\<lparr>lock_lost := True\<rparr>)" for req
    by (cases req) (simp_all add: answer_def with_collection_def)
  ultimately show ?thesis by blast
qed

theorem empty_records_poison_the_collections_witness:
  "\<exists>cs'. serve_collection (no_collections []) (SCollectionCreate (DatumId 1) 0 0) = (None, cs') \<and>
    serve_collection cs' (SCollectionCreate (DatumId 2) 8 8) = (None, cs')"
  using empty_records_poison_the_collections [of "no_collections []" "DatumId 1"] unfolding no_collections_def by (auto simp del: serve_collection.simps)
end
