(* ===== verification/Collection_Store.thy ===== *)
theory Collection_Store
  imports Storage_Net Collection_Node
begin

text \<open>
  The replicated collections of a compute node, \<open>seisin-node/src/collection_store.rs\<close>: a change goes as a
  request to every serving replica, which performs it itself; a read goes to the first replica
  that answers at all. Its \<open>try_call\<close> is the one of the replicated store, word for word. A panic is
  \<open>Inl\<close> with its message, the reply it shows left out.
\<close>

fun coll_write_loop :: "'w attempt \<Rightarrow> store_request \<Rightarrow> node_id list \<Rightarrow> nat \<times> cluster_state \<times> 'w \<Rightarrow> nat \<times> cluster_state \<times> 'w" where
  "coll_write_loop attempt req [] y = y"
| "coll_write_loop attempt req (node # targets) (acked, c, w) =
     (case try_call attempt c node req w of
        (Inr SAck, w') \<Rightarrow> coll_write_loop attempt req targets (acked + 1, c, w')
      | (_, w') \<Rightarrow> coll_write_loop attempt req targets (acked, mark_stale c node, w'))"

definition coll_write_all ::
    "'w attempt \<Rightarrow> cluster_state \<Rightarrow> datum_id \<Rightarrow> u16 \<Rightarrow> store_request \<Rightarrow> 'w \<Rightarrow> (unit stored \<times> 'w) option" where
  "coll_write_all attempt c i n req w =
     (case serving_replicas c i n of
        None \<Rightarrow> None
      | Some targets \<Rightarrow>
          if targets = [] then Some (panicked c i, w)
          else
            let (acked, c', w') = coll_write_loop attempt req targets (0, c, w)
            in if acked = 0 then Some (panicked c' i, w') else Some ((Inr (), c'), w'))"

fun read_loop :: "'w attempt \<Rightarrow> datum_id \<Rightarrow> store_request \<Rightarrow> node_id list \<Rightarrow> cluster_state \<Rightarrow> 'w \<Rightarrow> store_response stored \<times> 'w" where
  "read_loop attempt i req [] c w = (panicked c i, w)"
| "read_loop attempt i req (node # targets) c w =
     (case try_call attempt c node req w of
        (Inr resp, w') \<Rightarrow> ((Inr resp, c), w')
      | (Inl _, w') \<Rightarrow> read_loop attempt i req targets (mark_stale c node) w')"

definition read_one ::
    "'w attempt \<Rightarrow> cluster_state \<Rightarrow> datum_id \<Rightarrow> u16 \<Rightarrow> store_request \<Rightarrow> 'w \<Rightarrow> (store_response stored \<times> 'w) option" where
  "read_one attempt c i n req w =
     (case serving_replicas c i n of
        None \<Rightarrow> None
      | Some targets \<Rightarrow> if targets = [] then Some (panicked c i, w) else Some (read_loop attempt i req targets c w))"

definition coll_create where
  "coll_create attempt c i key_size value_size n w = coll_write_all attempt c i n (SCollectionCreate i key_size value_size) w"

definition coll_insert where
  "coll_insert attempt c i key v n w = coll_write_all attempt c i n (SCollectionInsert i key v) w"

definition coll_remove where
  "coll_remove attempt c i key n w = coll_write_all attempt c i n (SCollectionRemove i key) w"

text \<open>The reads pick the payload of the reply they expect and panic on any other.\<close>

definition expecting ::
    "(store_response \<Rightarrow> 'a option) \<Rightarrow> string \<Rightarrow> (store_response stored \<times> 'w) option \<Rightarrow> ('a stored \<times> 'w) option" where
  "expecting payload name =
     map_option (\<lambda>((r, c), w).
       (case r of
          Inl m \<Rightarrow> (Inl m, c)
        | Inr resp \<Rightarrow> (case payload resp of Some x \<Rightarrow> (Inr x, c) | None \<Rightarrow> (Inl (lit (''unexpected reply to '' @ name)), c)), w))"

fun pick_entry :: "store_response \<Rightarrow> bytes option option" where
  "pick_entry (SCollectionEntry v) = Some v" | "pick_entry _ = None"

fun pick_entries :: "store_response \<Rightarrow> entries option" where
  "pick_entries (SCollectionEntries es) = Some es" | "pick_entries _ = None"

fun pick_rank :: "store_response \<Rightarrow> u64 option option" where
  "pick_rank (SCollectionRank r) = Some r" | "pick_rank _ = None"

fun pick_total :: "store_response \<Rightarrow> u64 option" where
  "pick_total (SCollectionTotal t) = Some t" | "pick_total _ = None"

definition coll_get where
  "coll_get attempt c i key n w = expecting pick_entry ''CollectionGet'' (read_one attempt c i n (SCollectionGet i key) w)"

definition coll_scan_forward where
  "coll_scan_forward attempt c i limit n w =
     expecting pick_entries ''CollectionScanForward'' (read_one attempt c i n (SCollectionScanForward i limit) w)"

definition coll_scan_backward where
  "coll_scan_backward attempt c i limit n w =
     expecting pick_entries ''CollectionScanBackward'' (read_one attempt c i n (SCollectionScanBackward i limit) w)"

definition coll_sample where
  "coll_sample attempt c i k n w = expecting pick_entries ''CollectionSample'' (read_one attempt c i n (SCollectionSample i k) w)"

definition coll_rank_of_key where
  "coll_rank_of_key attempt c i key n w =
     expecting pick_rank ''CollectionRankOfKey'' (read_one attempt c i n (SCollectionRankOfKey i key) w)"

definition coll_scan_from_rank where
  "coll_scan_from_rank attempt c i rk limit n w =
     expecting pick_entries ''CollectionScanFromRank'' (read_one attempt c i n (SCollectionScanFromRank i rk limit) w)"

definition coll_count where
  "coll_count attempt c i n w = expecting pick_total ''CollectionCount'' (read_one attempt c i n (SCollectionCount i) w)"

section \<open>One collection on its replicas\<close>

fun request_id :: "store_request \<Rightarrow> datum_id option" where
  "request_id (SCollectionCreate i ks vs) = Some i"
| "request_id (SCollectionInsert i k v) = Some i"
| "request_id (SCollectionRemove i k) = Some i"
| "request_id (SCollectionGet i k) = Some i"
| "request_id (SCollectionScanForward i l) = Some i"
| "request_id (SCollectionScanBackward i l) = Some i"
| "request_id (SCollectionSample i k) = Some i"
| "request_id (SCollectionRankOfKey i k) = Some i"
| "request_id (SCollectionScanFromRank i r l) = Some i"
| "request_id (SCollectionCount i) = Some i"
| "request_id req = None"

type_synonym coll = "(u32 \<times> u32 \<times> entries) option"

definition one_serve :: "datum_id \<Rightarrow> coll \<Rightarrow> store_request \<Rightarrow> store_response option \<times> coll" where
  "one_serve i x req = (case spec_serve (\<lambda>_. x) req of (r, M) \<Rightarrow> (r, M i))"

lemma one_serve_local:
  assumes "request_id req = Some i"
  shows "fst (spec_serve M req) = fst (one_serve i (M i) req)" "snd (spec_serve M req) i = snd (one_serve i (M i) req)"
  using assms by (cases req; force simp: one_serve_def spec_read_def split: option.splits prod.splits)+

definition coll_view :: "nat \<Rightarrow> datum_id \<Rightarrow> (coll \<times> nat) view" where
  "coll_view N i node = (\<lambda>(x, n). \<exists>M. colls_hold N (sn_collections node) M n \<and> M i = x)"

lemma coll_view_weaken: "coll_view N i node (x, n) \<Longrightarrow> m \<le> n \<Longrightarrow> coll_view N i node (x, m)"
  unfolding coll_view_def using colls_hold_weaken by fastforce

lemma coll_view_ascending: "coll_view N i node (Some (ks, vs, es), n) \<Longrightarrow> ascending es"
  unfolding coll_view_def by (auto elim!: colls_hold_open dest: keeps_ascending)

text \<open>Replies fit the wire: keys, values and lists of entries are shorter than \<open>2\<^sup>32\<close>.\<close>

lemma keeps_entry_sizes:
  assumes "keeps N b es n" "(k, v) \<in> set es"
  shows "length k = unat (bt_key_size b)" "length v = unat (bt_value_size b)"
proof -
  obtain t where t: "holds_tree b t" "entries_of t = es" using assms(1) by (rule keepsE)
  have sz: "tree_sized b t" using t(1) by (simp add: holds_tree_def)
  have "(k, v) \<in> set (concat (map snd (leaves t)))" using assms(2) t(2) by (simp add: leaves_entries)
  then obtain q l where l: "(q, l) \<in> set (leaves t)" "(k, v) \<in> set l" by auto
  then have "tree_sized b (Lf q l)" using sized_leaves [OF sz] by blast
  with l(2) show "length k = unat (bt_key_size b)" "length v = unat (bt_value_size b)" by auto
qed

lemma u32_short: "unat (w :: u32) < 2 ^ 32"
  using unsigned_less [of w, where ?'a = nat] by simp

lemma coll_view_short:
  assumes "coll_view N i node (Some (ks, vs, es), n)" "(k, v) \<in> set es"
  shows "short k" "short v"
proof -
  obtain M where "colls_hold N (sn_collections node) M n" "M i = Some (ks, vs, es)" using assms(1) by (auto simp: coll_view_def)
  then obtain b where "keeps N b es n" using colls_hold_open by metis
  from keeps_entry_sizes [OF this assms(2)] show "short k" "short v"
    using u32_short [of "bt_key_size b"] u32_short [of "bt_value_size b"] by (simp_all add: short_def)
qed

lemma entries_short:
  assumes "coll_view N i node (Some (ks, vs, es), n)" "set l \<subseteq> set es" "length l \<le> unat (w :: u32)"
  shows "wf_store_response (SCollectionEntries l)"
  using coll_view_short [OF assms(1)] assms(2,3) u32_short [of w] by (auto simp: list_all_iff short_def)

lemma one_serve_wf:
  assumes "coll_view N i node (x, n)" "fst (one_serve i x req) = Some resp"
  shows "wf_store_response resp"
proof (cases x)
  case None
  then show ?thesis using assms(2) by (cases req) (auto simp: one_serve_def spec_read_def)
next
  case (Some y)
  obtain ks vs es where x: "x = Some (ks, vs, es)" using Some by (cases y) auto
  note v = assms(1) [unfolded x]
  show ?thesis
  proof (cases req)
    case (SCollectionGet j k)
    have "short v" if "map_of es k = Some v" for v using coll_view_short(2) [OF v map_of_SomeD [OF that]] .
    then show ?thesis using assms(2) by (auto simp: SCollectionGet x one_serve_def spec_read_def pred_option_def)
  next
    case (SCollectionScanForward j l)
    have "set (take (unat l) (rev es)) \<subseteq> set es" by (metis set_rev set_take_subset)
    from entries_short [OF v this, of l] show ?thesis using assms(2) by (auto simp: SCollectionScanForward x one_serve_def spec_read_def)
  next
    case (SCollectionScanBackward j l)
    from entries_short [OF v set_take_subset, of "unat l" l] show ?thesis
      using assms(2) by (auto simp: SCollectionScanBackward x one_serve_def spec_read_def)
  next
    case (SCollectionSample j k)
    let ?l = "if es = [] then [] else map (\<lambda>j. es ! (j * length es div unat k)) [0..<unat k]"
    have "j * length es div unat k < length es" if "es \<noteq> []" "j < unat k" for j
      using that by (simp add: less_mult_imp_div_less mult.commute)
    then have "set ?l \<subseteq> set es" by auto
    from entries_short [OF v this, of k] show ?thesis using assms(2) by (auto simp: SCollectionSample x one_serve_def spec_read_def)
  next
    case (SCollectionScanFromRank j r l)
    have "set (take (unat l) (drop (unat r) es)) \<subseteq> set es" by (meson set_drop_subset set_take_subset subset_trans)
    from entries_short [OF v this, of l] show ?thesis using assms(2) by (auto simp: SCollectionScanFromRank x one_serve_def spec_read_def)
  qed (use assms(2) in \<open>auto simp: x one_serve_def spec_read_def split: if_splits\<close>)
qed

text \<open>A request that arrives again finds its effect done.\<close>

lemma upsert_present:
  assumes "ascending es" "map_of es k = Some v"
  shows "upsert k v es = es"
  using split_at_key [OF assms(1), of k]
proof cases
  case (1 A C)
  then show ?thesis using assms(2) by (metis map_of_eq_None_iff option.distinct(1))
next
  case (2 A x C)
  then have "map_of es k = Some x" by (auto simp: map_of_append map_add_def split: option.splits dest: map_of_SomeD)
  then show ?thesis using 2(1-3) assms(2) upsert_old by force
qed

lemma map_of_upsert_same: "map_of (upsert k v es) k = Some v"
  by (auto simp: upsert_def map_add_def split: option.splits dest!: map_of_SomeD set_takeWhileD)

lemma one_serve_again:
  assumes "coll_view N i node (snd (one_serve i x req), n)" "request_id req = Some i"
  shows "one_serve i (snd (one_serve i x req)) req = one_serve i x req"
proof (cases req)
  case (SCollectionInsert j k v)
  show ?thesis
  proof (cases "\<exists>ks vs es. x = Some (ks, vs, es) \<and> length k = unat ks \<and> length v = unat vs")
    case True
    then obtain ks vs es where x: "x = Some (ks, vs, es)" "length k = unat ks" "length v = unat vs" by blast
    have "ascending (upsert k v es)" using assms x by (auto simp: SCollectionInsert one_serve_def dest: coll_view_ascending)
    from upsert_present [OF this map_of_upsert_same] show ?thesis using x assms(2) by (simp add: SCollectionInsert one_serve_def)
  qed (auto simp: SCollectionInsert one_serve_def split: option.splits if_splits)
next
  case (SCollectionRemove j k)
  then show ?thesis using assms(2)
    by (auto simp: one_serve_def without_def split: option.splits if_splits)
qed (use assms(2) in \<open>auto simp: one_serve_def spec_read_def split: option.splits\<close>)

lemma serve_coll:
  "request_id req = Some i \<Longrightarrow> serve call node req w =
     (case serve_collection (sn_collections node) req of (r, cs) \<Rightarrow> (r, node\<lparr>sn_collections := cs\<rparr>, w))"
  by (cases req) (simp_all add: case_prod_unfold Let_def)

text \<open>What a replica does with one delivery of a request.\<close>

lemma obeys_coll:
  assumes "coll_request req" "request_id req = Some i" "one_serve i x req = (r, x')"
  shows "obeys (coll_view N i) now req {(x, insertions req + n)} {(x, insertions req + n), (x', n)}
    (\<lambda>resp y. r = Some resp \<and> fst y = x')"
proof (rule obeysI)
  fix node y assume v: "coll_view N i node y" and "y \<in> {(x, insertions req + n)}"
  then have y: "y = (x, insertions req + n)" by simp
  obtain M where M: "colls_hold N (sn_collections node) M (insertions req + n)" "M i = x" using v by (auto simp: y coll_view_def)
  obtain q cs' where q: "serve_collection (sn_collections node) req = (q, cs')" "meets (fst (spec_serve M req)) q"
      "colls_hold N cs' (snd (spec_serve M req)) n"
    using coll_serves [OF M(1) assms(1)] by blast
  have loc: "fst (spec_serve M req) = r" "snd (spec_serve M req) i = x'"
    using one_serve_local [OF assms(2), of M] M(2) assms(3) by simp_all
  let ?node = "node\<lparr>sn_collections := cs'\<rparr>"
  have "coll_view N i ?node (x', n)" using q(3) loc(2) by (auto simp: coll_view_def)
  moreover have "serve (\<lambda>_ _ u. (Inl (Bail ''unreachable'' []), u)) node req () = (q, ?node, ())"
    using q(1) by (simp add: serve_coll [OF assms(2)])
  moreover have "\<exists>resp. q = Some resp \<and> ((\<exists>msg. resp = SError msg) \<or> wf_store_response resp \<and> r = Some resp)"
    using q(2) one_serve_wf [OF v [unfolded y], of req] loc assms(3) by (cases r) (auto simp: meets_def)
  ultimately show "\<exists>resp node' y'. serve (\<lambda>_ _ u. (Inl (Bail ''unreachable'' []), u)) node req () = (Some resp, node', ()) \<and>
      coll_view N i node' y' \<and> y' \<in> {(x, insertions req + n), (x', n)} \<and>
      ((\<exists>msg. resp = SError msg) \<or> wf_store_response resp \<and> r = Some resp \<and> fst y' = x')"
    by (intro exI [of _ "the q"] exI [of _ ?node] exI [of _ "(x', n)"]) auto
qed simp

section \<open>Changes\<close>

definition coll_write_one :: "'w attempt \<Rightarrow> store_request \<Rightarrow> cluster_state \<Rightarrow> node_id \<Rightarrow> 'w \<Rightarrow> unit result \<times> 'w" where
  "coll_write_one attempt req c node w =
     (case try_call attempt c node req w of
        (Inr SAck, w') \<Rightarrow> (Inr (), w')
      | (_, w') \<Rightarrow> (Inl (Bail ''not acknowledged'' []), w'))"

lemma coll_write_loop_replicas: "coll_write_loop attempt req ts (acked, c, w) = replica_loop (coll_write_one attempt req) ts (acked, c, w)"
proof (induction ts arbitrary: acked c w)
  case (Cons node ts)
  obtain res w' where r: "try_call attempt c node req w = (res, w')" by fastforce
  show ?case using Cons r by (cases res; cases "projr res") (auto simp: coll_write_one_def)
qed simp

text \<open>A change that is acknowledged is done at the replica, once or twice.\<close>

lemma coll_change:
  assumes req: "coll_request req" "request_id req = Some i" "wf_store_request req" and x': "x' = snd (one_serve i x req)"
    and a: "store_addresses c node = Some addr" "coll_write_one (faulty now) req c node w = (res, w')"
      "view_at (coll_view N i) w addr (x, 2 * insertions req + n)"
  shows "(res = Inr () \<longrightarrow> view_at (coll_view N i) w' addr (x', n) \<and> fst (one_serve i x req) = Some SAck) \<and>
    (\<forall>a. a \<noteq> addr \<longrightarrow> net_nodes w' a = net_nodes w a)"
proof -
  let ?k = "insertions req" and ?r = "fst (one_serve i x req)"
  let ?P = "{(x, ?k + (?k + n))}" let ?Q = "?P \<union> {(x', ?k + n)}" let ?Q' = "?Q \<union> {(x', n)}"
  let ?R = "\<lambda>resp y. ?r = Some resp \<and> fst y = x'"
  have one: "one_serve i x req = (?r, x')" by (simp add: x')
  have first: "obeys (coll_view N i) now req ?P ?Q ?R" using obeys_coll [OF req(1,2) one, of N now "?k + n"] by (simp add: insert_commute)
  obtain r w1 where r: "try_call (faulty now) c node req w = (r, w1)" by fastforce
  have second: "obeys (coll_view N i) now req {(x', ?k + n)} {(x', ?k + n), (x', n)} ?R"
    unfolding obeys_def
  proof (intro allI impI)
    fix nd y assume v: "coll_view N i nd y" "y \<in> {(x', ?k + n)}"
    then have "one_serve i x' req = (?r, x')" using one_serve_again [OF _ req(2), of N nd x "?k + n"] by (simp add: x')
    from obeys_coll [OF req(1,2) this, of N now n] v
    show "\<exists>r nd' y'. handle_request (\<lambda>_ _ u. (Inl (Bail ''unreachable'' []), u)) now nd req () = (r, nd', ()) \<and>
        coll_view N i nd' y' \<and> y' \<in> {(x', ?k + n), (x', n)} \<and>
        (\<forall>resp. r = Some resp \<longrightarrow> (\<exists>msg. resp = SError msg) \<or> wf_store_response resp \<and> ?R resp y')"
      unfolding obeys_def by blast
  qed
  have "obeys (coll_view N i) now req ?Q (?Q \<union> {(x', ?k + n), (x', n)}) ?R" by (rule obeys_Un [OF first second])
  moreover have "?Q \<union> {(x', ?k + n), (x', n)} = ?Q'" by auto
  ultimately have both: "obeys (coll_view N i) now req ?Q ?Q' ?R" by simp
  have "(x, 2 * ?k + n) \<in> ?P" by simp
  from try_call_obeys [OF first Un_upper1 both Un_upper1 req(3) a(1,3) this r] obtain y where
    y: "y \<in> ?Q'" "view_at (coll_view N i) w1 addr y" "\<And>resp. r = Inr resp \<Longrightarrow> (\<exists>msg. resp = SError msg) \<or> ?R resp y"
    and far: "\<forall>a. a \<noteq> addr \<longrightarrow> net_nodes w1 a = net_nodes w a" by blast
  have w1: "w' = w1" "res = Inr () \<Longrightarrow> r = Inr SAck"
    using a(2) r by (auto simp: coll_write_one_def split: sum.splits store_response.splits)
  have "view_at (coll_view N i) w1 addr (x', n) \<and> ?r = Some SAck" if "res = Inr ()"
  proof -
    have y': "fst y = x'" "n \<le> snd y" "?r = Some SAck" using y(1) y(3) [OF w1(2) [OF that]] by (cases y, auto)+
    then show ?thesis using y(2) coll_view_weaken [of N i _ x' "snd y" n] by (cases y) (auto simp: view_at_def)
  qed
  with far w1(1) show ?thesis by simp
qed

lemma coll_writes:
  assumes "coll_request req" "request_id req = Some i" "wf_store_request req" and "x' = snd (one_serve i x req)"
  shows "writes (coll_view N i) (coll_write_one (faulty now) req) (x, 2 * insertions req + n) (x', n)"
proof (rule writesI)
  fix c node w res w' addr
  assume "store_addresses c node = Some addr" "coll_write_one (faulty now) req c node w = (res, w')"
    "view_at (coll_view N i) w addr (x, 2 * insertions req + n)"
  from coll_change [OF assms this]
  show "(res = Inr () \<longrightarrow> view_at (coll_view N i) w' addr (x', n)) \<and> (\<forall>a. a \<noteq> addr \<longrightarrow> net_nodes w' a = net_nodes w a)" by blast
qed (auto simp: coll_write_one_def try_call_def)

text \<open>A change that is an error for the map is acknowledged by no replica: all are marked stale.\<close>

lemma coll_write_all_refused:
  assumes ag: "agree (coll_view N i) c w i n (x, 2 * insertions req + m)" and req: "coll_request req" "request_id req = Some i" "wf_store_request req"
    and ts: "serving_replicas c i n = Some ts" and r: "fst (one_serve i x req) \<noteq> Some SAck"
  shows "\<exists>w'. coll_write_all (faulty now) c i n req w =
    Some (panicked (c\<lparr>storage_stale := storage_stale c \<union> set ts\<rparr>) i, w')"
proof -
  have da: "distinct_addresses c ts" "all_at (coll_view N i) c w (set ts) (x, 2 * insertions req + m)"
    using ag ts by (auto simp: agree_def)
  obtain w' where "replica_loop (coll_write_one (faulty now) req) ts (0 :: nat, c, w) = (0, c\<lparr>storage_stale := storage_stale c \<union> set ts\<rparr>, w')"
    using replica_loop_refused [OF coll_writes [OF req refl] _ da, of now 0] coll_change [OF req refl] r by blast
  then show ?thesis using ts by (auto simp: coll_write_all_def coll_write_loop_replicas)
qed

lemma coll_write_all_agree:
  assumes "agree (coll_view N i) c w i n (x, 2 * insertions req + m)" "coll_request req" "request_id req = Some i" "wf_store_request req"
    and "coll_write_all (faulty now) c i n req w = Some ((Inr (), c'), w')"
  shows "agree (coll_view N i) c' w' i n (snd (one_serve i x req), m)"
proof -
  obtain ts where ts: "serving_replicas c i n = Some ts" using assms(1) by (auto simp: agree_def)
  obtain acked c1 w1 where l: "coll_write_loop (faulty now) req ts (0, c, w) = (acked, c1, w1)" by (metis prod_cases3)
  have "c' = c1" "w' = w1"
    using assms(5) ts l by (auto simp: coll_write_all_def panicked_def halt_total_loss_def Let_def split: if_splits)
  with agree_after_loop [OF coll_writes [OF assms(2-4) refl] assms(1) ts] l show ?thesis
    by (simp add: coll_write_loop_replicas)
qed

section \<open>Reads\<close>

lemma read_loop_agree:
  assumes obey: "obeys V now req {x} {x} R" "wf_store_request req"
  shows "all_at V c w ns x \<Longrightarrow> set ts \<subseteq> ns \<Longrightarrow> read_loop (faulty now) i req ts c w = ((Inr resp, c'), w') \<Longrightarrow>
    (\<exists>F. c' = c\<lparr>storage_stale := storage_stale c \<union> F\<rparr>) \<and> all_at V c w' ns x \<and> ((\<exists>msg. resp = SError msg) \<or> R resp x)"
proof (induction ts arbitrary: c w)
  case Nil
  then show ?case by (simp add: panicked_def halt_total_loss_def Let_def)
next
  case (Cons node ts)
  obtain res w1 where r: "try_call (faulty now) c node req w = (res, w1)" by fastforce
  have node: "node \<in> ns" using Cons.prems(2) by simp
  note keep = read_call_keeps [OF obey Cons.prems(1) node r]
  show ?case
  proof (cases res)
    case (Inr q)
    then have "q = resp" "c' = c" "w' = w1" using Cons.prems(3) r by simp_all
    with keep Inr show ?thesis by (auto intro!: exI [of _ "{}"])
  next
    case (Inl e)
    then have "read_loop (faulty now) i req ts (mark_stale c node) w1 = ((Inr resp, c'), w')" using Cons.prems(3) r by simp
    from Cons.IH [OF _ _ this] keep(1) Cons.prems(2) obtain F where
      F: "c' = (mark_stale c node)\<lparr>storage_stale := storage_stale (mark_stale c node) \<union> F\<rparr>"
      "all_at V c w' ns x" "(\<exists>msg. resp = SError msg) \<or> R resp x" by auto
    moreover from F(1) have "c' = c\<lparr>storage_stale := storage_stale c \<union> insert node F\<rparr>" by (simp add: mark_stale_def)
    ultimately show ?thesis by blast
  qed
qed

lemma read_one_agree:
  assumes "agree V c w i n x" "obeys V now req {x} {x} R" "wf_store_request req"
    and "read_one (faulty now) c i n req w = Some ((Inr resp, c'), w')"
  shows "agree V c' w' i n x" "(\<exists>msg. resp = SError msg) \<or> R resp x"
proof -
  obtain ts where ts: "serving_replicas c i n = Some ts" "distinct_addresses c ts" "all_at V c w (set ts) x"
    using assms(1) by (auto simp: agree_def)
  have g: "read_loop (faulty now) i req ts c w = ((Inr resp, c'), w')"
    using assms(4) ts(1) by (auto simp: read_one_def panicked_def halt_total_loss_def Let_def split: if_splits)
  from read_loop_agree [OF assms(2,3) ts(3) subset_refl g] obtain F where F: "c' = c\<lparr>storage_stale := storage_stale c \<union> F\<rparr>"
    "all_at V c w' (set ts) x" and R: "(\<exists>msg. resp = SError msg) \<or> R resp x" by blast
  show "agree V c' w' i n x" by (rule agree_marked [OF ts(1,2) F(2,1)])
  show "(\<exists>msg. resp = SError msg) \<or> R resp x" by (rule R)
qed

section \<open>Runs of one collection's operations\<close>

datatype coll_op =
    CCreate u32 u32 | CInsert bytes bytes | CRemove bytes | CGet bytes | CScanForward u32 | CScanBackward u32
  | CSample u32 | CRankOfKey bytes | CScanFromRank u64 u32 | CCount

fun op_request :: "datum_id \<Rightarrow> coll_op \<Rightarrow> store_request" where
  "op_request i (CCreate ks vs) = SCollectionCreate i ks vs"
| "op_request i (CInsert k v) = SCollectionInsert i k v"
| "op_request i (CRemove k) = SCollectionRemove i k"
| "op_request i (CGet k) = SCollectionGet i k"
| "op_request i (CScanForward l) = SCollectionScanForward i l"
| "op_request i (CScanBackward l) = SCollectionScanBackward i l"
| "op_request i (CSample k) = SCollectionSample i k"
| "op_request i (CRankOfKey k) = SCollectionRankOfKey i k"
| "op_request i (CScanFromRank r l) = SCollectionScanFromRank i r l"
| "op_request i CCount = SCollectionCount i"

text \<open>An operation with its result written as the reply that carries it.\<close>

definition returning :: "('a \<Rightarrow> store_response) \<Rightarrow> ('a stored \<times> 'w) option \<Rightarrow> (store_response stored \<times> 'w) option" where
  "returning f = map_option (\<lambda>((r, c), w). ((case r of Inl m \<Rightarrow> Inl m | Inr x \<Rightarrow> Inr (f x), c), w))"

fun run_op :: "'w attempt \<Rightarrow> cluster_state \<Rightarrow> datum_id \<Rightarrow> u16 \<Rightarrow> coll_op \<Rightarrow> 'w \<Rightarrow> (store_response stored \<times> 'w) option" where
  "run_op attempt c i n (CCreate ks vs) w = returning (\<lambda>_. SAck) (coll_create attempt c i ks vs n w)"
| "run_op attempt c i n (CInsert k v) w = returning (\<lambda>_. SAck) (coll_insert attempt c i k v n w)"
| "run_op attempt c i n (CRemove k) w = returning (\<lambda>_. SAck) (coll_remove attempt c i k n w)"
| "run_op attempt c i n (CGet k) w = returning SCollectionEntry (coll_get attempt c i k n w)"
| "run_op attempt c i n (CScanForward l) w = returning SCollectionEntries (coll_scan_forward attempt c i l n w)"
| "run_op attempt c i n (CScanBackward l) w = returning SCollectionEntries (coll_scan_backward attempt c i l n w)"
| "run_op attempt c i n (CSample k) w = returning SCollectionEntries (coll_sample attempt c i k n w)"
| "run_op attempt c i n (CRankOfKey k) w = returning SCollectionRank (coll_rank_of_key attempt c i k n w)"
| "run_op attempt c i n (CScanFromRank r l) w = returning SCollectionEntries (coll_scan_from_rank attempt c i r l n w)"
| "run_op attempt c i n CCount w = returning SCollectionTotal (coll_count attempt c i n w)"

text \<open>A run stops at a panic; it returns the results so far and whether it panicked.\<close>

fun store_run :: "'w attempt \<Rightarrow> datum_id \<Rightarrow> u16 \<Rightarrow> coll_op list \<Rightarrow> cluster_state \<Rightarrow> 'w \<Rightarrow> store_response list \<times> bool" where
  "store_run attempt i n [] c w = ([], False)"
| "store_run attempt i n (op # ops) c w =
     (case run_op attempt c i n op w of
        Some ((Inr resp, c'), w') \<Rightarrow> (case store_run attempt i n ops c' w' of (rs, panic) \<Rightarrow> (resp # rs, panic))
      | _ \<Rightarrow> ([], True))"

text \<open>The same operations on the sorted map; a run ends at the first operation that is an error.\<close>

fun map_run :: "datum_id \<Rightarrow> coll_op list \<Rightarrow> coll \<Rightarrow> store_response list" where
  "map_run i [] x = []"
| "map_run i (op # ops) x =
     (case one_serve i x (op_request i op) of
        (Some resp, x') \<Rightarrow> resp # map_run i ops x'
      | (None, _) \<Rightarrow> [])"

fun is_change :: "coll_op \<Rightarrow> bool" where
  "is_change (CCreate ks vs) \<longleftrightarrow> True"
| "is_change (CInsert k v) \<longleftrightarrow> True"
| "is_change (CRemove k) \<longleftrightarrow> True"
| "is_change op \<longleftrightarrow> False"

definition op_ok :: "coll_op \<Rightarrow> bool" where
  "op_ok op \<longleftrightarrow> coll_request (op_request (DatumId 0) op) \<and> wf_store_request (op_request (DatumId 0) op)"

lemma op_request_facts:
  assumes "op_ok op"
  shows "coll_request (op_request i op)" "wf_store_request (op_request i op)" "request_id (op_request i op) = Some i"
  using assms by (cases op; simp add: op_ok_def)+

lemma returning_Inr: "returning f q = Some ((Inr resp, c), w) \<longleftrightarrow> (\<exists>x. q = Some ((Inr x, c), w) \<and> resp = f x)"
proof (cases q)
  case (Some y)
  obtain r c' w' where "y = ((r, c'), w')" by (metis prod.exhaust)
  then show ?thesis using Some by (cases r) (auto simp: returning_def)
qed (simp add: returning_def)

lemma expecting_Inr:
  "expecting payload name q = Some ((Inr x, c), w) \<longleftrightarrow> (\<exists>resp. q = Some ((Inr resp, c), w) \<and> payload resp = Some x)"
proof (cases q)
  case (Some y)
  obtain r c' w' where "y = ((r, c'), w')" by (metis prod.exhaust)
  then show ?thesis using Some by (cases r) (auto simp: expecting_def split: option.splits)
qed (simp add: expecting_def)

lemma pick_Some [simp]:
  "pick_entry resp = Some v \<longleftrightarrow> resp = SCollectionEntry v"
  "pick_entries resp = Some es \<longleftrightarrow> resp = SCollectionEntries es"
  "pick_rank resp = Some rk \<longleftrightarrow> resp = SCollectionRank rk"
  "pick_total resp = Some t \<longleftrightarrow> resp = SCollectionTotal t"
  by (cases resp; simp)+

lemmas coll_op_defs = coll_create_def coll_insert_def coll_remove_def coll_get_def coll_scan_forward_def coll_scan_backward_def
  coll_sample_def coll_rank_of_key_def coll_scan_from_rank_def coll_count_def

lemma run_op_change:
  assumes "is_change op" "run_op attempt c i n op w = Some ((Inr resp, c'), w')"
  shows "coll_write_all attempt c i n (op_request i op) w = Some ((Inr (), c'), w')" "resp = SAck"
  using assms by (cases op; auto simp: returning_Inr coll_op_defs)+

lemma run_op_read:
  assumes "\<not> is_change op" "run_op attempt c i n op w = Some ((Inr resp, c'), w')"
  shows "read_one attempt c i n (op_request i op) w = Some ((Inr resp, c'), w')" "\<not> (\<exists>msg. resp = SError msg)"
  using assms by (cases op; auto simp: returning_Inr expecting_Inr coll_op_defs)+

lemma one_serve_read: "\<not> is_change op \<Longrightarrow> snd (one_serve i x (op_request i op)) = x"
  by (cases op) (simp_all add: one_serve_def)

lemma no_insertions: "\<not> is_change op \<Longrightarrow> insertions (op_request i op) = 0"
  by (cases op) simp_all

lemma change_acked:
  assumes "op_ok op" "agree (coll_view N i) c w i n (x, 2 * insertions (op_request i op) + m)"
    and "coll_write_all (faulty now) c i n (op_request i op) w = Some ((Inr (), c'), w')"
  shows "fst (one_serve i x (op_request i op)) = Some SAck"
proof (rule ccontr)
  assume r: "fst (one_serve i x (op_request i op)) \<noteq> Some SAck"
  obtain ts where "serving_replicas c i n = Some ts" using assms(2) by (auto simp: agree_def)
  from coll_write_all_refused [OF assms(2) op_request_facts(1) [OF assms(1)] op_request_facts(3) [OF assms(1)]
      op_request_facts(2) [OF assms(1)] this r, of now] assms(3)
  show False by (auto simp: panicked_def halt_total_loss_def Let_def)
qed

text \<open>One operation: its result is the map's, and the replicas that still serve agree on the map after it.\<close>

lemma run_op_agree:
  assumes a: "agree (coll_view N i) c w i n (x, 2 * insertions (op_request i op) + m)" and ok: "op_ok op"
    and run: "run_op (faulty now) c i n op w = Some ((Inr resp, c'), w')"
  shows "\<exists>x'. one_serve i x (op_request i op) = (Some resp, x') \<and> agree (coll_view N i) c' w' i n (x', m)"
proof (cases "is_change op")
  case True
  note wr = run_op_change [OF True run]
  show ?thesis
    using coll_write_all_agree [OF a op_request_facts(1) [OF ok] op_request_facts(3) [OF ok] op_request_facts(2) [OF ok] wr(1)] change_acked [OF ok a wr(1)] wr(2)
    by (intro exI [of _ "snd (one_serve i x (op_request i op))"]) (metis prod.collapse)
next
  case False
  note rd = run_op_read [OF False run]
  let ?req = "op_request i op" and ?r = "fst (one_serve i x (op_request i op))"
  have one: "one_serve i x ?req = (?r, x)" using one_serve_read [OF False, of i x] by (metis prod.collapse)
  have ob: "obeys (coll_view N i) now ?req {(x, m)} {(x, m)} (\<lambda>resp y. ?r = Some resp \<and> fst y = x)"
    using obeys_coll [OF op_request_facts(1) [OF ok] op_request_facts(3) [OF ok] one, of N now m] by (simp add: no_insertions [OF False])
  have "agree (coll_view N i) c w i n (x, m)" using a by (simp add: no_insertions [OF False])
  from read_one_agree [OF this ob op_request_facts(2) [OF ok] rd(1)] rd(2) one show ?thesis by auto
qed

lemma store_run_agree:
  assumes "agree (coll_view N i) c w i n (x, 2 * sum_list (map (\<lambda>op. insertions (op_request i op)) ops))" "\<forall>op\<in>set ops. op_ok op"
    and "store_run (faulty now) i n ops c w = (rs, panic)"
  shows "\<exists>rest. map_run i ops x = rs @ rest \<and> (\<not> panic \<longrightarrow> length rs = length ops)"
  using assms
proof (induction ops arbitrary: c w x rs)
  case (Cons op ops)
  show ?case
  proof (cases "\<exists>resp c' w'. run_op (faulty now) c i n op w = Some ((Inr resp, c'), w')")
    case True
    then obtain resp c' w' where run: "run_op (faulty now) c i n op w = Some ((Inr resp, c'), w')" by blast
    have "agree (coll_view N i) c w i n (x, 2 * insertions (op_request i op) + 2 * sum_list (map (\<lambda>op. insertions (op_request i op)) ops))"
      using Cons.prems(1) by (simp add: distrib_left)
    from run_op_agree [OF this _ run] Cons.prems(2) obtain x' where x': "one_serve i x (op_request i op) = (Some resp, x')"
      "agree (coll_view N i) c' w' i n (x', 2 * sum_list (map (\<lambda>op. insertions (op_request i op)) ops))" by auto
    obtain rs' where rs: "rs = resp # rs'" "store_run (faulty now) i n ops c' w' = (rs', panic)"
      using Cons.prems(3) run by (auto split: prod.splits)
    from Cons.IH [OF x'(2) _ rs(2)] Cons.prems(2) show ?thesis by (auto simp: x'(1) rs(1))
  next
    case False
    then have "rs = []" "panic" using Cons.prems(3) by (auto split: option.splits sum.splits prod.splits)
    then show ?thesis by simp
  qed
qed simp

section \<open>Properties\<close>

text \<open>
  C11: Replicated collections are sorted maps, whatever messages are lost. A compute node's operations
  on one collection against replicas that agree on it, each of which may miss a request or act on
  it with the reply lost, so that the retry performs it a second time, return exactly what the
  sorted map of the acknowledged changes returns. A run that does not panic answers every
  operation; the budget of two insertions per insertion is for the retries.
\<close>

theorem replicated_collections_are_sorted_maps:
  assumes "agree (coll_view N i) c w i n (x, 2 * sum_list (map (\<lambda>op. insertions (op_request i op)) ops))"
    and "\<forall>op\<in>set ops. op_ok op" and "store_run (faulty now) i n ops c w = (rs, panic)"
  shows "\<exists>rest. map_run i ops x = rs @ rest \<and> (\<not> panic \<longrightarrow> length rs = length ops)"
  by (rule store_run_agree [OF assms])

theorem replicated_collections_are_sorted_maps_witness:
  "\<exists>w rs panic rest. agree (coll_view (2 ^ 32) (DatumId 1)) one_replica w (DatumId 1) 1 (None, 2) \<and> net_faults w = [LostReply, LostRequest] \<and>
     store_run (faulty 0) (DatumId 1) 1 [CCreate 1 1, CInsert [5] [7], CScanForward 3] one_replica w = (rs, panic) \<and>
     [SAck, SAck, SCollectionEntries [([5], [7])]] = rs @ rest \<and> (\<not> panic \<longrightarrow> rest = [])"
proof -
  let ?nd = "\<lparr>sn_log = \<lparr>log_file = [], index = [], end_offset = 0, log_id = []\<rparr>, sn_node_id = NodeId 1, heartbeat = 0,
    self_halt_threshold = 5, sn_transfers = [], sn_collections = no_collections []\<rparr>"
  let ?w = "\<lparr>net_nodes = [[9] \<mapsto> ?nd], net_faults = [LostReply, LostRequest]\<rparr>"
  let ?ops = "[CCreate 1 1, CInsert [5] [7], CScanForward 3]"
  have "colls_hold (2 ^ 32) (no_collections []) Map.empty 2" by (simp add: colls_hold_def no_collections_def file_holds_def)
  then have "view_at (coll_view (2 ^ 32) (DatumId 1)) ?w [9] (None, 2)" by (auto simp: view_at_def coll_view_def)
  then have a: "agree (coll_view (2 ^ 32) (DatumId 1)) one_replica ?w (DatumId 1) 1 (None, 2)" by (rule one_replica_agrees)
  then have a': "agree (coll_view (2 ^ 32) (DatumId 1)) one_replica ?w (DatumId 1) 1
      (None, 2 * sum_list (map (\<lambda>op. insertions (op_request (DatumId 1) op)) ?ops))" by simp
  have "sizes_fit 1 1 COLLECTION_PAGE_SIZE"
    by (simp add: COLLECTION_PAGE_SIZE_def sizes_fit_def validate_page_size_def is_power_of_two_def upt_rec)
  then have ok: "\<forall>op\<in>set ?ops. op_ok op" by (simp add: op_ok_def short_def)
  obtain rs panic where r: "store_run (faulty 0) (DatumId 1) 1 ?ops one_replica ?w = (rs, panic)" by (metis prod.exhaust)
  have m: "map_run (DatumId 1) ?ops None = [SAck, SAck, SCollectionEntries [([5], [7])]]"
    by (simp add: one_serve_def upsert_def spec_read_def)
  from replicated_collections_are_sorted_maps [OF a' ok r] obtain rest where
    e: "[SAck, SAck, SCollectionEntries [([5], [7])]] = rs @ rest" "\<not> panic \<longrightarrow> length rs = 3" unfolding m by auto
  moreover have "\<not> panic \<longrightarrow> rest = []" using arg_cong [OF e(1), of length] e(2) by auto
  moreover have "net_faults ?w = [LostReply, LostRequest]" by simp
  ultimately show ?thesis using a r by blast
qed

text \<open>
  A refused change halts the cluster. Inserting into a collection that was not created, or an
  entry of the wrong size, is answered with an error by every replica; the caller takes each of
  these answers for a failed node: all serving replicas are marked stale, the call panics and the
  cluster-wide halt is engaged, with every replica alive and in agreement.
\<close>

theorem refused_insert_halts_the_cluster:
  assumes "agree (coll_view N i) c w i n (x, 2)" and "serving_replicas c i n = Some ts" and "short k" and "short v"
    and "case x of None \<Rightarrow> True | Some (ks, vs, es) \<Rightarrow> length k \<noteq> unat ks \<or> length v \<noteq> unat vs"
  shows "\<exists>msg c' w'. coll_insert (faulty now) c i k v n w = Some ((Inl msg, c'), w') \<and>
    set ts \<subseteq> storage_stale c' \<and> gate (cluster_halt c') \<noteq> None"
proof -
  let ?req = "SCollectionInsert i k v" and ?c = "c\<lparr>storage_stale := storage_stale c \<union> set ts\<rparr>"
  have r: "fst (one_serve i x ?req) \<noteq> Some SAck" using assms(5) by (auto simp: one_serve_def split: option.splits prod.splits)
  have ag: "agree (coll_view N i) c w i n (x, 2 * insertions ?req + 0)" using assms(1) by simp
  have "wf_store_request ?req" using assms(3,4) by simp
  from coll_write_all_refused [OF ag _ _ this assms(2) r, of now] obtain w' where
    w': "coll_insert (faulty now) c i k v n w = Some (panicked ?c i, w')" by (auto simp: coll_insert_def)
  obtain msg c' where p: "(panicked ?c i :: unit stored) = (Inl msg, c')" "storage_stale c' = storage_stale ?c"
    by (simp add: panicked_def halt_total_loss_def Let_def)
  have "gate (cluster_halt c') \<noteq> None" by (rule panickedD [OF p(1)])
  then show ?thesis using w' p by (intro exI [of _ msg] exI [of _ c'] exI [of _ w']) (simp del: not_None_eq)
qed

theorem refused_insert_halts_the_cluster_witness:
  "\<exists>w msg c' w'. coll_insert (faulty 0) one_replica (DatumId 1) [5] [7] 1 w = Some ((Inl msg, c'), w') \<and>
    NodeId 1 \<in> storage_stale c' \<and> gate (cluster_halt c') \<noteq> None"
proof -
  let ?nd = "\<lparr>sn_log = \<lparr>log_file = [], index = [], end_offset = 0, log_id = []\<rparr>, sn_node_id = NodeId 1, heartbeat = 0,
    self_halt_threshold = 5, sn_transfers = [], sn_collections = no_collections []\<rparr>"
  let ?w = "\<lparr>net_nodes = [[9] \<mapsto> ?nd], net_faults = []\<rparr>"
  have "colls_hold (2 ^ 32) (no_collections []) Map.empty 2" by (simp add: colls_hold_def no_collections_def file_holds_def)
  then have "view_at (coll_view (2 ^ 32) (DatumId 1)) ?w [9] (None, 2)" by (auto simp: view_at_def coll_view_def)
  then have a: "agree (coll_view (2 ^ 32) (DatumId 1)) one_replica ?w (DatumId 1) 1 (None, 2)" by (rule one_replica_agrees)
  from refused_insert_halts_the_cluster [OF a one_replica_serves, of "[5]" "[7]" 0] show ?thesis by (auto simp: short_def)
qed

text \<open>
  Collection reads do not fail over on an error reply. When the primary is reachable and self-halted,
  a read panics on its error reply: the next replica is not asked, and the cluster state is
  unchanged, so the next read meets the same primary.
\<close>

theorem error_reply_is_not_failed_over:
  assumes "serving_replicas c i n = Some (p # ts)" and "store_addresses c p = Some addr" and "net_nodes w addr = Some np"
    and "is_stale now np" and "net_faults w = []"
  shows "\<exists>msg. coll_count (faulty now) c i n w = Some ((Inl msg, c), w)"
proof -
  obtain msg where "try_call (faulty now) c p (SCollectionCount i) w = (Inr (SError msg), w)"
    using self_halted_call [OF assms(5,2,3,4), of "SCollectionCount i"] by auto
  then show ?thesis using assms(1) by (simp add: coll_count_def expecting_def read_one_def)
qed

theorem error_reply_is_not_failed_over_witness:
  "\<exists>w msg. coll_count (faulty 9) one_replica (DatumId 1) 1 w = Some ((Inl msg, one_replica), w)"
proof -
  let ?nd = "\<lparr>sn_log = \<lparr>log_file = [], index = [], end_offset = 0, log_id = []\<rparr>, sn_node_id = NodeId 1, heartbeat = 0,
    self_halt_threshold = 5, sn_transfers = [], sn_collections = no_collections []\<rparr>"
  let ?w = "\<lparr>net_nodes = [[9] \<mapsto> ?nd], net_faults = []\<rparr>"
  have "store_addresses one_replica (NodeId 1) = Some [9]" "is_stale 9 ?nd" by (simp_all add: one_replica_def is_stale_def stale_def)
  from error_reply_is_not_failed_over [OF one_replica_serves [of "DatumId 1"] this(1) _ this(2), of ?w] show ?thesis by auto
qed
end
