(* ===== verification/Migrate.thy ===== *)
theory Migrate
  imports Store_Server Ring Wire_Response
begin

text \<open>
  The migration driver, \<open>seisin-migrate/src/lib.rs\<close>, with the client's round trip
  (\<open>seisin-client/src/lib.rs\<close>). The driver runs against a network of any kind: one exchange with a
  compute node is the argument \<open>exchange\<close>, one with a storage node \<open>store\<close>, both over a state of
  the network. A loop that polls need not end, so a run is an option, \<open>None\<close> when it does not
  return. \<open>DatumId::new\<close> is the argument \<open>new_id\<close>, a stream of ids. What the driver prints is left out,
  and its hash maps are association lists in the order of insertion; the code leaves the order open.
\<close>

section \<open>The client\<close>

definition MAX_REDIRECTS :: nat where "MAX_REDIRECTS = 8"

type_synonym 'w compute_net = "rstring \<Rightarrow> request \<Rightarrow> 'w \<Rightarrow> response result \<times> 'w"

fun call_loop :: "'w compute_net \<Rightarrow> nat \<Rightarrow> rstring \<Rightarrow> request \<Rightarrow> 'w \<Rightarrow> response result \<times> 'w" where
  "call_loop exchange 0 address req w =
     (Inl (Bail ''gave up after {MAX_REDIRECTS} redirects, still pointed at {address}'' [MAX_REDIRECTS]), w)"
| "call_loop exchange (Suc k) address req w =
     (case exchange address req w of
        (Inl e, w') \<Rightarrow> (Inl e, w')
      | (Inr (Redirect next), w') \<Rightarrow> call_loop exchange k next req w'
      | (Inr other, w') \<Rightarrow> (Inr other, w'))"

definition client_call :: "'w compute_net \<Rightarrow> rstring \<Rightarrow> request \<Rightarrow> 'w \<Rightarrow> response result \<times> 'w" where
  "client_call exchange address req w = call_loop exchange MAX_REDIRECTS address req w"

section \<open>The plan\<close>

record move =
  mv_id :: datum_id
  mv_source :: node_id
  mv_dest :: node_id

fun plan_moves :: "ring \<Rightarrow> ring \<Rightarrow> (datum_id \<times> u16) list \<Rightarrow> move list option" where
  "plan_moves old new [] = Some []"
| "plan_moves old new ((i, n) # ids) =
     Option.bind (replicas old i (unat n)) (\<lambda>old_set.
       case old_set of
         [] \<Rightarrow> plan_moves old new ids
       | source # _ \<Rightarrow>
           Option.bind (replicas new i (unat n)) (\<lambda>new_set.
           Option.bind (plan_moves old new ids) (\<lambda>moves.
             Some (map (\<lambda>dest. \<lparr>mv_id = i, mv_source = source, mv_dest = dest\<rparr>) (filter (\<lambda>dest. dest \<notin> set old_set) new_set) @ moves))))"

fun plan_drops :: "ring \<Rightarrow> ring \<Rightarrow> (datum_id \<times> u16) list \<Rightarrow> (node_id \<times> datum_id) list option" where
  "plan_drops old new [] = Some []"
| "plan_drops old new ((i, n) # ids) =
     Option.bind (replicas new i (unat n)) (\<lambda>new_set.
     Option.bind (replicas old i (unat n)) (\<lambda>old_set.
     Option.bind (plan_drops old new ids) (\<lambda>drops.
       Some (map (\<lambda>node. (node, i)) (filter (\<lambda>node. node \<notin> set new_set) old_set) @ drops))))"

text \<open>The closure of \<open>filter_map\<close>: a move whose source is unreachable is rerouted or dropped.\<close>

fun reroute :: "ring \<Rightarrow> (datum_id \<times> u16) list \<Rightarrow> node_id set \<Rightarrow> move list \<Rightarrow> move list option" where
  "reroute old factors reachable [] = Some []"
| "reroute old factors reachable (mv # moves) =
     Option.bind (reroute old factors reachable moves) (\<lambda>rest.
       if mv_source mv \<in> reachable then Some (mv # rest)
       else
         let n = (case map_of factors (mv_id mv) of Some n \<Rightarrow> n | None \<Rightarrow> 1) in
         Option.bind (replicas old (mv_id mv) (unat n)) (\<lambda>old_set.
           case find (\<lambda>node. node \<in> reachable) old_set of
             Some node \<Rightarrow> Some (mv\<lparr>mv_source := node\<rparr> # rest)
           | None \<Rightarrow> Some rest))"

definition group_pair :: "move \<Rightarrow> ((node_id \<times> node_id) \<times> datum_id list) list \<Rightarrow> ((node_id \<times> node_id) \<times> datum_id list) list" where
  "group_pair mv by_pair =
     (let k = (mv_source mv, mv_dest mv);
          ids = (case map_of by_pair k of Some ids \<Rightarrow> ids | None \<Rightarrow> [])
      in AList.update k (ids @ [mv_id mv]) by_pair)"

definition addr_map :: "storage_member list \<Rightarrow> node_id \<rightharpoonup> rstring" where
  "addr_map members = map_of (rev (map (\<lambda>m. (sm_node_id m, sm_store_address m)) members))"

definition ring_of :: "storage_member list \<Rightarrow> ring" where
  "ring_of members = from_members (map (\<lambda>m. (sm_node_id m, sm_weight m)) members)"

record report =
  rp_applied :: bool
  rp_total_moves :: nat
  rp_per_pair :: "(node_id \<times> node_id \<times> nat) list"

section \<open>Actions\<close>

text \<open>A piece of the driver: what it does to the network and what it returns, if it returns.\<close>

type_synonym ('a, 'w) act = "'w \<Rightarrow> ('a result \<times> 'w) option"

definition ret :: "'a result \<Rightarrow> ('a, 'w) act" where
  "ret r w = Some (r, w)"

definition andthen :: "('a, 'w) act \<Rightarrow> ('a \<Rightarrow> ('b, 'w) act) \<Rightarrow> ('b, 'w) act" where
  "andthen m f w = Option.bind (m w) (\<lambda>(r, w'). case r of Inl e \<Rightarrow> Some (Inl e, w') | Inr x \<Rightarrow> f x w')"

definition attempting :: "('a, 'w) act \<Rightarrow> ('a result \<Rightarrow> ('b, 'w) act) \<Rightarrow> ('b, 'w) act" where
  "attempting m f w = Option.bind (m w) (\<lambda>(r, w'). f r w')"

definition in_context :: "string \<Rightarrow> ('a, 'w) act \<Rightarrow> ('a, 'w) act" where
  "in_context msg m w = map_option (\<lambda>(r, w'). (with_context msg r, w')) (m w)"

fun for_each :: "'b list \<Rightarrow> ('b \<Rightarrow> (unit, 'w) act) \<Rightarrow> (unit, 'w) act" where
  "for_each [] f = ret (Inr ())"
| "for_each (x # xs) f = andthen (f x) (\<lambda>_. for_each xs f)"

text \<open>The two networks of a driver.\<close>

record 'w nets =
  net_compute :: "'w compute_net"
  net_store :: "'w store_net"

definition compute :: "'w nets \<Rightarrow> rstring \<Rightarrow> request \<Rightarrow> (response, 'w) act" where
  "compute N a req w = Some (client_call (net_compute N) a req w)"

definition store :: "'w nets \<Rightarrow> rstring \<Rightarrow> store_request \<Rightarrow> (store_response, 'w) act" where
  "store N a req w = Some (net_store N a req w)"

definition get_cluster_config :: "'w nets \<Rightarrow> rstring \<Rightarrow> (storage_member list, 'w) act" where
  "get_cluster_config N a = andthen (compute N a GetClusterConfig) (\<lambda>r. case r of
     ClusterConfig members \<Rightarrow> ret (Inr members)
   | _ \<Rightarrow> ret (Inl (Bail ''GetClusterConfig at {compute_addr} got {other:?}'' [])))"

definition identify :: "'w nets \<Rightarrow> rstring \<Rightarrow> (node_id \<times> datum_id, 'w) act" where
  "identify N a = andthen (store N a SIdentify) (\<lambda>r. case r of
     SIdentity nid lid \<Rightarrow> ret (Inr (nid, lid))
   | _ \<Rightarrow> ret (Inl (Bail ''Identify at {store_addr} got {other:?}'' [])))"

definition expect_ack :: "'w nets \<Rightarrow> rstring \<Rightarrow> request \<Rightarrow> (unit, 'w) act" where
  "expect_ack N a req = andthen (compute N a req) (\<lambda>r.
     if r = Ack then ret (Inr ()) else ret (Inl (Bail ''expected Ack from {compute_addr}, got {other:?}'' [])))"

definition expect_store_ack :: "'w nets \<Rightarrow> rstring \<Rightarrow> store_request \<Rightarrow> (unit, 'w) act" where
  "expect_store_ack N a req = andthen (store N a req) (\<lambda>r.
     if r = SAck then ret (Inr ()) else ret (Inl (Bail ''expected Ack from storage {store_addr}, got {other:?}'' [])))"

definition PAGE :: u32 where "PAGE = 1024"

partial_function (option) list_loop ::
    "'w nets \<Rightarrow> rstring \<Rightarrow> datum_id option \<Rightarrow> (datum_id \<times> u16) list \<Rightarrow> 'w \<Rightarrow> ((datum_id \<times> u16) list result \<times> 'w) option" where
  "list_loop N a after ids w =
     (case net_store N a (SListIds after PAGE) w of
        (Inl e, w') \<Rightarrow> Some (Inl e, w')
      | (Inr (SIdList page done), w') \<Rightarrow>
          if done \<or> page = [] then Some (Inr (ids @ page), w')
          else list_loop N a (Some (fst (last page))) (ids @ page) w'
      | (Inr _, w') \<Rightarrow> Some (Inl (Bail ''ListIds at {store_addr} got {other:?}'' []), w'))"

definition list_all_ids :: "'w nets \<Rightarrow> rstring \<Rightarrow> ((datum_id \<times> u16) list, 'w) act" where
  "list_all_ids N a = list_loop N a None []"

partial_function (option) poll_loop :: "'w nets \<Rightarrow> rstring \<Rightarrow> datum_id \<Rightarrow> 'w \<Rightarrow> (unit result \<times> 'w) option" where
  "poll_loop N a tid w =
     (case net_store N a (STransferStatus tid) w of
        (Inl e, w') \<Rightarrow> Some (Inl e, w')
      | (Inr (STransferProgress copied dirty done), w') \<Rightarrow> if done then Some (Inr (), w') else poll_loop N a tid w'
      | (Inr _, w') \<Rightarrow> Some (Inl (Bail ''TransferStatus at {source_addr} got {other:?}'' []), w'))"

section \<open>The driver\<close>

fun resolve :: "'w nets \<Rightarrow> storage_member list \<Rightarrow> (storage_member list, 'w) act" where
  "resolve N [] = ret (Inr [])"
| "resolve N (m # ms) =
     andthen (in_context ''identifying proposed node {:?}'' (identify N (sm_store_address m)))
       (\<lambda>(nid, lid).
          if nid \<noteq> sm_node_id m
          then ret (Inl (Bail ''proposed node at {} reports id {node_id:?}, expected {:?}'' []))
          else andthen (resolve N ms) (\<lambda>rest. ret (Inr (m\<lparr>sm_log_id := lid\<rparr> # rest))))"

text \<open>The ids of all reachable sources, each with the last factor listed.\<close>

fun enumerate_ids :: "'w nets \<Rightarrow> storage_member list \<Rightarrow> (datum_id \<times> u16) list \<times> node_id set \<Rightarrow>
    ((datum_id \<times> u16) list \<times> node_id set, 'w) act" where
  "enumerate_ids N [] acc = ret (Inr acc)"
| "enumerate_ids N (m # ms) acc =
     attempting (list_all_ids N (sm_store_address m)) (\<lambda>r.
       enumerate_ids N ms (case r of
           Inr page \<Rightarrow> (fold (\<lambda>(i, n) fs. AList.update i n fs) page (fst acc), insert (sm_node_id m) (snd acc))
         | Inl _ \<Rightarrow> acc))"

fun bulk_copy :: "'w nets \<Rightarrow> (node_id \<rightharpoonup> rstring) \<Rightarrow> (node_id \<rightharpoonup> rstring) \<Rightarrow> (nat \<Rightarrow> datum_id) \<Rightarrow>
    ((node_id \<times> node_id) \<times> datum_id list) list \<Rightarrow> nat \<Rightarrow> ((rstring \<times> datum_id) list, 'w) act" where
  "bulk_copy N current_addr proposed_addr new_id [] k = ret (Inr [])"
| "bulk_copy N current_addr proposed_addr new_id (((source, dest), ids) # pairs) k =
     (case current_addr source of
        None \<Rightarrow> ret (Inl (Bail ''no address for source {source:?}'' []))
      | Some source_addr \<Rightarrow>
          (case proposed_addr dest of
             None \<Rightarrow> ret (Inl (Bail ''no address for dest {dest:?}'' []))
           | Some dest_addr \<Rightarrow>
               andthen (expect_store_ack N source_addr (STransfer (new_id k) ids dest_addr)) (\<lambda>_.
               andthen (poll_loop N source_addr (new_id k)) (\<lambda>_.
               andthen (bulk_copy N current_addr proposed_addr new_id pairs (Suc k)) (\<lambda>rest.
                 ret (Inr ((source_addr, new_id k) # rest)))))))"

fun reclaim :: "'w nets \<Rightarrow> (node_id \<rightharpoonup> rstring) \<Rightarrow> (node_id \<times> datum_id) list \<Rightarrow> (unit, 'w) act" where
  "reclaim N current_addr [] = ret (Inr ())"
| "reclaim N current_addr ((node, i) # drops) =
     (case current_addr node of
        None \<Rightarrow> reclaim N current_addr drops
      | Some addr \<Rightarrow> attempting (store N addr (SDelete i)) (\<lambda>_. reclaim N current_addr drops))"

text \<open>The phases that change the cluster: copy, pause, tail, flip, resume, reclaim.\<close>

definition execute ::
    "'w nets \<Rightarrow> rstring list \<Rightarrow> (node_id \<rightharpoonup> rstring) \<Rightarrow> (node_id \<rightharpoonup> rstring) \<Rightarrow> storage_member list \<Rightarrow> (nat \<Rightarrow> datum_id) \<Rightarrow>
     ((node_id \<times> node_id) \<times> datum_id list) list \<Rightarrow> (node_id \<times> datum_id) list \<Rightarrow> (unit, 'w) act" where
  "execute N compute_addrs current_addr proposed_addr resolved new_id by_pair drops =
     andthen (bulk_copy N current_addr proposed_addr new_id by_pair 0) (\<lambda>transfers.
     andthen (for_each compute_addrs (\<lambda>a. expect_ack N a (Pause (lit ''migrating'')))) (\<lambda>_.
     andthen (for_each transfers (\<lambda>(a, tid). expect_store_ack N a (SFinishTransfer tid))) (\<lambda>_.
     andthen (for_each compute_addrs (\<lambda>a. expect_ack N a (InstallStorageRing resolved))) (\<lambda>_.
     andthen (for_each compute_addrs (\<lambda>a. expect_ack N a Resume)) (\<lambda>_.
     reclaim N current_addr drops)))))"

definition planned :: "'a option \<Rightarrow> ('a \<Rightarrow> ('b, 'w) act) \<Rightarrow> ('b, 'w) act" where
  "planned x f w = Option.bind x (\<lambda>y. f y w)"

definition migrate :: "'w nets \<Rightarrow> (nat \<Rightarrow> datum_id) \<Rightarrow> rstring list \<Rightarrow> storage_member list \<Rightarrow> bool \<Rightarrow> (report, 'w) act" where
  "migrate N new_id compute_addrs proposed apply =
     (if compute_addrs = [] then ret (Inl (Bail ''need at least one compute node address'' []))
      else
        andthen (get_cluster_config N (hd compute_addrs)) (\<lambda>current.
        andthen (resolve N proposed) (\<lambda>resolved.
        andthen (enumerate_ids N current ([], {})) (\<lambda>(id_factors, reachable).
        let old = ring_of current; new = ring_of resolved in
        planned (plan_drops old new id_factors) (\<lambda>drops.
        planned (Option.bind (plan_moves old new id_factors) (reroute old id_factors reachable)) (\<lambda>moves.
        let by_pair = fold group_pair moves [];
            per_pair = map (\<lambda>((s, d), ids). (s, d, length ids)) by_pair
        in if \<not> apply
           then ret (Inr \<lparr>rp_applied = False, rp_total_moves = length moves, rp_per_pair = per_pair\<rparr>)
           else
             andthen (execute N compute_addrs (addr_map current) (addr_map resolved) resolved new_id by_pair drops) (\<lambda>_.
             ret (Inr \<lparr>rp_applied = True, rp_total_moves = length moves, rp_per_pair = per_pair\<rparr>))))))))"

fun verify_members :: "'w nets \<Rightarrow> storage_member list \<Rightarrow> (unit, 'w) act" where
  "verify_members N [] = ret (Inr ())"
| "verify_members N (m # ms) =
     andthen (in_context ''identifying {:?} at {}'' (identify N (sm_store_address m)))
       (\<lambda>(nid, lid).
          if nid \<noteq> sm_node_id m \<or> lid \<noteq> sm_log_id m
          then ret (Inl (Bail ''impostor detected: storage node at {} reports {node_id:?}/{log_id:?}'' []))
          else verify_members N ms)"

definition resume_cluster :: "'w nets \<Rightarrow> rstring list \<Rightarrow> (unit, 'w) act" where
  "resume_cluster N compute_addrs =
     (if compute_addrs = [] then ret (Inl (Bail ''need at least one compute node address'' []))
      else
        andthen (get_cluster_config N (hd compute_addrs)) (\<lambda>members.
        andthen (verify_members N members) (\<lambda>_.
        for_each compute_addrs (\<lambda>a. expect_ack N a ClearHalt))))"

fun survivors_of :: "'w nets \<Rightarrow> storage_member list \<Rightarrow> (storage_member list, 'w) act" where
  "survivors_of N [] = ret (Inr [])"
| "survivors_of N (m # ms) =
     attempting (identify N (sm_store_address m)) (\<lambda>r.
     andthen (survivors_of N ms) (\<lambda>rest. ret (Inr (case r of Inr _ \<Rightarrow> m # rest | Inl _ \<Rightarrow> rest))))"

definition recover :: "'w nets \<Rightarrow> (nat \<Rightarrow> datum_id) \<Rightarrow> rstring list \<Rightarrow> bool \<Rightarrow> (report, 'w) act" where
  "recover N new_id compute_addrs apply =
     (if compute_addrs = [] then ret (Inl (Bail ''need at least one compute node address'' []))
      else
        andthen (get_cluster_config N (hd compute_addrs)) (\<lambda>current.
        andthen (survivors_of N current) (\<lambda>survivors.
        if length current - length survivors = 0
        then ret (Inr \<lparr>rp_applied = False, rp_total_moves = 0, rp_per_pair = []\<rparr>)
        else migrate N new_id compute_addrs survivors apply)))"

section \<open>What the plan does to the copies\<close>

text \<open>Who holds a copy of each datum, after the copies of a plan and after its drops.\<close>

type_synonym holders = "datum_id \<Rightarrow> node_id set"

definition copy_move :: "move \<Rightarrow> holders \<Rightarrow> holders" where
  "copy_move mv H = (if mv_source mv \<in> H (mv_id mv) then H(mv_id mv := insert (mv_dest mv) (H (mv_id mv))) else H)"

definition drop_copy :: "node_id \<times> datum_id \<Rightarrow> holders \<Rightarrow> holders" where
  "drop_copy d H = H(snd d := H (snd d) - {fst d})"

lemma plans_total:
  assumes "\<And>i n. replicas old i n \<noteq> None" "\<And>i n. replicas new i n \<noteq> None"
  shows "plan_moves old new ids \<noteq> None \<and> plan_drops old new ids \<noteq> None"
proof (induction ids)
  case (Cons x ids)
  obtain i n where x: "x = (i, n)" by force
  obtain os ns where "replicas old i (unat n) = Some os" "replicas new i (unat n) = Some ns" using assms by blast
  then show ?case using Cons by (cases os) (auto simp: x)
qed simp

lemma plan_moves_cover:
  assumes "plan_moves old new ids = Some moves" "(i, n) \<in> set ids" "replicas old i (unat n) = Some os" "os \<noteq> []"
    "replicas new i (unat n) = Some ns" "d \<in> set ns" "d \<notin> set os"
  shows "\<lparr>mv_id = i, mv_source = hd os, mv_dest = d\<rparr> \<in> set moves"
  using assms(1,2)
proof (induction ids arbitrary: moves)
  case (Cons x ids)
  obtain j k where x: "x = (j, k)" by force
  obtain js where js: "replicas old j (unat k) = Some js" using Cons.prems(1) by (auto simp: x bind_eq_Some_conv)
  show ?case
  proof (cases js)
    case Nil
    then have "(i, n) \<noteq> x" using js assms(3,4) by (auto simp: x)
    then show ?thesis using Cons Nil js by (auto simp: x)
  next
    case (Cons source rest)
    then obtain ks ms where ks: "replicas new j (unat k) = Some ks" "plan_moves old new ids = Some ms"
        "moves = map (\<lambda>dest. \<lparr>mv_id = j, mv_source = source, mv_dest = dest\<rparr>) (filter (\<lambda>dest. dest \<notin> set js) ks) @ ms"
      using Cons.prems(1) js by (auto simp: x bind_eq_Some_conv)
    show ?thesis
    proof (cases "(i, n) = x")
      case True
      then have "js = os" "ks = ns" "j = i" using js ks(1) assms(3,5) x by auto
      then show ?thesis using ks(3) Cons assms(6,7) by auto
    next
      case False
      then show ?thesis using Cons.IH [OF ks(2)] Cons.prems(2) ks(3) by auto
    qed
  qed
qed simp

lemma plan_moves_sound:
  assumes "plan_moves old new ids = Some moves" "mv \<in> set moves"
  shows "\<exists>n os ns. (mv_id mv, n) \<in> set ids \<and> replicas old (mv_id mv) (unat n) = Some os \<and> replicas new (mv_id mv) (unat n) = Some ns \<and>
    os \<noteq> [] \<and> mv_source mv = hd os \<and> mv_dest mv \<in> set ns \<and> mv_dest mv \<notin> set os"
  using assms
proof (induction ids arbitrary: moves)
  case (Cons x ids)
  obtain j k where x: "x = (j, k)" by force
  obtain js where js: "replicas old j (unat k) = Some js" using Cons.prems(1) by (auto simp: x bind_eq_Some_conv)
  show ?case
  proof (cases js)
    case Nil
    then have "plan_moves old new ids = Some moves" using Cons.prems(1) js by (simp add: x)
    from Cons.IH [OF this Cons.prems(2)] show ?thesis by auto
  next
    case (Cons source rest)
    then obtain ks ms where ks: "replicas new j (unat k) = Some ks" "plan_moves old new ids = Some ms"
        "moves = map (\<lambda>dest. \<lparr>mv_id = j, mv_source = source, mv_dest = dest\<rparr>) (filter (\<lambda>dest. dest \<notin> set js) ks) @ ms"
      using Cons.prems(1) js by (auto simp: x bind_eq_Some_conv)
    show ?thesis
    proof (cases "mv \<in> set ms")
      case True
      from Cons.IH [OF ks(2) True] show ?thesis by auto
    next
      case False
      then have "mv_id mv = j" "mv_source mv = source" "mv_dest mv \<in> set ks" "mv_dest mv \<notin> set js" using ks(3) Cons.prems(2) by auto
      then show ?thesis using js ks(1) Cons by (intro exI [of _ k] exI [of _ js] exI [of _ ks]) (simp add: x)
    qed
  qed
qed simp

lemma plan_drops_sound:
  assumes "plan_drops old new ids = Some drops" "(node, i) \<in> set drops"
  shows "\<exists>n os ns. (i, n) \<in> set ids \<and> replicas old i (unat n) = Some os \<and> replicas new i (unat n) = Some ns \<and> node \<in> set os \<and> node \<notin> set ns"
  using assms
proof (induction ids arbitrary: drops)
  case (Cons x ids)
  obtain j k where x: "x = (j, k)" by force
  then obtain js ks ds where js: "replicas old j (unat k) = Some js" "replicas new j (unat k) = Some ks" "plan_drops old new ids = Some ds"
      "drops = map (\<lambda>node. (node, j)) (filter (\<lambda>node. node \<notin> set ks) js) @ ds"
    using Cons.prems(1) by (auto simp: bind_eq_Some_conv)
  show ?case
  proof (cases "(node, i) \<in> set ds")
    case True
    from Cons.IH [OF js(3) True] show ?thesis by auto
  next
    case False
    then have "i = j" "node \<in> set js" "node \<notin> set ks" using js(4) Cons.prems(2) by auto
    then show ?thesis using js(1,2) by (intro exI [of _ k] exI [of _ js] exI [of _ ks]) (simp add: x)
  qed
qed simp

lemma reroute_cover:
  assumes "reroute old fs reachable moves = Some out" "mv \<in> set moves"
    and "replicas old (mv_id mv) (unat (case map_of fs (mv_id mv) of Some n \<Rightarrow> n | None \<Rightarrow> 1)) = Some os" "mv_source mv \<in> set os"
    and "\<exists>node\<in>set os. node \<in> reachable"
  shows "\<exists>s\<in>set os. s \<in> reachable \<and> mv\<lparr>mv_source := s\<rparr> \<in> set out"
  using assms(1,2)
proof (induction moves arbitrary: out)
  case (Cons x moves)
  obtain rest where rest: "reroute old fs reachable moves = Some rest" using Cons.prems(1) by (auto simp: bind_eq_Some_conv)
  have sub: "set rest \<subseteq> set out"
    using Cons.prems(1) rest by (auto simp: Let_def bind_eq_Some_conv split: if_splits option.splits)
  show ?case
  proof (cases "mv = x")
    case False
    then show ?thesis using Cons.IH [OF rest] Cons.prems(2) sub by auto
  next
    case True
    show ?thesis
    proof (cases "mv_source mv \<in> reachable")
      case r: True
      then have "mv \<in> set out" using Cons.prems(1) rest True by auto
      then show ?thesis using r assms(4) by (intro bexI [of _ "mv_source mv"]) simp_all
    next
      case False
      obtain s where s: "find (\<lambda>node. node \<in> reachable) os = Some s" using assms(5) by (metis find_None_iff option.exhaust)
      then have "s \<in> set os" "s \<in> reachable" by (auto simp: find_Some_iff)
      moreover have "mv\<lparr>mv_source := s\<rparr> \<in> set out" using Cons.prems(1) rest True False s assms(3) by (auto simp: Let_def)
      ultimately show ?thesis by blast
    qed
  qed
qed simp

lemma copies_grow: "H i \<subseteq> fold copy_move moves H i"
proof (induction moves arbitrary: H)
  case (Cons mv moves)
  have "H i \<subseteq> copy_move mv H i" by (auto simp: copy_move_def)
  then show ?case using Cons [of "copy_move mv H"] by auto
qed simp

lemma copies_done: "mv \<in> set moves \<Longrightarrow> mv_source mv \<in> H (mv_id mv) \<Longrightarrow> mv_dest mv \<in> fold copy_move moves H (mv_id mv)"
proof (induction moves arbitrary: H)
  case (Cons x moves)
  show ?case
  proof (cases "mv = x")
    case True
    then have "mv_dest mv \<in> copy_move x H (mv_id mv)" using Cons.prems(2) by (simp add: copy_move_def)
    then show ?thesis using copies_grow [of "copy_move x H" "mv_id mv" moves] by auto
  next
    case False
    have "mv_source mv \<in> copy_move x H (mv_id mv)" using Cons.prems(2) by (auto simp: copy_move_def)
    with Cons.IH False Cons.prems(1) show ?thesis by simp
  qed
qed simp

lemma drops_spare: "node \<in> H i \<Longrightarrow> (node, i) \<notin> set drops \<Longrightarrow> node \<in> fold drop_copy drops H i"
proof (induction drops arbitrary: H)
  case (Cons d drops)
  have "node \<in> drop_copy d H i" using Cons.prems by (cases d) (auto simp: drop_copy_def)
  with Cons show ?case by simp
qed simp

lemma ring_replicas:
  assumes "length (slots r) < 2 ^ 32"
  shows "replicas r i n \<noteq> None"
  using replicas_ok [OF _ assms, of n i] by (cases "slots r = [] \<or> n = 0") (auto simp: replicas_def)

lemma reroute_total: "(\<And>i n. replicas old i n \<noteq> None) \<Longrightarrow> reroute old fs reachable moves \<noteq> None"
proof (induction moves)
  case (Cons mv moves)
  then obtain rest where rest: "reroute old fs reachable moves = Some rest" by blast
  obtain os where "replicas old (mv_id mv) (unat (case map_of fs (mv_id mv) of Some n \<Rightarrow> n | None \<Rightarrow> 1)) = Some os"
    using Cons.prems by blast
  then show ?case using rest by (auto simp: Let_def split: option.splits)
qed simp

lemma plan_covers:
  assumes ids: "distinct (map fst ids)" "(i, n) \<in> set ids"
    and plan: "plan_moves old new ids = Some moves" "reroute old ids reachable moves = Some out"
    and sets: "replicas old i (unat n) = Some os" "replicas new i (unat n) = Some ns" "node \<in> set os \<inter> reachable"
    and d: "d \<in> set ns" "d \<notin> set os"
  shows "\<exists>s\<in>set os \<inter> reachable. \<lparr>mv_id = i, mv_source = s, mv_dest = d\<rparr> \<in> set out"
proof -
  let ?mv = "\<lparr>mv_id = i, mv_source = hd os, mv_dest = d\<rparr>"
  have os: "os \<noteq> []" using sets(3) by auto
  have "?mv \<in> set moves" by (rule plan_moves_cover [OF plan(1) ids(2) sets(1) os sets(2) d])
  moreover have "map_of ids i = Some n" using ids by simp
  ultimately have "\<exists>s\<in>set os. s \<in> reachable \<and> ?mv\<lparr>mv_source := s\<rparr> \<in> set out"
    using reroute_cover [OF plan(2), of ?mv os] sets(1,3) os by auto
  then show ?thesis by auto
qed

lemma plan_keeps_copies:
  assumes ids: "distinct (map fst ids)" "(i, n) \<in> set ids"
    and plan: "plan_drops old new ids = Some drops" "plan_moves old new ids = Some moves" "reroute old ids reachable moves = Some out"
    and sets: "replicas old i (unat n) = Some os" "replicas new i (unat n) = Some ns" "set os \<inter> reachable \<subseteq> H i" "set os \<inter> reachable \<noteq> {}"
    and d: "d \<in> set ns" "d \<in> set os \<Longrightarrow> d \<in> reachable"
  shows "d \<in> fold drop_copy drops (fold copy_move out H) i"
proof (rule drops_spare)
  show "d \<in> fold copy_move out H i"
  proof (cases "d \<in> set os")
    case True
    then show ?thesis using d sets(3) copies_grow [of H i out] by blast
  next
    case False
    obtain node where "node \<in> set os \<inter> reachable" using sets(4) by blast
    from plan_covers [OF ids plan(2,3) sets(1,2) this d(1) False]
    obtain s where "s \<in> H i" "\<lparr>mv_id = i, mv_source = s, mv_dest = d\<rparr> \<in> set out" using sets(3) by blast
    then show ?thesis using copies_done [of "\<lparr>mv_id = i, mv_source = s, mv_dest = d\<rparr>" out H] by simp
  qed
  show "(d, i) \<notin> set drops"
  proof
    assume "(d, i) \<in> set drops"
    from plan_drops_sound [OF plan(1) this] obtain m ns' where "(i, m) \<in> set ids" "replicas new i (unat m) = Some ns'" "d \<notin> set ns'" by blast
    moreover from this ids have "m = n" by (metis map_of_is_SomeI option.inject)
    ultimately show False using sets(2) d(1) by simp
  qed
qed

lemma one_member_replicas: "replicas (from_members [(n, 1)]) i 1 = Some [n]"
proof -
  have *: "slots (from_members [(n, 1)]) = [(n, ThreadId 0)]" by (simp add: slots_from_members upt_rec)
  then have "node_ids (from_members [(n, 1)]) = [n]" by (simp add: node_ids_def weights_from_members)
  then show ?thesis using replicas_ok [of "from_members [(n, 1)]" 1 i] * by (auto simp: length_Suc_conv)
qed

section \<open>Properties\<close>

text \<open>
  C14: A migration of the ring loses no copy. The plan exists for any two rings. When the reachable
  old replicas of the listed data hold them, then after the copies of the plan and the drops that
  follow every new replica of a datum that has a reachable old replica holds it, a new replica
  that was an old one and is unreachable apart.
\<close>

theorem migration_keeps_every_copy:
  assumes "length (slots old) < 2 ^ 32" "length (slots new) < 2 ^ 32" and "distinct (map fst ids)"
    and "\<And>i n os. (i, n) \<in> set ids \<Longrightarrow> replicas old i (unat n) = Some os \<Longrightarrow> set os \<inter> reachable \<subseteq> H i"
  shows "\<exists>drops moves. plan_drops old new ids = Some drops \<and>
    Option.bind (plan_moves old new ids) (reroute old ids reachable) = Some moves \<and>
    (\<forall>i n os ns. (i, n) \<in> set ids \<longrightarrow> replicas old i (unat n) = Some os \<longrightarrow> replicas new i (unat n) = Some ns \<longrightarrow>
       set os \<inter> reachable \<noteq> {} \<longrightarrow> set ns - (set os - reachable) \<subseteq> fold drop_copy drops (fold copy_move moves H) i)"
proof -
  have rs: "replicas old i n \<noteq> None" "replicas new i n \<noteq> None" for i n using ring_replicas assms(1,2) by blast+
  obtain drops moves where plan: "plan_drops old new ids = Some drops" "plan_moves old new ids = Some moves"
    using plans_total [of old new ids] rs by blast
  obtain out where out: "reroute old ids reachable moves = Some out" using reroute_total [of old] rs by blast
  have "set ns - (set os - reachable) \<subseteq> fold drop_copy drops (fold copy_move out H) i"
    if "(i, n) \<in> set ids" "replicas old i (unat n) = Some os" "replicas new i (unat n) = Some ns" "set os \<inter> reachable \<noteq> {}" for i n os ns
    using plan_keeps_copies [where H = H, OF assms(3) that(1) plan out that(2,3) assms(4) [OF that(1,2)] that(4)] by blast
  moreover have "Option.bind (plan_moves old new ids) (reroute old ids reachable) = Some out" using plan(2) out by simp
  ultimately show ?thesis using plan(1) by blast
qed

theorem migration_keeps_every_copy_witness:
  "\<exists>drops moves.
     plan_drops (from_members [(NodeId 1, 1)]) (from_members [(NodeId 2, 1)]) [(DatumId 7, 1)] = Some drops \<and>
     Option.bind (plan_moves (from_members [(NodeId 1, 1)]) (from_members [(NodeId 2, 1)]) [(DatumId 7, 1)])
       (reroute (from_members [(NodeId 1, 1)]) [(DatumId 7, 1)] {NodeId 1}) = Some moves \<and>
     NodeId 2 \<in> fold drop_copy drops (fold copy_move moves (\<lambda>_. {NodeId 1})) (DatumId 7)"
proof -
  let ?i = "DatumId 7"
  let ?old = "from_members [(NodeId 1, 1)]" and ?new = "from_members [(NodeId 2, 1)]"
  have os: "replicas ?old ?i 1 = Some [NodeId 1]" and ns: "replicas ?new ?i 1 = Some [NodeId 2]" by (rule one_member_replicas)+
  have len: "length (slots ?old) < 2 ^ 32" "length (slots ?new) < 2 ^ 32" by (simp_all add: slots_from_members upt_rec)
  obtain drops moves where "plan_drops ?old ?new [(?i, 1)] = Some drops"
      "Option.bind (plan_moves ?old ?new [(?i, 1)]) (reroute ?old [(?i, 1)] {NodeId 1}) = Some moves"
      "\<forall>i n os ns. (i, n) \<in> set [(?i, 1)] \<longrightarrow> replicas ?old i (unat n) = Some os \<longrightarrow> replicas ?new i (unat n) = Some ns \<longrightarrow>
       set os \<inter> {NodeId 1} \<noteq> {} \<longrightarrow> set ns - (set os - {NodeId 1}) \<subseteq> fold drop_copy drops (fold copy_move moves (\<lambda>_. {NodeId 1})) i"
    using migration_keeps_every_copy [OF len, of "[(?i, 1)]" "{NodeId 1}" "\<lambda>_. {NodeId 1}"] by auto
  then show ?thesis using os ns by auto
qed

end
