(* ===== verification/Migrate_Trace.thy ===== *)
theory Migrate_Trace
  imports Migrate
begin

text \<open>
  What a run of the migration driver sends. The network is the most general one, its answers
  depend on the whole history; runs of \<open>migrate\<close>, \<open>recover\<close> and \<open>resume\<close> keep to an order of
  phases, and a listing of a real storage node returns every datum.
\<close>

section \<open>Traces of a run\<close>

text \<open>
  The most general network: what a node answers depends on everything that was sent before. The
  state is the history of exchanges with their answers.
\<close>

datatype event =
    ComputeEv rstring request "response result"
  | StoreEv rstring store_request "store_response result"

record answers =
  compute_answer :: "event list \<Rightarrow> rstring \<Rightarrow> request \<Rightarrow> response result"
  store_answer :: "event list \<Rightarrow> rstring \<Rightarrow> store_request \<Rightarrow> store_response result"

definition traced :: "answers \<Rightarrow> event list nets" where
  "traced A =
     \<lparr>net_compute = (\<lambda>a req h. let r = compute_answer A h a req in (r, h @ [ComputeEv a req r])),
      net_store = (\<lambda>a req h. let r = store_answer A h a req in (r, h @ [StoreEv a req r]))\<rparr>"

text \<open>Compute nodes answer the requests of the driver themselves.\<close>

definition no_redirects :: "answers \<Rightarrow> bool" where
  "no_redirects A \<longleftrightarrow> (\<forall>h a req next. compute_answer A h a req \<noteq> Inr (Redirect next))"

text \<open>\<open>Q\<close> of the result and of what a piece of the driver adds to the history.\<close>

definition leaves :: "('a, event list) act \<Rightarrow> ('a result \<Rightarrow> event list \<Rightarrow> bool) \<Rightarrow> bool" where
  "leaves m Q \<longleftrightarrow> (\<forall>h r h'. m h = Some (r, h') \<longrightarrow> (\<exists>es. h' = h @ es \<and> Q r es))"

lemma leavesD: "leaves m Q \<Longrightarrow> m h = Some (r, h') \<Longrightarrow> \<exists>es. h' = h @ es \<and> Q r es"
  by (auto simp: leaves_def)

lemma leaves_mono: "leaves m Q \<Longrightarrow> (\<And>r es. Q r es \<Longrightarrow> Q' r es) \<Longrightarrow> leaves m Q'"
  unfolding leaves_def by blast

lemma leaves_ret: "leaves (ret r) (\<lambda>q es. q = r \<and> es = [])"
  by (simp add: leaves_def ret_def)

lemma leaves_andthen:
  assumes "leaves m Q" "\<And>x. leaves (f x) (R x)"
  shows "leaves (andthen m f) (\<lambda>r es. (\<exists>e. r = Inl e \<and> Q (Inl e) es) \<or> (\<exists>x es1 es2. es = es1 @ es2 \<and> Q (Inr x) es1 \<and> R x r es2))"
  unfolding leaves_def
proof (intro allI impI)
  fix h r h' assume run: "andthen m f h = Some (r, h')"
  then obtain q h1 where m: "m h = Some (q, h1)" by (auto simp: andthen_def bind_eq_Some_conv)
  obtain es1 where es1: "h1 = h @ es1" "Q q es1" using leavesD [OF assms(1) m] by blast
  show "\<exists>es. h' = h @ es \<and> ((\<exists>e. r = Inl e \<and> Q (Inl e) es) \<or> (\<exists>x es1 es2. es = es1 @ es2 \<and> Q (Inr x) es1 \<and> R x r es2))"
  proof (cases q)
    case (Inl e)
    then show ?thesis using run m es1 by (intro exI [of _ es1]) (auto simp: andthen_def)
  next
    case (Inr x)
    then have "f x h1 = Some (r, h')" using run m by (simp add: andthen_def)
    then obtain es2 where "h' = h1 @ es2" "R x r es2" using leavesD [OF assms(2)] by blast
    then show ?thesis using es1 Inr by (intro exI [of _ "es1 @ es2"]) auto
  qed
qed

lemma leaves_attempting:
  assumes "leaves m Q" "\<And>x. leaves (f x) (R x)"
  shows "leaves (attempting m f) (\<lambda>r es. \<exists>q es1 es2. es = es1 @ es2 \<and> Q q es1 \<and> R q r es2)"
  using assms unfolding leaves_def attempting_def by (fastforce simp: bind_eq_Some_conv)

lemma leaves_planned: "(\<And>y. x = Some y \<Longrightarrow> leaves (f y) Q) \<Longrightarrow> leaves (planned x f) Q"
  by (auto simp: leaves_def planned_def bind_eq_Some_conv)

text \<open>Pieces that only send events of a kind.\<close>

abbreviation only :: "(event \<Rightarrow> bool) \<Rightarrow> 'a result \<Rightarrow> event list \<Rightarrow> bool" where
  "only P \<equiv> (\<lambda>r es. list_all P es)"

lemma only_andthen: "leaves m (only P) \<Longrightarrow> (\<And>x. leaves (f x) (only P)) \<Longrightarrow> leaves (andthen m f) (only P)"
  by (rule leaves_mono [OF leaves_andthen]) auto

lemma only_attempting: "leaves m (only P) \<Longrightarrow> (\<And>x. leaves (f x) (only P)) \<Longrightarrow> leaves (attempting m f) (only P)"
  by (rule leaves_mono [OF leaves_attempting]) auto

lemma only_ret: "leaves (ret r) (only P)"
  by (rule leaves_mono [OF leaves_ret]) auto

lemma only_each: "(\<And>x. x \<in> set xs \<Longrightarrow> leaves (f x) (only P)) \<Longrightarrow> leaves (for_each xs f) (only P)"
  by (induction xs) (auto intro!: only_andthen only_ret)

lemma leaves_store: "leaves (store (traced A) a req) (\<lambda>r es. es = [StoreEv a req r])"
  by (auto simp: leaves_def store_def traced_def Let_def)

lemma leaves_compute:
  assumes "no_redirects A"
  shows "leaves (compute (traced A) a req) (\<lambda>r es. es = [ComputeEv a req r])"
  unfolding leaves_def
proof (intro allI impI)
  fix h r h' assume run: "compute (traced A) a req h = Some (r, h')"
  have "compute_answer A h a req \<noteq> Inr (Redirect target)" for target using assms by (simp add: no_redirects_def)
  then have "client_call (net_compute (traced A)) a req h = (compute_answer A h a req, h @ [ComputeEv a req (compute_answer A h a req)])"
    by (auto simp: client_call_def MAX_REDIRECTS_def traced_def Let_def eval_nat_numeral split: sum.splits response.splits)
  then show "\<exists>es. h' = h @ es \<and> es = [ComputeEv a req r]" using run by (auto simp: compute_def)
qed

text \<open>An expected acknowledgement that returns is in the history.\<close>

lemma leaves_expect_ack:
  assumes "no_redirects A"
  shows "leaves (expect_ack (traced A) a req) (\<lambda>r es. \<exists>q. es = [ComputeEv a req q] \<and> (r = Inr () \<longrightarrow> q = Inr Ack))"
  unfolding expect_ack_def
  by (rule leaves_mono [OF leaves_andthen [OF leaves_compute [OF assms], where R = "\<lambda>x r es. es = [] \<and> (r = Inr () \<longrightarrow> x = Ack)"]])
    (auto simp: leaves_def ret_def)

lemma leaves_expect_store_ack:
  "leaves (expect_store_ack (traced A) a req) (\<lambda>r es. \<exists>q. es = [StoreEv a req q] \<and> (r = Inr () \<longrightarrow> q = Inr SAck))"
  unfolding expect_store_ack_def
  by (rule leaves_mono [OF leaves_andthen [OF leaves_store, where R = "\<lambda>x r es. es = [] \<and> (r = Inr () \<longrightarrow> x = SAck)"]])
    (auto simp: leaves_def ret_def)

lemma leaves_each_acked:
  assumes "\<And>x. x \<in> set xs \<Longrightarrow> leaves (f x) (\<lambda>r es. list_all P es \<and> (r = Inr () \<longrightarrow> E x \<in> set es))"
  shows "leaves (for_each xs f) (\<lambda>r es. list_all P es \<and> (r = Inr () \<longrightarrow> E ` set xs \<subseteq> set es))"
  using assms
proof (induction xs)
  case (Cons x xs)
  show ?case unfolding for_each.simps
    by (rule leaves_mono [OF leaves_andthen, OF Cons.prems [of x] Cons.IH]) (use Cons.prems in auto)
qed (auto simp: leaves_def ret_def)

section \<open>The order of a run's events\<close>

fun is_read :: "event \<Rightarrow> bool" where
  "is_read (ComputeEv a GetClusterConfig r) \<longleftrightarrow> True"
| "is_read (StoreEv a SIdentify r) \<longleftrightarrow> True"
| "is_read (StoreEv a (SListIds after limit) r) \<longleftrightarrow> True"
| "is_read e \<longleftrightarrow> False"

fun is_copy :: "event \<Rightarrow> bool" where
  "is_copy (StoreEv a (STransfer tid ids d) r) \<longleftrightarrow> True"
| "is_copy (StoreEv a (STransferStatus tid) r) \<longleftrightarrow> True"
| "is_copy e \<longleftrightarrow> False"

fun is_pause :: "event \<Rightarrow> bool" where
  "is_pause (ComputeEv a (Pause m) r) \<longleftrightarrow> True" | "is_pause e \<longleftrightarrow> False"

fun is_finish :: "event \<Rightarrow> bool" where
  "is_finish (StoreEv a (SFinishTransfer tid) r) \<longleftrightarrow> True" | "is_finish e \<longleftrightarrow> False"

fun is_install :: "storage_member list \<Rightarrow> event \<Rightarrow> bool" where
  "is_install ms (ComputeEv a (InstallStorageRing ns) r) \<longleftrightarrow> ns = ms" | "is_install ms e \<longleftrightarrow> False"

fun is_resume :: "event \<Rightarrow> bool" where
  "is_resume (ComputeEv a Resume r) \<longleftrightarrow> True" | "is_resume e \<longleftrightarrow> False"

fun is_delete :: "event \<Rightarrow> bool" where
  "is_delete (StoreEv a (SDelete i) r) \<longleftrightarrow> True" | "is_delete e \<longleftrightarrow> False"

fun is_clear :: "event \<Rightarrow> bool" where
  "is_clear (ComputeEv a ClearHalt r) \<longleftrightarrow> True" | "is_clear e \<longleftrightarrow> False"

lemma list_loop_reads: "leaves (list_loop (traced A) a after ids) (only is_read)"
  unfolding leaves_def
proof (intro allI impI)
  fix h r h' assume ran: "list_loop (traced A) a after ids h = Some (r, h')"
  have "traced A = traced A \<longrightarrow> (\<exists>es. snd (r, h') = h @ es \<and> list_all is_read es)"
  proof (rule list_loop.raw_induct [where P = "\<lambda>N a after ids h y. N = traced A \<longrightarrow> (\<exists>es. snd y = h @ es \<and> list_all is_read es)", OF _ ran], intro impI)
    fix loop N a after ids h y
    assume IH: "\<And>N a after ids h y. loop N a after ids h = Some y \<Longrightarrow> N = traced A \<longrightarrow> (\<exists>es. snd y = h @ es \<and> list_all is_read es)"
      and run: "(case net_store N a (SListIds after PAGE) h of
          (Inl e, w') \<Rightarrow> Some (Inl e, w')
        | (Inr (SIdList page done), w') \<Rightarrow>
            if done \<or> page = [] then Some (Inr (ids @ page), w') else loop N a (Some (fst (last page))) (ids @ page) w'
        | (Inr _, w') \<Rightarrow> Some (Inl (Bail ''ListIds at {store_addr} got {other:?}'' []), w')) = Some y"
      and N: "N = traced A"
    let ?q = "store_answer A h a (SListIds after PAGE)"
    let ?h = "h @ [StoreEv a (SListIds after PAGE) ?q]"
    show "\<exists>es. snd y = h @ es \<and> list_all is_read es"
    proof (cases "\<exists>page. ?q = Inr (SIdList page False) \<and> page \<noteq> []")
      case True
      then obtain page where "?q = Inr (SIdList page False)" "page \<noteq> []" by blast
      then have "loop N a (Some (fst (last page))) (ids @ page) ?h = Some y" using run by (simp add: N traced_def Let_def)
      from IH [OF this] N show ?thesis by auto
    next
      case False
      then have "snd y = ?h" using run by (auto simp: N traced_def Let_def split: sum.splits store_response.splits if_splits)
      then show ?thesis by simp
    qed
  qed
  then show "\<exists>es. h' = h @ es \<and> only is_read r es" by simp
qed

lemma poll_loop_copies: "leaves (poll_loop (traced A) a tid) (only is_copy)" "leaves (poll_loop (traced A) a tid) (\<lambda>r es. \<forall>e\<in>set es. \<exists>q. e = StoreEv a (STransferStatus tid) q)"
proof -
  show polls: "leaves (poll_loop (traced A) a tid) (\<lambda>r es. \<forall>e\<in>set es. \<exists>q. e = StoreEv a (STransferStatus tid) q)"
    unfolding leaves_def
  proof (intro allI impI)
    fix h r h' assume ran: "poll_loop (traced A) a tid h = Some (r, h')"
    have "traced A = traced A \<longrightarrow> (\<exists>es. snd (r, h') = h @ es \<and> (\<forall>e\<in>set es. \<exists>q. e = StoreEv a (STransferStatus tid) q))"
    proof (rule poll_loop.raw_induct [where P = "\<lambda>N a tid h y. N = traced A \<longrightarrow>
        (\<exists>es. snd y = h @ es \<and> (\<forall>e\<in>set es. \<exists>q. e = StoreEv a (STransferStatus tid) q))", OF _ ran], intro impI)
      fix loop N a tid h y
      assume IH: "\<And>N a tid h y. loop N a tid h = Some y \<Longrightarrow> N = traced A \<longrightarrow>
          (\<exists>es. snd y = h @ es \<and> (\<forall>e\<in>set es. \<exists>q. e = StoreEv a (STransferStatus tid) q))"
        and run: "(case net_store N a (STransferStatus tid) h of
            (Inl e, w') \<Rightarrow> Some (Inl e, w')
          | (Inr (STransferProgress copied dirty done), w') \<Rightarrow> if done then Some (Inr (), w') else loop N a tid w'
          | (Inr _, w') \<Rightarrow> Some (Inl (Bail ''TransferStatus at {source_addr} got {other:?}'' []), w')) = Some y"
        and N: "N = traced A"
      let ?q = "store_answer A h a (STransferStatus tid)"
      let ?h = "h @ [StoreEv a (STransferStatus tid) ?q]"
      show "\<exists>es. snd y = h @ es \<and> (\<forall>e\<in>set es. \<exists>q. e = StoreEv a (STransferStatus tid) q)"
      proof (cases "\<exists>x z. ?q = Inr (STransferProgress x z False)")
        case True
        then have "loop N a tid ?h = Some y" using run by (auto simp: N traced_def Let_def)
        from IH [OF this] N show ?thesis by auto
      next
        case False
        then have "snd y = ?h" using run by (auto simp: N traced_def Let_def split: sum.splits store_response.splits if_splits)
        then show ?thesis by simp
      qed
    qed
    then show "\<exists>es. h' = h @ es \<and> (\<forall>e\<in>set es. \<exists>q. e = StoreEv a (STransferStatus tid) q)" by simp
  qed
  show "leaves (poll_loop (traced A) a tid) (only is_copy)"
    by (rule leaves_mono [OF polls]) (auto simp: list_all_iff)
qed

text \<open>The copies started by a bulk copy that returns are the ones it returns.\<close>

definition started :: "event list \<Rightarrow> (rstring \<times> datum_id) set" where
  "started es = {(a, tid). \<exists>ids d q. StoreEv a (STransfer tid ids d) q \<in> set es}"

lemma started_append [simp]: "started (es @ fs) = started es \<union> started fs"
  by (auto simp: started_def)

lemma started_cons: "started [] = {}" "started (StoreEv a req q # es) = (case req of STransfer tid _ _ \<Rightarrow> {(a, tid)} | _ \<Rightarrow> {}) \<union> started es"
  by (auto simp: started_def split: store_request.splits)

lemma started_none: "list_all P es \<Longrightarrow> (\<And>a tid ids d q. \<not> P (StoreEv a (STransfer tid ids d) q)) \<Longrightarrow> started es = {}"
  by (auto simp: started_def list_all_iff)

lemma bulk_copy_leaves:
  "leaves (bulk_copy (traced A) ca pa new_id pairs k) (\<lambda>r es. list_all is_copy es \<and> (\<forall>ts. r = Inr ts \<longrightarrow> started es \<subseteq> set ts))"
proof (induction pairs arbitrary: k)
  case Nil
  show ?case by (auto simp: leaves_def ret_def started_def)
next
  case (Cons x pairs)
  obtain source dest ids where x: "x = ((source, dest), ids)" by (metis prod.exhaust)
  show ?case
  proof (cases "ca source = None \<or> pa dest = None")
    case True
    then show ?thesis by (auto simp: x leaves_def ret_def split: option.splits)
  next
    case False
    then obtain sa da where sd: "ca source = Some sa" "pa dest = Some da" by auto
    let ?N = "traced A" and ?t = "new_id k"
    have tail: "leaves (andthen (bulk_copy ?N ca pa new_id pairs (Suc k)) (\<lambda>rest. ret (Inr ((sa, ?t) # rest))))
        (\<lambda>r es. list_all is_copy es \<and> (\<forall>ts. r = Inr ts \<longrightarrow> started es \<subseteq> set ts \<and> (sa, ?t) \<in> set ts))"
      by (rule leaves_mono [OF leaves_andthen, OF Cons.IH leaves_ret]) auto
    have poll: "leaves (poll_loop ?N sa ?t) (\<lambda>r es. list_all is_copy es \<and> started es = {})"
      by (rule leaves_mono [OF poll_loop_copies(2)]) (auto simp: started_def list_all_iff)
    have rest: "leaves (andthen (poll_loop ?N sa ?t) (\<lambda>_. andthen (bulk_copy ?N ca pa new_id pairs (Suc k)) (\<lambda>rest. ret (Inr ((sa, ?t) # rest)))))
        (\<lambda>r es. list_all is_copy es \<and> (\<forall>ts. r = Inr ts \<longrightarrow> started es \<subseteq> set ts \<and> (sa, ?t) \<in> set ts))"
      by (rule leaves_mono [OF leaves_andthen, OF poll tail]) auto
    show ?thesis unfolding x bulk_copy.simps sd option.case
      by (rule leaves_mono [OF leaves_andthen, OF leaves_expect_store_ack rest]) (auto simp: started_cons)
  qed
qed

lemma reclaim_leaves: "leaves (reclaim (traced A) ca drops) (only is_delete)"
proof (induction drops)
  case (Cons d drops)
  obtain node i where d: "d = (node, i)" by force
  show ?case
  proof (cases "ca node")
    case (Some addr)
    have "leaves (store (traced A) addr (SDelete i)) (only is_delete)" by (rule leaves_mono [OF leaves_store]) simp
    then show ?thesis by (simp add: d Some only_attempting [OF _ Cons])
  qed (simp add: d Cons)
qed (simp add: only_ret)


lemma get_cluster_config_leaves:
  "no_redirects A \<Longrightarrow> leaves (get_cluster_config (traced A) a)
     (\<lambda>r es. list_all is_read es \<and> (\<forall>ms. r = Inr ms \<longrightarrow> ComputeEv a GetClusterConfig (Inr (ClusterConfig ms)) \<in> set es))"
  unfolding get_cluster_config_def
  by (rule leaves_mono [OF leaves_andthen [OF leaves_compute, where R = "\<lambda>x r es. es = [] \<and> (\<forall>ms. r = Inr ms \<longrightarrow> x = ClusterConfig ms)"]])
    (auto simp: leaves_def ret_def split: response.splits)

abbreviation identity_event :: "rstring \<Rightarrow> node_id \<Rightarrow> datum_id \<Rightarrow> event" where
  "identity_event a nid lid \<equiv> StoreEv a SIdentify (Inr (SIdentity nid lid))"

lemma identify_leaves:
  "leaves (in_context msg (identify (traced A) a)) (\<lambda>r es. list_all is_read es \<and> (\<forall>nid lid. r = Inr (nid, lid) \<longrightarrow> identity_event a nid lid \<in> set es))"
  "leaves (identify (traced A) a) (only is_read)"
proof -
  have here: "leaves (identify (traced A) a) (\<lambda>r es. list_all is_read es \<and> (\<forall>nid lid. r = Inr (nid, lid) \<longrightarrow> identity_event a nid lid \<in> set es))"
    unfolding identify_def
    by (rule leaves_mono [OF leaves_andthen [OF leaves_store, where R = "\<lambda>x r es. es = [] \<and> (\<forall>nid lid. r = Inr (nid, lid) \<longrightarrow> x = SIdentity nid lid)"]])
      (auto simp: leaves_def ret_def split: store_response.splits)
  show "leaves (identify (traced A) a) (only is_read)" by (rule leaves_mono [OF here]) simp
  show "leaves (in_context msg (identify (traced A) a)) (\<lambda>r es. list_all is_read es \<and> (\<forall>nid lid. r = Inr (nid, lid) \<longrightarrow> identity_event a nid lid \<in> set es))"
    using here unfolding leaves_def in_context_def by fastforce
qed

definition identified :: "storage_member list \<Rightarrow> event list \<Rightarrow> bool" where
  "identified ms h \<longleftrightarrow> (\<forall>m\<in>set ms. identity_event (sm_store_address m) (sm_node_id m) (sm_log_id m) \<in> set h)"

lemma identified_cons [simp]: "identified [] h" "identified (m # ms) h \<longleftrightarrow> identity_event (sm_store_address m) (sm_node_id m) (sm_log_id m) \<in> set h \<and> identified ms h"
  by (auto simp: identified_def)

lemma identified_mono: "identified ms h \<Longrightarrow> set h \<subseteq> set h' \<Longrightarrow> identified ms h'"
  by (auto simp: identified_def)

lemma verify_members_leaves:
  "leaves (verify_members (traced A) ms) (\<lambda>r es. list_all is_read es \<and> (r = Inr () \<longrightarrow> identified ms es))"
proof (induction ms)
  case (Cons m ms)
  have rest: "leaves (case x of (nid, lid) \<Rightarrow> if nid \<noteq> sm_node_id m \<or> lid \<noteq> sm_log_id m
       then ret (Inl (Bail ''impostor detected: storage node at {} reports {node_id:?}/{log_id:?}'' []))
       else verify_members (traced A) ms)
      (\<lambda>r es. list_all is_read es \<and> (r = Inr () \<longrightarrow> x = (sm_node_id m, sm_log_id m) \<and> identified ms es))" for x
    by (cases x) (auto intro: leaves_mono [OF Cons] leaves_mono [OF leaves_ret])
  show ?case unfolding verify_members.simps
    by (rule leaves_mono [OF leaves_andthen, OF identify_leaves(1) rest]) (auto elim!: identified_mono)
qed (simp add: leaves_def ret_def)

lemma resolve_leaves:
  "leaves (resolve (traced A) ms) (\<lambda>r es. list_all is_read es \<and> (\<forall>rs. r = Inr rs \<longrightarrow> identified rs es))"
proof (induction ms)
  case (Cons m ms)
  have rest: "leaves (case x of (nid, lid) \<Rightarrow> if nid \<noteq> sm_node_id m
       then ret (Inl (Bail ''proposed node at {} reports id {node_id:?}, expected {:?}'' []))
       else andthen (resolve (traced A) ms) (\<lambda>rest. ret (Inr (m\<lparr>sm_log_id := lid\<rparr> # rest))))
      (\<lambda>r es. list_all is_read es \<and> (\<forall>rs. r = Inr rs \<longrightarrow> (\<exists>rest lid. x = (sm_node_id m, lid) \<and> rs = m\<lparr>sm_log_id := lid\<rparr> # rest \<and> identified rest es)))" for x
    by (cases x) (auto intro!: leaves_mono [OF leaves_andthen, OF Cons leaves_ret] leaves_mono [OF leaves_ret])
  show ?case unfolding resolve.simps
    by (rule leaves_mono [OF leaves_andthen, OF identify_leaves(1) rest]) (auto elim!: identified_mono)
qed (simp add: leaves_def ret_def)

lemma enumerate_ids_reads: "leaves (enumerate_ids (traced A) ms acc) (only is_read)"
proof (induction ms arbitrary: acc)
  case (Cons m ms)
  show ?case unfolding enumerate_ids.simps list_all_ids_def by (rule only_attempting [OF list_loop_reads Cons])
qed (simp add: only_ret)

lemma survivors_of_reads: "leaves (survivors_of (traced A) ms) (only is_read)"
  by (induction ms) (auto intro!: only_attempting only_andthen only_ret identify_leaves(2))


section \<open>Phases\<close>

text \<open>
  A phase sends events of one kind, and the next one starts only when its goal is reached by what
  was sent so far.
\<close>

type_synonym phase = "(event \<Rightarrow> bool) \<times> (event list \<Rightarrow> bool)"

fun in_phases :: "phase list \<Rightarrow> event list \<Rightarrow> event list \<Rightarrow> bool" where
  "in_phases [] h es \<longleftrightarrow> es = []"
| "in_phases ((kind, goal) # ps) h es \<longleftrightarrow>
     (\<exists>es1 es2. es = es1 @ es2 \<and> list_all kind es1 \<and> (es2 = [] \<or> goal (h @ es1) \<and> in_phases ps (h @ es1) es2))"

lemma in_phases_none [simp]: "ps \<noteq> [] \<Longrightarrow> in_phases ps h []"
  by (cases ps) auto

lemma in_phases_only: "list_all kind es \<Longrightarrow> in_phases ((kind, goal) # ps) h es"
  by (simp, rule exI [of _ es], simp)

lemma in_phases_more: "list_all kind g \<Longrightarrow> in_phases ((kind, goal) # ps) (h @ g) es \<Longrightarrow> in_phases ((kind, goal) # ps) h (g @ es)"
  by (simp only: in_phases.simps append.assoc) (metis append.assoc list_all_append)

text \<open>A piece of the driver that keeps to the phases, started with a history that satisfies \<open>P\<close>.\<close>

definition keeps_to :: "(event list \<Rightarrow> bool) \<Rightarrow> ('a, event list) act \<Rightarrow> phase list \<Rightarrow> bool" where
  "keeps_to P m ps \<longleftrightarrow> (\<forall>h r h'. P h \<longrightarrow> m h = Some (r, h') \<longrightarrow> (\<exists>es. h' = h @ es \<and> in_phases ps h es))"

lemma keeps_to_last: "leaves m (only kind) \<Longrightarrow> keeps_to P m [(kind, goal)]"
  unfolding keeps_to_def leaves_def by (metis in_phases_only)

lemma keeps_to_first:
  assumes "leaves m (\<lambda>r es. list_all kind es \<and> (\<forall>x. r = Inr x \<longrightarrow> Q x es))" "ps \<noteq> []"
    and "\<And>x. keeps_to (\<lambda>h. \<exists>g es. h = g @ es \<and> P g \<and> list_all kind es \<and> Q x es) (f x) ps"
    and "\<And>x g es. P g \<Longrightarrow> list_all kind es \<Longrightarrow> Q x es \<Longrightarrow> goal (g @ es)"
  shows "keeps_to P (andthen m f) ((kind, goal) # ps)"
  unfolding keeps_to_def
proof (intro allI impI)
  fix h r h' assume P: "P h" and run: "andthen m f h = Some (r, h')"
  obtain q h1 where m: "m h = Some (q, h1)" using run by (auto simp: andthen_def bind_eq_Some_conv)
  obtain es1 where es1: "h1 = h @ es1" "list_all kind es1" "\<forall>x. q = Inr x \<longrightarrow> Q x es1" using leavesD [OF assms(1) m] by blast
  show "\<exists>es. h' = h @ es \<and> in_phases ((kind, goal) # ps) h es"
  proof (cases q)
    case (Inl e)
    then have "h' = h @ es1" using run m es1(1) by (simp add: andthen_def)
    then show ?thesis using in_phases_only [OF es1(2)] by blast
  next
    case (Inr x)
    then have "f x h1 = Some (r, h')" using run m by (simp add: andthen_def)
    moreover have "\<exists>g es. h1 = g @ es \<and> P g \<and> list_all kind es \<and> Q x es" using P es1 Inr by blast
    ultimately obtain es2 where es2: "h' = h1 @ es2" "in_phases ps h1 es2" using assms(3) [of x] unfolding keeps_to_def by blast
    have "goal (h @ es1)" using assms(4) P es1 Inr by blast
    then show ?thesis using es1 es2 by (intro exI [of _ "es1 @ es2"]) auto
  qed
qed

lemma keeps_to_pre: "keeps_to Q m ps \<Longrightarrow> (\<And>h. P h \<Longrightarrow> Q h) \<Longrightarrow> keeps_to P m ps"
  unfolding keeps_to_def by blast

definition acked :: "rstring list \<Rightarrow> request \<Rightarrow> event list \<Rightarrow> bool" where
  "acked addrs req h \<longleftrightarrow> (\<forall>a\<in>set addrs. ComputeEv a req (Inr Ack) \<in> set h)"

definition tails_acked :: "event list \<Rightarrow> bool" where
  "tails_acked h \<longleftrightarrow> (\<forall>(a, tid)\<in>started h. StoreEv a (SFinishTransfer tid) (Inr SAck) \<in> set h)"

text \<open>The phases of a migration to the members \<open>ms\<close>.\<close>

definition change_phases :: "rstring list \<Rightarrow> storage_member list \<Rightarrow> phase list" where
  "change_phases addrs ms =
     [(is_copy, \<lambda>h. True),
      (is_pause, acked addrs (Pause (lit ''migrating''))),
      (is_finish, tails_acked),
      (is_install ms, acked addrs (InstallStorageRing ms)),
      (is_resume, acked addrs Resume),
      (is_delete, \<lambda>h. True)]"

lemma acked_each:
  assumes "no_redirects A" "\<And>a r. kind (ComputeEv a req r)"
  shows "leaves (for_each addrs (\<lambda>a. expect_ack (traced A) a req)) (\<lambda>r es. list_all kind es \<and> (\<forall>x. r = Inr x \<longrightarrow> acked addrs req es))"
  by (rule leaves_mono [OF leaves_each_acked [where E = "\<lambda>a. ComputeEv a req (Inr Ack)"], of _ _ kind])
    (auto intro!: leaves_mono [OF leaves_expect_ack [OF assms(1)]] simp: assms(2) acked_def)

lemma finished_each:
  "leaves (for_each ts (\<lambda>(a, tid). expect_store_ack (traced A) a (SFinishTransfer tid)))
     (\<lambda>r es. list_all is_finish es \<and> (\<forall>x. r = Inr x \<longrightarrow> (\<forall>(a, tid)\<in>set ts. StoreEv a (SFinishTransfer tid) (Inr SAck) \<in> set es)))"
  by (rule leaves_mono [OF leaves_each_acked [where E = "\<lambda>(a, tid). StoreEv a (SFinishTransfer tid) (Inr SAck)"], of _ _ is_finish])
    (auto intro!: leaves_mono [OF leaves_expect_store_ack])

lemma tails_acked_run:
  assumes "started g = {}" "list_all is_copy cs" "started cs \<subseteq> set ts" "list_all is_pause ps" "list_all is_finish fs"
    and "\<forall>(a, tid)\<in>set ts. StoreEv a (SFinishTransfer tid) (Inr SAck) \<in> set fs"
  shows "tails_acked (g @ cs @ ps @ fs)"
proof -
  have "started ps = {}" "started fs = {}" using started_none [OF assms(4)] started_none [OF assms(5)] by auto
  then show ?thesis using assms(1,3,6) by (auto simp: tails_acked_def)
qed

lemma execute_phases:
  assumes A: "no_redirects A"
  shows "keeps_to (\<lambda>h. started h = {}) (execute (traced A) addrs ca pa ms new_id by_pair drops) (change_phases addrs ms)"
  unfolding execute_def change_phases_def
  apply (rule keeps_to_first [OF bulk_copy_leaves], simp_all)
  apply (rule keeps_to_first [OF acked_each [OF A]], simp_all)
   apply (rule keeps_to_first [OF finished_each], simp_all)
    apply (rule keeps_to_first [OF acked_each [OF A]], simp_all)
     apply (rule keeps_to_first [OF acked_each [OF A]], simp_all)
      apply (rule keeps_to_last [OF reclaim_leaves])
  apply (auto simp: acked_def)
  apply (rule tails_acked_run, assumption+)
  done

text \<open>A part of a migration that starts after reads only.\<close>

definition migration_phases :: "bool \<Rightarrow> rstring list \<Rightarrow> storage_member list \<Rightarrow> phase list" where
  "migration_phases apply addrs ms = (is_read, identified ms) # (if apply then change_phases addrs ms else [])"

definition migrates :: "bool \<Rightarrow> rstring list \<Rightarrow> (event list \<Rightarrow> bool) \<Rightarrow> ('a, event list) act \<Rightarrow> bool" where
  "migrates apply addrs P m \<longleftrightarrow>
     (\<forall>h r h'. list_all is_read h \<longrightarrow> P h \<longrightarrow> m h = Some (r, h') \<longrightarrow> (\<exists>ms. in_phases (migration_phases apply addrs ms) [] h'))"

lemma reads_in_phases: "list_all is_read h \<Longrightarrow> in_phases (migration_phases apply addrs ms) [] h"
  unfolding migration_phases_def by (rule in_phases_only)

lemma migrates_ret: "migrates apply addrs P (ret r)"
  by (auto simp: migrates_def ret_def intro: reads_in_phases)

lemma migrates_after:
  assumes "leaves m (\<lambda>r es. list_all is_read es \<and> (\<forall>x. r = Inr x \<longrightarrow> Q x es))"
    and "\<And>x. migrates apply addrs (\<lambda>h. \<exists>g es. h = g @ es \<and> P g \<and> Q x es) (f x)"
  shows "migrates apply addrs P (andthen m f)"
  unfolding migrates_def
proof (intro allI impI)
  fix h r h' assume h: "list_all is_read h" "P h" and run: "andthen m f h = Some (r, h')"
  obtain q h1 where m: "m h = Some (q, h1)" using run by (auto simp: andthen_def bind_eq_Some_conv)
  obtain es where es: "h1 = h @ es" "list_all is_read es" "\<forall>x. q = Inr x \<longrightarrow> Q x es" using leavesD [OF assms(1) m] by blast
  show "\<exists>ms. in_phases (migration_phases apply addrs ms) [] h'"
  proof (cases q)
    case (Inl e)
    then have "h' = h1" using run m by (simp add: andthen_def)
    then show ?thesis using h es by (intro exI reads_in_phases) simp
  next
    case (Inr x)
    then have "f x h1 = Some (r, h')" using run m by (simp add: andthen_def)
    moreover have "\<exists>g es. h1 = g @ es \<and> P g \<and> Q x es" using h es Inr by blast
    moreover have "list_all is_read h1" using h es by simp
    ultimately show ?thesis using assms(2) [of x] unfolding migrates_def by blast
  qed
qed

lemma migrates_planned: "(\<And>y. migrates apply addrs P (f y)) \<Longrightarrow> migrates apply addrs P (planned x f)"
  by (auto simp: migrates_def planned_def bind_eq_Some_conv)

lemma andthen_ret_run: "andthen m (\<lambda>_. ret q) h = Some (r, h') \<Longrightarrow> \<exists>r'. m h = Some (r', h')"
  by (cases "m h") (auto simp: andthen_def ret_def split: prod.splits sum.splits)

lemma migrates_execute:
  assumes A: "no_redirects A" and ms: "\<And>h. P h \<Longrightarrow> identified ms h"
  shows "migrates True addrs P (andthen (execute (traced A) addrs ca pa ms new_id by_pair drops) (\<lambda>_. ret q))"
  unfolding migrates_def
proof (intro allI impI)
  fix h r h' assume h: "list_all is_read h" "P h"
    and run: "andthen (execute (traced A) addrs ca pa ms new_id by_pair drops) (\<lambda>_. ret q) h = Some (r, h')"
  obtain r' where x: "execute (traced A) addrs ca pa ms new_id by_pair drops h = Some (r', h')"
    using andthen_ret_run [OF run] by blast
  have "started h = {}" by (rule started_none [OF h(1)]) simp
  then obtain es where "h' = h @ es" "in_phases (change_phases addrs ms) h es"
    using execute_phases [OF A] x unfolding keeps_to_def by blast
  then have "in_phases (migration_phases True addrs ms) [] h'" using h ms [OF h(2)] by (auto simp: migration_phases_def)
  then show "\<exists>ms. in_phases (migration_phases True addrs ms) [] h'" by blast
qed

lemma migrate_phases:
  assumes A: "no_redirects A"
  shows "migrates apply addrs P (migrate (traced A) new_id addrs proposed apply)"
  unfolding migrate_def
  apply (cases "addrs = []")
   apply (simp add: migrates_ret)
  apply (simp only: if_False)
  apply (rule migrates_after [OF get_cluster_config_leaves [OF A]])
  apply (rule migrates_after [OF resolve_leaves])
  apply (rule migrates_after [where Q = "\<lambda>_ _. True"])
   apply (simp add: enumerate_ids_reads)
  apply (simp add: case_prod_unfold Let_def)
  apply (intro migrates_planned)
  apply (cases "apply")
  apply (auto simp: migrates_ret intro!: migrates_execute [OF A] elim: identified_mono)
  done

lemma migratesD: "migrates apply addrs (\<lambda>_. True) m \<Longrightarrow> m [] = Some (r, es) \<Longrightarrow> \<exists>ms. in_phases (migration_phases apply addrs ms) [] es"
  unfolding migrates_def by (metis list.pred_inject(1))

lemma recover_phases:
  assumes A: "no_redirects A"
  shows "migrates apply addrs P (recover (traced A) new_id addrs apply)"
  unfolding recover_def
  apply (cases "addrs = []")
   apply (simp add: migrates_ret)
  apply (simp only: if_False)
  apply (rule migrates_after [OF get_cluster_config_leaves [OF A]])
  apply (rule migrates_after [where Q = "\<lambda>_ _. True"])
   apply (simp add: survivors_of_reads)
  apply (auto simp: migrates_ret migrate_phases [OF A])
  done

lemma resume_phases:
  assumes A: "no_redirects A" and run: "resume_cluster (traced A) addrs [] = Some (r, es)"
  shows "\<exists>ms. in_phases [(is_read, \<lambda>h. ComputeEv (hd addrs) GetClusterConfig (Inr (ClusterConfig ms)) \<in> set h \<and> identified ms h), (is_clear, \<lambda>h. True)] [] es"
proof (cases "addrs = []")
  case True
  then have "es = []" using run by (simp add: resume_cluster_def ret_def)
  then show ?thesis by simp
next
  case False
  let ?rest = "\<lambda>ms. andthen (verify_members (traced A) ms) (\<lambda>_. for_each addrs (\<lambda>a. expect_ack (traced A) a ClearHalt))"
  have "\<exists>q h1. get_cluster_config (traced A) (hd addrs) [] = Some (q, h1)"
    using run False by (auto simp: resume_cluster_def andthen_def bind_eq_Some_conv)
  then obtain q h1 where cfg: "get_cluster_config (traced A) (hd addrs) [] = Some (q, h1)" by blast
  have h1: "list_all is_read h1" "\<And>ms. q = Inr ms \<Longrightarrow> ComputeEv (hd addrs) GetClusterConfig (Inr (ClusterConfig ms)) \<in> set h1"
    using leavesD [OF get_cluster_config_leaves [OF A] cfg] by auto
  show ?thesis
  proof (cases q)
    case (Inl e)
    then have "es = h1" using run cfg False by (simp add: resume_cluster_def andthen_def)
    then show ?thesis using h1(1) by (intro exI in_phases_only) simp
  next
    case (Inr ms)
    let ?goal = "\<lambda>h. ComputeEv (hd addrs) GetClusterConfig (Inr (ClusterConfig ms)) \<in> set h \<and> identified ms h"
    have "keeps_to (\<lambda>h. h = h1) (?rest ms) [(is_read, ?goal), (is_clear, \<lambda>h. True)]"
    proof (rule keeps_to_first)
      show "leaves (verify_members (traced A) ms) (\<lambda>r es. list_all is_read es \<and> (\<forall>x. r = Inr x \<longrightarrow> identified ms es))"
        by (rule leaves_mono [OF verify_members_leaves]) auto
      show "keeps_to (\<lambda>h. \<exists>g es. h = g @ es \<and> g = h1 \<and> list_all is_read es \<and> identified ms es)
          (for_each addrs (\<lambda>a. expect_ack (traced A) a ClearHalt)) [(is_clear, \<lambda>h. True)]" for x
        by (rule keeps_to_last [OF leaves_mono [OF acked_each [OF A, of is_clear]]]) auto
    qed (use h1 Inr in \<open>auto elim: identified_mono\<close>)
    moreover have "?rest ms h1 = Some (r, es)" using run cfg Inr False by (simp add: resume_cluster_def andthen_def)
    ultimately obtain es' where es': "es = h1 @ es'" "in_phases [(is_read, ?goal), (is_clear, \<lambda>h. True)] h1 es'"
      unfolding keeps_to_def by blast
    have "in_phases [(is_read, ?goal), (is_clear, \<lambda>h. True)] [] es" using in_phases_more [OF h1(1), of ?goal _ "[]" es'] es' by (simp only: append_Nil)
    then show ?thesis by blast
  qed
qed

section \<open>A quiet cluster\<close>

text \<open>A cluster of one storage node with one datum \<open>i\<close> and every answer as the driver expects it; node 2 is spare.\<close>

definition ring_member :: "u64 \<Rightarrow> storage_member" where
  "ring_member k = \<lparr>sm_node_id = NodeId k, sm_weight = 1, sm_store_address = lit (if k = 1 then ''s'' else ''t''), sm_log_id = DatumId (if k = 1 then 1 else 2)\<rparr>"

definition quiet_cluster :: "datum_id \<Rightarrow> answers" where
  "quiet_cluster i =
     \<lparr>compute_answer = (\<lambda>h a req. Inr (if req = GetClusterConfig then ClusterConfig [ring_member 1] else Ack)),
      store_answer = (\<lambda>h a req. Inr (case req of
          SIdentify \<Rightarrow> if a = lit ''s'' then SIdentity (NodeId 1) (DatumId 1) else SIdentity (NodeId 2) (DatumId 2)
        | SListIds after limit \<Rightarrow> SIdList [(i, 1)] True
        | STransferStatus tid \<Rightarrow> STransferProgress 1 0 True
        | _ \<Rightarrow> SAck))\<rparr>"

lemma quiet_cluster_direct: "no_redirects (quiet_cluster i)"
  by (simp add: no_redirects_def quiet_cluster_def)

lemma quiet_cluster_compute:
  "compute (traced (quiet_cluster i)) a GetClusterConfig h = Some (Inr (ClusterConfig [ring_member 1]), h @ [ComputeEv a GetClusterConfig (Inr (ClusterConfig [ring_member 1]))])"
  "req \<noteq> GetClusterConfig \<Longrightarrow> compute (traced (quiet_cluster i)) a req h = Some (Inr Ack, h @ [ComputeEv a req (Inr Ack)])"
  by (simp_all add: compute_def client_call_def MAX_REDIRECTS_def traced_def quiet_cluster_def eval_nat_numeral Let_def)

lemma quiet_cluster_store:
  "net_store (traced (quiet_cluster i)) a req h = (let r = store_answer (quiet_cluster i) h a req in (r, h @ [StoreEv a req r]))"
  by (simp add: traced_def)

lemma quiet_cluster_answers:
  "store_answer (quiet_cluster i) h (lit ''s'') SIdentify = Inr (SIdentity (NodeId 1) (DatumId 1))"
  "store_answer (quiet_cluster i) h (lit ''t'') SIdentify = Inr (SIdentity (NodeId 2) (DatumId 2))"
  "store_answer (quiet_cluster i) h a (SListIds after limit) = Inr (SIdList [(i, 1)] True)"
  "store_answer (quiet_cluster i) h a (STransferStatus tid) = Inr (STransferProgress 1 0 True)"
  "store_answer (quiet_cluster i) h a (STransfer tid ids d) = Inr SAck"
  "store_answer (quiet_cluster i) h a (SFinishTransfer tid) = Inr SAck"
  "store_answer (quiet_cluster i) h a (SDelete j) = Inr SAck"
  by (simp_all add: quiet_cluster_def lit_def)

lemmas quiet_cluster_steps = quiet_cluster_compute quiet_cluster_store quiet_cluster_answers ring_member_def Let_def
  get_cluster_config_def identify_def andthen_def ret_def in_context_def with_context_def store_def expect_ack_def expect_store_ack_def

lemma quiet_cluster_run:
  "\<exists>r es. migrate (traced (quiet_cluster i)) (\<lambda>_. DatumId 99) [lit ''c''] [ring_member 2] True [] = Some (Inr r, es) \<and>
     rp_total_moves r = 1 \<and> StoreEv (lit ''s'') (SDelete i) (Inr SAck) \<in> set es"
  by (simp add: migrate_def quiet_cluster_steps attempting_def list_all_ids_def list_loop.simps poll_loop.simps planned_def execute_def
      ring_of_def one_member_replicas [unfolded One_nat_def] group_pair_def addr_map_def)

lemma quiet_cluster_resume:
  "\<exists>r es. resume_cluster (traced (quiet_cluster i)) [lit ''c''] [] = Some (r, es) \<and> ComputeEv (lit ''c'') ClearHalt (Inr Ack) \<in> set es"
  by (simp add: resume_cluster_def quiet_cluster_steps)

section \<open>Listing a storage node\<close>

text \<open>Against a storage node that holds \<open>m\<close>, the pages put together are the ids of \<open>m\<close> in order.\<close>

definition node_nets :: "nat \<Rightarrow> store_node nets" where
  "node_nets now = \<lparr>net_compute = (\<lambda>a req w. (Inl (Bail ''unreachable'' []), w)), net_store = deliver now\<rparr>"

abbreviation listed :: "datum_map \<Rightarrow> bytes list \<Rightarrow> (datum_id \<times> u16) list" where
  "listed m \<equiv> map (\<lambda>i. (from_bytes i, snd (the (m i))))"

lemma list_loop_page:
  assumes "\<not> is_stale now node" "list_ids (sn_log node) (map_option as_bytes after) 1024 = map (\<lambda>i. (i, snd (the (m i)))) page"
  shows "list_loop (node_nets now) a after ids node =
    (if length page < 1024 \<or> page = [] then Some (Inr (ids @ listed m page), node)
     else list_loop (node_nets now) a (Some (from_bytes (last page))) (ids @ listed m page) node)"
  using assms
  by (subst list_loop.simps) (simp add: node_nets_def deliver_def handle_request_def PAGE_def Let_def comp_def last_map)

lemma page_split: "take n ys \<noteq> [] \<Longrightarrow> ys = butlast (take n ys) @ last (take n ys) # drop n ys"
  by (metis append.assoc append_Cons append_Nil append_butlast_last_id append_take_drop_id)

lemma list_loop_rest:
  assumes node: "\<not> is_stale now node" and all: "\<forall>i\<in>set all. length i = 16"
    and pages: "\<forall>limit xs y ys. all = xs @ y # ys \<longrightarrow> list_ids (sn_log node) (Some y) limit = map (\<lambda>i. (i, snd (the (m i)))) (take limit ys)"
  shows "all = xs @ y # ys \<Longrightarrow> list_loop (node_nets now) a (Some (from_bytes y)) ids node = Some (Inr (ids @ listed m ys), node)"
proof (induction ys arbitrary: xs y ids rule: length_induct)
  case (1 ys)
  let ?page = "take 1024 ys"
  have y: "length y = 16" using all 1(2) by simp
  have page: "list_loop (node_nets now) a (Some (from_bytes y)) ids node =
    (if length ?page < 1024 \<or> ?page = [] then Some (Inr (ids @ listed m ?page), node)
     else list_loop (node_nets now) a (Some (from_bytes (last ?page))) (ids @ listed m ?page) node)"
    using pages 1(2) y by (intro list_loop_page [OF node]) simp
  show ?case
  proof (cases "length ys < 1024")
    case False
    let ?rest = "drop 1024 ys"
    have ys: "ys = butlast ?page @ last ?page # ?rest" by (rule page_split) (use False in auto)
    have "list_loop (node_nets now) a (Some (from_bytes (last ?page))) (ids @ listed m ?page) node = Some (Inr ((ids @ listed m ?page) @ listed m ?rest), node)"
    proof (rule 1(1) [rule_format])
      show "length ?rest < length ys" using False by simp
      show "all = (xs @ y # butlast ?page) @ last ?page # ?rest" using 1(2) ys by simp
    qed
    moreover have "listed m ?page @ listed m ?rest = listed m ys" by (metis append_take_drop_id map_append)
    ultimately show ?thesis using page False by (auto simp: min_def)
  qed (simp add: page)
qed

lemma list_all_ids_node:
  assumes node: "\<not> is_stale now node" "holds node m" and len: "\<forall>i\<in>dom m. length i = 16"
  shows "\<exists>all. set all = dom m \<and> distinct all \<and> list_all_ids (node_nets now) a node = Some (Inr (listed m all), node)"
proof -
  obtain all where all: "set all = dom m" "distinct all"
    and first: "\<And>limit. list_ids (sn_log node) None limit = map (\<lambda>i. (i, snd (the (m i)))) (take limit all)"
    and pages: "\<forall>limit xs y ys. all = xs @ y # ys \<longrightarrow> list_ids (sn_log node) (Some y) limit = map (\<lambda>i. (i, snd (the (m i)))) (take limit ys)"
    using list_ids_pages [of "sn_log node" m] node(2) unfolding holds_def by blast
  have len: "\<forall>i\<in>set all. length i = 16" using len all by simp
  let ?page = "take 1024 all"
  have page: "list_loop (node_nets now) a None [] node =
    (if length ?page < 1024 \<or> ?page = [] then Some (Inr ([] @ listed m ?page), node)
     else list_loop (node_nets now) a (Some (from_bytes (last ?page))) ([] @ listed m ?page) node)"
    using first by (intro list_loop_page [OF node(1)]) simp
  have "list_loop (node_nets now) a None [] node = Some (Inr (listed m all), node)"
  proof (cases "length all < 1024")
    case False
    have split: "all = butlast ?page @ last ?page # drop 1024 all" by (rule page_split) (use False in auto)
    have "listed m ?page @ listed m (drop 1024 all) = listed m all" by (metis append_take_drop_id map_append)
    then show ?thesis using page list_loop_rest [OF node(1) len pages split, of a "[] @ listed m ?page"] False by (auto simp: min_def)
  qed (simp add: page)
  then show ?thesis using all by (auto simp: list_all_ids_def)
qed

section \<open>Properties\<close>



text \<open>
  C15: The halt is cleared for known disks only. When \<open>resume\<close> sends a \<open>ClearHalt\<close>, it has read the
  identity book before, and every storage node of the book has answered with the node id and log
  id the book holds.
\<close>

theorem halt_is_cleared_for_known_disks:
  assumes "no_redirects A" and "resume_cluster (traced A) addrs [] = Some (r, es)" and "ComputeEv a ClearHalt q \<in> set es"
  shows "\<exists>ms before after. es = before @ after \<and> list_all is_read before \<and> list_all is_clear after \<and>
    ComputeEv (hd addrs) GetClusterConfig (Inr (ClusterConfig ms)) \<in> set before \<and> identified ms before"
proof -
  obtain ms before after where *: "es = before @ after" "list_all is_read before"
    "after = [] \<or> (ComputeEv (hd addrs) GetClusterConfig (Inr (ClusterConfig ms)) \<in> set before \<and> identified ms before) \<and> list_all is_clear after"
    using resume_phases [OF assms(1,2)] by auto
  have "after \<noteq> []" using * assms(3) by (auto simp: list_all_iff)
  with * show ?thesis by blast
qed

theorem halt_is_cleared_for_known_disks_witness:
  "\<exists>r es. resume_cluster (traced (quiet_cluster (DatumId 7))) [lit ''c''] [] = Some (r, es) \<and> ComputeEv (lit ''c'') ClearHalt (Inr Ack) \<in> set es \<and>
     (\<exists>ms before after. es = before @ after \<and> list_all is_read before \<and> list_all is_clear after \<and>
       ComputeEv (hd [lit ''c'']) GetClusterConfig (Inr (ClusterConfig ms)) \<in> set before \<and> identified ms before)"
proof -
  obtain r es where run: "resume_cluster (traced (quiet_cluster (DatumId 7))) [lit ''c''] [] = Some (r, es)" "ComputeEv (lit ''c'') ClearHalt (Inr Ack) \<in> set es"
    using quiet_cluster_resume [of "DatumId 7"] by blast
  show ?thesis using halt_is_cleared_for_known_disks [OF quiet_cluster_direct run] run by blast
qed

text \<open>
  C16: Listing a storage node returns, with every datum once. Against a storage node that holds \<open>m\<close>,
  \<open>list_all_ids\<close> ends after finitely many pages and leaves the node as it was.
\<close>

theorem listing_returns_every_datum:
  assumes "\<not> is_stale now node" and "holds node m" and "\<forall>i\<in>dom m. length i = 16"
  shows "\<exists>all. set all = dom m \<and> distinct all \<and>
    list_all_ids (node_nets now) a node = Some (Inr (map (\<lambda>i. (from_bytes i, snd (the (m i)))) all), node)"
  by (rule list_all_ids_node [OF assms])

theorem listing_returns_every_datum_witness:
  "\<exists>node. list_all_ids (node_nets 0) (lit ''s'') node = Some (Inr [(DatumId 1, 2)], node) \<and> holds node [as_bytes (DatumId 1) \<mapsto> ([7], 2)]"
proof -
  obtain l0 where l: "implements l0 Map.empty" using fresh_implements [of "replicate 16 0"] by auto
  let ?node = "\<lparr>sn_log = put_full l0 (as_bytes (DatumId 1)) [7] 2, sn_node_id = NodeId 1, heartbeat = 0, self_halt_threshold = 5, sn_transfers = [], sn_collections = no_collections []\<rparr>"
  have h: "holds ?node [as_bytes (DatumId 1) \<mapsto> ([7], 2)]"
    using put_full_implements [OF l, of "as_bytes (DatumId 1)" "[7]" 2] by (simp add: holds_def)
  obtain all where all: "set all = {as_bytes (DatumId 1)}" "distinct all"
    "list_all_ids (node_nets 0) (lit ''s'') ?node = Some (Inr (map (\<lambda>i. (from_bytes i, snd (the ([as_bytes (DatumId 1) \<mapsto> ([7 :: u8], 2 :: u16)] i)))) all), ?node)"
    using listing_returns_every_datum [of 0 ?node "[as_bytes (DatumId 1) \<mapsto> ([7], 2)]" "lit ''s''"] h by (auto simp: is_stale_def stale_def)
  have "length all = 1" using distinct_card [OF all(2)] all(1) by simp
  then have "all = [as_bytes (DatumId 1)]" using all(1) by (cases all) simp_all
  then show ?thesis using all(3) h by auto
qed

end
