(* ===== verification/Index_Kind.thy ===== *)
theory Index_Kind
  imports Btree_Collection Messages
begin

text \<open>
  What the index kinds share, \<open>seisin-node/src/index_handler.rs\<close>: the outcome of an update, and the
  file behind an index that persists itself in a B+tree. An operation on a resident index returns a
  value and the index after it, or panics (\<open>Inl\<close>), or does not return (\<open>None\<close>). Failures of the disk
  are left out, as for the collections. The locale \<open>tree_set\<close> is the contract of an index that is
  a set of items, each encoded as one entry of the tree in the order of the items.
\<close>

section \<open>Outcomes\<close>

datatype write_through = WtNone | WtPut bytes | WtDelete

record apply_outcome =
  ao_violation :: "rstring option"
  ao_write_through :: write_through

definition rejected :: "rstring \<Rightarrow> apply_outcome" where
  "rejected message = \<lparr>ao_violation = Some message, ao_write_through = WtNone\<rparr>"

definition accepted :: apply_outcome where
  "accepted = \<lparr>ao_violation = None, ao_write_through = WtNone\<rparr>"

text \<open>The defaults of \<open>ResidentIndex::query\<close> and \<open>execute\<close>.\<close>

definition no_query :: "bytes \<Rightarrow> rstring + bytes" where
  "no_query q = Inl (lit ''this index kind supports no queries'')"

definition no_execute :: "bytes \<Rightarrow> rstring + bytes" where
  "no_execute payload = Inl (lit ''this index kind supports no execute ops'')"

text \<open>\<open>match tree.op(..) { Err(e) => bad(e), Ok(x) => k(x) }\<close>, with panics passed on.\<close>

definition on_tree :: "'a result option \<Rightarrow> (rstring \<Rightarrow> 'b) \<Rightarrow> ('a \<Rightarrow> 'b result option) \<Rightarrow> 'b result option" where
  "on_tree r bad k =
     Option.bind r (\<lambda>r. case r of Inl e \<Rightarrow> Some (if is_panic e then Inl e else Inr (bad (to_string e))) | Inr x \<Rightarrow> k x)"

lemma on_tree_simps [simp]: "on_tree (Some (Inr x)) bad k = k x"
  by (simp add: on_tree_def)

section \<open>Files\<close>

definition index_file :: "string \<Rightarrow> datum_id \<Rightarrow> rstring" where
  "index_file prefix target = lit prefix @ hex (as_bytes target) @ lit ''.btree''"

definition open_index_file :: "(rstring \<rightharpoonup> bytes) \<Rightarrow> rstring \<Rightarrow> u32 \<Rightarrow> u32 \<Rightarrow> u32 \<Rightarrow> btree result" where
  "open_index_file files name key_size value_size page_size =
     (case files name of Some bs \<Rightarrow> btree_open bs | None \<Rightarrow> btree_create key_size value_size page_size)"

text \<open>A run of updates on a resident index, with the outcomes.\<close>

fun run_updates :: "('p \<Rightarrow> 's \<Rightarrow> ('o \<times> 's) result option) \<Rightarrow> 'p list \<Rightarrow> 's \<Rightarrow> ('o list \<times> 's) result option" where
  "run_updates f [] s = Some (Inr ([], s))"
| "run_updates f (p # ps) s =
     Option.bind (f p s) (\<lambda>r. case r of Inl e \<Rightarrow> Some (Inl e) | Inr (out, s') \<Rightarrow>
       map_option (\<lambda>r. bindE r (\<lambda>(outs, s''). Inr (out # outs, s''))) (run_updates f ps s'))"

section \<open>Sets kept in a tree\<close>

lemma ascending_set_unique:
  fixes xs ys :: entries
  assumes "ascending xs" "ascending ys" "set xs = set ys"
  shows "xs = ys"
proof -
  have "sorted (map fst xs)" "distinct (map fst xs)" "sorted (map fst ys)" "distinct (map fst ys)"
    using assms(1,2) by (simp_all add: strict_sorted_iff)
  moreover have "inj_on fst (set xs \<union> set ys)" using calculation assms(3) by (simp add: distinct_map)
  ultimately show ?thesis using assms(3) by (intro map_sorted_distinct_set_unique)
qed

lemma upsert_members: "ascending es \<Longrightarrow> set (upsert k v es) = insert (k, v) {e \<in> set es. fst e \<noteq> k}"
proof -
  assume es: "ascending es"
  have d: "distinct (map fst es)" "distinct (map fst (upsert k v es))"
    using es ascending_upsert [OF es, of k v] by (simp_all add: strict_sorted_iff)
  have "e \<in> set (upsert k v es) \<longleftrightarrow> e \<in> insert (k, v) {e \<in> set es. fst e \<noteq> k}" for e
    using map_of_eq_Some_iff [OF d(1), of "fst e" "snd e"] map_of_eq_Some_iff [OF d(2), of "fst e" "snd e"]
    by (cases e) (auto simp: map_of_upsert [OF es] split: if_splits)
  then show ?thesis by blast
qed

locale tree_set =
  fixes enc :: "'a::linorder \<Rightarrow> bytes \<times> bytes" and ok :: "'a \<Rightarrow> bool"
  assumes enc_less: "ok x \<Longrightarrow> ok y \<Longrightarrow> fst (enc x) < fst (enc y) \<longleftrightarrow> x < y"
begin

lemma enc_key_inj: "ok x \<Longrightarrow> ok y \<Longrightarrow> fst (enc x) = fst (enc y) \<longleftrightarrow> x = y"
  using enc_less [of x y] enc_less [of y x] by (metis less_irrefl linorder_neqE)

lemma listed_ascending:
  assumes "finite S" "\<forall>x\<in>S. ok x"
  shows "ascending (map enc (sorted_list_of_set S))"
proof -
  have "sorted_wrt (<) (sorted_list_of_set S)" by (rule strict_sorted_list_of_set)
  then have "sorted_wrt (\<lambda>x y. fst (enc x) < fst (enc y)) (sorted_list_of_set S)"
    by (rule sorted_wrt_mono_rel [rotated]) (use assms enc_less in auto)
  then show ?thesis by (simp add: sorted_wrt_map)
qed

lemma put_item:
  assumes "finite S" "\<forall>x\<in>S. ok x" "ok x"
  shows "upsert (fst (enc x)) (snd (enc x)) (map enc (sorted_list_of_set S)) = map enc (sorted_list_of_set (insert x S))"
proof (rule ascending_set_unique)
  note asc = listed_ascending [OF assms(1,2)]
  have fin: "finite (insert x S)" using assms(1) by simp
  show "ascending (upsert (fst (enc x)) (snd (enc x)) (map enc (sorted_list_of_set S)))" by (rule ascending_upsert [OF asc])
  show "ascending (map enc (sorted_list_of_set (insert x S)))" by (rule listed_ascending) (use assms in auto)
  show "set (upsert (fst (enc x)) (snd (enc x)) (map enc (sorted_list_of_set S))) = set (map enc (sorted_list_of_set (insert x S)))"
    using assms enc_key_inj unfolding upsert_members [OF asc] set_map set_sorted_list_of_set [OF assms(1)] set_sorted_list_of_set [OF fin] by auto
qed

lemma del_item:
  assumes "finite S" "\<forall>x\<in>S. ok x" "ok x"
  shows "without (fst (enc x)) (map enc (sorted_list_of_set S)) = map enc (sorted_list_of_set (S - {x}))"
proof (rule ascending_set_unique)
  show "ascending (without (fst (enc x)) (map enc (sorted_list_of_set S)))"
    by (rule ascending_without [OF listed_ascending [OF assms(1,2)]])
  show "ascending (map enc (sorted_list_of_set (S - {x})))" by (rule listed_ascending) (use assms in auto)
  show "set (without (fst (enc x)) (map enc (sorted_list_of_set S))) = set (map enc (sorted_list_of_set (S - {x})))"
    using assms enc_key_inj by (auto simp: without_def)
qed

end

end
