(* ===== verification/Field_Values.thy ===== *)
theory Field_Values
  imports Wire_Prims
begin

text \<open>
  Field types and values, \<open>seisin-types/src/field.rs\<close>, and their tagless encoding,
  \<open>seisin-types/src/encoding.rs\<close>. An \<open>i64\<close> is its 64 bits, an \<open>f64\<close> its IEEE 754 bit pattern.
  The decoder is driven by the declared type; it returns values of that type only, and reads
  back what the encoder wrote.
\<close>

section \<open>Types and values\<close>

datatype prim_type = PBool | PI64 | PF64 | PString | PBytes

datatype field_type =
    TBool | TI64 | TF64 | TString | TBytes
  | TArray field_type
  | TDict prim_type field_type

definition of_prim :: "prim_type \<Rightarrow> field_type" where
  "of_prim p = (case p of PBool \<Rightarrow> TBool | PI64 \<Rightarrow> TI64 | PF64 \<Rightarrow> TF64 | PString \<Rightarrow> TString | PBytes \<Rightarrow> TBytes)"

datatype field_value =
    VBool bool
  | VI64 i64
  | VF64 u64
  | VString rstring
  | VBytes bytes
  | VArray "field_value list"
  | VDict "(field_value \<times> field_value) list"

lemma size_of_prim [simp]: "size (of_prim p) = 0"
  by (cases p) (simp_all add: of_prim_def)

function value_matches_type :: "field_value \<Rightarrow> field_type \<Rightarrow> bool" where
  "value_matches_type v TBool \<longleftrightarrow> (case v of VBool _ \<Rightarrow> True | _ \<Rightarrow> False)"
| "value_matches_type v TI64 \<longleftrightarrow> (case v of VI64 _ \<Rightarrow> True | _ \<Rightarrow> False)"
| "value_matches_type v TF64 \<longleftrightarrow> (case v of VF64 _ \<Rightarrow> True | _ \<Rightarrow> False)"
| "value_matches_type v TString \<longleftrightarrow> (case v of VString _ \<Rightarrow> True | _ \<Rightarrow> False)"
| "value_matches_type v TBytes \<longleftrightarrow> (case v of VBytes _ \<Rightarrow> True | _ \<Rightarrow> False)"
| "value_matches_type v (TArray inner) \<longleftrightarrow>
     (case v of VArray items \<Rightarrow> list_all (\<lambda>item. value_matches_type item inner) items | _ \<Rightarrow> False)"
| "value_matches_type v (TDict key_ty val_ty) \<longleftrightarrow>
     (case v of VDict entries \<Rightarrow> list_all (\<lambda>(k, x). value_matches_type k (of_prim key_ty) \<and> value_matches_type x val_ty) entries
      | _ \<Rightarrow> False)"
  by pat_completeness auto
termination by (relation "measure (\<lambda>(v, ty). size ty)") auto

section \<open>Encoding\<close>

definition encode_len_prefixed :: "bytes \<Rightarrow> bytes" where
  "encode_len_prefixed bs = u32_to_le (as_u32 (length bs)) @ bs"

fun encode_field_value :: "field_value \<Rightarrow> bytes" where
  "encode_field_value (VBool b) = [if b then 1 else 0]"
| "encode_field_value (VI64 i) = u64_to_le i"
| "encode_field_value (VF64 f) = u64_to_le f"
| "encode_field_value (VString s) = encode_len_prefixed s"
| "encode_field_value (VBytes b) = encode_len_prefixed b"
| "encode_field_value (VArray items) = u32_to_le (as_u32 (length items)) @ concat (map encode_field_value items)"
| "encode_field_value (VDict entries) =
     u32_to_le (as_u32 (length entries)) @ concat (map (\<lambda>(k, x). encode_field_value k @ encode_field_value x) entries)"

section \<open>Decoding\<close>

definition read_bytes :: "nat \<Rightarrow> (bytes \<Rightarrow> 'a) \<Rightarrow> 'a taker" where
  "read_bytes len f = (\<lambda>buf off.
     if length buf < off + len
     then Inl (Bail ''buffer truncated: need {len} bytes at offset {offset}, only {} remain'' [len, off, length buf - off])
     else Inr (f (slice buf off (off + len)), off + len))"

definition read_u32 :: "u32 taker" where
  "read_u32 = read_bytes 4 u32_from_le"

definition decode_len_prefixed :: "bytes taker" where
  "decode_len_prefixed = bindP read_u32 (\<lambda>len. read_bytes (unat len) (\<lambda>bs. bs))"

function decode_field_value :: "field_type \<Rightarrow> field_value taker" where
  "decode_field_value TBool = read_bytes 1 (\<lambda>bs. VBool (bs ! 0 \<noteq> 0))"
| "decode_field_value TI64 = read_bytes 8 (\<lambda>bs. VI64 (u64_from_le bs))"
| "decode_field_value TF64 = read_bytes 8 (\<lambda>bs. VF64 (u64_from_le bs))"
| "decode_field_value TString =
     bindP decode_len_prefixed (\<lambda>bs. checkP (from_utf8 ''string field was not valid utf8'' bs) (\<lambda>s. returnP (VString s)))"
| "decode_field_value TBytes = bindP decode_len_prefixed (\<lambda>bs. returnP (VBytes bs))"
| "decode_field_value (TArray inner) =
     bindP read_u32 (\<lambda>count. bindP (take_n (decode_field_value inner) (unat count)) (\<lambda>items. returnP (VArray items)))"
| "decode_field_value (TDict key_ty val_ty) =
     bindP read_u32 (\<lambda>count.
     bindP (take_n (bindP (decode_field_value (of_prim key_ty)) (\<lambda>k. bindP (decode_field_value val_ty) (\<lambda>x. returnP (k, x)))) (unat count))
       (\<lambda>entries. returnP (VDict entries)))"
  by pat_completeness auto
termination by (relation "measure size") auto

section \<open>Round trips\<close>

text \<open>What the Rust types and the 32-bit counts guarantee or require of a value.\<close>

fun wf_value :: "field_value \<Rightarrow> bool" where
  "wf_value (VString s) \<longleftrightarrow> wf_string s"
| "wf_value (VBytes b) \<longleftrightarrow> short b"
| "wf_value (VArray items) \<longleftrightarrow> short items \<and> list_all wf_value items"
| "wf_value (VDict entries) \<longleftrightarrow> short entries \<and> list_all (\<lambda>(k, x). wf_value k \<and> wf_value x) entries"
| "wf_value v \<longleftrightarrow> True"

lemma encodes_read: "length bs = n \<Longrightarrow> f bs = x \<Longrightarrow> encodes (read_bytes n f) bs x"
  unfolding encodes_def
proof (intro allI impI)
  fix buf off post
  assume "length bs = n" "f bs = x" "off \<le> length buf" "drop off buf = bs @ post"
  with drop_prefix_le [OF this(4,3)] show "read_bytes n f buf off = Inr (x, off + length bs)" by (auto simp: read_bytes_def)
qed

lemma consumes_read: "(\<And>bs. length bs = n \<Longrightarrow> P (f bs) bs) \<Longrightarrow> consumes (read_bytes n f) P"
  by (auto simp: consumes_def read_bytes_def split: if_splits)

interpretation read_u32: codec u32_to_le read_u32 "\<lambda>_. True"
  by unfold_locales (auto simp: read_u32_def intro!: encodes_read consumes_read)

interpretation len_prefixed: codec encode_len_prefixed decode_len_prefixed short
proof
  fix bs :: bytes assume "short bs"
  then show "encodes decode_len_prefixed (encode_len_prefixed bs) bs"
    unfolding decode_len_prefixed_def encode_len_prefixed_def
    by (intro encodes_bind [OF read_u32.put_tak] encodes_read) simp_all
next
  show "consumes decode_len_prefixed (\<lambda>bs out. short bs \<and> out = encode_len_prefixed bs)"
    unfolding decode_len_prefixed_def
    by (rule consumes_bind [OF read_u32.tak_put], rule consumes_read) (auto simp: encode_len_prefixed_def short_u32)
qed

lemma decode_encode_value: "value_matches_type v ty \<Longrightarrow> wf_value v \<Longrightarrow> encodes (decode_field_value ty) (encode_field_value v) v"
proof (induction v ty rule: value_matches_type.induct)
  case (1 v)
  then show ?case by (cases v) (auto intro!: encodes_read)
next
  case (2 v)
  then show ?case by (cases v) (auto intro!: encodes_read)
next
  case (3 v)
  then show ?case by (cases v) (auto intro!: encodes_read)
next
  case (4 v)
  then obtain s where "v = VString s" "wf_string s" by (cases v) auto
  then show ?case by (auto simp: wf_string_def intro!: encodes_bind [OF len_prefixed.put_tak, where b = "[]", simplified] encodes_return)
next
  case (5 v)
  then show ?case by (cases v) (auto intro!: encodes_bind_return len_prefixed.put_tak)
next
  case (6 v inner)
  then obtain items where v: "v = VArray items" "list_all (\<lambda>x. encodes (decode_field_value inner) (encode_field_value x) x) items" "short items"
    by (cases v) (auto simp: list_all_iff)
  then show ?case
    by (auto intro!: encodes_bind [OF read_u32.put_tak] encodes_bind_return take_n_encodes)
next
  case (7 v key_ty val_ty)
  let ?put = "\<lambda>(k, x). encode_field_value k @ encode_field_value x"
  let ?tak = "bindP (decode_field_value (of_prim key_ty)) (\<lambda>k. bindP (decode_field_value val_ty) (\<lambda>x. returnP (k, x)))"
  obtain es where v: "v = VDict es" "short es" using 7 by (cases v) auto
  have "encodes ?tak (encode_field_value k @ encode_field_value x) (k, x)" if "(k, x) \<in> set es" for k x
  proof -
    have "value_matches_type k (of_prim key_ty)" "value_matches_type x val_ty" "wf_value k" "wf_value x"
      using 7(3,4) that v by (auto simp: list_all_iff)
    with 7(1) [OF v(1) that refl] 7(2) [OF v(1) that refl] show ?thesis by (intro encodes_bind encodes_bind_return) auto
  qed
  then have "list_all (\<lambda>e. encodes ?tak (?put e) e) es" by (auto simp: list_all_iff)
  from take_n_encodes [OF this] show ?case using v
    by (auto intro!: encodes_bind [OF read_u32.put_tak] encodes_bind_return)
qed

lemma take_n_consumes:
  assumes "consumes t (\<lambda>x bs. Q x \<and> length bs = length (put x))"
  shows "consumes (take_n t n) (\<lambda>xs bs. length xs = n \<and> list_all Q xs \<and> length bs = length (concat (map put xs)))"
proof (induction n)
  case (Suc n)
  show ?case unfolding take_n.simps
    by (rule consumes_bind [OF assms], rule consumes_bind [OF Suc], rule consumes_return) auto
qed (simp add: consumes_return)

lemma decode_value_typed:
  "consumes (decode_field_value ty) (\<lambda>v bs. (value_matches_type v ty \<and> wf_value v) \<and> length bs = length (encode_field_value v))"
proof (induction ty rule: decode_field_value.induct)
  case 4
  show ?case unfolding decode_field_value.simps
    by (rule consumes_bind [OF len_prefixed.tak_put], rule consumes_check, rule consumes_return) (auto simp: wf_string_def)
next
  case 5
  show ?case unfolding decode_field_value.simps
    by (rule consumes_bind [OF len_prefixed.tak_put], rule consumes_return) auto
next
  case (6 inner)
  show ?case unfolding decode_field_value.simps
    by (rule consumes_bind [OF read_u32.tak_put], rule consumes_bind [OF take_n_consumes [OF 6]], rule consumes_return)
      (auto simp: list_all_iff short_u32)
next
  case (7 key_ty val_ty)
  let ?put = "\<lambda>(k, x). encode_field_value k @ encode_field_value x"
  let ?Q = "\<lambda>(k, x). (value_matches_type k (of_prim key_ty) \<and> wf_value k) \<and> (value_matches_type x val_ty \<and> wf_value x)"
  have "consumes (bindP (decode_field_value (of_prim key_ty)) (\<lambda>k. bindP (decode_field_value val_ty) (\<lambda>x. returnP (k, x))))
      (\<lambda>e bs. ?Q e \<and> length bs = length (?put e))"
    by (rule consumes_bind [OF 7(1)], rule consumes_bind [OF 7(2)], rule consumes_return) auto
  note entries = take_n_consumes [OF this]
  show ?case unfolding decode_field_value.simps
    by (rule consumes_bind [OF read_u32.tak_put], rule consumes_bind [OF entries], rule consumes_return)
      (auto simp: list_all_iff short_u32 case_prod_unfold)
qed (auto intro!: consumes_read simp: length_Suc_conv)

end
