(* ===== verification/Rank_Key.thy ===== *)
theory Rank_Key
  imports Field_Values Messages "HOL-Library.List_Lexorder"
begin

text \<open>
  Order-preserving keys: \<open>encode_rank_key\<close> of \<open>seisin-types/src/rk_index.rs\<close>, its inverse
  \<open>decode_rank_key\<close> of \<open>lb.rs\<close>, the timestamps of \<open>tk.rs\<close>, and the payload codec of the
  ranked index. The B+tree compares keys byte by byte; the keys of two numbers compare as the
  numbers do, floats by \<open>f64::total_cmp\<close>.
\<close>

unbundle bit_operations_syntax

section \<open>Big-endian words and byte order\<close>

definition u64_to_be :: "u64 \<Rightarrow> bytes" where "u64_to_be w = rev (u64_to_le w)"
definition u64_from_be :: "bytes \<Rightarrow> u64" where "u64_from_be bs = u64_from_le (rev bs)"

lemma u64_be_round_trip [simp]:
  "length (u64_to_be w) = 8" "u64_from_be (u64_to_be w) = w" "length bs = 8 \<Longrightarrow> u64_to_be (u64_from_be bs) = bs"
  by (simp_all add: u64_to_be_def u64_from_be_def)

lemma u64_to_be_inj [simp]: "u64_to_be a = u64_to_be b \<longleftrightarrow> a = b"
  by (metis u64_be_round_trip(2))

lemma less_append_last:
  fixes xs ys :: bytes
  assumes "length xs = length ys"
  shows "xs @ [a] < ys @ [b] \<longleftrightarrow> xs < ys \<or> xs = ys \<and> a < b"
  using assms
proof (induction xs ys rule: list_induct2)
  case (Cons x xs y ys)
  then show ?case by auto
qed simp

lemma two_digits_less: "b < 256 \<Longrightarrow> d < 256 \<Longrightarrow> a < c \<or> a = c \<and> b < d \<longleftrightarrow> 256 * a + b < 256 * c + (d :: nat)"
  by (cases a c rule: linorder_cases) auto

lemma digits_less: "m div 256 < n div 256 \<or> m div 256 = n div 256 \<and> m mod 256 < n mod 256 \<longleftrightarrow> m < (n :: nat)"
  using two_digits_less [of "m mod 256" "n mod 256" "m div 256" "n div 256"] by simp

lemma rev_le_bytes_less:
  "m < 256 ^ k \<Longrightarrow> n < 256 ^ k \<Longrightarrow> rev (le_bytes k m) < rev (le_bytes k n) \<longleftrightarrow> m < n"
proof (induction k arbitrary: m n)
  case (Suc k)
  have d: "m div 256 < 256 ^ k" "n div 256 < 256 ^ k" using Suc.prems by (simp_all add: less_mult_imp_div_less mult.commute)
  have inj: "le_bytes k (m div 256) = le_bytes k (n div 256) \<longleftrightarrow> m div 256 = n div 256"
    using le_nat_le_bytes [of k "m div 256"] le_nat_le_bytes [of k "n div 256"] d by (metis mod_less)
  have b: "(word_of_nat (m mod 256) :: u8) < word_of_nat (n mod 256) \<longleftrightarrow> m mod 256 < n mod 256"
    by (simp add: word_less_nat_alt)
  have "rev (le_bytes (Suc k) m) < rev (le_bytes (Suc k) n) \<longleftrightarrow> m div 256 < n div 256 \<or> m div 256 = n div 256 \<and> m mod 256 < n mod 256"
    by (simp add: less_append_last Suc.IH [OF d] inj b del: of_nat_mod)
  also have "\<dots> \<longleftrightarrow> m < n" by (rule digits_less)
  finally show ?case .
qed simp

lemma u64_to_be_less: "u64_to_be a < u64_to_be b \<longleftrightarrow> a < b"
  using rev_le_bytes_less [of "unat a" 8 "unat b"] unsigned_less [of a, where ?'a = nat] unsigned_less [of b, where ?'a = nat]
  by (simp add: u64_to_be_def u64_to_le_def word_less_nat_alt)

lemma as_bytes_less: "as_bytes i < as_bytes j \<longleftrightarrow> i < j"
  using rev_le_bytes_less [of "unat (uuid i)" 16 "unat (uuid j)"] unsigned_less [of "uuid i", where ?'a = nat] unsigned_less [of "uuid j", where ?'a = nat]
  by (simp add: as_bytes_def u128_to_be_def word_less_nat_alt less_datum_id_def)

lemma less_append_same_length:
  fixes xs ys :: bytes
  assumes "length xs = length ys"
  shows "xs @ us < ys @ vs \<longleftrightarrow> xs < ys \<or> xs = ys \<and> us < vs"
  using assms by (induction xs ys rule: list_induct2) auto

section \<open>Rank keys\<close>

definition SIGN_BIT :: u64 where "SIGN_BIT = 0x8000000000000000"

text \<open>\<open>bits as i64 >> 63\<close> is all ones for a set sign bit, else 0.\<close>

definition encode_rank_key :: "field_value \<Rightarrow> bytes result" where
  "encode_rank_key v =
     (case v of
        VI64 x \<Rightarrow> Inr (u64_to_be (x XOR SIGN_BIT))
      | VF64 bits \<Rightarrow>
          let mask = signed_drop_bit 63 bits OR SIGN_BIT
          in Inr (u64_to_be (bits XOR mask))
      | other \<Rightarrow> Inl (Bail ''rk rank_key must be I64 or F64, got {other:?}'' []))"

datatype lb_score_type = ScoreI64 | ScoreF64

definition decode_rank_key :: "lb_score_type \<Rightarrow> bytes \<Rightarrow> field_value" where
  "decode_rank_key score_type key =
     (let enc = u64_from_be key in
      case score_type of
        ScoreI64 \<Rightarrow> VI64 (enc XOR SIGN_BIT)
      | ScoreF64 \<Rightarrow> VF64 (if enc AND SIGN_BIT \<noteq> 0 then enc XOR SIGN_BIT else NOT enc))"

definition encode_ts :: "i64 \<Rightarrow> bytes" where
  "encode_ts t = u64_to_be (t XOR SIGN_BIT)"

definition decode_ts :: "bytes \<Rightarrow> i64" where
  "decode_ts key = u64_from_be key XOR SIGN_BIT"

section \<open>Orders\<close>

definition i64_less :: "i64 \<Rightarrow> i64 \<Rightarrow> bool" where
  "i64_less a b \<longleftrightarrow> sint a < sint b"

text \<open>\<open>f64::total_cmp\<close>: the other 63 bits of a negative number are flipped, then the bits compare as \<open>i64\<close>.\<close>

definition total_key :: "u64 \<Rightarrow> i64" where
  "total_key bits = bits XOR drop_bit 1 (signed_drop_bit 63 bits)"

definition total_less :: "u64 \<Rightarrow> u64 \<Rightarrow> bool" where
  "total_less a b \<longleftrightarrow> sint (total_key a) < sint (total_key b)"

lemma bit_SIGN_BIT [simp]: "bit SIGN_BIT n \<longleftrightarrow> n = 63"
proof -
  have eq: "SIGN_BIT = push_bit 63 1" by (simp add: SIGN_BIT_def)
  show ?thesis unfolding eq bit_push_bit_iff by (auto simp: bit_1_iff)
qed

lemma xor_sign [simp]: "(w XOR SIGN_BIT) XOR SIGN_BIT = w"
  by (simp add: xor.assoc)

lemma xor_sign_add: "w XOR SIGN_BIT = w + SIGN_BIT"
proof -
  have "SIGN_BIT = push_bit 63 1" by (simp add: SIGN_BIT_def)
  then have "w XOR SIGN_BIT = flip_bit 63 w" by (simp add: flip_bit_eq_xor)
  also have "\<dots> = w + 2 ^ 63" by (auto simp: flip_bit_eq_if set_bit_eq unset_bit_eq)
  finally show ?thesis by (simp add: SIGN_BIT_def)
qed

lemma uint_xor_sign: "uint (w XOR SIGN_BIT) = sint w + 2 ^ 63"
proof -
  have eq: "w XOR SIGN_BIT = word_of_int (sint w + 2 ^ 63)" unfolding xor_sign_add by (simp add: SIGN_BIT_def)
  have "0 \<le> sint w + 2 ^ 63" "sint w + 2 ^ 63 < 2 ^ 64"
    using sint_ge [of w] sint_lt [of w] by simp_all
  then have "take_bit 64 (sint w + 2 ^ 63) = sint w + 2 ^ 63" by (rule take_bit_int_eq_self)
  moreover have "uint (word_of_int (sint w + 2 ^ 63) :: u64) = take_bit 64 (sint w + 2 ^ 63)" by (simp only: unsigned_of_int) simp
  ultimately show ?thesis by (simp only: eq)
qed

lemma xor_sign_less: "a XOR SIGN_BIT < b XOR SIGN_BIT \<longleftrightarrow> sint a < sint b"
  by (simp add: word_less_alt uint_xor_sign)

lemma bit_sign_fill: "n < 64 \<Longrightarrow> bit (signed_drop_bit 63 (x :: u64)) n = bit x 63"
  by (cases n) (auto simp: bit_signed_drop_bit_iff)

lemma bit_total_key: "n < 64 \<Longrightarrow> bit (total_key x) n = (if n < 63 then bit x n \<noteq> bit x 63 else bit x 63)"
proof (cases "n < 63")
  case True
  then show ?thesis by (simp add: total_key_def bit_xor_iff bit_drop_bit_eq bit_sign_fill)
next
  assume "n < 64" "\<not> n < 63"
  then have n: "n = 63" by simp
  have "\<not> bit (signed_drop_bit 63 x) 64" by (auto dest: bit_imp_le_length)
  then show ?thesis by (simp add: n total_key_def bit_xor_iff bit_drop_bit_eq)
qed

lemma float_key: "bits XOR (signed_drop_bit 63 bits OR SIGN_BIT) = total_key bits XOR SIGN_BIT"
proof (rule bit_word_eqI)
  fix n assume "n < LENGTH(64)"
  then show "bit (bits XOR (signed_drop_bit 63 bits OR SIGN_BIT)) n = bit (total_key bits XOR SIGN_BIT) n"
    by (cases "n = 63") (auto simp: bit_xor_iff bit_or_iff bit_sign_fill bit_total_key)
qed

lemma encode_rank_key_simps:
  "encode_rank_key (VI64 x) = Inr (u64_to_be (x XOR SIGN_BIT))"
  "encode_rank_key (VF64 x) = Inr (u64_to_be (total_key x XOR SIGN_BIT))"
  by (simp_all add: encode_rank_key_def float_key)

lemma and_sign: "x AND SIGN_BIT \<noteq> 0 \<longleftrightarrow> bit x 63"
proof
  assume "x AND SIGN_BIT \<noteq> 0"
  then obtain n where "bit (x AND SIGN_BIT) n" using bit_eq_iff [of "x AND SIGN_BIT" 0] by auto
  then show "bit x 63" by (auto simp: bit_and_iff)
next
  assume "bit x 63"
  then have "bit (x AND SIGN_BIT) 63" by (simp add: bit_and_iff)
  then show "x AND SIGN_BIT \<noteq> 0" by auto
qed

lemma total_key_inverse: "(if (total_key x XOR SIGN_BIT) AND SIGN_BIT \<noteq> 0 then total_key x else NOT (total_key x XOR SIGN_BIT)) = x"
proof (rule bit_word_eqI)
  fix n assume "n < LENGTH(64)"
  then show "bit (if (total_key x XOR SIGN_BIT) AND SIGN_BIT \<noteq> 0 then total_key x else NOT (total_key x XOR SIGN_BIT)) n = bit x n"
    by (cases "n = 63") (auto simp: and_sign bit_xor_iff bit_not_iff bit_total_key)
qed

text \<open>\<open>f64 ==\<close> and \<open>f64 <\<close> of IEEE 754: NaN compares with nothing, and the two zeros are equal.\<close>

definition is_nan :: "u64 \<Rightarrow> bool" where
  "is_nan x \<longleftrightarrow> 0x7FF0000000000000 < take_bit 63 x"

definition is_zero :: "u64 \<Rightarrow> bool" where
  "is_zero x \<longleftrightarrow> take_bit 63 x = 0"

definition f64_eq :: "u64 \<Rightarrow> u64 \<Rightarrow> bool" where
  "f64_eq a b \<longleftrightarrow> \<not> is_nan a \<and> \<not> is_nan b \<and> (a = b \<or> is_zero a \<and> is_zero b)"

definition f64_less :: "u64 \<Rightarrow> u64 \<Rightarrow> bool" where
  "f64_less a b \<longleftrightarrow> \<not> is_nan a \<and> \<not> is_nan b \<and> \<not> (is_zero a \<and> is_zero b) \<and> total_less a b"

section \<open>The payload of a ranked index\<close>

record rk_index_op =
  rk_pk_id :: datum_id
  old_rank_key :: "bytes option"
  new_rank_key :: "bytes option"

definition push_optional_key :: "bytes option \<Rightarrow> bytes" where
  "push_optional_key key = (case key of None \<Rightarrow> [0] | Some k \<Rightarrow> 1 # k)"

definition read_optional_key :: "bytes option taker" where
  "read_optional_key =
     bindP (take_fixed 1 (\<lambda>_. Bail ''rk index op truncated at an option flag'' []) (\<lambda>bs. bs ! 0)) (\<lambda>flag.
       if flag = 0 then returnP None
       else if flag = 1 then
         bindP (take_fixed 8 (\<lambda>_. Bail ''rk index op truncated inside a rank key'' []) (\<lambda>bs. bs)) (\<lambda>k. returnP (Some k))
       else failP (Bail ''unknown rk index op option flag: {f}'' [unat flag]))"

definition encode_rk_index_op :: "rk_index_op \<Rightarrow> bytes" where
  "encode_rk_index_op op = as_bytes (rk_pk_id op) @ push_optional_key (old_rank_key op) @ push_optional_key (new_rank_key op)"

definition decode_rk_index_op :: "bytes \<Rightarrow> rk_index_op result" where
  "decode_rk_index_op buf =
     (if length buf < 16 then Inl (Bail ''rk index op payload too short for a pk_id'' [])
      else
        let pk_id = from_bytes (slice buf 0 16) in
        bindE (read_optional_key buf 16) (\<lambda>(old, off).
        bindE (read_optional_key buf off) (\<lambda>(new, off).
          if off \<noteq> length buf then Inl (Bail ''rk index op has {} trailing bytes'' [length buf - off])
          else Inr \<lparr>rk_pk_id = pk_id, old_rank_key = old, new_rank_key = new\<rparr>)))"

definition wf_rk_op :: "rk_index_op \<Rightarrow> bool" where
  "wf_rk_op op \<longleftrightarrow> (\<forall>k. old_rank_key op = Some k \<longrightarrow> length k = 8) \<and> (\<forall>k. new_rank_key op = Some k \<longrightarrow> length k = 8)"

interpretation optional_key: codec push_optional_key read_optional_key "\<lambda>k. \<forall>x. k = Some x \<longrightarrow> length x = 8"
proof
  fix k :: "bytes option" assume k: "\<forall>x. k = Some x \<longrightarrow> length x = 8"
  show "encodes read_optional_key (push_optional_key k) k"
  proof (cases k)
    case None
    have "encodes read_optional_key ([0] @ []) None" unfolding read_optional_key_def
      by (rule encodes_bind [OF encodes_fixed [of _ _ _ 0]]) (simp_all add: encodes_return)
    then show ?thesis by (simp add: None push_optional_key_def)
  next
    case (Some x)
    have "encodes read_optional_key ([1] @ x) (Some x)" unfolding read_optional_key_def
      by (rule encodes_bind [OF encodes_fixed [of _ _ _ 1]]) (use k Some in \<open>auto intro!: encodes_bind_return encodes_fixed\<close>)
    then show ?thesis by (simp add: Some push_optional_key_def)
  qed
next
  have flag: "consumes (take_fixed 1 err (\<lambda>bs. bs ! 0)) (\<lambda>x bs. bs = [x :: u8])" for err
    by (rule consumes_fixed) (auto simp: length_Suc_conv)
  show "consumes read_optional_key (\<lambda>k bs. (\<forall>x. k = Some x \<longrightarrow> length x = 8) \<and> bs = push_optional_key k)"
    unfolding read_optional_key_def
    by (rule consumes_bind [OF flag]) (auto simp: push_optional_key_def intro!: consumes_return consumes_fail consumes_bind [OF raw_bytes_tak])
qed

abbreviation take_rk_keys :: "datum_id \<Rightarrow> rk_index_op taker" where
  "take_rk_keys pk \<equiv> bindP read_optional_key (\<lambda>old. bindP read_optional_key (\<lambda>new.
     returnP \<lparr>rk_pk_id = pk, old_rank_key = old, new_rank_key = new\<rparr>))"

lemma decode_rk_index_op_taker:
  assumes "\<not> length buf < 16"
  shows "decode_rk_index_op buf = decode_all ''rk index op has {} trailing bytes'' (take_rk_keys (from_bytes (slice buf 0 16))) 16 buf"
proof (cases "read_optional_key buf 16")
  case (Inr x)
  then show ?thesis using assms
    by (cases "read_optional_key buf (snd x)") (auto simp: decode_rk_index_op_def decode_all_def bindP_def returnP_def Let_def case_prod_unfold)
qed (use assms in \<open>simp add: decode_rk_index_op_def decode_all_def bindP_def\<close>)

interpretation rk_op: buffer_codec encode_rk_index_op decode_rk_index_op wf_rk_op
proof
  fix b op
  have get: "consumes (take_rk_keys pk) (\<lambda>op bs. rk_pk_id op = pk \<and> wf_rk_op op \<and> bs = push_optional_key (old_rank_key op) @ push_optional_key (new_rank_key op))" for pk
    by (rule consumes_bind [OF optional_key.tak_put], rule consumes_bind [OF optional_key.tak_put], rule consumes_return) (auto simp: wf_rk_op_def)
  have put: "encodes (take_rk_keys (rk_pk_id op)) (push_optional_key (old_rank_key op) @ push_optional_key (new_rank_key op)) op" if "wf_rk_op op"
    using that by (intro encodes_bind [OF optional_key.put_tak] encodes_bind_return [OF optional_key.put_tak]) (auto simp: wf_rk_op_def)
  show "decode_rk_index_op b = Inr op \<longleftrightarrow> wf_rk_op op \<and> b = encode_rk_index_op op"
  proof
    assume dec: "decode_rk_index_op b = Inr op"
    then have len: "16 \<le> length b" by (auto simp: decode_rk_index_op_def split: if_splits)
    then have "decode_all ''rk index op has {} trailing bytes'' (take_rk_keys (from_bytes (slice b 0 16))) 16 b = Inr op"
      using dec by (simp add: decode_rk_index_op_taker)
    from decode_all_get [OF get this len] have *: "rk_pk_id op = from_bytes (slice b 0 16)" "wf_rk_op op"
      "drop 16 b = push_optional_key (old_rank_key op) @ push_optional_key (new_rank_key op)" by auto
    have "b = take 16 b @ drop 16 b" by simp
    also have "take 16 b = as_bytes (rk_pk_id op)" using * len by (simp add: slice_def)
    finally show "wf_rk_op op \<and> b = encode_rk_index_op op" using * by (simp add: encode_rk_index_op_def)
  next
    assume *: "wf_rk_op op \<and> b = encode_rk_index_op op"
    then have b: "b = as_bytes (rk_pk_id op) @ push_optional_key (old_rank_key op) @ push_optional_key (new_rank_key op)"
      by (simp add: encode_rk_index_op_def)
    then have pk: "from_bytes (slice b 0 16) = rk_pk_id op" by (simp add: slice_def)
    have "take_rk_keys (rk_pk_id op) b 16 = Inr (op, length b)"
      unfolding b using encodes_allD [OF encodes_all_weaken [OF put], of "as_bytes (rk_pk_id op)"] * by simp
    then show "decode_rk_index_op b = Inr op" using pk b by (simp add: decode_rk_index_op_taker decode_all_def)
  qed
qed

section \<open>Properties\<close>

text \<open>
  C22: Rank keys compare as the numbers do. The 8-byte keys of two integers are ordered byte by byte
  as the integers are, those of two floats by \<open>total_cmp\<close>, timestamps by their signed value, and each
  key decodes to the number it was made from.
\<close>

theorem rank_keys_preserve_order:
  "\<exists>ka kb fa fb. encode_rank_key (VI64 a) = Inr ka \<and> encode_rank_key (VI64 b) = Inr kb \<and> encode_rank_key (VF64 a) = Inr fa \<and> encode_rank_key (VF64 b) = Inr fb \<and>
     length ka = 8 \<and> length fa = 8 \<and> (ka < kb \<longleftrightarrow> i64_less a b) \<and> (fa < fb \<longleftrightarrow> total_less a b) \<and>
     decode_rank_key ScoreI64 ka = VI64 a \<and> decode_rank_key ScoreF64 fa = VF64 a \<and>
     (encode_ts a < encode_ts b \<longleftrightarrow> i64_less a b) \<and> decode_ts (encode_ts a) = a"
  using total_key_inverse [of a]
  by (simp add: encode_rank_key_simps u64_to_be_less xor_sign_less i64_less_def total_less_def decode_rank_key_def encode_ts_def decode_ts_def Let_def
      split: if_splits)

end
