(* ===== verification/Schema.thy ===== *)
theory Schema
  imports Field_Values Messages
begin

text \<open>
  Declared datum types, \<open>seisin-types/src/schema.rs\<close>: the definition record with its builder calls,
  which panic on a declaration bug, the check of a primary key, and the encoding of a datum.
  \<open>DatumId::from_name\<close>, the name-based UUID of the uuid crate, is the argument \<open>from_name\<close>.
\<close>

section \<open>Definitions\<close>

datatype pk_kind = PkUuid | PkEnum "rstring list"

datatype field_check = Gt field_value | Ge field_value | Lt field_value | Le field_value | MinLen u32 | MaxLen u32

record field_check_def =
  cd_field :: rstring
  cd_check :: field_check

datatype fk_target =
    FkPkUuid rstring
  | FkPkEnum rstring "rstring list"
  | FkSkUnique rstring rstring

datatype on_delete = Restrict | Track

record guard_ref =
  gr_type_name :: rstring
  gr_field :: rstring
  gr_on_delete :: on_delete

datatype conflict_op = ConflictOp rstring

record relational_constraint_def =
  rc_field :: rstring
  rc_references :: fk_target
  rc_resolution :: "conflict_op option"

datatype index_def = SkIndex rstring "conflict_op option" | RkIndex rstring

record datum_type_def =
  dt_name :: rstring
  dt_version :: u16
  dt_pk :: pk_kind
  dt_fields :: "(rstring \<times> field_type) list"
  dt_indexes :: "index_def list"
  dt_constraints :: "relational_constraint_def list"
  dt_guards :: "guard_ref list"
  dt_checks :: "field_check_def list"
  dt_track_extent :: bool
  dt_rescan_every_millis :: "u64 option"
  dt_replication_factor :: u16

section \<open>Builders\<close>

definition def_new :: "rstring \<Rightarrow> datum_type_def" where
  "def_new name =
     \<lparr>dt_name = name, dt_version = 1, dt_pk = PkUuid, dt_fields = [], dt_indexes = [], dt_constraints = [],
      dt_guards = [], dt_checks = [], dt_track_extent = False, dt_rescan_every_millis = None, dt_replication_factor = 1\<rparr>"

definition def_track_extent :: "datum_type_def \<Rightarrow> datum_type_def" where
  "def_track_extent d = d\<lparr>dt_track_extent := True\<rparr>"

definition def_replicated :: "u16 \<Rightarrow> datum_type_def \<Rightarrow> datum_type_def" where
  "def_replicated factor d = d\<lparr>dt_replication_factor := factor\<rparr>"

definition def_rescan_every_millis :: "u64 \<Rightarrow> datum_type_def \<Rightarrow> datum_type_def" where
  "def_rescan_every_millis millis d = d\<lparr>dt_rescan_every_millis := Some millis\<rparr>"

text \<open>\<open>self.fields.iter().find(|(name, _)| name == field)\<close>\<close>

definition declared :: "datum_type_def \<Rightarrow> rstring \<Rightarrow> field_type option" where
  "declared d field = map_of (dt_fields d) field"

definition comparable :: "field_type \<Rightarrow> field_value \<Rightarrow> bool" where
  "comparable ty bound \<longleftrightarrow> (case (ty, bound) of (TI64, VI64 _) \<Rightarrow> True | (TF64, VF64 _) \<Rightarrow> True | _ \<Rightarrow> False)"

definition def_check :: "rstring \<Rightarrow> field_check \<Rightarrow> datum_type_def \<Rightarrow> datum_type_def result" where
  "def_check field check d =
     (case declared d field of
        None \<Rightarrow> Inl (Panic ''check field {:?} on type {:?} is not a declared field'' [])
      | Some ty \<Rightarrow>
          let ordered = (\<lambda>bound.
                if comparable ty bound then Inr ()
                else Inl (Panic ''comparison check on field {:?} of type {:?} requires field and bound both I64 or both F64'' []));
              measured =
                (if ty = TString \<or> ty = TBytes then Inr ()
                 else Inl (Panic ''length check on field {:?} of type {:?} requires a String or Bytes field'' []))
          in bindE (case check of
                 Gt bound \<Rightarrow> ordered bound | Ge bound \<Rightarrow> ordered bound | Lt bound \<Rightarrow> ordered bound | Le bound \<Rightarrow> ordered bound
               | MinLen _ \<Rightarrow> measured | MaxLen _ \<Rightarrow> measured)
             (\<lambda>_. Inr (d\<lparr>dt_checks := dt_checks d @ [\<lparr>cd_field = field, cd_check = check\<rparr>]\<rparr>)))"

definition def_guard :: "guard_ref \<Rightarrow> datum_type_def \<Rightarrow> datum_type_def result" where
  "def_guard guard d =
     (if gr_type_name guard = [] \<or> gr_field guard = []
      then Inl (Panic ''guard on type {:?} must name a referencing type and field'' [])
      else Inr (d\<lparr>dt_guards := dt_guards d @ [guard]\<rparr>))"

definition def_constraint :: "relational_constraint_def \<Rightarrow> datum_type_def \<Rightarrow> datum_type_def result" where
  "def_constraint c d =
     (case declared d (rc_field c) of
        None \<Rightarrow> Inl (Panic ''constraint field {:?} on type {:?} is not a declared field'' [])
      | Some ty \<Rightarrow>
          bindE (case rc_references c of
              FkPkEnum _ _ \<Rightarrow>
                if ty = TString then Inr () else Inl (Panic ''PkEnum constraint field {:?} on type {:?} must be String, found {:?}'' [])
            | FkPkUuid _ \<Rightarrow>
                if ty = TBytes then Inr ()
                else Inl (Panic ''PkUuid constraint field {:?} on type {:?} must be Bytes (a 16-byte DatumId), found {:?}'' [])
            | FkSkUnique _ _ \<Rightarrow>
                (case ty of
                   TArray _ \<Rightarrow> Inl (Panic ''SkUnique constraint field {:?} on type {:?} must be a primitive natural-key value'' [])
                 | TDict _ _ \<Rightarrow> Inl (Panic ''SkUnique constraint field {:?} on type {:?} must be a primitive natural-key value'' [])
                 | _ \<Rightarrow> Inr ()))
            (\<lambda>_. Inr (d\<lparr>dt_constraints := dt_constraints d @ [c]\<rparr>)))"

definition def_pk :: "pk_kind \<Rightarrow> datum_type_def \<Rightarrow> datum_type_def" where
  "def_pk pk d = d\<lparr>dt_pk := pk\<rparr>"

definition def_version :: "u16 \<Rightarrow> datum_type_def \<Rightarrow> datum_type_def" where
  "def_version v d = d\<lparr>dt_version := v\<rparr>"

definition def_field :: "rstring \<Rightarrow> field_type \<Rightarrow> datum_type_def \<Rightarrow> datum_type_def" where
  "def_field name ty d = d\<lparr>dt_fields := dt_fields d @ [(name, ty)]\<rparr>"

definition def_index :: "index_def \<Rightarrow> datum_type_def \<Rightarrow> datum_type_def result" where
  "def_index index d =
     bindE (case index of
         RkIndex field \<Rightarrow>
           if declared d field = Some TI64 \<or> declared d field = Some TF64 then Inr ()
           else Inl (Panic ''rk index field {:?} on type {:?} must be a declared I64 or F64 field, found {:?}'' [])
       | SkIndex _ _ \<Rightarrow> Inr ())
       (\<lambda>_. Inr (d\<lparr>dt_indexes := dt_indexes d @ [index]\<rparr>))"

section \<open>Primary keys\<close>

definition derived_id_namespace :: datum_id where
  "derived_id_namespace = from_bytes [0x5e, 0x15, 0x1a, 0x00, 0xd1, 0xd5, 0x4e, 0x1d, 0x9a, 0x53, 0x00, 0x00, 0x00, 0x00, 0x00, 0x01]"

type_synonym namer = "datum_id \<Rightarrow> bytes \<Rightarrow> datum_id"

definition enum_pk_id :: "namer \<Rightarrow> rstring \<Rightarrow> rstring \<Rightarrow> datum_id" where
  "enum_pk_id from_name type_name mnemonic =
     from_name derived_id_namespace (lit ''pk:'' @ type_name @ lit '':'' @ mnemonic)"

definition check_pk :: "namer \<Rightarrow> datum_id \<Rightarrow> datum_type_def \<Rightarrow> unit result" where
  "check_pk from_name pk_id d =
     (case dt_pk d of
        PkUuid \<Rightarrow>
          if drop_bit 4 (as_bytes pk_id ! 6) \<noteq> 7
          then Inl (Bail ''type {:?} declares Uuid pk identity: id {:?} is not a version-7 uuid'' []) else Inr ()
      | PkEnum mnemonics \<Rightarrow>
          if \<not> list_ex (\<lambda>m. enum_pk_id from_name (dt_name d) m = pk_id) mnemonics
          then Inl (Bail ''type {:?} declares Enum pk identity: id {:?} matches none of its {} mnemonics'' [length mnemonics])
          else Inr ())"

section \<open>Encoding a datum\<close>

fun encode_values :: "(rstring \<times> field_type) list \<Rightarrow> field_value list \<Rightarrow> bytes result" where
  "encode_values ((name, ty) # rest) (v # vs) =
     (if \<not> value_matches_type v ty
      then Inl (Bail ''value for field {:?} on datum type {:?} does not match its declared type {:?}'' [])
      else bindE (encode_values rest vs) (\<lambda>bs. Inr (encode_field_value v @ bs)))"
| "encode_values _ _ = Inr []"

definition encode_datum :: "datum_type_def \<Rightarrow> field_value list \<Rightarrow> bytes result" where
  "encode_datum d vs =
     (if length vs \<noteq> length (dt_fields d)
      then Inl (Bail ''datum type {:?} has {} fields but {} values were given'' [length (dt_fields d), length vs])
      else bindE (encode_values (dt_fields d) vs) (\<lambda>body. Inr (u16_to_le (dt_version d) @ body)))"

fun decode_values :: "(rstring \<times> field_type) list \<Rightarrow> field_value list taker" where
  "decode_values [] = returnP []"
| "decode_values ((name, ty) # rest) =
     bindP (decode_field_value ty) (\<lambda>v. bindP (decode_values rest) (\<lambda>vs. returnP (v # vs)))"

definition decode_datum :: "datum_type_def \<Rightarrow> bytes \<Rightarrow> field_value list result" where
  "decode_datum d buf =
     (if length buf < 2 then Inl (Bail ''datum bytes too short for a schema version prefix: {} bytes'' [length buf])
      else
        let stored_version = u16_from_le (slice buf 0 2) in
        if stored_version \<noteq> dt_version d
        then Inl (Bail ''datum was encoded at schema version {} but type {:?} is at version {}'' [unat stored_version, unat (dt_version d)])
        else bindE (decode_values (dt_fields d) buf 2) (\<lambda>(vs, off).
          if off \<noteq> length buf
          then Inl (Bail ''datum type {:?} decoded {} of {} bytes; {} trailing bytes unaccounted for'' [off, length buf, length buf - off])
          else Inr vs))"

section \<open>Datums\<close>

definition typed_values :: "(rstring \<times> field_type) list \<Rightarrow> field_value list \<Rightarrow> bool" where
  "typed_values fs vs \<longleftrightarrow> list_all2 (\<lambda>(name, ty) v. value_matches_type v ty) fs vs"

lemma typed_values_simps [simp]:
  "typed_values [] vs \<longleftrightarrow> vs = []"
  "typed_values ((name, ty) # fs) (v # vs) \<longleftrightarrow> value_matches_type v ty \<and> typed_values fs vs"
  "typed_values (f # fs) [] \<longleftrightarrow> False"
  by (simp_all add: typed_values_def)

lemma encode_values_ok:
  "length vs = length fs \<Longrightarrow> encode_values fs vs = Inr bs \<longleftrightarrow> typed_values fs vs \<and> bs = concat (map encode_field_value vs)"
proof (induction fs vs arbitrary: bs rule: encode_values.induct)
  case (1 name ty fs v vs)
  then show ?case by auto
qed (auto simp: typed_values_def)

lemma encode_datum_ok:
  "encode_datum d vs = Inr bs \<longleftrightarrow> typed_values (dt_fields d) vs \<and> bs = u16_to_le (dt_version d) @ concat (map encode_field_value vs)"
proof (cases "length vs = length (dt_fields d)")
  case False
  then have "\<not> typed_values (dt_fields d) vs" by (auto simp: typed_values_def dest: list_all2_lengthD)
  with False show ?thesis by (simp add: encode_datum_def)
qed (auto simp: encode_datum_def encode_values_ok)

lemma decode_values_encodes:
  "typed_values fs vs \<Longrightarrow> list_all wf_value vs \<Longrightarrow> encodes (decode_values fs) (concat (map encode_field_value vs)) vs"
proof (induction fs arbitrary: vs)
  case Nil
  then show ?case by (simp add: encodes_return)
next
  case (Cons f fs)
  obtain name ty where f: "f = (name, ty)" by force
  obtain v ws where vs: "vs = v # ws" using Cons.prems(1) by (cases vs) auto
  show ?case using Cons by (auto simp: f vs intro!: encodes_bind encodes_bind_return decode_encode_value)
qed

lemma decode_values_typed:
  "consumes (decode_values fs)
     (\<lambda>vs bs. (typed_values fs vs \<and> list_all wf_value vs) \<and> length bs = length (concat (map encode_field_value vs)))"
proof (induction fs)
  case Nil
  show ?case by (simp add: consumes_return)
next
  case (Cons f fs)
  obtain name ty where f: "f = (name, ty)" by force
  show ?case unfolding f decode_values.simps
    by (rule consumes_bind [OF decode_value_typed], rule consumes_bind [OF Cons], rule consumes_return) auto
qed

lemma decode_datum_encoded:
  assumes "encode_datum d vs = Inr bs" "list_all wf_value vs"
  shows "decode_datum d bs = Inr vs"
proof -
  have vs: "typed_values (dt_fields d) vs" and bs: "bs = u16_to_le (dt_version d) @ concat (map encode_field_value vs)"
    using assms(1) by (simp_all add: encode_datum_ok)
  have "decode_values (dt_fields d) bs 2 = Inr (vs, length bs)"
    using encodes_allD [OF encodes_all_weaken [OF decode_values_encodes [OF vs assms(2)]], of "u16_to_le (dt_version d)"] by (simp add: bs)
  then show ?thesis by (simp add: decode_datum_def bs slice_def)
qed

lemma decode_datum_typed:
  assumes "decode_datum d bs = Inr vs"
  shows "typed_values (dt_fields d) vs" "list_all wf_value vs" "length bs = 2 + length (concat (map encode_field_value vs))"
    "u16_from_le (slice bs 0 2) = dt_version d"
proof -
  have run: "decode_values (dt_fields d) bs 2 = Inr (vs, length bs)" and len: "2 \<le> length bs" and v: "u16_from_le (slice bs 0 2) = dt_version d"
    using assms by (auto simp: decode_datum_def Let_def split: if_splits)
  have *: "(typed_values (dt_fields d) vs \<and> list_all wf_value vs) \<and> length (slice bs 2 (length bs)) = length (concat (map encode_field_value vs))"
    using decode_values_typed [of "dt_fields d", unfolded consumes_def] run len by blast
  then show "typed_values (dt_fields d) vs" "list_all wf_value vs" "length bs = 2 + length (concat (map encode_field_value vs))"
    using len by auto
  show "u16_from_le (slice bs 0 2) = dt_version d" by (rule v)
qed

lemma encoded_version: "encode_datum d vs = Inr bs \<Longrightarrow> 2 \<le> length bs \<and> u16_from_le (slice bs 0 2) = dt_version d"
  by (simp add: encode_datum_ok slice_def)

section \<open>Declarations\<close>

text \<open>A chain of builder calls; \<open>build\<close> stops at the first panic.\<close>

datatype build_call =
    BTrackExtent | BReplicated u16 | BRescan u64 | BCheck rstring field_check | BGuard guard_ref
  | BConstraint relational_constraint_def | BPk pk_kind | BVersion u16 | BField rstring field_type | BIndex index_def

fun build_step :: "build_call \<Rightarrow> datum_type_def \<Rightarrow> datum_type_def result" where
  "build_step BTrackExtent d = Inr (def_track_extent d)"
| "build_step (BReplicated n) d = Inr (def_replicated n d)"
| "build_step (BRescan ms) d = Inr (def_rescan_every_millis ms d)"
| "build_step (BCheck f c) d = def_check f c d"
| "build_step (BGuard g) d = def_guard g d"
| "build_step (BConstraint c) d = def_constraint c d"
| "build_step (BPk pk) d = Inr (def_pk pk d)"
| "build_step (BVersion v) d = Inr (def_version v d)"
| "build_step (BField f ty) d = Inr (def_field f ty d)"
| "build_step (BIndex i) d = def_index i d"

fun build :: "build_call list \<Rightarrow> datum_type_def \<Rightarrow> datum_type_def result" where
  "build [] d = Inr d"
| "build (c # cs) d = bindE (build_step c d) (build cs)"

fun check_fits :: "field_check \<Rightarrow> field_type \<Rightarrow> bool" where
  "check_fits (MinLen n) ty \<longleftrightarrow> ty = TString \<or> ty = TBytes"
| "check_fits (MaxLen n) ty \<longleftrightarrow> ty = TString \<or> ty = TBytes"
| "check_fits (Gt b) ty \<longleftrightarrow> comparable ty b"
| "check_fits (Ge b) ty \<longleftrightarrow> comparable ty b"
| "check_fits (Lt b) ty \<longleftrightarrow> comparable ty b"
| "check_fits (Le b) ty \<longleftrightarrow> comparable ty b"

fun target_fits :: "fk_target \<Rightarrow> field_type \<Rightarrow> bool" where
  "target_fits (FkPkUuid t) ty \<longleftrightarrow> ty = TBytes"
| "target_fits (FkPkEnum t ms) ty \<longleftrightarrow> ty = TString"
| "target_fits (FkSkUnique t f) ty \<longleftrightarrow> (\<forall>inner. ty \<noteq> TArray inner) \<and> (\<forall>k inner. ty \<noteq> TDict k inner)"

definition well_declared :: "datum_type_def \<Rightarrow> bool" where
  "well_declared d \<longleftrightarrow>
     (\<forall>c\<in>set (dt_checks d). \<exists>ty. declared d (cd_field c) = Some ty \<and> check_fits (cd_check c) ty) \<and>
     (\<forall>c\<in>set (dt_constraints d). \<exists>ty. declared d (rc_field c) = Some ty \<and> target_fits (rc_references c) ty) \<and>
     (\<forall>f. RkIndex f \<in> set (dt_indexes d) \<longrightarrow> declared d f = Some TI64 \<or> declared d f = Some TF64) \<and>
     (\<forall>g\<in>set (dt_guards d). gr_type_name g \<noteq> [] \<and> gr_field g \<noteq> [])"

lemma well_declared_mono:
  assumes "well_declared d" "\<And>f ty. declared d f = Some ty \<Longrightarrow> declared d' f = Some ty"
    "dt_checks d' = dt_checks d" "dt_constraints d' = dt_constraints d" "dt_indexes d' = dt_indexes d" "dt_guards d' = dt_guards d"
  shows "well_declared d'"
  using assms(1) unfolding well_declared_def assms(3-6) by (blast intro: assms(2))

lemma declared_field: "declared d f = Some ty \<Longrightarrow> declared (def_field name t d) f = Some ty"
  by (auto simp: declared_def def_field_def map_add_def)

lemma well_declared_field: "well_declared d \<Longrightarrow> well_declared (def_field name ty d)"
  by (erule well_declared_mono, erule declared_field) (simp_all add: def_field_def)

lemma well_declared_simple:
  assumes "well_declared d"
  shows "well_declared (def_track_extent d)" "well_declared (def_replicated n d)" "well_declared (def_rescan_every_millis ms d)"
    "well_declared (def_pk pk d)" "well_declared (def_version v d)"
  by (rule well_declared_mono [OF assms], simp_all add: declared_def def_track_extent_def def_replicated_def
      def_rescan_every_millis_def def_pk_def def_version_def)+

lemma well_declared_check: "well_declared d \<Longrightarrow> def_check f c d = Inr d' \<Longrightarrow> well_declared d'"
  by (cases c) (auto simp: well_declared_def def_check_def declared_def Let_def split: option.splits if_splits)

lemma well_declared_guard: "well_declared d \<Longrightarrow> def_guard g d = Inr d' \<Longrightarrow> well_declared d'"
  by (auto simp: well_declared_def def_guard_def declared_def split: if_splits)

lemma well_declared_constraint: "well_declared d \<Longrightarrow> def_constraint c d = Inr d' \<Longrightarrow> well_declared d'"
  by (cases "rc_references c")
    (auto simp: well_declared_def def_constraint_def declared_def split: option.splits if_splits field_type.splits)

lemma well_declared_index: "well_declared d \<Longrightarrow> def_index i d = Inr d' \<Longrightarrow> well_declared d'"
  by (cases i) (auto simp: well_declared_def def_index_def declared_def split: if_splits)

lemma well_declared_step: "well_declared d \<Longrightarrow> build_step c d = Inr d' \<Longrightarrow> well_declared d'"
  by (cases c) (auto simp: well_declared_simple well_declared_field intro: well_declared_check well_declared_guard well_declared_constraint well_declared_index)

lemma well_declared_build: "build cs d = Inr d' \<Longrightarrow> well_declared d \<Longrightarrow> well_declared d'"
  by (induction cs arbitrary: d) (auto intro: well_declared_step)

lemma well_declared_new: "well_declared (def_new name)"
  by (simp add: well_declared_def def_new_def)

section \<open>Properties\<close>

text \<open>
  C20: Decoding respects the declared types. What \<open>decode_datum\<close> returns has one value per field, each of
  the declared type; the values encode again, to as many bytes, and these decode to the same values.
\<close>

theorem decoded_values_have_their_types:
  assumes "decode_datum d bs = Inr vs"
  shows "list_all2 (\<lambda>(name, ty) v. value_matches_type v ty) (dt_fields d) vs \<and>
    (\<exists>out. encode_datum d vs = Inr out \<and> length out = length bs \<and> decode_datum d out = Inr vs)"
proof -
  let ?out = "u16_to_le (dt_version d) @ concat (map encode_field_value vs)"
  have out: "encode_datum d vs = Inr ?out" using decode_datum_typed(1) [OF assms] by (simp add: encode_datum_ok)
  moreover have "length ?out = length bs" using decode_datum_typed(3) [OF assms] by simp
  moreover have "decode_datum d ?out = Inr vs" by (rule decode_datum_encoded [OF out decode_datum_typed(2) [OF assms]])
  ultimately show ?thesis using decode_datum_typed(1) [OF assms] by (auto simp: typed_values_def)
qed

theorem decoded_values_have_their_types_witness:
  "decode_datum (def_field (lit ''on'') TBool (def_field (lit ''tags'') (TArray TBytes) (def_new (lit ''t''))))
     [1, 0, 1, 0, 0, 0, 2, 0, 0, 0, 7, 8, 9] = Inr [VArray [VBytes [7, 8]], VBool True] \<and>
   list_all2 (\<lambda>(name, ty) v. value_matches_type v ty)
     (dt_fields (def_field (lit ''on'') TBool (def_field (lit ''tags'') (TArray TBytes) (def_new (lit ''t''))))) [VArray [VBytes [7, 8]], VBool True]"
proof -
  have *: "decode_datum (def_field (lit ''on'') TBool (def_field (lit ''tags'') (TArray TBytes) (def_new (lit ''t''))))
     [1, 0, 1, 0, 0, 0, 2, 0, 0, 0, 7, 8, 9] = Inr [VArray [VBytes [7, 8]], VBool True]"
    by code_simp
  from decoded_values_have_their_types [OF this] * show ?thesis by blast
qed

text \<open>
  Datums round trip under one schema version only. Values that \<open>encode_datum\<close> accepts and that fit
  the 32-bit counts are read back by \<open>decode_datum\<close>; under any other version the bytes are refused.
\<close>

theorem datum_round_trip:
  assumes "encode_datum d vs = Inr bs" and "list_all wf_value vs"
  shows "decode_datum d bs = Inr vs \<and> (\<forall>v. v \<noteq> dt_version d \<longrightarrow> (\<exists>e. decode_datum (def_version v d) bs = Inl e))"
  using decode_datum_encoded [OF assms] encoded_version [OF assms(1)] by (auto simp: decode_datum_def [of "d\<lparr>dt_version := _\<rparr>"] def_version_def)

theorem datum_round_trip_witness:
  "decode_datum (def_field (lit ''n'') TI64 (def_new (lit ''t''))) ([1, 0] @ u64_to_le 5) = Inr [VI64 5]"
proof -
  have "encode_datum (def_field (lit ''n'') TI64 (def_new (lit ''t''))) [VI64 5] = Inr ([1, 0] @ u64_to_le 5)"
    by code_simp
  from datum_round_trip [OF this] show ?thesis by simp
qed

text \<open>
  What the builder calls accept is well declared. Whatever calls build a type, if none panics, then
  every check and every constraint names a declared field of a type it can apply to, every ranked
  index names a numeric field, and every guard names a type and a field.
\<close>

theorem built_types_are_well_declared:
  assumes "build calls (def_new name) = Inr d"
  shows "well_declared d"
  by (rule well_declared_build [OF assms well_declared_new])

theorem built_types_are_well_declared_witness:
  "\<exists>d. build [BField (lit ''n'') TI64, BIndex (RkIndex (lit ''n'')), BCheck (lit ''n'') (Gt (VI64 3)), BField (lit ''n'') TString] (def_new (lit ''t'')) = Inr d \<and>
     well_declared d"
proof -
  have "\<exists>d. build [BField (lit ''n'') TI64, BIndex (RkIndex (lit ''n'')), BCheck (lit ''n'') (Gt (VI64 3)), BField (lit ''n'') TString] (def_new (lit ''t'')) = Inr d"
    by (simp add: def_field_def def_index_def def_check_def def_new_def declared_def comparable_def)
  then show ?thesis using built_types_are_well_declared by blast
qed

end
