(* ===== verification/Rk_Index.thy ===== *)
theory Rk_Index
  imports Index_Kind Rank_Key Schema Wire_Queries "HOL-Library.Product_Lexorder"
begin

text \<open>
  The ranked index, \<open>seisin-types/src/rk_kind.rs\<close>, and the partitions of a type,
  \<open>seisin-types/src/partition.rs\<close>: two kinds that keep a set in one B+tree file per index. A
  ranked index is a set of pairs of rank key and primary key, a partition a set of primary keys;
  queries list the sets in order.
\<close>

section \<open>Ranked indexes\<close>

definition RK_KEY_SIZE :: u32 where "RK_KEY_SIZE = 24"
definition RK_VALUE_SIZE :: u32 where "RK_VALUE_SIZE = 16"
definition RK_PAGE_SIZE :: u32 where "RK_PAGE_SIZE = 4096"

definition rk_key :: "namer \<Rightarrow> rstring \<Rightarrow> rstring \<Rightarrow> datum_id" where
  "rk_key from_name type_name field_name =
     from_name derived_id_namespace (lit ''rk:'' @ type_name @ lit ''.'' @ field_name)"

definition rk_file_name_for :: "datum_id \<Rightarrow> rstring" where
  "rk_file_name_for target = index_file ''rk_'' target"

definition composite_key :: "bytes \<Rightarrow> datum_id \<Rightarrow> bytes" where
  "composite_key rank_key pk_id = rank_key @ as_bytes pk_id"

definition rk_apply :: "bytes \<Rightarrow> btree \<Rightarrow> (apply_outcome \<times> btree) result option" where
  "rk_apply payload tree =
     (case decode_rk_index_op payload of
        Inl e \<Rightarrow> Some (Inr (rejected (lit ''malformed rk index payload: '' @ to_string e), tree))
      | Inr op \<Rightarrow>
          on_tree (case old_rank_key op of
              None \<Rightarrow> Some (Inr tree)
            | Some old \<Rightarrow> map_option (\<lambda>r. bindE r (\<lambda>(_, t). Inr t)) (btree_remove tree (composite_key old (rk_pk_id op))))
            (\<lambda>e. (rejected (lit ''rk remove failed: '' @ e), tree))
            (\<lambda>tree. on_tree (case new_rank_key op of
                None \<Rightarrow> Some (Inr tree)
              | Some new \<Rightarrow> btree_insert tree (composite_key new (rk_pk_id op)) (as_bytes (rk_pk_id op)))
              (\<lambda>e. (rejected (lit ''rk insert failed: '' @ e), tree))
              (\<lambda>tree. Some (Inr (accepted, tree)))))"

definition rk_query :: "bytes \<Rightarrow> btree \<Rightarrow> (rstring + bytes) result option" where
  "rk_query query tree =
     (case decode_rk_query_kind query of
        Inl e \<Rightarrow> Some (Inr (Inl (to_string e)))
      | Inr kind \<Rightarrow>
          on_tree (case kind of
              TopN n \<Rightarrow> scan_backward_bounded tree (unat n)
            | BottomN n \<Rightarrow> scan_forward_bounded tree (unat n)
            | PercentileSample k \<Rightarrow> sample_by_rank tree (unat k))
            Inl
            (\<lambda>raw. Some
               (if list_all (\<lambda>(key, v). length v = 16 \<and> 8 \<le> length key) raw
                then Inr (Inr (encode_rk_entries (map (\<lambda>(key, v). (slice key 0 8, from_bytes v)) raw)))
                else Inl (Panic ''rk values are 16 bytes'' []))))"

definition rk_open :: "(rstring \<rightharpoonup> bytes) \<Rightarrow> datum_id \<Rightarrow> btree result" where
  "rk_open files target = open_index_file files (rk_file_name_for target) RK_KEY_SIZE RK_VALUE_SIZE RK_PAGE_SIZE"

section \<open>Partitions\<close>

definition PARTITION_PAGE_SIZE :: u32 where "PARTITION_PAGE_SIZE = 4096"

definition partition_key :: "namer \<Rightarrow> rstring \<Rightarrow> rstring \<Rightarrow> datum_id" where
  "partition_key from_name type_name part =
     from_name derived_id_namespace (lit ''partition:'' @ type_name @ lit '':'' @ part)"

definition extent_key :: "namer \<Rightarrow> rstring \<Rightarrow> datum_id" where
  "extent_key from_name type_name = partition_key from_name type_name (lit ''all'')"

definition invalid_key :: "namer \<Rightarrow> rstring \<Rightarrow> datum_id" where
  "invalid_key from_name type_name = partition_key from_name type_name (lit ''invalid'')"

definition partition_file_name_for :: "datum_id \<Rightarrow> rstring" where
  "partition_file_name_for target = index_file ''partition_'' target"

definition partition_change :: "extent_op \<Rightarrow> btree \<Rightarrow> btree result option" where
  "partition_change op tree =
     (case op of
        ExtentInsert pk \<Rightarrow> btree_insert tree (as_bytes pk) [0]
      | ExtentRemove pk \<Rightarrow> map_option (\<lambda>r. bindE r (\<lambda>(_, t). Inr t)) (btree_remove tree (as_bytes pk)))"

definition partition_apply :: "bytes \<Rightarrow> btree \<Rightarrow> (apply_outcome \<times> btree) result option" where
  "partition_apply payload tree =
     (case decode_extent_op payload of
        Inl e \<Rightarrow> Some (Inr (rejected (lit ''malformed partition payload: '' @ to_string e), tree))
      | Inr op \<Rightarrow>
          on_tree (partition_change op tree) (\<lambda>e. (rejected (lit ''partition apply failed: '' @ e), tree))
            (\<lambda>tree. Some (Inr (accepted, tree))))"

definition partition_query :: "bytes \<Rightarrow> btree \<Rightarrow> (rstring + bytes) result option" where
  "partition_query query tree =
     (case decode_extent_page query of
        Inl e \<Rightarrow> Some (Inr (Inl (to_string e)))
      | Inr (offset, limit) \<Rightarrow>
          on_tree (scan_from_rank tree offset (unat limit)) Inl
            (\<lambda>raw. Some
               (if list_all (\<lambda>(key, v). length key = 16) raw
                then Inr (Inr (encode_extent_result (of_nat (btree_len tree)) (map (\<lambda>(key, v). from_bytes key) raw)))
                else Inl (Panic ''partition keys are 16 bytes'' []))))"

definition partition_execute :: "bytes \<Rightarrow> btree \<Rightarrow> ((rstring + bytes) \<times> btree) result option" where
  "partition_execute payload tree =
     (case decode_extent_op payload of
        Inl e \<Rightarrow> Some (Inr (Inl (to_string e), tree))
      | Inr op \<Rightarrow>
          on_tree (partition_change op tree) (\<lambda>e. (Inl e, tree))
            (\<lambda>tree. Some (Inr (Inr (encode_extent_result (of_nat (btree_len tree)) []), tree))))"

definition partition_open :: "(rstring \<rightharpoonup> bytes) \<Rightarrow> datum_id \<Rightarrow> btree result" where
  "partition_open files target = open_index_file files (partition_file_name_for target) 16 1 PARTITION_PAGE_SIZE"

section \<open>The sets behind them\<close>

definition rk_item :: "bytes \<times> datum_id \<Rightarrow> bytes \<times> bytes" where
  "rk_item = (\<lambda>(k, pk). (composite_key k pk, as_bytes pk))"

definition pk_item :: "datum_id \<Rightarrow> bytes \<times> bytes" where
  "pk_item pk = (as_bytes pk, [0])"

interpretation rk_set: tree_set rk_item "\<lambda>x. length (fst x) = 8"
proof
  fix x y :: "bytes \<times> datum_id" assume "length (fst x) = 8" "length (fst y) = 8"
  then show "fst (rk_item x) < fst (rk_item y) \<longleftrightarrow> x < y"
    by (cases x; cases y) (auto simp: rk_item_def composite_key_def less_append_same_length as_bytes_less less_prod_simp order_le_less)
qed

interpretation pk_set: tree_set pk_item "\<lambda>_. True"
  by unfold_locales (simp add: pk_item_def as_bytes_less)

text \<open>What an update means for the set.\<close>

definition rk_update :: "rk_index_op \<Rightarrow> (bytes \<times> datum_id) set \<Rightarrow> (bytes \<times> datum_id) set" where
  "rk_update op S =
     (let S = (case old_rank_key op of None \<Rightarrow> S | Some k \<Rightarrow> S - {(k, rk_pk_id op)})
      in case new_rank_key op of None \<Rightarrow> S | Some k \<Rightarrow> insert (k, rk_pk_id op) S)"

definition extent_update :: "extent_op \<Rightarrow> datum_id set \<Rightarrow> datum_id set" where
  "extent_update op S = (case op of ExtentInsert pk \<Rightarrow> insert pk S | ExtentRemove pk \<Rightarrow> S - {pk})"


text \<open>The tree holds exactly the set, with room for \<open>n\<close> more insertions.\<close>

definition holds_rk :: "nat \<Rightarrow> btree \<Rightarrow> (bytes \<times> datum_id) set \<Rightarrow> nat \<Rightarrow> bool" where
  "holds_rk N t S n \<longleftrightarrow> keeps N t (map rk_item (sorted_list_of_set S)) n \<and> bt_key_size t = RK_KEY_SIZE \<and> bt_value_size t = RK_VALUE_SIZE \<and>
     finite S \<and> (\<forall>x\<in>S. length (fst x) = 8)"

definition holds_pks :: "nat \<Rightarrow> btree \<Rightarrow> datum_id set \<Rightarrow> nat \<Rightarrow> bool" where
  "holds_pks N t S n \<longleftrightarrow> keeps N t (map pk_item (sorted_list_of_set S)) n \<and> bt_key_size t = 16 \<and> bt_value_size t = 1 \<and> finite S"

lemma rk_insert:
  assumes "holds_rk N t S (Suc n)" "length k = 8"
  shows "\<exists>t'. btree_insert t (composite_key k pk) (as_bytes pk) = Some (Inr t') \<and> holds_rk N t' (insert (k, pk) S) n"
proof -
  have S: "finite S" "\<forall>x\<in>S. length (fst x) = 8" using assms(1) by (simp_all add: holds_rk_def)
  have "keeps N t (map rk_item (sorted_list_of_set S)) (Suc n)" "length (composite_key k pk) = unat (bt_key_size t)" "length (as_bytes pk) = unat (bt_value_size t)"
    using assms by (simp_all add: holds_rk_def composite_key_def RK_KEY_SIZE_def RK_VALUE_SIZE_def)
  from insert_keeps [OF this] show ?thesis
    using rk_set.put_item [OF S, of "(k, pk)"] assms S by (auto simp: holds_rk_def rk_item_def)
qed

lemma rk_remove:
  assumes "holds_rk N t S n" "length k = 8"
  shows "\<exists>gone t'. btree_remove t (composite_key k pk) = Some (Inr (gone, t')) \<and> holds_rk N t' (S - {(k, pk)}) n"
proof -
  have S: "finite S" "\<forall>x\<in>S. length (fst x) = 8" using assms(1) by (simp_all add: holds_rk_def)
  have "keeps N t (map rk_item (sorted_list_of_set S)) n" "length (composite_key k pk) = unat (bt_key_size t)"
    using assms by (simp_all add: holds_rk_def composite_key_def RK_KEY_SIZE_def)
  from remove_keeps [OF this] show ?thesis
    using rk_set.del_item [OF S, of "(k, pk)"] assms S by (auto simp: holds_rk_def rk_item_def)
qed

lemma holds_rk_weaken: "holds_rk N t S (Suc n) \<Longrightarrow> holds_rk N t S n"
  unfolding holds_rk_def using keeps_weaken by auto

lemma rk_apply_step:
  assumes "holds_rk N t S (Suc n)" "wf_rk_op op"
  shows "\<exists>t'. rk_apply (encode_rk_index_op op) t = Some (Inr (accepted, t')) \<and> holds_rk N t' (rk_update op S) n"
proof -
  let ?pk = "rk_pk_id op"
  have dec: "decode_rk_index_op (encode_rk_index_op op) = Inr op" using assms(2) by (simp add: rk_op.exact)
  let ?S = "case old_rank_key op of None \<Rightarrow> S | Some k \<Rightarrow> S - {(k, ?pk)}"
  let ?rem = "\<lambda>t. case old_rank_key op of None \<Rightarrow> Some (Inr t)
      | Some old \<Rightarrow> map_option (\<lambda>r. bindE r (\<lambda>(_, t). Inr t)) (btree_remove t (composite_key old ?pk))"
  let ?ins = "\<lambda>t. case new_rank_key op of None \<Rightarrow> Some (Inr t) | Some new \<Rightarrow> btree_insert t (composite_key new ?pk) (as_bytes ?pk)"
  have "\<exists>t1. ?rem t = Some (Inr t1) \<and> holds_rk N t1 ?S (Suc n)"
  proof (cases "old_rank_key op")
    case (Some k)
    then obtain gone t1 where "btree_remove t (composite_key k ?pk) = Some (Inr (gone, t1))" "holds_rk N t1 (S - {(k, ?pk)}) (Suc n)"
      using rk_remove [OF assms(1), of k ?pk] assms(2) by (auto simp: wf_rk_op_def)
    then show ?thesis by (simp add: Some)
  qed (use assms in simp)
  then obtain t1 where t1: "?rem t = Some (Inr t1)" "holds_rk N t1 ?S (Suc n)" by blast
  have "\<exists>t2. ?ins t1 = Some (Inr t2) \<and> holds_rk N t2 (rk_update op S) n"
  proof (cases "new_rank_key op")
    case None
    then show ?thesis using holds_rk_weaken [OF t1(2)] by (simp add: rk_update_def Let_def)
  next
    case (Some k)
    then show ?thesis using rk_insert [OF t1(2), of k ?pk] assms(2) by (simp add: wf_rk_op_def rk_update_def Let_def)
  qed
  then obtain t2 where t2: "?ins t1 = Some (Inr t2)" "holds_rk N t2 (rk_update op S) n" by blast
  have "rk_apply (encode_rk_index_op op) t = Some (Inr (accepted, t2))"
    by (simp add: rk_apply_def dec t1(1) t2(1))
  with t2(2) show ?thesis by blast
qed

lemma rk_run:
  assumes "holds_rk N t S (length ops + n)" "list_all wf_rk_op ops"
  shows "\<exists>t'. run_updates rk_apply (map encode_rk_index_op ops) t = Some (Inr (replicate (length ops) accepted, t')) \<and> holds_rk N t' (fold rk_update ops S) n"
  using assms
proof (induction ops arbitrary: t S)
  case (Cons op ops)
  then obtain t1 where t1: "rk_apply (encode_rk_index_op op) t = Some (Inr (accepted, t1))" "holds_rk N t1 (rk_update op S) (length ops + n)"
    using rk_apply_step [of N t S "length ops + n" op] by auto
  with Cons.IH [OF t1(2)] Cons.prems(2) show ?case by auto
qed simp

lemma rk_query_listed:
  assumes "holds_rk N t S n"
  shows "rk_query (encode_rk_query_kind (TopN k)) t = Some (Inr (Inr (encode_rk_entries (take (unat k) (rev (sorted_list_of_set S))))))"
    "rk_query (encode_rk_query_kind (BottomN k)) t = Some (Inr (Inr (encode_rk_entries (take (unat k) (sorted_list_of_set S)))))"
proof -
  have dec: "decode_rk_query_kind (encode_rk_query_kind q) = Inr q" for q by (simp add: rk_query_kind.exact)
  have shape: "map (\<lambda>(key, v). (slice key 0 8, from_bytes v)) (map rk_item xs) = xs \<and> list_all (\<lambda>(key, v). length v = 16 \<and> 8 \<le> length key) (map rk_item xs)"
    if "set xs \<subseteq> S" for xs
  proof -
    have "\<forall>x\<in>set xs. length (fst x) = 8" using that assms by (auto simp: holds_rk_def)
    then show ?thesis by (auto simp: list_all_iff rk_item_def composite_key_def slice_def intro!: map_idI)
  qed
  have fin: "finite S" using assms by (simp add: holds_rk_def)
  have sub: "set (take m (rev (sorted_list_of_set S))) \<subseteq> S" "set (take m (sorted_list_of_set S)) \<subseteq> S" for m
    using set_take_subset [of m "rev (sorted_list_of_set S)"] set_take_subset [of m "sorted_list_of_set S"] fin by auto
  have k: "keeps N t (map rk_item (sorted_list_of_set S)) n" using assms by (simp add: holds_rk_def)
  show "rk_query (encode_rk_query_kind (TopN k)) t = Some (Inr (Inr (encode_rk_entries (take (unat k) (rev (sorted_list_of_set S))))))"
    using keeps_scans(2) [OF k, of "unat k"] shape [OF sub(1), of "unat k"] by (simp add: rk_query_def dec rev_map take_map)
  show "rk_query (encode_rk_query_kind (BottomN k)) t = Some (Inr (Inr (encode_rk_entries (take (unat k) (sorted_list_of_set S)))))"
    using keeps_scans(1) [OF k, of "unat k"] shape [OF sub(2), of "unat k"] by (simp add: rk_query_def dec take_map)
qed

lemma pages_room: "2 * Suc p * 4096 \<le> (2 :: nat) ^ 64 \<Longrightarrow> room 4096 (2 * Suc p)"
  by (simp add: room_def)

lemma fresh_rk:
  assumes "2 * Suc p * 4096 \<le> (2 :: nat) ^ 64"
  shows "\<exists>t. rk_open Map.empty target = Inr t \<and> holds_rk (Suc p) t {} p"
proof -
  have "sizes_fit RK_KEY_SIZE RK_VALUE_SIZE RK_PAGE_SIZE" "room RK_PAGE_SIZE (2 * Suc p)"
    using pages_room [OF assms] by (simp_all add: sizes_fit_def RK_KEY_SIZE_def RK_VALUE_SIZE_def RK_PAGE_SIZE_def validate_page_size_def is_power_of_two_def upt_rec)
  from create_keeps [OF this, of p] show ?thesis by (auto simp: rk_open_def open_index_file_def holds_rk_def)
qed

section \<open>Partitions list their set\<close>

lemma partition_change_step:
  assumes "holds_pks N t S (Suc n)"
  shows "\<exists>t'. partition_change op t = Some (Inr t') \<and> holds_pks N t' (extent_update op S) n"
proof (cases op)
  case (ExtentInsert pk)
  have "keeps N t (map pk_item (sorted_list_of_set S)) (Suc n)" "length (as_bytes pk) = unat (bt_key_size t)" "length [0 :: u8] = unat (bt_value_size t)"
    using assms by (simp_all add: holds_pks_def)
  from insert_keeps [OF this] show ?thesis
    using pk_set.put_item [of S pk] assms by (auto simp: ExtentInsert partition_change_def extent_update_def holds_pks_def pk_item_def)
next
  case (ExtentRemove pk)
  have "keeps N t (map pk_item (sorted_list_of_set S)) n" "length (as_bytes pk) = unat (bt_key_size t)"
    using assms keeps_weaken by (auto simp: holds_pks_def)
  from remove_keeps [OF this] show ?thesis
    using pk_set.del_item [of S pk] assms by (auto simp: ExtentRemove partition_change_def extent_update_def holds_pks_def pk_item_def)
qed

lemma partition_apply_step:
  assumes "holds_pks N t S (Suc n)"
  shows "\<exists>t'. partition_apply (encode_extent_op op) t = Some (Inr (accepted, t')) \<and> holds_pks N t' (extent_update op S) n"
proof -
  obtain t' where "partition_change op t = Some (Inr t')" "holds_pks N t' (extent_update op S) n" using partition_change_step [OF assms] by blast
  moreover have "decode_extent_op (encode_extent_op op) = Inr op" by (simp add: extent_op.exact)
  ultimately show ?thesis by (simp add: partition_apply_def)
qed

lemma holds_pks_len: "holds_pks N t S n \<Longrightarrow> btree_len t = card S"
  using keeps_len by (fastforce simp: holds_pks_def)

lemma partition_execute_step:
  assumes "holds_pks N t S (Suc n)"
  shows "\<exists>t'. partition_execute (encode_extent_op op) t = Some (Inr (Inr (encode_extent_result (of_nat (card (extent_update op S))) []), t')) \<and>
    holds_pks N t' (extent_update op S) n"
proof -
  obtain t' where t': "partition_change op t = Some (Inr t')" "holds_pks N t' (extent_update op S) n" using partition_change_step [OF assms] by blast
  moreover have "decode_extent_op (encode_extent_op op) = Inr op" by (simp add: extent_op.exact)
  ultimately show ?thesis using holds_pks_len [OF t'(2)] by (simp add: partition_execute_def)
qed

lemma partition_run:
  assumes "holds_pks N t S (length ops + n)"
  shows "\<exists>t'. run_updates partition_apply (map encode_extent_op ops) t = Some (Inr (replicate (length ops) accepted, t')) \<and> holds_pks N t' (fold extent_update ops S) n"
  using assms
proof (induction ops arbitrary: t S)
  case (Cons op ops)
  then obtain t1 where t1: "partition_apply (encode_extent_op op) t = Some (Inr (accepted, t1))" "holds_pks N t1 (extent_update op S) (length ops + n)"
    using partition_apply_step [of N t S "length ops + n" op] by auto
  with Cons.IH [OF t1(2)] show ?case by auto
qed simp

lemma partition_page:
  assumes "holds_pks N t S n"
  shows "partition_query (encode_extent_page offset limit) t =
    Some (Inr (Inr (encode_extent_result (of_nat (card S)) (take (unat limit) (drop (unat offset) (sorted_list_of_set S))))))"
proof -
  have k: "keeps N t (map pk_item (sorted_list_of_set S)) n" using assms by (simp add: holds_pks_def)
  have dec: "decode_extent_page (encode_extent_page offset limit) = Inr (offset, limit)"
    using extent_page.exact [of "encode_extent_page offset limit" "(offset, limit)"] by simp
  have "map (\<lambda>(key, v). from_bytes key) (map pk_item xs) = xs \<and> list_all (\<lambda>(key, v). length key = 16) (map pk_item xs)" for xs
    by (auto simp: pk_item_def list_all_iff intro!: map_idI)
  then show ?thesis using keeps_scans(3) [OF k, of offset "unat limit"] holds_pks_len [OF assms]
    by (simp add: partition_query_def dec take_map drop_map)
qed

lemma fresh_partition:
  assumes "2 * Suc p * 4096 \<le> (2 :: nat) ^ 64"
  shows "\<exists>t. partition_open Map.empty target = Inr t \<and> holds_pks (Suc p) t {} p"
proof -
  have "sizes_fit 16 1 PARTITION_PAGE_SIZE" "room PARTITION_PAGE_SIZE (2 * Suc p)"
    using pages_room [OF assms] by (simp_all add: sizes_fit_def PARTITION_PAGE_SIZE_def validate_page_size_def is_power_of_two_def upt_rec)
  from create_keeps [OF this, of p] show ?thesis by (auto simp: partition_open_def open_index_file_def holds_pks_def)
qed

section \<open>Properties\<close>

text \<open>
  C21: A ranked index lists its entries in order. Any run of well-formed updates on a fresh index is
  accepted; with \<open>S\<close> the pairs the updates leave, the top query lists them from the greatest rank key
  down, the bottom query from the least up, ties by primary key, and the file opens to the same index.
\<close>

theorem ranked_index_lists_in_order:
  assumes "list_all wf_rk_op ops" and "2 * Suc (length ops) * 4096 \<le> (2 :: nat) ^ 64" and "S = fold rk_update ops {}"
  shows "\<exists>t0 t. rk_open Map.empty target = Inr t0 \<and>
    run_updates rk_apply (map encode_rk_index_op ops) t0 = Some (Inr (replicate (length ops) accepted, t)) \<and>
    rk_open [rk_file_name_for target \<mapsto> ps_file (bt_store t)] target = Inr t \<and>
    (\<forall>k. rk_query (encode_rk_query_kind (TopN k)) t = Some (Inr (Inr (encode_rk_entries (take (unat k) (rev (sorted_list_of_set S)))))) \<and>
         rk_query (encode_rk_query_kind (BottomN k)) t = Some (Inr (Inr (encode_rk_entries (take (unat k) (sorted_list_of_set S))))))"
proof -
  obtain t0 where t0: "rk_open Map.empty target = Inr t0" "holds_rk (Suc (length ops)) t0 {} (length ops + 0)"
    using fresh_rk [OF assms(2)] by auto
  obtain t where t: "run_updates rk_apply (map encode_rk_index_op ops) t0 = Some (Inr (replicate (length ops) accepted, t))"
      "holds_rk (Suc (length ops)) t S 0"
    using rk_run [OF t0(2) assms(1)] assms(3) by blast
  have "btree_open (ps_file (bt_store t)) = Inr t" using t(2) keeps_synced unfolding holds_rk_def by blast
  then have "rk_open [rk_file_name_for target \<mapsto> ps_file (bt_store t)] target = Inr t" by (simp add: rk_open_def open_index_file_def)
  with t0 t rk_query_listed [OF t(2)] show ?thesis by blast
qed

theorem ranked_index_lists_in_order_witness:
  "\<exists>t0 t. rk_open Map.empty (DatumId 9) = Inr t0 \<and>
    run_updates rk_apply (map encode_rk_index_op [\<lparr>rk_pk_id = DatumId 1, old_rank_key = None, new_rank_key = Some (u64_to_be 5)\<rparr>]) t0 =
      Some (Inr ([accepted], t)) \<and>
    rk_query (encode_rk_query_kind (TopN 3)) t = Some (Inr (Inr (encode_rk_entries [(u64_to_be 5, DatumId 1)])))"
proof -
  let ?ops = "[\<lparr>rk_pk_id = DatumId 1, old_rank_key = None, new_rank_key = Some (u64_to_be 5)\<rparr>]"
  have S: "fold rk_update ?ops {} = {(u64_to_be 5, DatumId 1)}" by (simp add: rk_update_def)
  have "list_all wf_rk_op ?ops" "2 * Suc (length ?ops) * 4096 \<le> (2 :: nat) ^ 64" by (simp_all add: wf_rk_op_def)
  from ranked_index_lists_in_order [OF this S [symmetric], of "DatumId 9"] show ?thesis by auto
qed

text \<open>
  A partition pages through its members. After any run of inserts and removals the page at an
  offset holds the next members in ascending order, with the number of all members beside it; an
  executed change answers with the new number.
\<close>

theorem partition_pages_its_members:
  assumes "2 * Suc (Suc (length ops)) * 4096 \<le> (2 :: nat) ^ 64" and "S = fold extent_update ops {}"
  shows "\<exists>t0 t t'. partition_open Map.empty target = Inr t0 \<and>
    run_updates partition_apply (map encode_extent_op ops) t0 = Some (Inr (replicate (length ops) accepted, t)) \<and>
    (\<forall>offset limit. partition_query (encode_extent_page offset limit) t =
       Some (Inr (Inr (encode_extent_result (of_nat (card S)) (take (unat limit) (drop (unat offset) (sorted_list_of_set S))))))) \<and>
    partition_execute (encode_extent_op op) t = Some (Inr (Inr (encode_extent_result (of_nat (card (extent_update op S))) []), t'))"
proof -
  obtain t0 where t0: "partition_open Map.empty target = Inr t0" "holds_pks (Suc (Suc (length ops))) t0 {} (length ops + 1)"
    using fresh_partition [OF assms(1)] by auto
  obtain t where t: "run_updates partition_apply (map encode_extent_op ops) t0 = Some (Inr (replicate (length ops) accepted, t))"
      "holds_pks (Suc (Suc (length ops))) t S (Suc 0)"
    using partition_run [OF t0(2)] assms(2) by auto
  with t0 partition_page [OF t(2)] partition_execute_step [OF t(2), of op] show ?thesis by blast
qed

theorem partition_pages_its_members_witness:
  "\<exists>t0 t. partition_open Map.empty (DatumId 9) = Inr t0 \<and>
    run_updates partition_apply (map encode_extent_op [ExtentInsert (DatumId 4)]) t0 = Some (Inr ([accepted], t)) \<and>
    partition_query (encode_extent_page 0 10) t = Some (Inr (Inr (encode_extent_result 1 [DatumId 4])))"
proof -
  have "2 * Suc (Suc (length [ExtentInsert (DatumId 4)])) * 4096 \<le> (2 :: nat) ^ 64" "{DatumId 4} = fold extent_update [ExtentInsert (DatumId 4)] {}"
    by (simp_all add: extent_update_def)
  from partition_pages_its_members [OF this, of "DatumId 9" "ExtentRemove (DatumId 4)"] show ?thesis by fastforce
qed

end
