(* ===== verification/Tk_History.thy ===== *)
theory Tk_History
  imports Rk_Index
begin

text \<open>
  Valid-time histories, \<open>seisin-types/src/tk.rs\<close> and \<open>tk_kind.rs\<close>: one B+tree file per class and
  entity, keyed by sub-key and lower bound. The wall clock is the argument \<open>now\<close>. Where a change of two
  entries fails half way, which takes a failure of the disk, the tree is left as it was.
\<close>

section \<open>Classes\<close>

record tk_class_def =
  tk_name :: rstring
  tk_value_type :: field_type
  tk_value_width :: u16
  tk_sub_key_width :: u16

definition TK_PAGE_SIZE :: u32 where "TK_PAGE_SIZE = 4096"

definition tk_kind_name :: "rstring \<Rightarrow> rstring" where
  "tk_kind_name class_name = lit ''tk:'' @ class_name"

definition tk_entity_key :: "namer \<Rightarrow> rstring \<Rightarrow> datum_id \<Rightarrow> datum_id" where
  "tk_entity_key from_name class_name entity =
     from_name derived_id_namespace (lit ''tk:'' @ class_name @ lit '':'' @ hex (as_bytes entity))"

definition tk_file_name_for :: "datum_id \<Rightarrow> rstring" where
  "tk_file_name_for target = index_file ''tk_'' target"

section \<open>Fallible steps\<close>

text \<open>\<open>Result<T, String>\<close> of a step that may panic or not return.\<close>

type_synonym 'a tk = "(rstring + 'a) result option"

definition tk_ret :: "'a \<Rightarrow> 'a tk" where "tk_ret x = Some (Inr (Inr x))"
definition tk_err :: "rstring \<Rightarrow> 'a tk" where "tk_err e = Some (Inr (Inl e))"

definition tk_bind :: "'a tk \<Rightarrow> ('a \<Rightarrow> 'b tk) \<Rightarrow> 'b tk" where
  "tk_bind m f = Option.bind m (\<lambda>r. case r of Inl p \<Rightarrow> Some (Inl p) | Inr (Inl e) \<Rightarrow> Some (Inr (Inl e)) | Inr (Inr x) \<Rightarrow> f x)"

definition from_tree :: "'a result option \<Rightarrow> 'a tk" where
  "from_tree r = on_tree r Inl tk_ret"

definition may_panic :: "'a result \<Rightarrow> 'a tk" where
  "may_panic r = Some (bindE r (\<lambda>x. Inr (Inr x)))"

lemma tk_simps [simp]:
  "tk_bind (tk_ret x) f = f x" "from_tree (Some (Inr x)) = tk_ret x" "may_panic (Inr x) = tk_ret x"
  by (simp_all add: tk_bind_def tk_ret_def from_tree_def may_panic_def)

section \<open>Entries\<close>

definition sub_w :: "tk_class_def \<Rightarrow> nat" where
  "sub_w d = unat (tk_sub_key_width d)"

definition composite :: "bytes \<Rightarrow> i64 \<Rightarrow> bytes" where
  "composite sub_key t = sub_key @ encode_ts t"

definition tk_record :: "tk_class_def \<Rightarrow> i64 option \<Rightarrow> bytes \<Rightarrow> bytes result" where
  "tk_record d upper v =
     (let w = unat (tk_value_width d) in
      if length v \<le> w
      then Inr ((case upper of None \<Rightarrow> replicate 9 0 | Some u \<Rightarrow> 1 # encode_ts u) @
                u16_to_le (of_nat (length v)) @ v @ replicate (w - length v) 0)
      else Inl (Panic ''range end index {} out of range for slice of length {}'' [11 + length v, 11 + w]))"

definition span_from :: "tk_class_def \<Rightarrow> bytes \<Rightarrow> bytes \<Rightarrow> tk_span result" where
  "span_from d key rec =
     (let len = unat (u16_from_le (slice rec 9 11)) in
      if length key < sub_w d + 8 \<or> length rec < 11 + len then Inl (Panic ''range end index out of range'' [])
      else Inr
        \<lparr>span_sub_key = take (sub_w d) key,
         span_lower = decode_ts (slice key (sub_w d) (sub_w d + 8)),
         span_upper = (if rec ! 0 = 1 then Some (decode_ts (slice rec 1 9)) else None),
         span_value = slice rec 11 (11 + len)\<rparr>)"

definition entry_at :: "btree \<Rightarrow> u64 \<Rightarrow> (bytes \<times> bytes) option tk" where
  "entry_at tree rank =
     tk_bind (from_tree (scan_from_rank tree rank 1)) (\<lambda>es. tk_ret (case es of [] \<Rightarrow> None | e # _ \<Rightarrow> Some e))"

definition raw_floor :: "btree \<Rightarrow> bytes \<Rightarrow> i64 \<Rightarrow> (u64 \<times> bytes \<times> bytes) option tk" where
  "raw_floor tree sub_key t =
     tk_bind (from_tree (rank_of_floor tree (composite sub_key t))) (\<lambda>r.
       case r of
         None \<Rightarrow> tk_ret None
       | Some rank \<Rightarrow>
           tk_bind (entry_at tree rank) (\<lambda>e.
             case e of
               None \<Rightarrow> tk_err (lit ''floor rank out of range'')
             | Some (k, v) \<Rightarrow> tk_ret (Some (rank, k, v))))"

definition covering :: "tk_class_def \<Rightarrow> btree \<Rightarrow> bytes \<Rightarrow> i64 \<Rightarrow> (u64 \<times> tk_span) option tk" where
  "covering d tree sub_key t =
     tk_bind (raw_floor tree sub_key t) (\<lambda>r.
       case r of
         Some (rank, k, v) \<Rightarrow>
           if take (sub_w d) k = sub_key then
             tk_bind (may_panic (span_from d k v)) (\<lambda>span.
               tk_ret (if (case span_upper span of None \<Rightarrow> True | Some u \<Rightarrow> i64_less t u) then Some (rank, span) else None))
           else tk_ret None
       | None \<Rightarrow> tk_ret None)"

section \<open>Changes\<close>

definition debug_text :: "rstring \<Rightarrow> rstring" where
  "debug_text s = [34] @ s @ [34]"

definition check_sub_key :: "tk_class_def \<Rightarrow> bytes \<Rightarrow> unit tk" where
  "check_sub_key d sub_key =
     (if length sub_key \<noteq> sub_w d
      then tk_err (lit ''sub_key must be exactly '' @ dec (sub_w d) @ lit '' bytes for class '' @ debug_text (tk_name d) @ lit '', got '' @
                   dec (length sub_key))
      else tk_ret ())"

definition debug_prim :: "prim_type \<Rightarrow> rstring" where
  "debug_prim p = lit (case p of PBool \<Rightarrow> ''Bool'' | PI64 \<Rightarrow> ''I64'' | PF64 \<Rightarrow> ''F64'' | PString \<Rightarrow> ''String'' | PBytes \<Rightarrow> ''Bytes'')"

fun debug_type :: "field_type \<Rightarrow> rstring" where
  "debug_type TBool = lit ''Bool''"
| "debug_type TI64 = lit ''I64''"
| "debug_type TF64 = lit ''F64''"
| "debug_type TString = lit ''String''"
| "debug_type TBytes = lit ''Bytes''"
| "debug_type (TArray ty) = lit ''Array('' @ debug_type ty @ lit '')''"
| "debug_type (TDict k v) = lit ''Dict('' @ debug_prim k @ lit '', '' @ debug_type v @ lit '')''"

definition validate_set :: "tk_class_def \<Rightarrow> bytes \<Rightarrow> bytes \<Rightarrow> unit tk" where
  "validate_set d sub_key v =
     tk_bind (check_sub_key d sub_key) (\<lambda>_.
       case decode_field_value (tk_value_type d) v 0 of
         Inl e \<Rightarrow> tk_err (lit ''value does not decode as '' @ debug_type (tk_value_type d) @ lit '': '' @ to_string e)
       | Inr (_, off) \<Rightarrow>
           if off \<noteq> length v then tk_err (lit ''value has '' @ dec (length v - off) @ lit '' trailing bytes'')
           else if unat (tk_value_width d) < length v
           then tk_err (lit ''encoded value is '' @ dec (length v) @ lit '' bytes but class '' @ debug_text (tk_name d) @ lit '' caps values at '' @
                  dec (unat (tk_value_width d)) @ lit '' '' @ [0xE2, 0x80, 0x94] @ lit '' rejected, never truncated (tk is primary data)'')
           else tk_ret ())"

definition put_span :: "tk_class_def \<Rightarrow> btree \<Rightarrow> bytes \<Rightarrow> i64 \<Rightarrow> i64 option \<Rightarrow> bytes \<Rightarrow> btree tk" where
  "put_span d tree sub_key lower upper v =
     tk_bind (may_panic (tk_record d upper v)) (\<lambda>rec. from_tree (btree_insert tree (composite sub_key lower) rec))"

definition do_set :: "tk_class_def \<Rightarrow> btree \<Rightarrow> bytes \<Rightarrow> i64 \<Rightarrow> bytes \<Rightarrow> (tk_span list \<times> btree) tk" where
  "do_set d tree sub_key as_of v =
     tk_bind (covering d tree sub_key as_of) (\<lambda>r.
       case r of
         Some (_, span) \<Rightarrow>
           if span_lower span = as_of then
             tk_bind (put_span d tree sub_key as_of (span_upper span) v) (\<lambda>tree.
               tk_ret ([span\<lparr>span_value := v\<rparr>], tree))
           else
             tk_bind (put_span d tree sub_key (span_lower span) (Some as_of) (span_value span)) (\<lambda>tree.
             tk_bind (put_span d tree sub_key as_of (span_upper span) v) (\<lambda>tree.
               tk_ret ([\<lparr>span_sub_key = sub_key, span_lower = as_of, span_upper = span_upper span, span_value = v\<rparr>], tree)))
       | None \<Rightarrow>
           tk_bind (raw_floor tree sub_key as_of) (\<lambda>fl.
           let successor_rank = (case fl of Some (rank, _, _) \<Rightarrow> rank + 1 | None \<Rightarrow> 0) in
           tk_bind (entry_at tree successor_rank) (\<lambda>e.
           let upper = (case e of
                   Some (k, _) \<Rightarrow> if take (sub_w d) k = sub_key then Some (decode_ts (slice k (sub_w d) (sub_w d + 8))) else None
                 | None \<Rightarrow> None) in
           tk_bind (put_span d tree sub_key as_of upper v) (\<lambda>tree.
             tk_ret ([\<lparr>span_sub_key = sub_key, span_lower = as_of, span_upper = upper, span_value = v\<rparr>], tree)))))"

definition do_clear :: "tk_class_def \<Rightarrow> btree \<Rightarrow> bytes \<Rightarrow> i64 \<Rightarrow> (tk_span list \<times> btree) tk" where
  "do_clear d tree sub_key as_of =
     tk_bind (covering d tree sub_key as_of) (\<lambda>r.
       case r of
         None \<Rightarrow> tk_ret ([], tree)
       | Some (_, span) \<Rightarrow>
           if span_lower span = as_of then
             tk_bind (from_tree (btree_remove tree (composite sub_key (span_lower span)))) (\<lambda>(_, tree). tk_ret ([], tree))
           else
             tk_bind (put_span d tree sub_key (span_lower span) (Some as_of) (span_value span)) (\<lambda>tree.
               tk_ret ([span\<lparr>span_upper := Some as_of\<rparr>], tree)))"

definition tk_execute ::
    "tk_class_def \<Rightarrow> i64 \<Rightarrow> bytes \<Rightarrow> btree \<Rightarrow> ((rstring + bytes) \<times> btree) result option" where
  "tk_execute d now payload tree =
     (let done = (case decode_tk_op payload of
            Inl e \<Rightarrow> tk_err (to_string e)
          | Inr (TkSet sub_key as_of v) \<Rightarrow>
              tk_bind (validate_set d sub_key v) (\<lambda>_.
                do_set d tree sub_key (case as_of of Some t \<Rightarrow> t | None \<Rightarrow> now) v)
          | Inr (TkClear sub_key as_of) \<Rightarrow>
              tk_bind (check_sub_key d sub_key) (\<lambda>_.
                do_clear d tree sub_key (case as_of of Some t \<Rightarrow> t | None \<Rightarrow> now)))
      in map_option (\<lambda>r. bindE r (\<lambda>x. Inr (case x of
             Inl e \<Rightarrow> (Inl e, tree)
           | Inr (spans, tree) \<Rightarrow> (Inr (encode_tk_result spans), tree)))) done)"

definition tk_apply :: "bytes \<Rightarrow> btree \<Rightarrow> (apply_outcome \<times> btree) result option" where
  "tk_apply payload tree =
     Some (Inr (rejected (lit ''tk histories are maintained via execute ops, not framework index updates''), tree))"

section \<open>Queries\<close>

definition I64_MIN :: i64 where "I64_MIN = 0x8000000000000000"
definition I64_MAX :: i64 where "I64_MAX = 0x7FFFFFFFFFFFFFFF"

definition first_rank_of :: "btree \<Rightarrow> bytes \<Rightarrow> u64 tk" where
  "first_rank_of tree sub_key =
     tk_bind (raw_floor tree sub_key I64_MIN) (\<lambda>r. tk_ret
       (case r of
          Some (rank, k, _) \<Rightarrow> if k = composite sub_key I64_MIN then rank else rank + 1
        | None \<Rightarrow> 0))"

partial_function (option) collect_while ::
    "tk_class_def \<Rightarrow> btree \<Rightarrow> u64 \<Rightarrow> (tk_span \<Rightarrow> bool) \<Rightarrow> tk_span list \<Rightarrow> (rstring + tk_span list) result option" where
  "collect_while d tree rank keep spans =
     (case entry_at tree rank of
        None \<Rightarrow> None
      | Some (Inl p) \<Rightarrow> Some (Inl p)
      | Some (Inr (Inl e)) \<Rightarrow> Some (Inr (Inl e))
      | Some (Inr (Inr None)) \<Rightarrow> Some (Inr (Inr spans))
      | Some (Inr (Inr (Some (k, v)))) \<Rightarrow>
          (case span_from d k v of
             Inl p \<Rightarrow> Some (Inl p)
           | Inr span \<Rightarrow>
               if \<not> keep span then Some (Inr (Inr spans))
               else collect_while d tree (rank + 1) keep (spans @ [span])))"

partial_function (option) snapshot_loop ::
    "tk_class_def \<Rightarrow> btree \<Rightarrow> i64 \<Rightarrow> u64 \<Rightarrow> tk_span list \<Rightarrow> (rstring + tk_span list) result option" where
  "snapshot_loop d tree t rank spans =
     (case entry_at tree rank of
        None \<Rightarrow> None
      | Some (Inl p) \<Rightarrow> Some (Inl p)
      | Some (Inr (Inl e)) \<Rightarrow> Some (Inr (Inl e))
      | Some (Inr (Inr None)) \<Rightarrow> Some (Inr (Inr spans))
      | Some (Inr (Inr (Some (k, _)))) \<Rightarrow>
          (case tk_bind (covering d tree (take (sub_w d) k) t) (\<lambda>c.
                  tk_bind (from_tree (rank_of_floor tree (composite (take (sub_w d) k) I64_MAX))) (\<lambda>last_rank.
                    case last_rank of
                      None \<Rightarrow> tk_err (lit ''snapshot: sub-key vanished mid-walk'')
                    | Some last_rank \<Rightarrow> tk_ret (c, last_rank))) of
             None \<Rightarrow> None
           | Some (Inl p) \<Rightarrow> Some (Inl p)
           | Some (Inr (Inl e)) \<Rightarrow> Some (Inr (Inl e))
           | Some (Inr (Inr (c, last_rank))) \<Rightarrow>
               snapshot_loop d tree t (last_rank + 1) (spans @ (case c of Some (_, span) \<Rightarrow> [span] | None \<Rightarrow> []))))"

definition tk_spans :: "tk_class_def \<Rightarrow> tk_query_req \<Rightarrow> btree \<Rightarrow> tk_span list tk" where
  "tk_spans d query tree =
     (case query of
        AsOf sub_key t \<Rightarrow>
          tk_bind (check_sub_key d sub_key) (\<lambda>_.
          tk_bind (covering d tree sub_key t) (\<lambda>r. tk_ret (case r of Some (_, span) \<Rightarrow> [span] | None \<Rightarrow> [])))
      | Current sub_key \<Rightarrow>
          tk_bind (check_sub_key d sub_key) (\<lambda>_.
          tk_bind (raw_floor tree sub_key I64_MAX) (\<lambda>r.
            case r of
              Some (_, k, v) \<Rightarrow>
                if take (sub_w d) k = sub_key then
                  tk_bind (may_panic (span_from d k v)) (\<lambda>span. tk_ret (if span_upper span = None then [span] else []))
                else tk_ret []
            | None \<Rightarrow> tk_ret []))
      | History sub_key \<Rightarrow>
          tk_bind (check_sub_key d sub_key) (\<lambda>_.
          tk_bind (first_rank_of tree sub_key) (\<lambda>start.
            collect_while d tree start (\<lambda>s. span_sub_key s = sub_key) []))
      | Range sub_key from to \<Rightarrow>
          tk_bind (check_sub_key d sub_key) (\<lambda>_.
            if \<not> i64_less from to then tk_ret []
            else
              tk_bind (covering d tree sub_key from) (\<lambda>c.
              tk_bind (case c of
                  Some (rank, _) \<Rightarrow> tk_ret rank
                | None \<Rightarrow> tk_bind (raw_floor tree sub_key from) (\<lambda>r. tk_ret (case r of Some (rank, _, _) \<Rightarrow> rank + 1 | None \<Rightarrow> 0))) (\<lambda>start.
                collect_while d tree start (\<lambda>s. span_sub_key s = sub_key \<and> i64_less (span_lower s) to) [])))
      | SnapshotAt t \<Rightarrow> snapshot_loop d tree t 0 [])"

definition tk_query :: "tk_class_def \<Rightarrow> bytes \<Rightarrow> btree \<Rightarrow> (rstring + bytes) result option" where
  "tk_query d query tree =
     (case decode_tk_query_req query of
        Inl e \<Rightarrow> tk_err (to_string e)
      | Inr q \<Rightarrow> tk_bind (tk_spans d q tree) (\<lambda>spans. tk_ret (encode_tk_result spans)))"

definition tk_open :: "tk_class_def \<Rightarrow> (rstring \<rightharpoonup> bytes) \<Rightarrow> datum_id \<Rightarrow> btree result" where
  "tk_open d files target =
     open_index_file files (tk_file_name_for target)
       (ucast (tk_sub_key_width d) + 8) (1 + 8 + 2 + ucast (tk_value_width d)) TK_PAGE_SIZE"

end
