(* ===== verification/Tk_Timeline.thy ===== *)
theory Tk_Timeline
  imports Wire_Queries
begin

text \<open>
  The meaning of a valid-time history: for every sub-key a function from points in time to values,
  with the set of times at which a value starts. Setting a value at a time overwrites from there to
  the next start, or to the end of the value that holds at that time. A set of spans tells such a
  function when the spans of a sub-key are not empty and do not overlap.
\<close>

abbreviation starts :: "tk_span \<Rightarrow> int" where
  "starts s \<equiv> sint (span_lower s)"

definition ends_after :: "tk_span \<Rightarrow> int \<Rightarrow> bool" where
  "ends_after s x \<longleftrightarrow> (case span_upper s of None \<Rightarrow> True | Some u \<Rightarrow> x < sint u)"

definition covers :: "tk_span \<Rightarrow> int \<Rightarrow> bool" where
  "covers s x \<longleftrightarrow> starts s \<le> x \<and> ends_after s x"

section \<open>The specification\<close>

type_synonym timeline = "(bytes \<Rightarrow> int \<Rightarrow> bytes option) \<times> (bytes \<Rightarrow> int set)"

text \<open>The times that a change at \<open>t\<close> reaches.\<close>

definition reaches :: "(int \<Rightarrow> bytes option) \<Rightarrow> int set \<Rightarrow> int \<Rightarrow> int \<Rightarrow> bool" where
  "reaches f L t x \<longleftrightarrow> t \<le> x \<and> (\<forall>y. t < y \<and> y \<le> x \<longrightarrow> y \<notin> L \<and> (f t \<noteq> None \<longrightarrow> f y \<noteq> None))"

definition set_value :: "bytes \<Rightarrow> int \<Rightarrow> bytes \<Rightarrow> timeline \<Rightarrow> timeline" where
  "set_value sub t v = (\<lambda>(f, L). (f(sub := (\<lambda>x. if reaches (f sub) (L sub) t x then Some v else f sub x)), L(sub := insert t (L sub))))"

definition clear_value :: "bytes \<Rightarrow> int \<Rightarrow> timeline \<Rightarrow> timeline" where
  "clear_value sub t = (\<lambda>(f, L).
     if f sub t = None then (f, L)
     else (f(sub := (\<lambda>x. if reaches (f sub) (L sub) t x then None else f sub x)), L(sub := L sub - {t})))"

section \<open>Spans\<close>

definition before :: "tk_span \<Rightarrow> tk_span \<Rightarrow> bool" where
  "before a b \<longleftrightarrow> starts a < starts b \<and> \<not> ends_after a (starts b)"

definition apart :: "tk_span set \<Rightarrow> bool" where
  "apart S \<longleftrightarrow>
     (\<forall>a\<in>S. ends_after a (starts a)) \<and>
     (\<forall>a\<in>S. \<forall>b\<in>S. a \<noteq> b \<longrightarrow> span_sub_key a = span_sub_key b \<longrightarrow> before a b \<or> before b a)"

definition tells :: "tk_span set \<Rightarrow> timeline \<Rightarrow> bool" where
  "tells S T \<longleftrightarrow> apart S \<and>
     (\<forall>sub x v. fst T sub x = Some v \<longleftrightarrow> (\<exists>s\<in>S. span_sub_key s = sub \<and> covers s x \<and> span_value s = v)) \<and>
     (\<forall>sub. snd T sub = {starts s | s. s \<in> S \<and> span_sub_key s = sub})"

lemma ends_mono: "ends_after s x \<Longrightarrow> y \<le> x \<Longrightarrow> ends_after s y"
  by (auto simp: ends_after_def split: option.splits)

lemma before_covers: "before a b \<Longrightarrow> \<not> (covers a x \<and> covers b x)"
  using ends_mono [of a x "starts b"] by (auto simp: before_def covers_def)

lemma apartD:
  assumes "apart S" "a \<in> S"
  shows "ends_after a (starts a)" "b \<in> S \<Longrightarrow> a \<noteq> b \<Longrightarrow> span_sub_key a = span_sub_key b \<Longrightarrow> before a b \<or> before b a"
  using assms by (auto simp: apart_def)

lemma apart_unique:
  assumes "apart S" "a \<in> S" "b \<in> S" "span_sub_key a = span_sub_key b" "covers a x" "covers b x"
  shows "a = b"
  using apartD(2) [OF assms(1,2,3)] assms(4-6) before_covers by blast

lemma tellsD:
  assumes "tells S (f, L)"
  shows "apart S" "f sub x = Some v \<longleftrightarrow> (\<exists>s\<in>S. span_sub_key s = sub \<and> covers s x \<and> span_value s = v)"
    "l \<in> L sub \<longleftrightarrow> (\<exists>s\<in>S. span_sub_key s = sub \<and> starts s = l)"
  using assms by (auto simp: tells_def)

lemma tells_none: "tells S (f, L) \<Longrightarrow> f sub x = None \<longleftrightarrow> \<not> (\<exists>s\<in>S. span_sub_key s = sub \<and> covers s x)"
  using tellsD(2) [of S f L sub x] by (metis not_Some_eq option.distinct(1))

lemma reaches_covered:
  assumes T: "tells S (f, L)" and s: "s \<in> S" "span_sub_key s = sub" "covers s t"
  shows "reaches (f sub) (L sub) t x \<longleftrightarrow> t \<le> x \<and> covers s x"
proof
  assume r: "reaches (f sub) (L sub) t x"
  have ap: "apart S" by (rule tellsD(1) [OF T])
  have ft: "f sub t \<noteq> None" using s tells_none [OF T] by blast
  have "ends_after s x"
  proof (cases "span_upper s")
    case (Some u)
    show ?thesis
    proof (rule ccontr)
      assume "\<not> ends_after s x"
      then have u: "sint u \<le> x" using Some by (auto simp: ends_after_def)
      have tu: "t < sint u" using s(3) Some by (auto simp: covers_def ends_after_def)
      then have "sint u \<notin> L sub" "f sub (sint u) \<noteq> None" using conjunct2 [OF r [unfolded reaches_def], rule_format, of "sint u"] u tu ft by blast+
      then obtain a where a: "a \<in> S" "span_sub_key a = sub" "covers a (sint u)" using tells_none [OF T, of sub "sint u"] by auto
      have "starts a \<noteq> sint u" using \<open>sint u \<notin> L sub\<close> a tellsD(3) [OF T] by blast
      then have au: "starts a < sint u" using a(3) by (simp add: covers_def)
      have "starts s < sint u" using s(3) tu by (simp add: covers_def)
      have "a \<noteq> s" using a(3) Some by (auto simp: covers_def ends_after_def)
      from apartD(2) [OF ap a(1) s(1) this] a s have "before a s \<or> before s a" by simp
      then show False
      proof
        assume "before s a"
        then show False using Some au by (simp add: before_def ends_after_def)
      next
        assume "before a s"
        then show False using a(3) ends_mono [of a "sint u" "starts s"] \<open>starts s < sint u\<close> by (simp add: before_def covers_def)
      qed
    qed
  qed (simp add: ends_after_def)
  then show "t \<le> x \<and> covers s x" using r s(3) by (simp add: reaches_def covers_def)
next
  assume x: "t \<le> x \<and> covers s x"
  have "y \<notin> L sub \<and> f sub y \<noteq> None" if y: "t < y" "y \<le> x" for y
  proof
    have "covers s y" using x y s(3) ends_mono by (auto simp: covers_def)
    then show "f sub y \<noteq> None" using s tells_none [OF T] by blast
    show "y \<notin> L sub"
    proof
      assume "y \<in> L sub"
      then obtain a where a: "a \<in> S" "span_sub_key a = sub" "starts a = y" using tellsD(3) [OF T] by blast
      have "starts s < starts a" using a y s(3) by (simp add: covers_def)
      then have "before s a" using apartD(2) [OF tellsD(1) [OF T] s(1) a(1)] a s by (auto simp: before_def)
      then show False using \<open>covers s y\<close> a(3) by (simp add: before_def covers_def)
    qed
  qed
  then show "reaches (f sub) (L sub) t x" using x by (simp add: reaches_def)
qed

lemma reaches_gap:
  assumes "f t = None"
  shows "reaches f L t x \<longleftrightarrow> t \<le> x \<and> (\<forall>l\<in>L. t < l \<longrightarrow> x < l)"
  using assms by (auto simp: reaches_def)

section \<open>Changes of spans\<close>

lemma tellsI:
  assumes "apart S" "\<And>sub x v. f sub x = Some v \<longleftrightarrow> (\<exists>s\<in>S. span_sub_key s = sub \<and> covers s x \<and> span_value s = v)"
    "\<And>sub l. l \<in> L sub \<longleftrightarrow> (\<exists>s\<in>S. span_sub_key s = sub \<and> starts s = l)"
  shows "tells S (f, L)"
  using assms by (auto simp: tells_def)

text \<open>A span \<open>s\<close> taken out of the set, and what is left beside it.\<close>

lemma split_one: "s \<in> S \<Longrightarrow> (\<exists>a\<in>S. P a) \<longleftrightarrow> P s \<or> (\<exists>a\<in>S - {s}. P a)"
  by blast

lemma apart_insert:
  assumes "apart R" "ends_after n (starts n)" "\<And>a. a \<in> R \<Longrightarrow> span_sub_key a = span_sub_key n \<Longrightarrow> before a n \<or> before n a"
  shows "apart (insert n R)"
  using assms unfolding apart_def by (simp, metis)

lemma apart_remove: "apart S \<Longrightarrow> apart (S - X)"
  by (simp add: apart_def)

lemma beside:
  assumes "apart S" "s \<in> S"
  shows "covers s x \<Longrightarrow> \<not> (\<exists>a\<in>S - {s}. span_sub_key a = span_sub_key s \<and> covers a x \<and> P a)"
    "a \<in> S - {s} \<Longrightarrow> span_sub_key a = span_sub_key s \<Longrightarrow> before a s \<or> before s a"
proof -
  show "covers s x \<Longrightarrow> \<not> (\<exists>a\<in>S - {s}. span_sub_key a = span_sub_key s \<and> covers a x \<and> P a)"
    using apart_unique [OF assms(1) _ assms(2), of _ x] by blast
  show "a \<in> S - {s} \<Longrightarrow> span_sub_key a = span_sub_key s \<Longrightarrow> before a s \<or> before s a"
    using apartD(2) [OF assms(1) _ assms(2), of a] by blast
qed

text \<open>A span replaced by one with the same sub-key: what the two cover decides what the set tells.\<close>

lemma swap_one:
  assumes T: "tells S (f, L)" and s: "s \<in> S" and N: "\<And>n. n \<in> N \<Longrightarrow> span_sub_key n = sub" "span_sub_key s = sub"
    and ap: "apart (N \<union> (S - {s}))"
    and f': "\<And>x v. covers s x \<Longrightarrow> f' x = Some v \<longleftrightarrow> (\<exists>n\<in>N. covers n x \<and> span_value n = v)"
      "\<And>x. \<not> covers s x \<Longrightarrow> f' x = f sub x" "\<And>x n. n \<in> N \<Longrightarrow> covers n x \<Longrightarrow> covers s x"
    and L': "L' = starts ` N \<union> (L sub - {starts s})"
  shows "tells (N \<union> (S - {s})) (f(sub := f'), L(sub := L'))"
proof (rule tellsI [OF ap])
  note ap0 = tellsD(1) [OF T]
  fix sb x v
  have old: "f sb x = Some v \<longleftrightarrow> span_sub_key s = sb \<and> covers s x \<and> span_value s = v \<or> (\<exists>a\<in>S - {s}. span_sub_key a = sb \<and> covers a x \<and> span_value a = v)"
    using tellsD(2) [OF T, of sb x v] unfolding split_one [OF s] .
  show "(f(sub := f')) sb x = Some v \<longleftrightarrow> (\<exists>a\<in>N \<union> (S - {s}). span_sub_key a = sb \<and> covers a x \<and> span_value a = v)"
  proof (cases "sb = sub")
    case False
    then show ?thesis using old N by (auto simp: bex_Un)
  next
    case True
    show ?thesis
    proof (cases "covers s x")
      case c: True
      have none: "\<not> (\<exists>a\<in>S - {s}. span_sub_key a = sub \<and> covers a x \<and> span_value a = v)" using beside(1) [OF ap0 s c, of "\<lambda>a. span_value a = v"] N(2) by simp
      have "(\<exists>n\<in>N. covers n x \<and> span_value n = v) \<longleftrightarrow> (\<exists>n\<in>N. span_sub_key n = sub \<and> covers n x \<and> span_value n = v)" using N(1) by blast
      then show ?thesis using none f'(1) [OF c, of v] by (simp only: True bex_Un fun_upd_same simp_thms)
    next
      case c: False
      have none: "\<not> (\<exists>n\<in>N. span_sub_key n = sub \<and> covers n x \<and> span_value n = v)" using f'(3) c by blast
      then show ?thesis using old f'(2) [OF c] c by (simp only: True bex_Un fun_upd_same simp_thms)
    qed
  qed
next
  fix sb l
  have old: "l \<in> L sb \<longleftrightarrow> span_sub_key s = sb \<and> starts s = l \<or> (\<exists>a\<in>S - {s}. span_sub_key a = sb \<and> starts a = l)"
    using tellsD(3) [OF T, of l sb] unfolding split_one [OF s] .
  show "l \<in> (L(sub := L')) sb \<longleftrightarrow> (\<exists>a\<in>N \<union> (S - {s}). span_sub_key a = sb \<and> starts a = l)"
  proof (cases "sb = sub")
    case False
    then show ?thesis using old N by (auto simp: bex_Un)
  next
    case True
    have "starts a \<noteq> starts s" if "a \<in> S - {s}" "span_sub_key a = sub" for a
      using beside(2) [OF tellsD(1) [OF T] s that(1)] that(2) N(2) by (auto simp: before_def)
    then have rest: "(\<exists>a\<in>S - {s}. span_sub_key a = sub \<and> starts a = l) \<longleftrightarrow> l \<in> L sub - {starts s}" using old True N(2) by auto
    have "(\<exists>n\<in>N. span_sub_key n = sub \<and> starts n = l) \<longleftrightarrow> l \<in> starts ` N" using N(1) by blast
    then show ?thesis using rest by (simp only: True bex_Un fun_upd_same L' Un_iff)
  qed
qed

lemma set_tells:
  "tells S' (f(sub := \<lambda>x. if reaches (f sub) (L sub) t x then Some v else f sub x), L(sub := insert t (L sub))) \<Longrightarrow>
   tells S' (set_value sub t v (f, L))"
  by (simp add: set_value_def)

lemma clear_tells:
  assumes "tells S' (f(sub := \<lambda>x. if reaches (f sub) (L sub) t x then None else f sub x), L(sub := L sub - {t}))" "f sub t \<noteq> None"
  shows "tells S' (clear_value sub t (f, L))"
  using assms by (auto simp: clear_value_def)

lemma told: "tells S (f, L) \<Longrightarrow> s \<in> S \<Longrightarrow> covers s x \<Longrightarrow> f (span_sub_key s) x = Some (span_value s)"
  using tellsD(2) by blast

lemma start_in: "tells S (f, L) \<Longrightarrow> s \<in> S \<Longrightarrow> starts s \<in> L (span_sub_key s)"
  using tellsD(3) by blast

lemma closed_span:
  assumes "starts s < sint w" "covers s (sint w)"
  shows "covers (s\<lparr>span_upper := Some w\<rparr>) x \<longleftrightarrow> covers s x \<and> x < sint w"
    "starts (s\<lparr>span_upper := Some w\<rparr>) = starts s"
    "ends_after (s\<lparr>span_upper := Some w\<rparr>) x \<longleftrightarrow> x < sint w"
  using assms ends_mono [of s "sint w" x] by (auto simp: covers_def ends_after_def)

lemma closed_apart:
  assumes "apart S" "s \<in> S" "starts s < sint w" "covers s (sint w)"
  shows "apart (insert (s\<lparr>span_upper := Some w\<rparr>) (S - {s}))"
proof (rule apart_insert [OF apart_remove [OF assms(1)]])
  show "ends_after (s\<lparr>span_upper := Some w\<rparr>) (starts (s\<lparr>span_upper := Some w\<rparr>))" using closed_span [OF assms(3,4)] assms(3) by simp
next
  fix a assume a: "a \<in> S - {s}" "span_sub_key a = span_sub_key (s\<lparr>span_upper := Some w\<rparr>)"
  then have "before a s \<or> before s a" using beside(2) [OF assms(1,2)] by simp
  moreover have "before s a \<Longrightarrow> sint w < starts a" using assms(4) ends_mono [of s "sint w" "starts a"] unfolding before_def covers_def by linarith
  ultimately show "before a (s\<lparr>span_upper := Some w\<rparr>) \<or> before (s\<lparr>span_upper := Some w\<rparr>) a"
    using closed_span [OF assms(3,4)] by (auto simp: before_def)
qed

lemma inside_not_start:
  assumes "tells S (f, L)" "s \<in> S" "starts s < t" "covers s t"
  shows "t \<notin> L (span_sub_key s)"
proof
  assume "t \<in> L (span_sub_key s)"
  then obtain a where a: "a \<in> S" "span_sub_key a = span_sub_key s" "starts a = t" using tellsD(3) [OF assms(1)] by blast
  have "covers a t" using apartD(1) [OF tellsD(1) [OF assms(1)] a(1)] a(3) by (simp add: covers_def)
  then have "a = s" using apart_unique [OF tellsD(1) [OF assms(1)] a(1) assms(2) a(2) _ assms(4)] by blast
  then show False using a(3) assms(3) by simp
qed

lemma set_same:
  assumes T: "tells S (f, L)" and s: "s \<in> S" "starts s = t"
  shows "tells (insert (s\<lparr>span_value := v\<rparr>) (S - {s})) (set_value (span_sub_key s) t v (f, L))"
proof (rule set_tells)
  let ?n = "s\<lparr>span_value := v\<rparr>" and ?sub = "span_sub_key s"
  note ap = tellsD(1) [OF T]
  have n: "starts ?n = starts s" "ends_after ?n = ends_after s" "covers ?n = covers s" by (auto simp: ends_after_def covers_def fun_eq_iff)
  have cov: "covers s t" using apartD(1) [OF ap s(1)] s by (simp add: covers_def)
  have reach: "reaches (f ?sub) (L ?sub) t x \<longleftrightarrow> covers s x" for x using reaches_covered [OF T s(1) refl cov] s(2) by (auto simp: covers_def)
  have eq: "insert ?n (S - {s}) = {?n} \<union> (S - {s})" by simp
  have apn: "apart ({?n} \<union> (S - {s}))" unfolding eq [symmetric]
    by (rule apart_insert [OF apart_remove [OF ap]]) (use apartD(1) [OF ap s(1)] beside(2) [OF ap s(1)] in \<open>simp_all add: before_def n\<close>)
  have L': "insert t (L ?sub) = starts ` {?n} \<union> (L ?sub - {starts s})" using s(2) by auto
  show "tells (insert ?n (S - {s})) (f(?sub := \<lambda>x. if reaches (f ?sub) (L ?sub) t x then Some v else f ?sub x), L(?sub := insert t (L ?sub)))"
    unfolding eq by (rule swap_one [OF T s(1) _ refl apn _ _ _ L']) (auto simp: reach n)
qed

lemma set_split:
  assumes T: "tells S (f, L)" and s: "s \<in> S" "starts s < sint w" "covers s (sint w)"
  shows "tells (insert \<lparr>span_sub_key = span_sub_key s, span_lower = w, span_upper = span_upper s, span_value = v\<rparr>
      (insert (s\<lparr>span_upper := Some w\<rparr>) (S - {s}))) (set_value (span_sub_key s) (sint w) v (f, L))"
proof (rule set_tells)
  let ?c = "s\<lparr>span_upper := Some w\<rparr>" and ?sub = "span_sub_key s"
  let ?n = "\<lparr>span_sub_key = span_sub_key s, span_lower = w, span_upper = span_upper s, span_value = v\<rparr>"
  note ap = tellsD(1) [OF T] and c = closed_span [OF s(2,3)]
  have n: "starts ?n = sint w" "ends_after ?n = ends_after s" "covers ?n x \<longleftrightarrow> sint w \<le> x \<and> covers s x" for x
    using s(2) by (auto simp: ends_after_def covers_def fun_eq_iff)
  have reach: "reaches (f ?sub) (L ?sub) (sint w) x \<longleftrightarrow> sint w \<le> x \<and> covers s x" for x using reaches_covered [OF T s(1) refl s(3)] .
  have eq: "insert ?n (insert ?c (S - {s})) = {?n, ?c} \<union> (S - {s})" by simp
  have apn: "apart ({?n, ?c} \<union> (S - {s}))" unfolding Un_insert_left Un_empty_left
  proof (rule apart_insert [OF closed_apart [OF ap s]])
    show "ends_after ?n (starts ?n)" using s(3) by (simp add: n covers_def)
    fix a assume a: "a \<in> insert ?c (S - {s})" "span_sub_key a = span_sub_key ?n"
    show "before a ?n \<or> before ?n a"
    proof (cases "a = ?c")
      case True
      then show ?thesis using c s(2) by (simp add: before_def n)
    next
      case False
      then have "before a s \<or> before s a" using beside(2) [OF ap s(1)] a by simp
      then show ?thesis using s(3) s(2) ends_mono [of s "sint w" "starts a"] ends_mono [of a "sint w" "starts s"] unfolding before_def n covers_def by linarith
    qed
  qed
  have L': "insert (sint w) (L ?sub) = starts ` {?n, ?c} \<union> (L ?sub - {starts s})" using start_in [OF T s(1)] c(2) by auto
  show "tells (insert ?n (insert ?c (S - {s}))) (f(?sub := \<lambda>x. if reaches (f ?sub) (L ?sub) (sint w) x then Some v else f ?sub x), L(?sub := insert (sint w) (L ?sub)))"
    unfolding eq by (rule swap_one [OF T s(1) _ refl apn _ _ _ L']) (auto simp: reach n c told [OF T s(1)])
qed

lemma clear_whole:
  assumes T: "tells S (f, L)" and s: "s \<in> S" "starts s = t"
  shows "tells (S - {s}) (clear_value (span_sub_key s) t (f, L))"
proof (rule clear_tells)
  let ?sub = "span_sub_key s"
  have cov: "covers s t" using apartD(1) [OF tellsD(1) [OF T] s(1)] s by (simp add: covers_def)
  have reach: "reaches (f ?sub) (L ?sub) t x \<longleftrightarrow> covers s x" for x using reaches_covered [OF T s(1) refl cov] s(2) by (auto simp: covers_def)
  have L': "L ?sub - {t} = starts ` {} \<union> (L ?sub - {starts s})" using s(2) by simp
  have apn: "apart ({} \<union> (S - {s}))" using apart_remove [OF tellsD(1) [OF T]] by simp
  have "tells ({} \<union> (S - {s})) (f(?sub := \<lambda>x. if reaches (f ?sub) (L ?sub) t x then None else f ?sub x), L(?sub := L ?sub - {t}))"
    by (rule swap_one [OF T s(1) _ refl apn _ _ _ L']) (auto simp: reach)
  then show "tells (S - {s}) (f(?sub := \<lambda>x. if reaches (f ?sub) (L ?sub) t x then None else f ?sub x), L(?sub := L ?sub - {t}))" by simp
  show "f ?sub t \<noteq> None" using told [OF T s(1) cov] by simp
qed

lemma clear_tail:
  assumes T: "tells S (f, L)" and s: "s \<in> S" "starts s < sint w" "covers s (sint w)"
  shows "tells (insert (s\<lparr>span_upper := Some w\<rparr>) (S - {s})) (clear_value (span_sub_key s) (sint w) (f, L))"
proof (rule clear_tells)
  let ?c = "s\<lparr>span_upper := Some w\<rparr>" and ?sub = "span_sub_key s"
  note c = closed_span [OF s(2,3)]
  have reach: "reaches (f ?sub) (L ?sub) (sint w) x \<longleftrightarrow> sint w \<le> x \<and> covers s x" for x using reaches_covered [OF T s(1) refl s(3)] .
  have eq: "insert ?c (S - {s}) = {?c} \<union> (S - {s})" by simp
  have L': "L ?sub - {sint w} = starts ` {?c} \<union> (L ?sub - {starts s})" using inside_not_start [OF T s] start_in [OF T s(1)] c(2) by auto
  have apn: "apart ({?c} \<union> (S - {s}))" using closed_apart [OF tellsD(1) [OF T] s] by simp
  show "tells (insert ?c (S - {s})) (f(?sub := \<lambda>x. if reaches (f ?sub) (L ?sub) (sint w) x then None else f ?sub x), L(?sub := L ?sub - {sint w}))"
    unfolding eq by (rule swap_one [OF T s(1) _ refl apn _ _ _ L']) (auto simp: reach c told [OF T s(1)])
  show "f ?sub (sint w) \<noteq> None" using told [OF T s(1,3)] by simp
qed

text \<open>In a gap the new span ends at the next start of its sub-key, if there is one.\<close>

lemma set_gap:
  assumes T: "tells S (f, L)" and gap: "\<And>s. s \<in> S \<Longrightarrow> span_sub_key s = span_sub_key n \<Longrightarrow> \<not> covers s (starts n)"
    and none: "span_upper n = None \<Longrightarrow> \<forall>s\<in>S. span_sub_key s = span_sub_key n \<longrightarrow> starts s < starts n"
    and some: "\<And>u. span_upper n = Some u \<Longrightarrow> starts n < sint u \<and> sint u \<in> L (span_sub_key n) \<and>
      (\<forall>s\<in>S. span_sub_key s = span_sub_key n \<longrightarrow> starts n < starts s \<longrightarrow> sint u \<le> starts s)"
  shows "tells (insert n S) (set_value (span_sub_key n) (starts n) (span_value n) (f, L))"
proof (rule set_tells)
  let ?sub = "span_sub_key n" and ?t = "starts n"
  note ap = tellsD(1) [OF T]
  have ft: "f ?sub ?t = None" using tells_none [OF T] gap by blast
  have notat: "starts s \<noteq> ?t" if "s \<in> S" "span_sub_key s = ?sub" for s using gap [OF that] apartD(1) [OF ap that(1)] by (auto simp: covers_def)
  have later: "ends_after n x \<longleftrightarrow> (\<forall>l\<in>L ?sub. ?t < l \<longrightarrow> x < l)" for x
  proof (cases "span_upper n")
    case None
    then show ?thesis using none tellsD(3) [OF T, of _ ?sub] by (force simp: ends_after_def)
  next
    case (Some u)
    then show ?thesis using some [OF Some] tellsD(3) [OF T, of _ ?sub] by (force simp: ends_after_def)
  qed
  have reach: "reaches (f ?sub) (L ?sub) ?t x \<longleftrightarrow> covers n x" for x
    using reaches_gap [of "f ?sub", OF ft] later by (simp add: covers_def)
  have nb: "before a n \<or> before n a" if a: "a \<in> S" "span_sub_key a = ?sub" for a
  proof (cases "starts a < ?t")
    case True
    then show ?thesis using gap [OF a] by (simp add: before_def covers_def)
  next
    case False
    then have "?t < starts a" using notat [OF a] by simp
    then show ?thesis using later [of "starts a"] tellsD(3) [OF T, of "starts a" ?sub] a by (auto simp: before_def)
  qed
  have en: "ends_after n ?t" using later by blast
  show "tells (insert n S) (f(?sub := \<lambda>x. if reaches (f ?sub) (L ?sub) ?t x then Some (span_value n) else f ?sub x), L(?sub := insert ?t (L ?sub)))"
  proof (rule tellsI [OF apart_insert [OF ap en nb]])
    fix sb x v
    have out: "\<not> (\<exists>a\<in>S. span_sub_key a = ?sub \<and> covers a x \<and> span_value a = v)" if "covers n x" using nb before_covers [of _ n x] before_covers [of n _ x] that by blast
    show "(f(?sub := \<lambda>x. if reaches (f ?sub) (L ?sub) ?t x then Some (span_value n) else f ?sub x)) sb x = Some v \<longleftrightarrow>
        (\<exists>a\<in>insert n S. span_sub_key a = sb \<and> covers a x \<and> span_value a = v)"
      using tellsD(2) [OF T, of sb x v] out by (cases "sb = ?sub"; cases "covers n x") (auto simp: reach)
  next
    fix sb l
    show "l \<in> (L(?sub := insert ?t (L ?sub))) sb \<longleftrightarrow> (\<exists>a\<in>insert n S. span_sub_key a = sb \<and> starts a = l)"
      using tellsD(3) [OF T, of l sb] by (cases "sb = ?sub") auto
  qed
qed

lemma clear_gap: "tells S (f, L) \<Longrightarrow> (\<And>s. s \<in> S \<Longrightarrow> span_sub_key s = sub \<Longrightarrow> \<not> covers s t) \<Longrightarrow> clear_value sub t (f, L) = (f, L)"
  using tells_none [of S f L sub t] by (auto simp: clear_value_def)

end
