(* ===== verification/Tk_Spans.thy ===== *)
theory Tk_Spans
  imports Tk_History Tk_Timeline
begin

text \<open>
  The history file refines the timeline: the entries of the tree are the spans of a set that tells a
  timeline, and every operation of the file changes or reads that timeline.
\<close>

section \<open>Entries and spans\<close>

lemma tk_ret_inj [simp]: "tk_ret x = tk_ret y \<longleftrightarrow> x = y"
  by (simp add: tk_ret_def)

definition span_entry :: "tk_class_def \<Rightarrow> tk_span \<Rightarrow> bytes \<times> bytes" where
  "span_entry d s =
     (composite (span_sub_key s) (span_lower s), case tk_record d (span_upper s) (span_value s) of Inr r \<Rightarrow> r | Inl _ \<Rightarrow> [])"

definition span_ok :: "tk_class_def \<Rightarrow> tk_span \<Rightarrow> bool" where
  "span_ok d s \<longleftrightarrow> length (span_sub_key s) = sub_w d \<and> length (span_value s) \<le> unat (tk_value_width d)"

lemma length_encode_ts [simp]: "length (encode_ts t) = 8"
  by (simp add: encode_ts_def u64_to_be_def)

lemma decode_encode_ts [simp]: "decode_ts (encode_ts t) = t"
  by (simp add: decode_ts_def encode_ts_def u64_to_be_def u64_from_be_def)

lemma encode_ts_inj: "encode_ts t = encode_ts u \<longleftrightarrow> t = u"
  by (metis decode_encode_ts)

lemma composite_less:
  "length a = length b \<Longrightarrow> composite a t < composite b u \<longleftrightarrow> a < b \<or> a = b \<and> sint t < sint u"
  by (simp add: composite_def less_append_same_length encode_ts_def u64_to_be_less xor_sign_less)

lemma composite_eq: "length a = length b \<Longrightarrow> composite a t = composite b u \<longleftrightarrow> a = b \<and> t = u"
  by (simp add: composite_def encode_ts_inj)

lemma tk_record_ok:
  assumes "span_ok d s"
  shows "tk_record d (span_upper s) (span_value s) = Inr (snd (span_entry d s))"
  using assms by (simp add: span_entry_def span_ok_def tk_record_def Let_def)

lemma entry_lengths:
  assumes "span_ok d s"
  shows "length (fst (span_entry d s)) = sub_w d + 8" "length (snd (span_entry d s)) = 11 + unat (tk_value_width d)"
  using assms by (auto simp: span_entry_def span_ok_def tk_record_def composite_def Let_def split: option.splits)

lemma entry_key_parts:
  assumes "span_ok d s"
  shows "take (sub_w d) (fst (span_entry d s)) = span_sub_key s" "decode_ts (slice (fst (span_entry d s)) (sub_w d) (sub_w d + 8)) = span_lower s"
  using assms by (simp_all add: span_entry_def span_ok_def composite_def slice_def)

lemma span_from_entry:
  assumes "span_ok d s"
  shows "span_from d (fst (span_entry d s)) (snd (span_entry d s)) = Inr s"
proof -
  let ?v = "span_value s" and ?r = "snd (span_entry d s)"
  define hd where "hd = (case span_upper s of None \<Rightarrow> replicate 9 0 | Some u \<Rightarrow> (1 :: u8) # encode_ts u)"
  have len: "length ?v \<le> unat (tk_value_width d)" using assms by (simp add: span_ok_def)
  then have r: "?r = hd @ u16_to_le (of_nat (length ?v)) @ ?v @ replicate (unat (tk_value_width d) - length ?v) 0"
    by (simp add: span_entry_def tk_record_def hd_def)
  have h: "length hd = 9" by (simp add: hd_def split: option.splits)
  have "unat (tk_value_width d) < 2 ^ LENGTH(16)" by (rule unsigned_less)
  then have "length ?v < 2 ^ 16" using len by simp
  then have n: "unat (u16_from_le (slice ?r 9 11)) = length ?v" by (simp add: r slice_def h unat_of_nat)
  have v: "slice ?r 11 (11 + length ?v) = ?v" by (simp add: r slice_def h)
  have u: "(if ?r ! 0 = 1 then Some (decode_ts (slice ?r 1 9)) else None) = span_upper s"
    by (cases "span_upper s") (simp_all add: r hd_def slice_def nth_append)
  show ?thesis using entry_lengths [OF assms] entry_key_parts [OF assms] len
    by (simp add: span_from_def n v u Let_def)
qed

lemma entry_inj: "span_ok d a \<Longrightarrow> span_ok d b \<Longrightarrow> span_entry d a = span_entry d b \<Longrightarrow> a = b"
  by (metis span_from_entry sum.inject(2))

section \<open>Positions\<close>

lemma keeps_short: "keeps N t es n \<Longrightarrow> length es < 2 ^ 64"
  by (erule keepsE) (use entries_bound(1) in auto)

lemma entry_at_ok:
  assumes "keeps N t es n" "i \<le> length es"
  shows "entry_at t (word_of_nat i) = tk_ret (if i < length es then Some (es ! i) else None)"
proof -
  have u: "unat (word_of_nat i :: u64) = i" using assms(2) keeps_short [OF assms(1)] by (simp add: unat_of_nat)
  show ?thesis using assms(2) unfolding entry_at_def keeps_scans(3) [OF assms(1)] u
    by (cases "drop i es") (auto simp: nth_via_drop)
qed

abbreviation upto_probe :: "bytes \<Rightarrow> i64 \<Rightarrow> entries \<Rightarrow> entries" where
  "upto_probe sub x es \<equiv> at_most (composite sub x) es"

abbreviation past_probe :: "bytes \<Rightarrow> i64 \<Rightarrow> entries \<Rightarrow> entries" where
  "past_probe sub x es \<equiv> dropWhile (\<lambda>e. fst e \<le> composite sub x) es"

lemma past_probe_greater: "ascending es \<Longrightarrow> e \<in> set (past_probe sub x es) \<Longrightarrow> composite sub x < fst e"
  by (induction es) (auto split: if_splits simp: not_le)

lemma past_probe_hd:
  assumes "ascending es" "past_probe sub x es = e # B" "b \<in> set B"
  shows "fst e < fst b"
proof -
  have "ascending (upto_probe sub x es @ e # B)" using assms(1,2) takeWhile_dropWhile_id [of "\<lambda>e. fst e \<le> composite sub x" es] by simp
  then show ?thesis using assms(3) by (auto simp: sorted_wrt_append)
qed

lemma floor_ok:
  assumes k: "keeps N t es n" and len: "length sub + 8 = unat (bt_key_size t)"
  shows "rank_of_floor t (composite sub x) =
      Some (Inr (if upto_probe sub x es = [] then None else Some (word_of_nat (length (upto_probe sub x es) - 1))))"
    and "raw_floor t sub x =
      tk_ret (if upto_probe sub x es = [] then None else Some (word_of_nat (length (upto_probe sub x es) - 1), last (upto_probe sub x es)))"
proof -
  let ?A = "upto_probe sub x es"
  have le: "length ?A \<le> length es" by (rule length_takeWhile_le)
  obtain tr where tr: "holds_tree t tr" "entries_of tr = es" using k by (rule keepsE)
  have "rank_of_floor t (composite sub x) = Some (Inr (floor_rank (word_of_nat (length ?A))))"
    using key_ranks_ok(2) [OF tr(1), of "composite sub x"] len tr(2) by (simp add: composite_def)
  moreover have "length ?A < 2 ^ 64" using le keeps_short [OF k] by simp
  then have "(word_of_nat (length ?A) :: u64) = 0 \<longleftrightarrow> ?A = []" by (simp add: word_of_nat_eq_0)
  then have "floor_rank (word_of_nat (length ?A)) = (if ?A = [] then None else Some (word_of_nat (length ?A - 1)))"
    unfolding floor_rank_def by (cases ?A) simp_all
  ultimately show 1: "rank_of_floor t (composite sub x) = Some (Inr (if ?A = [] then None else Some (word_of_nat (length ?A - 1))))" by simp
  show "raw_floor t sub x = tk_ret (if ?A = [] then None else Some (word_of_nat (length ?A - 1), last ?A))"
  proof (cases "?A = []")
    case False
    then have "es ! (length ?A - 1) = last ?A" using takeWhile_nth [of "length ?A - 1" "\<lambda>e. fst e \<le> composite sub x" es] by (simp add: last_conv_nth)
    moreover have "length ?A - 1 < length es" using False le by (cases ?A) simp_all
    ultimately have "entry_at t (word_of_nat (length ?A - 1)) = tk_ret (Some (last ?A))" using entry_at_ok [OF k, of "length ?A - 1"] by simp
    then show ?thesis using False unfolding raw_floor_def 1 by (cases "last ?A") simp
  qed (simp add: raw_floor_def 1)
qed

lemma successor_ok:
  assumes k: "keeps N t es n"
  shows "entry_at t (word_of_nat (length (upto_probe sub x es))) = tk_ret (case past_probe sub x es of [] \<Rightarrow> None | e # _ \<Rightarrow> Some e)"
proof -
  have "entry_at t (word_of_nat (length A)) = tk_ret (case B of [] \<Rightarrow> None | e # _ \<Rightarrow> Some e)" if "es = A @ B" for A B
    using entry_at_ok [OF k, of "length A"] that by (cases B) (auto simp: nth_append)
  then show ?thesis by simp
qed

section \<open>The file holds spans\<close>

definition keeps_spans :: "tk_class_def \<Rightarrow> nat \<Rightarrow> btree \<Rightarrow> entries \<Rightarrow> tk_span set \<Rightarrow> nat \<Rightarrow> bool" where
  "keeps_spans d N t es S n \<longleftrightarrow> keeps N t es n \<and> set es = span_entry d ` S \<and> (\<forall>s\<in>S. span_ok d s) \<and> apart S \<and>
     unat (bt_key_size t) = sub_w d + 8 \<and> unat (bt_value_size t) = 11 + unat (tk_value_width d)"

lemma keeps_spansD:
  assumes "keeps_spans d N t es S n"
  shows "keeps N t es n" "set es = span_entry d ` S" "s \<in> S \<Longrightarrow> span_ok d s" "apart S" "ascending es"
    "length sub = sub_w d \<Longrightarrow> length sub + 8 = unat (bt_key_size t)" "unat (bt_value_size t) = 11 + unat (tk_value_width d)"
  using assms keeps_ascending by (auto simp: keeps_spans_def)

lemma entry_less:
  assumes "span_ok d a" "span_ok d b"
  shows "fst (span_entry d a) < fst (span_entry d b) \<longleftrightarrow> span_sub_key a < span_sub_key b \<or> span_sub_key a = span_sub_key b \<and> starts a < starts b"
  using assms by (simp add: span_entry_def span_ok_def composite_less)

lemma entry_probe:
  assumes "span_ok d s" "length sub = sub_w d"
  shows "composite sub x < fst (span_entry d s) \<longleftrightarrow> sub < span_sub_key s \<or> sub = span_sub_key s \<and> sint x < starts s"
  using assms by (simp add: span_entry_def span_ok_def composite_less)

lemma probe_set: "set (upto_probe sub x es) \<union> set (past_probe sub x es) = set es"
  by (metis set_append takeWhile_dropWhile_id)

lemma in_upto_probe:
  assumes "ascending es"
  shows "e \<in> set (upto_probe sub x es) \<longleftrightarrow> e \<in> set es \<and> \<not> composite sub x < fst e"
  using probe_set [of sub x es] past_probe_greater [OF assms, of e sub x] set_takeWhileD [of e "\<lambda>e. fst e \<le> composite sub x" es]
  by (auto simp: not_less)

lemma ascending_last: "ascending A \<Longrightarrow> e \<in> set A \<Longrightarrow> e = last A \<or> fst e < fst (last A)"
  by (cases A rule: rev_cases) (auto simp: sorted_wrt_append)

lemma upto_probe_last:
  assumes "ascending es" "e \<in> set (upto_probe sub x es)"
  shows "e = last (upto_probe sub x es) \<or> fst e < fst (last (upto_probe sub x es))"
proof -
  have "ascending (upto_probe sub x es @ past_probe sub x es)" using assms(1) by simp
  then have "ascending (upto_probe sub x es)" by (simp only: ascending_append)
  then show ?thesis using assms(2) by (rule ascending_last)
qed

lemma floor_span:
  assumes h: "keeps_spans d N t es S n" and len: "length sub = sub_w d"
  shows "upto_probe sub x es = [] \<Longrightarrow> \<forall>s\<in>S. span_sub_key s = sub \<longrightarrow> sint x < starts s"
    and "upto_probe sub x es \<noteq> [] \<Longrightarrow> \<exists>s\<in>S. last (upto_probe sub x es) = span_entry d s \<and>
       (span_sub_key s = sub \<and> starts s \<le> sint x \<or> span_sub_key s < sub) \<and>
       (\<forall>a\<in>S. span_sub_key a = sub \<longrightarrow> starts a \<le> sint x \<longrightarrow> span_sub_key s = sub \<and> (a = s \<or> starts a < starts s))"
proof -
  let ?A = "upto_probe sub x es"
  note D = keeps_spansD [OF h]
  have inA: "span_entry d a \<in> set ?A \<longleftrightarrow> span_sub_key a < sub \<or> span_sub_key a = sub \<and> starts a \<le> sint x" if "a \<in> S" for a
    using in_upto_probe [OF D(5), of "span_entry d a" sub x] entry_probe [OF D(3) [OF that] len, of x] that D(2)
      linorder_less_linear [of sub "span_sub_key a"] by auto
  show "\<forall>s\<in>S. span_sub_key s = sub \<longrightarrow> sint x < starts s" if "?A = []" using inA that by (auto simp: not_le)
  assume ne: "?A \<noteq> []"
  then have "last ?A \<in> set ?A" by simp
  then have "last ?A \<in> set es" using in_upto_probe [OF D(5), of "last ?A"] by blast
  then obtain s where s: "s \<in> S" "last ?A = span_entry d s" using D(2) by auto
  moreover have "span_sub_key s = sub \<and> starts s \<le> sint x \<or> span_sub_key s < sub" using inA [OF s(1)] \<open>last ?A \<in> set ?A\<close> s(2) by auto
  moreover have "span_sub_key s = sub \<and> (a = s \<or> starts a < starts s)" if a: "a \<in> S" "span_sub_key a = sub" "starts a \<le> sint x" for a
  proof -
    have "span_entry d a = span_entry d s \<or> fst (span_entry d a) < fst (span_entry d s)"
      using upto_probe_last [OF D(5), of "span_entry d a" sub x] inA [OF a(1)] a s(2) by auto
    then show ?thesis
    proof
      assume "span_entry d a = span_entry d s"
      then have "a = s" by (rule entry_inj [OF D(3) [OF a(1)] D(3) [OF s(1)]])
      then show ?thesis using a by simp
    next
      assume "fst (span_entry d a) < fst (span_entry d s)"
      then show ?thesis using entry_less [OF D(3) [OF a(1)] D(3) [OF s(1)]] calculation(3) a by auto
    qed
  qed
  ultimately show "\<exists>s\<in>S. last ?A = span_entry d s \<and> (span_sub_key s = sub \<and> starts s \<le> sint x \<or> span_sub_key s < sub) \<and>
       (\<forall>a\<in>S. span_sub_key a = sub \<longrightarrow> starts a \<le> sint x \<longrightarrow> span_sub_key s = sub \<and> (a = s \<or> starts a < starts s))" by blast
qed

lemma next_span:
  assumes h: "keeps_spans d N t es S n" and len: "length sub = sub_w d"
  shows "past_probe sub x es = [] \<Longrightarrow> \<forall>s\<in>S. span_sub_key s = sub \<longrightarrow> starts s \<le> sint x"
    and "past_probe sub x es = e # B \<Longrightarrow> \<exists>s\<in>S. e = span_entry d s \<and> (span_sub_key s = sub \<and> sint x < starts s \<or> sub < span_sub_key s) \<and>
       (\<forall>a\<in>S. span_sub_key a = sub \<longrightarrow> sint x < starts a \<longrightarrow> span_sub_key s = sub \<and> starts s \<le> starts a)"
proof -
  let ?B = "past_probe sub x es"
  note D = keeps_spansD [OF h]
  have inB: "span_entry d a \<in> set ?B" if "a \<in> S" "span_sub_key a = sub" "sint x < starts a" for a
  proof -
    have "span_entry d a \<in> set (upto_probe sub x es) \<union> set ?B" using that D(2) probe_set by blast
    then show ?thesis using in_upto_probe [OF D(5), of "span_entry d a" sub x] entry_probe [OF D(3) [OF that(1)] len, of x] that by auto
  qed
  show "\<forall>s\<in>S. span_sub_key s = sub \<longrightarrow> starts s \<le> sint x" if "?B = []" using inB that by (metis empty_iff list.set(1) not_less)
  assume B: "?B = e # B"
  have "e \<in> set es" using B takeWhile_dropWhile_id [of "\<lambda>e. fst e \<le> composite sub x" es] by (metis in_set_conv_decomp)
  then obtain s where s: "s \<in> S" "e = span_entry d s" using D(2) by auto
  moreover have pos: "span_sub_key s = sub \<and> sint x < starts s \<or> sub < span_sub_key s"
    using past_probe_greater [OF D(5), of e sub x] B entry_probe [OF D(3) [OF s(1)] len, of x] s(2) by auto
  moreover have "span_sub_key s = sub \<and> starts s \<le> starts a" if a: "a \<in> S" "span_sub_key a = sub" "sint x < starts a" for a
  proof -
    have "span_entry d a = e \<or> fst e < fst (span_entry d a)" using inB [OF a] B past_probe_hd [OF D(5) B, of "span_entry d a"] by auto
    then have "a = s \<or> span_sub_key s < span_sub_key a \<or> span_sub_key s = span_sub_key a \<and> starts s < starts a"
      using entry_less [OF D(3) [OF s(1)] D(3) [OF a(1)]] entry_inj [OF D(3) [OF a(1)] D(3) [OF s(1)]] s(2) by blast
    then show ?thesis using pos a by auto
  qed
  ultimately show "\<exists>s\<in>S. e = span_entry d s \<and> (span_sub_key s = sub \<and> sint x < starts s \<or> sub < span_sub_key s) \<and>
       (\<forall>a\<in>S. span_sub_key a = sub \<longrightarrow> sint x < starts a \<longrightarrow> span_sub_key s = sub \<and> starts s \<le> starts a)" by blast
qed

lemma covering_ok:
  assumes h: "keeps_spans d N t es S n" and len: "length sub = sub_w d"
  shows "\<exists>r. covering d t sub x = tk_ret r \<and> (case r of
      None \<Rightarrow> \<forall>s\<in>S. span_sub_key s = sub \<longrightarrow> \<not> covers s (sint x)
    | Some (rank, s) \<Rightarrow> s \<in> S \<and> span_sub_key s = sub \<and> covers s (sint x) \<and> upto_probe sub x es \<noteq> [] \<and>
        rank = word_of_nat (length (upto_probe sub x es) - 1) \<and> last (upto_probe sub x es) = span_entry d s)"
proof (cases "upto_probe sub x es = []")
  case True
  then have "\<forall>s\<in>S. span_sub_key s = sub \<longrightarrow> \<not> covers s (sint x)" using floor_span(1) [OF h len True] by (meson covers_def not_less)
  then show ?thesis using floor_ok(2) [OF keeps_spansD(1,6) [OF h], OF len, of x] True
    by (auto simp: covering_def intro!: exI [of _ None])
next
  case False
  let ?A = "upto_probe sub x es" let ?rank = "word_of_nat (length ?A - 1) :: u64"
  obtain s where s: "s \<in> S" "last ?A = span_entry d s" "span_sub_key s = sub \<and> starts s \<le> sint x \<or> span_sub_key s < sub"
    and top: "\<And>a. a \<in> S \<Longrightarrow> span_sub_key a = sub \<Longrightarrow> starts a \<le> sint x \<Longrightarrow> span_sub_key s = sub \<and> (a = s \<or> starts a < starts s)"
    using floor_span(2) [OF h len False] by blast
  note ok = keeps_spansD(3) [OF h s(1)]
  have rf: "raw_floor t sub x = tk_ret (Some (?rank, span_entry d s))"
    using floor_ok(2) [OF keeps_spansD(1,6) [OF h], OF len, of x] False s(2) by simp
  have cov: "covering d t sub x = tk_ret (if span_sub_key s = sub \<and> ends_after s (sint x) then Some (?rank, s) else None)"
    using entry_key_parts(1) [OF ok] span_from_entry [OF ok]
    by (cases "span_entry d s") (simp add: covering_def rf ends_after_def i64_less_def split: option.splits)
  have "\<not> covers a (sint x)" if a: "a \<in> S" "span_sub_key a = sub" "\<not> (span_sub_key s = sub \<and> ends_after s (sint x))" for a
  proof
    assume c: "covers a (sint x)"
    then have sub: "span_sub_key s = sub" "a = s \<or> starts a < starts s" using top [OF a(1,2)] by (auto simp: covers_def)
    then have "starts a < starts s" using a(3) c by (auto simp: covers_def)
    then have "before a s" using apartD(2) [OF keeps_spansD(4) [OF h] a(1) s(1)] a(2) sub(1) by (auto simp: before_def)
    then show False using ends_mono [of a "sint x" "starts s"] c s(3) sub(1) by (auto simp: before_def covers_def)
  qed
  note none = this
  show ?thesis
  proof (cases "span_sub_key s = sub \<and> ends_after s (sint x)")
    case True
    then have "covers s (sint x)" using s(3) by (auto simp: covers_def)
    then show ?thesis using cov True s(1,2) False by (intro exI [of _ "Some (?rank, s)"]) simp
  next
    case F: False
    then have "covering d t sub x = tk_ret None" using cov by auto
    then show ?thesis using none [OF _ _ F] by (intro exI [of _ None]) simp
  qed
qed

lemma covering_cases:
  assumes h: "keeps_spans d N t es S n" and len: "length sub = sub_w d"
  obtains (gap) "covering d t sub x = tk_ret None" "\<forall>s\<in>S. span_sub_key s = sub \<longrightarrow> \<not> covers s (sint x)"
    | (cov) rank s where "covering d t sub x = tk_ret (Some (rank, s))" "s \<in> S" "span_sub_key s = sub" "covers s (sint x)"
        "upto_probe sub x es \<noteq> []" "rank = word_of_nat (length (upto_probe sub x es) - 1)" "last (upto_probe sub x es) = span_entry d s"
proof -
  obtain r where r: "covering d t sub x = tk_ret r" "case r of
      None \<Rightarrow> \<forall>s\<in>S. span_sub_key s = sub \<longrightarrow> \<not> covers s (sint x)
    | Some (rank, s) \<Rightarrow> s \<in> S \<and> span_sub_key s = sub \<and> covers s (sint x) \<and> upto_probe sub x es \<noteq> [] \<and>
        rank = word_of_nat (length (upto_probe sub x es) - 1) \<and> last (upto_probe sub x es) = span_entry d s"
    using covering_ok [OF h len] by blast
  show thesis
  proof (cases r)
    case None
    show thesis by (rule gap) (use r None in simp_all)
  next
    case (Some rs)
    obtain rank s where rs: "rs = (rank, s)" by fastforce
    show thesis by (rule cov [of rank s]) (use r Some rs in simp_all)
  qed
qed

section \<open>Changes\<close>

lemma same_place:
  assumes "apart S" "a \<in> S" "b \<in> S" "span_sub_key a = span_sub_key b" "span_lower a = span_lower b"
  shows "a = b"
  using apartD(2) [OF assms(1-3)] assms(4,5) by (auto simp: before_def)

lemma entry_key_eq:
  assumes "span_ok d a" "span_ok d b"
  shows "fst (span_entry d a) = fst (span_entry d b) \<longleftrightarrow> span_sub_key a = span_sub_key b \<and> span_lower a = span_lower b"
  using assms by (simp add: span_entry_def span_ok_def composite_eq)

lemma put_span_ok:
  assumes h: "keeps_spans d N t es S (Suc n)" and ok: "span_ok d s" and ap: "apart (insert s R)"
    and R: "R = {a \<in> S. \<not> (span_sub_key a = span_sub_key s \<and> span_lower a = span_lower s)}"
  shows "\<exists>t' es'. put_span d t (span_sub_key s) (span_lower s) (span_upper s) (span_value s) = tk_ret t' \<and> keeps_spans d N t' es' (insert s R) n"
proof -
  note D = keeps_spansD [OF h]
  obtain k v where kv: "span_entry d s = (k, v)" by fastforce
  have k: "k = composite (span_sub_key s) (span_lower s)" using kv by (simp add: span_entry_def)
  have lens: "length k = unat (bt_key_size t)" "length v = unat (bt_value_size t)"
    using entry_lengths [OF ok] h kv by (simp_all add: keeps_spans_def)
  obtain t' where t': "btree_insert t k v = Some (Inr t')" "keeps N t' (upsert k v es) n" "bt_key_size t' = bt_key_size t" "bt_value_size t' = bt_value_size t"
    using insert_keeps [OF D(1) lens] by blast
  have "set (upsert k v es) = insert (k, v) {e \<in> span_entry d ` S. fst e \<noteq> k}" using upsert_members [OF D(5)] D(2) by simp
  also have "{e \<in> span_entry d ` S. fst e \<noteq> k} = span_entry d ` R"
  proof -
    have "fst (span_entry d a) \<noteq> k \<longleftrightarrow> a \<in> R" if "a \<in> S" for a using entry_key_eq [OF D(3) [OF that] ok] kv that by (simp add: R)
    then show ?thesis using R by blast
  qed
  finally have "set (upsert k v es) = span_entry d ` insert s R" by (simp add: kv)
  then have "keeps_spans d N t' (upsert k v es) (insert s R) n"
    using t' ok D(3) ap h by (auto simp: keeps_spans_def R)
  moreover have "put_span d t (span_sub_key s) (span_lower s) (span_upper s) (span_value s) = tk_ret t'"
    using tk_record_ok [OF ok] t'(1) kv by (simp add: put_span_def k)
  ultimately show ?thesis by blast
qed

lemma remove_span_ok:
  assumes h: "keeps_spans d N t es S n" and s: "s \<in> S"
  shows "\<exists>g t' es'. btree_remove t (composite (span_sub_key s) (span_lower s)) = Some (Inr (g, t')) \<and> keeps_spans d N t' es' (S - {s}) n"
proof -
  note D = keeps_spansD [OF h]
  let ?k = "fst (span_entry d s)"
  have k: "?k = composite (span_sub_key s) (span_lower s)" by (simp add: span_entry_def)
  have "length ?k = unat (bt_key_size t)" using entry_lengths(1) [OF D(3) [OF s]] h by (simp add: keeps_spans_def)
  from remove_keeps [OF D(1) this] obtain g t' where t': "btree_remove t ?k = Some (Inr (g, t'))" "keeps N t' (without ?k es) n"
    "bt_key_size t' = bt_key_size t" "bt_value_size t' = bt_value_size t" by blast
  have "set (without ?k es) = {e \<in> span_entry d ` S. fst e \<noteq> ?k}" using D(2) by (auto simp: without_def)
  also have "\<dots> = span_entry d ` (S - {s})" using entry_key_eq [OF D(3) D(3) [OF s]] same_place [OF D(4) _ s] by auto
  finally have "keeps_spans d N t' (without ?k es) (S - {s}) n" using t' D(3) apart_remove [OF D(4)] h by (auto simp: keeps_spans_def)
  then show ?thesis using t'(1) k by auto
qed

lemma keeps_spans_weaken: "keeps_spans d N t es S n \<Longrightarrow> m \<le> n \<Longrightarrow> keeps_spans d N t es S m"
  unfolding keeps_spans_def using keeps_weaken by blast

lemma replace_span_ok:
  assumes h: "keeps_spans d N t es S (Suc n)" and s: "s \<in> S" and ok: "span_ok d m" and ap: "apart (insert m (S - {s}))"
    and m: "span_sub_key m = span_sub_key s" "span_lower m = span_lower s"
  shows "\<exists>t' es'. put_span d t (span_sub_key m) (span_lower m) (span_upper m) (span_value m) = tk_ret t' \<and> keeps_spans d N t' es' (insert m (S - {s})) n"
proof (rule put_span_ok [OF h ok ap])
  show "S - {s} = {a \<in> S. \<not> (span_sub_key a = span_sub_key m \<and> span_lower a = span_lower m)}"
    using same_place [OF keeps_spansD(4) [OF h] _ s] s m by auto
qed

lemma add_span_ok:
  assumes h: "keeps_spans d N t es S (Suc n)" and ok: "span_ok d m" and ap: "apart (insert m S)"
    and m: "\<And>a. a \<in> S \<Longrightarrow> span_sub_key a = span_sub_key m \<Longrightarrow> span_lower a \<noteq> span_lower m"
  shows "\<exists>t' es'. put_span d t (span_sub_key m) (span_lower m) (span_upper m) (span_value m) = tk_ret t' \<and> keeps_spans d N t' es' (insert m S) n"
  by (rule put_span_ok [OF h ok ap]) (use m in auto)

lemma successor_span:
  assumes h: "keeps_spans d N t es S n" and len: "length sub = sub_w d"
    and up_def: "up = (case past_probe sub w es of [] \<Rightarrow> None | (k, _) # _ \<Rightarrow>
      if take (sub_w d) k = sub then Some (decode_ts (slice k (sub_w d) (sub_w d + 8))) else None)"
  shows "up = None \<Longrightarrow> \<forall>s\<in>S. span_sub_key s = sub \<longrightarrow> starts s \<le> sint w"
    "up = Some u \<Longrightarrow> sint w < sint u \<and> (\<exists>s\<in>S. span_sub_key s = sub \<and> span_lower s = u) \<and>
       (\<forall>s\<in>S. span_sub_key s = sub \<longrightarrow> sint w < starts s \<longrightarrow> sint u \<le> starts s)"
proof -
  have "(up = None \<longrightarrow> (\<forall>s\<in>S. span_sub_key s = sub \<longrightarrow> starts s \<le> sint w)) \<and>
    (\<forall>u. up = Some u \<longrightarrow> sint w < sint u \<and> (\<exists>s\<in>S. span_sub_key s = sub \<and> span_lower s = u) \<and>
       (\<forall>s\<in>S. span_sub_key s = sub \<longrightarrow> sint w < starts s \<longrightarrow> sint u \<le> starts s))"
  proof (cases "past_probe sub w es")
    case Nil
    have "up = None" unfolding up_def Nil by simp
    then show ?thesis using next_span(1) [OF h len Nil] by simp
  next
    case (Cons e B)
    obtain s where s: "s \<in> S" "e = span_entry d s" "span_sub_key s = sub \<and> sint w < starts s \<or> sub < span_sub_key s"
      and low: "\<forall>a\<in>S. span_sub_key a = sub \<longrightarrow> sint w < starts a \<longrightarrow> span_sub_key s = sub \<and> starts s \<le> starts a"
      using next_span(2) [OF h len Cons] by blast
    have "up = (if span_sub_key s = sub then Some (span_lower s) else None)"
      using entry_key_parts [OF keeps_spansD(3) [OF h s(1)]] unfolding up_def Cons s(2) by (simp add: case_prod_beta)
    then show ?thesis using s low by (auto simp: not_less [symmetric])
  qed
  then show "up = None \<Longrightarrow> \<forall>s\<in>S. span_sub_key s = sub \<longrightarrow> starts s \<le> sint w"
    "up = Some u \<Longrightarrow> sint w < sint u \<and> (\<exists>s\<in>S. span_sub_key s = sub \<and> span_lower s = u) \<and>
       (\<forall>s\<in>S. span_sub_key s = sub \<longrightarrow> sint w < starts s \<longrightarrow> sint u \<le> starts s)" by blast+
qed

lemma set_gap_ok:
  assumes h: "keeps_spans d N t es S (Suc n)" and T: "tells S (f, L)"
    and ok: "length sub = sub_w d" "length v \<le> unat (tk_value_width d)"
    and gap: "\<forall>s\<in>S. span_sub_key s = sub \<longrightarrow> \<not> covers s (sint w)" and cov: "covering d t sub w = tk_ret None"
  shows "\<exists>m t' es'. do_set d t sub w v = tk_ret ([m], t') \<and> keeps_spans d N t' es' (insert m S) n \<and>
    tells (insert m S) (set_value sub (sint w) v (f, L)) \<and> span_sub_key m = sub \<and> span_lower m = w \<and> span_value m = v"
proof -
  note D = keeps_spansD [OF h]
  let ?A = "upto_probe sub w es" and ?B = "past_probe sub w es"
  define up where "up = (case ?B of [] \<Rightarrow> None | (k, _) # _ \<Rightarrow>
      if take (sub_w d) k = sub then Some (decode_ts (slice k (sub_w d) (sub_w d + 8))) else None)"
  define m where "m = \<lparr>span_sub_key = sub, span_lower = w, span_upper = up, span_value = v\<rparr>"
  have mp [simp]: "span_sub_key m = sub" "span_lower m = w" "span_upper m = up" "span_value m = v" by (simp_all add: m_def)
  note up = successor_span [OF h ok(1) up_def]
  have notat: "starts s \<noteq> sint w" if "s \<in> S" "span_sub_key s = sub" for s
    using gap that apartD(1) [OF D(4) that(1)] by (auto simp: covers_def)
  have tl: "tells (insert m S) (set_value sub (sint w) v (f, L))"
    using set_gap [OF T, of m] gap up notat start_in [OF T] by (simp add: le_less) metis
  have "span_ok d m" using ok by (simp add: span_ok_def)
  from add_span_ok [OF h this] obtain t' es' where t': "put_span d t sub w up v = tk_ret t'" "keeps_spans d N t' es' (insert m S) n"
    using notat tellsD(1) [of "insert m S"] tl by (auto simp: set_value_def)
  have succ: "entry_at t (case (if ?A = [] then None else Some (word_of_nat (length ?A - 1), last ?A)) of Some (rank, _, _) \<Rightarrow> rank + 1 | None \<Rightarrow> 0) =
      tk_ret (case ?B of [] \<Rightarrow> None | e # _ \<Rightarrow> Some e)"
    using successor_ok [OF D(1), of sub w] by (cases ?A) (auto simp: case_prod_beta add.commute)
  have "do_set d t sub w v = tk_ret ([m], t')"
    unfolding do_set_def cov floor_ok(2) [OF D(1) D(6) [OF ok(1)]]
    using succ t'(1) by (cases ?B) (auto simp: m_def up_def Let_def case_prod_beta simp del: dropWhile_eq_Nil_conv)
  then show ?thesis using t'(2) tl by auto
qed

lemma later_inside: "covers s (sint w) \<Longrightarrow> span_lower s \<noteq> w \<Longrightarrow> starts s < sint w"
  by (metis covers_def order_le_less word_eq_iff_signed)

lemma span_same: "span_sub_key (s\<lparr>span_value := v\<rparr>) = span_sub_key s" "span_lower (s\<lparr>span_value := v\<rparr>) = span_lower s" "span_value (s\<lparr>span_value := v\<rparr>) = v"
  by simp_all

lemma do_set_ok:
  assumes h: "keeps_spans d N t es S (Suc (Suc n))" and T: "tells S (f, L)"
    and ok: "length sub = sub_w d" "length v \<le> unat (tk_value_width d)"
  shows "\<exists>m t' es' S'. do_set d t sub w v = tk_ret ([m], t') \<and> keeps_spans d N t' es' S' n \<and> tells S' (set_value sub (sint w) v (f, L)) \<and>
    m \<in> S' \<and> span_sub_key m = sub \<and> span_lower m = w \<and> span_value m = v"
proof -
  note D = keeps_spansD [OF h]
  show ?thesis
  proof (rule covering_cases [OF h ok(1), of w], goal_cases gap cov)
    case gap
    from set_gap_ok [OF keeps_spans_weaken [OF h] T ok gap(2,1), of n] show ?thesis by auto
  next
    case (cov rank s)
    note sok = D(3) [OF cov(2)]
    show ?thesis
    proof (cases "span_lower s = w")
      case True
      let ?m = "s\<lparr>span_value := v\<rparr>"
      have tl: "tells (insert ?m (S - {s})) (set_value sub (sint w) v (f, L))" using set_same [OF T cov(2), of "sint w" v] True cov(3) by simp
      have m: "span_ok d ?m" using sok ok by (simp add: span_ok_def)
      have "apart (insert ?m (S - {s}))" using tl by (simp add: tells_def)
      from replace_span_ok [OF keeps_spans_weaken [OF h, of "Suc n"] cov(2) m this] obtain t' es' where
        "put_span d t sub w (span_upper s) v = tk_ret t'" "keeps_spans d N t' es' (insert ?m (S - {s})) n"
        using cov(3) True by auto
      moreover from this(1) have "do_set d t sub w v = tk_ret ([?m], t')" using cov True by (simp add: do_set_def)
      ultimately show ?thesis using tl cov(3) True by (metis insertI1 span_same)
    next
      case False
      let ?c = "s\<lparr>span_upper := Some w\<rparr>"
      define m where "m = \<lparr>span_sub_key = sub, span_lower = w, span_upper = span_upper s, span_value = v\<rparr>"
      have lt: "starts s < sint w" using later_inside [OF cov(4) False] .
      have tl: "tells (insert m (insert ?c (S - {s}))) (set_value sub (sint w) v (f, L))" using set_split [OF T cov(2) lt cov(4), of v] cov(3) by (simp add: m_def)
      have c: "span_ok d ?c" using sok by (simp add: span_ok_def)
      from replace_span_ok [OF h cov(2) c closed_apart [OF D(4) cov(2) lt cov(4)]] obtain t1 es1 where
        t1: "put_span d t sub (span_lower s) (Some w) (span_value s) = tk_ret t1" "keeps_spans d N t1 es1 (insert ?c (S - {s})) (Suc n)"
        using cov(3) by auto
      have m: "span_ok d m" using ok by (simp add: span_ok_def m_def)
      have "apart (insert m (insert ?c (S - {s})))" using tl by (simp add: tells_def)
      moreover have "span_lower a \<noteq> span_lower m" if "a \<in> insert ?c (S - {s})" "span_sub_key a = span_sub_key m" for a
      proof (cases "a = ?c")
        case True
        then show ?thesis using False by (simp add: m_def)
      next
        case ne: False
        then have a: "a \<in> S" "a \<noteq> s" "span_sub_key a = sub" using that by (auto simp: m_def)
        show ?thesis
        proof
          assume "span_lower a = span_lower m"
          then have "covers a (sint w)" using apartD(1) [OF D(4) a(1)] by (simp add: covers_def m_def)
          then show False using apart_unique [OF D(4) a(1) cov(2) _ _ cov(4)] a cov(3) by simp
        qed
      qed
      ultimately obtain t' es' where
        "put_span d t1 sub w (span_upper s) v = tk_ret t'" "keeps_spans d N t' es' (insert m (insert ?c (S - {s}))) n"
        using add_span_ok [OF t1(2) m] by (auto simp: m_def)
      moreover from this(1) have "do_set d t sub w v = tk_ret ([m], t')" using cov False t1(1) by (simp add: do_set_def m_def)
      moreover have "span_sub_key m = sub" "span_lower m = w" "span_value m = v" by (simp_all add: m_def)
      ultimately show ?thesis using tl by blast
    qed
  qed
qed

lemma do_clear_ok:
  assumes h: "keeps_spans d N t es S (Suc n)" and T: "tells S (f, L)" and ok: "length sub = sub_w d"
  shows "\<exists>spans t' es' S'. do_clear d t sub w = tk_ret (spans, t') \<and> keeps_spans d N t' es' S' n \<and> tells S' (clear_value sub (sint w) (f, L))"
proof (rule covering_cases [OF h ok, of w], goal_cases gap cov)
  case gap
  then show ?case using clear_gap [OF T, of sub "sint w"] T keeps_spans_weaken [OF h, of n] by (auto simp: do_clear_def)
next
  case (cov rank s)
  note sok = keeps_spansD(3) [OF h cov(2)]
  show ?case
  proof (cases "span_lower s = w")
    case True
    then have tl: "tells (S - {s}) (clear_value sub (sint w) (f, L))" using clear_whole [OF T cov(2), of "sint w"] cov(3) by simp
    obtain g t' es' where t': "btree_remove t (composite sub w) = Some (Inr (g, t'))" "keeps_spans d N t' es' (S - {s}) n"
      using remove_span_ok [OF keeps_spans_weaken [OF h, of n] cov(2)] cov(3) True by auto
    then have "do_clear d t sub w = tk_ret ([], t')" using cov(1) True by (simp add: do_clear_def)
    then show ?thesis using t'(2) tl by blast
  next
    case False
    let ?c = "s\<lparr>span_upper := Some w\<rparr>"
    have lt: "starts s < sint w" using later_inside [OF cov(4) False] .
    have tl: "tells (insert ?c (S - {s})) (clear_value sub (sint w) (f, L))" using clear_tail [OF T cov(2) lt cov(4)] cov(3) by simp
    have c: "span_ok d ?c" using sok by (simp add: span_ok_def)
    from replace_span_ok [OF h cov(2) c closed_apart [OF keeps_spansD(4) [OF h] cov(2) lt cov(4)]] obtain t1 es1 where
      "put_span d t sub (span_lower s) (Some w) (span_value s) = tk_ret t1" "keeps_spans d N t1 es1 (insert ?c (S - {s})) n"
      using cov(3) by auto
    moreover from this(1) have "do_clear d t sub w = tk_ret ([?c], t1)" using cov False by (simp add: do_clear_def)
    ultimately show ?thesis using tl by blast
  qed
qed

section \<open>Operations\<close>

text \<open>An operation is valid when \<open>validate_set\<close> or \<open>check_sub_key\<close> accepts it.\<close>

fun valid_op :: "tk_class_def \<Rightarrow> tk_op \<Rightarrow> bool" where
  "valid_op d (TkSet sub as_of v) \<longleftrightarrow> length sub = sub_w d \<and> length v \<le> unat (tk_value_width d) \<and>
     (\<exists>fv. decode_field_value (tk_value_type d) v 0 = Inr (fv, length v))"
| "valid_op d (TkClear sub as_of) \<longleftrightarrow> length sub = sub_w d"

text \<open>What an operation at the time \<open>now\<close> of the clock means.\<close>

fun tk_meaning :: "i64 \<times> tk_op \<Rightarrow> timeline \<Rightarrow> timeline" where
  "tk_meaning (now, TkSet sub as_of v) T = set_value sub (sint (case as_of of Some t \<Rightarrow> t | None \<Rightarrow> now)) v T"
| "tk_meaning (now, TkClear sub as_of) T = clear_value sub (sint (case as_of of Some t \<Rightarrow> t | None \<Rightarrow> now)) T"

definition tk_update :: "tk_class_def \<Rightarrow> i64 \<times> tk_op \<Rightarrow> timeline \<Rightarrow> timeline" where
  "tk_update d x T = (if valid_op d (snd x) then tk_meaning x T else T)"

abbreviation no_history :: timeline where
  "no_history \<equiv> (\<lambda>_ _. None, \<lambda>_. {})"

definition holds_tk :: "tk_class_def \<Rightarrow> nat \<Rightarrow> btree \<Rightarrow> timeline \<Rightarrow> nat \<Rightarrow> bool" where
  "holds_tk d N t T n \<longleftrightarrow> (\<exists>es S. keeps_spans d N t es S n \<and> tells S T)"

lemma validate_set_ok:
  assumes "valid_op d (TkSet sub as_of v)"
  shows "validate_set d sub v = tk_ret ()"
  using assms by (auto simp: validate_set_def check_sub_key_def)

lemma validate_set_bad:
  assumes "\<not> valid_op d (TkSet sub as_of v)"
  shows "\<exists>e. validate_set d sub v = tk_err e"
  using assms by (auto simp: validate_set_def check_sub_key_def tk_bind_def tk_err_def tk_ret_def split: sum.splits)

lemma tk_step:
  assumes h: "holds_tk d N t T (Suc (Suc n))" and op: "wf_tk_op op"
  shows "\<exists>out t'. tk_execute d now (encode_tk_op op) t = Some (Inr (out, t')) \<and> holds_tk d N t' (tk_update d (now, op) T) n \<and>
    (valid_op d op \<longrightarrow> (\<exists>spans. out = Inr (encode_tk_result spans))) \<and> (\<not> valid_op d op \<longrightarrow> t' = t \<and> (\<exists>e. out = Inl e))"
proof -
  have dec: "decode_tk_op (encode_tk_op op) = Inr op" using op by (simp add: tk_op.exact)
  obtain es S f L where k: "keeps_spans d N t es S (Suc (Suc n))" "tells S (f, L)" and T: "T = (f, L)" using h unfolding holds_tk_def by (cases T) auto
  have keep: "holds_tk d N t T n" using k T keeps_spans_weaken [OF k(1), of n] by (auto simp: holds_tk_def)
  show ?thesis
  proof (cases op)
    case (TkSet sub as_of v)
    note dec = dec [unfolded TkSet]
    let ?w = "case as_of of Some t \<Rightarrow> t | None \<Rightarrow> now"
    show ?thesis
    proof (cases "valid_op d op")
      case True
      then have "length sub = sub_w d" "length v \<le> unat (tk_value_width d)" by (simp_all add: TkSet)
      from do_set_ok [OF k this, of ?w] obtain m t' es' S' where "do_set d t sub ?w v = tk_ret ([m], t')" "keeps_spans d N t' es' S' n"
        "tells S' (set_value sub (sint ?w) v (f, L))" by blast
      moreover have "validate_set d sub v = tk_ret ()" using True by (simp add: TkSet validate_set_ok [of d sub as_of v])
      ultimately show ?thesis using True by (auto simp: tk_execute_def dec TkSet tk_ret_def [of "(_, _)"] holds_tk_def tk_update_def T)
    next
      case False
      then obtain e where "validate_set d sub v = tk_err e" using validate_set_bad [of d sub as_of v] by (auto simp: TkSet)
      then show ?thesis using False keep by (auto simp: tk_execute_def dec TkSet tk_bind_def tk_err_def tk_update_def)
    qed
  next
    case (TkClear sub as_of)
    note dec = dec [unfolded TkClear]
    let ?w = "case as_of of Some t \<Rightarrow> t | None \<Rightarrow> now"
    show ?thesis
    proof (cases "valid_op d op")
      case True
      then have len: "length sub = sub_w d" by (simp add: TkClear)
      from do_clear_ok [OF keeps_spans_weaken [OF k(1)] k(2) len, of n ?w] obtain spans t' es' S' where "do_clear d t sub ?w = tk_ret (spans, t')" "keeps_spans d N t' es' S' n"
        "tells S' (clear_value sub (sint ?w) (f, L))" by auto
      then show ?thesis using True len by (auto simp: tk_execute_def dec TkClear check_sub_key_def tk_ret_def [of "(_, _)"] holds_tk_def tk_update_def T)
    next
      case False
      then show ?thesis using keep by (auto simp: tk_execute_def dec TkClear check_sub_key_def tk_bind_def tk_err_def tk_update_def)
    qed
  qed
qed

lemma tk_run:
  assumes "holds_tk d N t T (2 * length ops + n)" "list_all (\<lambda>x. wf_tk_op (snd x)) ops"
  shows "\<exists>outs t'. run_updates (\<lambda>(now, p). tk_execute d now p) (map (\<lambda>(now, op). (now, encode_tk_op op)) ops) t = Some (Inr (outs, t')) \<and>
    holds_tk d N t' (fold (tk_update d) ops T) n \<and> map isl outs = map (\<lambda>x. \<not> valid_op d (snd x)) ops"
  using assms
proof (induction ops arbitrary: t T)
  case (Cons x ops)
  obtain now op where x: "x = (now, op)" by fastforce
  have "holds_tk d N t T (Suc (Suc (2 * length ops + n)))" "wf_tk_op op" using Cons.prems by (simp_all add: x)
  from tk_step [OF this, of now] obtain out t1 where 1: "tk_execute d now (encode_tk_op op) t = Some (Inr (out, t1))"
    "holds_tk d N t1 (tk_update d x T) (2 * length ops + n)" "isl out \<longleftrightarrow> \<not> valid_op d op" by (auto simp: x)
  from Cons.IH [OF 1(2)] Cons.prems(2) obtain outs t' where
    "run_updates (\<lambda>(now, p). tk_execute d now p) (map (\<lambda>(now, op). (now, encode_tk_op op)) ops) t1 = Some (Inr (outs, t'))"
    "holds_tk d N t' (fold (tk_update d) ops (tk_update d x T)) n" "map isl outs = map (\<lambda>x. \<not> valid_op d (snd x)) ops" by auto
  then show ?case using 1 by (intro exI [of _ "out # outs"] exI [of _ t']) (simp add: x)
qed simp

text \<open>The widths of a class leave room for two keys in an internal page and for one entry in a leaf.\<close>

definition class_fits :: "tk_class_def \<Rightarrow> bool" where
  "class_fits d \<longleftrightarrow> sub_w d + unat (tk_value_width d) + 19 \<le> 4064 \<and> 2 * (sub_w d + 24) \<le> 4064"

lemma widths:
  fixes w :: u16
  shows "unat (ucast w + 8 :: u32) = unat w + 8" "unat (11 + ucast w :: u32) = 11 + unat w"
proof -
  have w: "unat w < 2 ^ LENGTH(16)" by (rule unsigned_less)
  have "unat (ucast w + 8 :: u32) = (unat (ucast w :: u32) + 8) mod 2 ^ 32" "unat (11 + ucast w :: u32) = (11 + unat (ucast w :: u32)) mod 2 ^ 32"
    by (simp_all add: unat_word_ariths)
  moreover have "unat (ucast w :: u32) = unat w" using w by (simp add: unsigned_ucast_eq take_bit_nat_eq_self)
  ultimately show "unat (ucast w + 8 :: u32) = unat w + 8" "unat (11 + ucast w :: u32) = 11 + unat w" using w by simp_all
qed

lemma fresh_tk:
  assumes "class_fits d" "2 * Suc p * 4096 \<le> (2 :: nat) ^ 64"
  shows "\<exists>t. tk_open d Map.empty target = Inr t \<and> holds_tk d (Suc p) t no_history p"
proof -
  let ?ks = "ucast (tk_sub_key_width d) + 8 :: u32" and ?vs = "1 + 8 + 2 + ucast (tk_value_width d) :: u32"
  have sz: "unat ?ks = sub_w d + 8" "unat ?vs = 11 + unat (tk_value_width d)"
    using widths [of "tk_sub_key_width d"] widths [of "tk_value_width d"] by (simp_all add: sub_w_def)
  have "validate_page_size TK_PAGE_SIZE = Inr ()" by (simp add: TK_PAGE_SIZE_def validate_page_size_def is_power_of_two_def upt_rec)
  then have "sizes_fit ?ks ?vs TK_PAGE_SIZE" "room TK_PAGE_SIZE (2 * Suc p)"
    using pages_room [OF assms(2)] assms(1) unfolding sizes_fit_def sz by (simp_all add: class_fits_def TK_PAGE_SIZE_def)
  from create_keeps [OF this, of p] obtain t where t: "btree_create ?ks ?vs TK_PAGE_SIZE = Inr t" "keeps (Suc p) t [] p" "bt_key_size t = ?ks" "bt_value_size t = ?vs" by blast
  have "unat (bt_key_size t) = sub_w d + 8" "unat (bt_value_size t) = 11 + unat (tk_value_width d)" using sz unfolding t(3,4) by blast+
  then have "keeps_spans d (Suc p) t [] {} p" using t(2) by (simp add: keeps_spans_def apart_def)
  moreover have "tells {} no_history" by (simp add: tells_def apart_def)
  ultimately show ?thesis using t(1) by (auto simp: tk_open_def open_index_file_def holds_tk_def)
qed

end
