(* ===== verification/Tk_Query.thy ===== *)
theory Tk_Query
  imports Tk_Spans
begin

text \<open>
  What the queries of a history return, as sublists of one listing of the spans in the order of the
  file: by sub-key, then by start.
\<close>

section \<open>The listing\<close>

definition earlier :: "tk_span \<Rightarrow> tk_span \<Rightarrow> bool" where
  "earlier a b \<longleftrightarrow> span_sub_key a < span_sub_key b \<or> span_sub_key a = span_sub_key b \<and> starts a < starts b"

lemma earlier_irrefl: "\<not> earlier a a"
  by (simp add: earlier_def)

definition lists :: "tk_class_def \<Rightarrow> nat \<Rightarrow> btree \<Rightarrow> tk_span list \<Rightarrow> nat \<Rightarrow> bool" where
  "lists d N t ss n \<longleftrightarrow> keeps_spans d N t (map (span_entry d) ss) (set ss) n \<and> sorted_wrt earlier ss"

lemma listing:
  assumes h: "keeps_spans d N t es S n"
  obtains ss where "lists d N t ss n" "set ss = S"
proof -
  note D = keeps_spansD [OF h]
  obtain ss where ss: "es = map (span_entry d) ss" "set ss \<subseteq> S"
  proof -
    have "\<exists>ss. es = map (span_entry d) ss \<and> set ss \<subseteq> S" if "set es \<subseteq> span_entry d ` S" for es
      using that
    proof (induction es)
      case (Cons e es)
      then obtain s ss where "e = span_entry d s" "s \<in> S" "es = map (span_entry d) ss" "set ss \<subseteq> S" by auto
      then show ?case by (intro exI [of _ "s # ss"]) simp
    qed simp
    then show thesis using that D(2) by blast
  qed
  have "s \<in> set ss" if "s \<in> S" for s
  proof -
    have "span_entry d s \<in> span_entry d ` set ss" using that D(2) ss(1) by (metis image_eqI image_set)
    then obtain a where "a \<in> set ss" "span_entry d s = span_entry d a" by blast
    then show ?thesis using entry_inj [OF D(3) [OF that] D(3), of a] ss(2) by blast
  qed
  then have S: "set ss = S" using ss(2) by blast
  have "sorted_wrt (\<lambda>a b. fst (span_entry d a) < fst (span_entry d b)) ss" using D(5) by (simp add: ss(1) sorted_wrt_map)
  then have "sorted_wrt earlier ss" by (rule sorted_wrt_mono_rel [rotated]) (use entry_less [OF D(3) D(3)] S in \<open>auto simp: earlier_def\<close>)
  then show thesis using that S h ss(1) by (simp add: lists_def)
qed

lemma listsD:
  assumes "lists d N t ss n"
  shows "keeps_spans d N t (map (span_entry d) ss) (set ss) n" "sorted_wrt earlier ss" "distinct ss" "apart (set ss)"
    "s \<in> set ss \<Longrightarrow> span_ok d s" "keeps N t (map (span_entry d) ss) n"
proof -
  have "sorted_wrt earlier ss \<Longrightarrow> distinct ss" by (induction ss) (auto simp: earlier_irrefl)
  then show "distinct ss" using assms by (simp add: lists_def)
qed (use assms keeps_spansD in \<open>auto simp: lists_def\<close>)

lemma filter_one:
  "distinct xs \<Longrightarrow> s \<in> set xs \<Longrightarrow> P s \<Longrightarrow> (\<And>a. a \<in> set xs \<Longrightarrow> P a \<Longrightarrow> a = s) \<Longrightarrow> filter P xs = [s]"
proof (induction xs)
  case (Cons x xs)
  show ?case
  proof (cases "x = s")
    case True
    then have "\<not> P a" if "a \<in> set xs" for a using Cons.prems that by force
    then show ?thesis using True Cons.prems(3) by (simp add: filter_empty_conv)
  next
    case False
    have "distinct xs" "s \<in> set xs" using Cons.prems(1,2) False by auto
    then have "filter P xs = [s]" using Cons.prems(4) by (intro Cons.IH [OF _ _ Cons.prems(3)]) (blast intro: list.set_intros(2))+
    moreover have "\<not> P x" using Cons.prems(4) [of x] False by (blast intro: list.set_intros(1))
    ultimately show ?thesis by simp
  qed
qed simp

text \<open>In a sorted list a downward closed condition holds on a prefix.\<close>

lemma sorted_prefix:
  assumes "sorted_wrt R xs" "\<And>a b. a \<in> set xs \<Longrightarrow> b \<in> set xs \<Longrightarrow> R a b \<Longrightarrow> P b \<Longrightarrow> P a"
  shows "takeWhile P xs = filter P xs" "dropWhile P xs = filter (\<lambda>x. \<not> P x) xs"
proof -
  have "takeWhile P xs = filter P xs \<and> dropWhile P xs = filter (\<lambda>x. \<not> P x) xs"
    using assms
  proof (induction xs)
    case (Cons x xs)
    show ?case
    proof (cases "P x")
      case True
      then show ?thesis using Cons by auto
    next
      case False
      then have "\<forall>y\<in>set xs. \<not> P y" using Cons.prems by auto
      then show ?thesis using False by (auto simp: filter_empty_conv)
    qed
  qed simp
  then show "takeWhile P xs = filter P xs" "dropWhile P xs = filter (\<lambda>x. \<not> P x) xs" by blast+
qed

definition reached :: "bytes \<Rightarrow> int \<Rightarrow> tk_span \<Rightarrow> bool" where
  "reached sub x s \<longleftrightarrow> span_sub_key s < sub \<or> span_sub_key s = sub \<and> starts s \<le> x"

lemma probe_listing:
  assumes L: "lists d N t ss n" and len: "length sub = sub_w d"
  shows "upto_probe sub x (map (span_entry d) ss) = map (span_entry d) (filter (reached sub (sint x)) ss)"
    "ss = filter (reached sub (sint x)) ss @ filter (\<lambda>s. \<not> reached sub (sint x) s) ss"
proof -
  have pre: "takeWhile (reached sub (sint x)) ss = filter (reached sub (sint x)) ss" "dropWhile (reached sub (sint x)) ss = filter (\<lambda>s. \<not> reached sub (sint x) s) ss"
    by (rule sorted_prefix [OF listsD(2) [OF L]]; auto simp: earlier_def reached_def)+
  have "fst (span_entry d s) \<le> composite sub x \<longleftrightarrow> reached sub (sint x) s" if "s \<in> set ss" for s
    using entry_probe [OF listsD(5) [OF L that] len, of x] linorder_less_linear [of sub "span_sub_key s"]
    by (auto simp: reached_def not_less [symmetric])
  then have "takeWhile ((\<lambda>e. fst e \<le> composite sub x) \<circ> span_entry d) ss = takeWhile (reached sub (sint x)) ss" by (intro takeWhile_cong) auto
  then show "upto_probe sub x (map (span_entry d) ss) = map (span_entry d) (filter (reached sub (sint x)) ss)" by (simp add: takeWhile_map pre)
  show "ss = filter (reached sub (sint x)) ss @ filter (\<lambda>s. \<not> reached sub (sint x) s) ss" unfolding pre [symmetric] by simp
qed

section \<open>Loops\<close>

lemma collect_while_ok:
  assumes L: "lists d N t ss n"
  shows "i \<le> length ss \<Longrightarrow> collect_while d t (word_of_nat i) keep acc = tk_ret (acc @ takeWhile keep (drop i ss))"
proof (induction "length ss - i" arbitrary: i acc)
  case 0
  then show ?case using entry_at_ok [OF listsD(6) [OF L], of i] by (subst collect_while.simps) (simp add: tk_ret_def)
next
  case (Suc m)
  then have i: "i < length ss" by simp
  then have at: "entry_at t (word_of_nat i) = tk_ret (Some (span_entry d (ss ! i)))" using entry_at_ok [OF listsD(6) [OF L], of i] by simp
  have sp: "span_from d (fst (span_entry d (ss ! i))) (snd (span_entry d (ss ! i))) = Inr (ss ! i)" using span_from_entry [OF listsD(5) [OF L]] i by simp
  have IH: "collect_while d t (word_of_nat (Suc i)) keep (acc @ [ss ! i]) = tk_ret ((acc @ [ss ! i]) @ takeWhile keep (drop (Suc i) ss))"
    using Suc by (intro Suc.hyps(1)) simp_all
  have next_i: "word_of_nat (Suc i) = (word_of_nat i + 1 :: u64)" by simp
  obtain k v where kv: "span_entry d (ss ! i) = (k, v)" by fastforce
  show ?case using sp at IH unfolding next_i by (subst collect_while.simps) (simp add: kv Cons_nth_drop_Suc [OF i, symmetric] tk_ret_def)
qed

text \<open>The span that covers a point, as a list.\<close>

lemma covering_listing:
  assumes L: "lists d N t ss n" and len: "length sub = sub_w d"
  shows "\<exists>r. covering d t sub x = tk_ret r \<and>
    (case r of Some (_, s) \<Rightarrow> [s] | None \<Rightarrow> []) = filter (\<lambda>s. span_sub_key s = sub \<and> covers s (sint x)) ss"
proof (rule covering_cases [OF listsD(1) [OF L] len, of x], goal_cases gap cov)
  case gap
  then have "filter (\<lambda>s. span_sub_key s = sub \<and> covers s (sint x)) ss = []" by (simp add: filter_empty_conv)
  then show ?case using gap by simp
next
  case (cov rank s)
  have "filter (\<lambda>s. span_sub_key s = sub \<and> covers s (sint x)) ss = [s]"
    by (rule filter_one [OF listsD(3) [OF L] cov(2)]) (use cov apart_unique [OF listsD(4) [OF L]] in blast)+
  then show ?case using cov(1) by simp
qed

lemma least_time: "sint I64_MIN \<le> sint (x :: i64)" "sint (x :: i64) \<le> sint I64_MAX"
proof -
  have "sint I64_MIN = - (2 ^ 63)" "sint I64_MAX = 2 ^ 63 - 1" by (simp_all add: I64_MIN_def I64_MAX_def)
  then show "sint I64_MIN \<le> sint x" "sint x \<le> sint I64_MAX" using sint_ge [of x] sint_lt [of x] by simp_all
qed

lemma last_reached:
  "ascending es \<Longrightarrow> upto_probe sub x es \<noteq> [] \<Longrightarrow> last (upto_probe sub x es) \<in> set es \<and> \<not> composite sub x < fst (last (upto_probe sub x es))"
  using in_upto_probe [of es "last (upto_probe sub x es)" sub x] last_in_set [of "upto_probe sub x es"] by blast

lemma first_rank_ok:
  assumes L: "lists d N t ss n" and len: "length sub = sub_w d"
  shows "first_rank_of t sub = tk_ret (word_of_nat (length (filter (\<lambda>s. span_sub_key s < sub) ss)))"
proof -
  let ?es = "map (span_entry d) ss" and ?k = "composite sub I64_MIN"
  let ?A = "upto_probe sub I64_MIN ?es"
  note asc = keeps_spansD(5) [OF listsD(1) [OF L]]
  have below: "fst (span_entry d s) < ?k \<longleftrightarrow> span_sub_key s < sub" if "s \<in> set ss" for s
    using listsD(5) [OF L that] len least_time(1) [of "span_lower s"] by (simp add: span_entry_def span_ok_def composite_less)
  have "takeWhile ((\<lambda>e. fst e < ?k) \<circ> span_entry d) ss = takeWhile (\<lambda>s. span_sub_key s < sub) ss" using below by (intro takeWhile_cong) auto
  also have "\<dots> = filter (\<lambda>s. span_sub_key s < sub) ss" by (rule sorted_prefix(1) [OF listsD(2) [OF L]]) (auto simp: earlier_def)
  finally have sm: "length (smaller ?k ?es) = length (filter (\<lambda>s. span_sub_key s < sub) ss)" by (simp add: takeWhile_map)
  note n = at_most_smaller [OF asc, of ?k]
  have last: "?A \<noteq> [] \<and> fst (last ?A) = ?k \<longleftrightarrow> ?k \<in> fst ` set ?es"
  proof
    assume A: "?A \<noteq> [] \<and> fst (last ?A) = ?k"
    then have "last ?A \<in> set ?es" using last_reached [OF asc, of sub I64_MIN] by blast
    from imageI [OF this, of fst] show "?k \<in> fst ` set ?es" unfolding conjunct2 [OF A] .
  next
    assume "?k \<in> fst ` set ?es"
    then obtain e where e: "e \<in> set ?es" "fst e = ?k" by (rule imageE) metis
    then have "e \<in> set ?A" using in_upto_probe [OF asc, of e sub I64_MIN] by simp
    moreover from this have "?A \<noteq> []" by (metis empty_iff list.set(1))
    moreover from this have "fst (last ?A) \<le> ?k" using last_reached [OF asc, of sub I64_MIN] by (simp add: not_less)
    ultimately show "?A \<noteq> [] \<and> fst (last ?A) = ?k" using upto_probe_last [OF asc, of e sub I64_MIN] e(2) by auto
  qed
  have "first_rank_of t sub = tk_ret (if ?A = [] then 0 else if fst (last ?A) = ?k then word_of_nat (length ?A - 1) else word_of_nat (length ?A - 1) + 1)"
    unfolding first_rank_of_def floor_ok(2) [OF listsD(6) [OF L] keeps_spansD(6) [OF listsD(1) [OF L] len]] by (simp add: case_prod_beta)
  also have "\<dots> = tk_ret (word_of_nat (length (smaller ?k ?es)))"
  proof (cases "?A = []")
    case True
    then show ?thesis using n by simp
  next
    case ne: False
    then have "word_of_nat (length ?A - 1) + 1 = (word_of_nat (length ?A) :: u64)" by (cases ?A) simp_all
    then show ?thesis using n last ne by (cases "?k \<in> fst ` set ?es") (simp_all del: set_map)
  qed
  finally show ?thesis by (simp add: sm)
qed

lemma history_ok:
  assumes L: "lists d N t ss n" and len: "length sub = sub_w d"
  shows "tk_spans d (History sub) t = tk_ret (filter (\<lambda>s. span_sub_key s = sub) ss)"
proof -
  let ?P = "\<lambda>s. span_sub_key s < sub"
  have "dropWhile ?P ss = filter (\<lambda>s. \<not> ?P s) ss" "takeWhile ?P ss = filter ?P ss" by (rule sorted_prefix [OF listsD(2) [OF L]]; auto simp: earlier_def)+
  then have drop: "drop (length (filter ?P ss)) ss = filter (\<lambda>s. \<not> ?P s) ss" by (metis dropWhile_eq_drop)
  have "sorted_wrt earlier (filter (\<lambda>s. \<not> ?P s) ss)" by (rule sorted_wrt_filter [OF listsD(2) [OF L]])
  then have "takeWhile (\<lambda>s. span_sub_key s = sub) (filter (\<lambda>s. \<not> ?P s) ss) = filter (\<lambda>s. span_sub_key s = sub) (filter (\<lambda>s. \<not> ?P s) ss)"
    by (rule sorted_prefix(1)) (auto simp: earlier_def)
  also have "\<dots> = filter (\<lambda>s. span_sub_key s = sub) ss" unfolding filter_filter by (rule filter_cong) auto
  finally show ?thesis
    using first_rank_ok [OF L len] collect_while_ok [OF L, of "length (filter ?P ss)" "\<lambda>s. span_sub_key s = sub" "[]"] len
    by (simp add: tk_spans_def check_sub_key_def drop)
qed

lemma tk_bind_assoc: "tk_bind (tk_bind m f) g = tk_bind m (\<lambda>x. tk_bind (f x) g)"
  by (cases m) (auto simp: tk_bind_def split: sum.splits)

lemma tk_bind_cong: "(\<And>x. f x = g x) \<Longrightarrow> tk_bind m f = tk_bind m g"
  by presburger

lemma current_ok: "tk_spans d (Current sub) t = tk_spans d (AsOf sub I64_MAX) t"
proof -
  have never: "\<not> i64_less I64_MAX u" for u using least_time(2) [of u] by (simp add: i64_less_def)
  have "tk_bind (raw_floor t sub I64_MAX) (\<lambda>r. case r of
            Some (_, k, v) \<Rightarrow>
              if take (sub_w d) k = sub then
                tk_bind (may_panic (span_from d k v)) (\<lambda>span. tk_ret (if span_upper span = None then [span] else []))
              else tk_ret []
          | None \<Rightarrow> tk_ret []) =
        tk_bind (covering d t sub I64_MAX) (\<lambda>r. tk_ret (case r of Some (_, span) \<Rightarrow> [span] | None \<Rightarrow> []))"
    unfolding covering_def tk_bind_assoc
    by (rule tk_bind_cong) (auto simp: tk_bind_assoc never split: option.splits intro!: tk_bind_cong)
  then show ?thesis by (simp add: tk_spans_def)
qed

lemma as_of_ok:
  assumes L: "lists d N t ss n" and len: "length sub = sub_w d"
  shows "tk_spans d (AsOf sub x) t = tk_ret (filter (\<lambda>s. span_sub_key s = sub \<and> covers s (sint x)) ss)"
  using covering_listing [OF L len, of x] len by (auto simp: tk_spans_def check_sub_key_def)

lemma listed_split:
  assumes L: "lists d N t ss n" and len: "length sub = sub_w d"
  shows "drop (length (filter (reached sub (sint x)) ss)) ss = filter (\<lambda>s. \<not> reached sub (sint x) s) ss"
    "length (upto_probe sub x (map (span_entry d) ss)) = length (filter (reached sub (sint x)) ss)"
proof -
  let ?P = "reached sub (sint x)"
  have "drop (length (filter ?P ss)) (filter ?P ss @ filter (\<lambda>s. \<not> ?P s) ss) = filter (\<lambda>s. \<not> ?P s) ss" by simp
  then show "drop (length (filter ?P ss)) ss = filter (\<lambda>s. \<not> ?P s) ss" using probe_listing(2) [OF L len, of x] by simp
  show "length (upto_probe sub x (map (span_entry d) ss)) = length (filter ?P ss)" using probe_listing(1) [OF L len, of x] by simp
qed

lemma successor_rank:
  assumes L: "lists d N t ss n" and len: "length sub = sub_w d"
  shows "tk_bind (raw_floor t sub x) (\<lambda>r. tk_ret (case r of Some (rank, _, _) \<Rightarrow> rank + 1 | None \<Rightarrow> 0)) =
    tk_ret (word_of_nat (length (filter (reached sub (sint x)) ss)))"
proof -
  let ?A = "upto_probe sub x (map (span_entry d) ss)"
  have "(case (if ?A = [] then None else Some (word_of_nat (length ?A - 1), last ?A)) of Some (rank, _, _) \<Rightarrow> rank + 1 | None \<Rightarrow> 0) = (word_of_nat (length ?A) :: u64)"
    by (cases ?A) (auto simp: case_prod_beta add.commute)
  then show ?thesis unfolding floor_ok(2) [OF listsD(6) [OF L] keeps_spansD(6) [OF listsD(1) [OF L] len]] listed_split(2) [OF L len, symmetric] by simp
qed

text \<open>The part of a range query behind its first point.\<close>

lemma range_tail:
  assumes L: "lists d N t ss n"
  shows "takeWhile (\<lambda>s. span_sub_key s = sub \<and> starts s < b) (filter (\<lambda>s. \<not> reached sub a s) ss) =
    filter (\<lambda>s. span_sub_key s = sub \<and> starts s < b \<and> ends_after s a) (filter (\<lambda>s. \<not> reached sub a s) ss)"
proof -
  have "takeWhile (\<lambda>s. span_sub_key s = sub \<and> starts s < b) (filter (\<lambda>s. \<not> reached sub a s) ss) =
      filter (\<lambda>s. span_sub_key s = sub \<and> starts s < b) (filter (\<lambda>s. \<not> reached sub a s) ss)"
    by (rule sorted_prefix(1) [OF sorted_wrt_filter [OF listsD(2) [OF L]]]) (auto simp: earlier_def reached_def)
  also have "\<dots> = filter (\<lambda>s. span_sub_key s = sub \<and> starts s < b \<and> ends_after s a) (filter (\<lambda>s. \<not> reached sub a s) ss)"
  proof (rule filter_cong [OF refl])
    fix s assume s: "s \<in> set (filter (\<lambda>s. \<not> reached sub a s) ss)"
    then have "span_sub_key s = sub \<Longrightarrow> ends_after s a" using ends_mono [of s "starts s" a] apartD(1) [OF listsD(4) [OF L], of s] by (auto simp: reached_def)
    then show "(span_sub_key s = sub \<and> starts s < b) = (span_sub_key s = sub \<and> starts s < b \<and> ends_after s a)" by blast
  qed
  finally show ?thesis .
qed

lemma range_ok:
  assumes L: "lists d N t ss n" and len: "length sub = sub_w d" and ab: "sint a < sint b"
  shows "tk_spans d (Range sub a b) t = tk_ret (filter (\<lambda>s. span_sub_key s = sub \<and> starts s < sint b \<and> ends_after s (sint a)) ss)"
proof -
  let ?P = "reached sub (sint a)" and ?keep = "\<lambda>s. span_sub_key s = sub \<and> starts s < sint b"
  let ?Q = "\<lambda>s. span_sub_key s = sub \<and> starts s < sint b \<and> ends_after s (sint a)"
  let ?i = "length (filter ?P ss)"
  have ss: "filter ?Q ss = filter ?Q (filter ?P ss) @ filter ?Q (filter (\<lambda>s. \<not> ?P s) ss)"
    using arg_cong [OF probe_listing(2) [OF L len, of a], of "filter ?Q"] by (simp only: filter_append)
  have front: "filter ?Q (filter ?P ss) = filter (\<lambda>s. span_sub_key s = sub \<and> covers s (sint a)) ss"
    unfolding filter_filter by (rule filter_cong [OF refl]) (use ab in \<open>auto simp: reached_def covers_def\<close>)
  have keep: "(\<lambda>s. span_sub_key s = sub \<and> i64_less (span_lower s) b) = ?keep" by (simp add: i64_less_def)
  have start: "tk_spans d (Range sub a b) t = tk_bind (covering d t sub a) (\<lambda>c.
      tk_bind (case c of Some (rank, _) \<Rightarrow> tk_ret rank
        | None \<Rightarrow> tk_bind (raw_floor t sub a) (\<lambda>r. tk_ret (case r of Some (rank, _, _) \<Rightarrow> rank + 1 | None \<Rightarrow> 0)))
      (\<lambda>start. collect_while d t start ?keep []))"
    using len ab by (simp add: tk_spans_def check_sub_key_def keep i64_less_def)
  show ?thesis
  proof (rule covering_cases [OF listsD(1) [OF L] len, of a], goal_cases gap cov)
    case gap
    then have "filter ?Q (filter ?P ss) = []" unfolding front by (simp add: filter_empty_conv)
    then show ?case using collect_while_ok [OF L, of ?i ?keep "[]"] ss range_tail [OF L]
      by (simp add: start gap(1) successor_rank [OF L len] listed_split(1) [OF L len])
  next
    case (cov rank s)
    have one: "filter ?Q (filter ?P ss) = [s]" unfolding front
      by (rule filter_one [OF listsD(3) [OF L] cov(2)]) (use cov apart_unique [OF listsD(4) [OF L]] in blast)+
    have ne: "filter ?P ss \<noteq> []" using one by (metis filter.simps(1) list.distinct(1))
    have "last (filter ?P ss) = s"
    proof (rule entry_inj [OF listsD(5) [OF L] listsD(5) [OF L cov(2)]])
      show "last (filter ?P ss) \<in> set ss" using last_in_set [OF ne] by simp
      show "span_entry d (last (filter ?P ss)) = span_entry d s" using cov(7) ne unfolding probe_listing(1) [OF L len] by (simp add: last_map)
    qed
    then obtain pre where pre: "filter ?P ss = pre @ [s]" using ne by (metis append_butlast_last_id)
    have "drop (?i - 1) ss = s # filter (\<lambda>s. \<not> ?P s) ss" by (subst probe_listing(2) [OF L len, of a]) (simp add: pre)
    moreover have "?keep s" using cov ab by (auto simp: covers_def)
    moreover have "rank = word_of_nat (?i - 1)" using cov(6) by (simp add: listed_split(2) [OF L len])
    moreover have "?i - 1 \<le> length ss" by (rule order_trans [OF diff_le_self length_filter_le])
    ultimately show ?case using collect_while_ok [OF L, of "?i - 1" ?keep "[]"] ss one range_tail [OF L]
      by (simp add: start cov(1))
  qed
qed

lemma snapshot_loop_ok:
  assumes L: "lists d N t ss n" and ss: "ss = P @ Q" and apart_subs: "\<forall>p\<in>set P. \<forall>q\<in>set Q. span_sub_key p < span_sub_key q"
  shows "snapshot_loop d t x (word_of_nat (length P)) acc = tk_ret (acc @ filter (\<lambda>s. covers s (sint x)) Q)"
  using ss apart_subs
proof (induction "length Q" arbitrary: P Q acc rule: less_induct)
  case less
  note k = listsD(6) [OF L]
  show ?case
  proof (cases Q)
    case Nil
    then show ?thesis using entry_at_ok [OF k, of "length P"] less.prems(1) by (subst snapshot_loop.simps) (simp add: tk_ret_def)
  next
    case (Cons q Q')
    let ?sub = "span_sub_key q"
    have q: "q \<in> set ss" using less.prems(1) Cons by simp
    have len: "length ?sub = sub_w d" using listsD(5) [OF L q] by (simp add: span_ok_def)
    have at: "entry_at t (word_of_nat (length P)) = tk_ret (Some (span_entry d q))"
      using entry_at_ok [OF k, of "length P"] less.prems(1) Cons by (simp add: nth_append)
    define Q1 Q2 where "Q1 = filter (\<lambda>s. span_sub_key s = ?sub) Q" and "Q2 = filter (\<lambda>s. span_sub_key s \<noteq> ?sub) Q"
    have sortQ: "sorted_wrt earlier Q" using listsD(2) [OF L] less.prems(1) by (simp add: sorted_wrt_append)
    then have up: "\<not> span_sub_key s < ?sub" if "s \<in> set Q" for s using that Cons by (auto simp: earlier_def)
    have Q: "Q = Q1 @ Q2"
      using sorted_prefix [OF sortQ, of "\<lambda>s. span_sub_key s = ?sub"] up unfolding Q1_def Q2_def
      by (metis (no_types, lifting) earlier_def takeWhile_dropWhile_id)
    have P: "filter (reached ?sub (sint I64_MAX)) ss = P @ Q1"
    proof -
      have "filter (reached ?sub (sint I64_MAX)) P = P" using less.prems(2) Cons by (intro filter_True) (auto simp: reached_def)
      moreover have "filter (reached ?sub (sint I64_MAX)) Q = Q1" unfolding Q1_def
        by (rule filter_cong [OF refl]) (use up least_time(2) in \<open>auto simp: reached_def\<close>)
      ultimately show ?thesis by (simp add: less.prems(1))
    qed
    have n: "length (upto_probe ?sub I64_MAX (map (span_entry d) ss)) = length P + length Q1" using listed_split(2) [OF L len, of I64_MAX] P by simp
    have Q1: "q \<in> set Q1" by (simp add: Q1_def Cons)
    then have pos: "0 < length Q1" by (cases Q1) auto
    then have fl: "rank_of_floor t (composite ?sub I64_MAX) = Some (Inr (Some (word_of_nat (length P + length Q1 - 1))))"
      using floor_ok(1) [OF k keeps_spansD(6) [OF listsD(1) [OF L] len], of I64_MAX] n by auto
    obtain r where r: "covering d t ?sub x = tk_ret r" "(case r of Some (_, s) \<Rightarrow> [s] | None \<Rightarrow> []) = filter (\<lambda>s. span_sub_key s = ?sub \<and> covers s (sint x)) ss"
      using covering_listing [OF L len] by blast
    have here: "filter (\<lambda>s. span_sub_key s = ?sub \<and> covers s (sint x)) ss = filter (\<lambda>s. covers s (sint x)) Q1"
    proof -
      have "filter (\<lambda>s. span_sub_key s = ?sub \<and> covers s (sint x)) P = []" using less.prems(2) Cons by (auto simp: filter_empty_conv)
      then show ?thesis by (simp add: less.prems(1) Q1_def conj_commute)
    qed
    have rank: "word_of_nat (length P + length Q1 - 1) + 1 = (word_of_nat (length (P @ Q1)) :: u64)" using pos by (cases Q1) simp_all
    have rec: "snapshot_loop d t x (word_of_nat (length (P @ Q1))) (acc @ filter (\<lambda>s. covers s (sint x)) Q1) =
        tk_ret ((acc @ filter (\<lambda>s. covers s (sint x)) Q1) @ filter (\<lambda>s. covers s (sint x)) Q2)"
    proof (rule less.hyps)
      show "length Q2 < length Q" using Q pos by (metis length_append less_add_same_cancel2)
      show "ss = (P @ Q1) @ Q2" using less.prems(1) Q by simp
      have "?sub < span_sub_key s" if "s \<in> set Q2" for s using that up [of s] by (auto simp: Q2_def)
      moreover have "set Q2 \<subseteq> set Q" "\<forall>p\<in>set Q1. span_sub_key p = ?sub" by (auto simp: Q1_def Q2_def)
      ultimately show "\<forall>p\<in>set (P @ Q1). \<forall>s\<in>set Q2. span_sub_key p < span_sub_key s" using less.prems(2) unfolding set_append ball_Un by auto
    qed
    obtain kk v where kv: "span_entry d q = (kk, v)" by fastforce
    have sub: "take (sub_w d) kk = ?sub" using entry_key_parts(1) [OF listsD(5) [OF L q]] kv by simp
    have "snapshot_loop d t x (word_of_nat (length P)) acc = snapshot_loop d t x (word_of_nat (length (P @ Q1))) (acc @ filter (\<lambda>s. covers s (sint x)) Q1)"
    proof -
      have c: "tk_bind (covering d t (take (sub_w d) kk) x) (\<lambda>c. tk_bind (from_tree (rank_of_floor t (composite (take (sub_w d) kk) I64_MAX))) (\<lambda>last_rank.
          case last_rank of None \<Rightarrow> tk_err (lit ''snapshot: sub-key vanished mid-walk'') | Some last_rank \<Rightarrow> tk_ret (c, last_rank))) =
        Some (Inr (Inr (r, word_of_nat (length P + length Q1 - 1))))"
        unfolding sub r(1) fl by simp (simp add: tk_ret_def)
      have at': "entry_at t (word_of_nat (length P)) = Some (Inr (Inr (Some (kk, v))))" using at kv by (simp add: tk_ret_def)
      show ?thesis unfolding here [symmetric] r(2) [symmetric] rank [symmetric]
        by (subst snapshot_loop.simps) (simp only: at' option.case sum.case prod.case c)
    qed
    moreover have "filter (\<lambda>s. covers s (sint x)) Q = filter (\<lambda>s. covers s (sint x)) Q1 @ filter (\<lambda>s. covers s (sint x)) Q2"
      using arg_cong [OF Q, of "filter (\<lambda>s. covers s (sint x))"] by (simp only: filter_append)
    ultimately show ?thesis using rec by simp
  qed
qed

lemma snapshot_ok:
  assumes "lists d N t ss n"
  shows "tk_spans d (SnapshotAt x) t = tk_ret (filter (\<lambda>s. covers s (sint x)) ss)"
  using snapshot_loop_ok [OF assms, of "[]" ss x "[]"] by (simp add: tk_spans_def)

section \<open>Answers\<close>

text \<open>What a query means for the listing \<open>ss\<close> of the spans.\<close>

fun tk_answer :: "tk_query_req \<Rightarrow> tk_span list \<Rightarrow> tk_span list" where
  "tk_answer (AsOf sub x) ss = filter (\<lambda>s. span_sub_key s = sub \<and> covers s (sint x)) ss"
| "tk_answer (Current sub) ss = filter (\<lambda>s. span_sub_key s = sub \<and> covers s (sint I64_MAX)) ss"
| "tk_answer (History sub) ss = filter (\<lambda>s. span_sub_key s = sub) ss"
| "tk_answer (Range sub a b) ss =
     (if sint b \<le> sint a then [] else filter (\<lambda>s. span_sub_key s = sub \<and> starts s < sint b \<and> ends_after s (sint a)) ss)"
| "tk_answer (SnapshotAt x) ss = filter (\<lambda>s. covers s (sint x)) ss"

fun query_sub :: "tk_query_req \<Rightarrow> bytes option" where
  "query_sub (AsOf sub _) = Some sub"
| "query_sub (Current sub) = Some sub"
| "query_sub (History sub) = Some sub"
| "query_sub (Range sub _ _) = Some sub"
| "query_sub (SnapshotAt _) = None"

definition fitting :: "tk_class_def \<Rightarrow> tk_query_req \<Rightarrow> bool" where
  "fitting d q \<longleftrightarrow> (case query_sub q of None \<Rightarrow> True | Some sub \<Rightarrow> length sub = sub_w d)"

lemma tk_spans_ok:
  assumes "lists d N t ss n" "fitting d q"
  shows "tk_spans d q t = tk_ret (tk_answer q ss)"
proof (cases q)
  case (Range sub a b)
  then show ?thesis using assms range_ok [OF assms(1), of sub a b]
    by (cases "sint a < sint b") (auto simp: fitting_def tk_spans_def check_sub_key_def i64_less_def)
qed (use assms as_of_ok [OF assms(1)] history_ok [OF assms(1)] snapshot_ok [OF assms(1)] current_ok [of d _ t] in \<open>auto simp: fitting_def\<close>)

lemma tk_spans_bad: "\<not> fitting d q \<Longrightarrow> \<exists>e. tk_spans d q t = tk_err e"
  by (cases q) (auto simp: fitting_def tk_spans_def check_sub_key_def tk_bind_def tk_err_def)

lemma tk_query_ok:
  assumes "lists d N t ss n" "wf_tk_query_req q"
  shows "fitting d q \<Longrightarrow> tk_query d (encode_tk_query_req q) t = Some (Inr (Inr (encode_tk_result (tk_answer q ss))))"
    "\<not> fitting d q \<Longrightarrow> \<exists>e. tk_query d (encode_tk_query_req q) t = Some (Inr (Inl e))"
proof -
  have dec: "decode_tk_query_req (encode_tk_query_req q) = Inr q" using assms(2) by (simp add: tk_query_req.exact)
  show "fitting d q \<Longrightarrow> tk_query d (encode_tk_query_req q) t = Some (Inr (Inr (encode_tk_result (tk_answer q ss))))"
    using tk_spans_ok [OF assms(1)] by (simp add: tk_query_def dec) (simp add: tk_ret_def)
  show "\<not> fitting d q \<Longrightarrow> \<exists>e. tk_query d (encode_tk_query_req q) t = Some (Inr (Inl e))"
    using tk_spans_bad [of d q t] by (auto simp: tk_query_def dec tk_bind_def tk_err_def)
qed

lemma fresh_run:
  assumes "class_fits d" "list_all (\<lambda>x. wf_tk_op (snd x)) ops" "2 * Suc (2 * length ops) * 4096 \<le> (2 :: nat) ^ 64"
  shows "\<exists>t0 outs t ss. tk_open d Map.empty target = Inr t0 \<and>
    run_updates (\<lambda>(now, p). tk_execute d now p) (map (\<lambda>(now, op). (now, encode_tk_op op)) ops) t0 = Some (Inr (outs, t)) \<and>
    map isl outs = map (\<lambda>x. \<not> valid_op d (snd x)) ops \<and>
    lists d (Suc (2 * length ops)) t ss 0 \<and> tells (set ss) (fold (tk_update d) ops no_history)"
proof -
  obtain t0 where t0: "tk_open d Map.empty target = Inr t0" "holds_tk d (Suc (2 * length ops)) t0 no_history (2 * length ops + 0)"
    using fresh_tk [OF assms(1,3)] by auto
  from tk_run [OF t0(2) assms(2)] obtain outs t where
    t: "run_updates (\<lambda>(now, p). tk_execute d now p) (map (\<lambda>(now, op). (now, encode_tk_op op)) ops) t0 = Some (Inr (outs, t))"
      "holds_tk d (Suc (2 * length ops)) t (fold (tk_update d) ops no_history) 0" "map isl outs = map (\<lambda>x. \<not> valid_op d (snd x)) ops" by blast
  then obtain es S where "keeps_spans d (Suc (2 * length ops)) t es S 0" "tells S (fold (tk_update d) ops no_history)" by (auto simp: holds_tk_def)
  then obtain ss where "lists d (Suc (2 * length ops)) t ss 0" "tells (set ss) (fold (tk_update d) ops no_history)" using listing by metis
  then show ?thesis using t0 t by blast
qed

section \<open>Properties\<close>

text \<open>
  C17: A history file implements the timeline. On a fresh file of a class whose entries fit a page,
  every run of operations returns; an operation is refused exactly when its sub-key has the wrong
  width or its value does not decode or fit, and then changes nothing. The spans in the file never
  overlap and tell the timeline that the accepted operations leave, the file opens to the same
  history, and each of the five queries lists the spans it asks for in the order of the file, or is
  refused for a sub-key of the wrong width.
\<close>

theorem histories_tell_the_timeline:
  assumes "class_fits d" and "list_all (\<lambda>x. wf_tk_op (snd x)) ops" and "2 * Suc (2 * length ops) * 4096 \<le> (2 :: nat) ^ 64"
  shows "\<exists>t0 outs t ss. tk_open d Map.empty target = Inr t0 \<and>
    run_updates (\<lambda>(now, p). tk_execute d now p) (map (\<lambda>(now, op). (now, encode_tk_op op)) ops) t0 = Some (Inr (outs, t)) \<and>
    map isl outs = map (\<lambda>x. \<not> valid_op d (snd x)) ops \<and>
    tells (set ss) (fold (tk_update d) ops no_history) \<and> sorted_wrt earlier ss \<and> btree_open (ps_file (bt_store t)) = Inr t \<and>
    (\<forall>q. wf_tk_query_req q \<longrightarrow> fitting d q \<longrightarrow> tk_query d (encode_tk_query_req q) t = Some (Inr (Inr (encode_tk_result (tk_answer q ss))))) \<and>
    (\<forall>q. wf_tk_query_req q \<longrightarrow> \<not> fitting d q \<longrightarrow> (\<exists>e. tk_query d (encode_tk_query_req q) t = Some (Inr (Inl e))))"
proof -
  obtain t0 outs t ss where *: "tk_open d Map.empty target = Inr t0"
    "run_updates (\<lambda>(now, p). tk_execute d now p) (map (\<lambda>(now, op). (now, encode_tk_op op)) ops) t0 = Some (Inr (outs, t))"
    "map isl outs = map (\<lambda>x. \<not> valid_op d (snd x)) ops" "tells (set ss) (fold (tk_update d) ops no_history)" and L: "lists d (Suc (2 * length ops)) t ss 0"
    using fresh_run [OF assms] by blast
  show ?thesis
    by (intro exI [of _ t0] exI [of _ outs] exI [of _ t] exI [of _ ss] conjI allI impI)
      (use * listsD(2) [OF L] keeps_synced [OF listsD(6) [OF L]] tk_query_ok [OF L] in simp_all)
qed

theorem histories_tell_the_timeline_witness:
  "\<exists>t0 outs t ss. tk_open \<lparr>tk_name = lit ''on'', tk_value_type = TBool, tk_value_width = 4, tk_sub_key_width = 1\<rparr> Map.empty (from_bytes (replicate 16 7)) = Inr t0 \<and>
     run_updates (\<lambda>(now, p). tk_execute \<lparr>tk_name = lit ''on'', tk_value_type = TBool, tk_value_width = 4, tk_sub_key_width = 1\<rparr> now p)
       [(3, encode_tk_op (TkSet [1] None [1])), (9, encode_tk_op (TkClear [1] (Some 5))), (9, encode_tk_op (TkClear [1, 2] None))] t0 = Some (Inr (outs, t)) \<and>
     map isl outs = [False, False, True] \<and>
     tk_query \<lparr>tk_name = lit ''on'', tk_value_type = TBool, tk_value_width = 4, tk_sub_key_width = 1\<rparr> (encode_tk_query_req (History [1])) t =
       Some (Inr (Inr (encode_tk_result (tk_answer (History [1]) ss))))"
proof -
  let ?d = "\<lparr>tk_name = lit ''on'', tk_value_type = TBool, tk_value_width = 4, tk_sub_key_width = 1\<rparr>"
  let ?ops = "[(3, TkSet [1] None [1]), (9, TkClear [1] (Some 5)), (9, TkClear [1, 2] None)] :: (i64 \<times> tk_op) list"
  have fits: "class_fits ?d" "fitting ?d (History [1])" "wf_tk_query_req (History [1])" by (simp_all add: class_fits_def sub_w_def fitting_def short_def)
  have v: "map (\<lambda>x. \<not> valid_op ?d (snd x)) ?ops = [False, False, True]" by (simp add: sub_w_def) (simp add: read_bytes_def slice_def)
  have ops: "list_all (\<lambda>x. wf_tk_op (snd x)) ?ops" "2 * Suc (2 * length ?ops) * 4096 \<le> (2 :: nat) ^ 64" by (simp_all add: short_def)
  from histories_tell_the_timeline [OF fits(1) ops, of "from_bytes (replicate 16 7)", unfolded v] obtain t0 outs t ss where
    "tk_open ?d Map.empty (from_bytes (replicate 16 7)) = Inr t0" "map isl outs = [False, False, True]"
    "run_updates (\<lambda>(now, p). tk_execute ?d now p) (map (\<lambda>(now, op). (now, encode_tk_op op)) ?ops) t0 = Some (Inr (outs, t))"
    and q: "\<forall>q. wf_tk_query_req q \<longrightarrow> fitting ?d q \<longrightarrow> tk_query ?d (encode_tk_query_req q) t = Some (Inr (Inr (encode_tk_result (tk_answer q ss))))"
    by (elim exE conjE)
  then show ?thesis using q [rule_format, OF fits(3,2)]
    by (intro exI [of _ t0] exI [of _ outs] exI [of _ t] exI [of _ ss] conjI) (simp_all only: list.map prod.case)
qed

text \<open>
  C18: A point query reads the last change. After any run of operations on a fresh history file, the
  query for a sub-key at a time returns one span with the value of the timeline there, or nothing
  when the timeline has no value there; the query for the current value is the one for the end of time.
\<close>

theorem as_of_reads_the_timeline:
  assumes "class_fits d" and "list_all (\<lambda>x. wf_tk_op (snd x)) ops" and "2 * Suc (2 * length ops) * 4096 \<le> (2 :: nat) ^ 64"
    and "length sub = sub_w d" and "run_updates (\<lambda>(now, p). tk_execute d now p) (map (\<lambda>(now, op). (now, encode_tk_op op)) ops) t0 = Some (Inr (outs, t))"
    and "tk_open d Map.empty target = Inr t0"
  shows "\<exists>spans. tk_spans d (AsOf sub x) t = tk_ret spans \<and>
    map span_value spans = (case fst (fold (tk_update d) ops no_history) sub (sint x) of None \<Rightarrow> [] | Some v \<Rightarrow> [v]) \<and>
    tk_spans d (Current sub) t = tk_spans d (AsOf sub I64_MAX) t"
proof -
  let ?T = "fold (tk_update d) ops no_history"
  obtain ss where L: "lists d (Suc (2 * length ops)) t ss 0" and T: "tells (set ss) ?T"
    using fresh_run [OF assms(1-3), of target] assms(5,6) by auto
  have T': "tells (set ss) (fst ?T, snd ?T)" using T by simp
  let ?F = "filter (\<lambda>s. span_sub_key s = sub \<and> covers s (sint x)) ss"
  have "map span_value ?F = (case fst ?T sub (sint x) of None \<Rightarrow> [] | Some v \<Rightarrow> [v])"
  proof (cases "fst ?T sub (sint x)")
    case None
    then have "?F = []" using tells_none [OF T', of sub "sint x"] by (auto simp: filter_empty_conv)
    then show ?thesis using None by simp
  next
    case (Some v)
    then obtain s where s: "s \<in> set ss" "span_sub_key s = sub" "covers s (sint x)" "span_value s = v" using tellsD(2) [OF T'] by blast
    have "?F = [s]" by (rule filter_one [OF listsD(3) [OF L] s(1)]) (use s apart_unique [OF listsD(4) [OF L]] in blast)+
    then show ?thesis using Some s(4) by simp
  qed
  then show ?thesis using as_of_ok [OF L assms(4), of x] current_ok [of d sub t] by auto
qed

theorem as_of_reads_the_timeline_witness:
  "\<exists>t0 outs t spans. tk_open \<lparr>tk_name = lit ''on'', tk_value_type = TBool, tk_value_width = 4, tk_sub_key_width = 1\<rparr> Map.empty (from_bytes (replicate 16 7)) = Inr t0 \<and>
     run_updates (\<lambda>(now, p). tk_execute \<lparr>tk_name = lit ''on'', tk_value_type = TBool, tk_value_width = 4, tk_sub_key_width = 1\<rparr> now p)
       [(3, encode_tk_op (TkSet [1] None [1]))] t0 = Some (Inr (outs, t)) \<and>
     tk_spans \<lparr>tk_name = lit ''on'', tk_value_type = TBool, tk_value_width = 4, tk_sub_key_width = 1\<rparr> (AsOf [1] 4) t = tk_ret spans \<and>
     map span_value spans = [[1]]"
proof -
  let ?d = "\<lparr>tk_name = lit ''on'', tk_value_type = TBool, tk_value_width = 4, tk_sub_key_width = 1\<rparr>"
  let ?ops = "[(3, TkSet [1] None [1])] :: (i64 \<times> tk_op) list"
  have fits: "class_fits ?d" "list_all (\<lambda>x. wf_tk_op (snd x)) ?ops" "2 * Suc (2 * length ?ops) * 4096 \<le> (2 :: nat) ^ 64" "length [1 :: u8] = sub_w ?d"
    by (simp_all add: class_fits_def sub_w_def short_def)
  have v: "valid_op ?d (TkSet [1] None [1])" by (simp add: sub_w_def) (simp add: read_bytes_def slice_def)
  have T: "fst (fold (tk_update ?d) ?ops no_history) [1] (sint (4 :: i64)) = Some [1]"
    using v by (simp add: tk_update_def set_value_def reaches_def del: valid_op.simps)
  obtain t0 outs t where *: "tk_open ?d Map.empty (from_bytes (replicate 16 7)) = Inr t0"
    "run_updates (\<lambda>(now, p). tk_execute ?d now p) (map (\<lambda>(now, op). (now, encode_tk_op op)) ?ops) t0 = Some (Inr (outs, t))"
    using fresh_run [OF fits(1-3), of "from_bytes (replicate 16 7)"] by blast
  from as_of_reads_the_timeline [OF fits *(2,1), of 4] show ?thesis using * unfolding T by auto
qed

end
