(* ===== verification/Op_Context.thy ===== *)
theory Op_Context
  imports Store_Cache "HOL-Library.AList"
begin

text \<open>
  What an operation of a solution sees, \<open>seisin-ops/src/context.rs\<close>, and the table of operations,
  \<open>registry.rs\<close>. Writes are staged; the store does not change while an operation runs. A hash map is an
  association list with distinct keys; the order in which the code iterates over it is some order of
  its entries. A handler is an argument: it returns no result when it panics.
\<close>

section \<open>Scheduled work\<close>

record pending_index_update =
  pu_target :: datum_id
  pu_index_kind :: rstring
  pu_payload :: bytes

datatype fk_missing_policy = MissingReject | MissingTrack datum_id rstring bytes

datatype expectation = Present fk_missing_policy | Absent rstring

record pending_exists_check =
  pc_target :: datum_id
  pc_expect :: expectation

section \<open>The context\<close>

type_synonym staged_write = "datum_id \<times> bytes option \<times> u16"

record op_context =
  oc_cache :: cache
  oc_staged :: "staged_write list"
  oc_index_updates :: "pending_index_update list"
  oc_exists_checks :: "pending_exists_check list"

definition ctx_new :: "cache \<Rightarrow> op_context" where
  "ctx_new c = \<lparr>oc_cache = c, oc_staged = [], oc_index_updates = [], oc_exists_checks = []\<rparr>"

definition ctx_get_replicated :: "'s store_ops \<Rightarrow> 's \<Rightarrow> datum_id \<Rightarrow> u16 \<Rightarrow> op_context \<Rightarrow> bytes option \<times> op_context" where
  "ctx_get_replicated ops s i n ctx =
     (case map_of (oc_staged ctx) i of
        Some (staged, _) \<Rightarrow> (staged, ctx)
      | None \<Rightarrow> (let (v, c) = cache_get_replicated ops (oc_cache ctx) s i n in (v, ctx\<lparr>oc_cache := c\<rparr>)))"

definition ctx_get :: "'s store_ops \<Rightarrow> 's \<Rightarrow> datum_id \<Rightarrow> op_context \<Rightarrow> bytes option \<times> op_context" where
  "ctx_get ops s i ctx = ctx_get_replicated ops s i 1 ctx"

definition ctx_put_replicated :: "datum_id \<Rightarrow> bytes \<Rightarrow> u16 \<Rightarrow> op_context \<Rightarrow> op_context" where
  "ctx_put_replicated i content n ctx = ctx\<lparr>oc_staged := AList.update i (Some content, n) (oc_staged ctx)\<rparr>"

definition ctx_put :: "datum_id \<Rightarrow> bytes \<Rightarrow> op_context \<Rightarrow> op_context" where
  "ctx_put i content ctx = ctx\<lparr>oc_staged := AList.update i (Some content, 1) (oc_staged ctx)\<rparr>"

definition ctx_delete_replicated :: "datum_id \<Rightarrow> u16 \<Rightarrow> op_context \<Rightarrow> op_context" where
  "ctx_delete_replicated i n ctx = ctx\<lparr>oc_staged := AList.update i (None, n) (oc_staged ctx)\<rparr>"

definition ctx_delete :: "datum_id \<Rightarrow> op_context \<Rightarrow> op_context" where
  "ctx_delete i ctx = ctx\<lparr>oc_staged := AList.update i (None, 1) (oc_staged ctx)\<rparr>"

definition schedule_index_update :: "datum_id \<Rightarrow> rstring \<Rightarrow> bytes \<Rightarrow> op_context \<Rightarrow> op_context" where
  "schedule_index_update target index_kind payload ctx =
     ctx\<lparr>oc_index_updates := oc_index_updates ctx @ [\<lparr>pu_target = target, pu_index_kind = index_kind, pu_payload = payload\<rparr>]\<rparr>"

definition schedule_exists_check :: "datum_id \<Rightarrow> expectation \<Rightarrow> op_context \<Rightarrow> op_context" where
  "schedule_exists_check target expect ctx =
     ctx\<lparr>oc_exists_checks := oc_exists_checks ctx @ [\<lparr>pc_target = target, pc_expect = expect\<rparr>]\<rparr>"

definition take_staged_writes :: "op_context \<Rightarrow> staged_write list \<times> op_context" where
  "take_staged_writes ctx = (oc_staged ctx, ctx\<lparr>oc_staged := []\<rparr>)"

definition take_pending_index_updates :: "op_context \<Rightarrow> pending_index_update list \<times> op_context" where
  "take_pending_index_updates ctx = (oc_index_updates ctx, ctx\<lparr>oc_index_updates := []\<rparr>)"

definition take_pending_exists_checks :: "op_context \<Rightarrow> pending_exists_check list \<times> op_context" where
  "take_pending_exists_checks ctx = (oc_exists_checks ctx, ctx\<lparr>oc_exists_checks := []\<rparr>)"

section \<open>The registry\<close>

type_synonym 's op_handler = "'s \<Rightarrow> op_context \<Rightarrow> datum_id list \<Rightarrow> bytes \<Rightarrow> bytes option \<times> op_context"

type_synonym 's op_registry = "(rstring \<times> 's op_handler) list"

definition register_op :: "rstring \<Rightarrow> 's op_handler \<Rightarrow> 's op_registry \<Rightarrow> 's op_registry" where
  "register_op name handler reg = AList.update name handler reg"

definition invoke :: "'s op_registry \<Rightarrow> 's \<Rightarrow> rstring \<Rightarrow> op_context \<Rightarrow> datum_id list \<Rightarrow> bytes \<Rightarrow> (rstring + bytes) \<times> op_context" where
  "invoke reg s name ctx datum_ids payload =
     (case map_of reg name of
        None \<Rightarrow> (Inl (lit ''unknown op: '' @ name), ctx)
      | Some handler \<Rightarrow>
          (case handler s ctx datum_ids payload of
             (Some out, ctx) \<Rightarrow> (Inr out, ctx)
           | (None, ctx) \<Rightarrow> (Inl (lit ''op '' @ [39] @ name @ [39] @ lit '' panicked''), ctx)))"

section \<open>An operation reads its own writes\<close>

text \<open>What an operation sees: the staged value of an id, or what the store holds.\<close>

definition seen :: "op_context \<Rightarrow> (datum_id \<rightharpoonup> bytes) \<Rightarrow> datum_id \<Rightarrow> bytes option" where
  "seen ctx m i = (case map_of (oc_staged ctx) i of Some (v, _) \<Rightarrow> v | None \<Rightarrow> m i)"

lemma seen_updates [simp]:
  "seen (ctx_put_replicated i v n ctx) m = (seen ctx m)(i \<mapsto> v)"
  "seen (ctx_put i v ctx) m = (seen ctx m)(i \<mapsto> v)"
  "seen (ctx_delete_replicated i n ctx) m = (seen ctx m)(i := None)"
  "seen (ctx_delete i ctx) m = (seen ctx m)(i := None)"
  by (auto simp: seen_def ctx_put_replicated_def ctx_put_def ctx_delete_replicated_def ctx_delete_def update_conv' fun_eq_iff)

lemma seen_schedule [simp]:
  "seen (schedule_index_update t k p ctx) m = seen ctx m" "seen (schedule_exists_check t e ctx) m = seen ctx m"
  by (simp_all add: seen_def schedule_index_update_def schedule_exists_check_def fun_eq_iff)

text \<open>In a context over a store with contents, whatever the cache holds of the ids is current.\<close>

lemma ctx_get_seen:
  assumes "coherent_on UNIV (mem_data s) (oc_cache ctx)"
  shows "fst (ctx_get_replicated in_memory_ops s i n ctx) = seen ctx (mem_data s) i"
    "coherent_on UNIV (mem_data s) (oc_cache (snd (ctx_get_replicated in_memory_ops s i n ctx)))"
    "oc_staged (snd (ctx_get_replicated in_memory_ops s i n ctx)) = oc_staged ctx"
    "oc_index_updates (snd (ctx_get_replicated in_memory_ops s i n ctx)) = oc_index_updates ctx"
    "oc_exists_checks (snd (ctx_get_replicated in_memory_ops s i n ctx)) = oc_exists_checks ctx"
  using assms
  by (auto simp: ctx_get_replicated_def seen_def cache_get_replicated_def coherent_on_def in_memory_ops_def in_memory_get_def Let_def split: option.splits)

end
