(* ===== verification/Sk_Index.thy ===== *)
theory Sk_Index
  imports Index_Kind Schema Wire_Queries
begin

text \<open>
  The index kinds that are stored as the bytes of their own datum: secondary keys,
  \<open>seisin-types/src/sk_index.rs\<close>, and pending references, \<open>fk.rs\<close>. The resident structure of a key is
  its entry list; after an accepted update the encoded list is written through, or the datum deleted
  when the list is empty.
\<close>

section \<open>Secondary keys\<close>

definition sk_prefix :: "rstring \<Rightarrow> rstring \<Rightarrow> bytes" where
  "sk_prefix type_name field_name = lit ''sk:'' @ type_name @ lit ''.'' @ field_name @ lit '':''"

definition sk_key :: "namer \<Rightarrow> rstring \<Rightarrow> rstring \<Rightarrow> field_value \<Rightarrow> datum_id result" where
  "sk_key from_name type_name field_name v =
     (let name = sk_prefix type_name field_name in
      bindE (case v of
          VBool b \<Rightarrow> Inr (name @ [if b then 1 else 0])
        | VI64 i \<Rightarrow> Inr (name @ u64_to_le i)
        | VF64 f \<Rightarrow> Inr (name @ u64_to_le f)
        | VString s \<Rightarrow> Inr (name @ s)
        | VBytes b \<Rightarrow> Inr (name @ b)
        | VArray _ \<Rightarrow> Inl (Bail ''sk index values must be primitive; got a non-primitive value for {}.{}'' [])
        | VDict _ \<Rightarrow> Inl (Bail ''sk index values must be primitive; got a non-primitive value for {}.{}'' []))
        (\<lambda>name. Inr (from_name derived_id_namespace name)))"

datatype sk_index_op = SkInsert datum_id "rstring option" | SkRemove datum_id

definition SK_OP_INSERT :: u8 where "SK_OP_INSERT = 0"
definition SK_OP_REMOVE :: u8 where "SK_OP_REMOVE = 1"

definition encode_sk_index_op :: "sk_index_op \<Rightarrow> bytes" where
  "encode_sk_index_op op =
     (case op of
        SkInsert pk_id unique_conflict_op \<Rightarrow>
          SK_OP_INSERT # as_bytes pk_id @
          (case unique_conflict_op of None \<Rightarrow> [0] | Some name \<Rightarrow> 1 # u32_to_le (as_u32 (length name)) @ name)
      | SkRemove pk_id \<Rightarrow> SK_OP_REMOVE # as_bytes pk_id)"

definition decode_sk_index_op :: "bytes \<Rightarrow> sk_index_op result" where
  "decode_sk_index_op buf =
     (if buf = [] then Inl (Bail ''sk index op payload is empty'' [])
      else if length buf < 1 + 16 then Inl (Bail ''sk index op payload too short for a pk_id'' [])
      else
        let pk_id = from_bytes (slice buf 1 17) in
        if buf ! 0 = SK_OP_REMOVE then Inr (SkRemove pk_id)
        else if buf ! 0 = SK_OP_INSERT then
          (if length buf < 18 then Inl (Bail ''sk insert op payload too short for its conflict_op flag'' [])
           else
             bindE
               (if buf ! 17 = 0 then Inr None
                else if buf ! 17 = 1 then
                  (if length buf < 22 then Inl (Bail ''sk insert op payload too short for its conflict_op length'' [])
                   else
                     let name_len = unat (u32_from_le (slice buf 18 22)) in
                     if length buf \<noteq> 22 + name_len then Inl (Bail ''sk insert op payload length mismatch for its conflict_op name'' [])
                     else bindE (from_utf8 ''sk insert op's conflict_op name was not valid utf8'' (slice buf 22 (22 + name_len))) (\<lambda>s. Inr (Some s)))
                else Inl (Bail ''unknown sk insert op conflict_op flag: {}'' [unat (buf ! 17)]))
               (\<lambda>unique_conflict_op. Inr (SkInsert pk_id unique_conflict_op)))
        else Inl (Bail ''unknown sk index op tag: {}'' [unat (buf ! 0)]))"

type_synonym sk_resident = "(datum_id \<times> authority_idx) list"

text \<open>What is written through after an accepted update.\<close>

definition stored_list :: "('a list \<Rightarrow> bytes) \<Rightarrow> 'a list \<Rightarrow> apply_outcome" where
  "stored_list enc entries = \<lparr>ao_violation = None, ao_write_through = (if entries = [] then WtDelete else WtPut (enc entries))\<rparr>"

definition sk_change :: "sk_index_op \<Rightarrow> sk_resident \<Rightarrow> apply_outcome \<times> sk_resident" where
  "sk_change op entries =
     (case op of
        SkRemove pk_id \<Rightarrow>
          let entries = filter (\<lambda>(i, _). i \<noteq> pk_id) entries in (stored_list encode_sk_entries entries, entries)
      | SkInsert pk_id unique_conflict_op \<Rightarrow>
          let entries' = (if list_ex (\<lambda>(i, _). i = pk_id) entries then entries else entries @ [(pk_id, Native)]) in
          case unique_conflict_op of
            Some conflict_op \<Rightarrow>
              if list_ex (\<lambda>(i, _). i \<noteq> pk_id) entries then (rejected conflict_op, entries)
              else (stored_list encode_sk_entries entries', entries')
          | None \<Rightarrow> (stored_list encode_sk_entries entries', entries'))"

definition sk_apply :: "bytes \<Rightarrow> sk_resident \<Rightarrow> apply_outcome \<times> sk_resident" where
  "sk_apply payload entries =
     (case decode_sk_index_op payload of
        Inl e \<Rightarrow> (rejected (lit ''malformed sk index payload: '' @ to_string e), entries)
      | Inr op \<Rightarrow> sk_change op entries)"

definition sk_open :: "datum_id \<Rightarrow> bytes option \<Rightarrow> rstring + sk_resident" where
  "sk_open target content =
     (case content of
        None \<Rightarrow> Inr []
      | Some bs \<Rightarrow>
          (case decode_sk_entries bs of
             Inl e \<Rightarrow> Inl (lit ''stored sk entries for '' @ debug_datum_id target @ lit '' failed to decode: '' @ to_string e)
           | Inr entries \<Rightarrow> Inr entries))"

section \<open>Pending references\<close>

definition fk_pending_key :: "namer \<Rightarrow> rstring \<Rightarrow> rstring \<Rightarrow> datum_id" where
  "fk_pending_key from_name type_name field =
     from_name derived_id_namespace (lit ''fk_pending:'' @ type_name @ lit ''.'' @ field)"

definition fk_deleted_key :: "namer \<Rightarrow> rstring \<Rightarrow> rstring \<Rightarrow> datum_id" where
  "fk_deleted_key from_name type_name field =
     from_name derived_id_namespace (lit ''deleted_refs:'' @ type_name @ lit ''.'' @ field)"

type_synonym fk_resident = "fk_entry list"

definition fk_apply :: "bytes \<Rightarrow> fk_resident \<Rightarrow> apply_outcome \<times> fk_resident" where
  "fk_apply payload entries =
     (case decode_fk_pending_op payload of
        Inl e \<Rightarrow> (rejected (lit ''malformed fk_pending payload: '' @ to_string e), entries)
      | Inr (FkInsert referencing_pk target) \<Rightarrow>
          let entries = (if (referencing_pk, target) \<in> set entries then entries else entries @ [(referencing_pk, target)])
          in (stored_list encode_fk_entries entries, entries)
      | Inr (FkRemove referencing_pk target) \<Rightarrow>
          let entries = filter (\<lambda>pair. pair \<noteq> (referencing_pk, target)) entries
          in (stored_list encode_fk_entries entries, entries)
      | Inr FkList \<Rightarrow> (rejected (lit ''fk_pending List is a query, not an apply''), entries))"

definition debug_fk_op :: "fk_pending_op \<Rightarrow> rstring" where
  "debug_fk_op op =
     (case op of
        FkList \<Rightarrow> lit ''List''
      | FkRemove r t \<Rightarrow> lit ''Remove { referencing_pk: '' @ debug_datum_id r @ lit '', target: '' @ debug_datum_id t @ lit '' }''
      | FkInsert r t \<Rightarrow> lit ''Insert { referencing_pk: '' @ debug_datum_id r @ lit '', target: '' @ debug_datum_id t @ lit '' }'')"

definition fk_query :: "bytes \<Rightarrow> fk_resident \<Rightarrow> rstring + bytes" where
  "fk_query query entries =
     (case decode_fk_pending_op query of
        Inl e \<Rightarrow> Inl (to_string e)
      | Inr op \<Rightarrow>
          if op = FkList then Inr (encode_fk_entries entries)
          else Inl (lit ''fk_pending query supports only List, got '' @ debug_fk_op op))"

definition fk_execute :: "bytes \<Rightarrow> fk_resident \<Rightarrow> (rstring + bytes) \<times> fk_resident" where
  "fk_execute payload entries =
     (case decode_fk_pending_op payload of
        Inl e \<Rightarrow> (Inl (to_string e), entries)
      | Inr (FkRemove referencing_pk target) \<Rightarrow>
          let entries = filter (\<lambda>pair. pair \<noteq> (referencing_pk, target)) entries
          in (Inr (encode_fk_entries entries), entries)
      | Inr other \<Rightarrow> (Inl (lit ''fk_pending execute supports only Remove, got '' @ debug_fk_op other), entries))"

definition fk_open :: "datum_id \<Rightarrow> bytes option \<Rightarrow> rstring + fk_resident" where
  "fk_open target content =
     (case content of
        None \<Rightarrow> Inr []
      | Some bs \<Rightarrow>
          (case decode_fk_entries bs of
             Inl e \<Rightarrow> Inl (lit ''stored fk_pending entries for '' @ debug_datum_id target @ lit '' failed to decode: '' @ to_string e)
           | Inr entries \<Rightarrow> Inr entries))"

section \<open>The update codec\<close>

fun wf_sk_op :: "sk_index_op \<Rightarrow> bool" where
  "wf_sk_op (SkInsert pk (Some name)) \<longleftrightarrow> short name \<and> utf8_valid name"
| "wf_sk_op (SkInsert pk None) \<longleftrightarrow> True"
| "wf_sk_op (SkRemove pk) \<longleftrightarrow> True"

lemma decode_encode_sk_op: "wf_sk_op op \<Longrightarrow> decode_sk_index_op (encode_sk_index_op op) = Inr op"
proof (cases op)
  case (SkInsert pk c)
  assume "wf_sk_op op"
  then show ?thesis
    by (cases c) (auto simp: SkInsert encode_sk_index_op_def decode_sk_index_op_def SK_OP_INSERT_def SK_OP_REMOVE_def slice_def
        nth_append short_def from_utf8_def)
qed (simp add: encode_sk_index_op_def decode_sk_index_op_def SK_OP_INSERT_def SK_OP_REMOVE_def slice_def)

section \<open>Entry lists as sets\<close>

text \<open>The primary keys of a list, each there once and native.\<close>

definition listed :: "sk_resident \<Rightarrow> datum_id set \<Rightarrow> bool" where
  "listed entries A \<longleftrightarrow> distinct (map fst entries) \<and> set entries = (\<lambda>i. (i, Native)) ` A"

lemma listed_pks: "listed entries A \<Longrightarrow> fst ` set entries = A"
  by (force simp: listed_def image_image)

lemma listed_any: "listed entries A \<Longrightarrow> list_ex (\<lambda>(i, _). P i) entries \<longleftrightarrow> (\<exists>i\<in>A. P i)"
  by (auto simp: listed_def list_ex_iff)

lemma sk_remove_listed:
  assumes "listed entries A"
  shows "\<exists>entries'. sk_apply (encode_sk_index_op (SkRemove pk)) entries = (stored_list encode_sk_entries entries', entries') \<and> listed entries' (A - {pk})"
proof -
  let ?es = "filter (\<lambda>(i, _). i \<noteq> pk) entries"
  have "distinct (map fst ?es)" using assms by (simp add: listed_def distinct_map_filter)
  moreover have "set ?es = (\<lambda>i. (i, Native)) ` (A - {pk})" using assms by (auto simp: listed_def)
  ultimately show ?thesis by (auto simp: sk_apply_def decode_encode_sk_op sk_change_def listed_def Let_def)
qed

lemma sk_insert_listed:
  assumes "listed entries A" "wf_sk_op (SkInsert pk c)"
  shows "c = None \<or> A \<subseteq> {pk} \<Longrightarrow> \<exists>entries'. sk_apply (encode_sk_index_op (SkInsert pk c)) entries = (stored_list encode_sk_entries entries', entries') \<and>
      listed entries' (insert pk A)"
    "c = Some name \<Longrightarrow> \<not> A \<subseteq> {pk} \<Longrightarrow> sk_apply (encode_sk_index_op (SkInsert pk c)) entries = (rejected name, entries)"
proof -
  let ?es = "if list_ex (\<lambda>(i, _). i = pk) entries then entries else entries @ [(pk, Native)]"
  have es: "listed ?es (insert pk A)"
  proof (cases "pk \<in> A")
    case True
    then show ?thesis using listed_any [OF assms(1), of "\<lambda>i. i = pk"] assms(1) by (simp add: insert_absorb)
  next
    case False
    then have "pk \<notin> fst ` set entries" using listed_pks [OF assms(1)] by simp
    then show ?thesis using listed_any [OF assms(1), of "\<lambda>i. i = pk"] assms(1) False by (auto simp: listed_def)
  qed
  have other: "list_ex (\<lambda>(i, _). i \<noteq> pk) entries \<longleftrightarrow> \<not> A \<subseteq> {pk}" using listed_any [OF assms(1), of "\<lambda>i. i \<noteq> pk"] by auto
  show "c = None \<or> A \<subseteq> {pk} \<Longrightarrow> \<exists>entries'. sk_apply (encode_sk_index_op (SkInsert pk c)) entries = (stored_list encode_sk_entries entries', entries') \<and>
      listed entries' (insert pk A)"
    using es other by (intro exI [of _ ?es]) (auto simp: sk_apply_def decode_encode_sk_op [OF assms(2)] sk_change_def Let_def split: option.splits)
  show "c = Some name \<Longrightarrow> \<not> A \<subseteq> {pk} \<Longrightarrow> sk_apply (encode_sk_index_op (SkInsert pk c)) entries = (rejected name, entries)"
    using other unfolding sk_apply_def decode_encode_sk_op [OF assms(2)] sum.case by (simp add: sk_change_def Let_def)
qed

end
