(* ===== verification/Typed_Context.thy ===== *)
theory Typed_Context
  imports Op_Context Sk_Index Rk_Index
begin

text \<open>
  The typed accessor of an operation, \<open>seisin-types/src/typed_context.rs\<close>: reads and writes of typed
  datums over the context, the checks made before a write, and the index updates and existence checks
  that dropping the accessor schedules from the difference between what was read and what is left.
\<close>

section \<open>Comparisons\<close>

text \<open>The derived \<open>==\<close> of \<open>FieldValue\<close>: floats compare as IEEE 754 says.\<close>

function value_eq :: "field_value \<Rightarrow> field_value \<Rightarrow> bool" where
  "value_eq (VBool a) v \<longleftrightarrow> v = VBool a"
| "value_eq (VI64 a) v \<longleftrightarrow> v = VI64 a"
| "value_eq (VF64 a) v \<longleftrightarrow> (case v of VF64 b \<Rightarrow> f64_eq a b | _ \<Rightarrow> False)"
| "value_eq (VString a) v \<longleftrightarrow> v = VString a"
| "value_eq (VBytes a) v \<longleftrightarrow> v = VBytes a"
| "value_eq (VArray xs) v \<longleftrightarrow>
     (case v of VArray ys \<Rightarrow> length xs = length ys \<and> list_all (\<lambda>(x, y). value_eq x y) (zip xs ys) | _ \<Rightarrow> False)"
| "value_eq (VDict xs) v \<longleftrightarrow>
     (case v of
        VDict ys \<Rightarrow> length xs = length ys \<and> list_all (\<lambda>((k, x), (l, y)). value_eq k l \<and> value_eq x y) (zip xs ys)
      | _ \<Rightarrow> False)"
  by pat_completeness auto
termination
proof (relation "measure (\<lambda>(v, _). size v)", goal_cases)
  case (2 xs v ys p x y)
  then have "x \<in> set xs" by (auto dest: set_zip_leftD)
  then show ?case using size_list_estimation' [of x xs "size x" size] by simp
next
  case (3 xs v ys p a b k x l y)
  then have "(k, x) \<in> set xs" by (auto dest: set_zip_leftD)
  then show ?case using size_list_estimation' [of "(k, x)" xs "size k" "size_prod size size"] by simp
next
  case (4 xs v ys p a b k x l y)
  then have "(k, x) \<in> set xs" by (auto dest: set_zip_leftD)
  then show ?case using size_list_estimation' [of "(k, x)" xs "size x" "size_prod size size"] by simp
qed simp

definition opt_value_eq :: "field_value option \<Rightarrow> field_value option \<Rightarrow> bool" where
  "opt_value_eq a b = (case (a, b) of (None, None) \<Rightarrow> True | (Some x, Some y) \<Rightarrow> value_eq x y | _ \<Rightarrow> False)"

definition f64_le :: "u64 \<Rightarrow> u64 \<Rightarrow> bool" where
  "f64_le a b \<longleftrightarrow> f64_less a b \<or> f64_eq a b"

section \<open>Checks\<close>

definition field_position :: "datum_type_def \<Rightarrow> rstring \<Rightarrow> nat option" where
  "field_position d field = position (\<lambda>(name, _). name = field) (dt_fields d)"

definition vec_get :: "'a list \<Rightarrow> nat \<Rightarrow> 'a option" where
  "vec_get xs i = (if i < length xs then Some (xs ! i) else None)"

definition constraint_ok :: "datum_type_def \<Rightarrow> field_value list \<Rightarrow> relational_constraint_def \<Rightarrow> unit result" where
  "constraint_ok d values c =
     (case field_position d (rc_field c) of
        None \<Rightarrow> Inr ()
      | Some i \<Rightarrow>
          (case rc_references c of
             FkPkEnum type_name mnemonics \<Rightarrow>
               (case vec_get values i of
                  Some (VString v) \<Rightarrow>
                    if v \<notin> set mnemonics
                    then Inl (Bail ''field {:?} references enum-pk type {:?} but {:?} is not a declared mnemonic'' []) else Inr ()
                | _ \<Rightarrow> Inr ())
           | FkPkUuid type_name \<Rightarrow>
               (case vec_get values i of
                  Some (VBytes bs) \<Rightarrow>
                    if length bs \<noteq> 16
                    then Inl (Bail ''field {:?} references pk type {:?} and must hold a 16-byte DatumId, got {} bytes'' [length bs]) else Inr ()
                | _ \<Rightarrow> Inr ())
           | FkSkUnique _ _ \<Rightarrow> Inr ()))"

definition check_passes :: "field_check \<Rightarrow> field_value \<Rightarrow> bool" where
  "check_passes check v =
     (case (check, v) of
        (Gt (VI64 b), VI64 v) \<Rightarrow> i64_less b v
      | (Ge (VI64 b), VI64 v) \<Rightarrow> \<not> i64_less v b
      | (Lt (VI64 b), VI64 v) \<Rightarrow> i64_less v b
      | (Le (VI64 b), VI64 v) \<Rightarrow> \<not> i64_less b v
      | (Gt (VF64 b), VF64 v) \<Rightarrow> f64_less b v
      | (Ge (VF64 b), VF64 v) \<Rightarrow> f64_le b v
      | (Lt (VF64 b), VF64 v) \<Rightarrow> f64_less v b
      | (Le (VF64 b), VF64 v) \<Rightarrow> f64_le v b
      | (MinLen n, VString s) \<Rightarrow> unat n \<le> length s
      | (MaxLen n, VString s) \<Rightarrow> length s \<le> unat n
      | (MinLen n, VBytes b) \<Rightarrow> unat n \<le> length b
      | (MaxLen n, VBytes b) \<Rightarrow> length b \<le> unat n
      | _ \<Rightarrow> False)"

definition check_ok :: "datum_type_def \<Rightarrow> field_value list \<Rightarrow> field_check_def \<Rightarrow> unit result" where
  "check_ok d values cd =
     (case Option.bind (field_position d (cd_field cd)) (vec_get values) of
        None \<Rightarrow> Inr ()
      | Some v \<Rightarrow>
          if check_passes (cd_check cd) v then Inr ()
          else Inl (Bail ''field {:?} failed its declared check {:?} with value {:?}'' []))"

text \<open>\<open>for x in xs { f(x)?; }\<close>, passing a state.\<close>

fun each :: "('a \<Rightarrow> 'b \<Rightarrow> 'b result) \<Rightarrow> 'a list \<Rightarrow> 'b \<Rightarrow> 'b result" where
  "each f [] b = Inr b"
| "each f (x # xs) b = bindE (f x b) (each f xs)"

definition run_field_checks :: "datum_type_def \<Rightarrow> field_value list \<Rightarrow> unit result" where
  "run_field_checks d values =
     bindE (each (\<lambda>c _. constraint_ok d values c) (dt_constraints d) ()) (\<lambda>_.
       each (\<lambda>cd _. check_ok d values cd) (dt_checks d) ())"

section \<open>Reads and writes\<close>

record tracked_datum =
  td_def :: datum_type_def
  td_before :: "field_value list option"
  td_after :: "field_value list option"
  td_touched :: bool

record typed_context =
  tc_ctx :: op_context
  tc_tracked :: "(datum_id \<times> tracked_datum) list"

definition typed_new :: "op_context \<Rightarrow> typed_context" where
  "typed_new ctx = \<lparr>tc_ctx = ctx, tc_tracked = []\<rparr>"

text \<open>The current value, decoded; the read may fill the cache also when the content does not decode.\<close>

definition read_typed ::
    "'s store_ops \<Rightarrow> 's \<Rightarrow> datum_id \<Rightarrow> datum_type_def \<Rightarrow> typed_context \<Rightarrow> field_value list option result \<times> typed_context" where
  "read_typed ops s pk_id d tc =
     (let (content, ctx) = ctx_get_replicated ops s pk_id (dt_replication_factor d) (tc_ctx tc);
          values = (case content of
              None \<Rightarrow> Inr None
            | Some bs \<Rightarrow> bindE (with_context ''existing content for datum {pk_id:?} failed to decode'' (decode_datum d bs)) (\<lambda>vs. Inr (Some vs)))
      in (values, tc\<lparr>tc_ctx := ctx\<rparr>))"

definition tc_get ::
    "'s store_ops \<Rightarrow> 's \<Rightarrow> datum_id \<Rightarrow> datum_type_def \<Rightarrow> typed_context \<Rightarrow> field_value list option result \<times> typed_context" where
  "tc_get ops s pk_id d tc =
     (case read_typed ops s pk_id d tc of
        (Inl e, tc) \<Rightarrow> (Inl e, tc)
      | (Inr values, tc) \<Rightarrow>
          (Inr values,
           if map_of (tc_tracked tc) pk_id = None
           then tc\<lparr>tc_tracked := AList.update pk_id \<lparr>td_def = d, td_before = values, td_after = values, td_touched = False\<rparr> (tc_tracked tc)\<rparr>
           else tc))"

definition ensure_tracked ::
    "'s store_ops \<Rightarrow> 's \<Rightarrow> datum_id \<Rightarrow> datum_type_def \<Rightarrow> typed_context \<Rightarrow> unit result \<times> typed_context" where
  "ensure_tracked ops s pk_id d tc =
     (if map_of (tc_tracked tc) pk_id \<noteq> None then (Inr (), tc)
      else
        (case read_typed ops s pk_id d tc of
           (Inl e, tc) \<Rightarrow> (Inl e, tc)
         | (Inr old, tc) \<Rightarrow>
             (Inr (), tc\<lparr>tc_tracked := AList.update pk_id \<lparr>td_def = d, td_before = old, td_after = None, td_touched = False\<rparr> (tc_tracked tc)\<rparr>)))"

definition touch :: "datum_id \<Rightarrow> field_value list option \<Rightarrow> typed_context \<Rightarrow> typed_context" where
  "touch pk_id after tc =
     tc\<lparr>tc_tracked := AList.map_entry pk_id (\<lambda>td. td\<lparr>td_after := after, td_touched := True\<rparr>) (tc_tracked tc)\<rparr>"

definition tc_set ::
    "namer \<Rightarrow> 's store_ops \<Rightarrow> 's \<Rightarrow> datum_id \<Rightarrow> datum_type_def \<Rightarrow> field_value list \<Rightarrow> typed_context \<Rightarrow> unit result \<times> typed_context" where
  "tc_set from_name ops s pk_id d values tc =
     (case bindE (check_pk from_name pk_id d) (\<lambda>_. bindE (run_field_checks d values) (\<lambda>_. encode_datum d values)) of
        Inl e \<Rightarrow> (Inl e, tc)
      | Inr bs \<Rightarrow>
          (case ensure_tracked ops s pk_id d tc of
             (Inl e, tc) \<Rightarrow> (Inl e, tc)
           | (Inr _, tc) \<Rightarrow>
               (Inr (), touch pk_id (Some values) (tc\<lparr>tc_ctx := ctx_put_replicated pk_id bs (dt_replication_factor d) (tc_ctx tc)\<rparr>))))"

definition tc_delete ::
    "namer \<Rightarrow> 's store_ops \<Rightarrow> 's \<Rightarrow> datum_id \<Rightarrow> datum_type_def \<Rightarrow> typed_context \<Rightarrow> unit result \<times> typed_context" where
  "tc_delete from_name ops s pk_id d tc =
     (case check_pk from_name pk_id d of
        Inl e \<Rightarrow> (Inl e, tc)
      | Inr _ \<Rightarrow>
          (case ensure_tracked ops s pk_id d tc of
             (Inl e, tc) \<Rightarrow> (Inl e, tc)
           | (Inr _, tc) \<Rightarrow>
               (Inr (), touch pk_id None (tc\<lparr>tc_ctx := ctx_delete_replicated pk_id (dt_replication_factor d) (tc_ctx tc)\<rparr>))))"

section \<open>Dropping the accessor\<close>

text \<open>\<open>values.as_ref().map(|v| v[i].clone())\<close>\<close>

definition field_at :: "field_value list option \<Rightarrow> nat \<Rightarrow> field_value option result" where
  "field_at values i =
     (case values of
        None \<Rightarrow> Inr None
      | Some vs \<Rightarrow>
          if i < length vs then Inr (Some (vs ! i))
          else Inl (Panic ''index out of bounds: the len is {} but the index is {}'' [length vs, i]))"

definition conflict_name :: "conflict_op \<Rightarrow> rstring" where
  "conflict_name c = (case c of ConflictOp name \<Rightarrow> name)"

definition sk_remove :: "namer \<Rightarrow> rstring \<Rightarrow> rstring \<Rightarrow> datum_id \<Rightarrow> field_value option \<Rightarrow> op_context \<Rightarrow> op_context" where
  "sk_remove from_name type_name field pk_id old ctx =
     (case old of
        None \<Rightarrow> ctx
      | Some v \<Rightarrow>
          (case sk_key from_name type_name field v of
             Inl _ \<Rightarrow> ctx
           | Inr k \<Rightarrow> schedule_index_update k (lit ''sk'') (encode_sk_index_op (SkRemove pk_id)) ctx))"

definition sk_insert ::
    "namer \<Rightarrow> rstring \<Rightarrow> rstring \<Rightarrow> datum_id \<Rightarrow> conflict_op option \<Rightarrow> field_value option \<Rightarrow> op_context \<Rightarrow> op_context" where
  "sk_insert from_name type_name field pk_id unique new ctx =
     (case new of
        None \<Rightarrow> ctx
      | Some v \<Rightarrow>
          (case sk_key from_name type_name field v of
             Inl _ \<Rightarrow> ctx
           | Inr k \<Rightarrow> schedule_index_update k (lit ''sk'') (encode_sk_index_op (SkInsert pk_id (map_option conflict_name unique))) ctx))"

definition sk_diff :: "namer \<Rightarrow> datum_id \<Rightarrow> tracked_datum \<Rightarrow> rstring \<Rightarrow> conflict_op option \<Rightarrow> op_context \<Rightarrow> op_context result" where
  "sk_diff from_name pk_id td field unique ctx =
     (case field_position (td_def td) field of
        None \<Rightarrow> Inr ctx
      | Some i \<Rightarrow>
          bindE (field_at (td_before td) i) (\<lambda>old.
          bindE (field_at (td_after td) i) (\<lambda>new.
            if opt_value_eq old new then Inr ctx
            else Inr (sk_insert from_name (dt_name (td_def td)) field pk_id unique new
                       (sk_remove from_name (dt_name (td_def td)) field pk_id old ctx)))))"

definition rank_key_of :: "field_value option \<Rightarrow> bytes option" where
  "rank_key_of v = Option.bind v (\<lambda>v. case encode_rank_key v of Inr k \<Rightarrow> Some k | Inl _ \<Rightarrow> None)"

definition rk_diff :: "namer \<Rightarrow> datum_id \<Rightarrow> tracked_datum \<Rightarrow> rstring \<Rightarrow> op_context \<Rightarrow> op_context result" where
  "rk_diff from_name pk_id td field ctx =
     (case field_position (td_def td) field of
        None \<Rightarrow> Inr ctx
      | Some i \<Rightarrow>
          bindE (field_at (td_before td) i) (\<lambda>old.
          bindE (field_at (td_after td) i) (\<lambda>new.
            if opt_value_eq old new then Inr ctx
            else if rank_key_of old = None \<and> rank_key_of new = None then Inr ctx
            else
              Inr (schedule_index_update (rk_key from_name (dt_name (td_def td)) field) (lit ''rk'')
                (encode_rk_index_op \<lparr>rk_pk_id = pk_id, old_rank_key = rank_key_of old, new_rank_key = rank_key_of new\<rparr>) ctx))))"

definition index_diff :: "namer \<Rightarrow> datum_id \<Rightarrow> tracked_datum \<Rightarrow> index_def \<Rightarrow> op_context \<Rightarrow> op_context result" where
  "index_diff from_name pk_id td index ctx =
     (case index of
        SkIndex field unique \<Rightarrow> sk_diff from_name pk_id td field unique ctx
      | RkIndex field \<Rightarrow> rk_diff from_name pk_id td field ctx)"

definition extent_diff :: "namer \<Rightarrow> datum_id \<Rightarrow> tracked_datum \<Rightarrow> op_context \<Rightarrow> op_context" where
  "extent_diff from_name pk_id td ctx =
     (if dt_track_extent (td_def td) then
        let target = extent_key from_name (dt_name (td_def td)) in
        if td_before td = None \<and> td_after td \<noteq> None
        then schedule_index_update target (lit ''partition'') (encode_extent_op (ExtentInsert pk_id)) ctx
        else if td_before td \<noteq> None \<and> td_after td = None
        then schedule_index_update target (lit ''partition'') (encode_extent_op (ExtentRemove pk_id)) ctx
        else ctx
      else ctx)"

definition guard_diff :: "namer \<Rightarrow> datum_id \<Rightarrow> guard_ref \<Rightarrow> op_context \<Rightarrow> op_context result" where
  "guard_diff from_name pk_id guard ctx =
     (case sk_key from_name (gr_type_name guard) (gr_field guard) (VBytes (as_bytes pk_id)) of
        Inl _ \<Rightarrow> Inr ctx
      | Inr probe \<Rightarrow>
          Inr (case gr_on_delete guard of
              Restrict \<Rightarrow>
                schedule_exists_check probe
                  (Absent (lit ''delete restricted: '' @ gr_type_name guard @ lit ''.'' @ gr_field guard @ lit '' still references '' @ debug_datum_id pk_id)) ctx
            | Track \<Rightarrow>
                schedule_index_update (fk_deleted_key from_name (gr_type_name guard) (gr_field guard)) (lit ''fk_pending'')
                  (encode_fk_pending_op (FkInsert pk_id probe)) ctx))"

text \<open>The datum a constrained field refers to.\<close>

definition reference_target :: "namer \<Rightarrow> fk_target \<Rightarrow> field_value \<Rightarrow> datum_id option" where
  "reference_target from_name references v =
     (case references of
        FkPkEnum _ _ \<Rightarrow> None
      | FkPkUuid _ \<Rightarrow> (case v of VBytes bs \<Rightarrow> if length bs = 16 then Some (from_bytes bs) else None | _ \<Rightarrow> None)
      | FkSkUnique type_name field \<Rightarrow> (case sk_key from_name type_name field v of Inr i \<Rightarrow> Some i | Inl _ \<Rightarrow> None))"

definition constraint_diff ::
    "namer \<Rightarrow> datum_id \<Rightarrow> tracked_datum \<Rightarrow> field_value list \<Rightarrow> relational_constraint_def \<Rightarrow> op_context \<Rightarrow> op_context result" where
  "constraint_diff from_name pk_id td new_values c ctx =
     (case field_position (td_def td) (rc_field c) of
        None \<Rightarrow> Inr ctx
      | Some i \<Rightarrow>
          bindE (field_at (td_before td) i) (\<lambda>old.
          bindE (field_at (Some new_values) i) (\<lambda>new.
            if opt_value_eq old new then Inr ctx
            else
              case reference_target from_name (rc_references c) (the new) of
                None \<Rightarrow> Inr ctx
              | Some target \<Rightarrow>
                  let on_missing = (case rc_resolution c of
                      None \<Rightarrow> MissingReject
                    | Some _ \<Rightarrow>
                        MissingTrack (fk_pending_key from_name (dt_name (td_def td)) (rc_field c)) (lit ''fk_pending'')
                          (encode_fk_pending_op (FkInsert pk_id target)))
                  in Inr (schedule_exists_check target (Present on_missing) ctx))))"

definition drop_one :: "namer \<Rightarrow> datum_id \<times> tracked_datum \<Rightarrow> op_context \<Rightarrow> op_context result" where
  "drop_one from_name = (\<lambda>(pk_id, td) ctx.
     if \<not> td_touched td then Inr ctx
     else
       bindE (each (index_diff from_name pk_id td) (dt_indexes (td_def td)) ctx) (\<lambda>ctx.
       let ctx = extent_diff from_name pk_id td ctx in
       case td_after td of
         None \<Rightarrow>
           if td_before td \<noteq> None then each (guard_diff from_name pk_id) (dt_guards (td_def td)) ctx else Inr ctx
       | Some new_values \<Rightarrow> each (constraint_diff from_name pk_id td new_values) (dt_constraints (td_def td)) ctx))"

text \<open>\<open>drained\<close> is the tracked map in the order in which the hash map hands it out.\<close>

definition drop_typed :: "namer \<Rightarrow> (datum_id \<times> tracked_datum) list \<Rightarrow> op_context \<Rightarrow> op_context result" where
  "drop_typed from_name drained ctx = each (drop_one from_name) drained ctx"

end
