(* ===== verification/Typed_Index.thy ===== *)
theory Typed_Index
  imports Typed_Context
begin

text \<open>
  What the scheduled secondary-key updates make of the indexes: if an index lists exactly the datums
  with a value before an operation, and its updates are accepted, it does so afterwards.
\<close>

section \<open>Running the updates\<close>

type_synonym sk_state = "datum_id \<Rightarrow> sk_resident"

definition is_sk :: "pending_index_update \<Rightarrow> bool" where
  "is_sk u \<longleftrightarrow> pu_index_kind u = lit ''sk''"

definition sk_step :: "pending_index_update \<Rightarrow> sk_state \<Rightarrow> rstring option \<times> sk_state" where
  "sk_step u I = (let (out, es) = sk_apply (pu_payload u) (I (pu_target u)) in (ao_violation out, I(pu_target u := es)))"

text \<open>All updates are applied; the first violation is kept.\<close>

fun sk_run :: "pending_index_update list \<Rightarrow> sk_state \<Rightarrow> rstring option \<times> sk_state" where
  "sk_run [] I = (None, I)"
| "sk_run (u # us) I =
     (if is_sk u then
        let (v, I) = sk_step u I; (w, I) = sk_run us I in (if v = None then w else v, I)
      else sk_run us I)"

lemma sk_run_filter: "sk_run (filter is_sk us) I = sk_run us I"
  by (induction us arbitrary: I) (auto simp: case_prod_beta)

lemma sk_run_append:
  "sk_run (us @ vs) I = (let (v, I) = sk_run us I; (w, I) = sk_run vs I in (if v = None then w else v, I))"
  by (induction us arbitrary: I) (auto simp: case_prod_beta Let_def)

lemma sk_run_accepted_append:
  "sk_run (us @ vs) I = (None, I'') \<longleftrightarrow> (\<exists>I'. sk_run us I = (None, I') \<and> sk_run vs I' = (None, I''))"
  by (auto simp: sk_run_append case_prod_beta split: if_splits) (metis prod.collapse)+

section \<open>What is scheduled\<close>

definition sk_part :: "op_context \<Rightarrow> pending_index_update list" where
  "sk_part ctx = filter is_sk (oc_index_updates ctx)"

lemma lit_kinds: "lit ''rk'' \<noteq> lit ''sk''" "lit ''partition'' \<noteq> lit ''sk''" "lit ''fk_pending'' \<noteq> lit ''sk''"
  by (simp_all add: lit_def)

lemma sk_part_simps [simp]:
  "sk_part (schedule_index_update t k p ctx) = sk_part ctx @ (if k = lit ''sk'' then [\<lparr>pu_target = t, pu_index_kind = k, pu_payload = p\<rparr>] else [])"
  "sk_part (schedule_exists_check t e ctx) = sk_part ctx"
  by (simp_all add: sk_part_def schedule_index_update_def schedule_exists_check_def is_sk_def)

definition sk_update :: "datum_id \<Rightarrow> sk_index_op \<Rightarrow> pending_index_update" where
  "sk_update k op = \<lparr>pu_target = k, pu_index_kind = lit ''sk'', pu_payload = encode_sk_index_op op\<rparr>"

definition key_list :: "namer \<Rightarrow> datum_type_def \<Rightarrow> rstring \<Rightarrow> field_value option \<Rightarrow> datum_id list" where
  "key_list from_name d field v =
     (case v of None \<Rightarrow> [] | Some v \<Rightarrow> (case sk_key from_name (dt_name d) field v of Inl _ \<Rightarrow> [] | Inr k \<Rightarrow> [k]))"

text \<open>The updates of one index for a change from \<open>old\<close> to \<open>new\<close>.\<close>

definition change_updates ::
    "namer \<Rightarrow> datum_type_def \<Rightarrow> datum_id \<Rightarrow> rstring \<Rightarrow> conflict_op option \<Rightarrow> field_value option \<Rightarrow> field_value option \<Rightarrow> pending_index_update list" where
  "change_updates from_name d pk field unique old new =
     (if opt_value_eq old new then []
      else map (\<lambda>k. sk_update k (SkRemove pk)) (key_list from_name d field old) @
           map (\<lambda>k. sk_update k (SkInsert pk (map_option conflict_name unique))) (key_list from_name d field new))"

definition value_at :: "nat \<Rightarrow> field_value list option \<Rightarrow> field_value option" where
  "value_at i vs = map_option (\<lambda>vs. vs ! i) vs"

definition td_updates :: "namer \<Rightarrow> datum_id \<Rightarrow> tracked_datum \<Rightarrow> index_def \<Rightarrow> pending_index_update list" where
  "td_updates from_name pk td index =
     (case index of
        RkIndex _ \<Rightarrow> []
      | SkIndex field unique \<Rightarrow>
          (case field_position (td_def td) field of
             None \<Rightarrow> []
           | Some i \<Rightarrow> change_updates from_name (td_def td) pk field unique (value_at i (td_before td)) (value_at i (td_after td))))"

definition sized_values :: "datum_type_def \<Rightarrow> field_value list option \<Rightarrow> bool" where
  "sized_values d vs \<longleftrightarrow> (\<forall>xs. vs = Some xs \<longrightarrow> length xs = length (dt_fields d))"

lemma field_position_less: "field_position d field = Some i \<Longrightarrow> i < length (dt_fields d)"
proof -
  have "position P xs = Some i \<Longrightarrow> i < length xs" for P and xs :: "(rstring \<times> field_type) list" and i
    by (induction xs arbitrary: i) (auto split: if_splits)
  then show "field_position d field = Some i \<Longrightarrow> i < length (dt_fields d)" unfolding field_position_def .
qed

lemma field_at_value: "sized_values d vs \<Longrightarrow> field_position d field = Some i \<Longrightarrow> field_at vs i = Inr (value_at i vs)"
  using field_position_less [of d field i] by (auto simp: field_at_def value_at_def sized_values_def split: option.splits)

lemma sk_diff_ok:
  assumes "sized_values (td_def td) (td_before td)" "sized_values (td_def td) (td_after td)"
  shows "\<exists>ctx'. sk_diff from_name pk td field unique ctx = Inr ctx' \<and> sk_part ctx' = sk_part ctx @ td_updates from_name pk td (SkIndex field unique)"
proof (cases "field_position (td_def td) field")
  case (Some i)
  then show ?thesis using field_at_value [OF assms(1) Some] field_at_value [OF assms(2) Some]
    by (auto simp: sk_diff_def td_updates_def change_updates_def sk_insert_def sk_remove_def key_list_def sk_update_def split: option.splits sum.splits)
qed (simp add: sk_diff_def td_updates_def)

lemma index_diff_ok:
  assumes "sized_values (td_def td) (td_before td)" "sized_values (td_def td) (td_after td)"
  shows "\<exists>ctx'. index_diff from_name pk td index ctx = Inr ctx' \<and> sk_part ctx' = sk_part ctx @ td_updates from_name pk td index"
proof (cases index)
  case (SkIndex field unique)
  then show ?thesis using sk_diff_ok [OF assms] by (simp add: index_diff_def)
next
  case (RkIndex field)
  show ?thesis
  proof (cases "field_position (td_def td) field")
    case (Some i)
    then show ?thesis using field_at_value [OF assms(1) Some] field_at_value [OF assms(2) Some]
      by (simp add: RkIndex index_diff_def rk_diff_def td_updates_def lit_kinds)
  qed (simp add: RkIndex index_diff_def rk_diff_def td_updates_def)
qed

lemma each_ok:
  assumes "\<And>x b. x \<in> set xs \<Longrightarrow> \<exists>b'. f x b = Inr b' \<and> g b' = g b @ h x"
  shows "\<exists>b'. each f xs b = Inr b' \<and> g b' = g b @ concat (map h xs)"
  using assms
proof (induction xs arbitrary: b)
  case (Cons x xs)
  obtain b1 where b1: "f x b = Inr b1" "g b1 = g b @ h x" using Cons.prems [of x b] by auto
  obtain b2 where "each f xs b1 = Inr b2" "g b2 = g b1 @ concat (map h xs)" using Cons.IH [of b1] Cons.prems by auto
  then show ?case using b1 by simp
qed simp

lemma constraint_diff_ok:
  assumes "sized_values (td_def td) (td_before td)" "sized_values (td_def td) (Some vs)"
  shows "\<exists>ctx'. constraint_diff from_name pk td vs c ctx = Inr ctx' \<and> sk_part ctx' = sk_part ctx @ []"
proof (cases "field_position (td_def td) (rc_field c)")
  case (Some i)
  then show ?thesis using field_at_value [OF assms(1) Some] field_at_value [OF assms(2) Some]
    by (auto simp: constraint_diff_def Let_def split: option.splits)
qed (simp add: constraint_diff_def)

lemma guard_diff_ok: "\<exists>ctx'. guard_diff from_name pk guard ctx = Inr ctx' \<and> sk_part ctx' = sk_part ctx @ []"
  by (auto simp: guard_diff_def lit_kinds split: sum.splits on_delete.splits)

lemma extent_diff_sk: "sk_part (extent_diff from_name pk td ctx) = sk_part ctx"
  by (simp add: extent_diff_def Let_def lit_kinds)

definition drop_updates :: "namer \<Rightarrow> datum_id \<times> tracked_datum \<Rightarrow> pending_index_update list" where
  "drop_updates from_name = (\<lambda>(pk, td). if td_touched td then concat (map (td_updates from_name pk td) (dt_indexes (td_def td))) else [])"

lemma drop_one_ok:
  assumes "sized_values (td_def td) (td_before td)" "sized_values (td_def td) (td_after td)"
  shows "\<exists>ctx'. drop_one from_name (pk, td) ctx = Inr ctx' \<and> sk_part ctx' = sk_part ctx @ drop_updates from_name (pk, td)"
proof (cases "td_touched td")
  case True
  obtain c1 where c1: "each (index_diff from_name pk td) (dt_indexes (td_def td)) ctx = Inr c1"
    "sk_part c1 = sk_part ctx @ concat (map (td_updates from_name pk td) (dt_indexes (td_def td)))"
    using each_ok [of _ "index_diff from_name pk td" sk_part "td_updates from_name pk td", OF index_diff_ok [OF assms]] by blast
  let ?c = "extent_diff from_name pk td c1"
  have none: "concat (map (\<lambda>_. []) xs) = ([] :: pending_index_update list)" for xs :: "'x list" by (induction xs) simp_all
  show ?thesis
  proof (cases "td_after td")
    case None
    obtain c2 where "each (guard_diff from_name pk) (dt_guards (td_def td)) ?c = Inr c2" "sk_part c2 = sk_part ?c"
      using each_ok [of "dt_guards (td_def td)" "guard_diff from_name pk" sk_part "\<lambda>_. []", OF guard_diff_ok] none by fastforce
    then show ?thesis using c1 True None by (auto simp: drop_one_def drop_updates_def extent_diff_sk Let_def)
  next
    case (Some vs)
    obtain c2 where "each (constraint_diff from_name pk td vs) (dt_constraints (td_def td)) ?c = Inr c2" "sk_part c2 = sk_part ?c"
      using each_ok [of "dt_constraints (td_def td)" "constraint_diff from_name pk td vs" sk_part "\<lambda>_. []", OF constraint_diff_ok [OF assms(1)]] assms(2) none Some
      by fastforce
    then show ?thesis using c1 True Some by (auto simp: drop_one_def drop_updates_def extent_diff_sk Let_def)
  qed
qed (simp add: drop_one_def drop_updates_def)

lemma drop_typed_ok:
  assumes "\<forall>(pk, td)\<in>set drained. sized_values (td_def td) (td_before td) \<and> sized_values (td_def td) (td_after td)"
  shows "\<exists>ctx'. drop_typed from_name drained ctx = Inr ctx' \<and> sk_part ctx' = sk_part ctx @ concat (map (drop_updates from_name) drained)"
  unfolding drop_typed_def by (rule each_ok) (use assms drop_one_ok in fastforce)

section \<open>The sets behind the lists\<close>

definition lists_all :: "sk_state \<Rightarrow> (datum_id \<Rightarrow> datum_id set) \<Rightarrow> bool" where
  "lists_all I A \<longleftrightarrow> (\<forall>k. listed (I k) (A k))"

definition abs_change :: "datum_id \<Rightarrow> datum_id list \<Rightarrow> datum_id list \<Rightarrow> (datum_id \<Rightarrow> datum_id set) \<Rightarrow> datum_id \<Rightarrow> datum_id set" where
  "abs_change pk olds news A k =
     (if k \<in> set news then insert pk (A k) else if k \<in> set olds then A k - {pk} else A k)"

lemma sk_step_remove:
  assumes "lists_all I A"
  shows "\<exists>I'. sk_step (sk_update k (SkRemove pk)) I = (None, I') \<and> lists_all I' (A(k := A k - {pk}))"
proof -
  obtain es where "sk_apply (encode_sk_index_op (SkRemove pk)) (I k) = (stored_list encode_sk_entries es, es)" "listed es (A k - {pk})"
    using sk_remove_listed [of "I k" "A k" pk] assms by (auto simp: lists_all_def)
  then show ?thesis using assms by (auto simp: sk_step_def sk_update_def stored_list_def lists_all_def)
qed

lemma sk_step_insert:
  assumes "lists_all I A" "wf_sk_op (SkInsert pk c)"
  shows "sk_step (sk_update k (SkInsert pk c)) I = (None, I') \<Longrightarrow> lists_all I' (A(k := insert pk (A k)))"
    "c = None \<Longrightarrow> fst (sk_step (sk_update k (SkInsert pk c)) I) = None"
proof -
  have l: "listed (I k) (A k)" using assms(1) by (simp add: lists_all_def)
  have ok: "\<exists>es. sk_step (sk_update k (SkInsert pk c)) I = (None, I(k := es)) \<and> listed es (insert pk (A k))" if "c = None \<or> A k \<subseteq> {pk}"
    using sk_insert_listed(1) [OF l assms(2) that] by (auto simp: sk_step_def sk_update_def stored_list_def)
  show "sk_step (sk_update k (SkInsert pk c)) I = (None, I') \<Longrightarrow> lists_all I' (A(k := insert pk (A k)))"
  proof (cases "c = None \<or> A k \<subseteq> {pk}")
    case True
    assume "sk_step (sk_update k (SkInsert pk c)) I = (None, I')"
    then show ?thesis using ok [OF True] assms(1) by (auto simp: lists_all_def)
  next
    case False
    assume *: "sk_step (sk_update k (SkInsert pk c)) I = (None, I')"
    obtain name where "c = Some name" using False by auto
    then show ?thesis using * sk_insert_listed(2) [OF l assms(2)] False by (auto simp: sk_step_def sk_update_def rejected_def)
  qed
  show "c = None \<Longrightarrow> fst (sk_step (sk_update k (SkInsert pk c)) I) = None" using ok by auto
qed

lemma key_list_cases:
  obtains "key_list from_name d field v = []" | k x where "v = Some x" "sk_key from_name (dt_name d) field x = Inr k" "key_list from_name d field v = [k]"
  by (cases v; cases "sk_key from_name (dt_name d) field (the v)") (auto simp: key_list_def)

lemma change_run:
  assumes "lists_all I A" "wf_sk_op (SkInsert pk (map_option conflict_name unique))"
  shows "sk_run (change_updates from_name d pk field unique old new) I = (None, I') \<Longrightarrow>
      lists_all I' (if opt_value_eq old new then A else abs_change pk (key_list from_name d field old) (key_list from_name d field new) A)"
    "unique = None \<Longrightarrow> fst (sk_run (change_updates from_name d pk field unique old new) I) = None"
proof -
  let ?c = "map_option conflict_name unique"
  have sk: "is_sk (sk_update k op)" for k op by (simp add: is_sk_def sk_update_def)
  have rem: "\<exists>I1. sk_run (map (\<lambda>k. sk_update k (SkRemove pk)) (key_list from_name d field old)) I = (None, I1) \<and>
      lists_all I1 (abs_change pk (key_list from_name d field old) [] A)"
  proof (rule key_list_cases [of from_name d field old])
    assume "key_list from_name d field old = []"
    then show ?thesis using assms(1) by (simp add: abs_change_def [abs_def])
  next
    fix k x assume *: "key_list from_name d field old = [k]"
    have "abs_change pk [k] [] A = A(k := A k - {pk})" by (auto simp: abs_change_def fun_eq_iff)
    then show ?thesis using sk_step_remove [OF assms(1), of k pk] sk * by (auto simp: case_prod_beta)
  qed
  then obtain I1 where I1: "sk_run (map (\<lambda>k. sk_update k (SkRemove pk)) (key_list from_name d field old)) I = (None, I1)"
    "lists_all I1 (abs_change pk (key_list from_name d field old) [] A)" by blast
  let ?ins = "map (\<lambda>k. sk_update k (SkInsert pk ?c)) (key_list from_name d field new)"
  have ins: "sk_run ?ins I1 = (None, I') \<Longrightarrow> lists_all I' (abs_change pk (key_list from_name d field old) (key_list from_name d field new) A)"
    "unique = None \<Longrightarrow> fst (sk_run ?ins I1) = None"
  proof -
    show "lists_all I' (abs_change pk (key_list from_name d field old) (key_list from_name d field new) A)" if r: "sk_run ?ins I1 = (None, I')"
    proof (rule key_list_cases [of from_name d field new])
      assume "key_list from_name d field new = []"
      then show ?thesis using I1(2) r by simp
    next
      fix k x assume *: "key_list from_name d field new = [k]"
      have "(abs_change pk (key_list from_name d field old) [] A)(k := insert pk (abs_change pk (key_list from_name d field old) [] A k)) =
          abs_change pk (key_list from_name d field old) [k] A" by (auto simp: abs_change_def fun_eq_iff)
      moreover have "sk_step (sk_update k (SkInsert pk ?c)) I1 = (None, I')" using r sk * by (auto simp: case_prod_beta prod_eq_iff split: if_splits)
      ultimately show ?thesis using sk_step_insert(1) [OF I1(2) assms(2), of k I'] * by simp
    qed
    show "fst (sk_run ?ins I1) = None" if "unique = None"
      by (rule key_list_cases [of from_name d field new]) (use sk_step_insert(2) [OF I1(2) assms(2)] that sk in \<open>auto simp: case_prod_beta\<close>)
  qed
  have split: "sk_run (change_updates from_name d pk field unique old new) I = (if opt_value_eq old new then (None, I) else sk_run ?ins I1)"
    using I1(1) by (simp add: change_updates_def sk_run_append)
  show "sk_run (change_updates from_name d pk field unique old new) I = (None, I') \<Longrightarrow>
      lists_all I' (if opt_value_eq old new then A else abs_change pk (key_list from_name d field old) (key_list from_name d field new) A)"
    using ins(1) split assms(1) by (auto split: if_splits)
  show "unique = None \<Longrightarrow> fst (sk_run (change_updates from_name d pk field unique old new) I) = None"
    using ins(2) split by simp
qed

section \<open>Exact indexes\<close>

type_synonym typed_data = "datum_id \<Rightarrow> field_value list option"

definition holders :: "typed_data \<Rightarrow> nat \<Rightarrow> field_value \<Rightarrow> datum_id set" where
  "holders D i v = {pk. value_at i (D pk) = Some v}"

text \<open>A key of a field: the id derived from a value of the declared type.\<close>

definition is_key :: "namer \<Rightarrow> datum_type_def \<Rightarrow> rstring \<Rightarrow> nat \<Rightarrow> field_value \<Rightarrow> datum_id \<Rightarrow> bool" where
  "is_key from_name d field i v k \<longleftrightarrow>
     field_position d field = Some i \<and> value_matches_type v (snd (dt_fields d ! i)) \<and> sk_key from_name (dt_name d) field v = Inr k"

definition exact_field :: "namer \<Rightarrow> datum_type_def \<Rightarrow> typed_data \<Rightarrow> (datum_id \<Rightarrow> datum_id set) \<Rightarrow> rstring \<Rightarrow> bool" where
  "exact_field from_name d D A field \<longleftrightarrow> (\<forall>i v k. is_key from_name d field i v k \<longrightarrow> A k = holders D i v)"

definition sk_fields :: "index_def list \<Rightarrow> rstring set" where
  "sk_fields js = {field. \<exists>unique. SkIndex field unique \<in> set js}"

definition keys_apart :: "namer \<Rightarrow> datum_type_def \<Rightarrow> bool" where
  "keys_apart from_name d \<longleftrightarrow>
     (\<forall>f\<in>sk_fields (dt_indexes d). \<forall>g\<in>sk_fields (dt_indexes d). \<forall>i j v w k.
        is_key from_name d f i v k \<longrightarrow> is_key from_name d g j w k \<longrightarrow> f = g \<and> v = w)"

definition well_typed :: "datum_type_def \<Rightarrow> field_value list option \<Rightarrow> bool" where
  "well_typed d vs \<longleftrightarrow> (\<forall>xs. vs = Some xs \<longrightarrow> typed_values (dt_fields d) xs)"

text \<open>A change that \<open>==\<close> does not see changes no key: it rules out a change between the two zeros.\<close>

definition visible_change :: "namer \<Rightarrow> datum_type_def \<Rightarrow> field_value list option \<Rightarrow> field_value list option \<Rightarrow> bool" where
  "visible_change from_name d old new \<longleftrightarrow>
     (\<forall>f\<in>sk_fields (dt_indexes d). \<forall>i v k. is_key from_name d f i v k \<longrightarrow> opt_value_eq (value_at i old) (value_at i new) \<longrightarrow>
        (value_at i old = Some v \<longleftrightarrow> value_at i new = Some v))"

definition no_float_key :: "datum_type_def \<Rightarrow> bool" where
  "no_float_key d \<longleftrightarrow> (\<forall>f\<in>sk_fields (dt_indexes d). \<forall>i. field_position d f = Some i \<longrightarrow> snd (dt_fields d ! i) \<noteq> TF64)"

lemma typed_value_at:
  assumes "well_typed d vs" "field_position d field = Some i" "value_at i vs = Some v"
  shows "value_matches_type v (snd (dt_fields d ! i))"
  using assms field_position_less [OF assms(2)]
  by (auto simp: well_typed_def typed_values_def value_at_def list_all2_conv_all_nth case_prod_beta)

lemma key_list_is_key:
  assumes "well_typed d vs" "field_position d field = Some i"
  shows "k \<in> set (key_list from_name d field (value_at i vs)) \<longleftrightarrow> (\<exists>v. value_at i vs = Some v \<and> is_key from_name d field i v k)"
  using typed_value_at [OF assms] assms(2)
  by (cases "value_at i vs") (auto simp: key_list_def is_key_def split: sum.splits)

lemma no_float_visible:
  assumes "no_float_key d" "well_typed d old" "well_typed d new"
  shows "visible_change from_name d old new"
  unfolding visible_change_def
proof (intro ballI allI impI)
  fix f i v k
  assume f: "f \<in> sk_fields (dt_indexes d)" and k: "is_key from_name d f i v k" and eq: "opt_value_eq (value_at i old) (value_at i new)"
  have i: "field_position d f = Some i" and v: "value_matches_type v (snd (dt_fields d ! i))" "sk_key from_name (dt_name d) f v = Inr k"
    using k by (simp_all add: is_key_def)
  have ty: "snd (dt_fields d ! i) \<noteq> TF64" using assms(1) f i by (simp add: no_float_key_def)
  have same: "x = y" if "value_eq x y" "value_matches_type x (snd (dt_fields d ! i))" for x y
    using that v ty by (cases v; cases "snd (dt_fields d ! i)"; cases x) (auto simp: sk_key_def)
  show "value_at i old = Some v \<longleftrightarrow> value_at i new = Some v"
    using eq same typed_value_at [OF assms(2) i] by (auto simp: opt_value_eq_def split: option.splits)
qed

lemma change_exact:
  assumes keys: "keys_apart from_name d" and f: "f \<in> sk_fields (dt_indexes d)" "field_position d f = Some i"
    and typed: "well_typed d (D pk)" "well_typed d new" and vis: "visible_change from_name d (D pk) new"
    and A'_def: "A' = (if opt_value_eq (value_at i (D pk)) (value_at i new) then A
      else abs_change pk (key_list from_name d f (value_at i (D pk))) (key_list from_name d f (value_at i new)) A)"
  shows "exact_field from_name d D A f \<or> exact_field from_name d (D(pk := new)) A f \<Longrightarrow> exact_field from_name d (D(pk := new)) A' f"
    "g \<in> sk_fields (dt_indexes d) \<Longrightarrow> g \<noteq> f \<Longrightarrow> exact_field from_name d E A g \<Longrightarrow> exact_field from_name d E A' g"
proof -
  note old = key_list_is_key [OF typed(1) f(2), of _ from_name] and nw = key_list_is_key [OF typed(2) f(2), of _ from_name]
  assume ex: "exact_field from_name d D A f \<or> exact_field from_name d (D(pk := new)) A f"
  show "exact_field from_name d (D(pk := new)) A' f"
    unfolding exact_field_def
  proof (intro allI impI)
    fix j v k assume k: "is_key from_name d f j v k"
    then have j: "j = i" using f(2) by (simp add: is_key_def)
    have same: "w = v" if "is_key from_name d f i w k" for w using keys f(1) k that j unfolding keys_apart_def by blast
    have A: "A k = holders D i v \<or> A k = holders (D(pk := new)) i v" using ex k j by (auto simp: exact_field_def)
    have o: "k \<in> set (key_list from_name d f (value_at i (D pk))) \<longleftrightarrow> value_at i (D pk) = Some v" using old [of k] same k unfolding j by blast
    have n: "k \<in> set (key_list from_name d f (value_at i new)) \<longleftrightarrow> value_at i new = Some v" using nw [of k] same k unfolding j by blast
    have h: "holders (D(pk := new)) i v - {pk} = holders D i v - {pk}" "pk \<in> holders D i v \<longleftrightarrow> value_at i (D pk) = Some v"
      "pk \<in> holders (D(pk := new)) i v \<longleftrightarrow> value_at i new = Some v" by (auto simp: holders_def)
    have eq: "value_at i (D pk) = Some v \<longleftrightarrow> value_at i new = Some v" if "opt_value_eq (value_at i (D pk)) (value_at i new)"
      using vis f(1) k that unfolding visible_change_def j by blast
    have "A' k = holders (D(pk := new)) i v"
    proof (cases "opt_value_eq (value_at i (D pk)) (value_at i new)")
      case True
      then have "A' k = A k" "pk \<in> holders D i v \<longleftrightarrow> pk \<in> holders (D(pk := new)) i v" using h(2,3) eq by (simp_all add: A'_def)
      then show ?thesis using A h(1) by blast
    next
      case False
      then have "A' k = (if value_at i new = Some v then insert pk (A k) else if value_at i (D pk) = Some v then A k - {pk} else A k)"
        using o n by (simp add: A'_def abs_change_def)
      then show ?thesis using A h by (cases "value_at i new = Some v"; cases "value_at i (D pk) = Some v") auto
    qed
    then show "A' k = holders (D(pk := new)) j v" using j by simp
  qed
next
  assume g: "g \<in> sk_fields (dt_indexes d)" "g \<noteq> f" "exact_field from_name d E A g"
  show "exact_field from_name d E A' g"
    unfolding exact_field_def
  proof (intro allI impI)
    fix j v k assume k: "is_key from_name d g j v k"
    have "\<not> is_key from_name d f i w k" for w using keys f(1) g(1,2) k unfolding keys_apart_def by blast
    then have "k \<notin> set (key_list from_name d f (value_at i (D pk)))" "k \<notin> set (key_list from_name d f (value_at i new))"
      using key_list_is_key [OF typed(1) f(2), of k from_name] key_list_is_key [OF typed(2) f(2), of k from_name] by auto
    then show "A' k = holders E j v" using g(3) k by (auto simp: exact_field_def A'_def abs_change_def)
  qed
qed

section \<open>The updates of an accessor\<close>

definition conflict_names_ok :: "datum_type_def \<Rightarrow> bool" where
  "conflict_names_ok d \<longleftrightarrow>
     list_all (\<lambda>index. case index of SkIndex _ (Some c) \<Rightarrow> short (conflict_name c) \<and> utf8_valid (conflict_name c) | _ \<Rightarrow> True) (dt_indexes d)"

definition no_unique :: "index_def list \<Rightarrow> bool" where
  "no_unique js \<longleftrightarrow> list_all (\<lambda>index. case index of SkIndex _ (Some _) \<Rightarrow> False | _ \<Rightarrow> True) js"

lemma conflict_name_wf: "conflict_names_ok d \<Longrightarrow> SkIndex f u \<in> set (dt_indexes d) \<Longrightarrow> wf_sk_op (SkInsert pk (map_option conflict_name u))"
  by (cases u) (auto simp: conflict_names_ok_def list_all_iff)

lemma datum_run:
  assumes keys: "keys_apart from_name d" and names: "conflict_names_ok d"
    and td: "td_def td = d" "td_before td = D pk" "td_after td = new"
    and typed: "well_typed d (D pk)" "well_typed d new" and vis: "visible_change from_name d (D pk) new"
    and js: "set js \<subseteq> set (dt_indexes d)" and l: "lists_all I A"
    and part: "\<forall>f\<in>sk_fields (dt_indexes d). exact_field from_name d D A f \<or> exact_field from_name d (D(pk := new)) A f"
  shows "(sk_run (concat (map (td_updates from_name pk td) js)) I = (None, I') \<longrightarrow>
      (\<exists>A'. lists_all I' A' \<and> (\<forall>f\<in>sk_fields (dt_indexes d). exact_field from_name d D A' f \<or> exact_field from_name d (D(pk := new)) A' f) \<and>
        (\<forall>f\<in>sk_fields (dt_indexes d). f \<in> sk_fields js \<or> exact_field from_name d (D(pk := new)) A f \<longrightarrow> exact_field from_name d (D(pk := new)) A' f))) \<and>
    (no_unique js \<longrightarrow> fst (sk_run (concat (map (td_updates from_name pk td) js)) I) = None)"
  using js l part
proof (induction js arbitrary: I A)
  case Nil
  then show ?case by (auto simp: sk_fields_def)
next
  case (Cons x js)
  have js: "set js \<subseteq> set (dt_indexes d)" using Cons.prems(1) by simp
  show ?case
  proof (cases "\<exists>f u i. x = SkIndex f u \<and> field_position d f = Some i")
    case False
    then have n: "td_updates from_name pk td x = []" using td by (auto simp: td_updates_def split: index_def.splits option.splits)
    have "exact_field from_name d E B f" if "f \<in> sk_fields (x # js)" "f \<notin> sk_fields js" for E B f
      using that False by (auto simp: sk_fields_def exact_field_def is_key_def)
    moreover have r: "concat (map (td_updates from_name pk td) (x # js)) = concat (map (td_updates from_name pk td) js)" using n by simp
    moreover have "no_unique (x # js) \<Longrightarrow> no_unique js" by (simp add: no_unique_def)
    ultimately show ?thesis using Cons.IH [OF js Cons.prems(2,3)] unfolding r by blast
  next
    case True
    then obtain f u i where x: "x = SkIndex f u" and i: "field_position d f = Some i" by blast
    have f: "f \<in> sk_fields (dt_indexes d)" "SkIndex f u \<in> set (dt_indexes d)" using Cons.prems(1) x by (auto simp: sk_fields_def)
    let ?us = "change_updates from_name d pk f u (value_at i (D pk)) (value_at i new)"
    let ?B = "if opt_value_eq (value_at i (D pk)) (value_at i new) then A
      else abs_change pk (key_list from_name d f (value_at i (D pk))) (key_list from_name d f (value_at i new)) A"
    have us: "td_updates from_name pk td x = ?us" using td x i by (simp add: td_updates_def)
    note run = change_run [OF Cons.prems(2) conflict_name_wf [OF names f(2), of pk], of from_name d f "value_at i (D pk)" "value_at i new"]
    obtain B E where BE: "B = ?B" "E = D(pk := new)" by blast
    have part: "exact_field from_name d D A g \<or> exact_field from_name d E A g" if "g \<in> sk_fields (dt_indexes d)" for g
      using Cons.prems(3) that BE(2) by blast
    have B: "exact_field from_name d E B f"
      "g \<in> sk_fields (dt_indexes d) \<Longrightarrow> g \<noteq> f \<Longrightarrow> exact_field from_name d C A g \<Longrightarrow> exact_field from_name d C B g" for g C
      using change_exact [of from_name d f i D pk new B A, OF keys f(1) i typed vis BE(1)] part f(1) unfolding BE(2) by blast+
    have B3: "\<forall>g\<in>sk_fields (dt_indexes d). exact_field from_name d D B g \<or> exact_field from_name d E B g"
      using B part by blast
    have fs: "sk_fields (x # js) = insert f (sk_fields js)" by (auto simp: sk_fields_def x)
    obtain v I1 where s1: "sk_run ?us I = (v, I1)" by fastforce
    show ?thesis
    proof (cases v)
      case None
      then have "lists_all I1 B" using run(1) s1 BE(1) by simp
      note IH = Cons.IH [OF js this B3 [unfolded BE(2)], folded BE(2)]
      have r: "sk_run (concat (map (td_updates from_name pk td) (x # js))) I = sk_run (concat (map (td_updates from_name pk td) js)) I1"
        using s1 None by (simp add: us sk_run_append)
      have "\<forall>g\<in>sk_fields (dt_indexes d). g \<in> insert f (sk_fields js) \<or> exact_field from_name d E A g \<longrightarrow> g \<in> sk_fields js \<or> exact_field from_name d E B g"
        using B by blast
      moreover have "no_unique (x # js) \<Longrightarrow> no_unique js" by (simp add: no_unique_def)
      ultimately show ?thesis using IH unfolding r fs BE(2) [symmetric] by blast
    next
      case (Some e)
      then have "fst (sk_run (concat (map (td_updates from_name pk td) (x # js))) I) \<noteq> None"
        using s1 by (simp add: us sk_run_append case_prod_beta)
      moreover have "u \<noteq> None" using run(2) s1 Some by (cases u) simp_all
      ultimately show ?thesis by (auto simp: no_unique_def x)
    qed
  qed
qed

text \<open>What the datums hold after the writes of the tracked ones.\<close>

fun written :: "typed_data \<Rightarrow> (datum_id \<times> tracked_datum) list \<Rightarrow> typed_data" where
  "written D [] = D"
| "written D ((pk, td) # rest) = written (if td_touched td then D(pk := td_after td) else D) rest"

definition tracks :: "namer \<Rightarrow> datum_type_def \<Rightarrow> typed_data \<Rightarrow> datum_id \<times> tracked_datum \<Rightarrow> bool" where
  "tracks from_name d D = (\<lambda>(pk, td). td_def td = d \<and> td_before td = D pk \<and> well_typed d (td_before td) \<and> well_typed d (td_after td) \<and>
     (td_touched td \<longrightarrow> visible_change from_name d (td_before td) (td_after td)))"

definition exact_indexes :: "namer \<Rightarrow> datum_type_def \<Rightarrow> typed_data \<Rightarrow> sk_state \<Rightarrow> bool" where
  "exact_indexes from_name d D I \<longleftrightarrow> (\<exists>A. lists_all I A \<and> (\<forall>f\<in>sk_fields (dt_indexes d). exact_field from_name d D A f))"

lemma one_datum_run:
  assumes "keys_apart from_name d" "conflict_names_ok d" "tracks from_name d D (pk, td)" "td_touched td" "exact_indexes from_name d D I"
  shows "(sk_run (concat (map (td_updates from_name pk td) (dt_indexes d))) I = (None, I') \<longrightarrow> exact_indexes from_name d (D(pk := td_after td)) I') \<and>
    (no_unique (dt_indexes d) \<longrightarrow> fst (sk_run (concat (map (td_updates from_name pk td) (dt_indexes d))) I) = None)"
proof -
  obtain A where A: "lists_all I A" "\<forall>f\<in>sk_fields (dt_indexes d). exact_field from_name d D A f" using assms(5) by (auto simp: exact_indexes_def)
  have t: "td_def td = d" "td_before td = D pk" "well_typed d (D pk)" "well_typed d (td_after td)" "visible_change from_name d (D pk) (td_after td)"
    using assms(3,4) by (auto simp: tracks_def)
  have part: "\<forall>f\<in>sk_fields (dt_indexes d). exact_field from_name d D A f \<or> exact_field from_name d (D(pk := td_after td)) A f" using A(2) by blast
  from datum_run [OF assms(1,2) t(1,2) refl t(3-5) order_refl A(1) part, of I'] show ?thesis
    unfolding exact_indexes_def by blast
qed

lemma drained_run:
  assumes "keys_apart from_name d" "conflict_names_ok d"
    and "list_all (tracks from_name d D) drained" "distinct (map fst drained)" "exact_indexes from_name d D I"
  shows "(sk_run (concat (map (drop_updates from_name) drained)) I = (None, I') \<longrightarrow> exact_indexes from_name d (written D drained) I') \<and>
    (no_unique (dt_indexes d) \<longrightarrow> fst (sk_run (concat (map (drop_updates from_name) drained)) I) = None)"
  using assms(3-)
proof (induction drained arbitrary: D I)
  case (Cons x rest)
  obtain pk td where x: "x = (pk, td)" by (cases x)
  let ?D = "if td_touched td then D(pk := td_after td) else D"
  have "tracks from_name d ?D y" if y: "y \<in> set rest" for y
  proof -
    have "fst y \<noteq> pk" using Cons.prems(2) x y by auto
    moreover have "tracks from_name d D y" using Cons.prems(1) y by (auto simp: list_all_iff)
    ultimately show ?thesis by (auto simp: tracks_def)
  qed
  then have rest: "list_all (tracks from_name d ?D) rest" "distinct (map fst rest)" using Cons.prems(2) by (simp_all add: list_all_iff)
  show ?case
  proof (cases "td_touched td")
    case False
    then show ?thesis using Cons.IH [OF rest] Cons.prems(3) x by (simp add: drop_updates_def)
  next
    case True
    have t: "tracks from_name d D (pk, td)" "td_def td = d" using Cons.prems(1) x by (auto simp: tracks_def)
    have u: "drop_updates from_name x = concat (map (td_updates from_name pk td) (dt_indexes d))" using True t(2) x by (simp add: drop_updates_def)
    obtain v I1 where s1: "sk_run (drop_updates from_name x) I = (v, I1)" by fastforce
    note one = one_datum_run [OF assms(1,2) t(1) True Cons.prems(3)]
    show ?thesis
    proof (cases v)
      case None
      then have "exact_indexes from_name d ?D I1" using one [of I1] s1 True by (simp add: u)
      then show ?thesis using Cons.IH [OF rest] s1 None x by (simp add: sk_run_append)
    next
      case (Some e)
      then show ?thesis using one s1 by (simp add: sk_run_append case_prod_beta u)
    qed
  qed
qed auto

lemma written_at:
  "distinct (map fst drained) \<Longrightarrow> written D drained pk = (case map_of drained pk of Some td \<Rightarrow> if td_touched td then td_after td else D pk | None \<Rightarrow> D pk)"
proof (induction drained arbitrary: D)
  case (Cons x rest)
  obtain q td where x: "x = (q, td)" by (cases x)
  have "map_of rest q = None" using Cons.prems x by (simp add: map_of_eq_None_iff)
  then show ?case using Cons.IH Cons.prems x by (simp split: option.splits)
qed simp

section \<open>Typed calls\<close>

datatype typed_call = CGet datum_id | CSet datum_id "field_value list" | CDelete datum_id

text \<open>The calls that an operation makes on datums of one type; it may react to their results as it likes.\<close>

fun typed_step :: "namer \<Rightarrow> 's store_ops \<Rightarrow> 's \<Rightarrow> datum_type_def \<Rightarrow> typed_call \<Rightarrow> typed_context \<Rightarrow> typed_context" where
  "typed_step from_name ops s d (CGet pk) tc = snd (tc_get ops s pk d tc)"
| "typed_step from_name ops s d (CSet pk vs) tc = snd (tc_set from_name ops s pk d vs tc)"
| "typed_step from_name ops s d (CDelete pk) tc = snd (tc_delete from_name ops s pk d tc)"

definition typed_run :: "namer \<Rightarrow> 's store_ops \<Rightarrow> 's \<Rightarrow> datum_type_def \<Rightarrow> typed_call list \<Rightarrow> typed_context \<Rightarrow> typed_context" where
  "typed_run from_name ops s d calls tc = fold (typed_step from_name ops s d) calls tc"

fun call_ok :: "datum_id set \<Rightarrow> typed_call \<Rightarrow> bool" where
  "call_ok P (CGet pk) \<longleftrightarrow> pk \<in> P"
| "call_ok P (CSet pk vs) \<longleftrightarrow> pk \<in> P \<and> list_all wf_value vs"
| "call_ok P (CDelete pk) \<longleftrightarrow> pk \<in> P"

text \<open>The values that the contents of the datums \<open>P\<close> decode to.\<close>

definition typed_of :: "datum_type_def \<Rightarrow> datum_id set \<Rightarrow> (datum_id \<rightharpoonup> bytes) \<Rightarrow> typed_data" where
  "typed_of d P m pk =
     (if pk \<in> P then Option.bind (m pk) (\<lambda>bs. case decode_datum d bs of Inr vs \<Rightarrow> Some vs | Inl _ \<Rightarrow> None) else None)"

lemma typed_of_typed: "well_typed d (typed_of d P m pk)"
  by (cases "m pk"; cases "decode_datum d (the (m pk))") (auto simp: well_typed_def typed_of_def dest: decode_datum_typed)

definition entry_ok :: "datum_type_def \<Rightarrow> datum_id set \<Rightarrow> (datum_id \<rightharpoonup> bytes) \<Rightarrow> typed_context \<Rightarrow> datum_id \<Rightarrow> tracked_datum \<Rightarrow> bool" where
  "entry_ok d P m tc pk td \<longleftrightarrow>
     pk \<in> P \<and> td_def td = d \<and> td_before td = typed_of d P m pk \<and> well_typed d (td_after td) \<and>
     (if td_touched td then td_after td = typed_of d P (seen (tc_ctx tc) m) pk else map_of (oc_staged (tc_ctx tc)) pk = None)"

definition typed_inv :: "datum_type_def \<Rightarrow> datum_id set \<Rightarrow> (datum_id \<rightharpoonup> bytes) \<Rightarrow> typed_context \<Rightarrow> bool" where
  "typed_inv d P m tc \<longleftrightarrow>
     coherent_on UNIV m (oc_cache (tc_ctx tc)) \<and> oc_index_updates (tc_ctx tc) = [] \<and> distinct (map fst (tc_tracked tc)) \<and>
     (\<forall>pk. case map_of (tc_tracked tc) pk of
        Some td \<Rightarrow> entry_ok d P m tc pk td
      | None \<Rightarrow> pk \<in> P \<longrightarrow> map_of (oc_staged (tc_ctx tc)) pk = None)"

lemma typed_inv_new: "coherent_on UNIV m c \<Longrightarrow> typed_inv d P m (typed_new (ctx_new c))"
  by (simp add: typed_inv_def typed_new_def ctx_new_def)

lemma typed_invI:
  assumes "coherent_on UNIV m (oc_cache (tc_ctx tc))" "oc_index_updates (tc_ctx tc) = []" "distinct (map fst (tc_tracked tc))"
    "\<And>pk. map_of (tc_tracked tc) pk = None \<Longrightarrow> pk \<in> P \<Longrightarrow> map_of (oc_staged (tc_ctx tc)) pk = None"
    "\<And>pk td. map_of (tc_tracked tc) pk = Some td \<Longrightarrow> entry_ok d P m tc pk td"
  shows "typed_inv d P m tc"
  unfolding typed_inv_def using assms by (auto split: option.split)

lemma typed_invD:
  assumes "typed_inv d P m tc"
  shows "map_of (tc_tracked tc) pk = None \<Longrightarrow> pk \<in> P \<Longrightarrow> map_of (oc_staged (tc_ctx tc)) pk = None"
    "map_of (tc_tracked tc) pk = Some td \<Longrightarrow> entry_ok d P m tc pk td"
proof -
  have "case map_of (tc_tracked tc) pk of Some td \<Rightarrow> entry_ok d P m tc pk td | None \<Rightarrow> pk \<in> P \<longrightarrow> map_of (oc_staged (tc_ctx tc)) pk = None"
    using assms by (simp only: typed_inv_def)
  then show "map_of (tc_tracked tc) pk = None \<Longrightarrow> pk \<in> P \<Longrightarrow> map_of (oc_staged (tc_ctx tc)) pk = None"
    "map_of (tc_tracked tc) pk = Some td \<Longrightarrow> entry_ok d P m tc pk td" by simp_all
qed

text \<open>A read of an untracked datum finds what the store holds.\<close>

lemma read_typed_inv:
  assumes inv: "typed_inv d P (mem_data s) tc" and r: "read_typed in_memory_ops s pk d tc = (res, tc')"
  shows "typed_inv d P (mem_data s) tc'" "tc_tracked tc' = tc_tracked tc"
    "pk \<in> P \<Longrightarrow> map_of (tc_tracked tc) pk = None \<Longrightarrow> res = Inr old \<Longrightarrow> old = typed_of d P (mem_data s) pk"
proof -
  let ?g = "ctx_get_replicated in_memory_ops s pk (dt_replication_factor d) (tc_ctx tc)"
  have c: "coherent_on UNIV (mem_data s) (oc_cache (tc_ctx tc))" using inv by (simp add: typed_inv_def)
  note g = ctx_get_seen [OF c, of pk "dt_replication_factor d"]
  have tc': "tc' = tc\<lparr>tc_ctx := snd ?g\<rparr>" using r by (auto simp: read_typed_def Let_def case_prod_beta)
  then show tr: "tc_tracked tc' = tc_tracked tc" by simp
  have st: "oc_staged (tc_ctx tc') = oc_staged (tc_ctx tc)" "coherent_on UNIV (mem_data s) (oc_cache (tc_ctx tc'))"
    "oc_index_updates (tc_ctx tc') = oc_index_updates (tc_ctx tc)" using g tc' by simp_all
  then have "seen (tc_ctx tc') m = seen (tc_ctx tc) m" for m by (simp add: seen_def fun_eq_iff)
  then have e: "entry_ok d P (mem_data s) tc' q td = entry_ok d P (mem_data s) tc q td" for q td
    unfolding entry_ok_def st(1) by simp
  show "typed_inv d P (mem_data s) tc'"
    using inv st(2) unfolding typed_inv_def e tr st(1,3) by simp
  show "old = typed_of d P (mem_data s) pk" if "pk \<in> P" "map_of (tc_tracked tc) pk = None" "res = Inr old"
  proof -
    have "map_of (oc_staged (tc_ctx tc)) pk = None" using typed_invD(1) [OF inv that(2,1)] .
    then have "fst ?g = mem_data s pk" using g(1) by (simp add: seen_def)
    then show ?thesis using r that(1,3)
      by (auto simp: read_typed_def typed_of_def with_context_def Let_def case_prod_beta split: option.splits sum.splits)
  qed
qed

text \<open>Tracking an untracked datum with what was read.\<close>

lemma track_inv:
  assumes "typed_inv d P m tc" "map_of (tc_tracked tc) pk = None" "pk \<in> P" "well_typed d after"
  shows "typed_inv d P m (tc\<lparr>tc_tracked := AList.update pk \<lparr>td_def = d, td_before = typed_of d P m pk, td_after = after, td_touched = False\<rparr> (tc_tracked tc)\<rparr>)"
proof -
  let ?tc = "tc\<lparr>tc_tracked := AList.update pk \<lparr>td_def = d, td_before = typed_of d P m pk, td_after = after, td_touched = False\<rparr> (tc_tracked tc)\<rparr>"
  have pk: "map_of (oc_staged (tc_ctx tc)) pk = None" by (rule typed_invD(1) [OF assms(1-3)])
  have inv: "coherent_on UNIV m (oc_cache (tc_ctx tc))" "oc_index_updates (tc_ctx tc) = []" "distinct (map fst (tc_tracked tc))"
    using assms(1) by (simp_all add: typed_inv_def)
  have same: "entry_ok d P m ?tc q td = entry_ok d P m tc q td" for q td by (simp add: entry_ok_def)
  show ?thesis
  proof (rule typed_invI)
    show "map_of (tc_tracked ?tc) q = None \<Longrightarrow> q \<in> P \<Longrightarrow> map_of (oc_staged (tc_ctx ?tc)) q = None" for q
      using typed_invD(1) [OF assms(1), of q] by (simp add: update_conv' split: if_splits)
    show "entry_ok d P m ?tc q td" if "map_of (tc_tracked ?tc) q = Some td" for q td
    proof (cases "q = pk")
      case True
      then show ?thesis using that pk assms(3,4) by (auto simp: update_conv' entry_ok_def)
    next
      case False
      then show ?thesis using that typed_invD(2) [OF assms(1), of q td] by (simp add: update_conv' same)
    qed
  qed (use inv in \<open>simp_all add: distinct_update\<close>)
qed

lemma tc_get_inv:
  assumes "typed_inv d P (mem_data s) tc" "pk \<in> P"
  shows "typed_inv d P (mem_data s) (snd (tc_get in_memory_ops s pk d tc))"
proof -
  obtain res tc' where r: "read_typed in_memory_ops s pk d tc = (res, tc')" by fastforce
  note i = read_typed_inv [OF assms(1) r]
  show ?thesis
  proof (cases "map_of (tc_tracked tc') pk = None \<and> (\<exists>v. res = Inr v)")
    case True
    then obtain v where v: "res = Inr v" "map_of (tc_tracked tc') pk = None" by blast
    then have "v = typed_of d P (mem_data s) pk" using i(2,3) assms(2) by simp
    then show ?thesis using track_inv [OF i(1) v(2) assms(2) typed_of_typed] v r by (simp add: tc_get_def)
  next
    case False
    then show ?thesis using i(1) r by (auto simp: tc_get_def split: sum.splits)
  qed
qed

lemma ensure_tracked_inv:
  assumes "typed_inv d P (mem_data s) tc" "pk \<in> P" "ensure_tracked in_memory_ops s pk d tc = (res, tc')"
  shows "typed_inv d P (mem_data s) tc'" "res = Inr () \<Longrightarrow> \<exists>td. map_of (tc_tracked tc') pk = Some td"
proof -
  obtain r tc1 where r: "read_typed in_memory_ops s pk d tc = (r, tc1)" by fastforce
  note i = read_typed_inv [OF assms(1) r]
  have "typed_inv d P (mem_data s) tc' \<and> (res = Inr () \<longrightarrow> (\<exists>td. map_of (tc_tracked tc') pk = Some td))"
  proof (cases "map_of (tc_tracked tc) pk")
    case None
    show ?thesis
    proof (cases r)
      case (Inr v)
      then have "v = typed_of d P (mem_data s) pk" using i(3) assms(2) None by simp
      moreover have "map_of (tc_tracked tc1) pk = None" using i(2) None by simp
      ultimately show ?thesis using track_inv [OF i(1) _ assms(2), of None] assms(3) None r Inr
        by (auto simp: ensure_tracked_def well_typed_def update_conv')
    qed (use i assms(3) None r in \<open>auto simp: ensure_tracked_def\<close>)
  qed (use assms in \<open>auto simp: ensure_tracked_def\<close>)
  then show "typed_inv d P (mem_data s) tc'" "res = Inr () \<Longrightarrow> \<exists>td. map_of (tc_tracked tc') pk = Some td" by blast+
qed

text \<open>Staging a new value of a tracked datum.\<close>

lemma touch_inv:
  assumes inv: "typed_inv d P m tc" and td: "map_of (tc_tracked tc) pk = Some td" and typed: "well_typed d after"
    and ctx: "oc_cache ctx = oc_cache (tc_ctx tc)" "oc_index_updates ctx = oc_index_updates (tc_ctx tc)"
      "\<And>q. q \<noteq> pk \<Longrightarrow> map_of (oc_staged ctx) q = map_of (oc_staged (tc_ctx tc)) q"
    and after: "after = typed_of d P (seen ctx m) pk"
  shows "typed_inv d P m (touch pk after (tc\<lparr>tc_ctx := ctx\<rparr>))"
proof -
  let ?tc = "touch pk after (tc\<lparr>tc_ctx := ctx\<rparr>)"
  have tr: "map_of (tc_tracked ?tc) = (map_of (tc_tracked tc))(pk \<mapsto> td\<lparr>td_after := after, td_touched := True\<rparr>)"
    using td by (simp add: touch_def map_of_map_entry)
  have keys: "map fst (tc_tracked ?tc) = map fst (tc_tracked tc)"
  proof -
    have "map fst (AList.map_entry k f xs) = map fst xs" for k f and xs :: "(datum_id \<times> tracked_datum) list" by (induction xs) auto
    then show ?thesis by (simp add: touch_def)
  qed
  have ctx': "tc_ctx ?tc = ctx" by (simp add: touch_def)
  have seen: "seen ctx m q = seen (tc_ctx tc) m q" if "q \<noteq> pk" for q using ctx(3) [OF that] by (simp add: seen_def)
  show ?thesis
  proof (rule typed_invI)
    show "map_of (tc_tracked ?tc) q = None \<Longrightarrow> q \<in> P \<Longrightarrow> map_of (oc_staged (tc_ctx ?tc)) q = None" for q
      using typed_invD(1) [OF inv, of q] ctx(3) [of q] by (simp add: tr ctx' split: if_splits)
    show "entry_ok d P m ?tc q td'" if "map_of (tc_tracked ?tc) q = Some td'" for q td'
    proof (cases "q = pk")
      case True
      then have "td' = td\<lparr>td_after := after, td_touched := True\<rparr>" using that by (simp add: tr)
      then show ?thesis using True typed_invD(2) [OF inv td] typed after unfolding entry_ok_def ctx' by simp
    next
      case False
      then have "typed_of d P (seen ctx m) q = typed_of d P (seen (tc_ctx tc) m) q" using seen by (simp add: typed_of_def)
      then show ?thesis using that False typed_invD(2) [OF inv, of q td'] ctx(3) [OF False] by (simp add: tr ctx' entry_ok_def split: if_splits)
    qed
  qed (use inv ctx in \<open>simp_all add: typed_inv_def ctx' keys\<close>)
qed

lemma tc_set_inv:
  assumes inv: "typed_inv d P (mem_data s) tc" and pk: "pk \<in> P" and vs: "list_all wf_value vs"
  shows "typed_inv d P (mem_data s) (snd (tc_set from_name in_memory_ops s pk d vs tc))"
proof (cases "bindE (check_pk from_name pk d) (\<lambda>_. bindE (run_field_checks d vs) (\<lambda>_. encode_datum d vs))")
  case (Inr bs)
  then have bs: "encode_datum d vs = Inr bs" by (auto simp: bindE_def split: sum.splits)
  obtain r tc' where e: "ensure_tracked in_memory_ops s pk d tc = (r, tc')" by fastforce
  note i = ensure_tracked_inv [OF inv pk e]
  show ?thesis
  proof (cases r)
    case (Inr u)
    then obtain td where td: "map_of (tc_tracked tc') pk = Some td" using i(2) by auto
    have typed: "well_typed d (Some vs)" using bs by (simp add: well_typed_def encode_datum_ok)
    have "decode_datum d bs = Inr vs" by (rule decode_datum_encoded [OF bs vs])
    then have "Some vs = typed_of d P (seen (ctx_put_replicated pk bs (dt_replication_factor d) (tc_ctx tc')) (mem_data s)) pk"
      using pk by (simp add: typed_of_def)
    then have "typed_inv d P (mem_data s) (touch pk (Some vs) (tc'\<lparr>tc_ctx := ctx_put_replicated pk bs (dt_replication_factor d) (tc_ctx tc')\<rparr>))"
      by (intro touch_inv [OF i(1) td typed]) (simp_all add: ctx_put_replicated_def update_conv')
    then show ?thesis using \<open>bindE _ _ = Inr bs\<close> e Inr by (simp add: tc_set_def)
  qed (use i(1) \<open>bindE _ _ = Inr bs\<close> e in \<open>simp add: tc_set_def\<close>)
qed (use inv in \<open>simp add: tc_set_def\<close>)

lemma tc_delete_inv:
  assumes inv: "typed_inv d P (mem_data s) tc" and pk: "pk \<in> P"
  shows "typed_inv d P (mem_data s) (snd (tc_delete from_name in_memory_ops s pk d tc))"
proof (cases "check_pk from_name pk d")
  case (Inr u)
  obtain r tc' where e: "ensure_tracked in_memory_ops s pk d tc = (r, tc')" by fastforce
  note i = ensure_tracked_inv [OF inv pk e]
  show ?thesis
  proof (cases r)
    case r: (Inr u)
    then obtain td where td: "map_of (tc_tracked tc') pk = Some td" using i(2) by auto
    have "None = typed_of d P (seen (ctx_delete_replicated pk (dt_replication_factor d) (tc_ctx tc')) (mem_data s)) pk" by (simp add: typed_of_def)
    then have "typed_inv d P (mem_data s) (touch pk None (tc'\<lparr>tc_ctx := ctx_delete_replicated pk (dt_replication_factor d) (tc_ctx tc')\<rparr>))"
      by (intro touch_inv [OF i(1) td]) (simp_all add: ctx_delete_replicated_def update_conv' well_typed_def)
    then show ?thesis using e r Inr by (simp add: tc_delete_def)
  qed (use i(1) Inr e in \<open>simp add: tc_delete_def\<close>)
qed (use inv in \<open>simp add: tc_delete_def\<close>)

lemma typed_run_inv:
  "typed_inv d P (mem_data s) tc \<Longrightarrow> list_all (call_ok P) calls \<Longrightarrow> typed_inv d P (mem_data s) (typed_run from_name in_memory_ops s d calls tc)"
proof (induction calls arbitrary: tc)
  case (Cons c calls)
  then have "typed_inv d P (mem_data s) (typed_step from_name in_memory_ops s d c tc)"
    by (cases c) (simp_all add: tc_get_inv tc_set_inv tc_delete_inv)
  then show ?case using Cons.IH Cons.prems(2) by (simp add: typed_run_def)
qed (simp add: typed_run_def)

section \<open>Dropping after the calls\<close>

lemma each_keeps: "(\<And>x b b'. f x b = Inr b' \<Longrightarrow> h b' = h b) \<Longrightarrow> each f xs b = Inr b' \<Longrightarrow> h b' = h b"
  by (induction xs arbitrary: b) (auto simp: bindE_def split: sum.splits)

lemma schedule_staged [simp]:
  "oc_staged (schedule_index_update t k p ctx) = oc_staged ctx" "oc_staged (schedule_exists_check t e ctx) = oc_staged ctx"
  by (simp_all add: schedule_index_update_def schedule_exists_check_def)

lemma index_diff_staged: "index_diff from_name pk td index ctx = Inr ctx' \<Longrightarrow> oc_staged ctx' = oc_staged ctx"
  by (auto simp: index_diff_def sk_diff_def rk_diff_def sk_insert_def sk_remove_def bindE_def split: index_def.splits option.splits sum.splits if_splits)

lemma constraint_diff_staged: "constraint_diff from_name pk td vs c ctx = Inr ctx' \<Longrightarrow> oc_staged ctx' = oc_staged ctx"
  by (auto simp: constraint_diff_def bindE_def Let_def split: option.splits sum.splits if_splits)

lemma guard_diff_staged: "guard_diff from_name pk g ctx = Inr ctx' \<Longrightarrow> oc_staged ctx' = oc_staged ctx"
  by (auto simp: guard_diff_def split: sum.splits on_delete.splits)

lemma extent_diff_staged: "oc_staged (extent_diff from_name pk td ctx) = oc_staged ctx"
  by (simp add: extent_diff_def Let_def)

lemma each_staged:
  "each (index_diff from_name pk td) js ctx = Inr ctx' \<Longrightarrow> oc_staged ctx' = oc_staged ctx"
  "each (guard_diff from_name pk) gs ctx = Inr ctx' \<Longrightarrow> oc_staged ctx' = oc_staged ctx"
  "each (constraint_diff from_name pk td vs) cs ctx = Inr ctx' \<Longrightarrow> oc_staged ctx' = oc_staged ctx"
  by (erule each_keeps [rotated, of _ _ _ _ oc_staged], erule index_diff_staged guard_diff_staged constraint_diff_staged)+

lemma drop_one_staged: "drop_one from_name x ctx = Inr ctx' \<Longrightarrow> oc_staged ctx' = oc_staged ctx"
proof -
  assume ok: "drop_one from_name x ctx = Inr ctx'"
  obtain pk td where x: "x = (pk, td)" by (cases x)
  show ?thesis
  proof (cases "td_touched td")
    case True
    then obtain c1 where c1: "each (index_diff from_name pk td) (dt_indexes (td_def td)) ctx = Inr c1"
      using ok x by (auto simp: drop_one_def bindE_def split: sum.splits)
    let ?c = "extent_diff from_name pk td c1"
    have "oc_staged ?c = oc_staged ctx"
      using each_staged(1) [OF c1] by (simp add: extent_diff_staged)
    moreover have "oc_staged ctx' = oc_staged ?c"
    proof (cases "td_after td")
      case None
      then have "each (guard_diff from_name pk) (dt_guards (td_def td)) ?c = Inr ctx' \<or> ctx' = ?c"
        using ok x True c1 by (auto simp: drop_one_def Let_def split: if_splits)
      then show ?thesis using each_staged(2) by blast
    next
      case (Some vs)
      then have "each (constraint_diff from_name pk td vs) (dt_constraints (td_def td)) ?c = Inr ctx'"
        using ok x True c1 by (simp add: drop_one_def Let_def)
      then show ?thesis by (rule each_staged(3))
    qed
    ultimately show ?thesis by simp
  qed (use ok x in \<open>simp add: drop_one_def\<close>)
qed

lemma drop_typed_staged: "drop_typed from_name drained ctx = Inr ctx' \<Longrightarrow> oc_staged ctx' = oc_staged ctx"
  unfolding drop_typed_def by (rule each_keeps [of "drop_one from_name" oc_staged]) (rule drop_one_staged)

lemma written_current:
  assumes inv: "typed_inv d P m tc" and perm: "mset drained = mset (tc_tracked tc)"
  shows "written (typed_of d P m) drained = typed_of d P (seen (tc_ctx tc) m)"
proof
  fix pk
  have dist: "distinct (map fst (tc_tracked tc))" using inv by (simp add: typed_inv_def)
  have dist': "distinct (map fst drained)" using dist mset_eq_imp_distinct_iff [of "map fst drained" "map fst (tc_tracked tc)"] perm by simp
  have map: "map_of drained pk = map_of (tc_tracked tc) pk"
    using map_of_inject_set [OF dist' dist] mset_eq_setD [OF perm] by simp
  show "written (typed_of d P m) drained pk = typed_of d P (seen (tc_ctx tc) m) pk"
  proof (cases "map_of (tc_tracked tc) pk")
    case None
    then show ?thesis using typed_invD(1) [OF inv None] by (auto simp: written_at [OF dist'] map typed_of_def seen_def)
  next
    case (Some td)
    note e = typed_invD(2) [OF inv Some, unfolded entry_ok_def]
    show ?thesis
    proof (cases "td_touched td")
      case True
      then show ?thesis using e Some by (simp add: written_at [OF dist'] map)
    next
      case False
      then have "seen (tc_ctx tc) m pk = m pk" using e by (simp add: seen_def)
      then show ?thesis using False Some by (simp add: written_at [OF dist'] map typed_of_def)
    qed
  qed
qed

lemma tracked_entries:
  assumes inv: "typed_inv d P m tc" and perm: "mset drained = mset (tc_tracked tc)" and nf: "no_float_key d"
  shows "list_all (tracks from_name d (typed_of d P m)) drained" "distinct (map fst drained)"
    "\<forall>(pk, td)\<in>set drained. sized_values (td_def td) (td_before td) \<and> sized_values (td_def td) (td_after td)"
proof -
  have dist: "distinct (map fst (tc_tracked tc))" using inv by (simp add: typed_inv_def)
  then show "distinct (map fst drained)" using mset_eq_imp_distinct_iff [of "map fst drained" "map fst (tc_tracked tc)"] perm by simp
  have entry: "entry_ok d P m tc pk td" if "(pk, td) \<in> set drained" for pk td
  proof -
    have "(pk, td) \<in> set (tc_tracked tc)" using that mset_eq_setD [OF perm] by simp
    from typed_invD(2) [OF inv map_of_is_SomeI [OF dist this]] show ?thesis .
  qed
  then show "list_all (tracks from_name d (typed_of d P m)) drained"
    using no_float_visible [OF nf typed_of_typed [of d P m] typed_of_typed] typed_of_typed [of d P m] typed_of_typed no_float_visible [OF nf typed_of_typed [of d P m]]
    by (auto simp: list_all_iff tracks_def entry_ok_def)
  have "sized_values d vs" if "well_typed d vs" for vs
    using that by (auto simp: sized_values_def well_typed_def typed_values_def list_all2_conv_all_nth)
  then show "\<forall>(pk, td)\<in>set drained. sized_values (td_def td) (td_before td) \<and> sized_values (td_def td) (td_after td)"
    using entry typed_of_typed [of d P m] by (auto simp: entry_ok_def)
qed

lemma accessor_updates:
  assumes keys: "keys_apart from_name d" and names: "conflict_names_ok d" and nf: "no_float_key d"
    and inv: "typed_inv d P m tc" and perm: "mset drained = mset (tc_tracked tc)" and I: "exact_indexes from_name d (typed_of d P m) I"
  shows "\<exists>ctx. drop_typed from_name drained (tc_ctx tc) = Inr ctx \<and> seen ctx m = seen (tc_ctx tc) m \<and>
    (\<forall>I'. sk_run (oc_index_updates ctx) I = (None, I') \<longrightarrow> exact_indexes from_name d (typed_of d P (seen ctx m)) I') \<and>
    (no_unique (dt_indexes d) \<longrightarrow> fst (sk_run (oc_index_updates ctx) I) = None)"
proof -
  note t = tracked_entries [OF inv perm nf]
  obtain ctx where ctx: "drop_typed from_name drained (tc_ctx tc) = Inr ctx" "sk_part ctx = sk_part (tc_ctx tc) @ concat (map (drop_updates from_name) drained)"
    using drop_typed_ok [OF t(3)] by blast
  have "sk_part (tc_ctx tc) = []" using inv by (simp add: sk_part_def typed_inv_def)
  then have run: "sk_run (oc_index_updates ctx) I = sk_run (concat (map (drop_updates from_name) drained)) I"
    using ctx(2) sk_run_filter [of "oc_index_updates ctx" I] by (simp add: sk_part_def)
  have seen: "seen ctx m = seen (tc_ctx tc) m" using drop_typed_staged [OF ctx(1)] by (simp add: seen_def fun_eq_iff)
  note d = drained_run [OF keys names t(1,2) I, unfolded written_current [OF inv perm], folded run seen]
  show ?thesis
    by (intro exI [of _ ctx] conjI allI) (use ctx(1) seen d in blast)+
qed

section \<open>Unique fields\<close>

text \<open>The updates of a key: an insert of a unique index finds the list empty or holding the datum itself.\<close>

definition unique_update :: "datum_id \<Rightarrow> pending_index_update \<Rightarrow> bool" where
  "unique_update k u \<longleftrightarrow>
     (\<exists>q op. wf_sk_op op \<and> u = sk_update q op \<and> (q = k \<longrightarrow> (\<forall>pk. op \<noteq> SkInsert pk None)))"

lemma unique_step:
  assumes "unique_update k u" "length (I k) \<le> 1" "sk_step u I = (None, I')"
  shows "length (I' k) \<le> 1"
proof (cases "pu_target u = k")
  case False
  then show ?thesis using assms(2,3) by (auto simp: sk_step_def case_prod_beta)
next
  case True
  obtain op where op: "wf_sk_op op" "u = sk_update k op" "\<forall>pk. op \<noteq> SkInsert pk None" using assms(1) True by (auto simp: unique_update_def sk_update_def)
  have I': "I' = I(k := snd (sk_change op (I k)))" "ao_violation (fst (sk_change op (I k))) = None"
    using assms(3) op(2) by (auto simp: sk_step_def sk_update_def sk_apply_def decode_encode_sk_op [OF op(1)] case_prod_beta)
  show ?thesis
  proof (cases op)
    case (SkRemove pk)
    then show ?thesis using I' assms(2) by (simp add: sk_change_def Let_def le_trans [OF length_filter_le])
  next
    case (SkInsert pk c)
    then obtain name where c: "c = Some name" using op(3) by (cases c) auto
    have none: "\<not> list_ex (\<lambda>(i, _). i \<noteq> pk) (I k)" using I'(2) by (auto simp: SkInsert c sk_change_def rejected_def Let_def split: if_splits)
    then have "\<not> list_ex (\<lambda>(i, _). i = pk) (I k) \<Longrightarrow> I k = []" by (cases "I k") auto
    then show ?thesis using I'(1) assms(2) none by (auto simp: SkInsert c sk_change_def Let_def)
  qed
qed

lemma unique_run: "list_all (unique_update k) us \<Longrightarrow> length (I k) \<le> 1 \<Longrightarrow> sk_run us I = (None, I') \<Longrightarrow> length (I' k) \<le> 1"
proof (induction us arbitrary: I)
  case (Cons u us)
  have "is_sk u" using Cons.prems(1) by (auto simp: unique_update_def is_sk_def sk_update_def)
  then obtain I1 where "sk_step u I = (None, I1)" "sk_run us I1 = (None, I')"
    using Cons.prems(3) by (auto simp: case_prod_beta Let_def prod_eq_iff split: if_splits)
  then show ?case using unique_step [of k u I I1] Cons.IH Cons.prems by simp
qed simp

definition unique_field :: "datum_type_def \<Rightarrow> rstring \<Rightarrow> bool" where
  "unique_field d f \<longleftrightarrow> f \<in> sk_fields (dt_indexes d) \<and> SkIndex f None \<notin> set (dt_indexes d)"

lemma unique_td_updates:
  assumes keys: "keys_apart from_name d" and names: "conflict_names_ok d" and f: "unique_field d f" "is_key from_name d f i v k"
    and td: "td_def td = d" "well_typed d (td_after td)" and x: "x \<in> set (dt_indexes d)"
  shows "list_all (unique_update k) (td_updates from_name pk td x)"
proof (cases "\<exists>g u j. x = SkIndex g u \<and> field_position d g = Some j")
  case True
  then obtain g u j where g: "x = SkIndex g u" "field_position d g = Some j" by blast
  have rem: "unique_update k (sk_update q (SkRemove pk))" for q unfolding unique_update_def by (intro exI [of _ q] exI [of _ "SkRemove pk"]) simp
  have ins: "unique_update k (sk_update q (SkInsert pk (map_option conflict_name u)))" if "q \<in> set (key_list from_name d g (value_at j (td_after td)))" for q
  proof -
    have "u \<noteq> None" if qk: "q = k"
    proof -
      obtain w where "is_key from_name d g j w k" using \<open>q \<in> _\<close> qk key_list_is_key [OF td(2) g(2), of k from_name] by auto
      moreover have "g \<in> sk_fields (dt_indexes d)" using x g(1) by (auto simp: sk_fields_def)
      ultimately have "g = f" using keys f unfolding keys_apart_def unique_field_def by blast
      then show ?thesis using f(1) x g(1) by (cases u) (auto simp: unique_field_def)
    qed
    moreover have "wf_sk_op (SkInsert pk (map_option conflict_name u))" using conflict_name_wf [OF names] x g(1) by blast
    ultimately show ?thesis unfolding unique_update_def by (intro exI [of _ q] exI [of _ "SkInsert pk (map_option conflict_name u)"]) auto
  qed
  show ?thesis using rem ins td(1) g by (auto simp: td_updates_def change_updates_def list_all_iff)
qed (use td in \<open>auto simp: td_updates_def split: index_def.splits option.splits\<close>)

lemma unique_drop_updates:
  assumes "keys_apart from_name d" "conflict_names_ok d" "unique_field d f" "is_key from_name d f i v k" "tracks from_name d D (pk, td)"
  shows "list_all (unique_update k) (drop_updates from_name (pk, td))"
  using unique_td_updates [OF assms(1-4), of td] assms(5) by (auto simp: drop_updates_def tracks_def list_all_iff)

lemma accessor_unique:
  assumes keys: "keys_apart from_name d" and names: "conflict_names_ok d" and nf: "no_float_key d"
    and inv: "typed_inv d P m tc" and perm: "mset drained = mset (tc_tracked tc)" and I: "exact_indexes from_name d (typed_of d P m) I"
    and drop: "drop_typed from_name drained (tc_ctx tc) = Inr ctx" and run: "sk_run (oc_index_updates ctx) I = (None, I')"
    and f: "unique_field d f" "is_key from_name d f i v k" and one: "length (I k) \<le> 1"
  shows "length (I' k) \<le> 1"
proof -
  note t = tracked_entries [OF inv perm nf]
  have "sk_part ctx = sk_part (tc_ctx tc) @ concat (map (drop_updates from_name) drained)" using drop_typed_ok [OF t(3), of from_name "tc_ctx tc"] drop by auto
  moreover have "sk_part (tc_ctx tc) = []" using inv by (simp add: sk_part_def typed_inv_def)
  ultimately have "sk_run (concat (map (drop_updates from_name) drained)) I = (None, I')"
    using run sk_run_filter [of "oc_index_updates ctx" I] by (simp add: sk_part_def)
  moreover have "list_all (unique_update k) (concat (map (drop_updates from_name) drained))"
    using unique_drop_updates [OF keys names f] t(1) by (force simp: list_all_iff)
  ultimately show ?thesis using unique_run one by blast
qed

section \<open>Properties\<close>





text \<open>
  A change of the sign of a zero is not indexed. The keys of 0.0 and of -0.0 differ, but the values
  compare equal: an operation that writes one for the other in an indexed field schedules no update
  of the index, which goes on listing the datum under the old key.
\<close>

theorem zero_sign_changes_are_not_indexed:
  assumes "td = \<lparr>td_def = d, td_before = Some vs, td_after = Some ws, td_touched = True\<rparr>"
    and "dt_indexes d = [SkIndex f u]" and "field_position d f = Some i" and "snd (dt_fields d ! i) = TF64"
    and "length vs = length (dt_fields d)" and "length ws = length (dt_fields d)" and "vs ! i = VF64 0" and "ws ! i = VF64 0x8000000000000000"
    and "D pk = Some vs" and "exact_indexes from_name d D I"
  shows "\<exists>ctx. drop_typed from_name [(pk, td)] (ctx_new c) = Inr ctx \<and> sk_run (oc_index_updates ctx) I = (None, I) \<and>
    \<not> exact_indexes from_name d (D(pk := Some ws)) I"
proof -
  have sized: "sized_values d (Some vs)" "sized_values d (Some ws)" using assms(5,6) by (simp_all add: sized_values_def)
  obtain ctx where ctx: "drop_typed from_name [(pk, td)] (ctx_new c) = Inr ctx" "sk_part ctx = sk_part (ctx_new c) @ drop_updates from_name (pk, td)"
    using drop_typed_ok [of "[(pk, td)]" from_name "ctx_new c"] sized assms(1) by auto
  have "value_eq (VF64 0) (VF64 0x8000000000000000)" by code_simp
  then have "drop_updates from_name (pk, td) = []"
    using assms(1-3,7,8) by (simp add: drop_updates_def td_updates_def change_updates_def value_at_def opt_value_eq_def)
  then have "filter is_sk (oc_index_updates ctx) = []" using ctx(2) by (simp add: sk_part_def ctx_new_def)
  then have run: "sk_run (oc_index_updates ctx) I = (None, I)" using sk_run_filter [of "oc_index_updates ctx" I] by simp
  obtain k where k: "is_key from_name d f i (VF64 0) k" using assms(3,4) by (auto simp: is_key_def sk_key_def)
  have f: "f \<in> sk_fields (dt_indexes d)" using assms(2) by (simp add: sk_fields_def)
  have held: "fst ` set (I k) = holders E i (VF64 0)" if E: "exact_indexes from_name d E I" for E
  proof -
    obtain A where "lists_all I A" "exact_field from_name d E A f" using E f by (auto simp: exact_indexes_def)
    then have "listed (I k) (holders E i (VF64 0))" using k by (simp add: lists_all_def exact_field_def) metis
    then show ?thesis by (rule listed_pks)
  qed
  have "pk \<in> holders D i (VF64 0)" "pk \<notin> holders (D(pk := Some ws)) i (VF64 0)"
    using assms(7-9) by (simp_all add: holders_def value_at_def)
  then have "\<not> exact_indexes from_name d (D(pk := Some ws)) I" using held [OF assms(10)] held [of "D(pk := Some ws)"] by blast
  then show ?thesis using ctx(1) run by blast
qed

theorem zero_sign_changes_are_not_indexed_witness:
  "\<exists>ctx. drop_typed (\<lambda>_ name. DatumId (ucast (u64_from_le (drop (length name - 8) name))))
     [(DatumId 3,
       \<lparr>td_def = \<lparr>dt_name = lit ''t'', dt_version = 1, dt_pk = PkUuid, dt_fields = [(lit ''x'', TF64)],
          dt_indexes = [SkIndex (lit ''x'') None], dt_constraints = [],
          dt_guards = [], dt_checks = [], dt_track_extent = False, dt_rescan_every_millis = None, dt_replication_factor = 1\<rparr>,
        td_before = Some [VF64 0], td_after = Some [VF64 0x8000000000000000], td_touched = True\<rparr>)] (ctx_new cache_new) = Inr ctx \<and>
     sk_run (oc_index_updates ctx) (\<lambda>k. if k = DatumId 0 then [(DatumId 3, Native)] else []) = (None, \<lambda>k. if k = DatumId 0 then [(DatumId 3, Native)] else [])"
proof -
  let ?n = "\<lambda>_ name. DatumId (ucast (u64_from_le (drop (length name - 8) name))) :: datum_id"
  let ?d = "\<lparr>dt_name = lit ''t'', dt_version = 1, dt_pk = PkUuid, dt_fields = [(lit ''x'', TF64)],
          dt_indexes = [SkIndex (lit ''x'') None], dt_constraints = [],
          dt_guards = [], dt_checks = [], dt_track_extent = False, dt_rescan_every_millis = None, dt_replication_factor = 1\<rparr> :: datum_type_def"
  let ?I = "\<lambda>k. if k = DatumId 0 then [(DatumId 3, Native)] else []"
  let ?D = "\<lambda>pk. if pk = DatumId 3 then Some [VF64 0] else None"
  have zero: "(ucast w :: 128 word) = 0 \<longleftrightarrow> w = 0" for w :: u64
  proof -
    have "(ucast (ucast w :: 128 word) :: u64) = w" by (rule bit_word_eqI) (simp add: bit_simps)
    then show ?thesis by (metis unsigned_0)
  qed
  have "exact_indexes ?n ?d ?D ?I"
    unfolding exact_indexes_def
    by (intro exI [of _ "\<lambda>k. if k = DatumId 0 then {DatumId 3} else {}"])
      (auto simp: lists_all_def listed_def exact_field_def holders_def value_at_def sk_fields_def is_key_def field_position_def sk_key_def zero
        split: field_value.splits)
  then show ?thesis
    using zero_sign_changes_are_not_indexed [of _ ?d "[VF64 0]" "[VF64 0x8000000000000000]" "lit ''x''" None 0 ?D "DatumId 3" ?n ?I cache_new, OF refl]
    by (simp add: field_position_def) blast
qed
end
