(* ===== verification/Worker.thy ===== *)
theory Worker
  imports Op_Context Native_Lock Ring Wire_Request Wire_Response Index_Kind
begin

text \<open>
  The message loop of an owning thread, \<open>seisin-node/src/worker.rs\<close>: it answers for the locks of the
  datums it is native home of, drives the operations assigned to it through acquiring, running and
  updating indexes, and keeps the resident indexes. A message is handled to its end before the next
  one; what a handler sends is the list of effects it leaves. The ring, the links to other nodes, the
  registered operations and index kinds are arguments, so a message may find a ring that an earlier
  one did not. The hash maps of operations and locks are association lists in the order in which the
  code iterates over them.
\<close>

section \<open>Messages\<close>

text \<open>An inbox is the thread it belongs to, a reply channel and a peer link are numbers.\<close>

type_synonym reply_channel = nat
type_synonym peer_link = nat

datatype acquire_reply = AcquireLocal thread_id | AcquireRemote peer_link u64
datatype recall_reply = RecallLocal thread_id | RecallRemote peer_link u64
datatype index_update_reply = UpdateLocal thread_id | UpdateRemote peer_link u64
datatype exists_reply = ExistsLocal thread_id | ExistsRemote peer_link u64 | ExistsSync reply_channel

datatype worker_message =
  RunOp datum_id rstring "datum_id list" bytes reply_channel
| WAcquire datum_id datum_id node_id thread_id acquire_reply
| AcquireGranted datum_id datum_id
| AcquireFailed datum_id datum_id u32
| WRecall datum_id recall_reply
| WRelease datum_id
| EvictNonNative "datum_id \<Rightarrow> bool"
| ReleaseLocksHeldBy node_id
| WIndexUpdate datum_id datum_id rstring bytes index_update_reply
| IndexUpdateReplied datum_id datum_id "rstring option"
| IndexQuery datum_id rstring bytes reply_channel
| IndexExecute datum_id rstring bytes reply_channel
| WExistsCheck datum_id datum_id exists_reply
| ExistsCheckReplied datum_id datum_id bool

text \<open>What a link does with the answer to a call, and what a thread sends.\<close>

datatype callback =
  OnAcquire datum_id datum_id u32
| OnRecall datum_id
| OnIndexUpdate datum_id datum_id
| OnExists datum_id datum_id
| OnRelease

datatype effect =
  Post thread_id worker_message
| Call node_id thread_id request callback
| Respond peer_link u64 response
| Reply reply_channel "rstring + bytes"
| ReplyExists reply_channel bool

section \<open>State\<close>

record index_update_state =
  st_staged_writes :: "staged_write list"
  st_op_result :: bytes
  st_pending :: nat
  st_violation :: "rstring option"
  st_exists_expectations :: "datum_id \<rightharpoonup> expectation"

record op_record =
  or_op_name :: rstring
  or_payload :: bytes
  or_datum_ids :: "datum_id list"
  or_still_needed :: "datum_id list"
  or_acquired :: "datum_id list"
  or_reply :: reply_channel
  or_index_update_state :: "index_update_state option"

text \<open>The callback of a waiter: the grant of a datum to an operation, and where it goes.\<close>

type_synonym grant = "acquire_reply \<times> datum_id \<times> datum_id"

record ('s, 'r) worker =
  wk_cache :: cache
  wk_store :: 's
  wk_locks :: "(datum_id \<times> grant native_lock) list"
  wk_ops :: "(datum_id \<times> op_record) list"
  wk_resident :: "datum_id \<rightharpoonup> 'r"
  wk_out :: "effect list"

text \<open>An index kind builds a resident structure of some type and works on it.\<close>

record 'r index_kind =
  ik_open :: "datum_id \<Rightarrow> bytes option \<Rightarrow> rstring + 'r"

record 'r resident_ops =
  ro_apply :: "bytes \<Rightarrow> 'r \<Rightarrow> apply_outcome \<times> 'r"
  ro_query :: "bytes \<Rightarrow> 'r \<Rightarrow> rstring + bytes"
  ro_execute :: "bytes \<Rightarrow> 'r \<Rightarrow> (rstring + bytes) \<times> 'r"

record ('s, 'r) worker_env =
  we_node :: node_id
  we_thread :: thread_id
  we_peers :: nat
  we_ring :: ring
  we_linked :: "node_id \<Rightarrow> bool"
  we_store :: "'s store_ops"
  we_ops :: "'s op_registry"
  we_kinds :: "rstring \<rightharpoonup> 'r index_kind"
  we_resident :: "'r resident_ops"

definition MAX_ACQUIRE_RETRIES :: u32 where "MAX_ACQUIRE_RETRIES = 3"

definition worker_start :: "'s \<Rightarrow> ('s, 'r) worker" where
  "worker_start s = \<lparr>wk_cache = cache_new, wk_store = s, wk_locks = [], wk_ops = [], wk_resident = Map.empty, wk_out = []\<rparr>"

section \<open>Sending\<close>

definition emit :: "effect \<Rightarrow> ('s, 'r) worker \<Rightarrow> ('s, 'r) worker" where
  "emit e w = w\<lparr>wk_out := wk_out w @ [e]\<rparr>"

text \<open>\<open>peers[thread].send(message)\<close>\<close>

definition post_peer :: "('s, 'r) worker_env \<Rightarrow> thread_id \<Rightarrow> worker_message \<Rightarrow> ('s, 'r) worker \<Rightarrow> ('s, 'r) worker result" where
  "post_peer env t m w =
     (if unat (thread_raw t) < we_peers env then Inr (emit (Post t m) w)
      else Inl (Panic ''index out of bounds: the len is {} but the index is {}'' [we_peers env, unat (thread_raw t)]))"

definition native_home :: "('s, 'r) worker_env \<Rightarrow> datum_id \<Rightarrow> slot result" where
  "native_home env i = (case native (we_ring env) i of None \<Rightarrow> Inl (Panic ''the ring has no slots'' []) | Some slot \<Rightarrow> Inr slot)"

definition grant :: "grant \<Rightarrow> ('s, 'r) worker \<Rightarrow> ('s, 'r) worker" where
  "grant g w =
     (case g of (reply, op_id, datum_id) \<Rightarrow>
        case reply of
          AcquireLocal inbox \<Rightarrow> emit (Post inbox (AcquireGranted op_id datum_id)) w
        | AcquireRemote link cid \<Rightarrow> emit (Respond link cid Granted) w)"

definition ack :: "recall_reply \<Rightarrow> datum_id \<Rightarrow> ('s, 'r) worker \<Rightarrow> ('s, 'r) worker" where
  "ack reply datum_id w =
     (case reply of
        RecallLocal inbox \<Rightarrow> emit (Post inbox (WRelease datum_id)) w
      | RecallRemote link cid \<Rightarrow> emit (Respond link cid Released) w)"

definition respond_update :: "index_update_reply \<Rightarrow> datum_id \<Rightarrow> datum_id \<Rightarrow> rstring option \<Rightarrow> ('s, 'r) worker \<Rightarrow> ('s, 'r) worker" where
  "respond_update reply op_id target violation w =
     (case reply of
        UpdateLocal inbox \<Rightarrow> emit (Post inbox (IndexUpdateReplied op_id target violation)) w
      | UpdateRemote link cid \<Rightarrow> emit (Respond link cid (IndexUpdateResult violation)) w)"

definition respond_exists :: "exists_reply \<Rightarrow> datum_id \<Rightarrow> datum_id \<Rightarrow> bool \<Rightarrow> ('s, 'r) worker \<Rightarrow> ('s, 'r) worker" where
  "respond_exists reply op_id target exists w =
     (case reply of
        ExistsLocal inbox \<Rightarrow> emit (Post inbox (ExistsCheckReplied op_id target exists)) w
      | ExistsRemote link cid \<Rightarrow> emit (Respond link cid (Exists exists)) w
      | ExistsSync tx \<Rightarrow> emit (ReplyExists tx exists) w)"

definition send_acquire :: "('s, 'r) worker_env \<Rightarrow> datum_id \<Rightarrow> u32 \<Rightarrow> datum_id \<Rightarrow> ('s, 'r) worker \<Rightarrow> ('s, 'r) worker result" where
  "send_acquire env op_id retries_left datum_id w =
     bindE (native_home env datum_id) (\<lambda>(native_node, native_thread).
       if native_node = we_node env
       then post_peer env native_thread (WAcquire op_id datum_id (we_node env) (we_thread env) (AcquireLocal (we_thread env))) w
       else if we_linked env native_node
       then Inr (emit (Call native_node native_thread (Acquire op_id datum_id (we_node env) (we_thread env)) (OnAcquire op_id datum_id retries_left)) w)
       else Inr (emit (Post (we_thread env) (AcquireFailed op_id datum_id retries_left)) w))"

definition dispatch_exists_check :: "('s, 'r) worker_env \<Rightarrow> datum_id \<Rightarrow> datum_id \<Rightarrow> ('s, 'r) worker \<Rightarrow> ('s, 'r) worker result" where
  "dispatch_exists_check env op_id target w =
     bindE (native_home env target) (\<lambda>(native_node, native_thread).
       if native_node = we_node env
       then post_peer env native_thread (WExistsCheck target op_id (ExistsLocal (we_thread env))) w
       else if we_linked env native_node
       then Inr (emit (Call native_node native_thread (ExistsCheck target) (OnExists op_id target)) w)
       else Inr (emit (Post (we_thread env) (ExistsCheckReplied op_id target False)) w))"

definition dispatch_index_update ::
    "('s, 'r) worker_env \<Rightarrow> datum_id \<Rightarrow> datum_id \<Rightarrow> rstring \<Rightarrow> bytes \<Rightarrow> ('s, 'r) worker \<Rightarrow> ('s, 'r) worker result" where
  "dispatch_index_update env op_id target index_kind payload w =
     bindE (native_home env target) (\<lambda>(native_node, native_thread).
       if native_node = we_node env
       then post_peer env native_thread (WIndexUpdate target op_id index_kind payload (UpdateLocal (we_thread env))) w
       else if we_linked env native_node
       then Inr (emit (Call native_node native_thread (IndexUpdate target op_id index_kind payload) (OnIndexUpdate op_id target)) w)
       else Inr (emit (Post (we_thread env) (IndexUpdateReplied op_id target
              (Some (lit ''no peer-link connection to node '' @ debug_node_id native_node)))) w))"

text \<open>The callbacks of the calls, run with the answer, or with an error when the link fails; \<open>inbox\<close> is the caller's.\<close>

definition on_response :: "(response \<Rightarrow> rstring) \<Rightarrow> thread_id \<Rightarrow> callback \<Rightarrow> response \<Rightarrow> effect list" where
  "on_response debug inbox cb response =
     (case cb of
        OnAcquire op_id datum_id retries_left \<Rightarrow>
          if response = Granted then [Post inbox (AcquireGranted op_id datum_id)]
          else [Post inbox (AcquireFailed op_id datum_id retries_left)]
      | OnRecall datum_id \<Rightarrow> [Post inbox (WRelease datum_id)]
      | OnIndexUpdate op_id target \<Rightarrow>
          [Post inbox (IndexUpdateReplied op_id target
             (case response of
                IndexUpdateResult violation \<Rightarrow> violation
              | other \<Rightarrow> Some (lit ''unexpected response applying index update to '' @ debug_datum_id target @ lit '': '' @ debug other)))]
      | OnExists op_id target \<Rightarrow> [Post inbox (ExistsCheckReplied op_id target (response = Exists True))]
      | OnRelease \<Rightarrow> [])"

section \<open>Operations\<close>

definition set_op :: "datum_id \<Rightarrow> op_record \<Rightarrow> ('s, 'r) worker \<Rightarrow> ('s, 'r) worker" where
  "set_op op_id record w = w\<lparr>wk_ops := AList.update op_id record (wk_ops w)\<rparr>"

definition remove_op :: "datum_id \<Rightarrow> ('s, 'r) worker \<Rightarrow> ('s, 'r) worker" where
  "remove_op op_id w = w\<lparr>wk_ops := AList.delete op_id (wk_ops w)\<rparr>"

definition release_one :: "('s, 'r) worker_env \<Rightarrow> datum_id \<Rightarrow> ('s, 'r) worker \<Rightarrow> ('s, 'r) worker result" where
  "release_one env datum_id w =
     (let w = w\<lparr>wk_cache := cache_invalidate (wk_cache w) datum_id\<rparr> in
      bindE (native_home env datum_id) (\<lambda>(native_node, thread).
        if native_node = we_node env then post_peer env thread (WRelease datum_id) w
        else if we_linked env native_node then Inr (emit (Call native_node thread (Release datum_id) OnRelease) w)
        else Inr w))"

text \<open>\<open>for x in xs { f(x) }\<close>, where \<open>f\<close> may panic.\<close>

fun for_all :: "('a \<Rightarrow> 'b \<Rightarrow> 'b result) \<Rightarrow> 'a list \<Rightarrow> 'b \<Rightarrow> 'b result" where
  "for_all f [] b = Inr b"
| "for_all f (x # xs) b = bindE (f x b) (for_all f xs)"

definition release_datums :: "('s, 'r) worker_env \<Rightarrow> datum_id list \<Rightarrow> ('s, 'r) worker \<Rightarrow> ('s, 'r) worker result" where
  "release_datums env datum_ids w = for_all (release_one env) datum_ids w"

definition fail_op :: "('s, 'r) worker_env \<Rightarrow> datum_id \<Rightarrow> rstring \<Rightarrow> ('s, 'r) worker \<Rightarrow> ('s, 'r) worker result" where
  "fail_op env op_id message w =
     (case map_of (wk_ops w) op_id of
        None \<Rightarrow> Inr w
      | Some record \<Rightarrow> release_datums env (or_acquired record) (emit (Reply (or_reply record) (Inl message)) (remove_op op_id w)))"

text \<open>\<open>for (id, content, n) in staged_writes\<close>\<close>

definition commit_write :: "'s store_ops \<Rightarrow> staged_write \<Rightarrow> cache \<times> 's \<Rightarrow> cache \<times> 's" where
  "commit_write ops = (\<lambda>(i, content, n) (c, s).
     case content of Some bs \<Rightarrow> cache_put_replicated ops c s i bs n | None \<Rightarrow> cache_delete_replicated ops c s i n)"

definition commit :: "'s store_ops \<Rightarrow> staged_write list \<Rightarrow> ('s, 'r) worker \<Rightarrow> ('s, 'r) worker" where
  "commit ops staged w =
     (let (c, s) = fold (commit_write ops) staged (wk_cache w, wk_store w) in w\<lparr>wk_cache := c, wk_store := s\<rparr>)"

text \<open>The update phase of an operation that scheduled updates or checks.\<close>

definition start_updates ::
    "('s, 'r) worker_env \<Rightarrow> datum_id \<Rightarrow> op_record \<Rightarrow> staged_write list \<Rightarrow> bytes \<Rightarrow> pending_index_update list \<Rightarrow> pending_exists_check list \<Rightarrow>
      ('s, 'r) worker \<Rightarrow> ('s, 'r) worker result" where
  "start_updates env op_id record staged op_result updates checks w =
     (let state = \<lparr>st_staged_writes = staged, st_op_result = op_result, st_pending = length updates + length checks, st_violation = None,
            st_exists_expectations = fold (\<lambda>check m. m(pc_target check \<mapsto> pc_expect check)) checks Map.empty\<rparr>
      in bindE (for_all (\<lambda>u. dispatch_index_update env op_id (pu_target u) (pu_index_kind u) (pu_payload u)) updates
                 (set_op op_id (record\<lparr>or_index_update_state := Some state\<rparr>) w))
           (for_all (\<lambda>check. dispatch_exists_check env op_id (pc_target check)) checks))"

definition try_run_if_ready :: "('s, 'r) worker_env \<Rightarrow> datum_id \<Rightarrow> ('s, 'r) worker \<Rightarrow> ('s, 'r) worker result" where
  "try_run_if_ready env op_id w =
     (case map_of (wk_ops w) op_id of
        None \<Rightarrow> Inr w
      | Some record \<Rightarrow>
          if or_still_needed record = [] \<and> or_index_update_state record = None then
            let (outcome, ctx) = invoke (we_ops env) (wk_store w) (or_op_name record) (ctx_new (wk_cache w)) (or_datum_ids record) (or_payload record);
                (staged, ctx) = take_staged_writes ctx;
                (updates, ctx) = take_pending_index_updates ctx;
                (checks, ctx) = take_pending_exists_checks ctx;
                w = w\<lparr>wk_cache := oc_cache ctx\<rparr>
            in case outcome of
                 Inl message \<Rightarrow> release_datums env (or_acquired record) (emit (Reply (or_reply record) (Inl message)) (remove_op op_id w))
               | Inr op_result \<Rightarrow>
                   if updates = [] \<and> checks = []
                   then release_datums env (or_acquired record)
                          (emit (Reply (or_reply record) (Inr op_result)) (remove_op op_id (commit (we_store env) staged w)))
                   else start_updates env op_id record staged op_result updates checks w
          else Inr w)"

definition finish_op_if_settled :: "('s, 'r) worker_env \<Rightarrow> datum_id \<Rightarrow> ('s, 'r) worker \<Rightarrow> ('s, 'r) worker result" where
  "finish_op_if_settled env op_id w =
     (case map_of (wk_ops w) op_id of
        None \<Rightarrow> Inr w
      | Some record \<Rightarrow>
          (case or_index_update_state record of
             None \<Rightarrow> Inr w
           | Some state \<Rightarrow>
               if st_pending state = 0 then
                 let w = remove_op op_id w;
                     w = (case st_violation state of
                            Some message \<Rightarrow> emit (Reply (or_reply record) (Inl message)) w
                          | None \<Rightarrow> emit (Reply (or_reply record) (Inr (st_op_result state))) (commit (we_store env) (st_staged_writes state) w))
                 in release_datums env (or_acquired record) w
               else Inr w))"

section \<open>Handlers\<close>

definition handle_run_op ::
    "('s, 'r) worker_env \<Rightarrow> datum_id \<Rightarrow> rstring \<Rightarrow> datum_id list \<Rightarrow> bytes \<Rightarrow> reply_channel \<Rightarrow> ('s, 'r) worker \<Rightarrow> ('s, 'r) worker result" where
  "handle_run_op env op_id op_name datum_ids payload reply w =
     bindE (for_all (send_acquire env op_id MAX_ACQUIRE_RETRIES) datum_ids
        (set_op op_id \<lparr>or_op_name = op_name, or_payload = payload, or_datum_ids = datum_ids, or_still_needed = datum_ids, or_acquired = [],
           or_reply = reply, or_index_update_state = None\<rparr> w))
       (try_run_if_ready env op_id)"

definition set_lock :: "datum_id \<Rightarrow> grant native_lock \<Rightarrow> ('s, 'r) worker \<Rightarrow> ('s, 'r) worker" where
  "set_lock datum_id l w = w\<lparr>wk_locks := AList.update datum_id l (wk_locks w)\<rparr>"

definition fire :: "grant waiter list \<Rightarrow> ('s, 'r) worker \<Rightarrow> ('s, 'r) worker" where
  "fire fired w = fold (\<lambda>v. grant (w_on_granted v)) fired w"

definition handle_acquire ::
    "('s, 'r) worker_env \<Rightarrow> datum_id \<Rightarrow> datum_id \<Rightarrow> node_id \<Rightarrow> thread_id \<Rightarrow> acquire_reply \<Rightarrow> ('s, 'r) worker \<Rightarrow> ('s, 'r) worker result" where
  "handle_acquire env op_id datum_id requester_node requester_thread reply w =
     (let l = (case map_of (wk_locks w) datum_id of Some l \<Rightarrow> l | None \<Rightarrow> lock_new);
          (outcome, fired, l) = request l op_id requester_node requester_thread (reply, op_id, datum_id);
          w = fire fired (set_lock datum_id l w)
      in case outcome of
           RecallNeeded holder \<Rightarrow>
             if h_node_id holder = we_node env
             then post_peer env (h_thread_id holder) (WRecall datum_id (RecallLocal (we_thread env))) w
             else if we_linked env (h_node_id holder)
             then Inr (emit (Call (h_node_id holder) (h_thread_id holder) (Recall datum_id) (OnRecall datum_id)) w)
             else Inr (emit (Post (we_thread env) (WRelease datum_id)) w)
         | _ \<Rightarrow> Inr w)"

definition handle_acquire_granted :: "('s, 'r) worker_env \<Rightarrow> datum_id \<Rightarrow> datum_id \<Rightarrow> ('s, 'r) worker \<Rightarrow> ('s, 'r) worker result" where
  "handle_acquire_granted env op_id datum_id w =
     (case map_of (wk_ops w) op_id of
        None \<Rightarrow> release_datums env [datum_id] w
      | Some record \<Rightarrow>
          try_run_if_ready env op_id
            (set_op op_id (record\<lparr>or_still_needed := filter (\<lambda>i. i \<noteq> datum_id) (or_still_needed record), or_acquired := or_acquired record @ [datum_id]\<rparr>) w))"

definition handle_acquire_failed :: "('s, 'r) worker_env \<Rightarrow> datum_id \<Rightarrow> datum_id \<Rightarrow> u32 \<Rightarrow> ('s, 'r) worker \<Rightarrow> ('s, 'r) worker result" where
  "handle_acquire_failed env op_id datum_id retries_left w =
     (if 0 < retries_left then send_acquire env op_id (retries_left - 1) datum_id w
      else fail_op env op_id
        (lit ''failed to acquire datum '' @ debug_datum_id datum_id @ lit '' after '' @ dec (unat MAX_ACQUIRE_RETRIES) @ lit '' retries'') w)"

text \<open>The first operation, in the order of the map, that has acquired the datum is wounded.\<close>

fun wound :: "datum_id \<Rightarrow> (datum_id \<times> op_record) list \<Rightarrow> datum_id option \<times> (datum_id \<times> op_record) list" where
  "wound datum_id [] = (None, [])"
| "wound datum_id ((op_id, record) # rest) =
     (if datum_id \<in> set (or_acquired record)
      then (Some op_id, (op_id, record\<lparr>or_acquired := remove1 datum_id (or_acquired record), or_still_needed := or_still_needed record @ [datum_id]\<rparr>) # rest)
      else map_prod (\<lambda>x. x) ((#) (op_id, record)) (wound datum_id rest))"

definition handle_recall :: "('s, 'r) worker_env \<Rightarrow> datum_id \<Rightarrow> recall_reply \<Rightarrow> ('s, 'r) worker \<Rightarrow> ('s, 'r) worker result" where
  "handle_recall env datum_id reply w =
     (let (wounded_op_id, records) = wound datum_id (wk_ops w);
          w = ack reply datum_id (w\<lparr>wk_cache := cache_invalidate (wk_cache w) datum_id, wk_ops := records\<rparr>)
      in case wounded_op_id of
           None \<Rightarrow> Inr w
         | Some op_id \<Rightarrow> send_acquire env op_id MAX_ACQUIRE_RETRIES datum_id w)"

definition handle_release :: "datum_id \<Rightarrow> ('s, 'r) worker \<Rightarrow> ('s, 'r) worker" where
  "handle_release datum_id w =
     (let w = w\<lparr>wk_cache := cache_invalidate (wk_cache w) datum_id\<rparr> in
      case map_of (wk_locks w) datum_id of
        None \<Rightarrow> w
      | Some l \<Rightarrow> (let (fired, l) = release l in fire fired (set_lock datum_id l w)))"

definition release_dead :: "node_id \<Rightarrow> datum_id \<times> grant native_lock \<Rightarrow> ('s, 'r) worker \<Rightarrow> ('s, 'r) worker" where
  "release_dead node_id = (\<lambda>(datum_id, l) w.
     let was_held_by_dead_node = (case current_holder l of Some h \<Rightarrow> h_node_id h = node_id | None \<Rightarrow> False);
         (fired, l) = handle_node_death l node_id;
         w = fire fired (set_lock datum_id l w)
     in if was_held_by_dead_node then w\<lparr>wk_cache := cache_invalidate (wk_cache w) datum_id\<rparr> else w)"

text \<open>The resident structure of an index datum, opened on the first use.\<close>

definition resident_of :: "('s, 'r) worker_env \<Rightarrow> datum_id \<Rightarrow> rstring \<Rightarrow> ('s, 'r) worker \<Rightarrow> (rstring + 'r) \<times> ('s, 'r) worker" where
  "resident_of env target index_kind w =
     (case wk_resident w target of
        Some r \<Rightarrow> (Inr r, w)
      | None \<Rightarrow>
          (case we_kinds env index_kind of
             None \<Rightarrow> (Inl (lit ''no index kind registered for '' @ [34] @ index_kind @ [34]), w)
           | Some kind \<Rightarrow>
               let (content, c) = cache_get (we_store env) (wk_cache w) (wk_store w) target;
                   w = w\<lparr>wk_cache := c\<rparr>
               in case ik_open kind target content of
                    Inl message \<Rightarrow> (Inl message, w)
                  | Inr r \<Rightarrow> (Inr r, w\<lparr>wk_resident := (wk_resident w)(target \<mapsto> r)\<rparr>)))"

definition write_through_index :: "'s store_ops \<Rightarrow> datum_id \<Rightarrow> apply_outcome \<Rightarrow> ('s, 'r) worker \<Rightarrow> ('s, 'r) worker" where
  "write_through_index ops target outcome w =
     (if ao_violation outcome \<noteq> None then w
      else case ao_write_through outcome of
             WtPut bs \<Rightarrow> (let (c, s) = cache_put ops (wk_cache w) (wk_store w) target bs in w\<lparr>wk_cache := c, wk_store := s\<rparr>)
           | WtDelete \<Rightarrow> (let (c, s) = cache_delete ops (wk_cache w) (wk_store w) target in w\<lparr>wk_cache := c, wk_store := s\<rparr>)
           | WtNone \<Rightarrow> w)"

definition handle_index_update ::
    "('s, 'r) worker_env \<Rightarrow> datum_id \<Rightarrow> datum_id \<Rightarrow> rstring \<Rightarrow> bytes \<Rightarrow> index_update_reply \<Rightarrow> ('s, 'r) worker \<Rightarrow> ('s, 'r) worker" where
  "handle_index_update env target op_id index_kind payload reply w =
     (case resident_of env target index_kind w of
        (Inl message, w) \<Rightarrow> respond_update reply op_id target (Some message) w
      | (Inr r, w) \<Rightarrow>
          (let (outcome, r) = ro_apply (we_resident env) payload r;
               w = write_through_index (we_store env) target outcome (w\<lparr>wk_resident := (wk_resident w)(target \<mapsto> r)\<rparr>)
           in respond_update reply op_id target (ao_violation outcome) w))"

definition handle_index_query :: "('s, 'r) worker_env \<Rightarrow> datum_id \<Rightarrow> rstring \<Rightarrow> bytes \<Rightarrow> reply_channel \<Rightarrow> ('s, 'r) worker \<Rightarrow> ('s, 'r) worker" where
  "handle_index_query env target index_kind query reply w =
     (case resident_of env target index_kind w of
        (Inl message, w) \<Rightarrow> emit (Reply reply (Inl message)) w
      | (Inr r, w) \<Rightarrow> emit (Reply reply (ro_query (we_resident env) query r)) w)"

definition handle_index_execute :: "('s, 'r) worker_env \<Rightarrow> datum_id \<Rightarrow> rstring \<Rightarrow> bytes \<Rightarrow> reply_channel \<Rightarrow> ('s, 'r) worker \<Rightarrow> ('s, 'r) worker" where
  "handle_index_execute env target index_kind payload reply w =
     (case resident_of env target index_kind w of
        (Inl message, w) \<Rightarrow> emit (Reply reply (Inl message)) w
      | (Inr r, w) \<Rightarrow>
          (let (out, r) = ro_execute (we_resident env) payload r
           in emit (Reply reply out) (w\<lparr>wk_resident := (wk_resident w)(target \<mapsto> r)\<rparr>)))"

text \<open>\<open>state.pending -= 1\<close>\<close>

definition one_less :: "index_update_state \<Rightarrow> index_update_state result" where
  "one_less state =
     (if st_pending state = 0 then Inl (Panic ''attempt to subtract with overflow'' [])
      else Inr (state\<lparr>st_pending := st_pending state - 1\<rparr>))"

definition first_violation :: "rstring option \<Rightarrow> index_update_state \<Rightarrow> index_update_state" where
  "first_violation violation state = (if violation \<noteq> None \<and> st_violation state = None then state\<lparr>st_violation := violation\<rparr> else state)"

definition handle_index_update_replied :: "('s, 'r) worker_env \<Rightarrow> datum_id \<Rightarrow> rstring option \<Rightarrow> ('s, 'r) worker \<Rightarrow> ('s, 'r) worker result" where
  "handle_index_update_replied env op_id violation w =
     bindE (case map_of (wk_ops w) op_id of
         None \<Rightarrow> Inr w
       | Some record \<Rightarrow>
           (case or_index_update_state record of
              None \<Rightarrow> Inr w
            | Some state \<Rightarrow>
                bindE (one_less state) (\<lambda>state.
                  Inr (set_op op_id (record\<lparr>or_index_update_state := Some (first_violation violation state)\<rparr>) w))))
       (finish_op_if_settled env op_id)"

definition handle_exists_check :: "('s, 'r) worker_env \<Rightarrow> datum_id \<Rightarrow> datum_id \<Rightarrow> exists_reply \<Rightarrow> ('s, 'r) worker \<Rightarrow> ('s, 'r) worker" where
  "handle_exists_check env datum_id op_id reply w =
     (let (content, c) = cache_get (we_store env) (wk_cache w) (wk_store w) datum_id
      in respond_exists reply op_id datum_id (content \<noteq> None) (w\<lparr>wk_cache := c\<rparr>))"

text \<open>What an answer makes of the state of an operation, and the update that records a tracked missing reference.\<close>

definition exists_verdict ::
    "datum_id \<Rightarrow> bool \<Rightarrow> expectation option \<Rightarrow> index_update_state \<Rightarrow> index_update_state \<times> (datum_id \<times> rstring \<times> bytes) option" where
  "exists_verdict target exists expect state =
     (case (exists, expect) of
        (True, Some (Present _)) \<Rightarrow> (state, None)
      | (False, Some (Absent _)) \<Rightarrow> (state, None)
      | (True, Some (Absent message)) \<Rightarrow> (first_violation (Some message) state, None)
      | (False, Some (Present (MissingTrack pending_datum index_kind entry))) \<Rightarrow>
          (state\<lparr>st_pending := st_pending state + 1\<rparr>, Some (pending_datum, index_kind, entry))
      | (False, _) \<Rightarrow> (first_violation (Some (lit ''dangling reference: '' @ debug_datum_id target @ lit '' does not exist'')) state, None)
      | (True, None) \<Rightarrow> (state, None))"

definition handle_exists_check_replied ::
    "('s, 'r) worker_env \<Rightarrow> datum_id \<Rightarrow> datum_id \<Rightarrow> bool \<Rightarrow> ('s, 'r) worker \<Rightarrow> ('s, 'r) worker result" where
  "handle_exists_check_replied env op_id target exists w =
     bindE (case map_of (wk_ops w) op_id of
         None \<Rightarrow> Inr w
       | Some record \<Rightarrow>
           (case or_index_update_state record of
              None \<Rightarrow> Inr w
            | Some state \<Rightarrow>
                bindE (one_less state) (\<lambda>state.
                  let expect = st_exists_expectations state target;
                      (state, tracked) = exists_verdict target exists expect
                        (state\<lparr>st_exists_expectations := (st_exists_expectations state)(target := None)\<rparr>);
                      w = set_op op_id (record\<lparr>or_index_update_state := Some state\<rparr>) w
                  in case tracked of
                       None \<Rightarrow> Inr w
                     | Some (pending_datum, index_kind, entry) \<Rightarrow> dispatch_index_update env op_id pending_datum index_kind entry w)))
       (finish_op_if_settled env op_id)"

text \<open>One message.\<close>

fun worker_step :: "('s, 'r) worker_env \<Rightarrow> worker_message \<Rightarrow> ('s, 'r) worker \<Rightarrow> ('s, 'r) worker result" where
  "worker_step env (RunOp op_id op_name datum_ids payload reply) w = handle_run_op env op_id op_name datum_ids payload reply w"
| "worker_step env (WAcquire op_id datum_id requester_node requester_thread reply) w =
     handle_acquire env op_id datum_id requester_node requester_thread reply w"
| "worker_step env (AcquireGranted op_id datum_id) w = handle_acquire_granted env op_id datum_id w"
| "worker_step env (AcquireFailed op_id datum_id retries_left) w = handle_acquire_failed env op_id datum_id retries_left w"
| "worker_step env (WRecall datum_id reply) w = handle_recall env datum_id reply w"
| "worker_step env (WRelease datum_id) w = Inr (handle_release datum_id w)"
| "worker_step env (EvictNonNative is_native) w = Inr (w\<lparr>wk_cache := cache_evict_non_native (wk_cache w) is_native\<rparr>)"
| "worker_step env (ReleaseLocksHeldBy node_id) w = Inr (fold (release_dead node_id) (wk_locks w) w)"
| "worker_step env (WIndexUpdate target op_id index_kind payload reply) w = Inr (handle_index_update env target op_id index_kind payload reply w)"
| "worker_step env (IndexUpdateReplied op_id target violation) w = handle_index_update_replied env op_id violation w"
| "worker_step env (IndexQuery target index_kind query reply) w = Inr (handle_index_query env target index_kind query reply w)"
| "worker_step env (IndexExecute target index_kind payload reply) w = Inr (handle_index_execute env target index_kind payload reply w)"
| "worker_step env (WExistsCheck datum_id op_id reply) w = Inr (handle_exists_check env datum_id op_id reply w)"
| "worker_step env (ExistsCheckReplied op_id target exists) w = handle_exists_check_replied env op_id target exists w"

text \<open>The messages that a thread takes from its inbox one after the other, each with the environment it is handled in.\<close>

fun worker_run :: "(('s, 'r) worker_env \<times> worker_message) list \<Rightarrow> ('s, 'r) worker \<Rightarrow> ('s, 'r) worker result" where
  "worker_run [] w = Inr w"
| "worker_run ((env, m) # ms) w = bindE (worker_step env m w) (worker_run ms)"

end
