(* ===== verification/Worker_Ops.thy ===== *)
theory Worker_Ops
  imports Worker Typed_Index
begin

text \<open>
  What the message loop guarantees: it does not panic, every question is answered at most once, and an
  operation's staged writes reach the store all together or not at all.
\<close>

section \<open>Sending\<close>

definition env_ok :: "('s, 'r) worker_env \<Rightarrow> bool" where
  "env_ok env \<longleftrightarrow> slots (we_ring env) \<noteq> [] \<and> length (slots (we_ring env)) < 2 ^ 32 \<and>
     list_all (\<lambda>(n, t). n = we_node env \<longrightarrow> unat (thread_raw t) < we_peers env) (slots (we_ring env))"

fun answer_of :: "effect \<Rightarrow> (reply_channel \<times> (rstring + bytes)) list" where
  "answer_of (Reply c r) = [(c, r)]"
| "answer_of _ = []"

definition answers :: "('s, 'r) worker \<Rightarrow> (reply_channel \<times> (rstring + bytes)) list" where
  "answers w = concat (map answer_of (wk_out w))"

text \<open>Steps that send messages and drop cache entries.\<close>

definition quiet :: "('s, 'r) worker \<Rightarrow> ('s, 'r) worker \<Rightarrow> bool" where
  "quiet w w' \<longleftrightarrow> wk_ops w' = wk_ops w \<and> wk_store w' = wk_store w \<and> wk_locks w' = wk_locks w \<and> answers w' = answers w"

lemma quiet_refl [simp]: "quiet w w"
  by (simp add: quiet_def)

lemma quiet_trans: "quiet u v \<Longrightarrow> quiet v w \<Longrightarrow> quiet u w"
  by (simp add: quiet_def)

lemma answers_simps [simp]:
  "answers (emit e w) = answers w @ answer_of e"
  "answers (w\<lparr>wk_cache := c\<rparr>) = answers w" "answers (w\<lparr>wk_store := s\<rparr>) = answers w"
  "answers (w\<lparr>wk_ops := ops\<rparr>) = answers w" "answers (w\<lparr>wk_locks := ls\<rparr>) = answers w" "answers (w\<lparr>wk_resident := r\<rparr>) = answers w"
  by (simp_all add: answers_def emit_def)

lemma emit_simps [simp]:
  "wk_ops (emit e w) = wk_ops w" "wk_store (emit e w) = wk_store w" "wk_locks (emit e w) = wk_locks w" "wk_cache (emit e w) = wk_cache w"
  "wk_resident (emit e w) = wk_resident w"
  by (simp_all add: emit_def)

lemma quiet_emit: "answer_of e = [] \<Longrightarrow> quiet w (emit e w)"
  by (simp add: quiet_def)

lemma home_ok:
  assumes "env_ok env"
  obtains n t where "native_home env i = Inr (n, t)" "n = we_node env \<longrightarrow> unat (thread_raw t) < we_peers env"
proof -
  obtain s where "s \<in> set (slots (we_ring env))" "native (we_ring env) i = Some s"
    using slot_at_total [of "slots (we_ring env)" "hash_key i"] assms by (auto simp: env_ok_def native_def)
  then show ?thesis using that [of "fst s" "snd s"] assms by (auto simp: native_home_def env_ok_def list_all_iff)
qed

definition sent :: "('s, 'r) worker result \<Rightarrow> ('s, 'r) worker \<Rightarrow> bool" where
  "sent r w \<longleftrightarrow> (\<exists>w'. r = Inr w' \<and> quiet w w')"

lemma sent_post: "unat (thread_raw t) < we_peers env \<Longrightarrow> sent (post_peer env t m w) w"
  by (simp add: sent_def post_peer_def quiet_emit)

lemma sent_helpers:
  assumes "env_ok env"
  shows "sent (send_acquire env op_id n i w) w" "sent (dispatch_exists_check env op_id i w) w" "sent (dispatch_index_update env op_id i k p w) w"
    "sent (release_one env i w) w"
proof -
  obtain n t where h: "native_home env i = Inr (n, t)" "n = we_node env \<longrightarrow> unat (thread_raw t) < we_peers env" by (rule home_ok [OF assms])
  show "sent (send_acquire env op_id n i w) w" for n using h by (auto simp: send_acquire_def sent_def post_peer_def quiet_emit)
  show "sent (dispatch_exists_check env op_id i w) w" using h by (auto simp: dispatch_exists_check_def sent_def post_peer_def quiet_emit)
  show "sent (dispatch_index_update env op_id i k p w) w" using h by (auto simp: dispatch_index_update_def sent_def post_peer_def quiet_emit)
  show "sent (release_one env i w) w" using h by (auto simp: release_one_def Let_def sent_def post_peer_def quiet_def)
qed

text \<open>Without knowing the ring: a helper that does not panic is quiet.\<close>

definition keeps :: "('s, 'r) worker result \<Rightarrow> ('s, 'r) worker \<Rightarrow> bool" where
  "keeps r w \<longleftrightarrow> (\<forall>w'. r = Inr w' \<longrightarrow> quiet w w')"

lemma keeps_post: "quiet w v \<Longrightarrow> keeps (post_peer env t m v) w"
  by (auto simp: keeps_def post_peer_def quiet_def)

lemma keeps_emit: "quiet w v \<Longrightarrow> answer_of e = [] \<Longrightarrow> keeps (Inr (emit e v)) w"
  by (simp add: keeps_def quiet_def)

lemma quiet_cache [simp]: "quiet w (w\<lparr>wk_cache := c\<rparr>)"
  by (simp add: quiet_def)

lemma keeps_Inr: "keeps (Inr v) w \<longleftrightarrow> quiet w v"
  by (simp add: keeps_def)

lemma keeps_home: "(\<And>n t. keeps (f (n, t)) w) \<Longrightarrow> keeps (bindE (native_home env i) f) w"
  by (cases "native_home env i") (auto simp: keeps_def)

lemma keeps_helpers:
  "keeps (send_acquire env op_id n i w) w" "keeps (dispatch_exists_check env op_id i w) w"
  "keeps (dispatch_index_update env op_id i k p w) w" "keeps (release_one env i w) w"
proof -
  show "keeps (send_acquire env op_id n i w) w" unfolding send_acquire_def by (rule keeps_home) (simp add: keeps_post keeps_emit)
  show "keeps (dispatch_exists_check env op_id i w) w" unfolding dispatch_exists_check_def by (rule keeps_home) (simp add: keeps_post keeps_emit)
  show "keeps (dispatch_index_update env op_id i k p w) w" unfolding dispatch_index_update_def by (rule keeps_home) (simp add: keeps_post keeps_emit)
  show "keeps (release_one env i w) w" unfolding release_one_def Let_def by (rule keeps_home) (simp add: keeps_post keeps_Inr quiet_def)
qed

lemma for_all_keeps: "(\<And>x v. keeps (f x v) v) \<Longrightarrow> keeps (for_all f xs w) w"
proof (induction xs arbitrary: w)
  case (Cons x xs)
  show ?case
    unfolding keeps_def
  proof (intro allI impI)
    fix w' assume "for_all f (x # xs) w = Inr w'"
    then obtain v where "f x w = Inr v" "for_all f xs v = Inr w'" by auto
    then show "quiet w w'" using Cons.prems [of x w] Cons.IH [OF Cons.prems, of v] quiet_trans unfolding keeps_def by blast
  qed
qed (simp add: keeps_def)

lemma for_all_sent: "(\<And>x v. sent (f x v) v) \<Longrightarrow> sent (for_all f xs w) w"
proof (induction xs arbitrary: w)
  case (Cons x xs)
  obtain v where v: "f x w = Inr v" "quiet w v" using Cons.prems [of x w] by (auto simp: sent_def)
  obtain w' where "for_all f xs v = Inr w'" "quiet v w'" using Cons.IH [OF Cons.prems, of v] by (auto simp: sent_def)
  then show ?case using v quiet_trans by (auto simp: sent_def)
qed (simp add: sent_def)

lemma release_keeps: "keeps (release_datums env is w) w"
  unfolding release_datums_def by (rule for_all_keeps) (rule keeps_helpers)

lemma release_sent: "env_ok env \<Longrightarrow> sent (release_datums env is w) w"
  unfolding release_datums_def by (rule for_all_sent) (rule sent_helpers)

lemma grant_quiet: "quiet w (grant g w)"
  by (cases g; cases "fst g") (auto simp: grant_def quiet_def)

lemma fire_quiet: "quiet w (fire ws w)"
  unfolding fire_def by (induction ws arbitrary: w) (simp, simp, blast intro: quiet_trans grant_quiet)

lemma ack_quiet: "quiet w (ack reply i w)" "quiet w (respond_update r op_id i v w)" "quiet w (respond_exists x op_id i b w)"
  by (auto simp: ack_def respond_update_def respond_exists_def quiet_def split: recall_reply.splits index_update_reply.splits exists_reply.splits)

section \<open>Answers\<close>

text \<open>The channels that have been answered, and those that an operation in flight will answer.\<close>

definition balance :: "('s, 'r) worker \<Rightarrow> reply_channel multiset" where
  "balance w = mset (map fst (answers w)) + mset (map (\<lambda>(_, record). or_reply record) (wk_ops w))"

fun asked :: "worker_message \<Rightarrow> reply_channel list" where
  "asked (RunOp _ _ _ _ reply) = [reply]"
| "asked (IndexQuery _ _ _ reply) = [reply]"
| "asked (IndexExecute _ _ _ reply) = [reply]"
| "asked _ = []"

lemma quiet_balance: "quiet w w' \<Longrightarrow> balance w' = balance w"
  by (simp add: quiet_def balance_def)

lemma balance_simps [simp]:
  "balance (w\<lparr>wk_cache := c\<rparr>) = balance w" "balance (w\<lparr>wk_store := s\<rparr>) = balance w" "balance (w\<lparr>wk_locks := ls\<rparr>) = balance w"
  "balance (w\<lparr>wk_resident := r\<rparr>) = balance w" "balance (emit e w) = balance w + mset (map fst (answer_of e))"
  by (simp_all add: balance_def)

lemma balance_commit [simp]: "balance (commit ops staged w) = balance w" "wk_ops (commit ops staged w) = wk_ops w"
  by (simp_all add: commit_def case_prod_beta Let_def balance_def)

lemma open_update:
  "mset (map (\<lambda>(_, record). or_reply record) (AList.update k x ops)) \<subseteq># add_mset (or_reply x) (mset (map (\<lambda>(_, record). or_reply record) ops))"
  "map_of ops k = Some y \<Longrightarrow> or_reply y = or_reply x \<Longrightarrow>
    mset (map (\<lambda>(_, record). or_reply record) (AList.update k x ops)) = mset (map (\<lambda>(_, record). or_reply record) ops)"
  by (induction ops) (auto simp: add_mset_commute)

lemma open_delete:
  "map_of ops k = Some x \<Longrightarrow>
    add_mset (or_reply x) (mset (map (\<lambda>(_, record). or_reply record) (AList.delete k ops))) \<subseteq># mset (map (\<lambda>(_, record). or_reply record) ops)"
proof (induction ops)
  case (Cons y ops)
  have sub: "mset (map (\<lambda>(_, record). or_reply record) (AList.delete k ops)) \<subseteq># mset (map (\<lambda>(_, record). or_reply record) ops)"
    unfolding AList.delete_eq mset_map mset_filter by (intro image_mset_subseteq_mono multiset_filter_subset)
  show ?case
  proof (cases "fst y = k")
    case True
    then show ?thesis using Cons.prems sub by (cases y) auto
  next
    case False
    then have "map_of ops k = Some x" using Cons.prems by (cases y) auto
    from Cons.IH [OF this] False show ?thesis by (cases y) (simp add: add_mset_commute)
  qed
qed simp

lemma balance_set_op:
  "map_of (wk_ops w) k = Some y \<Longrightarrow> or_reply y = or_reply x \<Longrightarrow> balance (set_op k x w) = balance w"
  "balance (set_op k x w) \<subseteq># add_mset (or_reply x) (balance w)"
  using open_update(1) [of k x "wk_ops w"] open_update(2) [of "wk_ops w" k y x] by (simp_all add: set_op_def balance_def)

lemma balance_answer_op:
  "map_of (wk_ops w) k = Some x \<Longrightarrow> balance (emit (Reply (or_reply x) r) (remove_op k w)) \<subseteq># balance w"
  using open_delete [of "wk_ops w" k x] by (simp add: remove_op_def balance_def)

text \<open>A result that keeps the balance.\<close>

definition fair :: "('s, 'r) worker result \<Rightarrow> reply_channel multiset \<Rightarrow> bool" where
  "fair r B \<longleftrightarrow> (\<forall>w'. r = Inr w' \<longrightarrow> balance w' \<subseteq># B)"

lemma fair_keeps: "keeps r v \<Longrightarrow> balance v \<subseteq># B \<Longrightarrow> fair r B"
  unfolding fair_def keeps_def by (metis quiet_balance)

lemma fair_Inr [simp]: "fair (Inr v) B \<longleftrightarrow> balance v \<subseteq># B"
  by (simp add: fair_def)

lemma fair_bind: "fair r B \<Longrightarrow> (\<And>v. balance v \<subseteq># B \<Longrightarrow> fair (f v) B) \<Longrightarrow> fair (bindE r f) B"
  by (auto simp: fair_def)

lemma fair_release: "balance v \<subseteq># B \<Longrightarrow> fair (release_datums env is v) B"
  by (rule fair_keeps [OF release_keeps])

lemma fair_fail_op: "fair (fail_op env op_id message w) (balance w)"
  by (cases "map_of (wk_ops w) op_id") (simp_all add: fail_op_def fair_release [OF balance_answer_op])

lemma fair_try_run: "fair (try_run_if_ready env op_id w) (balance w)"
proof (cases "map_of (wk_ops w) op_id")
  case (Some x)
  have upd: "fair (start_updates env op_id x staged res us cs (w\<lparr>wk_cache := c\<rparr>)) (balance w)" for staged res us cs c
    unfolding start_updates_def Let_def
    by (intro fair_bind [OF fair_keeps [OF for_all_keeps]] fair_keeps [OF for_all_keeps] keeps_helpers)
      (simp_all add: balance_set_op(1) [OF _ refl, of "w\<lparr>wk_cache := c\<rparr>" op_id x] Some balance_set_op(1) [of "w\<lparr>wk_cache := c\<rparr>" op_id x])
  have ans: "balance (emit (Reply (or_reply x) r) (remove_op op_id (w\<lparr>wk_cache := c\<rparr>))) \<subseteq># balance w" for r c
    using balance_answer_op [of "w\<lparr>wk_cache := c\<rparr>" op_id x r] Some by simp
  have ans': "balance (emit (Reply (or_reply x) r) (remove_op op_id (commit ops st (w\<lparr>wk_cache := c\<rparr>)))) \<subseteq># balance w" for r c ops st
    using balance_answer_op [of "commit ops st (w\<lparr>wk_cache := c\<rparr>)" op_id x r] Some by simp
  show ?thesis
    using upd by (simp add: try_run_if_ready_def Some case_prod_beta Let_def fair_release [OF ans] fair_release [OF ans'] split: sum.split)
qed (simp add: try_run_if_ready_def)

lemma fair_finish: "fair (finish_op_if_settled env op_id w) (balance w)"
proof (cases "map_of (wk_ops w) op_id")
  case (Some x)
  have "balance (emit (Reply (or_reply x) r) (commit ops st (remove_op op_id w))) \<subseteq># balance w" for r ops st
    using balance_answer_op [OF Some, of r] by simp
  then show ?thesis
    by (auto simp: finish_op_if_settled_def Some Let_def fair_release fair_release [OF balance_answer_op [OF Some]] split: option.split)
qed (simp add: finish_op_if_settled_def)

lemma balance_wound: "mset (map (\<lambda>(_, x). or_reply x) (snd (wound i ops))) = mset (map (\<lambda>(_, x). or_reply x) ops)"
  by (induction i ops rule: wound.induct) (auto simp: map_prod_def case_prod_beta)

lemma balance_resident [simp]: "balance (snd (resident_of env target k w)) = balance w"
  by (simp add: resident_of_def case_prod_beta Let_def split: option.split sum.split)

lemma balance_write_through [simp]: "balance (write_through_index ops target out w) = balance w"
  by (simp add: write_through_index_def case_prod_beta Let_def balance_def split: write_through.split)

lemma balance_set_lock [simp]: "balance (set_lock i l w) = balance w"
  by (simp add: set_lock_def balance_def)

lemma balance_quietly [simp]:
  "balance (fire ws w) = balance w" "balance (ack rr i w) = balance w" "balance (respond_update ur op_id i v w) = balance w"
  "balance (respond_exists x op_id i b w) = balance w"
  by (rule quiet_balance, rule fire_quiet ack_quiet)+

lemma balance_release_dead: "balance (fold (release_dead n) ls w) = balance w"
proof (induction ls arbitrary: w)
  case (Cons x ls)
  have "balance (release_dead n x w) = balance w" by (cases x) (simp add: release_dead_def case_prod_beta Let_def)
  then show ?case using Cons.IH by simp
qed simp

lemma fair_replied:
  assumes "map_of (wk_ops w) op_id = Some x" "or_reply y = or_reply x"
  shows "fair (bindE (Inr (set_op op_id y w)) (finish_op_if_settled env op_id)) (balance w)"
  using fair_finish [of env op_id "set_op op_id y w"] balance_set_op(1) [OF assms(1) assms(2) [symmetric]] by simp

lemma fair_index_update_replied: "fair (handle_index_update_replied env op_id v w) (balance w)"
proof (cases "\<exists>x st. map_of (wk_ops w) op_id = Some x \<and> or_index_update_state x = Some st \<and> st_pending st \<noteq> 0")
  case True
  then obtain x st where x: "map_of (wk_ops w) op_id = Some x" "or_index_update_state x = Some st" "st_pending st \<noteq> 0" by blast
  have "fair (bindE (Inr (set_op op_id (x\<lparr>or_index_update_state := Some y\<rparr>) w)) (finish_op_if_settled env op_id)) (balance w)" for y
    by (rule fair_replied [OF x(1)]) simp
  then show ?thesis using x by (simp add: handle_index_update_replied_def one_less_def)
next
  case False
  then show ?thesis using fair_finish [of env op_id w]
    by (auto simp: handle_index_update_replied_def one_less_def fair_def split: option.splits if_splits)
qed

lemma fair_exists_check_replied: "fair (handle_exists_check_replied env op_id i b w) (balance w)"
proof (cases "\<exists>x st. map_of (wk_ops w) op_id = Some x \<and> or_index_update_state x = Some st \<and> st_pending st \<noteq> 0")
  case True
  then obtain x st where x: "map_of (wk_ops w) op_id = Some x" "or_index_update_state x = Some st" "st_pending st \<noteq> 0" by blast
  have bal: "balance (set_op op_id (x\<lparr>or_index_update_state := y\<rparr>) w) = balance w" for y by (rule balance_set_op(1) [OF x(1)]) simp
  have fin: "fair (finish_op_if_settled env op_id v) (balance w)" if "balance v \<subseteq># balance w" for v
    using fair_finish [of env op_id v] that unfolding fair_def by (blast intro: subset_mset.order_trans)
  have disp: "fair (bindE (dispatch_index_update env op_id p k e (set_op op_id (x\<lparr>or_index_update_state := y\<rparr>) w)) (finish_op_if_settled env op_id)) (balance w)" for p k e y
    by (rule fair_bind [OF fair_keeps [OF keeps_helpers(3)] fin]) (simp_all add: bal)
  show ?thesis using x fin bal disp
    by (simp add: handle_exists_check_replied_def one_less_def Let_def case_prod_beta split: option.split)
next
  case False
  then show ?thesis using fair_finish [of env op_id w]
    by (auto simp: handle_exists_check_replied_def one_less_def fair_def split: option.splits if_splits)
qed

lemma fair_step: "fair (worker_step env m w) (balance w + mset (asked m))"
proof (cases m)
  case (RunOp op_id name ids payload reply)
  let ?x = "\<lparr>or_op_name = name, or_payload = payload, or_datum_ids = ids, or_still_needed = ids, or_acquired = [], or_reply = reply, or_index_update_state = None\<rparr>"
  have b: "balance (set_op op_id ?x w) \<subseteq># balance w + {#reply#}" using balance_set_op(2) [of op_id ?x w] by simp
  have "fair (handle_run_op env op_id name ids payload reply w) (balance w + {#reply#})"
    unfolding handle_run_op_def
  proof (rule fair_bind [OF fair_keeps [OF for_all_keeps [OF keeps_helpers(1)] b]])
    show "fair (try_run_if_ready env op_id v) (balance w + {#reply#})" if "balance v \<subseteq># balance w + {#reply#}" for v :: "('a, 'b) worker"
      using fair_try_run [of env op_id v] that unfolding fair_def by (blast intro: subset_mset.order_trans)
  qed
  then show ?thesis by (simp add: RunOp)
next
  case (WAcquire op_id i n t reply)
  show ?thesis unfolding WAcquire worker_step.simps handle_acquire_def
    by (auto simp: case_prod_beta Let_def fair_keeps [OF keeps_post [OF quiet_refl]] split: acquire_outcome.split)
next
  case (AcquireGranted op_id i)
  show ?thesis
  proof (cases "map_of (wk_ops w) op_id")
    case None
    then show ?thesis by (simp add: AcquireGranted handle_acquire_granted_def fair_release)
  next
    case (Some x)
    let ?y = "x\<lparr>or_still_needed := filter (\<lambda>j. j \<noteq> i) (or_still_needed x), or_acquired := or_acquired x @ [i]\<rparr>"
    have "balance (set_op op_id ?y w) = balance w" by (rule balance_set_op(1) [OF Some]) simp
    then show ?thesis using fair_try_run [of env op_id "set_op op_id ?y w"] by (simp add: AcquireGranted handle_acquire_granted_def Some)
  qed
next
  case (AcquireFailed op_id i n)
  show ?thesis by (simp add: fair_fail_op AcquireFailed handle_acquire_failed_def fair_keeps [OF keeps_helpers(1)])
next
  case (WRecall i reply)
  have "balance (ack reply i (w\<lparr>wk_cache := c, wk_ops := snd (wound i (wk_ops w))\<rparr>)) = balance w" for c
    using balance_wound [of i "wk_ops w"] by (simp add: balance_def [of "w\<lparr>wk_cache := c, wk_ops := snd (wound i (wk_ops w))\<rparr>"] balance_def [of w])
  then show ?thesis by (simp add: WRecall handle_recall_def case_prod_beta Let_def fair_keeps [OF keeps_helpers(1)] split: option.split)
next
  case (IndexUpdateReplied op_id i v)
  show ?thesis by (simp add: fair_index_update_replied IndexUpdateReplied)
next
  case (ExistsCheckReplied op_id i b)
  show ?thesis by (simp add: fair_exists_check_replied ExistsCheckReplied)
next
  case (WIndexUpdate target op_id k p reply)
  show ?thesis by (auto simp: WIndexUpdate handle_index_update_def case_prod_beta Let_def split: sum.split)
next
  case (IndexQuery target k q reply)
  show ?thesis by (auto simp: IndexQuery handle_index_query_def case_prod_beta split: sum.split)
next
  case (IndexExecute target k p reply)
  show ?thesis by (auto simp: IndexExecute handle_index_execute_def case_prod_beta Let_def split: sum.split)
qed (simp_all add: handle_release_def handle_exists_check_def balance_release_dead case_prod_beta Let_def split: option.split)

lemma fair_run: "worker_run ms w = Inr w' \<Longrightarrow> balance w' \<subseteq># balance w + mset (concat (map (asked \<circ> snd) ms))"
proof (induction ms arbitrary: w)
  case (Cons x ms)
  obtain env m where x: "x = (env, m)" by (cases x)
  obtain v where v: "worker_step env m w = Inr v" "worker_run ms v = Inr w'" using Cons.prems x by auto
  have "balance v \<subseteq># balance w + mset (asked m)" using fair_step [of env m w] v(1) by (simp add: fair_def)
  then have "balance v + mset (concat (map (asked \<circ> snd) ms)) \<subseteq># balance w + mset (asked m) + mset (concat (map (asked \<circ> snd) ms))" by simp
  then show ?case using Cons.IH [OF v(2)] x by (auto simp: add.assoc intro: subset_mset.order_trans)
qed simp

section \<open>No panics\<close>

text \<open>
  Every operation in its update phase waits for a reply, and every holder and waiter of a lock that is
  a thread of this node is one that exists.
\<close>

definition op_waits :: "op_record \<Rightarrow> bool" where
  "op_waits x \<longleftrightarrow> (\<forall>st. or_index_update_state x = Some st \<longrightarrow> 0 < st_pending st)"

definition thread_ok :: "node_id \<Rightarrow> nat \<Rightarrow> node_id \<Rightarrow> thread_id \<Rightarrow> bool" where
  "thread_ok self peers n t \<longleftrightarrow> (n = self \<longrightarrow> unat (thread_raw t) < peers)"

definition lock_ok :: "node_id \<Rightarrow> nat \<Rightarrow> 'g native_lock \<Rightarrow> bool" where
  "lock_ok self peers l \<longleftrightarrow>
     pred_option (\<lambda>h. thread_ok self peers (h_node_id h) (h_thread_id h)) (current_holder l) \<and>
     list_all (\<lambda>v. thread_ok self peers (w_node_id v) (w_thread_id v)) (waiters l)"

definition worker_inv :: "node_id \<Rightarrow> nat \<Rightarrow> ('s, 'r) worker \<Rightarrow> bool" where
  "worker_inv self peers w \<longleftrightarrow> (\<forall>(op_id, x)\<in>set (wk_ops w). op_waits x) \<and> (\<forall>(i, l)\<in>set (wk_locks w). lock_ok self peers l)"

definition message_ok :: "node_id \<Rightarrow> nat \<Rightarrow> worker_message \<Rightarrow> bool" where
  "message_ok self peers m \<longleftrightarrow> (case m of WAcquire _ _ n t _ \<Rightarrow> thread_ok self peers n t | _ \<Rightarrow> True)"

definition env_of :: "node_id \<Rightarrow> nat \<Rightarrow> ('s, 'r) worker_env \<Rightarrow> bool" where
  "env_of self peers env \<longleftrightarrow> we_node env = self \<and> we_peers env = peers \<and> env_ok env"

lemma lock_ok_new: "lock_ok self peers lock_new"
  by (simp add: lock_ok_def lock_new_def)

lemma lock_ok_grant: "lock_ok self peers l \<Longrightarrow> lock_ok self peers (snd (grant_front l))"
  by (auto simp: lock_ok_def grant_front_def holder_of_def split: list.splits)

lemma lock_ok_release: "lock_ok self peers l \<Longrightarrow> lock_ok self peers (snd (release l))"
  unfolding release_def by (rule lock_ok_grant) (simp add: lock_ok_def)

lemma lock_ok_death: "lock_ok self peers l \<Longrightarrow> lock_ok self peers (snd (handle_node_death l n))"
  using lock_ok_release [of self peers "l\<lparr>waiters := filter (\<lambda>w. w_node_id w \<noteq> n) (waiters l)\<rparr>"]
  by (auto simp: lock_ok_def handle_node_death_def Let_def list_all_iff split: option.splits)

lemma lock_ok_request:
  assumes "lock_ok self peers l" "thread_ok self peers n t"
  shows "lock_ok self peers (snd (snd (request l op_id n t g)))"
    "fst (request l op_id n t g) = RecallNeeded h \<Longrightarrow> thread_ok self peers (h_node_id h) (h_thread_id h)"
proof -
  let ?w = "\<lparr>w_op_id = op_id, w_node_id = n, w_thread_id = t, w_on_granted = g\<rparr>"
  let ?ws = "takeWhile (\<lambda>w. w_op_id w \<le> op_id) (waiters l) @ ?w # dropWhile (\<lambda>w. w_op_id w \<le> op_id) (waiters l)"
  have "lock_ok self peers (l\<lparr>waiters := ?ws\<rparr>)"
    using assms set_split_insert [of "\<lambda>w. w_op_id w \<le> op_id" "waiters l" ?w] unfolding lock_ok_def list_all_iff by simp
  then show "lock_ok self peers (snd (snd (request l op_id n t g)))"
    using lock_ok_grant [of self peers "l\<lparr>waiters := ?ws\<rparr>"] by (simp add: request_def position_insert case_prod_beta Let_def split: option.split)
  show "fst (request l op_id n t g) = RecallNeeded h \<Longrightarrow> thread_ok self peers (h_node_id h) (h_thread_id h)"
    using assms(1) by (auto simp: request_def Let_def case_prod_beta lock_ok_def split: option.splits if_splits)
qed

lemma set_update: "x \<in> set (AList.update k v xs) \<Longrightarrow> x = (k, v) \<or> x \<in> set xs"
  by (induction xs) (auto split: if_splits)

lemma worker_inv_sets:
  assumes "worker_inv self peers w"
  shows "op_waits x \<Longrightarrow> worker_inv self peers (set_op op_id x w)" "lock_ok self peers l \<Longrightarrow> worker_inv self peers (set_lock i l w)"
    "worker_inv self peers (remove_op op_id w)"
  using assms by (auto simp: worker_inv_def set_op_def set_lock_def remove_op_def AList.delete_eq dest!: set_update)

lemma worker_inv_quiet: "quiet w w' \<Longrightarrow> worker_inv self peers w \<Longrightarrow> worker_inv self peers w'"
  by (simp add: quiet_def worker_inv_def)

lemma worker_inv_simps [simp]:
  "worker_inv self peers (emit e w) = worker_inv self peers w" "worker_inv self peers (w\<lparr>wk_cache := c\<rparr>) = worker_inv self peers w"
  "worker_inv self peers (w\<lparr>wk_store := s\<rparr>) = worker_inv self peers w" "worker_inv self peers (w\<lparr>wk_resident := r\<rparr>) = worker_inv self peers w"
  "worker_inv self peers (commit ops st w) = worker_inv self peers w" "worker_inv self peers (write_through_index ops i out w) = worker_inv self peers w"
  by (simp_all add: worker_inv_def commit_def write_through_index_def case_prod_beta Let_def split: write_through.split)

text \<open>A result that is no panic and keeps the invariant.\<close>

definition safe :: "node_id \<Rightarrow> nat \<Rightarrow> ('s, 'r) worker result \<Rightarrow> bool" where
  "safe self peers r \<longleftrightarrow> (\<exists>w. r = Inr w \<and> worker_inv self peers w)"

lemma safe_Inr [simp]: "safe self peers (Inr w) \<longleftrightarrow> worker_inv self peers w"
  by (simp add: safe_def)

lemma safe_sent: "sent r w \<Longrightarrow> worker_inv self peers w \<Longrightarrow> safe self peers r"
  by (auto simp: sent_def safe_def intro: worker_inv_quiet)

lemma safe_bind: "safe self peers r \<Longrightarrow> (\<And>w. worker_inv self peers w \<Longrightarrow> safe self peers (f w)) \<Longrightarrow> safe self peers (bindE r f)"
  by (auto simp: safe_def)

lemma inv_op: "worker_inv self peers w \<Longrightarrow> map_of (wk_ops w) op_id = Some x \<Longrightarrow> op_waits x"
  by (auto simp: worker_inv_def dest: map_of_SomeD)

lemma safe_release: "env_ok env \<Longrightarrow> worker_inv self peers w \<Longrightarrow> safe self peers (release_datums env is w)"
  by (rule safe_sent [OF release_sent])

lemma safe_fail_op: "env_ok env \<Longrightarrow> worker_inv self peers w \<Longrightarrow> safe self peers (fail_op env op_id message w)"
  by (simp add: fail_op_def safe_release worker_inv_sets(3) split: option.split)

lemma safe_start_updates:
  assumes "env_ok env" "worker_inv self peers w" "us \<noteq> [] \<or> cs \<noteq> []"
  shows "safe self peers (start_updates env op_id x staged res us cs w)"
  unfolding start_updates_def Let_def
proof (rule safe_bind)
  show "safe self peers (for_all (\<lambda>u. dispatch_index_update env op_id (pu_target u) (pu_index_kind u) (pu_payload u)) us
      (set_op op_id (x\<lparr>or_index_update_state := Some \<lparr>st_staged_writes = staged, st_op_result = res, st_pending = length us + length cs, st_violation = None,
         st_exists_expectations = fold (\<lambda>check m. m(pc_target check \<mapsto> pc_expect check)) cs Map.empty\<rparr>\<rparr>) w))"
    using assms by (intro safe_sent [OF for_all_sent] sent_helpers worker_inv_sets(1)) (auto simp: op_waits_def)
  show "safe self peers (for_all (\<lambda>check. dispatch_exists_check env op_id (pc_target check)) cs v)" if "worker_inv self peers v" for v :: "('a, 'b) worker"
    using assms(1) that by (intro safe_sent [OF for_all_sent] sent_helpers)
qed

lemma safe_try_run: "env_ok env \<Longrightarrow> worker_inv self peers w \<Longrightarrow> safe self peers (try_run_if_ready env op_id w)"
  by (auto simp: try_run_if_ready_def case_prod_beta Let_def intro!: safe_release safe_start_updates worker_inv_sets split: option.split sum.split)

lemma safe_finish: "env_ok env \<Longrightarrow> worker_inv self peers w \<Longrightarrow> safe self peers (finish_op_if_settled env op_id w)"
  by (auto simp: finish_op_if_settled_def Let_def intro!: safe_release worker_inv_sets split: option.split)

lemma delete_update: "AList.delete k (AList.update k y xs) = AList.delete k xs"
  by (induction xs) auto

lemma finish_after:
  assumes "env_ok env" "worker_inv self peers w" "map_of (wk_ops w) op_id = Some x"
  shows "safe self peers (finish_op_if_settled env op_id (set_op op_id (x\<lparr>or_index_update_state := Some st\<rparr>) w))"
proof (cases "st_pending st = 0")
  case True
  let ?w = "set_op op_id (x\<lparr>or_index_update_state := Some st\<rparr>) w"
  have "remove_op op_id ?w = remove_op op_id w" by (simp add: remove_op_def set_op_def delete_update)
  then have "worker_inv self peers (remove_op op_id ?w)" using worker_inv_sets(3) [OF assms(2)] by simp
  then show ?thesis using True safe_release [OF assms(1)]
    by (simp add: finish_op_if_settled_def set_op_def [of op_id "x\<lparr>or_index_update_state := Some st\<rparr>"] update_conv' Let_def split: option.split)
next
  case False
  then have "worker_inv self peers (set_op op_id (x\<lparr>or_index_update_state := Some st\<rparr>) w)"
    by (intro worker_inv_sets(1) [OF assms(2)]) (simp add: op_waits_def)
  then show ?thesis by (rule safe_finish [OF assms(1)])
qed

lemma safe_index_update_replied: "env_ok env \<Longrightarrow> worker_inv self peers w \<Longrightarrow> safe self peers (handle_index_update_replied env op_id v w)"
  using inv_op [of self peers w op_id]
  by (auto simp: handle_index_update_replied_def one_less_def op_waits_def safe_finish finish_after split: option.split)

lemma safe_exists_check_replied:
  assumes "env_ok env" "worker_inv self peers w"
  shows "safe self peers (handle_exists_check_replied env op_id i b w)"
proof (cases "map_of (wk_ops w) op_id")
  case (Some x)
  show ?thesis
  proof (cases "or_index_update_state x")
    case st: (Some st)
    have pos: "0 < st_pending st" using inv_op [OF assms(2) Some] st by (simp add: op_waits_def)
    let ?st = "st\<lparr>st_pending := st_pending st - 1, st_exists_expectations := (st_exists_expectations st)(i := None)\<rparr>"
    obtain st' tr where v: "exists_verdict i b (st_exists_expectations st i) ?st = (st', tr)" by fastforce
    show ?thesis
    proof (cases tr)
      case None
      then show ?thesis using pos v finish_after [OF assms Some] by (simp add: handle_exists_check_replied_def Some st one_less_def)
    next
      case (Some u)
      then have "0 < st_pending st'" using v
        by (auto simp: exists_verdict_def first_violation_def split: bool.splits option.splits expectation.splits fk_missing_policy.splits)
      then have "worker_inv self peers (set_op op_id (x\<lparr>or_index_update_state := Some st'\<rparr>) w)"
        by (intro worker_inv_sets(1) [OF assms(2)]) (simp add: op_waits_def)
      then have "safe self peers (bindE (dispatch_index_update env op_id p k e (set_op op_id (x\<lparr>or_index_update_state := Some st'\<rparr>) w)) (finish_op_if_settled env op_id))"
        for p k e by (rule safe_bind [OF safe_sent [OF sent_helpers(3) [OF assms(1)]] safe_finish [OF assms(1)]])
      then show ?thesis using pos v \<open>map_of _ _ = Some x\<close> st Some
        by (cases u) (simp add: handle_exists_check_replied_def one_less_def)
    qed
  qed (use safe_finish [OF assms] Some in \<open>simp add: handle_exists_check_replied_def\<close>)
qed (use safe_finish [OF assms] in \<open>simp add: handle_exists_check_replied_def\<close>)

lemma inv_wound: "\<forall>(op_id, x)\<in>set ops. op_waits x \<Longrightarrow> \<forall>(op_id, x)\<in>set (snd (wound i ops)). op_waits x"
  by (induction i ops rule: wound.induct) (auto simp: op_waits_def map_prod_def case_prod_beta)

lemma inv_resident [simp]: "worker_inv self peers (snd (resident_of env target k w)) = worker_inv self peers w"
  by (simp add: resident_of_def case_prod_beta Let_def split: option.split sum.split)

lemma inv_quietly [simp]:
  "worker_inv self peers (fire ws w) = worker_inv self peers w" "worker_inv self peers (ack rr i w) = worker_inv self peers w"
  "worker_inv self peers (respond_update ur op_id i v w) = worker_inv self peers w"
  "worker_inv self peers (respond_exists x op_id i b w) = worker_inv self peers w"
  using fire_quiet [of w ws] ack_quiet(1) [of w rr i] ack_quiet(2) [of w ur op_id i v] ack_quiet(3) [of w x op_id i b]
  by (simp_all add: quiet_def worker_inv_def)

lemma inv_release_dead:
  "worker_inv self peers w \<Longrightarrow> list_all (\<lambda>(i, l). lock_ok self peers l) ls \<Longrightarrow> worker_inv self peers (fold (release_dead n) ls w)"
proof (induction ls arbitrary: w)
  case (Cons x ls)
  have "worker_inv self peers (release_dead n x w)"
    using Cons.prems by (cases x) (simp add: release_dead_def case_prod_beta Let_def worker_inv_sets(2) lock_ok_death)
  then show ?case using Cons by simp
qed simp

lemma safe_acquire:
  assumes env: "env_of self peers env" and inv: "worker_inv self peers w" and t: "thread_ok self peers n t"
  shows "safe self peers (handle_acquire env op_id i n t reply w)"
proof -
  let ?l = "case map_of (wk_locks w) i of Some l \<Rightarrow> l | None \<Rightarrow> lock_new"
  have "lock_ok self peers ?l" using inv lock_ok_new by (auto simp: worker_inv_def dest: map_of_SomeD split: option.split)
  note l = lock_ok_request [OF this t, of op_id "(reply, op_id, i)"]
  obtain out fired l' where r: "request ?l op_id n t (reply, op_id, i) = (out, fired, l')" by (metis prod_cases3)
  have inv': "worker_inv self peers (fire fired (set_lock i l' w))" using worker_inv_sets(2) [OF inv] l(1) r by simp
  show ?thesis
  proof (cases out)
    case (RecallNeeded h)
    have "thread_ok self peers (h_node_id h) (h_thread_id h)" using l(2) r RecallNeeded by simp
    then have "h_node_id h = we_node env \<Longrightarrow> unat (thread_raw (h_thread_id h)) < we_peers env" using env by (simp add: env_of_def thread_ok_def)
    then show ?thesis using inv' safe_sent [OF sent_post inv'] r RecallNeeded by (simp add: handle_acquire_def Let_def)
  qed (use inv' r in \<open>simp_all add: handle_acquire_def Let_def\<close>)
qed

lemma safe_step:
  assumes env: "env_of self peers env" and inv: "worker_inv self peers w" and m: "message_ok self peers m"
  shows "safe self peers (worker_step env m w)"
proof -
  have ok: "env_ok env" using env by (simp add: env_of_def)
  show ?thesis
  proof (cases m)
    case (RunOp op_id name ids payload reply)
    show ?thesis unfolding RunOp worker_step.simps handle_run_op_def
      by (intro safe_bind [OF safe_sent [OF for_all_sent] safe_try_run] sent_helpers ok worker_inv_sets(1) inv) (auto simp: op_waits_def)
  next
    case (WAcquire op_id i n t reply)
    then show ?thesis using safe_acquire [OF env inv] m by (simp add: message_ok_def)
  next
    case (AcquireGranted op_id i)
    show ?thesis
    proof (cases "map_of (wk_ops w) op_id")
      case None
      then show ?thesis by (simp add: AcquireGranted handle_acquire_granted_def safe_release ok inv)
    next
      case (Some x)
      then have "op_waits x" by (rule inv_op [OF inv])
      then show ?thesis
        by (auto simp: AcquireGranted handle_acquire_granted_def Some op_waits_def intro!: safe_try_run ok worker_inv_sets(1) inv)
    qed
  next
    case (AcquireFailed op_id i n)
    then show ?thesis by (simp add: handle_acquire_failed_def safe_fail_op ok inv safe_sent [OF sent_helpers(1)])
  next
    case (WRecall i reply)
    have "worker_inv self peers (w\<lparr>wk_cache := c, wk_ops := snd (wound i (wk_ops w))\<rparr>)" for c
      using inv inv_wound [of "wk_ops w" i] by (simp add: worker_inv_def)
    then show ?thesis by (simp add: WRecall handle_recall_def case_prod_beta Let_def safe_sent [OF sent_helpers(1)] ok split: option.split)
  next
    case (WRelease i)
    have "lock_ok self peers l" if "map_of (wk_locks w) i = Some l" for l using inv map_of_SomeD [OF that] by (auto simp: worker_inv_def)
    then show ?thesis using inv by (auto simp: WRelease handle_release_def case_prod_beta Let_def intro!: worker_inv_sets(2) lock_ok_release split: option.split)
  next
    case (ReleaseLocksHeldBy n)
    have "list_all (\<lambda>(i, l). lock_ok self peers l) (wk_locks w)" using inv by (auto simp: worker_inv_def list_all_iff)
    then show ?thesis using inv_release_dead [OF inv] by (simp add: ReleaseLocksHeldBy)
  next
    case (WIndexUpdate target op_id k p reply)
    show ?thesis using inv
      by (auto simp: WIndexUpdate handle_index_update_def case_prod_beta Let_def split: sum.split)
  next
    case (IndexQuery target k q reply)
    show ?thesis using inv by (auto simp: IndexQuery handle_index_query_def case_prod_beta split: sum.split)
  next
    case (IndexExecute target k p reply)
    show ?thesis using inv
      by (auto simp: IndexExecute handle_index_execute_def case_prod_beta Let_def split: sum.split)
  qed (use inv ok in \<open>simp_all add: safe_index_update_replied safe_exists_check_replied handle_exists_check_def case_prod_beta Let_def\<close>)
qed

lemma safe_run:
  "worker_inv self peers w \<Longrightarrow> list_all (\<lambda>(env, m). env_of self peers env \<and> message_ok self peers m) ms \<Longrightarrow> safe self peers (worker_run ms w)"
proof (induction ms arbitrary: w)
  case (Cons x ms)
  obtain env m where x: "x = (env, m)" by (cases x)
  show ?case unfolding x worker_run.simps by (rule safe_bind [OF safe_step]) (use Cons x in auto)
qed simp

section \<open>The end of an operation\<close>

fun first_some :: "'a option list \<Rightarrow> 'a option" where
  "first_some [] = None"
| "first_some (Some x # xs) = Some x"
| "first_some (None # xs) = first_some xs"

lemma first_violation_some: "st_violation (first_violation v st) = first_some [st_violation st, v]"
  by (cases "st_violation st"; cases v) (simp_all add: first_violation_def)

lemma first_some_pair: "first_some (first_some [a, b] # xs) = first_some (a # b # xs)"
  by (cases a; cases b) simp_all

lemma first_violation_simps [simp]:
  "st_pending (first_violation v st) = st_pending st" "st_op_result (first_violation v st) = st_op_result st"
  "st_staged_writes (first_violation v st) = st_staged_writes st"
  by (simp_all add: first_violation_def)

text \<open>What an operation has done when it is over: its answer is sent, and its writes are in the store if the answer is a result.\<close>

definition over ::
    "'s store_ops \<Rightarrow> datum_id \<Rightarrow> op_record \<Rightarrow> rstring option \<Rightarrow> bytes \<Rightarrow> staged_write list \<Rightarrow> cache \<Rightarrow> ('s, 'r) worker \<Rightarrow> ('s, 'r) worker \<Rightarrow> bool" where
  "over ops op_id x violation res staged c w w' \<longleftrightarrow>
     map_of (wk_ops w') op_id = None \<and>
     (case violation of
        None \<Rightarrow> answers w' = answers w @ [(or_reply x, Inr res)] \<and> wk_store w' = snd (fold (commit_write ops) staged (c, wk_store w))
      | Some message \<Rightarrow> answers w' = answers w @ [(or_reply x, Inl message)] \<and> wk_store w' = wk_store w)"

lemma set_op_simps [simp]:
  "map_of (wk_ops (set_op k x w)) = (map_of (wk_ops w))(k \<mapsto> x)" "wk_store (set_op k x w) = wk_store w" "wk_cache (set_op k x w) = wk_cache w"
  "answers (set_op k x w) = answers w"
  by (simp_all add: set_op_def update_conv' fun_eq_iff)

lemma remove_op_simps [simp]:
  "map_of (wk_ops (remove_op k w)) = (map_of (wk_ops w))(k := None)" "wk_store (remove_op k w) = wk_store w" "wk_cache (remove_op k w) = wk_cache w"
  "answers (remove_op k w) = answers w"
  by (simp_all add: remove_op_def delete_conv')

lemma commit_simps [simp]:
  "wk_store (commit ops st w) = snd (fold (commit_write ops) st (wk_cache w, wk_store w))" "answers (commit ops st w) = answers w"
  by (simp_all add: commit_def case_prod_beta Let_def)

lemma release_over:
  assumes "env_ok env" "over ops op_id x v res staged c w u"
  shows "\<exists>w'. release_datums env is u = Inr w' \<and> over ops op_id x v res staged c w w'"
  using release_sent [OF assms(1), of "is" u] assms(2) by (cases v) (auto simp: sent_def quiet_def over_def)

lemma finish_over:
  assumes "env_ok env" "map_of (wk_ops w) op_id = Some x" "or_index_update_state x = Some st" "st_pending st = 0"
  shows "\<exists>w'. finish_op_if_settled env op_id w = Inr w' \<and> over (we_store env) op_id x (st_violation st) (st_op_result st) (st_staged_writes st) (wk_cache w) w w'"
proof -
  let ?u = "case st_violation st of
      Some message \<Rightarrow> emit (Reply (or_reply x) (Inl message)) (remove_op op_id w)
    | None \<Rightarrow> emit (Reply (or_reply x) (Inr (st_op_result st))) (commit (we_store env) (st_staged_writes st) (remove_op op_id w))"
  have "over (we_store env) op_id x (st_violation st) (st_op_result st) (st_staged_writes st) (wk_cache w) w ?u"
    by (cases "st_violation st") (simp_all add: over_def)
  from release_over [OF assms(1) this, of "or_acquired x"] show ?thesis using assms by (simp add: finish_op_if_settled_def Let_def)
qed

lemma over_cong:
  "over ops k x v res staged c w w' \<Longrightarrow> or_reply y = or_reply x \<Longrightarrow> answers u = answers w \<Longrightarrow> wk_store u = wk_store w \<Longrightarrow> over ops k y v res staged c u w'"
  by (cases v) (simp_all add: over_def)

lemma first_some_single [simp]: "first_some [a] = a"
  by (cases a) simp_all

lemma replies_over:
  assumes "env_ok env" "map_of (wk_ops w) op_id = Some x" "or_index_update_state x = Some st" "st_pending st = length tvs" "tvs \<noteq> []"
  shows "\<exists>w'. worker_run (map (\<lambda>(t, v). (env, IndexUpdateReplied op_id t v)) tvs) w = Inr w' \<and>
    over (we_store env) op_id x (first_some (st_violation st # map snd tvs)) (st_op_result st) (st_staged_writes st) (wk_cache w) w w'"
  using assms(2-)
proof (induction tvs arbitrary: w x st)
  case (Cons tv tvs)
  obtain t v where tv: "tv = (t, v)" by (cases tv)
  let ?st = "first_violation v (st\<lparr>st_pending := st_pending st - 1\<rparr>)"
  let ?x = "x\<lparr>or_index_update_state := Some ?st\<rparr>"
  let ?w = "set_op op_id ?x w"
  have w: "map_of (wk_ops ?w) op_id = Some ?x" "or_index_update_state ?x = Some ?st" by simp_all
  have viol: "first_some (st_violation ?st # map snd tvs) = first_some (st_violation st # map snd (tv # tvs))"
    by (simp add: first_violation_some first_some_pair tv)
  have step: "worker_step env (IndexUpdateReplied op_id t v) w = finish_op_if_settled env op_id ?w"
    using Cons.prems by (simp add: handle_index_update_replied_def one_less_def)
  show ?case
  proof (cases "tvs = []")
    case True
    then have "st_pending ?st = 0" using Cons.prems(3) by simp
    from finish_over [OF assms(1) w this] obtain w' where f: "finish_op_if_settled env op_id ?w = Inr w'"
      "over (we_store env) op_id ?x (st_violation ?st) (st_op_result st) (st_staged_writes st) (wk_cache w) ?w w'" by auto
    have "over (we_store env) op_id x (st_violation ?st) (st_op_result st) (st_staged_writes st) (wk_cache w) w w'"
      by (rule over_cong [OF f(2)]) simp_all
    then show ?thesis using step f(1) viol True tv by simp
  next
    case False
    then have pend: "st_pending ?st = length tvs" "st_pending ?st \<noteq> 0" using Cons.prems(3) by simp_all
    then have fin: "finish_op_if_settled env op_id ?w = Inr ?w" by (simp add: finish_op_if_settled_def)
    from Cons.IH [OF w pend(1) False] obtain w' where f: "worker_run (map (\<lambda>(t, v). (env, IndexUpdateReplied op_id t v)) tvs) ?w = Inr w'"
      "over (we_store env) op_id ?x (first_some (st_violation st # map snd (tv # tvs))) (st_op_result st) (st_staged_writes st) (wk_cache w) ?w w'"
      unfolding viol by auto
    have "over (we_store env) op_id x (first_some (st_violation st # map snd (tv # tvs))) (st_op_result st) (st_staged_writes st) (wk_cache w) w w'"
      by (rule over_cong [OF f(2)]) simp_all
    moreover have "worker_run (map (\<lambda>(t, v). (env, IndexUpdateReplied op_id t v)) (tv # tvs)) w = Inr w'" using step fin f(1) tv by simp
    ultimately show ?thesis by blast
  qed
qed simp

lemma commit_contents:
  assumes "distinct (map fst staged)"
  shows "mem_data (snd (fold (commit_write in_memory_ops) staged (c, s))) i = (case map_of staged i of Some (v, _) \<Rightarrow> v | None \<Rightarrow> mem_data s i)"
  using assms
proof (induction staged arbitrary: c s)
  case (Cons x staged)
  obtain j v n where x: "x = (j, v, n)" by (cases x)
  obtain c' s' where w: "commit_write in_memory_ops x (c, s) = (c', s')" by fastforce
  have "mem_data s' = (mem_data s)(j := v)"
    using w x by (cases v) (auto simp: commit_write_def cache_put_replicated_def cache_delete_replicated_def in_memory_ops_def default_put_with_previous_def
        in_memory_put_def in_memory_delete_def Let_def)
  moreover have "map_of staged j = None" using Cons.prems x by (simp add: map_of_eq_None_iff)
  ultimately show ?case using Cons w x by (auto split: option.splits)
qed simp

text \<open>An operation that gets its last datum, and the replies to the updates it schedules.\<close>

lemma start_updates_op:
  assumes "env_ok env" "start_updates env op_id x staged res us [] w = r"
  shows "\<exists>w'. r = Inr w' \<and> quiet (set_op op_id (x\<lparr>or_index_update_state := Some \<lparr>st_staged_writes = staged, st_op_result = res,
      st_pending = length us, st_violation = None, st_exists_expectations = Map.empty\<rparr>\<rparr>) w) w'"
  using for_all_sent [of "\<lambda>u. dispatch_index_update env op_id (pu_target u) (pu_index_kind u) (pu_payload u)", OF sent_helpers(3) [OF assms(1)]] assms(2)
  by (auto simp: start_updates_def sent_def)

lemma granted_over:
  assumes env: "env_ok env" and x: "map_of (wk_ops w) op_id = Some x" "or_index_update_state x = None" "set (or_still_needed x) \<subseteq> {i}"
    and inv: "invoke (we_ops env) (wk_store w) (or_op_name x) (ctx_new (wk_cache w)) (or_datum_ids x) (or_payload x) = (outcome, ctx)"
    and checks: "oc_exists_checks ctx = []"
  shows "outcome = Inl e \<Longrightarrow> \<exists>w'. worker_step env (AcquireGranted op_id i) w = Inr w' \<and> over (we_store env) op_id x (Some e) res staged c w w'"
    "outcome = Inr res \<Longrightarrow> length tvs = length (oc_index_updates ctx) \<Longrightarrow>
      \<exists>w'. worker_run ((env, AcquireGranted op_id i) # map (\<lambda>(t, v). (env, IndexUpdateReplied op_id t v)) tvs) w = Inr w' \<and>
        (\<exists>c. over (we_store env) op_id x (first_some (map snd tvs)) res (oc_staged ctx) c w w')"
proof -
  let ?x = "x\<lparr>or_still_needed := filter (\<lambda>j. j \<noteq> i) (or_still_needed x), or_acquired := or_acquired x @ [i]\<rparr>"
  let ?w = "set_op op_id ?x w" and ?u = "set_op op_id ?x w\<lparr>wk_cache := oc_cache ctx\<rparr>"
  have need: "or_still_needed ?x = []" using x(3) by (auto simp: filter_empty_conv)
  have step: "worker_step env (AcquireGranted op_id i) w = (case outcome of
      Inl message \<Rightarrow> release_datums env (or_acquired ?x) (emit (Reply (or_reply x) (Inl message)) (remove_op op_id ?u))
    | Inr op_result \<Rightarrow> if oc_index_updates ctx = []
        then release_datums env (or_acquired ?x) (emit (Reply (or_reply x) (Inr op_result)) (remove_op op_id (commit (we_store env) (oc_staged ctx) ?u)))
        else start_updates env op_id ?x (oc_staged ctx) op_result (oc_index_updates ctx) [] ?u)"
    using need x(2) inv checks
    by (simp add: handle_acquire_granted_def x(1) try_run_if_ready_def take_staged_writes_def take_pending_index_updates_def take_pending_exists_checks_def
        split: sum.split)
  show "\<exists>w'. worker_step env (AcquireGranted op_id i) w = Inr w' \<and> over (we_store env) op_id x (Some e) res staged c w w'" if "outcome = Inl e"
  proof -
    have "over (we_store env) op_id x (Some e) res staged c w (emit (Reply (or_reply x) (Inl e)) (remove_op op_id ?u))"
      by (simp add: over_def)
    from release_over [OF env this] show ?thesis using step that by simp
  qed
  show "\<exists>w'. worker_run ((env, AcquireGranted op_id i) # map (\<lambda>(t, v). (env, IndexUpdateReplied op_id t v)) tvs) w = Inr w' \<and>
        (\<exists>c. over (we_store env) op_id x (first_some (map snd tvs)) res (oc_staged ctx) c w w')"
    if o: "outcome = Inr res" "length tvs = length (oc_index_updates ctx)"
  proof (cases "tvs = []")
    case True
    have "over (we_store env) op_id x None res (oc_staged ctx) (oc_cache ctx) w
        (emit (Reply (or_reply x) (Inr res)) (remove_op op_id (commit (we_store env) (oc_staged ctx) ?u)))"
      by (simp add: over_def)
    from release_over [OF env this, of "or_acquired ?x"] show ?thesis using step o True by auto
  next
    case False
    let ?st = "\<lparr>st_staged_writes = oc_staged ctx, st_op_result = res, st_pending = length tvs, st_violation = None, st_exists_expectations = Map.empty\<rparr>"
    obtain v where v: "worker_step env (AcquireGranted op_id i) w = Inr v" "quiet (set_op op_id (?x\<lparr>or_index_update_state := Some ?st\<rparr>) ?u) v"
    proof -
      have "worker_step env (AcquireGranted op_id i) w = start_updates env op_id ?x (oc_staged ctx) res (oc_index_updates ctx) [] ?u"
        unfolding step using o False by auto
      from start_updates_op [OF env this [symmetric]] show ?thesis using that o(2) by auto
    qed
    have "map_of (wk_ops v) op_id = Some (?x\<lparr>or_index_update_state := Some ?st\<rparr>)"
    proof -
      have "wk_ops v = wk_ops (set_op op_id (?x\<lparr>or_index_update_state := Some ?st\<rparr>) ?u)" using v(2) by (simp add: quiet_def)
      then show ?thesis by simp
    qed
    from replies_over [OF env this _ _ False, of ?st] obtain w' where r:
      "worker_run (map (\<lambda>(t, v). (env, IndexUpdateReplied op_id t v)) tvs) v = Inr w'"
      "over (we_store env) op_id (?x\<lparr>or_index_update_state := Some ?st\<rparr>) (first_some (map snd tvs)) res (oc_staged ctx) (wk_cache v) v w'" by auto
    moreover have "answers v = answers w" "wk_store v = wk_store w" using v(2) by (simp_all add: quiet_def)
    ultimately have "over (we_store env) op_id x (first_some (map snd tvs)) res (oc_staged ctx) (wk_cache v) w w'"
      by (intro over_cong [OF r(2)]) simp_all
    then show ?thesis using v(1) r(1) by auto
  qed
qed

lemma send_acquire_emits:
  assumes "env_ok env"
  shows "\<exists>e. send_acquire env op_id n i w = Inr (emit e w) \<and> answer_of e = []"
proof -
  obtain a b where h: "native_home env i = Inr (a, b)" "a = we_node env \<longrightarrow> unat (thread_raw b) < we_peers env" by (rule home_ok [OF assms])
  let ?e = "if a = we_node env then Post b (WAcquire op_id i (we_node env) (we_thread env) (AcquireLocal (we_thread env)))
    else if we_linked env a then Call a b (Acquire op_id i (we_node env) (we_thread env)) (OnAcquire op_id i n)
    else Post (we_thread env) (AcquireFailed op_id i n)"
  show ?thesis by (intro exI [of _ ?e]) (use h in \<open>simp add: send_acquire_def post_peer_def\<close>)
qed

lemma distinct_submultiset: "mset xs \<subseteq># mset ys \<Longrightarrow> distinct ys \<Longrightarrow> distinct xs"
proof -
  assume "mset xs \<subseteq># mset ys" "distinct ys"
  then obtain zs where "mset ys = mset (xs @ zs)" by (metis ex_mset mset_append mset_subset_eq_exists_conv)
  then show ?thesis using \<open>distinct ys\<close> mset_eq_imp_distinct_iff [of ys "xs @ zs"] by simp
qed

section \<open>Properties\<close>

text \<open>A node of one thread, alone on its ring, with one operation.\<close>

definition one_thread :: "(in_memory_store, sk_resident) worker_env" where
  "one_thread =
     \<lparr>we_node = NodeId 1, we_thread = ThreadId 0, we_peers = 1, we_ring = from_members [(NodeId 1, 1)], we_linked = (\<lambda>_. False),
      we_store = in_memory_ops, we_ops = [(lit ''put'', \<lambda>_ ctx ids payload. (Some [], ctx_put (DatumId 2) payload ctx))], we_kinds = Map.empty,
      we_resident = \<lparr>ro_apply = sk_apply, ro_query = \<lambda>q _. no_query q, ro_execute = \<lambda>p r. (no_execute p, r)\<rparr>\<rparr>"

lemma one_thread_ok: "env_ok one_thread"
  by (simp add: one_thread_def env_ok_def slots_from_members upt_rec)



text \<open>
  C27: Nobody is answered twice. Over any sequence of messages that a worker handles, the answers it
  sends go to channels of the questions it was asked, and to each at most as often as it was given:
  with a channel of its own for every question, at most once.
\<close>

theorem every_question_is_answered_at_most_once:
  assumes "worker_run ms (worker_start s) = Inr w" and "distinct (concat (map (asked \<circ> snd) ms))"
  shows "distinct (map fst (answers w)) \<and> set (map fst (answers w)) \<subseteq> set (concat (map (asked \<circ> snd) ms))"
proof -
  have "mset (map fst (answers w)) \<subseteq># mset (concat (map (asked \<circ> snd) ms))"
    using fair_run [OF assms(1)] by (auto simp: balance_def worker_start_def answers_def intro: subset_mset.order_trans [OF mset_subset_eq_add_left])
  then show ?thesis using distinct_submultiset [OF _ assms(2)] set_mset_mono by fastforce
qed

theorem every_question_is_answered_at_most_once_witness:
  "\<exists>w. worker_run [(one_thread, IndexQuery (DatumId 1) (lit ''sk'') [] 7)] (worker_start in_memory_new) = Inr w \<and> distinct (map fst (answers w)) \<and> map fst (answers w) = [7]"
proof -
  let ?ms = "[(one_thread, IndexQuery (DatumId 1) (lit ''sk'') [] 7)]"
  obtain w where w: "worker_run ?ms (worker_start in_memory_new) = Inr w" by simp
  then have "map fst (answers w) = [7]" by (auto simp: handle_index_query_def resident_of_def worker_start_def answers_def emit_def one_thread_def)
  then show ?thesis using every_question_is_answered_at_most_once [OF w] w by auto
qed



text \<open>
  C35: An operation that loses a datum while its index updates are out writes it all the same. A recall
  takes the datum away and lets its home grant it to another operation; the operation is to wait for
  it again, but when the last reply comes in, its staged write of the datum is committed and its
  caller is told that it succeeded.
\<close>

theorem wounded_operations_still_commit:
  assumes "env_ok env" and "we_store env = in_memory_ops" and "wk_ops w = [(op_id, x)]" and "or_acquired x = [i]"
    and "or_index_update_state x = Some st" and "st_pending st = 1" and "st_violation st = None" and "st_staged_writes st = [(i, Some bs, n)]"
  shows "\<exists>w1 w2 y. worker_step env (WRecall i (RecallLocal home)) w = Inr w1 \<and> Post home (WRelease i) \<in> set (wk_out w1) \<and>
    map_of (wk_ops w1) op_id = Some y \<and> i \<notin> set (or_acquired y) \<and> i \<in> set (or_still_needed y) \<and>
    worker_step env (IndexUpdateReplied op_id t None) w1 = Inr w2 \<and> mem_data (wk_store w2) i = Some bs \<and>
    (or_reply x, Inr (st_op_result st)) \<in> set (answers w2)"
proof -
  let ?y = "x\<lparr>or_acquired := [], or_still_needed := or_still_needed x @ [i]\<rparr>"
  let ?u = "ack (RecallLocal home) i (w\<lparr>wk_cache := cache_invalidate (wk_cache w) i, wk_ops := [(op_id, ?y)]\<rparr>)"
  have out: "Post home (WRelease i) \<in> set (wk_out ?u)" by (simp add: ack_def emit_def)
  obtain e where e: "send_acquire env op_id MAX_ACQUIRE_RETRIES i ?u = Inr (emit e ?u)" "answer_of e = []"
    using send_acquire_emits [OF assms(1)] by blast
  have r: "worker_step env (WRecall i (RecallLocal home)) w = Inr (emit e ?u)"
    using e(1) assms(3,4) by (simp add: handle_recall_def)
  have y: "map_of (wk_ops (emit e ?u)) op_id = Some ?y" by (simp add: ack_def)
  obtain w2 where w2: "worker_run [(env, IndexUpdateReplied op_id t None)] (emit e ?u) = Inr w2"
    "over in_memory_ops op_id ?y None (st_op_result st) [(i, Some bs, n)] (wk_cache (emit e ?u)) (emit e ?u) w2"
    using replies_over [OF assms(1) y, of st "[(t, None)]"] assms(2,5-8) by auto
  have "mem_data (wk_store w2) i = Some bs" using w2(2) commit_contents [of "[(i, Some bs, n)]" _ _ i] by (simp add: over_def)
  moreover have "(or_reply x, Inr (st_op_result st)) \<in> set (answers w2)" using w2(2) by (simp add: over_def)
  moreover have "worker_step env (IndexUpdateReplied op_id t None) (emit e ?u) = Inr w2" using w2(1) by (cases "worker_step env (IndexUpdateReplied op_id t None) (emit e ?u)") simp_all
  moreover have "Post home (WRelease i) \<in> set (wk_out (emit e ?u))" using out by (simp add: emit_def)
  ultimately show ?thesis using r y by (intro exI [of _ "emit e ?u"] exI [of _ w2] exI [of _ ?y]) simp
qed

theorem wounded_operations_still_commit_witness:
  "\<exists>w1 w2. worker_step one_thread (WRecall (DatumId 2) (RecallLocal (ThreadId 0)))
     \<lparr>wk_cache = cache_new, wk_store = in_memory_new, wk_locks = [],
      wk_ops = [(DatumId 9, \<lparr>or_op_name = lit ''put'', or_payload = [5], or_datum_ids = [DatumId 2], or_still_needed = [], or_acquired = [DatumId 2], or_reply = 3,
        or_index_update_state = Some \<lparr>st_staged_writes = [(DatumId 2, Some [5], 1)], st_op_result = [], st_pending = 1, st_violation = None,
          st_exists_expectations = Map.empty\<rparr>\<rparr>)], wk_resident = Map.empty, wk_out = []\<rparr> = Inr w1 \<and>
     worker_step one_thread (IndexUpdateReplied (DatumId 9) (DatumId 7) None) w1 = Inr w2 \<and> mem_data (wk_store w2) (DatumId 2) = Some [5]"
proof -
  let ?st = "\<lparr>st_staged_writes = [(DatumId 2, Some [5], 1)], st_op_result = [], st_pending = 1, st_violation = None, st_exists_expectations = Map.empty\<rparr>"
  let ?x = "\<lparr>or_op_name = lit ''put'', or_payload = [5], or_datum_ids = [DatumId 2], or_still_needed = [], or_acquired = [DatumId 2], or_reply = 3,
      or_index_update_state = Some ?st\<rparr>"
  let ?w = "\<lparr>wk_cache = cache_new, wk_store = in_memory_new, wk_locks = [], wk_ops = [(DatumId 9, ?x)], wk_resident = Map.empty, wk_out = []\<rparr> :: (in_memory_store, sk_resident) worker"
  have "we_store one_thread = in_memory_ops" by (simp add: one_thread_def)
  from wounded_operations_still_commit [OF one_thread_ok this, of ?w "DatumId 9" ?x "DatumId 2" ?st "[5]" 1 "ThreadId 0" "DatumId 7"]
  show ?thesis by auto
qed

text \<open>
  Two references to one missing datum fail an operation that tracks missing references. The checks
  of the two share one expectation, which the first answer takes; the second answer finds none and
  counts as a dangling reference, although the type of the reference says that a missing target is to
  be recorded and the operation to go on.
\<close>

theorem second_missing_reference_is_refused:
  assumes "env_ok env" and "checks = [\<lparr>pc_target = t, pc_expect = Present (MissingTrack d k e1)\<rparr>, \<lparr>pc_target = t, pc_expect = Present (MissingTrack d k e2)\<rparr>]"
    and "start_updates env op_id x staged res [] checks w = Inr w1"
  shows "\<exists>w'. worker_run [(env, ExistsCheckReplied op_id t False), (env, ExistsCheckReplied op_id t False), (env, IndexUpdateReplied op_id d None)] w1 = Inr w' \<and>
    answers w' = answers w @ [(or_reply x, Inl (lit ''dangling reference: '' @ debug_datum_id t @ lit '' does not exist''))] \<and> wk_store w' = wk_store w"
proof -
  let ?st0 = "\<lparr>st_staged_writes = staged, st_op_result = res, st_pending = Suc (Suc 0), st_violation = None,
      st_exists_expectations = [t \<mapsto> Present (MissingTrack d k e2)]\<rparr>"
  let ?st1 = "?st0\<lparr>st_exists_expectations := Map.empty\<rparr>"
  let ?msg = "lit ''dangling reference: '' @ debug_datum_id t @ lit '' does not exist''"
  let ?st2 = "?st1\<lparr>st_pending := Suc 0, st_violation := Some ?msg\<rparr>"
  let ?x = "\<lambda>st. x\<lparr>or_index_update_state := Some st\<rparr>"
  have "quiet (set_op op_id (?x ?st0) w) w1"
  proof -
    have "for_all (\<lambda>check. dispatch_exists_check env op_id (pc_target check)) checks (set_op op_id (?x ?st0) w) = Inr w1"
      using assms(3) by (simp add: start_updates_def assms(2))
    then show ?thesis using for_all_keeps [of "\<lambda>check. dispatch_exists_check env op_id (pc_target check)", OF keeps_helpers(2)] by (auto simp: keeps_def)
  qed
  then have w1: "map_of (wk_ops w1) op_id = Some (?x ?st0)" "answers w1 = answers w" "wk_store w1 = wk_store w" by (simp_all add: quiet_def)
  obtain v where v: "dispatch_index_update env op_id d k e2 (set_op op_id (?x ?st1) w1) = Inr v" "quiet (set_op op_id (?x ?st1) w1) v"
    using sent_helpers(3) [OF assms(1), of op_id d k e2 "set_op op_id (?x ?st1) w1"] by (auto simp: sent_def)
  then have v': "map_of (wk_ops v) op_id = Some (?x ?st1)" "answers v = answers w" "wk_store v = wk_store w" using w1 by (simp_all add: quiet_def)
  have f1: "finish_op_if_settled env op_id v = Inr v" using v'(1) by (simp add: finish_op_if_settled_def)
  have s1: "worker_step env (ExistsCheckReplied op_id t False) w1 = Inr v"
    using w1(1) v(1) f1 by (simp add: handle_exists_check_replied_def one_less_def exists_verdict_def)
  have s2: "worker_step env (ExistsCheckReplied op_id t False) v = Inr (set_op op_id (?x ?st2) v)"
    using v'(1) by (simp add: handle_exists_check_replied_def one_less_def exists_verdict_def first_violation_def finish_op_if_settled_def)
  have "map_of (wk_ops (set_op op_id (?x ?st2) v)) op_id = Some (?x ?st2)" by simp
  from replies_over [OF assms(1) this, of ?st2 "[(d, None)]"] obtain w' where
    "worker_run [(env, IndexUpdateReplied op_id d None)] (set_op op_id (?x ?st2) v) = Inr w'"
    "over (we_store env) op_id (?x ?st2) (Some ?msg) res staged (wk_cache v) (set_op op_id (?x ?st2) v) w'" by auto
  then show ?thesis using s1 s2 v'(2,3) by (auto simp: over_def)
qed

theorem second_missing_reference_is_refused_witness:
  "\<exists>w1 w'. start_updates one_thread (DatumId 9) \<lparr>or_op_name = lit ''put'', or_payload = [], or_datum_ids = [], or_still_needed = [], or_acquired = [], or_reply = 3,
       or_index_update_state = None\<rparr> [] [] []
       [\<lparr>pc_target = DatumId 4, pc_expect = Present (MissingTrack (DatumId 7) (lit ''fk_pending'') [1])\<rparr>,
        \<lparr>pc_target = DatumId 4, pc_expect = Present (MissingTrack (DatumId 7) (lit ''fk_pending'') [2])\<rparr>] (worker_start in_memory_new) = Inr w1 \<and>
     worker_run [(one_thread, ExistsCheckReplied (DatumId 9) (DatumId 4) False), (one_thread, ExistsCheckReplied (DatumId 9) (DatumId 4) False),
       (one_thread, IndexUpdateReplied (DatumId 9) (DatumId 7) None)] w1 = Inr w' \<and> map (isl \<circ> snd) (answers w') = [True]"
proof -
  let ?x = "\<lparr>or_op_name = lit ''put'', or_payload = [], or_datum_ids = [], or_still_needed = [], or_acquired = [], or_reply = 3, or_index_update_state = None\<rparr>"
  let ?checks = "[\<lparr>pc_target = DatumId 4, pc_expect = Present (MissingTrack (DatumId 7) (lit ''fk_pending'') [1])\<rparr>,
        \<lparr>pc_target = DatumId 4, pc_expect = Present (MissingTrack (DatumId 7) (lit ''fk_pending'') [2])\<rparr>]"
  obtain w1 where w1: "start_updates one_thread (DatumId 9) ?x [] [] [] ?checks (worker_start in_memory_new) = Inr w1"
    using safe_start_updates [OF one_thread_ok, of "NodeId 1" 1 "worker_start in_memory_new" "[]" ?checks "DatumId 9" ?x "[]" "[]"]
    by (auto simp: safe_def worker_inv_def worker_start_def)
  have "answers (worker_start in_memory_new :: (in_memory_store, sk_resident) worker) = []" by (simp add: answers_def worker_start_def)
  with second_missing_reference_is_refused [OF one_thread_ok refl w1] w1 show ?thesis by auto
qed
end
