(* ===== verification/Lru.thy ===== *)
theory Lru
  imports Wire_Queries "HOL-Library.AList" "HOL-Library.Multiset"
begin

text \<open>
  The small least-recently-used cache of leaderboard entries, \<open>LruMiddle\<close> of
  \<open>seisin-types/src/lb_cache.rs\<close>, and its refinement of a list of entries in the order of their last
  use. The hash map is an association list with one pair per player, the sequence number counts.
\<close>

record lru_middle =
  lm_entries :: "(datum_id \<times> lb_entry \<times> nat) list"
  lm_next_seq :: nat
  lm_cap :: nat

definition lru_new :: "nat \<Rightarrow> lru_middle" where
  "lru_new cap = \<lparr>lm_entries = [], lm_next_seq = 0, lm_cap = cap\<rparr>"

text \<open>\<open>iter().min_by_key(..)\<close>: the first pair with the least sequence number.\<close>

fun min_by_seq :: "(datum_id \<times> lb_entry \<times> nat) list \<Rightarrow> (datum_id \<times> lb_entry \<times> nat) option" where
  "min_by_seq [] = None"
| "min_by_seq (x # xs) =
     (case min_by_seq xs of
        None \<Rightarrow> Some x
      | Some y \<Rightarrow> if snd (snd y) < snd (snd x) then Some y else Some x)"

definition lru_touch :: "lb_entry \<Rightarrow> lru_middle \<Rightarrow> lru_middle" where
  "lru_touch entry m =
     (let seq = lm_next_seq m;
          es = AList.update (lbe_player_id entry) (entry, seq) (lm_entries m);
          m = m\<lparr>lm_next_seq := seq + 1\<rparr>
      in if lm_cap m = 0 then m\<lparr>lm_entries := []\<rparr>
         else if length es > lm_cap m then
           (case min_by_seq es of
              Some (evict, _) \<Rightarrow> m\<lparr>lm_entries := AList.delete evict es\<rparr>
            | None \<Rightarrow> m\<lparr>lm_entries := es\<rparr>)
         else m\<lparr>lm_entries := es\<rparr>)"

definition lru_get :: "datum_id \<Rightarrow> lru_middle \<Rightarrow> lb_entry option \<times> lru_middle" where
  "lru_get player_id m =
     (let seq = lm_next_seq m;
          m = m\<lparr>lm_next_seq := seq + 1\<rparr>
      in case map_of (lm_entries m) player_id of
           None \<Rightarrow> (None, m)
         | Some (entry, s) \<Rightarrow> (Some entry, m\<lparr>lm_entries := AList.update player_id (entry, seq) (lm_entries m)\<rparr>))"

definition lru_remove :: "datum_id \<Rightarrow> lru_middle \<Rightarrow> lru_middle" where
  "lru_remove player_id m = m\<lparr>lm_entries := AList.delete player_id (lm_entries m)\<rparr>"

section \<open>The entries in the order of their last use\<close>

text \<open>The specification: the entries, last used first.\<close>

definition others :: "datum_id \<Rightarrow> lb_entry list \<Rightarrow> lb_entry list" where
  "others p = filter (\<lambda>e. lbe_player_id e \<noteq> p)"

definition recent_touch :: "nat \<Rightarrow> lb_entry \<Rightarrow> lb_entry list \<Rightarrow> lb_entry list" where
  "recent_touch cap e es = take cap (e # others (lbe_player_id e) es)"

definition recent_get :: "datum_id \<Rightarrow> lb_entry list \<Rightarrow> lb_entry option \<times> lb_entry list" where
  "recent_get p es =
     (case find (\<lambda>e. lbe_player_id e = p) es of
        None \<Rightarrow> (None, es)
      | Some e \<Rightarrow> (Some e, e # others p es))"

text \<open>The pairs sorted by their sequence numbers, the greatest first, list the entries.\<close>

definition ordered :: "lru_middle \<Rightarrow> (datum_id \<times> lb_entry \<times> nat) list \<Rightarrow> bool" where
  "ordered m T \<longleftrightarrow>
     sorted_wrt (\<lambda>x y. snd (snd y) < snd (snd x)) T \<and> mset T = mset (lm_entries m) \<and> distinct (map fst T) \<and>
     (\<forall>(p, e, s) \<in> set T. p = lbe_player_id e \<and> s < lm_next_seq m) \<and> length T \<le> lm_cap m"

definition lists_recent :: "lru_middle \<Rightarrow> lb_entry list \<Rightarrow> bool" where
  "lists_recent m es \<longleftrightarrow> (\<exists>T. ordered m T \<and> map (fst \<circ> snd) T = es)"

lemma ordered_facts:
  assumes "ordered m T"
  shows "distinct (map fst (lm_entries m))" "map_of (lm_entries m) = map_of T" "length T = length (lm_entries m)" "set (lm_entries m) = set T"
proof -
  have m: "mset T = mset (lm_entries m)" and d: "distinct (map fst T)" using assms by (auto simp: ordered_def)
  show len: "length T = length (lm_entries m)" using m by (rule mset_eq_length)
  show s: "set (lm_entries m) = set T" using m by (metis mset_eq_setD)
  have "mset (map fst T) = mset (map fst (lm_entries m))" using m by simp
  then show "distinct (map fst (lm_entries m))" using d by (metis mset_eq_imp_distinct_iff)
  then show "map_of (lm_entries m) = map_of T" using d s by (metis map_of_inject_set)
qed

lemma delete_filter: "AList.delete p es = filter (\<lambda>x. fst x \<noteq> p) es"
  by (auto simp: AList.delete_eq intro!: filter_cong)

lemma update_mset:
  assumes "distinct (map fst es)"
  shows "mset (AList.update p v es) = add_mset (p, v) (mset (filter (\<lambda>x. fst x \<noteq> p) es))"
  using assms
proof (induction es)
  case (Cons x es)
  have "filter (\<lambda>x. fst x \<noteq> p) es = es" if "fst x = p" 
    using that Cons.prems by (auto simp: filter_id_conv image_iff)
  then show ?case using Cons by (cases x) auto
qed simp

lemma entries_filter:
  assumes "ordered m T"
  shows "map (fst \<circ> snd) (filter (\<lambda>x. fst x \<noteq> p) T) = others p (map (fst \<circ> snd) T)"
proof -
  have "\<forall>x\<in>set T. fst x = lbe_player_id (fst (snd x))" using assms by (auto simp: ordered_def)
  then show ?thesis by (induction T) (auto simp: others_def)
qed

text \<open>The pair with the least number is the last of the sorted list.\<close>

lemma min_by_seq_least:
  "min_by_seq es = Some x \<Longrightarrow> x \<in> set es \<and> (\<forall>y\<in>set es. snd (snd x) \<le> snd (snd y))"
proof (induction es arbitrary: x)
  case (Cons a es)
  show ?case
  proof (cases "min_by_seq es")
    case None
    then have "es = []" by (cases es) (auto split: option.splits if_splits)
    then show ?thesis using Cons.prems by simp
  next
    case (Some y)
    with Cons.IH [OF Some] Cons.prems show ?thesis by (auto split: if_splits)
  qed
qed simp

lemma min_by_seq_Some: "es \<noteq> [] \<Longrightarrow> \<exists>x. min_by_seq es = Some x"
  by (cases es) (auto split: option.splits)

lemma min_is_last:
  assumes "sorted_wrt (\<lambda>x y. snd (snd y) < snd (snd x)) (T @ [z])" "set es = set (T @ [z])"
  shows "min_by_seq es = Some z"
proof -
  have "es \<noteq> []" using assms(2) by auto
  then obtain x where x: "min_by_seq es = Some x" using min_by_seq_Some by blast
  then have "x \<in> set (T @ [z])" "snd (snd x) \<le> snd (snd z)" using min_by_seq_least [OF x] assms(2) by auto
  then have "x = z" using assms(1) by (force simp: sorted_wrt_append)
  with x show ?thesis by simp
qed

section \<open>Each operation\<close>

lemma lru_new_recent: "lists_recent (lru_new cap) []"
  by (simp add: lists_recent_def ordered_def lru_new_def)

text \<open>Putting a pair with a fresh number first keeps the order.\<close>

lemma ordered_front:
  assumes "ordered m T" "p = lbe_player_id e"
  defines "T' \<equiv> (p, e, lm_next_seq m) # filter (\<lambda>x. fst x \<noteq> p) T"
  shows "sorted_wrt (\<lambda>x y. snd (snd y) < snd (snd x)) T'" "distinct (map fst T')"
    "\<forall>(q, f, s) \<in> set T'. q = lbe_player_id f \<and> s < lm_next_seq m + 1"
    "mset T' = mset (AList.update p (e, lm_next_seq m) (lm_entries m))" "length T' \<le> lm_cap m + 1"
proof -
  have o: "sorted_wrt (\<lambda>x y. snd (snd y) < snd (snd x)) T" "mset T = mset (lm_entries m)" "distinct (map fst T)"
    "\<forall>(p, e, s) \<in> set T. p = lbe_player_id e \<and> s < lm_next_seq m" "length T \<le> lm_cap m"
    using assms(1) by (simp_all add: ordered_def)
  show "sorted_wrt (\<lambda>x y. snd (snd y) < snd (snd x)) T'" using o(1,4) by (auto simp: T'_def intro: sorted_wrt_filter)
  show "distinct (map fst T')" using o(3) by (auto simp: T'_def distinct_map_filter)
  show "\<forall>(q, f, s) \<in> set T'. q = lbe_player_id f \<and> s < lm_next_seq m + 1" using o(4) assms(2) by (auto simp: T'_def)
  show "mset T' = mset (AList.update p (e, lm_next_seq m) (lm_entries m))"
    using o(2) by (simp add: T'_def update_mset [OF ordered_facts(1) [OF assms(1)]] mset_filter)
  show "length T' \<le> lm_cap m + 1" using le_trans [OF length_filter_le o(5)] by (simp add: T'_def)
qed

lemma lru_touch_recent:
  assumes "lists_recent m es"
  shows "lists_recent (lru_touch e m) (recent_touch (lm_cap m) e es)" "lm_cap (lru_touch e m) = lm_cap m"
proof -
  let ?p = "lbe_player_id e" and ?es = "AList.update (lbe_player_id e) (e, lm_next_seq m) (lm_entries m)"
  obtain T where T: "ordered m T" "map (fst \<circ> snd) T = es" using assms by (auto simp: lists_recent_def)
  define T' where "T' = (?p, e, lm_next_seq m) # filter (\<lambda>x. fst x \<noteq> ?p) T"
  note front = ordered_front [OF T(1) refl, of e, folded T'_def]
  have len: "length ?es = length T'" using front(4) by (metis mset_eq_length)
  have list: "map (fst \<circ> snd) T' = e # others ?p es" using entries_filter [OF T(1)] T(2) by (simp add: T'_def)
  show "lm_cap (lru_touch e m) = lm_cap m" by (simp add: lru_touch_def Let_def split: option.splits)
  consider "lm_cap m = 0" | "0 < lm_cap m" "length T' \<le> lm_cap m" | "0 < lm_cap m" "length T' = lm_cap m + 1"
    using front(5) by linarith
  then show "lists_recent (lru_touch e m) (recent_touch (lm_cap m) e es)"
  proof cases
    case 1
    then show ?thesis by (simp add: lists_recent_def ordered_def lru_touch_def recent_touch_def Let_def)
  next
    case 2
    then have "ordered (lru_touch e m) T'" using front len by (simp add: ordered_def lru_touch_def Let_def)
    moreover have "recent_touch (lm_cap m) e es = map (fst \<circ> snd) T'"
      using 2 list by (metis length_map recent_touch_def take_all)
    ultimately show ?thesis by (auto simp: lists_recent_def)
  next
    case 3
    then obtain U z where U: "T' = U @ [z]" by (cases T' rule: rev_cases) auto
    have "min_by_seq ?es = Some z" using front(1) U mset_eq_setD [OF front(4)] by (intro min_is_last [of U]) auto
    then have touch: "lru_touch e m = m\<lparr>lm_next_seq := lm_next_seq m + 1, lm_entries := filter (\<lambda>x. fst x \<noteq> fst z) ?es\<rparr>"
      using 3 len by (cases z) (simp add: lru_touch_def Let_def delete_filter)
    have "filter (\<lambda>x. fst x \<noteq> fst z) T' = U" using front(2) by (auto simp: U filter_id_conv image_iff)
    then have "mset U = mset (filter (\<lambda>x. fst x \<noteq> fst z) ?es)" by (metis front(4) mset_filter)
    then have "ordered (lru_touch e m) U" using front(1-3) 3 by (auto simp: ordered_def touch U sorted_wrt_append)
    moreover have "recent_touch (lm_cap m) e es = map (fst \<circ> snd) U"
      using 3 list by (simp add: recent_touch_def U flip: list)
    ultimately show ?thesis by (auto simp: lists_recent_def)
  qed
qed

lemma find_recent:
  assumes "\<forall>(p, e, s) \<in> set T. p = lbe_player_id e"
  shows "find (\<lambda>e. lbe_player_id e = p) (map (fst \<circ> snd) T) = map_option fst (map_of T p)"
  using assms by (induction T) auto

lemma lru_get_recent:
  assumes "lists_recent m es"
  shows "fst (lru_get p m) = fst (recent_get p es)" "lists_recent (snd (lru_get p m)) (snd (recent_get p es))"
    "lm_cap (snd (lru_get p m)) = lm_cap m"
proof -
  obtain T where T: "ordered m T" "map (fst \<circ> snd) T = es" using assms by (auto simp: lists_recent_def)
  have o: "sorted_wrt (\<lambda>x y. snd (snd y) < snd (snd x)) T" "mset T = mset (lm_entries m)" "distinct (map fst T)"
    "\<forall>(p, e, s) \<in> set T. p = lbe_player_id e \<and> s < lm_next_seq m" "length T \<le> lm_cap m"
    using T(1) by (simp_all add: ordered_def)
  have "\<forall>(p, e, s) \<in> set T. p = lbe_player_id e" using o(4) by auto
  from find_recent [OF this] have find: "find (\<lambda>e. lbe_player_id e = p) es = map_option fst (map_of T p)" by (simp add: T(2))
  note same = ordered_facts(2) [OF T(1)]
  show "fst (lru_get p m) = fst (recent_get p es)"
    by (simp add: lru_get_def recent_get_def Let_def same find split: option.splits)
  show "lm_cap (snd (lru_get p m)) = lm_cap m" by (simp add: lru_get_def Let_def split: option.splits)
  show "lists_recent (snd (lru_get p m)) (snd (recent_get p es))"
  proof (cases "map_of T p")
    case None
    have "ordered (m\<lparr>lm_next_seq := lm_next_seq m + 1\<rparr>) T" using o by (auto simp: ordered_def)
    then show ?thesis using None T(2) by (auto simp: lru_get_def recent_get_def Let_def same find lists_recent_def)
  next
    case (Some v)
    obtain e s where v: "v = (e, s)" by (cases v)
    have mem: "(p, e, s) \<in> set T" using map_of_SomeD [OF Some] v by simp
    then have p: "p = lbe_player_id e" using o(4) by auto
    define T' where "T' = (p, e, lm_next_seq m) # filter (\<lambda>x. fst x \<noteq> p) T"
    note front = ordered_front [OF T(1) p, folded T'_def]
    have "length T' \<le> length T" using length_filter_less [OF mem, of "\<lambda>x. fst x \<noteq> p"] by (simp add: T'_def)
    then have "ordered (m\<lparr>lm_next_seq := lm_next_seq m + 1, lm_entries := AList.update p (e, lm_next_seq m) (lm_entries m)\<rparr>) T'"
      using front o(5) by (simp add: ordered_def)
    moreover have "map (fst \<circ> snd) T' = e # others p es" using entries_filter [OF T(1)] T(2) by (simp add: T'_def)
    ultimately show ?thesis by (auto simp: lru_get_def recent_get_def Let_def same find Some v lists_recent_def)
  qed
qed

lemma lru_remove_recent:
  assumes "lists_recent m es"
  shows "lists_recent (lru_remove p m) (others p es)" "lm_cap (lru_remove p m) = lm_cap m"
proof -
  obtain T where T: "ordered m T" "map (fst \<circ> snd) T = es" using assms by (auto simp: lists_recent_def)
  have "ordered (lru_remove p m) (filter (\<lambda>x. fst x \<noteq> p) T)"
    using T(1) le_trans [OF length_filter_le [of "\<lambda>x. fst x \<noteq> p" T]]
    by (auto simp: ordered_def lru_remove_def delete_filter sorted_wrt_filter distinct_map_filter mset_filter)
  then show "lists_recent (lru_remove p m) (others p es)" using entries_filter [OF T(1)] T(2) by (auto simp: lists_recent_def)
  show "lm_cap (lru_remove p m) = lm_cap m" by (simp add: lru_remove_def)
qed

section \<open>Runs\<close>

datatype lru_op = Touch lb_entry | Get datum_id | Remove datum_id

fun lru_run :: "lru_op list \<Rightarrow> lru_middle \<Rightarrow> lb_entry option list \<times> nat" where
  "lru_run [] m = ([], length (lm_entries m))"
| "lru_run (Touch e # ops) m = lru_run ops (lru_touch e m)"
| "lru_run (Get p # ops) m = (case lru_get p m of (r, m') \<Rightarrow> case lru_run ops m' of (rs, n) \<Rightarrow> (r # rs, n))"
| "lru_run (Remove p # ops) m = lru_run ops (lru_remove p m)"

fun recent_run :: "nat \<Rightarrow> lru_op list \<Rightarrow> lb_entry list \<Rightarrow> lb_entry option list \<times> nat" where
  "recent_run cap [] es = ([], length es)"
| "recent_run cap (Touch e # ops) es = recent_run cap ops (recent_touch cap e es)"
| "recent_run cap (Get p # ops) es = (case recent_get p es of (r, es') \<Rightarrow> case recent_run cap ops es' of (rs, n) \<Rightarrow> (r # rs, n))"
| "recent_run cap (Remove p # ops) es = recent_run cap ops (others p es)"

lemma lists_recent_length: "lists_recent m es \<Longrightarrow> length es = length (lm_entries m) \<and> length es \<le> lm_cap m"
  using ordered_facts(3) by (fastforce simp: lists_recent_def ordered_def)

lemma lru_run_recent: "lists_recent m es \<Longrightarrow> lru_run ops m = recent_run (lm_cap m) ops es"
proof (induction ops arbitrary: m es)
  case Nil
  then show ?case using lists_recent_length by simp
next
  case (Cons op ops)
  then show ?case using Cons.IH [OF lru_touch_recent(1) [OF Cons.prems]] Cons.IH [OF lru_get_recent(2) [OF Cons.prems]]
      Cons.IH [OF lru_remove_recent(1) [OF Cons.prems]] lru_get_recent(1) [OF Cons.prems]
    by (cases op) (simp_all add: lru_touch_recent(2) [OF Cons.prems] lru_get_recent(3) [OF Cons.prems]
        lru_remove_recent(2) [OF Cons.prems] case_prod_unfold)
qed

section \<open>Properties\<close>

text \<open>
  C39: The cache keeps the entries used last. Any run of touches, lookups and removals on a new
  cache returns what the list of entries in the order of their last use returns, cut to the capacity
  at each touch, and ends with as many entries; the eviction by the least sequence number takes the
  entry unused for longest.
\<close>

theorem lru_keeps_the_last_used: "lru_run ops (lru_new cap) = recent_run cap ops []"
  using lru_run_recent [OF lru_new_recent] by (simp add: lru_new_def)

end
