(* ===== verification/Collection_Trait.thy ===== *)
theory Collection_Trait
  imports Collection_Store
begin

text \<open>
  The trait \<open>CollectionStore\<close> of \<open>seisin-node/src/collection_store.rs\<close> as a record of operations over a
  state, its implementation by the replicated collections, and the contract that its clients rely
  on: several collections at once are sorted maps. The locale \<open>collection_maps\<close> is that contract;
  it is interpreted on \<open>RemoteCollectionStore\<close> over the lossy network. What the replicas of one
  collection do does not disturb another one, although the same nodes may serve both.
\<close>

section \<open>The trait\<close>

text \<open>A call returns with a value or panics, with the state after it; \<open>None\<close> is a call that does not return.\<close>

type_synonym ('a, 's) call = "'s \<Rightarrow> ((rstring + 'a) \<times> 's) option"

record 's collection_store =
  cs_create :: "datum_id \<Rightarrow> u32 \<Rightarrow> u32 \<Rightarrow> u16 \<Rightarrow> (unit, 's) call"
  cs_insert :: "datum_id \<Rightarrow> bytes \<Rightarrow> bytes \<Rightarrow> u16 \<Rightarrow> (unit, 's) call"
  cs_remove :: "datum_id \<Rightarrow> bytes \<Rightarrow> u16 \<Rightarrow> (unit, 's) call"
  cs_get :: "datum_id \<Rightarrow> bytes \<Rightarrow> u16 \<Rightarrow> (bytes option, 's) call"
  cs_scan_forward :: "datum_id \<Rightarrow> u32 \<Rightarrow> u16 \<Rightarrow> (entries, 's) call"
  cs_scan_backward :: "datum_id \<Rightarrow> u32 \<Rightarrow> u16 \<Rightarrow> (entries, 's) call"
  cs_sample :: "datum_id \<Rightarrow> u32 \<Rightarrow> u16 \<Rightarrow> (entries, 's) call"
  cs_rank_of_key :: "datum_id \<Rightarrow> bytes \<Rightarrow> u16 \<Rightarrow> (u64 option, 's) call"
  cs_scan_from_rank :: "datum_id \<Rightarrow> u64 \<Rightarrow> u32 \<Rightarrow> u16 \<Rightarrow> (entries, 's) call"
  cs_count :: "datum_id \<Rightarrow> u16 \<Rightarrow> (u64, 's) call"

definition on_cluster :: "(cluster_state \<Rightarrow> 'w \<Rightarrow> ('a stored \<times> 'w) option) \<Rightarrow> ('a, cluster_state \<times> 'w) call" where
  "on_cluster f = (\<lambda>(c, w). map_option (\<lambda>((r, c'), w'). (r, (c', w'))) (f c w))"

definition remote_collection_store :: "'w attempt \<Rightarrow> (cluster_state \<times> 'w) collection_store" where
  "remote_collection_store attempt = \<lparr>
     cs_create = \<lambda>i ks vs n. on_cluster (\<lambda>c. coll_create attempt c i ks vs n),
     cs_insert = \<lambda>i k v n. on_cluster (\<lambda>c. coll_insert attempt c i k v n),
     cs_remove = \<lambda>i k n. on_cluster (\<lambda>c. coll_remove attempt c i k n),
     cs_get = \<lambda>i k n. on_cluster (\<lambda>c. coll_get attempt c i k n),
     cs_scan_forward = \<lambda>i l n. on_cluster (\<lambda>c. coll_scan_forward attempt c i l n),
     cs_scan_backward = \<lambda>i l n. on_cluster (\<lambda>c. coll_scan_backward attempt c i l n),
     cs_sample = \<lambda>i k n. on_cluster (\<lambda>c. coll_sample attempt c i k n),
     cs_rank_of_key = \<lambda>i k n. on_cluster (\<lambda>c. coll_rank_of_key attempt c i k n),
     cs_scan_from_rank = \<lambda>i r l n. on_cluster (\<lambda>c. coll_scan_from_rank attempt c i r l n),
     cs_count = \<lambda>i n. on_cluster (\<lambda>c. coll_count attempt c i n)\<rparr>"

text \<open>An operation of the trait, with its result written as the reply that carries it.\<close>

definition reply :: "('a \<Rightarrow> store_response) \<Rightarrow> ('a, 's) call \<Rightarrow> (store_response, 's) call" where
  "reply f m s = map_option (\<lambda>(r, s'). (map_sum id f r, s')) (m s)"

fun trait_op :: "'s collection_store \<Rightarrow> datum_id \<Rightarrow> u16 \<Rightarrow> coll_op \<Rightarrow> (store_response, 's) call" where
  "trait_op st i n (CCreate ks vs) = reply (\<lambda>_. SAck) (cs_create st i ks vs n)"
| "trait_op st i n (CInsert k v) = reply (\<lambda>_. SAck) (cs_insert st i k v n)"
| "trait_op st i n (CRemove k) = reply (\<lambda>_. SAck) (cs_remove st i k n)"
| "trait_op st i n (CGet k) = reply SCollectionEntry (cs_get st i k n)"
| "trait_op st i n (CScanForward l) = reply SCollectionEntries (cs_scan_forward st i l n)"
| "trait_op st i n (CScanBackward l) = reply SCollectionEntries (cs_scan_backward st i l n)"
| "trait_op st i n (CSample k) = reply SCollectionEntries (cs_sample st i k n)"
| "trait_op st i n (CRankOfKey k) = reply SCollectionRank (cs_rank_of_key st i k n)"
| "trait_op st i n (CScanFromRank r l) = reply SCollectionEntries (cs_scan_from_rank st i r l n)"
| "trait_op st i n CCount = reply SCollectionTotal (cs_count st i n)"

lemma reply_Inr: "reply f m s = Some (Inr resp, s') \<longleftrightarrow> (\<exists>x. m s = Some (Inr x, s') \<and> resp = f x)"
proof (cases "m s")
  case (Some y)
  then show ?thesis by (cases y; cases "fst y") (auto simp: reply_def)
qed (simp add: reply_def)

lemma on_cluster_Inr: "on_cluster f (c, w) = Some (Inr x, c', w') \<longleftrightarrow> f c w = Some ((Inr x, c'), w')"
  by (auto simp: on_cluster_def split: prod.splits)

lemma remote_trait_op:
  "trait_op (remote_collection_store attempt) i n op (c, w) = Some (Inr resp, c', w') \<longleftrightarrow>
     run_op attempt c i n op w = Some ((Inr resp, c'), w')"
  by (cases op) (auto simp: remote_collection_store_def reply_Inr on_cluster_Inr returning_Inr)

section \<open>Collections do not disturb each other\<close>

lemma obeys_other:
  assumes "coll_request req" "request_id req = Some i" "j \<noteq> i"
  shows "obeys (coll_view N j) now req {(y, insertions req + n)} {(y, insertions req + n), (y, n)} (\<lambda>_ _. True)"
proof (rule obeysI)
  fix node z assume v: "coll_view N j node z" "z \<in> {(y, insertions req + n)}"
  obtain M where M: "colls_hold N (sn_collections node) M (insertions req + n)" "M j = y" using v by (auto simp: coll_view_def)
  obtain q cs' where q: "serve_collection (sn_collections node) req = (q, cs')" "meets (fst (spec_serve M req)) q"
      "colls_hold N cs' (snd (spec_serve M req)) n"
    using coll_serves [OF M(1) assms(1)] by blast
  have "snd (spec_serve M req) j = y"
    using assms(2,3) M(2) by (cases req) (auto split: option.splits)
  then have "coll_view N j (node\<lparr>sn_collections := cs'\<rparr>) (y, n)" using q(3) by (auto simp: coll_view_def)
  moreover have "serve (\<lambda>_ _ u. (Inl (Bail ''unreachable'' []), u)) node req () = (q, node\<lparr>sn_collections := cs'\<rparr>, ())"
    using q(1) by (simp add: serve_coll [OF assms(2)])
  moreover have "\<exists>resp. q = Some resp \<and> ((\<exists>msg. resp = SError msg) \<or> wf_store_response resp)"
  proof (cases "fst (spec_serve M req)")
    case (Some resp)
    have "coll_view N i node (M i, insertions req + n)" using M(1) by (auto simp: coll_view_def)
    from one_serve_wf [OF this, of req resp] have "wf_store_response resp" using Some one_serve_local(1) [OF assms(2), of M] by simp
    then show ?thesis using q(2) Some by (simp add: meets_def)
  qed (use q(2) in \<open>auto simp: meets_def\<close>)
  ultimately show "\<exists>resp node' x'. serve (\<lambda>_ _ u. (Inl (Bail ''unreachable'' []), u)) node req () = (Some resp, node', ()) \<and>
      coll_view N j node' x' \<and> x' \<in> {(y, insertions req + n), (y, n)} \<and> ((\<exists>msg. resp = SError msg) \<or> wf_store_response resp \<and> True)"
    by (intro exI [of _ "the q"] exI [of _ "node\<lparr>sn_collections := cs'\<rparr>"] exI [of _ "(y, n)"]) auto
qed simp

lemma faulty_far: "faulty now nid addr payload w = (res, w') \<Longrightarrow> a \<noteq> addr \<Longrightarrow> net_nodes w' a = net_nodes w a"
  by (auto simp: faulty_def Let_def split: option.splits prod.splits fault.splits list.splits)

lemma try_call_far:
  assumes "try_call (faulty now) c node req w = (res, w')" "store_addresses c node \<noteq> Some a"
  shows "net_nodes w' a = net_nodes w a"
  using assms faulty_far [of now node _ "encode_store_request req"]
  by (force simp: try_call_def Let_def split: option.splits prod.splits sum.splits)

lemma try_call_other:
  assumes "coll_request req" "request_id req = Some i" "wf_store_request req" "j \<noteq> i"
    and "try_call (faulty now) c node req w = (res, w')" "view_at (coll_view N j) w a (y, 2 * insertions req + n)"
  shows "view_at (coll_view N j) w' a (y, n)"
proof -
  let ?k = "insertions req" let ?P = "{(y, ?k + (?k + n))}" let ?Q = "?P \<union> {(y, ?k + n)}"
  have weak: "view_at (coll_view N j) w' a z \<Longrightarrow> z \<in> ?Q \<union> {(y, n)} \<Longrightarrow> ?thesis" for z
    using coll_view_weaken by (fastforce simp: view_at_def)
  have first: "obeys (coll_view N j) now req ?P ?Q (\<lambda>_ _. True)"
    using obeys_other [OF assms(1,2,4), of N now y "?k + n"] by (simp add: insert_commute)
  have "obeys (coll_view N j) now req ?Q (?Q \<union> {(y, ?k + n), (y, n)}) (\<lambda>_ _. True)"
    using obeys_Un [OF first obeys_other [OF assms(1,2,4), of N now y n]] by simp
  moreover have "?Q \<union> {(y, ?k + n), (y, n)} = ?Q \<union> {(y, n)}" by auto
  ultimately have both: "obeys (coll_view N j) now req ?Q (?Q \<union> {(y, n)}) (\<lambda>_ _. True)" by simp
  show ?thesis
  proof (cases "store_addresses c node = Some a")
    case True
    have "(y, 2 * ?k + n) \<in> ?P" by simp
    from try_call_obeys [OF first Un_upper1 both Un_upper1 assms(3) True assms(6) this assms(5)] weak show ?thesis by blast
  next
    case False
    then have "view_at (coll_view N j) w' a (y, 2 * ?k + n)" using try_call_far [OF assms(5)] assms(6) by (simp add: view_at_def)
    then show ?thesis using weak [of "(y, 2 * ?k + n)"] by simp
  qed
qed

section \<open>Loops over the replicas of another collection\<close>

lemma replica_loop_marks:
  "replica_loop step ts (acked, c, w) = (acked', c', w') \<Longrightarrow> \<exists>F. c' = c\<lparr>storage_stale := storage_stale c \<union> F\<rparr>"
proof (induction ts arbitrary: acked c w)
  case Nil
  then show ?case by (intro exI [of _ "{}"]) simp
next
  case (Cons node ts)
  obtain res w1 where step: "step c node w = (res, w1)" by fastforce
  show ?case
  proof (cases res)
    case (Inl e)
    then have "replica_loop step ts (acked, mark_stale c node, w1) = (acked', c', w')" using Cons.prems step by simp
    from Cons.IH [OF this] obtain F where "c' = (mark_stale c node)\<lparr>storage_stale := storage_stale (mark_stale c node) \<union> F\<rparr>" ..
    then have "c' = c\<lparr>storage_stale := storage_stale c \<union> insert node F\<rparr>" by (simp add: mark_stale_def)
    then show ?thesis ..
  qed (use Cons step in simp)
qed

lemma replica_loop_other:
  assumes far: "\<And>c node w res w'. step c node w = (res, w') \<Longrightarrow> store_addresses c node \<noteq> Some a \<Longrightarrow> net_nodes w' a = net_nodes w a"
    and one: "\<And>c node w res w'. step c node w = (res, w') \<Longrightarrow> view_at V w a x \<Longrightarrow> view_at V w' a y"
    and weak: "\<And>w. view_at V w a x \<Longrightarrow> view_at V w a y"
  shows "distinct_addresses c ts \<Longrightarrow> replica_loop step ts (acked, c, w) = (acked', c', w') \<Longrightarrow>
    (view_at V w a x \<longrightarrow> view_at V w' a y) \<and> ((\<forall>node\<in>set ts. store_addresses c node \<noteq> Some a) \<longrightarrow> net_nodes w' a = net_nodes w a)"
proof (induction ts arbitrary: acked c w)
  case Nil
  then show ?case using weak by simp
next
  case (Cons node ts)
  obtain res w1 where step: "step c node w = (res, w1)" by fastforce
  define c1 where "c1 = (case res of Inr _ \<Rightarrow> c | Inl _ \<Rightarrow> mark_stale c node)"
  have c1: "store_addresses c1 = store_addresses c" "distinct_addresses c1 ts"
    using Cons.prems(1) by (auto simp: c1_def distinct_addresses_def split: sum.splits)
  have "\<exists>acked. replica_loop step ts (acked, c1, w1) = (acked', c', w')" using Cons.prems(2) step by (auto simp: c1_def split: sum.splits)
  then have IH: "view_at V w1 a x \<Longrightarrow> view_at V w' a y"
    "\<forall>node\<in>set ts. store_addresses c node \<noteq> Some a \<Longrightarrow> net_nodes w' a = net_nodes w1 a"
    using Cons.IH [OF c1(2)] c1(1) by auto
  show ?case
  proof (cases "store_addresses c node = Some a")
    case True
    then have "\<forall>node\<in>set ts. store_addresses c node \<noteq> Some a" using distinct_addressesD [OF Cons.prems(1)] by blast
    then have "net_nodes w' a = net_nodes w1 a" by (rule IH(2))
    then have "view_at V w a x \<Longrightarrow> view_at V w' a y" using one [OF step] by (simp only: view_at_def)
    then show ?thesis using True by simp
  next
    case False
    then have "net_nodes w1 a = net_nodes w a" using far [OF step] by simp
    then show ?thesis using IH by (simp add: view_at_def)
  qed
qed

lemma read_loop_other:
  assumes one: "\<And>c node w res w' a. try_call (faulty now) c node req w = (res, w') \<Longrightarrow> view_at V w a x \<Longrightarrow> view_at V w' a x"
  shows "read_loop (faulty now) i req ts c w = ((Inr resp, c'), w') \<Longrightarrow>
    (\<exists>F. c' = c\<lparr>storage_stale := storage_stale c \<union> F\<rparr>) \<and> (\<forall>a. view_at V w a x \<longrightarrow> view_at V w' a x)"
proof (induction ts arbitrary: c w)
  case Nil
  then show ?case by (simp add: panicked_def halt_total_loss_def Let_def)
next
  case (Cons node ts)
  obtain res w1 where r: "try_call (faulty now) c node req w = (res, w1)" by fastforce
  show ?case
  proof (cases res)
    case (Inr q)
    then have "c' = c\<lparr>storage_stale := storage_stale c \<union> {}\<rparr>" "w' = w1" using Cons.prems r by simp_all
    then show ?thesis using one [OF r] by blast
  next
    case (Inl e)
    then have "read_loop (faulty now) i req ts (mark_stale c node) w1 = ((Inr resp, c'), w')" using Cons.prems r by simp
    from Cons.IH [OF this] obtain F where F: "c' = (mark_stale c node)\<lparr>storage_stale := storage_stale (mark_stale c node) \<union> F\<rparr>"
      "\<forall>a. view_at V w1 a x \<longrightarrow> view_at V w' a x" by blast
    then have "c' = c\<lparr>storage_stale := storage_stale c \<union> insert node F\<rparr>" by (simp add: mark_stale_def)
    then show ?thesis using F(2) one [OF r] by blast
  qed
qed

lemma agree_moved:
  assumes "agree V c w j n x" "c' = c\<lparr>storage_stale := storage_stale c \<union> F\<rparr>" "\<And>a. view_at V w a x \<Longrightarrow> view_at V w' a y"
  shows "agree V c' w' j n y"
proof -
  obtain ts where ts: "serving_replicas c j n = Some ts" "distinct_addresses c ts" "all_at V c w (set ts) x"
    using assms(1) by (auto simp: agree_def)
  have "all_at V c w' (set ts) y" using ts(3) assms(3) by (auto simp: all_at_def)
  from agree_marked [OF ts(1,2) this assms(2)] show ?thesis .
qed

lemma run_op_other:
  assumes a: "agree (coll_view N j) c w j n (y, 2 * insertions (op_request i op) + m)" and ok: "op_ok op" and ij: "j \<noteq> i"
    and i: "agree V c w i n z" and run: "run_op (faulty now) c i n op w = Some ((Inr resp, c'), w')"
  shows "agree (coll_view N j) c' w' j n (y, m)"
proof -
  obtain ts where ts: "serving_replicas c i n = Some ts" "distinct_addresses c ts" using i by (auto simp: agree_def)
  note req = op_request_facts [OF ok, of i]
  note call = try_call_other [OF req(1,3,2) ij]
  have weak: "view_at (coll_view N j) w a (y, 2 * insertions (op_request i op) + m) \<Longrightarrow> view_at (coll_view N j) w a (y, m)" for w a
    using coll_view_weaken by (fastforce simp: view_at_def)
  have "(\<exists>F. c' = c\<lparr>storage_stale := storage_stale c \<union> F\<rparr>) \<and>
    (\<forall>a. view_at (coll_view N j) w a (y, 2 * insertions (op_request i op) + m) \<longrightarrow> view_at (coll_view N j) w' a (y, m))"
  proof (cases "is_change op")
    case True
    let ?step = "coll_write_one (faulty now) (op_request i op)"
    have tc: "\<exists>res'. try_call (faulty now) c node (op_request i op) w = (res', w')" if "?step c node w = (res, w')" for c node w res w'
      using that by (auto simp: coll_write_one_def split: prod.splits sum.splits store_response.splits)
    obtain acked where l: "replica_loop ?step ts (0 :: nat, c, w) = (acked, c', w')"
      using run_op_change(1) [OF True run] ts(1)
      by (auto simp: coll_write_all_def coll_write_loop_replicas panicked_def halt_total_loss_def Let_def split: if_splits prod.splits)
    have "view_at (coll_view N j) w a (y, 2 * insertions (op_request i op) + m) \<longrightarrow> view_at (coll_view N j) w' a (y, m)" for a
    proof (rule conjunct1 [OF replica_loop_other [OF _ _ weak ts(2) l]])
      fix c node w res w' assume "?step c node w = (res, w')"
      then obtain res' where r: "try_call (faulty now) c node (op_request i op) w = (res', w')" using tc by blast
      show "store_addresses c node \<noteq> Some a \<Longrightarrow> net_nodes w' a = net_nodes w a" by (rule try_call_far [OF r])
      show "view_at (coll_view N j) w a (y, 2 * insertions (op_request i op) + m) \<Longrightarrow> view_at (coll_view N j) w' a (y, m)"
        by (rule call [OF r])
    qed
    with replica_loop_marks [OF l] show ?thesis by blast
  next
    case False
    have g: "read_loop (faulty now) i (op_request i op) ts c w = ((Inr resp, c'), w')"
      using run_op_read(1) [OF False run] ts(1) by (auto simp: read_one_def panicked_def halt_total_loss_def Let_def split: if_splits)
    have "try_call (faulty now) c node (op_request i op) w = (res, w') \<Longrightarrow> view_at (coll_view N j) w a (y, m) \<Longrightarrow>
        view_at (coll_view N j) w' a (y, m)" for c node w res w' a
      using call by (simp add: no_insertions [OF False])
    from read_loop_other [OF this g] show ?thesis by (simp add: no_insertions [OF False])
  qed
  then show ?thesis using agree_moved [OF a] by blast
qed

section \<open>The contract\<close>

text \<open>
  \<open>holds s M b\<close>: in state \<open>s\<close> the collections in \<open>own\<close> are the sorted maps of \<open>M\<close>, each with fewer than
  \<open>2\<^sup>32\<close> entries, and there is room for \<open>b\<close> more insertions.
\<close>

locale collection_maps =
  fixes st :: "'s collection_store" and n :: u16 and own :: "datum_id set" and holds :: "'s \<Rightarrow> coll_map \<Rightarrow> nat \<Rightarrow> bool"
  assumes op_law: "i \<in> own \<Longrightarrow> op_ok op \<Longrightarrow> holds s M (insertions (op_request i op) + b) \<Longrightarrow>
      trait_op st i n op s = Some (Inr resp, s') \<Longrightarrow>
      fst (spec_serve M (op_request i op)) = Some resp \<and> holds s' (snd (spec_serve M (op_request i op))) b"
    and small: "i \<in> own \<Longrightarrow> holds s M b \<Longrightarrow> M i = Some (ks, vs, es) \<Longrightarrow> ascending es \<and> length es < 2 ^ 32"
    and fewer: "holds s M (Suc b) \<Longrightarrow> holds s M b"
begin

lemma unat_of_nat64: "m < 2 ^ 32 \<Longrightarrow> unat (word_of_nat m :: u64) = m"
  by (simp add: unat_of_nat)

lemma create_law:
  assumes "i \<in> own" "holds s M b" "sizes_fit ks vs COLLECTION_PAGE_SIZE" "cs_create st i ks vs n s = Some (Inr u, s')"
  shows "holds s' (if M i = None then M(i \<mapsto> (ks, vs, [])) else M) b"
  using op_law [OF assms(1), of "CCreate ks vs" s M b] assms(2-4) by (auto simp: reply_Inr op_ok_def)

lemma insert_law:
  assumes "i \<in> own" "holds s M (Suc b)" "short k" "short v" "cs_insert st i k v n s = Some (Inr u, s')" "M i = Some (ks, vs, es)"
  shows "holds s' (M(i \<mapsto> (ks, vs, upsert k v es))) b"
  using op_law [OF assms(1), of "CInsert k v" s M b] assms(2-6) by (auto simp: reply_Inr op_ok_def split: if_splits)

lemma remove_law:
  assumes "i \<in> own" "holds s M b" "short k" "cs_remove st i k n s = Some (Inr u, s')" "M i = Some (ks, vs, es)"
  shows "holds s' (M(i \<mapsto> (ks, vs, without k es))) b"
  using op_law [OF assms(1), of "CRemove k" s M b] assms(2-5) by (auto simp: reply_Inr op_ok_def split: if_splits)

lemma get_law:
  assumes "i \<in> own" "holds s M b" "short k" "cs_get st i k n s = Some (Inr r, s')" "M i = Some (ks, vs, es)"
  shows "holds s' M b" "r = map_of es k"
  using op_law [OF assms(1), of "CGet k" s M b] assms(2-5) by (auto simp: reply_Inr op_ok_def spec_read_def)

lemma scan_forward_law:
  assumes "i \<in> own" "holds s M b" "cs_scan_forward st i l n s = Some (Inr r, s')" "M i = Some (ks, vs, es)"
  shows "holds s' M b" "r = take (unat l) (rev es)"
  using op_law [OF assms(1), of "CScanForward l" s M b] assms(2-4) by (auto simp: reply_Inr op_ok_def spec_read_def)

lemma scan_backward_law:
  assumes "i \<in> own" "holds s M b" "cs_scan_backward st i l n s = Some (Inr r, s')" "M i = Some (ks, vs, es)"
  shows "holds s' M b" "r = take (unat l) es"
  using op_law [OF assms(1), of "CScanBackward l" s M b] assms(2-4) by (auto simp: reply_Inr op_ok_def spec_read_def)

lemma scan_from_rank_law:
  assumes "i \<in> own" "holds s M b" "cs_scan_from_rank st i rk l n s = Some (Inr r, s')" "M i = Some (ks, vs, es)"
  shows "holds s' M b" "r = take (unat l) (drop (unat rk) es)"
  using op_law [OF assms(1), of "CScanFromRank rk l" s M b] assms(2-4) by (auto simp: reply_Inr op_ok_def spec_read_def)

lemma count_law:
  assumes "i \<in> own" "holds s M b" "cs_count st i n s = Some (Inr r, s')" "M i = Some (ks, vs, es)"
  shows "holds s' M b" "unat r = length es"
  using op_law [OF assms(1), of "CCount" s M b] small [OF assms(1,2,4)] assms(2-4)
  by (auto simp: reply_Inr op_ok_def spec_read_def unat_of_nat64)

lemma rank_law:
  assumes "i \<in> own" "holds s M b" "short k" "cs_rank_of_key st i k n s = Some (Inr r, s')" "M i = Some (ks, vs, es)"
  shows "holds s' M b" "r = (if map_of es k = None then None else Some (word_of_nat (card {j \<in> dom (map_of es). j < k})))"
  using op_law [OF assms(1), of "CRankOfKey k" s M b] assms(2-5) by (auto simp: reply_Inr op_ok_def spec_read_def split: if_splits)

end

section \<open>The replicated collections keep it\<close>

definition roomy :: "nat \<Rightarrow> coll \<Rightarrow> bool" where
  "roomy b x \<longleftrightarrow> b < 2 ^ 32 \<and> (case x of None \<Rightarrow> True | Some (ks, vs, es) \<Rightarrow> ascending es \<and> length es + b < 2 ^ 32)"

definition remote_holds :: "nat \<Rightarrow> u16 \<Rightarrow> datum_id set \<Rightarrow> cluster_state \<times> storage_net \<Rightarrow> coll_map \<Rightarrow> nat \<Rightarrow> bool" where
  "remote_holds N n own = (\<lambda>(c, w) M b. \<forall>i\<in>own. agree (coll_view N i) c w i n (M i, 2 * b) \<and> roomy b (M i))"

lemma roomy_Some: "roomy b (Some (ks, vs, es)) \<longleftrightarrow> ascending es \<and> length es + b < 2 ^ 32"
  by (auto simp: roomy_def)

lemma roomy_upsert: "roomy (Suc b) (Some (ks, vs, es)) \<Longrightarrow> roomy b (Some (ks, vs, upsert k v es))"
  using length_upsert [of es k v] ascending_upsert [of es k v] by (auto simp: roomy_Some split: if_splits)

lemma roomy_without: "roomy b (Some (ks, vs, es)) \<Longrightarrow> roomy b (Some (ks, vs, without k es))"
  using le_less_trans [OF add_right_mono [OF length_without [of k es]]] ascending_without [of es k] by (auto simp: roomy_Some)

lemma roomy_serve:
  assumes "roomy (insertions req + b) (M i)"
  shows "roomy b (snd (spec_serve M req) i)"
proof -
  have "roomy b (M i)" using assms by (auto simp: roomy_def split: option.splits)
  with assms show ?thesis
    by (cases req) (auto split: option.splits simp: roomy_upsert roomy_without, simp_all add: roomy_def)
qed

interpretation remote: collection_maps "remote_collection_store (faulty now)" n own "remote_holds N n own" for now n own N
proof
  fix i op s M b resp s'
  assume i: "i \<in> own" and ok: "op_ok op" and h: "remote_holds N n own s M (insertions (op_request i op) + b)"
    and run: "trait_op (remote_collection_store (faulty now)) i n op s = Some (Inr resp, s')"
  obtain c w c' w' where s: "s = (c, w)" "s' = (c', w')" by (cases s; cases s')
  note run = run [unfolded s remote_trait_op]
  let ?M = "snd (spec_serve M (op_request i op))"
  have ag: "agree (coll_view N j) c w j n (M j, 2 * insertions (op_request i op) + 2 * b)" "roomy (insertions (op_request i op) + b) (M j)"
    if "j \<in> own" for j
    using h that by (auto simp: remote_holds_def s distrib_left)
  note loc = one_serve_local [OF op_request_facts(3) [OF ok], where M = M]
  obtain x' where x': "one_serve i (M i) (op_request i op) = (Some resp, x')" "agree (coll_view N i) c' w' i n (x', 2 * b)"
    using run_op_agree [OF ag(1) [OF i] ok run] by blast
  have "agree (coll_view N j) c' w' j n (?M j, 2 * b)" if "j \<in> own" for j
  proof (cases "j = i")
    case False
    have "?M j = M j" using False by (cases op) (auto split: option.splits)
    with run_op_other [OF ag(1) [OF that] ok False ag(1) [OF i] run] show ?thesis by simp
  qed (use x' loc in simp)
  then show "fst (spec_serve M (op_request i op)) = Some resp \<and> remote_holds N n own s' ?M b"
    using x'(1) loc roomy_serve [OF ag(2)] by (auto simp: remote_holds_def s)
next
  fix s M b assume h: "remote_holds N n own s M (Suc b)"
  obtain c w where s: "s = (c, w)" by (cases s)
  have "agree (coll_view N i) c w i n (M i, 2 * b)" if "agree (coll_view N i) c w i n (M i, 2 * Suc b)" for i
    using that coll_view_weaken [of N i _ "M i" "2 * Suc b" "2 * b"] by (simp add: agree_def all_at_def view_at_def) blast
  moreover have "roomy b x" if "roomy (Suc b) x" for x using that by (auto simp: roomy_def split: option.splits)
  ultimately show "remote_holds N n own s M b" using h by (auto simp: remote_holds_def s)
qed (auto simp: remote_holds_def roomy_def split: option.splits)

end
