(* ===== verification/Lb_Cache.thy ===== *)
theory Lb_Cache
  imports Lru Collection_Trait Rank_Key Schema Index_Kind
begin

text \<open>
  Leaderboards: the classes and keys of \<open>seisin-types/src/lb.rs\<close>, the entries and the index kind of
  \<open>lb_kind.rs\<close> and the board of \<open>lb_cache.rs\<close>, a cache in front of two collections of the storage
  nodes. An action of the board changes the cached state and the state of the store; it stops with a
  panic of the store, a panic of its own (an index out of range, an overflow, an \<open>unwrap\<close>) or an error
  that is returned. The sizes of the configuration are numbers that do not overflow.
\<close>

section \<open>Classes and keys\<close>

datatype lb_rule = LbMax | LbMin | LbReplace

record lb_class_def =
  lcd_name :: rstring
  lcd_score_type :: lb_score_type
  lcd_display_len :: u16
  lcd_rule :: lb_rule

definition lb_kind_name :: "rstring \<Rightarrow> rstring" where
  "lb_kind_name class_name = lit ''lb:'' @ class_name"

definition lb_board_key :: "(datum_id \<Rightarrow> bytes \<Rightarrow> datum_id) \<Rightarrow> rstring \<Rightarrow> rstring \<Rightarrow> rstring \<Rightarrow> datum_id" where
  "lb_board_key from_name class_name leaderboard_id area_config_id =
     from_name derived_id_namespace
       (lit ''lb:'' @ class_name @ lit '':'' @ leaderboard_id @ lit '':'' @ area_config_id)"

definition encode_score :: "lb_class_def \<Rightarrow> field_value \<Rightarrow> bytes result" where
  "encode_score cd v =
     (case (lcd_score_type cd, v) of
        (ScoreI64, VI64 _) \<Rightarrow> encode_rank_key v
      | (ScoreF64, VF64 _) \<Rightarrow> encode_rank_key v
      | _ \<Rightarrow> Inl (Bail ''lb class {:?} declares score type {:?} but got {:?}'' []))"

section \<open>Entries\<close>

definition lb_composite_key :: "bytes \<Rightarrow> datum_id \<Rightarrow> bytes" where
  "lb_composite_key rank_key player_id = rank_key @ as_bytes player_id"

definition encode_display :: "bytes \<Rightarrow> u16 \<Rightarrow> bytes" where
  "encode_display display display_len =
     (let capped = take (unat display_len) display
      in u16_to_le (word_of_nat (length capped)) @ capped @ replicate (unat display_len - length capped) 0)"

definition decode_display :: "bytes \<Rightarrow> bytes result" where
  "decode_display value =
     (if length value < 2 then Inl (Panic ''range end index 2 out of range'' [])
      else let len = unat (u16_from_le (slice value 0 2)) in Inr (slice value 2 (2 + min len (length value - 2))))"

definition entry_from :: "bytes \<Rightarrow> bytes \<Rightarrow> lb_entry result" where
  "entry_from key value =
     (if length key < 24 then Inl (Panic ''range end index 24 out of range'' [])
      else bindE (decode_display value) (\<lambda>display.
        Inr \<lparr>lbe_rank_key = slice key 0 8, lbe_player_id = from_bytes (slice key 8 24), lbe_display = display\<rparr>))"

text \<open>\<open>iter().map(|(k, v)| entry_from(k, v)).collect()\<close>\<close>

fun entries_from :: "entries \<Rightarrow> lb_entry list result" where
  "entries_from [] = Inr []"
| "entries_from ((k, v) # es) = bindE (entry_from k v) (\<lambda>e. bindE (entries_from es) (\<lambda>rest. Inr (e # rest)))"

section \<open>The cache\<close>

record lb_cache_config =
  pinned_top_size :: nat
  pinned_bottom_size :: nat
  max_cached_entries :: nat

record lb_cache_state =
  lcs_pinned_top :: "lb_entry list option"
  lcs_pinned_bottom :: "lb_entry list option"
  lcs_total :: "u64 option"
  lcs_middle :: lru_middle

record 's lb_cache =
  lc_def :: lb_class_def
  lc_store :: "'s collection_store"
  lc_rank_id :: datum_id
  lc_by_player_id :: datum_id
  lc_replication :: u16
  lc_config :: lb_cache_config

definition LB_REPLICATION :: u16 where "LB_REPLICATION = 2"

definition new_state :: "lb_cache_config \<Rightarrow> lb_cache_state" where
  "new_state config =
     \<lparr>lcs_pinned_top = None, lcs_pinned_bottom = None, lcs_total = None,
      lcs_middle = lru_new (max_cached_entries config - (pinned_top_size config + pinned_bottom_size config))\<rparr>"

definition lb_cache_new ::
    "(datum_id \<Rightarrow> bytes \<Rightarrow> datum_id) \<Rightarrow> lb_class_def \<Rightarrow> 's collection_store \<Rightarrow> datum_id \<Rightarrow> u16 \<Rightarrow> lb_cache_config \<Rightarrow>
     ('s lb_cache \<times> lb_cache_state, 's) call" where
  "lb_cache_new from_name cd store board_id replication config s =
     (let rank_id = board_id;
          by_player_id = from_name board_id (lit ''by_player'');
          value_size = 2 + ucast (lcd_display_len cd)
      in case cs_create store rank_id 24 value_size replication s of
           None \<Rightarrow> None
         | Some (Inl msg, s) \<Rightarrow> Some (Inl msg, s)
         | Some (Inr _, s) \<Rightarrow>
             (case cs_create store by_player_id 16 8 replication s of
                None \<Rightarrow> None
              | Some (Inl msg, s) \<Rightarrow> Some (Inl msg, s)
              | Some (Inr _, s) \<Rightarrow>
                  Some (Inr (\<lparr>lc_def = cd, lc_store = store, lc_rank_id = rank_id, lc_by_player_id = by_player_id,
                              lc_replication = replication, lc_config = config\<rparr>, new_state config), s)))"

subsection \<open>Actions\<close>

datatype stop = StorePanic rstring | CachePanic bail | Failed rstring

type_synonym ('a, 's) act = "lb_cache_state \<times> 's \<Rightarrow> ((stop + 'a) \<times> lb_cache_state \<times> 's) option"

definition retA :: "'a \<Rightarrow> ('a, 's) act" where
  "retA x z = Some (Inr x, z)"

definition stopA :: "stop \<Rightarrow> ('a, 's) act" where
  "stopA e z = Some (Inl e, z)"

definition bindA :: "('a, 's) act \<Rightarrow> ('a \<Rightarrow> ('b, 's) act) \<Rightarrow> ('b, 's) act" where
  "bindA m f z =
     (case m z of
        None \<Rightarrow> None
      | Some (Inl e, z') \<Rightarrow> Some (Inl e, z')
      | Some (Inr x, z') \<Rightarrow> f x z')"

definition storeA :: "('a, 's) call \<Rightarrow> ('a, 's) act" where
  "storeA call = (\<lambda>(st, s).
     case call s of
       None \<Rightarrow> None
     | Some (Inl msg, s') \<Rightarrow> Some (Inl (StorePanic msg), st, s')
     | Some (Inr x, s') \<Rightarrow> Some (Inr x, st, s'))"

definition readA :: "(lb_cache_state \<Rightarrow> 'a) \<Rightarrow> ('a, 's) act" where
  "readA f = (\<lambda>(st, s). Some (Inr (f st), st, s))"

definition modifyA :: "(lb_cache_state \<Rightarrow> lb_cache_state) \<Rightarrow> (unit, 's) act" where
  "modifyA f = (\<lambda>(st, s). Some (Inr (), f st, s))"

text \<open>\<open>ok_or_else(..)?\<close> on an option, and a value whose computation may panic.\<close>

definition ok_or_else :: "string \<Rightarrow> 'a option \<Rightarrow> ('a, 's) act" where
  "ok_or_else msg x = (case x of None \<Rightarrow> stopA (Failed (lit msg)) | Some y \<Rightarrow> retA y)"

definition panicA :: "'a result \<Rightarrow> ('a, 's) act" where
  "panicA r = (case r of Inl e \<Rightarrow> stopA (CachePanic e) | Inr x \<Rightarrow> retA x)"

definition subA :: "u64 \<Rightarrow> u64 \<Rightarrow> (u64, 's) act" where
  "subA a b = (if b \<le> a then retA (a - b) else stopA (CachePanic (Panic ''attempt to subtract with overflow'' [])))"

definition addA :: "u64 \<Rightarrow> u64 \<Rightarrow> (u64, 's) act" where
  "addA a b = (if unat a + unat b < 2 ^ 64 then retA (a + b) else stopA (CachePanic (Panic ''attempt to add with overflow'' [])))"

definition saturating_sub :: "u64 \<Rightarrow> u64 \<Rightarrow> u64" where
  "saturating_sub a b = (if b \<le> a then a - b else 0)"

subsection \<open>Reading the board\<close>

definition ensure_top :: "'s lb_cache \<Rightarrow> (lb_entry list, 's) act" where
  "ensure_top b =
     bindA (readA lcs_pinned_top) (\<lambda>pinned.
       case pinned of
         Some es \<Rightarrow> retA es
       | None \<Rightarrow>
           bindA (storeA (cs_scan_forward (lc_store b) (lc_rank_id b) (as_u32 (pinned_top_size (lc_config b))) (lc_replication b))) (\<lambda>raw.
           bindA (panicA (entries_from raw)) (\<lambda>entries.
           bindA (modifyA (\<lambda>st. st\<lparr>lcs_pinned_top := Some entries\<rparr>)) (\<lambda>_. retA entries))))"

definition ensure_bottom :: "'s lb_cache \<Rightarrow> (lb_entry list, 's) act" where
  "ensure_bottom b =
     bindA (readA lcs_pinned_bottom) (\<lambda>pinned.
       case pinned of
         Some es \<Rightarrow> retA es
       | None \<Rightarrow>
           bindA (storeA (cs_scan_backward (lc_store b) (lc_rank_id b) (as_u32 (pinned_bottom_size (lc_config b))) (lc_replication b))) (\<lambda>raw.
           bindA (panicA (entries_from raw)) (\<lambda>entries.
           bindA (modifyA (\<lambda>st. st\<lparr>lcs_pinned_bottom := Some entries\<rparr>)) (\<lambda>_. retA entries))))"

definition ensure_total :: "'s lb_cache \<Rightarrow> (u64, 's) act" where
  "ensure_total b =
     bindA (readA lcs_total) (\<lambda>total.
       case total of
         Some t \<Rightarrow> retA t
       | None \<Rightarrow>
           bindA (storeA (cs_count (lc_store b) (lc_rank_id b) (lc_replication b))) (\<lambda>t.
           bindA (modifyA (\<lambda>st. st\<lparr>lcs_total := Some t\<rparr>)) (\<lambda>_. retA t)))"

definition lb_invalidate :: "lb_cache_state \<Rightarrow> lb_cache_state" where
  "lb_invalidate st = st\<lparr>lcs_pinned_top := None, lcs_pinned_bottom := None, lcs_total := None\<rparr>"

definition apply_rule :: "'s lb_cache \<Rightarrow> bytes \<Rightarrow> bytes \<Rightarrow> bool" where
  "apply_rule b old_key new_key =
     (case lcd_rule (lc_def b) of
        LbMax \<Rightarrow> old_key < new_key
      | LbMin \<Rightarrow> new_key < old_key
      | LbReplace \<Rightarrow> new_key \<noteq> old_key)"

definition player_rank_key :: "'s lb_cache \<Rightarrow> datum_id \<Rightarrow> (bytes option, 's) act" where
  "player_rank_key b player_id =
     bindA (storeA (cs_get (lc_store b) (lc_by_player_id b) (as_bytes player_id) (lc_replication b))) (\<lambda>v.
       case v of
         None \<Rightarrow> retA None
       | Some v \<Rightarrow>
           if length v = 8 then retA (Some v)
           else stopA (CachePanic (Panic ''called `Result::unwrap()` on an `Err` value'' [])))"

definition around_player :: "'s lb_cache \<Rightarrow> datum_id \<Rightarrow> u32 \<Rightarrow> ((u64 \<times> lb_entry list) option, 's) act" where
  "around_player b player_id window =
     bindA (player_rank_key b player_id) (\<lambda>found.
       case found of
         None \<Rightarrow> retA None
       | Some rank_key \<Rightarrow>
           bindA (ensure_total b) (\<lambda>total.
           bindA (storeA (cs_rank_of_key (lc_store b) (lc_rank_id b) (lb_composite_key rank_key player_id) (lc_replication b))) (\<lambda>rank.
           bindA (ok_or_else ''board map/collection divergence: mapped key missing'' rank) (\<lambda>asc.
           bindA (subA total 1) (\<lambda>last. bindA (subA last asc) (\<lambda>best_rank.
             if window = 0 then retA (Some (best_rank, []))
             else
               let half = ucast (window div 2);
                   best_start = saturating_sub best_rank half
               in bindA (addA best_start (ucast window)) (\<lambda>e.
                    let best_end = min e total;
                        best_start = saturating_sub best_end (ucast window)
                    in bindA (subA total best_end) (\<lambda>asc_start. bindA (subA best_end best_start) (\<lambda>len.
                       bindA (storeA (cs_scan_from_rank (lc_store b) (lc_rank_id b) asc_start (ucast len) (lc_replication b))) (\<lambda>raw.
                       bindA (panicA (entries_from raw)) (\<lambda>ascending_entries.
                         let entries = rev ascending_entries
                         in bindA (modifyA (\<lambda>st. st\<lparr>lcs_middle := fold lru_touch entries (lcs_middle st)\<rparr>)) (\<lambda>_.
                            retA (Some (best_rank, entries))))))))))))))"

fun friend_loop :: "'s lb_cache \<Rightarrow> u64 \<Rightarrow> datum_id list \<Rightarrow> (lb_friend_rank list, 's) act" where
  "friend_loop b tot [] = retA []"
| "friend_loop b tot (friend_id # friend_ids) =
     bindA (readA (\<lambda>st. fst (lru_get friend_id (lcs_middle st)))) (\<lambda>cached.
     bindA (modifyA (\<lambda>st. st\<lparr>lcs_middle := snd (lru_get friend_id (lcs_middle st))\<rparr>)) (\<lambda>_.
       case cached of
         Some cached \<Rightarrow>
           bindA (storeA (cs_rank_of_key (lc_store b) (lc_rank_id b) (lb_composite_key (lbe_rank_key cached) friend_id) (lc_replication b))) (\<lambda>rank.
           bindA (ok_or_else ''board map/collection divergence: cached key missing'' rank) (\<lambda>asc.
           bindA (subA tot 1) (\<lambda>last. bindA (subA last asc) (\<lambda>rank.
           bindA (friend_loop b tot friend_ids) (\<lambda>friends.
             retA (\<lparr>lbf_player_id = friend_id, lbf_rank = rank, lbf_rank_key = lbe_rank_key cached,
                    lbf_display = lbe_display cached\<rparr> # friends))))))
       | None \<Rightarrow>
           bindA (player_rank_key b friend_id) (\<lambda>found.
             case found of
               None \<Rightarrow> friend_loop b tot friend_ids
             | Some rank_key \<Rightarrow>
                 bindA (storeA (cs_rank_of_key (lc_store b) (lc_rank_id b) (lb_composite_key rank_key friend_id) (lc_replication b))) (\<lambda>rank.
                 bindA (ok_or_else ''board map/collection divergence: mapped key missing'' rank) (\<lambda>asc.
                 bindA (storeA (cs_scan_from_rank (lc_store b) (lc_rank_id b) asc 1 (lc_replication b))) (\<lambda>raw.
                 bindA (ok_or_else ''board map/collection divergence: rank scan empty'' (case raw of [] \<Rightarrow> None | e # _ \<Rightarrow> Some e)) (\<lambda>kv.
                 bindA (panicA (entry_from (fst kv) (snd kv))) (\<lambda>entry.
                 bindA (modifyA (\<lambda>st. st\<lparr>lcs_middle := lru_touch entry (lcs_middle st)\<rparr>)) (\<lambda>_.
                 bindA (subA tot 1) (\<lambda>last. bindA (subA last asc) (\<lambda>rank.
                 bindA (friend_loop b tot friend_ids) (\<lambda>friends.
                   retA (\<lparr>lbf_player_id = friend_id, lbf_rank = rank, lbf_rank_key = rank_key,
                          lbf_display = lbe_display entry\<rparr> # friends)))))))))))))"

definition friend_ranks :: "'s lb_cache \<Rightarrow> datum_id list \<Rightarrow> (lb_friend_rank list, 's) act" where
  "friend_ranks b friend_ids = bindA (ensure_total b) (\<lambda>total. friend_loop b total friend_ids)"

subsection \<open>The resident index\<close>

definition lb_apply :: "bytes \<Rightarrow> apply_outcome" where
  "lb_apply payload = rejected (lit ''lb boards are maintained via execute ops, not framework index updates'')"

definition lb_query :: "'s lb_cache \<Rightarrow> bytes \<Rightarrow> (bytes, 's) act" where
  "lb_query b query =
     (case decode_lb_query_req query of
        Inl e \<Rightarrow> stopA (Failed (to_string e))
      | Inr q \<Rightarrow>
          bindA (ensure_top b) (\<lambda>top_entries.
          bindA (ensure_bottom b) (\<lambda>bottom_entries.
          bindA (ensure_total b) (\<lambda>total.
          bindA (case lbq_around_player q of
                   None \<Rightarrow> retA (None, [])
                 | Some player_id \<Rightarrow>
                     bindA (around_player b player_id (lbq_window q)) (\<lambda>around.
                       case around of Some (r, entries) \<Rightarrow> retA (Some r, entries) | None \<Rightarrow> retA (None, [])))
            (\<lambda>(player_rank, around_entries).
          bindA (friend_ranks b (lbq_friend_ids q)) (\<lambda>friends.
            retA (encode_lb_result
              \<lparr>lb_total = total, lb_player_rank = player_rank,
               lb_top = take (min (unat (lbq_top q)) (length top_entries)) top_entries,
               lb_bottom = take (min (unat (lbq_bottom q)) (length bottom_entries)) bottom_entries,
               lb_around = around_entries, lb_friends = friends\<rparr>)))))))"

definition lb_execute :: "'s lb_cache \<Rightarrow> bytes \<Rightarrow> (bytes, 's) act" where
  "lb_execute b payload =
     (case decode_lb_execute_op payload of
        Inl e \<Rightarrow> stopA (Failed (to_string e))
      | Inr (LbUpdate player_id display rank_key friend_ids top_n window) \<Rightarrow>
          bindA (player_rank_key b player_id) (\<lambda>old_key.
          bindA (if (case old_key of None \<Rightarrow> True | Some old_key \<Rightarrow> apply_rule b old_key rank_key) then
                   bindA (case old_key of
                            None \<Rightarrow> retA ()
                          | Some old_key \<Rightarrow>
                              storeA (cs_remove (lc_store b) (lc_rank_id b) (lb_composite_key old_key player_id) (lc_replication b))) (\<lambda>_.
                   bindA (storeA (cs_insert (lc_store b) (lc_rank_id b) (lb_composite_key rank_key player_id)
                            (encode_display display (lcd_display_len (lc_def b))) (lc_replication b))) (\<lambda>_.
                   bindA (storeA (cs_insert (lc_store b) (lc_by_player_id b) (as_bytes player_id) rank_key (lc_replication b))) (\<lambda>_.
                   bindA (modifyA lb_invalidate) (\<lambda>_.
                     modifyA (\<lambda>st. st\<lparr>lcs_middle := lru_remove player_id (lcs_middle st)\<rparr>)))))
                 else retA ()) (\<lambda>_.
            lb_query b (encode_lb_query_req
              \<lparr>lbq_top = top_n, lbq_bottom = 0, lbq_around_player = Some player_id, lbq_window = window, lbq_friend_ids = friend_ids\<rparr>)))
      | Inr (LbRemove player_id) \<Rightarrow>
          bindA (player_rank_key b player_id) (\<lambda>found.
          bindA (case found of
                   None \<Rightarrow> retA ()
                 | Some old_key \<Rightarrow>
                     bindA (storeA (cs_remove (lc_store b) (lc_rank_id b) (lb_composite_key old_key player_id) (lc_replication b))) (\<lambda>_.
                     bindA (storeA (cs_remove (lc_store b) (lc_by_player_id b) (as_bytes player_id) (lc_replication b))) (\<lambda>_.
                     bindA (modifyA lb_invalidate) (\<lambda>_.
                       modifyA (\<lambda>st. st\<lparr>lcs_middle := lru_remove player_id (lcs_middle st)\<rparr>))))) (\<lambda>_.
            lb_query b (encode_lb_query_req
              \<lparr>lbq_top = 0, lbq_bottom = 0, lbq_around_player = None, lbq_window = 0, lbq_friend_ids = []\<rparr>))))"

section \<open>The index kind\<close>

record 's lb_index_kind =
  lk_def :: lb_class_def
  lk_cache_config :: "datum_id \<Rightarrow> lb_cache_config"
  lk_collection_store :: "'s collection_store option"

definition lb_open ::
    "(datum_id \<Rightarrow> bytes \<Rightarrow> datum_id) \<Rightarrow> 's lb_index_kind \<Rightarrow> datum_id \<Rightarrow> bytes option \<Rightarrow> 's \<Rightarrow>
     ((stop + 's lb_cache \<times> lb_cache_state) \<times> 's) option" where
  "lb_open from_name kind target old s =
     (case lk_collection_store kind of
        None \<Rightarrow> Some (Inl (Failed (lit ''lb: collection store not attached before first access'')), s)
      | Some store \<Rightarrow>
          map_option (\<lambda>(r, s). (map_sum StorePanic id r, s))
            (lb_cache_new from_name (lk_def kind) store target LB_REPLICATION (lk_cache_config kind target) s))"

definition attach_collection_store :: "'s collection_store \<Rightarrow> 's lb_index_kind \<Rightarrow> 's lb_index_kind" where
  "attach_collection_store store kind =
     (case lk_collection_store kind of None \<Rightarrow> kind\<lparr>lk_collection_store := Some store\<rparr> | Some _ \<Rightarrow> kind)"

definition register_lb_class ::
    "(rstring \<rightharpoonup> 's lb_index_kind) \<Rightarrow> lb_class_def \<Rightarrow> (datum_id \<Rightarrow> lb_cache_config) \<Rightarrow> (rstring \<rightharpoonup> 's lb_index_kind)" where
  "register_lb_class registry cd cache_config =
     registry(lb_kind_name (lcd_name cd) \<mapsto> \<lparr>lk_def = cd, lk_cache_config = cache_config, lk_collection_store = None\<rparr>)"

end
