(* ===== verification/Lb_Board.thy ===== *)
theory Lb_Board
  imports Lb_Cache Wire_Request
begin

text \<open>
  What a leaderboard promises: a board is the list of its players' entries in the order of their
  keys, the worst first, and a query is answered from it. \<open>standing\<close> and the functions after it are
  that specification; \<open>stored_board\<close> says that the two collections of a board hold it and \<open>cache_ok\<close>
  that the cached parts agree with it. The lemmas say what the keys and the encoded entries of a
  board are.
\<close>

section \<open>The specification\<close>

type_synonym board = "lb_entry list"

definition lb_key :: "lb_entry \<Rightarrow> bytes" where
  "lb_key e = lb_composite_key (lbe_rank_key e) (lbe_player_id e)"

definition standing :: "board \<Rightarrow> lb_entry list" where
  "standing B = rev B"

definition player_entry :: "board \<Rightarrow> datum_id \<Rightarrow> lb_entry option" where
  "player_entry B p = find (\<lambda>e. lbe_player_id e = p) B"

definition place :: "board \<Rightarrow> datum_id \<Rightarrow> nat option" where
  "place B p = position (\<lambda>e. lbe_player_id e = p) (standing B)"

text \<open>A new score takes the place of the old one by the rule of the class.\<close>

definition beats :: "lb_rule \<Rightarrow> bytes \<Rightarrow> bytes \<Rightarrow> bool" where
  "beats rule new old \<longleftrightarrow> (case rule of LbMax \<Rightarrow> old < new | LbMin \<Rightarrow> new < old | LbReplace \<Rightarrow> new \<noteq> old)"

definition board_put :: "lb_entry \<Rightarrow> board \<Rightarrow> board" where
  "board_put e B = insort_key lb_key e (others (lbe_player_id e) B)"

definition board_update :: "lb_rule \<Rightarrow> lb_entry \<Rightarrow> board \<Rightarrow> board" where
  "board_update rule e B =
     (case player_entry B (lbe_player_id e) of
        None \<Rightarrow> board_put e B
      | Some old \<Rightarrow> if beats rule (lbe_rank_key e) (lbe_rank_key old) then board_put e B else B)"

text \<open>The window of \<open>w\<close> places around place \<open>r\<close> of \<open>t\<close>, moved up at the end of the board: its first place and its size.\<close>

definition window_around :: "nat \<Rightarrow> nat \<Rightarrow> nat \<Rightarrow> nat \<times> nat" where
  "window_around t r w = (let e = min (r - w div 2 + w) t in (e - w, e - (e - w)))"

definition board_around :: "board \<Rightarrow> datum_id \<Rightarrow> nat \<Rightarrow> u64 option \<times> lb_entry list" where
  "board_around B p w =
     (case place B p of
        None \<Rightarrow> (None, [])
      | Some r \<Rightarrow> case window_around (length B) r w of (a, len) \<Rightarrow> (Some (word_of_nat r), take len (drop a (standing B))))"

definition board_friend :: "board \<Rightarrow> datum_id \<Rightarrow> lb_friend_rank option" where
  "board_friend B p =
     (case (player_entry B p, place B p) of
        (Some e, Some r) \<Rightarrow> Some \<lparr>lbf_player_id = p, lbf_rank = word_of_nat r, lbf_rank_key = lbe_rank_key e, lbf_display = lbe_display e\<rparr>
      | _ \<Rightarrow> None)"

definition board_result :: "lb_cache_config \<Rightarrow> board \<Rightarrow> lb_query_req \<Rightarrow> lb_result" where
  "board_result config B q =
     (let around = (case lbq_around_player q of None \<Rightarrow> (None, []) | Some p \<Rightarrow> board_around B p (unat (lbq_window q)))
      in \<lparr>lb_total = word_of_nat (length B), lb_player_rank = fst around,
          lb_top = take (min (unat (lbq_top q)) (unat (as_u32 (pinned_top_size config)))) (standing B),
          lb_bottom = take (min (unat (lbq_bottom q)) (unat (as_u32 (pinned_bottom_size config)))) (rev (standing B)),
          lb_around = snd around, lb_friends = List.map_filter (board_friend B) (lbq_friend_ids q)\<rparr>)"

text \<open>The board after an operation, and the query whose result it returns.\<close>

fun board_execute :: "lb_class_def \<Rightarrow> lb_execute_op \<Rightarrow> board \<Rightarrow> board" where
  "board_execute cd (LbUpdate p display rank_key friend_ids top_n window) B =
     board_update (lcd_rule cd)
       \<lparr>lbe_rank_key = rank_key, lbe_player_id = p, lbe_display = take (unat (lcd_display_len cd)) display\<rparr> B"
| "board_execute cd (LbRemove p) B = others p B"

fun execute_query :: "lb_execute_op \<Rightarrow> lb_query_req" where
  "execute_query (LbUpdate p display rank_key friend_ids top_n window) =
     \<lparr>lbq_top = top_n, lbq_bottom = 0, lbq_around_player = Some p, lbq_window = window, lbq_friend_ids = friend_ids\<rparr>"
| "execute_query (LbRemove p) =
     \<lparr>lbq_top = 0, lbq_bottom = 0, lbq_around_player = None, lbq_window = 0, lbq_friend_ids = []\<rparr>"

section \<open>Boards\<close>

definition wf_entry :: "u16 \<Rightarrow> lb_entry \<Rightarrow> bool" where
  "wf_entry dl e \<longleftrightarrow> length (lbe_rank_key e) = 8 \<and> length (lbe_display e) \<le> unat dl"

definition wf_board :: "u16 \<Rightarrow> board \<Rightarrow> bool" where
  "wf_board dl B \<longleftrightarrow> sorted_wrt (<) (map lb_key B) \<and> distinct (map lbe_player_id B) \<and> (\<forall>e\<in>set B. wf_entry dl e)"

lemma length_lb_key [simp]: "wf_entry dl e \<Longrightarrow> length (lb_key e) = 24"
  by (simp add: lb_key_def lb_composite_key_def wf_entry_def)

lemma lb_key_player: "wf_entry dl e \<Longrightarrow> wf_entry dl f \<Longrightarrow> lb_key e = lb_key f \<Longrightarrow> lbe_player_id e = lbe_player_id f"
  by (simp add: lb_key_def lb_composite_key_def wf_entry_def) (metis from_bytes_as_bytes)

lemma player_entryD: "player_entry B p = Some e \<Longrightarrow> e \<in> set B \<and> lbe_player_id e = p"
  by (auto simp: player_entry_def find_Some_iff)

lemma player_entry_None: "player_entry B p = None \<longleftrightarrow> (\<forall>e\<in>set B. lbe_player_id e \<noteq> p)"
  by (auto simp: player_entry_def find_None_iff)

lemma player_entry_mem: "wf_board dl B \<Longrightarrow> e \<in> set B \<Longrightarrow> player_entry B (lbe_player_id e) = Some e"
proof -
  assume "wf_board dl B" "e \<in> set B"
  moreover obtain f where "player_entry B (lbe_player_id e) = Some f" using calculation(2) player_entry_None [of B] by fastforce
  ultimately show ?thesis using player_entryD [of B] by (auto simp: wf_board_def distinct_map inj_on_def)
qed

lemma others_no_player: "player_entry B p = None \<Longrightarrow> others p B = B"
  by (simp add: player_entry_None others_def filter_id_conv)

lemma wf_others: "wf_board dl B \<Longrightarrow> wf_board dl (others p B)"
  by (auto simp: wf_board_def others_def sorted_wrt_map sorted_wrt_filter distinct_map_filter)

lemma wf_put:
  assumes "wf_board dl B" "wf_entry dl e"
  shows "wf_board dl (board_put e B)"
proof -
  let ?C = "others (lbe_player_id e) B"
  have C: "sorted_wrt (<) (map lb_key ?C)" "distinct (map lbe_player_id ?C)" "\<forall>f\<in>set ?C. wf_entry dl f"
    using wf_others [OF assms(1)] by (simp_all add: wf_board_def)
  have new: "lbe_player_id f \<noteq> lbe_player_id e" if "f \<in> set ?C" for f using that by (auto simp: others_def)
  then have key: "lb_key e \<notin> lb_key ` set ?C" using lb_key_player [OF assms(2)] C(3) by (metis imageE)
  have "mset (map lb_key (board_put e B)) = mset (map lb_key (e # ?C))" by (simp add: board_put_def)
  moreover have "distinct (map lb_key (e # ?C))" using C(1) key by (simp add: strict_sorted_iff)
  ultimately have "distinct (map lb_key (board_put e B))" by (metis mset_eq_imp_distinct_iff)
  moreover have "sorted (map lb_key (board_put e B))" using C(1) by (simp add: board_put_def sorted_insort_key strict_sorted_iff)
  ultimately have asc: "sorted_wrt (<) (map lb_key (board_put e B))" by (simp add: strict_sorted_iff)
  have "mset (map lbe_player_id (board_put e B)) = mset (map lbe_player_id (e # ?C))" by (simp add: board_put_def)
  moreover have "distinct (map lbe_player_id (e # ?C))" using C(2) new by force
  ultimately have "distinct (map lbe_player_id (board_put e B))" by (metis mset_eq_imp_distinct_iff)
  with asc show ?thesis using C(3) assms(2) by (simp add: wf_board_def) (auto simp: board_put_def set_insort_key)
qed

lemma wf_execute:
  assumes "wf_board (lcd_display_len cd) B" "wf_lb_execute_op op"
  shows "wf_board (lcd_display_len cd) (board_execute cd op B)"
  using assms wf_put [OF assms(1)] wf_others [OF assms(1)]
  by (cases op) (auto simp: board_update_def wf_entry_def wf_rank_key_def split: option.splits)

section \<open>Places\<close>

lemma position_nth:
  "i < length xs \<Longrightarrow> p (xs ! i) \<Longrightarrow> (\<And>j. j < length xs \<Longrightarrow> p (xs ! j) \<Longrightarrow> j = i) \<Longrightarrow> position p xs = Some i"
proof (induction xs arbitrary: i)
  case (Cons x xs)
  show ?case
  proof (cases i)
    case 0
    then show ?thesis using Cons.prems(2) by simp
  next
    case (Suc k)
    have "position p xs = Some k" using Cons.prems Suc by (intro Cons.IH) (auto, metis Suc_inject Suc_mono nth_Cons_Suc)
    moreover have "\<not> p x" using Cons.prems(3) [of 0] Suc by auto
    ultimately show ?thesis using Suc by simp
  qed
qed simp

lemma position_None: "position p xs = None \<longleftrightarrow> (\<forall>x\<in>set xs. \<not> p x)"
  by (induction xs) auto

lemma place_None: "place B p = None \<longleftrightarrow> player_entry B p = None"
  by (simp add: place_def standing_def position_None player_entry_None)

lemma place_Some:
  assumes "wf_board dl B" "i < length B"
  shows "place B (lbe_player_id (B ! i)) = Some (length B - 1 - i)"
  unfolding place_def standing_def
proof (rule position_nth)
  fix j assume j: "j < length (rev B)" "lbe_player_id (rev B ! j) = lbe_player_id (B ! i)"
  then have "map lbe_player_id B ! (length B - Suc j) = map lbe_player_id B ! i" using assms(2) by (simp add: rev_nth)
  moreover have "distinct (map lbe_player_id B)" using assms(1) by (simp add: wf_board_def)
  ultimately have "length B - Suc j = i" using assms(2) j(1) by (subst (asm) nth_eq_iff_index_eq) auto
  then show "j = length B - 1 - i" using j(1) by simp
qed (use assms(2) in \<open>simp_all add: rev_nth\<close>)

section \<open>Encoded entries\<close>

definition lb_record :: "u16 \<Rightarrow> lb_entry \<Rightarrow> bytes \<times> bytes" where
  "lb_record dl e = (lb_key e, encode_display (lbe_display e) dl)"

lemma encode_display_take: "encode_display (take (unat dl) display) dl = encode_display display dl"
  by (simp add: encode_display_def)

lemma length_encode_display [simp]: "length (encode_display display dl) = 2 + unat dl"
  by (simp add: encode_display_def Let_def)

lemma decode_encode_display:
  assumes "length display \<le> unat dl"
  shows "decode_display (encode_display display dl) = Inr display"
proof -
  have "length display < 2 ^ 16" using assms unsigned_less [of dl, where ?'a = nat] by simp
  then have "unat (word_of_nat (length display) :: u16) = length display" by (simp add: unat_of_nat)
  then show ?thesis using assms by (simp add: decode_display_def encode_display_def Let_def slice_def)
qed

lemma entry_from_record: "wf_entry dl e \<Longrightarrow> entry_from (lb_key e) (encode_display (lbe_display e) dl) = Inr e"
  by (simp add: entry_from_def decode_encode_display wf_entry_def lb_key_def lb_composite_key_def slice_def)

lemma entries_from_records: "\<forall>e\<in>set B. wf_entry dl e \<Longrightarrow> entries_from (map (lb_record dl) B) = Inr B"
  by (induction B) (simp_all add: lb_record_def entry_from_record)

lemma records_ascending: "wf_board dl B \<Longrightarrow> ascending (map (lb_record dl) B)"
  by (simp add: wf_board_def lb_record_def comp_def)

lemma record_lookup: "e \<in> set B \<Longrightarrow> map_of (map (lb_record dl) B) (lb_key e) \<noteq> None"
  by (auto simp: map_of_eq_None_iff lb_record_def image_image simp del: not_None_eq)

lemma record_rank:
  assumes "wf_board dl B" "i < length B"
  shows "card {j \<in> dom (map_of (map (lb_record dl) B)). j < lb_key (B ! i)} = i"
proof -
  let ?ks = "map lb_key B"
  have s: "sorted_wrt (<) ?ks" using assms(1) by (simp add: wf_board_def)
  have "dom (map_of (map (lb_record dl) B)) = set ?ks" by (simp add: dom_map_of_conv_image_fst image_image lb_record_def)
  moreover have "{j \<in> set ?ks. j < lb_key (B ! i)} = set (take i ?ks)"
  proof (intro set_eqI iffI)
    fix k assume "k \<in> {j \<in> set ?ks. j < lb_key (B ! i)}"
    then obtain j where j: "j < length ?ks" "k = ?ks ! j" "?ks ! j < ?ks ! i" using assms(2) by (auto simp: in_set_conv_nth)
    then have "j < i" using s assms(2) by (metis (no_types) length_map linorder_neqE_nat order.asym order.irrefl sorted_wrt_nth_less)
    then show "k \<in> set (take i ?ks)" using j by (auto simp: in_set_conv_nth intro!: exI [of _ j])
  next
    fix k assume "k \<in> set (take i ?ks)"
    then obtain j where "j < i" "k = ?ks ! j" "j < length ?ks" by (auto simp: in_set_conv_nth)
    then show "k \<in> {j \<in> set ?ks. j < lb_key (B ! i)}" using sorted_wrt_nth_less [OF s, of j i] assms(2) by auto
  qed
  moreover have "distinct (take i ?ks)" using s by (simp add: strict_sorted_iff)
  ultimately show ?thesis using assms(2) by (simp add: distinct_card)
qed

lemma records_put:
  assumes "wf_board dl B" "wf_entry dl e" "player_entry B (lbe_player_id e) = None"
  shows "upsert (lb_key e) (encode_display (lbe_display e) dl) (map (lb_record dl) B) = map (lb_record dl) (board_put e B)"
proof (rule ascending_set_unique)
  note asc = records_ascending [OF assms(1)]
  show "ascending (upsert (lb_key e) (encode_display (lbe_display e) dl) (map (lb_record dl) B))" by (rule ascending_upsert [OF asc])
  show "ascending (map (lb_record dl) (board_put e B))" by (rule records_ascending [OF wf_put [OF assms(1,2)]])
  have "lb_key f \<noteq> lb_key e" if "f \<in> set B" for f
    using lb_key_player [of dl f e] assms that by (auto simp: wf_board_def player_entry_None)
  then show "set (upsert (lb_key e) (encode_display (lbe_display e) dl) (map (lb_record dl) B)) = set (map (lb_record dl) (board_put e B))"
    unfolding upsert_members [OF asc] by (auto simp: board_put_def set_insort_key others_no_player [OF assms(3)] lb_record_def)
qed

lemma records_without:
  assumes "wf_board dl B" "e \<in> set B"
  shows "without (lb_key e) (map (lb_record dl) B) = map (lb_record dl) (others (lbe_player_id e) B)"
proof -
  have "lb_key f = lb_key e \<longleftrightarrow> lbe_player_id f = lbe_player_id e" if "f \<in> set B" for f
    using assms that lb_key_player [of dl f e] by (auto simp: wf_board_def distinct_map inj_on_def)
  then show ?thesis by (auto simp: without_def others_def filter_map comp_def lb_record_def intro!: arg_cong [where f = "map _"] filter_cong)
qed

end
