(* ===== verification/Lb_Serve.thy ===== *)
theory Lb_Serve
  imports Lb_Board
begin

text \<open>
  The leaderboard cache answers from the board. The locale \<open>leaderboard\<close> takes any implementation of the
  collections that keeps the contract \<open>collection_maps\<close>; in it every action, run on a cache that
  agrees with the stored board, returns what the specification says and leaves the cache in agreement,
  unless the store panics or does not return: the cache never panics on its own and returns no error.
\<close>

section \<open>Words\<close>

lemma unat_word: "unat w = n \<Longrightarrow> w = word_of_nat n"
  by auto

lemma unat_saturating_sub [simp]: "unat (saturating_sub a b) = unat a - unat b"
  by (auto simp: saturating_sub_def unat_sub word_le_nat_alt)

lemma unat_min [simp]: "unat (min a b :: u64) = min (unat a) (unat b)"
  by (auto simp: min_def word_le_nat_alt)

lemma unat_ucast_up [simp]: "unat (ucast (w :: u32) :: u64) = unat w"
  using unsigned_less [of w, where ?'a = nat] by (simp add: unsigned_ucast_eq take_bit_nat_eq_self)

lemma unat_ucast_down: "unat (x :: u64) < 2 ^ 32 \<Longrightarrow> unat (ucast x :: u32) = unat x"
  by (simp add: unsigned_ucast_eq take_bit_nat_eq_self)

section \<open>Actions that end well\<close>

definition gives :: "('a, 's) act \<Rightarrow> lb_cache_state \<times> 's \<Rightarrow> ('a \<Rightarrow> lb_cache_state \<times> 's \<Rightarrow> bool) \<Rightarrow> bool" where
  "gives m z Q \<longleftrightarrow>
     (\<forall>r z'. m z = Some (r, z') \<longrightarrow>
        (case r of Inr x \<Rightarrow> Q x z' | Inl (StorePanic _) \<Rightarrow> True | Inl _ \<Rightarrow> False))"

named_theorems gives_rules

lemma gives_ret [gives_rules]: "Q x z \<Longrightarrow> gives (retA x) z Q"
  by (auto simp: gives_def retA_def)

lemma gives_bind [gives_rules]: "gives m z (\<lambda>x z'. gives (f x) z' Q) \<Longrightarrow> gives (bindA m f) z Q"
  unfolding gives_def bindA_def by (auto split: option.splits sum.splits stop.splits)

lemma gives_store: "(\<And>x s'. call s = Some (Inr x, s') \<Longrightarrow> Q x (st, s')) \<Longrightarrow> gives (storeA call) (st, s) Q"
  unfolding gives_def storeA_def by (auto split: option.splits sum.splits stop.splits)

lemma gives_read [gives_rules]: "Q (f st) (st, s) \<Longrightarrow> gives (readA f) (st, s) Q"
  by (simp add: gives_def readA_def)

lemma gives_modify [gives_rules]: "Q () (f st, s) \<Longrightarrow> gives (modifyA f) (st, s) Q"
  by (simp add: gives_def modifyA_def)

lemma gives_ok: "x = Some y \<Longrightarrow> Q y z \<Longrightarrow> gives (ok_or_else msg x) z Q"
  by (simp add: ok_or_else_def gives_ret)

lemma gives_panic: "r = Inr x \<Longrightarrow> Q x z \<Longrightarrow> gives (panicA r) z Q"
  by (simp add: panicA_def gives_ret)

lemma gives_sub: "b \<le> a \<Longrightarrow> Q (a - b) z \<Longrightarrow> gives (subA a b) z Q"
  by (simp add: subA_def gives_ret)

lemma gives_add: "unat a + unat b < 2 ^ 64 \<Longrightarrow> Q (a + b) z \<Longrightarrow> gives (addA a b) z Q"
  by (simp add: addA_def gives_ret)

lemma gives_sub_unat: "b \<le> a \<Longrightarrow> (\<And>x. unat x = unat a - unat b \<Longrightarrow> Q x z) \<Longrightarrow> gives (subA a b) z Q"
  by (rule gives_sub) (auto simp: unat_sub)

lemma gives_add_unat: "unat a + unat b < 2 ^ 64 \<Longrightarrow> (\<And>x. unat x = unat a + unat b \<Longrightarrow> Q x z) \<Longrightarrow> gives (addA a b) z Q"
  by (rule gives_add) (auto simp: unat_word_ariths)

lemma gives_mono: "gives m z Q \<Longrightarrow> (\<And>x z'. Q x z' \<Longrightarrow> Q' x z') \<Longrightarrow> gives m z Q'"
  unfolding gives_def by (auto split: sum.splits stop.splits)

lemma gives_seq: "gives m z P \<Longrightarrow> (\<And>x z'. P x z' \<Longrightarrow> gives (f x) z' Q) \<Longrightarrow> gives (bindA m f) z Q"
  by (rule gives_bind) (rule gives_mono)

section \<open>The stored board and the cache\<close>

definition stored_board :: "lb_class_def \<Rightarrow> datum_id \<Rightarrow> datum_id \<Rightarrow> coll_map \<Rightarrow> board \<Rightarrow> bool" where
  "stored_board cd rank_id by_player_id M B \<longleftrightarrow>
     M rank_id = Some (24, 2 + ucast (lcd_display_len cd), map (lb_record (lcd_display_len cd)) B) \<and>
     (\<exists>ps. M by_player_id = Some (16, 8, ps) \<and> (\<forall>p. map_of ps (as_bytes p) = map_option lbe_rank_key (player_entry B p)))"

definition cache_ok :: "lb_cache_config \<Rightarrow> board \<Rightarrow> lb_cache_state \<Rightarrow> bool" where
  "cache_ok config B st \<longleftrightarrow>
     lcs_pinned_top st \<in> {None, Some (take (unat (as_u32 (pinned_top_size config))) (standing B))} \<and>
     lcs_pinned_bottom st \<in> {None, Some (take (unat (as_u32 (pinned_bottom_size config))) B)} \<and>
     lcs_total st \<in> {None, Some (word_of_nat (length B))} \<and>
     (\<exists>es. lists_recent (lcs_middle st) es \<and> set es \<subseteq> set B)"

lemma cache_ok_new: "cache_ok config B (new_state config)"
  using lru_new_recent by (fastforce simp: cache_ok_def new_state_def)

lemma cache_ok_touch: "cache_ok config B st \<Longrightarrow> e \<in> set B \<Longrightarrow> cache_ok config B (st\<lparr>lcs_middle := lru_touch e (lcs_middle st)\<rparr>)"
proof -
  assume c: "cache_ok config B st" and e: "e \<in> set B"
  then obtain es where es: "lists_recent (lcs_middle st) es" "set es \<subseteq> set B" by (auto simp: cache_ok_def)
  have "set (recent_touch cap e es) \<subseteq> set B" for cap
    using es(2) e set_take_subset [of cap "e # others (lbe_player_id e) es"] by (auto simp: recent_touch_def others_def)
  with lru_touch_recent(1) [OF es(1), of e] c show ?thesis by (auto simp: cache_ok_def)
qed

lemma cache_ok_touches:
  "cache_ok config B st \<Longrightarrow> set es \<subseteq> set B \<Longrightarrow> cache_ok config B (st\<lparr>lcs_middle := fold lru_touch es (lcs_middle st)\<rparr>)"
  using cache_ok_touch [of config B] by (induction es arbitrary: st) (simp, fastforce)

lemma cache_ok_get:
  assumes "cache_ok config B st" "wf_board dl B"
  shows "fst (lru_get p (lcs_middle st)) \<in> {None, player_entry B p}"
    "cache_ok config B (st\<lparr>lcs_middle := snd (lru_get p (lcs_middle st))\<rparr>)"
proof -
  obtain es where es: "lists_recent (lcs_middle st) es" "set es \<subseteq> set B" using assms(1) by (auto simp: cache_ok_def)
  note get = lru_get_recent [OF es(1), of p]
  have found: "e \<in> set es \<and> lbe_player_id e = p" if "find (\<lambda>e. lbe_player_id e = p) es = Some e" for e
    using that by (auto simp: find_Some_iff)
  show "fst (lru_get p (lcs_middle st)) \<in> {None, player_entry B p}"
    using get(1) es(2) player_entry_mem [OF assms(2)] found
    by (auto simp: recent_get_def split: option.splits)
  have "set (snd (recent_get p es)) \<subseteq> set B"
    using es(2) by (auto simp: recent_get_def others_def find_Some_iff split: option.splits)
  then show "cache_ok config B (st\<lparr>lcs_middle := snd (lru_get p (lcs_middle st))\<rparr>)"
    using get(2) assms(1) by (auto simp: cache_ok_def)
qed

lemma cache_ok_changed:
  assumes "cache_ok config B st" "set (others p B) \<subseteq> set C"
  shows "cache_ok config C ((lb_invalidate st)\<lparr>lcs_middle := lru_remove p (lcs_middle (lb_invalidate st))\<rparr>)"
proof -
  obtain es where es: "lists_recent (lcs_middle st) es" "set es \<subseteq> set B" using assms(1) by (auto simp: cache_ok_def)
  have "set (others p es) \<subseteq> set (others p B)" using es(2) by (auto simp: others_def)
  then have "set (others p es) \<subseteq> set C" using assms(2) by blast
  with lru_remove_recent(1) [OF es(1), of p] show ?thesis by (auto simp: cache_ok_def lb_invalidate_def)
qed

definition serves :: "('s \<Rightarrow> coll_map \<Rightarrow> nat \<Rightarrow> bool) \<Rightarrow> 's lb_cache \<Rightarrow> board \<Rightarrow> nat \<Rightarrow> lb_cache_state \<times> 's \<Rightarrow> bool" where
  "serves hs b B k = (\<lambda>(st, s).
     wf_board (lcd_display_len (lc_def b)) B \<and> cache_ok (lc_config b) B st \<and> (\<exists>M. hs s M k \<and> stored_board (lc_def b) (lc_rank_id b) (lc_by_player_id b) M B))"

locale leaderboard = collection_maps "lc_store b" "lc_replication b" own holds
  for b :: "'s lb_cache" and own :: "datum_id set" and holds :: "'s \<Rightarrow> coll_map \<Rightarrow> nat \<Rightarrow> bool" +
  assumes own: "lc_rank_id b \<in> own" "lc_by_player_id b \<in> own"
begin

abbreviation ok :: "board \<Rightarrow> nat \<Rightarrow> lb_cache_state \<times> 's \<Rightarrow> bool" where
  "ok \<equiv> serves holds b"

abbreviation dl :: u16 where
  "dl \<equiv> lcd_display_len (lc_def b)"

lemma okE:
  assumes "ok B k (st, s)"
  obtains M ps where "wf_board dl B" "cache_ok (lc_config b) B st" "holds s M k" "stored_board (lc_def b) (lc_rank_id b) (lc_by_player_id b) M B"
    "M (lc_rank_id b) = Some (24, 2 + ucast dl, map (lb_record dl) B)" "M (lc_by_player_id b) = Some (16, 8, ps)"
    "\<And>p. map_of ps (as_bytes p) = map_option lbe_rank_key (player_entry B p)"
  using assms by (auto simp: serves_def stored_board_def)

lemma ok_board: "ok B k z \<Longrightarrow> wf_board dl B"
  by (auto simp: serves_def)

lemma ok_fewer: "ok B (Suc k) z \<Longrightarrow> ok B k z"
  using fewer by (fastforce simp: serves_def)

lemma ok_cache: "ok B k (st, s) \<Longrightarrow> cache_ok (lc_config b) B st' \<Longrightarrow> ok B k (st', s)"
  by (simp add: serves_def)

lemma ok_length: "ok B k (st, s) \<Longrightarrow> length B < 2 ^ 32"
  by (erule okE) (use small [OF own(1)] in fastforce)

text \<open>A call to the store that does not change the collections.\<close>

lemma gives_reading:
  assumes "ok B k (st, s)"
    and "\<And>M ps x s'. holds s M k \<Longrightarrow> M (lc_rank_id b) = Some (24, 2 + ucast dl, map (lb_record dl) B) \<Longrightarrow>
      M (lc_by_player_id b) = Some (16, 8, ps) \<Longrightarrow>
      (\<And>p. map_of ps (as_bytes p) = map_option lbe_rank_key (player_entry B p)) \<Longrightarrow> call s = Some (Inr x, s') \<Longrightarrow> holds s' M k \<and> x = y"
    and "\<And>s'. ok B k (st, s') \<Longrightarrow> Q y (st, s')"
  shows "gives (storeA call) (st, s) Q"
proof (rule gives_store)
  fix x s' assume c: "call s = Some (Inr x, s')"
  show "Q x (st, s')"
    using assms(1)
  proof (rule okE)
    fix M ps assume h: "wf_board dl B" "cache_ok (lc_config b) B st" "holds s M k" "stored_board (lc_def b) (lc_rank_id b) (lc_by_player_id b) M B"
      "M (lc_rank_id b) = Some (24, 2 + ucast dl, map (lb_record dl) B)" "M (lc_by_player_id b) = Some (16, 8, ps)"
      "\<And>p. map_of ps (as_bytes p) = map_option lbe_rank_key (player_entry B p)"
    from assms(2) [OF h(3,5,6,7) c] have "holds s' M k" "x = y" by auto
    with h show ?thesis by (auto intro!: assms(3) simp: serves_def)
  qed
qed

lemma wf_members: "wf_board dl B \<Longrightarrow> \<forall>e\<in>set B. wf_entry dl e"
  by (simp add: wf_board_def)

section \<open>Windows and the total\<close>

lemma ensure_top_gives:
  assumes "ok B k z"
  shows "gives (ensure_top b) z (\<lambda>es z'. es = take (unat (as_u32 (pinned_top_size (lc_config b)))) (standing B) \<and> ok B k z')"
proof -
  obtain st s where z: "z = (st, s)" by (cases z)
  note ok = assms [unfolded z]
  let ?l = "take (unat (as_u32 (pinned_top_size (lc_config b)))) (standing B)"
  have c: "cache_ok (lc_config b) B st" using ok by (simp add: serves_def)
  have ent: "entries_from (map (lb_record dl) ?l) = Inr ?l"
    using wf_members [OF ok_board [OF ok]] by (intro entries_from_records) (auto simp: standing_def dest: in_set_takeD)
  show ?thesis
  proof (cases "lcs_pinned_top st")
    case None
    show ?thesis
      unfolding z ensure_top_def
    proof (intro gives_rules, simp only: None option.case, intro gives_rules, rule gives_reading [OF ok, where y = "map (lb_record dl) ?l"], goal_cases)
      case (1 M ps x s')
      from scan_forward_law [OF own(1) 1(1,5,2)] show ?case by (simp add: standing_def rev_map take_map)
    next
      case (2 s')
      have "cache_ok (lc_config b) B (st\<lparr>lcs_pinned_top := Some ?l\<rparr>)" using c by (simp add: cache_ok_def)
      then show ?case using ok_cache [OF 2] by (intro gives_rules gives_panic [OF ent]) simp
    qed
  next
    case (Some es)
    then have "es = ?l" using c by (simp add: cache_ok_def)
    then show ?thesis unfolding z ensure_top_def using ok by (intro gives_rules) (simp add: Some gives_ret)
  qed
qed

lemma ensure_bottom_gives:
  assumes "ok B k z"
  shows "gives (ensure_bottom b) z (\<lambda>es z'. es = take (unat (as_u32 (pinned_bottom_size (lc_config b)))) B \<and> ok B k z')"
proof -
  obtain st s where z: "z = (st, s)" by (cases z)
  note ok = assms [unfolded z]
  let ?l = "take (unat (as_u32 (pinned_bottom_size (lc_config b)))) B"
  have c: "cache_ok (lc_config b) B st" using ok by (simp add: serves_def)
  have ent: "entries_from (map (lb_record dl) ?l) = Inr ?l"
    using wf_members [OF ok_board [OF ok]] by (intro entries_from_records) (auto dest: in_set_takeD)
  show ?thesis
  proof (cases "lcs_pinned_bottom st")
    case None
    show ?thesis
      unfolding z ensure_bottom_def
    proof (intro gives_rules, simp only: None option.case, intro gives_rules, rule gives_reading [OF ok, where y = "map (lb_record dl) ?l"], goal_cases)
      case (1 M ps x s')
      from scan_backward_law [OF own(1) 1(1,5,2)] show ?case by (simp add: take_map)
    next
      case (2 s')
      have "cache_ok (lc_config b) B (st\<lparr>lcs_pinned_bottom := Some ?l\<rparr>)" using c by (simp add: cache_ok_def)
      then show ?case using ok_cache [OF 2] by (intro gives_rules gives_panic [OF ent]) simp
    qed
  next
    case (Some es)
    then have "es = ?l" using c by (simp add: cache_ok_def)
    then show ?thesis unfolding z ensure_bottom_def using ok by (intro gives_rules) (simp add: Some gives_ret)
  qed
qed

lemma ensure_total_gives:
  assumes "ok B k z"
  shows "gives (ensure_total b) z (\<lambda>t z'. t = word_of_nat (length B) \<and> ok B k z')"
proof -
  obtain st s where z: "z = (st, s)" by (cases z)
  note ok = assms [unfolded z]
  have c: "cache_ok (lc_config b) B st" using ok by (simp add: serves_def)
  show ?thesis
  proof (cases "lcs_total st")
    case None
    show ?thesis
      unfolding z ensure_total_def
    proof (intro gives_rules, simp only: None option.case, intro gives_rules, rule gives_reading [OF ok, where y = "word_of_nat (length B)"], goal_cases)
      case (1 M ps x s')
      from count_law [OF own(1) 1(1,5,2)] show ?case by (auto intro: unat_word)
    next
      case (2 s')
      have "cache_ok (lc_config b) B (st\<lparr>lcs_total := Some (word_of_nat (length B))\<rparr>)" using c by (simp add: cache_ok_def)
      then show ?case using ok_cache [OF 2] by (intro gives_rules) simp
    qed
  next
    case (Some t)
    then have "t = word_of_nat (length B)" using c by (simp add: cache_ok_def)
    then show ?thesis unfolding z ensure_total_def using ok by (intro gives_rules) (simp add: Some gives_ret)
  qed
qed

section \<open>Players\<close>

lemma short_key [simp]: "length k \<le> 24 \<Longrightarrow> short k"
  by (simp add: short_def)

lemma player_rank_key_gives:
  assumes "ok B k (st, s)" and "\<And>s'. ok B k (st, s') \<Longrightarrow> Q (map_option lbe_rank_key (player_entry B p)) (st, s')"
  shows "gives (player_rank_key b p) (st, s) Q"
  unfolding player_rank_key_def
proof (intro gives_rules, rule gives_reading [OF assms(1), where y = "map_option lbe_rank_key (player_entry B p)"], goal_cases)
  case (1 M ps x s')
  from get_law [OF own(2) 1(1) _ 1(5,3)] 1(4) show ?case by simp
next
  case (2 s')
  have "length (lbe_rank_key e) = 8" if "player_entry B p = Some e" for e
    using player_entryD [OF that] wf_members [OF ok_board [OF assms(1)]] by (auto simp: wf_entry_def)
  then show ?case using assms(2) [OF 2] by (auto intro!: gives_rules split: option.splits)
qed

text \<open>The rank of a player's key, counted from the worst.\<close>

lemma rank_of_player_gives:
  assumes "ok B k (st, s)" "i < length B" "e = B ! i" "p = lbe_player_id e"
    and "\<And>s'. ok B k (st, s') \<Longrightarrow> Q (Some (word_of_nat i)) (st, s')"
  shows "gives (storeA (cs_rank_of_key (lc_store b) (lc_rank_id b) (lb_composite_key (lbe_rank_key e) p) (lc_replication b))) (st, s) Q"
proof (rule gives_reading [OF assms(1), where y = "Some (word_of_nat i)"], goal_cases)
  case (1 M ps x s')
  have key: "lb_composite_key (lbe_rank_key e) p = lb_key e" by (simp add: lb_key_def assms(4))
  have e: "e \<in> set B" using assms(2,3) by simp
  then have "length (lb_key e) = 24" using wf_members [OF ok_board [OF assms(1)]] length_lb_key by blast
  then have "short (lb_key e)" by simp
  from rank_law [OF own(1) 1(1) this 1(5) [unfolded key] 1(2)] record_lookup [OF e] record_rank [OF ok_board [OF assms(1)] assms(2)]
  show ?case by (simp add: assms(3))
qed (rule assms(5))

lemma places:
  assumes "length B < 2 ^ 32" "i < length B"
  shows "(1 :: u64) \<le> word_of_nat (length B)" "(word_of_nat i :: u64) \<le> word_of_nat (length B) - 1"
    "(word_of_nat (length B) - 1 - word_of_nat i :: u64) = word_of_nat (length B - 1 - i)"
proof -
  have u: "unat (word_of_nat (length B) :: u64) = length B" "unat (word_of_nat i :: u64) = i" using assms by (simp_all add: unat_of_nat)
  show 1: "(1 :: u64) \<le> word_of_nat (length B)" using u assms by (simp add: word_le_nat_alt)
  have v: "unat (word_of_nat (length B) - 1 :: u64) = length B - 1" using unat_sub [OF 1] u by simp
  then show 2: "(word_of_nat i :: u64) \<le> word_of_nat (length B) - 1" using u assms by (simp add: word_le_nat_alt)
  show "(word_of_nat (length B) - 1 - word_of_nat i :: u64) = word_of_nat (length B - 1 - i)"
    using unat_sub [OF 2] u v by (intro unat_word) simp
qed

lemma gives_total:
  assumes "ok B k z" "\<And>st s. ok B k (st, s) \<Longrightarrow> Q (word_of_nat (length B)) (st, s)"
  shows "gives (ensure_total b) z Q"
  by (rule gives_mono [OF ensure_total_gives [OF assms(1)]]) (use assms(2) in auto)

text \<open>A slice of the ranks from the worst, turned round, is the slice of the standing.\<close>

lemma scan_from_rank_gives:
  assumes "ok B k (st, s)" and "unat r + unat l \<le> length B"
    and "\<And>s'. ok B k (st, s') \<Longrightarrow> Q (map (lb_record dl) (take (unat l) (drop (unat r) B))) (st, s')"
  shows "gives (storeA (cs_scan_from_rank (lc_store b) (lc_rank_id b) r l (lc_replication b))) (st, s) Q"
proof (rule gives_reading [OF assms(1), where y = "map (lb_record dl) (take (unat l) (drop (unat r) B))"], goal_cases)
  case (1 M ps x s')
  from scan_from_rank_law [OF own(1) 1(1,5,2)] show ?case by (simp add: take_map drop_map)
qed (rule assms(3))

lemma slice_records:
  assumes "wf_board dl B"
  shows "entries_from (map (lb_record dl) (take n (drop m B))) = Inr (take n (drop m B))"
  using wf_members [OF assms] by (intro entries_from_records) (meson in_set_dropD in_set_takeD)

lemma rev_slice: "n + m \<le> length xs \<Longrightarrow> rev (take n (drop m xs)) = take n (drop (length xs - n - m) (rev xs))"
  by (simp add: rev_take rev_drop drop_take add.commute)

lemma window_gives:
  assumes ok: "ok B k (st, s)" and place: "place B p = Some r" "r < length B"
    and Q: "\<And>r st s. ok B k (st, s) \<Longrightarrow>
      (case r of None \<Rightarrow> (None, []) | Some (x, es) \<Rightarrow> (Some x, es)) = board_around B p (unat (window :: u32)) \<Longrightarrow> Q r (st, s)"
  shows "gives (if window = 0 then retA (Some (word_of_nat r, []))
      else let half = ucast (window div 2); best_start = saturating_sub (word_of_nat r) half
           in bindA (addA best_start (ucast window)) (\<lambda>e.
                let best_end = min e (word_of_nat (length B)); best_start = saturating_sub best_end (ucast window)
                in bindA (subA (word_of_nat (length B)) best_end) (\<lambda>asc_start. bindA (subA best_end best_start) (\<lambda>len.
                   bindA (storeA (cs_scan_from_rank (lc_store b) (lc_rank_id b) asc_start (ucast len) (lc_replication b))) (\<lambda>raw.
                   bindA (panicA (entries_from raw)) (\<lambda>ascending_entries.
                     let entries = rev ascending_entries
                     in bindA (modifyA (\<lambda>st. st\<lparr>lcs_middle := fold lru_touch entries (lcs_middle st)\<rparr>)) (\<lambda>_.
                        retA (Some (word_of_nat r, entries))))))))) (st, s) Q"
proof -
  define t w where "t = length B" and "w = unat window"
  note wf = ok_board [OF ok]
  have t: "unat (word_of_nat (length B) :: u64) = t" "t < 2 ^ 32" "r < t" using ok_length [OF ok] place(2) by (simp_all add: unat_of_nat t_def)
  have w: "w < 2 ^ 32" using unsigned_less [of window, where ?'a = nat] by (simp add: w_def)
  have r: "unat (word_of_nat r :: u64) = r" using t by (simp add: unat_of_nat)
  define e1 where "e1 = min (r - w div 2 + w) t"
  have spec: "board_around B p w = (Some (word_of_nat r), take (e1 - (e1 - w)) (drop (e1 - w) (standing B)))"
    by (simp add: board_around_def place(1) window_around_def Let_def e1_def t_def)
  show ?thesis
  proof (cases "window = 0")
    case True
    then have "board_around B p 0 = (Some (word_of_nat r), [])" using spec by (simp add: w_def)
    then show ?thesis using True ok by (auto intro!: gives_rules Q)
  next
    case False
    let ?half = "ucast (window div 2) :: u64"
    have half: "unat ?half = w div 2" by (simp add: unat_div w_def)
    show ?thesis
      unfolding if_not_P [OF False] Let_def
    proof (intro gives_rules gives_add_unat, goal_cases)
      case 1
      show ?case using r t w by (simp add: w_def [symmetric] half)
    next
      case (2 x)
      then have e1: "unat (min x (word_of_nat (length B))) = e1" using half r t by (simp add: e1_def w_def [symmetric])
      have b1: "unat (saturating_sub (min x (word_of_nat (length B))) (ucast window)) = e1 - w" by (simp only: unat_saturating_sub e1 unat_ucast_up w_def)
      have e1t: "e1 \<le> t" by (simp add: e1_def)
      show ?case
      proof (intro gives_rules gives_sub_unat, goal_cases)
        case 1
        show ?case by (simp add: word_le_nat_alt)
      next
        case (2 a)
        show ?case by (simp only: word_le_nat_alt unat_saturating_sub diff_le_self)
      next
        case (3 a l)
        then have a: "unat a = t - e1" by (simp only: e1 t)
        have "unat l = e1 - (e1 - w)" using 3(2) by (simp only: b1 e1)
        then have l: "unat (ucast l :: u32) = e1 - (e1 - w)" using w by (subst unat_ucast_down) auto
        have fits: "unat a + unat (ucast l :: u32) \<le> length B" using e1t by (simp add: a l t_def)
        let ?es = "rev (take (e1 - (e1 - w)) (drop (t - e1) B))"
        have es: "?es = take (e1 - (e1 - w)) (drop (e1 - w) (standing B))"
          using e1t by (subst rev_slice) (auto simp: standing_def t_def)
        have sub: "set ?es \<subseteq> set B" by (simp add: set_rev) (meson set_drop_subset set_take_subset subset_trans)
        show ?case
        proof (intro gives_rules scan_from_rank_gives [OF ok fits], goal_cases)
          case (1 s')
          then have c: "cache_ok (lc_config b) B st" by (simp add: serves_def)
          show ?case unfolding a l
            using spec es by (intro gives_rules gives_panic [OF slice_records [OF wf]] Q ok_cache [OF 1] cache_ok_touches [OF c sub])
              (simp add: w_def)
        qed
      qed
    qed
  qed
qed

lemma around_player_gives:
  assumes ok: "ok B k (st, s)"
    and Q: "\<And>r st s. ok B k (st, s) \<Longrightarrow>
      (case r of None \<Rightarrow> (None, []) | Some (x, es) \<Rightarrow> (Some x, es)) = board_around B p (unat window) \<Longrightarrow> Q r (st, s)"
  shows "gives (around_player b p window) (st, s) Q"
proof (cases "player_entry B p")
  case None
  then have "place B p = None" by (simp add: place_None)
  then have "board_around B p (unat window) = (None, [])" by (simp add: board_around_def)
  with None show ?thesis
    unfolding around_player_def by (intro gives_rules player_rank_key_gives [OF ok]) (auto intro!: gives_rules Q)
next
  case (Some e)
  obtain i where i: "i < length B" "e = B ! i" "p = lbe_player_id e"
    using player_entryD [OF Some] by (metis in_set_conv_nth)
  define r where "r = length B - 1 - i"
  note wf = ok_board [OF ok] and len = ok_length [OF ok]
  have place: "place B p = Some r" using place_Some [OF wf i(1)] by (simp add: r_def i)
  have "r < length B" using i(1) by (simp add: r_def)
  note place = place this
  have ws: "1 \<le> (word_of_nat (length B) :: u64)" "(word_of_nat i :: u64) \<le> word_of_nat (length B) - 1"
    "(word_of_nat (length B) - 1 - word_of_nat i :: u64) = word_of_nat r"
    using places [OF len i(1)] by (simp_all add: r_def)
  show ?thesis
    unfolding around_player_def
  proof (intro gives_rules player_rank_key_gives [OF ok], goal_cases)
    case (1 s1)
    show ?case
      unfolding Some option.map option.case
    proof (intro gives_rules gives_total [OF 1] rank_of_player_gives [OF _ i] gives_ok [OF refl] gives_sub ws, assumption, goal_cases)
      case (1 st s s2)
      show ?case unfolding ws(3) by (rule window_gives [OF 1(2) place]) (rule Q)
    qed
  qed
qed

section \<open>Friends\<close>

lemma friend_loop_gives:
  assumes "ok B k (st, s)" and "\<And>st s. ok B k (st, s) \<Longrightarrow> Q (List.map_filter (board_friend B) friend_ids) (st, s)"
  shows "gives (friend_loop b (word_of_nat (length B)) friend_ids) (st, s) Q"
  using assms
proof (induction friend_ids arbitrary: st s Q)
  case Nil
  then show ?case by (auto intro!: gives_rules simp: List.map_filter_def)
next
  case (Cons p ids)
  note ok = Cons.prems(1)
  note wf = ok_board [OF ok] and len = ok_length [OF ok]
  have c: "cache_ok (lc_config b) B st" using ok by (simp add: serves_def)
  let ?st = "st\<lparr>lcs_middle := snd (lru_get p (lcs_middle st))\<rparr>"
  have ok1: "ok B k (?st, s)" by (rule ok_cache [OF ok cache_ok_get(2) [OF c wf]])
  show ?case
  proof (cases "player_entry B p")
    case None
    then have "fst (lru_get p (lcs_middle st)) = None" using cache_ok_get(1) [OF c wf, of p] by simp
    moreover have "List.map_filter (board_friend B) (p # ids) = List.map_filter (board_friend B) ids"
      using None by (simp add: List.map_filter_def board_friend_def)
    ultimately show ?thesis
      using None Cons.prems(2) by (auto intro!: gives_rules player_rank_key_gives [OF ok1] Cons.IH)
  next
    case (Some e)
    obtain i where i: "i < length B" "e = B ! i" "p = lbe_player_id e"
      using player_entryD [OF Some] by (metis in_set_conv_nth)
    define r where "r = length B - 1 - i"
    have place: "place B p = Some r" using place_Some [OF wf i(1)] by (simp add: r_def i)
    let ?f = "\<lparr>lbf_player_id = p, lbf_rank = word_of_nat r, lbf_rank_key = lbe_rank_key e, lbf_display = lbe_display e\<rparr>"
    have all: "List.map_filter (board_friend B) (p # ids) = ?f # List.map_filter (board_friend B) ids"
      using Some place by (simp add: List.map_filter_def board_friend_def)
    have ws: "1 \<le> (word_of_nat (length B) :: u64)" "(word_of_nat i :: u64) \<le> word_of_nat (length B) - 1"
      "(word_of_nat (length B) - 1 - word_of_nat i :: u64) = word_of_nat r"
      using places [OF len i(1)] by (simp_all add: r_def)
    have later: "gives (friend_loop b (word_of_nat (length B)) ids) (st', s') (\<lambda>friends z. gives (retA (?f # friends)) z Q)"
      if "ok B k (st', s')" for st' s'
      by (intro gives_rules Cons.IH [OF that]) (rule Cons.prems(2) [unfolded all])
    show ?thesis
    proof (cases "fst (lru_get p (lcs_middle st))")
      case None
      have ui: "unat (word_of_nat i :: u64) = i" using len i(1) by (simp add: unat_of_nat)
      have one: "take (unat (1 :: u32)) (drop (unat (word_of_nat i :: u64)) B) = [e]"
        using i by (simp add: ui take_Suc_conv_app_nth Cons_nth_drop_Suc [symmetric])
      have fits: "unat (word_of_nat i :: u64) + unat (1 :: u32) \<le> length B" using i(1) by (simp add: ui)
      have ent: "entry_from (lb_key e) (encode_display (lbe_display e) dl) = Inr e"
        using wf_members [OF wf] i by (intro entry_from_record) simp
      have touch: "ok B k (?st\<lparr>lcs_middle := lru_touch e (lcs_middle ?st)\<rparr>, s')" if "ok B k (?st, s')" for s'
        by (rule ok_cache [OF that cache_ok_touch]) (use that i in \<open>auto simp: serves_def\<close>)
      show ?thesis
        unfolding friend_loop.simps
      proof (intro gives_rules, simp only: None option.case, intro gives_rules player_rank_key_gives [OF ok1], goal_cases)
        case (1 s1)
        show ?case
          unfolding Some option.map option.case
        proof (intro gives_rules rank_of_player_gives [OF 1 i] gives_ok [OF refl] scan_from_rank_gives [OF _ fits], assumption, goal_cases)
          case (1 s2 s3)
          then show ?case unfolding one
            by (auto intro!: gives_rules gives_ok [OF refl] gives_panic [OF ent] gives_sub ws later touch [simplified] simp: lb_record_def ws(3))
        qed
      qed
    next
      case (Some f)
      then have "f = e" using cache_ok_get(1) [OF c wf, of p] \<open>player_entry B p = Some e\<close> by simp
      with Some show ?thesis
        by (auto intro!: gives_rules rank_of_player_gives [OF ok1 i] gives_ok [OF refl] gives_sub ws later simp: ws(3))
    qed
  qed
qed

lemma friend_ranks_gives:
  assumes "ok B k (st, s)" and "\<And>st s. ok B k (st, s) \<Longrightarrow> Q (List.map_filter (board_friend B) friend_ids) (st, s)"
  shows "gives (friend_ranks b friend_ids) (st, s) Q"
  unfolding friend_ranks_def by (intro gives_rules gives_total [OF assms(1)] friend_loop_gives assms(2))

section \<open>Queries\<close>

lemma take_pinned: "take (min a (min (length xs) n)) xs = take (min a n) xs"
proof (cases "length xs \<le> n")
  case True
  then show ?thesis by (cases "a \<le> length xs") (simp_all add: min_def)
qed (simp add: min_def)

lemma lb_query_gives:
  assumes "ok B k z" "wf_lb_query_req q"
  shows "gives (lb_query b (encode_lb_query_req q)) z (\<lambda>r z'. r = encode_lb_result (board_result (lc_config b) B q) \<and> ok B k z')"
proof -
  have dec: "decode_lb_query_req (encode_lb_query_req q) = Inr q" using assms(2) by (simp add: lb_query_req.exact)
  let ?a = "case lbq_around_player q of None \<Rightarrow> (None, []) | Some p \<Rightarrow> board_around B p (unat (lbq_window q))"
  have around: "gives (case lbq_around_player q of
        None \<Rightarrow> retA (None, [])
      | Some player_id \<Rightarrow>
          bindA (around_player b player_id (lbq_window q)) (\<lambda>around.
            case around of Some (r, entries) \<Rightarrow> retA (Some r, entries) | None \<Rightarrow> retA (None, []))) (st, s)
      (\<lambda>x z'. x = ?a \<and> ok B k z')" if "ok B k (st, s)" for st s
    using that by (auto intro!: gives_rules around_player_gives split: option.splits)
  show ?thesis
    unfolding lb_query_def dec sum.case
  proof (intro gives_rules gives_mono [OF ensure_top_gives [OF assms(1)]], elim conjE, goal_cases)
    case top: (1 top z1)
    show ?case
    proof (intro gives_rules gives_mono [OF ensure_bottom_gives [OF top(2)]], elim conjE, goal_cases)
      case bot: (1 bot z2)
      have res: "board_result (lc_config b) B q = \<lparr>lb_total = word_of_nat (length B), lb_player_rank = fst ?a,
          lb_top = take (min (unat (lbq_top q)) (length top)) top, lb_bottom = take (min (unat (lbq_bottom q)) (length bot)) bot,
          lb_around = snd ?a, lb_friends = List.map_filter (board_friend B) (lbq_friend_ids q)\<rparr>"
        using take_pinned [of _ "rev B"] by (simp add: board_result_def Let_def top bot standing_def take_pinned)
      show ?case
      proof (intro gives_rules gives_total [OF bot(2)], goal_cases)
        case (1 st s)
        show ?case
        proof (intro gives_mono [OF around [OF 1]], elim conjE, goal_cases)
          case (1 x z3)
          then show ?case
            by (cases z3) (auto intro!: gives_rules friend_ranks_gives simp: res case_prod_unfold)
        qed
      qed
    qed
  qed
qed

section \<open>Changes\<close>

lemma as_bytes_eq [simp]: "as_bytes p = as_bytes q \<longleftrightarrow> p = q"
  by (metis from_bytes_as_bytes)

lemma player_entry_iff: "wf_board dl B \<Longrightarrow> player_entry B p = Some e \<longleftrightarrow> e \<in> set B \<and> lbe_player_id e = p"
  using player_entryD player_entry_mem by blast

lemma player_entry_others:
  assumes "wf_board dl B"
  shows "player_entry (others p B) q = (if q = p then None else player_entry B q)"
proof (cases "player_entry (others p B) q")
  case None
  then have "q \<noteq> p \<Longrightarrow> player_entry B q = None" by (auto simp: player_entry_None others_def)
  with None show ?thesis by simp
next
  case (Some e)
  then have "q \<noteq> p" "player_entry B q = Some e" using player_entryD [OF Some] player_entry_iff [OF assms] by (auto simp: others_def)
  with Some show ?thesis by simp
qed

lemma player_entry_put:
  assumes "wf_board dl B" "wf_entry dl e"
  shows "player_entry (board_put e B) q = (if q = lbe_player_id e then Some e else player_entry B q)"
proof (cases "player_entry (board_put e B) q")
  case None
  then have "q \<noteq> lbe_player_id e" "player_entry B q = None" by (auto simp: player_entry_None board_put_def set_insort_key others_def)
  with None show ?thesis by simp
next
  case (Some f)
  have "e \<in> set (board_put e B)" by (simp add: board_put_def set_insort_key)
  then have "player_entry (board_put e B) (lbe_player_id e) = Some e" using player_entry_mem [OF wf_put [OF assms]] by blast
  moreover have "player_entry B q = Some f" if "q \<noteq> lbe_player_id e"
    using that player_entryD [OF Some] player_entry_iff [OF assms(1)] by (auto simp: board_put_def set_insort_key others_def)
  ultimately show ?thesis using Some by auto
qed

text \<open>The end of an update, once the old entry of the player is gone.\<close>

lemma put_gives:
  assumes C: "wf_board dl C" "player_entry C (lbe_player_id e) = None" "set (others (lbe_player_id e) B) \<subseteq> set C"
    and e: "wf_entry dl e" and c: "cache_ok (lc_config b) B st"
    and h: "holds s M (Suc (Suc k))" "M (lc_rank_id b) = Some (24, 2 + ucast dl, map (lb_record dl) C)" "M (lc_by_player_id b) = Some (16, 8, ps)"
      "\<And>p. p \<noteq> lbe_player_id e \<Longrightarrow> map_of ps (as_bytes p) = map_option lbe_rank_key (player_entry C p)"
  shows "gives (bindA (storeA (cs_insert (lc_store b) (lc_rank_id b) (lb_key e) (encode_display (lbe_display e) dl) (lc_replication b))) (\<lambda>_.
      bindA (storeA (cs_insert (lc_store b) (lc_by_player_id b) (as_bytes (lbe_player_id e)) (lbe_rank_key e) (lc_replication b))) (\<lambda>_.
      bindA (modifyA lb_invalidate) (\<lambda>_.
        modifyA (\<lambda>st. st\<lparr>lcs_middle := lru_remove (lbe_player_id e) (lcs_middle st)\<rparr>))))) (st, s)
    (\<lambda>_ z. ok (board_put e C) k z)"
proof (intro gives_rules gives_store, goal_cases)
  case (1 u s1 v s2)
  let ?p = "lbe_player_id e"
  have sh: "short (lb_key e)" "short (encode_display (lbe_display e) dl)" "short (as_bytes ?p)" "short (lbe_rank_key e)"
    using e unsigned_less [of dl, where ?'a = nat] by (simp_all add: short_def wf_entry_def lb_key_def lb_composite_key_def)
  have ids: "lc_by_player_id b \<noteq> lc_rank_id b" using h(2,3) by auto
  let ?M = "M(lc_rank_id b \<mapsto> (24, 2 + ucast dl, map (lb_record dl) (board_put e C)))"
  have M1: "holds s1 ?M (Suc k)" using insert_law [OF own(1) h(1) sh(1,2) 1(1) h(2)] by (simp add: records_put [OF C(1) e C(2)])
  have by1: "?M (lc_by_player_id b) = Some (16, 8, ps)" using h(3) ids by simp
  have M2: "holds s2 (?M(lc_by_player_id b \<mapsto> (16, 8, upsert (as_bytes ?p) (lbe_rank_key e) ps))) k"
    by (rule insert_law [OF own(2) M1 sh(3,4) 1(2) by1])
  have "ascending ps" using small [OF own(2) h(1,3)] by simp
  then have "stored_board (lc_def b) (lc_rank_id b) (lc_by_player_id b) (?M(lc_by_player_id b \<mapsto> (16, 8, upsert (as_bytes ?p) (lbe_rank_key e) ps))) (board_put e C)"
    using ids h(4) by (auto simp: stored_board_def map_of_upsert player_entry_put [OF C(1) e])
  moreover have "cache_ok (lc_config b) (board_put e C)
      ((lb_invalidate st)\<lparr>lcs_middle := lru_remove ?p (lcs_middle (lb_invalidate st))\<rparr>)"
    using C(2,3) by (intro cache_ok_changed [OF c]) (auto simp: board_put_def set_insort_key others_no_player)
  ultimately show ?case using wf_put [OF C(1) e] M2 by (auto simp: serves_def)
qed

lemma update_gives:
  assumes ok: "ok B (Suc (Suc k)) (st, s)" and op: "op = LbUpdate p display rank_key friend_ids top_n window" "wf_lb_execute_op op"
  shows "gives (lb_execute b (encode_lb_execute_op op)) (st, s)
    (\<lambda>r z. r = encode_lb_result (board_result (lc_config b) (board_execute (lc_def b) op B) (execute_query op)) \<and>
       ok (board_execute (lc_def b) op B) k z)"
proof -
  let ?e = "\<lparr>lbe_rank_key = rank_key, lbe_player_id = p, lbe_display = take (unat dl) display\<rparr>"
  have dec: "decode_lb_execute_op (encode_lb_execute_op op) = Inr op" using op(2) by (rule lb_execute_op.dec_put)
  have q: "wf_lb_query_req (execute_query op)" using op by (simp add: wf_lb_query_req_def)
  have e: "wf_entry dl ?e" using op by (simp add: wf_entry_def wf_rank_key_def)
  have key: "lb_key ?e = lb_composite_key rank_key p" "encode_display (take (unat dl) display) dl = encode_display display dl"
    by (simp_all add: lb_key_def encode_display_take)
  note wf = ok_board [OF ok]
  have new: "board_execute (lc_def b) op B = board_update (lcd_rule (lc_def b)) ?e B" by (simp add: op(1))
  have ask: "gives (lb_query b (encode_lb_query_req (execute_query op))) z
      (\<lambda>r z. r = encode_lb_result (board_result (lc_config b) C (execute_query op)) \<and> ok C k z)" if "ok C k z" for C z
    by (rule lb_query_gives [OF that q])
  have rule: "apply_rule b old new \<longleftrightarrow> beats (lcd_rule (lc_def b)) new old" for old new
    by (simp add: apply_rule_def beats_def split: lb_rule.splits)
  show ?thesis
    unfolding lb_execute_def dec sum.case
    unfolding op(1) lb_execute_op.case
  proof (rule gives_bind, rule player_rank_key_gives [OF ok], goal_cases)
    case (1 s1)
    obtain M ps where h: "cache_ok (lc_config b) B st" "holds s1 M (Suc (Suc k))"
      "M (lc_rank_id b) = Some (24, 2 + ucast dl, map (lb_record dl) B)" "M (lc_by_player_id b) = Some (16, 8, ps)"
      "\<And>p. map_of ps (as_bytes p) = map_option lbe_rank_key (player_entry B p)" using 1 by (rule okE) blast
    note put = put_gives [where e = ?e, unfolded key(1), simplified lb_entry.select_convs, unfolded key(2)]
    show ?case
    proof (cases "player_entry B p")
      case None
      then have C: "board_update (lcd_rule (lc_def b)) ?e B = board_put ?e B" by (simp add: board_update_def)
      have "set (others p B) \<subseteq> set B" by (auto simp: others_def)
      note put = put [OF wf None this e h(1-5)]
      show ?thesis
        unfolding None option.map option.case if_True
        by (rule gives_seq, rule gives_bind, rule gives_ret, rule put) (use ask in \<open>simp add: C op(1)\<close>)
    next
      case (Some old)
      show ?thesis
      proof (cases "beats (lcd_rule (lc_def b)) rank_key (lbe_rank_key old)")
        case True
        then have C: "board_update (lcd_rule (lc_def b)) ?e B = board_put ?e (others p B)"
          using Some by (simp add: board_update_def board_put_def others_def)
        have old: "old \<in> set B" "lbe_player_id old = p" using player_entryD [OF Some] by simp_all
        then have okey: "lb_composite_key (lbe_rank_key old) p = lb_key old" by (simp add: lb_key_def)
        have "short (lb_key old)" using wf_members [OF wf] old(1) length_lb_key by (metis order_refl short_key)
        note gone = remove_law [OF own(1) h(2) this _ h(3), unfolded records_without [OF wf old(1)] old(2)]
        have ids: "lc_by_player_id b \<noteq> lc_rank_id b" using h(3,4) by auto
        show ?thesis
          unfolding Some option.map option.case rule if_P [OF True] okey
        proof (rule gives_seq, rule gives_bind, rule gives_store)
          fix u s2 assume "cs_remove (lc_store b) (lc_rank_id b) (lb_key old) (lc_replication b) s1 = Some (Inr u, s2)"
          note M = gone [OF this]
          have none: "player_entry (others p B) p = None" by (simp add: player_entry_others [OF wf])
          show "gives (bindA (storeA (cs_insert (lc_store b) (lc_rank_id b) (lb_composite_key rank_key p) (encode_display display dl) (lc_replication b))) (\<lambda>_.
              bindA (storeA (cs_insert (lc_store b) (lc_by_player_id b) (as_bytes p) rank_key (lc_replication b))) (\<lambda>_.
              bindA (modifyA lb_invalidate) (\<lambda>_.
                modifyA (\<lambda>st. st\<lparr>lcs_middle := lru_remove p (lcs_middle st)\<rparr>))))) (st, s2) (\<lambda>_ z. ok (board_put ?e (others p B)) k z)"
            by (rule put [OF wf_others [OF wf] none subset_refl e h(1) M, where ps = ps]) (use ids h(4,5) in \<open>auto simp: player_entry_others [OF wf]\<close>)
        qed (use ask in \<open>simp add: C op(1)\<close>)
      next
        case False
        then have C: "board_update (lcd_rule (lc_def b)) ?e B = B" using Some by (simp add: board_update_def)
        from ask [OF ok_fewer [OF ok_fewer [OF 1]]] show ?thesis
          using False by (simp add: Some rule gives_rules new C op(1))
      qed
    qed
  qed
qed

lemma remove_gives:
  assumes ok: "ok B k (st, s)"
  shows "gives (lb_execute b (encode_lb_execute_op (LbRemove p))) (st, s)
    (\<lambda>r z. r = encode_lb_result (board_result (lc_config b) (others p B) (execute_query (LbRemove p))) \<and> ok (others p B) k z)"
proof -
  have dec: "decode_lb_execute_op (encode_lb_execute_op (LbRemove p)) = Inr (LbRemove p)" by (rule lb_execute_op.dec_put) simp
  note wf = ok_board [OF ok]
  have q: "wf_lb_query_req (execute_query (LbRemove p))" by (simp add: wf_lb_query_req_def short_def)
  have ask: "gives (lb_query b (encode_lb_query_req (execute_query (LbRemove p)))) z
      (\<lambda>r z. r = encode_lb_result (board_result (lc_config b) C (execute_query (LbRemove p))) \<and> ok C k z)" if "ok C k z" for C z
    by (rule lb_query_gives [OF that q])
  show ?thesis
    unfolding lb_execute_def dec sum.case lb_execute_op.case
  proof (rule gives_bind, rule player_rank_key_gives [OF ok], goal_cases)
    case (1 s1)
    show ?case
    proof (cases "player_entry B p")
      case None
      then show ?thesis using ask [OF 1] by (simp add: others_no_player gives_rules)
    next
      case (Some old)
      obtain M ps where h: "cache_ok (lc_config b) B st" "holds s1 M k"
        "M (lc_rank_id b) = Some (24, 2 + ucast dl, map (lb_record dl) B)" "M (lc_by_player_id b) = Some (16, 8, ps)"
        "\<And>p. map_of ps (as_bytes p) = map_option lbe_rank_key (player_entry B p)" using 1 by (rule okE) blast
      have old: "old \<in> set B" "lbe_player_id old = p" using player_entryD [OF Some] by simp_all
      then have okey: "lb_composite_key (lbe_rank_key old) p = lb_key old" by (simp add: lb_key_def)
      have "short (lb_key old)" using wf_members [OF wf] old(1) length_lb_key by (metis order_refl short_key)
      note gone = remove_law [OF own(1) h(2) this _ h(3), unfolded records_without [OF wf old(1)] old(2)]
      have ids: "lc_by_player_id b \<noteq> lc_rank_id b" using h(3,4) by auto
      let ?M = "M(lc_rank_id b \<mapsto> (24, 2 + ucast dl, map (lb_record dl) (others p B)))"
      show ?thesis
        unfolding Some option.map option.case okey
      proof (rule gives_seq [where P = "\<lambda>_ z. ok (others p B) k z"], intro gives_rules gives_store, goal_cases)
        case (1 u s2 v s3)
        have by1: "?M (lc_by_player_id b) = Some (16, 8, ps)" using h(4) ids by simp
        have "holds s3 (?M(lc_by_player_id b \<mapsto> (16, 8, without (as_bytes p) ps))) k"
          by (rule remove_law [OF own(2) gone [OF 1(1)] _ 1(2) by1]) simp
        moreover have "stored_board (lc_def b) (lc_rank_id b) (lc_by_player_id b)
            (?M(lc_by_player_id b \<mapsto> (16, 8, without (as_bytes p) ps))) (others p B)"
          using ids h(5) by (auto simp: stored_board_def map_of_without player_entry_others [OF wf])
        ultimately show ?case using wf_others [OF wf] cache_ok_changed [OF h(1) subset_refl] by (auto simp: serves_def)
      qed (use ask in simp)
    qed
  qed
qed

lemma execute_gives:
  assumes "ok B (Suc (Suc k)) z" "wf_lb_execute_op op"
  shows "gives (lb_execute b (encode_lb_execute_op op)) z
    (\<lambda>r z. r = encode_lb_result (board_result (lc_config b) (board_execute (lc_def b) op B) (execute_query op)) \<and>
       ok (board_execute (lc_def b) op B) k z)"
proof (cases op)
  case (LbUpdate p display rank_key friend_ids top_n window)
  obtain st s where z: "z = (st, s)" by (cases z)
  show ?thesis unfolding z by (rule update_gives [OF assms(1) [unfolded z] LbUpdate assms(2)])
next
  case (LbRemove p)
  with remove_gives ok_fewer [OF ok_fewer [OF assms(1)]] show ?thesis by (cases z) auto
qed

end

end
