(* ===== verification/Leaderboards.thy ===== *)
theory Leaderboards
  imports Lb_Serve
begin

text \<open>
  Runs of a leaderboard on the replicated collections: opening it (\<open>LbCache::new\<close>), then any
  sequence of queries and operations. The locale \<open>leaderboard\<close> is interpreted on the boards over
  \<open>RemoteCollectionStore\<close>.
\<close>

section \<open>Runs\<close>

datatype lb_request = BoardQuery lb_query_req | BoardExecute lb_execute_op

fun wf_lb_request :: "lb_request \<Rightarrow> bool" where
  "wf_lb_request (BoardQuery q) \<longleftrightarrow> wf_lb_query_req q"
| "wf_lb_request (BoardExecute op) \<longleftrightarrow> wf_lb_execute_op op"

fun lb_handle :: "'s lb_cache \<Rightarrow> lb_request \<Rightarrow> (bytes, 's) act" where
  "lb_handle b (BoardQuery q) = lb_query b (encode_lb_query_req q)"
| "lb_handle b (BoardExecute op) = lb_execute b (encode_lb_execute_op op)"

text \<open>A run ends at the first request that does not return or stops; it returns the answers so far and why it ended.\<close>

datatype lb_end = AllAnswered | NoReturn | StoppedBy stop

fun lb_run :: "'s lb_cache \<Rightarrow> lb_request list \<Rightarrow> lb_cache_state \<times> 's \<Rightarrow> bytes list \<times> lb_end" where
  "lb_run b [] z = ([], AllAnswered)"
| "lb_run b (req # reqs) z =
     (case lb_handle b req z of
        None \<Rightarrow> ([], NoReturn)
      | Some (Inl e, _) \<Rightarrow> ([], StoppedBy e)
      | Some (Inr r, z') \<Rightarrow> (case lb_run b reqs z' of (rs, fin) \<Rightarrow> (r # rs, fin)))"

text \<open>The first access opens the board.\<close>

definition lb_session ::
    "(datum_id \<Rightarrow> bytes \<Rightarrow> datum_id) \<Rightarrow> 's lb_index_kind \<Rightarrow> datum_id \<Rightarrow> lb_request list \<Rightarrow> 's \<Rightarrow> bytes list \<times> lb_end" where
  "lb_session from_name kind target reqs s =
     (case lb_open from_name kind target None s of
        None \<Rightarrow> ([], NoReturn)
      | Some (Inl e, _) \<Rightarrow> ([], StoppedBy e)
      | Some (Inr (b, st), s') \<Rightarrow> lb_run b reqs (st, s'))"

text \<open>The same requests on the board.\<close>

fun board_run :: "lb_class_def \<Rightarrow> lb_cache_config \<Rightarrow> lb_request list \<Rightarrow> board \<Rightarrow> lb_result list" where
  "board_run cd config [] B = []"
| "board_run cd config (BoardQuery q # reqs) B = board_result config B q # board_run cd config reqs B"
| "board_run cd config (BoardExecute op # reqs) B =
     (let B' = board_execute cd op B in board_result config B' (execute_query op) # board_run cd config reqs B')"

context leaderboard
begin

lemma handle_gives:
  assumes "ok B (Suc (Suc k)) z" "wf_lb_request req" "board_run (lc_def b) (lc_config b) (req # reqs) B = a # as"
  shows "gives (lb_handle b req) z (\<lambda>r z. r = encode_lb_result a \<and> (\<exists>C. ok C k z \<and> board_run (lc_def b) (lc_config b) reqs C = as))"
proof (cases req)
  case (BoardQuery q)
  then have "wf_lb_query_req q" using assms(2) by simp
  from lb_query_gives [OF ok_fewer [OF ok_fewer [OF assms(1)]] this] show ?thesis
    unfolding BoardQuery lb_handle.simps by (rule gives_mono) (use assms(3) BoardQuery in auto)
next
  case (BoardExecute op)
  then have "wf_lb_execute_op op" using assms(2) by simp
  from execute_gives [OF assms(1) this] show ?thesis
    unfolding BoardExecute lb_handle.simps by (rule gives_mono) (use assms(3) BoardExecute in \<open>auto simp: Let_def\<close>)
qed

lemma run_answers:
  assumes "ok B (2 * length reqs) z" "\<forall>req\<in>set reqs. wf_lb_request req" "lb_run b reqs z = (rs, fin)"
  shows "\<exists>rest. map encode_lb_result (board_run (lc_def b) (lc_config b) reqs B) = rs @ rest \<and>
    (fin = AllAnswered \<and> rest = [] \<or> fin = NoReturn \<or> (\<exists>msg. fin = StoppedBy (StorePanic msg)))"
  using assms
proof (induction reqs arbitrary: B z rs)
  case (Cons req reqs)
  obtain a as where a: "board_run (lc_def b) (lc_config b) (req # reqs) B = a # as" by (cases req) (auto simp: Let_def)
  have "gives (lb_handle b req) z
      (\<lambda>r z. r = encode_lb_result a \<and> (\<exists>C. ok C (2 * length reqs) z \<and> board_run (lc_def b) (lc_config b) reqs C = as))"
    using Cons.prems(1,2) by (intro handle_gives [OF _ _ a]) simp_all
  note good = this [unfolded gives_def, rule_format]
  show ?case
  proof (cases "lb_handle b req z")
    case None
    then show ?thesis using Cons.prems(3) by auto
  next
    case (Some y)
    obtain r z' where y: "y = (r, z')" by (cases y)
    note got = good [OF Some [unfolded y]]
    show ?thesis
    proof (cases r)
      case (Inl e)
      then obtain msg where "e = StorePanic msg" using got by (cases e) auto
      then show ?thesis using Cons.prems(3) Some y Inl by auto
    next
      case (Inr x)
      then obtain C where C: "x = encode_lb_result a" "ok C (2 * length reqs) z'" "board_run (lc_def b) (lc_config b) reqs C = as"
        using got by auto
      obtain rs' where rs: "rs = x # rs'" "lb_run b reqs z' = (rs', fin)"
        using Cons.prems(3) Some y Inr by (auto split: prod.splits)
      from Cons.IH [OF C(2) _ rs(2)] Cons.prems(2) C show ?thesis by (auto simp: a rs(1))
    qed
  qed
qed simp

end

section \<open>Opening a board\<close>

lemma map_left: "map_sum f id r = Inl x \<longleftrightarrow> (\<exists>e. r = Inl e \<and> x = f e)" "map_sum f id r = Inr y \<longleftrightarrow> r = Inr y"
  by (cases r; auto)+

lemma by_player_fits: "sizes_fit 16 8 COLLECTION_PAGE_SIZE"
  by (simp add: COLLECTION_PAGE_SIZE_def sizes_fit_def validate_page_size_def is_power_of_two_def upt_rec)

text \<open>A board not opened before is empty; else its collections hold it.\<close>

definition opens_to :: "lb_class_def \<Rightarrow> datum_id \<Rightarrow> datum_id \<Rightarrow> coll_map \<Rightarrow> board \<Rightarrow> bool" where
  "opens_to cd rank_id by_player_id M B \<longleftrightarrow>
     M rank_id = None \<and> M by_player_id = None \<and> B = [] \<or>
     wf_board (lcd_display_len cd) B \<and> stored_board cd rank_id by_player_id M B"

lemma empty_board: "wf_board dl []" "M rank_id = Some (24, 2 + ucast (lcd_display_len cd), []) \<Longrightarrow> M by_id = Some (16, 8, []) \<Longrightarrow> stored_board cd rank_id by_id M []"
  by (simp_all add: wf_board_def stored_board_def player_entry_def)

context collection_maps
begin

lemma opened:
  assumes h: "holds s M k" "opens_to cd board_id by_id M B" and ids: "board_id \<in> own" "by_id \<in> own" "by_id \<noteq> board_id"
    and fit: "sizes_fit 24 (2 + ucast (lcd_display_len cd)) COLLECTION_PAGE_SIZE" and by_id: "by_id = from_name board_id (lit ''by_player'')"
    and new: "lb_cache_new from_name cd st board_id n config s = Some (Inr (b, state), s')"
  shows "b = \<lparr>lc_def = cd, lc_store = st, lc_rank_id = board_id, lc_by_player_id = by_id, lc_replication = n, lc_config = config\<rparr>"
    "serves holds b B k (state, s')"
proof -
  obtain s1 where c: "cs_create st board_id 24 (2 + ucast (lcd_display_len cd)) n s = Some (Inr (), s1)"
    "cs_create st by_id 16 8 n s1 = Some (Inr (), s')" "state = new_state config"
    and b: "b = \<lparr>lc_def = cd, lc_store = st, lc_rank_id = board_id, lc_by_player_id = by_id, lc_replication = n, lc_config = config\<rparr>"
    using new by (auto simp: lb_cache_new_def Let_def by_id split: option.splits sum.splits)
  show "b = \<lparr>lc_def = cd, lc_store = st, lc_rank_id = board_id, lc_by_player_id = by_id, lc_replication = n, lc_config = config\<rparr>" by (rule b)
  note first = create_law [OF ids(1) h(1) fit c(1)]
  note second = create_law [OF ids(2) first by_player_fits c(2)]
  have "wf_board (lcd_display_len cd) B \<and> (\<exists>M. holds s' M k \<and> stored_board cd board_id by_id M B)"
    using h(2) unfolding opens_to_def
  proof (elim disjE conjE)
    assume "M board_id = None" "M by_id = None" "B = []"
    then show ?thesis using second ids(3) empty_board by (auto intro!: exI)
  next
    assume w: "wf_board (lcd_display_len cd) B" "stored_board cd board_id by_id M B"
    then have "M board_id \<noteq> None" "M by_id \<noteq> None" by (auto simp: stored_board_def)
    then show ?thesis using second w by auto
  qed
  then show "serves holds b B k (state, s')" using cache_ok_new by (auto simp: serves_def b c(3))
qed

end

interpretation remote_board:
  leaderboard "b\<lparr>lc_store := remote_collection_store (faulty now)\<rparr>" "{lc_rank_id b, lc_by_player_id b}"
    "remote_holds N (lc_replication b) {lc_rank_id b, lc_by_player_id b}"
  for b now N
  by (intro leaderboard.intro leaderboard_axioms.intro) (simp_all add: remote.collection_maps_axioms)

section \<open>Classes whose entries fit no page\<close>

definition coll_absent :: "datum_id \<Rightarrow> unit view" where
  "coll_absent i node x \<longleftrightarrow>
     (let cs = sn_collections node in \<not> lock_lost cs \<and> open_trees cs i = None \<and> coll_files cs (collection_file_name i) = None)"

lemma oversized_create_refused:
  assumes "4096 - 32 < unat ks + unat vs"
  shows "\<exists>s ns. btree_create ks vs COLLECTION_PAGE_SIZE = Inl (Bail s ns)"
proof -
  have "capacity COLLECTION_PAGE_SIZE (unat ks + unat vs) = Inr 0"
    using assms by (auto simp: capacity_def COLLECTION_PAGE_SIZE_def NODE_HEADER_LEN_def)
  moreover obtain m where "capacity COLLECTION_PAGE_SIZE (unat ks + 16) = Inr m" by (simp add: capacity_def)
  moreover have "validate_page_size COLLECTION_PAGE_SIZE = Inr ()" using by_player_fits by (simp add: sizes_fit_def)
  ultimately show ?thesis by (simp add: btree_create_def max_leaf_entries_def max_internal_entries_def)
qed

lemma oversized_obeys:
  assumes "4096 - 32 < unat ks + unat vs"
  shows "obeys (coll_absent i) now (SCollectionCreate i ks vs) {()} {()} (\<lambda>_ _. False)"
proof (rule obeysI)
  fix node x assume v: "coll_absent i node x"
  obtain s ns where c: "btree_create ks vs COLLECTION_PAGE_SIZE = Inl (Bail s ns)" using oversized_create_refused [OF assms] by blast
  have "\<exists>msg. serve_collection (sn_collections node) (SCollectionCreate i ks vs) = (Some (SError msg), sn_collections node)"
    using v c by (simp add: coll_absent_def Let_def answer_def with_collection_def open_collection_def)
  then obtain msg where "serve (\<lambda>_ _ u. (Inl (Bail ''unreachable'' []), u)) node (SCollectionCreate i ks vs) () = (Some (SError msg), node, ())"
    by (auto simp: serve_coll)
  then show "\<exists>resp node' x'. serve (\<lambda>_ _ u. (Inl (Bail ''unreachable'' []), u)) node (SCollectionCreate i ks vs) () = (Some resp, node', ()) \<and>
      coll_absent i node' x' \<and> x' \<in> {()} \<and> ((\<exists>msg. resp = SError msg) \<or> wf_store_response resp \<and> False)"
    using v by auto
qed simp

lemma oversized_writes:
  assumes "4096 - 32 < unat ks + unat vs" "store_addresses c node = Some addr" "view_at (coll_absent i) w addr ()"
    "coll_write_one (faulty now) (SCollectionCreate i ks vs) c node w = (res, w')"
  shows "res \<noteq> Inr () \<and> view_at (coll_absent i) w' addr () \<and> (\<forall>a. a \<noteq> addr \<longrightarrow> net_nodes w' a = net_nodes w a)"
proof -
  obtain r w1 where r: "try_call (faulty now) c node (SCollectionCreate i ks vs) w = (r, w1)" by fastforce
  note ob = oversized_obeys [OF assms(1), of i now]
  from try_call_same [OF ob ob _ assms(2,3) singletonI r] show ?thesis
    using assms(4) r by (auto simp: coll_write_one_def split: sum.splits store_response.splits)
qed

section \<open>Properties\<close>

text \<open>
  C12: A leaderboard answers from its standing. A board is opened on replicated collections that lose
  messages, empty or with the entries it had, and handed any sequence of queries and operations. The
  answers are those of the list of its players in the order of their scores, with the updates that
  beat the old score under the rule of the class: total, top and bottom up to the pinned windows,
  the window around a player, and the friends on the board with their ranks, whatever the cache
  holds. The run ends early only when the store panics or does not return; the cache neither panics
  nor reports a divergence of its two collections.
\<close>

theorem leaderboards_answer_from_the_standing:
  assumes "remote_holds N LB_REPLICATION {target, by_player_id} s M (2 * length reqs)" and "opens_to (lk_def kind) target by_player_id M B"
    and "by_player_id = from_name target (lit ''by_player'')" "by_player_id \<noteq> target"
    and "sizes_fit 24 (2 + ucast (lcd_display_len (lk_def kind))) COLLECTION_PAGE_SIZE" and "\<forall>req\<in>set reqs. wf_lb_request req"
    and "lk_collection_store kind = Some (remote_collection_store (faulty now))"
    and "lb_session from_name kind target reqs s = (rs, fin)"
  shows "\<exists>rest. map encode_lb_result (board_run (lk_def kind) (lk_cache_config kind target) reqs B) = rs @ rest \<and>
    (fin = AllAnswered \<and> rest = [] \<or> fin = NoReturn \<or> (\<exists>msg. fin = StoppedBy (StorePanic msg)))"
proof -
  consider (panic) msg where "rs = []" "fin = NoReturn \<or> fin = StoppedBy (StorePanic msg)"
    | (opened) b st s' where "lb_cache_new from_name (lk_def kind) (remote_collection_store (faulty now)) target LB_REPLICATION (lk_cache_config kind target) s
        = Some (Inr (b, st), s')" "lb_run b reqs (st, s') = (rs, fin)"
    using assms(7,8) by (auto simp: lb_session_def lb_open_def map_left split: option.splits sum.splits)
  then show ?thesis
  proof cases
    case opened
    note new = remote.opened [OF assms(1,2) _ _ assms(4,5,3) opened(1), simplified]
    have b: "b\<lparr>lc_store := remote_collection_store (faulty now)\<rparr> = b" by (simp add: new(1))
    show ?thesis
      using remote_board.run_answers [of N b now B reqs "(st, s')" rs fin, unfolded b] new assms(6) opened(2) by simp
  qed auto
qed


theorem leaderboards_answer_from_the_standing_witness:
  "\<exists>kind w rs rest fin. lk_collection_store kind = Some (remote_collection_store (faulty 0)) \<and> net_faults w = [LostReply, LostRequest] \<and>
     lb_session (\<lambda>_ _. DatumId 2) kind (DatumId 1)
       [BoardExecute (LbUpdate (DatumId 5) [7, 8, 9] [0, 0, 0, 0, 0, 0, 0, 4] [] 2 1),
        BoardExecute (LbUpdate (DatumId 6) [3] [0, 0, 0, 0, 0, 0, 0, 9] [DatumId 5, DatumId 7] 2 1)] (one_replica, w) = (rs, fin) \<and>
     map encode_lb_result
       [\<lparr>lb_total = 1, lb_player_rank = Some 0, lb_top = [\<lparr>lbe_rank_key = [0, 0, 0, 0, 0, 0, 0, 4], lbe_player_id = DatumId 5, lbe_display = [7, 8]\<rparr>],
         lb_bottom = [], lb_around = [\<lparr>lbe_rank_key = [0, 0, 0, 0, 0, 0, 0, 4], lbe_player_id = DatumId 5, lbe_display = [7, 8]\<rparr>], lb_friends = []\<rparr>,
        \<lparr>lb_total = 2, lb_player_rank = Some 0, lb_top = [\<lparr>lbe_rank_key = [0, 0, 0, 0, 0, 0, 0, 9], lbe_player_id = DatumId 6, lbe_display = [3]\<rparr>],
         lb_bottom = [], lb_around = [\<lparr>lbe_rank_key = [0, 0, 0, 0, 0, 0, 0, 9], lbe_player_id = DatumId 6, lbe_display = [3]\<rparr>],
         lb_friends = [\<lparr>lbf_player_id = DatumId 5, lbf_rank = 1, lbf_rank_key = [0, 0, 0, 0, 0, 0, 0, 4], lbf_display = [7, 8]\<rparr>]\<rparr>] = rs @ rest \<and>
     (fin = AllAnswered \<and> rest = [] \<or> fin = NoReturn \<or> (\<exists>msg. fin = StoppedBy (StorePanic msg)))"
proof -
  let ?nd = "\<lparr>sn_log = \<lparr>log_file = [], index = [], end_offset = 0, log_id = []\<rparr>, sn_node_id = NodeId 1, heartbeat = 0,
    self_halt_threshold = 5, sn_transfers = [], sn_collections = no_collections []\<rparr>"
  let ?w = "\<lparr>net_nodes = [[9] \<mapsto> ?nd], net_faults = [LostReply, LostRequest]\<rparr>"
  let ?kind = "\<lparr>lk_def = \<lparr>lcd_name = [], lcd_score_type = ScoreI64, lcd_display_len = 2, lcd_rule = LbMax\<rparr>,
    lk_cache_config = \<lambda>_. \<lparr>pinned_top_size = 1, pinned_bottom_size = 1, max_cached_entries = 4\<rparr>,
    lk_collection_store = Some (remote_collection_store (faulty 0))\<rparr>"
  let ?r1 = "BoardExecute (LbUpdate (DatumId 5) [7, 8, 9] [0, 0, 0, 0, 0, 0, 0, 4] [] 2 1)"
  let ?r2 = "BoardExecute (LbUpdate (DatumId 6) [3] [0, 0, 0, 0, 0, 0, 0, 9] [DatumId 5, DatumId 7] 2 1)"
  have "colls_hold (2 ^ 32) (no_collections []) Map.empty 8" by (simp add: colls_hold_def no_collections_def file_holds_def)
  then have "view_at (coll_view (2 ^ 32) i) ?w [9] (None, 8)" for i by (auto simp: view_at_def coll_view_def)
  then have "agree (coll_view (2 ^ 32) i) one_replica ?w i LB_REPLICATION (None, 8)" for i
    by (intro one_replica_agrees_any) (simp_all add: LB_REPLICATION_def)
  then have h: "remote_holds (2 ^ 32) LB_REPLICATION {DatumId 1, DatumId 2} (one_replica, ?w) Map.empty (2 * length [?r1, ?r2])"
    by (simp add: remote_holds_def roomy_def)
  have fit: "sizes_fit 24 (2 + ucast (lcd_display_len (lk_def ?kind))) COLLECTION_PAGE_SIZE"
    by (simp add: COLLECTION_PAGE_SIZE_def sizes_fit_def validate_page_size_def is_power_of_two_def upt_rec)
  have o: "opens_to (lk_def ?kind) (DatumId 1) (DatumId 2) Map.empty []" by (simp add: opens_to_def)
  have ok: "\<forall>req\<in>set [?r1, ?r2]. wf_lb_request req" by (simp add: short_def wf_rank_key_def)
  obtain rs fin where r: "lb_session (\<lambda>_ _. DatumId 2) ?kind (DatumId 1) [?r1, ?r2] (one_replica, ?w) = (rs, fin)" by (metis prod.exhaust)
  let ?as = "[\<lparr>lb_total = 1, lb_player_rank = Some 0, lb_top = [\<lparr>lbe_rank_key = [0, 0, 0, 0, 0, 0, 0, 4], lbe_player_id = DatumId 5, lbe_display = [7, 8]\<rparr>],
      lb_bottom = [], lb_around = [\<lparr>lbe_rank_key = [0, 0, 0, 0, 0, 0, 0, 4], lbe_player_id = DatumId 5, lbe_display = [7, 8]\<rparr>], lb_friends = []\<rparr>,
     \<lparr>lb_total = 2, lb_player_rank = Some 0, lb_top = [\<lparr>lbe_rank_key = [0, 0, 0, 0, 0, 0, 0, 9], lbe_player_id = DatumId 6, lbe_display = [3]\<rparr>],
      lb_bottom = [], lb_around = [\<lparr>lbe_rank_key = [0, 0, 0, 0, 0, 0, 0, 9], lbe_player_id = DatumId 6, lbe_display = [3]\<rparr>],
      lb_friends = [\<lparr>lbf_player_id = DatumId 5, lbf_rank = 1, lbf_rank_key = [0, 0, 0, 0, 0, 0, 0, 4], lbf_display = [7, 8]\<rparr>]\<rparr>]"
  have run: "board_run (lk_def ?kind) (lk_cache_config ?kind (DatumId 1)) [?r1, ?r2] [] = ?as"
    by (simp add: board_update_def board_put_def others_def player_entry_def place_def standing_def board_result_def board_around_def
        window_around_def board_friend_def List.map_filter_def beats_def lb_key_def lb_composite_key_def Let_def)
  have store: "lk_collection_store ?kind = Some (remote_collection_store (faulty 0))" by simp
  from leaderboards_answer_from_the_standing [OF h o _ _ fit ok store r, unfolded run] obtain rest where
    "map encode_lb_result ?as = rs @ rest" "fin = AllAnswered \<and> rest = [] \<or> fin = NoReturn \<or> (\<exists>msg. fin = StoppedBy (StorePanic msg))" by auto
  with r show ?thesis by (intro exI [of _ ?kind] exI [of _ ?w] exI [of _ rs] exI [of _ rest] exI [of _ fin]) simp
qed


text \<open>
  C38: A class with long displays halts the cluster. The entries of a board are stored in pages of 4096
  bytes; nothing checks the display length of a class against that. The first access to a board of a
  class with displays of more than 4038 bytes asks every replica to create a collection whose entries
  fit no page; each refuses, the caller takes the answers for failed nodes, marks them all stale,
  panics and engages the cluster-wide halt.
\<close>

theorem long_displays_halt_the_cluster:
  assumes "agree (coll_absent board_id) c w board_id n ()" and "serving_replicas c board_id n = Some ts"
    and "4038 < unat (lcd_display_len cd)"
  shows "\<exists>msg c' w'. lb_cache_new from_name cd (remote_collection_store (faulty now)) board_id n config (c, w) = Some (Inl msg, c', w') \<and>
    set ts \<subseteq> storage_stale c' \<and> gate (cluster_halt c') \<noteq> None"
proof -
  let ?vs = "2 + ucast (lcd_display_len cd) :: u32" and ?c = "c\<lparr>storage_stale := storage_stale c \<union> set ts\<rparr>"
  let ?step = "coll_write_one (faulty now) (SCollectionCreate board_id 24 ?vs)"
  have "unat (ucast (lcd_display_len cd) :: u32) = unat (lcd_display_len cd)" "unat (lcd_display_len cd) < 2 ^ 16"
    using unsigned_less [of "lcd_display_len cd", where ?'a = nat] by (simp_all add: unsigned_ucast_eq take_bit_nat_eq_self)
  then have big: "4096 - 32 < unat (24 :: u32) + unat ?vs" using assms(3) by (simp add: unat_word_ariths)
  have w: "writes (coll_absent board_id) ?step () ()"
  proof (rule writesI)
    fix c node w res w' assume "store_addresses c node = None" "?step c node w = (res, w')"
    then show "w' = w \<and> res \<noteq> Inr ()" by (auto simp: coll_write_one_def try_call_def)
  qed (use oversized_writes [OF big] in blast)
  have da: "distinct_addresses c ts" "all_at (coll_absent board_id) c w (set ts) ()" using assms(1,2) by (auto simp: agree_def)
  obtain w' where l: "replica_loop ?step ts (0 :: nat, c, w) = (0, ?c, w')"
    using replica_loop_refused [OF w _ da, of 0] oversized_writes [OF big] by blast
  obtain msg c' where p: "(panicked ?c board_id :: unit stored) = (Inl msg, c')" "storage_stale c' = storage_stale ?c"
    by (simp add: panicked_def halt_total_loss_def Let_def)
  have "coll_create (faulty now) c board_id 24 ?vs n w = Some ((Inl msg, c'), w')"
    using assms(2) l p(1) by (cases ts) (simp_all add: coll_create_def coll_write_all_def coll_write_loop_replicas)
  then have "lb_cache_new from_name cd (remote_collection_store (faulty now)) board_id n config (c, w) = Some (Inl msg, c', w')"
    by (simp add: lb_cache_new_def remote_collection_store_def on_cluster_def Let_def)
  moreover have "gate (cluster_halt c') \<noteq> None" by (rule panickedD [OF p(1)])
  ultimately show ?thesis using p(2) by (intro exI [of _ msg] exI [of _ c'] exI [of _ w']) (simp del: not_None_eq)
qed


theorem long_displays_halt_the_cluster_witness:
  "\<exists>w msg c' w'. net_faults w = [] \<and>
     lb_cache_new (\<lambda>_ _. DatumId 2) \<lparr>lcd_name = [], lcd_score_type = ScoreI64, lcd_display_len = 5000, lcd_rule = LbMax\<rparr>
       (remote_collection_store (faulty 0)) (DatumId 1) LB_REPLICATION
       \<lparr>pinned_top_size = 1, pinned_bottom_size = 1, max_cached_entries = 4\<rparr> (one_replica, w) = Some (Inl msg, c', w') \<and>
     NodeId 1 \<in> storage_stale c' \<and> gate (cluster_halt c') \<noteq> None"
proof -
  let ?nd = "\<lparr>sn_log = \<lparr>log_file = [], index = [], end_offset = 0, log_id = []\<rparr>, sn_node_id = NodeId 1, heartbeat = 0,
    self_halt_threshold = 5, sn_transfers = [], sn_collections = no_collections []\<rparr>"
  let ?w = "\<lparr>net_nodes = [[9] \<mapsto> ?nd], net_faults = []\<rparr>"
  let ?cd = "\<lparr>lcd_name = [], lcd_score_type = ScoreI64, lcd_display_len = 5000, lcd_rule = LbMax\<rparr>"
  have two: "LB_REPLICATION \<noteq> 0" by (simp add: LB_REPLICATION_def)
  have "view_at (coll_absent (DatumId 1)) ?w [9] ()" by (simp add: view_at_def coll_absent_def no_collections_def)
  from one_replica_agrees_any [OF two this]
  have a: "agree (coll_absent (DatumId 1)) one_replica ?w (DatumId 1) LB_REPLICATION ()" .
  have "4038 < unat (lcd_display_len ?cd)" by simp
  from long_displays_halt_the_cluster [OF a one_replica_serves_any [OF two] this] show ?thesis
    by (intro exI [of _ ?w]) simp
qed

end
