(* ===== verification/Spec2Isabelle.thy ===== *)
theory Spec2Isabelle
  imports Store_Cache Failure_Detector Wire_Request Wire_Response
    Gossip_Wire Native_Lock Remote_Store Collection_Store Migrate_Trace Tk_Query
    Typed_Index Worker_Ops Leaderboards
begin

text \<open>
  Seisin is a clustered datum server. Compute nodes run named operations on datums, each datum owned
  by one thread of one node; storage nodes keep the datums in a log and ordered collections in B+tree
  files; a gossip protocol tells the nodes of each other, and a migration driver moves data when the
  storage ring changes. This development models the logic of the crates under \<open>src/crates\<close> as
  functions on explicit states and proves what makes them correct. The paths below are relative to
  \<open>src/crates\<close>.

  \<^bold>\<open>How the parts interact.\<close> A client sends a request (\<open>seisin-protocol\<close>) to a compute node. The ring
  (\<open>seisin-ring\<close>) names the owning thread; that thread's message loop (\<open>seisin-node/src/worker.rs\<close>)
  collects the locks of the datums (\<open>collation.rs\<close>) from their home threads, runs the operation on a
  context that stages its writes (\<open>seisin-ops\<close>), sends the index updates that the typed accessor
  (\<open>seisin-types\<close>) has scheduled to the threads that own the indexes, and commits or drops the staged
  writes by the replies. The write-through cache (\<open>seisin-core\<close>) writes to a replicated store
  (\<open>remote_store.rs\<close>, \<open>collection_store.rs\<close>) that calls the storage nodes (\<open>store_server.rs\<close>) over
  their wire format; those append to a datum log and to B+tree files (\<open>seisin-storage\<close>). Membership,
  failure detection and ring epochs (\<open>seisin-gossip\<close>) drive the cluster state (\<open>gossip_state.rs\<close>).

  \<^bold>\<open>Conventions.\<close> A struct is a record, an enum a datatype, a method that changes its receiver returns the
  changed record; machine integers are words where they wrap or are encoded and naturals where they
  count. \<open>anyhow\<close> errors and panics are values of \<open>bail\<close> on the left of a sum, an option result is
  a call that may not return. A string is its list of bytes. A hash map is a map, or an association
  list where the code walks over it, in the order in which the code does. What is not under \<open>src\<close>
  (the uuid crate, clocks, sockets, the handlers of a solution) is an argument. Disk failures are left
  out throughout.

  \<^bold>\<open>The library.\<close>
  \<^item> \<open>Prelude\<close>, \<open>Cursor\<close>, \<open>Messages\<close>: words and their little-endian bytes, errors and \<open>?\<close>, byte cursors, UTF-8, the
    texts of messages. The locales \<open>wire_pair\<close>, \<open>codec\<close> and \<open>buffer_codec\<close> of \<open>Cursor\<close> are the
    contract of an encoder with its decoder (what was put is taken, and what is taken was put) and
    carry the codec proofs; every codec of the program interprets one of them.
  \<^item> \<open>Ids\<close>: \<open>seisin-core/src/datum.rs\<close>, \<open>authority.rs\<close>, \<open>sk.rs\<close>.
  \<^item> \<open>Store_Cache\<close>: \<open>seisin-core/src/store.rs\<close>, \<open>cache.rs\<close>. The locale \<open>kv_store\<close> is the contract of a store,
    interpreted on \<open>InMemoryStore\<close>; over it the cache reads what the store holds in every reachable
    state in which it is told of foreign writes.
  \<^item> \<open>Jump_Hash\<close>, \<open>Ring\<close>: \<open>seisin-ring\<close>. The rejection loop of the hash is a partial function proved to return for
    every key; the locale \<open>bucket_hash\<close> is what the ring needs of a hash: adding a slot
    moves a datum only to it. Replicas are distinct and as many as asked for.
  \<^item> \<open>Membership\<close>, \<open>Sequencer\<close>, \<open>Failure_Detector\<close>, \<open>Gossip_Wire\<close>: \<open>seisin-gossip\<close>. Merged facts give the same
    table in any order, a node is declared dead not before the timeouts and eventually after them.
  \<^item> \<open>Wire_Prims\<close>, \<open>Wire_Queries\<close>, \<open>Wire_Request\<close>, \<open>Wire_Response\<close>: \<open>seisin-protocol/src/lib.rs\<close>; \<open>Store_Wire\<close>:
    \<open>store_wire.rs\<close>. Which byte strings each decoder accepts, exactly.
  \<^item> \<open>Crc\<close>, \<open>Delta\<close>, \<open>Datum_Log\<close>: \<open>seisin-storage\<close>. The table-driven checksum is the bitwise division; a log
    reopened after a crash that tears its last record holds what the acknowledged operations wrote.
  \<^item> \<open>Btree_Page\<close>, \<open>Btree\<close>: superblock, pages and every operation of \<open>btree.rs\<close>. \<open>Btree_Map\<close> is the sorted map that is
    its meaning; \<open>Btree_Shape\<close>, \<open>Btree_Store\<close>, \<open>Btree_Read\<close>, \<open>Btree_Write\<close>, \<open>Btree_Insert\<close> and \<open>Btree_Remove\<close> give
    the tree behind the pages, what reads and writes of pages do to it, and the two updates;
    \<open>Btree_Collection\<close> joins them. Its locale \<open>ordered_collection\<close> is the contract of a file of
    sorted entries, interpreted on the B+tree.
  \<^item> \<open>Collections\<close>, \<open>Collection_Node\<close>: the collections of a storage node and their meaning as a map of sorted
    maps, across restarts.
  \<^item> \<open>Halt\<close>, \<open>Transfer_Table\<close>, \<open>Store_Server\<close>: the serving gate, the live transfers and the request handler of a
    storage node. Whatever is written while a transfer runs, the destination ends with the source's
    contents.
  \<^item> \<open>Cluster_State\<close>, \<open>Storage_Net\<close>, \<open>Remote_Store\<close>, \<open>Collection_Store\<close>: what a compute node knows of the cluster,
    its calls to the storage nodes over a network that loses requests and replies, and the
    replicated datums and collections: they behave as one register and one sorted map.
    \<open>Collection_Trait\<close>: the trait \<open>CollectionStore\<close>; its locale \<open>collection_maps\<close> is the contract of several
    collections at once, interpreted on the replicated ones.
  \<^item> \<open>Lru\<close>, \<open>Lb_Cache\<close>: leaderboards, a cache over two collections (\<open>lb.rs\<close>, \<open>lb_kind.rs\<close>, \<open>lb_cache.rs\<close>).
    \<open>Lb_Board\<close> is the board they stand for, \<open>Lb_Serve\<close> with the locale \<open>leaderboard\<close> shows over the contract
    of the collections that every answer comes from it, and \<open>Leaderboards\<close> interprets that on the
    replicated collections and states it for whole runs.
  \<^item> \<open>Migrate\<close>, \<open>Migrate_Trace\<close>: \<open>seisin-migrate/src/lib.rs\<close> with \<open>seisin-client\<close>; the plan keeps every copy, and a run
    against any network sends its requests in the order of the phases.
  \<^item> \<open>Field_Values\<close>, \<open>Schema\<close>: typed values and type declarations. \<open>Rank_Key\<close>, \<open>Index_Kind\<close>, \<open>Rk_Index\<close>: ranked
    indexes and partitions over B+tree files; the locale \<open>tree_set\<close> is the contract of an index
    that is a set of items, interpreted on both. \<open>Sk_Index\<close>: secondary-key and pending-reference lists.
    \<open>Tk_History\<close>, with \<open>Tk_Timeline\<close>, \<open>Tk_Spans\<close>, \<open>Tk_Query\<close>: histories of values over time and the timeline they
    tell.
  \<^item> \<open>Op_Context\<close>, \<open>Typed_Context\<close>: what an operation sees, and the typed accessor with the updates it schedules;
    \<open>Typed_Index\<close>: those updates keep the secondary-key indexes exact.
  \<^item> \<open>Native_Lock\<close>: the lock of a datum. \<open>Worker\<close>: the message loop of a thread, one function per message;
    \<open>Worker_Ops\<close>: it does not panic, answers each question at most once, and an operation writes
    everything or nothing.

  \<^bold>\<open>Bounds.\<close> Loops that follow data (descents in a page file, the hash, polling) are partial functions with
  the value \<open>None\<close> for not returning, and are proved to return where the operations build the data.
  Theorems about files assume that all page numbers a run can use fit 64 bits (a run of \<open>p\<close>
  insertions uses at most \<open>2 * p + 1\<close> pages); theorems about rings that the slots fit 32 bits;
  encoders that lengths fit their 32-bit prefix. All of these are hypotheses of the theorems.

  \<^bold>\<open>Errors found.\<close> Several theorems show what the code does wrong: a transfer whose calls all fail is
  acknowledged, a stale mark is known to one node only, a refused insert halts the cluster, an
  operation that loses a lock in its update phase commits all the same, a refused change of a unique
  field leaves the index without the old entry, a second reference to a missing datum is refused
  although references are tracked, a change of the sign of a zero is not indexed, and a leaderboard class
  with long displays halts the cluster.

  \<^bold>\<open>Not modelled.\<close> Sockets, threads, sleeping and configuration (\<open>gossip_client.rs\<close>, \<open>gossip_server.rs\<close>,
  \<open>peer_link.rs\<close>, \<open>node.rs\<close>, \<open>config.rs\<close>, the binaries): they move the messages whose handling is modelled. The
  worker pool and the client port (\<open>pool.rs\<close>, \<open>server.rs\<close>), which turn a request into one message; the
  rescan driver (\<open>driver.rs\<close>). A panic inside an index kind is not a step of the worker.
\<close>

end
